(* ===== verification/Prelude.thy ===== *)
theory Prelude
  imports Main "HOL-Library.Word"
begin

text \<open>
  Shared vocabulary of the development: the machine integer types of
  \<^verbatim>\<open>LibCore/Types.h\<close>, the way the code fails (assertions, \<^verbatim>\<open>panic\<close>, container
  \<^verbatim>\<open>at()\<close>), the sum-typed results that carry those failures, decimal printing, and the
  lemmas on words, lists and results that every component uses.
\<close>

section \<open>Machine integers\<close>

type_synonym u8 = "8 word"
type_synonym u16 = "16 word"
type_synonym u32 = "32 word"
type_synonym u64 = "64 word"
type_synonym bits_t = "32 word"
type_synonym bytes_t = "32 word"
type_synonym addr_t = "64 word"
type_synonym ds_id = string

section \<open>Failures and results\<close>

text \<open>
  \<open>Assert_Failed\<close> is a failing \<^verbatim>\<open>assert\<close> (the build keeps assertions on),
  \<open>Panicked\<close> the \<^verbatim>\<open>panic\<close> macro of \<^verbatim>\<open>LibCore/Debug.h\<close>, \<open>Out_Of_Range\<close> the
  exception of \<^verbatim>\<open>std::map::at\<close> and \<open>Undefined\<close> a value the language leaves
  undefined. Each of them ends the program, so a result is a sum.
\<close>

datatype error = Assert_Failed | Panicked | Out_Of_Range | Undefined

type_synonym 'a result = "error + 'a"

named_theorems result_simps \<open>evaluation rules for results\<close>
named_theorems ds_simps \<open>projections of data structures\<close>

definition rbind :: "'a result \<Rightarrow> ('a \<Rightarrow> 'b result) \<Rightarrow> 'b result" where
  "rbind r k = (case r of Inl e \<Rightarrow> Inl e | Inr x \<Rightarrow> k x)"

definition assert_that :: "bool \<Rightarrow> 'a result \<Rightarrow> 'a result" where
  "assert_that P k = (if P then k else Inl Assert_Failed)"

lemma rbind_Inl [simp, result_simps]: "rbind (Inl e) k = Inl e"
  and rbind_Inr [simp, result_simps]: "rbind (Inr x) k = k x"
  by (simp_all add: rbind_def)

lemma rbind_eq_Inr [result_simps]:
  "rbind r k = Inr y \<longleftrightarrow> (\<exists>x. r = Inr x \<and> k x = Inr y)"
  by (cases r) auto

lemma assert_that_True [simp]: "assert_that True k = k"
  and assert_that_False [simp]: "assert_that False k = Inl Assert_Failed"
  by (simp_all add: assert_that_def)

lemma assert_that_eq_Inr [result_simps]:
  "assert_that P k = Inr y \<longleftrightarrow> P \<and> k = Inr y"
  by (simp add: assert_that_def)

lemma assert_thatI: "P \<Longrightarrow> assert_that P k = k"
  by simp

text \<open>A vector built by pushing the results of a loop body, stopping at the first failure.\<close>

fun rmap :: "('a \<Rightarrow> 'b result) \<Rightarrow> 'a list \<Rightarrow> 'b list result" where
  "rmap f [] = Inr []"
| "rmap f (x # xs) = rbind (f x) (\<lambda>y. rbind (rmap f xs) (\<lambda>ys. Inr (y # ys)))"

lemma rmap_eq_Inr:
  "rmap f xs = Inr ys \<longleftrightarrow> list_all2 (\<lambda>x y. f x = Inr y) xs ys"
proof (induction xs arbitrary: ys)
  case Nil
  show ?case by auto
next
  case (Cons x xs)
  then show ?case
    by (cases ys) (auto simp: rbind_eq_Inr list_all2_Cons1)
qed

lemma rmap_total:
  assumes "\<And>x. x \<in> set xs \<Longrightarrow> f x = Inr (g x)"
  shows "rmap f xs = Inr (map g xs)"
  using assms by (induction xs) auto

section \<open>Decimal printing\<close>

text \<open>\<^verbatim>\<open>std::to_string\<close> on an unsigned number: its decimal digits.\<close>

definition digit_char :: "nat \<Rightarrow> char" where
  "digit_char d = ''0123456789'' ! d"

fun to_string :: "nat \<Rightarrow> string" where
  "to_string n =
     (if n < 10 then [digit_char n] else to_string (n div 10) @ [digit_char (n mod 10)])"

declare to_string.simps [simp del]

lemma to_string_nonempty: "to_string n \<noteq> []"
  by (subst to_string.simps) simp

lemma digit_char_inj:
  assumes "m < 10" "n < 10" "digit_char m = digit_char n"
  shows "m = n"
proof -
  have "distinct ''0123456789''" by simp
  with assms show ?thesis
    unfolding digit_char_def by (subst (asm) nth_eq_iff_index_eq) auto
qed

lemma digit_char_mem: "d < 10 \<Longrightarrow> digit_char d \<in> set ''0123456789''"
  unfolding digit_char_def by (rule nth_mem) simp

lemma to_string_digits: "set (to_string n) \<subseteq> set ''0123456789''"
proof (induction n rule: to_string.induct)
  case (1 n)
  then show ?case
    using digit_char_mem [of n] digit_char_mem [of "n mod 10"]
    by (subst to_string.simps) (simp del: insert_subset, fastforce)
qed

lemma to_string_inj: "to_string m = to_string n \<Longrightarrow> m = n"
proof (induction m arbitrary: n rule: to_string.induct)
  case (1 m)
  have m: "to_string m = (if m < 10 then [digit_char m]
      else to_string (m div 10) @ [digit_char (m mod 10)])"
    and n: "to_string n = (if n < 10 then [digit_char n]
      else to_string (n div 10) @ [digit_char (n mod 10)])"
    by (subst to_string.simps, rule refl)+
  show ?case
  proof (cases "m < 10"; cases "n < 10")
    assume "m < 10" "n < 10"
    with 1(2) m n show ?thesis by (auto intro: digit_char_inj)
  next
    assume a: "m < 10" "\<not> n < 10"
    with 1(2) m n have "to_string (n div 10) = []" by (auto simp: append_eq_Cons_conv)
    then show ?thesis by (simp add: to_string_nonempty)
  next
    assume a: "\<not> m < 10" "n < 10"
    with 1(2) m n have "to_string (m div 10) = []" by (auto simp: append_eq_Cons_conv)
    then show ?thesis by (simp add: to_string_nonempty)
  next
    assume a: "\<not> m < 10" "\<not> n < 10"
    with 1(2) m n have "to_string (m div 10) = to_string (n div 10)"
      and "digit_char (m mod 10) = digit_char (n mod 10)" by auto
    with 1(1) [OF a(1)] have "m div 10 = n div 10" "m mod 10 = n mod 10"
      by (auto intro: digit_char_inj [rotated 2])
    then show ?thesis by (metis div_mult_mod_eq)
  qed
qed

lemma to_string_eq_iff [simp]: "to_string m = to_string n \<longleftrightarrow> m = n"
  by (auto dest: to_string_inj)

section \<open>Words\<close>

lemma unat_eq_iff [simp]: "unat a = unat b \<longleftrightarrow> a = b"
  for a b :: "'a::len word"
  by (auto dest: unsigned_word_eqI)

lemma unat_sub_le: "b \<le> a \<Longrightarrow> unat (a - b) = unat a - unat b"
  for a b :: "'a::len word"
  by (simp add: unat_sub)

lemma word_min_le1: "min a b \<le> (a :: 'a::len word)"
  and word_min_le2: "min a b \<le> (b :: 'a::len word)"
  by simp_all

lemma unat_min: "unat (min a b) = min (unat a) (unat b)"
  for a b :: "'a::len word"
  by (simp add: min_def word_le_nat_alt)

lemma unat_power_u32:
  assumes "b < 32"
  shows "unat (2 ^ b :: u32) = 2 ^ b"
proof -
  have "(2 :: nat) ^ b < 2 ^ 32" using assms by (intro power_strict_increasing) auto
  moreover have "unat (of_nat (2 ^ b) :: u32) = 2 ^ b mod 2 ^ 32" by (simp only: unat_of_nat word_size len_num1) simp
  ultimately show ?thesis by simp
qed

end
