(* ===== verification/CoreTypes.thy ===== *)
theory CoreTypes
  imports Prelude
begin

text \<open>
  The arithmetic helpers of \<^verbatim>\<open>LibCore\<close> that the resource model computes with: rounding a
  bit count up to whole bytes, powers of two and their logarithm, the conversion between
  packet and bit rates, and number printing with a thousands separator.
\<close>

unbundle bit_operations_syntax

section \<open>Rounding to bytes\<close>

text \<open>
  The macro works on 32-bit counts, so it wraps to 0 for the seven largest arguments; the
  lemma gives its value everywhere else.
\<close>

definition align_to_byte :: "bits_t \<Rightarrow> bits_t" where
  "align_to_byte B = (if B mod 8 = 0 then B else B + 8 - B mod 8)"

lemma umod8: "unat ((B::32 word) mod 8) = unat B mod 8"
  by (simp add: unat_mod)

lemma unat_align_to_byte:
  assumes "unat B + 7 < 2 ^ 32"
  shows "unat (align_to_byte B) = 8 * ((unat B + 7) div 8)"
proof (cases "B mod 8 = 0")
  case True
  then have "unat B mod 8 = 0" using umod8 [of B] by simp
  then have "8 * ((unat B + 7) div 8) = unat B" by presburger
  with True show ?thesis by (simp add: align_to_byte_def)
next
  case False
  let ?r = "unat B mod 8"
  have r: "?r \<noteq> 0" using umod8 [of B] False by (metis unat_eq_zero)
  have le: "B mod 8 \<le> 8" by (simp add: word_le_nat_alt umod8)
  have "align_to_byte B = B + (8 - B mod 8)" using False by (simp add: align_to_byte_def)
  moreover have "unat (8 - B mod 8) = 8 - ?r" using le by (simp add: unat_sub umod8)
  moreover have "unat B + (8 - ?r) < 2 ^ 32" using assms r by linarith
  ultimately have "unat (align_to_byte B) = unat B + (8 - ?r)"
    by (simp add: unat_word_ariths)
  then show ?thesis using r by presburger
qed

lemma align_to_byte_0 [simp]: "align_to_byte 0 = 0"
  by (simp add: align_to_byte_def)

section \<open>Powers of two\<close>

definition is_power_of_two :: "u64 \<Rightarrow> bool" where
  "is_power_of_two x \<longleftrightarrow> x AND (x - 1) = 0"

lemma unat_half: "unat (drop_bit 1 (c::'a::len word)) = unat c div 2"
  by (simp only: unat_drop_bit_eq) (simp add: drop_bit_eq_div)

function log2_loop :: "u64 \<Rightarrow> bits_t \<Rightarrow> bits_t" where
  "log2_loop c sz =
     (let c' = drop_bit 1 c in if c' \<noteq> 0 then log2_loop c' (sz + 1) else sz)"
  by pat_completeness auto
termination
proof (relation "measure (\<lambda>(c, _). unat c)", simp)
  fix c c' :: u64 and sz :: bits_t
  assume "c' = drop_bit 1 c" "c' \<noteq> 0"
  then have "unat c' = unat c div 2" "unat c' \<noteq> 0"
    using unat_half [of c] unat_eq_zero [of c'] by auto
  then show "((c', sz + 1), c, sz) \<in> measure (\<lambda>(c, _). unat c)" by simp
qed
declare log2_loop.simps [simp del]

definition bits_from_pow2_capacity :: "u64 \<Rightarrow> bits_t result" where
  "bits_from_pow2_capacity capacity =
     assert_that (is_power_of_two capacity) (Inr (log2_loop capacity 0))"

lemma log2_loop_pow: "unat c = 2 ^ n \<Longrightarrow> log2_loop c sz = sz + of_nat n"
proof (induction n arbitrary: c sz)
  case 0
  then have "drop_bit 1 c = 0"
    using unat_half [of c] by (simp only: unat_eq_zero [symmetric]) simp
  then show ?case by (subst log2_loop.simps) simp
next
  case (Suc n)
  have u: "unat (drop_bit 1 c) = 2 ^ n" using Suc.prems unat_half [of c] by simp
  then have "drop_bit 1 c \<noteq> 0" by (metis power_not_zero unat_0 zero_neq_numeral)
  then show ?case using Suc.IH [OF u] by (subst log2_loop.simps) (simp add: Let_def)
qed

lemma is_power_of_two_exp: "is_power_of_two (2 ^ n)"
  unfolding is_power_of_two_def
  by (rule bit_word_eqI) (auto simp: bit_and_iff bit_mask_iff bit_exp_iff simp flip: mask_eq_exp_minus_1)

lemma is_power_of_two_cases: "is_power_of_two x \<longleftrightarrow> x = 0 \<or> (\<exists>n<64. x = 2 ^ n)"
proof
  assume p: "is_power_of_two x"
  show "x = 0 \<or> (\<exists>n<64. x = 2 ^ n)"
  proof (cases "x = 0")
    case False
    then have "unat x \<noteq> 0" by (simp add: unat_eq_zero)
    then obtain n where n: "2 ^ n \<le> unat x" "unat x < 2 ^ (n + 1)"
      using ex_power_ivl1 [of 2 "unat x"] by auto
    have "(2::nat) ^ n < 2 ^ 64" using n(1) unsigned_less [of x, where ?'a = nat] by simp
    then have n64: "n < 64" by (rule power_less_imp_less_exp [rotated]) simp
    have top: "bit y n" if "2 ^ n \<le> unat y" "unat y < 2 ^ (n + 1)" for y :: u64
    proof -
      have "unat y div 2 ^ n = 1" using that by (intro div_nat_eqI) auto
      then have "bit (unat y) n" by (simp add: bit_iff_odd)
      then show ?thesis by (simp add: bit_unsigned_iff)
    qed
    have bx: "bit x n" using n by (rule top)
    show ?thesis
    proof (cases "unat x = 2 ^ n")
      case True
      then have "of_nat (unat x) = (of_nat (2 ^ n) :: u64)" by simp
      then have "x = 2 ^ n" by simp
      with n64 show ?thesis by blast
    next
      case neq: False
      have "unat (x - 1) = unat x - 1" using False by (simp add: unat_minus_one)
      with n neq have "2 ^ n \<le> unat (x - 1)" "unat (x - 1) < 2 ^ (n + 1)" by auto
      then have "bit (x - 1) n" by (rule top)
      with bx have "bit (x AND (x - 1)) n" by (simp add: bit_and_iff)
      with p show ?thesis by (simp add: is_power_of_two_def)
    qed
  qed simp
qed (auto simp: is_power_of_two_exp, simp add: is_power_of_two_def)

lemma unat_exp2: "n < 64 \<Longrightarrow> unat ((2::u64) ^ n) = 2 ^ n"
proof -
  assume "n < 64"
  then have "(2::nat) ^ n < 2 ^ 64" by (rule power_strict_increasing) simp
  then have "unat (of_nat (2 ^ n) :: u64) = 2 ^ n" by (simp only: unat_of_nat) (simp add: mod_less)
  then show ?thesis by simp
qed

lemma unat_widen: "unat (ucast x :: u64) = unat x" for x :: u32
proof -
  have "unat x < 2 ^ 64" using unsigned_less [of x, where ?'a = nat] by simp
  then show ?thesis by (simp only: unsigned_ucast_eq) (simp add: take_bit_nat_eq_self)
qed

lemma bits_from_pow2_exp: "n < 64 \<Longrightarrow> bits_from_pow2_capacity (2 ^ n) = Inr (of_nat n)"
  by (simp add: bits_from_pow2_capacity_def is_power_of_two_exp log2_loop_pow [of _ n] unat_exp2)

lemma bits_from_pow2_capacity_rejects:
  "bits_from_pow2_capacity c = Inl e \<longleftrightarrow> e = Assert_Failed \<and> \<not> is_power_of_two c"
  by (auto simp: bits_from_pow2_capacity_def assert_that_def)

section \<open>Packet and bit rates\<close>

text \<open>
  The per-packet overhead (preamble 8, CRC 4, inter-packet gap 12 bytes) is added in 32
  bits. The divisor of \<^verbatim>\<open>bps2pps\<close> is multiplied by 8 still in 32 bits, the product of
  \<^verbatim>\<open>pps2bps\<close> in 64. A zero divisor is undefined behaviour.
\<close>

definition bps2pps :: "u64 \<Rightarrow> bytes_t \<Rightarrow> u64 result" where
  "bps2pps bps pkt_size =
     (let d = (8 + pkt_size + 4 + 12) * 8 :: bytes_t
      in if d = 0 then Inl Undefined else Inr (bps div ucast d))"

definition pps2bps :: "u64 \<Rightarrow> bytes_t \<Rightarrow> u64" where
  "pps2bps pps pkt_size = pps * ucast (8 + pkt_size + 4 + 12 :: bytes_t) * 8"

lemma bps2pps_inverse:
  assumes "unat pkt_size + 24 < 2 ^ 29"
    and "unat pps * ((unat pkt_size + 24) * 8) < 2 ^ 64"
  shows "bps2pps (pps2bps pps pkt_size) pkt_size = Inr pps"
proof -
  let ?n = "unat pkt_size + 24"
  let ?s = "8 + pkt_size + 4 + 12 :: bytes_t"
  have s: "unat ?s = ?n"
    using assms(1) by (simp add: unat_word_ariths)
  have s8: "unat (?s * 8) = ?n * 8"
    using assms(1) s by (simp add: unat_word_ariths)
  then have d: "?s * 8 \<noteq> 0" by (metis add_is_0 mult_is_0 unat_0 zero_neq_numeral)
  have w: "unat (ucast (?s * 8) :: u64) = ?n * 8" using s8 by (simp only: unat_widen)
  have ws: "unat (ucast ?s :: u64) = ?n" using s by (simp only: unat_widen)
  have "unat (pps2bps pps pkt_size) = unat pps * (?n * 8)"
    using assms(2) ws by (simp only: pps2bps_def unat_word_ariths mod_mult_left_eq) (simp add: mult.assoc)
  then have "unat (pps2bps pps pkt_size div ucast (?s * 8)) = unat pps"
    using w by (simp only: unat_div_distrib) simp
  then have "pps2bps pps pkt_size div ucast (?s * 8) = pps" by (simp only: unsigned_word_eqI)
  then show ?thesis using d by (simp only: bps2pps_def Let_def if_False)
qed

section \<open>Printing with separators\<close>

abbreviation thousands_separator :: char where
  "thousands_separator \<equiv> CHR 0x27"

function insert_separators :: "int \<Rightarrow> string \<Rightarrow> string" where
  "insert_separators i str =
     (if i > 0
      then insert_separators (i - 3) (take (nat i) str @ [thousands_separator] @ drop (nat i) str)
      else str)"
  by pat_completeness auto
termination by (relation "measure (\<lambda>(i, _). nat i)") auto
declare insert_separators.simps [simp del]

definition to_string_signed :: "int \<Rightarrow> string" where
  "to_string_signed n = (if n < 0 then CHR ''-'' # to_string (nat (- n)) else to_string (nat n))"

definition int2hr :: "64 word \<Rightarrow> string" where
  "int2hr value =
     (let str = to_string_signed (sint value)
      in insert_separators (int (length str) - 3) str)"

lemma insert_separators_filter:
  "filter (\<lambda>c. c \<noteq> thousands_separator) (insert_separators i str) =
   filter (\<lambda>c. c \<noteq> thousands_separator) str"
proof (induction i str rule: insert_separators.induct)
  case (1 i str)
  have "filter P (take k str) @ filter P (drop k str) = filter P str" for k P
    by (metis append_take_drop_id filter_append)
  with 1 show ?case by (subst insert_separators.simps) (simp del: filter_append add: filter_append)
qed

lemma digit_not_separator: "c \<in> set (to_string n) \<Longrightarrow> c \<noteq> thousands_separator"
  using to_string_digits [of n] by auto

lemma int2hr_digits:
  "filter (\<lambda>c. c \<noteq> thousands_separator) (int2hr value) = to_string_signed (sint value)"
proof -
  have "filter (\<lambda>c. c \<noteq> thousands_separator) (to_string_signed n) = to_string_signed n" for n
    by (auto simp: to_string_signed_def filter_id_conv dest: digit_not_separator)
  then show ?thesis by (simp add: int2hr_def Let_def insert_separators_filter)
qed

end
