(* ===== verification/Primitives.thy ===== *)
theory Primitives
  imports CoreTypes
begin

text \<open>
  The switch description (\<^verbatim>\<open>TNA/TNAProperties.h\<close>) and the primitive Tofino data structures
  of \<^verbatim>\<open>Modules/Tofino/DataStructures\<close>: tables, registers, meters, hashes, digests and LPM
  tables, each with its constructor and the resources it reports to the placer. Key and
  parameter lists are sizes in bits; every count is a 32-bit word, as in the code.
\<close>

section \<open>Switch properties\<close>

record tna_properties =
  total_ports :: int
  total_recirc_ports :: int
  max_packet_bytes_in_condition :: bytes_t
  pipes :: int
  stages :: int
  sram_per_stage :: bits_t
  tcam_per_stage :: bits_t
  map_ram_per_stage :: bits_t
  max_logical_tcam_tables_per_stage :: int
  max_logical_sram_and_tcam_tables_per_stage :: int
  phv_size :: bits_t
  phv_8bit_containers :: int
  phv_16bit_containers :: int
  phv_32bit_containers :: int
  packet_buffer_size :: bits_t
  exact_match_xbar_per_stage :: bits_t
  max_exact_match_keys :: int
  ternary_match_xbar :: bits_t
  max_ternary_match_keys :: int
  max_salu_size :: bits_t
  max_digests :: u8
  min_expiration_time :: u64
  max_capacity :: u64

record tofino_port =
  nf_device :: u16
  front_panel_port :: u16
  port_pipe :: u16
  port_capacity :: u64

record tofino_recirculation_port =
  dev_port :: u16
  recirc_pipe :: u16
  recirc_capacity :: u64

record tna_config =
  properties :: tna_properties
  ports :: "tofino_port list"
  recirculation_ports :: "tofino_recirculation_port list"

definition get_available_devs :: "tna_config \<Rightarrow> u16 set" where
  "get_available_devs c = set (map nf_device (ports c))"

section \<open>Kinds of data structures and register actions\<close>

datatype ds_type =
    Table | Register | Meter | Hash | Digest
  | MapTable | GuardedMapTable | VectorTable | DchainTable | VectorRegister
  | FCFSCachedTable | HHTable | CountMinSketch | LPM | CuckooHashTable

datatype register_action =
    Read | Write | Swap | Increment | Decrement | SetToOneAndReturnOldValue
  | IncrementAndReturnNewValue | ReadConditionalWrite | CalculateDiff | SampleEveryFourth
  | QueryTimestamp | QueryAndRefreshTimestamp | CheckValue | IntegerAllocatorHeadReadAndUpdate

lemma finite_register_actions [simp]: "finite (A :: register_action set)"
proof (rule finite_subset)
  show "A \<subseteq> {Read, Write, Swap, Increment, Decrement, SetToOneAndReturnOldValue,
    IncrementAndReturnNewValue, ReadConditionalWrite, CalculateDiff, SampleEveryFourth,
    QueryTimestamp, QueryAndRefreshTimestamp, CheckValue, IntegerAllocatorHeadReadAndUpdate}"
  proof
    fix x assume "x \<in> A"
    show "x \<in> {Read, Write, Swap, Increment, Decrement, SetToOneAndReturnOldValue,
      IncrementAndReturnNewValue, ReadConditionalWrite, CalculateDiff, SampleEveryFourth,
      QueryTimestamp, QueryAndRefreshTimestamp, CheckValue, IntegerAllocatorHeadReadAndUpdate}"
      by (cases x) simp_all
  qed
qed simp

datatype time_aware = Yes | No

section \<open>Tables\<close>

record table =
  tbl_id :: ds_id
  tbl_capacity :: u32
  tbl_keys :: "bits_t list"
  tbl_params :: "bits_t list"
  tbl_time_aware :: time_aware

text \<open>
  \<^verbatim>\<open>std::ceil(capacity / 0.9)\<close> in double precision, converted back to 32 bits. For a
  multiple of 9 the quotient is an integer below \<open>2 ^ 33\<close> and the error of the constant
  0.9 (below \<open>2 ^ -55\<close> relatively) is rounded away; otherwise the quotient is at least
  1/9 away from an integer. So the ceiling is that of the exact quotient; a result that
  needs more than 32 bits is an undefined conversion.
\<close>

definition adjust_capacity_for_collisions :: "u32 \<Rightarrow> u32 result" where
  "adjust_capacity_for_collisions capacity =
     (let v = (10 * unat capacity + 8) div 9
      in if v < 2 ^ 32 then Inr (of_nat v) else Inl Undefined)"

definition new_table ::
  "ds_id \<Rightarrow> u32 \<Rightarrow> bits_t list \<Rightarrow> bits_t list \<Rightarrow> time_aware \<Rightarrow> table result" where
  "new_table id' capacity keys params ta =
     rbind (adjust_capacity_for_collisions capacity) (\<lambda>c.
     assert_that (capacity > 0)
       (Inr \<lparr>tbl_id = id', tbl_capacity = c, tbl_keys = keys, tbl_params = params,
             tbl_time_aware = ta\<rparr>))"

definition table_match_xbar_consume :: "table \<Rightarrow> bits_t" where
  "table_match_xbar_consume t = sum_list (tbl_keys t)"

definition table_consumed_sram_per_entry :: "table \<Rightarrow> bits_t" where
  "table_consumed_sram_per_entry t = sum_list (tbl_keys t) + sum_list (tbl_params t)"

definition table_consumed_sram :: "table \<Rightarrow> bits_t" where
  "table_consumed_sram t = table_consumed_sram_per_entry t * tbl_capacity t"

section \<open>Registers\<close>

record register =
  reg_id :: ds_id
  reg_capacity :: u32
  reg_index_size :: bits_t
  reg_value_size :: bits_t
  reg_actions :: "register_action set"

definition new_register ::
  "tna_properties \<Rightarrow> ds_id \<Rightarrow> u32 \<Rightarrow> bits_t \<Rightarrow> bits_t \<Rightarrow> register_action set \<Rightarrow> register result" where
  "new_register props id' capacity index_size value_size actions =
     assert_that (capacity > 0)
     (assert_that (value_size \<le> max_salu_size props)
       (Inr \<lparr>reg_id = id', reg_capacity = capacity, reg_index_size = index_size,
             reg_value_size = value_size, reg_actions = actions\<rparr>))"

definition register_consumed_sram :: "register \<Rightarrow> bits_t" where
  "register_consumed_sram r = reg_value_size r * reg_capacity r + 1024 * 128"

definition register_num_logical_ids :: "register \<Rightarrow> u32" where
  "register_num_logical_ids r = of_nat (card (reg_actions r))"

section \<open>Meters, hashes, digests and LPM tables\<close>

record meter =
  mtr_id :: ds_id
  mtr_capacity :: u32
  mtr_rate :: u64
  mtr_burst :: bytes_t
  mtr_keys :: "bits_t list"

definition new_meter :: "ds_id \<Rightarrow> u32 \<Rightarrow> u64 \<Rightarrow> bytes_t \<Rightarrow> bits_t list \<Rightarrow> meter result" where
  "new_meter id' capacity rate burst keys =
     assert_that (capacity > 0)
       (Inr \<lparr>mtr_id = id', mtr_capacity = capacity, mtr_rate = rate, mtr_burst = burst,
             mtr_keys = keys\<rparr>)"

definition meter_match_xbar_consume :: "meter \<Rightarrow> bits_t" where
  "meter_match_xbar_consume m = sum_list (mtr_keys m)"

definition meter_consumed_sram :: "meter \<Rightarrow> bits_t" where
  "meter_consumed_sram m = sum_list (mtr_keys m) * mtr_capacity m"

record hash =
  hash_id :: ds_id
  hash_keys :: "bits_t list"
  hash_size :: bits_t

definition new_hash :: "ds_id \<Rightarrow> bits_t list \<Rightarrow> bits_t \<Rightarrow> hash" where
  "new_hash id' keys sz = \<lparr>hash_id = id', hash_keys = keys, hash_size = sz\<rparr>"

definition hash_match_xbar_consume :: "hash \<Rightarrow> bits_t" where
  "hash_match_xbar_consume h = sum_list (hash_keys h)"

record digest =
  dig_id :: ds_id
  dig_fields :: "bits_t list"
  dig_type :: u8

definition new_digest :: "ds_id \<Rightarrow> bits_t list \<Rightarrow> u8 \<Rightarrow> digest" where
  "new_digest id' fs digest_type =
     \<lparr>dig_id = id', dig_fields = fs, dig_type = digest_type\<rparr>"

definition digest_match_xbar_consume :: "digest \<Rightarrow> bits_t" where
  "digest_match_xbar_consume d = 0"

record lpm =
  lpm_id :: ds_id
  lpm_capacity :: u32
  lpm_key :: bits_t

definition new_lpm :: "ds_id \<Rightarrow> bits_t \<Rightarrow> lpm" where
  "new_lpm id' capacity = \<lparr>lpm_id = id', lpm_capacity = capacity, lpm_key = 32\<rparr>"

definition lpm_match_xbar_consume :: "lpm \<Rightarrow> bits_t" where
  "lpm_match_xbar_consume l = lpm_key l"

definition lpm_consumed_tcam :: "lpm \<Rightarrow> bits_t" where
  "lpm_consumed_tcam l = lpm_key l * lpm_capacity l"

section \<open>Facts about constructors and resource counts\<close>

lemma new_table_fields [ds_simps]:
  "new_table i c ks ps ta = Inr t \<Longrightarrow>
     tbl_id t = i \<and> tbl_keys t = ks \<and> tbl_params t = ps \<and> tbl_time_aware t = ta"
  by (auto simp: new_table_def result_simps)

lemma new_register_fields [ds_simps]:
  "new_register p i c ix v acts = Inr r \<Longrightarrow>
     reg_id r = i \<and> reg_capacity r = c \<and> reg_index_size r = ix \<and> reg_value_size r = v
     \<and> reg_actions r = acts"
  by (auto simp: new_register_def result_simps)

lemma adjust_capacity_spec:
  assumes "adjust_capacity_for_collisions c = Inr a"
  shows "10 * unat c \<le> 9 * unat a \<and> 9 * unat a \<le> 10 * unat c + 8"
proof -
  let ?v = "(10 * unat c + 8) div 9"
  from assms have v: "?v < 2 ^ 32" and a: "a = of_nat ?v"
    by (auto simp: adjust_capacity_for_collisions_def Let_def split: if_splits)
  have "unat a = ?v" using v a by (simp only: unat_of_nat) (simp add: mod_less)
  then show ?thesis by linarith
qed

lemma register_num_logical_ids_sint:
  "sint (register_num_logical_ids r) = int (card (reg_actions r))"
proof -
  have "reg_actions r \<subseteq> {Read, Write, Swap, Increment, Decrement, SetToOneAndReturnOldValue,
    IncrementAndReturnNewValue, ReadConditionalWrite, CalculateDiff, SampleEveryFourth,
    QueryTimestamp, QueryAndRefreshTimestamp, CheckValue, IntegerAllocatorHeadReadAndUpdate}"
    (is "_ \<subseteq> ?U")
    by (auto intro: register_action.exhaust)
  then have "card (reg_actions r) \<le> card ?U" by (intro card_mono) auto
  also have "card ?U \<le> 14" by (simp add: card_insert_if)
  finally have "card (reg_actions r) \<le> 14" .
  then show ?thesis
    by (simp add: register_num_logical_ids_def signed_of_nat signed_take_bit_int_eq_self)
qed

end
