(* ===== verification/Composites.thy ===== *)
theory Composites
  imports Primitives
begin

text \<open>
  The composite Tofino data structures (map, guarded map, vector, dchain and FCFS cached
  tables, vector registers, count-min sketches, heavy-hitter tables and cuckoo hash
  tables): their members, their constructors with every helper of the anonymous
  namespaces, and the assertions the constructors run. A class member that is a vector of
  tables stays a list. The initialiser list runs in member order before the body.
\<close>

section \<open>Names of the tables of a structure\<close>

definition build_table_name :: "ds_id \<Rightarrow> u64 \<Rightarrow> ds_id" where
  "build_table_name id' table_num = id' @ ''_'' @ to_string (unat table_num)"

definition build_op_table_name :: "ds_id \<Rightarrow> u32 \<Rightarrow> ds_id" where
  "build_op_table_name id' table_num = id' @ ''_table_'' @ to_string (unat table_num)"

lemma build_table_name_inj [simp]:
  "build_table_name i a = build_table_name i b \<longleftrightarrow> a = b"
  by (auto simp: build_table_name_def)

lemma build_op_table_name_inj [simp]:
  "build_op_table_name i a = build_op_table_name i b \<longleftrightarrow> a = b"
  by (auto simp: build_op_table_name_def)

definition bits_of_capacity :: "u32 \<Rightarrow> bits_t result" where
  "bits_of_capacity c = bits_from_pow2_capacity (ucast c)"

section \<open>Map, guarded map, vector and dchain tables\<close>

record map_table =
  mt_id :: ds_id
  mt_capacity :: u32
  mt_key_size :: bits_t
  mt_param_size :: bits_t
  mt_tables :: "table list"

definition new_map_table :: "ds_id \<Rightarrow> u32 \<Rightarrow> bits_t \<Rightarrow> map_table result" where
  "new_map_table id' capacity key_size =
     assert_that (capacity > 0)
     (assert_that (key_size > 0)
       (Inr \<lparr>mt_id = id', mt_capacity = capacity, mt_key_size = key_size, mt_param_size = 32,
             mt_tables = []\<rparr>))"

record guarded_map_table =
  gmt_id :: ds_id
  gmt_capacity :: u32
  gmt_key_size :: bits_t
  gmt_param_size :: bits_t
  gmt_tables :: "table list"
  gmt_guard :: register

definition build_guard :: "tna_properties \<Rightarrow> ds_id \<Rightarrow> register result" where
  "build_guard props id' = new_register props (id' @ ''_guard'') 1 1 8 {Read}"

definition new_guarded_map_table ::
  "tna_properties \<Rightarrow> ds_id \<Rightarrow> u32 \<Rightarrow> bits_t \<Rightarrow> guarded_map_table result" where
  "new_guarded_map_table props id' capacity key_size =
     rbind (build_guard props id') (\<lambda>g.
     assert_that (capacity > 0)
     (assert_that (key_size > 0)
       (Inr \<lparr>gmt_id = id', gmt_capacity = capacity, gmt_key_size = key_size,
             gmt_param_size = 32, gmt_tables = [], gmt_guard = g\<rparr>)))"

record dchain_table =
  dct_id :: ds_id
  dct_capacity :: u32
  dct_key_size :: bits_t
  dct_tables :: "table list"

definition new_dchain_table :: "ds_id \<Rightarrow> u32 \<Rightarrow> dchain_table result" where
  "new_dchain_table id' capacity =
     assert_that (capacity > 0)
       (Inr \<lparr>dct_id = id', dct_capacity = capacity, dct_key_size = 32, dct_tables = []\<rparr>)"

record vector_table =
  vt_id :: ds_id
  vt_capacity :: u32
  vt_key_size :: bits_t
  vt_param_size :: bits_t
  vt_tables :: "table list"

definition new_vector_table :: "ds_id \<Rightarrow> u32 \<Rightarrow> bits_t \<Rightarrow> vector_table result" where
  "new_vector_table id' capacity param_size =
     assert_that (capacity > 0)
     (assert_that (param_size > 0)
       (Inr \<lparr>vt_id = id', vt_capacity = capacity, vt_key_size = 32,
             vt_param_size = param_size, vt_tables = []\<rparr>))"

section \<open>Vector registers and count-min sketches\<close>

record vector_register =
  vr_id :: ds_id
  vr_capacity :: u32
  vr_index_size :: bits_t
  vr_values_sizes :: "bits_t list"
  vr_regs :: "register list"

definition build_registers ::
  "tna_properties \<Rightarrow> ds_id \<Rightarrow> u32 \<Rightarrow> bits_t \<Rightarrow> bits_t list \<Rightarrow> register list result" where
  "build_registers props id' capacity index_size values_sizes =
     rmap (\<lambda>(i, v). new_register props (id' @ ''_'' @ to_string i) capacity index_size v
                      {Write, Read})
       (zip [0..<length values_sizes] values_sizes)"

definition new_vector_register ::
  "tna_properties \<Rightarrow> ds_id \<Rightarrow> u32 \<Rightarrow> bits_t \<Rightarrow> bits_t list \<Rightarrow> vector_register result" where
  "new_vector_register props id' capacity index_size values_sizes =
     rbind (build_registers props id' capacity index_size values_sizes) (\<lambda>rs.
       Inr \<lparr>vr_id = id', vr_capacity = capacity, vr_index_size = index_size,
            vr_values_sizes = values_sizes, vr_regs = rs\<rparr>)"

record count_min_sketch =
  cms_id :: ds_id
  cms_width :: u32
  cms_height :: u32
  cms_hash_size :: bits_t
  cms_hashes :: "hash list"
  cms_rows :: "register list"

definition build_hashes :: "ds_id \<Rightarrow> u32 \<Rightarrow> bits_t list \<Rightarrow> bits_t \<Rightarrow> hash list" where
  "build_hashes id' height keys hsize =
     map (\<lambda>i. new_hash (id' @ ''_hash_'' @ to_string i) keys hsize) [0..<unat height]"

definition build_rows :: "tna_properties \<Rightarrow> ds_id \<Rightarrow> u32 \<Rightarrow> u32 \<Rightarrow> register list result" where
  "build_rows props id' width height =
     rbind (bits_of_capacity width) (\<lambda>hsize.
       rmap (\<lambda>i. new_register props (id' @ ''_row_'' @ to_string i) width hsize 32
                   {Read, Increment, IncrementAndReturnNewValue})
         [0..<unat height])"

definition new_count_min_sketch ::
  "tna_properties \<Rightarrow> ds_id \<Rightarrow> bits_t list \<Rightarrow> u32 \<Rightarrow> u32 \<Rightarrow> count_min_sketch result" where
  "new_count_min_sketch props id' keys width height =
     rbind (bits_of_capacity width) (\<lambda>hsize.
     rbind (build_rows props id' width height) (\<lambda>rs.
       let hs = build_hashes id' height keys hsize in
       assert_that (width > 0)
       (assert_that (height > 0)
       (assert_that (length hs = unat height)
       (assert_that (length rs = unat height)
         (Inr \<lparr>cms_id = id', cms_width = width, cms_height = height, cms_hash_size = hsize,
               cms_hashes = hs, cms_rows = rs\<rparr>))))))"

section \<open>Heavy-hitter tables\<close>

record hh_table =
  hh_id :: ds_id
  hh_capacity :: u32
  hh_keys_sizes :: "bits_t list"
  hh_cms_width :: u32
  hh_cms_height :: u32
  hh_hash_size :: bits_t
  hh_tables :: "table list"
  hh_cached_counters :: register
  hh_packet_sampler :: register
  hh_hashes :: "hash list"
  hh_count_min_sketch :: "register list"
  hh_threshold :: register
  hh_digest :: digest

definition hh_build_cached_counters :: "tna_properties \<Rightarrow> ds_id \<Rightarrow> u32 \<Rightarrow> register result" where
  "hh_build_cached_counters props id' capacity =
     new_register props (id' @ ''_cached_counters'') capacity 32 32 {Increment}"

definition hh_build_hashes ::
  "ds_id \<Rightarrow> bits_t list \<Rightarrow> u32 \<Rightarrow> bits_t \<Rightarrow> hash list result" where
  "hh_build_hashes id' keys_sizes total_hashes hsize =
     assert_that (keys_sizes \<noteq> [])
       (Inr (map (\<lambda>i. new_hash (id' @ ''_hash_calc_'' @ to_string i) (keys_sizes @ [32]) hsize)
              [0..<unat total_hashes]))"

definition hh_build_count_min_sketch ::
  "tna_properties \<Rightarrow> ds_id \<Rightarrow> u32 \<Rightarrow> u32 \<Rightarrow> bits_t \<Rightarrow> register list result" where
  "hh_build_count_min_sketch props id' width height index_size =
     rmap (\<lambda>i. new_register props (id' @ ''_cms_row_'' @ to_string i) width index_size 32
                 {IncrementAndReturnNewValue})
       [0..<unat height]"

definition hh_build_packet_sampler :: "tna_properties \<Rightarrow> ds_id \<Rightarrow> register result" where
  "hh_build_packet_sampler props id' =
     new_register props (id' @ ''_packet_sampler'') 1 1 8 {SampleEveryFourth}"

definition hh_build_threshold :: "tna_properties \<Rightarrow> ds_id \<Rightarrow> register result" where
  "hh_build_threshold props id' =
     new_register props (id' @ ''_threshold'') 1 1 32 {CalculateDiff}"

definition build_digest :: "ds_id \<Rightarrow> bits_t list \<Rightarrow> u8 \<Rightarrow> digest" where
  "build_digest id' fs digest_type = new_digest (id' @ ''_digest'') fs digest_type"

definition hh_add_table :: "hh_table \<Rightarrow> u32 \<Rightarrow> (hh_table \<times> ds_id) result" where
  "hh_add_table h op =
     rbind (new_table (build_op_table_name (hh_id h) op) (hh_capacity h) (hh_keys_sizes h) [] Yes)
       (\<lambda>t. Inr (h\<lparr>hh_tables := hh_tables h @ [t]\<rparr>, tbl_id t))"

definition new_hh_table ::
  "tna_properties \<Rightarrow> ds_id \<Rightarrow> u32 \<Rightarrow> u32 \<Rightarrow> bits_t list \<Rightarrow> u32 \<Rightarrow> u32 \<Rightarrow> u8 \<Rightarrow> hh_table result"
where
  "new_hh_table props id' op capacity keys_sizes width height digest_type =
     rbind (bits_of_capacity width) (\<lambda>hsize.
     rbind (hh_build_cached_counters props id' capacity) (\<lambda>cc.
     rbind (hh_build_packet_sampler props id') (\<lambda>ps.
     rbind (hh_build_hashes id' keys_sizes height hsize) (\<lambda>hs.
     rbind (hh_build_count_min_sketch props id' width height hsize) (\<lambda>cms.
     rbind (hh_build_threshold props id') (\<lambda>th.
     assert_that (length keys_sizes > 0)
     (assert_that (capacity > 0)
       (map_sum id fst
         (hh_add_table
           \<lparr>hh_id = id', hh_capacity = capacity, hh_keys_sizes = keys_sizes,
            hh_cms_width = width, hh_cms_height = height, hh_hash_size = hsize,
            hh_tables = [], hh_cached_counters = cc, hh_packet_sampler = ps, hh_hashes = hs,
            hh_count_min_sketch = cms, hh_threshold = th,
            hh_digest = build_digest id' keys_sizes digest_type\<rparr> op)))))))))"

section \<open>FCFS cached tables\<close>

record fcfs_cached_table =
  fcfs_id :: ds_id
  fcfs_cache_capacity :: u32
  fcfs_capacity :: u32
  fcfs_keys_sizes :: "bits_t list"
  fcfs_tables :: "table list"
  fcfs_reg_liveness :: register
  fcfs_reg_head :: register
  fcfs_reg_tail :: register
  fcfs_reg_indexes :: register
  fcfs_reg_pending :: register
  fcfs_cache_keys :: "register list"
  fcfs_cache_value :: register
  fcfs_hash :: hash
  fcfs_digest :: digest

definition build_reg_liveness :: "tna_properties \<Rightarrow> ds_id \<Rightarrow> u32 \<Rightarrow> register result" where
  "build_reg_liveness props id' cache_capacity =
     rbind (bits_of_capacity cache_capacity) (\<lambda>hsize.
       new_register props (id' @ ''_reg_liveness'') cache_capacity hsize 8
         {Read, SetToOneAndReturnOldValue})"

definition build_reg_integer_allocator_head ::
  "tna_properties \<Rightarrow> ds_id \<Rightarrow> u32 \<Rightarrow> register result" where
  "build_reg_integer_allocator_head props id' capacity =
     rbind (bits_of_capacity capacity) (\<lambda>ix.
       new_register props (id' @ ''_reg_integer_allocator_head'') capacity ix ix
         {IntegerAllocatorHeadReadAndUpdate})"

definition build_reg_integer_allocator_tail ::
  "tna_properties \<Rightarrow> ds_id \<Rightarrow> u32 \<Rightarrow> register result" where
  "build_reg_integer_allocator_tail props id' capacity =
     rbind (bits_of_capacity capacity) (\<lambda>ix.
       new_register props (id' @ ''_reg_integer_allocator_tail'') capacity ix ix {Read})"

definition build_reg_integer_allocator_indexes ::
  "tna_properties \<Rightarrow> ds_id \<Rightarrow> u32 \<Rightarrow> register result" where
  "build_reg_integer_allocator_indexes props id' capacity =
     rbind (bits_of_capacity capacity) (\<lambda>ix.
       new_register props (id' @ ''_reg_integer_allocator_indexes'') capacity ix ix {Read})"

definition build_reg_integer_allocator_pending ::
  "tna_properties \<Rightarrow> ds_id \<Rightarrow> u32 \<Rightarrow> register result" where
  "build_reg_integer_allocator_pending props id' capacity =
     rbind (bits_of_capacity capacity) (\<lambda>ix.
       new_register props (id' @ ''_reg_integer_allocator_pending'') capacity ix 8
         {Read, Write})"

definition build_cache_keys ::
  "tna_properties \<Rightarrow> ds_id \<Rightarrow> bits_t list \<Rightarrow> u32 \<Rightarrow> register list result" where
  "build_cache_keys props id' elements_sizes capacity =
     rbind (bits_of_capacity capacity) (\<lambda>hsize.
       rmap (\<lambda>(i, k). new_register props (id' @ ''_reg_key_'' @ to_string i) capacity hsize k
                        {Read, Swap})
         (zip [0..<length elements_sizes] elements_sizes))"

definition build_cache_value :: "tna_properties \<Rightarrow> ds_id \<Rightarrow> u32 \<Rightarrow> register result" where
  "build_cache_value props id' capacity =
     rbind (bits_of_capacity capacity) (\<lambda>hsize.
       new_register props (id' @ ''_reg_value'') capacity hsize 32 {Read, Swap})"

definition build_hash :: "ds_id \<Rightarrow> bits_t list \<Rightarrow> u32 \<Rightarrow> hash result" where
  "build_hash id' keys_sizes capacity =
     rbind (bits_of_capacity capacity) (\<lambda>hsize.
       Inr (new_hash (id' @ ''_hash'') keys_sizes hsize))"

definition fcfs_add_table ::
  "fcfs_cached_table \<Rightarrow> u32 \<Rightarrow> (fcfs_cached_table \<times> ds_id) result" where
  "fcfs_add_table f op =
     rbind (new_table (build_op_table_name (fcfs_id f) op)
              (fcfs_capacity f - fcfs_cache_capacity f) (fcfs_keys_sizes f) [] No)
       (\<lambda>t. Inr (f\<lparr>fcfs_tables := fcfs_tables f @ [t]\<rparr>, tbl_id t))"

definition new_fcfs_cached_table ::
  "tna_properties \<Rightarrow> ds_id \<Rightarrow> u32 \<Rightarrow> u32 \<Rightarrow> u32 \<Rightarrow> bits_t list \<Rightarrow> u8 \<Rightarrow> fcfs_cached_table result"
where
  "new_fcfs_cached_table props id' op cache_capacity capacity keys_sizes digest_type =
     rbind (build_reg_liveness props id' cache_capacity) (\<lambda>lv.
     rbind (build_reg_integer_allocator_head props id' capacity) (\<lambda>hd'.
     rbind (build_reg_integer_allocator_tail props id' capacity) (\<lambda>tl'.
     rbind (build_reg_integer_allocator_indexes props id' capacity) (\<lambda>ix.
     rbind (build_reg_integer_allocator_pending props id' capacity) (\<lambda>pd.
     rbind (build_cache_keys props id' keys_sizes cache_capacity) (\<lambda>ck.
     rbind (build_cache_value props id' cache_capacity) (\<lambda>cv.
     rbind (build_hash id' keys_sizes capacity) (\<lambda>h.
     assert_that (cache_capacity > 0)
     (assert_that (capacity > 0)
     (assert_that (cache_capacity \<le> capacity)
       (map_sum id fst
         (fcfs_add_table
           \<lparr>fcfs_id = id', fcfs_cache_capacity = cache_capacity, fcfs_capacity = capacity,
            fcfs_keys_sizes = keys_sizes, fcfs_tables = [], fcfs_reg_liveness = lv,
            fcfs_reg_head = hd', fcfs_reg_tail = tl', fcfs_reg_indexes = ix,
            fcfs_reg_pending = pd, fcfs_cache_keys = ck, fcfs_cache_value = cv,
            fcfs_hash = h, fcfs_digest = build_digest id' keys_sizes digest_type\<rparr>
           op))))))))))))"

section \<open>Cuckoo hash tables\<close>

record cuckoo_hash_table =
  ck_id :: ds_id
  ck_total_capacity :: u32
  ck_entries_per_table :: u32
  ck_index_size :: bits_t
  ck_bloom_index_size :: bits_t
  ck_hashes :: "hash list"
  ck_reg_k_1 :: register
  ck_reg_k_2 :: register
  ck_reg_v_1 :: register
  ck_reg_v_2 :: register
  ck_reg_ts_1 :: register
  ck_reg_ts_2 :: register
  ck_bloom_hashes :: "hash list"
  ck_swap_transient :: register
  ck_swapped_transient :: register

abbreviation bloom_width :: u32 where "bloom_width \<equiv> 65536"

definition build_cuckoo_hashes :: "ds_id \<Rightarrow> bits_t \<Rightarrow> bits_t \<Rightarrow> hash list" where
  "build_cuckoo_hashes id' key_size hsize =
     [new_hash (id' @ ''_hash_calc_0'') [key_size, 32] hsize,
      new_hash (id' @ ''_hash_calc_1'') [key_size, 32] hsize,
      new_hash (id' @ ''_hash_calc_2'') [key_size, 32] hsize]"

definition build_bloom_hashes :: "ds_id \<Rightarrow> bits_t \<Rightarrow> bits_t \<Rightarrow> hash list" where
  "build_bloom_hashes id' key_size hsize =
     [new_hash (id' @ ''_hash_old_key'') [key_size] hsize,
      new_hash (id' @ ''_hash_new_key'') [key_size] hsize,
      new_hash (id' @ ''_hash_old_key_2'') [key_size] hsize]"

definition new_cuckoo_hash_table ::
  "tna_properties \<Rightarrow> ds_id \<Rightarrow> u32 \<Rightarrow> u32 \<Rightarrow> cuckoo_hash_table result" where
  "new_cuckoo_hash_table props id' op capacity =
     (let n = capacity div 2;
          reg = (\<lambda>suffix cap ix v acts. new_register props (id' @ suffix) cap ix v acts)
      in
     rbind (bits_of_capacity n) (\<lambda>ix.
     rbind (bits_of_capacity bloom_width) (\<lambda>bix.
     rbind (reg ''_reg_k_1'' n ix 32 {Read, Swap}) (\<lambda>k1.
     rbind (reg ''_reg_k_2'' n ix 32 {Read, Swap}) (\<lambda>k2.
     rbind (reg ''_reg_v_1'' n ix 32 {ReadConditionalWrite, Swap}) (\<lambda>v1.
     rbind (reg ''_reg_v_2'' n ix 32 {ReadConditionalWrite, Swap}) (\<lambda>v2.
     rbind (reg ''_reg_ts_1'' n ix 32 {QueryAndRefreshTimestamp, Swap}) (\<lambda>t1.
     rbind (reg ''_reg_ts_2'' n ix 32 {QueryAndRefreshTimestamp, Swap}) (\<lambda>t2.
     rbind (reg ''_swap_transient'' bloom_width bix 16 {Read, Swap}) (\<lambda>s1.
     rbind (reg ''_swapped_transient'' bloom_width bix 16 {Read, Swap}) (\<lambda>s2.
     assert_that (capacity > 0)
       (Inr \<lparr>ck_id = id', ck_total_capacity = capacity, ck_entries_per_table = n,
             ck_index_size = ix, ck_bloom_index_size = bix,
             ck_hashes = build_cuckoo_hashes id' 32 ix,
             ck_reg_k_1 = k1, ck_reg_k_2 = k2, ck_reg_v_1 = v1, ck_reg_v_2 = v2,
             ck_reg_ts_1 = t1, ck_reg_ts_2 = t2,
             ck_bloom_hashes = build_bloom_hashes id' 32 bix,
             ck_swap_transient = s1, ck_swapped_transient = s2\<rparr>))))))))))))"

end
