(* ===== verification/DataStructure.thy ===== *)
theory DataStructure
  imports Composites
begin

text \<open>
  The class hierarchy \<^verbatim>\<open>DS\<close> of \<^verbatim>\<open>DataStructures/DataStructure.h\<close> as one datatype: the
  dynamic type of an object is its constructor. The virtual \<^verbatim>\<open>get_internal\<close> of every
  class, and the generic operations that flatten a structure into levels of primitives. A
  set of pointers to members is the list of those members (distinct objects, in the order
  the code inserts them); the elements of one level are independent of each other, and a
  level is placed after the levels before it.
\<close>

section \<open>The hierarchy\<close>

datatype ds =
    TableDS table
  | RegisterDS register
  | MeterDS meter
  | HashDS hash
  | DigestDS digest
  | LPMDS lpm
  | MapTableDS map_table
  | GuardedMapTableDS guarded_map_table
  | VectorTableDS vector_table
  | DchainTableDS dchain_table
  | VectorRegisterDS vector_register
  | FCFSCachedTableDS fcfs_cached_table
  | HHTableDS hh_table
  | CountMinSketchDS count_min_sketch
  | CuckooHashTableDS cuckoo_hash_table

primrec ds_type_of :: "ds \<Rightarrow> ds_type" where
  "ds_type_of (TableDS _) = Table"
| "ds_type_of (RegisterDS _) = Register"
| "ds_type_of (MeterDS _) = Meter"
| "ds_type_of (HashDS _) = Hash"
| "ds_type_of (DigestDS _) = Digest"
| "ds_type_of (LPMDS _) = LPM"
| "ds_type_of (MapTableDS _) = MapTable"
| "ds_type_of (GuardedMapTableDS _) = GuardedMapTable"
| "ds_type_of (VectorTableDS _) = VectorTable"
| "ds_type_of (DchainTableDS _) = DchainTable"
| "ds_type_of (VectorRegisterDS _) = VectorRegister"
| "ds_type_of (FCFSCachedTableDS _) = FCFSCachedTable"
| "ds_type_of (HHTableDS _) = HHTable"
| "ds_type_of (CountMinSketchDS _) = CountMinSketch"
| "ds_type_of (CuckooHashTableDS _) = CuckooHashTable"

text \<open>
  The flag each constructor passes to the base class. LPM tables are listed among the
  compositional types but are constructed as primitives.
\<close>

primrec ds_primitive :: "ds \<Rightarrow> bool" where
  "ds_primitive (TableDS _) = True"
| "ds_primitive (RegisterDS _) = True"
| "ds_primitive (MeterDS _) = True"
| "ds_primitive (HashDS _) = True"
| "ds_primitive (DigestDS _) = True"
| "ds_primitive (LPMDS _) = True"
| "ds_primitive (MapTableDS _) = False"
| "ds_primitive (GuardedMapTableDS _) = False"
| "ds_primitive (VectorTableDS _) = False"
| "ds_primitive (DchainTableDS _) = False"
| "ds_primitive (VectorRegisterDS _) = False"
| "ds_primitive (FCFSCachedTableDS _) = False"
| "ds_primitive (HHTableDS _) = False"
| "ds_primitive (CountMinSketchDS _) = False"
| "ds_primitive (CuckooHashTableDS _) = False"

primrec ds_id_of :: "ds \<Rightarrow> ds_id" where
  "ds_id_of (TableDS t) = tbl_id t"
| "ds_id_of (RegisterDS r) = reg_id r"
| "ds_id_of (MeterDS m) = mtr_id m"
| "ds_id_of (HashDS h) = hash_id h"
| "ds_id_of (DigestDS d) = dig_id d"
| "ds_id_of (LPMDS l) = lpm_id l"
| "ds_id_of (MapTableDS m) = mt_id m"
| "ds_id_of (GuardedMapTableDS g) = gmt_id g"
| "ds_id_of (VectorTableDS v) = vt_id v"
| "ds_id_of (DchainTableDS d) = dct_id d"
| "ds_id_of (VectorRegisterDS v) = vr_id v"
| "ds_id_of (FCFSCachedTableDS f) = fcfs_id f"
| "ds_id_of (HHTableDS h) = hh_id h"
| "ds_id_of (CountMinSketchDS c) = cms_id c"
| "ds_id_of (CuckooHashTableDS c) = ck_id c"

section \<open>The members of each structure\<close>

definition mt_get_internal :: "map_table \<Rightarrow> ds list list" where
  "mt_get_internal m = [map TableDS (mt_tables m)]"

definition gmt_get_internal :: "guarded_map_table \<Rightarrow> ds list list" where
  "gmt_get_internal g = [map TableDS (gmt_tables g) @ [RegisterDS (gmt_guard g)]]"

definition vt_get_internal :: "vector_table \<Rightarrow> ds list list" where
  "vt_get_internal v = [map TableDS (vt_tables v)]"

definition dct_get_internal :: "dchain_table \<Rightarrow> ds list list" where
  "dct_get_internal d = [map TableDS (dct_tables d)]"

definition vr_get_internal :: "vector_register \<Rightarrow> ds list list" where
  "vr_get_internal v = [map RegisterDS (vr_regs v)]"

definition fcfs_get_internal :: "fcfs_cached_table \<Rightarrow> ds list list" where
  "fcfs_get_internal f =
     [map TableDS (fcfs_tables f),
      [RegisterDS (fcfs_reg_liveness f)],
      [RegisterDS (fcfs_reg_tail f)],
      [RegisterDS (fcfs_reg_head f)],
      [RegisterDS (fcfs_reg_indexes f), RegisterDS (fcfs_reg_pending f)],
      map RegisterDS (fcfs_cache_keys f) @ [DigestDS (fcfs_digest f)]]"

definition hh_get_internal :: "hh_table \<Rightarrow> ds list list" where
  "hh_get_internal h =
     [map TableDS (hh_tables h),
      [RegisterDS (hh_cached_counters h), RegisterDS (hh_packet_sampler h)],
      map HashDS (hh_hashes h) @ map RegisterDS (hh_count_min_sketch h) @
        [RegisterDS (hh_threshold h), DigestDS (hh_digest h)]]"

definition cms_get_internal :: "count_min_sketch \<Rightarrow> ds list list result" where
  "cms_get_internal c =
     assert_that (length (cms_rows c) = unat (cms_height c))
     (assert_that (length (cms_hashes c) = unat (cms_height c))
       (Inr (map (\<lambda>(h, r). [HashDS h, RegisterDS r]) (zip (cms_hashes c) (cms_rows c)))))"

definition ck_get_internal :: "cuckoo_hash_table \<Rightarrow> ds list list" where
  "ck_get_internal c =
     map (\<lambda>h. [HashDS h]) (ck_hashes c) @
     [[RegisterDS (ck_reg_k_1 c)], [RegisterDS (ck_reg_k_2 c)],
      [RegisterDS (ck_reg_v_1 c)], [RegisterDS (ck_reg_v_2 c)],
      [RegisterDS (ck_reg_ts_1 c)], [RegisterDS (ck_reg_ts_2 c)]] @
     map (\<lambda>h. [HashDS h]) (ck_bloom_hashes c) @
     [[RegisterDS (ck_swap_transient c)], [RegisterDS (ck_swapped_transient c)]]"

fun get_internal :: "ds \<Rightarrow> ds list list result" where
  "get_internal (MapTableDS m) = Inr (mt_get_internal m)"
| "get_internal (GuardedMapTableDS g) = Inr (gmt_get_internal g)"
| "get_internal (VectorTableDS v) = Inr (vt_get_internal v)"
| "get_internal (DchainTableDS d) = Inr (dct_get_internal d)"
| "get_internal (VectorRegisterDS v) = Inr (vr_get_internal v)"
| "get_internal (FCFSCachedTableDS f) = Inr (fcfs_get_internal f)"
| "get_internal (HHTableDS h) = Inr (hh_get_internal h)"
| "get_internal (CountMinSketchDS c) = cms_get_internal c"
| "get_internal (CuckooHashTableDS c) = Inr (ck_get_internal c)"
| "get_internal d = assert_that (ds_primitive d) (Inr [])"

lemmas get_internal_defs =
  mt_get_internal_def gmt_get_internal_def vt_get_internal_def dct_get_internal_def
  vr_get_internal_def fcfs_get_internal_def hh_get_internal_def cms_get_internal_def
  ck_get_internal_def

lemma get_internal_primitives:
  assumes "get_internal d = Inr lvls" "lvl \<in> set lvls" "x \<in> set lvl"
  shows "ds_primitive x"
  using assms
  by (cases d) (auto simp: get_internal_defs result_simps dest: set_zip_leftD set_zip_rightD)

section \<open>Flattening\<close>

text \<open>
  The primitives of one level come first; a composite member contributes its own levels,
  which are merged index by index with those of its siblings, the first of them joining
  the level itself.
\<close>

fun merge_pending :: "'a list list \<Rightarrow> 'a list list \<Rightarrow> 'a list list" where
  "merge_pending [] ys = ys"
| "merge_pending xs [] = xs"
| "merge_pending (x # xs) (y # ys) = (x @ y) # merge_pending xs ys"

fun append_pending :: "'a list \<Rightarrow> 'a list list \<Rightarrow> 'a list list" where
  "append_pending level [] = [level]"
| "append_pending level (p # ps) = (level @ p) # ps"

fun flatten_level ::
  "(ds \<Rightarrow> ds list list result) \<Rightarrow> ds list \<Rightarrow> ds list \<Rightarrow> ds list list \<Rightarrow> ds list list result"
where
  "flatten_level rec [] level pending = Inr (append_pending level pending)"
| "flatten_level rec (d # ds) level pending =
     (if ds_primitive d then flatten_level rec ds (level @ [d]) pending
      else rbind (rec d) (\<lambda>sub. flatten_level rec ds level (merge_pending pending sub)))"

lemma rbind_cong [fundef_cong]:
  "r = r' \<Longrightarrow> (\<And>x. r' = Inr x \<Longrightarrow> k x = k' x) \<Longrightarrow> rbind r k = rbind r' k'"
  by (cases r') auto

lemma rmap_cong [fundef_cong]:
  "xs = ys \<Longrightarrow> (\<And>x. x \<in> set ys \<Longrightarrow> f x = g x) \<Longrightarrow> rmap f xs = rmap g ys"
proof (induction ys arbitrary: xs)
  case (Cons y ys)
  from Cons.prems(2) have "rmap f ys = rmap g ys" by (intro Cons.IH) auto
  with Cons.prems show ?case by simp
qed simp

lemma flatten_level_cong [fundef_cong]:
  assumes "ds = ds'" "l = l'" "p = p'" "\<And>x. x \<in> set ds' \<Longrightarrow> \<not> ds_primitive x \<Longrightarrow> f x = g x"
  shows "flatten_level f ds l p = flatten_level g ds' l' p'"
proof -
  have "flatten_level f ds l p = flatten_level g ds l p"
    if "\<And>x. x \<in> set ds \<Longrightarrow> \<not> ds_primitive x \<Longrightarrow> f x = g x" for l p
    using that by (induction ds arbitrary: l p) (auto intro: rbind_cong)
  with assms show ?thesis by simp
qed

function get_internal_primitive :: "ds \<Rightarrow> ds list list result" where
  "get_internal_primitive d =
     rbind (get_internal d) (\<lambda>lvls.
     rbind (rmap (\<lambda>lvl. flatten_level get_internal_primitive lvl [] []) lvls)
       (\<lambda>parts. Inr (concat parts)))"
  by pat_completeness auto
termination
  by (relation "measure (\<lambda>d. if ds_primitive d then 0 else 1)")
    (auto dest: get_internal_primitives)

declare get_internal_primitive.simps [simp del]

lemma flatten_level_primitive:
  "\<forall>x \<in> set ds. ds_primitive x \<Longrightarrow> flatten_level f ds l [] = Inr [l @ ds]"
  by (induction ds arbitrary: l) auto

text \<open>Every member of these classes is a primitive, so flattening returns the members.\<close>

lemma get_internal_primitive_eq: "get_internal_primitive d = get_internal d"
proof (cases "get_internal d")
  case (Inl e)
  then show ?thesis by (subst get_internal_primitive.simps) simp
next
  case (Inr lvls)
  have "rmap (\<lambda>lvl. flatten_level get_internal_primitive lvl [] []) lvls =
      Inr (map (\<lambda>lvl. [lvl]) lvls)"
    using get_internal_primitives [OF Inr]
    by (intro rmap_total) (auto simp: flatten_level_primitive)
  with Inr show ?thesis by (subst get_internal_primitive.simps) simp
qed

definition get_internal_primitive_ids :: "ds \<Rightarrow> ds_id list list result" where
  "get_internal_primitive_ids d =
     rbind (get_internal_primitive d)
       (\<lambda>lvls. Inr (map (\<lambda>lvl. remdups (map ds_id_of lvl)) lvls))"

definition unwrap :: "ds \<Rightarrow> ds_id list result" where
  "unwrap d =
     (if ds_primitive d then Inr [ds_id_of d]
      else rbind (get_internal_primitive_ids d) (\<lambda>lvls. Inr (concat lvls)))"

lemma get_internal_primitive_members:
  "get_internal_primitive d = Inr lvls \<Longrightarrow> lvl \<in> set lvls \<Longrightarrow> x \<in> set lvl \<Longrightarrow> ds_primitive x"
  by (simp add: get_internal_primitive_eq get_internal_primitives)

lemma unwrap_composite:
  assumes "\<not> ds_primitive d" "unwrap d = Inr ids"
  obtains lvls where "get_internal_primitive d = Inr lvls"
    and "set ids = ds_id_of ` set (concat lvls)"
  using assms
  by (auto simp: unwrap_def get_internal_primitive_ids_def result_simps image_UN intro: that)

end
