(* ===== verification/TableStores.thy ===== *)
theory TableStores
  imports DataStructure
begin

text \<open>
  The per-operation tables of a structure: a structure is accessed by several nodes of the
  decision diagram, and holds one match-action table for each of them, named after its own
  identifier and the node. \<^verbatim>\<open>has_table\<close>, \<^verbatim>\<open>get_table\<close> and \<^verbatim>\<open>add_table\<close> of the six
  classes that offer them, the interface they share as a locale, and its interpretation on
  each class.
\<close>

section \<open>The operations of the classes\<close>

definition mt_has_table :: "map_table \<Rightarrow> u64 \<Rightarrow> bool" where
  "mt_has_table m op = list_ex (\<lambda>t. tbl_id t = build_table_name (mt_id m) op) (mt_tables m)"

definition mt_get_table :: "map_table \<Rightarrow> u64 \<Rightarrow> table option" where
  "mt_get_table m op = find (\<lambda>t. tbl_id t = build_table_name (mt_id m) op) (mt_tables m)"

definition mt_add_table ::
  "map_table \<Rightarrow> u64 \<Rightarrow> bits_t list \<Rightarrow> time_aware \<Rightarrow> (map_table \<times> ds_id) result" where
  "mt_add_table m op keys_sizes ta =
     rbind (new_table (build_table_name (mt_id m) op) (mt_capacity m) keys_sizes
              [mt_param_size m] ta)
       (\<lambda>t. Inr (m\<lparr>mt_tables := mt_tables m @ [t]\<rparr>, tbl_id t))"

definition gmt_has_table :: "guarded_map_table \<Rightarrow> u64 \<Rightarrow> bool" where
  "gmt_has_table g op =
     list_ex (\<lambda>t. tbl_id t = build_table_name (gmt_id g) op) (gmt_tables g)"

definition gmt_get_table :: "guarded_map_table \<Rightarrow> u64 \<Rightarrow> table option" where
  "gmt_get_table g op = find (\<lambda>t. tbl_id t = build_table_name (gmt_id g) op) (gmt_tables g)"

definition gmt_add_table ::
  "guarded_map_table \<Rightarrow> u64 \<Rightarrow> bits_t list \<Rightarrow> time_aware \<Rightarrow> (guarded_map_table \<times> ds_id) result"
where
  "gmt_add_table g op keys_sizes ta =
     rbind (new_table (build_table_name (gmt_id g) op) (gmt_capacity g) keys_sizes
              [gmt_param_size g] ta)
       (\<lambda>t. Inr (g\<lparr>gmt_tables := gmt_tables g @ [t]\<rparr>, tbl_id t))"

definition vt_has_table :: "vector_table \<Rightarrow> u64 \<Rightarrow> bool" where
  "vt_has_table v op = list_ex (\<lambda>t. tbl_id t = build_table_name (vt_id v) op) (vt_tables v)"

definition vt_get_table :: "vector_table \<Rightarrow> u64 \<Rightarrow> table option" where
  "vt_get_table v op = find (\<lambda>t. tbl_id t = build_table_name (vt_id v) op) (vt_tables v)"

definition vt_add_table :: "vector_table \<Rightarrow> u64 \<Rightarrow> (vector_table \<times> ds_id) result" where
  "vt_add_table v op =
     rbind (new_table (build_table_name (vt_id v) op) (vt_capacity v) [vt_key_size v]
              [vt_param_size v] No)
       (\<lambda>t. Inr (v\<lparr>vt_tables := vt_tables v @ [t]\<rparr>, tbl_id t))"

definition dct_has_table :: "dchain_table \<Rightarrow> u64 \<Rightarrow> bool" where
  "dct_has_table d op =
     list_ex (\<lambda>t. tbl_id t = build_table_name (dct_id d) op) (dct_tables d)"

definition dct_get_table :: "dchain_table \<Rightarrow> u64 \<Rightarrow> table option" where
  "dct_get_table d op = find (\<lambda>t. tbl_id t = build_table_name (dct_id d) op) (dct_tables d)"

definition dct_add_table :: "dchain_table \<Rightarrow> u64 \<Rightarrow> (dchain_table \<times> ds_id) result" where
  "dct_add_table d op =
     rbind (new_table (build_table_name (dct_id d) op) (dct_capacity d) [dct_key_size d] [] Yes)
       (\<lambda>t. Inr (d\<lparr>dct_tables := dct_tables d @ [t]\<rparr>, tbl_id t))"

definition hh_has_table :: "hh_table \<Rightarrow> u32 \<Rightarrow> bool" where
  "hh_has_table h op =
     list_ex (\<lambda>t. tbl_id t = build_op_table_name (hh_id h) op) (hh_tables h)"

definition hh_get_table :: "hh_table \<Rightarrow> u32 \<Rightarrow> table option" where
  "hh_get_table h op = find (\<lambda>t. tbl_id t = build_op_table_name (hh_id h) op) (hh_tables h)"

definition fcfs_has_table :: "fcfs_cached_table \<Rightarrow> u32 \<Rightarrow> bool" where
  "fcfs_has_table f op =
     list_ex (\<lambda>t. tbl_id t = build_op_table_name (fcfs_id f) op) (fcfs_tables f)"

definition fcfs_get_table_by_id :: "fcfs_cached_table \<Rightarrow> ds_id \<Rightarrow> table option" where
  "fcfs_get_table_by_id f table_id = find (\<lambda>t. tbl_id t = table_id) (fcfs_tables f)"

definition fcfs_get_table :: "fcfs_cached_table \<Rightarrow> u32 \<Rightarrow> table option" where
  "fcfs_get_table f op = fcfs_get_table_by_id f (build_op_table_name (fcfs_id f) op)"

definition fcfs_remove_table :: "fcfs_cached_table \<Rightarrow> ds_id \<Rightarrow> fcfs_cached_table" where
  "fcfs_remove_table f table_id =
     f\<lparr>fcfs_tables := filter (\<lambda>t. tbl_id t \<noteq> table_id) (fcfs_tables f)\<rparr>"

section \<open>The interface\<close>

locale table_store =
  fixes tables :: "'s \<Rightarrow> table list"
    and name :: "'s \<Rightarrow> 'op \<Rightarrow> ds_id"
    and has :: "'s \<Rightarrow> 'op \<Rightarrow> bool"
    and get :: "'s \<Rightarrow> 'op \<Rightarrow> table option"
    and add :: "'s \<Rightarrow> 'op \<Rightarrow> ('s \<times> ds_id) result"
  assumes has_law: "has s op \<longleftrightarrow> (\<exists>t \<in> set (tables s). tbl_id t = name s op)"
    and get_law: "get s op = find (\<lambda>t. tbl_id t = name s op) (tables s)"
    and name_law: "name s op = name s op' \<Longrightarrow> op = op'"
    and add_law: "add s op = Inr (s', i) \<Longrightarrow>
      i = name s op \<and> name s' = name s \<and> (\<exists>t. tbl_id t = i \<and> tables s' = tables s @ [t])"
begin

lemma has_iff_get: "has s op \<longleftrightarrow> get s op \<noteq> None"
  by (auto simp: has_law get_law find_None_iff)

lemma get_named: "get s op = Some t \<Longrightarrow> t \<in> set (tables s) \<and> tbl_id t = name s op"
  by (auto simp: get_law find_Some_iff)

lemma find_snoc: "find P (xs @ [x]) = (case find P xs of None \<Rightarrow> if P x then Some x else None | Some y \<Rightarrow> Some y)"
  by (induction xs) auto

lemma add_then_get:
  assumes "add s op = Inr (s', i)" "\<not> has s op"
  shows "\<exists>t. get s' op = Some t \<and> tbl_id t = i \<and> tables s' = tables s @ [t]"
proof -
  from add_law [OF assms(1)] obtain t where
    t: "i = name s op" "name s' = name s" "tbl_id t = i" "tables s' = tables s @ [t]" by blast
  from assms(2) have "get s op = None" by (simp add: has_iff_get)
  with t show ?thesis by (simp add: get_law find_snoc)
qed

lemma add_then_has: "add s op = Inr (s', i) \<Longrightarrow> has s' op"
  by (drule add_law) (auto simp: has_law)

lemma add_frame:
  assumes "add s op = Inr (s', i)" "op' \<noteq> op"
  shows "get s' op' = get s op'"
proof -
  from add_law [OF assms(1)] obtain t where
    t: "i = name s op" "name s' = name s" "tbl_id t = i" "tables s' = tables s @ [t]" by blast
  from assms(2) have "tbl_id t \<noteq> name s op'" using t name_law by metis
  with t show ?thesis by (simp add: get_law find_snoc split: option.splits)
qed

lemma add_again_shadowed:
  assumes "add s op = Inr (s', i)" "has s op"
  shows "get s' op = get s op"
proof -
  from add_law [OF assms(1)] obtain t where
    t: "i = name s op" "name s' = name s" "tbl_id t = i" "tables s' = tables s @ [t]" by blast
  from assms(2) obtain u where "get s op = Some u" by (auto simp: has_iff_get)
  with t show ?thesis by (simp add: get_law find_snoc)
qed

lemma add_distinct:
  assumes "add s op = Inr (s', i)" "\<not> has s op" "distinct (map tbl_id (tables s))"
  shows "distinct (map tbl_id (tables s'))"
proof -
  from add_law [OF assms(1)] obtain t where
    t: "i = name s op" "tbl_id t = i" "tables s' = tables s @ [t]" by blast
  with assms(2,3) show ?thesis by (auto simp: has_law)
qed

end

section \<open>Its implementations\<close>

interpretation mt: table_store mt_tables "\<lambda>m. build_table_name (mt_id m)" mt_has_table
  mt_get_table "\<lambda>m op. mt_add_table m op ks ta" for ks ta
  by unfold_locales
    (auto simp: mt_has_table_def mt_get_table_def mt_add_table_def result_simps list_ex_iff
      dest: new_table_fields)

interpretation gmt: table_store gmt_tables "\<lambda>g. build_table_name (gmt_id g)" gmt_has_table
  gmt_get_table "\<lambda>g op. gmt_add_table g op ks ta" for ks ta
  by unfold_locales
    (auto simp: gmt_has_table_def gmt_get_table_def gmt_add_table_def result_simps list_ex_iff
      dest: new_table_fields)

interpretation vt: table_store vt_tables "\<lambda>v. build_table_name (vt_id v)" vt_has_table
  vt_get_table vt_add_table
  by unfold_locales
    (auto simp: vt_has_table_def vt_get_table_def vt_add_table_def result_simps list_ex_iff
      dest: new_table_fields)

interpretation dct: table_store dct_tables "\<lambda>d. build_table_name (dct_id d)" dct_has_table
  dct_get_table dct_add_table
  by unfold_locales
    (auto simp: dct_has_table_def dct_get_table_def dct_add_table_def result_simps list_ex_iff
      dest: new_table_fields)

interpretation hh: table_store hh_tables "\<lambda>h. build_op_table_name (hh_id h)" hh_has_table
  hh_get_table hh_add_table
  by unfold_locales
    (auto simp: hh_has_table_def hh_get_table_def hh_add_table_def result_simps list_ex_iff
      dest: new_table_fields)

interpretation fcfs: table_store fcfs_tables "\<lambda>f. build_op_table_name (fcfs_id f)"
  fcfs_has_table fcfs_get_table fcfs_add_table
  by unfold_locales
    (auto simp: fcfs_has_table_def fcfs_get_table_def fcfs_get_table_by_id_def
      fcfs_add_table_def result_simps list_ex_iff dest: new_table_fields)

end
