(* ===== verification/DSStore.thy ===== *)
theory DSStore
  imports TableStores
begin

text \<open>
  The container \<^verbatim>\<open>DataStructures\<close> (\<^verbatim>\<open>DataStructures/DataStructures.h\<close>): it owns the
  data structures and indexes them by the address of the program object they implement and
  by identifier. Objects live in an explicit heap, because the container keeps raw pointers
  beside the owning ones: erasing the owning pointer frees the object, and reading a freed
  object is undefined.
\<close>

section \<open>State and lookups\<close>

type_synonym ptr = nat

record ds_store =
  heap :: "ptr \<rightharpoonup> ds"
  data :: "ptr list"
  data_per_obj :: "addr_t \<rightharpoonup> ptr set"
  data_per_id :: "ds_id \<rightharpoonup> ptr"

definition empty_store :: ds_store where
  "empty_store = \<lparr>heap = Map.empty, data = [], data_per_obj = Map.empty,
                   data_per_id = Map.empty\<rparr>"

definition deref :: "ds_store \<Rightarrow> ptr \<Rightarrow> ds result" where
  "deref st p = (case heap st p of None \<Rightarrow> Inl Undefined | Some d \<Rightarrow> Inr d)"

definition has_addr :: "ds_store \<Rightarrow> addr_t \<Rightarrow> bool" where
  "has_addr st addr \<longleftrightarrow> data_per_obj st addr \<noteq> None"

definition has_id :: "ds_store \<Rightarrow> ds_id \<Rightarrow> bool" where
  "has_id st id' \<longleftrightarrow> data_per_id st id' \<noteq> None"

definition get_ds :: "ds_store \<Rightarrow> addr_t \<Rightarrow> ptr set result" where
  "get_ds st addr =
     (case data_per_obj st addr of None \<Rightarrow> Inl Panicked | Some ps \<Rightarrow> Inr ps)"

text \<open>The loop of \<^verbatim>\<open>get_ds_from_id\<close> over the owned structures, looking inside each.\<close>

fun find_unwrapped :: "ds_store \<Rightarrow> ds_id \<Rightarrow> ptr list \<Rightarrow> ds result" where
  "find_unwrapped st id' [] = Inl Panicked"
| "find_unwrapped st id' (p # ps) =
     rbind (deref st p) (\<lambda>d.
     rbind (unwrap d) (\<lambda>ids.
       if id' \<in> set ids then Inr d else find_unwrapped st id' ps))"

definition get_ds_from_id :: "ds_store \<Rightarrow> ds_id \<Rightarrow> ds result" where
  "get_ds_from_id st id' =
     (case data_per_id st id' of
        None \<Rightarrow> find_unwrapped st id' (data st)
      | Some p \<Rightarrow> deref st p)"

section \<open>Saving\<close>

text \<open>
  \<^verbatim>\<open>data_per_obj[addr]\<close> creates an empty set where there is none. The new object \<open>d\<close>
  is at \<open>p\<close>; a structure already registered under its identifier is released: its owning
  pointer is erased from \<open>data\<close>, which frees it.
\<close>

definition obj_ptrs :: "ds_store \<Rightarrow> addr_t \<Rightarrow> ptr set" where
  "obj_ptrs st addr = (case data_per_obj st addr of None \<Rightarrow> {} | Some ps \<Rightarrow> ps)"

definition release :: "ds_store \<Rightarrow> addr_t \<Rightarrow> ds_id \<Rightarrow> ptr \<Rightarrow> ds_store" where
  "release st addr id' old =
     st\<lparr>heap := (heap st)(old := None),
        data := filter (\<lambda>q. q \<noteq> old) (data st),
        data_per_id := (data_per_id st)(id' := None),
        data_per_obj := (data_per_obj st)(addr \<mapsto> obj_ptrs st addr - {old})\<rparr>"

definition save :: "ds_store \<Rightarrow> addr_t \<Rightarrow> ptr \<Rightarrow> ds \<Rightarrow> ds_store result" where
  "save st addr p d =
     (if p \<in> set (data st) then Inr st
      else
        rbind
          (case data_per_id st (ds_id_of d) of
             None \<Rightarrow> Inr st
           | Some old \<Rightarrow>
               rbind (deref st old) (\<lambda>obj.
               assert_that (ds_id_of obj = ds_id_of d)
                 (Inr (release st addr (ds_id_of d) old))))
          (\<lambda>st1. Inr (st1\<lparr>heap := (heap st1)(p \<mapsto> d),
                        data_per_obj := (data_per_obj st1)(addr \<mapsto> insert p (obj_ptrs st1 addr)),
                        data_per_id := (data_per_id st1)(ds_id_of d \<mapsto> p),
                        data := data st1 @ [p]\<rparr>)))"

section \<open>Well-formed stores\<close>

text \<open>
  Every owned pointer is live, registered under the identifier of its object, and every
  raw pointer kept in an index is owned.
\<close>

definition store_wf :: "ds_store \<Rightarrow> bool" where
  "store_wf st \<longleftrightarrow>
     distinct (data st) \<and>
     dom (heap st) = set (data st) \<and>
     (\<forall>i p. data_per_id st i = Some p \<longrightarrow> (\<exists>d. heap st p = Some d \<and> ds_id_of d = i)) \<and>
     (\<forall>p d. heap st p = Some d \<longrightarrow> data_per_id st (ds_id_of d) = Some p) \<and>
     (\<forall>a ps. data_per_obj st a = Some ps \<longrightarrow> ps \<subseteq> set (data st))"

text \<open>The structure registered under an identifier hangs off no other address.\<close>

definition only_at :: "ds_store \<Rightarrow> addr_t \<Rightarrow> ds_id \<Rightarrow> bool" where
  "only_at st addr i \<longleftrightarrow>
     (\<forall>p. data_per_id st i = Some p \<longrightarrow>
        (\<forall>a ps. a \<noteq> addr \<longrightarrow> data_per_obj st a = Some ps \<longrightarrow> p \<notin> ps))"

lemma store_wf_empty: "store_wf empty_store"
  by (simp add: store_wf_def empty_store_def)

lemma store_wfI:
  assumes "distinct (data st)" "\<And>p. p \<in> set (data st) \<longleftrightarrow> heap st p \<noteq> None"
    and "\<And>i p. data_per_id st i = Some p \<Longrightarrow> \<exists>d. heap st p = Some d \<and> ds_id_of d = i"
    and "\<And>p d. heap st p = Some d \<Longrightarrow> data_per_id st (ds_id_of d) = Some p"
    and "\<And>a ps q. data_per_obj st a = Some ps \<Longrightarrow> q \<in> ps \<Longrightarrow> q \<in> set (data st)"
  shows "store_wf st"
  unfolding store_wf_def
proof (intro conjI)
  show "dom (heap st) = set (data st)" using assms(2) by auto
  show "\<forall>a ps. data_per_obj st a = Some ps \<longrightarrow> ps \<subseteq> set (data st)" using assms(5) by blast
qed (use assms in blast)+

lemma store_wfD:
  assumes "store_wf st"
  shows store_wf_distinct: "distinct (data st)"
    and store_wf_data: "p \<in> set (data st) \<longleftrightarrow> heap st p \<noteq> None"
    and store_wf_id: "data_per_id st i = Some p \<Longrightarrow> \<exists>d. heap st p = Some d \<and> ds_id_of d = i"
    and store_wf_heap: "heap st p = Some d \<Longrightarrow> data_per_id st (ds_id_of d) = Some p"
    and store_wf_obj: "data_per_obj st a = Some ps \<Longrightarrow> q \<in> ps \<Longrightarrow> heap st q \<noteq> None"
proof -
  note wf = assms [unfolded store_wf_def]
  show "distinct (data st)" using wf by blast
  show *: "p \<in> set (data st) \<longleftrightarrow> heap st p \<noteq> None" for p using wf by blast
  show "data_per_id st i = Some p \<Longrightarrow> \<exists>d. heap st p = Some d \<and> ds_id_of d = i" using wf by blast
  show "heap st p = Some d \<Longrightarrow> data_per_id st (ds_id_of d) = Some p" using wf by blast
  show "data_per_obj st a = Some ps \<Longrightarrow> q \<in> ps \<Longrightarrow> heap st q \<noteq> None" using wf * by blast
qed

lemma store_wf_live:
  assumes "store_wf st" "data_per_id st i = Some p"
  shows "\<exists>d. deref st p = Inr d \<and> ds_id_of d = i"
  using store_wf_id [OF assms] by (auto simp: deref_def)

lemma save_succeeds:
  assumes "store_wf st"
  shows "\<exists>st'. save st addr p d = Inr st'"
proof (cases "data_per_id st (ds_id_of d)")
  case None
  then show ?thesis by (simp add: save_def)
next
  case (Some old)
  from store_wf_live [OF assms Some] obtain o' where
    "deref st old = Inr o'" "ds_id_of o' = ds_id_of d" by blast
  with Some show ?thesis by (simp add: save_def)
qed

lemma save_cases:
  assumes "store_wf st" "p \<notin> set (data st)" "save st addr p d = Inr st'"
  obtains (fresh) "data_per_id st (ds_id_of d) = None"
    "st' = st\<lparr>heap := (heap st)(p \<mapsto> d),
       data_per_obj := (data_per_obj st)(addr \<mapsto> insert p (obj_ptrs st addr)),
       data_per_id := (data_per_id st)(ds_id_of d \<mapsto> p), data := data st @ [p]\<rparr>"
  | (replaced) old where "data_per_id st (ds_id_of d) = Some old"
    "st' = st\<lparr>heap := (heap st)(old := None, p \<mapsto> d),
       data_per_obj := (data_per_obj st)(addr \<mapsto> insert p (obj_ptrs st addr - {old})),
       data_per_id := (data_per_id st)(ds_id_of d \<mapsto> p),
       data := filter (\<lambda>q. q \<noteq> old) (data st) @ [p]\<rparr>"
proof (cases "data_per_id st (ds_id_of d)")
  case None
  with assms(2,3) show thesis by (intro fresh) (auto simp: save_def)
next
  case (Some old)
  from store_wf_live [OF assms(1) Some] obtain o' where
    "deref st old = Inr o'" "ds_id_of o' = ds_id_of d" by blast
  with Some assms(2,3) show thesis
    by (intro replaced [OF Some]) (auto simp: save_def release_def obj_ptrs_def)
qed

lemma save_wf:
  assumes wf: "store_wf st" and p: "p \<notin> set (data st)" and at: "only_at st addr (ds_id_of d)"
    and ok: "save st addr p d = Inr st'"
  shows "store_wf st'"
  using wf p ok
proof (cases rule: save_cases)
  case fresh
  note facts = store_wf_distinct [OF wf] store_wf_data [OF wf]
  have p': "heap st p = None" using p facts(2) by blast
  show ?thesis unfolding fresh(2)
  proof (rule store_wfI, goal_cases)
    case 3 then show ?case using store_wf_id [OF wf] p' by (force split: if_splits)
  next
    case 4 then show ?case using store_wf_heap [OF wf] fresh(1) by (fastforce split: if_splits)
  next
    case 5 then show ?case
      using store_wf_obj [OF wf] by (auto simp: obj_ptrs_def facts(2) split: if_splits option.splits)
  qed (use facts p in auto)
next
  case (replaced old)
  note facts = store_wf_distinct [OF wf] store_wf_data [OF wf]
  have p': "heap st p = None" using p facts(2) by blast
  have elsewhere: "q \<noteq> old" if "data_per_obj st a = Some ps" "a \<noteq> addr" "q \<in> ps" for a ps q
    using that at replaced(1) by (auto simp: only_at_def)
  have pold: "p \<noteq> old" using store_wf_id [OF wf replaced(1)] p' by auto
  show ?thesis unfolding replaced(2)
  proof (rule store_wfI, goal_cases)
    case 3 then show ?case
      using store_wf_id [OF wf] store_wf_id [OF wf replaced(1)] p' by (force split: if_splits)
  next
    case 4 then show ?case using store_wf_heap [OF wf] replaced(1) by (fastforce split: if_splits)
  next
    case 5 then show ?case
      using store_wf_obj [OF wf] elsewhere
      by (auto simp: obj_ptrs_def facts(2) split: if_splits option.splits)
  qed (use facts p pold in auto)
qed

section \<open>The registry interface\<close>

text \<open>
  What the placers rely on: an identifier just registered is found again, and registering
  does not disturb the others.
\<close>

locale ds_registry =
  fixes inv :: "'s \<Rightarrow> bool"
    and registered :: "'s \<Rightarrow> ds_id \<Rightarrow> bool"
    and lookup :: "'s \<Rightarrow> ds_id \<Rightarrow> ds result"
    and register :: "'s \<Rightarrow> 'k \<Rightarrow> ds \<Rightarrow> 's result"
    and admissible :: "'s \<Rightarrow> 'k \<Rightarrow> ds \<Rightarrow> bool"
  assumes register_total: "inv s \<Longrightarrow> admissible s k d \<Longrightarrow> \<exists>s'. register s k d = Inr s'"
    and register_inv: "inv s \<Longrightarrow> admissible s k d \<Longrightarrow> register s k d = Inr s' \<Longrightarrow> inv s'"
    and lookup_same: "inv s \<Longrightarrow> admissible s k d \<Longrightarrow> register s k d = Inr s' \<Longrightarrow>
      registered s' (ds_id_of d) \<and> lookup s' (ds_id_of d) = Inr d"
    and lookup_other: "inv s \<Longrightarrow> admissible s k d \<Longrightarrow> register s k d = Inr s' \<Longrightarrow>
      i \<noteq> ds_id_of d \<Longrightarrow> registered s i \<Longrightarrow> registered s' i \<and> lookup s' i = lookup s i"
begin

lemma register_twice:
  assumes "inv s" "admissible s k d" "register s k d = Inr s'"
    and "admissible s' k' d'" "register s' k' d' = Inr s''" "ds_id_of d \<noteq> ds_id_of d'"
  shows "lookup s'' (ds_id_of d) = Inr d" "lookup s'' (ds_id_of d') = Inr d'"
proof -
  from assms(1-3) have i: "inv s'" by (rule register_inv)
  from lookup_same [OF assms(1-3)] have "registered s' (ds_id_of d)"
    and "lookup s' (ds_id_of d) = Inr d" by auto
  with lookup_other [OF i assms(4,5,6)] show "lookup s'' (ds_id_of d) = Inr d" by simp
  from lookup_same [OF i assms(4,5)] show "lookup s'' (ds_id_of d') = Inr d'" by simp
qed

end

definition admissible_save :: "ds_store \<Rightarrow> addr_t \<times> ptr \<Rightarrow> ds \<Rightarrow> bool" where
  "admissible_save st k d \<longleftrightarrow> snd k \<notin> set (data st) \<and> only_at st (fst k) (ds_id_of d)"

lemma save_lookup_same:
  assumes "store_wf st" "p \<notin> set (data st)" "save st addr p d = Inr st'"
  shows "has_id st' (ds_id_of d) \<and> get_ds_from_id st' (ds_id_of d) = Inr d"
  using assms by (cases rule: save_cases) (auto simp: has_id_def get_ds_from_id_def deref_def)

lemma save_lookup_other:
  assumes "store_wf st" "p \<notin> set (data st)" "save st addr p d = Inr st'"
    and "i \<noteq> ds_id_of d" "has_id st i"
  shows "has_id st' i \<and> get_ds_from_id st' i = get_ds_from_id st i"
proof -
  from assms(5) obtain q where q: "data_per_id st i = Some q" by (auto simp: has_id_def)
  from store_wf_live [OF assms(1) q] have live: "q \<in> set (data st)"
    using store_wf_data [OF assms(1)] by (auto simp: deref_def split: option.splits)
  with assms(2) have qp: "q \<noteq> p" by auto
  have ne: "q \<noteq> old" if "data_per_id st (ds_id_of d) = Some old" for old
    using store_wf_id [OF assms(1) that] store_wf_id [OF assms(1) q] assms(4) by auto
  from assms(1-3) show ?thesis
  proof (cases rule: save_cases)
    case fresh
    then show ?thesis using q qp assms(4) by (simp add: has_id_def get_ds_from_id_def deref_def)
  next
    case (replaced old)
    then show ?thesis using q qp ne assms(4)
      by (simp add: has_id_def get_ds_from_id_def deref_def)
  qed
qed

interpretation store: ds_registry store_wf has_id get_ds_from_id
  "\<lambda>st k d. save st (fst k) (snd k) d" admissible_save
proof unfold_locales
  fix s :: ds_store and k :: "addr_t \<times> ptr" and d
  assume "store_wf s"
  then show "\<exists>s'. save s (fst k) (snd k) d = Inr s'" by (rule save_succeeds)
next
  fix s :: ds_store and k :: "addr_t \<times> ptr" and d s'
  assume "store_wf s" "admissible_save s k d" "save s (fst k) (snd k) d = Inr s'"
  then show "store_wf s'" by (auto simp: admissible_save_def intro: save_wf)
next
  fix s :: ds_store and k :: "addr_t \<times> ptr" and d s'
  assume "store_wf s" "admissible_save s k d" "save s (fst k) (snd k) d = Inr s'"
  then show "has_id s' (ds_id_of d) \<and> get_ds_from_id s' (ds_id_of d) = Inr d"
    by (auto simp: admissible_save_def dest: save_lookup_same)
next
  fix s :: ds_store and k :: "addr_t \<times> ptr" and d s' i
  assume "store_wf s" "admissible_save s k d" "save s (fst k) (snd k) d = Inr s'"
    and "i \<noteq> ds_id_of d" "has_id s i"
  then show "has_id s' i \<and> get_ds_from_id s' i = get_ds_from_id s i"
    by (intro save_lookup_other [of s "snd k" "fst k" d s']) (auto simp: admissible_save_def)
qed

end
