(* ===== verification/StructureProperties.thy ===== *)
theory StructureProperties
  imports DSStore
begin

text \<open>
  Properties of the numeric helpers, of the data structures and of the store that owns
  them, each over the model's own operations.
\<close>

section \<open>Numbers\<close>

text \<open>A non-zero capacity is accepted exactly when it is a power of two, and the result is
  its exponent.\<close>

theorem bits_from_pow2_capacity_log2:
  assumes "c \<noteq> 0"
  shows "bits_from_pow2_capacity c = Inr b \<longleftrightarrow> unat b < 64 \<and> c = 2 ^ unat b"
proof
  assume r: "bits_from_pow2_capacity c = Inr b"
  then have "is_power_of_two c" by (simp add: bits_from_pow2_capacity_def assert_that_eq_Inr)
  with assms obtain n where n: "n < 64" "c = 2 ^ n" by (auto simp: is_power_of_two_cases)
  with r have "b = of_nat n" by (simp add: bits_from_pow2_exp)
  with n show "unat b < 64 \<and> c = 2 ^ unat b" by (simp add: unat_of_nat)
next
  assume "unat b < 64 \<and> c = 2 ^ unat b"
  with bits_from_pow2_exp [of "unat b"] show "bits_from_pow2_capacity c = Inr b" by simp
qed

theorem bits_from_pow2_capacity_log2_witness: "bits_from_pow2_capacity 1024 = Inr 10"
proof -
  have "(1024 :: u64) \<noteq> 0" by simp
  from bits_from_pow2_capacity_log2 [OF this, of 10] show ?thesis by simp
qed

text \<open>Converting a packet rate to bits per second and back is exact, as long as neither
  product overflows.\<close>

theorem pps_bps_roundtrip:
  assumes "unat pkt_size + 24 < 2 ^ 29" "unat pps * ((unat pkt_size + 24) * 8) < 2 ^ 64"
  shows "bps2pps (pps2bps pps pkt_size) pkt_size = Inr pps"
  using assms by (rule bps2pps_inverse)

theorem pps_bps_roundtrip_witness: "bps2pps (pps2bps 148809523 60) 60 = Inr 148809523"
  by (rule pps_bps_roundtrip) simp_all

text \<open>Printing for humans only inserts separators: removing them gives back the decimal
  digits, sign included.\<close>

theorem int2hr_roundtrip:
  "filter (\<lambda>c. c \<noteq> thousands_separator) (int2hr value) = to_string_signed (sint value)"
  by (rule int2hr_digits)

text \<open>A table for \<open>c\<close> entries gets the least capacity of which 90 percent is at least
  \<open>c\<close>.\<close>

theorem new_table_leaves_room:
  assumes "new_table i c keys params ta = Inr t"
  shows "10 * unat c \<le> 9 * unat (tbl_capacity t) \<and> 9 * (unat (tbl_capacity t) - 1) < 10 * unat c"
proof -
  from assms have "adjust_capacity_for_collisions c = Inr (tbl_capacity t)" "c > 0"
    by (auto simp: new_table_def rbind_eq_Inr assert_that_eq_Inr)
  moreover from this(2) have "unat c > 0" by (simp add: unat_gt_0 word_gt_0)
  ultimately show ?thesis using adjust_capacity_spec [of c "tbl_capacity t"] by linarith
qed

theorem new_table_leaves_room_witness:
  "10 * unat (65536 :: u32) \<le> 9 * unat (72818 :: u32)"
proof -
  have "new_table ''t'' 65536 [32] [32] No =
      Inr \<lparr>tbl_id = ''t'', tbl_capacity = 72818, tbl_keys = [32], tbl_params = [32],
        tbl_time_aware = No\<rparr>"
    by (simp add: new_table_def adjust_capacity_for_collisions_def)
  from new_table_leaves_room [OF this] show ?thesis by simp
qed

section \<open>Members of composite structures\<close>

text \<open>The flattening of a composite structure into levels of primitives gives back its own
  levels: every member the code lists is a primitive, so nothing is merged or reordered.\<close>

theorem flattening_keeps_levels:
  "get_internal_primitive d = get_internal d \<and>
   (case get_internal_primitive d of
      Inl e \<Rightarrow> True
    | Inr lvls \<Rightarrow> list_all (list_all ds_primitive) lvls)"
  using get_internal_primitive_members [of d]
  by (auto simp: get_internal_primitive_eq list_all_iff split: sum.split)

section \<open>Per-node tables\<close>

text \<open>After \<^verbatim>\<open>add_table\<close> a map finds the new table for its node, unless it had one before,
  which then stays the one found; the other nodes find what they found before.\<close>

theorem map_add_table_lookup:
  assumes "mt_add_table m op ks ta = Inr (m', i)"
  shows "mt_get_table m' op' =
    (if op' = op \<and> \<not> mt_has_table m op then Some (last (mt_tables m')) else mt_get_table m op')"
proof (cases "op' = op")
  case False
  with mt.add_frame [OF assms False] show ?thesis by simp
next
  case True
  show ?thesis
  proof (cases "mt_has_table m op")
    case has: True
    with mt.add_again_shadowed [OF assms has] True show ?thesis by simp
  next
    case has: False
    from mt.add_then_get [OF assms has] True has show ?thesis by auto
  qed
qed

theorem map_add_table_lookup_witness:
  "\<exists>m' i. mt_add_table \<lparr>mt_id = ''m'', mt_capacity = 9, mt_key_size = 32, mt_param_size = 16,
       mt_tables = []\<rparr> 7 [32] No = Inr (m', i) \<and>
     mt_get_table m' 7 = Some (last (mt_tables m'))"
proof -
  let ?m = "\<lparr>mt_id = ''m'', mt_capacity = 9, mt_key_size = 32, mt_param_size = 16, mt_tables = []\<rparr>"
  obtain m' i where r: "mt_add_table ?m 7 [32] No = Inr (m', i)"
    by (simp add: mt_add_table_def new_table_def adjust_capacity_for_collisions_def)
  from map_add_table_lookup [OF r, of 7] r show ?thesis by (auto simp: mt_has_table_def)
qed

text \<open>Removing the table that was just added to a cached table undoes the addition.\<close>

lemma fcfs_remove_undoes_add:
  assumes "fcfs_add_table f op = Inr (f', i)" "\<not> fcfs_has_table f op"
  shows "fcfs_remove_table f' i = f"
proof -
  from fcfs.add_law [OF assms(1)] obtain t where
    t: "i = build_op_table_name (fcfs_id f) op" "tbl_id t = i"
    "fcfs_tables f' = fcfs_tables f @ [t]" by blast
  have f': "f' = f\<lparr>fcfs_tables := fcfs_tables f'\<rparr>"
    using assms(1) by (auto simp: fcfs_add_table_def rbind_eq_Inr)
  have "filter (\<lambda>t. tbl_id t \<noteq> i) (fcfs_tables f) = fcfs_tables f"
    using assms(2) t(1) by (auto simp: fcfs_has_table_def list_ex_iff filter_id_conv)
  with t have "filter (\<lambda>t. tbl_id t \<noteq> i) (fcfs_tables f') = fcfs_tables f" by simp
  then show ?thesis by (subst f') (simp add: fcfs_remove_table_def)
qed

text \<open>A cached table with a cache of one entry out of ten.\<close>

definition sample_cell :: register where
  "sample_cell = \<lparr>reg_id = ''r'', reg_capacity = 1, reg_index_size = 8, reg_value_size = 8,
     reg_actions = {}\<rparr>"

definition sample_cached_table :: fcfs_cached_table where
  "sample_cached_table =
     \<lparr>fcfs_id = ''f'', fcfs_cache_capacity = 1, fcfs_capacity = 10, fcfs_keys_sizes = [32],
      fcfs_tables = [], fcfs_reg_liveness = sample_cell, fcfs_reg_head = sample_cell,
      fcfs_reg_tail = sample_cell, fcfs_reg_indexes = sample_cell,
      fcfs_reg_pending = sample_cell, fcfs_cache_keys = [], fcfs_cache_value = sample_cell,
      fcfs_hash = new_hash ''h'' [32] 8, fcfs_digest = new_digest ''d'' [32] 0\<rparr>"

lemma fcfs_remove_undoes_add_witness:
  "\<exists>f' i. fcfs_add_table sample_cached_table 3 = Inr (f', i) \<and>
     fcfs_remove_table f' i = sample_cached_table"
proof -
  obtain f' i where r: "fcfs_add_table sample_cached_table 3 = Inr (f', i)"
    by (simp add: fcfs_add_table_def sample_cached_table_def new_table_def
        adjust_capacity_for_collisions_def)
  moreover have "\<not> fcfs_has_table sample_cached_table 3"
    by (simp add: fcfs_has_table_def sample_cached_table_def)
  ultimately show ?thesis using fcfs_remove_undoes_add [OF r] by blast
qed

lemma fcfs_add_table_empty:
  "fcfs_capacity f = fcfs_cache_capacity f \<Longrightarrow> fcfs_add_table f op = Inl Assert_Failed"
  by (simp add: fcfs_add_table_def new_table_def adjust_capacity_for_collisions_def)

text \<open>A cached table whose cache is as large as the table cannot be built, although the
  constructor's own assertion allows it: the table for the remaining entries would be empty.\<close>

theorem fcfs_full_cache_never_built:
  "new_fcfs_cached_table props i op c c ks dt \<noteq> Inr f"
  by (auto simp: new_fcfs_cached_table_def rbind_eq_Inr assert_that_eq_Inr fcfs_add_table_empty)

section \<open>The store\<close>

text \<open>Saving a structure at a new address of the heap, while the structure it replaces (if
  any) hangs off the same program object only, keeps the store well formed; the identifier
  then finds the new structure and every other identifier finds what it found before.\<close>

theorem save_registers:
  assumes "store_wf st" "p \<notin> set (data st)" "only_at st addr (ds_id_of d)"
  shows "\<exists>st'. save st addr p d = Inr st' \<and> store_wf st' \<and>
    get_ds_from_id st' (ds_id_of d) = Inr d \<and>
    (\<forall>i. i \<noteq> ds_id_of d \<longrightarrow> has_id st i \<longrightarrow> get_ds_from_id st' i = get_ds_from_id st i)"
proof -
  have adm: "admissible_save st (addr, p) d" using assms(2,3) by (simp add: admissible_save_def)
  from store.register_total [OF assms(1) adm] obtain st' where
    st': "save st (fst (addr, p)) (snd (addr, p)) d = Inr st'" by blast
  from store.register_inv [OF assms(1) adm st'] store.lookup_same [OF assms(1) adm st']
    store.lookup_other [OF assms(1) adm st'] st' show ?thesis by auto
qed

theorem save_registers_witness:
  "\<exists>st'. save empty_store 1 0 (DigestDS (new_digest ''d'' [] 0)) = Inr st' \<and> store_wf st'"
  using save_registers [OF store_wf_empty, of 0 1 "DigestDS (new_digest ''d'' [] 0)"]
  by (auto simp: empty_store_def only_at_def)

text \<open>Saving a replacement under another program object frees the old structure but leaves
  the pointer to it at the old one: looking there up afterwards reads freed memory.\<close>

theorem save_elsewhere_dangles:
  assumes "save empty_store 1 0 d = Inr st1" "save st1 2 1 d' = Inr st2"
    and "ds_id_of d' = ds_id_of d"
  shows "get_ds st2 1 = Inr {0} \<and> deref st2 0 = Inl Undefined"
  using assms
  by (auto simp: save_def empty_store_def deref_def release_def obj_ptrs_def get_ds_def)

theorem save_elsewhere_dangles_witness:
  "\<exists>st1 st2. save empty_store 1 0 (DigestDS (new_digest ''d'' [] 0)) = Inr st1 \<and>
     save st1 2 1 (DigestDS (new_digest ''d'' [] 0)) = Inr st2 \<and> deref st2 0 = Inl Undefined"
proof -
  let ?d = "DigestDS (new_digest ''d'' [] 0)"
  obtain st1 where st1: "save empty_store 1 0 ?d = Inr st1"
    by (simp add: save_def empty_store_def)
  moreover from st1 obtain st2 where st2: "save st1 2 1 ?d = Inr st2"
    by (auto simp: save_def empty_store_def deref_def)
  ultimately show ?thesis using save_elsewhere_dangles [OF st1 st2] by blast
qed

end
