(* ===== verification/TNA_Pipeline.thy ===== *)
theory TNA_Pipeline
  imports DSStore
begin

text \<open>
  The match-action pipeline of the switch (\<^verbatim>\<open>TNA/Pipeline.h\<close>, \<^verbatim>\<open>TNA/Pipeline.cpp\<close>):
  stages with their remaining resources, the placement requests made so far, and the
  queries over them. \<^verbatim>\<open>place\<close>, \<^verbatim>\<open>can_place\<close> and \<^verbatim>\<open>find_placements\<close>, which need the
  placers, are in theory \<^verbatim>\<open>Placement\<close>. The dependencies of a request and the structures
  of a stage are sets of identifiers.
\<close>

section \<open>State\<close>

datatype placement_status =
    Success | TooLarge | TooManyKeys | XBarConsumptionExceedsLimit | NoAvailableStage
  | InconsistentPlacement | SelfDependence | NotEnoughDigests | UnmetDependencies
  | MultipleReasons | Unsat | Unknown

primrec placement_status_to_string :: "placement_status \<Rightarrow> string" where
  "placement_status_to_string Success = ''Success''"
| "placement_status_to_string TooLarge = ''Too large''"
| "placement_status_to_string TooManyKeys = ''Too many keys''"
| "placement_status_to_string XBarConsumptionExceedsLimit = ''Xbar consumption exceeds limit''"
| "placement_status_to_string NoAvailableStage = ''No available stage''"
| "placement_status_to_string InconsistentPlacement = ''Inconsistent placement''"
| "placement_status_to_string SelfDependence = ''Self dependence''"
| "placement_status_to_string NotEnoughDigests = ''Not enough digests''"
| "placement_status_to_string UnmetDependencies = ''Unmet dependencies''"
| "placement_status_to_string MultipleReasons = ''Multiple reasons''"
| "placement_status_to_string Unsat = ''Unsat''"
| "placement_status_to_string Unknown = ''Unknown''"

record stage =
  stage_id :: int
  available_sram :: bits_t
  available_tcam :: bits_t
  available_map_ram :: bits_t
  available_exact_match_xbar :: bits_t
  available_logical_ids :: int
  stage_ds :: "ds_id set"

record pipeline_resources =
  res_stages :: "stage list"
  used_digests :: u8

record placement_request =
  req_ds :: ds_id
  req_deps :: "ds_id set"

record placement_result =
  status :: placement_status
  resources :: "pipeline_resources option"

record pipeline =
  pl_properties :: tna_properties
  pl_store :: ds_store
  pl_resources :: pipeline_resources
  pl_requests :: "placement_request list"

definition result_unknown :: placement_result where
  "result_unknown = \<lparr>status = Unknown, resources = None\<rparr>"

definition result_of_status :: "placement_status \<Rightarrow> placement_result result" where
  "result_of_status st =
     assert_that (st \<noteq> Success) (Inr \<lparr>status = st, resources = None\<rparr>)"

definition result_of_resources :: "pipeline_resources \<Rightarrow> placement_result" where
  "result_of_resources r = \<lparr>status = Success, resources = Some r\<rparr>"

definition new_pipeline_resources :: "tna_properties \<Rightarrow> pipeline_resources" where
  "new_pipeline_resources props =
     \<lparr>res_stages = map (\<lambda>i.
        \<lparr>stage_id = int i, available_sram = sram_per_stage props,
         available_tcam = tcam_per_stage props,
         available_map_ram = map_ram_per_stage props,
         available_exact_match_xbar = exact_match_xbar_per_stage props,
         available_logical_ids = max_logical_sram_and_tcam_tables_per_stage props,
         stage_ds = {}\<rparr>) [0..<nat (stages props)],
      used_digests = 0\<rparr>"

definition new_pipeline :: "tna_properties \<Rightarrow> ds_store \<Rightarrow> pipeline" where
  "new_pipeline props st =
     \<lparr>pl_properties = props, pl_store = st, pl_resources = new_pipeline_resources props,
      pl_requests = []\<rparr>"

definition copy_pipeline :: "pipeline \<Rightarrow> ds_store \<Rightarrow> pipeline" where
  "copy_pipeline other st =
     \<lparr>pl_properties = pl_properties other, pl_store = st,
      pl_resources = pl_resources other, pl_requests = pl_requests other\<rparr>"

abbreviation pl_stages :: "pipeline \<Rightarrow> stage list" where
  "pl_stages P \<equiv> res_stages (pl_resources P)"

definition get_used_stages :: "pipeline \<Rightarrow> u8" where
  "get_used_stages P = of_nat (length (filter (\<lambda>s. stage_ds s \<noteq> {}) (pl_stages P)))"

section \<open>Queries\<close>

definition placed_stage_in :: "stage list \<Rightarrow> ds_id \<Rightarrow> int" where
  "placed_stage_in ss i =
     (case find (\<lambda>s. i \<in> stage_ds s) ss of Some s \<Rightarrow> stage_id s | None \<Rightarrow> -1)"

definition get_placed_stage :: "pipeline \<Rightarrow> ds_id \<Rightarrow> int" where
  "get_placed_stage P i = placed_stage_in (pl_stages P) i"

definition already_placed :: "pipeline \<Rightarrow> ds_id \<Rightarrow> bool" where
  "already_placed P i \<longleftrightarrow> get_placed_stage P i \<ge> 0"

definition already_requested :: "pipeline \<Rightarrow> ds_id \<Rightarrow> bool" where
  "already_requested P i \<longleftrightarrow> list_ex (\<lambda>r. req_ds r = i) (pl_requests P)"

text \<open>
  The members are computed before the request is looked up; the inner \<^verbatim>\<open>break\<close> leaves
  only the loop over one level, so the result is whether some member is unplaced.
\<close>

definition detect_changes_to_already_placed_data_structure ::
  "pipeline \<Rightarrow> ds \<Rightarrow> bool result" where
  "detect_changes_to_already_placed_data_structure P d =
     rbind (get_internal_primitive d) (\<lambda>lvls.
       Inr (already_requested P (ds_id_of d) \<and>
            list_ex (list_ex (\<lambda>x. \<not> already_placed P (ds_id_of x))) lvls))"

fun soonest_loop :: "ds_id set \<Rightarrow> ds_id set \<Rightarrow> stage list \<Rightarrow> int" where
  "soonest_loop deps cummulative_ds [] = -1"
| "soonest_loop deps cummulative_ds (s # ss) =
     (if deps \<subseteq> cummulative_ds \<union> stage_ds s then stage_id s + 1
      else soonest_loop deps (cummulative_ds \<union> stage_ds s) ss)"

definition get_soonest_stage_satisfying_all_dependencies ::
  "pipeline \<Rightarrow> ds_id set \<Rightarrow> int" where
  "get_soonest_stage_satisfying_all_dependencies P deps =
     (if deps = {} then 0
      else let k = soonest_loop deps {} (pl_stages P)
           in if k \<ge> int (length (pl_stages P)) then -1 else k)"

section \<open>Well-formed resources\<close>

text \<open>
  Stage \<open>i\<close> of the vector carries identifier \<open>i\<close>, and no stage has more of a resource
  than the switch provides: subtracting from a stage never wrapped around.
\<close>

definition stage_within :: "tna_properties \<Rightarrow> stage \<Rightarrow> bool" where
  "stage_within props s \<longleftrightarrow>
     available_sram s \<le> sram_per_stage props \<and>
     available_tcam s \<le> tcam_per_stage props \<and>
     available_map_ram s \<le> map_ram_per_stage props \<and>
     available_exact_match_xbar s \<le> exact_match_xbar_per_stage props \<and>
     0 \<le> available_logical_ids s \<and>
     available_logical_ids s \<le> max_logical_sram_and_tcam_tables_per_stage props"

definition stages_numbered :: "stage list \<Rightarrow> bool" where
  "stages_numbered ss \<longleftrightarrow> map stage_id ss = map int [0..<length ss]"

definition resources_wf :: "tna_properties \<Rightarrow> pipeline_resources \<Rightarrow> bool" where
  "resources_wf props r \<longleftrightarrow>
     length (res_stages r) = nat (stages props) \<and>
     stages_numbered (res_stages r) \<and>
     list_all (stage_within props) (res_stages r) \<and>
     used_digests r \<le> max_digests props"

definition pipeline_wf :: "pipeline \<Rightarrow> bool" where
  "pipeline_wf P \<longleftrightarrow> resources_wf (pl_properties P) (pl_resources P)"

text \<open>The stages an identifier occupies.\<close>

definition placed_in :: "stage list \<Rightarrow> ds_id \<Rightarrow> int set" where
  "placed_in ss i = {stage_id s | s. s \<in> set ss \<and> i \<in> stage_ds s}"

lemma stages_numbered_nth:
  assumes "stages_numbered ss" "k < length ss"
  shows "stage_id (ss ! k) = int k"
proof -
  from assms(1) have "map stage_id ss ! k = map int [0..<length ss] ! k"
    by (simp add: stages_numbered_def)
  with assms(2) show ?thesis by simp
qed

lemma stages_numbered_mem:
  assumes "stages_numbered ss" "s \<in> set ss"
  shows "0 \<le> stage_id s \<and> stage_id s < int (length ss) \<and> ss ! nat (stage_id s) = s"
  using assms by (auto simp: in_set_conv_nth stages_numbered_nth)

lemma stages_numbered_inj:
  assumes "stages_numbered ss" "s \<in> set ss" "t \<in> set ss" "stage_id s = stage_id t"
  shows "s = t"
  using stages_numbered_mem [OF assms(1,2)] stages_numbered_mem [OF assms(1,3)] assms(4) by metis

lemma stages_numbered_distinct: "stages_numbered ss \<Longrightarrow> distinct (map stage_id ss)"
  by (simp add: stages_numbered_def distinct_map inj_on_def)

lemma already_placed_iff:
  assumes "stages_numbered (pl_stages P)"
  shows "already_placed P i \<longleftrightarrow> placed_in (pl_stages P) i \<noteq> {}"
proof (cases "find (\<lambda>s. i \<in> stage_ds s) (pl_stages P)")
  case None
  then have "\<forall>s \<in> set (pl_stages P). i \<notin> stage_ds s" by (simp add: find_None_iff)
  with None show ?thesis
    by (auto simp: already_placed_def get_placed_stage_def placed_stage_in_def placed_in_def)
next
  case (Some s)
  then have "s \<in> set (pl_stages P)" "i \<in> stage_ds s" by (auto simp: find_Some_iff)
  with stages_numbered_mem [OF assms this(1)] Some show ?thesis
    by (auto simp: already_placed_def get_placed_stage_def placed_stage_in_def placed_in_def)
qed

lemma new_pipeline_resources_wf:
  assumes "0 \<le> max_logical_sram_and_tcam_tables_per_stage props"
  shows "resources_wf props (new_pipeline_resources props)"
  using assms
  by (auto simp: resources_wf_def new_pipeline_resources_def stages_numbered_def
      stage_within_def list_all_iff o_def)

section \<open>The soonest stage\<close>

lemma soonest_loop_spec:
  assumes "stages_numbered (pre @ ss)" "cum = \<Union> (stage_ds ` set pre)"
    and "\<not> deps \<subseteq> cum"
  shows "soonest_loop deps cum ss = -1 \<and> \<not> deps \<subseteq> \<Union> (stage_ds ` set (pre @ ss)) \<or>
    (\<exists>k < length ss. soonest_loop deps cum ss = int (length pre + k) + 1 \<and>
       deps \<subseteq> \<Union> (stage_ds ` set (take (length pre + k + 1) (pre @ ss))) \<and>
       \<not> deps \<subseteq> \<Union> (stage_ds ` set (take (length pre + k) (pre @ ss))))"
  using assms
proof (induction ss arbitrary: pre cum)
  case Nil
  then show ?case by simp
next
  case (Cons s ss)
  have id: "stage_id s = int (length pre)"
    using stages_numbered_nth [OF Cons.prems(1), of "length pre"] by simp
  show ?case
  proof (cases "deps \<subseteq> cum \<union> stage_ds s")
    case True
    have "soonest_loop deps cum (s # ss) = int (length pre + 0) + 1" using True id by simp
    moreover have "deps \<subseteq> \<Union> (stage_ds ` set (take (length pre + 0 + 1) (pre @ s # ss)))"
      using True Cons.prems(2) by auto
    moreover have "\<not> deps \<subseteq> \<Union> (stage_ds ` set (take (length pre + 0) (pre @ s # ss)))"
      using Cons.prems(2,3) by simp
    ultimately show ?thesis by (intro disjI2 exI [of _ 0]) simp
  next
    case False
    have num: "stages_numbered ((pre @ [s]) @ ss)" using Cons.prems(1) by simp
    have cum: "cum \<union> stage_ds s = \<Union> (stage_ds ` set (pre @ [s]))" using Cons.prems(2) by auto
    from Cons.IH [OF num cum False] show ?thesis
    proof (elim disjE exE conjE)
      fix k
      assume k: "k < length ss"
        "soonest_loop deps (cum \<union> stage_ds s) ss = int (length (pre @ [s]) + k) + 1"
        "deps \<subseteq> \<Union> (stage_ds ` set (take (length (pre @ [s]) + k + 1) ((pre @ [s]) @ ss)))"
        "\<not> deps \<subseteq> \<Union> (stage_ds ` set (take (length (pre @ [s]) + k) ((pre @ [s]) @ ss)))"
      show ?thesis using k False by (intro disjI2 exI [of _ "Suc k"]) simp
    qed (use False in auto)
  qed
qed

text \<open>
  The chosen stage is the first one such that all dependencies occur in earlier stages.
\<close>

lemma soonest_stage_spec:
  assumes num: "stages_numbered (pl_stages P)" and ne: "deps \<noteq> {}"
    and k: "get_soonest_stage_satisfying_all_dependencies P deps = k" "0 \<le> k"
  shows "0 < k \<and> k < int (length (pl_stages P)) \<and>
    (\<forall>d \<in> deps. \<exists>s \<in> placed_in (pl_stages P) d. s < k) \<and>
    (\<forall>j < k. \<not> (\<forall>d \<in> deps. \<exists>s \<in> placed_in (pl_stages P) d. s < j))"
proof -
  let ?ss = "pl_stages P"
  have mem: "d \<in> \<Union> (stage_ds ` set (take n ?ss)) \<longleftrightarrow> (\<exists>s \<in> placed_in ?ss d. s < int n)"
    if "n \<le> length ?ss" for d n
  proof
    assume "d \<in> \<Union> (stage_ds ` set (take n ?ss))"
    then obtain i where "i < n" "i < length ?ss" "d \<in> stage_ds (?ss ! i)"
      by (auto simp: in_set_conv_nth)
    then show "\<exists>s \<in> placed_in ?ss d. s < int n"
      using stages_numbered_nth [OF num, of i]
      by (intro bexI [of _ "int i"]) (auto simp: placed_in_def intro!: exI [of _ "?ss ! i"])
  next
    assume "\<exists>s \<in> placed_in ?ss d. s < int n"
    then obtain s where s: "s \<in> set ?ss" "d \<in> stage_ds s" "stage_id s < int n"
      by (auto simp: placed_in_def)
    with stages_numbered_mem [OF num s(1)] have "nat (stage_id s) < n" "?ss ! nat (stage_id s) = s"
      "nat (stage_id s) < length ?ss" by auto
    then have "s \<in> set (take n ?ss)"
      by (metis in_set_conv_nth length_take min_less_iff_conj nth_take)
    with s(2) show "d \<in> \<Union> (stage_ds ` set (take n ?ss))" by blast
  qed
  from k ne have loop: "soonest_loop deps {} ?ss = k" "k < int (length ?ss)"
    by (auto simp: get_soonest_stage_satisfying_all_dependencies_def Let_def split: if_splits)
  from soonest_loop_spec [of "[]" ?ss "{}" deps] num ne loop(1) k(2)
  obtain i where i: "i < length ?ss" "k = int i + 1"
    "deps \<subseteq> \<Union> (stage_ds ` set (take (i + 1) ?ss))"
    "\<not> deps \<subseteq> \<Union> (stage_ds ` set (take i ?ss))" by auto
  have "\<forall>d \<in> deps. \<exists>s \<in> placed_in ?ss d. s < k"
    using i(1,2,3) mem [of "i + 1"] by (auto simp: add.commute)
  moreover have "\<not> (\<forall>d \<in> deps. \<exists>s \<in> placed_in ?ss d. s < j)" if "j < k" for j
  proof
    assume "\<forall>d \<in> deps. \<exists>s \<in> placed_in ?ss d. s < j"
    moreover have "j \<le> int i" using that i(2) by simp
    ultimately have "\<forall>d \<in> deps. \<exists>s \<in> placed_in ?ss d. s < int i"
      by (meson order_less_le_trans)
    with i(1) mem [of i] have "deps \<subseteq> \<Union> (stage_ds ` set (take i ?ss))" by auto
    with i(4) show False by contradiction
  qed
  ultimately show ?thesis using i(2) loop(2) by auto
qed

lemma soonest_stage_bounds:
  "stages_numbered (pl_stages P) \<Longrightarrow> pl_stages P \<noteq> [] \<Longrightarrow>
   0 \<le> get_soonest_stage_satisfying_all_dependencies P deps \<Longrightarrow>
   get_soonest_stage_satisfying_all_dependencies P deps < int (length (pl_stages P))"
  using soonest_stage_spec [of P deps]
  by (cases "deps = {}") (auto simp: get_soonest_stage_satisfying_all_dependencies_def)

end
