(* ===== verification/SimplePlacer.thy ===== *)
theory SimplePlacer
  imports TNA_Pipeline
begin

text \<open>
  The greedy placer (\<^verbatim>\<open>TNA/SimplePlacer.cpp\<close>): one function per primitive, the loop that
  charges a list of placements to the stages, the placement of composite structures level
  by level, and the clean-slate placement that starts over when a structure that is already
  placed has gained a member.
\<close>

section \<open>Charging placements to stages\<close>

record placement =
  plc_stage_id :: int
  plc_sram :: bits_t
  plc_tcam :: bits_t
  plc_map_ram :: bits_t
  plc_xbar :: bits_t
  plc_logical_ids :: int
  plc_obj :: ds_id
  plc_type :: ds_type

definition charge_stage :: "placement \<Rightarrow> stage \<Rightarrow> stage" where
  "charge_stage p s =
     s\<lparr>available_sram := available_sram s - plc_sram p,
       available_map_ram := available_map_ram s - plc_map_ram p,
       available_exact_match_xbar := available_exact_match_xbar s - plc_xbar p,
       available_logical_ids := available_logical_ids s - plc_logical_ids p,
       stage_ds := insert (plc_obj p) (stage_ds s)\<rparr>"

text \<open>
  One iteration of \<^verbatim>\<open>concretize_placements\<close>, with its assertions. The TCAM of a placement
  is neither checked nor subtracted.
\<close>

definition concretize_step :: "placement \<Rightarrow> pipeline_resources \<Rightarrow> pipeline_resources result" where
  "concretize_step p r =
     assert_that (0 \<le> plc_stage_id p \<and> plc_stage_id p < int (length (res_stages r)))
     (let k = nat (plc_stage_id p); s = res_stages r ! k in
      assert_that (stage_id s = plc_stage_id p)
      (assert_that (available_sram s \<ge> plc_sram p)
      (assert_that (available_map_ram s \<ge> plc_map_ram p)
      (assert_that (available_exact_match_xbar s \<ge> plc_xbar p)
      (assert_that (available_logical_ids s \<ge> plc_logical_ids p)
        (Inr (r\<lparr>res_stages := (res_stages r)[k := charge_stage p s],
                used_digests := (if plc_type p = Digest then used_digests r + 1
                                 else used_digests r)\<rparr>)))))))"

fun concretize_loop :: "placement list \<Rightarrow> pipeline_resources \<Rightarrow> pipeline_resources result" where
  "concretize_loop [] r = Inr r"
| "concretize_loop (p # ps) r = rbind (concretize_step p r) (concretize_loop ps)"

definition concretize_placements ::
  "pipeline \<Rightarrow> placement_request \<Rightarrow> placement list \<Rightarrow> placement_result result" where
  "concretize_placements P request placements =
     rbind (concretize_loop placements (pl_resources P)) (\<lambda>r. Inr (result_of_resources r))"

section \<open>Tables and meters\<close>

text \<open>
  The loop of \<^verbatim>\<open>find_placements_table\<close> (and, word for word, of \<^verbatim>\<open>find_placements_meter\<close>):
  it takes from each eligible stage as much SRAM as it has until nothing is left to place.
\<close>

fun sram_loop ::
  "int \<Rightarrow> bits_t \<Rightarrow> ds_id \<Rightarrow> ds_type \<Rightarrow> bits_t \<Rightarrow> placement list \<Rightarrow> stage list \<Rightarrow>
   bits_t \<times> placement list"
where
  "sram_loop soonest xbar obj ty req acc [] = (req, acc)"
| "sram_loop soonest xbar obj ty req acc (s # ss) =
     (if stage_id s < soonest then sram_loop soonest xbar obj ty req acc ss
      else if available_sram s = 0 then sram_loop soonest xbar obj ty req acc ss
      else if xbar > available_exact_match_xbar s then sram_loop soonest xbar obj ty req acc ss
      else if available_logical_ids s = 0 then sram_loop soonest xbar obj ty req acc ss
      else
        let amount = min req (available_sram s);
            p = \<lparr>plc_stage_id = stage_id s, plc_sram = amount, plc_tcam = 0,
                 plc_map_ram = 0, plc_xbar = xbar, plc_logical_ids = 1, plc_obj = obj,
                 plc_type = ty\<rparr>
        in if req - amount = 0 then (req - amount, acc @ [p])
           else sram_loop soonest xbar obj ty (req - amount) (acc @ [p]) ss)"

definition find_placements_table ::
  "pipeline \<Rightarrow> table \<Rightarrow> ds_id set \<Rightarrow> placement_result result" where
  "find_placements_table P t deps =
     assert_that (\<not> already_placed P (tbl_id t))
     (if int (length (tbl_keys t)) > max_exact_match_keys (pl_properties P)
      then result_of_status TooManyKeys
      else if table_match_xbar_consume t > exact_match_xbar_per_stage (pl_properties P)
      then result_of_status XBarConsumptionExceedsLimit
      else
        let soonest = get_soonest_stage_satisfying_all_dependencies P deps in
        if soonest < 0 then result_of_status UnmetDependencies
        else
          let (left, placements) =
                sram_loop soonest (align_to_byte (table_match_xbar_consume t)) (tbl_id t) Table
                  (align_to_byte (table_consumed_sram t)) [] (pl_stages P)
          in if left > 0 then result_of_status TooLarge
             else concretize_placements P \<lparr>req_ds = tbl_id t, req_deps = deps\<rparr> placements)"

definition find_placements_meter ::
  "pipeline \<Rightarrow> meter \<Rightarrow> ds_id set \<Rightarrow> placement_result result" where
  "find_placements_meter P m deps =
     assert_that (\<not> already_placed P (mtr_id m))
     (if int (length (mtr_keys m)) > max_exact_match_keys (pl_properties P)
      then result_of_status TooManyKeys
      else if meter_match_xbar_consume m > exact_match_xbar_per_stage (pl_properties P)
      then result_of_status XBarConsumptionExceedsLimit
      else
        let soonest = get_soonest_stage_satisfying_all_dependencies P deps in
        if soonest < 0 then result_of_status UnmetDependencies
        else
          let (left, placements) =
                sram_loop soonest (align_to_byte (meter_match_xbar_consume m)) (mtr_id m) Meter
                  (align_to_byte (meter_consumed_sram m)) [] (pl_stages P)
          in if left > 0 then result_of_status TooLarge
             else concretize_placements P \<lparr>req_ds = mtr_id m, req_deps = deps\<rparr> placements)"

section \<open>Registers\<close>

text \<open>The first eligible stage with room for the whole register takes it.\<close>

fun reg_loop ::
  "int \<Rightarrow> bits_t \<Rightarrow> bits_t \<Rightarrow> bits_t \<Rightarrow> int \<Rightarrow> ds_id \<Rightarrow> stage list \<Rightarrow> bits_t \<times> placement list"
where
  "reg_loop soonest sram map_ram xbar ids obj [] = (sram, [])"
| "reg_loop soonest sram map_ram xbar ids obj (s # ss) =
     (if stage_id s < soonest then reg_loop soonest sram map_ram xbar ids obj ss
      else if sram > available_sram s then reg_loop soonest sram map_ram xbar ids obj ss
      else if map_ram > available_map_ram s then reg_loop soonest sram map_ram xbar ids obj ss
      else if xbar > available_exact_match_xbar s
      then reg_loop soonest sram map_ram xbar ids obj ss
      else if ids > available_logical_ids s then reg_loop soonest sram map_ram xbar ids obj ss
      else (0, [\<lparr>plc_stage_id = stage_id s, plc_sram = sram, plc_tcam = 0,
                 plc_map_ram = map_ram, plc_xbar = xbar, plc_logical_ids = ids,
                 plc_obj = obj, plc_type = Register\<rparr>]))"

definition find_placements_reg ::
  "pipeline \<Rightarrow> register \<Rightarrow> ds_id set \<Rightarrow> placement_result result" where
  "find_placements_reg P reg deps =
     assert_that (\<not> already_placed P (reg_id reg))
     (let soonest = get_soonest_stage_satisfying_all_dependencies P deps in
      if soonest < 0 then result_of_status UnmetDependencies
      else
        let sram = align_to_byte (register_consumed_sram reg);
            (left, placements) =
              reg_loop soonest sram (align_to_byte sram) (align_to_byte (reg_index_size reg))
                (sint (register_num_logical_ids reg)) (reg_id reg) (pl_stages P)
        in if left > 0 then result_of_status TooLarge
           else concretize_placements P \<lparr>req_ds = reg_id reg, req_deps = deps\<rparr> placements)"

section \<open>Hashes, digests and LPM tables\<close>

fun hash_loop :: "int \<Rightarrow> bits_t \<Rightarrow> ds_id \<Rightarrow> stage list \<Rightarrow> placement list" where
  "hash_loop soonest xbar obj [] = []"
| "hash_loop soonest xbar obj (s # ss) =
     (if stage_id s < soonest then hash_loop soonest xbar obj ss
      else if xbar > available_exact_match_xbar s then hash_loop soonest xbar obj ss
      else if available_logical_ids s = 0 then hash_loop soonest xbar obj ss
      else [\<lparr>plc_stage_id = stage_id s, plc_sram = 0, plc_tcam = 0, plc_map_ram = 0,
             plc_xbar = xbar, plc_logical_ids = 1, plc_obj = obj, plc_type = Hash\<rparr>])"

definition find_placements_hash ::
  "pipeline \<Rightarrow> hash \<Rightarrow> ds_id set \<Rightarrow> placement_result result" where
  "find_placements_hash P h deps =
     assert_that (\<not> already_placed P (hash_id h))
     (if int (length (hash_keys h)) > max_exact_match_keys (pl_properties P)
      then result_of_status TooManyKeys
      else if hash_match_xbar_consume h > exact_match_xbar_per_stage (pl_properties P)
      then result_of_status XBarConsumptionExceedsLimit
      else
        let soonest = get_soonest_stage_satisfying_all_dependencies P deps in
        if soonest < 0 then result_of_status UnmetDependencies
        else
          let placements =
                hash_loop soonest (align_to_byte (hash_match_xbar_consume h)) (hash_id h)
                  (pl_stages P)
          in if placements = [] then result_of_status MultipleReasons
             else concretize_placements P \<lparr>req_ds = hash_id h, req_deps = deps\<rparr> placements)"

definition find_placements_digest ::
  "pipeline \<Rightarrow> digest \<Rightarrow> ds_id set \<Rightarrow> placement_result result" where
  "find_placements_digest P d deps =
     assert_that (\<not> already_placed P (dig_id d))
     (if used_digests (pl_resources P) \<ge> max_digests (pl_properties P)
      then result_of_status NotEnoughDigests
      else
        let soonest = get_soonest_stage_satisfying_all_dependencies P deps in
        if soonest < 0 then result_of_status UnmetDependencies
        else concretize_placements P \<lparr>req_ds = dig_id d, req_deps = deps\<rparr>
               [\<lparr>plc_stage_id = soonest, plc_sram = 0, plc_tcam = 0, plc_map_ram = 0,
                 plc_xbar = 0, plc_logical_ids = 0, plc_obj = dig_id d, plc_type = Digest\<rparr>])"

fun tcam_loop ::
  "int \<Rightarrow> bits_t \<Rightarrow> ds_id \<Rightarrow> bits_t \<Rightarrow> placement list \<Rightarrow> stage list \<Rightarrow> bits_t \<times> placement list"
where
  "tcam_loop soonest xbar obj req acc [] = (req, acc)"
| "tcam_loop soonest xbar obj req acc (s # ss) =
     (if stage_id s < soonest then tcam_loop soonest xbar obj req acc ss
      else if available_sram s = 0 then tcam_loop soonest xbar obj req acc ss
      else if xbar > available_exact_match_xbar s then tcam_loop soonest xbar obj req acc ss
      else if available_logical_ids s = 0 then tcam_loop soonest xbar obj req acc ss
      else
        let amount = min req (available_tcam s);
            p = \<lparr>plc_stage_id = stage_id s, plc_sram = 0, plc_tcam = amount,
                 plc_map_ram = 0, plc_xbar = xbar, plc_logical_ids = 1, plc_obj = obj,
                 plc_type = LPM\<rparr>
        in if req - amount = 0 then (req - amount, acc @ [p])
           else tcam_loop soonest xbar obj (req - amount) (acc @ [p]) ss)"

definition find_placements_lpm ::
  "pipeline \<Rightarrow> lpm \<Rightarrow> ds_id set \<Rightarrow> placement_result result" where
  "find_placements_lpm P l deps =
     assert_that (\<not> already_placed P (lpm_id l))
     (if lpm_match_xbar_consume l > exact_match_xbar_per_stage (pl_properties P)
      then result_of_status XBarConsumptionExceedsLimit
      else
        let soonest = get_soonest_stage_satisfying_all_dependencies P deps in
        if soonest < 0 then result_of_status UnmetDependencies
        else
          let (left, placements) =
                tcam_loop soonest (align_to_byte (lpm_match_xbar_consume l)) (lpm_id l)
                  (align_to_byte (lpm_consumed_tcam l)) [] (pl_stages P)
          in if left > 0 then result_of_status TooLarge
             else concretize_placements P \<lparr>req_ds = lpm_id l, req_deps = deps\<rparr> placements)"

section \<open>Dispatch, composites and the clean slate\<close>

fun find_placements_primitive :: "pipeline \<Rightarrow> ds \<Rightarrow> ds_id set \<Rightarrow> placement_result result" where
  "find_placements_primitive P (TableDS t) deps = find_placements_table P t deps"
| "find_placements_primitive P (RegisterDS r) deps = find_placements_reg P r deps"
| "find_placements_primitive P (MeterDS m) deps = find_placements_meter P m deps"
| "find_placements_primitive P (HashDS h) deps = find_placements_hash P h deps"
| "find_placements_primitive P (DigestDS d) deps = find_placements_digest P d deps"
| "find_placements_primitive P (LPMDS l) deps = find_placements_lpm P l deps"
| "find_placements_primitive P d deps = Inl Panicked"

text \<open>
  The members of one level are placed one after the other on a snapshot whose resources are
  replaced by each success, all with the same dependencies. The call the code makes here is
  the recursive one, on a member, which is a primitive.
\<close>

fun place_level :: "pipeline \<Rightarrow> ds list \<Rightarrow> ds_id set \<Rightarrow> placement_result result" where
  "place_level P [] deps = Inr (result_of_resources (pl_resources P))"
| "place_level P (x # xs) deps =
     rbind (find_placements_primitive P x deps) (\<lambda>res.
       if status res \<noteq> Success then Inr res
       else case resources res of
              None \<Rightarrow> Inl Undefined
            | Some r \<Rightarrow> place_level (P\<lparr>pl_resources := r\<rparr>) xs deps)"

fun place_levels :: "pipeline \<Rightarrow> ds list list \<Rightarrow> ds_id set \<Rightarrow> placement_result result" where
  "place_levels P [] deps = Inr (result_of_resources (pl_resources P))"
| "place_levels P (lvl # lvls) deps =
     rbind (place_level P lvl deps) (\<lambda>res.
       if status res \<noteq> Success then Inr res
       else case resources res of
              None \<Rightarrow> Inl Undefined
            | Some r \<Rightarrow> place_levels (P\<lparr>pl_resources := r\<rparr>) lvls
                          (deps \<union> ds_id_of ` set lvl))"

text \<open>
  \<open>clean_slate_loop C d deps reqs\<close> is the loop of \<^verbatim>\<open>clean_slate_placement\<close> on the fresh
  pipeline \<open>C\<close>, whose requests stay empty. The two functions call each other as the code's
  do; a pipeline without requests never starts over, so the recursion ends.
\<close>

function find_placements :: "pipeline \<Rightarrow> ds \<Rightarrow> ds_id set \<Rightarrow> placement_result result"
  and clean_slate_loop ::
    "pipeline \<Rightarrow> ds \<Rightarrow> ds_id set \<Rightarrow> placement_request list \<Rightarrow> placement_result result"
where
  "find_placements P d deps =
     (if ds_primitive d then find_placements_primitive P d deps
      else
        case detect_changes_to_already_placed_data_structure P d of
          Inl e \<Rightarrow> Inl e
        | Inr changed \<Rightarrow>
            if changed \<and> pl_requests P \<noteq> []
            then clean_slate_loop (new_pipeline (pl_properties P) (pl_store P)) d deps
                   (pl_requests P)
            else rbind (get_internal_primitive d) (\<lambda>lvls. place_levels P lvls deps))"
| "clean_slate_loop C d deps [] = Inr (result_of_resources (pl_resources C))"
| "clean_slate_loop C d deps (req # reqs) =
     (case get_ds_from_id (pl_store C) (req_ds req) of
        Inl e \<Rightarrow> Inl e
      | Inr requested \<Rightarrow>
          case find_placements C requested
                 (if ds_id_of requested = ds_id_of d then req_deps req \<union> deps
                  else req_deps req) of
            Inl e \<Rightarrow> Inl e
          | Inr res \<Rightarrow>
              if status res \<noteq> Success then Inr res
              else case resources res of
                     None \<Rightarrow> Inl Undefined
                   | Some r \<Rightarrow> clean_slate_loop (C\<lparr>pl_resources := r\<rparr>) d deps reqs)"
  by pat_completeness auto
termination
  by (relation "measures
      [case_sum (\<lambda>(P, d, deps). length (pl_requests P))
         (\<lambda>(C, d, deps, reqs). length (pl_requests C)),
       case_sum (\<lambda>(P, d, deps). 0) (\<lambda>(C, d, deps, reqs). Suc (length reqs))]")
    (auto simp: new_pipeline_def)

declare find_placements.simps [simp del] clean_slate_loop.simps [simp del]

lemma detect_changes_requests:
  "detect_changes_to_already_placed_data_structure P d = Inr True \<Longrightarrow> pl_requests P \<noteq> []"
  by (auto simp: detect_changes_to_already_placed_data_structure_def result_simps
      already_requested_def)

text \<open>
  The test on the requests that the recursion carries is implied by the code's own, so the
  equation without it holds.
\<close>

lemma find_placements_eq:
  "find_placements P d deps =
     (if ds_primitive d then find_placements_primitive P d deps
      else rbind (detect_changes_to_already_placed_data_structure P d) (\<lambda>changed.
             if changed
             then clean_slate_loop (new_pipeline (pl_properties P) (pl_store P)) d deps
                    (pl_requests P)
             else rbind (get_internal_primitive d) (\<lambda>lvls. place_levels P lvls deps)))"
  using detect_changes_requests [of P d]
  by (subst find_placements.simps) (auto split: sum.splits)

end
