(* ===== verification/SimplePlacerCorrect.thy ===== *)
theory SimplePlacerCorrect
  imports SimplePlacer
begin

text \<open>
  What the greedy placer promises: it never trips its own assertions, it never takes more
  than a stage has, it only adds the structure it places, and it places it no earlier than
  the first stage that follows its dependencies. The contract of a placer of primitives is
  a locale, interpreted on the placer of each kind and on their dispatch.
\<close>

section \<open>Growing resources\<close>

definition stage_grows :: "ds_id set \<Rightarrow> stage \<Rightarrow> stage \<Rightarrow> bool" where
  "stage_grows I s s' \<longleftrightarrow>
     stage_id s' = stage_id s \<and>
     available_sram s' \<le> available_sram s \<and>
     available_tcam s' \<le> available_tcam s \<and>
     available_map_ram s' \<le> available_map_ram s \<and>
     available_exact_match_xbar s' \<le> available_exact_match_xbar s \<and>
     0 \<le> available_logical_ids s' \<and> available_logical_ids s' \<le> available_logical_ids s \<and>
     stage_ds s \<subseteq> stage_ds s' \<and> stage_ds s' \<subseteq> stage_ds s \<union> I"

definition stages_grow :: "ds_id set \<Rightarrow> stage list \<Rightarrow> stage list \<Rightarrow> bool" where
  "stages_grow I ss ss' \<longleftrightarrow> list_all2 (stage_grows I) ss ss'"

lemma stage_grows_refl: "0 \<le> available_logical_ids s \<Longrightarrow> stage_grows I s s"
  by (simp add: stage_grows_def)

lemma stage_grows_trans:
  "stage_grows I s t \<Longrightarrow> stage_grows J t u \<Longrightarrow> stage_grows (I \<union> J) s u"
  by (auto simp: stage_grows_def intro: order_trans)

lemma stages_grow_trans:
  assumes "stages_grow I ss ts" "stages_grow J ts us"
  shows "stages_grow (I \<union> J) ss us"
  using assms unfolding stages_grow_def
  by (rule list_all2_trans [rotated]) (rule stage_grows_trans)

lemma stages_grow_length: "stages_grow I ss ss' \<Longrightarrow> length ss' = length ss"
  by (simp add: stages_grow_def list_all2_lengthD)

lemma stages_grow_ids: "stages_grow I ss ss' \<Longrightarrow> map stage_id ss' = map stage_id ss"
  unfolding stages_grow_def by (induction rule: list_all2_induct) (auto simp: stage_grows_def)

lemma stages_grow_numbered: "stages_grow I ss ss' \<Longrightarrow> stages_numbered ss \<Longrightarrow> stages_numbered ss'"
  using stages_grow_ids [of I ss ss'] stages_grow_length [of I ss ss']
  by (simp add: stages_numbered_def)

lemma stages_grow_within:
  assumes "stages_grow I ss ss'" "list_all (stage_within props) ss"
  shows "list_all (stage_within props) ss'"
  using assms unfolding stages_grow_def
  by (induction rule: list_all2_induct)
    (auto simp: stage_grows_def stage_within_def intro: order_trans)

lemma stages_grow_placed:
  assumes "stages_grow I ss ss'"
  shows "placed_in ss i \<subseteq> placed_in ss' i" and "i \<notin> I \<Longrightarrow> placed_in ss' i = placed_in ss i"
proof -
  have "placed_in ss i \<subseteq> placed_in ss' i \<and> (i \<notin> I \<longrightarrow> placed_in ss' i = placed_in ss i)"
    using assms unfolding stages_grow_def
  proof (induction rule: list_all2_induct)
    case Nil
    show ?case by (simp add: placed_in_def)
  next
    case (Cons s ss s' ss')
    have split: "placed_in (t # ts) i = (if i \<in> stage_ds t then {stage_id t} else {}) \<union> placed_in ts i"
      for t ts by (auto simp: placed_in_def)
    from Cons show ?case by (auto simp: split stage_grows_def)
  qed
  then show "placed_in ss i \<subseteq> placed_in ss' i" "i \<notin> I \<Longrightarrow> placed_in ss' i = placed_in ss i"
    by blast+
qed

lemma stages_grow_wf:
  assumes "resources_wf props r" "stages_grow I (res_stages r) (res_stages r')"
    and "used_digests r' \<le> max_digests props"
  shows "resources_wf props r'"
  using assms stages_grow_length [OF assms(2)] stages_grow_numbered [OF assms(2)]
    stages_grow_within [OF assms(2)]
  by (auto simp: resources_wf_def)

section \<open>Charging a good list of placements\<close>

definition placement_fits :: "placement \<Rightarrow> stage \<Rightarrow> bool" where
  "placement_fits p s \<longleftrightarrow>
     plc_sram p \<le> available_sram s \<and> plc_map_ram p \<le> available_map_ram s \<and>
     plc_xbar p \<le> available_exact_match_xbar s \<and>
     0 \<le> plc_logical_ids p \<and> plc_logical_ids p \<le> available_logical_ids s"

definition good_placements ::
  "int \<Rightarrow> ds_id \<Rightarrow> ds_type \<Rightarrow> stage list \<Rightarrow> placement list \<Rightarrow> bool" where
  "good_placements soonest obj ty ss ps \<longleftrightarrow>
     distinct (map plc_stage_id ps) \<and>
     (\<forall>p \<in> set ps. plc_obj p = obj \<and> plc_type p = ty \<and>
        (\<exists>s \<in> set ss. plc_stage_id p = stage_id s \<and> soonest \<le> stage_id s \<and>
           placement_fits p s))"

lemma good_placements_Nil [simp]: "good_placements k obj ty ss []"
  by (simp add: good_placements_def)

lemma good_placements_skip:
  "good_placements k obj ty ss ps \<Longrightarrow> good_placements k obj ty (s # ss) ps"
  by (auto simp: good_placements_def)

lemma good_placements_Cons:
  assumes "good_placements k obj ty ss ps" "stage_id s \<notin> stage_id ` set ss"
    and "plc_stage_id p = stage_id s" "k \<le> stage_id s" "placement_fits p s"
    and "plc_obj p = obj" "plc_type p = ty"
  shows "good_placements k obj ty (s # ss) (p # ps)"
  using assms by (fastforce simp: good_placements_def)

definition charge_all :: "placement list \<Rightarrow> stage \<Rightarrow> stage" where
  "charge_all ps s =
     (case find (\<lambda>p. plc_stage_id p = stage_id s) ps of None \<Rightarrow> s | Some p \<Rightarrow> charge_stage p s)"

lemma charge_stage_id [simp]: "stage_id (charge_stage p s) = stage_id s"
  and charge_stage_tcam [simp]: "available_tcam (charge_stage p s) = available_tcam s"
  and charge_stage_ds [simp]: "stage_ds (charge_stage p s) = insert (plc_obj p) (stage_ds s)"
  by (simp_all add: charge_stage_def)

lemma concretize_step_ok:
  assumes num: "stages_numbered (res_stages r)"
    and s: "s \<in> set (res_stages r)" "plc_stage_id p = stage_id s" "placement_fits p s"
  shows "concretize_step p r =
    Inr (r\<lparr>res_stages := map (\<lambda>t. if stage_id t = plc_stage_id p then charge_stage p t else t)
             (res_stages r),
           used_digests := (if plc_type p = Digest then used_digests r + 1 else used_digests r)\<rparr>)"
proof -
  let ?ss = "res_stages r" and ?k = "nat (plc_stage_id p)"
  from stages_numbered_mem [OF num s(1)] s(2)
  have k: "0 \<le> plc_stage_id p" "plc_stage_id p < int (length ?ss)" "?ss ! ?k = s" by auto
  have "?ss[?k := charge_stage p s] =
      map (\<lambda>t. if stage_id t = plc_stage_id p then charge_stage p t else t) ?ss"
    by (rule nth_equalityI) (use k stages_numbered_nth [OF num] in \<open>auto simp: nth_list_update\<close>)
  with k s show ?thesis by (simp add: concretize_step_def placement_fits_def Let_def)
qed

lemma concretize_loop_ok:
  assumes "stages_numbered (res_stages r)" "good_placements k obj ty (res_stages r) ps"
  shows "\<exists>r'. concretize_loop ps r = Inr r' \<and>
    res_stages r' = map (charge_all ps) (res_stages r) \<and>
    used_digests r' = used_digests r + (if ty = Digest then of_nat (length ps) else 0)"
  using assms
proof (induction ps arbitrary: r)
  case Nil
  then show ?case by (simp add: charge_all_def)
next
  case (Cons p ps)
  let ?f = "\<lambda>t. if stage_id t = plc_stage_id p then charge_stage p t else t"
  let ?r = "r\<lparr>res_stages := map ?f (res_stages r),
           used_digests := (if plc_type p = Digest then used_digests r + 1 else used_digests r)\<rparr>"
  from Cons.prems(2) obtain s where s: "s \<in> set (res_stages r)" "plc_stage_id p = stage_id s"
    "placement_fits p s" and ty: "plc_type p = ty" by (auto simp: good_placements_def)
  have step: "concretize_step p r = Inr ?r" by (rule concretize_step_ok [OF Cons.prems(1) s])
  have ids: "map stage_id (map ?f (res_stages r)) = map stage_id (res_stages r)" by simp
  have num: "stages_numbered (res_stages ?r)"
    using Cons.prems(1) ids by (simp only: stages_numbered_def) simp
  have "good_placements k obj ty (res_stages ?r) ps"
    unfolding good_placements_def
  proof (intro conjI ballI)
    fix q assume q: "q \<in> set ps"
    with Cons.prems(2) obtain t where t: "t \<in> set (res_stages r)" "plc_stage_id q = stage_id t"
      "k \<le> stage_id t" "placement_fits q t" by (auto simp: good_placements_def)
    have "stage_id t \<noteq> plc_stage_id p"
      using Cons.prems(2) q t(2) by (force simp: good_placements_def)
    then have "t \<in> set (res_stages ?r)" using t(1) by force
    with t show "\<exists>s \<in> set (res_stages ?r). plc_stage_id q = stage_id s \<and> k \<le> stage_id s \<and>
      placement_fits q s" by blast
  qed (use Cons.prems(2) in \<open>auto simp: good_placements_def\<close>)
  from Cons.IH [OF num this] obtain r' where r': "concretize_loop ps ?r = Inr r'"
    "res_stages r' = map (charge_all ps) (map ?f (res_stages r))"
    "used_digests r' = used_digests ?r + (if ty = Digest then of_nat (length ps) else 0)" by auto
  have "charge_all ps (?f t) = charge_all (p # ps) t" for t
  proof (cases "stage_id t = plc_stage_id p")
    case True
    then have "find (\<lambda>q. plc_stage_id q = stage_id t) ps = None"
      using Cons.prems(2) by (force simp: good_placements_def find_None_iff)
    with True show ?thesis by (simp add: charge_all_def)
  qed (auto simp: charge_all_def)
  with step r' ty show ?case by (auto simp: comp_def algebra_simps)
qed

lemma charge_all_grows:
  assumes "good_placements k obj ty ss ps" "stages_numbered ss"
    and "\<forall>s \<in> set ss. 0 \<le> available_logical_ids s"
  shows "stages_grow {obj} ss (map (charge_all ps) ss)"
  unfolding stages_grow_def list_all2_map2
proof (rule list_all2_all_nthI)
  fix i assume i: "i < length ss"
  let ?s = "ss ! i"
  have s: "?s \<in> set ss" using i by simp
  show "stage_grows {obj} ?s (charge_all ps ?s)"
  proof (cases "find (\<lambda>p. plc_stage_id p = stage_id ?s) ps")
    case None
    with assms(3) s show ?thesis by (simp add: charge_all_def stage_grows_refl)
  next
    case (Some p)
    then have p: "p \<in> set ps" "plc_stage_id p = stage_id ?s" by (auto simp: find_Some_iff)
    with assms(1) obtain t where "t \<in> set ss" "stage_id t = stage_id ?s" "placement_fits p t"
      "plc_obj p = obj" by (auto simp: good_placements_def)
    with stages_numbered_inj [OF assms(2) _ s] have "placement_fits p ?s" "plc_obj p = obj"
      by auto
    with Some show ?thesis
      by (auto simp: charge_all_def stage_grows_def charge_stage_def placement_fits_def
          word_sub_le)
  qed
qed simp

lemma placed_in_image: "placed_in ss i = stage_id ` {s \<in> set ss. i \<in> stage_ds s}"
  by (auto simp: placed_in_def)

lemma placed_in_map:
  assumes "\<And>s. stage_id (f s) = stage_id s"
  shows "placed_in (map f ss) i = stage_id ` {s \<in> set ss. i \<in> stage_ds (f s)}"
proof -
  have "{s \<in> set (map f ss). i \<in> stage_ds s} = f ` {s \<in> set ss. i \<in> stage_ds (f s)}" by auto
  then show ?thesis by (simp add: placed_in_image image_image assms)
qed

lemma charge_all_placed:
  assumes "good_placements k obj ty ss ps" "stages_numbered ss"
  shows "placed_in (map (charge_all ps) ss) obj = placed_in ss obj \<union> plc_stage_id ` set ps"
proof -
  have ds: "obj \<in> stage_ds (charge_all ps s) \<longleftrightarrow>
      obj \<in> stage_ds s \<or> stage_id s \<in> plc_stage_id ` set ps" for s
  proof (cases "find (\<lambda>p. plc_stage_id p = stage_id s) ps")
    case None
    then have "charge_all ps s = s" "stage_id s \<notin> plc_stage_id ` set ps"
      by (simp_all add: charge_all_def, auto simp: find_None_iff)
    then show ?thesis by simp
  next
    case (Some p)
    then have "p \<in> set ps" "plc_stage_id p = stage_id s" by (auto simp: find_Some_iff)
    with assms(1) Some show ?thesis by (force simp: charge_all_def good_placements_def)
  qed
  have id: "stage_id (charge_all ps s) = stage_id s" for s
    by (simp add: charge_all_def split: option.splits)
  have "placed_in (map (charge_all ps) ss) obj =
      stage_id ` {s \<in> set ss. obj \<in> stage_ds (charge_all ps s)}"
    by (rule placed_in_map) (rule id)
  also have "\<dots> = placed_in ss obj \<union> (stage_id ` set ss \<inter> plc_stage_id ` set ps)"
    unfolding ds placed_in_def by blast
  also have "stage_id ` set ss \<inter> plc_stage_id ` set ps = plc_stage_id ` set ps"
    using assms(1) by (auto simp: good_placements_def)
  finally show ?thesis .
qed

end
