(* ===== verification/SimplePlacerContract.thy ===== *)
theory SimplePlacerContract
  imports SimplePlacerCorrect
begin

text \<open>
  The loops of the greedy placer produce good placements; hence every placer of a primitive
  meets one contract, stated as a locale.
\<close>

section \<open>The contract of a placer of primitives\<close>

definition sound_placement :: "pipeline \<Rightarrow> ds_id set \<Rightarrow> ds_id \<Rightarrow> pipeline_resources \<Rightarrow> bool" where
  "sound_placement P deps i r \<longleftrightarrow>
     resources_wf (pl_properties P) r \<and>
     stages_grow {i} (pl_stages P) (res_stages r) \<and>
     0 \<le> get_soonest_stage_satisfying_all_dependencies P deps \<and>
     (\<forall>s \<in> placed_in (res_stages r) i.
        get_soonest_stage_satisfying_all_dependencies P deps \<le> s)"

definition meets_contract ::
  "pipeline \<Rightarrow> ds_id set \<Rightarrow> ds_id \<Rightarrow> placement_result result \<Rightarrow> bool" where
  "meets_contract P deps i out \<longleftrightarrow>
     (\<exists>res. out = Inr res \<and> (status res = Success \<longleftrightarrow> resources res \<noteq> None) \<and>
        (\<forall>r. resources res = Some r \<longrightarrow> sound_placement P deps i r))"

definition placeable :: "pipeline \<Rightarrow> ds_id \<Rightarrow> bool" where
  "placeable P i \<longleftrightarrow> pipeline_wf P \<and> pl_stages P \<noteq> [] \<and> \<not> already_placed P i"

lemma placeable_stages:
  assumes "placeable P i"
  shows "stages_numbered (pl_stages P)" "\<forall>s \<in> set (pl_stages P). 0 \<le> available_logical_ids s"
    and "placed_in (pl_stages P) i = {}"
  using assms already_placed_iff [of P i]
  by (auto simp: placeable_def pipeline_wf_def resources_wf_def list_all_iff stage_within_def)

lemma contract_failure:
  "st \<noteq> Success \<Longrightarrow> meets_contract P deps i (result_of_status st)"
  by (simp add: meets_contract_def result_of_status_def)

lemma contract_placements:
  assumes pl: "placeable P i" and k: "0 \<le> get_soonest_stage_satisfying_all_dependencies P deps"
    and good: "good_placements (get_soonest_stage_satisfying_all_dependencies P deps) i ty
      (pl_stages P) ps"
    and dig: "ty = Digest \<Longrightarrow> length ps = 1 \<and> used_digests (pl_resources P) < max_digests (pl_properties P)"
  shows "\<exists>r. concretize_placements P req ps = Inr (result_of_resources r) \<and>
    sound_placement P deps i r \<and> res_stages r = map (charge_all ps) (pl_stages P) \<and>
    placed_in (res_stages r) i = plc_stage_id ` set ps"
proof -
  note st = placeable_stages [OF pl]
  from concretize_loop_ok [OF st(1) good] obtain r where
    r: "concretize_loop ps (pl_resources P) = Inr r" "res_stages r = map (charge_all ps) (pl_stages P)"
    "used_digests r = used_digests (pl_resources P) + (if ty = Digest then of_nat (length ps) else 0)"
    by blast
  have grow: "stages_grow {i} (pl_stages P) (res_stages r)"
    unfolding r(2) by (rule charge_all_grows [OF good st(1,2)])
  have wf: "resources_wf (pl_properties P) (pl_resources P)"
    using pl by (simp add: placeable_def pipeline_wf_def)
  have dig': "used_digests r \<le> max_digests (pl_properties P)"
    using r(3) dig wf by (auto simp: resources_wf_def inc_le)
  have placed: "placed_in (res_stages r) i = plc_stage_id ` set ps"
    unfolding r(2) charge_all_placed [OF good st(1)] using st(3) by simp
  have "\<forall>s \<in> placed_in (res_stages r) i. get_soonest_stage_satisfying_all_dependencies P deps \<le> s"
    unfolding placed using good by (auto simp: good_placements_def)
  with stages_grow_wf [OF wf grow dig'] grow k have "sound_placement P deps i r"
    by (simp add: sound_placement_def)
  with r placed show ?thesis by (auto simp: concretize_placements_def)
qed

lemma contract_success:
  assumes "placeable P i" "0 \<le> get_soonest_stage_satisfying_all_dependencies P deps"
    and "good_placements (get_soonest_stage_satisfying_all_dependencies P deps) i ty
      (pl_stages P) ps"
    and "ty = Digest \<Longrightarrow> length ps = 1 \<and> used_digests (pl_resources P) < max_digests (pl_properties P)"
  shows "meets_contract P deps i (concretize_placements P req ps)"
  using contract_placements [OF assms, of req]
  by (auto simp: meets_contract_def result_of_resources_def)

locale primitive_placer =
  fixes find :: "pipeline \<Rightarrow> 'd \<Rightarrow> ds_id set \<Rightarrow> placement_result result"
    and ident :: "'d \<Rightarrow> ds_id"
    and handles :: "'d \<Rightarrow> bool"
  assumes contract: "handles d \<Longrightarrow> placeable P (ident d) \<Longrightarrow>
    meets_contract P deps (ident d) (find P d deps)"
begin

lemma never_aborts:
  "handles d \<Longrightarrow> placeable P (ident d) \<Longrightarrow> \<exists>res. find P d deps = Inr res"
  using contract [of d P deps] by (auto simp: meets_contract_def)

lemma success_has_resources:
  assumes "handles d" "placeable P (ident d)" "find P d deps = Inr res"
  shows "status res = Success \<longleftrightarrow> resources res \<noteq> None"
  using contract [OF assms(1,2), of deps] assms(3) by (auto simp: meets_contract_def)

lemma success_sound:
  assumes "handles d" "placeable P (ident d)" "find P d deps = Inr res" "status res = Success"
  obtains r where "resources res = Some r" "sound_placement P deps (ident d) r"
  using contract [OF assms(1,2), of deps] assms(3,4) that by (auto simp: meets_contract_def)

lemma success_keeps_wf:
  assumes "handles d" "placeable P (ident d)" "find P d deps = Inr res" "resources res = Some r"
  shows "resources_wf (pl_properties P) r"
  using contract [OF assms(1,2), of deps] assms(3,4)
  by (auto simp: meets_contract_def sound_placement_def)

lemma others_untouched:
  assumes "handles d" "placeable P (ident d)" "find P d deps = Inr res" "resources res = Some r"
    and "j \<noteq> ident d"
  shows "placed_in (res_stages r) j = placed_in (pl_stages P) j"
  using contract [OF assms(1,2), of deps] assms(3-5) stages_grow_placed(2)
  by (fastforce simp: meets_contract_def sound_placement_def)

lemma dependencies_first:
  assumes "handles d" "placeable P (ident d)" "find P d deps = Inr res" "resources res = Some r"
    and "s \<in> placed_in (res_stages r) (ident d)" "dep \<in> deps"
  shows "\<exists>u \<in> placed_in (pl_stages P) dep. u < s"
proof -
  let ?k = "get_soonest_stage_satisfying_all_dependencies P deps"
  from contract [OF assms(1,2), of deps] assms(3,4) have "sound_placement P deps (ident d) r"
    by (auto simp: meets_contract_def)
  with assms(5) have k: "0 \<le> ?k" "?k \<le> s" by (auto simp: sound_placement_def)
  from soonest_stage_spec [OF placeable_stages(1) [OF assms(2)] _ refl k(1)] assms(6)
  obtain u where "u \<in> placed_in (pl_stages P) dep" "u < ?k" by blast
  with k(2) show ?thesis by force
qed

end

section \<open>The loops\<close>

lemma stages_numbered_not_later:
  "distinct (map stage_id (s # ss)) \<Longrightarrow> stage_id s \<notin> stage_id ` set ss"
  by simp

definition spreads_skip :: "int \<Rightarrow> bits_t \<Rightarrow> stage \<Rightarrow> bool" where
  "spreads_skip k xbar s \<longleftrightarrow>
     stage_id s < k \<or> available_sram s = 0 \<or> xbar > available_exact_match_xbar s \<or>
     available_logical_ids s = 0"

lemma sram_loop_skip:
  "spreads_skip k xbar s \<Longrightarrow>
   sram_loop k xbar obj ty req acc (s # ss) = sram_loop k xbar obj ty req acc ss"
  by (auto simp: spreads_skip_def)

lemma sram_loop_take:
  "\<not> spreads_skip k xbar s \<Longrightarrow>
   sram_loop k xbar obj ty req acc (s # ss) =
     (let amount = min req (available_sram s);
          p = \<lparr>plc_stage_id = stage_id s, plc_sram = amount, plc_tcam = 0, plc_map_ram = 0,
               plc_xbar = xbar, plc_logical_ids = 1, plc_obj = obj, plc_type = ty\<rparr>
      in if req - amount = 0 then (0, acc @ [p])
         else sram_loop k xbar obj ty (req - amount) (acc @ [p]) ss)"
  by (simp add: spreads_skip_def Let_def)

lemma tcam_loop_skip:
  "spreads_skip k xbar s \<Longrightarrow>
   tcam_loop k xbar obj req acc (s # ss) = tcam_loop k xbar obj req acc ss"
  by (auto simp: spreads_skip_def)

lemma tcam_loop_take:
  "\<not> spreads_skip k xbar s \<Longrightarrow>
   tcam_loop k xbar obj req acc (s # ss) =
     (let amount = min req (available_tcam s);
          p = \<lparr>plc_stage_id = stage_id s, plc_sram = 0, plc_tcam = amount, plc_map_ram = 0,
               plc_xbar = xbar, plc_logical_ids = 1, plc_obj = obj, plc_type = LPM\<rparr>
      in if req - amount = 0 then (0, acc @ [p])
         else tcam_loop k xbar obj (req - amount) (acc @ [p]) ss)"
  by (simp add: spreads_skip_def Let_def)

lemma unat_take_min: "unat (req - min req a) + unat (min req a) = unat req"
  for req a :: "'a::len word"
  by (simp add: unat_sub_le unat_min)

declare sram_loop.simps(2) [simp del] tcam_loop.simps(2) [simp del]

lemma sram_loop_spec:
  assumes "sram_loop k xbar obj ty req acc ss = (left, out)"
    and "distinct (map stage_id ss)" "\<forall>s \<in> set ss. 0 \<le> available_logical_ids s"
  shows "\<exists>ps. out = acc @ ps \<and> good_placements k obj ty ss ps \<and>
    unat left + sum_list (map (\<lambda>p. unat (plc_sram p)) ps) = unat req"
  using assms
proof (induction ss arbitrary: req acc)
  case Nil
  then show ?case by simp
next
  case (Cons s ss)
  have dist: "distinct (map stage_id ss)" "\<forall>s \<in> set ss. 0 \<le> available_logical_ids s"
    using Cons.prems(2,3) by simp_all
  show ?case
  proof (cases "spreads_skip k xbar s")
    case True
    then have "sram_loop k xbar obj ty req acc ss = (left, out)"
      using Cons.prems(1) sram_loop_skip [OF True] by simp
    from Cons.IH [OF this dist] show ?thesis by (auto intro: good_placements_skip)
  next
    case False
    let ?a = "min req (available_sram s)"
    let ?p = "\<lparr>plc_stage_id = stage_id s, plc_sram = ?a, plc_tcam = 0, plc_map_ram = 0,
      plc_xbar = xbar, plc_logical_ids = 1, plc_obj = obj, plc_type = ty\<rparr>"
    have fits: "placement_fits ?p s" using False Cons.prems(3) by (auto simp: placement_fits_def spreads_skip_def)
    have good: "good_placements k obj ty (s # ss) (?p # ps)" if "good_placements k obj ty ss ps" for ps
      using that fits stages_numbered_not_later [OF Cons.prems(2)] False
      by (intro good_placements_Cons) (auto simp: spreads_skip_def)
    have rest: "unat (req - ?a) + unat ?a = unat req"
      by (rule unat_take_min)
    show ?thesis
    proof (cases "req - ?a = 0")
      case True
      with Cons.prems(1) have "left = 0" "out = acc @ [?p]"
        by (simp_all add: sram_loop_take [OF False] Let_def)
      with rest True good [of "[]"] show ?thesis by (intro exI [of _ "[?p]"]) simp
    next
      case more: False
      with Cons.prems(1) have "sram_loop k xbar obj ty (req - ?a) (acc @ [?p]) ss = (left, out)"
        by (simp add: sram_loop_take [OF False] Let_def)
      from Cons.IH [OF this dist] obtain ps where "out = (acc @ [?p]) @ ps"
        "good_placements k obj ty ss ps"
        "unat left + sum_list (map (\<lambda>p. unat (plc_sram p)) ps) = unat (req - ?a)" by blast
      with rest good [of ps] show ?thesis by (intro exI [of _ "?p # ps"]) simp
    qed
  qed
qed

lemma tcam_loop_spec:
  assumes "tcam_loop k xbar obj req acc ss = (left, out)"
    and "distinct (map stage_id ss)" "\<forall>s \<in> set ss. 0 \<le> available_logical_ids s"
  shows "\<exists>ps. out = acc @ ps \<and> good_placements k obj LPM ss ps \<and>
    unat left + sum_list (map (\<lambda>p. unat (plc_tcam p)) ps) = unat req"
  using assms
proof (induction ss arbitrary: req acc)
  case Nil
  then show ?case by simp
next
  case (Cons s ss)
  have dist: "distinct (map stage_id ss)" "\<forall>s \<in> set ss. 0 \<le> available_logical_ids s"
    using Cons.prems(2,3) by simp_all
  show ?case
  proof (cases "spreads_skip k xbar s")
    case True
    then have "tcam_loop k xbar obj req acc ss = (left, out)"
      using Cons.prems(1) tcam_loop_skip [OF True] by simp
    from Cons.IH [OF this dist] show ?thesis by (auto intro: good_placements_skip)
  next
    case False
    let ?a = "min req (available_tcam s)"
    let ?p = "\<lparr>plc_stage_id = stage_id s, plc_sram = 0, plc_tcam = ?a, plc_map_ram = 0,
      plc_xbar = xbar, plc_logical_ids = 1, plc_obj = obj, plc_type = LPM\<rparr>"
    have fits: "placement_fits ?p s" using False Cons.prems(3) by (auto simp: placement_fits_def spreads_skip_def)
    have good: "good_placements k obj LPM (s # ss) (?p # ps)" if "good_placements k obj LPM ss ps" for ps
      using that fits stages_numbered_not_later [OF Cons.prems(2)] False
      by (intro good_placements_Cons) (auto simp: spreads_skip_def)
    have rest: "unat (req - ?a) + unat ?a = unat req"
      by (rule unat_take_min)
    show ?thesis
    proof (cases "req - ?a = 0")
      case True
      with Cons.prems(1) have "left = 0" "out = acc @ [?p]"
        by (simp_all add: tcam_loop_take [OF False] Let_def)
      with rest True good [of "[]"] show ?thesis by (intro exI [of _ "[?p]"]) simp
    next
      case more: False
      with Cons.prems(1) have "tcam_loop k xbar obj (req - ?a) (acc @ [?p]) ss = (left, out)"
        by (simp add: tcam_loop_take [OF False] Let_def)
      from Cons.IH [OF this dist] obtain ps where "out = (acc @ [?p]) @ ps"
        "good_placements k obj LPM ss ps"
        "unat left + sum_list (map (\<lambda>p. unat (plc_tcam p)) ps) = unat (req - ?a)" by blast
      with rest good [of ps] show ?thesis by (intro exI [of _ "?p # ps"]) simp
    qed
  qed
qed

definition reg_skip :: "int \<Rightarrow> bits_t \<Rightarrow> bits_t \<Rightarrow> bits_t \<Rightarrow> int \<Rightarrow> stage \<Rightarrow> bool" where
  "reg_skip k sram map_ram xbar ids s \<longleftrightarrow>
     stage_id s < k \<or> sram > available_sram s \<or> map_ram > available_map_ram s \<or>
     xbar > available_exact_match_xbar s \<or> ids > available_logical_ids s"

lemma reg_loop_skip:
  "reg_skip k sram map_ram xbar ids s \<Longrightarrow>
   reg_loop k sram map_ram xbar ids obj (s # ss) = reg_loop k sram map_ram xbar ids obj ss"
  by (auto simp: reg_skip_def)

lemma reg_loop_take:
  "\<not> reg_skip k sram map_ram xbar ids s \<Longrightarrow>
   reg_loop k sram map_ram xbar ids obj (s # ss) =
     (0, [\<lparr>plc_stage_id = stage_id s, plc_sram = sram, plc_tcam = 0, plc_map_ram = map_ram,
           plc_xbar = xbar, plc_logical_ids = ids, plc_obj = obj, plc_type = Register\<rparr>])"
  by (simp add: reg_skip_def)

declare reg_loop.simps(2) [simp del]

lemma reg_loop_spec:
  assumes "reg_loop k sram map_ram xbar ids obj ss = (left, ps)" "0 \<le> ids"
  shows "good_placements k obj Register ss ps \<and>
    (ps = [] \<and> left = sram \<or>
     left = 0 \<and> (\<exists>p. ps = [p] \<and> plc_sram p = sram \<and> plc_map_ram p = map_ram))"
  using assms
proof (induction ss)
  case (Cons s ss)
  show ?case
  proof (cases "reg_skip k sram map_ram xbar ids s")
    case True
    then have "reg_loop k sram map_ram xbar ids obj ss = (left, ps)"
      using Cons.prems(1) by (simp add: reg_loop_skip)
    from Cons.IH [OF this Cons.prems(2)] show ?thesis by (auto intro: good_placements_skip)
  next
    case False
    with Cons.prems show ?thesis
      by (auto simp: reg_loop_take good_placements_def placement_fits_def)
        (auto simp: reg_skip_def)
  qed
qed simp

lemma hash_loop_spec:
  assumes "\<forall>s \<in> set ss. 0 \<le> available_logical_ids s"
  shows "good_placements k obj Hash ss (hash_loop k xbar obj ss) \<and> length (hash_loop k xbar obj ss) \<le> 1"
  using assms
proof (induction ss)
  case (Cons s ss)
  then show ?case
    by (cases "stage_id s < k \<or> xbar > available_exact_match_xbar s \<or> available_logical_ids s = 0")
      (auto intro: good_placements_skip simp: good_placements_def placement_fits_def)
qed simp

section \<open>The placers meet the contract\<close>

lemma find_placements_table_contract:
  assumes "placeable P (tbl_id t)"
  shows "meets_contract P deps (tbl_id t) (find_placements_table P t deps)"
proof -
  let ?k = "get_soonest_stage_satisfying_all_dependencies P deps"
  note st = placeable_stages [OF assms]
  obtain left ps where loop: "sram_loop ?k (align_to_byte (table_match_xbar_consume t)) (tbl_id t)
      Table (align_to_byte (table_consumed_sram t)) [] (pl_stages P) = (left, ps)" by fastforce
  from sram_loop_spec [OF loop stages_numbered_distinct [OF st(1)] st(2)]
  have "good_placements ?k (tbl_id t) Table (pl_stages P) ps" by simp
  with assms loop show ?thesis
    by (auto simp: find_placements_table_def Let_def placeable_def
        intro!: contract_failure contract_success)
qed

lemma find_placements_meter_contract:
  assumes "placeable P (mtr_id m)"
  shows "meets_contract P deps (mtr_id m) (find_placements_meter P m deps)"
proof -
  let ?k = "get_soonest_stage_satisfying_all_dependencies P deps"
  note st = placeable_stages [OF assms]
  obtain left ps where loop: "sram_loop ?k (align_to_byte (meter_match_xbar_consume m)) (mtr_id m)
      Meter (align_to_byte (meter_consumed_sram m)) [] (pl_stages P) = (left, ps)" by fastforce
  from sram_loop_spec [OF loop stages_numbered_distinct [OF st(1)] st(2)]
  have "good_placements ?k (mtr_id m) Meter (pl_stages P) ps" by simp
  with assms loop show ?thesis
    by (auto simp: find_placements_meter_def Let_def placeable_def
        intro!: contract_failure contract_success)
qed

lemma find_placements_lpm_contract:
  assumes "placeable P (lpm_id l)"
  shows "meets_contract P deps (lpm_id l) (find_placements_lpm P l deps)"
proof -
  let ?k = "get_soonest_stage_satisfying_all_dependencies P deps"
  note st = placeable_stages [OF assms]
  obtain left ps where loop: "tcam_loop ?k (align_to_byte (lpm_match_xbar_consume l)) (lpm_id l)
      (align_to_byte (lpm_consumed_tcam l)) [] (pl_stages P) = (left, ps)" by fastforce
  from tcam_loop_spec [OF loop stages_numbered_distinct [OF st(1)] st(2)]
  have "good_placements ?k (lpm_id l) LPM (pl_stages P) ps" by simp
  with assms loop show ?thesis
    by (auto simp: find_placements_lpm_def Let_def placeable_def
        intro!: contract_failure contract_success)
qed

lemma find_placements_reg_contract:
  assumes "placeable P (reg_id r)"
  shows "meets_contract P deps (reg_id r) (find_placements_reg P r deps)"
proof -
  let ?k = "get_soonest_stage_satisfying_all_dependencies P deps"
  let ?sram = "align_to_byte (register_consumed_sram r)"
  obtain left ps where loop: "reg_loop ?k ?sram (align_to_byte ?sram)
      (align_to_byte (reg_index_size r)) (sint (register_num_logical_ids r)) (reg_id r)
      (pl_stages P) = (left, ps)" by fastforce
  from reg_loop_spec [OF loop] have "good_placements ?k (reg_id r) Register (pl_stages P) ps"
    by (simp add: register_num_logical_ids_sint)
  with assms loop show ?thesis
    by (auto simp: find_placements_reg_def Let_def placeable_def
        intro!: contract_failure contract_success)
qed

lemma find_placements_hash_contract:
  assumes "placeable P (hash_id h)"
  shows "meets_contract P deps (hash_id h) (find_placements_hash P h deps)"
proof -
  let ?k = "get_soonest_stage_satisfying_all_dependencies P deps"
  note hash_loop_spec [OF placeable_stages(2) [OF assms], of ?k "hash_id h"
      "align_to_byte (hash_match_xbar_consume h)"]
  with assms show ?thesis
    by (auto simp: find_placements_hash_def Let_def placeable_def
        intro!: contract_failure contract_success)
qed

lemma find_placements_digest_contract:
  assumes "placeable P (dig_id d)"
  shows "meets_contract P deps (dig_id d) (find_placements_digest P d deps)"
proof (cases "used_digests (pl_resources P) < max_digests (pl_properties P) \<and>
    0 \<le> get_soonest_stage_satisfying_all_dependencies P deps")
  case False
  with assms show ?thesis
    by (auto simp: find_placements_digest_def Let_def placeable_def not_less
        intro!: contract_failure)
next
  case True
  let ?k = "get_soonest_stage_satisfying_all_dependencies P deps"
  note st = placeable_stages [OF assms]
  let ?p = "\<lparr>plc_stage_id = ?k, plc_sram = 0, plc_tcam = 0, plc_map_ram = 0, plc_xbar = 0,
    plc_logical_ids = 0, plc_obj = dig_id d, plc_type = Digest\<rparr>"
  have "?k < int (length (pl_stages P))"
    using soonest_stage_bounds [OF st(1)] True assms by (simp add: placeable_def)
  with True have "pl_stages P ! nat ?k \<in> set (pl_stages P)" "stage_id (pl_stages P ! nat ?k) = ?k"
    using stages_numbered_nth [OF st(1), of "nat ?k"] by auto
  with st(2) have "good_placements ?k (dig_id d) Digest (pl_stages P) [?p]"
    by (auto simp: good_placements_def placement_fits_def intro!: bexI [of _ "pl_stages P ! nat ?k"])
  with True assms show ?thesis
    by (auto simp: find_placements_digest_def Let_def placeable_def
        intro!: contract_success)
qed

lemma find_placements_primitive_contract:
  assumes "ds_primitive d" "placeable P (ds_id_of d)"
  shows "meets_contract P deps (ds_id_of d) (find_placements_primitive P d deps)"
  using assms
  by (cases d)
    (auto intro: find_placements_table_contract find_placements_reg_contract
      find_placements_meter_contract find_placements_hash_contract
      find_placements_digest_contract find_placements_lpm_contract)

interpretation table_placer: primitive_placer find_placements_table tbl_id "\<lambda>_. True"
  by unfold_locales (rule find_placements_table_contract)

interpretation register_placer: primitive_placer find_placements_reg reg_id "\<lambda>_. True"
  by unfold_locales (rule find_placements_reg_contract)

interpretation meter_placer: primitive_placer find_placements_meter mtr_id "\<lambda>_. True"
  by unfold_locales (rule find_placements_meter_contract)

interpretation hash_placer: primitive_placer find_placements_hash hash_id "\<lambda>_. True"
  by unfold_locales (rule find_placements_hash_contract)

interpretation digest_placer: primitive_placer find_placements_digest dig_id "\<lambda>_. True"
  by unfold_locales (rule find_placements_digest_contract)

interpretation lpm_placer: primitive_placer find_placements_lpm lpm_id "\<lambda>_. True"
  by unfold_locales (rule find_placements_lpm_contract)

interpretation any_placer: primitive_placer find_placements_primitive ds_id_of ds_primitive
  by unfold_locales (rule find_placements_primitive_contract)

end
