(* ===== verification/SimplePlacerLevels.thy ===== *)
theory SimplePlacerLevels
  imports SimplePlacerContract
begin

text \<open>
  Placement of composite structures: levels, whole structures and the clean slate. The
  placers of primitives assert that their argument is not placed yet, so an outcome is
  already evidence that the contract applies.
\<close>

section \<open>Outcomes\<close>

definition outcome :: "(pipeline_resources \<Rightarrow> bool) \<Rightarrow> placement_result \<Rightarrow> bool" where
  "outcome Q res \<longleftrightarrow>
     (status res = Success \<longleftrightarrow> resources res \<noteq> None) \<and>
     (\<forall>r. resources res = Some r \<longrightarrow> Q r)"

definition usable :: "pipeline \<Rightarrow> bool" where
  "usable P \<longleftrightarrow> pipeline_wf P \<and> pl_stages P \<noteq> []"

lemma outcome_mono: "outcome Q res \<Longrightarrow> (\<And>r. Q r \<Longrightarrow> Q' r) \<Longrightarrow> outcome Q' res"
  by (auto simp: outcome_def)

lemma outcome_resources [simp]: "outcome Q (result_of_resources r) \<longleftrightarrow> Q r"
  by (simp add: outcome_def result_of_resources_def)

lemma outcome_failed: "outcome Q res \<Longrightarrow> status res \<noteq> Success \<Longrightarrow> outcome Q' res"
  by (auto simp: outcome_def)

lemma usable_grow:
  assumes "usable P" "resources_wf (pl_properties P) r" "stages_grow I (pl_stages P) (res_stages r)"
  shows "usable (P\<lparr>pl_resources := r\<rparr>)"
  using assms stages_grow_length [OF assms(3)]
  by (auto simp: usable_def pipeline_wf_def)

lemma find_placements_primitive_asserts:
  "find_placements_primitive P d deps = Inr res \<Longrightarrow>
   ds_primitive d \<and> \<not> already_placed P (ds_id_of d)"
  by (cases d)
    (auto simp: find_placements_table_def find_placements_reg_def find_placements_meter_def
      find_placements_hash_def find_placements_digest_def find_placements_lpm_def
      assert_that_eq_Inr)

lemma primitive_outcome:
  assumes "usable P" "find_placements_primitive P d deps = Inr res"
  shows "outcome (sound_placement P deps (ds_id_of d)) res"
proof -
  from find_placements_primitive_asserts [OF assms(2)] assms(1)
  have "ds_primitive d" "placeable P (ds_id_of d)" by (auto simp: usable_def placeable_def)
  from any_placer.contract [OF this, of deps] assms(2) show ?thesis
    by (auto simp: meets_contract_def outcome_def)
qed

section \<open>Ordering of the levels\<close>

text \<open>Every stage of a structure has an earlier stage holding each of its dependencies.\<close>

definition follows :: "stage list \<Rightarrow> ds_id set \<Rightarrow> ds_id \<Rightarrow> bool" where
  "follows ss deps i \<longleftrightarrow>
     (\<forall>s \<in> placed_in ss i. \<forall>dep \<in> deps. \<exists>u \<in> placed_in ss dep. u < s)"

fun ordered_levels :: "stage list \<Rightarrow> ds_id set \<Rightarrow> ds list list \<Rightarrow> bool" where
  "ordered_levels ss deps [] = True"
| "ordered_levels ss deps (lvl # lvls) =
     ((\<forall>x \<in> set lvl. follows ss deps (ds_id_of x)) \<and>
      ordered_levels ss (deps \<union> ds_id_of ` set lvl) lvls)"

lemma follows_weaken: "follows ss deps i \<Longrightarrow> deps' \<subseteq> deps \<Longrightarrow> follows ss deps' i"
  unfolding follows_def by blast

lemma follows_grow:
  assumes "follows ss deps i" "stages_grow I ss ss'" "placed_in ss' i = placed_in ss i"
  shows "follows ss' deps i"
  using assms stages_grow_placed(1) [OF assms(2)] unfolding follows_def by blast

lemma ordered_levels_follows:
  "ordered_levels ss deps lvls \<Longrightarrow> x \<in> set (concat lvls) \<Longrightarrow> follows ss deps (ds_id_of x)"
  by (induction lvls arbitrary: deps) (auto intro: follows_weaken)

lemma sound_placement_follows:
  assumes "usable P" "sound_placement P deps i r"
  shows "follows (res_stages r) deps i"
  unfolding follows_def
proof (intro ballI)
  fix s dep
  assume s: "s \<in> placed_in (res_stages r) i" and dep: "dep \<in> deps"
  let ?k = "get_soonest_stage_satisfying_all_dependencies P deps"
  from assms(1) have num: "stages_numbered (pl_stages P)"
    by (simp add: usable_def pipeline_wf_def resources_wf_def)
  from assms(2) s have k: "0 \<le> ?k" "?k \<le> s" by (auto simp: sound_placement_def)
  from soonest_stage_spec [OF num _ refl k(1)] dep
  obtain u where "u \<in> placed_in (pl_stages P) dep" "u < ?k" by blast
  moreover have "stages_grow {i} (pl_stages P) (res_stages r)"
    using assms(2) by (simp add: sound_placement_def)
  ultimately show "\<exists>u \<in> placed_in (res_stages r) dep. u < s"
    using k(2) stages_grow_placed(1) by (metis order_less_le_trans subsetD)
qed

definition level_sound ::
  "pipeline \<Rightarrow> ds_id set \<Rightarrow> ds list \<Rightarrow> pipeline_resources \<Rightarrow> bool" where
  "level_sound P deps xs r \<longleftrightarrow>
     resources_wf (pl_properties P) r \<and>
     stages_grow (ds_id_of ` set xs) (pl_stages P) (res_stages r) \<and>
     (\<forall>x \<in> set xs. follows (res_stages r) deps (ds_id_of x))"

lemma usable_level_sound_Nil: "usable P \<Longrightarrow> level_sound P deps [] (pl_resources P)"
  by (auto simp: level_sound_def usable_def pipeline_wf_def stages_grow_def resources_wf_def
      list_all2_same list_all_iff stage_within_def intro: stage_grows_refl)

lemma place_level_outcome:
  assumes "usable P" "place_level P xs deps = Inr res"
  shows "outcome (level_sound P deps xs) res"
  using assms
proof (induction xs arbitrary: P)
  case Nil
  then show ?case using usable_level_sound_Nil by auto
next
  case (Cons x xs)
  from Cons.prems(2) obtain res1 where res1: "find_placements_primitive P x deps = Inr res1"
    by (auto simp: rbind_eq_Inr)
  note out1 = primitive_outcome [OF Cons.prems(1) res1]
  show ?case
  proof (cases "status res1 = Success")
    case False
    with Cons.prems(2) res1 out1 show ?thesis by (auto intro: outcome_failed)
  next
    case True
    with out1 obtain r1 where r1: "resources res1 = Some r1" "sound_placement P deps (ds_id_of x) r1"
      by (auto simp: outcome_def)
    let ?P1 = "P\<lparr>pl_resources := r1\<rparr>"
    have rest: "place_level ?P1 xs deps = Inr res" using Cons.prems(2) res1 True r1(1) by simp
    from r1(2) have g1: "resources_wf (pl_properties P) r1"
      "stages_grow {ds_id_of x} (pl_stages P) (res_stages r1)" by (auto simp: sound_placement_def)
    from Cons.IH [OF usable_grow [OF Cons.prems(1) g1] rest] show ?thesis
    proof (rule outcome_mono)
      fix r assume "level_sound ?P1 deps xs r"
      then have r: "resources_wf (pl_properties P) r"
        "stages_grow (ds_id_of ` set xs) (res_stages r1) (res_stages r)"
        "\<forall>y \<in> set xs. follows (res_stages r) deps (ds_id_of y)" by (auto simp: level_sound_def)
      have "follows (res_stages r) deps (ds_id_of x)"
      proof (cases "ds_id_of x \<in> ds_id_of ` set xs")
        case False
        from follows_grow [OF sound_placement_follows [OF Cons.prems(1) r1(2)] r(2)]
          stages_grow_placed(2) [OF r(2) False] show ?thesis by simp
      qed (use r(3) in auto)
      with r stages_grow_trans [OF g1(2) r(2)] show "level_sound P deps (x # xs) r"
        by (auto simp: level_sound_def)
    qed
  qed
qed

definition levels_sound ::
  "pipeline \<Rightarrow> ds_id set \<Rightarrow> ds list list \<Rightarrow> pipeline_resources \<Rightarrow> bool" where
  "levels_sound P deps lvls r \<longleftrightarrow>
     resources_wf (pl_properties P) r \<and>
     stages_grow (ds_id_of ` set (concat lvls)) (pl_stages P) (res_stages r) \<and>
     ordered_levels (res_stages r) deps lvls"

lemma place_levels_outcome:
  assumes "usable P" "place_levels P lvls deps = Inr res"
  shows "outcome (levels_sound P deps lvls) res"
  using assms
proof (induction lvls arbitrary: P deps)
  case Nil
  then show ?case using usable_level_sound_Nil
    by (auto simp: levels_sound_def level_sound_def)
next
  case (Cons lvl lvls)
  from Cons.prems(2) obtain res1 where res1: "place_level P lvl deps = Inr res1"
    by (auto simp: rbind_eq_Inr)
  note out1 = place_level_outcome [OF Cons.prems(1) res1]
  show ?case
  proof (cases "status res1 = Success")
    case False
    with Cons.prems(2) res1 out1 show ?thesis by (auto intro: outcome_failed)
  next
    case True
    with out1 obtain r1 where r1: "resources res1 = Some r1" "level_sound P deps lvl r1"
      by (auto simp: outcome_def)
    let ?P1 = "P\<lparr>pl_resources := r1\<rparr>" and ?ids = "ds_id_of ` set lvl"
    have rest: "place_levels ?P1 lvls (deps \<union> ?ids) = Inr res"
      using Cons.prems(2) res1 True r1(1) by simp
    from r1(2) have g1: "resources_wf (pl_properties P) r1"
      "stages_grow ?ids (pl_stages P) (res_stages r1)"
      "\<forall>x \<in> set lvl. follows (res_stages r1) deps (ds_id_of x)" by (auto simp: level_sound_def)
    from Cons.IH [OF usable_grow [OF Cons.prems(1) g1(1,2)] rest] show ?thesis
    proof (rule outcome_mono)
      fix r assume "levels_sound ?P1 (deps \<union> ?ids) lvls r"
      then have r: "resources_wf (pl_properties P) r"
        "stages_grow (ds_id_of ` set (concat lvls)) (res_stages r1) (res_stages r)"
        "ordered_levels (res_stages r) (deps \<union> ?ids) lvls" by (auto simp: levels_sound_def)
      have "follows (res_stages r) deps (ds_id_of x)" if "x \<in> set lvl" for x
      proof (cases "ds_id_of x \<in> ds_id_of ` set (concat lvls)")
        case True
        then obtain y where "y \<in> set (concat lvls)" "ds_id_of y = ds_id_of x" by force
        with ordered_levels_follows [OF r(3)] show ?thesis by (metis follows_weaken Un_upper1)
      next
        case False
        from follows_grow [OF _ r(2)] stages_grow_placed(2) [OF r(2) False] g1(3) that
        show ?thesis by blast
      qed
      with r stages_grow_trans [OF g1(2) r(2)] show "levels_sound P deps (lvl # lvls) r"
        by (simp add: levels_sound_def image_Un)
    qed
  qed
qed

section \<open>Whole structures and the clean slate\<close>

definition keeps_wf :: "pipeline \<Rightarrow> pipeline_resources \<Rightarrow> bool" where
  "keeps_wf P r \<longleftrightarrow> resources_wf (pl_properties P) r \<and> res_stages r \<noteq> []"

lemma keeps_wf_grow:
  assumes "usable P" "resources_wf (pl_properties P) r"
    "stages_grow I (pl_stages P) (res_stages r)"
  shows "keeps_wf P r"
  using usable_grow [OF assms] by (simp add: keeps_wf_def usable_def pipeline_wf_def)

lemma usable_new_pipeline: "usable P \<Longrightarrow> usable (new_pipeline (pl_properties P) st)"
proof -
  assume u: "usable P"
  then have "hd (pl_stages P) \<in> set (pl_stages P)" by (simp add: usable_def)
  then obtain s where s: "s \<in> set (pl_stages P)" ..
  with u have "0 \<le> available_logical_ids s"
    "available_logical_ids s \<le> max_logical_sram_and_tcam_tables_per_stage (pl_properties P)"
    by (auto simp: usable_def pipeline_wf_def resources_wf_def list_all_iff stage_within_def)
  then have "resources_wf (pl_properties P) (new_pipeline_resources (pl_properties P))"
    by (intro new_pipeline_resources_wf) simp
  moreover have "length (res_stages (new_pipeline_resources (pl_properties P))) = length (pl_stages P)"
    using u by (simp add: new_pipeline_resources_def usable_def pipeline_wf_def resources_wf_def)
  ultimately show ?thesis using u
    by (auto simp: usable_def pipeline_wf_def new_pipeline_def)
qed

lemma find_placements_keeps_wf:
  "usable P \<Longrightarrow> find_placements P d deps = Inr res \<Longrightarrow> outcome (keeps_wf P) res"
  "usable C \<Longrightarrow> clean_slate_loop C d deps reqs = Inr res \<Longrightarrow> outcome (keeps_wf C) res"
proof (induction P d deps and C d deps reqs arbitrary: res and res
    rule: find_placements_clean_slate_loop.induct)
  case (1 P d deps)
  consider (prim) "ds_primitive d" "find_placements_primitive P d deps = Inr res"
    | (clean) "\<not> ds_primitive d" "detect_changes_to_already_placed_data_structure P d = Inr True"
      "clean_slate_loop (new_pipeline (pl_properties P) (pl_store P)) d deps (pl_requests P) = Inr res"
    | (lvls) lvls where "place_levels P lvls deps = Inr res"
    using "1.prems"(2) by (auto simp: find_placements_eq rbind_eq_Inr split: if_splits)
  then show ?case
  proof cases
    case prim
    from primitive_outcome [OF "1.prems"(1) prim(2)] show ?thesis
      by (rule outcome_mono) (auto simp: sound_placement_def intro: keeps_wf_grow [OF "1.prems"(1)])
  next
    case clean
    have "outcome (keeps_wf (new_pipeline (pl_properties P) (pl_store P))) res"
      using "1.IH" clean detect_changes_requests usable_new_pipeline [OF "1.prems"(1)] by blast
    then show ?thesis by (rule outcome_mono) (simp add: keeps_wf_def new_pipeline_def)
  next
    case lvls
    from place_levels_outcome [OF "1.prems"(1) lvls] show ?thesis
      by (rule outcome_mono) (auto simp: levels_sound_def intro: keeps_wf_grow [OF "1.prems"(1)])
  qed
next
  case (2 C d deps)
  then show ?case
    by (auto simp: clean_slate_loop.simps keeps_wf_def usable_def pipeline_wf_def)
next
  case (3 C d deps req reqs)
  let ?deps = "\<lambda>x. if ds_id_of x = ds_id_of d then req_deps req \<union> deps else req_deps req"
  from "3.prems"(2) obtain x res1 where x: "get_ds_from_id (pl_store C) (req_ds req) = Inr x"
    and res1: "find_placements C x (?deps x) = Inr res1"
    by (simp only: clean_slate_loop.simps split: sum.splits) blast
  have out1: "outcome (keeps_wf C) res1"
    using "3.IH"(1) [OF x] "3.prems"(1) res1 by blast
  show ?case
  proof (cases "status res1 = Success")
    case False
    with "3.prems"(2) x res1 out1 show ?thesis by (simp add: clean_slate_loop.simps)
  next
    case True
    with out1 obtain r where r: "resources res1 = Some r" "keeps_wf C r" by (auto simp: outcome_def)
    then have usable: "usable (C\<lparr>pl_resources := r\<rparr>)"
      by (simp add: keeps_wf_def usable_def pipeline_wf_def)
    have "clean_slate_loop (C\<lparr>pl_resources := r\<rparr>) d deps reqs = Inr res"
      using "3.prems"(2) x res1 True r(1) by (simp add: clean_slate_loop.simps)
    with "3.IH"(2) [OF x _ _ r(1)] res1 True usable have "outcome (keeps_wf (C\<lparr>pl_resources := r\<rparr>)) res"
      by blast
    then show ?thesis by (rule outcome_mono) (simp add: keeps_wf_def)
  qed
qed

end
