(* ===== verification/Tofino2Config.thy ===== *)
theory Tofino2Config
  imports TNA_Pipeline
begin

text \<open>
  The switch of \<^verbatim>\<open>src/configs/tofino2.toml\<close>, whose architecture section is read into
  \<^verbatim>\<open>tna_properties_t\<close>: the concrete inputs of the development.
\<close>

definition tofino2_properties :: tna_properties where
  "tofino2_properties =
     \<lparr>total_ports = 32, total_recirc_ports = 4, max_packet_bytes_in_condition = 4, pipes = 4,
      stages = 20, sram_per_stage = 10485760, tcam_per_stage = 540672,
      map_ram_per_stage = 6291456, max_logical_tcam_tables_per_stage = 8,
      max_logical_sram_and_tcam_tables_per_stage = 16, phv_size = 5000,
      phv_8bit_containers = 80, phv_16bit_containers = 120, phv_32bit_containers = 80,
      packet_buffer_size = 512000000, exact_match_xbar_per_stage = 1024,
      max_exact_match_keys = 16, ternary_match_xbar = 528, max_ternary_match_keys = 8,
      max_salu_size = 32, max_digests = 8, min_expiration_time = 100,
      max_capacity = 2250000000\<rparr>"

text \<open>The same switch cut down to \<open>n\<close> stages.\<close>

definition short_switch :: "int \<Rightarrow> tna_properties" where
  "short_switch n = tofino2_properties\<lparr>stages := n\<rparr>"

definition short_pipeline :: "int \<Rightarrow> pipeline" where
  "short_pipeline n = new_pipeline (short_switch n) empty_store"

lemma short_switch_simps [simp]:
  "stages (short_switch n) = n"
  "sram_per_stage (short_switch n) = 10485760"
  "tcam_per_stage (short_switch n) = 540672"
  "map_ram_per_stage (short_switch n) = 6291456"
  "exact_match_xbar_per_stage (short_switch n) = 1024"
  "max_logical_sram_and_tcam_tables_per_stage (short_switch n) = 16"
  "max_exact_match_keys (short_switch n) = 16"
  "max_digests (short_switch n) = 8"
  "max_salu_size (short_switch n) = 32"
  by (simp_all add: short_switch_def tofino2_properties_def)

lemma short_pipeline_simps [simp]:
  "pl_properties (short_pipeline n) = short_switch n"
  "pl_store (short_pipeline n) = empty_store"
  "pl_requests (short_pipeline n) = []"
  "pl_resources (short_pipeline n) = new_pipeline_resources (short_switch n)"
  by (simp_all add: short_pipeline_def new_pipeline_def)

lemma short_pipeline_wf: "pipeline_wf (short_pipeline n)"
  by (simp add: pipeline_wf_def new_pipeline_resources_wf)

lemma two_indices: "[0..<2] = [0, 1 :: nat]"
  by (simp add: upt_rec)

section \<open>Sample structures\<close>

text \<open>A table of \<open>2 ^ 18\<close> entries of 64 bits, which needs more than one stage.\<close>

definition sample_table :: table where
  "sample_table =
     \<lparr>tbl_id = ''t'', tbl_capacity = 262144, tbl_keys = [32], tbl_params = [32],
      tbl_time_aware = No\<rparr>"

text \<open>A register of two entries.\<close>

definition sample_register :: register where
  "sample_register =
     \<lparr>reg_id = ''r'', reg_capacity = 2, reg_index_size = 32, reg_value_size = 32,
      reg_actions = {Read, Write}\<rparr>"

lemma sample_register_id: "reg_id sample_register = ''r''"
  by (simp add: sample_register_def)

end
