(* ===== verification/SimplePlacerDemand.thy ===== *)
theory SimplePlacerDemand
  imports SimplePlacerLevels Tofino2Config
begin

text \<open>
  What a successful placement by the greedy placer has charged: the SRAM taken from the
  stages is exactly what the structure asks for, a structure that asks for something is
  placed somewhere, and \<open>TooLarge\<close> is reported only when the eligible stages together
  cannot hold it.
\<close>

section \<open>Successful placements\<close>

definition charged ::
  "pipeline \<Rightarrow> ds_id set \<Rightarrow> ds_id \<Rightarrow> ds_type \<Rightarrow> placement list \<Rightarrow> pipeline_resources \<Rightarrow> bool" where
  "charged P deps i ty ps r \<longleftrightarrow>
     good_placements (get_soonest_stage_satisfying_all_dependencies P deps) i ty (pl_stages P) ps \<and>
     res_stages r = map (charge_all ps) (pl_stages P) \<and>
     placed_in (res_stages r) i = plc_stage_id ` set ps"

lemma charged_occupied: "charged P deps i ty ps r \<Longrightarrow> ps \<noteq> [] \<Longrightarrow> placed_in (res_stages r) i \<noteq> {}"
  unfolding charged_def by (metis image_is_empty set_empty)

lemma concretize_charged:
  assumes "placeable P i" "0 \<le> get_soonest_stage_satisfying_all_dependencies P deps"
    and "good_placements (get_soonest_stage_satisfying_all_dependencies P deps) i ty
      (pl_stages P) ps" "ty \<noteq> Digest"
    and "concretize_placements P req ps = Inr res" "resources res = Some r"
  shows "charged P deps i ty ps r"
proof -
  from contract_placements [OF assms(1-3), of req] assms(4) obtain r' where
    "concretize_placements P req ps = Inr (result_of_resources r')"
    "res_stages r' = map (charge_all ps) (pl_stages P)"
    "placed_in (res_stages r') i = plc_stage_id ` set ps" by blast
  with assms(3,5,6) show ?thesis by (auto simp: charged_def result_of_resources_def)
qed

lemma result_of_status_no_resources:
  "result_of_status st = Inr res \<Longrightarrow> resources res = None"
  by (auto simp: result_of_status_def result_simps)

lemma table_charged:
  assumes "placeable P (tbl_id t)" "find_placements_table P t deps = Inr res"
    "resources res = Some r"
  obtains ps where "charged P deps (tbl_id t) Table ps r"
    "sum_list (map (\<lambda>p. unat (plc_sram p)) ps) = unat (align_to_byte (table_consumed_sram t))"
proof -
  let ?k = "get_soonest_stage_satisfying_all_dependencies P deps"
  note st = placeable_stages [OF assms(1)]
  obtain left ps where loop: "sram_loop ?k (align_to_byte (table_match_xbar_consume t)) (tbl_id t)
      Table (align_to_byte (table_consumed_sram t)) [] (pl_stages P) = (left, ps)" by fastforce
  with assms(2,3) have ok: "0 \<le> ?k" "left = 0"
    "concretize_placements P \<lparr>req_ds = tbl_id t, req_deps = deps\<rparr> ps = Inr res"
    by (auto simp: find_placements_table_def Let_def assert_that_eq_Inr word_gt_0
        dest: result_of_status_no_resources split: if_split_asm)
  from sram_loop_spec [OF loop stages_numbered_distinct [OF st(1)] st(2)] ok(2)
  have good: "good_placements ?k (tbl_id t) Table (pl_stages P) ps"
    and "sum_list (map (\<lambda>p. unat (plc_sram p)) ps) = unat (align_to_byte (table_consumed_sram t))"
    by simp_all
  with concretize_charged [OF assms(1) ok(1) good _ ok(3) assms(3)] that show thesis by simp
qed

lemma meter_charged:
  assumes "placeable P (mtr_id m)" "find_placements_meter P m deps = Inr res"
    "resources res = Some r"
  obtains ps where "charged P deps (mtr_id m) Meter ps r"
    "sum_list (map (\<lambda>p. unat (plc_sram p)) ps) = unat (align_to_byte (meter_consumed_sram m))"
proof -
  let ?k = "get_soonest_stage_satisfying_all_dependencies P deps"
  note st = placeable_stages [OF assms(1)]
  obtain left ps where loop: "sram_loop ?k (align_to_byte (meter_match_xbar_consume m)) (mtr_id m)
      Meter (align_to_byte (meter_consumed_sram m)) [] (pl_stages P) = (left, ps)" by fastforce
  with assms(2,3) have ok: "0 \<le> ?k" "left = 0"
    "concretize_placements P \<lparr>req_ds = mtr_id m, req_deps = deps\<rparr> ps = Inr res"
    by (auto simp: find_placements_meter_def Let_def assert_that_eq_Inr word_gt_0
        dest: result_of_status_no_resources split: if_split_asm)
  from sram_loop_spec [OF loop stages_numbered_distinct [OF st(1)] st(2)] ok(2)
  have good: "good_placements ?k (mtr_id m) Meter (pl_stages P) ps"
    and "sum_list (map (\<lambda>p. unat (plc_sram p)) ps) = unat (align_to_byte (meter_consumed_sram m))"
    by simp_all
  with concretize_charged [OF assms(1) ok(1) good _ ok(3) assms(3)] that show thesis by simp
qed

lemma lpm_charged:
  assumes "placeable P (lpm_id l)" "find_placements_lpm P l deps = Inr res"
    "resources res = Some r"
  obtains ps where "charged P deps (lpm_id l) LPM ps r"
    "sum_list (map (\<lambda>p. unat (plc_tcam p)) ps) = unat (align_to_byte (lpm_consumed_tcam l))"
proof -
  let ?k = "get_soonest_stage_satisfying_all_dependencies P deps"
  note st = placeable_stages [OF assms(1)]
  obtain left ps where loop: "tcam_loop ?k (align_to_byte (lpm_match_xbar_consume l)) (lpm_id l)
      (align_to_byte (lpm_consumed_tcam l)) [] (pl_stages P) = (left, ps)" by fastforce
  with assms(2,3) have ok: "0 \<le> ?k" "left = 0"
    "concretize_placements P \<lparr>req_ds = lpm_id l, req_deps = deps\<rparr> ps = Inr res"
    by (auto simp: find_placements_lpm_def Let_def assert_that_eq_Inr word_gt_0
        dest: result_of_status_no_resources split: if_split_asm)
  from tcam_loop_spec [OF loop stages_numbered_distinct [OF st(1)] st(2)] ok(2)
  have good: "good_placements ?k (lpm_id l) LPM (pl_stages P) ps"
    and "sum_list (map (\<lambda>p. unat (plc_tcam p)) ps) = unat (align_to_byte (lpm_consumed_tcam l))"
    by simp_all
  with concretize_charged [OF assms(1) ok(1) good _ ok(3) assms(3)] that show thesis by simp
qed

lemma register_charged:
  assumes "placeable P (reg_id g)" "find_placements_reg P g deps = Inr res"
    "resources res = Some r" "align_to_byte (register_consumed_sram g) \<noteq> 0"
  obtains p where "charged P deps (reg_id g) Register [p] r"
    "plc_sram p = align_to_byte (register_consumed_sram g)"
    "plc_map_ram p = align_to_byte (align_to_byte (register_consumed_sram g))"
proof -
  let ?k = "get_soonest_stage_satisfying_all_dependencies P deps"
  let ?sram = "align_to_byte (register_consumed_sram g)"
  obtain left ps where loop: "reg_loop ?k ?sram (align_to_byte ?sram)
      (align_to_byte (reg_index_size g)) (sint (register_num_logical_ids g)) (reg_id g)
      (pl_stages P) = (left, ps)" by fastforce
  with assms(2,3) have ok: "0 \<le> ?k" "left = 0"
    "concretize_placements P \<lparr>req_ds = reg_id g, req_deps = deps\<rparr> ps = Inr res"
    by (auto simp: find_placements_reg_def Let_def assert_that_eq_Inr word_gt_0
        dest: result_of_status_no_resources split: if_split_asm)
  from reg_loop_spec [OF loop] ok(2) assms(4) obtain p where
    good: "good_placements ?k (reg_id g) Register (pl_stages P) ps" and p: "ps = [p]"
    "plc_sram p = ?sram" "plc_map_ram p = align_to_byte ?sram"
    by (auto simp: register_num_logical_ids_sint)
  from concretize_charged [OF assms(1) ok(1) good _ ok(3) assms(3)] p that show thesis by simp
qed

lemma hash_placed:
  assumes "placeable P (hash_id h)" "find_placements_hash P h deps = Inr res"
    "resources res = Some r"
  shows "placed_in (res_stages r) (hash_id h) \<noteq> {}"
proof -
  let ?k = "get_soonest_stage_satisfying_all_dependencies P deps"
  let ?ps = "hash_loop ?k (align_to_byte (hash_match_xbar_consume h)) (hash_id h) (pl_stages P)"
  from assms(2,3) have ok: "0 \<le> ?k" "?ps \<noteq> []"
    "concretize_placements P \<lparr>req_ds = hash_id h, req_deps = deps\<rparr> ?ps = Inr res"
    by (auto simp: find_placements_hash_def Let_def assert_that_eq_Inr word_gt_0
        dest: result_of_status_no_resources split: if_split_asm)
  have good: "good_placements ?k (hash_id h) Hash (pl_stages P) ?ps"
    using hash_loop_spec [OF placeable_stages(2) [OF assms(1)]] by blast
  from concretize_charged [OF assms(1) ok(1) good _ ok(3) assms(3)] ok(2) charged_occupied show ?thesis
    by blast
qed

lemma digest_placed:
  assumes "placeable P (dig_id d)" "find_placements_digest P d deps = Inr res"
    "resources res = Some r"
  shows "placed_in (res_stages r) (dig_id d) \<noteq> {}"
proof -
  let ?k = "get_soonest_stage_satisfying_all_dependencies P deps"
  let ?p = "\<lparr>plc_stage_id = ?k, plc_sram = 0, plc_tcam = 0, plc_map_ram = 0, plc_xbar = 0,
    plc_logical_ids = 0, plc_obj = dig_id d, plc_type = Digest\<rparr>"
  note st = placeable_stages [OF assms(1)]
  from assms(2,3) have ok: "0 \<le> ?k" "used_digests (pl_resources P) < max_digests (pl_properties P)"
    "concretize_placements P \<lparr>req_ds = dig_id d, req_deps = deps\<rparr> [?p] = Inr res"
    by (auto simp: find_placements_digest_def Let_def assert_that_eq_Inr not_le
        dest: result_of_status_no_resources split: if_split_asm)
  have "?k < int (length (pl_stages P))"
    using soonest_stage_bounds [OF st(1)] ok assms(1) by (simp add: placeable_def)
  with ok(1) have "pl_stages P ! nat ?k \<in> set (pl_stages P)" "stage_id (pl_stages P ! nat ?k) = ?k"
    using stages_numbered_nth [OF st(1), of "nat ?k"] by auto
  with st(2) have "good_placements ?k (dig_id d) Digest (pl_stages P) [?p]"
    by (auto simp: good_placements_def placement_fits_def intro!: bexI [of _ "pl_stages P ! nat ?k"])
  from contract_placements [OF assms(1) ok(1) this, of "\<lparr>req_ds = dig_id d, req_deps = deps\<rparr>"]
    ok(2,3) assms(3) show ?thesis by (auto simp: result_of_resources_def)
qed

fun asks_for_something :: "ds \<Rightarrow> bool" where
  "asks_for_something (TableDS t) \<longleftrightarrow> align_to_byte (table_consumed_sram t) \<noteq> 0"
| "asks_for_something (RegisterDS g) \<longleftrightarrow> align_to_byte (register_consumed_sram g) \<noteq> 0"
| "asks_for_something (MeterDS m) \<longleftrightarrow> align_to_byte (meter_consumed_sram m) \<noteq> 0"
| "asks_for_something (LPMDS l) \<longleftrightarrow> align_to_byte (lpm_consumed_tcam l) \<noteq> 0"
| "asks_for_something (HashDS h) \<longleftrightarrow> True"
| "asks_for_something (DigestDS d) \<longleftrightarrow> True"
| "asks_for_something d \<longleftrightarrow> False"

lemma primitive_occupies:
  assumes "usable P" "find_placements_primitive P d deps = Inr res" "resources res = Some r"
    and "asks_for_something d"
  shows "placed_in (res_stages r) (ds_id_of d) \<noteq> {}"
proof -
  have pl: "placeable P (ds_id_of d)"
    using find_placements_primitive_asserts [OF assms(2)] assms(1)
    by (simp add: usable_def placeable_def)
  have spread: "placed_in (res_stages r) i \<noteq> {}"
    if "charged P deps i ty ps r" "sum_list (map (\<lambda>p. unat (f p)) ps) = unat n" "n \<noteq> 0"
    for i ty ps and f :: "placement \<Rightarrow> bits_t" and n :: bits_t
    using charged_occupied [OF that(1)] that(2,3) by (cases ps) (auto simp: unat_eq_zero)
  show ?thesis
  proof (cases d)
    case (TableDS t)
    with pl assms obtain ps where ps: "charged P deps (tbl_id t) Table ps r"
      "sum_list (map (\<lambda>p. unat (plc_sram p)) ps) = unat (align_to_byte (table_consumed_sram t))"
      by (auto elim!: table_charged)
    from spread [OF ps] assms(4) TableDS show ?thesis by simp
  next
    case (RegisterDS g)
    with pl assms show ?thesis by (auto elim!: register_charged dest: charged_occupied)
  next
    case (MeterDS m)
    with pl assms obtain ps where ps: "charged P deps (mtr_id m) Meter ps r"
      "sum_list (map (\<lambda>p. unat (plc_sram p)) ps) = unat (align_to_byte (meter_consumed_sram m))"
      by (auto elim!: meter_charged)
    from spread [OF ps] assms(4) MeterDS show ?thesis by simp
  next
    case (LPMDS l)
    with pl assms obtain ps where ps: "charged P deps (lpm_id l) LPM ps r"
      "sum_list (map (\<lambda>p. unat (plc_tcam p)) ps) = unat (align_to_byte (lpm_consumed_tcam l))"
      by (auto elim!: lpm_charged)
    from spread [OF ps] assms(4) LPMDS show ?thesis by simp
  qed (use pl assms hash_placed digest_placed in auto)
qed

section \<open>Conservation\<close>

lemma find_key_None: "i \<notin> f ` set xs \<Longrightarrow> find (\<lambda>x. f x = i) xs = None"
  by (auto simp: find_None_iff)

lemma charge_all_sram:
  assumes "good_placements k obj ty ss ps" "stages_numbered ss"
  shows "sum_list (map (\<lambda>s. unat (available_sram s) - unat (available_sram (charge_all ps s))) ss)
    = sum_list (map (\<lambda>p. unat (plc_sram p)) ps)"
proof -
  let ?g = "\<lambda>i. case find (\<lambda>p. plc_stage_id p = i) ps of None \<Rightarrow> 0 | Some p \<Rightarrow> unat (plc_sram p)"
  have dist: "distinct (map plc_stage_id ps)" using assms(1) by (simp add: good_placements_def)
  have eq: "unat (available_sram s) - unat (available_sram (charge_all ps s)) = ?g (stage_id s)"
    if s: "s \<in> set ss" for s
  proof (cases "find (\<lambda>p. plc_stage_id p = stage_id s) ps")
    case (Some p)
    then have p: "p \<in> set ps" "plc_stage_id p = stage_id s" by (auto simp: find_Some_iff)
    with assms(1) obtain u where u: "u \<in> set ss" "stage_id u = stage_id s" "placement_fits p u"
      by (auto simp: good_placements_def)
    with stages_numbered_inj [OF assms(2) u(1) s] have "plc_sram p \<le> available_sram s"
      by (simp add: placement_fits_def)
    with Some show ?thesis
      by (simp add: charge_all_def charge_stage_def unat_sub_le word_le_nat_alt)
  qed (simp add: charge_all_def)
  have "?g (plc_stage_id p) = unat (plc_sram p)" if p: "p \<in> set ps" for p
  proof (cases "find (\<lambda>q. plc_stage_id q = plc_stage_id p) ps")
    case (Some q)
    then have "q \<in> set ps" "plc_stage_id q = plc_stage_id p" by (auto simp: find_Some_iff)
    with dist p have "q = p" by (simp add: distinct_map inj_on_def)
    with Some show ?thesis by simp
  qed (use p in \<open>auto simp: find_None_iff\<close>)
  then have "sum_list (map (\<lambda>p. unat (plc_sram p)) ps) = sum_list (map ?g (map plc_stage_id ps))"
    by (simp add: comp_def cong: map_cong)
  also have "\<dots> = sum ?g (plc_stage_id ` set ps)"
    using dist by (simp only: sum_list_distinct_conv_sum_set set_map)
  also have "\<dots> = sum ?g (stage_id ` set ss)"
  proof (rule sum.mono_neutral_left)
    show "\<forall>i \<in> stage_id ` set ss - plc_stage_id ` set ps. ?g i = 0"
      using find_key_None [of _ plc_stage_id ps] by auto
  qed (use assms(1) in \<open>auto simp: good_placements_def\<close>)
  also have "\<dots> = sum_list (map ?g (map stage_id ss))"
    using stages_numbered_distinct [OF assms(2)]
    by (simp only: sum_list_distinct_conv_sum_set set_map)
  also have "\<dots> = sum_list (map (\<lambda>s. unat (available_sram s) -
      unat (available_sram (charge_all ps s))) ss)"
    using eq by (simp add: comp_def cong: map_cong)
  finally show ?thesis by simp
qed

text \<open>When the loop leaves something, it has used up every stage it did not skip.\<close>

lemma sram_loop_exhausts:
  assumes "sram_loop k xbar obj ty req acc ss = (left, out)" "left \<noteq> 0"
  shows "unat req = unat left +
    sum_list (map (\<lambda>s. unat (available_sram s)) (filter (\<lambda>s. \<not> spreads_skip k xbar s) ss))"
  using assms
proof (induction ss arbitrary: req acc)
  case (Cons s ss)
  show ?case
  proof (cases "spreads_skip k xbar s")
    case True
    with Cons.prems Cons.IH show ?thesis by (simp add: sram_loop_skip [OF True])
  next
    case False
    let ?a = "min req (available_sram s)"
    from Cons.prems have more: "req - ?a \<noteq> 0"
      and rest: "\<exists>acc'. sram_loop k xbar obj ty (req - ?a) acc' ss = (left, out)"
      by (auto simp: sram_loop_take [OF False] Let_def split: if_split_asm)
    from more have a: "?a = available_sram s" by (auto simp: min_def)
    from rest Cons.IH Cons.prems(2) have "unat (req - ?a) = unat left +
      sum_list (map (\<lambda>s. unat (available_sram s)) (filter (\<lambda>s. \<not> spreads_skip k xbar s) ss))"
      by blast
    with unat_take_min [of req "available_sram s"] a False show ?thesis by simp
  qed
qed simp

section \<open>Concrete placements\<close>

definition table_resources :: pipeline_resources where
  "table_resources =
     \<lparr>res_stages =
        [\<lparr>stage_id = 0, available_sram = 0, available_tcam = 540672,
          available_map_ram = 6291456, available_exact_match_xbar = 992,
          available_logical_ids = 15, stage_ds = {''t''}\<rparr>,
         \<lparr>stage_id = 1, available_sram = 4194304, available_tcam = 540672,
          available_map_ram = 6291456, available_exact_match_xbar = 992,
          available_logical_ids = 15, stage_ds = {''t''}\<rparr>],
      used_digests = 0\<rparr>"

lemma sample_table_sram: "align_to_byte (table_consumed_sram sample_table) = 16777216"
  by (simp add: align_to_byte_def table_consumed_sram_def table_consumed_sram_per_entry_def
      sample_table_def)

lemma short_pipeline_placeable: "placeable (short_pipeline 2) i"
  by (simp add: placeable_def short_pipeline_wf new_pipeline_resources_def already_placed_def
      get_placed_stage_def placed_stage_in_def two_indices)

lemma sample_table_placed:
  "find_placements_table (short_pipeline 2) sample_table {} = Inr (result_of_resources table_resources)"
  using short_pipeline_placeable [of "''t''"]
  unfolding find_placements_table_def sample_table_sram
  by (simp add: placeable_def sample_table_def table_match_xbar_consume_def align_to_byte_def
      get_soonest_stage_satisfying_all_dependencies_def new_pipeline_resources_def two_indices
      sram_loop.simps concretize_placements_def concretize_step_def charge_stage_def
      table_resources_def)

definition register_placed :: pipeline_resources where
  "register_placed =
     \<lparr>res_stages =
        [\<lparr>stage_id = 0, available_sram = 10354624, available_tcam = 540672,
          available_map_ram = 6160320, available_exact_match_xbar = 992,
          available_logical_ids = 14, stage_ds = {''r''}\<rparr>,
         \<lparr>stage_id = 1, available_sram = 10485760, available_tcam = 540672,
          available_map_ram = 6291456, available_exact_match_xbar = 1024,
          available_logical_ids = 16, stage_ds = {}\<rparr>],
      used_digests = 0\<rparr>"

lemma sample_register_sram: "align_to_byte (register_consumed_sram sample_register) = 131136"
  by (simp add: align_to_byte_def register_consumed_sram_def sample_register_def)

lemma sample_register_placed:
  "find_placements_reg (short_pipeline 2) sample_register {} =
     Inr (result_of_resources register_placed)"
  using short_pipeline_placeable [of "''r''"]
  unfolding find_placements_reg_def sample_register_sram
  by (simp add: placeable_def sample_register_def align_to_byte_def register_num_logical_ids_def
      get_soonest_stage_satisfying_all_dependencies_def new_pipeline_resources_def two_indices
      reg_loop.simps concretize_placements_def concretize_step_def charge_stage_def
      register_placed_def)

lemma sample_table_too_large:
  "find_placements_table (short_pipeline 1) sample_table {} =
     Inr \<lparr>status = TooLarge, resources = None\<rparr>"
  unfolding find_placements_table_def sample_table_sram
  by (simp add: sample_table_def table_match_xbar_consume_def align_to_byte_def
      already_placed_def get_placed_stage_def placed_stage_in_def result_of_status_def
      get_soonest_stage_satisfying_all_dependencies_def new_pipeline_resources_def
      sram_loop.simps)

section \<open>Properties\<close>

text \<open>A placed table has taken from the stages exactly the SRAM it asks for, rounded up to
  a byte: the reductions of all stages add up to the request.\<close>

lemma table_sram_conserved:
  assumes "placeable P (tbl_id t)" "find_placements_table P t deps = Inr res"
    "resources res = Some r"
  shows "sum_list (map2 (\<lambda>s s'. unat (available_sram s) - unat (available_sram s'))
      (pl_stages P) (res_stages r)) = unat (align_to_byte (table_consumed_sram t))"
proof -
  from table_charged [OF assms] obtain ps where ps: "charged P deps (tbl_id t) Table ps r"
    "sum_list (map (\<lambda>p. unat (plc_sram p)) ps) = unat (align_to_byte (table_consumed_sram t))" .
  then have "map2 (\<lambda>s s'. unat (available_sram s) - unat (available_sram s'))
      (pl_stages P) (res_stages r) =
    map (\<lambda>s. unat (available_sram s) - unat (available_sram (charge_all ps s))) (pl_stages P)"
    by (simp add: charged_def map2_map_map [where f = "\<lambda>s. s", simplified])
  moreover from ps(1) have "good_placements (get_soonest_stage_satisfying_all_dependencies P deps)
      (tbl_id t) Table (pl_stages P) ps" by (simp add: charged_def)
  from charge_all_sram [OF this placeable_stages(1) [OF assms(1)]] ps(2) calculation show ?thesis
    by simp
qed

lemma table_sram_conserved_witness:
  "sum_list (map2 (\<lambda>s s'. unat (available_sram s) - unat (available_sram s'))
     (pl_stages (short_pipeline 2)) (res_stages table_resources)) = 16777216"
  using table_sram_conserved [OF short_pipeline_placeable sample_table_placed, of table_resources]
  by (simp add: result_of_resources_def sample_table_sram)

text \<open>A placed register that needs SRAM is in exactly one stage, which is no earlier than
  the one its dependencies allow.\<close>

theorem register_in_one_stage:
  assumes "placeable P (reg_id g)" "find_placements_reg P g deps = Inr res"
    "resources res = Some r" "align_to_byte (register_consumed_sram g) \<noteq> 0"
  shows "\<exists>s. placed_in (res_stages r) (reg_id g) = {s} \<and>
    get_soonest_stage_satisfying_all_dependencies P deps \<le> s"
proof -
  from register_charged [OF assms] obtain p where "charged P deps (reg_id g) Register [p] r" .
  then show ?thesis by (auto simp: charged_def good_placements_def)
qed

theorem register_in_one_stage_witness:
  "\<exists>s. placed_in (res_stages register_placed) ''r'' = {s} \<and> 0 \<le> s"
  using register_in_one_stage [of "short_pipeline 2" sample_register "{}"]
    short_pipeline_placeable [of "''r''"] sample_register_placed
  by (simp add: result_of_resources_def sample_register_sram sample_register_id
      get_soonest_stage_satisfying_all_dependencies_def)

text \<open>A table is turned down as too large only when the stages that could take a part of it
  (late enough, with SRAM, crossbar and a table slot left) have less SRAM together than it
  asks for.\<close>

lemma table_too_large_only_if_it_does_not_fit:
  assumes "find_placements_table P t deps = Inr res" "status res = TooLarge"
  shows "sum_list (map (\<lambda>s. unat (available_sram s))
      (filter (\<lambda>s. get_soonest_stage_satisfying_all_dependencies P deps \<le> stage_id s \<and>
          available_sram s \<noteq> 0 \<and>
          align_to_byte (table_match_xbar_consume t) \<le> available_exact_match_xbar s \<and>
          available_logical_ids s \<noteq> 0) (pl_stages P)))
    < unat (align_to_byte (table_consumed_sram t))"
proof -
  let ?k = "get_soonest_stage_satisfying_all_dependencies P deps"
  let ?x = "align_to_byte (table_match_xbar_consume t)"
  obtain left ps where loop: "sram_loop ?k ?x (tbl_id t)
      Table (align_to_byte (table_consumed_sram t)) [] (pl_stages P) = (left, ps)" by fastforce
  with assms have "left \<noteq> 0"
    by (auto simp: find_placements_table_def Let_def assert_that_eq_Inr word_gt_0
        result_of_status_def concretize_placements_def rbind_eq_Inr result_of_resources_def
        split: if_split_asm)
  with sram_loop_exhausts [OF loop] show ?thesis
    by (simp add: spreads_skip_def not_less word_gt_0 unat_gt_0)
qed

lemma table_too_large_only_if_it_does_not_fit_witness:
  "sum_list (map (\<lambda>s. unat (available_sram s))
     (filter (\<lambda>s. 0 \<le> stage_id s \<and> available_sram s \<noteq> 0 \<and>
         32 \<le> available_exact_match_xbar s \<and> available_logical_ids s \<noteq> 0)
       (pl_stages (short_pipeline 1)))) < 16777216"
  using table_too_large_only_if_it_does_not_fit [OF sample_table_too_large]
  unfolding sample_table_sram
  by (simp add: get_soonest_stage_satisfying_all_dependencies_def sample_table_def
      table_match_xbar_consume_def align_to_byte_def)

end
