(* ===== verification/SolverPlacer.thy ===== *)
theory SolverPlacer
  imports SimplePlacerLevels "HOL-Library.List_Lexorder" "HOL-Library.Char_ord"
begin

text \<open>
  The placer that hands the whole problem to an SMT optimiser
  (\<^verbatim>\<open>TNA/SolverPlacer.cpp\<close>, the Z3 build): the relationships between the requested
  structures, the constraint system over integer unknowns, its objective, and the
  resources read back from a model. The optimiser itself is a parameter.
\<close>

section \<open>Relationships between data structures\<close>

text \<open>
  The set of pointers to primitives is a list without repetitions, in the order of
  insertion; the pairs that must be ordered, each of which only adds one constraint, are a
  set.
\<close>

record ds_relationships =
  primitive_data_structures :: "ds list"
  happens_before :: "(ds_id \<times> ds_id) set"

fun unwrap_all :: "ds_store \<Rightarrow> ds_id list \<Rightarrow> ds_id set result" where
  "unwrap_all st [] = Inr {}"
| "unwrap_all st (i # is) =
     rbind (get_ds_from_id st i) (\<lambda>dep.
     rbind (unwrap dep) (\<lambda>ids.
     rbind (unwrap_all st is) (\<lambda>rest. Inr (set ids \<union> rest))))"

text \<open>
  The iteration order of an unordered set is unspecified; it only decides which of several
  failing lookups is reported.
\<close>

definition cummulative_deps :: "ds_store \<Rightarrow> ds_id set \<Rightarrow> ds_id set result" where
  "cummulative_deps st deps = unwrap_all st (sorted_list_of_set deps)"

fun level_relationships :: "ds_id set \<Rightarrow> ds list list \<Rightarrow> ds_relationships \<Rightarrow> ds_relationships" where
  "level_relationships cum [] rel = rel"
| "level_relationships cum (lvl # lvls) rel =
     level_relationships (cum \<union> ds_id_of ` set lvl) lvls
       \<lparr>primitive_data_structures = fold List.insert lvl (primitive_data_structures rel),
        happens_before = happens_before rel \<union> cum \<times> ds_id_of ` set lvl\<rparr>"

definition request_relationships ::
  "ds_store \<Rightarrow> ds \<times> ds_id set \<Rightarrow> ds_relationships \<Rightarrow> ds_relationships result" where
  "request_relationships st request rel =
     rbind (cummulative_deps st (snd request)) (\<lambda>cum.
       if ds_primitive (fst request)
       then Inr \<lparr>primitive_data_structures =
                   List.insert (fst request) (primitive_data_structures rel),
                 happens_before = happens_before rel \<union> cum \<times> {ds_id_of (fst request)}\<rparr>
       else rbind (get_internal_primitive (fst request)) (\<lambda>lvls.
              Inr (level_relationships cum lvls rel)))"

fun requests_relationships ::
  "ds_store \<Rightarrow> (ds \<times> ds_id set) list \<Rightarrow> ds_relationships \<Rightarrow> ds_relationships result" where
  "requests_relationships st [] rel = Inr rel"
| "requests_relationships st (request # requests) rel =
     rbind (request_relationships st request rel) (requests_relationships st requests)"

definition get_ds_relationships :: "pipeline \<Rightarrow> ds \<Rightarrow> ds_id set \<Rightarrow> ds_relationships result" where
  "get_ds_relationships P target deps =
     rbind (rmap (\<lambda>request. rbind (get_ds_from_id (pl_store P) (req_ds request)) (\<lambda>d.
              Inr (d, req_deps request))) (pl_requests P)) (\<lambda>requests.
       requests_relationships (pl_store P)
         (if already_requested P (ds_id_of target) then requests else requests @ [(target, deps)])
         \<lparr>primitive_data_structures = [], happens_before = {}\<rparr>)"

section \<open>Unknowns and bounds\<close>

text \<open>
  The unknowns: whether a structure is placed in a stage, how many of its entries are, its
  first and last stage, and the indicators of those two.
\<close>

record valuation =
  p_s_t :: "int \<Rightarrow> ds_id \<Rightarrow> int"
  e_s_t :: "int \<Rightarrow> ds_id \<Rightarrow> int"
  f_t :: "ds_id \<Rightarrow> int"
  l_t :: "ds_id \<Rightarrow> int"
  f_s_t_aux :: "int \<Rightarrow> ds_id \<Rightarrow> int"
  l_s_t_aux :: "int \<Rightarrow> ds_id \<Rightarrow> int"

definition over_stages :: "int \<Rightarrow> (int \<Rightarrow> int) \<Rightarrow> int" where
  "over_stages n f = sum_list (map f [0..n - 1])"

definition variable_bounds :: "int \<Rightarrow> ds_id list \<Rightarrow> valuation \<Rightarrow> bool" where
  "variable_bounds n ids v \<longleftrightarrow>
     (\<forall>s \<in> set [0..n - 1]. \<forall>i \<in> set ids.
        p_s_t v s i \<ge> 0 \<and> p_s_t v s i \<le> 1 \<and> e_s_t v s i \<ge> 0) \<and>
     (\<forall>i \<in> set ids. f_t v i \<ge> 0 \<and> l_t v i \<le> n - 1 \<and> l_t v i \<ge> 0 \<and> l_t v i \<le> n - 1 \<and>
        f_t v i \<le> l_t v i) \<and>
     (\<forall>i \<in> set ids. \<forall>s \<in> set [0..n - 1].
        f_s_t_aux v s i \<ge> 0 \<and> f_s_t_aux v s i \<le> p_s_t v s i \<and>
        l_s_t_aux v s i \<ge> 0 \<and> l_s_t_aux v s i \<le> p_s_t v s i)"

section \<open>Assignment constraints\<close>

record demand =
  dem_id :: ds_id
  dem_capacity :: int
  dem_spans :: bool

fun ds_demand :: "ds \<Rightarrow> demand result" where
  "ds_demand (TableDS t) = Inr \<lparr>dem_id = tbl_id t, dem_capacity = uint (tbl_capacity t), dem_spans = True\<rparr>"
| "ds_demand (RegisterDS r) =
     Inr \<lparr>dem_id = reg_id r, dem_capacity = uint (reg_capacity r), dem_spans = False\<rparr>"
| "ds_demand (MeterDS m) =
     Inr \<lparr>dem_id = mtr_id m, dem_capacity = uint (mtr_capacity m), dem_spans = False\<rparr>"
| "ds_demand (HashDS h) = Inr \<lparr>dem_id = hash_id h, dem_capacity = 1, dem_spans = False\<rparr>"
| "ds_demand (DigestDS d) = Inr \<lparr>dem_id = dig_id d, dem_capacity = 1, dem_spans = False\<rparr>"
| "ds_demand (LPMDS l) =
     Inr \<lparr>dem_id = lpm_id l, dem_capacity = uint (lpm_capacity l), dem_spans = False\<rparr>"
| "ds_demand d = Inl Panicked"

definition assignment_constraints :: "int \<Rightarrow> demand list \<Rightarrow> valuation \<Rightarrow> bool" where
  "assignment_constraints n demands v \<longleftrightarrow>
     (\<forall>d \<in> set demands.
        over_stages n (\<lambda>s. e_s_t v s (dem_id d)) = dem_capacity d \<and>
        (\<forall>s \<in> set [0..n - 1].
           e_s_t v s (dem_id d) \<le> dem_capacity d * p_s_t v s (dem_id d) \<and>
           e_s_t v s (dem_id d) \<ge> p_s_t v s (dem_id d)) \<and>
        (\<not> dem_spans d \<longrightarrow> over_stages n (\<lambda>s. p_s_t v s (dem_id d)) \<le> 1))"

section \<open>Capacity constraints\<close>

record usage =
  use_id :: ds_id
  sram_per_entry :: int
  tcam_per_entry :: int
  map_ram_per_entry :: int
  xbar_used :: int
  logical_ids_used :: int

text \<open>The integer division by the capacity, and its rounding up to a byte.\<close>

definition per_entry :: "bits_t \<Rightarrow> u32 \<Rightarrow> int result" where
  "per_entry amount capacity =
     (if capacity = 0 then Inl Undefined else Inr (uint (align_to_byte (amount div capacity))))"

fun ds_usage :: "ds \<Rightarrow> usage result" where
  "ds_usage (TableDS t) =
     rbind (per_entry (table_consumed_sram t) (tbl_capacity t)) (\<lambda>c.
       Inr \<lparr>use_id = tbl_id t, sram_per_entry = c, tcam_per_entry = 0, map_ram_per_entry = c,
            xbar_used = uint (align_to_byte (table_match_xbar_consume t)), logical_ids_used = 1\<rparr>)"
| "ds_usage (RegisterDS r) =
     rbind (per_entry (register_consumed_sram r) (reg_capacity r)) (\<lambda>c.
       Inr \<lparr>use_id = reg_id r, sram_per_entry = c, tcam_per_entry = 0, map_ram_per_entry = c,
            xbar_used = uint (align_to_byte (reg_index_size r)),
            logical_ids_used = uint (register_num_logical_ids r)\<rparr>)"
| "ds_usage (MeterDS m) =
     rbind (per_entry (meter_consumed_sram m) (mtr_capacity m)) (\<lambda>c.
       Inr \<lparr>use_id = mtr_id m, sram_per_entry = c, tcam_per_entry = 0, map_ram_per_entry = c,
            xbar_used = uint (align_to_byte (meter_match_xbar_consume m)), logical_ids_used = 1\<rparr>)"
| "ds_usage (HashDS h) =
     Inr \<lparr>use_id = hash_id h, sram_per_entry = 0, tcam_per_entry = 0, map_ram_per_entry = 0,
          xbar_used = uint (align_to_byte (hash_match_xbar_consume h)), logical_ids_used = 1\<rparr>"
| "ds_usage (DigestDS d) =
     Inr \<lparr>use_id = dig_id d, sram_per_entry = 0, tcam_per_entry = 0, map_ram_per_entry = 0,
          xbar_used = 0, logical_ids_used = 0\<rparr>"
| "ds_usage (LPMDS l) =
     rbind (per_entry (lpm_consumed_tcam l) (lpm_capacity l)) (\<lambda>c.
       Inr \<lparr>use_id = lpm_id l, sram_per_entry = 0, tcam_per_entry = c, map_ram_per_entry = 0,
            xbar_used = uint (align_to_byte (lpm_match_xbar_consume l)), logical_ids_used = 1\<rparr>)"
| "ds_usage d = Inl Panicked"

text \<open>What a stage has to provide: per entry for the memories, once per stage for the rest.\<close>

definition entries_cost :: "(usage \<Rightarrow> int) \<Rightarrow> usage list \<Rightarrow> valuation \<Rightarrow> int \<Rightarrow> int" where
  "entries_cost c us v s = sum_list (map (\<lambda>u. e_s_t v s (use_id u) * c u) us)"

definition presence_cost :: "(usage \<Rightarrow> int) \<Rightarrow> usage list \<Rightarrow> valuation \<Rightarrow> int \<Rightarrow> int" where
  "presence_cost c us v s = sum_list (map (\<lambda>u. p_s_t v s (use_id u) * c u) us)"

definition digests_used :: "ds list \<Rightarrow> int" where
  "digests_used prims = int (length (filter (\<lambda>d. ds_type_of d = Digest) prims))"

definition capacity_constraints :: "tna_properties \<Rightarrow> usage list \<Rightarrow> ds list \<Rightarrow> valuation \<Rightarrow> bool" where
  "capacity_constraints props us prims v \<longleftrightarrow>
     (\<forall>s \<in> set [0..stages props - 1].
        entries_cost sram_per_entry us v s \<le> sint (sram_per_stage props) \<and>
        entries_cost tcam_per_entry us v s \<le> sint (tcam_per_stage props) \<and>
        entries_cost map_ram_per_entry us v s \<le> sint (map_ram_per_stage props) \<and>
        presence_cost xbar_used us v s \<le> sint (exact_match_xbar_per_stage props) \<and>
        presence_cost logical_ids_used us v s \<le> max_logical_sram_and_tcam_tables_per_stage props) \<and>
     digests_used prims \<le> uint (max_digests props)"

section \<open>Order and extent\<close>

definition happens_before_constraints :: "(ds_id \<times> ds_id) set \<Rightarrow> valuation \<Rightarrow> bool" where
  "happens_before_constraints hb v \<longleftrightarrow> (\<forall>(ti, tj) \<in> hb. l_t v ti \<le> f_t v tj)"

definition aux_constraints :: "int \<Rightarrow> ds_id list \<Rightarrow> valuation \<Rightarrow> bool" where
  "aux_constraints n ids v \<longleftrightarrow>
     (\<forall>i \<in> set ids.
        over_stages n (\<lambda>s. f_s_t_aux v s i) = 1 \<and>
        over_stages n (\<lambda>s. s * f_s_t_aux v s i) = f_t v i \<and>
        over_stages n (\<lambda>s. l_s_t_aux v s i) = 1 \<and>
        over_stages n (\<lambda>s. s * l_s_t_aux v s i) = l_t v i)"

definition extent_constraints :: "int \<Rightarrow> ds_id list \<Rightarrow> valuation \<Rightarrow> bool" where
  "extent_constraints n ids v \<longleftrightarrow>
     (\<forall>i \<in> set ids. \<forall>s \<in> set [0..n - 1].
        p_s_t v s i \<le> over_stages n (\<lambda>ss. if ss \<le> s then f_s_t_aux v ss i else 0) \<and>
        p_s_t v s i \<le> over_stages n (\<lambda>ss. if ss \<ge> s then l_s_t_aux v ss i else 0))"

definition last_stage_sum :: "ds_id list \<Rightarrow> valuation \<Rightarrow> int" where
  "last_stage_sum ids v = sum_list (map (l_t v) ids)"

section \<open>Solving\<close>

definition all_constraints ::
  "tna_properties \<Rightarrow> ds_relationships \<Rightarrow> demand list \<Rightarrow> usage list \<Rightarrow> valuation \<Rightarrow> bool" where
  "all_constraints props rel demands us v \<longleftrightarrow>
     (let n = stages props; prims = primitive_data_structures rel; ids = map ds_id_of prims in
      variable_bounds n ids v \<and> assignment_constraints n demands v \<and>
      capacity_constraints props us prims v \<and>
      happens_before_constraints (happens_before rel) v \<and>
      aux_constraints n ids v \<and> extent_constraints n ids v)"

datatype solver_answer = Sat_Model valuation | Answer_Unsat | Answer_Unknown

type_synonym optimizer = "(valuation \<Rightarrow> bool) \<Rightarrow> (valuation \<Rightarrow> int) \<Rightarrow> solver_answer"

definition read_stage :: "usage list \<Rightarrow> ds list \<Rightarrow> valuation \<Rightarrow> stage \<Rightarrow> stage" where
  "read_stage us prims v st =
     (let s = stage_id st in
      st\<lparr>available_sram := available_sram st - of_int (entries_cost sram_per_entry us v s),
         available_tcam := available_tcam st - of_int (entries_cost tcam_per_entry us v s),
         available_map_ram := available_map_ram st - of_int (entries_cost map_ram_per_entry us v s),
         available_exact_match_xbar :=
           available_exact_match_xbar st - of_int (presence_cost xbar_used us v s),
         available_logical_ids :=
           available_logical_ids st - presence_cost logical_ids_used us v s,
         stage_ds := stage_ds st \<union>
           ds_id_of ` set (filter (\<lambda>d. p_s_t v s (ds_id_of d) \<noteq> 0) prims)\<rparr>)"

definition read_model ::
  "tna_properties \<Rightarrow> usage list \<Rightarrow> ds list \<Rightarrow> valuation \<Rightarrow> pipeline_resources" where
  "read_model props us prims v =
     \<lparr>res_stages = map (read_stage us prims v) (res_stages (new_pipeline_resources props)),
      used_digests = of_int (digests_used prims)\<rparr>"

text \<open>
  The per-entry costs are computed inside the loop over the stages. A dependency that is
  not among the structures to place makes \<^verbatim>\<open>l_t.at\<close> throw.
\<close>

definition solver_find_placements ::
  "optimizer \<Rightarrow> pipeline \<Rightarrow> ds \<Rightarrow> ds_id set \<Rightarrow> placement_result result" where
  "solver_find_placements solver P target deps =
     rbind (get_ds_relationships P target deps) (\<lambda>rel.
       let props = pl_properties P; prims = primitive_data_structures rel;
           ids = map ds_id_of prims in
       rbind (rmap ds_demand prims) (\<lambda>demands.
       rbind (rmap ds_usage (if 0 < stages props then prims else [])) (\<lambda>us.
         if \<not> (\<forall>(ti, tj) \<in> happens_before rel. ti \<in> set ids \<and> tj \<in> set ids)
         then Inl Out_Of_Range
         else case solver (all_constraints props rel demands us) (last_stage_sum ids) of
                Answer_Unsat \<Rightarrow> result_of_status Unsat
              | Answer_Unknown \<Rightarrow> result_of_status Unknown
              | Sat_Model v \<Rightarrow> Inr (result_of_resources (read_model props us prims v)))))"

end
