(* ===== verification/SolverPlacerCorrect.thy ===== *)
theory SolverPlacerCorrect
  imports SolverPlacer Tofino2Config
begin

text \<open>
  What a model of the constraint system means for the pipeline: the memories of no stage
  are exceeded, the first and last stage are those the structure really occupies, ordered
  structures do not overlap, and only tables are spread over several stages. The optimiser
  is assumed to do what its documentation says: a model satisfies the constraints and
  minimises the objective, and unsat means that there is no model.
\<close>

section \<open>The optimiser\<close>

definition sound_optimizer :: "optimizer \<Rightarrow> bool" where
  "sound_optimizer solver \<longleftrightarrow>
     (\<forall>C obj.
        (\<forall>v. solver C obj = Sat_Model v \<longrightarrow> C v) \<and>
        (solver C obj = Answer_Unsat \<longrightarrow> (\<forall>w. \<not> C w)))"

definition minimizing_optimizer :: "optimizer \<Rightarrow> bool" where
  "minimizing_optimizer solver \<longleftrightarrow>
     (\<forall>C obj v w. solver C obj = Sat_Model v \<longrightarrow> C w \<longrightarrow> obj v \<le> obj w)"

lemma solver_success:
  assumes "sound_optimizer solver" "solver_find_placements solver P d deps = Inr res"
    "resources res = Some r"
  obtains rel demands us v where
    "get_ds_relationships P d deps = Inr rel"
    "rmap ds_demand (primitive_data_structures rel) = Inr demands"
    "rmap ds_usage (if 0 < stages (pl_properties P) then primitive_data_structures rel else [])
       = Inr us"
    "\<forall>(ti, tj) \<in> happens_before rel.
       ti \<in> ds_id_of ` set (primitive_data_structures rel) \<and>
       tj \<in> ds_id_of ` set (primitive_data_structures rel)"
    "all_constraints (pl_properties P) rel demands us v"
    "solver (all_constraints (pl_properties P) rel demands us)
       (last_stage_sum (map ds_id_of (primitive_data_structures rel))) = Sat_Model v"
    "r = read_model (pl_properties P) us (primitive_data_structures rel) v"
proof -
  let ?prims = primitive_data_structures and ?props = "pl_properties P"
  from assms(2) obtain rel demands us where
    rel: "get_ds_relationships P d deps = Inr rel"
    and demands: "rmap ds_demand (?prims rel) = Inr demands"
    and us: "rmap ds_usage (if 0 < stages ?props then ?prims rel else []) = Inr us"
    and rest: "(if \<not> (\<forall>(ti, tj) \<in> happens_before rel.
           ti \<in> set (map ds_id_of (?prims rel)) \<and> tj \<in> set (map ds_id_of (?prims rel)))
       then Inl Out_Of_Range
       else case solver (all_constraints ?props rel demands us)
                   (last_stage_sum (map ds_id_of (?prims rel))) of
              Answer_Unsat \<Rightarrow> result_of_status Unsat
            | Answer_Unknown \<Rightarrow> result_of_status Unknown
            | Sat_Model v \<Rightarrow> Inr (result_of_resources (read_model ?props us (?prims rel) v)))
       = Inr res"
    unfolding solver_find_placements_def Let_def rbind_eq_Inr by blast
  from rest assms(3) obtain v where hb: "\<forall>(ti, tj) \<in> happens_before rel.
       ti \<in> ds_id_of ` set (?prims rel) \<and> tj \<in> ds_id_of ` set (?prims rel)"
    and sat: "solver (all_constraints ?props rel demands us)
      (last_stage_sum (map ds_id_of (?prims rel))) = Sat_Model v"
    and r: "r = read_model ?props us (?prims rel) v"
    by (auto simp: result_of_status_def result_of_resources_def
        split: if_split_asm solver_answer.splits)
  from assms(1) sat have "all_constraints ?props rel demands us v"
    unfolding sound_optimizer_def by blast
  with rel demands us hb sat r show thesis by (intro that)
qed

section \<open>Sums over the stages\<close>

lemma over_stages_sum: "over_stages n f = (\<Sum>s \<in> {0..<n}. f s)"
proof -
  have "set [0..n - 1] = {0..<n}" by auto
  then show ?thesis by (simp only: over_stages_def interv_sum_list_conv_sum_set_int)
qed

lemma stages_upto [simp]: "set [0..n - 1] = {0..<n}" for n :: int
  by auto

lemma indicator_sum:
  fixes a :: "int \<Rightarrow> int"
  assumes "\<forall>s \<in> {0..<n}. 0 \<le> a s \<and> a s \<le> 1" "over_stages n a = 1"
  obtains k where "0 \<le> k" "k < n" "a k = 1" "\<forall>s \<in> {0..<n}. s \<noteq> k \<longrightarrow> a s = 0"
proof -
  from assms(2) have sum: "sum a {0..<n} = 1" by (simp add: over_stages_sum)
  then obtain k where k: "k \<in> {0..<n}" "a k \<noteq> 0"
    by (metis (no_types, lifting) sum.neutral zero_neq_one)
  then have one: "a k = 1" using assms(1) by force
  with sum k have "sum a ({0..<n} - {k}) = 0" by (simp add: sum_diff1)
  then have "\<forall>s \<in> {0..<n} - {k}. a s = 0"
    using assms(1) by (subst (asm) sum_nonneg_eq_0_iff) auto
  with k one show thesis by (intro that [of k]) auto
qed

lemma indicator_select:
  fixes a :: "int \<Rightarrow> int"
  assumes "0 \<le> k" "k < n" "a k = 1" "\<forall>s \<in> {0..<n}. s \<noteq> k \<longrightarrow> a s = 0"
  shows "over_stages n (\<lambda>s. g s * a s) = g k"
    and "over_stages n (\<lambda>s. if Q s then a s else 0) = (if Q k then 1 else 0)"
proof -
  have "(\<Sum>s \<in> {0..<n}. g s * a s) = (\<Sum>s \<in> {0..<n}. if s = k then g k else 0)"
    by (rule sum.cong) (use assms in auto)
  then show "over_stages n (\<lambda>s. g s * a s) = g k"
    using assms(1,2) by (simp add: over_stages_sum)
  have "(\<Sum>s \<in> {0..<n}. if Q s then a s else 0) =
      (\<Sum>s \<in> {0..<n}. if s = k then if Q k then 1 else 0 else 0)"
    by (rule sum.cong) (use assms in auto)
  then show "over_stages n (\<lambda>s. if Q s then a s else 0) = (if Q k then 1 else 0)"
    using assms(1,2) by (simp add: over_stages_sum)
qed

section \<open>First and last stages\<close>

definition occupied :: "int \<Rightarrow> valuation \<Rightarrow> ds_id \<Rightarrow> int set" where
  "occupied n v i = {s \<in> {0..<n}. p_s_t v s i \<noteq> 0}"

lemma finite_occupied: "finite (occupied n v i)"
  by (rule finite_subset [of _ "{0..<n}"]) (auto simp: occupied_def)

lemma extent_of_model:
  assumes "variable_bounds n ids v" "aux_constraints n ids v" "extent_constraints n ids v"
    and i: "i \<in> set ids"
  shows "f_t v i \<in> occupied n v i \<and> l_t v i \<in> occupied n v i \<and>
    (\<forall>s \<in> occupied n v i. f_t v i \<le> s \<and> s \<le> l_t v i)"
proof -
  from assms(1) i have p: "\<forall>s \<in> {0..<n}. 0 \<le> p_s_t v s i \<and> p_s_t v s i \<le> 1 \<and>
      0 \<le> f_s_t_aux v s i \<and> f_s_t_aux v s i \<le> p_s_t v s i \<and>
      0 \<le> l_s_t_aux v s i \<and> l_s_t_aux v s i \<le> p_s_t v s i"
    by (auto simp: variable_bounds_def)
  from assms(2) i have sums: "over_stages n (\<lambda>s. f_s_t_aux v s i) = 1"
    "over_stages n (\<lambda>s. s * f_s_t_aux v s i) = f_t v i"
    "over_stages n (\<lambda>s. l_s_t_aux v s i) = 1"
    "over_stages n (\<lambda>s. s * l_s_t_aux v s i) = l_t v i"
    by (simp_all add: aux_constraints_def)
  have "\<forall>s \<in> {0..<n}. 0 \<le> f_s_t_aux v s i \<and> f_s_t_aux v s i \<le> 1" using p by fastforce
  from indicator_sum [OF this sums(1)]
  obtain j where j: "0 \<le> j" "j < n" "f_s_t_aux v j i = 1"
    "\<forall>s \<in> {0..<n}. s \<noteq> j \<longrightarrow> f_s_t_aux v s i = 0" by blast
  have "\<forall>s \<in> {0..<n}. 0 \<le> l_s_t_aux v s i \<and> l_s_t_aux v s i \<le> 1" using p by fastforce
  from indicator_sum [OF this sums(3)]
  obtain k where k: "0 \<le> k" "k < n" "l_s_t_aux v k i = 1"
    "\<forall>s \<in> {0..<n}. s \<noteq> k \<longrightarrow> l_s_t_aux v s i = 0" by blast
  from indicator_select(1) [of j n "\<lambda>s. f_s_t_aux v s i" "\<lambda>s. s"] j sums(2)
  have f: "f_t v i = j" by simp
  from indicator_select(1) [of k n "\<lambda>s. l_s_t_aux v s i" "\<lambda>s. s"] k sums(4)
  have l: "l_t v i = k" by simp
  have "j \<le> s \<and> s \<le> k" if s: "s \<in> occupied n v i" for s
  proof -
    from s have sn: "s \<in> {0..<n}" "p_s_t v s i \<noteq> 0" by (simp_all add: occupied_def)
    with p have "p_s_t v s i = 1" by fastforce
    with assms(3) i sn(1) have
      "1 \<le> over_stages n (\<lambda>ss. if ss \<le> s then f_s_t_aux v ss i else 0)"
      "1 \<le> over_stages n (\<lambda>ss. if ss \<ge> s then l_s_t_aux v ss i else 0)"
      unfolding extent_constraints_def stages_upto by metis+
    with indicator_select(2) [of j n "\<lambda>s. f_s_t_aux v s i" "\<lambda>ss. ss \<le> s"] j
      indicator_select(2) [of k n "\<lambda>s. l_s_t_aux v s i" "\<lambda>ss. ss \<ge> s"] k
    show ?thesis by (auto split: if_splits)
  qed
  moreover have "1 \<le> p_s_t v j i" using p [rule_format, of j] j by simp
  moreover have "1 \<le> p_s_t v k i" using p [rule_format, of k] k by simp
  ultimately have "j \<in> occupied n v i" "k \<in> occupied n v i"
      "\<forall>s \<in> occupied n v i. j \<le> s \<and> s \<le> k"
    using j k by (simp_all add: occupied_def)
  then show ?thesis using f l by blast
qed

lemma stage_ds_read_stage:
  "i \<in> stage_ds (read_stage us prims v s) \<longleftrightarrow>
     i \<in> stage_ds s \<or> i \<in> ds_id_of ` set prims \<and> p_s_t v (stage_id s) i \<noteq> 0"
  by (auto simp: read_stage_def Let_def)

lemma stage_id_read_stage [simp]: "stage_id (read_stage us prims v s) = stage_id s"
  by (simp add: read_stage_def Let_def)

lemma new_stages:
  shows "s \<in> set (res_stages (new_pipeline_resources props)) \<Longrightarrow> stage_ds s = {}"
    and "stage_id ` set (res_stages (new_pipeline_resources props)) = {0..<stages props}"
proof -
  show "s \<in> set (res_stages (new_pipeline_resources props)) \<Longrightarrow> stage_ds s = {}"
    by (auto simp: new_pipeline_resources_def)
  have "int ` {0..<nat (stages props)} = {0..<stages props}"
    by (auto simp: image_iff intro!: bexI [of _ "nat _"])
  then show "stage_id ` set (res_stages (new_pipeline_resources props)) = {0..<stages props}"
    by (simp add: new_pipeline_resources_def image_image)
qed

lemma placed_in_read_model:
  "placed_in (res_stages (read_model props us prims v)) i =
     (if i \<in> ds_id_of ` set prims then occupied (stages props) v i else {})"
proof -
  let ?ss = "res_stages (new_pipeline_resources props)"
  have "placed_in (res_stages (read_model props us prims v)) i =
      stage_id ` {s \<in> set ?ss. i \<in> stage_ds (read_stage us prims v s)}"
    unfolding read_model_def by (simp add: placed_in_map)
  also have "{s \<in> set ?ss. i \<in> stage_ds (read_stage us prims v s)} =
      {s \<in> set ?ss. i \<in> ds_id_of ` set prims \<and> p_s_t v (stage_id s) i \<noteq> 0}"
    using new_stages(1) by (auto simp: stage_ds_read_stage)
  also have "stage_id ` \<dots> = (if i \<in> ds_id_of ` set prims
      then {s \<in> stage_id ` set ?ss. p_s_t v s i \<noteq> 0} else {})" by auto
  finally show ?thesis by (simp add: new_stages(2) occupied_def)
qed

section \<open>Resources\<close>

lemma ds_usage_fields:
  assumes "ds_usage d = Inr u"
  shows "use_id u = ds_id_of d \<and> 0 \<le> sram_per_entry u \<and> 0 \<le> tcam_per_entry u \<and>
    0 \<le> map_ram_per_entry u \<and> 0 \<le> xbar_used u \<and> 0 \<le> logical_ids_used u"
  using assms by (cases d) (auto simp: per_entry_def split: if_splits)

lemma ds_demand_fields:
  assumes "ds_demand d = Inr m"
  shows "dem_id m = ds_id_of d \<and> (dem_spans m \<longleftrightarrow> ds_type_of d = Table)"
  using assms by (cases d) auto

lemma rmap_usage:
  assumes "rmap ds_usage xs = Inr us"
  shows "map use_id us = map ds_id_of xs"
    and "\<forall>u \<in> set us. use_id u \<in> ds_id_of ` set xs \<and> 0 \<le> sram_per_entry u \<and>
      0 \<le> tcam_per_entry u \<and> 0 \<le> map_ram_per_entry u \<and> 0 \<le> xbar_used u \<and>
      0 \<le> logical_ids_used u"
proof -
  from assms have all: "list_all2 (\<lambda>x u. ds_usage x = Inr u) xs us" by (simp add: rmap_eq_Inr)
  then show "map use_id us = map ds_id_of xs"
    by (induction rule: list_all2_induct) (auto dest: ds_usage_fields)
  from all show "\<forall>u \<in> set us. use_id u \<in> ds_id_of ` set xs \<and> 0 \<le> sram_per_entry u \<and>
      0 \<le> tcam_per_entry u \<and> 0 \<le> map_ram_per_entry u \<and> 0 \<le> xbar_used u \<and>
      0 \<le> logical_ids_used u"
    by (induction rule: list_all2_induct) (auto dest: ds_usage_fields)
qed

lemma rmap_demand:
  assumes "rmap ds_demand xs = Inr ms"
  shows "map dem_id ms = map ds_id_of xs"
    and "x \<in> set xs \<Longrightarrow> \<exists>m \<in> set ms. dem_id m = ds_id_of x \<and> (dem_spans m \<longleftrightarrow> ds_type_of x = Table)"
proof -
  from assms have all: "list_all2 (\<lambda>x m. ds_demand x = Inr m) xs ms" by (simp add: rmap_eq_Inr)
  then show "map dem_id ms = map ds_id_of xs"
    by (induction rule: list_all2_induct) (auto dest: ds_demand_fields)
  from all show "x \<in> set xs \<Longrightarrow>
      \<exists>m \<in> set ms. dem_id m = ds_id_of x \<and> (dem_spans m \<longleftrightarrow> ds_type_of x = Table)"
    by (induction rule: list_all2_induct) (auto dest: ds_demand_fields)
qed

lemma word_charge:
  fixes x :: bits_t
  assumes "0 \<le> c" "c \<le> sint x"
  shows "x - of_int c \<le> x" and "uint (x - of_int c) = uint x - c"
proof -
  have "take_bit 32 (uint x) = uint x" using uint_lt2p [of x] by (simp add: take_bit_int_eq_self)
  then have sx: "sint x \<le> uint x" by (simp add: sint_uint signed_take_bit_eq_take_bit_minus)
  have "uint x < 2 ^ 32" using uint_lt2p [of x] by simp
  with assms sx have "uint (of_int c :: bits_t) = c"
    by (simp add: uint_word_of_int_eq take_bit_int_eq_self)
  moreover from this have "(of_int c :: bits_t) \<le> x" using assms sx by (simp add: word_le_def)
  ultimately show "x - of_int c \<le> x" "uint (x - of_int c) = uint x - c"
    by (simp_all add: word_sub_le uint_minus_simple_alt [THEN iffD1])
qed

lemma cost_nonneg:
  assumes "variable_bounds n ids v" "\<forall>u \<in> set us. use_id u \<in> set ids \<and> 0 \<le> c u" "s \<in> {0..<n}"
  shows "0 \<le> entries_cost c us v s" "0 \<le> presence_cost c us v s"
proof -
  have "0 \<le> e_s_t v s (use_id u) \<and> 0 \<le> p_s_t v s (use_id u)" if "u \<in> set us" for u
    using assms that by (auto simp: variable_bounds_def)
  with assms(2) show "0 \<le> entries_cost c us v s" "0 \<le> presence_cost c us v s"
    unfolding entries_cost_def presence_cost_def by (auto intro!: sum_list_nonneg)
qed

lemma stage_costs:
  assumes all: "all_constraints props rel demands us v"
    and us: "rmap ds_usage (if 0 < stages props then primitive_data_structures rel else []) = Inr us"
    and st: "st \<in> set (res_stages (new_pipeline_resources props))"
  shows "0 \<le> entries_cost sram_per_entry us v (stage_id st) \<and>
      entries_cost sram_per_entry us v (stage_id st) \<le> sint (available_sram st)"
    and "0 \<le> entries_cost tcam_per_entry us v (stage_id st) \<and>
      entries_cost tcam_per_entry us v (stage_id st) \<le> sint (available_tcam st)"
    and "0 \<le> entries_cost map_ram_per_entry us v (stage_id st) \<and>
      entries_cost map_ram_per_entry us v (stage_id st) \<le> sint (available_map_ram st)"
    and "0 \<le> presence_cost xbar_used us v (stage_id st) \<and>
      presence_cost xbar_used us v (stage_id st) \<le> sint (available_exact_match_xbar st)"
    and "0 \<le> presence_cost logical_ids_used us v (stage_id st) \<and>
      presence_cost logical_ids_used us v (stage_id st) \<le> available_logical_ids st"
proof -
  let ?prims = "primitive_data_structures rel" and ?n = "stages props" and ?s = "stage_id st"
  let ?ids = "map ds_id_of ?prims"
  from all have bounds: "variable_bounds ?n ?ids v" and cap: "capacity_constraints props us ?prims v"
    by (auto simp: all_constraints_def Let_def)
  have us_ok: "\<forall>u \<in> set us. use_id u \<in> set ?ids \<and> 0 \<le> sram_per_entry u \<and>
      0 \<le> tcam_per_entry u \<and> 0 \<le> map_ram_per_entry u \<and> 0 \<le> xbar_used u \<and>
      0 \<le> logical_ids_used u"
    using rmap_usage(2) [OF us] by (auto split: if_splits)
  have s: "?s \<in> {0..<?n}" using st new_stages(2) [of props] by blast
  from us_ok cost_nonneg [OF bounds _ s]
  have nonneg: "0 \<le> entries_cost sram_per_entry us v ?s" "0 \<le> entries_cost tcam_per_entry us v ?s"
    "0 \<le> entries_cost map_ram_per_entry us v ?s" "0 \<le> presence_cost xbar_used us v ?s"
    "0 \<le> presence_cost logical_ids_used us v ?s" by blast+
  from st have full: "available_sram st = sram_per_stage props"
    "available_tcam st = tcam_per_stage props" "available_map_ram st = map_ram_per_stage props"
    "available_exact_match_xbar st = exact_match_xbar_per_stage props"
    "available_logical_ids st = max_logical_sram_and_tcam_tables_per_stage props"
    by (auto simp: new_pipeline_resources_def)
  from cap s have "entries_cost sram_per_entry us v ?s \<le> sint (sram_per_stage props)"
    "entries_cost tcam_per_entry us v ?s \<le> sint (tcam_per_stage props)"
    "entries_cost map_ram_per_entry us v ?s \<le> sint (map_ram_per_stage props)"
    "presence_cost xbar_used us v ?s \<le> sint (exact_match_xbar_per_stage props)"
    "presence_cost logical_ids_used us v ?s \<le> max_logical_sram_and_tcam_tables_per_stage props"
    by (auto simp: capacity_constraints_def)
  with nonneg full show
    "0 \<le> entries_cost sram_per_entry us v ?s \<and>
      entries_cost sram_per_entry us v ?s \<le> sint (available_sram st)"
    "0 \<le> entries_cost tcam_per_entry us v ?s \<and>
      entries_cost tcam_per_entry us v ?s \<le> sint (available_tcam st)"
    "0 \<le> entries_cost map_ram_per_entry us v ?s \<and>
      entries_cost map_ram_per_entry us v ?s \<le> sint (available_map_ram st)"
    "0 \<le> presence_cost xbar_used us v ?s \<and>
      presence_cost xbar_used us v ?s \<le> sint (available_exact_match_xbar st)"
    "0 \<le> presence_cost logical_ids_used us v ?s \<and>
      presence_cost logical_ids_used us v ?s \<le> available_logical_ids st" by simp_all
qed

lemma new_stage_within:
  "0 \<le> max_logical_sram_and_tcam_tables_per_stage props \<Longrightarrow>
   st \<in> set (res_stages (new_pipeline_resources props)) \<Longrightarrow> stage_within props st"
  using new_pipeline_resources_wf [of props] by (auto simp: resources_wf_def list_all_iff)

lemma read_model_wf:
  assumes all: "all_constraints props rel demands us v"
    and us: "rmap ds_usage (if 0 < stages props then primitive_data_structures rel else []) = Inr us"
  shows "resources_wf props (read_model props us (primitive_data_structures rel) v)"
proof -
  let ?prims = "primitive_data_structures rel" and ?n = "stages props"
  from all have cap: "capacity_constraints props us ?prims v" by (simp add: all_constraints_def Let_def)
  have within: "stage_within props (read_stage us ?prims v st)"
    if st: "st \<in> set (res_stages (new_pipeline_resources props))" for st
  proof -
    note costs = stage_costs [OF all us st]
    from st have "available_logical_ids st = max_logical_sram_and_tcam_tables_per_stage props"
      by (auto simp: new_pipeline_resources_def)
    with costs(5) have "stage_within props st" by (intro new_stage_within [OF _ st]) simp
    moreover from costs(1-4) have
      "available_sram (read_stage us ?prims v st) \<le> available_sram st"
      "available_tcam (read_stage us ?prims v st) \<le> available_tcam st"
      "available_map_ram (read_stage us ?prims v st) \<le> available_map_ram st"
      "available_exact_match_xbar (read_stage us ?prims v st) \<le> available_exact_match_xbar st"
      by (simp_all add: read_stage_def Let_def word_charge(1))
    moreover have "available_logical_ids (read_stage us ?prims v st) =
        available_logical_ids st - presence_cost logical_ids_used us v (stage_id st)"
      by (simp add: read_stage_def Let_def)
    ultimately show ?thesis using costs(5) by (auto simp: stage_within_def intro: order_trans)
  qed
  have "0 \<le> digests_used ?prims" "digests_used ?prims \<le> uint (max_digests props)"
    using cap by (simp_all add: digests_used_def capacity_constraints_def)
  moreover from this have "uint (of_int (digests_used ?prims) :: u8) = digests_used ?prims"
    using uint_lt2p [of "max_digests props"] by (simp add: uint_word_of_int_eq take_bit_int_eq_self)
  ultimately have "(of_int (digests_used ?prims) :: u8) \<le> max_digests props"
    by (simp add: word_le_def)
  moreover have "stages_numbered (res_stages (read_model props us ?prims v))"
    by (simp add: read_model_def new_pipeline_resources_def stages_numbered_def comp_def)
  moreover have "length (res_stages (read_model props us ?prims v)) = nat ?n"
    by (simp add: read_model_def new_pipeline_resources_def)
  ultimately show ?thesis
    using within by (auto simp: resources_wf_def read_model_def list_all_iff)
qed

lemma read_model_extent:
  assumes "all_constraints props rel demands us v"
    and "i \<in> ds_id_of ` set (primitive_data_structures rel)"
  shows "placed_in (res_stages (read_model props us (primitive_data_structures rel) v)) i
      = occupied (stages props) v i"
    and "f_t v i \<in> occupied (stages props) v i \<and> l_t v i \<in> occupied (stages props) v i \<and>
    (\<forall>s \<in> occupied (stages props) v i. f_t v i \<le> s \<and> s \<le> l_t v i)"
proof -
  show "placed_in (res_stages (read_model props us (primitive_data_structures rel) v)) i
      = occupied (stages props) v i" using assms(2) by (simp add: placed_in_read_model)
  show "f_t v i \<in> occupied (stages props) v i \<and> l_t v i \<in> occupied (stages props) v i \<and>
      (\<forall>s \<in> occupied (stages props) v i. f_t v i \<le> s \<and> s \<le> l_t v i)"
    by (rule extent_of_model [of _ "map ds_id_of (primitive_data_structures rel)"])
      (use assms in \<open>auto simp: all_constraints_def Let_def\<close>)
qed

lemma occupied_single:
  assumes "variable_bounds n ids v" "i \<in> set ids" "over_stages n (\<lambda>s. p_s_t v s i) \<le> 1"
  shows "card (occupied n v i) \<le> 1"
proof -
  have p: "0 \<le> p_s_t v s i" "p_s_t v s i \<le> 1" if "s \<in> {0..<n}" for s
    using assms(1,2) that by (auto simp: variable_bounds_def)
  have "int (card (occupied n v i)) = (\<Sum>s \<in> occupied n v i. 1)" by simp
  also have "\<dots> = (\<Sum>s \<in> {0..<n}. if p_s_t v s i \<noteq> 0 then 1 else 0)"
    unfolding occupied_def by (rule sum.mono_neutral_cong_left) auto
  also have "\<dots> = (\<Sum>s \<in> {0..<n}. p_s_t v s i)"
    by (rule sum.cong) (use p in \<open>force+\<close>)
  finally show ?thesis using assms(3) by (simp add: over_stages_sum)
qed

lemma entries_conserved:
  assumes "assignment_constraints n demands v" "map dem_id demands = map use_id us"
  shows "over_stages n (entries_cost c us v) =
    sum_list (map (\<lambda>(d, u). dem_capacity d * c u) (zip demands us))"
  using assms
proof (induction demands us rule: list_induct2')
  case (4 d ds u us)
  have "over_stages n (entries_cost c (u # us) v) =
      over_stages n (\<lambda>s. e_s_t v s (use_id u)) * c u + over_stages n (entries_cost c us v)"
    by (simp add: over_stages_sum entries_cost_def sum.distrib sum_distrib_right)
  with 4 show ?case by (simp add: assignment_constraints_def)
qed (auto simp: entries_cost_def over_stages_sum)

lemma sum_over_new_stages:
  "sum_list (map (\<lambda>st. g (stage_id st)) (res_stages (new_pipeline_resources props))) =
     over_stages (stages props) g"
proof -
  have ids: "map stage_id (res_stages (new_pipeline_resources props)) = map int [0..<nat (stages props)]"
    by (simp add: new_pipeline_resources_def comp_def)
  have "sum_list (map (\<lambda>st. g (stage_id st)) (res_stages (new_pipeline_resources props))) =
      sum_list (map g (map stage_id (res_stages (new_pipeline_resources props))))"
    by (simp add: comp_def)
  also have "\<dots> = (\<Sum>s \<in> set (map int [0..<nat (stages props)]). g s)"
    unfolding ids by (rule sum_list_distinct_conv_sum_set) (simp add: distinct_map)
  also have "set (map int [0..<nat (stages props)]) = {0..<stages props}"
    using new_stages(2) [of props] ids by (metis list.set_map)
  finally show ?thesis by (simp add: over_stages_sum)
qed

lemma read_model_charges:
  assumes all: "all_constraints props rel demands us v"
    and us: "rmap ds_usage (if 0 < stages props then primitive_data_structures rel else []) = Inr us"
  shows "sum_list (map (\<lambda>s. uint (sram_per_stage props) - uint (available_sram s))
      (res_stages (read_model props us (primitive_data_structures rel) v))) =
      over_stages (stages props) (entries_cost sram_per_entry us v)"
    and "sum_list (map (\<lambda>s. uint (tcam_per_stage props) - uint (available_tcam s))
      (res_stages (read_model props us (primitive_data_structures rel) v))) =
      over_stages (stages props) (entries_cost tcam_per_entry us v)"
proof -
  let ?prims = "primitive_data_structures rel" and ?ss = "res_stages (new_pipeline_resources props)"
  have full: "available_sram st = sram_per_stage props" "available_tcam st = tcam_per_stage props"
    if "st \<in> set ?ss" for st using that by (auto simp: new_pipeline_resources_def)
  have charged: "uint (sram_per_stage props) - uint (available_sram (read_stage us ?prims v st)) =
        entries_cost sram_per_entry us v (stage_id st)"
      "uint (tcam_per_stage props) - uint (available_tcam (read_stage us ?prims v st)) =
        entries_cost tcam_per_entry us v (stage_id st)" if st: "st \<in> set ?ss" for st
    using stage_costs(1,2) [OF all us st] full [OF st]
    by (simp_all add: read_stage_def Let_def word_charge(2))
  show "sum_list (map (\<lambda>s. uint (sram_per_stage props) - uint (available_sram s))
      (res_stages (read_model props us ?prims v))) =
      over_stages (stages props) (entries_cost sram_per_entry us v)"
    "sum_list (map (\<lambda>s. uint (tcam_per_stage props) - uint (available_tcam s))
      (res_stages (read_model props us ?prims v))) =
      over_stages (stages props) (entries_cost tcam_per_entry us v)"
    by (simp_all add: read_model_def comp_def charged cong: map_cong flip: sum_over_new_stages)
qed

section \<open>Dependencies\<close>

lemma unwrap_all_member:
  assumes "unwrap_all st is = Inr S" "i \<in> set is"
  shows "\<exists>dep ids. get_ds_from_id st i = Inr dep \<and> unwrap dep = Inr ids \<and> set ids \<subseteq> S"
  using assms
proof (induction "is" arbitrary: S)
  case (Cons j js)
  from Cons.prems(1) obtain dep ids rest where step: "get_ds_from_id st j = Inr dep"
    "unwrap dep = Inr ids" "unwrap_all st js = Inr rest" "S = set ids \<union> rest"
    by (auto simp: rbind_eq_Inr)
  show ?case
  proof (cases "i = j")
    case True
    with step show ?thesis by (intro exI [of _ dep] exI [of _ ids]) simp
  next
    case False
    with Cons.prems(2) have "i \<in> set js" by simp
    from Cons.IH [OF step(3) this] obtain dep' ids' where
      "get_ds_from_id st i = Inr dep'" "unwrap dep' = Inr ids'" "set ids' \<subseteq> rest" by blast
    with step(4) show ?thesis by (intro exI [of _ dep'] exI [of _ ids']) (simp add: le_supI2)
  qed
qed simp

lemma level_relationships_spec:
  "happens_before rel \<union> cum \<times> ds_id_of ` set (concat lvls) \<subseteq>
     happens_before (level_relationships cum lvls rel)"
proof (induction lvls arbitrary: cum rel)
  case (Cons lvl lvls)
  let ?ids = "ds_id_of ` set lvl" and ?rest = "ds_id_of ` set (concat lvls)"
  let ?rel = "\<lparr>primitive_data_structures = fold List.insert lvl (primitive_data_structures rel),
    happens_before = happens_before rel \<union> cum \<times> ?ids\<rparr>"
  have "happens_before rel \<union> cum \<times> ds_id_of ` set (concat (lvl # lvls))
      \<subseteq> happens_before ?rel \<union> (cum \<union> ?ids) \<times> ?rest" by auto
  also from Cons.IH have "\<dots> \<subseteq> happens_before (level_relationships (cum \<union> ?ids) lvls ?rel)" .
  finally show ?case by simp
qed simp

lemma request_relationships_spec:
  assumes "request_relationships st (d, deps) rel = Inr rel'"
  obtains cum ids where "cummulative_deps st deps = Inr cum" "unwrap d = Inr ids"
    "happens_before rel \<union> cum \<times> set ids \<subseteq> happens_before rel'"
proof -
  from assms obtain cum where cum: "cummulative_deps st deps = Inr cum"
    by (auto simp: request_relationships_def rbind_eq_Inr)
  show thesis
  proof (cases "ds_primitive d")
    case True
    with assms cum show thesis
      by (intro that [of cum "[ds_id_of d]"]) (auto simp: request_relationships_def unwrap_def)
  next
    case False
    with assms cum obtain lvls where lvls: "get_internal_primitive d = Inr lvls"
      and rel': "rel' = level_relationships cum lvls rel"
      by (auto simp: request_relationships_def rbind_eq_Inr)
    from False lvls obtain ids where "unwrap d = Inr ids" "set ids = ds_id_of ` set (concat lvls)"
      by (auto simp: unwrap_def get_internal_primitive_ids_def)
    with cum rel' level_relationships_spec [of rel cum lvls] show thesis by (intro that) auto
  qed
qed

lemma requests_relationships_spec:
  assumes "requests_relationships st rs rel = Inr rel'"
  shows "happens_before rel \<subseteq> happens_before rel' \<and>
    (\<forall>(d, deps) \<in> set rs. \<exists>cum ids. cummulative_deps st deps = Inr cum \<and>
       unwrap d = Inr ids \<and> cum \<times> set ids \<subseteq> happens_before rel')"
  using assms
proof (induction rs arbitrary: rel)
  case (Cons r rs)
  obtain d deps where r: "r = (d, deps)" by (cases r)
  from Cons.prems r obtain rel1 where rel1: "request_relationships st (d, deps) rel = Inr rel1"
    and rest: "requests_relationships st rs rel1 = Inr rel'" by (auto simp: rbind_eq_Inr)
  from request_relationships_spec [OF rel1] obtain cum ids where *:
    "cummulative_deps st deps = Inr cum" "unwrap d = Inr ids"
    "happens_before rel \<union> cum \<times> set ids \<subseteq> happens_before rel1" .
  note ih = Cons.IH [OF rest]
  from * ih have "cum \<times> set ids \<subseteq> happens_before rel'" "happens_before rel \<subseteq> happens_before rel'"
    by (meson Un_subset_iff order_trans)+
  with * ih r show ?case by auto
qed simp

lemma get_ds_relationships_spec:
  assumes "get_ds_relationships P target deps = Inr rel"
    and "\<not> already_requested P (ds_id_of target)" "finite deps" "dep \<in> deps"
    and "get_ds_from_id (pl_store P) dep = Inr x" "unwrap x = Inr is" "i \<in> set is"
    and "unwrap target = Inr js" "j \<in> set js"
  shows "(i, j) \<in> happens_before rel"
proof -
  from assms(1,2) obtain requests rel0 where
    "requests_relationships (pl_store P) (requests @ [(target, deps)]) rel0 = Inr rel"
    by (auto simp: get_ds_relationships_def rbind_eq_Inr)
  from requests_relationships_spec [OF this] assms(8) obtain cum where
    cum: "cummulative_deps (pl_store P) deps = Inr cum" "cum \<times> set js \<subseteq> happens_before rel" by auto
  from unwrap_all_member [OF cum(1) [unfolded cummulative_deps_def], of dep] assms(3-6)
  have "set is \<subseteq> cum" by auto
  with cum(2) assms(7,9) show ?thesis by blast
qed

section \<open>A concrete problem\<close>

text \<open>
  Two hashes, the second depending on the first, on a switch with two stages, and the
  optimiser that proposes one valuation: both in stage 0.
\<close>

definition checking_optimizer :: "valuation \<Rightarrow> optimizer" where
  "checking_optimizer v C obj = (if C v then Sat_Model v else Answer_Unknown)"

definition sample_hash :: "ds_id \<Rightarrow> ds" where
  "sample_hash i = HashDS (new_hash i [32] 16)"

definition chain_pipeline :: pipeline where
  "chain_pipeline =
     (new_pipeline (short_switch 2)
        \<lparr>heap = [0 \<mapsto> sample_hash ''a''], data = [0], data_per_obj = [1 \<mapsto> {0}],
         data_per_id = [''a'' \<mapsto> 0]\<rparr>)
       \<lparr>pl_requests := [\<lparr>req_ds = ''a'', req_deps = {}\<rparr>]\<rparr>"

definition stage_zero :: valuation where
  "stage_zero =
     \<lparr>p_s_t = (\<lambda>s i. of_bool (s = 0)), e_s_t = (\<lambda>s i. of_bool (s = 0)), f_t = (\<lambda>i. 0),
      l_t = (\<lambda>i. 0), f_s_t_aux = (\<lambda>s i. of_bool (s = 0)),
      l_s_t_aux = (\<lambda>s i. of_bool (s = 0))\<rparr>"

lemma checking_optimizer_sound: "sound_optimizer (checking_optimizer v)"
  by (simp add: sound_optimizer_def checking_optimizer_def)

lemma chain_relationships:
  "get_ds_relationships chain_pipeline (sample_hash ''b'') {''a''} =
     Inr \<lparr>primitive_data_structures = [sample_hash ''b'', sample_hash ''a''],
          happens_before = {(''a'', ''b'')}\<rparr>"
  by (simp add: get_ds_relationships_def chain_pipeline_def sample_hash_def new_hash_def
      new_pipeline_def get_ds_from_id_def deref_def request_relationships_def
      cummulative_deps_def already_requested_def unwrap_def List.insert_def)

lemma two_stages: "[0..1] = [0, 1 :: int]"
  by (simp add: upto.simps)

lemma two_stages_set: "{0..1} = {0, 1 :: int}" "{0..<2} = {0, 1 :: int}"
  by auto

definition chain_usage :: "usage list" where
  "chain_usage =
     [\<lparr>use_id = ''b'', sram_per_entry = 0, tcam_per_entry = 0, map_ram_per_entry = 0,
       xbar_used = 32, logical_ids_used = 1\<rparr>,
      \<lparr>use_id = ''a'', sram_per_entry = 0, tcam_per_entry = 0, map_ram_per_entry = 0,
       xbar_used = 32, logical_ids_used = 1\<rparr>]"

lemma chain_pipeline_simps [simp]:
  "pl_properties chain_pipeline = short_switch 2"
  "pl_requests chain_pipeline = [\<lparr>req_ds = ''a'', req_deps = {}\<rparr>]"
  by (simp_all add: chain_pipeline_def new_pipeline_def)

definition chain_resources :: pipeline_resources where
  "chain_resources =
     read_model (short_switch 2) chain_usage [sample_hash ''b'', sample_hash ''a''] stage_zero"

lemma chain_placed:
  "placed_in (res_stages chain_resources) ''a'' = {0}"
  "placed_in (res_stages chain_resources) ''b'' = {0}"
proof -
  have "ds_id_of ` set [sample_hash ''b'', sample_hash ''a''] = {''a'', ''b''}"
    by (auto simp: sample_hash_def new_hash_def)
  moreover have "occupied 2 stage_zero i = {0}" for i
    by (auto simp: occupied_def stage_zero_def)
  ultimately show "placed_in (res_stages chain_resources) ''a'' = {0}"
    "placed_in (res_stages chain_resources) ''b'' = {0}"
    unfolding chain_resources_def placed_in_read_model by simp_all
qed

lemma chain_solved:
  "solver_find_placements (checking_optimizer stage_zero) chain_pipeline (sample_hash ''b'') {''a''}
     = Inr (result_of_resources chain_resources)"
  unfolding solver_find_placements_def chain_relationships chain_resources_def
  by (simp add: Let_def chain_usage_def sample_hash_def new_hash_def
      checking_optimizer_def all_constraints_def variable_bounds_def assignment_constraints_def
      capacity_constraints_def happens_before_constraints_def aux_constraints_def
      extent_constraints_def over_stages_def two_stages two_stages_set stage_zero_def
      entries_cost_def presence_cost_def digests_used_def hash_match_xbar_consume_def
      align_to_byte_def)

text \<open>One register of two entries on a switch with one stage.\<close>

definition register_zero :: valuation where
  "register_zero = stage_zero\<lparr>e_s_t := (\<lambda>s i. 2 * of_bool (s = 0))\<rparr>"

definition register_usage :: usage where
  "register_usage =
     \<lparr>use_id = ''r'', sram_per_entry = 65568, tcam_per_entry = 0, map_ram_per_entry = 65568,
      xbar_used = 32, logical_ids_used = 2\<rparr>"

definition register_resources :: pipeline_resources where
  "register_resources =
     read_model (short_switch 1) [register_usage] [RegisterDS sample_register] register_zero"

lemma register_problem:
  "get_ds_relationships (short_pipeline 1) (RegisterDS sample_register) {} =
     Inr \<lparr>primitive_data_structures = [RegisterDS sample_register], happens_before = {}\<rparr>"
  "ds_demand (RegisterDS sample_register) = Inr \<lparr>dem_id = ''r'', dem_capacity = 2, dem_spans = False\<rparr>"
  "ds_usage (RegisterDS sample_register) = Inr register_usage"
  by (simp_all add: get_ds_relationships_def already_requested_def request_relationships_def
      cummulative_deps_def sample_register_def per_entry_def register_consumed_sram_def
      align_to_byte_def register_num_logical_ids_def register_usage_def List.insert_def)

lemma register_feasible:
  "all_constraints (short_switch 1)
     \<lparr>primitive_data_structures = [RegisterDS sample_register], happens_before = {}\<rparr>
     [\<lparr>dem_id = ''r'', dem_capacity = 2, dem_spans = False\<rparr>] [register_usage] register_zero"
  by (simp add: Let_def sample_register_id
      all_constraints_def variable_bounds_def assignment_constraints_def
      capacity_constraints_def happens_before_constraints_def aux_constraints_def
      extent_constraints_def over_stages_def register_zero_def stage_zero_def
      entries_cost_def presence_cost_def digests_used_def register_usage_def)

lemma register_solved:
  "solver_find_placements (checking_optimizer register_zero) (short_pipeline 1)
     (RegisterDS sample_register) {} = Inr (result_of_resources register_resources)"
  using register_feasible
  by (simp add: solver_find_placements_def register_resources_def Let_def register_problem
      checking_optimizer_def del: ds_demand.simps ds_usage.simps)

text \<open>The optimiser that answers with a valuation only when nothing is better.\<close>

definition exact_optimizer :: "valuation \<Rightarrow> optimizer" where
  "exact_optimizer v C obj =
     (if C v \<and> (\<forall>w. C w \<longrightarrow> obj v \<le> obj w) then Sat_Model v else Answer_Unknown)"

lemma exact_optimizer_ok:
  "sound_optimizer (exact_optimizer v)" "minimizing_optimizer (exact_optimizer v)"
  by (auto simp: sound_optimizer_def minimizing_optimizer_def exact_optimizer_def split: if_splits)

lemma last_stage_sum_nonneg: "variable_bounds n ids w \<Longrightarrow> 0 \<le> last_stage_sum ids w"
  by (auto simp: variable_bounds_def last_stage_sum_def intro!: sum_list_nonneg)

lemma register_optimal:
  "solver_find_placements (exact_optimizer register_zero) (short_pipeline 1)
     (RegisterDS sample_register) {} = Inr (result_of_resources register_resources)"
proof -
  let ?C = "all_constraints (short_switch 1)
     \<lparr>primitive_data_structures = [RegisterDS sample_register], happens_before = {}\<rparr>
     [\<lparr>dem_id = ''r'', dem_capacity = 2, dem_spans = False\<rparr>] [register_usage]"
  have "last_stage_sum [''r''] register_zero \<le> last_stage_sum [''r''] w" if "?C w" for w
  proof -
    from that have "variable_bounds 1 [''r''] w"
      by (simp add: all_constraints_def Let_def sample_register_id)
    from last_stage_sum_nonneg [OF this] show ?thesis
      by (simp add: last_stage_sum_def register_zero_def stage_zero_def)
  qed
  with register_feasible have "exact_optimizer register_zero ?C (last_stage_sum [''r''])
      = Sat_Model register_zero" by (simp add: exact_optimizer_def)
  then show ?thesis
    by (simp add: solver_find_placements_def register_resources_def Let_def register_problem
        sample_register_id del: ds_demand.simps ds_usage.simps)
qed

section \<open>Properties\<close>

text \<open>C1. Whatever the optimiser finds, the resources the solver placer returns are well
  formed: no stage gives more of any memory, crossbar or table slot than the switch has (no
  subtraction wraps around) and the digests stay within their limit.\<close>

theorem solver_keeps_within_limits:
  assumes "sound_optimizer solver" "solver_find_placements solver P d deps = Inr res"
    "resources res = Some r"
  shows "resources_wf (pl_properties P) r"
  using solver_success [OF assms] read_model_wf by metis

theorem solver_keeps_within_limits_witness: "resources_wf (short_switch 2) chain_resources"
  using solver_keeps_within_limits [OF checking_optimizer_sound chain_solved]
  by (simp add: result_of_resources_def)

text \<open>A dependency that is still to be placed together with the target, or is requested
  already, never extends past the target's first stage: every stage of every primitive of the
  dependency is at most every stage of every primitive of the target.\<close>

lemma solver_orders_dependencies:
  assumes "sound_optimizer solver" "solver_find_placements solver P target deps = Inr res"
    "resources res = Some r"
    and "\<not> already_requested P (ds_id_of target)" "finite deps" "dep \<in> deps"
    and "get_ds_from_id (pl_store P) dep = Inr x" "unwrap x = Inr is" "i \<in> set is"
    and "unwrap target = Inr js" "j \<in> set js"
    and "s \<in> placed_in (res_stages r) i" "t \<in> placed_in (res_stages r) j"
  shows "s \<le> t"
proof -
  from solver_success [OF assms(1-3)] obtain rel demands us v where
    rel: "get_ds_relationships P target deps = Inr rel"
    and hb: "\<forall>(ti, tj) \<in> happens_before rel.
       ti \<in> ds_id_of ` set (primitive_data_structures rel) \<and>
       tj \<in> ds_id_of ` set (primitive_data_structures rel)"
    and sat: "all_constraints (pl_properties P) rel demands us v"
    and r: "r = read_model (pl_properties P) us (primitive_data_structures rel) v" .
  have ij: "(i, j) \<in> happens_before rel"
    by (rule get_ds_relationships_spec [OF rel assms(4-11)])
  with sat have "l_t v i \<le> f_t v j"
    by (auto simp: all_constraints_def Let_def happens_before_constraints_def)
  moreover from ij hb have mem: "i \<in> ds_id_of ` set (primitive_data_structures rel)"
    "j \<in> ds_id_of ` set (primitive_data_structures rel)" by auto
  ultimately show ?thesis
    using read_model_extent [OF sat mem(1)] read_model_extent [OF sat mem(2)] assms(12,13) r
    by fastforce
qed

lemma solver_orders_dependencies_witness:
  "0 \<in> placed_in (res_stages chain_resources) ''a'' \<and>
   0 \<in> placed_in (res_stages chain_resources) ''b'' \<and> (0 :: int) \<le> 0"
proof -
  have placed: "0 \<in> placed_in (res_stages chain_resources) ''a''"
    "0 \<in> placed_in (res_stages chain_resources) ''b''" by (simp_all add: chain_placed)
  have "(0 :: int) \<le> 0"
    by (rule solver_orders_dependencies [OF checking_optimizer_sound chain_solved,
          of chain_resources "''a''" "sample_hash ''a''" "[''a'']" "''a''" "[''b'']" "''b''"])
      (use placed in \<open>simp_all add: result_of_resources_def already_requested_def sample_hash_def
        new_hash_def get_ds_from_id_def deref_def chain_pipeline_def new_pipeline_def unwrap_def\<close>)
  with placed show ?thesis by blast
qed

text \<open>Only tables are spread over several stages: any other primitive the solver placer
  has to place ends up in exactly one.\<close>

theorem solver_single_stage:
  assumes "sound_optimizer solver" "solver_find_placements solver P target deps = Inr res"
    "resources res = Some r" "get_ds_relationships P target deps = Inr rel"
    and "x \<in> set (primitive_data_structures rel)" "ds_type_of x \<noteq> Table"
  shows "card (placed_in (res_stages r) (ds_id_of x)) = 1"
proof -
  from solver_success [OF assms(1-3)] assms(4) obtain demands us v where
    dem: "rmap ds_demand (primitive_data_structures rel) = Inr demands"
    and sat: "all_constraints (pl_properties P) rel demands us v"
    and r: "r = read_model (pl_properties P) us (primitive_data_structures rel) v"
    by (metis Inr_inject)
  let ?n = "stages (pl_properties P)" and ?ids = "map ds_id_of (primitive_data_structures rel)"
  from rmap_demand(2) [OF dem assms(5)] assms(6) obtain m where
    "m \<in> set demands" "dem_id m = ds_id_of x" "\<not> dem_spans m" by auto
  with sat have "over_stages ?n (\<lambda>s. p_s_t v s (ds_id_of x)) \<le> 1"
    by (auto simp: all_constraints_def Let_def assignment_constraints_def)
  with occupied_single [of ?n ?ids v "ds_id_of x"] sat assms(5)
  have "card (occupied ?n v (ds_id_of x)) \<le> 1" by (simp add: all_constraints_def Let_def)
  moreover have "occupied ?n v (ds_id_of x) \<noteq> {}" "finite (occupied ?n v (ds_id_of x))"
    using read_model_extent(2) [OF sat, of "ds_id_of x"] assms(5)
    by (blast intro: imageI, simp add: finite_occupied)
  ultimately have "card (occupied ?n v (ds_id_of x)) = 1"
    by (metis card_0_eq le_neq_implies_less less_one)
  with read_model_extent(1) [OF sat, of "ds_id_of x"] assms(5) r show ?thesis by simp
qed

theorem solver_single_stage_witness:
  "card (placed_in (res_stages chain_resources) ''b'') = 1"
  using solver_single_stage [OF checking_optimizer_sound chain_solved _ chain_relationships,
      of _ "sample_hash ''b''"]
  by (simp add: result_of_resources_def sample_hash_def new_hash_def)

text \<open>No entry is lost or duplicated: the SRAM missing from the returned stages adds up to
  the cost of all entries of all structures, and likewise for the TCAM.\<close>

theorem solver_charges_every_entry:
  assumes "sound_optimizer solver" "solver_find_placements solver P target deps = Inr res"
    "resources res = Some r" "get_ds_relationships P target deps = Inr rel"
    and "0 < stages (pl_properties P)"
    and "rmap ds_demand (primitive_data_structures rel) = Inr demands"
    and "rmap ds_usage (primitive_data_structures rel) = Inr us"
  shows "sum_list (map (\<lambda>s. uint (sram_per_stage (pl_properties P)) - uint (available_sram s))
      (res_stages r)) = sum_list (map (\<lambda>(d, u). dem_capacity d * sram_per_entry u) (zip demands us))
    \<and> sum_list (map (\<lambda>s. uint (tcam_per_stage (pl_properties P)) - uint (available_tcam s))
      (res_stages r)) = sum_list (map (\<lambda>(d, u). dem_capacity d * tcam_per_entry u) (zip demands us))"
proof -
  let ?props = "pl_properties P"
  have us': "rmap ds_usage (if 0 < stages ?props then primitive_data_structures rel else []) = Inr us"
    using assms(5,7) by simp
  from solver_success [OF assms(1-3)] assms(4,6) us' obtain v where
    sat: "all_constraints ?props rel demands us v"
    and r: "r = read_model ?props us (primitive_data_structures rel) v"
    by (metis Inr_inject)
  have ids: "map dem_id demands = map use_id us"
    using rmap_demand(1) [OF assms(6)] rmap_usage(1) [OF assms(7)] by simp
  from sat have "assignment_constraints (stages ?props) demands v"
    by (simp add: all_constraints_def Let_def)
  from entries_conserved [OF this ids] read_model_charges [OF sat us'] r show ?thesis by simp
qed

theorem solver_charges_every_entry_witness:
  "sum_list (map (\<lambda>s. 10485760 - uint (available_sram s)) (res_stages register_resources)) = 131136"
  using solver_charges_every_entry [OF checking_optimizer_sound register_solved _ register_problem(1)]
  by (simp add: result_of_resources_def register_problem register_usage_def
      del: ds_demand.simps ds_usage.simps)

text \<open>Optimality carries over to the pipeline: with an optimiser that minimises its
  objective, the last stages occupied in the returned resources add up to no more than the
  last stages of any assignment that satisfies the constraints.\<close>

lemma solver_minimizes_last_stages:
  assumes "sound_optimizer solver" "minimizing_optimizer solver"
    and "solver_find_placements solver P target deps = Inr res" "resources res = Some r"
    and "get_ds_relationships P target deps = Inr rel" "0 < stages (pl_properties P)"
    and "rmap ds_demand (primitive_data_structures rel) = Inr demands"
    and "rmap ds_usage (primitive_data_structures rel) = Inr us"
    and "all_constraints (pl_properties P) rel demands us w"
  shows "sum_list (map (\<lambda>x. Max (placed_in (res_stages r) (ds_id_of x)))
      (primitive_data_structures rel)) \<le>
    last_stage_sum (map ds_id_of (primitive_data_structures rel)) w"
proof -
  let ?props = "pl_properties P" and ?prims = "primitive_data_structures rel"
  from assms(6,8) have us: "rmap ds_usage (if 0 < stages ?props then ?prims else []) = Inr us"
    by simp
  from solver_success [OF assms(1,3,4)] assms(5,7) us obtain v where
    sat: "all_constraints ?props rel demands us v"
    and ans: "solver (all_constraints ?props rel demands us) (last_stage_sum (map ds_id_of ?prims))
      = Sat_Model v"
    and r: "r = read_model ?props us ?prims v"
    by (metis Inr_inject)
  have "Max (placed_in (res_stages r) (ds_id_of x)) = l_t v (ds_id_of x)" if "x \<in> set ?prims" for x
    using read_model_extent [OF sat, of "ds_id_of x"] that r
    by (intro Max_eqI) (auto simp: finite_occupied)
  then have "sum_list (map (\<lambda>x. Max (placed_in (res_stages r) (ds_id_of x))) ?prims) =
      last_stage_sum (map ds_id_of ?prims) v"
    by (simp add: last_stage_sum_def comp_def cong: map_cong)
  also have "\<dots> \<le> last_stage_sum (map ds_id_of ?prims) w"
    using assms(2,9) ans unfolding minimizing_optimizer_def by blast
  finally show ?thesis .
qed

lemma solver_minimizes_last_stages_witness:
  "Max (placed_in (res_stages register_resources) ''r'') \<le> 0"
proof -
  have "all_constraints (short_switch 1)
      \<lparr>primitive_data_structures = [RegisterDS sample_register], happens_before = {}\<rparr>
      [\<lparr>dem_id = ''r'', dem_capacity = 2, dem_spans = False\<rparr>] [register_usage] register_zero"
    by (rule register_feasible)
  with solver_minimizes_last_stages [OF exact_optimizer_ok register_optimal _ register_problem(1),
      of register_resources _ _ register_zero]
  show ?thesis
    by (simp add: result_of_resources_def register_problem last_stage_sum_def register_zero_def
        stage_zero_def del: ds_demand.simps ds_usage.simps) (simp add: sample_register_def)
qed

text \<open>The constraint on dependent structures is not strict: two dependent hashes may share
  a stage, although the comment says that the first stage of the dependent follows the last
  stage of what it depends on.\<close>

theorem dependent_structures_may_share_a_stage:
  "solver_find_placements (checking_optimizer stage_zero) chain_pipeline
     (sample_hash ''b'') {''a''} = Inr (result_of_resources chain_resources) \<and>
   placed_in (res_stages chain_resources) ''a'' = {0} \<and>
   placed_in (res_stages chain_resources) ''b'' = {0}"
  by (simp add: chain_solved chain_placed)

end
