(* ===== verification/Placement.thy ===== *)
theory Placement
  imports SimplePlacerDemand SolverPlacerCorrect
begin

text \<open>
  The operations of \<^verbatim>\<open>Pipeline\<close> that place data structures (\<^verbatim>\<open>TNA/Pipeline.cpp\<close>): the greedy
  placer is asked first and the solver when it fails. \<^verbatim>\<open>place\<close> changes the pipeline;
  \<^verbatim>\<open>can_place\<close> only answers.
\<close>

section \<open>Operations\<close>

definition pipeline_find_placements ::
  "optimizer \<Rightarrow> pipeline \<Rightarrow> ds \<Rightarrow> ds_id set \<Rightarrow> placement_result result" where
  "pipeline_find_placements solver P d deps =
     rbind (find_placements P d deps) (\<lambda>res.
       if status res = Success then Inr res else solver_find_placements solver P d deps)"

text \<open>Requested before, and none of its members is unplaced.\<close>

definition nothing_to_do :: "pipeline \<Rightarrow> ds \<Rightarrow> bool result" where
  "nothing_to_do P d =
     (if already_requested P (ds_id_of d)
      then rbind (detect_changes_to_already_placed_data_structure P d) (\<lambda>c. Inr (\<not> c))
      else Inr False)"

definition place :: "optimizer \<Rightarrow> pipeline \<Rightarrow> ds \<Rightarrow> ds_id set \<Rightarrow> pipeline result" where
  "place solver P d deps =
     (let duplicated_request = already_requested P (ds_id_of d) in
      rbind (nothing_to_do P d) (\<lambda>finished.
      if finished then Inr P
      else
        rbind (pipeline_find_placements solver P d deps) (\<lambda>result.
        if status result \<noteq> Success then Inl Panicked
        else case resources result of
               None \<Rightarrow> Inl Panicked
             | Some r \<Rightarrow>
                 Inr (P\<lparr>pl_resources := r,
                        pl_requests := (if duplicated_request then pl_requests P
                          else pl_requests P @ [\<lparr>req_ds = ds_id_of d, req_deps = deps\<rparr>])\<rparr>))))"

definition can_place :: "optimizer \<Rightarrow> pipeline \<Rightarrow> ds \<Rightarrow> ds_id set \<Rightarrow> placement_status result" where
  "can_place solver P d deps =
     (if ds_primitive d \<and> ds_id_of d \<in> deps then Inr SelfDependence
      else
        rbind (nothing_to_do P d) (\<lambda>finished.
        if finished then Inr Success
        else rbind (pipeline_find_placements solver P d deps) (\<lambda>result. Inr (status result))))"

section \<open>Results are coherent\<close>

text \<open>A result carries resources exactly when it reports success.\<close>

definition coherent :: "placement_result \<Rightarrow> bool" where
  "coherent res \<longleftrightarrow> (status res = Success \<longleftrightarrow> resources res \<noteq> None)"

lemma coherent_resources [simp]: "coherent (result_of_resources r)"
  by (simp add: coherent_def result_of_resources_def)

lemma coherent_status: "result_of_status st = Inr res \<Longrightarrow> coherent res"
  by (auto simp: coherent_def result_of_status_def assert_that_eq_Inr)

lemma coherent_concretize: "concretize_placements P req ps = Inr res \<Longrightarrow> coherent res"
  by (auto simp: concretize_placements_def rbind_eq_Inr)

lemma coherent_primitive:
  "find_placements_primitive P d deps = Inr res \<Longrightarrow> coherent res"
  by (cases d)
    (auto simp: find_placements_table_def find_placements_reg_def find_placements_meter_def
      find_placements_hash_def find_placements_digest_def find_placements_lpm_def Let_def
      assert_that_eq_Inr dest: coherent_status coherent_concretize
      split: if_split_asm prod.splits)

lemma coherent_level: "place_level P xs deps = Inr res \<Longrightarrow> coherent res"
proof (induction xs arbitrary: P)
  case (Cons x xs)
  from Cons.prems obtain res1 where res1: "find_placements_primitive P x deps = Inr res1"
    by (auto simp: rbind_eq_Inr)
  from Cons.prems res1 coherent_primitive [OF res1] Cons.IH show ?case
    by (auto split: if_split_asm option.splits)
qed auto

lemma coherent_levels: "place_levels P lvls deps = Inr res \<Longrightarrow> coherent res"
proof (induction lvls arbitrary: P deps)
  case (Cons lvl lvls)
  from Cons.prems obtain res1 where res1: "place_level P lvl deps = Inr res1"
    by (auto simp: rbind_eq_Inr)
  from Cons.prems res1 coherent_level [OF res1] Cons.IH show ?case
    by (auto split: if_split_asm option.splits)
qed auto

lemma coherent_find_placements:
  "find_placements P d deps = Inr res \<Longrightarrow> coherent res"
  "clean_slate_loop C d deps reqs = Inr res \<Longrightarrow> coherent res"
proof (induction P d deps and C d deps reqs arbitrary: res and res
    rule: find_placements_clean_slate_loop.induct)
  case (1 P d deps)
  consider (prim) "find_placements_primitive P d deps = Inr res"
    | (clean) "\<not> ds_primitive d" "detect_changes_to_already_placed_data_structure P d = Inr True"
      "clean_slate_loop (new_pipeline (pl_properties P) (pl_store P)) d deps (pl_requests P) = Inr res"
    | (lvls) lvls where "place_levels P lvls deps = Inr res"
    using "1.prems" by (auto simp: find_placements_eq rbind_eq_Inr split: if_splits)
  then show ?case
  proof cases
    case clean
    with "1.IH" detect_changes_requests show ?thesis by blast
  qed (auto dest: coherent_primitive coherent_levels)
next
  case (2 C d deps)
  then show ?case by (auto simp: clean_slate_loop.simps)
next
  case (3 C d deps req reqs)
  let ?deps = "\<lambda>x. if ds_id_of x = ds_id_of d then req_deps req \<union> deps else req_deps req"
  from "3.prems" obtain x res1 where x: "get_ds_from_id (pl_store C) (req_ds req) = Inr x"
    and res1: "find_placements C x (?deps x) = Inr res1"
    by (simp only: clean_slate_loop.simps split: sum.splits) blast
  note coh = "3.IH"(1) [OF x, of res1]
  show ?case
  proof (cases "status res1 = Success")
    case False
    with "3.prems" x res1 coh show ?thesis by (simp add: clean_slate_loop.simps)
  next
    case True
    with coh res1 obtain r where r: "resources res1 = Some r" by (auto simp: coherent_def)
    with "3.prems" x res1 True have "clean_slate_loop (C\<lparr>pl_resources := r\<rparr>) d deps reqs = Inr res"
      by (simp add: clean_slate_loop.simps)
    with "3.IH"(2) [OF x _ _ r] res1 True show ?thesis by blast
  qed
qed

lemma coherent_answer:
  "(if b then Inl e
    else case a of Answer_Unsat \<Rightarrow> result_of_status Unsat
         | Answer_Unknown \<Rightarrow> result_of_status Unknown
         | Sat_Model v \<Rightarrow> Inr (result_of_resources (f v))) = Inr res \<Longrightarrow> coherent res"
  by (cases a) (auto dest: coherent_status split: if_split_asm)

lemma coherent_solver: "solver_find_placements solver P d deps = Inr res \<Longrightarrow> coherent res"
  unfolding solver_find_placements_def Let_def rbind_eq_Inr by (elim exE conjE) (rule coherent_answer)

lemma coherent_pipeline: "pipeline_find_placements solver P d deps = Inr res \<Longrightarrow> coherent res"
  by (auto simp: pipeline_find_placements_def rbind_eq_Inr
      dest: coherent_find_placements coherent_solver split: if_split_asm)

section \<open>Placing keeps the pipeline well formed\<close>

lemma pipeline_find_placements_wf:
  assumes "usable P" "sound_optimizer solver" "pipeline_find_placements solver P d deps = Inr res"
    "resources res = Some r"
  shows "keeps_wf P r"
proof -
  from assms(3) obtain res1 where res1: "find_placements P d deps = Inr res1"
    and rest: "if status res1 = Success then res = res1
      else solver_find_placements solver P d deps = Inr res"
    by (auto simp: pipeline_find_placements_def rbind_eq_Inr split: if_splits)
  show ?thesis
  proof (cases "status res1 = Success")
    case True
    with rest assms(4) find_placements_keeps_wf(1) [OF assms(1) res1] show ?thesis
      by (simp add: outcome_def)
  next
    case False
    with rest have "solver_find_placements solver P d deps = Inr res" by simp
    from solver_success [OF assms(2) this assms(4)] obtain rel demands us v where
      "rmap ds_usage (if 0 < stages (pl_properties P) then primitive_data_structures rel else [])
         = Inr us"
      "all_constraints (pl_properties P) rel demands us v"
      "r = read_model (pl_properties P) us (primitive_data_structures rel) v" .
    with read_model_wf have "resources_wf (pl_properties P) r" by blast
    moreover from this assms(1) have "length (res_stages r) = length (pl_stages P)"
      by (simp add: resources_wf_def usable_def pipeline_wf_def)
    ultimately show ?thesis using assms(1) by (auto simp: keeps_wf_def usable_def)
  qed
qed

text \<open>The cases of \<^verbatim>\<open>place\<close>.\<close>

lemma place_cases:
  assumes "place solver P d deps = Inr P'"
  obtains (unchanged) "already_requested P (ds_id_of d)" "P' = P"
      "detect_changes_to_already_placed_data_structure P d = Inr False"
    | (placed) res r where "pipeline_find_placements solver P d deps = Inr res"
      "status res = Success" "resources res = Some r"
      "P' = P\<lparr>pl_resources := r,
              pl_requests := (if already_requested P (ds_id_of d) then pl_requests P
                else pl_requests P @ [\<lparr>req_ds = ds_id_of d, req_deps = deps\<rparr>])\<rparr>"
proof -
  from assms obtain b where b: "nothing_to_do P d = Inr b" by (auto simp: place_def rbind_eq_Inr)
  show thesis
  proof (cases b)
    case True
    with b have "already_requested P (ds_id_of d)"
      "detect_changes_to_already_placed_data_structure P d = Inr False"
      by (auto simp: nothing_to_do_def rbind_eq_Inr split: if_split_asm)
    moreover have "P' = P" using assms b True by (simp add: place_def)
    ultimately show thesis by (intro unchanged)
  next
    case False
    with assms b obtain res where res: "pipeline_find_placements solver P d deps = Inr res"
      by (auto simp: place_def rbind_eq_Inr)
    with assms b False have ok: "status res = Success"
      by (simp add: place_def split: if_split_asm)
    with assms b False res obtain r where "resources res = Some r"
      by (cases "resources res") (simp_all add: place_def)
    with assms b False res ok show thesis by (intro placed [OF res ok]) (auto simp: place_def)
  qed
qed

lemma place_requested: "place solver P d deps = Inr P' \<Longrightarrow> already_requested P' (ds_id_of d)"
  by (erule place_cases) (auto simp: already_requested_def)

section \<open>Everything that was asked for is placed\<close>

lemma place_level_occupies:
  assumes "usable P" "place_level P xs deps = Inr res" "resources res = Some r"
    and "\<forall>x \<in> set xs. asks_for_something x" "x \<in> set xs"
  shows "placed_in (res_stages r) (ds_id_of x) \<noteq> {}"
  using assms
proof (induction xs arbitrary: P)
  case (Cons y ys)
  from Cons.prems(2,3) obtain res1 r1 where res1: "find_placements_primitive P y deps = Inr res1"
    and r1: "resources res1 = Some r1" and rest: "place_level (P\<lparr>pl_resources := r1\<rparr>) ys deps = Inr res"
    using coherent_primitive
    by (auto simp: rbind_eq_Inr coherent_def split: if_split_asm option.split_asm)
  from primitive_outcome [OF Cons.prems(1) res1] r1 have sound: "sound_placement P deps (ds_id_of y) r1"
    by (simp add: outcome_def)
  then have use: "usable (P\<lparr>pl_resources := r1\<rparr>)"
    by (auto simp: sound_placement_def intro: usable_grow [OF Cons.prems(1)])
  from place_level_outcome [OF use rest] Cons.prems(3)
  have "stages_grow (ds_id_of ` set ys) (res_stages r1) (res_stages r)"
    by (auto simp: outcome_def level_sound_def)
  from stages_grow_placed(1) [OF this] primitive_occupies [OF Cons.prems(1) res1 r1] Cons.prems(4)
  have "placed_in (res_stages r) (ds_id_of y) \<noteq> {}" by fastforce
  with Cons.IH [OF use rest Cons.prems(3)] Cons.prems(4,5) show ?case by auto
qed simp

lemma place_levels_occupies:
  assumes "usable P" "place_levels P lvls deps = Inr res" "resources res = Some r"
    and "\<forall>x \<in> set (concat lvls). asks_for_something x" "x \<in> set (concat lvls)"
  shows "placed_in (res_stages r) (ds_id_of x) \<noteq> {}"
  using assms
proof (induction lvls arbitrary: P deps)
  case (Cons lvl lvls)
  from Cons.prems(2,3) obtain res1 r1 where res1: "place_level P lvl deps = Inr res1"
    and r1: "resources res1 = Some r1"
    and rest: "place_levels (P\<lparr>pl_resources := r1\<rparr>) lvls (deps \<union> ds_id_of ` set lvl) = Inr res"
    using coherent_level
    by (auto simp: rbind_eq_Inr coherent_def split: if_split_asm option.split_asm)
  from place_level_outcome [OF Cons.prems(1) res1] r1 have sound: "level_sound P deps lvl r1"
    by (simp add: outcome_def)
  then have use: "usable (P\<lparr>pl_resources := r1\<rparr>)"
    by (auto simp: level_sound_def intro: usable_grow [OF Cons.prems(1)])
  from place_levels_outcome [OF use rest] Cons.prems(3)
  have grow: "stages_grow (ds_id_of ` set (concat lvls)) (res_stages r1) (res_stages r)"
    by (auto simp: outcome_def levels_sound_def)
  show ?case
  proof (cases "x \<in> set lvl")
    case True
    with place_level_occupies [OF Cons.prems(1) res1 r1] Cons.prems(4) stages_grow_placed(1) [OF grow]
    show ?thesis by fastforce
  next
    case False
    with Cons.IH [OF use rest Cons.prems(3)] Cons.prems(4,5) show ?thesis by simp
  qed
qed simp

lemma level_relationships_prims:
  "set (primitive_data_structures (level_relationships cum lvls rel)) =
     set (primitive_data_structures rel) \<union> set (concat lvls)"
proof (induction lvls arbitrary: cum rel)
  case (Cons lvl lvls)
  have "set (fold List.insert lvl xs) = set xs \<union> set lvl" for xs
    by (induction lvl arbitrary: xs) auto
  with Cons show ?case by auto
qed simp

lemma solver_places_members:
  assumes "sound_optimizer solver" "solver_find_placements solver P d deps = Inr res"
    "resources res = Some r" "\<not> already_requested P (ds_id_of d)" "\<not> ds_primitive d"
    and "get_internal_primitive d = Inr lvls" "x \<in> set (concat lvls)"
  shows "placed_in (res_stages r) (ds_id_of x) \<noteq> {}"
proof -
  from solver_success [OF assms(1-3)] obtain rel demands us v where
    rel: "get_ds_relationships P d deps = Inr rel"
    and sat: "all_constraints (pl_properties P) rel demands us v"
    and r: "r = read_model (pl_properties P) us (primitive_data_structures rel) v" .
  from rel assms(4) obtain requests rel0 where
    "requests_relationships (pl_store P) (requests @ [(d, deps)]) rel0 = Inr rel"
    by (auto simp: get_ds_relationships_def rbind_eq_Inr)
  then obtain rel1 where "request_relationships (pl_store P) (d, deps) rel1 = Inr rel"
    by (induction requests arbitrary: rel0) (auto simp: rbind_eq_Inr)
  with assms(5,6) have "set (concat lvls) \<subseteq> set (primitive_data_structures rel)"
    by (auto simp: request_relationships_def rbind_eq_Inr level_relationships_prims)
  with assms(7) have "ds_id_of x \<in> ds_id_of ` set (primitive_data_structures rel)" by blast
  from read_model_extent [OF sat this] r show ?thesis by auto
qed

lemma members_placed:
  assumes "usable P" "sound_optimizer solver" "pipeline_find_placements solver P d deps = Inr res"
    "resources res = Some r" "\<not> already_requested P (ds_id_of d)" "\<not> ds_primitive d"
    and "get_internal_primitive d = Inr lvls" "\<forall>x \<in> set (concat lvls). asks_for_something x"
    and "x \<in> set (concat lvls)"
  shows "placed_in (res_stages r) (ds_id_of x) \<noteq> {}"
proof -
  from assms(5-7) have "find_placements P d deps = place_levels P lvls deps"
    by (simp add: find_placements_eq detect_changes_to_already_placed_data_structure_def)
  with assms(3) consider "place_levels P lvls deps = Inr res"
    | "solver_find_placements solver P d deps = Inr res"
    by (auto simp: pipeline_find_placements_def rbind_eq_Inr split: if_split_asm)
  then show ?thesis
  proof cases
    case 1
    from place_levels_occupies [OF assms(1) this assms(4,8,9)] show ?thesis .
  next
    case 2
    from solver_places_members [OF assms(2) this assms(4-7,9)] show ?thesis .
  qed
qed

lemma place_usable:
  assumes "usable P" "sound_optimizer solver" "place solver P d deps = Inr P'"
  shows "usable P'"
  using assms(3)
proof (cases rule: place_cases)
  case (placed res r)
  from pipeline_find_placements_wf [OF assms(1,2) placed(1,3)] placed(4) show ?thesis
    by (simp add: keeps_wf_def usable_def pipeline_wf_def)
qed (use assms(1) in simp)

section \<open>A concrete pipeline\<close>

text \<open>A map implemented by one table, placed on a switch with two stages; no solver needed.\<close>

definition no_solver :: optimizer where
  "no_solver C obj = Answer_Unknown"

definition sample_map :: ds where
  "sample_map =
     MapTableDS \<lparr>mt_id = ''m'', mt_capacity = 262144, mt_key_size = 32, mt_param_size = 32,
       mt_tables = [sample_table]\<rparr>"

definition map_pipeline :: pipeline where
  "map_pipeline = (short_pipeline 2)
     \<lparr>pl_resources := table_resources, pl_requests := [\<lparr>req_ds = ''m'', req_deps = {}\<rparr>]\<rparr>"

lemma no_solver_sound: "sound_optimizer no_solver"
  by (simp add: sound_optimizer_def no_solver_def)

lemma sample_map_members: "get_internal_primitive sample_map = Inr [[TableDS sample_table]]"
  by (simp add: sample_map_def get_internal_primitive_eq mt_get_internal_def)

lemma sample_map_found:
  "pipeline_find_placements no_solver (short_pipeline 2) sample_map {} =
     Inr (result_of_resources table_resources)"
  by (simp add: pipeline_find_placements_def find_placements_eq sample_map_members
      detect_changes_to_already_placed_data_structure_def already_requested_def
      sample_table_placed result_of_resources_def) (simp add: sample_map_def)

lemma sample_map_placed: "place no_solver (short_pipeline 2) sample_map {} = Inr map_pipeline"
  by (simp add: place_def nothing_to_do_def already_requested_def sample_map_found)
    (simp add: result_of_resources_def map_pipeline_def sample_map_def)

section \<open>Properties\<close>



text \<open>Placing keeps the pipeline well formed, whatever placer answered: the stages stay
  numbered and within the limits of the switch, and the properties and structures of the
  pipeline do not change.\<close>

lemma place_keeps_wf:
  assumes "pipeline_wf P" "pl_stages P \<noteq> []" "sound_optimizer solver"
    "place solver P d deps = Inr P'"
  shows "pipeline_wf P' \<and> pl_stages P' \<noteq> [] \<and> pl_properties P' = pl_properties P \<and>
    pl_store P' = pl_store P"
proof -
  have "usable P'" using place_usable [of P] assms by (simp add: usable_def)
  moreover from assms(4) have "pl_properties P' = pl_properties P \<and> pl_store P' = pl_store P"
    by (cases rule: place_cases) auto
  ultimately show ?thesis by (simp add: usable_def)
qed

lemma place_keeps_wf_witness: "pipeline_wf map_pipeline \<and> pl_stages map_pipeline \<noteq> []"
  using place_keeps_wf [OF short_pipeline_wf _ no_solver_sound sample_map_placed]
    short_pipeline_placeable [of "''m''"] by (simp add: placeable_def)

text \<open>Placing is idempotent: once a new structure whose members all ask for something has
  been placed, asking for it again, with any dependencies, changes nothing.\<close>

lemma place_idempotent:
  assumes "pipeline_wf P" "pl_stages P \<noteq> []" "sound_optimizer solver"
    "place solver P d deps = Inr P'" "\<not> already_requested P (ds_id_of d)"
    and "get_internal_primitive d = Inr lvls" "\<forall>x \<in> set (concat lvls). asks_for_something x"
  shows "place solver P' d deps' = Inr P'"
proof -
  have use: "usable P" "usable P'"
    using place_usable [of P] assms(1-4) by (simp_all add: usable_def)
  from use(2) have num: "stages_numbered (pl_stages P')"
    by (simp add: usable_def pipeline_wf_def resources_wf_def)
  from assms(4,5) obtain res r where placed: "pipeline_find_placements solver P d deps = Inr res"
    "resources res = Some r" "pl_resources P' = r" by (cases rule: place_cases) auto
  have "already_placed P' (ds_id_of x)" if x: "x \<in> set (concat lvls)" for x
  proof -
    have "\<not> ds_primitive d"
    proof
      assume "ds_primitive d"
      then have "lvls = []" using assms(6) by (cases d) (simp_all add: get_internal_primitive_eq)
      with x show False by simp
    qed
    from members_placed [OF use(1) assms(3) placed(1,2) assms(5) this assms(6,7) x] placed(3) num
    show ?thesis by (simp add: already_placed_iff)
  qed
  then have "detect_changes_to_already_placed_data_structure P' d = Inr False"
    using assms(6) by (auto simp: detect_changes_to_already_placed_data_structure_def list_ex_iff)
  with place_requested [OF assms(4)] show ?thesis by (simp add: place_def nothing_to_do_def)
qed

lemma place_idempotent_witness:
  "place no_solver map_pipeline sample_map {''x''} = Inr map_pipeline"
  using place_idempotent [OF short_pipeline_wf _ no_solver_sound sample_map_placed _
      sample_map_members, of "{''x''}"] short_pipeline_placeable [of "''m''"]
  by (simp add: placeable_def already_requested_def sample_table_sram)

end
