(* ===== verification/PlacerProperties.thy ===== *)
theory PlacerProperties
  imports Placement
begin

text \<open>
  Properties of the greedy placer over the model's own functions, and the places where it
  promises less than the code around it seems to expect.
\<close>

section \<open>Primitives\<close>

text \<open>Placing a primitive that is not placed yet never trips an assertion of the placer. The
  result carries resources exactly on success, and these are well formed, take nothing back,
  and add no structure but the one placed.\<close>

theorem primitive_placement_sound:
  assumes "ds_primitive d" "pipeline_wf P" "pl_stages P \<noteq> []" "\<not> already_placed P (ds_id_of d)"
  shows "\<exists>res. find_placements_primitive P d deps = Inr res \<and>
    (status res = Success \<longleftrightarrow> resources res \<noteq> None) \<and>
    (\<forall>r. resources res = Some r \<longrightarrow> resources_wf (pl_properties P) r \<and>
       stages_grow {ds_id_of d} (pl_stages P) (res_stages r))"
proof -
  have "placeable P (ds_id_of d)" using assms by (simp add: placeable_def)
  from any_placer.contract [OF assms(1) this, of deps] show ?thesis
    by (auto simp: meets_contract_def sound_placement_def)
qed

theorem primitive_placement_sound_witness:
  "\<exists>res. find_placements_primitive (short_pipeline 2) (TableDS sample_table) {} = Inr res"
  using primitive_placement_sound [of "TableDS sample_table" "short_pipeline 2" "{}"]
    short_pipeline_placeable [of "''t''"] by (auto simp: placeable_def sample_table_def)

text \<open>Every stage a primitive is placed in comes after some stage of each of its
  dependencies.\<close>

lemma primitive_follows_dependencies:
  assumes "ds_primitive d" "pipeline_wf P" "pl_stages P \<noteq> []" "\<not> already_placed P (ds_id_of d)"
    and "find_placements_primitive P d deps = Inr res" "resources res = Some r"
    and "s \<in> placed_in (res_stages r) (ds_id_of d)" "dep \<in> deps"
  shows "\<exists>u \<in> placed_in (pl_stages P) dep. u < s"
proof -
  have "placeable P (ds_id_of d)" using assms(2-4) by (simp add: placeable_def)
  from any_placer.dependencies_first [OF assms(1) this assms(5-8)] show ?thesis .
qed

text \<open>A register that depends on the two-stage table, on a switch with three stages.\<close>

definition spanned_pipeline :: pipeline where
  "spanned_pipeline = (short_pipeline 3)\<lparr>pl_resources := \<lparr>res_stages =
     res_stages table_resources @
       [\<lparr>stage_id = 2, available_sram = 10485760, available_tcam = 540672,
         available_map_ram = 6291456, available_exact_match_xbar = 1024,
         available_logical_ids = 16, stage_ds = {}\<rparr>], used_digests = 0\<rparr>\<rparr>"

definition spanned_register_resources :: pipeline_resources where
  "spanned_register_resources = \<lparr>res_stages =
     [\<lparr>stage_id = 0, available_sram = 0, available_tcam = 540672,
       available_map_ram = 6291456, available_exact_match_xbar = 992,
       available_logical_ids = 15, stage_ds = {''t''}\<rparr>,
      \<lparr>stage_id = 1, available_sram = 4063168, available_tcam = 540672,
       available_map_ram = 6160320, available_exact_match_xbar = 960,
       available_logical_ids = 13, stage_ds = {''r'', ''t''}\<rparr>,
      \<lparr>stage_id = 2, available_sram = 10485760, available_tcam = 540672,
       available_map_ram = 6291456, available_exact_match_xbar = 1024,
       available_logical_ids = 16, stage_ds = {}\<rparr>], used_digests = 0\<rparr>"

lemma placed_in_list [simp]:
  "placed_in [] i = {}"
  "placed_in (s # ss) i = (if i \<in> stage_ds s then {stage_id s} else {}) \<union> placed_in ss i"
  by (auto simp: placed_in_def)

lemma spanned_pipeline_wf:
  "pipeline_wf spanned_pipeline" "pl_stages spanned_pipeline \<noteq> []"
  "\<not> already_placed spanned_pipeline ''r''"
proof -
  have "[0..<3] = [0, 1, 2 :: nat]" by (simp add: upt_rec)
  then show "pipeline_wf spanned_pipeline"
    by (simp add: pipeline_wf_def spanned_pipeline_def resources_wf_def table_resources_def
        stages_numbered_def stage_within_def word_le_nat_alt)
qed (simp_all add: spanned_pipeline_def already_placed_def get_placed_stage_def
    placed_stage_in_def table_resources_def)

lemma spanned_register_placed:
  "find_placements_reg spanned_pipeline sample_register {''t''} =
     Inr (result_of_resources spanned_register_resources)"
  using spanned_pipeline_wf(3) unfolding find_placements_reg_def sample_register_sram
  by (simp add: sample_register_def align_to_byte_def register_num_logical_ids_def
      get_soonest_stage_satisfying_all_dependencies_def spanned_pipeline_def
      table_resources_def reg_loop.simps concretize_placements_def concretize_step_def
      charge_stage_def spanned_register_resources_def)

lemma primitive_follows_dependencies_witness:
  "\<exists>u \<in> placed_in (pl_stages spanned_pipeline) ''t''. u < 1"
proof (rule primitive_follows_dependencies [OF _ spanned_pipeline_wf(1,2)])
  show "ds_primitive (RegisterDS sample_register)" by simp
  show "\<not> already_placed spanned_pipeline (ds_id_of (RegisterDS sample_register))"
    using spanned_pipeline_wf(3) by (simp add: sample_register_id)
  show "find_placements_primitive spanned_pipeline (RegisterDS sample_register) {''t''} =
      Inr (result_of_resources spanned_register_resources)"
    by (simp add: spanned_register_placed)
  show "resources (result_of_resources spanned_register_resources) = Some spanned_register_resources"
    by (simp add: result_of_resources_def)
qed (simp_all add: sample_register_id spanned_register_resources_def)

text \<open>The stage the placer starts from is the first one before which every dependency occurs
  at least once.\<close>

lemma soonest_stage_is_least:
  assumes "pipeline_wf P" "deps \<noteq> {}"
    and "0 \<le> get_soonest_stage_satisfying_all_dependencies P deps"
  shows "(\<forall>d \<in> deps. \<exists>s \<in> placed_in (pl_stages P) d.
      s < get_soonest_stage_satisfying_all_dependencies P deps) \<and>
    (\<forall>j < get_soonest_stage_satisfying_all_dependencies P deps.
      \<not> (\<forall>d \<in> deps. \<exists>s \<in> placed_in (pl_stages P) d. s < j))"
  using soonest_stage_spec [of P deps] assms by (auto simp: pipeline_wf_def resources_wf_def)

lemma spanned_soonest: "get_soonest_stage_satisfying_all_dependencies spanned_pipeline {''t''} = 1"
  by (simp add: get_soonest_stage_satisfying_all_dependencies_def spanned_pipeline_def
      table_resources_def)

lemma soonest_stage_is_least_witness: "\<exists>s \<in> placed_in (pl_stages spanned_pipeline) ''t''. s < 1"
  using soonest_stage_is_least [OF spanned_pipeline_wf(1), of "{''t''}"] spanned_soonest by auto

text \<open>A table may be spread over stages 0 and 1, and the register that depends on it is still
  placed in stage 1: only the first part of the table comes before it.\<close>

theorem dependent_shares_stage_with_spread_table:
  "find_placements_reg spanned_pipeline sample_register {''t''} =
     Inr (result_of_resources spanned_register_resources) \<and>
   placed_in (res_stages spanned_register_resources) ''t'' = {0, 1} \<and>
   placed_in (res_stages spanned_register_resources) ''r'' = {1}"
proof (intro conjI)
  show "find_placements_reg spanned_pipeline sample_register {''t''} =
     Inr (result_of_resources spanned_register_resources)" by (rule spanned_register_placed)
qed (auto simp: spanned_register_resources_def)

section \<open>Composite structures\<close>

lemma ordered_levels_append:
  "ordered_levels ss deps (pre @ lvls) \<Longrightarrow>
   ordered_levels ss (deps \<union> ds_id_of ` set (concat pre)) lvls"
proof (induction pre arbitrary: deps)
  case (Cons a pre)
  from Cons.IH [of "deps \<union> ds_id_of ` set a"] Cons.prems show ?case by (simp add: image_Un Un_assoc)
qed simp

text \<open>A sketch with two rows, on a switch with two stages.\<close>

definition sketch_register :: "ds_id \<Rightarrow> register" where
  "sketch_register i = sample_register\<lparr>reg_id := i\<rparr>"

definition sample_sketch :: ds where
  "sample_sketch =
     CountMinSketchDS \<lparr>cms_id = ''c'', cms_width = 2, cms_height = 2, cms_hash_size = 1,
       cms_hashes = [new_hash ''h0'' [32] 1, new_hash ''h1'' [32] 1],
       cms_rows = [sketch_register ''r0'', sketch_register ''r1'']\<rparr>"

definition sketch_resources :: pipeline_resources where
  "sketch_resources =
     \<lparr>res_stages =
        [\<lparr>stage_id = 0, available_sram = 10354624, available_tcam = 540672,
          available_map_ram = 6160320, available_exact_match_xbar = 960,
          available_logical_ids = 13, stage_ds = {''r0'', ''h0''}\<rparr>,
         \<lparr>stage_id = 1, available_sram = 10354624, available_tcam = 540672,
          available_map_ram = 6160320, available_exact_match_xbar = 960,
          available_logical_ids = 13, stage_ds = {''r1'', ''h1''}\<rparr>],
      used_digests = 0\<rparr>"

lemma sample_sketch_levels:
  "get_internal_primitive sample_sketch =
     Inr [[HashDS (new_hash ''h0'' [32] 1), RegisterDS (sketch_register ''r0'')],
          [HashDS (new_hash ''h1'' [32] 1), RegisterDS (sketch_register ''r1'')]]"
  by (simp add: sample_sketch_def get_internal_primitive_eq cms_get_internal_def)

lemma sample_sketch_placed:
  "find_placements (short_pipeline 2) sample_sketch {} = Inr (result_of_resources sketch_resources)"
proof -
  have "\<not> ds_primitive sample_sketch" by (simp add: sample_sketch_def)
  then show ?thesis
    by (simp add: find_placements_eq detect_changes_to_already_placed_data_structure_def
        already_requested_def sample_sketch_levels find_placements_hash_def find_placements_reg_def
        already_placed_def get_placed_stage_def placed_stage_in_def
        get_soonest_stage_satisfying_all_dependencies_def new_pipeline_resources_def two_indices
        new_hash_def hash_match_xbar_consume_def align_to_byte_def sketch_register_def
        sample_register_def register_consumed_sram_def register_num_logical_ids_def
        reg_loop.simps concretize_placements_def concretize_step_def charge_stage_def
        result_of_resources_def sketch_resources_def)
qed

text \<open>The levels of a composite structure that is placed for the first time are ordered: a
  member comes, in each of its stages, after some stage of every dependency of the structure
  and of every member of the earlier levels.\<close>

lemma composite_levels_ordered:
  assumes "pipeline_wf P" "pl_stages P \<noteq> []" "\<not> ds_primitive d" "\<not> already_requested P (ds_id_of d)"
    and "find_placements P d deps = Inr res" "resources res = Some r"
    and "get_internal_primitive d = Inr (pre @ lvl # post)" "x \<in> set lvl"
    and "i \<in> deps \<union> ds_id_of ` set (concat pre)" "s \<in> placed_in (res_stages r) (ds_id_of x)"
  shows "\<exists>u \<in> placed_in (res_stages r) i. u < s"
proof -
  from assms(3,4,5,7) have "place_levels P (pre @ lvl # post) deps = Inr res"
    by (simp add: find_placements_eq detect_changes_to_already_placed_data_structure_def)
  from place_levels_outcome [OF _ this] assms(1,2,6)
  have "ordered_levels (res_stages r) deps (pre @ lvl # post)"
    by (simp add: usable_def outcome_def levels_sound_def)
  from ordered_levels_append [OF this] assms(8)
  have "follows (res_stages r) (deps \<union> ds_id_of ` set (concat pre)) (ds_id_of x)" by simp
  with assms(9,10) show ?thesis unfolding follows_def by blast
qed

lemma composite_levels_ordered_witness:
  "\<exists>u \<in> placed_in (res_stages sketch_resources) ''h0''. u < 1"
proof (rule composite_levels_ordered [OF short_pipeline_wf _ _ _ sample_sketch_placed])
  show "resources (result_of_resources sketch_resources) = Some sketch_resources"
    by (simp add: result_of_resources_def)
  show "get_internal_primitive sample_sketch =
      Inr ([[HashDS (new_hash ''h0'' [32] 1), RegisterDS (sketch_register ''r0'')]] @
        [HashDS (new_hash ''h1'' [32] 1), RegisterDS (sketch_register ''r1'')] # [])"
    by (simp add: sample_sketch_levels)
  show "RegisterDS (sketch_register ''r1'') \<in>
      set [HashDS (new_hash ''h1'' [32] 1), RegisterDS (sketch_register ''r1'')]" by simp
qed (use short_pipeline_placeable [of "''c''"] in
  \<open>simp_all add: placeable_def sample_sketch_def already_requested_def new_hash_def
    sketch_register_def sketch_resources_def\<close>)



section \<open>What is not accounted for\<close>

text \<open>Placing an LPM table leaves the TCAM of every stage as it was: what it uses is never
  charged, so any number of them fits as long as each fits alone.\<close>

theorem lpm_never_charges_tcam:
  assumes "pipeline_wf P" "pl_stages P \<noteq> []" "\<not> already_placed P (lpm_id l)"
    and "find_placements_lpm P l deps = Inr res" "resources res = Some r"
  shows "map available_tcam (res_stages r) = map available_tcam (pl_stages P)"
proof -
  have "placeable P (lpm_id l)" using assms(1-3) by (simp add: placeable_def)
  from lpm_charged [OF this assms(4,5)] obtain ps where "charged P deps (lpm_id l) LPM ps r" .
  moreover have "available_tcam (charge_all ps s) = available_tcam s" for s
    by (simp add: charge_all_def split: option.split)
  ultimately show ?thesis by (simp add: charged_def)
qed

definition sample_lpm_resources :: pipeline_resources where
  "sample_lpm_resources =
     \<lparr>res_stages =
        [\<lparr>stage_id = 0, available_sram = 10485760, available_tcam = 540672,
          available_map_ram = 6291456, available_exact_match_xbar = 992,
          available_logical_ids = 15, stage_ds = {''l''}\<rparr>,
         \<lparr>stage_id = 1, available_sram = 10485760, available_tcam = 540672,
          available_map_ram = 6291456, available_exact_match_xbar = 1024,
          available_logical_ids = 16, stage_ds = {}\<rparr>],
      used_digests = 0\<rparr>"

lemma sample_lpm_placed:
  "find_placements_lpm (short_pipeline 2) (new_lpm ''l'' 16384) {} =
     Inr (result_of_resources sample_lpm_resources)"
  by (simp add: find_placements_lpm_def already_placed_def get_placed_stage_def
      placed_stage_in_def get_soonest_stage_satisfying_all_dependencies_def
      new_pipeline_resources_def two_indices new_lpm_def lpm_match_xbar_consume_def
      lpm_consumed_tcam_def align_to_byte_def tcam_loop.simps concretize_placements_def
      concretize_step_def charge_stage_def result_of_resources_def sample_lpm_resources_def)

theorem lpm_never_charges_tcam_witness:
  "map available_tcam (res_stages sample_lpm_resources) =
     map available_tcam (pl_stages (short_pipeline 2))"
  using short_pipeline_placeable [of "''l''"]
  by (intro lpm_never_charges_tcam [OF short_pipeline_wf _ _ sample_lpm_placed])
    (simp_all add: placeable_def new_lpm_def result_of_resources_def)

definition huge_table :: table where
  "huge_table =
     \<lparr>tbl_id = ''t'', tbl_capacity = 33554432, tbl_keys = [64, 64], tbl_params = [],
      tbl_time_aware = No\<rparr>"

text \<open>The size of a table is computed in 32 bits: a table of \<open>2 ^ 25\<close> entries of 128 bits
  asks for no SRAM at all and is placed in one stage that keeps all of its SRAM.\<close>

theorem huge_table_costs_nothing:
  "find_placements_table (short_pipeline 1) huge_table {} =
     Inr (result_of_resources \<lparr>res_stages =
       [\<lparr>stage_id = 0, available_sram = 10485760, available_tcam = 540672,
         available_map_ram = 6291456, available_exact_match_xbar = 896,
         available_logical_ids = 15, stage_ds = {''t''}\<rparr>], used_digests = 0\<rparr>)"
  by (simp add: find_placements_table_def huge_table_def table_match_xbar_consume_def
      table_consumed_sram_def table_consumed_sram_per_entry_def align_to_byte_def
      already_placed_def get_placed_stage_def placed_stage_in_def
      get_soonest_stage_satisfying_all_dependencies_def new_pipeline_resources_def
      sram_loop.simps concretize_placements_def concretize_step_def charge_stage_def
      result_of_resources_def)

end
