(* ===== verification/TNA_Parser.thy ===== *)
theory TNA_Parser
  imports Prelude "HOL-Library.Monad_Syntax"
begin

text \<open>
  The packet parser that is built along the execution plan (\<^verbatim>\<open>TNA/Parser.h\<close>): a graph of
  states linked by raw pointers, hence an explicit heap, and an index from the identifiers
  of BDD nodes to states. Expressions are values of a type parameter; whether two are
  always equal is decided by the SMT solver, which is the parameter \<open>eq\<close>.
\<close>

section \<open>State\<close>

type_synonym bdd_node_id_t = u64
type_synonym state_ptr = nat

record 'e parser_selection =
  target :: 'e
  sel_values :: "'e list"
  negated :: bool

datatype 'e parser_body =
    ParserStateExtract 'e "state_ptr option"
  | ParserStateSelect "'e parser_selection list" "state_ptr option" "state_ptr option"
  | ParserStateTerminate bool

record 'e parser_state =
  ids :: "bdd_node_id_t set"
  body :: "'e parser_body"

type_synonym 'e parser_heap = "state_ptr \<rightharpoonup> 'e parser_state"

record 'e parser =
  p_heap :: "'e parser_heap"
  p_fresh :: state_ptr
  initial_state :: "state_ptr option"
  states :: "bdd_node_id_t \<rightharpoonup> state_ptr"

definition new_parser :: "'e parser" where
  "new_parser = \<lparr>p_heap = Map.empty, p_fresh = 0, initial_state = None, states = Map.empty\<rparr>"

definition load :: "'e parser_heap \<Rightarrow> state_ptr \<Rightarrow> 'e parser_state result" where
  "load h p = (case h p of None \<Rightarrow> Inl Undefined | Some st \<Rightarrow> Inr st)"

text \<open>\<^verbatim>\<open>new ParserState...(id, ...)\<close>\<close>

definition new_state ::
  "'e parser \<Rightarrow> bdd_node_id_t \<Rightarrow> 'e parser_body \<Rightarrow> 'e parser \<times> state_ptr" where
  "new_state P id' b =
     (P\<lparr>p_heap := (p_heap P)(p_fresh P \<mapsto> \<lparr>ids = {id'}, body = b\<rparr>), p_fresh := p_fresh P + 1\<rparr>,
      p_fresh P)"

section \<open>Equality of states\<close>

text \<open>
  The loop over the values of the \<open>i\<close>-th selection compares, in each of its iterations, the
  value at index \<open>i\<close>, which may lie outside of the vector.
\<close>

fun values_equal :: "('e \<Rightarrow> 'e \<Rightarrow> bool) \<Rightarrow> nat \<Rightarrow> nat \<Rightarrow> 'e list \<Rightarrow> 'e list \<Rightarrow> bool result" where
  "values_equal eq i 0 xs ys = Inr True"
| "values_equal eq i (Suc n) xs ys =
     (if i < length xs \<and> i < length ys
      then if eq (xs ! i) (ys ! i) then values_equal eq i n xs ys else Inr False
      else Inl Undefined)"

fun selections_equal ::
  "('e \<Rightarrow> 'e \<Rightarrow> bool) \<Rightarrow> nat \<Rightarrow> 'e parser_selection list \<Rightarrow> 'e parser_selection list \<Rightarrow> bool result"
where
  "selections_equal eq i (s # ss) (t # ts) =
     (if \<not> eq (target s) (target t) then Inr False
      else if length (sel_values s) \<noteq> length (sel_values t) then Inr False
      else rbind (values_equal eq i (length (sel_values s)) (sel_values s) (sel_values t)) (\<lambda>b.
             if b then selections_equal eq (i + 1) ss ts else Inr False))"
| "selections_equal eq i [] ts = Inr True"
| "selections_equal eq i ss [] = Inr True"

fun body_equals :: "('e \<Rightarrow> 'e \<Rightarrow> bool) \<Rightarrow> 'e parser_body \<Rightarrow> 'e parser_body \<Rightarrow> bool result" where
  "body_equals eq (ParserStateExtract h n) (ParserStateExtract h' n') = Inr (eq h h')"
| "body_equals eq (ParserStateSelect ss t f) (ParserStateSelect ss' t' f') =
     (if length ss \<noteq> length ss' then Inr False else selections_equal eq 0 ss ss')"
| "body_equals eq (ParserStateTerminate a) (ParserStateTerminate a') = Inr (a' = a)"
| "body_equals eq b b' = Inr False"

section \<open>Linking states\<close>

text \<open>The fields \<^verbatim>\<open>set_next\<close> is called on, by reference.\<close>

datatype slot = Next state_ptr | On_True state_ptr | On_False state_ptr

fun read_slot :: "'e parser_heap \<Rightarrow> slot \<Rightarrow> state_ptr option result" where
  "read_slot h (Next p) =
     rbind (load h p) (\<lambda>st. case body st of ParserStateExtract e n \<Rightarrow> Inr n | _ \<Rightarrow> Inl Undefined)"
| "read_slot h (On_True p) =
     rbind (load h p) (\<lambda>st. case body st of ParserStateSelect ss t f \<Rightarrow> Inr t | _ \<Rightarrow> Inl Undefined)"
| "read_slot h (On_False p) =
     rbind (load h p) (\<lambda>st. case body st of ParserStateSelect ss t f \<Rightarrow> Inr f | _ \<Rightarrow> Inl Undefined)"

fun write_body :: "slot \<Rightarrow> state_ptr \<Rightarrow> 'e parser_body \<Rightarrow> 'e parser_body result" where
  "write_body (Next p) q (ParserStateExtract e n) = Inr (ParserStateExtract e (Some q))"
| "write_body (On_True p) q (ParserStateSelect ss t f) = Inr (ParserStateSelect ss (Some q) f)"
| "write_body (On_False p) q (ParserStateSelect ss t f) = Inr (ParserStateSelect ss t (Some q))"
| "write_body s q b = Inl Undefined"

fun slot_owner :: "slot \<Rightarrow> state_ptr" where
  "slot_owner (Next p) = p"
| "slot_owner (On_True p) = p"
| "slot_owner (On_False p) = p"

definition write_slot :: "'e parser_heap \<Rightarrow> slot \<Rightarrow> state_ptr \<Rightarrow> 'e parser_heap result" where
  "write_slot h s q =
     rbind (load h (slot_owner s)) (\<lambda>st.
     rbind (write_body s q (body st)) (\<lambda>b.
       Inr (h(slot_owner s \<mapsto> st\<lparr>body := b\<rparr>))))"

text \<open>The first branch of \<^verbatim>\<open>set_next\<close>: the new state is merged into an equal one and freed.\<close>

definition merge_state :: "'e parser \<Rightarrow> state_ptr \<Rightarrow> state_ptr \<Rightarrow> 'e parser result" where
  "merge_state P next_state new_st =
     rbind (load (p_heap P) new_st) (\<lambda>n.
     rbind (load (p_heap P) next_state) (\<lambda>c.
     assert_that (card (ids n) = 1)
     (let new_id = the_elem (ids n) in
      assert_that (new_id \<notin> ids c)
        (Inr (P\<lparr>p_heap := (p_heap P)(next_state \<mapsto> c\<lparr>ids := insert new_id (ids c)\<rparr>, new_st := None),
                states := (states P)(new_id \<mapsto> next_state)\<rparr>)))))"

text \<open>
  The rest: the new state replaces the old one, which is linked behind it when it was an
  accepting state. Of a condition both branches are set to \<^verbatim>\<open>next_state\<close>, which by then is
  the new state itself.
\<close>

definition relink :: "'e parser_heap \<Rightarrow> state_ptr \<Rightarrow> state_ptr \<Rightarrow> 'e parser_heap result" where
  "relink h old new_st =
     rbind (load h new_st) (\<lambda>n.
       case body n of
         ParserStateExtract e nx \<Rightarrow>
           assert_that (nx = None) (Inr (h(new_st \<mapsto> n\<lparr>body := ParserStateExtract e (Some old)\<rparr>)))
       | ParserStateSelect ss t f \<Rightarrow>
           assert_that (t = None)
           (assert_that (f = None)
             (Inr (h(new_st \<mapsto> n\<lparr>body := ParserStateSelect ss (Some new_st) (Some new_st)\<rparr>))))
       | ParserStateTerminate a \<Rightarrow> Inl Panicked)"

definition replace_state ::
  "'e parser \<Rightarrow> slot \<Rightarrow> state_ptr option \<Rightarrow> state_ptr \<Rightarrow> 'e parser result" where
  "replace_state P s old_next_state new_st =
     rbind (write_slot (p_heap P) s new_st) (\<lambda>h.
       case old_next_state of
         None \<Rightarrow> Inr (P\<lparr>p_heap := h\<rparr>)
       | Some old \<Rightarrow>
           rbind (load h old) (\<lambda>o'.
             case body o' of
               ParserStateTerminate acc \<Rightarrow>
                 assert_that acc (rbind (relink h old new_st) (\<lambda>h'. Inr (P\<lparr>p_heap := h'\<rparr>)))
             | _ \<Rightarrow> Inr (P\<lparr>p_heap := h\<rparr>)))"

definition set_next ::
  "('e \<Rightarrow> 'e \<Rightarrow> bool) \<Rightarrow> 'e parser \<Rightarrow> slot \<Rightarrow> state_ptr \<Rightarrow> 'e parser result" where
  "set_next eq P s new_st =
     rbind (read_slot (p_heap P) s) (\<lambda>next_state.
       case next_state of
         None \<Rightarrow> replace_state P s None new_st
       | Some cur \<Rightarrow>
           rbind (load (p_heap P) cur) (\<lambda>c.
           rbind (load (p_heap P) new_st) (\<lambda>n.
           rbind (body_equals eq (body c) (body n)) (\<lambda>same.
             if same then merge_state P cur new_st else replace_state P s (Some cur) new_st))))"

section \<open>Adding states\<close>

definition add_initial_state :: "'e parser \<Rightarrow> state_ptr \<Rightarrow> 'e parser result" where
  "add_initial_state P new_st =
     assert_that (initial_state P = None)
     (assert_that (states P = Map.empty)
     (rbind (load (p_heap P) new_st) (\<lambda>n.
      assert_that (ids n \<noteq> {})
        (Inr (P\<lparr>initial_state := Some new_st,
                states := (states P)(the_elem (ids n) \<mapsto> new_st)\<rparr>)))))"

definition add_state ::
  "('e \<Rightarrow> 'e \<Rightarrow> bool) \<Rightarrow> 'e parser \<Rightarrow> bdd_node_id_t \<Rightarrow> state_ptr \<Rightarrow> bool option \<Rightarrow> 'e parser result"
where
  "add_state eq P leaf_id new_st direction =
     assert_that (initial_state P \<noteq> None)
     (assert_that (states P leaf_id \<noteq> None)
     (rbind (load (p_heap P) new_st) (\<lambda>n.
      assert_that (ids n \<noteq> {})
      (assert_that (\<forall>i \<in> ids n. states P i = None)
      (let P1 = P\<lparr>states := (states P)(the_elem (ids n) \<mapsto> new_st)\<rparr> in
       case states P1 leaf_id of
         None \<Rightarrow> Inl Undefined
       | Some leaf \<Rightarrow>
           rbind (load (p_heap P1) leaf) (\<lambda>st.
             case body st of
               ParserStateExtract e nx \<Rightarrow>
                 assert_that (direction = None) (set_next eq P1 (Next leaf) new_st)
             | ParserStateSelect ss t f \<Rightarrow>
                 (case direction of
                    None \<Rightarrow> Inl Assert_Failed
                  | Some d \<Rightarrow> set_next eq P1 (if d then On_True leaf else On_False leaf) new_st)
             | ParserStateTerminate a \<Rightarrow> Inl Panicked))))))"

definition already_terminated_initial :: "'e parser \<Rightarrow> bool \<Rightarrow> bool result" where
  "already_terminated_initial P accepted =
     (case initial_state P of
        None \<Rightarrow> Inr False
      | Some p \<Rightarrow>
          rbind (load (p_heap P) p) (\<lambda>st.
            case body st of
              ParserStateTerminate a \<Rightarrow> assert_that (a = accepted) (Inr True)
            | _ \<Rightarrow> Inl Assert_Failed))"

definition already_terminated ::
  "'e parser \<Rightarrow> bdd_node_id_t \<Rightarrow> bool option \<Rightarrow> bool \<Rightarrow> bool result" where
  "already_terminated P leaf_id direction accepted =
     assert_that (initial_state P \<noteq> None)
     (case states P leaf_id of
        None \<Rightarrow> Inl Assert_Failed
      | Some leaf \<Rightarrow>
          rbind (load (p_heap P) leaf) (\<lambda>st.
            case body st of
              ParserStateExtract e nx \<Rightarrow>
                assert_that (direction = None)
                (case nx of
                   None \<Rightarrow> Inr False
                 | Some p \<Rightarrow>
                     rbind (load (p_heap P) p) (\<lambda>nst.
                       case body nst of
                         ParserStateTerminate a \<Rightarrow> assert_that (a = accepted) (Inr True)
                       | _ \<Rightarrow> Inr False))
            | ParserStateSelect ss t f \<Rightarrow>
                (case direction of
                   None \<Rightarrow> Inl Assert_Failed
                 | Some d \<Rightarrow>
                     (case (if d then t else f) of
                        None \<Rightarrow> Inr False
                      | Some p \<Rightarrow>
                          rbind (load (p_heap P) p) (\<lambda>nst.
                            case body nst of
                              ParserStateTerminate a \<Rightarrow> Inr True
                            | _ \<Rightarrow> Inr False)))
            | ParserStateTerminate a \<Rightarrow> assert_that (a = accepted) (Inr True)))"

section \<open>The public operations\<close>

definition add_extract_initial :: "'e parser \<Rightarrow> bdd_node_id_t \<Rightarrow> 'e \<Rightarrow> 'e parser result" where
  "add_extract_initial P id' hdr =
     (let (P1, p) = new_state P id' (ParserStateExtract hdr None) in add_initial_state P1 p)"

definition add_extract ::
  "('e \<Rightarrow> 'e \<Rightarrow> bool) \<Rightarrow> 'e parser \<Rightarrow> bdd_node_id_t \<Rightarrow> bdd_node_id_t \<Rightarrow> 'e \<Rightarrow> bool option \<Rightarrow>
   'e parser result" where
  "add_extract eq P leaf_id id' hdr direction =
     (let (P1, p) = new_state P id' (ParserStateExtract hdr None)
      in add_state eq P1 leaf_id p direction)"

definition add_select_initial ::
  "'e parser \<Rightarrow> bdd_node_id_t \<Rightarrow> 'e parser_selection list \<Rightarrow> 'e parser result" where
  "add_select_initial P id' selections =
     (let (P1, p) = new_state P id' (ParserStateSelect selections None None)
      in add_initial_state P1 p)"

definition add_select ::
  "('e \<Rightarrow> 'e \<Rightarrow> bool) \<Rightarrow> 'e parser \<Rightarrow> bdd_node_id_t \<Rightarrow> bdd_node_id_t \<Rightarrow>
   'e parser_selection list \<Rightarrow> bool option \<Rightarrow> 'e parser result" where
  "add_select eq P leaf_id id' selections direction =
     (let (P1, p) = new_state P id' (ParserStateSelect selections None None)
      in add_state eq P1 leaf_id p direction)"

definition terminate_initial :: "bool \<Rightarrow> 'e parser \<Rightarrow> bdd_node_id_t \<Rightarrow> 'e parser result" where
  "terminate_initial accepted P id' =
     rbind (already_terminated_initial P accepted) (\<lambda>already.
       if already then Inr P
       else let (P1, p) = new_state P id' (ParserStateTerminate accepted) in add_initial_state P1 p)"

definition terminate_at ::
  "bool \<Rightarrow> ('e \<Rightarrow> 'e \<Rightarrow> bool) \<Rightarrow> 'e parser \<Rightarrow> bdd_node_id_t \<Rightarrow> bdd_node_id_t \<Rightarrow> bool option \<Rightarrow>
   'e parser result" where
  "terminate_at accepted eq P leaf_id id' direction =
     rbind (already_terminated P leaf_id direction accepted) (\<lambda>already.
       if already then Inr P
       else let (P1, p) = new_state P id' (ParserStateTerminate accepted)
            in add_state eq P1 leaf_id p direction)"

definition accept_initial :: "'e parser \<Rightarrow> bdd_node_id_t \<Rightarrow> 'e parser result" where
  "accept_initial P id' = terminate_initial True P id'"

definition reject_initial :: "'e parser \<Rightarrow> bdd_node_id_t \<Rightarrow> 'e parser result" where
  "reject_initial P id' = terminate_initial False P id'"

definition accept ::
  "('e \<Rightarrow> 'e \<Rightarrow> bool) \<Rightarrow> 'e parser \<Rightarrow> bdd_node_id_t \<Rightarrow> bdd_node_id_t \<Rightarrow> bool option \<Rightarrow>
   'e parser result" where
  "accept eq P leaf_id id' direction = terminate_at True eq P leaf_id id' direction"

definition reject ::
  "('e \<Rightarrow> 'e \<Rightarrow> bool) \<Rightarrow> 'e parser \<Rightarrow> bdd_node_id_t \<Rightarrow> bdd_node_id_t \<Rightarrow> bool option \<Rightarrow>
   'e parser result" where
  "reject eq P leaf_id id' direction = terminate_at False eq P leaf_id id' direction"

section \<open>Well-formed parsers\<close>

text \<open>
  Every identifier leads to a live state that carries it, every live state is indexed under
  all its identifiers, and every link leads to a live state.
\<close>

fun succs :: "'e parser_body \<Rightarrow> state_ptr set" where
  "succs (ParserStateExtract e n) = set_option n"
| "succs (ParserStateSelect ss t f) = set_option t \<union> set_option f"
| "succs (ParserStateTerminate a) = {}"

definition heap_wf ::
  "'e parser_heap \<Rightarrow> state_ptr \<Rightarrow> state_ptr option \<Rightarrow> (bdd_node_id_t \<rightharpoonup> state_ptr) \<Rightarrow> bool" where
  "heap_wf h n init m \<longleftrightarrow>
     (\<forall>i p. m i = Some p \<longrightarrow> (\<exists>st. h p = Some st \<and> i \<in> ids st)) \<and>
     (\<forall>p st. h p = Some st \<longrightarrow> p < n \<and> ids st \<noteq> {} \<and> (\<forall>i \<in> ids st. m i = Some p) \<and>
        (\<forall>q \<in> succs (body st). h q \<noteq> None)) \<and>
     (\<forall>p. init = Some p \<longrightarrow> h p \<noteq> None) \<and> (init = None \<longrightarrow> h = Map.empty)"

definition parser_wf :: "'e parser \<Rightarrow> bool" where
  "parser_wf P \<longleftrightarrow> heap_wf (p_heap P) (p_fresh P) (initial_state P) (states P)"

lemma parser_wf_new: "parser_wf new_parser"
  by (simp add: parser_wf_def heap_wf_def new_parser_def)

text \<open>A state nothing points to.\<close>

definition unlinked :: "'e parser_heap \<Rightarrow> state_ptr option \<Rightarrow> state_ptr \<Rightarrow> bool" where
  "unlinked h init new_st \<longleftrightarrow>
     init \<noteq> Some new_st \<and> (\<forall>p st. h p = Some st \<longrightarrow> new_st \<notin> succs (body st))"

lemma heap_wfD:
  assumes "heap_wf h n init m"
  shows heap_wf_index: "m i = Some p \<Longrightarrow> \<exists>st. h p = Some st \<and> i \<in> ids st"
    and heap_wf_state: "h p = Some st \<Longrightarrow> p < n \<and> ids st \<noteq> {} \<and> (\<forall>i \<in> ids st. m i = Some p)"
    and heap_wf_succ: "h p = Some st \<Longrightarrow> q \<in> succs (body st) \<Longrightarrow> \<exists>st'. h q = Some st'"
    and heap_wf_init: "init = Some p \<Longrightarrow> \<exists>st. h p = Some st"
    and heap_wf_empty: "init = None \<Longrightarrow> h = Map.empty"
  using assms [unfolded heap_wf_def] by blast+

lemma heap_wfI:
  assumes "\<And>i p. m i = Some p \<Longrightarrow> \<exists>st. h p = Some st \<and> i \<in> ids st"
    and "\<And>p st. h p = Some st \<Longrightarrow> p < n \<and> ids st \<noteq> {} \<and> (\<forall>i \<in> ids st. m i = Some p)"
    and "\<And>p st q. h p = Some st \<Longrightarrow> q \<in> succs (body st) \<Longrightarrow> \<exists>st'. h q = Some st'"
    and "\<And>p. init = Some p \<Longrightarrow> \<exists>st. h p = Some st"
    and "init = None \<Longrightarrow> h = Map.empty"
  shows "heap_wf h n init m"
  using assms unfolding heap_wf_def by blast

lemma heap_wf_body:
  assumes wf: "heap_wf h n init m" and p: "h p = Some st"
    and b: "\<And>q. q \<in> succs b \<Longrightarrow> \<exists>st'. h q = Some st'"
  shows "heap_wf (h(p \<mapsto> st\<lparr>body := b\<rparr>)) n init m"
proof (rule heap_wfI)
  let ?h = "h(p \<mapsto> st\<lparr>body := b\<rparr>)"
  have live: "\<exists>st'. ?h q = Some st'" if "h q = Some st1" for q st1 using that by simp
  fix i q
  {
    assume "m i = Some q"
    from heap_wf_index [OF wf this] obtain st' where "h q = Some st'" "i \<in> ids st'" by blast
    with p show "\<exists>st'. ?h q = Some st' \<and> i \<in> ids st'" by (cases "q = p") simp_all
  next
    assume "init = Some q"
    from heap_wf_init [OF wf this] live show "\<exists>st. ?h q = Some st" by blast
  next
    assume "init = None"
    from heap_wf_empty [OF wf this] p show "?h = Map.empty" by simp
  next
    fix st' assume *: "?h q = Some st'"
    show "q < n \<and> ids st' \<noteq> {} \<and> (\<forall>i \<in> ids st'. m i = Some q)"
      using heap_wf_state [OF wf] p * by (cases "q = p") auto
    fix r assume "r \<in> succs (body st')"
    with * heap_wf_succ [OF wf] b live show "\<exists>st. ?h r = Some st"
      by (cases "q = p") (fastforce, metis fun_upd_other)
  }
qed

lemma heap_wf_alloc:
  assumes wf: "heap_wf h n init m" and init: "init \<noteq> None" and i: "m i = None" and b: "succs b = {}"
  shows "heap_wf (h(n \<mapsto> \<lparr>ids = {i}, body = b\<rparr>)) (n + 1) init (m(i \<mapsto> n))"
    and "unlinked (h(n \<mapsto> \<lparr>ids = {i}, body = b\<rparr>)) init n"
proof -
  let ?st = "\<lparr>ids = {i}, body = b\<rparr>"
  let ?h = "h(n \<mapsto> ?st)"
  have fresh: "q \<noteq> n" if "h q = Some st" for q st using heap_wf_state [OF wf that] by auto
  show "unlinked ?h init n"
    unfolding unlinked_def
  proof (intro conjI allI impI)
    show "init \<noteq> Some n" using heap_wf_init [OF wf] fresh by blast
    fix p st assume "?h p = Some st"
    with b heap_wf_succ [OF wf, of p st n] fresh [of n] show "n \<notin> succs (body st)"
      by (cases "p = n") auto
  qed
  show "heap_wf ?h (n + 1) init (m(i \<mapsto> n))"
  proof (rule heap_wfI)
    fix j q
    {
      assume "(m(i \<mapsto> n)) j = Some q"
      then show "\<exists>st. ?h q = Some st \<and> j \<in> ids st"
        using heap_wf_index [OF wf, of j q] fresh by (cases "j = i") auto
    next
      assume "init = Some q"
      with heap_wf_init [OF wf this] show "\<exists>st. ?h q = Some st" by simp
    next
      assume "init = None"
      with init show "?h = Map.empty" by simp
    next
      fix st assume *: "?h q = Some st"
      show "q < n + 1 \<and> ids st \<noteq> {} \<and> (\<forall>j \<in> ids st. (m(i \<mapsto> n)) j = Some q)"
        using heap_wf_state [OF wf, of q] * i by (cases "q = n") auto
      fix r assume "r \<in> succs (body st)"
      with * b heap_wf_succ [OF wf, of q st r] show "\<exists>st. ?h r = Some st" by (cases "q = n") auto
    }
  qed
qed

lemma load_eq [simp]: "load h p = Inr st \<longleftrightarrow> h p = Some st"
  by (simp add: load_def split: option.splits)

lemma merge_state_wf:
  assumes wf: "parser_wf P" and new: "unlinked (p_heap P) (initial_state P) new_st" "cur \<noteq> new_st"
    and merged: "merge_state P cur new_st = Inr P'"
  shows "parser_wf P'"
proof -
  from merged obtain n c where n: "p_heap P new_st = Some n" and c: "p_heap P cur = Some c"
    and one: "card (ids n) = 1"
    and P': "P' = P\<lparr>p_heap := (p_heap P)(cur \<mapsto> c\<lparr>ids := insert (the_elem (ids n)) (ids c)\<rparr>, new_st := None),
                states := (states P)(the_elem (ids n) \<mapsto> cur)\<rparr>"
    by (auto simp: merge_state_def rbind_eq_Inr assert_that_eq_Inr Let_def)
  from one obtain i where i: "ids n = {i}" by (auto simp: card_1_singleton_iff)
  note wf' = wf [unfolded parser_wf_def]
  let ?h = "(p_heap P)(cur \<mapsto> c\<lparr>ids := insert i (ids c)\<rparr>, new_st := None)"
  have live: "\<exists>st. ?h q = Some st" if "p_heap P q = Some st1" "q \<noteq> new_st" for q st1
    using that by simp
  have "heap_wf ?h (p_fresh P) (initial_state P) ((states P)(i \<mapsto> cur))"
  proof (rule heap_wfI)
    fix j q
    {
      assume j: "((states P)(i \<mapsto> cur)) j = Some q"
      show "\<exists>st. ?h q = Some st \<and> j \<in> ids st"
      proof (cases "j = i")
        case True
        with j new(2) show ?thesis by simp
      next
        case False
        with j have "states P j = Some q" by simp
        from heap_wf_index [OF wf' this] obtain st where st: "p_heap P q = Some st" "j \<in> ids st"
          by blast
        have "q \<noteq> new_st" using st n i False by (metis option.inject singletonD)
        with st c show ?thesis by (cases "q = cur") simp_all
      qed
    next
      assume "initial_state P = Some q"
      with heap_wf_init [OF wf' this] live new(1) show "\<exists>st. ?h q = Some st"
        by (auto simp: unlinked_def)
    next
      assume "initial_state P = None"
      from heap_wf_empty [OF wf' this] n show "?h = Map.empty" by simp
    next
      fix st assume *: "?h q = Some st"
      then have q: "q \<noteq> new_st" by auto
      have ni: "states P i = Some new_st" using heap_wf_state [OF wf' n] i by simp
      show "q < p_fresh P \<and> ids st \<noteq> {} \<and> (\<forall>j \<in> ids st. ((states P)(i \<mapsto> cur)) j = Some q)"
        using heap_wf_state [OF wf', of q] * q c ni by (cases "q = cur") auto
      fix r assume r: "r \<in> succs (body st)"
      have "\<exists>st0. p_heap P q = Some st0 \<and> body st0 = body st"
        using * q c by (cases "q = cur") auto
      then obtain st0 where st0: "p_heap P q = Some st0" "body st0 = body st" by blast
      with r have mem: "r \<in> succs (body st0)" by simp
      then have "r \<noteq> new_st" using new(1) st0(1) unfolding unlinked_def by blast
      with heap_wf_succ [OF wf' st0(1) mem] live show "\<exists>st. ?h r = Some st" by blast
    }
  qed
  with P' i show ?thesis by (simp add: parser_wf_def)
qed

lemma write_body_succs:
  "write_body s q b = Inr b' \<Longrightarrow> succs b' \<subseteq> insert q (succs b)"
  by (cases "(s, q, b)" rule: write_body.cases) auto

lemma write_slot_wf:
  assumes wf: "heap_wf h n init m" and q: "h q = Some st" and w: "write_slot h s q = Inr h'"
  shows "heap_wf h' n init m" and "slot_owner s \<noteq> r \<Longrightarrow> h' r = h r"
    and "dom h' = dom h"
proof -
  from w obtain o' b where o': "h (slot_owner s) = Some o'" and b: "write_body s q (body o') = Inr b"
    and h': "h' = h(slot_owner s \<mapsto> o'\<lparr>body := b\<rparr>)"
    by (auto simp: write_slot_def rbind_eq_Inr)
  show "heap_wf h' n init m"
    unfolding h'
  proof (rule heap_wf_body [OF wf o'])
    fix r assume "r \<in> succs b"
    with write_body_succs [OF b] have "r = q \<or> r \<in> succs (body o')" by blast
    with q heap_wf_succ [OF wf o'] show "\<exists>st'. h r = Some st'" by blast
  qed
  show "slot_owner s \<noteq> r \<Longrightarrow> h' r = h r" "dom h' = dom h" using h' o' by auto
qed

lemma relink_wf:
  assumes wf: "heap_wf h n init m" and old: "h old = Some st" and r: "relink h old new_st = Inr h'"
  shows "heap_wf h' n init m"
proof -
  from r obtain nst where nst: "h new_st = Some nst" by (auto simp: relink_def rbind_eq_Inr)
  show ?thesis
  proof (cases "body nst")
    case (ParserStateExtract e nx)
    with r nst have "h' = h(new_st \<mapsto> nst\<lparr>body := ParserStateExtract e (Some old)\<rparr>)"
      by (simp add: relink_def assert_that_eq_Inr load_def)
    with heap_wf_body [OF wf nst, of "ParserStateExtract e (Some old)"] old show ?thesis by simp
  next
    case (ParserStateSelect ss t f)
    with r nst have "h' = h(new_st \<mapsto> nst\<lparr>body := ParserStateSelect ss (Some new_st) (Some new_st)\<rparr>)"
      by (simp add: relink_def assert_that_eq_Inr load_def)
    with heap_wf_body [OF wf nst, of "ParserStateSelect ss (Some new_st) (Some new_st)"] nst
    show ?thesis by simp
  next
    case (ParserStateTerminate a)
    with r nst show ?thesis by (simp add: relink_def load_def)
  qed
qed

lemma replace_state_wf:
  assumes wf: "parser_wf P" and new: "p_heap P new_st = Some n" "slot_owner s \<noteq> new_st"
    and cur: "\<And>c. cur = Some c \<Longrightarrow> \<exists>st. p_heap P c = Some st"
    and r: "replace_state P s cur new_st = Inr P'"
  shows "parser_wf P'"
proof -
  from r obtain h where h: "write_slot (p_heap P) s new_st = Inr h"
    by (auto simp: replace_state_def rbind_eq_Inr)
  note wf_h = write_slot_wf [OF wf [unfolded parser_wf_def] new(1) h]
  have plain: "parser_wf (P\<lparr>p_heap := h\<rparr>)" using wf_h(1) by (simp add: parser_wf_def)
  show ?thesis
  proof (cases cur)
    case None
    with r h plain show ?thesis by (simp add: replace_state_def)
  next
    case (Some old)
    from cur [OF this] wf_h(3) obtain o' where o': "h old = Some o'" by blast
    show ?thesis
    proof (cases "body o'")
      case (ParserStateTerminate acc)
      with r h Some o' obtain h' where "relink h old new_st = Inr h'" "P' = P\<lparr>p_heap := h'\<rparr>"
        by (auto simp: replace_state_def load_def rbind_eq_Inr assert_that_eq_Inr)
      with relink_wf [OF wf_h(1) o'] show ?thesis by (simp add: parser_wf_def)
    qed (use r h Some o' plain in \<open>simp_all add: replace_state_def load_def\<close>)
  qed
qed

lemma read_slot_succ:
  assumes "read_slot h s = Inr (Some q)"
  shows "\<exists>st. h (slot_owner s) = Some st \<and> q \<in> succs (body st)"
proof (cases "h (slot_owner s)")
  case None
  with assms show ?thesis by (cases s) (simp_all add: load_def)
next
  case (Some st)
  with assms show ?thesis by (cases s; cases "body st") (simp_all add: load_def)
qed

lemma set_next_wf:
  assumes wf: "parser_wf P" and new: "p_heap P new_st = Some n" "slot_owner s \<noteq> new_st"
    and unl: "unlinked (p_heap P) (initial_state P) new_st"
    and r: "set_next eq P s new_st = Inr P'"
  shows "parser_wf P'"
proof -
  from r obtain cur where cur: "read_slot (p_heap P) s = Inr cur"
    by (auto simp: set_next_def rbind_eq_Inr)
  show ?thesis
  proof (cases cur)
    case None
    with r cur have "replace_state P s None new_st = Inr P'" by (simp add: set_next_def)
    then show ?thesis by (rule replace_state_wf [OF wf new, rotated]) simp
  next
    case (Some q)
    from read_slot_succ [OF cur [unfolded Some]] obtain st where
      st: "p_heap P (slot_owner s) = Some st" "q \<in> succs (body st)" by blast
    with unl have "q \<noteq> new_st" unfolding unlinked_def by blast
    note merged = merge_state_wf [OF wf unl this]
    have live: "\<exists>st. p_heap P c = Some st" if "cur = Some c" for c
      using heap_wf_succ [OF wf [unfolded parser_wf_def] st] that Some by simp
    from r cur Some new(1) consider "merge_state P q new_st = Inr P'"
      | "replace_state P s (Some q) new_st = Inr P'"
      by (auto simp: set_next_def rbind_eq_Inr split: if_split_asm)
    then show ?thesis
    proof cases
      case 2
      then show ?thesis by (rule replace_state_wf [OF wf new, rotated]) (use live Some in simp)
    qed (rule merged)
  qed
qed

lemma add_state_wf:
  assumes wf: "parser_wf P" and b: "succs b = {}"
    and r: "add_state eq (fst (new_state P i b)) leaf (snd (new_state P i b)) d = Inr P'"
  shows "parser_wf P'"
proof -
  let ?st = "\<lparr>ids = {i}, body = b\<rparr>" and ?q = "p_fresh P"
  let ?P1 = "P\<lparr>p_heap := (p_heap P)(?q \<mapsto> ?st), p_fresh := ?q + 1, states := (states P)(i \<mapsto> ?q)\<rparr>"
  have new: "new_state P i b = (P\<lparr>p_heap := (p_heap P)(?q \<mapsto> ?st), p_fresh := ?q + 1\<rparr>, ?q)"
    by (simp add: new_state_def)
  from r have init: "initial_state P \<noteq> None" and i: "states P i = None" and "states P leaf \<noteq> None"
    by (auto simp: add_state_def new assert_that_eq_Inr load_def)
  then obtain p where "states P leaf = Some p" by auto
  with i have p: "states P leaf = Some p" "leaf \<noteq> i" by auto
  note wf' = wf [unfolded parser_wf_def]
  from heap_wf_index [OF wf' p(1)] obtain lst where lst: "p_heap P p = Some lst" by blast
  have pq: "p \<noteq> ?q" using heap_wf_state [OF wf' lst] by simp
  have wf1: "parser_wf ?P1" "unlinked (p_heap ?P1) (initial_state ?P1) ?q"
    using heap_wf_alloc [OF wf' init i b] by (simp_all add: parser_wf_def)
  have new1: "p_heap ?P1 ?q = Some ?st" by simp
  have next_wf: "parser_wf P'" if "set_next eq ?P1 s ?q = Inr P'" "slot_owner s = p" for s
    using set_next_wf [OF wf1(1) new1 _ wf1(2) that(1)] that(2) pq by simp
  show ?thesis
  proof (cases "body lst")
    case (ParserStateExtract e nx)
    with r init i p lst pq have "set_next eq ?P1 (Next p) ?q = Inr P'"
      by (simp add: add_state_def new load_def assert_that_eq_Inr Let_def)
    then show ?thesis by (rule next_wf) simp
  next
    case (ParserStateSelect ss t f)
    with r init i p lst pq obtain dir where
      "set_next eq ?P1 (if dir then On_True p else On_False p) ?q = Inr P'"
      by (cases d) (auto simp: add_state_def new load_def assert_that_eq_Inr Let_def)
    then show ?thesis by (rule next_wf) simp
  next
    case (ParserStateTerminate a)
    with r init i p lst pq show ?thesis
      by (simp add: add_state_def new load_def assert_that_eq_Inr Let_def)
  qed
qed

lemma add_initial_state_wf:
  assumes wf: "parser_wf P" and b: "succs b = {}"
    and r: "add_initial_state (fst (new_state P i b)) (snd (new_state P i b)) = Inr P'"
  shows "parser_wf P'"
proof -
  from r have "initial_state P = None" and m: "states P = Map.empty"
    and P': "P' = P\<lparr>p_heap := (p_heap P)(p_fresh P \<mapsto> \<lparr>ids = {i}, body = b\<rparr>),
      p_fresh := p_fresh P + 1, initial_state := Some (p_fresh P), states := [i \<mapsto> p_fresh P]\<rparr>"
    by (auto simp: add_initial_state_def new_state_def assert_that_eq_Inr load_def)
  with wf have h: "p_heap P = Map.empty" by (auto simp: parser_wf_def dest: heap_wf_empty)
  show ?thesis
    unfolding P' parser_wf_def
    by (rule heap_wfI) (use b h in \<open>auto split: if_split_asm\<close>)
qed

section \<open>Sequences of operations\<close>

datatype 'e parser_op =
    Add_Extract_Initial bdd_node_id_t 'e
  | Add_Extract bdd_node_id_t bdd_node_id_t 'e "bool option"
  | Add_Select_Initial bdd_node_id_t "'e parser_selection list"
  | Add_Select bdd_node_id_t bdd_node_id_t "'e parser_selection list" "bool option"
  | Accept_Initial bdd_node_id_t
  | Reject_Initial bdd_node_id_t
  | Accept bdd_node_id_t bdd_node_id_t "bool option"
  | Reject bdd_node_id_t bdd_node_id_t "bool option"

fun apply_op :: "('e \<Rightarrow> 'e \<Rightarrow> bool) \<Rightarrow> 'e parser_op \<Rightarrow> 'e parser \<Rightarrow> 'e parser result" where
  "apply_op eq (Add_Extract_Initial i e) P = add_extract_initial P i e"
| "apply_op eq (Add_Extract l i e d) P = add_extract eq P l i e d"
| "apply_op eq (Add_Select_Initial i ss) P = add_select_initial P i ss"
| "apply_op eq (Add_Select l i ss d) P = add_select eq P l i ss d"
| "apply_op eq (Accept_Initial i) P = accept_initial P i"
| "apply_op eq (Reject_Initial i) P = reject_initial P i"
| "apply_op eq (Accept l i d) P = accept eq P l i d"
| "apply_op eq (Reject l i d) P = reject eq P l i d"

fun run_ops :: "('e \<Rightarrow> 'e \<Rightarrow> bool) \<Rightarrow> 'e parser_op list \<Rightarrow> 'e parser \<Rightarrow> 'e parser result" where
  "run_ops eq [] P = Inr P"
| "run_ops eq (x # xs) P = rbind (apply_op eq x P) (run_ops eq xs)"

lemma terminate_initial_wf:
  "parser_wf P \<Longrightarrow> terminate_initial a P i = Inr P' \<Longrightarrow> parser_wf P'"
  by (auto simp: terminate_initial_def rbind_eq_Inr case_prod_beta split: if_split_asm
      intro: add_initial_state_wf [of P "ParserStateTerminate a" i])

lemma terminate_at_wf:
  "parser_wf P \<Longrightarrow> terminate_at a eq P l i d = Inr P' \<Longrightarrow> parser_wf P'"
  by (auto simp: terminate_at_def rbind_eq_Inr case_prod_beta split: if_split_asm
      intro: add_state_wf [of P "ParserStateTerminate a" eq i l d])

lemma apply_op_wf: "parser_wf P \<Longrightarrow> apply_op eq x P = Inr P' \<Longrightarrow> parser_wf P'"
proof (cases x)
  case (Add_Extract_Initial i e)
  moreover assume "parser_wf P" "apply_op eq x P = Inr P'"
  ultimately show ?thesis
    using add_initial_state_wf [of P "ParserStateExtract e None" i]
    by (simp add: add_extract_initial_def case_prod_beta)
next
  case (Add_Extract l i e d)
  moreover assume "parser_wf P" "apply_op eq x P = Inr P'"
  ultimately show ?thesis
    using add_state_wf [of P "ParserStateExtract e None" eq i l d]
    by (simp add: add_extract_def case_prod_beta)
next
  case (Add_Select_Initial i ss)
  moreover assume "parser_wf P" "apply_op eq x P = Inr P'"
  ultimately show ?thesis
    using add_initial_state_wf [of P "ParserStateSelect ss None None" i]
    by (simp add: add_select_initial_def case_prod_beta)
next
  case (Add_Select l i ss d)
  moreover assume "parser_wf P" "apply_op eq x P = Inr P'"
  ultimately show ?thesis
    using add_state_wf [of P "ParserStateSelect ss None None" eq i l d]
    by (simp add: add_select_def case_prod_beta)
qed (auto simp: accept_initial_def reject_initial_def accept_def reject_def
    dest: terminate_initial_wf terminate_at_wf)

lemma run_ops_wf: "parser_wf P \<Longrightarrow> run_ops eq xs P = Inr P' \<Longrightarrow> parser_wf P'"
  by (induction xs arbitrary: P) (auto simp: rbind_eq_Inr dest: apply_op_wf)

section \<open>Freeing\<close>

text \<open>
  The destructor visits the index in an order it does not choose, here the list \<open>es\<close>, and
  frees the state of an entry unless its identifier was seen in a state freed before.
\<close>

fun free_states ::
  "'e parser_heap \<Rightarrow> bdd_node_id_t set \<Rightarrow> (bdd_node_id_t \<times> state_ptr) list \<Rightarrow> 'e parser_heap result"
where
  "free_states h freed [] = Inr h"
| "free_states h freed ((i, p) # es) =
     (if i \<in> freed then free_states h freed es
      else rbind (load h p) (\<lambda>st. free_states (h(p := None)) (freed \<union> ids st) es))"

lemma free_states_spec:
  assumes "heap_wf h0 n init m" "\<forall>(i, p) \<in> set es. m i = Some p"
    and "\<And>p st. h0 p = Some st \<Longrightarrow> h p = (if ids st \<subseteq> freed then None else Some st)"
    and "\<And>p. h0 p = None \<Longrightarrow> h p = None"
    and "\<And>p st. h0 p = Some st \<Longrightarrow> ids st \<inter> freed \<noteq> {} \<Longrightarrow> ids st \<subseteq> freed"
  shows "\<exists>h'. free_states h freed es = Inr h' \<and>
    (\<forall>p st. h0 p = Some st \<longrightarrow> ids st \<inter> (freed \<union> fst ` set es) \<noteq> {} \<longrightarrow> h' p = None) \<and>
    (\<forall>p. h p = None \<longrightarrow> h' p = None)"
  using assms(2-)
proof (induction es arbitrary: h freed)
  case Nil
  then show ?case by fastforce
next
  case (Cons ip es)
  obtain i p where ip: "ip = (i, p)" by (cases ip)
  from Cons.prems(1) ip have mi: "m i = Some p" by simp
  from heap_wf_index [OF assms(1) mi] obtain st where st: "h0 p = Some st" "i \<in> ids st" by blast
  show ?case
  proof (cases "i \<in> freed")
    case True
    with Cons.IH [of h freed] Cons.prems ip show ?thesis by (auto simp: insert_absorb)
  next
    case False
    with st Cons.prems(2) [OF st(1)] have hp: "h p = Some st" by auto
    have other: "ids st' \<inter> ids st = {}" if "h0 q = Some st'" "q \<noteq> p" for q st'
    proof (rule ccontr)
      assume "ids st' \<inter> ids st \<noteq> {}"
      then obtain j where "j \<in> ids st'" "j \<in> ids st" by blast
      with heap_wf_state [OF assms(1) that(1)] heap_wf_state [OF assms(1) st(1)]
      have "m j = Some q" "m j = Some p" by blast+
      with that(2) show False by simp
    qed
    have "\<exists>h'. free_states (h(p := None)) (freed \<union> ids st) es = Inr h' \<and>
      (\<forall>q st'. h0 q = Some st' \<longrightarrow> ids st' \<inter> ((freed \<union> ids st) \<union> fst ` set es) \<noteq> {} \<longrightarrow> h' q = None) \<and>
      (\<forall>q. (h(p := None)) q = None \<longrightarrow> h' q = None)"
    proof (rule Cons.IH)
      show "\<forall>(i, p) \<in> set es. m i = Some p" using Cons.prems(1) by simp
      show "(h(p := None)) q = None" if "h0 q = None" for q using Cons.prems(3) that by simp
      fix q st' assume q: "h0 q = Some st'"
      show "(h(p := None)) q = (if ids st' \<subseteq> freed \<union> ids st then None else Some st')"
      proof (cases "q = p")
        case True
        with q st show ?thesis by simp
      next
        case False
        from other [OF q False] have "ids st' \<subseteq> freed \<union> ids st \<longleftrightarrow> ids st' \<subseteq> freed" by blast
        with False Cons.prems(2) [OF q] show ?thesis by simp
      qed
      assume "ids st' \<inter> (freed \<union> ids st) \<noteq> {}"
      then show "ids st' \<subseteq> freed \<union> ids st"
        using Cons.prems(4) [OF q] other [OF q] q st(1) by (cases "q = p") auto
    qed
    then obtain h' where h': "free_states (h(p := None)) (freed \<union> ids st) es = Inr h'"
      "\<And>q st'. h0 q = Some st' \<Longrightarrow> ids st' \<inter> ((freed \<union> ids st) \<union> fst ` set es) \<noteq> {} \<Longrightarrow> h' q = None"
      "\<And>q. (h(p := None)) q = None \<Longrightarrow> h' q = None" by blast
    show ?thesis
    proof (intro exI conjI allI impI)
      show "free_states h freed (ip # es) = Inr h'" using h'(1) ip False hp by (simp add: load_def)
      fix q st' assume "h0 q = Some st'" "ids st' \<inter> (freed \<union> fst ` set (ip # es)) \<noteq> {}"
      with h'(2) ip st(2) show "h' q = None" by fastforce
    next
      fix q assume "h q = None"
      with h'(3) show "h' q = None" by simp
    qed
  qed
qed

section \<open>Copying\<close>

text \<open>
  \<^verbatim>\<open>clone\<close> allocates a copy and then clones what it links to; on a cycle it never returns,
  which is the value \<open>None\<close>. A state is the triple of the heap, the next address and the
  address of the copy.
\<close>

partial_function (option) clone_state ::
  "'e parser_heap \<Rightarrow> state_ptr \<Rightarrow> state_ptr option \<Rightarrow>
   ('e parser_heap \<times> state_ptr \<times> state_ptr option) result option"
where
  "clone_state h n link =
     (case link of
        None \<Rightarrow> Some (Inr (h, n, None))
      | Some p \<Rightarrow>
        (case h p of
           None \<Rightarrow> Some (Inl Undefined)
         | Some st \<Rightarrow>
           (case body st of
              ParserStateTerminate a \<Rightarrow> Some (Inr (h(n \<mapsto> st), n + 1, Some n))
            | ParserStateExtract e nx \<Rightarrow>
                clone_state (h(n \<mapsto> st)) (n + 1) nx \<bind> (\<lambda>r.
                case r of
                  Inl err \<Rightarrow> Some (Inl err)
                | Inr (h1, n1, nx1) \<Rightarrow>
                    Some (Inr (h1(n \<mapsto> st\<lparr>body := ParserStateExtract e nx1\<rparr>), n1, Some n)))
            | ParserStateSelect ss t f \<Rightarrow>
                clone_state (h(n \<mapsto> st)) (n + 1) t \<bind> (\<lambda>r.
                case r of
                  Inl err \<Rightarrow> Some (Inl err)
                | Inr (h1, n1, t1) \<Rightarrow>
                    clone_state (h1(n \<mapsto> st\<lparr>body := ParserStateSelect ss t1 f\<rparr>)) n1 f \<bind> (\<lambda>r2.
                    case r2 of
                      Inl err \<Rightarrow> Some (Inl err)
                    | Inr (h2, n2, f2) \<Rightarrow>
                        Some (Inr (h2(n \<mapsto> st\<lparr>body := ParserStateSelect ss t1 f2\<rparr>), n2, Some n)))))))"

text \<open>The tree a link leads to, when it is one, within a set of addresses.\<close>

datatype 'e parse_tree =
    No_State
  | Extract_Tree "bdd_node_id_t set" 'e "'e parse_tree"
  | Select_Tree "bdd_node_id_t set" "'e parser_selection list" "'e parse_tree" "'e parse_tree"
  | Terminate_Tree "bdd_node_id_t set" bool

fun tree_in ::
  "state_ptr set \<Rightarrow> 'e parser_heap \<Rightarrow> state_ptr option \<Rightarrow> 'e parse_tree \<Rightarrow> bool" where
  "tree_in S h link No_State \<longleftrightarrow> link = None"
| "tree_in S h link (Extract_Tree I e t) \<longleftrightarrow>
     (\<exists>p nx. link = Some p \<and> p \<in> S \<and> h p = Some \<lparr>ids = I, body = ParserStateExtract e nx\<rparr> \<and>
        tree_in S h nx t)"
| "tree_in S h link (Select_Tree I ss t f) \<longleftrightarrow>
     (\<exists>p lt lf. link = Some p \<and> p \<in> S \<and> h p = Some \<lparr>ids = I, body = ParserStateSelect ss lt lf\<rparr> \<and>
        tree_in S h lt t \<and> tree_in S h lf f)"
| "tree_in S h link (Terminate_Tree I a) \<longleftrightarrow>
     (\<exists>p. link = Some p \<and> p \<in> S \<and> h p = Some \<lparr>ids = I, body = ParserStateTerminate a\<rparr>)"

lemma tree_in_frame:
  "tree_in S h link t \<Longrightarrow> (\<And>q. q \<in> S \<Longrightarrow> h' q = h q) \<Longrightarrow> S \<subseteq> S' \<Longrightarrow> tree_in S' h' link t"
  by (induction t arbitrary: link) fastforce+

lemma clone_tree:
  assumes "tree_in {..<m} h link t" "m \<le> n"
  shows "\<exists>h' n' link'. clone_state h n link = Some (Inr (h', n', link')) \<and> n \<le> n' \<and>
    tree_in {n..<n'} h' link' t \<and> (\<forall>q < n. h' q = h q)"
  using assms
proof (induction t arbitrary: h n link)
  case No_State
  then show ?case by (subst clone_state.simps) simp
next
  case (Terminate_Tree I a)
  then show ?case by (subst clone_state.simps) auto
next
  case (Extract_Tree I e t)
  then obtain p nx where p: "link = Some p" "p < m"
    "h p = Some \<lparr>ids = I, body = ParserStateExtract e nx\<rparr>" "tree_in {..<m} h nx t" by auto
  let ?h = "h(n \<mapsto> \<lparr>ids = I, body = ParserStateExtract e nx\<rparr>)"
  have "tree_in {..<m} ?h nx t" using p(4) Extract_Tree.prems(2) by (auto intro: tree_in_frame)
  moreover have mn: "m \<le> n + 1" using Extract_Tree.prems(2) by simp
  ultimately obtain h1 n1 nx1 where c: "clone_state ?h (n + 1) nx = Some (Inr (h1, n1, nx1))" "n + 1 \<le> n1"
    "tree_in {n + 1..<n1} h1 nx1 t" "\<forall>q < n + 1. h1 q = ?h q"
    using Extract_Tree.IH by blast
  let ?h' = "h1(n \<mapsto> \<lparr>ids = I, body = ParserStateExtract e nx1\<rparr>)"
  have "clone_state h n link = Some (Inr (?h', n1, Some n))"
    using p c(1) by (subst clone_state.simps) simp
  moreover have "tree_in {n..<n1} ?h' nx1 t" by (rule tree_in_frame [OF c(3)]) auto
  then have "tree_in {n..<n1} ?h' (Some n) (Extract_Tree I e t)" using c(2) by simp
  moreover have "\<forall>q < n. ?h' q = h q" using c(4) by simp
  moreover have "n \<le> n1" using c(2) by simp
  ultimately show ?case by blast
next
  case (Select_Tree I ss t f)
  then obtain p lt lf where p: "link = Some p" "p < m"
    "h p = Some \<lparr>ids = I, body = ParserStateSelect ss lt lf\<rparr>" "tree_in {..<m} h lt t"
    "tree_in {..<m} h lf f" by auto
  let ?h = "h(n \<mapsto> \<lparr>ids = I, body = ParserStateSelect ss lt lf\<rparr>)"
  have "tree_in {..<m} ?h lt t" using p(4) Select_Tree.prems(2) by (auto intro: tree_in_frame)
  moreover have mn: "m \<le> n + 1" using Select_Tree.prems(2) by simp
  ultimately obtain h1 n1 t1 where c: "clone_state ?h (n + 1) lt = Some (Inr (h1, n1, t1))" "n + 1 \<le> n1"
    "tree_in {n + 1..<n1} h1 t1 t" "\<forall>q < n + 1. h1 q = ?h q"
    using Select_Tree.IH(1) by blast
  let ?h1 = "h1(n \<mapsto> \<lparr>ids = I, body = ParserStateSelect ss t1 lf\<rparr>)"
  have "tree_in {..<m} ?h1 lf f"
    using p(5) Select_Tree.prems(2) c(4) by (auto intro!: tree_in_frame [OF p(5)])
  moreover have "m \<le> n1" using mn c(2) by simp
  ultimately obtain h2 n2 f2 where d: "clone_state ?h1 n1 lf = Some (Inr (h2, n2, f2))" "n1 \<le> n2"
    "tree_in {n1..<n2} h2 f2 f" "\<forall>q < n1. h2 q = ?h1 q"
    using Select_Tree.IH(2) by blast
  let ?h' = "h2(n \<mapsto> \<lparr>ids = I, body = ParserStateSelect ss t1 f2\<rparr>)"
  have "clone_state h n link = Some (Inr (?h', n2, Some n))"
    using p c(1) d(1) by (subst clone_state.simps) simp
  moreover have "tree_in {n..<n2} ?h' t1 t"
    by (rule tree_in_frame [OF c(3)]) (use d(2,4) in auto)
  moreover have "tree_in {n..<n2} ?h' f2 f" by (rule tree_in_frame [OF d(3)]) (use c(2) in auto)
  ultimately have "tree_in {n..<n2} ?h' (Some n) (Select_Tree I ss t f)" using c(2) d(2) by simp
  moreover have "\<forall>q < n. ?h' q = h q" using c(2,4) d(4) by simp
  moreover have "n \<le> n2" using c(2) d(2) by simp
  moreover note \<open>clone_state h n link = Some (Inr (?h', n2, Some n))\<close>
  ultimately show ?case by blast
qed

text \<open>A condition both of whose branches lead back to itself is never cloned.\<close>

lemma clone_loops:
  assumes "h p = Some st" "body st = ParserStateSelect ss (Some p) f" "p < n"
  shows "clone_state h n (Some p) = None"
proof (rule ccontr)
  assume "clone_state h n (Some p) \<noteq> None"
  then obtain r where "clone_state h n (Some p) = Some r" by blast
  moreover have "link = Some p \<longrightarrow> h p = Some st \<longrightarrow> p < n \<longrightarrow> False"
    if r: "clone_state h n link = Some r" for h n link r
    apply (rule clone_state.raw_induct
        [where P = "\<lambda>h n link r. link = Some p \<longrightarrow> h p = Some st \<longrightarrow> p < n \<longrightarrow> False", OF _ r])
    subgoal premises prems for clone h n link r
    proof (intro impI)
      assume l: "link = Some p" "h p = Some st" "p < n"
      from prems(2) l assms(2) obtain r' where "clone (h(n \<mapsto> st)) (n + 1) (Some p) = Some r'"
        by (auto simp: bind_eq_Some_conv)
      from prems(1) [OF this] l show False by simp
    qed
    done
  ultimately show False using assms(1,3) by blast
qed

partial_function (option) record_states ::
  "'e parser_heap \<Rightarrow> state_ptr option \<Rightarrow> (bdd_node_id_t \<rightharpoonup> state_ptr) \<Rightarrow>
   (bdd_node_id_t \<rightharpoonup> state_ptr) result option"
where
  "record_states h link m =
     (case link of
        None \<Rightarrow> Some (Inr m)
      | Some p \<Rightarrow>
        (case h p of
           None \<Rightarrow> Some (Inl Undefined)
         | Some st \<Rightarrow>
           (let m1 = (\<lambda>i. if i \<in> ids st then Some p else m i) in
            case body st of
              ParserStateTerminate a \<Rightarrow> Some (Inr m1)
            | ParserStateExtract e nx \<Rightarrow> record_states h nx m1
            | ParserStateSelect ss t f \<Rightarrow>
                record_states h t m1 \<bind> (\<lambda>r.
                case r of Inl err \<Rightarrow> Some (Inl err) | Inr m2 \<Rightarrow> record_states h f m2))))"

text \<open>The copy constructor; the copy owns the states it has allocated.\<close>

definition copy_parser :: "'e parser \<Rightarrow> 'e parser result option" where
  "copy_parser other =
     (case initial_state other of
        None \<Rightarrow> Some (Inr new_parser)
      | Some p \<Rightarrow>
          clone_state (p_heap other) (p_fresh other) (Some p) \<bind> (\<lambda>r.
          case r of
            Inl err \<Rightarrow> Some (Inl err)
          | Inr (h, n, link) \<Rightarrow>
              record_states h link Map.empty \<bind> (\<lambda>r2.
              case r2 of
                Inl err \<Rightarrow> Some (Inl err)
              | Inr m \<Rightarrow> Some (Inr \<lparr>p_heap = h |` {p_fresh other..<n}, p_fresh = n,
                                 initial_state = link, states = m\<rparr>))))"

fun tree_ids :: "'e parse_tree \<Rightarrow> bdd_node_id_t set" where
  "tree_ids No_State = {}"
| "tree_ids (Extract_Tree I e t) = I \<union> tree_ids t"
| "tree_ids (Select_Tree I ss t f) = I \<union> tree_ids t \<union> tree_ids f"
| "tree_ids (Terminate_Tree I a) = I"

definition indexes ::
  "state_ptr set \<Rightarrow> 'e parser_heap \<Rightarrow> (bdd_node_id_t \<rightharpoonup> state_ptr) \<Rightarrow> bool" where
  "indexes S h m \<longleftrightarrow> (\<forall>i p. m i = Some p \<longrightarrow> p \<in> S \<and> (\<exists>st. h p = Some st \<and> i \<in> ids st))"

lemma indexes_state:
  "indexes S h m \<Longrightarrow> h p = Some st \<Longrightarrow> p \<in> S \<Longrightarrow>
   indexes S h (\<lambda>i. if i \<in> ids st then Some p else m i)"
  by (simp add: indexes_def)

lemma record_tree:
  assumes "tree_in S h link t" "indexes S h m"
  shows "\<exists>m'. record_states h link m = Some (Inr m') \<and> dom m' = dom m \<union> tree_ids t \<and> indexes S h m'"
  using assms
proof (induction t arbitrary: link m)
  case No_State
  then show ?case by (subst record_states.simps) simp
next
  case (Terminate_Tree I a)
  then obtain p where p: "link = Some p" "h p = Some \<lparr>ids = I, body = ParserStateTerminate a\<rparr>"
    "p \<in> S" by auto
  with indexes_state [OF Terminate_Tree.prems(2) p(2,3)] show ?case
    by (subst record_states.simps) (auto simp: Let_def)
next
  case (Extract_Tree I e t)
  then obtain p nx where p: "link = Some p"
    "h p = Some \<lparr>ids = I, body = ParserStateExtract e nx\<rparr>" "p \<in> S" "tree_in S h nx t" by auto
  let ?m = "\<lambda>i. if i \<in> I then Some p else m i"
  have ix: "indexes S h ?m" using indexes_state [OF Extract_Tree.prems(2) p(2,3)] by simp
  have "dom ?m = dom m \<union> I" by auto
  with Extract_Tree.IH [OF p(4) ix] p(1,2) show ?case
    by (subst record_states.simps) (simp add: Let_def Un_assoc)
next
  case (Select_Tree I ss t f)
  then obtain p lt lf where p: "link = Some p"
    "h p = Some \<lparr>ids = I, body = ParserStateSelect ss lt lf\<rparr>" "p \<in> S" "tree_in S h lt t"
    "tree_in S h lf f" by auto
  let ?m = "\<lambda>i. if i \<in> I then Some p else m i"
  have ix: "indexes S h ?m" using indexes_state [OF Select_Tree.prems(2) p(2,3)] by simp
  have dom: "dom ?m = dom m \<union> I" by auto
  from Select_Tree.IH(1) [OF p(4) ix] obtain m1 where m1: "record_states h lt ?m = Some (Inr m1)"
    "dom m1 = dom ?m \<union> tree_ids t" "indexes S h m1" by blast
  from Select_Tree.IH(2) [OF p(5) m1(3)] m1(1,2) p(1,2) dom show ?case
    by (subst record_states.simps) (simp add: Let_def Un_assoc)
qed

end
