(* ===== verification/TNA_ParserCorrect.thy ===== *)
theory TNA_ParserCorrect
  imports TNA_Parser
begin

text \<open>
  What the parser under construction guarantees, and where it does not do what it means to:
  the invariant over any sequence of operations, freeing and copying, insertion before an
  accepting state, and the merging of states.
\<close>

section \<open>Evaluating one insertion\<close>

lemma add_state_extract_eval:
  assumes wf: "parser_wf P" and i: "states P i = None" and leaf: "states P leaf = Some p"
    and p: "p_heap P p = Some \<lparr>ids = I, body = ParserStateExtract e nx\<rparr>"
  shows "add_state eq (fst (new_state P i b)) leaf (snd (new_state P i b)) None =
    set_next eq (P\<lparr>p_heap := (p_heap P)(p_fresh P \<mapsto> \<lparr>ids = {i}, body = b\<rparr>),
      p_fresh := p_fresh P + 1, states := (states P)(i \<mapsto> p_fresh P)\<rparr>) (Next p) (p_fresh P)"
proof -
  note wf' = wf [unfolded parser_wf_def]
  have init: "initial_state P \<noteq> None"
  proof
    assume "initial_state P = None"
    from heap_wf_empty [OF wf' this] p show False by simp
  qed
  from heap_wf_state [OF wf' p] have "p \<noteq> p_fresh P" by simp
  moreover from i leaf have "leaf \<noteq> i" by auto
  ultimately show ?thesis using init i leaf p
    by (simp add: add_state_def new_state_def load_def Let_def)
qed

lemma leaf_ptrs:
  assumes wf: "parser_wf P" and p: "p_heap P p = Some \<lparr>ids = I, body = ParserStateExtract e (Some t)\<rparr>"
    and t: "p_heap P t = Some \<lparr>ids = J, body = b\<rparr>"
  shows "p < p_fresh P" "t < p_fresh P"
  using heap_wf_state [OF wf [unfolded parser_wf_def] p] heap_wf_state [OF wf [unfolded parser_wf_def] t]
  by simp_all

section \<open>A concrete parser\<close>

text \<open>An extraction at node 1 followed by acceptance at node 2, then variants of it.\<close>

definition accepting_parser :: "nat parser" where
  "accepting_parser =
     \<lparr>p_heap = [0 \<mapsto> \<lparr>ids = {1}, body = ParserStateExtract 10 (Some 1)\<rparr>,
                1 \<mapsto> \<lparr>ids = {2}, body = ParserStateTerminate True\<rparr>],
      p_fresh = 2, initial_state = Some 0, states = [1 \<mapsto> 0, 2 \<mapsto> 1]\<rparr>"

lemma accepting_parser_run:
  "run_ops (=) [Add_Extract_Initial 1 10, Accept 1 2 None] new_parser = Inr accepting_parser"
  by (simp add: add_extract_initial_def new_state_def add_initial_state_def load_def new_parser_def
      accept_def terminate_at_def already_terminated_def add_state_def Let_def set_next_def
      replace_state_def write_slot_def accepting_parser_def fun_upd_def)
    (simp add: fun_eq_iff)

lemma accepting_parser_wf: "parser_wf accepting_parser"
  using run_ops_wf [OF parser_wf_new accepting_parser_run] .

section \<open>Properties\<close>

text \<open>C34. Whatever operations build the parser, as long as none of them fails: every node
  identifier is indexed to a live state that carries it, every live state is indexed under
  all its identifiers, and no link dangles.\<close>

theorem parser_ops_keep_wf:
  assumes "run_ops eq xs new_parser = Inr P"
  shows "parser_wf P"
  by (rule run_ops_wf [OF parser_wf_new assms])

theorem parser_ops_keep_wf_witness: "parser_wf accepting_parser"
  using parser_ops_keep_wf [OF accepting_parser_run] .

text \<open>The destructor frees every state exactly once, in whatever order it visits the
  index: no state is freed twice (which would be undefined) and none is left.\<close>

lemma destructor_frees_everything_once:
  assumes "parser_wf P" "set es = {(i, p). states P i = Some p}"
  shows "free_states (p_heap P) {} es = Inr Map.empty"
proof -
  note wf = assms(1) [unfolded parser_wf_def]
  have "\<exists>h'. free_states (p_heap P) {} es = Inr h' \<and>
    (\<forall>p st. p_heap P p = Some st \<longrightarrow> ids st \<inter> ({} \<union> fst ` set es) \<noteq> {} \<longrightarrow> h' p = None) \<and>
    (\<forall>p. p_heap P p = None \<longrightarrow> h' p = None)"
    by (rule free_states_spec [OF wf]) (use assms(2) heap_wf_state [OF wf] in auto)
  then obtain h' where h': "free_states (p_heap P) {} es = Inr h'"
    "\<And>p st. p_heap P p = Some st \<Longrightarrow> ids st \<inter> fst ` set es \<noteq> {} \<Longrightarrow> h' p = None"
    "\<And>p. p_heap P p = None \<Longrightarrow> h' p = None" by auto
  have "h' p = None" for p
  proof (cases "p_heap P p")
    case (Some st)
    with heap_wf_state [OF wf Some] obtain i where "i \<in> ids st" "states P i = Some p" by auto
    with assms(2) have "i \<in> ids st \<inter> fst ` set es" by force
    with h'(2) [OF Some] show ?thesis by blast
  qed (rule h'(3))
  then have "h' = Map.empty" by blast
  with h'(1) show ?thesis by simp
qed

lemma destructor_frees_everything_once_witness:
  "free_states (p_heap accepting_parser) {} [(2, 1), (1, 0)] = Inr Map.empty"
  by (rule destructor_frees_everything_once [OF accepting_parser_wf])
    (auto simp: accepting_parser_def split: if_split_asm)

text \<open>C35. Copying a parser whose states form a tree returns a parser with the same tree, made
  of new states only, whose index covers the identifiers of the tree and leads to states that
  carry them.\<close>

theorem copy_parser_correct:
  assumes "initial_state P = Some p" "tree_in {..<p_fresh P} (p_heap P) (Some p) t"
  shows "\<exists>P'. copy_parser P = Some (Inr P') \<and>
    tree_in {p_fresh P..<p_fresh P'} (p_heap P') (initial_state P') t \<and>
    dom (p_heap P') \<subseteq> {p_fresh P..<p_fresh P'} \<and>
    dom (states P') = tree_ids t \<and> indexes {p_fresh P..<p_fresh P'} (p_heap P') (states P')"
proof -
  let ?n = "p_fresh P"
  from clone_tree [OF assms(2) order_refl] obtain h n link where
    c: "clone_state (p_heap P) ?n (Some p) = Some (Inr (h, n, link))" "tree_in {?n..<n} h link t"
    by blast
  have t': "tree_in {?n..<n} (h |` {?n..<n}) link t" by (rule tree_in_frame [OF c(2)]) simp_all
  have "indexes {?n..<n} h Map.empty" by (simp add: indexes_def)
  from record_tree [OF c(2) this] obtain m where m: "record_states h link Map.empty = Some (Inr m)"
    "dom m = tree_ids t" "indexes {?n..<n} h m" by auto
  from m(3) have "indexes {?n..<n} (h |` {?n..<n}) m" by (simp add: indexes_def)
  moreover have "copy_parser P = Some (Inr \<lparr>p_heap = h |` {?n..<n}, p_fresh = n,
      initial_state = link, states = m\<rparr>)" using assms(1) c(1) m(1) by (simp add: copy_parser_def)
  ultimately show ?thesis using t' m(2)
    by (intro exI [of _ "\<lparr>p_heap = h |` {?n..<n}, p_fresh = n, initial_state = link, states = m\<rparr>"])
      auto
qed

theorem copy_parser_correct_witness:
  "\<exists>P'. copy_parser accepting_parser = Some (Inr P') \<and> dom (states P') = {1, 2} \<and>
     dom (p_heap P') \<subseteq> {2..<p_fresh P'}"
proof -
  have tree: "tree_in {..<p_fresh accepting_parser} (p_heap accepting_parser) (Some 0)
      (Extract_Tree {1} 10 (Terminate_Tree {2} True))"
    by (simp add: accepting_parser_def)
  have "initial_state accepting_parser = Some 0" by (simp add: accepting_parser_def)
  from copy_parser_correct [OF this tree] obtain P' where
    "copy_parser accepting_parser = Some (Inr P')" "dom (states P') = {1} \<union> {2}"
    "dom (p_heap P') \<subseteq> {p_fresh accepting_parser..<p_fresh P'}" by auto
  then show ?thesis by (intro exI [of _ P']) (auto simp: accepting_parser_def)
qed

text \<open>Extracting a header after a state that so far accepted puts the extraction in between:
  the old state leads to the new one and the new one to the accepting state, and nothing else
  changes.\<close>

lemma extract_inserted_before_accept:
  assumes "parser_wf P" "states P i = None" "states P leaf = Some p"
    and "p_heap P p = Some \<lparr>ids = I, body = ParserStateExtract e (Some t)\<rparr>"
    and "p_heap P t = Some \<lparr>ids = J, body = ParserStateTerminate True\<rparr>"
  shows "add_extract eq P leaf i hdr None = Inr
    (P\<lparr>p_heap := (p_heap P)
         (p_fresh P \<mapsto> \<lparr>ids = {i}, body = ParserStateExtract hdr (Some t)\<rparr>,
          p \<mapsto> \<lparr>ids = I, body = ParserStateExtract e (Some (p_fresh P))\<rparr>),
       p_fresh := p_fresh P + 1, states := (states P)(i \<mapsto> p_fresh P)\<rparr>)"
proof -
  note ptrs = leaf_ptrs [OF assms(1,4,5)]
  have "t \<noteq> p" using assms(4,5) by auto
  with add_state_extract_eval [OF assms(1-4), of eq "ParserStateExtract hdr None"] ptrs assms(4,5)
  show ?thesis
    by (simp add: add_extract_def case_prod_beta set_next_def load_def replace_state_def
        write_slot_def relink_def) (simp add: fun_eq_iff)
qed

lemma extract_inserted_before_accept_witness:
  "add_extract (=) accepting_parser 1 3 20 None = Inr
    (accepting_parser\<lparr>p_heap := (p_heap accepting_parser)
         (2 \<mapsto> \<lparr>ids = {3}, body = ParserStateExtract 20 (Some 1)\<rparr>,
          0 \<mapsto> \<lparr>ids = {1}, body = ParserStateExtract 10 (Some 2)\<rparr>),
       p_fresh := 3, states := (states accepting_parser)(3 \<mapsto> 2)\<rparr>)"
  using extract_inserted_before_accept [OF accepting_parser_wf, of 3 1 0 "{1}" 10 1 "{2}" "(=)" 20]
  by (simp add: accepting_parser_def)

text \<open>C40. Inserting a condition at the same place does not keep the accepting state: both
  branches of the new state lead back to the new state, and copying the parser from there
  never returns.\<close>

theorem select_over_accept_links_to_itself:
  assumes "parser_wf P" "states P i = None" "states P leaf = Some p"
    and "p_heap P p = Some \<lparr>ids = I, body = ParserStateExtract e (Some t)\<rparr>"
    and "p_heap P t = Some \<lparr>ids = J, body = ParserStateTerminate True\<rparr>"
  shows "\<exists>P'. add_select eq P leaf i selections None = Inr P' \<and>
    p_heap P' (p_fresh P) = Some \<lparr>ids = {i},
      body = ParserStateSelect selections (Some (p_fresh P)) (Some (p_fresh P))\<rparr> \<and>
    clone_state (p_heap P') (p_fresh P') (Some (p_fresh P)) = None"
proof -
  note ptrs = leaf_ptrs [OF assms(1,4,5)]
  have tp: "t \<noteq> p" using assms(4,5) by auto
  let ?st = "\<lparr>ids = {i}, body = ParserStateSelect selections (Some (p_fresh P)) (Some (p_fresh P))\<rparr>"
  let ?P' = "P\<lparr>p_heap := (p_heap P)(p_fresh P \<mapsto> ?st,
          p \<mapsto> \<lparr>ids = I, body = ParserStateExtract e (Some (p_fresh P))\<rparr>),
       p_fresh := p_fresh P + 1, states := (states P)(i \<mapsto> p_fresh P)\<rparr>"
  from add_state_extract_eval [OF assms(1-4), of eq "ParserStateSelect selections None None"]
    ptrs tp assms(4,5)
  have "add_select eq P leaf i selections None = Inr ?P'"
    by (simp add: add_select_def case_prod_beta set_next_def load_def replace_state_def
        write_slot_def relink_def) (simp add: fun_eq_iff)
  moreover have st: "p_heap ?P' (p_fresh P) = Some ?st" using ptrs(1) by simp
  moreover have "clone_state (p_heap ?P') (p_fresh ?P') (Some (p_fresh P)) = None"
    by (rule clone_loops [where st = ?st]) (use st in simp_all)
  ultimately show ?thesis by blast
qed

theorem select_over_accept_links_to_itself_witness:
  "\<exists>P'. add_select (=) accepting_parser 1 3 [\<lparr>target = 5, sel_values = [6], negated = False\<rparr>] None
      = Inr P' \<and> clone_state (p_heap P') (p_fresh P') (Some 2) = None"
  using select_over_accept_links_to_itself [OF accepting_parser_wf, of 3 1 0 "{1}" 10 1 "{2}" "(=)"
      "[\<lparr>target = 5, sel_values = [6], negated = False\<rparr>]"]
  by (auto simp: accepting_parser_def)

text \<open>A condition is merged into the one already there whenever target and first value
  agree and there are equally many values: neither the other values nor the negation are
  compared, so a node with another condition is taken to be the same state.\<close>

theorem select_merges_different_conditions:
  assumes "parser_wf P" "states P i = None" "states P leaf = Some p"
    and "p_heap P p = Some \<lparr>ids = I, body = ParserStateExtract e (Some q)\<rparr>"
    and "p_heap P q = Some \<lparr>ids = J, body = ParserStateSelect
           [\<lparr>target = x, sel_values = v # vs, negated = n\<rparr>] t f\<rparr>"
    and "eq x x" "eq v v" "length ws = length vs"
  shows "\<exists>P'. add_select eq P leaf i [\<lparr>target = x, sel_values = v # ws, negated = n'\<rparr>] None = Inr P' \<and>
    states P' i = Some q \<and>
    p_heap P' q = Some \<lparr>ids = insert i J, body = ParserStateSelect
           [\<lparr>target = x, sel_values = v # vs, negated = n\<rparr>] t f\<rparr>"
proof -
  note ptrs = leaf_ptrs [OF assms(1,4,5)]
  have qp: "q \<noteq> p" using assms(4,5) by auto
  have "i \<notin> J"
    using heap_wf_state [OF assms(1) [unfolded parser_wf_def] assms(5)] assms(2) by auto
  moreover have "values_equal eq 0 m (v # vs) (v # ws) = Inr True" for m
    using assms(7) by (induction m) simp_all
  ultimately show ?thesis
    using add_state_extract_eval [OF assms(1-4), of eq
        "ParserStateSelect [\<lparr>target = x, sel_values = v # ws, negated = n'\<rparr>] None None"]
      ptrs qp assms(4-8)
    by (simp add: add_select_def case_prod_beta set_next_def load_def merge_state_def Let_def
        del: values_equal.simps)
qed

definition selecting_parser :: "nat parser" where
  "selecting_parser =
     \<lparr>p_heap = [0 \<mapsto> \<lparr>ids = {1}, body = ParserStateExtract 10 (Some 1)\<rparr>,
                1 \<mapsto> \<lparr>ids = {2}, body = ParserStateSelect
                     [\<lparr>target = 5, sel_values = [6, 7], negated = False\<rparr>] None None\<rparr>],
      p_fresh = 2, initial_state = Some 0, states = [1 \<mapsto> 0, 2 \<mapsto> 1]\<rparr>"

lemma selecting_parser_wf: "parser_wf selecting_parser"
  unfolding parser_wf_def
  by (rule heap_wfI) (auto simp: selecting_parser_def split: if_split_asm)

theorem select_merges_different_conditions_witness:
  "\<exists>P'. add_select (=) selecting_parser 1 3 [\<lparr>target = 5, sel_values = [6, 8], negated = True\<rparr>] None
      = Inr P' \<and> states P' 3 = Some 1"
  using select_merges_different_conditions [OF selecting_parser_wf, of 3 1 0 "{1}" 10 1 "{2}" 5 6
      "[7]" False None None "(=)" "[8]" True]
  by (auto simp: selecting_parser_def)

text \<open>A rejection is lost behind a condition: where the chosen branch already accepts,
  \<^verbatim>\<open>reject\<close> silently keeps the accepting state, while behind an extraction the same conflict
  fails an assertion.\<close>

theorem reject_ignored_behind_condition:
  assumes "parser_wf P" "states P leaf = Some p"
    and "p_heap P t = Some \<lparr>ids = J, body = ParserStateTerminate True\<rparr>"
  shows "(p_heap P p = Some \<lparr>ids = I, body = ParserStateSelect ss (Some t) f\<rparr> \<longrightarrow>
      reject eq P leaf i (Some True) = Inr P) \<and>
    (p_heap P p = Some \<lparr>ids = I, body = ParserStateExtract e (Some t)\<rparr> \<longrightarrow>
      reject eq P leaf i None = Inl Assert_Failed)"
proof -
  have "initial_state P \<noteq> None"
  proof
    assume "initial_state P = None"
    from heap_wf_empty [OF assms(1) [unfolded parser_wf_def] this] assms(3) show False by simp
  qed
  with assms(2,3) show ?thesis
    by (simp add: reject_def terminate_at_def already_terminated_def load_def)
qed

theorem reject_ignored_behind_condition_witness:
  "reject (=) accepting_parser 1 3 None = Inl Assert_Failed"
  using reject_ignored_behind_condition [OF accepting_parser_wf, of 1 0 1 "{2}" "{1}" "[]" None "(=)"
      3 10]
  by (simp add: accepting_parser_def)

end
