(* ===== verification/DChainImpl.thy ===== *)
theory DChainImpl
  imports Prelude
begin

text \<open>
  The index allocator of the software network functions,
  \<^verbatim>\<open>dpdk-nfs/lib/state/double-chain-impl.c\<close>: an array of cells that holds two circular
  lists, the allocated cells from the oldest to the most recent (doubly linked through cell 0)
  and the free cells (singly linked through cell 1). The cells are a list, their indices C
  integers; reading or writing outside the array is undefined. The section on chains gives
  the abstraction, a pair of lists of cell indices, and the last section proves that every
  operation acts on that pair the way its name says.
\<close>

section \<open>Cells\<close>

record dchain_cell =
  dc_prev :: int
  dc_next :: int

type_synonym dchain_cells = "dchain_cell list"

abbreviation (input) ALLOC_LIST_HEAD :: int where "ALLOC_LIST_HEAD \<equiv> 0"
abbreviation (input) FREE_LIST_HEAD :: int where "FREE_LIST_HEAD \<equiv> 1"
abbreviation (input) INDEX_SHIFT :: int where "INDEX_SHIFT \<equiv> 2"

definition in_cells :: "dchain_cells \<Rightarrow> int \<Rightarrow> bool" where
  "in_cells cs i \<longleftrightarrow> 0 \<le> i \<and> i < int (length cs)"

definition read_cell :: "dchain_cells \<Rightarrow> int \<Rightarrow> dchain_cell result" where
  "read_cell cs i = (if in_cells cs i then Inr (cs ! nat i) else Inl Undefined)"

definition write_next :: "dchain_cells \<Rightarrow> int \<Rightarrow> int \<Rightarrow> dchain_cells result" where
  "write_next cs i v =
     rbind (read_cell cs i) (\<lambda>c. Inr (cs[nat i := c\<lparr>dc_next := v\<rparr>]))"

definition write_prev :: "dchain_cells \<Rightarrow> int \<Rightarrow> int \<Rightarrow> dchain_cells result" where
  "write_prev cs i v =
     rbind (read_cell cs i) (\<lambda>c. Inr (cs[nat i := c\<lparr>dc_prev := v\<rparr>]))"

section \<open>Operations\<close>

text \<open>The loop of the initialisation stops at the last cell, which it does not write.\<close>

function dchain_init_loop :: "int \<Rightarrow> int \<Rightarrow> dchain_cells \<Rightarrow> (int \<times> dchain_cells) result" where
  "dchain_init_loop sz i cs =
     (if i < sz + INDEX_SHIFT - 1 then
        rbind (write_next cs i (i + 1)) (\<lambda>cs.
        rbind (read_cell cs i) (\<lambda>current.
        rbind (write_prev cs i (dc_next current)) (\<lambda>cs.
        dchain_init_loop sz (i + 1) cs)))
      else Inr (i, cs))"
  by pat_completeness auto
termination by (relation "measure (\<lambda>(sz, i, cs). nat (sz + INDEX_SHIFT - 1 - i))") auto

declare dchain_init_loop.simps [simp del]

definition dchain_impl_init :: "dchain_cells \<Rightarrow> int \<Rightarrow> dchain_cells result" where
  "dchain_impl_init cs sz =
     rbind (write_prev cs ALLOC_LIST_HEAD 0) (\<lambda>cs.
     rbind (write_next cs ALLOC_LIST_HEAD 0) (\<lambda>cs.
     rbind (write_next cs FREE_LIST_HEAD INDEX_SHIFT) (\<lambda>cs.
     rbind (read_cell cs FREE_LIST_HEAD) (\<lambda>fl_head.
     rbind (write_prev cs FREE_LIST_HEAD (dc_next fl_head)) (\<lambda>cs.
     rbind (dchain_init_loop sz INDEX_SHIFT cs) (\<lambda>(i, cs).
     rbind (write_next cs i FREE_LIST_HEAD) (\<lambda>cs.
     rbind (read_cell cs i) (\<lambda>last.
     write_prev cs i (dc_next last)))))))))"

text \<open>Return code 0 is \<open>None\<close>, return code 1 carries the index written through the out
  parameter.\<close>

definition dchain_impl_allocate_new_index ::
  "dchain_cells \<Rightarrow> (dchain_cells \<times> int option) result" where
  "dchain_impl_allocate_new_index cs =
     rbind (read_cell cs FREE_LIST_HEAD) (\<lambda>fl_head.
     let allocated = dc_next fl_head in
     if allocated = FREE_LIST_HEAD then Inr (cs, None)
     else
       rbind (read_cell cs allocated) (\<lambda>allocp.
       rbind (write_next cs FREE_LIST_HEAD (dc_next allocp)) (\<lambda>cs.
       rbind (read_cell cs FREE_LIST_HEAD) (\<lambda>fl_head.
       rbind (write_prev cs FREE_LIST_HEAD (dc_next fl_head)) (\<lambda>cs.
       rbind (write_next cs allocated ALLOC_LIST_HEAD) (\<lambda>cs.
       rbind (read_cell cs ALLOC_LIST_HEAD) (\<lambda>al_head.
       rbind (write_prev cs allocated (dc_prev al_head)) (\<lambda>cs.
       rbind (read_cell cs ALLOC_LIST_HEAD) (\<lambda>al_head.
       rbind (write_next cs (dc_prev al_head) allocated) (\<lambda>cs.
       rbind (write_prev cs ALLOC_LIST_HEAD allocated) (\<lambda>cs.
       Inr (cs, Some (allocated - INDEX_SHIFT)))))))))))))"

definition dchain_impl_free_index ::
  "dchain_cells \<Rightarrow> int \<Rightarrow> (dchain_cells \<times> bool) result" where
  "dchain_impl_free_index cs index =
     (let freed = index + INDEX_SHIFT in
      rbind (read_cell cs freed) (\<lambda>freedp.
      let freed_prev = dc_prev freedp; freed_next = dc_next freedp in
      if freed_next = freed_prev \<and> freed_prev \<noteq> ALLOC_LIST_HEAD then Inr (cs, False)
      else
        rbind (write_next cs freed_prev freed_next) (\<lambda>cs.
        rbind (write_prev cs freed_next freed_prev) (\<lambda>cs.
        rbind (read_cell cs FREE_LIST_HEAD) (\<lambda>fr_head.
        rbind (write_next cs freed (dc_next fr_head)) (\<lambda>cs.
        rbind (read_cell cs freed) (\<lambda>freedp.
        rbind (write_prev cs freed (dc_next freedp)) (\<lambda>cs.
        rbind (write_next cs FREE_LIST_HEAD freed) (\<lambda>cs.
        rbind (read_cell cs FREE_LIST_HEAD) (\<lambda>fr_head.
        rbind (write_prev cs FREE_LIST_HEAD (dc_next fr_head)) (\<lambda>cs.
        Inr (cs, True))))))))))))"

definition dchain_impl_get_oldest_index :: "dchain_cells \<Rightarrow> int option result" where
  "dchain_impl_get_oldest_index cs =
     rbind (read_cell cs ALLOC_LIST_HEAD) (\<lambda>al_head.
     if dc_next al_head = ALLOC_LIST_HEAD then Inr None
     else Inr (Some (dc_next al_head - INDEX_SHIFT)))"

definition dchain_impl_rejuvenate_index ::
  "dchain_cells \<Rightarrow> int \<Rightarrow> (dchain_cells \<times> bool) result" where
  "dchain_impl_rejuvenate_index cs index =
     (let lifted = index + INDEX_SHIFT in
      rbind (read_cell cs lifted) (\<lambda>liftedp.
      let lifted_next = dc_next liftedp; lifted_prev = dc_prev liftedp in
      if lifted_next = lifted_prev then
        (if lifted_next \<noteq> ALLOC_LIST_HEAD then Inr (cs, False) else Inr (cs, True))
      else
        rbind (write_next cs lifted_prev lifted_next) (\<lambda>cs.
        rbind (write_prev cs lifted_next lifted_prev) (\<lambda>cs.
        rbind (read_cell cs ALLOC_LIST_HEAD) (\<lambda>al_head.
        let al_head_prev = dc_prev al_head in
        rbind (write_next cs lifted ALLOC_LIST_HEAD) (\<lambda>cs.
        rbind (write_prev cs lifted al_head_prev) (\<lambda>cs.
        rbind (write_next cs al_head_prev lifted) (\<lambda>cs.
        rbind (write_prev cs ALLOC_LIST_HEAD lifted) (\<lambda>cs.
        Inr (cs, True))))))))))"

definition dchain_impl_is_index_allocated :: "dchain_cells \<Rightarrow> int \<Rightarrow> bool result" where
  "dchain_impl_is_index_allocated cs index =
     (let lifted = index + INDEX_SHIFT in
      rbind (read_cell cs lifted) (\<lambda>liftedp.
      let lifted_next = dc_next liftedp; lifted_prev = dc_prev liftedp in
      if lifted_next = lifted_prev then
        (if lifted_next \<noteq> ALLOC_LIST_HEAD then Inr False else Inr True)
      else Inr True))"

section \<open>The links as functions\<close>

text \<open>
  The two link fields of the array, read as functions on the indices: a write is a function
  update, so that running an operation on an array whose indices are in range is rewriting.
\<close>

definition nexts :: "dchain_cells \<Rightarrow> int \<Rightarrow> int" where
  "nexts cs i = (if in_cells cs i then dc_next (cs ! nat i) else 0)"

definition prevs :: "dchain_cells \<Rightarrow> int \<Rightarrow> int" where
  "prevs cs i = (if in_cells cs i then dc_prev (cs ! nat i) else 0)"

definition set_next_link :: "int \<Rightarrow> int \<Rightarrow> dchain_cells \<Rightarrow> dchain_cells" where
  "set_next_link i v cs = cs[nat i := (cs ! nat i)\<lparr>dc_next := v\<rparr>]"

definition set_prev_link :: "int \<Rightarrow> int \<Rightarrow> dchain_cells \<Rightarrow> dchain_cells" where
  "set_prev_link i v cs = cs[nat i := (cs ! nat i)\<lparr>dc_prev := v\<rparr>]"

named_theorems link_simps \<open>evaluation of operations on cells in range\<close>

definition cell_of :: "dchain_cells \<Rightarrow> int \<Rightarrow> dchain_cell" where
  "cell_of cs i = cs ! nat i"

lemma read_cell_in [link_simps]: "in_cells cs i \<Longrightarrow> read_cell cs i = Inr (cell_of cs i)"
  by (simp add: read_cell_def cell_of_def)

lemma read_cell_links [link_simps]:
  "in_cells cs i \<Longrightarrow> dc_next (cell_of cs i) = nexts cs i"
  "in_cells cs i \<Longrightarrow> dc_prev (cell_of cs i) = prevs cs i"
  by (simp_all add: nexts_def prevs_def cell_of_def)

lemma write_link_in [link_simps]:
  "in_cells cs i \<Longrightarrow> write_next cs i v = Inr (set_next_link i v cs)"
  "in_cells cs i \<Longrightarrow> write_prev cs i v = Inr (set_prev_link i v cs)"
  by (simp_all add: write_next_def write_prev_def read_cell_in cell_of_def set_next_link_def
      set_prev_link_def)

lemma length_set_link [link_simps]:
  "length (set_next_link i v cs) = length cs" "length (set_prev_link i v cs) = length cs"
  by (simp_all add: set_next_link_def set_prev_link_def)

lemma in_cells_set_link [link_simps]:
  "in_cells (set_next_link i v cs) j = in_cells cs j"
  "in_cells (set_prev_link i v cs) j = in_cells cs j"
  by (simp_all add: in_cells_def length_set_link)

lemma links_set_link [link_simps]:
  "in_cells cs i \<Longrightarrow> nexts (set_next_link i v cs) = (nexts cs)(i := v)"
  "in_cells cs i \<Longrightarrow> prevs (set_next_link i v cs) = prevs cs"
  "in_cells cs i \<Longrightarrow> prevs (set_prev_link i v cs) = (prevs cs)(i := v)"
  "in_cells cs i \<Longrightarrow> nexts (set_prev_link i v cs) = nexts cs"
  by (auto simp: fun_eq_iff nexts_def prevs_def in_cells_def set_next_link_def
      set_prev_link_def nth_list_update)

section \<open>Segments of the two lists\<close>

text \<open>
  \<open>dseg n p x ys z\<close>: following \<open>n\<close> from \<open>x\<close> visits \<open>ys\<close> and arrives at
  \<open>z\<close>, and \<open>p\<close> leads back. \<open>fseg\<close> is the same for the free list, whose two links
  both lead forward.
\<close>

fun dseg :: "(int \<Rightarrow> int) \<Rightarrow> (int \<Rightarrow> int) \<Rightarrow> int \<Rightarrow> int list \<Rightarrow> int \<Rightarrow> bool" where
  "dseg n p x [] z \<longleftrightarrow> n x = z \<and> p z = x"
| "dseg n p x (y # ys) z \<longleftrightarrow> n x = y \<and> p y = x \<and> dseg n p y ys z"

fun fseg :: "(int \<Rightarrow> int) \<Rightarrow> (int \<Rightarrow> int) \<Rightarrow> int \<Rightarrow> int list \<Rightarrow> int \<Rightarrow> bool" where
  "fseg n p x [] z \<longleftrightarrow> n x = z \<and> p x = z"
| "fseg n p x (y # ys) z \<longleftrightarrow> n x = y \<and> p x = y \<and> fseg n p y ys z"

lemma dseg_append:
  "dseg n p x (ys @ y # zs) z \<longleftrightarrow> dseg n p x ys y \<and> dseg n p y zs z"
  by (induction ys arbitrary: x) auto

lemma dseg_frame [simp]:
  "i \<notin> insert x (set ys) \<Longrightarrow> dseg (n(i := v)) p x ys z = dseg n p x ys z"
  "i \<notin> insert z (set ys) \<Longrightarrow> dseg n (p(i := v)) x ys z = dseg n p x ys z"
  by (induction ys arbitrary: x) auto

lemma fseg_frame [simp]:
  "i \<notin> insert x (set ys) \<Longrightarrow> fseg (n(i := v)) p x ys z = fseg n p x ys z"
  "i \<notin> insert x (set ys) \<Longrightarrow> fseg n (p(i := v)) x ys z = fseg n p x ys z"
  by (induction ys arbitrary: x) auto

lemma dseg_ends: "dseg n p x ys z \<Longrightarrow> n x = hd (ys @ [z]) \<and> p z = last (x # ys)"
  by (induction ys arbitrary: x) auto

text \<open>A new cell \<open>f\<close> at the end of a segment.\<close>

lemma dseg_insert_last:
  assumes "dseg n p x ys z" "distinct (x # ys)" "z \<notin> set ys"
    and "f \<notin> insert x (insert z (set ys))"
  shows "dseg (n(f := z, p z := f)) (p(f := p z, z := f)) x (ys @ [f]) z"
proof (cases ys rule: rev_exhaust)
  case Nil
  with assms show ?thesis by auto
next
  case (snoc as l)
  with assms show ?thesis by (auto simp: dseg_append)
qed

text \<open>The removal of a cell \<open>f\<close> from the middle of a segment.\<close>

lemma dseg_remove:
  assumes "dseg n p x (as @ f # bs) z" "distinct (x # as @ f # bs)" "z \<notin> set (as @ f # bs)"
  shows "dseg (n(p f := n f)) (p(n f := p f)) x (as @ bs) z"
proof -
  have l: "dseg n p x as f" and r: "dseg n p f bs z" using assms(1) by (simp_all add: dseg_append)
  show ?thesis
  proof (cases as rule: rev_exhaust)
    case Nil
    then show ?thesis using l r assms(2,3) by (cases bs) auto
  next
    case (snoc as' a)
    then show ?thesis using l r assms(2,3)
      by (cases bs) (auto simp: dseg_append)
  qed
qed

text \<open>On a circular list both links of a cell agree only where they lead to the head.\<close>

lemma dseg_middle:
  assumes "dseg n p x (as @ f # bs) z"
  shows "p f = last (x # as)" "n f = hd (bs @ [z])"
  using dseg_ends [of n p x as f] dseg_ends [of n p f bs z] assms by (simp_all add: dseg_append)

lemma dseg_links_differ:
  assumes "dseg n p x (as @ f # bs) x" "distinct (x # as @ f # bs)" "n f = p f"
  shows "n f = x \<and> as = [] \<and> bs = []"
  using dseg_middle [OF assms(1)] assms(2,3)
  by (cases as rule: rev_exhaust; cases bs) auto

lemma fseg_links_agree: "fseg n p x ys z \<Longrightarrow> f \<in> insert x (set ys) \<Longrightarrow> n f = p f \<and> n f \<in> insert z (set ys)"
  by (induction ys arbitrary: x) auto

section \<open>The abstraction\<close>

text \<open>
  \<open>two_chains cs al fl\<close>: the array holds the allocated cells \<open>al\<close>, oldest first, and the
  free cells \<open>fl\<close>, in the order they will be allocated; every cell other than the two heads is in
  exactly one of them.
\<close>

definition two_chains :: "dchain_cells \<Rightarrow> int list \<Rightarrow> int list \<Rightarrow> bool" where
  "two_chains cs al fl \<longleftrightarrow>
     dseg (nexts cs) (prevs cs) ALLOC_LIST_HEAD al ALLOC_LIST_HEAD \<and>
     fseg (nexts cs) (prevs cs) FREE_LIST_HEAD fl FREE_LIST_HEAD \<and>
     distinct (al @ fl) \<and> set (al @ fl) = {INDEX_SHIFT..<int (length cs)} \<and> 2 \<le> length cs"

lemma chains_in_cells:
  assumes "two_chains cs al fl"
  shows "in_cells cs 0" "in_cells cs 1" "f \<in> set al \<Longrightarrow> in_cells cs f"
    "f \<in> set fl \<Longrightarrow> in_cells cs f"
    "f \<in> set al \<Longrightarrow> f \<ge> 2" "f \<in> set fl \<Longrightarrow> f \<ge> 2"
    "0 \<notin> set al" "1 \<notin> set al" "0 \<notin> set fl" "1 \<notin> set fl"
proof -
  have "set al \<subseteq> {2..<int (length cs)}" "set fl \<subseteq> {2..<int (length cs)}"
    using assms by (auto simp: two_chains_def)
  moreover have "2 \<le> length cs" using assms by (simp add: two_chains_def)
  ultimately show "in_cells cs 0" "in_cells cs 1" "f \<in> set al \<Longrightarrow> in_cells cs f"
    "f \<in> set fl \<Longrightarrow> in_cells cs f"
    "f \<in> set al \<Longrightarrow> f \<ge> 2" "f \<in> set fl \<Longrightarrow> f \<ge> 2"
    "0 \<notin> set al" "1 \<notin> set al" "0 \<notin> set fl" "1 \<notin> set fl"
    by (auto simp: in_cells_def)
qed

lemma chains_member_cases:
  assumes "two_chains cs al fl" "in_cells cs i" "i \<ge> 2"
  obtains "i \<in> set al" "i \<notin> set fl" | "i \<in> set fl" "i \<notin> set al"
proof -
  have "i \<in> {INDEX_SHIFT..<int (length cs)}" using assms(2,3) by (simp add: in_cells_def)
  then have "i \<in> set al \<union> set fl" using assms(1) by (simp add: two_chains_def)
  moreover have "set al \<inter> set fl = {}" using assms(1) by (simp add: two_chains_def)
  ultimately show thesis using that by blast
qed

lemma chains_heads:
  assumes "two_chains cs al fl"
  shows "nexts cs 0 = hd (al @ [0])" "prevs cs 0 = last (0 # al)" "nexts cs 1 = hd (fl @ [1])"
proof -
  from assms show "nexts cs 0 = hd (al @ [0])" "prevs cs 0 = last (0 # al)"
    using dseg_ends [of "nexts cs" "prevs cs" 0 al 0] by (simp_all add: two_chains_def)
  from assms show "nexts cs 1 = hd (fl @ [1])" by (cases fl) (simp_all add: two_chains_def)
qed

section \<open>Initialisation\<close>

lemma dchain_init_loop_correct:
  assumes "2 \<le> i" "i \<le> sz + 1" "int (length cs) = sz + 2"
  shows "\<exists>cs'. dchain_init_loop sz i cs = Inr (sz + 1, cs') \<and> length cs' = length cs \<and>
    (\<forall>j. nexts cs' j = (if i \<le> j \<and> j \<le> sz then j + 1 else nexts cs j)) \<and>
    (\<forall>j. prevs cs' j = (if i \<le> j \<and> j \<le> sz then j + 1 else prevs cs j))"
  using assms
proof (induction sz i cs rule: dchain_init_loop.induct)
  case (1 sz i cs)
  show ?case
  proof (cases "i < sz + 1")
    case True
    with 1 have ic: "in_cells cs i" by (simp add: in_cells_def)
    define cs1 where "cs1 = set_next_link i (i + 1) cs"
    define cs2 where "cs2 = set_prev_link i (i + 1) cs1"
    have w: "write_next cs i (i + 1) = Inr cs1" "read_cell cs1 i = Inr (cell_of cs1 i)"
      "write_prev cs1 i (dc_next (cell_of cs1 i)) = Inr cs2"
      using ic by (simp_all add: link_simps cs1_def cs2_def)
    have len: "length cs2 = length cs" by (simp add: cs1_def cs2_def link_simps)
    have "\<exists>cs'. dchain_init_loop sz (i + 1) cs2 = Inr (sz + 1, cs') \<and> length cs' = length cs2 \<and>
      (\<forall>j. nexts cs' j = (if i + 1 \<le> j \<and> j \<le> sz then j + 1 else nexts cs2 j)) \<and>
      (\<forall>j. prevs cs' j = (if i + 1 \<le> j \<and> j \<le> sz then j + 1 else prevs cs2 j))"
      using 1(1) [of cs2] True 1(2,4) by (simp add: len)
    then obtain cs' where cs': "dchain_init_loop sz (i + 1) cs2 = Inr (sz + 1, cs')"
      "length cs' = length cs"
      "\<forall>j. nexts cs' j = (if i + 1 \<le> j \<and> j \<le> sz then j + 1 else nexts cs2 j)"
      "\<forall>j. prevs cs' j = (if i + 1 \<le> j \<and> j \<le> sz then j + 1 else prevs cs2 j)"
      by (auto simp: len)
    have l2: "nexts cs2 = (nexts cs)(i := i + 1)" "prevs cs2 = (prevs cs)(i := i + 1)"
      using ic by (simp_all add: link_simps cs1_def cs2_def)
    have "dchain_init_loop sz i cs = Inr (sz + 1, cs')"
      using True cs'(1) by (subst dchain_init_loop.simps) (simp add: w)
    with cs' True show ?thesis by (intro exI [of _ cs']) (auto simp: l2)
  next
    case False
    with 1 have "i = sz + 1" by simp
    then show ?thesis by (subst dchain_init_loop.simps) simp
  qed
qed

lemma fseg_upto:
  assumes "\<And>j. i \<le> j \<Longrightarrow> j < k \<Longrightarrow> n j = j + 1 \<and> p j = j + 1" "n k = z" "p k = z" "i \<le> k"
  shows "fseg n p i [i + 1..k] z"
  using assms
proof (induction "nat (k - i)" arbitrary: i)
  case 0
  then show ?case by simp
next
  case (Suc d)
  then have "i < k" by simp
  then have "[i + 1..k] = (i + 1) # [i + 1 + 1..k]" by (simp add: upto_rec1)
  moreover have "fseg n p (i + 1) [i + 1 + 1..k] z" using Suc by (intro Suc.hyps(1)) auto
  ultimately show ?case using Suc.prems(1) [of i] \<open>i < k\<close> by simp
qed

text \<open>A fresh allocator has no allocated cell and hands out the cells in order.\<close>

lemma dchain_impl_init_correct:
  assumes "1 \<le> sz" "int (length cs) = sz + 2"
  shows "\<exists>cs'. dchain_impl_init cs sz = Inr cs' \<and> length cs' = length cs \<and>
    two_chains cs' [] [2..sz + 1]"
proof -
  have ic: "in_cells cs 0" "in_cells cs 1" "in_cells cs (sz + 1)"
    using assms by (simp_all add: in_cells_def)
  define cs1 where
    "cs1 = set_prev_link 1 2 (set_next_link 1 2 (set_next_link 0 0 (set_prev_link 0 0 cs)))"
  have len1: "length cs1 = length cs" by (simp add: cs1_def link_simps)
  have l1: "nexts cs1 = (nexts cs)(0 := 0, 1 := 2)" "prevs cs1 = (prevs cs)(0 := 0, 1 := 2)"
    using ic by (simp_all add: cs1_def link_simps)
  obtain cs2 where cs2: "dchain_init_loop sz 2 cs1 = Inr (sz + 1, cs2)" "length cs2 = length cs"
    "\<And>j. nexts cs2 j = (if 2 \<le> j \<and> j \<le> sz then j + 1 else nexts cs1 j)"
    "\<And>j. prevs cs2 j = (if 2 \<le> j \<and> j \<le> sz then j + 1 else prevs cs1 j)"
    using dchain_init_loop_correct [of 2 sz cs1] assms len1 by auto
  define cs3 where "cs3 = set_prev_link (sz + 1) 1 (set_next_link (sz + 1) 1 cs2)"
  have ic2: "in_cells cs2 (sz + 1)" using ic(3) cs2(2) by (simp add: in_cells_def)
  have "dchain_impl_init cs sz = Inr cs3"
    using ic ic2 cs2(1) by (simp add: dchain_impl_init_def link_simps cs1_def cs3_def)
  moreover have len3: "length cs3 = length cs" by (simp add: cs3_def link_simps cs2(2))
  moreover have "two_chains cs3 [] [2..sz + 1]"
  proof -
    have l3: "nexts cs3 = (nexts cs2)(sz + 1 := 1)" "prevs cs3 = (prevs cs2)(sz + 1 := 1)"
      using ic2 by (simp_all add: cs3_def link_simps)
    have "fseg (nexts cs3) (prevs cs3) 2 [2 + 1..sz + 1] 1"
      using assms(1) by (intro fseg_upto) (auto simp: l3 cs2(3,4))
    moreover have "[2..sz + 1] = 2 # [2 + 1..sz + 1]" using assms(1) by (simp add: upto_rec1)
    ultimately have "fseg (nexts cs3) (prevs cs3) 1 [2..sz + 1] 1"
      using assms(1) by (simp add: l3 cs2(3,4) l1)
    moreover have "dseg (nexts cs3) (prevs cs3) 0 [] 0"
      using assms(1) by (simp add: l3 cs2(3,4) l1)
    ultimately show ?thesis using assms len3 by (auto simp: two_chains_def)
  qed
  ultimately show ?thesis by blast
qed

section \<open>Allocation\<close>

lemma dchain_allocate_full:
  "two_chains cs al [] \<Longrightarrow> dchain_impl_allocate_new_index cs = Inr (cs, None)"
  by (simp add: dchain_impl_allocate_new_index_def chains_in_cells chains_heads link_simps)

lemma dchain_allocate_correct:
  assumes "two_chains cs al (f # fl)"
  shows "\<exists>cs'. dchain_impl_allocate_new_index cs = Inr (cs', Some (f - 2)) \<and>
    two_chains cs' (al @ [f]) fl \<and> length cs' = length cs"
proof -
  let ?n = "nexts cs" and ?p = "prevs cs"
  have d: "dseg ?n ?p 0 al 0" and s: "fseg ?n ?p 1 (f # fl) 1"
    and dist: "distinct (al @ f # fl)" and st: "set (al @ f # fl) = {2..<int (length cs)}"
    using assms by (simp_all add: two_chains_def)
  note ic = chains_in_cells [OF assms]
  have f: "in_cells cs f" "f \<noteq> 0" "f \<noteq> 1" using ic(4,6) [of f] by auto
  have pl: "?p 0 = last (0 # al)" using chains_heads [OF assms] by simp
  have "last (0 # al) \<in> insert 0 (set al)" by (cases al rule: rev_exhaust) auto
  then have plm: "?p 0 \<in> insert 0 (set al)" by (simp add: pl)
  have plc: "in_cells cs (?p 0)" "?p 0 \<noteq> 1" "?p 0 \<noteq> f"
    using plm ic(1,3,8) f(2) dist by auto
  define cs' where "cs' = set_prev_link 0 f (set_next_link (?p 0) f (set_prev_link f (?p 0)
      (set_next_link f 0 (set_prev_link 1 (?n f) (set_next_link 1 (?n f) cs)))))"
  have run: "dchain_impl_allocate_new_index cs = Inr (cs', Some (f - 2))"
    using s f ic(1,2) plc
    by (simp add: dchain_impl_allocate_new_index_def link_simps cs'_def)
  have l: "nexts cs' = (?n(1 := ?n f))(f := 0, ?p 0 := f)"
    "prevs cs' = (?p(1 := ?n f))(f := ?p 0, 0 := f)"
    using f ic(1,2) plc by (simp_all add: cs'_def link_simps fun_eq_iff)
  have len: "length cs' = length cs" by (simp add: cs'_def link_simps)
  have d1: "dseg (?n(1 := ?n f)) (?p(1 := ?n f)) 0 al 0" using d ic(8) by simp
  have "dseg (nexts cs') (prevs cs') 0 (al @ [f]) 0"
    using dseg_insert_last [OF d1, of f] ic(7) dist f plc(2) by (simp add: l)
  moreover have "fseg (nexts cs') (prevs cs') 1 fl 1"
  proof -
    have s': "fseg ?n ?p f fl 1" "?n f = ?p f" using s by (auto dest: fseg_links_agree)
    have "?p 0 \<notin> insert f (set fl)" using plc(3) plm dist ic(9) by auto
    moreover have "f \<notin> set fl" "1 \<notin> set fl" "0 \<notin> set fl" using dist ic(9,10) by auto
    ultimately show ?thesis using s' f plc(2) by (cases fl) (auto simp: l)
  qed
  moreover have "distinct ((al @ [f]) @ fl) \<and> set ((al @ [f]) @ fl) = {2..<int (length cs')}"
    using dist st by (auto simp: len)
  ultimately show ?thesis using run len assms by (auto simp: two_chains_def)
qed

section \<open>Lookups\<close>

lemma dchain_links_allocated:
  assumes "two_chains cs al fl" "f \<in> set al" "nexts cs f = prevs cs f"
  shows "nexts cs f = 0 \<and> al = [f]"
proof -
  from assms(2) obtain as bs where al: "al = as @ f # bs" by (meson split_list)
  with assms show ?thesis
    using dseg_links_differ [of "nexts cs" "prevs cs" 0 as f bs] chains_in_cells(7) [OF assms(1)]
    by (auto simp: two_chains_def)
qed

lemma dchain_links_free:
  assumes "two_chains cs al fl" "f \<in> set fl"
  shows "nexts cs f = prevs cs f \<and> nexts cs f \<noteq> 0"
  using assms fseg_links_agree [of "nexts cs" "prevs cs" 1 fl 1 f] chains_in_cells(9) [OF assms(1)]
  by (auto simp: two_chains_def)

lemma dchain_is_allocated_correct:
  assumes "two_chains cs al fl" "0 \<le> index" "in_cells cs (index + 2)"
  shows "dchain_impl_is_index_allocated cs index = Inr (index + 2 \<in> set al)"
proof -
  from assms have "index + 2 \<ge> 2" by simp
  from chains_member_cases [OF assms(1,3) this] show ?thesis
  proof cases
    case 1
    then show ?thesis using dchain_links_allocated [OF assms(1) 1(1)] assms(3)
      by (auto simp: dchain_impl_is_index_allocated_def link_simps Let_def)
  next
    case 2
    then show ?thesis using dchain_links_free [OF assms(1) 2(1)] assms(3)
      by (auto simp: dchain_impl_is_index_allocated_def link_simps Let_def)
  qed
qed

lemma dchain_oldest_correct:
  assumes "two_chains cs al fl"
  shows "dchain_impl_get_oldest_index cs =
    Inr (case al of [] \<Rightarrow> None | f # fs \<Rightarrow> Some (f - 2))"
  using chains_in_cells [OF assms] chains_heads [OF assms]
  by (cases al) (auto simp: dchain_impl_get_oldest_index_def link_simps)

section \<open>Release and rejuvenation\<close>

lemma dchain_free_unallocated:
  assumes "two_chains cs al fl" "index + 2 \<in> set fl"
  shows "dchain_impl_free_index cs index = Inr (cs, False)"
  using dchain_links_free [OF assms] chains_in_cells(4) [OF assms]
  by (simp add: dchain_impl_free_index_def link_simps Let_def)

lemma dchain_rejuvenate_unallocated:
  assumes "two_chains cs al fl" "index + 2 \<in> set fl"
  shows "dchain_impl_rejuvenate_index cs index = Inr (cs, False)"
  using dchain_links_free [OF assms] chains_in_cells(4) [OF assms]
  by (simp add: dchain_impl_rejuvenate_index_def link_simps Let_def)

text \<open>What both operations need of an allocated cell and of its two neighbours.\<close>

lemma dchain_neighbours:
  assumes "two_chains cs (as @ f # bs) fl"
  shows "in_cells cs f" "f \<ge> 2" "prevs cs f = last (0 # as)" "nexts cs f = hd (bs @ [0])"
    "in_cells cs (prevs cs f)" "in_cells cs (nexts cs f)" "prevs cs f \<noteq> f" "nexts cs f \<noteq> f"
    "prevs cs f \<noteq> 1" "nexts cs f \<noteq> 1"
    "dseg ((nexts cs)(prevs cs f := nexts cs f)) ((prevs cs)(nexts cs f := prevs cs f)) 0
       (as @ bs) 0"
    "nexts cs f \<notin> set fl" "prevs cs f \<notin> set fl" "f \<notin> set fl"
proof -
  note ic = chains_in_cells [OF assms]
  have d: "dseg (nexts cs) (prevs cs) 0 (as @ f # bs) 0" "distinct (as @ f # bs)"
    "set (as @ f # bs) \<inter> set fl = {}" using assms by (auto simp: two_chains_def)
  show 1: "in_cells cs f" "f \<ge> 2" using ic(3,5) [of f] by simp_all
  show 2: "prevs cs f = last (0 # as)" "nexts cs f = hd (bs @ [0])"
    using dseg_middle [OF d(1)] by simp_all
  have "last (0 # as) \<in> insert 0 (set as)" "hd (bs @ [0]) \<in> insert 0 (set bs)"
    by (cases as rule: rev_exhaust; simp) (cases bs; simp)
  then have m: "prevs cs f \<in> insert 0 (set as)" "nexts cs f \<in> insert 0 (set bs)" by (simp_all add: 2)
  then show "in_cells cs (prevs cs f)" "in_cells cs (nexts cs f)" "prevs cs f \<noteq> 1" "nexts cs f \<noteq> 1"
    using ic(1,3,8) by auto
  show "prevs cs f \<noteq> f" "nexts cs f \<noteq> f" using m d(2) 1(2) by auto
  show "nexts cs f \<notin> set fl" "prevs cs f \<notin> set fl" "f \<notin> set fl" using m d(3) ic(9) by auto
  show "dseg ((nexts cs)(prevs cs f := nexts cs f)) ((prevs cs)(nexts cs f := prevs cs f)) 0
       (as @ bs) 0" using dseg_remove [OF d(1)] d(2) ic(7) by simp
qed

lemma dchain_free_correct:
  assumes "two_chains cs (as @ f # bs) fl"
  shows "\<exists>cs'. dchain_impl_free_index cs (f - 2) = Inr (cs', True) \<and>
    two_chains cs' (as @ bs) (f # fl) \<and> length cs' = length cs"
proof -
  let ?n = "nexts cs" and ?p = "prevs cs"
  note ic = chains_in_cells [OF assms] and nb = dchain_neighbours [OF assms]
  have s: "fseg ?n ?p 1 fl 1" "distinct ((as @ f # bs) @ fl)"
    "set ((as @ f # bs) @ fl) = {2..<int (length cs)}" using assms by (simp_all add: two_chains_def)
  define cs' where "cs' = set_prev_link 1 f (set_next_link 1 f (set_prev_link f (?n 1)
      (set_next_link f (?n 1) (set_prev_link (?n f) (?p f) (set_next_link (?p f) (?n f) cs)))))"
  have br: "\<not> (?n f = ?p f \<and> ?p f \<noteq> 0)"
    using dchain_links_allocated [OF assms, of f] by auto
  have run: "dchain_impl_free_index cs (f - 2) = Inr (cs', True)"
    using nb(1,2,5-10) ic(1,2) br
    by (simp add: dchain_impl_free_index_def link_simps Let_def cs'_def)
  have l: "nexts cs' = (?n(?p f := ?n f))(f := ?n 1, 1 := f)"
    "prevs cs' = (?p(?n f := ?p f))(f := ?n 1, 1 := f)"
    using nb(1,2,5-10) ic(1,2) by (simp_all add: cs'_def link_simps fun_eq_iff)
  have len: "length cs' = length cs" by (simp add: cs'_def link_simps)
  have "dseg (nexts cs') (prevs cs') 0 (as @ bs) 0"
    using nb(2,11) ic(8) s(2) by (simp add: l)
  moreover have "fseg (nexts cs') (prevs cs') 1 (f # fl) 1"
    using s(1) nb(2,7-10,12-14) ic(10) by (cases fl) (auto simp: l)
  moreover have "distinct ((as @ bs) @ f # fl) \<and>
      set ((as @ bs) @ f # fl) = {2..<int (length cs')}"
    using s(2,3) by (auto simp: len)
  ultimately show ?thesis using run len assms by (auto simp: two_chains_def)
qed

lemma dchain_rejuvenate_correct:
  assumes "two_chains cs (as @ f # bs) fl"
  shows "\<exists>cs'. dchain_impl_rejuvenate_index cs (f - 2) = Inr (cs', True) \<and>
    two_chains cs' (as @ bs @ [f]) fl \<and> length cs' = length cs"
proof (cases "nexts cs f = prevs cs f")
  case True
  with dchain_links_allocated [OF assms, of f] have "nexts cs f = 0" "as = []" "bs = []"
    by (auto simp: append_eq_Cons_conv)
  with True assms dchain_neighbours(1) [OF assms] show ?thesis
    by (simp add: dchain_impl_rejuvenate_index_def link_simps Let_def)
next
  case False
  let ?n = "nexts cs" and ?p = "prevs cs"
  note ic = chains_in_cells [OF assms] and nb = dchain_neighbours [OF assms]
  have s: "fseg ?n ?p 1 fl 1" "distinct ((as @ f # bs) @ fl)"
    "set ((as @ f # bs) @ fl) = {2..<int (length cs)}" using assms by (simp_all add: two_chains_def)
  define n1 p1 where "n1 = ?n(?p f := ?n f)" and "p1 = ?p(?n f := ?p f)"
  have d1: "dseg n1 p1 0 (as @ bs) 0" using nb(11) by (simp add: n1_def p1_def)
  have l0: "p1 0 = last (0 # as @ bs)" using dseg_ends [OF d1] by simp
  have "last (0 # as @ bs) \<in> insert 0 (set (as @ bs))" by (cases "as @ bs" rule: rev_exhaust) auto
  then have lm: "p1 0 \<in> insert 0 (set (as @ bs))" by (simp add: l0)
  then have lc: "in_cells cs (p1 0)" "p1 0 \<noteq> f" "p1 0 \<noteq> 1" "p1 0 \<notin> set fl"
    using ic(1,3,8,9) nb(2) s(2) by auto
  define cs' where "cs' = set_prev_link 0 f (set_next_link (p1 0) f (set_prev_link f (p1 0)
      (set_next_link f 0 (set_prev_link (?n f) (?p f) (set_next_link (?p f) (?n f) cs)))))"
  have run: "dchain_impl_rejuvenate_index cs (f - 2) = Inr (cs', True)"
    using nb(1,2,5-10) ic(1,2) False lc
    by (simp add: dchain_impl_rejuvenate_index_def link_simps Let_def cs'_def p1_def)
  have l: "nexts cs' = n1(f := 0, p1 0 := f)" "prevs cs' = p1(f := p1 0, 0 := f)"
    using nb(1,2,5-10) ic(1,2) lc by (simp_all add: cs'_def link_simps n1_def p1_def)
  have len: "length cs' = length cs" by (simp add: cs'_def link_simps)
  have "dseg (nexts cs') (prevs cs') 0 ((as @ bs) @ [f]) 0"
    unfolding l using d1 s(2) ic(7) nb(2) by (intro dseg_insert_last) auto
  moreover have "fseg (nexts cs') (prevs cs') 1 fl 1"
    using s(1) nb(2,7-10,12-14) ic(9,10) lc by (auto simp: l n1_def p1_def)
  moreover have "distinct ((as @ bs @ [f]) @ fl) \<and>
      set ((as @ bs @ [f]) @ fl) = {2..<int (length cs')}"
    using s(2,3) by (auto simp: len)
  ultimately show ?thesis using run len assms by (auto simp: two_chains_def)
qed

end
