(* ===== verification/DoubleChain.thy ===== *)
theory DoubleChain
  imports DChainImpl
begin

text \<open>
  \<^verbatim>\<open>dpdk-nfs/lib/state/double-chain.c\<close>: the index allocator with a timestamp per
  index. The abstraction is the list of the allocated indices with their timestamps, least
  recently used first, and the list of the free ones; the locale \<open>index_allocator\<close> is what
  the network functions rely on, and the allocator is its instance.
\<close>

section \<open>The allocator\<close>

record double_chain =
  ch_cells :: dchain_cells
  ch_timestamps :: "int list"

text \<open>
  The three blocks of memory \<^verbatim>\<open>malloc\<close> is asked for are parameters: \<open>None\<close> where it
  returns a null pointer, otherwise whatever the block holds.
\<close>

definition dchain_allocate ::
  "bool \<Rightarrow> dchain_cells option \<Rightarrow> int list option \<Rightarrow> int \<Rightarrow> double_chain option result" where
  "dchain_allocate chain_alloc cells_alloc timestamps_alloc index_range =
     (if \<not> chain_alloc then Inr None
      else case cells_alloc of
        None \<Rightarrow> Inr None
      | Some cells \<Rightarrow>
          (case timestamps_alloc of
             None \<Rightarrow> Inr None
           | Some ts \<Rightarrow>
               rbind (dchain_impl_init cells index_range) (\<lambda>cells.
               Inr (Some \<lparr>ch_cells = cells, ch_timestamps = ts\<rparr>))))"

definition read_time :: "double_chain \<Rightarrow> int \<Rightarrow> int result" where
  "read_time d i =
     (if 0 \<le> i \<and> i < int (length (ch_timestamps d)) then Inr (ch_timestamps d ! nat i)
      else Inl Undefined)"

definition write_time :: "double_chain \<Rightarrow> int \<Rightarrow> int \<Rightarrow> double_chain result" where
  "write_time d i t =
     rbind (read_time d i) (\<lambda>_. Inr (d\<lparr>ch_timestamps := (ch_timestamps d)[nat i := t]\<rparr>))"

definition dchain_allocate_new_index ::
  "double_chain \<Rightarrow> int \<Rightarrow> (double_chain \<times> int option) result" where
  "dchain_allocate_new_index d time =
     rbind (dchain_impl_allocate_new_index (ch_cells d)) (\<lambda>(cells, ret).
     let d = d\<lparr>ch_cells := cells\<rparr> in
     case ret of
       None \<Rightarrow> Inr (d, None)
     | Some index_out \<Rightarrow> rbind (write_time d index_out time) (\<lambda>d. Inr (d, Some index_out)))"

definition dchain_rejuvenate_index ::
  "double_chain \<Rightarrow> int \<Rightarrow> int \<Rightarrow> (double_chain \<times> bool) result" where
  "dchain_rejuvenate_index d index time =
     rbind (dchain_impl_rejuvenate_index (ch_cells d) index) (\<lambda>(cells, ret).
     let d = d\<lparr>ch_cells := cells\<rparr> in
     if ret then rbind (write_time d index time) (\<lambda>d. Inr (d, True)) else Inr (d, False))"

definition dchain_expire_one_index ::
  "double_chain \<Rightarrow> int \<Rightarrow> (double_chain \<times> int option) result" where
  "dchain_expire_one_index d time =
     rbind (dchain_impl_get_oldest_index (ch_cells d)) (\<lambda>has_ind.
     case has_ind of
       None \<Rightarrow> Inr (d, None)
     | Some index_out \<Rightarrow>
         rbind (read_time d index_out) (\<lambda>t.
         if t < time then
           rbind (dchain_impl_free_index (ch_cells d) index_out) (\<lambda>(cells, rez).
           Inr (d\<lparr>ch_cells := cells\<rparr>, if rez then Some index_out else None))
         else Inr (d, None)))"

definition dchain_is_index_allocated :: "double_chain \<Rightarrow> int \<Rightarrow> bool result" where
  "dchain_is_index_allocated d index = dchain_impl_is_index_allocated (ch_cells d) index"

definition dchain_free_index :: "double_chain \<Rightarrow> int \<Rightarrow> (double_chain \<times> bool) result" where
  "dchain_free_index d index =
     rbind (dchain_impl_free_index (ch_cells d) index) (\<lambda>(cells, rez).
     Inr (d\<lparr>ch_cells := cells\<rparr>, rez))"

section \<open>What an allocator promises\<close>

text \<open>
  \<open>rep d L F\<close>: the allocator \<open>d\<close> holds the indices of \<open>L\<close>, each with the time of its last
  use, and its free indices are \<open>F\<close>.
\<close>

type_synonym aged = "(int \<times> int) list"

abbreviation ids :: "aged \<Rightarrow> int list" where "ids \<equiv> map fst"

abbreviation forget :: "int \<Rightarrow> aged \<Rightarrow> aged" where
  "forget i \<equiv> filter (\<lambda>(j, t). j \<noteq> i)"

locale index_allocator =
  fixes rep :: "'d \<Rightarrow> aged \<Rightarrow> int list \<Rightarrow> bool"
    and alloc :: "'d \<Rightarrow> int \<Rightarrow> ('d \<times> int option) result"
    and rejuvenate :: "'d \<Rightarrow> int \<Rightarrow> int \<Rightarrow> ('d \<times> bool) result"
    and expire_one :: "'d \<Rightarrow> int \<Rightarrow> ('d \<times> int option) result"
    and is_allocated :: "'d \<Rightarrow> int \<Rightarrow> bool result"
    and free :: "'d \<Rightarrow> int \<Rightarrow> ('d \<times> bool) result"
  assumes rep_distinct: "rep d L F \<Longrightarrow> distinct (ids L @ F)"
    and alloc_full: "rep d L [] \<Longrightarrow> \<exists>d'. alloc d t = Inr (d', None) \<and> rep d' L []"
    and alloc_fresh:
      "rep d L (f # F) \<Longrightarrow> \<exists>d'. alloc d t = Inr (d', Some f) \<and> rep d' (L @ [(f, t)]) F"
    and rejuvenate_allocated:
      "rep d L F \<Longrightarrow> i \<in> set (ids L) \<Longrightarrow>
         \<exists>d'. rejuvenate d i t = Inr (d', True) \<and> rep d' (forget i L @ [(i, t)]) F"
    and rejuvenate_free:
      "rep d L F \<Longrightarrow> i \<in> set F \<Longrightarrow>
         \<exists>d'. rejuvenate d i t = Inr (d', False) \<and> rep d' L F"
    and expire_none: "rep d [] F \<Longrightarrow> \<exists>d'. expire_one d t = Inr (d', None) \<and> rep d' [] F"
    and expire_first:
      "rep d ((i, s) # L) F \<Longrightarrow>
         \<exists>d'. if s < t then expire_one d t = Inr (d', Some i) \<and> rep d' L (i # F)
           else expire_one d t = Inr (d', None) \<and> rep d' ((i, s) # L) F"
    and allocated_iff:
      "rep d L F \<Longrightarrow> i \<in> set (ids L @ F) \<Longrightarrow> is_allocated d i = Inr (i \<in> set (ids L))"
    and free_allocated:
      "rep d L F \<Longrightarrow> i \<in> set (ids L) \<Longrightarrow>
         \<exists>d'. free d i = Inr (d', True) \<and> rep d' (forget i L) (i # F)"
    and free_unallocated:
      "rep d L F \<Longrightarrow> i \<in> set F \<Longrightarrow> \<exists>d'. free d i = Inr (d', False) \<and> rep d' L F"
begin

text \<open>An index is handed out once: it is not allocated before and it is afterwards.\<close>

lemma alloc_cases:
  assumes "rep d L F"
  obtains "F = []" | f F' d' where "F = f # F'" "alloc d t = Inr (d', Some f)"
    "rep d' (L @ [(f, t)]) F'" "f \<notin> set (ids L)"
proof (cases F)
  case Nil
  then show thesis by (rule that(1))
next
  case (Cons f F')
  with alloc_fresh [of d L f F' t] assms obtain d' where
    "alloc d t = Inr (d', Some f)" "rep d' (L @ [(f, t)]) F'" by blast
  with Cons rep_distinct [OF assms] show thesis by (intro that(2)) auto
qed

lemma alloc_total: "rep d L F \<Longrightarrow> \<exists>d' r L' F'. alloc d t = Inr (d', r) \<and> rep d' L' F'"
  using alloc_full [of d L t] alloc_fresh [of d L _ _ t] by (cases F) blast+

text \<open>Rejuvenating the index allocated last only changes its time.\<close>

lemma rejuvenate_last:
  assumes "rep d (L @ [(i, s)]) F"
  shows "\<exists>d'. rejuvenate d i t = Inr (d', True) \<and> rep d' (L @ [(i, t)]) F"
proof -
  have "i \<notin> set (ids L)" using rep_distinct [OF assms] by simp
  then have "forget i (L @ [(i, s)]) = L" by (force simp: filter_id_conv)
  with rejuvenate_allocated [OF assms, of i t] show ?thesis by auto
qed

end

section \<open>The chain is an allocator\<close>

definition chain_rep :: "double_chain \<Rightarrow> aged \<Rightarrow> int list \<Rightarrow> bool" where
  "chain_rep d L F \<longleftrightarrow>
     two_chains (ch_cells d) (map (\<lambda>(i, t). i + 2) L) (map (\<lambda>i. i + 2) F) \<and>
     length (ch_cells d) = length (ch_timestamps d) + 2 \<and>
     (\<forall>(i, t) \<in> set L. ch_timestamps d ! nat i = t)"

lemma cells_ids: "map (\<lambda>(i, t). i + 2) L = map (\<lambda>i. i + 2) (ids L)"
  by (induction L) auto

lemma chain_rep_range:
  assumes "chain_rep d L F"
  shows "set (ids L @ F) = {0..<int (length (ch_timestamps d))}" "distinct (ids L @ F)"
proof -
  let ?A = "ids L @ F"
  have c: "two_chains (ch_cells d) (map (\<lambda>i. i + 2) (ids L)) (map (\<lambda>i. i + 2) F)"
    using assms unfolding chain_rep_def cells_ids by simp
  have l: "length (ch_cells d) = length (ch_timestamps d) + 2" using assms by (simp add: chain_rep_def)
  have e: "(\<lambda>i. i + 2) ` set ?A = {2..<int (length (ch_cells d))}"
  proof -
    have "set (map (\<lambda>i. i + 2) (ids L) @ map (\<lambda>i. i + 2) F) = {2..<int (length (ch_cells d))}"
      using c by (simp only: two_chains_def)
    then show ?thesis by (simp add: image_Un image_image)
  qed
  have "set ?A = (\<lambda>i. i - 2) ` (\<lambda>i. i + 2) ` set ?A" by (simp add: image_image)
  also have "\<dots> = (\<lambda>i. i - 2) ` {2..<int (length (ch_cells d))}" by (simp only: e)
  also have "\<dots> = {0..<int (length (ch_timestamps d))}"
    by (auto simp: l image_iff intro!: bexI [of _ "x + 2" for x])
  finally show "set ?A = {0..<int (length (ch_timestamps d))}" .
  have "distinct (map (\<lambda>i. i + 2) ?A)" using c by (simp only: two_chains_def map_append)
  then show "distinct ?A" by (simp only: distinct_map)
qed

lemma chain_rep_in_range:
  "chain_rep d L F \<Longrightarrow> i \<in> set (ids L @ F) \<Longrightarrow>
     0 \<le> i \<and> i < int (length (ch_timestamps d)) \<and> in_cells (ch_cells d) (i + 2)"
proof -
  assume r: "chain_rep d L F" and i: "i \<in> set (ids L @ F)"
  from chain_rep_range(1) [OF r] i have "i \<in> {0..<int (length (ch_timestamps d))}" by (simp del: set_append)
  with r show ?thesis by (simp add: in_cells_def chain_rep_def)
qed

lemma forget_not_in: "i \<notin> set (ids L) \<Longrightarrow> forget i L = L"
  by (force simp: filter_id_conv)

lemma forget_middle:
  assumes "distinct (ids (A @ (i, s) # B))"
  shows "forget i (A @ (i, s) # B) = A @ B"
proof -
  have "i \<notin> set (ids A)" "i \<notin> set (ids B)" using assms by auto
  then have "forget i A = A" "forget i B = B" by (blast intro: forget_not_in)+
  then show ?thesis by simp
qed

lemma ids_split:
  assumes "i \<in> set (ids L)"
  obtains A s B where "L = A @ (i, s) # B"
proof -
  from assms obtain s where "(i, s) \<in> set L" by auto
  then show thesis using that by (metis split_list)
qed

lemma write_time_in:
  "0 \<le> i \<Longrightarrow> i < int (length (ch_timestamps d)) \<Longrightarrow>
     write_time d i t = Inr (d\<lparr>ch_timestamps := (ch_timestamps d)[nat i := t]\<rparr>)"
  by (simp add: write_time_def read_time_def)

text \<open>Recording the time of an index that the list \<open>L\<close> does not mention.\<close>

lemma times_kept:
  assumes "\<forall>(i, t) \<in> set L. ts ! nat i = t" "f \<notin> set (ids L)" "\<forall>i \<in> set (ids L). 0 \<le> i" "0 \<le> f"
  shows "\<forall>(i, t) \<in> set L. ts[nat f := s] ! nat i = t"
proof (intro ballI, clarify)
  fix i t assume m: "(i, t) \<in> set L"
  then have "i \<in> set (ids L)" by force
  with assms(2-4) have "nat i \<noteq> nat f" by (metis nat_eq_iff2 nat_0_le)
  with assms(1) m show "ts[nat f := s] ! nat i = t" by auto
qed

lemma chain_rep_recorded:
  assumes "two_chains cells (map (\<lambda>(i, t). i + 2) (L @ [(f, s)])) (map (\<lambda>i. i + 2) F)"
    and "length cells = length (ch_timestamps d) + 2"
    and "\<forall>(i, t) \<in> set L. ch_timestamps d ! nat i = t"
  shows "chain_rep (d\<lparr>ch_cells := cells, ch_timestamps := (ch_timestamps d)[nat f := s]\<rparr>)
      (L @ [(f, s)]) F \<and>
    0 \<le> f \<and> f < int (length (ch_timestamps d))"
proof -
  let ?M = "L @ [(f, s)]" and ?ts = "ch_timestamps d"
  have st: "set (map (\<lambda>i. i + 2) (ids ?M @ F)) = {2..<int (length cells)}"
    "distinct (map (\<lambda>i. i + 2) (ids ?M @ F))"
    using assms(1) by (simp_all only: two_chains_def cells_ids map_append)
  have r: "0 \<le> i \<and> i < int (length ?ts)" if "i \<in> set (ids ?M)" for i
  proof -
    from that have "i + 2 \<in> set (map (\<lambda>i. i + 2) (ids ?M @ F))" by (auto simp: image_iff)
    then show ?thesis unfolding st using assms(2) by simp
  qed
  have "f \<notin> set (ids L)" using st(2) by (auto simp: image_iff)
  then have "\<forall>(i, t) \<in> set L. ?ts[nat f := s] ! nat i = t"
    using assms(3) r by (intro times_kept) auto
  with r [of f] assms(1,2) show ?thesis by (simp add: chain_rep_def nat_less_iff)
qed

lemma chain_alloc_fresh:
  assumes "chain_rep d L (f # F)"
  shows "\<exists>d'. dchain_allocate_new_index d t = Inr (d', Some f) \<and> chain_rep d' (L @ [(f, t)]) F"
proof -
  have c: "two_chains (ch_cells d) (map (\<lambda>(i, t). i + 2) L) ((f + 2) # map (\<lambda>i. i + 2) F)"
    using assms by (simp add: chain_rep_def)
  from dchain_allocate_correct [OF c] obtain cs where
    cs: "dchain_impl_allocate_new_index (ch_cells d) = Inr (cs, Some f)"
      "two_chains cs (map (\<lambda>(i, t). i + 2) (L @ [(f, t)])) (map (\<lambda>i. i + 2) F)"
      "length cs = length (ch_cells d)" by auto
  have p: "length (ch_cells d) = length (ch_timestamps d) + 2"
    "\<forall>(i, t) \<in> set L. ch_timestamps d ! nat i = t" using assms by (simp_all add: chain_rep_def)
  from chain_rep_recorded [OF cs(2) _ p(2)] cs(3) p(1) have
    "chain_rep (d\<lparr>ch_cells := cs, ch_timestamps := (ch_timestamps d)[nat f := t]\<rparr>)
       (L @ [(f, t)]) F"
    "0 \<le> f" "f < int (length (ch_timestamps d))" by simp_all
  with cs(1) show ?thesis by (simp add: dchain_allocate_new_index_def write_time_in)
qed

lemma chain_alloc_full:
  assumes "chain_rep d L []"
  shows "\<exists>d'. dchain_allocate_new_index d t = Inr (d', None) \<and> chain_rep d' L []"
  using assms dchain_allocate_full [of "ch_cells d"]
  by (auto simp: chain_rep_def dchain_allocate_new_index_def)

lemma chain_rep_split:
  assumes "chain_rep d L F" "L = A @ (i, s) # B"
  shows "two_chains (ch_cells d)
      (map (\<lambda>(i, t). i + 2) A @ (i + 2) # map (\<lambda>(i, t). i + 2) B) (map (\<lambda>i. i + 2) F)"
    and "forget i L = A @ B"
proof -
  show "two_chains (ch_cells d)
      (map (\<lambda>(i, t). i + 2) A @ (i + 2) # map (\<lambda>(i, t). i + 2) B) (map (\<lambda>i. i + 2) F)"
    using assms by (simp add: chain_rep_def)
  have "distinct (ids L)" using chain_rep_range(2) [OF assms(1)] by simp
  then show "forget i L = A @ B" using assms(2) by (simp only: forget_middle)
qed

lemma chain_rejuvenate_allocated:
  assumes "chain_rep d L F" "i \<in> set (ids L)"
  shows "\<exists>d'. dchain_rejuvenate_index d i t = Inr (d', True) \<and>
    chain_rep d' (forget i L @ [(i, t)]) F"
proof -
  from assms(2) obtain A s B where L: "L = A @ (i, s) # B" by (rule ids_split)
  note sp = chain_rep_split [OF assms(1) L]
  from dchain_rejuvenate_correct [OF sp(1)] obtain cs where
    cs: "dchain_impl_rejuvenate_index (ch_cells d) i = Inr (cs, True)"
      "two_chains cs (map (\<lambda>(i, t). i + 2) ((A @ B) @ [(i, t)])) (map (\<lambda>i. i + 2) F)"
      "length cs = length (ch_cells d)" by auto
  have p: "length (ch_cells d) = length (ch_timestamps d) + 2"
    "\<forall>(i, t) \<in> set (A @ B). ch_timestamps d ! nat i = t"
    using assms(1) by (auto simp: chain_rep_def L)
  from chain_rep_recorded [OF cs(2) _ p(2)] cs(3) p(1) have
    "chain_rep (d\<lparr>ch_cells := cs, ch_timestamps := (ch_timestamps d)[nat i := t]\<rparr>)
       ((A @ B) @ [(i, t)]) F"
    "0 \<le> i" "i < int (length (ch_timestamps d))" by simp_all
  with cs(1) show ?thesis by (simp add: dchain_rejuvenate_index_def write_time_in sp(2))
qed

lemma chain_rejuvenate_free:
  assumes "chain_rep d L F" "i \<in> set F"
  shows "\<exists>d'. dchain_rejuvenate_index d i t = Inr (d', False) \<and> chain_rep d' L F"
  using assms dchain_rejuvenate_unallocated [of "ch_cells d" _ _ i]
  by (auto simp: chain_rep_def dchain_rejuvenate_index_def)

lemma chain_free_allocated:
  assumes "chain_rep d L F" "i \<in> set (ids L)"
  shows "\<exists>cs. dchain_impl_free_index (ch_cells d) i = Inr (cs, True) \<and>
    chain_rep (d\<lparr>ch_cells := cs\<rparr>) (forget i L) (i # F)"
proof -
  from assms(2) obtain A s B where L: "L = A @ (i, s) # B" by (rule ids_split)
  note sp = chain_rep_split [OF assms(1) L]
  from dchain_free_correct [OF sp(1)] obtain cs where
    cs: "dchain_impl_free_index (ch_cells d) i = Inr (cs, True)"
      "two_chains cs (map (\<lambda>(i, t). i + 2) (A @ B)) (map (\<lambda>i. i + 2) (i # F))"
      "length cs = length (ch_cells d)" by auto
  with assms(1) show ?thesis unfolding sp(2) by (auto simp: chain_rep_def L)
qed

lemma chain_expire_first:
  assumes "chain_rep d ((i, s) # L) F"
  shows "\<exists>d'. if s < t then dchain_expire_one_index d t = Inr (d', Some i) \<and> chain_rep d' L (i # F)
    else dchain_expire_one_index d t = Inr (d', None) \<and> chain_rep d' ((i, s) # L) F"
proof -
  have o: "dchain_impl_get_oldest_index (ch_cells d) = Inr (Some i)"
  proof -
    have "two_chains (ch_cells d) ((i + 2) # map (\<lambda>(i, t). i + 2) L) (map (\<lambda>i. i + 2) F)"
      using assms by (simp add: chain_rep_def)
    from dchain_oldest_correct [OF this] show ?thesis by simp
  qed
  have r: "read_time d i = Inr s"
    using chain_rep_in_range [OF assms, of i] assms by (simp add: read_time_def chain_rep_def)
  have f: "forget i ((i, s) # L) = L"
    using chain_rep_split(2) [OF assms, of "[]" i s L] by simp
  show ?thesis
  proof (cases "s < t")
    case True
    from chain_free_allocated [OF assms, of i] obtain cs where
      "dchain_impl_free_index (ch_cells d) i = Inr (cs, True)"
      "chain_rep (d\<lparr>ch_cells := cs\<rparr>) L (i # F)" unfolding f by auto
    with True o r show ?thesis by (simp add: dchain_expire_one_index_def)
  next
    case False
    with o r assms show ?thesis by (simp add: dchain_expire_one_index_def)
  qed
qed

interpretation chain: index_allocator chain_rep dchain_allocate_new_index dchain_rejuvenate_index
  dchain_expire_one_index dchain_is_index_allocated dchain_free_index
proof (unfold_locales, goal_cases)
  case 1 then show ?case by (rule chain_rep_range(2))
next
  case 2 then show ?case by (rule chain_alloc_full)
next
  case 3 then show ?case by (rule chain_alloc_fresh)
next
  case 4 then show ?case by (rule chain_rejuvenate_allocated)
next
  case 5 then show ?case by (rule chain_rejuvenate_free)
next
  case (6 d F t)
  then show ?case using dchain_oldest_correct [of "ch_cells d" "[]"]
    by (auto simp: dchain_expire_one_index_def chain_rep_def)
next
  case 7 then show ?case by (rule chain_expire_first)
next
  case (8 d L F i)
  have "0 \<le> i" "in_cells (ch_cells d) (i + 2)" using chain_rep_in_range [OF 8] by simp_all
  moreover have "two_chains (ch_cells d) (map (\<lambda>i. i + 2) (ids L)) (map (\<lambda>i. i + 2) F)"
    using 8(1) by (simp only: chain_rep_def cells_ids)
  ultimately have "dchain_impl_is_index_allocated (ch_cells d) i =
      Inr (i + 2 \<in> set (map (\<lambda>i. i + 2) (ids L)))"
    by (intro dchain_is_allocated_correct) auto
  then show ?case by (auto simp: dchain_is_index_allocated_def image_iff)
next
  case (9 d L F i)
  from chain_free_allocated [OF 9] show ?case by (auto simp: dchain_free_index_def)
next
  case (10 d L F i)
  then show ?case using dchain_free_unallocated [of "ch_cells d" _ _ i]
    by (auto simp: dchain_free_index_def chain_rep_def)
qed

text \<open>A fresh allocator over blocks of the sizes asked for.\<close>

lemma dchain_allocate_correct_blocks:
  assumes "1 \<le> n" "int (length cells) = n + 2" "int (length ts) = n"
  shows "\<exists>d. dchain_allocate True (Some cells) (Some ts) n = Inr (Some d) \<and>
    chain_rep d [] [0..n - 1]"
proof -
  from dchain_impl_init_correct [OF assms(1,2)] obtain cs where
    cs: "dchain_impl_init cells n = Inr cs" "length cs = length cells"
      "two_chains cs [] [2..n + 1]" by blast
  have "map (\<lambda>i. i + 2) [0..n - 1] = [2..n + 1]"
    by (rule nth_equalityI) (simp_all add: add.commute)
  with cs assms show ?thesis by (auto simp: dchain_allocate_def chain_rep_def)
qed

end
