(* ===== verification/NFMap.thy ===== *)
theory NFMap
  imports CoreTypes
begin

text \<open>
  The hash map of the software network functions, \<^verbatim>\<open>dpdk-nfs/lib/state/map-impl-pow2.c\<close>
  and \<^verbatim>\<open>map.c\<close>: open addressing with linear probing over parallel arrays, where each slot counts
  the entries whose probe path passes over it, so that a lookup can stop early and a removal
  leaves no tombstone. The map stores pointers to keys: \<open>mem\<close> reads the bytes at a
  pointer. The compiler's CRC instruction is the parameter \<open>crc\<close>.
\<close>

section \<open>State\<close>

record 'p nf_map =
  busybits :: "int list"
  keyps :: "'p list"
  khs :: "u32 list"
  chns :: "int list"
  map_vals :: "int list"
  map_capacity :: u32
  map_count :: u32
  key_size :: u32

type_synonym bytes = "u8 list"

section \<open>Hashing and comparing keys\<close>

definition keq :: "bytes \<Rightarrow> bytes \<Rightarrow> u32 \<Rightarrow> bool" where
  "keq key1 key2 keys_size \<longleftrightarrow> take (unat keys_size) key1 = take (unat keys_size) key2"

text \<open>Four bytes read as an \<^verbatim>\<open>unsigned int\<close>, the lowest first.\<close>

definition load32 :: "u8 \<Rightarrow> u8 \<Rightarrow> u8 \<Rightarrow> u8 \<Rightarrow> u32" where
  "load32 a b c d =
     ucast a + push_bit 8 (ucast b) + push_bit 16 (ucast c) + push_bit 24 (ucast d)"

fun khash_loop :: "(u32 \<Rightarrow> u32 \<Rightarrow> u32) \<Rightarrow> u32 \<Rightarrow> bytes \<Rightarrow> u32" where
  "khash_loop crc hash (a # b # c # d # rest) = khash_loop crc (crc hash (load32 a b c d)) rest"
| "khash_loop crc hash (a # rest) = khash_loop crc (crc hash (ucast a)) rest"
| "khash_loop crc hash [] = hash"

definition khash :: "(u32 \<Rightarrow> u32 \<Rightarrow> u32) \<Rightarrow> bytes \<Rightarrow> u32 \<Rightarrow> u32" where
  "khash crc key size_bytes = khash_loop crc 0 (take (unat size_bytes) key)"

section \<open>Probing\<close>

definition probe :: "u32 \<Rightarrow> u32 \<Rightarrow> u32" where
  "probe k capacity = k AND (capacity - 1)"

function find_key_loop ::
  "('p \<Rightarrow> bytes) \<Rightarrow> 'p nf_map \<Rightarrow> bytes \<Rightarrow> u32 \<Rightarrow> u32 \<Rightarrow> nat \<Rightarrow> int"
where
  "find_key_loop mem m key hash start i =
     (if i < unat (map_capacity m) then
        let index = probe (start + of_nat i) (map_capacity m);
            bb = busybits m ! unat index; kh = khs m ! unat index;
            chn = chns m ! unat index; kp = keyps m ! unat index
        in if bb \<noteq> 0 \<and> kh = hash then
             (if keq (mem kp) key (key_size m) then sint index
              else find_key_loop mem m key hash start (i + 1))
           else if chn = 0 then - 1
           else find_key_loop mem m key hash start (i + 1)
      else - 1)"
  by pat_completeness auto
termination
  by (relation "measure (\<lambda>(mem, m, key, hash, start, i). unat (map_capacity m) - i)") auto

definition find_key :: "('p \<Rightarrow> bytes) \<Rightarrow> 'p nf_map \<Rightarrow> bytes \<Rightarrow> u32 \<Rightarrow> int" where
  "find_key mem m key hash = find_key_loop mem m key hash (probe hash (map_capacity m)) 0"

text \<open>The removal gives back the pointer stored in the slot it empties.\<close>

function find_key_remove_loop ::
  "('p \<Rightarrow> bytes) \<Rightarrow> 'p nf_map \<Rightarrow> bytes \<Rightarrow> u32 \<Rightarrow> u32 \<Rightarrow> nat \<Rightarrow> 'p nf_map \<times> (u32 \<times> 'p) option"
where
  "find_key_remove_loop mem m key hash start i =
     (if i < unat (map_capacity m) then
        let index = probe (start + of_nat i) (map_capacity m);
            bb = busybits m ! unat index; kh = khs m ! unat index;
            chn = chns m ! unat index; kp = keyps m ! unat index
        in if bb \<noteq> 0 \<and> kh = hash \<and> keq (mem kp) key (key_size m) then
             (m\<lparr>busybits := (busybits m)[unat index := 0]\<rparr>, Some (index, kp))
           else
             find_key_remove_loop mem (m\<lparr>chns := (chns m)[unat index := chn - 1]\<rparr>) key hash start
               (i + 1)
      else (m, None))"
  by pat_completeness auto
termination
  by (relation "measure (\<lambda>(mem, m, key, hash, start, i). unat (map_capacity m) - i)") auto

definition find_key_remove_chain ::
  "('p \<Rightarrow> bytes) \<Rightarrow> 'p nf_map \<Rightarrow> bytes \<Rightarrow> u32 \<Rightarrow> 'p nf_map \<times> (u32 \<times> 'p) option"
where
  "find_key_remove_chain mem m key hash =
     find_key_remove_loop mem m key hash (probe hash (map_capacity m)) 0"

function find_empty_loop :: "'p nf_map \<Rightarrow> u32 \<Rightarrow> nat \<Rightarrow> 'p nf_map \<times> u32" where
  "find_empty_loop m start i =
     (if i < unat (map_capacity m) then
        let index = probe (start + of_nat i) (map_capacity m) in
        if busybits m ! unat index = 0 then (m, index)
        else
          find_empty_loop (m\<lparr>chns := (chns m)[unat index := chns m ! unat index + 1]\<rparr>) start (i + 1)
      else (m, - 1))"
  by pat_completeness auto
termination by (relation "measure (\<lambda>(m, start, i). unat (map_capacity m) - i)") auto

definition find_empty :: "'p nf_map \<Rightarrow> u32 \<Rightarrow> 'p nf_map \<times> u32" where
  "find_empty m start = find_empty_loop m start 0"

declare find_key_loop.simps [simp del]
declare find_key_remove_loop.simps [simp del]
declare find_empty_loop.simps [simp del]

section \<open>Operations\<close>

definition map_impl_init :: "'p nf_map \<Rightarrow> 'p nf_map" where
  "map_impl_init m =
     fold (\<lambda>i m. m\<lparr>busybits := (busybits m)[i := 0], chns := (chns m)[i := 0]\<rparr>)
       [0..<unat (map_capacity m)] m"

definition map_impl_get :: "('p \<Rightarrow> bytes) \<Rightarrow> 'p nf_map \<Rightarrow> bytes \<Rightarrow> u32 \<Rightarrow> int option" where
  "map_impl_get mem m key hash =
     (let index = find_key mem m key hash in
      if index = - 1 then None else Some (map_vals m ! nat index))"

text \<open>When no slot is free the index is -1, the largest unsigned number, and the writes are outside
  the arrays.\<close>

definition map_impl_put :: "'p nf_map \<Rightarrow> 'p \<Rightarrow> u32 \<Rightarrow> int \<Rightarrow> 'p nf_map result" where
  "map_impl_put m keyp hash value =
     (let (m, index) = find_empty m (probe hash (map_capacity m)) in
      if unat index < unat (map_capacity m) then
        Inr (m\<lparr>busybits := (busybits m)[unat index := 1], keyps := (keyps m)[unat index := keyp],
               khs := (khs m)[unat index := hash],
               map_vals := (map_vals m)[unat index := value]\<rparr>)
      else Inl Undefined)"

definition map_impl_erase ::
  "('p \<Rightarrow> bytes) \<Rightarrow> 'p nf_map \<Rightarrow> bytes \<Rightarrow> u32 \<Rightarrow> 'p nf_map \<times> 'p option"
where
  "map_impl_erase mem m key hash =
     (let (m, found) = find_key_remove_chain mem m key hash in (m, map_option snd found))"

definition map_impl_size :: "'p nf_map \<Rightarrow> u32" where
  "map_impl_size m =
     fold (\<lambda>i s. if busybits m ! i \<noteq> 0 then s + 1 else s) [0..<unat (map_capacity m)] 0"

definition compute_is_power_of_two :: "u64 \<Rightarrow> bool" where
  "compute_is_power_of_two n \<longleftrightarrow> n AND (n - 1) = 0"

text \<open>The blocks \<^verbatim>\<open>malloc\<close> returns are parameters, in the order they are asked for; \<open>None\<close> is
  the null pointer.\<close>

definition map_allocate ::
  "bool \<Rightarrow> int list option \<Rightarrow> 'p list option \<Rightarrow> u32 list option \<Rightarrow> int list option \<Rightarrow>
     int list option \<Rightarrow> u32 \<Rightarrow> u32 \<Rightarrow> 'p nf_map option"
where
  "map_allocate map_alloc bbs_alloc keyps_alloc khs_alloc chns_alloc vals_alloc capacity ksize =
     (if capacity = 0 \<or> \<not> compute_is_power_of_two (ucast capacity) then None
      else if \<not> map_alloc then None
      else case (bbs_alloc, keyps_alloc, khs_alloc, chns_alloc, vals_alloc) of
        (Some bbs, Some kps, Some hs, Some cs, Some vs) \<Rightarrow>
          Some (map_impl_init
            \<lparr>busybits = bbs, keyps = kps, khs = hs, chns = cs, map_vals = vs,
             map_capacity = capacity, map_count = 0, key_size = ksize\<rparr>)
      | _ \<Rightarrow> None)"

definition map_get ::
  "(u32 \<Rightarrow> u32 \<Rightarrow> u32) \<Rightarrow> ('p \<Rightarrow> bytes) \<Rightarrow> 'p nf_map \<Rightarrow> bytes \<Rightarrow> int option"
where
  "map_get crc mem m key = map_impl_get mem m key (khash crc key (key_size m))"

definition map_put ::
  "(u32 \<Rightarrow> u32 \<Rightarrow> u32) \<Rightarrow> ('p \<Rightarrow> bytes) \<Rightarrow> 'p nf_map \<Rightarrow> 'p \<Rightarrow> int \<Rightarrow> 'p nf_map result"
where
  "map_put crc mem m keyp value =
     rbind (map_impl_put m keyp (khash crc (mem keyp) (key_size m)) value) (\<lambda>m.
     Inr (m\<lparr>map_count := map_count m + 1\<rparr>))"

definition map_erase ::
  "(u32 \<Rightarrow> u32 \<Rightarrow> u32) \<Rightarrow> ('p \<Rightarrow> bytes) \<Rightarrow> 'p nf_map \<Rightarrow> bytes \<Rightarrow> 'p nf_map \<times> 'p option"
where
  "map_erase crc mem m key =
     (let (m, trash) = map_impl_erase mem m key (khash crc key (key_size m)) in
      (m\<lparr>map_count := map_count m - 1\<rparr>, trash))"

definition map_size :: "'p nf_map \<Rightarrow> u32" where
  "map_size m = map_count m"

end
