(* ===== verification/NFMapCorrect.thy ===== *)
theory NFMapCorrect
  imports NFMap
begin

text \<open>
  The hash map refines a partial map from the bytes of a key to its value. The invariant says
  what the counters of a slot mean: the number of entries whose probe path passes over it.
\<close>

section \<open>Probe paths\<close>

text \<open>\<open>steps n s i\<close>: how many probes from slot \<open>s\<close> until slot \<open>i\<close>, around \<open>n\<close> slots.\<close>

definition steps :: "nat \<Rightarrow> nat \<Rightarrow> nat \<Rightarrow> nat" where
  "steps n s i = (i + n - s) mod n"

lemma steps_less: "0 < n \<Longrightarrow> steps n s i < n"
  by (simp add: steps_def)

lemma steps_reach:
  assumes "s < n" "i < n"
  shows "(s + steps n s i) mod n = i"
  using assms by (simp add: steps_def mod_add_right_eq)

lemma steps_probe:
  assumes "s < n" "t < n"
  shows "steps n s ((s + t) mod n) = t"
proof (cases "s + t < n")
  case True
  then have "(s + t) mod n + n - s = t + n" using assms by simp
  with assms show ?thesis by (simp add: steps_def)
next
  case False
  then have "(s + t) mod n = s + t - n" using assms by (simp add: mod_if)
  with assms False show ?thesis by (simp add: steps_def)
qed

lemma steps_inj:
  assumes "s < n" "i < n" "j < n" "steps n s i = steps n s j"
  shows "i = j"
  using steps_reach [OF assms(1,2)] steps_reach [OF assms(1,3)] assms(4) by metis

lemma unat_probe:
  assumes "capacity = 2 ^ b" "b < 32"
  shows "unat (probe k capacity) = unat k mod unat capacity"
proof -
  have "probe k capacity = take_bit b k"
    by (simp add: probe_def assms(1) take_bit_eq_mask mask_eq_exp_minus_1)
  then have "unat (probe k capacity) = take_bit b (unat k)" by (simp only: unsigned_take_bit_eq)
  moreover have "unat capacity = 2 ^ b" using assms by (simp add: unat_power_u32)
  ultimately show ?thesis by (simp add: take_bit_eq_mod)
qed

lemma unat_probe_step:
  assumes "capacity = 2 ^ b" "b < 32"
  shows "unat (probe (start + of_nat i) capacity) = (unat start + i) mod unat capacity"
proof -
  have c: "unat capacity = 2 ^ b" using assms by (simp add: unat_power_u32)
  have "(2 :: nat) ^ b dvd 2 ^ 32" using assms(2) by (intro le_imp_power_dvd) simp
  moreover have "unat (start + of_nat i) = (unat start + i) mod 2 ^ 32"
    by (simp add: unat_word_ariths unat_of_nat mod_add_right_eq)
  ultimately have "unat (start + of_nat i) mod 2 ^ b = (unat start + i) mod 2 ^ b"
    by (simp only: mod_mod_cancel)
  then show ?thesis unfolding unat_probe [OF assms] c .
qed

section \<open>The invariant and the abstraction\<close>

abbreviation slots :: "'p nf_map \<Rightarrow> nat" where "slots m \<equiv> unat (map_capacity m)"

definition busy :: "'p nf_map \<Rightarrow> nat \<Rightarrow> bool" where
  "busy m j \<longleftrightarrow> j < slots m \<and> busybits m ! j \<noteq> 0"

definition key_at :: "('p \<Rightarrow> bytes) \<Rightarrow> 'p nf_map \<Rightarrow> nat \<Rightarrow> bytes" where
  "key_at mem m j = take (unat (key_size m)) (mem (keyps m ! j))"

definition home :: "'p nf_map \<Rightarrow> nat \<Rightarrow> nat" where
  "home m j = unat (khs m ! j) mod slots m"

text \<open>The slots whose entry's probe path passes over slot \<open>i\<close>.\<close>

definition passing :: "'p nf_map \<Rightarrow> nat \<Rightarrow> nat set" where
  "passing m i =
     {j. busy m j \<and> steps (slots m) (home m j) i < steps (slots m) (home m j) j}"

definition power_capacity :: "'p nf_map \<Rightarrow> bool" where
  "power_capacity m \<longleftrightarrow> (\<exists>b < 32. map_capacity m = 2 ^ b)"

definition map_arrays :: "'p nf_map \<Rightarrow> bool" where
  "map_arrays m \<longleftrightarrow>
     length (busybits m) = slots m \<and> length (keyps m) = slots m \<and> length (khs m) = slots m \<and>
     length (chns m) = slots m \<and> length (map_vals m) = slots m"

definition map_wf :: "(u32 \<Rightarrow> u32 \<Rightarrow> u32) \<Rightarrow> ('p \<Rightarrow> bytes) \<Rightarrow> 'p nf_map \<Rightarrow> bool" where
  "map_wf crc mem m \<longleftrightarrow>
     power_capacity m \<and> map_arrays m \<and>
     (\<forall>j. busy m j \<longrightarrow> khs m ! j = khash crc (mem (keyps m ! j)) (key_size m)) \<and>
     inj_on (key_at mem m) {j. busy m j} \<and>
     (\<forall>i < slots m. chns m ! i = int (card (passing m i))) \<and>
     unat (map_count m) = card {j. busy m j}"

definition entries :: "('p \<Rightarrow> bytes) \<Rightarrow> 'p nf_map \<Rightarrow> (bytes \<times> int) list" where
  "entries mem m =
     map (\<lambda>j. (key_at mem m j, map_vals m ! j))
       (filter (\<lambda>j. busybits m ! j \<noteq> 0) [0..<slots m])"

definition contents :: "('p \<Rightarrow> bytes) \<Rightarrow> 'p nf_map \<Rightarrow> bytes \<Rightarrow> int option" where
  "contents mem m = map_of (entries mem m)"

abbreviation prefix_of :: "'p nf_map \<Rightarrow> bytes \<Rightarrow> bytes" where
  "prefix_of m key \<equiv> take (unat (key_size m)) key"

lemma slots_positive: "power_capacity m \<Longrightarrow> 0 < slots m"
  by (auto simp: power_capacity_def unat_power_u32)

lemma unat_probe_slots:
  "power_capacity m \<Longrightarrow> unat (probe k (map_capacity m)) = unat k mod slots m"
  by (auto simp: power_capacity_def unat_probe)

lemma unat_probe_step_slots:
  "power_capacity m \<Longrightarrow>
     unat (probe (start + of_nat i) (map_capacity m)) = (unat start + i) mod slots m"
  by (auto simp: power_capacity_def unat_probe_step)

lemma home_less: "power_capacity m \<Longrightarrow> home m j < slots m"
  by (simp add: home_def slots_positive)

lemma busy_less: "busy m j \<Longrightarrow> j < slots m"
  by (simp add: busy_def)

lemma finite_busy [simp]: "finite {j. busy m j}"
  by (rule finite_subset [of _ "{..<slots m}"]) (auto dest: busy_less)

lemma passing_busy: "passing m i \<subseteq> {j. busy m j}"
  by (auto simp: passing_def)

lemma finite_passing [simp]: "finite (passing m i)"
  by (rule finite_subset [OF passing_busy]) simp

lemma contents_eq_Some:
  assumes "inj_on (key_at mem m) {j. busy m j}"
  shows "contents mem m k = Some v \<longleftrightarrow> (\<exists>j. busy m j \<and> key_at mem m j = k \<and> map_vals m ! j = v)"
proof -
  let ?js = "filter (\<lambda>j. busybits m ! j \<noteq> 0) [0..<slots m]"
  have s: "set ?js = {j. busy m j}" by (auto simp: busy_def)
  have "map fst (entries mem m) = map (key_at mem m) ?js" by (simp add: entries_def)
  moreover have "distinct (map (key_at mem m) ?js)" unfolding distinct_map s using assms by simp
  ultimately have "distinct (map fst (entries mem m))" by simp
  then have "contents mem m k = Some v \<longleftrightarrow> (k, v) \<in> set (entries mem m)"
    by (simp add: contents_def)
  also have "\<dots> \<longleftrightarrow> (\<exists>j. busy m j \<and> key_at mem m j = k \<and> map_vals m ! j = v)"
    unfolding entries_def set_map s by auto
  finally show ?thesis .
qed

lemma contents_eq_None:
  assumes "inj_on (key_at mem m) {j. busy m j}"
  shows "contents mem m k = None \<longleftrightarrow> (\<forall>j. busy m j \<longrightarrow> key_at mem m j \<noteq> k)"
  using contents_eq_Some [OF assms, of k] by (metis not_None_eq)

text \<open>A map over the same entries has the same contents.\<close>

lemma contents_ext:
  assumes "inj_on (key_at mem m) {j. busy m j}" "inj_on (key_at mem m') {j. busy m' j}"
    and "\<And>k v. (\<exists>j. busy m' j \<and> key_at mem m' j = k \<and> map_vals m' ! j = v) \<longleftrightarrow> f k = Some v"
  shows "contents mem m' = f"
proof
  fix k show "contents mem m' k = f k"
    using contents_eq_Some [OF assms(2), of k] assms(3) [of k] by (metis not_None_eq)
qed

text \<open>The pointers the map holds, each with its value.\<close>

definition stored :: "'p nf_map \<Rightarrow> ('p \<times> int) set" where
  "stored m = {(keyps m ! j, map_vals m ! j) |j. busy m j}"

lemma stored_eq_image: "stored m = (\<lambda>j. (keyps m ! j, map_vals m ! j)) ` {j. busy m j}"
  by (auto simp: stored_def)

lemma card_stored:
  assumes "inj_on (key_at mem m) {j. busy m j}"
  shows "card (stored m) = card {j. busy m j}"
proof -
  have "inj_on (\<lambda>j. (keyps m ! j, map_vals m ! j)) {j. busy m j}"
    using assms by (auto simp: inj_on_def key_at_def)
  then show ?thesis unfolding stored_eq_image by (rule card_image)
qed

section \<open>Lookup\<close>

lemma map_wfD:
  assumes "map_wf crc mem m"
  shows "power_capacity m" "map_arrays m" "inj_on (key_at mem m) {j. busy m j}"
    "\<And>j. busy m j \<Longrightarrow> khs m ! j = khash crc (mem (keyps m ! j)) (key_size m)"
    "\<And>i. i < slots m \<Longrightarrow> chns m ! i = int (card (passing m i))"
    "unat (map_count m) = card {j. busy m j}"
  using assms by (auto simp: map_wf_def)

lemma keq_key_at: "keq (mem (keyps m ! j)) key (key_size m) \<longleftrightarrow> key_at mem m j = prefix_of m key"
  by (simp add: keq_def key_at_def)

lemma khash_prefix: "khash crc key n = khash crc (take (unat n) key) n"
  by (simp add: khash_def)

text \<open>An entry with the wanted key has the wanted hash and starts probing where the lookup does.\<close>

lemma key_hash:
  assumes "map_wf crc mem m" "busy m j" "key_at mem m j = prefix_of m key"
  shows "khs m ! j = khash crc key (key_size m)"
proof -
  have "khs m ! j = khash crc (key_at mem m j) (key_size m)"
    using map_wfD(4) [OF assms(1,2)] khash_prefix [of crc "mem (keyps m ! j)"]
    by (simp add: key_at_def)
  then show ?thesis using khash_prefix [of crc key] by (simp add: assms(3))
qed

lemma slots_bound:
  assumes "power_capacity m"
  shows "slots m \<le> 2 ^ 31"
proof -
  from assms obtain b where b: "b < 32" "slots m = 2 ^ b"
    by (auto simp: power_capacity_def unat_power_u32)
  then show ?thesis by (simp only: b(2)) (intro power_increasing, auto)
qed

lemma sint_slot:
  fixes index :: u32
  assumes "power_capacity m" "unat index < slots m"
  shows "sint index = int (unat index)"
proof -
  have "unat index < 2 ^ 31" using assms slots_bound [of m] by simp
  then have "int (unat index) < int (2 ^ 31)" by (simp only: of_nat_less_iff)
  then have "uint index < 2 ^ 31" by (simp only: uint_nat of_nat_power of_nat_numeral)
  then have "signed_take_bit 31 (uint index) = uint index"
  proof (intro signed_take_bit_int_eq_self)
    show "- (2 ^ 31) \<le> uint index" by (rule order_trans [OF _ uint_ge_0]) simp
  qed
  moreover have "LENGTH(32) - Suc 0 = 31" by simp
  ultimately have "sint index = uint index" by (simp only: sint_uint)
  then show ?thesis by (simp only: uint_nat)
qed

text \<open>One turn of the lookup loop, over slots as natural numbers.\<close>

lemma find_key_loop_step:
  assumes "power_capacity m" "i < slots m"
  defines "j start \<equiv> (unat start + i) mod slots m"
  shows "find_key_loop mem m key hash start i =
    (if busybits m ! j start \<noteq> 0 \<and> khs m ! j start = hash then
       if key_at mem m (j start) = prefix_of m key then int (j start)
       else find_key_loop mem m key hash start (i + 1)
     else if chns m ! j start = 0 then - 1
     else find_key_loop mem m key hash start (i + 1))"
proof -
  let ?index = "probe (start + of_nat i) (map_capacity m)"
  have u: "unat ?index = j start" using assms(1) by (simp add: unat_probe_step_slots j_def)
  then have "sint ?index = int (j start)"
    using sint_slot [OF assms(1), of ?index] slots_positive [OF assms(1)] by (simp add: j_def)
  with u assms(2) show ?thesis
    by (subst find_key_loop.simps) (simp add: Let_def keq_key_at)
qed

lemma home_of_key:
  assumes "map_wf crc mem m" "busy m j" "key_at mem m j = prefix_of m key"
  shows "home m j = unat (probe (khash crc key (key_size m)) (map_capacity m))"
  using key_hash [OF assms] map_wfD(1) [OF assms(1)] by (simp add: home_def unat_probe_slots)

lemma find_key_loop_found:
  assumes "map_wf crc mem m" "busy m j" "key_at mem m j = prefix_of m key"
    and "i \<le> steps (slots m) (home m j) j"
  defines "hash \<equiv> khash crc key (key_size m)"
  shows "find_key_loop mem m key hash (probe hash (map_capacity m)) i = int j"
  using assms(4)
proof (induction "steps (slots m) (home m j) j - i" arbitrary: i)
  case (0 i)
  note wf = map_wfD [OF assms(1)]
  from 0 have i: "i = steps (slots m) (home m j) j" by simp
  have s: "unat (probe hash (map_capacity m)) = home m j"
    using home_of_key [OF assms(1-3)] by (simp add: hash_def)
  have "i < slots m" using i steps_less [OF slots_positive [OF wf(1)]] by simp
  moreover have "(home m j + i) mod slots m = j"
    unfolding i by (rule steps_reach [OF home_less [OF wf(1)] busy_less [OF assms(2)]])
  moreover have "busybits m ! j \<noteq> 0" using assms(2) by (simp add: busy_def)
  moreover have "khs m ! j = hash" using key_hash [OF assms(1-3)] by (simp add: hash_def)
  ultimately show ?case
    using assms(3) by (subst find_key_loop_step [OF wf(1)]) (simp_all add: s)
next
  case (Suc d i)
  note wf = map_wfD [OF assms(1)]
  let ?k = "(home m j + i) mod slots m"
  have s: "unat (probe hash (map_capacity m)) = home m j"
    using home_of_key [OF assms(1-3)] by (simp add: hash_def)
  have lt: "i < steps (slots m) (home m j) j" using Suc.hyps(2) by simp
  then have i: "i < slots m" using steps_less [OF slots_positive [OF wf(1)], of "home m j" j] by simp
  have k: "?k < slots m" "steps (slots m) (home m j) ?k = i"
    using slots_positive [OF wf(1)] steps_probe [OF home_less [OF wf(1)] i] by simp_all
  have "j \<in> passing m ?k" using assms(2) lt k(2) by (simp add: passing_def)
  then have "card (passing m ?k) \<noteq> 0" by (auto simp: card_eq_0_iff)
  then have c: "chns m ! ?k \<noteq> 0" using wf(5) [OF k(1)] by simp
  have "?k \<noteq> j" using k(2) lt by auto
  then have "busybits m ! ?k \<noteq> 0 \<Longrightarrow> key_at mem m ?k \<noteq> prefix_of m key"
    using wf(3) assms(2,3) k(1) by (auto simp: inj_on_def busy_def)
  moreover have "find_key_loop mem m key hash (probe hash (map_capacity m)) (i + 1) = int j"
    using Suc.hyps lt by (intro Suc.hyps(1)) auto
  ultimately show ?case using c by (subst find_key_loop_step [OF wf(1) i]) (simp add: s)
qed

lemma find_key_loop_absent:
  assumes "power_capacity m" "\<And>j. busy m j \<Longrightarrow> key_at mem m j \<noteq> prefix_of m key"
  shows "find_key_loop mem m key hash start i = - 1"
proof (induction "slots m - i" arbitrary: i)
  case 0
  then show ?case by (subst find_key_loop.simps) simp
next
  case (Suc d i)
  then have i: "i < slots m" by simp
  let ?k = "(unat start + i) mod slots m"
  have "busybits m ! ?k \<noteq> 0 \<Longrightarrow> key_at mem m ?k \<noteq> prefix_of m key"
    using assms(2) [of ?k] slots_positive [OF assms(1)] by (simp add: busy_def)
  moreover have "find_key_loop mem m key hash start (i + 1) = - 1"
    using Suc.hyps by (intro Suc.hyps(1)) auto
  ultimately show ?case by (subst find_key_loop_step [OF assms(1) i]) simp
qed

lemma map_get_correct:
  assumes "map_wf crc mem m"
  shows "map_get crc mem m key = contents mem m (prefix_of m key)"
proof (cases "contents mem m (prefix_of m key)")
  case None
  then have "\<And>j. busy m j \<Longrightarrow> key_at mem m j \<noteq> prefix_of m key"
    using contents_eq_None [OF map_wfD(3) [OF assms]] by blast
  from find_key_loop_absent [OF map_wfD(1) [OF assms] this] None show ?thesis
    by (simp add: map_get_def map_impl_get_def find_key_def)
next
  case (Some v)
  then obtain j where j: "busy m j" "key_at mem m j = prefix_of m key" "map_vals m ! j = v"
    using contents_eq_Some [OF map_wfD(3) [OF assms]] by blast
  from find_key_loop_found [OF assms j(1,2), of 0] j(3) Some show ?thesis
    by (simp add: map_get_def map_impl_get_def find_key_def)
qed

section \<open>Insertion\<close>

lemma find_empty_loop_free:
  assumes "power_capacity m" "length (chns m) = slots m" "unat start < slots m" "i \<le> d" "d < slots m"
    and "busybits m ! ((unat start + d) mod slots m) = 0"
    and "\<And>t. i \<le> t \<Longrightarrow> t < d \<Longrightarrow> busybits m ! ((unat start + t) mod slots m) \<noteq> 0"
  shows "\<exists>c. find_empty_loop m start i =
      (m\<lparr>chns := c\<rparr>, probe (start + of_nat d) (map_capacity m)) \<and> length c = slots m \<and>
      (\<forall>x < slots m. c ! x = chns m ! x +
        (if i \<le> steps (slots m) (unat start) x \<and> steps (slots m) (unat start) x < d then 1 else 0))"
  using assms(1,2,3,4,5,6,7)
proof (induction "d - i" arbitrary: i m)
  case (0 i m)
  then have "i = d" by simp
  moreover from this 0 have "find_empty_loop m start i = (m, probe (start + of_nat d) (map_capacity m))"
    by (subst find_empty_loop.simps) (simp add: unat_probe_step_slots)
  ultimately show ?case using "0.prems"(2) by (intro exI [of _ "chns m"]) simp
next
  case (Suc n i m)
  let ?N = "slots m" and ?s = "unat start"
  let ?k = "(?s + i) mod ?N"
  define m1 where "m1 = m\<lparr>chns := (chns m)[?k := chns m ! ?k + 1]\<rparr>"
  have i: "i < ?N" "i < d" using Suc.hyps(2) Suc.prems(5) by simp_all
  have "find_empty_loop m start i = find_empty_loop m1 start (i + 1)"
    using i Suc.prems(1) Suc.prems(7) [of i]
    by (subst find_empty_loop.simps) (simp add: unat_probe_step_slots m1_def Let_def)
  moreover have "\<exists>c. find_empty_loop m1 start (i + 1) =
      (m1\<lparr>chns := c\<rparr>, probe (start + of_nat d) (map_capacity m1)) \<and> length c = slots m1 \<and>
      (\<forall>x < slots m1. c ! x = chns m1 ! x +
        (if i + 1 \<le> steps (slots m1) ?s x \<and> steps (slots m1) ?s x < d then 1 else 0))"
    using Suc.prems Suc.hyps(2) i
    by (intro Suc.hyps(1)) (simp_all add: m1_def power_capacity_def)
  then obtain c where c: "find_empty_loop m1 start (i + 1) =
      (m1\<lparr>chns := c\<rparr>, probe (start + of_nat d) (map_capacity m1))" "length c = ?N"
      "\<And>x. x < ?N \<Longrightarrow> c ! x = chns m1 ! x +
        (if i + 1 \<le> steps ?N ?s x \<and> steps ?N ?s x < d then 1 else 0)"
    by (auto simp: m1_def)
  have "c ! x = chns m ! x + (if i \<le> steps ?N ?s x \<and> steps ?N ?s x < d then 1 else 0)"
    if x: "x < ?N" for x
  proof (cases "x = ?k")
    case True
    then have "steps ?N ?s x = i" using steps_probe [OF Suc.prems(3) i(1)] by simp
    with c(3) [OF x] i(2) True x Suc.prems(2) show ?thesis by (simp add: m1_def)
  next
    case False
    then have "steps ?N ?s x \<noteq> i" using steps_reach [OF Suc.prems(3) x] by auto
    with c(3) [OF x] False show ?thesis by (auto simp: m1_def)
  qed
  with c(1,2) calculation(1) show ?case by (intro exI [of _ c]) (simp add: m1_def)
qed

text \<open>What the invariant needs of a map whose counters follow a change of one slot.\<close>

lemma passing_insert:
  assumes "\<not> busy m e" "e < slots m" "slots m' = slots m"
    and "\<And>j. busy m' j \<longleftrightarrow> busy m j \<or> j = e" "\<And>j. j \<noteq> e \<Longrightarrow> khs m' ! j = khs m ! j"
  shows "int (card (passing m' x)) = int (card (passing m x)) +
    (if steps (slots m) (home m' e) x < steps (slots m) (home m' e) e then 1 else 0)"
proof -
  have h: "home m' j = home m j" if "busy m j" for j
    using that assms(1,3,5) by (metis home_def)
  have "passing m' x = passing m x \<union>
      (if steps (slots m) (home m' e) x < steps (slots m) (home m' e) e then {e} else {})"
    unfolding passing_def assms(3,4) using h assms(1) by auto
  moreover have "e \<notin> passing m x" using assms(1) by (simp add: passing_def)
  ultimately show ?thesis by simp
qed

lemma map_put_full:
  assumes "power_capacity m" "\<And>j. j < slots m \<Longrightarrow> busy m j"
  shows "map_put crc mem m keyp value = Inl Undefined"
proof -
  have full: "snd (find_empty_loop m' start i) = - 1 \<and>
      map_capacity (fst (find_empty_loop m' start i)) = map_capacity m"
    if "map_capacity m' = map_capacity m" "busybits m' = busybits m" for m' start i
    using that
  proof (induction "slots m' - i" arbitrary: i m')
    case 0
    then show ?case by (simp add: find_empty_loop.simps [of m' start i])
  next
    case (Suc n i m')
    have p: "power_capacity m'" using assms(1) Suc.prems(1) by (simp add: power_capacity_def)
    have i: "i < slots m'" using Suc.hyps(2) by simp
    let ?k = "(unat start + i) mod slots m'"
    have "busybits m' ! ?k \<noteq> 0"
      using assms(2) [of ?k] slots_positive [OF p] Suc.prems by (simp add: busy_def)
    moreover have "snd (find_empty_loop (m'\<lparr>chns := c\<rparr>) start (i + 1)) = - 1 \<and>
        map_capacity (fst (find_empty_loop (m'\<lparr>chns := c\<rparr>) start (i + 1))) = map_capacity m" for c
      using Suc by (intro Suc.hyps(1)) auto
    ultimately show ?case
      using i
      by (simp add: find_empty_loop.simps [of m' start i] unat_probe_step_slots [OF p] Let_def)
  qed
  from full [of m] have "snd (find_empty m start) = - 1 \<and>
      map_capacity (fst (find_empty m start)) = map_capacity m" for start
    by (simp add: find_empty_def)
  moreover have "\<not> unat (- 1 :: u32) < slots m"
    using slots_bound [OF assms(1)]
    by (simp add: unsigned_minus_1_eq_mask mask_eq_exp_minus_1)
  ultimately show ?thesis
    by (simp add: map_put_def map_impl_put_def case_prod_beta)
qed

lemma first_free:
  assumes "power_capacity m" "e < slots m" "\<not> busy m e" "s < slots m"
  obtains d where "d < slots m" "busybits m ! ((s + d) mod slots m) = 0"
    "\<And>t. t < d \<Longrightarrow> busybits m ! ((s + t) mod slots m) \<noteq> 0"
proof -
  let ?P = "\<lambda>d. d < slots m \<and> busybits m ! ((s + d) mod slots m) = 0"
  have "?P (steps (slots m) s e)"
    using assms steps_reach [OF assms(4,2)] steps_less [OF slots_positive [OF assms(1)]]
    by (simp add: busy_def)
  then have L: "?P (LEAST d. ?P d)" by (rule LeastI)
  have "busybits m ! ((s + t) mod slots m) \<noteq> 0" if "t < (LEAST d. ?P d)" for t
    using not_less_Least [OF that] that L by auto
  with L that show thesis by blast
qed

lemma map_put_correct:
  assumes "map_wf crc mem m" "e < slots m" "\<not> busy m e"
    and "contents mem m (prefix_of m (mem keyp)) = None"
  shows "\<exists>m'. map_put crc mem m keyp value = Inr m' \<and> map_wf crc mem m' \<and>
    contents mem m' = (contents mem m)(prefix_of m (mem keyp) \<mapsto> value) \<and>
    stored m' = insert (keyp, value) (stored m) \<and>
    map_capacity m' = map_capacity m \<and> key_size m' = key_size m"
proof -
  note wf = map_wfD [OF assms(1)]
  define hash start where "hash = khash crc (mem keyp) (key_size m)"
    and "start = probe hash (map_capacity m)"
  let ?N = "slots m" and ?s = "unat start"
  have s: "?s < ?N" "?s = unat hash mod ?N"
    using wf(1) by (simp_all add: start_def unat_probe_slots slots_positive)
  from first_free [OF wf(1) assms(2,3) s(1)] obtain d where d: "d < ?N"
    "busybits m ! ((?s + d) mod ?N) = 0" "\<And>t. t < d \<Longrightarrow> busybits m ! ((?s + t) mod ?N) \<noteq> 0"
    by blast
  define f where "f = (?s + d) mod ?N"
  have f: "f < ?N" "\<not> busy m f" "steps ?N ?s f = d"
    using d s(1) slots_positive [OF wf(1)] steps_probe [OF s(1) d(1)] by (simp_all add: f_def busy_def)
  have ar: "map_arrays m" by (rule wf(2))
  then have "length (chns m) = ?N" by (simp add: map_arrays_def)
  from find_empty_loop_free [OF wf(1) this s(1) _ d(1,2) d(3), of 0] obtain c where
    c: "find_empty m start = (m\<lparr>chns := c\<rparr>, probe (start + of_nat d) (map_capacity m))"
      "length c = ?N" "\<And>x. x < ?N \<Longrightarrow> c ! x = chns m ! x + (if steps ?N ?s x < d then 1 else 0)"
    by (auto simp: find_empty_def)
  have index: "unat (probe (start + of_nat d) (map_capacity m)) = f"
    using wf(1) by (simp add: unat_probe_step_slots f_def)
  define m' where "m' = m\<lparr>chns := c, busybits := (busybits m)[f := 1], keyps := (keyps m)[f := keyp],
      khs := (khs m)[f := hash], map_vals := (map_vals m)[f := value],
      map_count := map_count m + 1\<rparr>"
  have run: "map_put crc mem m keyp value = Inr m'"
    using c(1) f(1) by (simp add: map_put_def map_impl_put_def hash_def [symmetric]
        start_def [symmetric] index m'_def)
  have b': "busy m' j \<longleftrightarrow> busy m j \<or> j = f" for j
    using f(1) ar by (auto simp: busy_def m'_def nth_list_update map_arrays_def)
  have k': "key_at mem m' j = (if j = f then prefix_of m (mem keyp) else key_at mem m j)" for j
    using f(1) ar by (auto simp: key_at_def m'_def map_arrays_def)
  have bset: "{j. busy m' j} = insert f {j. busy m j}" by (auto simp: b')
  have absent: "\<And>j. busy m j \<Longrightarrow> key_at mem m j \<noteq> prefix_of m (mem keyp)"
    using assms(4) contents_eq_None [OF wf(3)] by blast
  have inj': "inj_on (key_at mem m') {j. busy m' j}"
  proof -
    have "inj_on (key_at mem m') {j. busy m j}"
      using wf(3) f(2) by (subst inj_on_cong [of _ _ "key_at mem m"]) (auto simp: k')
    moreover have "key_at mem m' f \<notin> key_at mem m' ` ({j. busy m j} - {f})"
    proof
      assume "key_at mem m' f \<in> key_at mem m' ` ({j. busy m j} - {f})"
      then obtain j where "busy m j" "j \<noteq> f" "key_at mem m' f = key_at mem m' j" by blast
      with absent [of j] show False by (simp add: k')
    qed
    ultimately show ?thesis unfolding bset by simp
  qed
  have "home m' f = ?s" using f(1) ar by (simp add: home_def m'_def s(2) map_arrays_def)
  moreover have "\<And>j. j \<noteq> f \<Longrightarrow> khs m' ! j = khs m ! j" "slots m' = slots m"
    by (simp_all add: m'_def)
  ultimately have pass: "int (card (passing m' x)) =
      int (card (passing m x)) + (if steps ?N ?s x < d then 1 else 0)" for x
    using passing_insert [OF f(2,1) _ b', of x] f(3) by simp
  have "card {j. busy m j} < ?N"
  proof -
    have "{j. busy m j} \<subset> {..<?N}" using f(1,2) by (auto dest: busy_less)
    then show ?thesis using psubset_card_mono [of "{..<?N}"] by simp
  qed
  then have "unat (map_count m + 1) = unat (map_count m) + 1"
    using wf(6) slots_bound [OF wf(1)] by (simp add: unat_word_ariths)
  then have cnt: "unat (map_count m') = card {j. busy m' j}"
    using wf(6) f(2) unfolding bset by (simp add: m'_def)
  have "map_wf crc mem m'"
    unfolding map_wf_def
  proof (intro conjI allI impI)
    show "power_capacity m'" using wf(1) by (simp add: power_capacity_def m'_def)
    show "map_arrays m'" using ar c(2) by (simp add: map_arrays_def m'_def)
    show "khs m' ! j = khash crc (mem (keyps m' ! j)) (key_size m')" if "busy m' j" for j
    proof (cases "j = f")
      case False
      with that have "busy m j" by (simp add: b')
      from wf(4) [OF this] False show ?thesis by (simp add: m'_def)
    qed (use f(1) ar in \<open>simp add: m'_def hash_def map_arrays_def\<close>)
    show "inj_on (key_at mem m') {j. busy m' j}" by (rule inj')
    show "chns m' ! i = int (card (passing m' i))" if "i < slots m'" for i
      using that c(3) [of i] wf(5) [of i] by (simp add: pass) (simp add: m'_def)
    show "unat (map_count m') = card {j. busy m' j}" by (rule cnt)
  qed
  moreover have "contents mem m' = (contents mem m)(prefix_of m (mem keyp) \<mapsto> value)"
  proof (rule contents_ext [OF wf(3) inj'])
    fix k v
    have v': "map_vals m' ! j = (if j = f then value else map_vals m ! j)" for j
      using f(1) ar by (simp add: m'_def map_arrays_def)
    have "(\<exists>j. busy m' j \<and> key_at mem m' j = k \<and> map_vals m' ! j = v) \<longleftrightarrow>
        k = prefix_of m (mem keyp) \<and> v = value \<or> contents mem m k = Some v"
      unfolding contents_eq_Some [OF wf(3), of k v] using f(2) by (metis b' k' v')
    then show "(\<exists>j. busy m' j \<and> key_at mem m' j = k \<and> map_vals m' ! j = v) \<longleftrightarrow>
        ((contents mem m)(prefix_of m (mem keyp) \<mapsto> value)) k = Some v"
      using assms(4) by auto
  qed
  moreover have "stored m' = insert (keyp, value) (stored m)"
  proof -
    have "map_vals m' ! j = (if j = f then value else map_vals m ! j)"
      "keyps m' ! j = (if j = f then keyp else keyps m ! j)" for j
      using f(1) ar by (simp_all add: m'_def map_arrays_def)
    then have "(\<lambda>j. (keyps m' ! j, map_vals m' ! j)) ` {j. busy m j} = stored m"
      "(keyps m' ! f, map_vals m' ! f) = (keyp, value)"
      unfolding stored_eq_image using f(2) by (auto intro!: image_cong)
    then show ?thesis unfolding stored_eq_image [of m'] bset image_insert by simp
  qed
  moreover have "map_capacity m' = map_capacity m" "key_size m' = key_size m"
    by (simp_all add: m'_def)
  ultimately show ?thesis using run by blast
qed

section \<open>Removal\<close>

text \<open>Up to the slot \<open>d\<close> probes away that holds the key, the loop takes one from every
  counter; then it empties that slot.\<close>

lemma find_key_remove_loop_found:
  assumes "power_capacity m" "length (chns m) = slots m" "unat start < slots m" "i \<le> d" "d < slots m"
    and "j = (unat start + d) mod slots m"
    and "busybits m ! j \<noteq> 0" "khs m ! j = hash" "key_at mem m j = prefix_of m key"
    and "\<And>t. i \<le> t \<Longrightarrow> t < d \<Longrightarrow>
      \<not> (busybits m ! ((unat start + t) mod slots m) \<noteq> 0 \<and>
         khs m ! ((unat start + t) mod slots m) = hash \<and>
         key_at mem m ((unat start + t) mod slots m) = prefix_of m key)"
  shows "\<exists>c index. find_key_remove_loop mem m key hash start i =
      (m\<lparr>chns := c, busybits := (busybits m)[j := 0]\<rparr>, Some (index, keyps m ! j)) \<and>
      length c = slots m \<and>
      (\<forall>x < slots m. c ! x = chns m ! x -
        (if i \<le> steps (slots m) (unat start) x \<and> steps (slots m) (unat start) x < d then 1 else 0))"
  using assms
proof (induction "d - i" arbitrary: i m)
  case (0 i m)
  then have "i = d" by simp
  moreover from this 0 have "find_key_remove_loop mem m key hash start i =
      (m\<lparr>busybits := (busybits m)[j := 0]\<rparr>,
       Some (probe (start + of_nat d) (map_capacity m), keyps m ! j))"
    by (subst find_key_remove_loop.simps) (simp add: unat_probe_step_slots keq_key_at Let_def)
  ultimately show ?case using "0.prems"(2)
    by (intro exI [of _ "chns m"] exI [of _ "probe (start + of_nat d) (map_capacity m)"]) simp
next
  case (Suc n i m)
  let ?N = "slots m" and ?s = "unat start"
  let ?k = "(?s + i) mod ?N"
  define m1 where "m1 = m\<lparr>chns := (chns m)[?k := chns m ! ?k - 1]\<rparr>"
  have i: "i < ?N" "i < d" using Suc.hyps(2) Suc.prems(5) by simp_all
  have step: "find_key_remove_loop mem m key hash start i =
      find_key_remove_loop mem m1 key hash start (i + 1)"
    using i Suc.prems(1) Suc.prems(10) [of i]
    by (subst find_key_remove_loop.simps)
      (auto simp: unat_probe_step_slots m1_def keq_key_at Let_def)
  have same: "slots m1 = ?N" "prefix_of m1 key = prefix_of m key" "key_at mem m1 = key_at mem m"
    "busybits m1 = busybits m" "khs m1 = khs m" "keyps m1 = keyps m" "power_capacity m1"
    "length (chns m1) = ?N"
    using Suc.prems(1,2) by (auto simp: m1_def key_at_def fun_eq_iff power_capacity_def)
  have "\<exists>c index. find_key_remove_loop mem m1 key hash start (i + 1) =
      (m1\<lparr>chns := c, busybits := (busybits m1)[j := 0]\<rparr>, Some (index, keyps m1 ! j)) \<and>
      length c = slots m1 \<and>
      (\<forall>x < slots m1. c ! x = chns m1 ! x -
        (if i + 1 \<le> steps (slots m1) ?s x \<and> steps (slots m1) ?s x < d then 1 else 0))"
    using Suc.prems Suc.hyps(2) i by (intro Suc.hyps(1)) (simp_all add: same)
  then obtain c index where c: "find_key_remove_loop mem m1 key hash start (i + 1) =
      (m1\<lparr>chns := c, busybits := (busybits m)[j := 0]\<rparr>, Some (index, keyps m ! j))"
      "length c = ?N"
      "\<And>x. x < ?N \<Longrightarrow> c ! x = chns m1 ! x -
        (if i + 1 \<le> steps ?N ?s x \<and> steps ?N ?s x < d then 1 else 0)"
    by (auto simp: same)
  have "c ! x = chns m ! x - (if i \<le> steps ?N ?s x \<and> steps ?N ?s x < d then 1 else 0)"
    if x: "x < ?N" for x
  proof (cases "x = ?k")
    case True
    then have "steps ?N ?s x = i" using steps_probe [OF Suc.prems(3) i(1)] by simp
    with c(3) [OF x] i(2) True x Suc.prems(2) show ?thesis by (simp add: m1_def)
  next
    case False
    then have "steps ?N ?s x \<noteq> i" using steps_reach [OF Suc.prems(3) x] by auto
    with c(3) [OF x] False show ?thesis by (auto simp: m1_def)
  qed
  with c(1,2) step show ?case by (intro exI [of _ c] exI [of _ index]) (simp add: m1_def)
qed

lemma passing_remove:
  assumes "busy m j" "slots m' = slots m" "\<And>k. busy m' k \<longleftrightarrow> busy m k \<and> k \<noteq> j" "khs m' = khs m"
  shows "int (card (passing m' x)) = int (card (passing m x)) -
    (if steps (slots m) (home m j) x < steps (slots m) (home m j) j then 1 else 0)"
proof -
  have h: "home m' k = home m k" for k using assms(2,4) by (simp add: home_def)
  have "passing m' x = passing m x - {j}" unfolding passing_def assms(2,3) h by auto
  moreover have "j \<in> passing m x \<longleftrightarrow> steps (slots m) (home m j) x < steps (slots m) (home m j) j"
    using assms(1) by (simp add: passing_def)
  moreover have "int (card (passing m x - {j})) = int (card (passing m x)) - 1"
    if "j \<in> passing m x"
  proof -
    have "0 < card (passing m x)" using that by (auto simp: card_gt_0_iff)
    then show ?thesis using that by (simp add: card_Diff_singleton of_nat_diff)
  qed
  ultimately show ?thesis by (cases "j \<in> passing m x") simp_all
qed

lemma map_erase_correct:
  assumes "map_wf crc mem m" "contents mem m (prefix_of m key) = Some v"
  shows "\<exists>m' p. map_erase crc mem m key = (m', Some p) \<and> map_wf crc mem m' \<and>
    contents mem m' = (contents mem m)(prefix_of m key := None) \<and>
    take (unat (key_size m)) (mem p) = prefix_of m key \<and>
    (p, v) \<in> stored m \<and> stored m' = stored m - {(p, v)} \<and>
    map_capacity m' = map_capacity m \<and> key_size m' = key_size m"
proof -
  note wf = map_wfD [OF assms(1)]
  from assms(2) obtain j where j: "busy m j" "key_at mem m j = prefix_of m key"
    and jv: "map_vals m ! j = v"
    using contents_eq_Some [OF wf(3)] by blast
  define hash start where "hash = khash crc key (key_size m)"
    and "start = probe hash (map_capacity m)"
  let ?N = "slots m" and ?s = "unat start"
  define d where "d = steps ?N (home m j) j"
  have s1: "?s = home m j" using home_of_key [OF assms(1) j] by (simp add: start_def hash_def)
  have s: "?s = home m j" "?s < ?N" using home_less [OF wf(1)] by (simp_all only: s1)
  have jl: "j < ?N" "busybits m ! j \<noteq> 0" using j(1) by (simp_all add: busy_def)
  have d: "d < ?N" "j = (?s + d) mod ?N"
    using steps_less [OF slots_positive [OF wf(1)]] steps_reach [OF s(2) jl(1)]
    by (simp_all add: d_def s(1))
  have kh: "khs m ! j = hash" using key_hash [OF assms(1) j] by (simp add: hash_def)
  have other: "\<not> (busybits m ! ((?s + t) mod ?N) \<noteq> 0 \<and> khs m ! ((?s + t) mod ?N) = hash \<and>
      key_at mem m ((?s + t) mod ?N) = prefix_of m key)" if "t < d" for t
  proof
    let ?k = "(?s + t) mod ?N"
    assume a: "busybits m ! ?k \<noteq> 0 \<and> khs m ! ?k = hash \<and> key_at mem m ?k = prefix_of m key"
    have t: "t < ?N" using that d(1) by simp
    have "busy m ?k" using a slots_positive [OF wf(1)] by (simp add: busy_def)
    with a j wf(3) have "?k = j" by (auto simp: inj_on_def)
    with steps_probe [OF s(2) t] that show False by (simp add: d_def s(1))
  qed
  have ar: "map_arrays m" by (rule wf(2))
  then have "length (chns m) = ?N" by (simp add: map_arrays_def)
  from find_key_remove_loop_found [OF wf(1) this s(2) _ d(1,2) jl(2) kh j(2) other, of 0]
  obtain c index where c: "find_key_remove_chain mem m key hash =
      (m\<lparr>chns := c, busybits := (busybits m)[j := 0]\<rparr>, Some (index, keyps m ! j))"
      "length c = ?N" "\<And>x. x < ?N \<Longrightarrow> c ! x = chns m ! x - (if steps ?N ?s x < d then 1 else 0)"
    by (auto simp: find_key_remove_chain_def start_def)
  define m' where "m' = m\<lparr>chns := c, busybits := (busybits m)[j := 0],
      map_count := map_count m - 1\<rparr>"
  have run: "map_erase crc mem m key = (m', Some (keyps m ! j))"
    using c(1) by (simp add: map_erase_def map_impl_erase_def hash_def m'_def)
  have b': "busy m' k \<longleftrightarrow> busy m k \<and> k \<noteq> j" for k
    using jl(1) ar by (auto simp: busy_def m'_def nth_list_update map_arrays_def)
  have k': "key_at mem m' = key_at mem m" by (simp add: key_at_def m'_def fun_eq_iff)
  have bset: "{k. busy m' k} = {k. busy m k} - {j}" by (auto simp: b')
  have inj': "inj_on (key_at mem m') {k. busy m' k}"
    using wf(3) unfolding bset k' by (rule inj_on_subset) auto
  have pass: "int (card (passing m' x)) =
      int (card (passing m x)) - (if steps ?N ?s x < d then 1 else 0)" for x
    using passing_remove [OF j(1) _ b', of x] by (simp add: m'_def d_def s(1))
  have "card {k. busy m k} \<noteq> 0" using j(1) by auto
  then have "unat (map_count m - 1) = unat (map_count m) - 1"
    using wf(6) by (intro unat_minus_one) auto
  then have cnt: "unat (map_count m') = card {k. busy m' k}"
    using wf(6) j(1) unfolding bset by (simp add: m'_def)
  have "map_wf crc mem m'"
    unfolding map_wf_def
  proof (intro conjI allI impI)
    show "power_capacity m'" using wf(1) by (simp add: power_capacity_def m'_def)
    show "map_arrays m'" using ar c(2) by (simp add: map_arrays_def m'_def)
    show "khs m' ! k = khash crc (mem (keyps m' ! k)) (key_size m')" if "busy m' k" for k
    proof -
      from that have "busy m k" by (simp add: b')
      from wf(4) [OF this] show ?thesis by (simp add: m'_def)
    qed
    show "inj_on (key_at mem m') {j. busy m' j}" by (rule inj')
    show "chns m' ! i = int (card (passing m' i))" if "i < slots m'" for i
      using that c(3) [of i] wf(5) [of i] by (simp add: pass) (simp add: m'_def)
    show "unat (map_count m') = card {j. busy m' j}" by (rule cnt)
  qed
  moreover have "contents mem m' = (contents mem m)(prefix_of m key := None)"
  proof (rule contents_ext [OF wf(3) inj'])
    fix k v
    have "k \<noteq> prefix_of m key" if "busy m i" "key_at mem m i = k" "i \<noteq> j" for i
      using wf(3) that j by (auto simp: inj_on_def)
    moreover have "map_vals m' = map_vals m" by (simp add: m'_def)
    ultimately show "(\<exists>i. busy m' i \<and> key_at mem m' i = k \<and> map_vals m' ! i = v) \<longleftrightarrow>
        ((contents mem m)(prefix_of m key := None)) k = Some v"
      using contents_eq_Some [OF wf(3), of k v] j(2) by (auto simp: b' k')
  qed
  moreover have "take (unat (key_size m)) (mem (keyps m ! j)) = prefix_of m key"
    using j(2) by (simp add: key_at_def)
  moreover have "(keyps m ! j, v) \<in> stored m" using j(1) jv by (auto simp: stored_def)
  moreover have "stored m' = stored m - {(keyps m ! j, v)}"
  proof -
    have "inj_on (\<lambda>j. (keyps m ! j, map_vals m ! j)) {j. busy m j}"
      using wf(3) by (auto simp: inj_on_def key_at_def)
    then have "(\<lambda>j. (keyps m ! j, map_vals m ! j)) ` ({k. busy m k} - {j}) =
        stored m - {(keyps m ! j, v)}"
      using j(1) jv unfolding stored_eq_image by (auto simp: inj_on_def)
    moreover have "keyps m' = keyps m" "map_vals m' = map_vals m" by (simp_all add: m'_def)
    ultimately show ?thesis by (simp add: stored_eq_image bset)
  qed
  moreover have "map_capacity m' = map_capacity m" "key_size m' = key_size m"
    by (simp_all add: m'_def)
  ultimately show ?thesis using run by blast
qed

section \<open>Initialisation\<close>

lemma map_impl_init_eq:
  assumes "length (busybits m) = slots m" "length (chns m) = slots m"
  shows "map_impl_init m =
    m\<lparr>busybits := replicate (slots m) 0, chns := replicate (slots m) 0\<rparr>"
proof -
  have "fold (\<lambda>i m. m\<lparr>busybits := (busybits m)[i := 0], chns := (chns m)[i := 0]\<rparr>) [0..<n] m =
      m\<lparr>busybits := replicate n 0 @ drop n (busybits m), chns := replicate n 0 @ drop n (chns m)\<rparr>"
    if "n \<le> slots m" for n
    using that
  proof (induction n)
    case (Suc n)
    have "(replicate n 0 @ drop n xs)[n := 0] = replicate (Suc n) 0 @ drop (Suc n) xs"
      if "length xs = slots m" for xs :: "int list"
      using Suc.prems that
      by (simp add: list_update_append Cons_nth_drop_Suc [symmetric] replicate_append_same [symmetric])
    then show ?case using Suc assms by simp
  qed simp
  from this [of "slots m"] show ?thesis using assms by (simp add: map_impl_init_def)
qed

lemma power_capacityI:
  fixes capacity :: u32
  assumes "capacity \<noteq> 0" "compute_is_power_of_two (ucast capacity)"
  shows "\<exists>b < 32. capacity = 2 ^ b"
proof -
  have u: "unat (ucast capacity :: u64) = unat capacity"
  proof -
    have "unat capacity < 2 ^ LENGTH(32)" by (rule unsigned_less)
    then have "unat capacity < 2 ^ 32" by simp
    then have "unat capacity < 2 ^ 64" by simp
    then have "take_bit 64 (unat capacity) = unat capacity" by (rule take_bit_nat_eq_self)
    then show ?thesis by (simp add: unsigned_ucast_eq)
  qed
  have "is_power_of_two (ucast capacity)"
    using assms(2) by (simp add: compute_is_power_of_two_def is_power_of_two_def)
  moreover have "unat (ucast capacity :: u64) \<noteq> 0" using assms(1) by (simp add: u unat_eq_0)
  ultimately obtain b where b: "(ucast capacity :: u64) = 2 ^ b" "b < 64"
    by (auto simp: is_power_of_two_cases)
  then have c: "unat capacity = 2 ^ b" using u by (simp add: unat_exp2)
  moreover have "unat capacity < 2 ^ LENGTH(32)" by (rule unsigned_less)
  ultimately have "(2 :: nat) ^ b < 2 ^ 32" by simp
  then have "b < 32" by (rule power_less_imp_less_exp [rotated]) simp
  moreover from this have "capacity = 2 ^ b"
    using c by (metis unat_power_u32 unat_eq_iff)
  ultimately show ?thesis by blast
qed

text \<open>A fresh map is well formed and holds nothing, whatever the blocks contained.\<close>

lemma map_allocate_correct:
  assumes "length bbs = unat capacity" "length kps = unat capacity" "length hs = unat capacity"
    "length cs = unat capacity" "length vs = unat capacity"
    and "map_allocate True (Some bbs) (Some kps) (Some hs) (Some cs) (Some vs) capacity ksize = Some m"
  shows "map_wf crc mem m \<and> stored m = {} \<and> map_capacity m = capacity \<and> key_size m = ksize"
proof -
  let ?m = "\<lparr>busybits = bbs, keyps = kps, khs = hs, chns = cs, map_vals = vs,
    map_capacity = capacity, map_count = 0, key_size = ksize\<rparr>"
  from assms(6) have c: "capacity \<noteq> 0" "compute_is_power_of_two (ucast capacity)"
    and m: "m = map_impl_init ?m" by (auto simp: map_allocate_def split: if_splits)
  have m': "m = ?m\<lparr>busybits := replicate (unat capacity) 0, chns := replicate (unat capacity) 0\<rparr>"
    using map_impl_init_eq [of ?m] assms(1,4) m by simp
  then have b: "\<not> busy m j" for j by (auto simp: busy_def)
  then have p: "passing m i = {}" for i by (simp add: passing_def)
  have "power_capacity m" using power_capacityI [OF c] by (simp add: power_capacity_def m')
  moreover have "map_arrays m" using assms(1-5) by (simp add: map_arrays_def m')
  moreover have "\<forall>i < slots m. chns m ! i = 0" by (simp add: m')
  moreover have "map_count m = 0" by (simp add: m')
  ultimately show ?thesis by (simp add: map_wf_def b p stored_def) (simp add: m')
qed

lemma map_allocate_None:
  assumes "capacity = 0 \<or> \<not> compute_is_power_of_two (ucast capacity)"
  shows "map_allocate a b k h c v capacity ksize = None"
  using assms by (auto simp: map_allocate_def)

end
