(* ===== verification/NFVector.thy ===== *)
theory NFVector
  imports Prelude
begin

text \<open>
  The vectors of the software network functions, \<^verbatim>\<open>dpdk-nfs/lib/state/vector.c\<close>. The block
  of bytes is modelled as the list of its elements: borrowing yields the element, and writing
  through the borrowed pointer is \<open>vector_write\<close>. An index outside the vector is an
  address outside the block, so using it is undefined.
\<close>

record 'a nf_vector =
  vec_data :: "'a list"
  vec_capacity :: u32

text \<open>\<open>zero\<close> is the element all of whose bytes are 0; \<open>None\<close> for a block is a null pointer.\<close>

definition vector_allocate ::
  "bool \<Rightarrow> 'a list option \<Rightarrow> 'a \<Rightarrow> u32 \<Rightarrow> 'a nf_vector option"
where
  "vector_allocate vector_alloc data_alloc zero capacity =
     (if \<not> vector_alloc then None
      else case data_alloc of
        None \<Rightarrow> None
      | Some elems \<Rightarrow>
          Some \<lparr>vec_data = fold (\<lambda>i xs. xs[i := zero]) [0..<unat capacity] elems,
                vec_capacity = capacity\<rparr>)"

definition vector_borrow :: "'a nf_vector \<Rightarrow> int \<Rightarrow> 'a result" where
  "vector_borrow v index =
     (if 0 \<le> index \<and> index < int (length (vec_data v)) then Inr (vec_data v ! nat index)
      else Inl Undefined)"

definition vector_write :: "'a nf_vector \<Rightarrow> int \<Rightarrow> 'a \<Rightarrow> 'a nf_vector result" where
  "vector_write v index x =
     rbind (vector_borrow v index) (\<lambda>_. Inr (v\<lparr>vec_data := (vec_data v)[nat index := x]\<rparr>))"

definition vector_clear :: "'a \<Rightarrow> 'a nf_vector \<Rightarrow> 'a nf_vector" where
  "vector_clear zero v = v\<lparr>vec_data := replicate (length (vec_data v)) zero\<rparr>"

text \<open>
  Sampling: \<open>draws\<close> are the results of \<^verbatim>\<open>rand()\<close>, one for each sample. The threshold and
  the element are compared from their last byte to the first.
\<close>

fun threshold_lt_elem :: "nat \<Rightarrow> u8 list \<Rightarrow> u8 list \<Rightarrow> bool" where
  "threshold_lt_elem 0 threshold elem = False"
| "threshold_lt_elem (Suc j) threshold elem =
     (if threshold ! j > elem ! j then False
      else if threshold ! j < elem ! j then True
      else threshold_lt_elem j threshold elem)"

fun vector_sample_lt :: "u8 list nf_vector \<Rightarrow> nat \<Rightarrow> u32 list \<Rightarrow> u8 list \<Rightarrow> int option result" where
  "vector_sample_lt v elem_size [] threshold = Inr None"
| "vector_sample_lt v elem_size (draw # draws) threshold =
     (let index = int (unat (draw mod vec_capacity v)) in
      rbind (vector_borrow v index) (\<lambda>elem.
      if threshold_lt_elem elem_size threshold elem then Inr (Some index)
      else vector_sample_lt v elem_size draws threshold))"

section \<open>Laws\<close>

lemma vector_allocate_zeroed:
  assumes "length elems = unat capacity"
  shows "vector_allocate True (Some elems) zero capacity =
    Some \<lparr>vec_data = replicate (unat capacity) zero, vec_capacity = capacity\<rparr>"
proof -
  have "fold (\<lambda>i xs. xs[i := zero]) [0..<n] xs = replicate n zero @ drop n xs"
    if "n \<le> length xs" for n and xs :: "'a list"
    using that
    by (induction n)
      (simp_all add: list_update_append Cons_nth_drop_Suc [symmetric] replicate_append_same [symmetric])
  from this [of "unat capacity" elems] assms show ?thesis by (simp add: vector_allocate_def)
qed

lemma vector_write_in:
  assumes "0 \<le> i" "i < int (length (vec_data v))"
  shows "vector_write v i x = Inr (v\<lparr>vec_data := (vec_data v)[nat i := x]\<rparr>)"
    and "vector_borrow v i = Inr (vec_data v ! nat i)"
  using assms by (simp_all add: vector_write_def vector_borrow_def)

text \<open>The byte-wise comparison is the comparison of the numbers stored lowest byte first.\<close>

fun little_endian :: "u8 list \<Rightarrow> nat" where
  "little_endian [] = 0"
| "little_endian (b # bs) = unat b + 256 * little_endian bs"

lemma little_endian_snoc: "little_endian (bs @ [b]) = little_endian bs + 256 ^ length bs * unat b"
  by (induction bs) (simp_all add: algebra_simps)

lemma little_endian_bound: "little_endian bs < 256 ^ length bs"
proof (induction bs)
  case (Cons b bs)
  have "unat b < 2 ^ LENGTH(8)" by (rule unsigned_less)
  with Cons show ?case by simp
qed simp

lemma threshold_lt_elem_correct:
  assumes "n \<le> length t" "n \<le> length e"
  shows "threshold_lt_elem n t e \<longleftrightarrow> little_endian (take n t) < little_endian (take n e)"
  using assms
proof (induction n)
  case (Suc n)
  let ?t = "little_endian (take n t)" and ?e = "little_endian (take n e)"
  have b: "?t < 256 ^ n" "?e < 256 ^ n"
    using little_endian_bound [of "take n t"] little_endian_bound [of "take n e"] Suc.prems by simp_all
  have s: "little_endian (take (Suc n) t) = ?t + 256 ^ n * unat (t ! n)"
    "little_endian (take (Suc n) e) = ?e + 256 ^ n * unat (e ! n)"
    using Suc.prems by (simp_all add: take_Suc_conv_app_nth little_endian_snoc)
  have less: "x + 256 ^ n * a < y + 256 ^ n * b" if "a < b" "x < 256 ^ n" for a b x y :: nat
  proof -
    have "x + 256 ^ n * a < 256 ^ n * Suc a" using that(2) by simp
    also have "\<dots> \<le> 256 ^ n * b" using that(1) by (intro mult_le_mono2) simp
    finally show ?thesis by simp
  qed
  consider "t ! n < e ! n" | "t ! n = e ! n" | "e ! n < t ! n" by (meson linorder_cases)
  then show ?case
  proof cases
    case 1
    then show ?thesis using less [of "unat (t ! n)" "unat (e ! n)" ?t ?e] b
      by (simp add: s word_less_nat_alt)
  next
    case 2
    then show ?thesis using Suc by (simp add: s)
  next
    case 3
    then show ?thesis using less [of "unat (e ! n)" "unat (t ! n)" ?e ?t] b
      by (simp add: s word_less_nat_alt)
  qed
qed simp

lemma vector_sample_lt_sound:
  assumes "vector_sample_lt v n draws threshold = Inr (Some index)"
  shows "\<exists>elem. vector_borrow v index = Inr elem \<and> threshold_lt_elem n threshold elem"
  using assms
  by (induction draws) (auto simp: Let_def rbind_eq_Inr split: if_splits)

text \<open>A sampled element exceeds the threshold: when sampling answers an index, the vector has an
  element there, and read as a number, lowest byte first, it is greater than the threshold.\<close>

lemma sampled_element_exceeds:
  assumes "vector_sample_lt v n draws threshold = Inr (Some index)"
    and "length threshold = n" "\<forall>elem \<in> set (vec_data v). length elem = n"
  shows "\<exists>elem. vector_borrow v index = Inr elem \<and> little_endian threshold < little_endian elem"
proof -
  from vector_sample_lt_sound [OF assms(1)] obtain elem where
    e: "vector_borrow v index = Inr elem" "threshold_lt_elem n threshold elem" by blast
  then have "elem \<in> set (vec_data v)" by (auto simp: vector_borrow_def split: if_splits)
  with assms(2,3) e threshold_lt_elem_correct [of n threshold elem] show ?thesis by simp
qed

lemma sampled_element_exceeds_witness:
  "vector_sample_lt \<lparr>vec_data = [[9, 0], [0, 1]], vec_capacity = 2\<rparr> 2 [4, 7] [200, 0] = Inr (Some 1) \<and>
   (\<exists>elem. vector_borrow \<lparr>vec_data = [[9, 0], [0, 1]], vec_capacity = 2\<rparr> 1 = Inr elem \<and>
     little_endian [200, 0] < little_endian elem)"
proof -
  let ?v = "\<lparr>vec_data = [[9, 0], [0, 1]], vec_capacity = 2\<rparr> :: u8 list nf_vector"
  have r: "vector_sample_lt ?v (Suc (Suc 0)) [4, 7] [200, 0] = Inr (Some 1)"
    by (simp add: vector_borrow_def)
  from sampled_element_exceeds [OF r] r show ?thesis by (simp add: numeral_2_eq_2)
qed

end
