(* ===== verification/FlowTable.thy ===== *)
theory FlowTable
  imports DoubleChain NFMapCorrect NFVector
begin

text \<open>
  What the network functions keep of their flows: a map from the bytes of a flow's key to an
  index, a vector with the key at that index (the map stores pointers into it) and the
  allocator of the indices. The locale \<open>key_store\<close> is the interface of the map, the locale
  \<open>flow_table\<close> the three together; \<^verbatim>\<open>util/expirator.c\<close> works on them.
\<close>

section \<open>The interface of the map\<close>

locale key_store =
  fixes rep :: "('p \<Rightarrow> bytes) \<Rightarrow> 'm \<Rightarrow> ('p \<times> int) set \<Rightarrow> bool"
    and key_length :: nat
    and room :: nat
    and get :: "('p \<Rightarrow> bytes) \<Rightarrow> 'm \<Rightarrow> bytes \<Rightarrow> int option"
    and put :: "('p \<Rightarrow> bytes) \<Rightarrow> 'm \<Rightarrow> 'p \<Rightarrow> int \<Rightarrow> 'm result"
    and erase :: "('p \<Rightarrow> bytes) \<Rightarrow> 'm \<Rightarrow> bytes \<Rightarrow> 'm \<times> 'p option"
  assumes get_spec:
      "rep mem m S \<Longrightarrow>
         get mem m k = Some v \<longleftrightarrow>
         (\<exists>p. (p, v) \<in> S \<and> take key_length (mem p) = take key_length k)"
    and put_spec:
      "rep mem m S \<Longrightarrow> card S < room \<Longrightarrow>
         (\<And>p v. (p, v) \<in> S \<Longrightarrow> take key_length (mem p) \<noteq> take key_length (mem q)) \<Longrightarrow>
         \<exists>m'. put mem m q w = Inr m' \<and> rep mem m' (insert (q, w) S)"
    and erase_spec:
      "rep mem m S \<Longrightarrow> (p, v) \<in> S \<Longrightarrow> take key_length (mem p) = take key_length k \<Longrightarrow>
         \<exists>m'. erase mem m k = (m', Some p) \<and> rep mem m' (S - {(p, v)})"
    and frame:
      "rep mem m S \<Longrightarrow> (\<And>p v. (p, v) \<in> S \<Longrightarrow> mem' p = mem p) \<Longrightarrow> rep mem' m S"
    and keys_distinct:
      "rep mem m S \<Longrightarrow> (p, v) \<in> S \<Longrightarrow> (q, w) \<in> S \<Longrightarrow>
         take key_length (mem p) = take key_length (mem q) \<Longrightarrow> p = q \<and> v = w"

definition map_rep ::
  "(u32 \<Rightarrow> u32 \<Rightarrow> u32) \<Rightarrow> u32 \<Rightarrow> u32 \<Rightarrow> ('p \<Rightarrow> bytes) \<Rightarrow> 'p nf_map \<Rightarrow> ('p \<times> int) set \<Rightarrow> bool"
where
  "map_rep crc capacity ksize mem m S \<longleftrightarrow>
     map_wf crc mem m \<and> map_capacity m = capacity \<and> key_size m = ksize \<and> S = stored m"

lemma contents_stored:
  assumes "map_wf crc mem m"
  shows "contents mem m k = Some v \<longleftrightarrow>
    (\<exists>p. (p, v) \<in> stored m \<and> take (unat (key_size m)) (mem p) = k)"
  unfolding contents_eq_Some [OF map_wfD(3) [OF assms]] stored_def key_at_def by blast

lemma contents_absent:
  assumes "map_wf crc mem m"
    and "\<And>p v. (p, v) \<in> stored m \<Longrightarrow> take (unat (key_size m)) (mem p) \<noteq> k"
  shows "contents mem m k = None"
  using contents_stored [OF assms(1), of k] assms(2) by (metis not_None_eq)

lemma map_rep_frame:
  assumes "map_wf crc mem m" "\<And>p v. (p, v) \<in> stored m \<Longrightarrow> mem' p = mem p"
  shows "map_wf crc mem' m"
proof -
  have e: "mem' (keyps m ! j) = mem (keyps m ! j)" if "busy m j" for j
    using assms(2) that by (auto simp: stored_def)
  then have "key_at mem' m j = key_at mem m j" if "busy m j" for j
    using that by (simp add: key_at_def)
  then have "inj_on (key_at mem' m) {j. busy m j} = inj_on (key_at mem m) {j. busy m j}"
    by (intro inj_on_cong) simp
  with assms(1) e show ?thesis by (simp add: map_wf_def)
qed

lemma stored_key_inj:
  assumes "map_wf crc mem m" "(p, v) \<in> stored m" "(q, w) \<in> stored m"
    and "take (unat (key_size m)) (mem p) = take (unat (key_size m)) (mem q)"
  shows "p = q \<and> v = w"
proof -
  from assms(2,3) obtain j j' where j: "busy m j" "busy m j'" "p = keyps m ! j" "v = map_vals m ! j"
    "q = keyps m ! j'" "w = map_vals m ! j'" unfolding stored_def by blast
  with assms(4) have "key_at mem m j = key_at mem m j'" by (simp add: key_at_def)
  with map_wfD(3) [OF assms(1)] j(1,2) have "j = j'" by (simp add: inj_on_def)
  with j show ?thesis by simp
qed

lemma map_wf_free_slot:
  assumes "map_wf crc mem m" "card (stored m) < slots m"
  shows "\<exists>e < slots m. \<not> busy m e"
proof (rule ccontr)
  assume "\<not> ?thesis"
  then have "{j. busy m j} = {..<slots m}" by (auto dest: busy_less)
  then have "card (stored m) = slots m" using card_stored [OF map_wfD(3) [OF assms(1)]] by simp
  with assms(2) show False by simp
qed

interpretation nfmap: key_store "map_rep crc capacity ksize" "unat ksize" "unat capacity"
  "map_get crc" "map_put crc" "map_erase crc" for crc capacity ksize
proof (unfold_locales, goal_cases)
  case (1 mem m S k v)
  then show ?case by (auto simp: map_rep_def map_get_correct contents_stored)
next
  case (2 mem m S q w)
  then have wf: "map_wf crc mem m" and m: "map_capacity m = capacity" "key_size m = ksize" "S = stored m"
    by (simp_all add: map_rep_def)
  from map_wf_free_slot [OF wf] 2(2) obtain e where "e < slots m" "\<not> busy m e" by (auto simp: m)
  moreover have "contents mem m (prefix_of m (mem q)) = None"
    using 2(3) by (intro contents_absent [OF wf]) (auto simp: m)
  ultimately show ?case using map_put_correct [OF wf, of e q w] by (auto simp: map_rep_def m)
next
  case (3 mem m S p v k)
  then have wf: "map_wf crc mem m" and m: "map_capacity m = capacity" "key_size m = ksize" "S = stored m"
    by (simp_all add: map_rep_def)
  have c: "contents mem m (prefix_of m k) = Some v"
    using 3(2,3) unfolding contents_stored [OF wf] by (auto simp: m)
  from map_erase_correct [OF wf c] obtain m' p' where
    e: "map_erase crc mem m k = (m', Some p')" "map_wf crc mem m'"
      "take (unat (key_size m)) (mem p') = prefix_of m k" "(p', v) \<in> stored m"
      "stored m' = stored m - {(p', v)}" "map_capacity m' = map_capacity m"
      "key_size m' = key_size m" by blast
  have "p' = p"
    using stored_key_inj [OF wf e(4), of p v] 3(2,3) e(3) by (simp add: m)
  with e show ?case by (simp add: map_rep_def m)
next
  case (4 mem m S mem')
  then show ?case using map_rep_frame [of crc mem m mem'] by (auto simp: map_rep_def)
next
  case (5 mem m S p v q w)
  then have wf: "map_wf crc mem m" and m: "key_size m = ksize" "S = stored m"
    by (simp_all add: map_rep_def)
  from stored_key_inj [OF wf, of p v q w] 5(2-4) show ?case by (simp add: m)
qed

section \<open>Map, vector and allocator together\<close>

text \<open>A pointer into the vector of keys is the index of the element; \<open>enc\<close> gives its bytes.\<close>

definition vector_mem :: "('k \<Rightarrow> bytes) \<Rightarrow> 'k nf_vector \<Rightarrow> int \<Rightarrow> bytes" where
  "vector_mem enc keys p = enc (vec_data keys ! nat p)"

text \<open>
  The invariant: the map holds exactly the allocated indices, each with itself as value and
  as pointer, so under the key the vector has there; the vector has room for every index.
\<close>

definition table_flows ::
  "('d \<Rightarrow> aged \<Rightarrow> int list \<Rightarrow> bool) \<Rightarrow> ((int \<Rightarrow> bytes) \<Rightarrow> 'm \<Rightarrow> (int \<times> int) set \<Rightarrow> bool) \<Rightarrow> nat \<Rightarrow>
     ('k \<Rightarrow> bytes) \<Rightarrow> 'd \<Rightarrow> 'k nf_vector \<Rightarrow> 'm \<Rightarrow> aged \<Rightarrow> int list \<Rightarrow> bool"
where
  "table_flows arep krep room enc d keys m L F \<longleftrightarrow>
     arep d L F \<and> krep (vector_mem enc keys) m {(i, i) |i. i \<in> set (ids L)} \<and>
     set (ids L @ F) = {0..<int (length (vec_data keys))} \<and> length (vec_data keys) \<le> room"

locale flow_table =
  index_allocator arep alloc rejuvenate expire_one is_allocated free +
  key_store krep key_length room get put erase
  for arep :: "'d \<Rightarrow> aged \<Rightarrow> int list \<Rightarrow> bool"
    and alloc :: "'d \<Rightarrow> int \<Rightarrow> ('d \<times> int option) result"
    and rejuvenate :: "'d \<Rightarrow> int \<Rightarrow> int \<Rightarrow> ('d \<times> bool) result"
    and expire_one :: "'d \<Rightarrow> int \<Rightarrow> ('d \<times> int option) result"
    and is_allocated :: "'d \<Rightarrow> int \<Rightarrow> bool result"
    and free :: "'d \<Rightarrow> int \<Rightarrow> ('d \<times> bool) result"
    and krep :: "(int \<Rightarrow> bytes) \<Rightarrow> 'm \<Rightarrow> (int \<times> int) set \<Rightarrow> bool"
    and key_length room :: nat
    and get :: "(int \<Rightarrow> bytes) \<Rightarrow> 'm \<Rightarrow> bytes \<Rightarrow> int option"
    and put :: "(int \<Rightarrow> bytes) \<Rightarrow> 'm \<Rightarrow> int \<Rightarrow> int \<Rightarrow> 'm result"
    and erase :: "(int \<Rightarrow> bytes) \<Rightarrow> 'm \<Rightarrow> bytes \<Rightarrow> 'm \<times> int option" +
  fixes enc :: "'k \<Rightarrow> bytes"
  assumes enc_inj: "take key_length (enc k) = take key_length (enc k') \<Longrightarrow> k = k'"
begin

abbreviation flows :: "'d \<Rightarrow> 'k nf_vector \<Rightarrow> 'm \<Rightarrow> aged \<Rightarrow> int list \<Rightarrow> bool" where
  "flows \<equiv> table_flows arep krep room enc"

lemma flows_range:
  assumes "flows d keys m L F" "i \<in> set (ids L @ F)"
  shows "0 \<le> i" "i < int (length (vec_data keys))"
  using assms by (auto simp: table_flows_def simp del: set_append)

lemma flows_keys_distinct:
  assumes "flows d keys m L F" "i \<in> set (ids L)" "j \<in> set (ids L)"
    and "vec_data keys ! nat i = vec_data keys ! nat j"
  shows "i = j"
  using keys_distinct [of "vector_mem enc keys" m "{(i, i) |i. i \<in> set (ids L)}" i i j j] assms
  by (simp add: table_flows_def vector_mem_def)

lemma get_flow:
  assumes "flows d keys m L F"
  shows "get (vector_mem enc keys) m (enc k) = Some i \<longleftrightarrow>
    i \<in> set (ids L) \<and> vec_data keys ! nat i = k"
  using get_spec [of "vector_mem enc keys" m "{(i, i) |i. i \<in> set (ids L)}" "enc k" i] assms enc_inj
  by (auto simp: table_flows_def vector_mem_def)

lemma get_flow_None:
  assumes "flows d keys m L F"
  shows "get (vector_mem enc keys) m (enc k) = None \<longleftrightarrow>
    (\<forall>i \<in> set (ids L). vec_data keys ! nat i \<noteq> k)"
  using get_flow [OF assms, of k] by (metis not_None_eq)

text \<open>Inserting a new key: allocate an index, write the key there, enter it in the map.\<close>

lemma insert_flow:
  assumes "flows d keys m L (f # F)" "\<forall>i \<in> set (ids L). vec_data keys ! nat i \<noteq> k"
  defines "keys' \<equiv> keys\<lparr>vec_data := (vec_data keys)[nat f := k]\<rparr>"
  shows "\<exists>d' m'. alloc d t = Inr (d', Some f) \<and> vector_write keys f k = Inr keys' \<and>
    put (vector_mem enc keys') m f f = Inr m' \<and> flows d' keys' m' (L @ [(f, t)]) F"
proof -
  let ?S = "{(i, i) |i. i \<in> set (ids L)}"
  have a: "arep d L (f # F)" and k: "krep (vector_mem enc keys) m ?S"
    and r: "set (ids L @ f # F) = {0..<int (length (vec_data keys))}"
    and room: "length (vec_data keys) \<le> room" using assms(1) by (auto simp: table_flows_def)
  from alloc_fresh [OF a] obtain d' where
    d': "alloc d t = Inr (d', Some f)" "arep d' (L @ [(f, t)]) F" by blast
  have f: "0 \<le> f" "f < int (length (vec_data keys))" "f \<notin> set (ids L)"
    using flows_range [OF assms(1), of f] rep_distinct [OF a] by simp_all
  have other: "vec_data keys' ! nat i = vec_data keys ! nat i" if "i \<in> set (ids L)" for i
  proof -
    have "0 \<le> i" "i \<noteq> f" using that f(3) flows_range(1) [OF assms(1), of i] by auto
    then have "nat i \<noteq> nat f" using f(1) by (simp add: nat_eq_iff2)
    then show ?thesis by (simp add: keys'_def)
  qed
  have new: "vec_data keys' ! nat f = k" using f by (simp add: keys'_def nat_less_iff)
  have k': "krep (vector_mem enc keys') m ?S"
    by (rule frame [OF k]) (auto simp: vector_mem_def other simp del: set_map)
  have "?S = (\<lambda>i. (i, i)) ` set (ids L)" by auto
  then have "card ?S = card (set (ids L))" by (simp add: card_image inj_on_def)
  also have "\<dots> < card {0..<int (length (vec_data keys))}"
    using f r by (intro psubset_card_mono) auto
  finally have "card ?S < room" using room by simp
  moreover have "take key_length (vector_mem enc keys' p) \<noteq> take key_length (vector_mem enc keys' f)"
    if "(p, v) \<in> ?S" for p v
    using that assms(2) enc_inj by (auto simp: vector_mem_def other new simp del: set_map)
  ultimately obtain m' where m': "put (vector_mem enc keys') m f f = Inr m'"
    "krep (vector_mem enc keys') m' (insert (f, f) ?S)"
    using put_spec [OF k', of f f] by blast
  have "insert (f, f) ?S = {(i, i) |i. i \<in> set (ids (L @ [(f, t)]))}" by auto
  moreover have "set (ids (L @ [(f, t)]) @ F) = {0..<int (length (vec_data keys'))}"
    using r by (auto simp: keys'_def)
  moreover have "length (vec_data keys') \<le> room" using room by (simp add: keys'_def)
  ultimately have "flows d' keys' m' (L @ [(f, t)]) F"
    using d'(2) m'(2) by (simp add: table_flows_def)
  moreover have "vector_write keys f k = Inr keys'"
    using f by (simp add: vector_write_in keys'_def)
  ultimately show ?thesis using d'(1) m'(1) by blast
qed

lemma insert_full:
  assumes "flows d keys m L []"
  shows "\<exists>d'. alloc d t = Inr (d', None) \<and> flows d' keys m L []"
  using alloc_full [of d L t] assms by (auto simp: table_flows_def)

lemma rejuvenate_flow:
  assumes "flows d keys m L F" "i \<in> set (ids L)"
  shows "\<exists>d'. rejuvenate d i t = Inr (d', True) \<and> flows d' keys m (forget i L @ [(i, t)]) F"
proof -
  have s: "set (ids (forget i L @ [(i, t)])) = set (ids L)" using assms(2) by force
  from rejuvenate_allocated [of d L F i t] assms obtain d' where
    "rejuvenate d i t = Inr (d', True)" "arep d' (forget i L @ [(i, t)]) F"
    by (auto simp: table_flows_def)
  with assms(1) s show ?thesis by (auto simp: table_flows_def simp del: map_append)
qed

text \<open>Dropping an allocated index: the key read from the vector removes the map's entry.\<close>

lemma drop_flow:
  assumes "flows d keys m L F" "i \<in> set (ids L)" "arep d' (forget i L) (i # F)"
  shows "\<exists>key m'. vector_borrow keys i = Inr key \<and> key = vec_data keys ! nat i \<and>
    erase (vector_mem enc keys) m (enc key) = (m', Some i) \<and> flows d' keys m' (forget i L) (i # F)"
proof -
  let ?S = "{(i, i) |i. i \<in> set (ids L)}"
  have k: "krep (vector_mem enc keys) m ?S" using assms(1) by (simp add: table_flows_def)
  have r: "0 \<le> i" "i < int (length (vec_data keys))" using flows_range [OF assms(1), of i] assms(2) by auto
  from erase_spec [OF k, of i i "enc (vec_data keys ! nat i)"] assms(2) obtain m' where
    m': "erase (vector_mem enc keys) m (enc (vec_data keys ! nat i)) = (m', Some i)"
      "krep (vector_mem enc keys) m' (?S - {(i, i)})" by (auto simp: vector_mem_def)
  have "?S - {(i, i)} = {(j, j) |j. j \<in> set (ids (forget i L))}" by force
  moreover have "set (ids (forget i L) @ i # F) = set (ids L @ F)" using assms(2) by force
  ultimately have "flows d' keys m' (forget i L) (i # F)"
    using assms(1,3) m'(2) by (simp only: table_flows_def)
  with m'(1) r show ?thesis by (auto simp: vector_write_in)
qed

lemma expire_flow:
  assumes "flows d keys m ((i, s) # L) F" "s < t"
  shows "\<exists>d' key m'. expire_one d t = Inr (d', Some i) \<and> vector_borrow keys i = Inr key \<and>
    erase (vector_mem enc keys) m (enc key) = (m', Some i) \<and> flows d' keys m' L (i # F)"
proof -
  have a: "arep d ((i, s) # L) F" using assms(1) by (simp add: table_flows_def)
  from expire_first [OF a, of t] assms(2) obtain d' where
    d': "expire_one d t = Inr (d', Some i)" "arep d' L (i # F)" by auto
  have "i \<notin> set (ids L)" using rep_distinct [OF a] by simp
  then have "forget i ((i, s) # L) = L" by (force simp: filter_id_conv)
  with drop_flow [OF assms(1), of i d'] d' show ?thesis by auto
qed

lemma expire_stops:
  assumes "flows d keys m L F" "case L of [] \<Rightarrow> True | (i, s) # L' \<Rightarrow> \<not> s < t"
  shows "\<exists>d'. expire_one d t = Inr (d', None) \<and> flows d' keys m L F"
proof (cases L)
  case Nil
  then show ?thesis using expire_none [of d F t] assms(1) by (auto simp: table_flows_def)
next
  case (Cons a L')
  obtain i s where [simp]: "a = (i, s)" by (cases a)
  from expire_first [of d i s L' F t] assms Cons show ?thesis by (auto simp: table_flows_def)
qed

end

section \<open>Expiration\<close>

text \<open>
  \<^verbatim>\<open>util/expirator.c\<close>. The first loop ends when the allocator has nothing more to
  expire; that it does is part of the theorem below.
\<close>

partial_function (option) expire_items_loop ::
  "(u32 \<Rightarrow> u32 \<Rightarrow> u32) \<Rightarrow> ('k \<Rightarrow> bytes) \<Rightarrow> double_chain \<Rightarrow> 'k nf_vector \<Rightarrow> int nf_map \<Rightarrow> int \<Rightarrow> int \<Rightarrow>
     (double_chain \<times> int nf_map \<times> int) result option"
where
  "expire_items_loop crc enc chain keys m time count =
     (case dchain_expire_one_index chain time of
        Inl e \<Rightarrow> Some (Inl e)
      | Inr (chain, None) \<Rightarrow> Some (Inr (chain, m, count))
      | Inr (chain, Some index) \<Rightarrow>
          (case vector_borrow keys index of
             Inl e \<Rightarrow> Some (Inl e)
           | Inr key \<Rightarrow>
               expire_items_loop crc enc chain keys
                 (fst (map_erase crc (vector_mem enc keys) m (enc key))) time (count + 1)))"

definition expire_items_single_map ::
  "(u32 \<Rightarrow> u32 \<Rightarrow> u32) \<Rightarrow> ('k \<Rightarrow> bytes) \<Rightarrow> double_chain \<Rightarrow> 'k nf_vector \<Rightarrow> int nf_map \<Rightarrow> int \<Rightarrow>
     (double_chain \<times> int nf_map \<times> int) result option"
where
  "expire_items_single_map crc enc chain keys m time =
     expire_items_loop crc enc chain keys m time 0"

function expire_iteratively_loop ::
  "(u32 \<Rightarrow> u32 \<Rightarrow> u32) \<Rightarrow> ('k \<Rightarrow> bytes) \<Rightarrow> 'k nf_vector \<Rightarrow> int nf_map \<Rightarrow> int \<Rightarrow> int \<Rightarrow> int nf_map result"
where
  "expire_iteratively_loop crc enc keys m i n_elems =
     (if i < n_elems then
        rbind (vector_borrow keys i) (\<lambda>key.
        expire_iteratively_loop crc enc keys
          (fst (map_erase crc (vector_mem enc keys) m (enc key))) (i + 1) n_elems)
      else Inr m)"
  by pat_completeness auto
termination
  by (relation "measure (\<lambda>(crc, enc, keys, m, i, n_elems). nat (n_elems - i))") auto

declare expire_iteratively_loop.simps [simp del]

definition expire_items_single_map_iteratively ::
  "(u32 \<Rightarrow> u32 \<Rightarrow> u32) \<Rightarrow> ('k \<Rightarrow> bytes) \<Rightarrow> 'k nf_vector \<Rightarrow> int nf_map \<Rightarrow> int \<Rightarrow> int \<Rightarrow>
     (int nf_map \<times> int) result"
where
  "expire_items_single_map_iteratively crc enc keys m start n_elems =
     assert_that (start \<ge> 0) (assert_that (n_elems \<ge> 0)
       (rbind (expire_iteratively_loop crc enc keys m start n_elems) (\<lambda>m. Inr (m, n_elems))))"

section \<open>The three on the model\<close>

text \<open>
  The chain and the hash map together, for keys with an encoding in which the compared bytes
  determine the key.
\<close>

definition expired_count :: "int \<Rightarrow> aged \<Rightarrow> nat" where
  "expired_count time L = length (takeWhile (\<lambda>(i, s). s < time) L)"

locale nf_flows =
  fixes crc :: "u32 \<Rightarrow> u32 \<Rightarrow> u32" and capacity ksize :: u32 and enc :: "'k \<Rightarrow> bytes"
  assumes enc_inj: "take (unat ksize) (enc k) = take (unat ksize) (enc k') \<Longrightarrow> k = k'"
begin

sublocale tab: flow_table chain_rep dchain_allocate_new_index dchain_rejuvenate_index
  dchain_expire_one_index dchain_is_index_allocated dchain_free_index
  "map_rep crc capacity ksize" "unat ksize" "unat capacity" "map_get crc" "map_put crc"
  "map_erase crc" enc
  by (intro flow_table.intro chain.index_allocator_axioms nfmap.key_store_axioms
      flow_table_axioms.intro enc_inj)

text \<open>
  The loop expires the indices at the front of the list whose time is before \<open>time\<close>, in
  that order, removes their keys from the map and returns how many they were.
\<close>

lemma expire_items_loop_correct:
  assumes "tab.flows d keys m L F"
  shows "\<exists>d' m'. expire_items_loop crc enc d keys m time count =
      Some (Inr (d', m', count + int (expired_count time L))) \<and>
    tab.flows d' keys m' (drop (expired_count time L) L)
      (rev (ids (take (expired_count time L) L)) @ F)"
  using assms unfolding expired_count_def
proof (induction L arbitrary: d m F count)
  case Nil
  from tab.expire_stops [OF Nil, of time] obtain d' where
    "dchain_expire_one_index d time = Inr (d', None)" "tab.flows d' keys m [] F" by auto
  then show ?case by (subst expire_items_loop.simps) simp
next
  case (Cons a L)
  obtain i s where a: "a = (i, s)" by (cases a)
  show ?case
  proof (cases "s < time")
    case True
    from tab.expire_flow [OF Cons.prems [unfolded a] True] obtain d1 key m1 where
      e: "dchain_expire_one_index d time = Inr (d1, Some i)" "vector_borrow keys i = Inr key"
        "map_erase crc (vector_mem enc keys) m (enc key) = (m1, Some i)"
        "tab.flows d1 keys m1 L (i # F)" by blast
    from Cons.IH [OF e(4), of "count + 1"] e(1-3) True show ?thesis
      by (subst expire_items_loop.simps) (auto simp: a)
  next
    case False
    from tab.expire_stops [OF Cons.prems, of time] False obtain d' where
      "dchain_expire_one_index d time = Inr (d', None)" "tab.flows d' keys m (a # L) F"
      by (auto simp: a)
    with False show ?thesis by (subst expire_items_loop.simps) (simp add: a)
  qed
qed

lemma expire_items_correct:
  assumes "tab.flows d keys m L F"
  shows "\<exists>d' m'. expire_items_single_map crc enc d keys m time =
      Some (Inr (d', m', int (expired_count time L))) \<and>
    tab.flows d' keys m' (drop (expired_count time L) L)
      (rev (ids (take (expired_count time L) L)) @ F)"
  using expire_items_loop_correct [OF assms, of time 0]
  by (simp add: expire_items_single_map_def)

text \<open>Where the list is ordered by time, what remains is exactly what is recent enough.\<close>

lemma expired_sorted:
  assumes "sorted (map snd L)"
  shows "drop (expired_count time L) L = filter (\<lambda>(i, s). time \<le> s) L"
  using assms unfolding expired_count_def
proof (induction L)
  case (Cons a L)
  obtain i s where a: "a = (i, s)" by (cases a)
  show ?case
  proof (cases "s < time")
    case True
    with Cons show ?thesis by (simp add: a)
  next
    case False
    have "\<forall>(j, u) \<in> set L. s \<le> u" using Cons.prems by (force simp: a)
    with False have "filter (\<lambda>(i, s). time \<le> s) L = L" by (force simp: filter_id_conv)
    with False show ?thesis by (simp add: a)
  qed
qed simp

end

end
