(* ===== verification/NFTraces.thy ===== *)
theory NFTraces
  imports FlowTable
begin

text \<open>
  Whole runs of the allocator and of the map: each is a simulation of an abstract machine, a
  list of the allocated indices with their ages and a list of the free ones for the allocator,
  and a partial map from keys to values for the map.
\<close>

section \<open>Runs of the allocator\<close>

datatype chain_op =
    Chain_Allocate int
  | Chain_Rejuvenate int int
  | Chain_Expire int
  | Chain_Is_Allocated int
  | Chain_Free int

datatype chain_answer = Chain_Index "int option" | Chain_Flag bool

fun chain_step :: "double_chain \<Rightarrow> chain_op \<Rightarrow> (double_chain \<times> chain_answer) result" where
  "chain_step d (Chain_Allocate time) =
     rbind (dchain_allocate_new_index d time) (\<lambda>(d, r). Inr (d, Chain_Index r))"
| "chain_step d (Chain_Rejuvenate i time) =
     rbind (dchain_rejuvenate_index d i time) (\<lambda>(d, r). Inr (d, Chain_Flag r))"
| "chain_step d (Chain_Expire time) =
     rbind (dchain_expire_one_index d time) (\<lambda>(d, r). Inr (d, Chain_Index r))"
| "chain_step d (Chain_Is_Allocated i) =
     rbind (dchain_is_index_allocated d i) (\<lambda>r. Inr (d, Chain_Flag r))"
| "chain_step d (Chain_Free i) =
     rbind (dchain_free_index d i) (\<lambda>(d, r). Inr (d, Chain_Flag r))"

fun chain_run :: "double_chain \<Rightarrow> chain_op list \<Rightarrow> (double_chain \<times> chain_answer list) result" where
  "chain_run d [] = Inr (d, [])"
| "chain_run d (oper # ops) =
     rbind (chain_step d oper) (\<lambda>(d, a).
     rbind (chain_run d ops) (\<lambda>(d, as). Inr (d, a # as)))"

text \<open>The abstract machine: the oldest index is the first, the next one to hand out too.\<close>

fun chain_spec_step :: "aged \<times> int list \<Rightarrow> chain_op \<Rightarrow> (aged \<times> int list) \<times> chain_answer" where
  "chain_spec_step (L, F) (Chain_Allocate time) =
     (case F of
        [] \<Rightarrow> ((L, []), Chain_Index None)
      | f # F \<Rightarrow> ((L @ [(f, time)], F), Chain_Index (Some f)))"
| "chain_spec_step (L, F) (Chain_Rejuvenate i time) =
     (if i \<in> set (ids L) then ((forget i L @ [(i, time)], F), Chain_Flag True)
      else ((L, F), Chain_Flag False))"
| "chain_spec_step (L, F) (Chain_Expire time) =
     (case L of
        [] \<Rightarrow> ((L, F), Chain_Index None)
      | (i, s) # L' \<Rightarrow>
          if s < time then ((L', i # F), Chain_Index (Some i)) else ((L, F), Chain_Index None))"
| "chain_spec_step (L, F) (Chain_Is_Allocated i) = ((L, F), Chain_Flag (i \<in> set (ids L)))"
| "chain_spec_step (L, F) (Chain_Free i) =
     (if i \<in> set (ids L) then ((forget i L, i # F), Chain_Flag True)
      else ((L, F), Chain_Flag False))"

fun chain_spec_run :: "aged \<times> int list \<Rightarrow> chain_op list \<Rightarrow> (aged \<times> int list) \<times> chain_answer list" where
  "chain_spec_run s [] = (s, [])"
| "chain_spec_run s (oper # ops) =
     (let (s, a) = chain_spec_step s oper; (s, as) = chain_spec_run s ops in (s, a # as))"

text \<open>The operations that take an index take one of the range the allocator was created for.\<close>

fun chain_op_in :: "int \<Rightarrow> chain_op \<Rightarrow> bool" where
  "chain_op_in n (Chain_Rejuvenate i time) \<longleftrightarrow> 0 \<le> i \<and> i < n"
| "chain_op_in n (Chain_Is_Allocated i) \<longleftrightarrow> 0 \<le> i \<and> i < n"
| "chain_op_in n (Chain_Free i) \<longleftrightarrow> 0 \<le> i \<and> i < n"
| "chain_op_in n _ \<longleftrightarrow> True"

definition chain_state :: "int \<Rightarrow> double_chain \<Rightarrow> aged \<times> int list \<Rightarrow> bool" where
  "chain_state n d s \<longleftrightarrow>
     chain_rep d (fst s) (snd s) \<and> set (ids (fst s)) \<union> set (snd s) = {0..<n}"

lemma forget_ids: "set (ids (forget i L)) = set (ids L) - {i}"
  by auto

lemma chain_step_correct:
  assumes "chain_state n d (L, F)" "chain_op_in n oper"
  shows "\<exists>d'. chain_step d oper = Inr (d', snd (chain_spec_step (L, F) oper)) \<and>
    chain_state n d' (fst (chain_spec_step (L, F) oper))"
proof -
  have r: "chain_rep d L F" and u: "set (ids L) \<union> set F = {0..<n}"
    using assms(1) by (simp_all add: chain_state_def)
  have known: "i \<in> set F" if "0 \<le> i" "i < n" "i \<notin> set (ids L)" for i using u that by fastforce
  show ?thesis
  proof (cases oper)
    case (Chain_Allocate t)
    show ?thesis
    proof (cases F)
      case Nil
      with chain.alloc_full [of d L t] r u show ?thesis
        by (auto simp: chain_state_def Chain_Allocate)
    next
      case (Cons f F')
      from chain.alloc_fresh [of d L f F' t] r Cons obtain d' where
        "dchain_allocate_new_index d t = Inr (d', Some f)" "chain_rep d' (L @ [(f, t)]) F'" by blast
      with u show ?thesis by (auto simp: chain_state_def Chain_Allocate Cons)
    qed
  next
    case (Chain_Rejuvenate i t)
    show ?thesis
    proof (cases "i \<in> set (ids L)")
      case True
      from chain.rejuvenate_allocated [OF r True, of t] obtain d' where
        d': "dchain_rejuvenate_index d i t = Inr (d', True)" "chain_rep d' (forget i L @ [(i, t)]) F"
        by blast
      have "set (ids (forget i L @ [(i, t)])) \<union> set F = {0..<n}"
        using u True unfolding map_append set_append forget_ids by auto
      with d' True show ?thesis by (simp add: chain_state_def Chain_Rejuvenate)
    next
      case False
      with known [of i] assms(2) chain.rejuvenate_free [OF r, of i t] u show ?thesis
        by (auto simp: chain_state_def Chain_Rejuvenate)
    qed
  next
    case (Chain_Expire t)
    show ?thesis
    proof (cases L)
      case Nil
      with chain.expire_none [of d F t] r u show ?thesis by (auto simp: chain_state_def Chain_Expire)
    next
      case (Cons a L')
      obtain i s where a: "a = (i, s)" by (cases a)
      from chain.expire_first [of d i s L' F t] r obtain d' where
        "if s < t then dchain_expire_one_index d t = Inr (d', Some i) \<and> chain_rep d' L' (i # F)
         else dchain_expire_one_index d t = Inr (d', None) \<and> chain_rep d' ((i, s) # L') F"
        unfolding Cons a by blast
      with u show ?thesis by (auto simp: chain_state_def Chain_Expire Cons a split: if_splits)
    qed
  next
    case (Chain_Is_Allocated i)
    have "i \<in> set (ids L @ F)" using assms(2) u by (simp add: Chain_Is_Allocated del: set_map)
    from chain.allocated_iff [OF r this] r u show ?thesis
      by (simp add: chain_state_def Chain_Is_Allocated del: set_map)
  next
    case (Chain_Free i)
    show ?thesis
    proof (cases "i \<in> set (ids L)")
      case True
      from chain.free_allocated [OF r True] obtain d' where
        d': "dchain_free_index d i = Inr (d', True)" "chain_rep d' (forget i L) (i # F)" by blast
      have "set (ids (forget i L)) \<union> set (i # F) = {0..<n}"
        using u True unfolding forget_ids by auto
      with d' True show ?thesis by (simp add: chain_state_def Chain_Free)
    next
      case False
      with known [of i] assms(2) chain.free_unallocated [OF r, of i] u show ?thesis
        by (auto simp: chain_state_def Chain_Free)
    qed
  qed
qed

lemma chain_run_correct:
  assumes "chain_state n d s" "\<forall>oper \<in> set ops. chain_op_in n oper"
  shows "\<exists>d'. chain_run d ops = Inr (d', snd (chain_spec_run s ops)) \<and>
    chain_state n d' (fst (chain_spec_run s ops))"
  using assms
proof (induction ops arbitrary: d s)
  case (Cons oper ops)
  obtain L F where s: "s = (L, F)" by (cases s)
  from chain_step_correct [of n d L F oper] Cons.prems obtain d1 where
    d1: "chain_step d oper = Inr (d1, snd (chain_spec_step s oper))"
      "chain_state n d1 (fst (chain_spec_step s oper))" by (auto simp: s)
  from Cons.IH [OF d1(2)] Cons.prems(2) obtain d2 where
    "chain_run d1 ops = Inr (d2, snd (chain_spec_run (fst (chain_spec_step s oper)) ops))"
    "chain_state n d2 (fst (chain_spec_run (fst (chain_spec_step s oper)) ops))" by auto
  with d1(1) show ?case by (simp add: split_beta Let_def)
qed simp

text \<open>C3. Refinement of the allocator: whatever operations are applied to a fresh allocator of
  \<open>n\<close> indices, with indices of its range, none accesses a cell outside the array and every
  answer is the abstract machine's: indices are handed out from the free list, the
  oldest is the least recently allocated or rejuvenated, and only an index older than the given
  time expires.\<close>
theorem chain_refines_aged_list:
  assumes "1 \<le> n" "int (length cells) = n + 2" "int (length ts) = n"
    and "dchain_allocate True (Some cells) (Some ts) n = Inr (Some d)"
    and "\<forall>oper \<in> set ops. chain_op_in n oper"
  shows "\<exists>d'. chain_run d ops = Inr (d', snd (chain_spec_run ([], [0..n - 1]) ops))"
proof -
  from dchain_allocate_correct_blocks [OF assms(1-3)] assms(4) have "chain_rep d [] [0..n - 1]"
    by auto
  then have "chain_state n d ([], [0..n - 1])" by (auto simp: chain_state_def)
  from chain_run_correct [OF this assms(5)] show ?thesis by blast
qed

lemma chain_refines_aged_list_witness:
  "\<exists>d d'. dchain_allocate True (Some (replicate 4 \<lparr>dc_prev = 7, dc_next = 7\<rparr>)) (Some [5, 5]) 2 =
       Inr (Some d) \<and>
     chain_run d [Chain_Allocate 10, Chain_Allocate 11, Chain_Allocate 12, Chain_Rejuvenate 0 13,
       Chain_Expire 12, Chain_Is_Allocated 1, Chain_Free 0, Chain_Allocate 14] =
       Inr (d', [Chain_Index (Some 0), Chain_Index (Some 1), Chain_Index None, Chain_Flag True,
         Chain_Index (Some 1), Chain_Flag False, Chain_Flag True, Chain_Index (Some 0)])"
proof -
  let ?c = "replicate 4 \<lparr>dc_prev = 7, dc_next = 7\<rparr>" and ?t = "[5, 5] :: int list"
  from dchain_allocate_correct_blocks [of 2 ?c ?t] obtain d where
    d: "dchain_allocate True (Some ?c) (Some ?t) 2 = Inr (Some d)" by auto
  have u: "[0..1] = [0, 1 :: int]" by (simp add: upto.simps)
  from chain_refines_aged_list [OF _ _ _ d, of "[Chain_Allocate 10, Chain_Allocate 11,
      Chain_Allocate 12, Chain_Rejuvenate 0 13, Chain_Expire 12, Chain_Is_Allocated 1, Chain_Free 0,
      Chain_Allocate 14]"] d
  show ?thesis by (auto simp: u)
qed

section \<open>Runs of the map\<close>

datatype 'p map_op = Map_Get bytes | Map_Put 'p int | Map_Erase bytes | Map_Size

datatype map_answer = Map_Value "int option" | Map_Done | Map_Count nat

fun map_step ::
  "(u32 \<Rightarrow> u32 \<Rightarrow> u32) \<Rightarrow> ('p \<Rightarrow> bytes) \<Rightarrow> 'p nf_map \<Rightarrow> 'p map_op \<Rightarrow> ('p nf_map \<times> map_answer) result"
where
  "map_step crc mem m (Map_Get k) = Inr (m, Map_Value (map_get crc mem m k))"
| "map_step crc mem m (Map_Put p v) = rbind (map_put crc mem m p v) (\<lambda>m. Inr (m, Map_Done))"
| "map_step crc mem m (Map_Erase k) = Inr (fst (map_erase crc mem m k), Map_Done)"
| "map_step crc mem m Map_Size = Inr (m, Map_Count (unat (map_size m)))"

fun map_run ::
  "(u32 \<Rightarrow> u32 \<Rightarrow> u32) \<Rightarrow> ('p \<Rightarrow> bytes) \<Rightarrow> 'p nf_map \<Rightarrow> 'p map_op list \<Rightarrow>
     ('p nf_map \<times> map_answer list) result"
where
  "map_run crc mem m [] = Inr (m, [])"
| "map_run crc mem m (oper # ops) =
     rbind (map_step crc mem m oper) (\<lambda>(m, a).
     rbind (map_run crc mem m ops) (\<lambda>(m, as). Inr (m, a # as)))"

text \<open>The abstract machine: a partial map from keys of \<open>ks\<close> bytes.\<close>

fun map_spec_step ::
  "('p \<Rightarrow> bytes) \<Rightarrow> nat \<Rightarrow> (bytes \<rightharpoonup> int) \<Rightarrow> 'p map_op \<Rightarrow> (bytes \<rightharpoonup> int) \<times> map_answer" where
  "map_spec_step mem ks M (Map_Get k) = (M, Map_Value (M (take ks k)))"
| "map_spec_step mem ks M (Map_Put p v) = (M(take ks (mem p) \<mapsto> v), Map_Done)"
| "map_spec_step mem ks M (Map_Erase k) = (M(take ks k := None), Map_Done)"
| "map_spec_step mem ks M Map_Size = (M, Map_Count (card (dom M)))"

fun map_spec_run ::
  "('p \<Rightarrow> bytes) \<Rightarrow> nat \<Rightarrow> (bytes \<rightharpoonup> int) \<Rightarrow> 'p map_op list \<Rightarrow> (bytes \<rightharpoonup> int) \<times> map_answer list" where
  "map_spec_run mem ks M [] = (M, [])"
| "map_spec_run mem ks M (oper # ops) =
     (let (M, a) = map_spec_step mem ks M oper; (M, as) = map_spec_run mem ks M ops
      in (M, a # as))"

text \<open>
  How the map is to be used: a key is put only where it is absent and there is room, and erased
  only where it is present.
\<close>

fun map_use :: "('p \<Rightarrow> bytes) \<Rightarrow> nat \<Rightarrow> nat \<Rightarrow> (bytes \<rightharpoonup> int) \<Rightarrow> 'p map_op \<Rightarrow> bool" where
  "map_use mem ks room M (Map_Put p v) \<longleftrightarrow> M (take ks (mem p)) = None \<and> card (dom M) < room"
| "map_use mem ks room M (Map_Erase k) \<longleftrightarrow> M (take ks k) \<noteq> None"
| "map_use mem ks room M _ \<longleftrightarrow> True"

fun map_uses :: "('p \<Rightarrow> bytes) \<Rightarrow> nat \<Rightarrow> nat \<Rightarrow> (bytes \<rightharpoonup> int) \<Rightarrow> 'p map_op list \<Rightarrow> bool" where
  "map_uses mem ks room M [] \<longleftrightarrow> True"
| "map_uses mem ks room M (oper # ops) \<longleftrightarrow>
     map_use mem ks room M oper \<and> map_uses mem ks room (fst (map_spec_step mem ks M oper)) ops"

definition map_state ::
  "(u32 \<Rightarrow> u32 \<Rightarrow> u32) \<Rightarrow> ('p \<Rightarrow> bytes) \<Rightarrow> nat \<Rightarrow> nat \<Rightarrow> 'p nf_map \<Rightarrow> (bytes \<rightharpoonup> int) \<Rightarrow> bool" where
  "map_state crc mem ks room m M \<longleftrightarrow>
     map_wf crc mem m \<and> contents mem m = M \<and> unat (key_size m) = ks \<and> slots m = room"

lemma card_dom_contents:
  assumes "map_wf crc mem m"
  shows "card (dom (contents mem m)) = card {j. busy m j}"
proof -
  note inj = map_wfD(3) [OF assms]
  have "k \<in> dom (contents mem m) \<longleftrightarrow> k \<in> key_at mem m ` {j. busy m j}" for k
    using contents_eq_None [OF inj, of k] by (auto simp: domIff)
  then have "dom (contents mem m) = key_at mem m ` {j. busy m j}" by blast
  then show ?thesis using card_image [OF inj] by simp
qed

lemma map_step_correct:
  assumes "map_state crc mem ks room m M" "map_use mem ks room M oper"
  shows "\<exists>m'. map_step crc mem m oper = Inr (m', snd (map_spec_step mem ks M oper)) \<and>
    map_state crc mem ks room m' (fst (map_spec_step mem ks M oper))"
proof -
  have wf: "map_wf crc mem m" and M: "contents mem m = M" and ks: "unat (key_size m) = ks"
    and room: "slots m = room" using assms(1) by (simp_all add: map_state_def)
  have card: "card (dom M) = card {j. busy m j}" using card_dom_contents [OF wf] by (simp add: M)
  show ?thesis
  proof (cases oper)
    case (Map_Get k)
    with assms(1) map_get_correct [OF wf, of k] show ?thesis by (simp add: M ks)
  next
    case (Map_Put p v)
    have "card (stored m) < slots m"
      using assms(2) card card_stored [OF map_wfD(3) [OF wf]] by (simp add: Map_Put room)
    from map_wf_free_slot [OF wf this] obtain e where "e < slots m" "\<not> busy m e" by blast
    with map_put_correct [OF wf, of e p v] assms(2) obtain m' where
      "map_put crc mem m p v = Inr m'" "map_wf crc mem m'"
      "contents mem m' = M(take ks (mem p) \<mapsto> v)" "map_capacity m' = map_capacity m"
      "key_size m' = key_size m" by (auto simp: Map_Put M ks)
    with ks room show ?thesis by (simp add: Map_Put map_state_def)
  next
    case (Map_Erase k)
    with assms(2) obtain v where "contents mem m (prefix_of m k) = Some v" by (auto simp: M ks)
    from map_erase_correct [OF wf this] obtain m' p where
      "map_erase crc mem m k = (m', Some p)" "map_wf crc mem m'"
      "contents mem m' = M(take ks k := None)" "map_capacity m' = map_capacity m"
      "key_size m' = key_size m" by (auto simp: M ks)
    with ks room show ?thesis by (simp add: Map_Erase map_state_def)
  next
    case Map_Size
    have "unat (map_size m) = card (dom M)" using wf card by (simp add: map_size_def map_wf_def)
    with assms(1) show ?thesis by (simp add: Map_Size)
  qed
qed

lemma map_run_correct:
  assumes "map_state crc mem ks room m M" "map_uses mem ks room M ops"
  shows "\<exists>m'. map_run crc mem m ops = Inr (m', snd (map_spec_run mem ks M ops)) \<and>
    map_state crc mem ks room m' (fst (map_spec_run mem ks M ops))"
  using assms
proof (induction ops arbitrary: m M)
  case (Cons oper ops)
  from map_step_correct [OF Cons.prems(1)] Cons.prems(2) obtain m1 where
    m1: "map_step crc mem m oper = Inr (m1, snd (map_spec_step mem ks M oper))"
      "map_state crc mem ks room m1 (fst (map_spec_step mem ks M oper))" by auto
  from Cons.IH [OF m1(2)] Cons.prems(2) obtain m2 where
    "map_run crc mem m1 ops =
       Inr (m2, snd (map_spec_run mem ks (fst (map_spec_step mem ks M oper)) ops))"
    "map_state crc mem ks room m2 (fst (map_spec_run mem ks (fst (map_spec_step mem ks M oper)) ops))"
    by auto
  with m1(1) show ?case by (simp add: split_beta Let_def)
qed simp

text \<open>C2. Refinement of the hash map: on a map that has just been allocated, every sequence of
  operations that puts absent keys while there is room and erases present ones gives the answers
  of a partial map from the first \<open>ksize\<close> bytes of the keys, whatever the hash is, and the
  size is the number of keys.\<close>
theorem map_refines_partial_map:
  assumes "length bbs = unat capacity" "length kps = unat capacity" "length hs = unat capacity"
    "length cs = unat capacity" "length vs = unat capacity"
    and "map_allocate True (Some bbs) (Some kps) (Some hs) (Some cs) (Some vs) capacity ksize = Some m"
    and "map_uses mem (unat ksize) (unat capacity) Map.empty ops"
  shows "\<exists>m'. map_run crc mem m ops =
    Inr (m', snd (map_spec_run mem (unat ksize) Map.empty ops))"
proof -
  from map_allocate_correct [OF assms(1-6), of crc mem] have
    m: "map_wf crc mem m" "stored m = {}" "map_capacity m = capacity" "key_size m = ksize" by blast+
  have "contents mem m = Map.empty"
    using m(2) by (intro ext contents_absent [OF m(1)]) simp_all
  with m have "map_state crc mem (unat ksize) (unat capacity) m Map.empty"
    by (simp add: map_state_def)
  from map_run_correct [OF this assms(7)] show ?thesis by blast
qed

lemma map_refines_partial_map_witness:
  "\<exists>m m'. map_allocate True (Some [9, 9]) (Some [[], []]) (Some [0, 0]) (Some [5, 5]) (Some [0, 0])
       2 1 = Some m \<and>
     map_run (\<lambda>h k. 0) id m [Map_Put [1] 10, Map_Put [2] 20, Map_Get [1, 7], Map_Erase [1],
       Map_Get [1], Map_Get [2], Map_Size] =
     Inr (m', [Map_Done, Map_Done, Map_Value (Some 10), Map_Done, Map_Value None,
       Map_Value (Some 20), Map_Count 1])"
proof -
  have "\<exists>m. map_allocate True (Some [9, 9]) (Some [[], []]) (Some [0, 0]) (Some [5, 5])
      (Some [0, 0]) 2 1 = Some m"
    by (simp add: map_allocate_def compute_is_power_of_two_def)
  then obtain m where m: "map_allocate True (Some [9, 9]) (Some [[], [] :: bytes]) (Some [0, 0])
      (Some [5, 5]) (Some [0, 0]) 2 1 = Some m" by blast
  have u: "map_uses id (unat (1 :: u32)) (unat (2 :: u32)) Map.empty [Map_Put [1] 10, Map_Put [2] 20,
      Map_Get [1, 7], Map_Erase [1], Map_Get [1], Map_Get [2], Map_Size]"
    by (simp del: fun_upd_apply add: fun_upd_same fun_upd_other)
  have r: "snd (map_spec_run id (unat (1 :: u32)) Map.empty [Map_Put [1] 10, Map_Put [2] 20,
      Map_Get [1, 7], Map_Erase [1], Map_Get [1], Map_Get [2], Map_Size]) =
    [Map_Done, Map_Done, Map_Value (Some 10), Map_Done, Map_Value None, Map_Value (Some 20),
     Map_Count 1]"
    by (simp del: fun_upd_apply add: fun_upd_same fun_upd_other)
  from map_refines_partial_map [OF _ _ _ _ _ m u, of "\<lambda>h k. 0"] m
  show ?thesis unfolding r by auto
qed

end
