(* ===== verification/NFPacket.thy ===== *)
theory NFPacket
  imports Prelude
begin

text \<open>
  Packets as the software network functions read them: the chunks borrowed from the buffer
  (\<^verbatim>\<open>util/packet-io.c\<close>), the header accessors of \<^verbatim>\<open>nf-util.h\<close>, and the devices of a
  function. The bytes of a header are modelled as its fields, in the byte order they have in the
  packet; the two checksum routines of DPDK are parameters.
\<close>

section \<open>Headers\<close>

type_synonym ether_addr = "48 word"

record ipv4_hdr =
  ip_next_proto_id :: u8
  ip_src_addr :: u32
  ip_dst_addr :: u32
  ip_hdr_checksum :: u16

record tcpudp_hdr =
  l4_src_port :: u16
  l4_dst_port :: u16
  l4_tcp_cksum :: u16
  l4_udp_cksum :: u16

record packet =
  pk_total_length :: u32
  pk_read_length :: u32
  pk_chunks_borrowed :: nat
  pk_ether_type :: u16
  pk_ip :: ipv4_hdr
  pk_l4 :: tcpudp_hdr

definition DROP :: u16 where "DROP = - 1"
definition FLOOD :: u16 where "FLOOD = - 2"

abbreviation MAX_N_CHUNKS :: nat where "MAX_N_CHUNKS \<equiv> 100"

text \<open>\<^verbatim>\<open>RTE_ETHER_TYPE_IPV4\<close>, 0x0800, in the byte order of the network.\<close>

abbreviation ETHER_TYPE_IPV4_BE :: u16 where "ETHER_TYPE_IPV4_BE \<equiv> 8"

section \<open>Chunks and accessors\<close>

definition packet_get_unread_length :: "packet \<Rightarrow> u32" where
  "packet_get_unread_length p = pk_total_length p - pk_read_length p"

definition nf_borrow_next_chunk :: "packet \<Rightarrow> u32 \<Rightarrow> packet result" where
  "nf_borrow_next_chunk p len =
     assert_that (pk_chunks_borrowed p < MAX_N_CHUNKS)
       (Inr (p\<lparr>pk_read_length := pk_read_length p + len,
               pk_chunks_borrowed := pk_chunks_borrowed p + 1\<rparr>))"

definition nf_has_ipv4_header :: "packet \<Rightarrow> bool" where
  "nf_has_ipv4_header p \<longleftrightarrow> pk_ether_type p = ETHER_TYPE_IPV4_BE"

definition nf_has_tcpudp_header :: "packet \<Rightarrow> bool" where
  "nf_has_tcpudp_header p \<longleftrightarrow> ip_next_proto_id (pk_ip p) = 6 \<or> ip_next_proto_id (pk_ip p) = 17"

definition nf_then_get_ether_header :: "packet \<Rightarrow> packet result" where
  "nf_then_get_ether_header p = nf_borrow_next_chunk p 14"

text \<open>A null result is \<open>None\<close>; the unread length is cut to 16 bits here.\<close>

definition nf_then_get_ipv4_header :: "packet \<Rightarrow> packet option result" where
  "nf_then_get_ipv4_header p =
     (let unread_len = (ucast (packet_get_unread_length p) :: u16) in
      if \<not> nf_has_ipv4_header p \<or> unread_len < 20 then Inr None
      else rbind (nf_borrow_next_chunk p 20) (\<lambda>p. Inr (Some p)))"

definition nf_then_get_tcpudp_header :: "packet \<Rightarrow> packet option result" where
  "nf_then_get_tcpudp_header p =
     (if \<not> nf_has_tcpudp_header p \<or> packet_get_unread_length p < 4 then Inr None
      else rbind (nf_borrow_next_chunk p 4) (\<lambda>p. Inr (Some p)))"

definition nf_has_udp_header :: "packet \<Rightarrow> bool" where
  "nf_has_udp_header p \<longleftrightarrow> ip_next_proto_id (pk_ip p) = 17"

definition nf_then_get_udp_header :: "packet \<Rightarrow> packet option result" where
  "nf_then_get_udp_header p =
     (if \<not> nf_has_udp_header p \<or> packet_get_unread_length p < 8 then Inr None
      else rbind (nf_borrow_next_chunk p 8) (\<lambda>p. Inr (Some p)))"

definition nf_set_ipv4_udptcp_checksum ::
  "(ipv4_hdr \<Rightarrow> u16) \<Rightarrow> (ipv4_hdr \<Rightarrow> tcpudp_hdr \<Rightarrow> u16) \<Rightarrow> packet \<Rightarrow> packet"
where
  "nf_set_ipv4_udptcp_checksum ip_cksum l4_cksum p =
     (let ip = (pk_ip p)\<lparr>ip_hdr_checksum := 0\<rparr>; l4 = pk_l4 p;
          l4 = (if ip_next_proto_id ip = 6 then
                  let l4 = l4\<lparr>l4_tcp_cksum := 0\<rparr> in l4\<lparr>l4_tcp_cksum := l4_cksum ip l4\<rparr>
                else if ip_next_proto_id ip = 17 then
                  let l4 = l4\<lparr>l4_udp_cksum := 0\<rparr> in l4\<lparr>l4_udp_cksum := l4_cksum ip l4\<rparr>
                else l4)
      in p\<lparr>pk_ip := ip\<lparr>ip_hdr_checksum := ip_cksum ip\<rparr>, pk_l4 := l4\<rparr>)"

text \<open>What the worker does before and after a packet.\<close>

definition nf_return_all_chunks :: "packet \<Rightarrow> packet" where
  "nf_return_all_chunks p =
     (if pk_chunks_borrowed p = 0 then p else p\<lparr>pk_read_length := 0, pk_chunks_borrowed := 0\<rparr>)"

section \<open>Laws\<close>

text \<open>A packet as it is handed over: nothing read, nothing borrowed.\<close>

definition fresh_packet :: "packet \<Rightarrow> bool" where
  "fresh_packet p \<longleftrightarrow> pk_read_length p = 0 \<and> pk_chunks_borrowed p = 0"

text \<open>The lengths and the protocols under which both headers are read.\<close>

definition tcpudp_packet :: "packet \<Rightarrow> bool" where
  "tcpudp_packet p \<longleftrightarrow>
     fresh_packet p \<and> nf_has_ipv4_header p \<and> nf_has_tcpudp_header p \<and>
     38 \<le> pk_total_length p \<and> pk_total_length p < 65536"

definition headers_read :: "packet \<Rightarrow> packet" where
  "headers_read p = p\<lparr>pk_read_length := 38, pk_chunks_borrowed := 3\<rparr>"

lemma unread_small:
  assumes "34 \<le> len" "len < (65536 :: u32)"
  shows "\<not> (ucast (len - 14) :: u16) < 20"
proof -
  have l: "34 \<le> unat len" "unat len < 65536" using assms by (simp_all add: word_le_nat_alt word_less_nat_alt)
  have "unat (len - 14) = unat len - 14" using l(1) by (subst unat_sub) (simp_all add: word_le_nat_alt)
  then have "unat (ucast (len - 14) :: u16) = unat len - 14"
    using l(2) by (simp add: unsigned_ucast_eq take_bit_nat_eq_self)
  then show ?thesis using l(1) by (simp add: word_less_nat_alt)
qed

lemma tcpudp_packet_headers:
  assumes "tcpudp_packet p"
  obtains p1 p2 where "nf_then_get_ether_header p = Inr p1"
    "nf_then_get_ipv4_header p1 = Inr (Some p2)"
    "nf_then_get_tcpudp_header p2 = Inr (Some (headers_read p))"
proof -
  let ?p1 = "p\<lparr>pk_read_length := 14, pk_chunks_borrowed := 1\<rparr>"
    and ?p2 = "p\<lparr>pk_read_length := 34, pk_chunks_borrowed := 2\<rparr>"
  have a: "nf_has_ipv4_header p" "nf_has_tcpudp_header p" "pk_read_length p = 0"
    "pk_chunks_borrowed p = 0" "38 \<le> pk_total_length p" "pk_total_length p < 65536"
    using assms by (simp_all add: tcpudp_packet_def fresh_packet_def)
  have h: "nf_has_ipv4_header ?p1" "nf_has_tcpudp_header ?p2"
    using a(1,2) by (simp_all add: nf_has_ipv4_header_def nf_has_tcpudp_header_def)
  have "34 \<le> pk_total_length p" using a(5) by (rule order_trans [rotated]) simp
  from unread_small [OF this a(6)] have u: "\<not> (ucast (pk_total_length p - 14) :: u16) < 20" .
  have "unat (pk_total_length p - 34) = unat (pk_total_length p) - 34"
    using a(5) by (subst unat_sub) (simp_all add: word_le_nat_alt)
  then have v: "\<not> pk_total_length p - 34 < 4"
    using a(5) by (simp add: word_less_nat_alt word_le_nat_alt)
  have "nf_then_get_ether_header p = Inr ?p1"
    by (simp add: nf_then_get_ether_header_def nf_borrow_next_chunk_def a(3,4))
  moreover have "nf_then_get_ipv4_header ?p1 = Inr (Some ?p2)"
    using h(1) u by (simp add: nf_then_get_ipv4_header_def nf_borrow_next_chunk_def
        packet_get_unread_length_def)
  moreover have "nf_then_get_tcpudp_header ?p2 = Inr (Some (headers_read p))"
    using h(2) v by (simp add: nf_then_get_tcpudp_header_def nf_borrow_next_chunk_def
        packet_get_unread_length_def headers_read_def)
  ultimately show thesis by (rule that)
qed

lemma headers_total:
  assumes "fresh_packet p"
  shows "\<exists>p1. nf_then_get_ether_header p = Inr p1 \<and>
    (nf_then_get_ipv4_header p1 = Inr None \<or>
     (\<exists>p2. nf_then_get_ipv4_header p1 = Inr (Some p2) \<and>
       (nf_then_get_tcpudp_header p2 = Inr None \<or>
        nf_then_get_tcpudp_header p2 = Inr (Some (headers_read p)))))"
  using assms
  by (simp add: fresh_packet_def nf_then_get_ether_header_def nf_borrow_next_chunk_def
      nf_then_get_ipv4_header_def nf_then_get_tcpudp_header_def Let_def headers_read_def)

lemma checksum_keeps_addresses [simp]:
  "ip_src_addr (pk_ip (nf_set_ipv4_udptcp_checksum f g p)) = ip_src_addr (pk_ip p)"
  "ip_dst_addr (pk_ip (nf_set_ipv4_udptcp_checksum f g p)) = ip_dst_addr (pk_ip p)"
  "ip_next_proto_id (pk_ip (nf_set_ipv4_udptcp_checksum f g p)) = ip_next_proto_id (pk_ip p)"
  "l4_src_port (pk_l4 (nf_set_ipv4_udptcp_checksum f g p)) = l4_src_port (pk_l4 p)"
  "l4_dst_port (pk_l4 (nf_set_ipv4_udptcp_checksum f g p)) = l4_dst_port (pk_l4 p)"
  by (simp_all add: nf_set_ipv4_udptcp_checksum_def Let_def)

section \<open>Bytes of integers\<close>

text \<open>An integer in memory, the lowest byte first.\<close>

definition bytes16 :: "u16 \<Rightarrow> u8 list" where
  "bytes16 x = [ucast x, ucast (drop_bit 8 x)]"

definition bytes32 :: "u32 \<Rightarrow> u8 list" where
  "bytes32 x = [ucast x, ucast (drop_bit 8 x), ucast (drop_bit 16 x), ucast (drop_bit 24 x)]"

lemma length_bytes [simp]: "length (bytes16 x) = 2" "length (bytes32 y) = 4"
  by (simp_all add: bytes16_def bytes32_def)

lemma byte_eq_bits:
  assumes "(ucast (drop_bit k x) :: u8) = ucast (drop_bit k y)" "k \<le> n" "n < k + 8"
  shows "bit x n = bit y n"
proof -
  have "bit (ucast (drop_bit k x) :: u8) (n - k) = bit (ucast (drop_bit k y) :: u8) (n - k)"
    by (simp only: assms(1))
  then show ?thesis using assms(2,3) by (auto simp: bit_ucast_iff bit_drop_bit_eq)
qed

lemma bytes16_inj [simp]: "bytes16 x = bytes16 y \<longleftrightarrow> x = y"
proof
  assume e: "bytes16 x = bytes16 y"
  show "x = y"
  proof (rule bit_word_eqI)
    fix n assume "n < LENGTH(16)"
    then consider "n < 8" | "8 \<le> n" "n < 16" by fastforce
    then show "bit x n = bit y n"
      using e byte_eq_bits [of 0 x y n] byte_eq_bits [of 8 x y n]
      by cases (auto simp: bytes16_def)
  qed
qed simp

lemma bytes32_inj [simp]: "bytes32 x = bytes32 y \<longleftrightarrow> x = y"
proof
  assume e: "bytes32 x = bytes32 y"
  show "x = y"
  proof (rule bit_word_eqI)
    fix n assume "n < LENGTH(32)"
    then consider "n < 8" | "8 \<le> n" "n < 16" | "16 \<le> n" "n < 24" | "24 \<le> n" "n < 32" by fastforce
    then show "bit x n = bit y n"
      using e byte_eq_bits [of 0 x y n] byte_eq_bits [of 8 x y n] byte_eq_bits [of 16 x y n]
        byte_eq_bits [of 24 x y n]
      by cases (auto simp: bytes32_def)
  qed
qed simp

end
