(* ===== verification/NatFlows.thy ===== *)
theory NatFlows
  imports FlowTable NFPacket
begin

text \<open>
  The NAT, \<^verbatim>\<open>dpdk-nfs/nat\<close>: the flow manager over the map, vector and allocator, the
  choice of the output device, and the processing of a packet. A packet from an internal device
  leaves from the external address with the index of its flow as source port; a packet
  from outside is accepted when its destination port is the index of a flow whose remote end sent
  it.
\<close>

section \<open>State\<close>

record nat_flow =
  fl_src_ip :: u32
  fl_dst_ip :: u32
  fl_src_port :: u16
  fl_dst_port :: u16

definition nat_flow_bytes :: "nat_flow \<Rightarrow> bytes" where
  "nat_flow_bytes f =
     bytes32 (fl_src_ip f) @ bytes32 (fl_dst_ip f) @ bytes16 (fl_src_port f) @
     bytes16 (fl_dst_port f)"

record nat_state =
  nat_fm :: "int nf_map"
  nat_fv :: "nat_flow nf_vector"
  nat_heap :: double_chain
  nat_int_devices :: "int nf_vector"
  nat_fwd_rules :: "u16 nf_vector"
  nat_expiration_time :: u32

text \<open>The command line's configuration and the intrinsics and checksums the code calls.\<close>

record nat_env =
  env_crc :: "u32 \<Rightarrow> u32 \<Rightarrow> u32"
  env_ip_cksum :: "ipv4_hdr \<Rightarrow> u16"
  env_l4_cksum :: "ipv4_hdr \<Rightarrow> tcpudp_hdr \<Rightarrow> u16"
  env_external_addr :: u32

abbreviation nat_mem :: "nat_state \<Rightarrow> int \<Rightarrow> bytes" where
  "nat_mem st \<equiv> vector_mem nat_flow_bytes (nat_fv st)"

section \<open>Devices\<close>

text \<open>The tables the state is created with, from the lists of the configuration.\<close>

definition int_device_entry :: "u16 list \<Rightarrow> nat \<Rightarrow> int" where
  "int_device_entry devices dev = (if \<exists>d \<in> set devices. unat d = dev then 1 else 0)"

fun fwd_rule_entry :: "(u16 \<times> u16) list \<Rightarrow> nat \<Rightarrow> u16" where
  "fwd_rule_entry [] dev = DROP"
| "fwd_rule_entry ((src, dst) # rules) dev =
     (if unat src = dev then dst else fwd_rule_entry rules dev)"

definition is_internal :: "int nf_vector \<Rightarrow> u16 \<Rightarrow> bool result" where
  "is_internal int_devices device =
     rbind (vector_borrow int_devices (uint device)) (\<lambda>d. Inr (d \<noteq> 0))"

definition get_dst_dev :: "u16 nf_vector \<Rightarrow> u16 \<Rightarrow> u16 result" where
  "get_dst_dev fwd_rules src_dev =
     rbind (vector_borrow fwd_rules (uint src_dev)) (\<lambda>dst_dev.
     if src_dev = dst_dev then Inr DROP else Inr dst_dev)"

text \<open>
  \<^verbatim>\<open>alloc_state\<close>: the four results of the allocation functions are parameters, and the
  devices' tables are filled from the configuration.
\<close>

definition nat_alloc_state ::
  "int nf_map option \<Rightarrow> nat_flow nf_vector option \<Rightarrow> double_chain option \<Rightarrow> int nf_vector option \<Rightarrow>
     u16 nf_vector option \<Rightarrow> nat \<Rightarrow> u16 list \<Rightarrow> (u16 \<times> u16) list \<Rightarrow> u32 \<Rightarrow> nat_state option"
where
  "nat_alloc_state fm fv heap ints rules dev_count devices rule_list expiration =
     (case (fm, fv, heap, ints, rules) of
        (Some fm, Some fv, Some heap, Some ints, Some rules) \<Rightarrow>
          Some \<lparr>nat_fm = fm, nat_fv = fv, nat_heap = heap,
                nat_int_devices = ints\<lparr>vec_data := map (int_device_entry devices) [0..<dev_count]\<rparr>,
                nat_fwd_rules = rules\<lparr>vec_data := map (fwd_rule_entry rule_list) [0..<dev_count]\<rparr>,
                nat_expiration_time = expiration\<rparr>
      | _ \<Rightarrow> None)"

section \<open>Flow manager\<close>

definition nat_allocate_flow ::
  "nat_env \<Rightarrow> nat_state \<Rightarrow> nat_flow \<Rightarrow> int \<Rightarrow> (nat_state \<times> u16 option) result"
where
  "nat_allocate_flow env st flow time =
     rbind (dchain_allocate_new_index (nat_heap st) time) (\<lambda>(heap, ret).
     case ret of
       None \<Rightarrow> Inr (st\<lparr>nat_heap := heap\<rparr>, None)
     | Some index \<Rightarrow>
         rbind (vector_write (nat_fv st) index flow) (\<lambda>fv.
         rbind (map_put (env_crc env) (vector_mem nat_flow_bytes fv) (nat_fm st) index index)
           (\<lambda>fm.
         Inr (st\<lparr>nat_fm := fm, nat_fv := fv, nat_heap := heap\<rparr>, Some (word_of_int index)))))"

text \<open>The difference is computed in 64 bits without sign and read back with sign.\<close>

definition nat_last_time :: "u32 \<Rightarrow> int \<Rightarrow> int" where
  "nat_last_time expiration_time time =
     sint ((word_of_int time :: u64) - word_of_int (uint expiration_time * 1000))"

definition nat_expire :: "nat_env \<Rightarrow> nat_state \<Rightarrow> int \<Rightarrow> nat_state result option" where
  "nat_expire env st time =
     (if time < 0 then Some (Inl Assert_Failed)
      else
        map_option
          (\<lambda>r. rbind r (\<lambda>(heap, fm, count). Inr (st\<lparr>nat_heap := heap, nat_fm := fm\<rparr>)))
          (expire_items_single_map (env_crc env) nat_flow_bytes (nat_heap st) (nat_fv st)
            (nat_fm st) (nat_last_time (nat_expiration_time st) time)))"

definition nat_get_internal ::
  "nat_env \<Rightarrow> nat_state \<Rightarrow> nat_flow \<Rightarrow> int \<Rightarrow> (nat_state \<times> u16 option) result"
where
  "nat_get_internal env st flow time =
     (case map_get (env_crc env) (nat_mem st) (nat_fm st) (nat_flow_bytes flow) of
        None \<Rightarrow> Inr (st, None)
      | Some index \<Rightarrow>
          rbind (dchain_rejuvenate_index (nat_heap st) index time) (\<lambda>(heap, _).
          Inr (st\<lparr>nat_heap := heap\<rparr>, Some (word_of_int index))))"

definition nat_get_external ::
  "nat_state \<Rightarrow> u16 \<Rightarrow> int \<Rightarrow> (nat_state \<times> nat_flow option) result"
where
  "nat_get_external st external_port time =
     (let index = uint external_port in
      rbind (dchain_is_index_allocated (nat_heap st) index) (\<lambda>allocated.
      if \<not> allocated then Inr (st, None)
      else
        rbind (vector_borrow (nat_fv st) index) (\<lambda>out_flow.
        rbind (dchain_rejuvenate_index (nat_heap st) index time) (\<lambda>(heap, _).
        Inr (st\<lparr>nat_heap := heap\<rparr>, Some out_flow)))))"

section \<open>Packets\<close>

definition nat_internal ::
  "nat_env \<Rightarrow> nat_state \<Rightarrow> int \<Rightarrow> packet \<Rightarrow> (nat_state \<times> packet option) result"
where
  "nat_internal env st now p =
     (let flow = \<lparr>fl_src_ip = ip_src_addr (pk_ip p), fl_dst_ip = ip_dst_addr (pk_ip p),
                  fl_src_port = l4_src_port (pk_l4 p), fl_dst_port = l4_dst_port (pk_l4 p)\<rparr>;
          rewrite = (\<lambda>external_port.
            p\<lparr>pk_ip := (pk_ip p)\<lparr>ip_src_addr := env_external_addr env\<rparr>,
              pk_l4 := (pk_l4 p)\<lparr>l4_src_port := external_port\<rparr>\<rparr>)
      in
      rbind (nat_get_internal env st flow now) (\<lambda>(st, found).
      case found of
        Some external_port \<Rightarrow> Inr (st, Some (rewrite external_port))
      | None \<Rightarrow>
          rbind (nat_allocate_flow env st flow now) (\<lambda>(st, new).
          Inr (st, map_option rewrite new))))"

definition nat_external ::
  "nat_env \<Rightarrow> nat_state \<Rightarrow> int \<Rightarrow> packet \<Rightarrow> (nat_state \<times> packet option) result"
where
  "nat_external env st now p =
     rbind (nat_get_external st (l4_dst_port (pk_l4 p)) now) (\<lambda>(st, found).
     case found of
       None \<Rightarrow> Inr (st, None)
     | Some internal_flow \<Rightarrow>
         if fl_dst_ip internal_flow \<noteq> ip_src_addr (pk_ip p) \<or>
            fl_dst_port internal_flow \<noteq> l4_src_port (pk_l4 p)
         then Inr (st, None)
         else
           Inr (st, Some (p\<lparr>pk_ip := (pk_ip p)\<lparr>ip_dst_addr := fl_src_ip internal_flow\<rparr>,
                            pk_l4 := (pk_l4 p)\<lparr>l4_dst_port := fl_src_port internal_flow\<rparr>\<rparr>)))"

text \<open>The body after the flows have expired.\<close>

definition nat_translate ::
  "nat_env \<Rightarrow> nat_state \<Rightarrow> u16 \<Rightarrow> int \<Rightarrow> packet \<Rightarrow> (nat_state \<times> packet \<times> u16) result"
where
  "nat_translate env st device now p =
     rbind (nf_then_get_ether_header p) (\<lambda>p.
     rbind (nf_then_get_ipv4_header p) (\<lambda>ip.
     case ip of
       None \<Rightarrow> Inr (st, p, DROP)
     | Some p \<Rightarrow>
         rbind (nf_then_get_tcpudp_header p) (\<lambda>l4.
         case l4 of
           None \<Rightarrow> Inr (st, p, DROP)
         | Some p \<Rightarrow>
             rbind (is_internal (nat_int_devices st) device) (\<lambda>internal.
             rbind (if internal then nat_internal env st now p else nat_external env st now p)
               (\<lambda>(st, translated).
             case translated of
               None \<Rightarrow> Inr (st, p, DROP)
             | Some p \<Rightarrow>
                 rbind (get_dst_dev (nat_fwd_rules st) device) (\<lambda>dst.
                 Inr (st,
                   nf_set_ipv4_udptcp_checksum (env_ip_cksum env) (env_l4_cksum env) p,
                   dst)))))))"

definition nat_process ::
  "nat_env \<Rightarrow> nat_state \<Rightarrow> u16 \<Rightarrow> int \<Rightarrow> packet \<Rightarrow> (nat_state \<times> packet \<times> u16) result option"
where
  "nat_process env st device now p =
     map_option (\<lambda>r. rbind r (\<lambda>st. nat_translate env st device now p)) (nat_expire env st now)"

section \<open>The invariant\<close>

lemma nat_flow_bytes_length [simp]: "length (nat_flow_bytes f) = 12"
  by (simp add: nat_flow_bytes_def)

lemma nat_flow_bytes_inj: "nat_flow_bytes f = nat_flow_bytes g \<Longrightarrow> f = g"
  by (simp add: nat_flow_bytes_def)

interpretation nat_flows: nf_flows crc capacity 12 nat_flow_bytes for crc capacity
  by unfold_locales (simp add: nat_flow_bytes_inj)

text \<open>
  \<open>nat_wf env n st L F\<close>: the state has room for \<open>n\<close> flows, the allocated indices are
  \<open>L\<close> with the times they were last used, and the free ones are \<open>F\<close>.
\<close>

definition nat_wf :: "nat_env \<Rightarrow> u32 \<Rightarrow> nat_state \<Rightarrow> aged \<Rightarrow> int list \<Rightarrow> bool" where
  "nat_wf env n st L F \<longleftrightarrow>
     table_flows chain_rep (map_rep (env_crc env) n 12) (unat n) nat_flow_bytes
       (nat_heap st) (nat_fv st) (nat_fm st) L F \<and>
     length (vec_data (nat_fv st)) = unat n"

abbreviation nat_flow_at :: "nat_state \<Rightarrow> int \<Rightarrow> nat_flow" where
  "nat_flow_at st i \<equiv> vec_data (nat_fv st) ! nat i"

lemma nat_wf_range:
  assumes "nat_wf env n st L F" "i \<in> set (ids L @ F)"
  shows "0 \<le> i" "i < uint n"
  using nat_flows.tab.flows_range [of "env_crc env" n "nat_heap st" "nat_fv st" "nat_fm st" L F i] assms
  by (simp_all add: nat_wf_def)

lemma nat_wf_member:
  assumes "nat_wf env n st L F" "port < uint n" "0 \<le> port"
  shows "port \<in> set (ids L @ F)"
  using assms by (simp add: nat_wf_def table_flows_def del: set_append)

text \<open>Two states with the same flows and devices differ only in the order of use.\<close>

definition same_devices :: "nat_state \<Rightarrow> nat_state \<Rightarrow> bool" where
  "same_devices st st' \<longleftrightarrow>
     nat_int_devices st' = nat_int_devices st \<and> nat_fwd_rules st' = nat_fwd_rules st \<and>
     nat_expiration_time st' = nat_expiration_time st"

lemma same_devices_refl [simp]: "same_devices st st"
  by (simp add: same_devices_def)

lemma same_devices_trans: "same_devices a b \<Longrightarrow> same_devices b c \<Longrightarrow> same_devices a c"
  by (simp add: same_devices_def)

section \<open>Behaviour of the flow manager\<close>

lemma nat_expire_correct:
  assumes "nat_wf env n st L F" "0 \<le> now"
  defines "k \<equiv> expired_count (nat_last_time (nat_expiration_time st) now) L"
  shows "\<exists>st'. nat_expire env st now = Some (Inr st') \<and>
    nat_wf env n st' (drop k L) (rev (ids (take k L)) @ F) \<and>
    nat_fv st' = nat_fv st \<and> same_devices st st'"
proof -
  let ?t = "nat_last_time (nat_expiration_time st) now"
  have f: "table_flows chain_rep (map_rep (env_crc env) n 12) (unat n) nat_flow_bytes
      (nat_heap st) (nat_fv st) (nat_fm st) L F" using assms(1) by (simp add: nat_wf_def)
  from nat_flows.expire_items_correct [OF f, of ?t] obtain d' m' where
    "expire_items_single_map (env_crc env) nat_flow_bytes (nat_heap st) (nat_fv st) (nat_fm st) ?t =
      Some (Inr (d', m', int k))"
    "table_flows chain_rep (map_rep (env_crc env) n 12) (unat n) nat_flow_bytes
      d' (nat_fv st) m' (drop k L) (rev (ids (take k L)) @ F)" by (auto simp: k_def)
  with assms(1,2) show ?thesis
    by (intro exI [of _ "st\<lparr>nat_heap := d', nat_fm := m'\<rparr>"])
      (simp add: nat_expire_def nat_wf_def same_devices_def)
qed

lemma nat_get_internal_known:
  assumes "nat_wf env n st L F" "i \<in> set (ids L)" "nat_flow_at st i = flow"
  shows "\<exists>st'. nat_get_internal env st flow now = Inr (st', Some (word_of_int i)) \<and>
    nat_wf env n st' (forget i L @ [(i, now)]) F \<and> nat_fv st' = nat_fv st \<and> same_devices st st'"
proof -
  have f: "table_flows chain_rep (map_rep (env_crc env) n 12) (unat n) nat_flow_bytes
      (nat_heap st) (nat_fv st) (nat_fm st) L F" using assms(1) by (simp add: nat_wf_def)
  have g: "map_get (env_crc env) (nat_mem st) (nat_fm st) (nat_flow_bytes flow) = Some i"
    using nat_flows.tab.get_flow [OF f, of flow i] assms(2,3) by simp
  from nat_flows.tab.rejuvenate_flow [OF f assms(2), of now] obtain d' where
    "dchain_rejuvenate_index (nat_heap st) i now = Inr (d', True)"
    "table_flows chain_rep (map_rep (env_crc env) n 12) (unat n) nat_flow_bytes
      d' (nat_fv st) (nat_fm st) (forget i L @ [(i, now)]) F" by blast
  with g assms(1) show ?thesis
    by (intro exI [of _ "st\<lparr>nat_heap := d'\<rparr>"])
      (simp add: nat_get_internal_def nat_wf_def same_devices_def)
qed

lemma nat_get_internal_unknown:
  assumes "nat_wf env n st L F" "\<forall>i \<in> set (ids L). nat_flow_at st i \<noteq> flow"
  shows "nat_get_internal env st flow now = Inr (st, None)"
proof -
  have f: "table_flows chain_rep (map_rep (env_crc env) n 12) (unat n) nat_flow_bytes
      (nat_heap st) (nat_fv st) (nat_fm st) L F" using assms(1) by (simp add: nat_wf_def)
  have "map_get (env_crc env) (nat_mem st) (nat_fm st) (nat_flow_bytes flow) = None"
    using nat_flows.tab.get_flow_None [OF f, of flow] assms(2) by simp
  then show ?thesis by (simp add: nat_get_internal_def)
qed

lemma nat_allocate_new:
  assumes "nat_wf env n st L (f # F)" "\<forall>i \<in> set (ids L). nat_flow_at st i \<noteq> flow"
  shows "\<exists>st'. nat_allocate_flow env st flow now = Inr (st', Some (word_of_int f)) \<and>
    nat_wf env n st' (L @ [(f, now)]) F \<and> nat_flow_at st' f = flow \<and> same_devices st st'"
proof -
  have t: "table_flows chain_rep (map_rep (env_crc env) n 12) (unat n) nat_flow_bytes
      (nat_heap st) (nat_fv st) (nat_fm st) L (f # F)" using assms(1) by (simp add: nat_wf_def)
  let ?fv = "(nat_fv st)\<lparr>vec_data := (vec_data (nat_fv st))[nat f := flow]\<rparr>"
  from nat_flows.tab.insert_flow [OF t assms(2), of now] obtain d' m' where
    d': "dchain_allocate_new_index (nat_heap st) now = Inr (d', Some f)"
    "vector_write (nat_fv st) f flow = Inr ?fv"
    "map_put (env_crc env) (vector_mem nat_flow_bytes ?fv) (nat_fm st) f f = Inr m'"
    "table_flows chain_rep (map_rep (env_crc env) n 12) (unat n) nat_flow_bytes
      d' ?fv m' (L @ [(f, now)]) F" by blast
  have "nat f < length (vec_data (nat_fv st))"
    using nat_wf_range [OF assms(1), of f] assms(1) by (simp add: nat_wf_def nat_less_iff)
  with d' assms(1) show ?thesis
    by (intro exI [of _ "st\<lparr>nat_fm := m', nat_fv := ?fv, nat_heap := d'\<rparr>"])
      (simp add: nat_allocate_flow_def nat_wf_def same_devices_def)
qed

lemma nat_allocate_full:
  assumes "nat_wf env n st L []"
  shows "\<exists>st'. nat_allocate_flow env st flow now = Inr (st', None) \<and> nat_wf env n st' L [] \<and>
    nat_fv st' = nat_fv st \<and> same_devices st st'"
proof -
  have f: "table_flows chain_rep (map_rep (env_crc env) n 12) (unat n) nat_flow_bytes
      (nat_heap st) (nat_fv st) (nat_fm st) L []" using assms(1) by (simp add: nat_wf_def)
  from nat_flows.tab.insert_full [OF f, of now] obtain d' where
    "dchain_allocate_new_index (nat_heap st) now = Inr (d', None)"
    "table_flows chain_rep (map_rep (env_crc env) n 12) (unat n) nat_flow_bytes
      d' (nat_fv st) (nat_fm st) L []" by blast
  with assms show ?thesis
    by (intro exI [of _ "st\<lparr>nat_heap := d'\<rparr>"])
      (simp add: nat_allocate_flow_def nat_wf_def same_devices_def)
qed

lemma nat_get_external_allocated:
  assumes "nat_wf env n st L F" "uint port \<in> set (ids L)"
  defines "i \<equiv> uint port"
  shows "\<exists>st'. nat_get_external st port now = Inr (st', Some (nat_flow_at st i)) \<and>
    nat_wf env n st' (forget i L @ [(i, now)]) F \<and> nat_fv st' = nat_fv st \<and> same_devices st st'"
proof -
  have f: "table_flows chain_rep (map_rep (env_crc env) n 12) (unat n) nat_flow_bytes
      (nat_heap st) (nat_fv st) (nat_fm st) L F" using assms(1) by (simp add: nat_wf_def)
  have r: "chain_rep (nat_heap st) L F" using f by (simp add: table_flows_def)
  have i: "i \<in> set (ids L)" using assms(2) by (simp add: i_def)
  have a: "dchain_is_index_allocated (nat_heap st) i = Inr True"
    using chain.allocated_iff [OF r, of i] i by simp
  have b: "vector_borrow (nat_fv st) i = Inr (nat_flow_at st i)"
    using nat_wf_range [OF assms(1), of i] i assms(1) by (simp add: vector_write_in nat_wf_def)
  from nat_flows.tab.rejuvenate_flow [OF f i, of now] obtain d' where
    "dchain_rejuvenate_index (nat_heap st) i now = Inr (d', True)"
    "table_flows chain_rep (map_rep (env_crc env) n 12) (unat n) nat_flow_bytes
      d' (nat_fv st) (nat_fm st) (forget i L @ [(i, now)]) F" by blast
  with a b assms(1) show ?thesis
    by (intro exI [of _ "st\<lparr>nat_heap := d'\<rparr>"])
      (simp add: nat_get_external_def nat_wf_def same_devices_def i_def [symmetric])
qed

lemma nat_get_external_free:
  assumes "nat_wf env n st L F" "uint port < uint n" "uint port \<notin> set (ids L)"
  shows "nat_get_external st port now = Inr (st, None)"
proof -
  have r: "chain_rep (nat_heap st) L F" using assms(1) by (simp add: nat_wf_def table_flows_def)
  have "uint port \<in> set (ids L @ F)" using nat_wf_member [OF assms(1,2)] by simp
  from chain.allocated_iff [OF r this] assms(3)
  have "dchain_is_index_allocated (nat_heap st) (uint port) = Inr False" by simp
  then show ?thesis by (simp add: nat_get_external_def)
qed

text \<open>A port beyond the table is an access outside the allocator's cells.\<close>

lemma nat_get_external_outside:
  assumes "nat_wf env n st L F" "uint n \<le> uint port"
  shows "nat_get_external st port now = Inl Undefined"
proof -
  have r: "chain_rep (nat_heap st) L F" using assms(1) by (simp add: nat_wf_def table_flows_def)
  have "set (ids L @ F) = {0..<uint n}"
    using assms(1) by (simp add: nat_wf_def table_flows_def del: set_append)
  with chain_rep_range(1) [OF r]
  have "{0..<int (length (ch_timestamps (nat_heap st)))} = {0..<uint n}" by simp
  then have "card {0..<int (length (ch_timestamps (nat_heap st)))} = card {0..<uint n}" by simp
  then have "length (ch_timestamps (nat_heap st)) = unat n" by simp
  then have "length (ch_cells (nat_heap st)) = unat n + 2" using r by (simp add: chain_rep_def)
  then have "\<not> in_cells (ch_cells (nat_heap st)) (uint port + 2)"
    using assms(2) by (simp add: in_cells_def)
  then show ?thesis
    by (simp add: nat_get_external_def dchain_is_index_allocated_def
        dchain_impl_is_index_allocated_def read_cell_def)
qed

end
