(* ===== verification/Aging.thy ===== *)
theory Aging
  imports FlowTable
begin

text \<open>
  The arithmetic of expiration: differences of signed 64-bit times computed without sign, and
  what expiring leaves of a list of ages.
\<close>

lemma u64_difference:
  assumes "0 \<le> a" "a < 2 ^ 63" "0 \<le> b" "b \<le> 2 ^ 63"
  shows "sint ((word_of_int a :: u64) - word_of_int b) = a - b"
proof -
  have "(word_of_int a :: u64) - word_of_int b = word_of_int (a - b)" by simp
  moreover have "sint (word_of_int (a - b) :: u64) = signed_take_bit 63 (a - b)"
    by (simp only: sint_sbintrunc' len_num1) simp
  moreover have "signed_take_bit 63 (a - b) = a - b"
    by (rule signed_take_bit_int_eq_self) (use assms in linarith)+
  ultimately show ?thesis by (simp only:)
qed

lemma drop_expired_last:
  assumes "\<not> s < time"
  shows "\<exists>B. drop (expired_count time (A @ [(i, s)])) (A @ [(i, s)]) = B @ [(i, s)]"
proof -
  have "expired_count time (A @ [(i, s)]) \<le> length A"
    using assms by (induction A) (auto simp: expired_count_def)
  then show ?thesis by simp
qed

end
