(* ===== verification/NatCorrect.thy ===== *)
theory NatCorrect
  imports NatFlows Aging
begin

text \<open>
  What the NAT does to packets: every packet keeps the invariant, a flow keeps its port, and a
  reply is translated back to the host that opened the flow.
\<close>

section \<open>The two directions\<close>

definition outgoing_flow :: "packet \<Rightarrow> nat_flow" where
  "outgoing_flow p =
     \<lparr>fl_src_ip = ip_src_addr (pk_ip p), fl_dst_ip = ip_dst_addr (pk_ip p),
      fl_src_port = l4_src_port (pk_l4 p), fl_dst_port = l4_dst_port (pk_l4 p)\<rparr>"

definition outgoing_packet :: "nat_env \<Rightarrow> u16 \<Rightarrow> packet \<Rightarrow> packet" where
  "outgoing_packet env port p =
     p\<lparr>pk_ip := (pk_ip p)\<lparr>ip_src_addr := env_external_addr env\<rparr>,
       pk_l4 := (pk_l4 p)\<lparr>l4_src_port := port\<rparr>\<rparr>"

definition incoming_packet :: "nat_flow \<Rightarrow> packet \<Rightarrow> packet" where
  "incoming_packet f p =
     p\<lparr>pk_ip := (pk_ip p)\<lparr>ip_dst_addr := fl_src_ip f\<rparr>,
       pk_l4 := (pk_l4 p)\<lparr>l4_dst_port := fl_src_port f\<rparr>\<rparr>"

text \<open>
  What \<open>nat_internal\<close> may do: keep a known flow, open a new one at the end of the list of
  uses, or drop the packet because the table is full. In the first two cases the port is the
  index of the packet's flow, used now.
\<close>

lemma nat_internal_cases:
  assumes "nat_wf env n st L F"
  obtains
    (known) i st' where "i \<in> set (ids L)" "nat_flow_at st i = outgoing_flow p"
      "nat_internal env st now p = Inr (st', Some (outgoing_packet env (word_of_int i) p))"
      "nat_wf env n st' (forget i L @ [(i, now)]) F" "nat_fv st' = nat_fv st" "same_devices st st'"
  | (new) f F' st' where "\<forall>i \<in> set (ids L). nat_flow_at st i \<noteq> outgoing_flow p" "F = f # F'"
      "nat_internal env st now p = Inr (st', Some (outgoing_packet env (word_of_int f) p))"
      "nat_wf env n st' (L @ [(f, now)]) F'" "nat_flow_at st' f = outgoing_flow p"
      "same_devices st st'"
  | (full) st' where "\<forall>i \<in> set (ids L). nat_flow_at st i \<noteq> outgoing_flow p" "F = []"
      "nat_internal env st now p = Inr (st', None)" "nat_wf env n st' L []" "same_devices st st'"
proof (cases "\<exists>i \<in> set (ids L). nat_flow_at st i = outgoing_flow p")
  case True
  then obtain i where i: "i \<in> set (ids L)" "nat_flow_at st i = outgoing_flow p" by blast
  from nat_get_internal_known [OF assms i] obtain st' where
    "nat_get_internal env st (outgoing_flow p) now = Inr (st', Some (word_of_int i))"
    "nat_wf env n st' (forget i L @ [(i, now)]) F" "nat_fv st' = nat_fv st" "same_devices st st'"
    by blast
  with i show thesis
    by (intro known [of i st'])
      (simp_all add: nat_internal_def outgoing_flow_def outgoing_packet_def)
next
  case False
  then have a: "\<forall>i \<in> set (ids L). nat_flow_at st i \<noteq> outgoing_flow p" by blast
  note g = nat_get_internal_unknown [OF assms a, of now]
  show thesis
  proof (cases F)
    case Nil
    from nat_allocate_full [OF assms [unfolded Nil], of "outgoing_flow p" now] obtain st' where
      "nat_allocate_flow env st (outgoing_flow p) now = Inr (st', None)" "nat_wf env n st' L []"
      "same_devices st st'" by blast
    with g a Nil show thesis
      by (intro full [of st']) (simp_all add: nat_internal_def outgoing_flow_def)
  next
    case (Cons f F')
    from nat_allocate_new [OF assms [unfolded Cons] a, of now] obtain st' where
      "nat_allocate_flow env st (outgoing_flow p) now = Inr (st', Some (word_of_int f))"
      "nat_wf env n st' (L @ [(f, now)]) F'" "nat_flow_at st' f = outgoing_flow p"
      "same_devices st st'" by blast
    with g a Cons show thesis
      by (intro new [of f F' st'])
        (simp_all add: nat_internal_def outgoing_flow_def outgoing_packet_def)
  qed
qed

lemma nat_external_cases:
  assumes "nat_wf env n st L F" "uint (l4_dst_port (pk_l4 p)) < uint n"
  defines "i \<equiv> uint (l4_dst_port (pk_l4 p))"
  obtains
    (accepted) st' where "i \<in> set (ids L)"
      "fl_dst_ip (nat_flow_at st i) = ip_src_addr (pk_ip p)"
      "fl_dst_port (nat_flow_at st i) = l4_src_port (pk_l4 p)"
      "nat_external env st now p = Inr (st', Some (incoming_packet (nat_flow_at st i) p))"
      "nat_wf env n st' (forget i L @ [(i, now)]) F" "nat_fv st' = nat_fv st" "same_devices st st'"
  | (dropped) st' L' where
      "\<not> (i \<in> set (ids L) \<and> fl_dst_ip (nat_flow_at st i) = ip_src_addr (pk_ip p) \<and>
          fl_dst_port (nat_flow_at st i) = l4_src_port (pk_l4 p))"
      "nat_external env st now p = Inr (st', None)" "nat_wf env n st' L' F"
      "nat_fv st' = nat_fv st" "same_devices st st'" "set (ids L') = set (ids L)"
proof (cases "i \<in> set (ids L)")
  case True
  from nat_get_external_allocated [OF assms(1) True [unfolded i_def], of now] obtain st' where
    g: "nat_get_external st (l4_dst_port (pk_l4 p)) now = Inr (st', Some (nat_flow_at st i))"
    and st': "nat_wf env n st' (forget i L @ [(i, now)]) F" "nat_fv st' = nat_fv st"
    "same_devices st st'" by (auto simp: i_def)
  have s: "set (ids (forget i L @ [(i, now)])) = set (ids L)" using True by force
  show thesis
  proof (cases "fl_dst_ip (nat_flow_at st i) = ip_src_addr (pk_ip p) \<and>
      fl_dst_port (nat_flow_at st i) = l4_src_port (pk_l4 p)")
    case a: True
    with g st' True show thesis
      by (intro accepted [of st']) (simp_all add: nat_external_def incoming_packet_def)
  next
    case False
    then have "nat_external env st now p = Inr (st', None)" using g by (auto simp: nat_external_def)
    with st' False s show thesis by (intro dropped [of st' "forget i L @ [(i, now)]"]) auto
  qed
next
  case False
  from nat_get_external_free [OF assms(1,2) False [unfolded i_def], of now]
  have "nat_external env st now p = Inr (st, None)" by (simp add: nat_external_def)
  with assms(1) False show thesis by (intro dropped) auto
qed

section \<open>Whole packets\<close>

definition has_devices :: "nat_state \<Rightarrow> u16 \<Rightarrow> bool" where
  "has_devices st device \<longleftrightarrow>
     uint device < int (length (vec_data (nat_int_devices st))) \<and>
     uint device < int (length (vec_data (nat_fwd_rules st)))"

definition internal_device :: "nat_state \<Rightarrow> u16 \<Rightarrow> bool" where
  "internal_device st device \<longleftrightarrow> vec_data (nat_int_devices st) ! unat device \<noteq> 0"

definition output_device :: "nat_state \<Rightarrow> u16 \<Rightarrow> u16" where
  "output_device st device =
     (let dst = vec_data (nat_fwd_rules st) ! unat device in if device = dst then DROP else dst)"

lemma has_devices_run:
  assumes "has_devices st device"
  shows "is_internal (nat_int_devices st) device = Inr (internal_device st device)"
    and "get_dst_dev (nat_fwd_rules st) device = Inr (output_device st device)"
  using assms
  by (simp_all add: has_devices_def is_internal_def get_dst_dev_def vector_borrow_def
      internal_device_def output_device_def Let_def)

lemma same_devices_devices:
  assumes "same_devices st st'"
  shows "has_devices st' d = has_devices st d" "internal_device st' d = internal_device st d"
    "output_device st' d = output_device st d"
  using assms
  by (simp_all add: same_devices_def has_devices_def internal_device_def output_device_def)

text \<open>The translation of a packet whose headers can be read.\<close>

lemma nat_translate_read:
  assumes "has_devices st device" "tcpudp_packet p"
    and "(if internal_device st device then nat_internal env st now (headers_read p)
          else nat_external env st now (headers_read p)) = Inr (st', q)" "same_devices st st'"
  shows "nat_translate env st device now p =
    Inr (case q of
      None \<Rightarrow> (st', headers_read p, DROP)
    | Some p' \<Rightarrow> (st', nf_set_ipv4_udptcp_checksum (env_ip_cksum env) (env_l4_cksum env) p',
        output_device st device))"
proof -
  from tcpudp_packet_headers [OF assms(2)] obtain p1 p2 where
    h: "nf_then_get_ether_header p = Inr p1" "nf_then_get_ipv4_header p1 = Inr (Some p2)"
      "nf_then_get_tcpudp_header p2 = Inr (Some (headers_read p))" by blast
  have "has_devices st' device" using assms(1,4) by (simp add: same_devices_devices)
  from has_devices_run [OF assms(1)] has_devices_run(2) [OF this] h assms(3,4) show ?thesis
    by (cases q) (simp_all add: nat_translate_def same_devices_devices)
qed

lemma headers_read_fields [simp]:
  "pk_ip (headers_read p) = pk_ip p" "pk_l4 (headers_read p) = pk_l4 p"
  by (simp_all add: headers_read_def)

lemma outgoing_flow_read [simp]: "outgoing_flow (headers_read p) = outgoing_flow p"
  by (simp add: outgoing_flow_def)

lemma nat_translate_total:
  assumes "nat_wf env n st L F" "fresh_packet p" "has_devices st device"
    and "uint (l4_dst_port (pk_l4 p)) < uint n \<or> internal_device st device"
  shows "\<exists>st' p' dst L' F'. nat_translate env st device now p = Inr (st', p', dst) \<and>
    nat_wf env n st' L' F' \<and> same_devices st st'"
proof -
  have "\<exists>st' q L' F'. (if internal_device st device then nat_internal env st now (headers_read p)
      else nat_external env st now (headers_read p)) = Inr (st', q) \<and>
    nat_wf env n st' L' F' \<and> same_devices st st'"
  proof (cases "internal_device st device")
    case True
    have "\<exists>st' q L' F'. nat_internal env st now (headers_read p) = Inr (st', q) \<and>
        nat_wf env n st' L' F' \<and> same_devices st st'"
      by (rule nat_internal_cases [OF assms(1), of "headers_read p" now]) blast+
    with True show ?thesis by simp
  next
    case False
    with assms(4) have "uint (l4_dst_port (pk_l4 (headers_read p))) < uint n" by simp
    then have "\<exists>st' q L' F'. nat_external env st now (headers_read p) = Inr (st', q) \<and>
        nat_wf env n st' L' F' \<and> same_devices st st'"
      by (rule nat_external_cases [OF assms(1), of "headers_read p" now]) blast+
    with False show ?thesis by simp
  qed
  then obtain st' q L' F' where
    q: "(if internal_device st device then nat_internal env st now (headers_read p)
      else nat_external env st now (headers_read p)) = Inr (st', q)"
    "nat_wf env n st' L' F'" "same_devices st st'" by blast
  from headers_total [OF assms(2)] obtain p1 where p1: "nf_then_get_ether_header p = Inr p1"
    and c: "nf_then_get_ipv4_header p1 = Inr None \<or>
     (\<exists>p2. nf_then_get_ipv4_header p1 = Inr (Some p2) \<and>
       (nf_then_get_tcpudp_header p2 = Inr None \<or>
        nf_then_get_tcpudp_header p2 = Inr (Some (headers_read p))))" by blast
  have d': "has_devices st' device" using assms(3) q(3) by (simp add: same_devices_devices)
  note run = has_devices_run(1) [OF assms(3)] has_devices_run(2) [OF d']
  from c show ?thesis
  proof (elim disjE exE conjE)
    assume "nf_then_get_ipv4_header p1 = Inr None"
    with p1 assms(1) show ?thesis by (auto simp: nat_translate_def)
  next
    fix p2 assume "nf_then_get_ipv4_header p1 = Inr (Some p2)" "nf_then_get_tcpudp_header p2 = Inr None"
    with p1 assms(1) show ?thesis by (auto simp: nat_translate_def)
  next
    fix p2 assume "nf_then_get_ipv4_header p1 = Inr (Some p2)"
      "nf_then_get_tcpudp_header p2 = Inr (Some (headers_read p))"
    with p1 run q show ?thesis by (cases q) (auto simp: nat_translate_def)
  qed
qed

lemma nat_process_expired:
  assumes "nat_wf env n st L F" "0 \<le> now"
  obtains st0 where
    "nat_process env st device now p = Some (nat_translate env st0 device now p)"
    "nat_wf env n st0 (drop (expired_count (nat_last_time (nat_expiration_time st) now) L) L)
       (rev (ids (take (expired_count (nat_last_time (nat_expiration_time st) now) L) L)) @ F)"
    "nat_fv st0 = nat_fv st" "same_devices st st0"
  using nat_expire_correct [OF assms] that by (auto simp: nat_process_def)

text \<open>An internal packet that is not dropped leaves a flow of its own, used last.\<close>

lemma nat_process_outgoing:
  assumes "nat_wf env n st L F" "0 \<le> now" "tcpudp_packet p" "has_devices st d"
    "internal_device st d" "nat_process env st d now p = Some (Inr (st1, p1, out))" "out \<noteq> DROP"
  obtains i A F1 where "nat_wf env n st1 (A @ [(i, now)]) F1" "nat_flow_at st1 i = outgoing_flow p"
    "ip_src_addr (pk_ip p1) = env_external_addr env" "l4_src_port (pk_l4 p1) = word_of_int i"
    "ip_dst_addr (pk_ip p1) = ip_dst_addr (pk_ip p)" "l4_dst_port (pk_l4 p1) = l4_dst_port (pk_l4 p)"
    "out = output_device st d" "same_devices st st1"
proof -
  let ?k = "expired_count (nat_last_time (nat_expiration_time st) now) L"
  obtain st0 where st0: "nat_process env st d now p = Some (nat_translate env st0 d now p)"
    "nat_wf env n st0 (drop ?k L) (rev (ids (take ?k L)) @ F)" "nat_fv st0 = nat_fv st"
    "same_devices st st0" by (rule nat_process_expired [OF assms(1,2)])
  have dev: "has_devices st0 d" "internal_device st0 d"
    using assms(4,5) st0(4) by (simp_all add: same_devices_devices)
  have run: "nat_translate env st0 d now p = Inr (st1, p1, out)" using st0(1) assms(6) by simp
  show thesis
  proof (rule nat_internal_cases [OF st0(2), of "headers_read p" now])
    fix i st' assume a: "i \<in> set (ids (drop ?k L))" "nat_flow_at st0 i = outgoing_flow (headers_read p)"
      "nat_internal env st0 now (headers_read p) =
        Inr (st', Some (outgoing_packet env (word_of_int i) (headers_read p)))"
      "nat_wf env n st' (forget i (drop ?k L) @ [(i, now)]) (rev (ids (take ?k L)) @ F)"
      "nat_fv st' = nat_fv st0" "same_devices st0 st'"
    have "nat_translate env st0 d now p = Inr (st',
        nf_set_ipv4_udptcp_checksum (env_ip_cksum env) (env_l4_cksum env)
          (outgoing_packet env (word_of_int i) (headers_read p)), output_device st0 d)"
      using nat_translate_read [OF dev(1) assms(3), of env now st'] dev(2) a(3,6) by simp
    with run have e: "st1 = st'" "out = output_device st0 d"
      "p1 = nf_set_ipv4_udptcp_checksum (env_ip_cksum env) (env_l4_cksum env)
          (outgoing_packet env (word_of_int i) (headers_read p))" by simp_all
    show thesis
      using a(2,4,5) e same_devices_trans [OF st0(4) a(6)] st0(4)
      by (intro that [of "forget i (drop ?k L)" i])
        (simp_all add: outgoing_packet_def same_devices_devices)
  next
    fix f F' st' assume a: "nat_internal env st0 now (headers_read p) =
        Inr (st', Some (outgoing_packet env (word_of_int f) (headers_read p)))"
      "nat_wf env n st' (drop ?k L @ [(f, now)]) F'"
      "nat_flow_at st' f = outgoing_flow (headers_read p)" "same_devices st0 st'"
    have "nat_translate env st0 d now p = Inr (st',
        nf_set_ipv4_udptcp_checksum (env_ip_cksum env) (env_l4_cksum env)
          (outgoing_packet env (word_of_int f) (headers_read p)), output_device st0 d)"
      using nat_translate_read [OF dev(1) assms(3), of env now st'] dev(2) a(1,4) by simp
    with run have e: "st1 = st'" "out = output_device st0 d"
      "p1 = nf_set_ipv4_udptcp_checksum (env_ip_cksum env) (env_l4_cksum env)
          (outgoing_packet env (word_of_int f) (headers_read p))" by simp_all
    show thesis
      using a(2,3) e same_devices_trans [OF st0(4) a(4)] st0(4)
      by (intro that [of "drop ?k L" f])
        (simp_all add: outgoing_packet_def same_devices_devices)
  next
    fix st' assume a: "nat_internal env st0 now (headers_read p) = Inr (st', None)"
      "same_devices st0 st'"
    have "nat_translate env st0 d now p = Inr (st', headers_read p, DROP)"
      using nat_translate_read [OF dev(1) assms(3), of env now st'] dev(2) a by simp
    with run assms(7) show thesis by simp
  qed
qed

lemma port_of_index:
  assumes "nat_wf env n st L F" "i \<in> set (ids L)" "uint n \<le> 65536"
  shows "uint (word_of_int i :: u16) = i"
proof -
  have "0 \<le> i" "i < 65536" using nat_wf_range [OF assms(1), of i] assms(2,3) by auto
  then show ?thesis by (simp add: uint_word_of_int_eq take_bit_int_eq_self)
qed

section \<open>The state at the start\<close>

lemma uint_at_least_1:
  assumes "n \<noteq> 0"
  shows "1 \<le> uint (n :: u32)"
proof -
  have "uint n \<noteq> 0" using assms by (simp add: uint_0_iff)
  with uint_ge_0 [of n] show ?thesis by linarith
qed

lemma nat_alloc_state_wf:
  assumes "length bbs = unat n" "length kps = unat n" "length hs = unat n" "length cs = unat n"
    "length vs = unat n" "length elems = unat n" "length cells = unat n + 2" "length ts = unat n"
    and "map_allocate True (Some bbs) (Some kps) (Some hs) (Some cs) (Some vs) n 12 = Some fm"
    and "vector_allocate True (Some elems) zero n = Some fv"
    and "dchain_allocate True (Some cells) (Some ts) (uint n) = Inr (Some heap)"
    and "nat_alloc_state (Some fm) (Some fv) (Some heap) ints rules dev_count devices rule_list expiration
      = Some st"
  shows "nat_wf env n st [] [0..uint n - 1]"
proof -
  have "n \<noteq> 0" using assms(9) by (auto simp: map_allocate_def split: if_splits)
  then have n: "1 \<le> uint n" by (rule uint_at_least_1)
  have m: "map_wf (env_crc env) (vector_mem nat_flow_bytes fv) fm" "stored fm = {}"
    "map_capacity fm = n" "key_size fm = 12"
    using map_allocate_correct [OF assms(1-5,9)] by simp_all
  have v: "length (vec_data fv) = unat n"
    using vector_allocate_zeroed [OF assms(6), of zero] assms(10) by auto
  have l: "int (length cells) = uint n + 2" "int (length ts) = uint n" by (simp_all add: assms(7,8))
  from dchain_allocate_correct_blocks [OF n l] assms(11) have h: "chain_rep heap [] [0..uint n - 1]"
    by simp
  have "nat_fm st = fm" "nat_fv st = fv" "nat_heap st = heap"
    using assms(12) by (auto simp: nat_alloc_state_def split: option.splits)
  with m v h show ?thesis by (auto simp: nat_wf_def table_flows_def map_rep_def)
qed

definition zero_flow :: nat_flow where
  "zero_flow = \<lparr>fl_src_ip = 0, fl_dst_ip = 0, fl_src_port = 0, fl_dst_port = 0\<rparr>"

text \<open>A NAT with two devices, 0 internal and 1 external, over blocks full of zeroes.\<close>

definition fresh_nat :: "u32 \<Rightarrow> nat_state option" where
  "fresh_nat n =
     (case dchain_allocate True (Some (replicate (unat n + 2) \<lparr>dc_prev = 0, dc_next = 0\<rparr>))
         (Some (replicate (unat n) 0)) (uint n) of
        Inl e \<Rightarrow> None
      | Inr heap \<Rightarrow>
          nat_alloc_state
            (map_allocate True (Some (replicate (unat n) 0)) (Some (replicate (unat n) 0))
              (Some (replicate (unat n) 0)) (Some (replicate (unat n) 0))
              (Some (replicate (unat n) 0)) n 12)
            (vector_allocate True (Some (replicate (unat n) zero_flow)) zero_flow n)
            heap
            (vector_allocate True (Some [0, 0]) 0 2) (vector_allocate True (Some [0, 0]) 0 2)
            2 [0] [(0, 1), (1, 0)] 1000)"

lemma fresh_nat_wf:
  assumes "n \<noteq> 0" "compute_is_power_of_two (ucast n)"
  obtains st where "fresh_nat n = Some st" "nat_wf env n st [] [0..uint n - 1]"
    "has_devices st 0" "has_devices st 1" "internal_device st 0" "\<not> internal_device st 1"
    "output_device st 0 = 1" "output_device st 1 = 0" "nat_expiration_time st = 1000"
proof -
  have n: "1 \<le> uint n" using assms(1) by (rule uint_at_least_1)
  let ?cells = "replicate (unat n + 2) \<lparr>dc_prev = 0, dc_next = 0\<rparr>" and ?ts = "replicate (unat n) (0 :: int)"
  have "int (length ?cells) = uint n + 2" "int (length ?ts) = uint n" by simp_all
  from dchain_allocate_correct_blocks [OF n this] obtain heap where
    h: "dchain_allocate True (Some ?cells) (Some ?ts) (uint n) = Inr (Some heap)" by blast
  obtain fm where fm: "map_allocate True (Some (replicate (unat n) 0)) (Some (replicate (unat n) 0))
      (Some (replicate (unat n) 0)) (Some (replicate (unat n) 0)) (Some (replicate (unat n) 0)) n 12 =
      Some (fm :: int nf_map)"
    using assms by (simp add: map_allocate_def)
  obtain fv where fv: "vector_allocate True (Some (replicate (unat n) zero_flow)) zero_flow n = Some fv"
    using vector_allocate_zeroed [of "replicate (unat n) zero_flow" n zero_flow] by simp
  obtain st where st: "fresh_nat n = Some st"
    unfolding fresh_nat_def h fm fv by (simp add: nat_alloc_state_def vector_allocate_def)
  then have a: "nat_alloc_state (Some fm) (Some fv) (Some heap)
      (vector_allocate True (Some [0, 0]) 0 2) (vector_allocate True (Some [0, 0]) 0 2)
      2 [0] [(0, 1), (1, 0)] 1000 = Some st"
    unfolding fresh_nat_def h fm fv by simp
  have "nat_wf env n st [] [0..uint n - 1]"
    by (rule nat_alloc_state_wf [OF _ _ _ _ _ _ _ _ fm fv h a]) simp_all
  moreover have "vec_data (nat_int_devices st) = [1, 0]" "vec_data (nat_fwd_rules st) = [1, 0]"
    "nat_expiration_time st = 1000"
    using a by (auto simp: nat_alloc_state_def vector_allocate_def int_device_entry_def
        upt_rec numeral_2_eq_2)
  ultimately show thesis using st
    by (intro that) (simp_all add: has_devices_def internal_device_def output_device_def DROP_def)
qed

lemma nat_last_time_eq:
  assumes "0 \<le> time" "time < 2 ^ 63"
  shows "nat_last_time e time = time - uint e * 1000"
proof -
  have "uint e < 2 ^ LENGTH(32)" by (rule uint_bounded)
  then have "uint e * 1000 \<le> 2 ^ 63" by simp
  with assms show ?thesis by (simp only: nat_last_time_def) (rule u64_difference, simp_all)
qed

lemma nat_process_first:
  assumes "nat_wf env n st [] (f # F)" "0 \<le> now" "tcpudp_packet p" "has_devices st d"
    "internal_device st d"
  shows "\<exists>st1 p1. nat_process env st d now p = Some (Inr (st1, p1, output_device st d))"
proof -
  obtain st0 where st0: "nat_process env st d now p = Some (nat_translate env st0 d now p)"
    "nat_wf env n st0 [] (f # F)" "same_devices st st0"
    by (rule nat_process_expired [OF assms(1,2)]) (auto simp: expired_count_def)
  have dev: "has_devices st0 d" "internal_device st0 d" "output_device st0 d = output_device st d"
    using assms(4,5) st0(3) by (simp_all add: same_devices_devices)
  from st0(2) show ?thesis
  proof (cases rule: nat_internal_cases [where p = "headers_read p" and now = now])
    case (new g F' st')
    from nat_translate_read [OF dev(1) assms(3), of env now st'] dev(2,3) new(3,6) st0(1)
    show ?thesis by simp
  qed simp_all
qed

section \<open>Properties\<close>


text \<open>A UDP packet of 64 bytes.\<close>

definition udp_packet :: "u32 \<Rightarrow> u16 \<Rightarrow> u32 \<Rightarrow> u16 \<Rightarrow> packet" where
  "udp_packet src sport dst dport =
     \<lparr>pk_total_length = 64, pk_read_length = 0, pk_chunks_borrowed = 0, pk_ether_type = 8,
      pk_ip = \<lparr>ip_next_proto_id = 17, ip_src_addr = src, ip_dst_addr = dst, ip_hdr_checksum = 0\<rparr>,
      pk_l4 = \<lparr>l4_src_port = sport, l4_dst_port = dport, l4_tcp_cksum = 0, l4_udp_cksum = 0\<rparr>\<rparr>"

lemma udp_packet_tcpudp [simp]: "tcpudp_packet (udp_packet src sport dst dport)"
  by (simp add: udp_packet_def tcpudp_packet_def fresh_packet_def nf_has_ipv4_header_def
      nf_has_tcpudp_header_def)

lemma udp_packet_fresh [simp]: "fresh_packet (udp_packet src sport dst dport)"
  by (simp add: udp_packet_def fresh_packet_def)

definition sample_env :: nat_env where
  "sample_env = \<lparr>env_crc = (\<lambda>h x. h XOR x), env_ip_cksum = (\<lambda>_. 0), env_l4_cksum = (\<lambda>_ _. 0),
     env_external_addr = 99\<rparr>"

lemma full_port_table:
  obtains st F where "fresh_nat 65536 = Some st" "nat_wf sample_env 65536 st [] (0 # F)"
    "has_devices st 0" "has_devices st 1" "internal_device st 0" "\<not> internal_device st 1"
    "output_device st 0 = 1" "output_device st 1 = 0" "nat_expiration_time st = 1000"
proof -
  have p: "compute_is_power_of_two (ucast (65536 :: u32))"
    by (simp add: compute_is_power_of_two_def)
  have "0 \<le> uint (65536 :: u32) - 1" by simp
  then have u: "[0..uint (65536 :: u32) - 1] = 0 # [0 + 1..uint (65536 :: u32) - 1]"
    by (rule upto_rec1)
  have z: "(65536 :: u32) \<noteq> 0" by simp
  show thesis
    by (rule fresh_nat_wf [OF z p, of sample_env, unfolded u]) (rule that)
qed


text \<open>C31. A reply reaches the sender: if a packet from an internal device is forwarded, then a packet
  from its destination to the address and port it left with, before the flow expires, is
  forwarded with the sender's address and port as destination.\<close>

theorem nat_reply_reaches_sender:
  assumes "nat_wf env n st L F" "uint n \<le> 65536" "0 \<le> t" "0 \<le> t'" "t' < 2 ^ 63"
    and "tcpudp_packet p" "has_devices st d" "internal_device st d"
    and "nat_process env st d t p = Some (Inr (st1, p1, out))" "out \<noteq> DROP"
    and "tcpudp_packet q" "has_devices st e" "\<not> internal_device st e"
    and "l4_dst_port (pk_l4 q) = l4_src_port (pk_l4 p1)"
    and "ip_src_addr (pk_ip q) = ip_dst_addr (pk_ip p)"
    and "l4_src_port (pk_l4 q) = l4_dst_port (pk_l4 p)"
    and "t' \<le> t + uint (nat_expiration_time st) * 1000"
  shows "\<exists>st2 q1. nat_process env st1 e t' q = Some (Inr (st2, q1, output_device st e)) \<and>
    ip_dst_addr (pk_ip q1) = ip_src_addr (pk_ip p) \<and>
    l4_dst_port (pk_l4 q1) = l4_src_port (pk_l4 p)"
proof -
  obtain i A F1 where s1: "nat_wf env n st1 (A @ [(i, t)]) F1" "nat_flow_at st1 i = outgoing_flow p"
    "l4_src_port (pk_l4 p1) = word_of_int i" "same_devices st st1"
    by (rule nat_process_outgoing [OF assms(1,3,6-10)])
  let ?time = "nat_last_time (nat_expiration_time st1) t'"
  have "\<not> t < ?time"
    using nat_last_time_eq [OF assms(4,5)] s1(4) assms(17) by (simp add: same_devices_def)
  from drop_expired_last [OF this] obtain B where
    B: "drop (expired_count ?time (A @ [(i, t)])) (A @ [(i, t)]) = B @ [(i, t)]" by blast
  obtain st0 F0 where st0: "nat_process env st1 e t' q = Some (nat_translate env st0 e t' q)"
    "nat_wf env n st0 (B @ [(i, t)]) F0" "nat_fv st0 = nat_fv st1" "same_devices st1 st0"
    by (rule nat_process_expired [OF s1(1) assms(4), unfolded B])
  have dev: "has_devices st0 e" "\<not> internal_device st0 e" "output_device st0 e = output_device st e"
    using same_devices_trans [OF s1(4) st0(4)] assms(12,13) by (simp_all add: same_devices_devices)
  have port: "uint (l4_dst_port (pk_l4 q)) = i"
    using port_of_index [OF s1(1) _ assms(2), of i] assms(14) s1(3) by simp
  have i: "i \<in> set (ids (B @ [(i, t)]))" "nat_flow_at st0 i = outgoing_flow p"
    using s1(2) st0(3) by simp_all
  have lt: "uint (l4_dst_port (pk_l4 (headers_read q))) < uint n"
    using nat_wf_range [OF st0(2), of i] i(1) by (simp add: port)
  from st0(2) lt show ?thesis
  proof (cases rule: nat_external_cases [where now = t'])
    case (accepted st')
    note accepted = accepted [unfolded headers_read_fields port]
    from nat_translate_read [OF dev(1) assms(11), of env t' st'] dev(2,3) accepted(4,7) st0(1) i(2)
    show ?thesis by (auto simp: incoming_packet_def outgoing_flow_def)
  next
    case (dropped st' L')
    note dropped = dropped [unfolded headers_read_fields port]
    from dropped(1) i assms(15,16) show ?thesis by (simp add: outgoing_flow_def)
  qed
qed

lemma udp_packet_fields [simp]:
  "ip_src_addr (pk_ip (udp_packet src sport dst dport)) = src"
  "ip_dst_addr (pk_ip (udp_packet src sport dst dport)) = dst"
  "l4_src_port (pk_l4 (udp_packet src sport dst dport)) = sport"
  "l4_dst_port (pk_l4 (udp_packet src sport dst dport)) = dport"
  by (simp_all add: udp_packet_def)

text \<open>The first packet a fresh NAT forwards, for the examples.\<close>

lemma first_packet:
  obtains st st1 p1 F where "fresh_nat 65536 = Some st" "nat_wf sample_env 65536 st [] (0 # F)"
    "has_devices st 0" "has_devices st 1" "internal_device st 0" "\<not> internal_device st 1"
    "output_device st 0 = 1" "output_device st 1 = 0" "nat_expiration_time st = 1000"
    "nat_process sample_env st 0 5 (udp_packet 10 1000 20 53) = Some (Inr (st1, p1, 1))"
proof -
  obtain st F where st: "fresh_nat 65536 = Some st" "nat_wf sample_env 65536 st [] (0 # F)"
    "has_devices st 0" "has_devices st 1" "internal_device st 0" "\<not> internal_device st 1"
    "output_device st 0 = 1" "output_device st 1 = 0" "nat_expiration_time st = 1000"
    by (rule full_port_table)
  have "(0 :: int) \<le> 5" by simp
  from nat_process_first [OF st(2) this udp_packet_tcpudp st(3,5), of 10 1000 20 53] st(7)
  obtain st1 p1 where
    "nat_process sample_env st 0 5 (udp_packet 10 1000 20 53) = Some (Inr (st1, p1, 1))" by auto
  with st show thesis by (rule that)
qed

theorem nat_reply_reaches_sender_witness:
  "\<exists>st st1 p1 st2 q1. fresh_nat 65536 = Some st \<and>
     nat_process sample_env st 0 5 (udp_packet 10 1000 20 53) = Some (Inr (st1, p1, 1)) \<and>
     nat_process sample_env st1 1 6 (udp_packet 20 53 99 (l4_src_port (pk_l4 p1))) =
       Some (Inr (st2, q1, 0)) \<and>
     ip_dst_addr (pk_ip q1) = 10 \<and> l4_dst_port (pk_l4 q1) = 1000"
proof -
  obtain st st1 p1 F where st: "fresh_nat 65536 = Some st" "nat_wf sample_env 65536 st [] (0 # F)"
    "has_devices st 0" "has_devices st 1" "internal_device st 0" "\<not> internal_device st 1"
    "output_device st 0 = 1" "output_device st 1 = 0" "nat_expiration_time st = 1000"
    "nat_process sample_env st 0 5 (udp_packet 10 1000 20 53) = Some (Inr (st1, p1, 1))"
    by (rule first_packet)
  have "(1 :: u16) \<noteq> DROP" by (simp add: DROP_def)
  from nat_reply_reaches_sender [OF st(2) _ _ _ _ udp_packet_tcpudp st(3,5,10) this
      udp_packet_tcpudp st(4,6), of 6 20 53 99 "l4_src_port (pk_l4 p1)"] st(8,9)
  have "\<exists>st2 q1. nat_process sample_env st1 1 6 (udp_packet 20 53 99 (l4_src_port (pk_l4 p1))) =
       Some (Inr (st2, q1, 0)) \<and> ip_dst_addr (pk_ip q1) = 10 \<and> l4_dst_port (pk_l4 q1) = 1000"
    by simp
  with st(1,10) show ?thesis by blast
qed

text \<open>A flow keeps its external port: a later packet of the same flow, before the flow
  expires, is forwarded with the same source port.\<close>

lemma nat_port_stable:
  assumes "nat_wf env n st L F" "0 \<le> t" "0 \<le> t'" "t' < 2 ^ 63"
    and "tcpudp_packet p" "has_devices st d" "internal_device st d"
    and "nat_process env st d t p = Some (Inr (st1, p1, out))" "out \<noteq> DROP"
    and "tcpudp_packet q" "outgoing_flow q = outgoing_flow p"
    and "has_devices st e" "internal_device st e"
    and "t' \<le> t + uint (nat_expiration_time st) * 1000"
  shows "\<exists>st2 q1. nat_process env st1 e t' q = Some (Inr (st2, q1, output_device st e)) \<and>
    l4_src_port (pk_l4 q1) = l4_src_port (pk_l4 p1)"
proof -
  obtain i A F1 where s1: "nat_wf env n st1 (A @ [(i, t)]) F1" "nat_flow_at st1 i = outgoing_flow p"
    "l4_src_port (pk_l4 p1) = word_of_int i" "same_devices st st1"
    by (rule nat_process_outgoing [OF assms(1,2,5-9)])
  let ?time = "nat_last_time (nat_expiration_time st1) t'"
  have "\<not> t < ?time"
    using nat_last_time_eq [OF assms(3,4)] s1(4) assms(14) by (simp add: same_devices_def)
  from drop_expired_last [OF this] obtain B where
    B: "drop (expired_count ?time (A @ [(i, t)])) (A @ [(i, t)]) = B @ [(i, t)]" by blast
  obtain st0 F0 where st0: "nat_process env st1 e t' q = Some (nat_translate env st0 e t' q)"
    "nat_wf env n st0 (B @ [(i, t)]) F0" "nat_fv st0 = nat_fv st1" "same_devices st1 st0"
    by (rule nat_process_expired [OF s1(1) assms(3), unfolded B])
  have dev: "has_devices st0 e" "internal_device st0 e" "output_device st0 e = output_device st e"
    using same_devices_trans [OF s1(4) st0(4)] assms(12,13) by (simp_all add: same_devices_devices)
  have i: "i \<in> set (ids (B @ [(i, t)]))" "nat_flow_at st0 i = outgoing_flow q"
    using s1(2) st0(3) assms(11) by simp_all
  from st0(2) show ?thesis
  proof (cases rule: nat_internal_cases [where p = "headers_read q" and now = t'])
    case (known j st')
    have wf: "table_flows chain_rep (map_rep (env_crc env) n 12) (unat n) nat_flow_bytes
      (nat_heap st0) (nat_fv st0) (nat_fm st0) (B @ [(i, t)]) F0" using st0(2) by (simp add: nat_wf_def)
    have "j = i" using nat_flows.tab.flows_keys_distinct [OF wf known(1) i(1)] known(2) i(2) by simp
    with nat_translate_read [OF dev(1) assms(10), of env t' st'] dev(2,3) known(3,6) st0(1) s1(3)
    show ?thesis by (simp add: outgoing_packet_def)
  next
    case (new f F' st')
    then show ?thesis using i by simp
  next
    case (full st')
    then show ?thesis using i by simp
  qed
qed

lemma nat_port_stable_witness:
  "\<exists>st st1 p1 st2 q1. fresh_nat 65536 = Some st \<and>
     nat_process sample_env st 0 5 (udp_packet 10 1000 20 53) = Some (Inr (st1, p1, 1)) \<and>
     nat_process sample_env st1 0 6 (udp_packet 10 1000 20 53) = Some (Inr (st2, q1, 1)) \<and>
     l4_src_port (pk_l4 q1) = l4_src_port (pk_l4 p1)"
proof -
  obtain st st1 p1 F where st: "fresh_nat 65536 = Some st" "nat_wf sample_env 65536 st [] (0 # F)"
    "has_devices st 0" "has_devices st 1" "internal_device st 0" "\<not> internal_device st 1"
    "output_device st 0 = 1" "output_device st 1 = 0" "nat_expiration_time st = 1000"
    "nat_process sample_env st 0 5 (udp_packet 10 1000 20 53) = Some (Inr (st1, p1, 1))"
    by (rule first_packet)
  have "(1 :: u16) \<noteq> DROP" by (simp add: DROP_def)
  from nat_port_stable [OF st(2) _ _ _ udp_packet_tcpudp st(3,5,10) this udp_packet_tcpudp refl
      st(3,5), of 6] st(7,9)
  have "\<exists>st2 q1. nat_process sample_env st1 0 6 (udp_packet 10 1000 20 53) =
       Some (Inr (st2, q1, 1)) \<and> l4_src_port (pk_l4 q1) = l4_src_port (pk_l4 p1)" by simp
  with st(1,10) show ?thesis by blast
qed

text \<open>A packet from outside that no flow is waiting for is dropped, and its addresses and ports
  are left as they were.\<close>

lemma nat_drops_unsolicited:
  assumes "nat_wf env n st L F" "0 \<le> t" "tcpudp_packet q" "has_devices st e"
    "\<not> internal_device st e"
  defines "i \<equiv> uint (l4_dst_port (pk_l4 q))"
  assumes "i < uint n"
    and "\<not> (i \<in> set (ids L) \<and> fl_dst_ip (nat_flow_at st i) = ip_src_addr (pk_ip q) \<and>
      fl_dst_port (nat_flow_at st i) = l4_src_port (pk_l4 q))"
  shows "\<exists>st'. nat_process env st e t q = Some (Inr (st', headers_read q, DROP))"
proof -
  let ?k = "expired_count (nat_last_time (nat_expiration_time st) t) L"
  obtain st0 where st0: "nat_process env st e t q = Some (nat_translate env st0 e t q)"
    "nat_wf env n st0 (drop ?k L) (rev (ids (take ?k L)) @ F)" "nat_fv st0 = nat_fv st"
    "same_devices st st0" by (rule nat_process_expired [OF assms(1,2)])
  have dev: "has_devices st0 e" "\<not> internal_device st0 e"
    using assms(4,5) st0(4) by (simp_all add: same_devices_devices)
  have sub: "set (ids (drop ?k L)) \<subseteq> set (ids L)" by (auto dest: in_set_dropD)
  have lt: "uint (l4_dst_port (pk_l4 (headers_read q))) < uint n" using assms(7) by (simp add: i_def)
  from st0(2) lt show ?thesis
  proof (cases rule: nat_external_cases [where now = t])
    case (accepted st')
    with sub assms(8) st0(3) show ?thesis by (auto simp: i_def)
  next
    case (dropped st' L')
    from nat_translate_read [OF dev(1) assms(3), of env t st'] dev(2) dropped(2,5) st0(1)
    show ?thesis by simp
  qed
qed

lemma nat_drops_unsolicited_witness:
  "\<exists>st st'. fresh_nat 65536 = Some st \<and>
     nat_process sample_env st 1 5 (udp_packet 20 53 99 4660) =
       Some (Inr (st', headers_read (udp_packet 20 53 99 4660), DROP))"
proof -
  obtain st F where st: "fresh_nat 65536 = Some st" "nat_wf sample_env 65536 st [] (0 # F)"
    "has_devices st 1" "\<not> internal_device st 1" by (rule full_port_table)
  have lt: "uint (l4_dst_port (pk_l4 (udp_packet 20 53 99 4660))) < uint (65536 :: u32)" by simp
  from nat_drops_unsolicited [OF st(2) _ udp_packet_tcpudp st(3,4) lt, of 5] st(1) show ?thesis by auto
qed

text \<open>Expiration ends and is exact: the loop returns, and of the flows, ordered by their last use,
  it keeps those used within the expiration time, given in microseconds, and no other.\<close>

lemma nat_expire_exact:
  assumes "nat_wf env n st L F" "sorted (map snd L)" "0 \<le> now" "now < 2 ^ 63"
  shows "\<exists>st' F'. nat_expire env st now = Some (Inr st') \<and>
    nat_wf env n st' (filter (\<lambda>(i, s). now - uint (nat_expiration_time st) * 1000 \<le> s) L) F' \<and>
    nat_fv st' = nat_fv st"
  using nat_expire_correct [OF assms(1,3)]
  unfolding nat_flows.expired_sorted [OF assms(2)] nat_last_time_eq [OF assms(3,4)] by blast

lemma nat_expire_exact_witness:
  "\<exists>st st1 F1 st2 F2. fresh_nat 65536 = Some st \<and> nat_wf sample_env 65536 st1 [(0, 5)] F1 \<and>
     nat_expire sample_env st1 2000000 = Some (Inr st2) \<and> nat_wf sample_env 65536 st2 [] F2"
proof -
  obtain st F where st: "fresh_nat 65536 = Some st" "nat_wf sample_env 65536 st [] (0 # F)"
    "nat_expiration_time st = 1000" by (rule full_port_table)
  obtain st1 F1 where st1: "nat_wf sample_env 65536 st1 [(0, 5)] F1" "same_devices st st1"
    using st(2)
  proof (cases rule: nat_internal_cases [where now = 5 and p = "udp_packet 10 1000 20 53"])
    case (new f F' st')
    with that show ?thesis by simp
  qed simp_all
  have e: "nat_expiration_time st1 = 1000" using st(3) st1(2) by (simp add: same_devices_def)
  from nat_expire_exact [OF st1(1), of 2000000] st(1) st1(1) show ?thesis unfolding e by auto
qed

text \<open>C38. With fewer than 65536 flows, a packet from outside whose destination port is not below their
  number makes the NAT read outside the allocator's cells.\<close>

theorem nat_port_outside_table:
  assumes "nat_wf env n st L F" "0 \<le> t" "tcpudp_packet q" "has_devices st e"
    "\<not> internal_device st e" "uint n \<le> uint (l4_dst_port (pk_l4 q))"
  shows "nat_process env st e t q = Some (Inl Undefined)"
proof -
  obtain st0 L0 F0 where st0: "nat_process env st e t q = Some (nat_translate env st0 e t q)"
    "nat_wf env n st0 L0 F0" "same_devices st st0" by (rule nat_process_expired [OF assms(1,2)])
  have dev: "has_devices st0 e" "\<not> internal_device st0 e"
    using assms(4,5) st0(3) by (simp_all add: same_devices_devices)
  have x: "nat_external env st0 t (headers_read q) = Inl Undefined"
    using nat_get_external_outside [OF st0(2) assms(6), of t] by (simp add: nat_external_def)
  from tcpudp_packet_headers [OF assms(3)] obtain p1 p2 where
    "nf_then_get_ether_header q = Inr p1" "nf_then_get_ipv4_header p1 = Inr (Some p2)"
      "nf_then_get_tcpudp_header p2 = Inr (Some (headers_read q))" by blast
  with x has_devices_run(1) [OF dev(1)] dev(2) st0(1) show ?thesis by (simp add: nat_translate_def)
qed

theorem nat_port_outside_table_witness:
  "\<exists>st. fresh_nat 8 = Some st \<and>
     nat_process sample_env st 1 5 (udp_packet 20 53 99 4660) = Some (Inl Undefined)"
proof -
  have p: "(8 :: u32) \<noteq> 0" "compute_is_power_of_two (ucast (8 :: u32))"
    by (simp_all add: compute_is_power_of_two_def)
  obtain st where st: "fresh_nat 8 = Some st" "nat_wf sample_env 8 st [] [0..uint (8 :: u32) - 1]"
    "has_devices st 1" "\<not> internal_device st 1" by (rule fresh_nat_wf [OF p, of sample_env])
  have "uint (8 :: u32) \<le> uint (l4_dst_port (pk_l4 (udp_packet 20 53 99 4660)))" by simp
  from nat_port_outside_table [OF st(2) _ udp_packet_tcpudp st(3,4) this, of 5] st(1) show ?thesis by simp
qed

end
