(* ===== verification/Firewall.thy ===== *)
theory Firewall
  imports FlowTable NFPacket NatFlows
begin

text \<open>
  The firewall, \<^verbatim>\<open>dpdk-nfs/fw\<close>. Packets from internal devices leave and open their flow;
  packets from outside enter when they reply to a flow that is open. A flow's key is a C
  structure of 13 bytes that the compiler pads to 16: the padding is whatever the stack held, so
  it is a parameter of the processing of a packet.
\<close>

section \<open>State\<close>

record fw_flow =
  fw_src_port :: u16
  fw_dst_port :: u16
  fw_src_ip :: u32
  fw_dst_ip :: u32
  fw_protocol :: u8
  fw_padding :: "u8 \<times> u8 \<times> u8"

definition fw_flow_bytes :: "fw_flow \<Rightarrow> bytes" where
  "fw_flow_bytes f =
     bytes16 (fw_src_port f) @ bytes16 (fw_dst_port f) @ bytes32 (fw_src_ip f) @
     bytes32 (fw_dst_ip f) @ [fw_protocol f] @
     (case fw_padding f of (a, b, c) \<Rightarrow> [a, b, c])"

record fw_state =
  fw_fm :: "int nf_map"
  fw_fv :: "fw_flow nf_vector"
  fw_heap :: double_chain
  fw_int_devices :: "int nf_vector"
  fw_fwd_rules :: "u16 nf_vector"
  fw_expiration_time :: int

text \<open>The configured microseconds are multiplied as 32-bit numbers.\<close>

definition fw_expiration :: "u32 \<Rightarrow> int" where
  "fw_expiration configured = uint (configured * 1000)"

definition fw_alloc_state ::
  "int nf_map option \<Rightarrow> fw_flow nf_vector option \<Rightarrow> double_chain option \<Rightarrow> int nf_vector option \<Rightarrow>
     u16 nf_vector option \<Rightarrow> nat \<Rightarrow> u16 list \<Rightarrow> (u16 \<times> u16) list \<Rightarrow> u32 \<Rightarrow> fw_state option"
where
  "fw_alloc_state fm fv heap ints rules dev_count devices rule_list configured =
     (case (fm, fv, heap, ints, rules) of
        (Some fm, Some fv, Some heap, Some ints, Some rules) \<Rightarrow>
          Some \<lparr>fw_fm = fm, fw_fv = fv, fw_heap = heap,
                fw_int_devices = ints\<lparr>vec_data := map (int_device_entry devices) [0..<dev_count]\<rparr>,
                fw_fwd_rules = rules\<lparr>vec_data := map (fwd_rule_entry rule_list) [0..<dev_count]\<rparr>,
                fw_expiration_time = fw_expiration configured\<rparr>
      | _ \<Rightarrow> None)"

section \<open>Flow manager\<close>

definition fw_allocate_or_refresh_flow ::
  "(u32 \<Rightarrow> u32 \<Rightarrow> u32) \<Rightarrow> fw_state \<Rightarrow> fw_flow \<Rightarrow> int \<Rightarrow> fw_state result"
where
  "fw_allocate_or_refresh_flow crc st flow time =
     (case map_get crc (vector_mem fw_flow_bytes (fw_fv st)) (fw_fm st) (fw_flow_bytes flow) of
        Some index \<Rightarrow>
          rbind (dchain_rejuvenate_index (fw_heap st) index time) (\<lambda>(heap, _).
          Inr (st\<lparr>fw_heap := heap\<rparr>))
      | None \<Rightarrow>
          rbind (dchain_allocate_new_index (fw_heap st) time) (\<lambda>(heap, ret).
          case ret of
            None \<Rightarrow> Inr (st\<lparr>fw_heap := heap\<rparr>)
          | Some index \<Rightarrow>
              rbind (vector_write (fw_fv st) index flow) (\<lambda>fv.
              rbind (map_put crc (vector_mem fw_flow_bytes fv) (fw_fm st) index index) (\<lambda>fm.
              Inr (st\<lparr>fw_fm := fm, fw_fv := fv, fw_heap := heap\<rparr>)))))"

definition fw_last_time :: "int \<Rightarrow> int \<Rightarrow> int" where
  "fw_last_time expiration_time time =
     sint ((word_of_int time :: u64) - word_of_int expiration_time)"

definition fw_expire :: "(u32 \<Rightarrow> u32 \<Rightarrow> u32) \<Rightarrow> fw_state \<Rightarrow> int \<Rightarrow> fw_state result option" where
  "fw_expire crc st time =
     (if time < 0 then Some (Inl Assert_Failed)
      else
        map_option
          (\<lambda>r. rbind r (\<lambda>(heap, fm, count). Inr (st\<lparr>fw_heap := heap, fw_fm := fm\<rparr>)))
          (expire_items_single_map crc fw_flow_bytes (fw_heap st) (fw_fv st) (fw_fm st)
            (fw_last_time (fw_expiration_time st) time)))"

definition fw_get_refresh_flow ::
  "(u32 \<Rightarrow> u32 \<Rightarrow> u32) \<Rightarrow> fw_state \<Rightarrow> fw_flow \<Rightarrow> int \<Rightarrow> (fw_state \<times> bool) result"
where
  "fw_get_refresh_flow crc st flow time =
     (case map_get crc (vector_mem fw_flow_bytes (fw_fv st)) (fw_fm st) (fw_flow_bytes flow) of
        None \<Rightarrow> Inr (st, False)
      | Some index \<Rightarrow>
          rbind (dchain_rejuvenate_index (fw_heap st) index time) (\<lambda>(heap, _).
          Inr (st\<lparr>fw_heap := heap\<rparr>, True)))"

section \<open>Packets\<close>

definition fw_outgoing_flow :: "u8 \<times> u8 \<times> u8 \<Rightarrow> packet \<Rightarrow> fw_flow" where
  "fw_outgoing_flow padding p =
     \<lparr>fw_src_port = l4_src_port (pk_l4 p), fw_dst_port = l4_dst_port (pk_l4 p),
      fw_src_ip = ip_src_addr (pk_ip p), fw_dst_ip = ip_dst_addr (pk_ip p),
      fw_protocol = ip_next_proto_id (pk_ip p), fw_padding = padding\<rparr>"

definition fw_reply_flow :: "u8 \<times> u8 \<times> u8 \<Rightarrow> packet \<Rightarrow> fw_flow" where
  "fw_reply_flow padding p =
     \<lparr>fw_src_port = l4_dst_port (pk_l4 p), fw_dst_port = l4_src_port (pk_l4 p),
      fw_src_ip = ip_dst_addr (pk_ip p), fw_dst_ip = ip_src_addr (pk_ip p),
      fw_protocol = ip_next_proto_id (pk_ip p), fw_padding = padding\<rparr>"

text \<open>The body after the flows have expired.\<close>

definition fw_filter ::
  "(u32 \<Rightarrow> u32 \<Rightarrow> u32) \<Rightarrow> fw_state \<Rightarrow> u16 \<Rightarrow> int \<Rightarrow> u8 \<times> u8 \<times> u8 \<Rightarrow> packet \<Rightarrow>
     (fw_state \<times> packet \<times> u16) result"
where
  "fw_filter crc st device now padding p =
     rbind (nf_then_get_ether_header p) (\<lambda>p.
     rbind (nf_then_get_ipv4_header p) (\<lambda>ip.
     case ip of
       None \<Rightarrow> Inr (st, p, DROP)
     | Some p \<Rightarrow>
         rbind (nf_then_get_tcpudp_header p) (\<lambda>l4.
         case l4 of
           None \<Rightarrow> Inr (st, p, DROP)
         | Some p \<Rightarrow>
             rbind (is_internal (fw_int_devices st) device) (\<lambda>internal.
             if internal then
               rbind (fw_allocate_or_refresh_flow crc st (fw_outgoing_flow padding p) now) (\<lambda>st.
               rbind (get_dst_dev (fw_fwd_rules st) device) (\<lambda>dst. Inr (st, p, dst)))
             else
               rbind (fw_get_refresh_flow crc st (fw_reply_flow padding p) now) (\<lambda>(st, found).
               if \<not> found then Inr (st, p, DROP)
               else rbind (get_dst_dev (fw_fwd_rules st) device) (\<lambda>dst. Inr (st, p, dst)))))))"

definition fw_process ::
  "(u32 \<Rightarrow> u32 \<Rightarrow> u32) \<Rightarrow> fw_state \<Rightarrow> u16 \<Rightarrow> int \<Rightarrow> u8 \<times> u8 \<times> u8 \<Rightarrow> packet \<Rightarrow>
     (fw_state \<times> packet \<times> u16) result option"
where
  "fw_process crc st device now padding p =
     map_option (\<lambda>r. rbind r (\<lambda>st. fw_filter crc st device now padding p)) (fw_expire crc st now)"

section \<open>The invariant\<close>

lemma fw_flow_bytes_length [simp]: "length (fw_flow_bytes f) = 16"
  by (simp add: fw_flow_bytes_def split: prod.splits)

lemma fw_flow_bytes_inj: "fw_flow_bytes f = fw_flow_bytes g \<Longrightarrow> f = g"
  by (cases f; cases g) (simp add: fw_flow_bytes_def split: prod.splits)

interpretation fw_flows: nf_flows crc capacity 16 fw_flow_bytes for crc capacity
  by unfold_locales (simp add: fw_flow_bytes_inj)

definition fw_wf :: "(u32 \<Rightarrow> u32 \<Rightarrow> u32) \<Rightarrow> u32 \<Rightarrow> fw_state \<Rightarrow> aged \<Rightarrow> int list \<Rightarrow> bool" where
  "fw_wf crc n st L F \<longleftrightarrow>
     table_flows chain_rep (map_rep crc n 16) (unat n) fw_flow_bytes
       (fw_heap st) (fw_fv st) (fw_fm st) L F \<and>
     length (vec_data (fw_fv st)) = unat n"

abbreviation fw_flow_at :: "fw_state \<Rightarrow> int \<Rightarrow> fw_flow" where
  "fw_flow_at st i \<equiv> vec_data (fw_fv st) ! nat i"

definition fw_same_devices :: "fw_state \<Rightarrow> fw_state \<Rightarrow> bool" where
  "fw_same_devices st st' \<longleftrightarrow>
     fw_int_devices st' = fw_int_devices st \<and> fw_fwd_rules st' = fw_fwd_rules st \<and>
     fw_expiration_time st' = fw_expiration_time st"

lemma fw_same_devices_refl [simp]: "fw_same_devices st st"
  by (simp add: fw_same_devices_def)

lemma fw_same_devices_trans: "fw_same_devices a b \<Longrightarrow> fw_same_devices b c \<Longrightarrow> fw_same_devices a c"
  by (simp add: fw_same_devices_def)

lemma fw_wfD:
  "fw_wf crc n st L F \<Longrightarrow>
     table_flows chain_rep (map_rep crc n 16) (unat n) fw_flow_bytes
       (fw_heap st) (fw_fv st) (fw_fm st) L F"
  by (simp add: fw_wf_def)

section \<open>Behaviour of the flow manager\<close>

lemma fw_expire_correct:
  assumes "fw_wf crc n st L F" "0 \<le> now"
  defines "k \<equiv> expired_count (fw_last_time (fw_expiration_time st) now) L"
  shows "\<exists>st'. fw_expire crc st now = Some (Inr st') \<and>
    fw_wf crc n st' (drop k L) (rev (ids (take k L)) @ F) \<and>
    fw_fv st' = fw_fv st \<and> fw_same_devices st st'"
proof -
  let ?t = "fw_last_time (fw_expiration_time st) now"
  from fw_flows.expire_items_correct [OF fw_wfD [OF assms(1)], of ?t] obtain d' m' where
    "expire_items_single_map crc fw_flow_bytes (fw_heap st) (fw_fv st) (fw_fm st) ?t =
      Some (Inr (d', m', int k))"
    "table_flows chain_rep (map_rep crc n 16) (unat n) fw_flow_bytes
      d' (fw_fv st) m' (drop k L) (rev (ids (take k L)) @ F)" by (auto simp: k_def)
  with assms(1,2) show ?thesis
    by (intro exI [of _ "st\<lparr>fw_heap := d', fw_fm := m'\<rparr>"])
      (simp add: fw_expire_def fw_wf_def fw_same_devices_def)
qed

text \<open>
  An outgoing flow ends up in the table, used now and last, whenever the table knows it or has a
  free index; a full table is left as it is.
\<close>

lemma fw_refresh_known:
  assumes "fw_wf crc n st L F" "i \<in> set (ids L)" "fw_flow_at st i = flow"
  shows "\<exists>st'. fw_allocate_or_refresh_flow crc st flow now = Inr st' \<and>
    fw_get_refresh_flow crc st flow now = Inr (st', True) \<and>
    fw_wf crc n st' (forget i L @ [(i, now)]) F \<and> fw_fv st' = fw_fv st \<and> fw_same_devices st st'"
proof -
  note f = fw_wfD [OF assms(1)]
  have g: "map_get crc (vector_mem fw_flow_bytes (fw_fv st)) (fw_fm st) (fw_flow_bytes flow) = Some i"
    using fw_flows.tab.get_flow [OF f, of flow i] assms(2,3) by simp
  from fw_flows.tab.rejuvenate_flow [OF f assms(2), of now] obtain d' where
    "dchain_rejuvenate_index (fw_heap st) i now = Inr (d', True)"
    "table_flows chain_rep (map_rep crc n 16) (unat n) fw_flow_bytes
      d' (fw_fv st) (fw_fm st) (forget i L @ [(i, now)]) F" by blast
  with g assms(1) show ?thesis
    by (intro exI [of _ "st\<lparr>fw_heap := d'\<rparr>"])
      (simp add: fw_allocate_or_refresh_flow_def fw_get_refresh_flow_def fw_wf_def
        fw_same_devices_def)
qed

lemma fw_get_unknown:
  assumes "fw_wf crc n st L F" "\<forall>i \<in> set (ids L). fw_flow_at st i \<noteq> flow"
  shows "map_get crc (vector_mem fw_flow_bytes (fw_fv st)) (fw_fm st) (fw_flow_bytes flow) = None"
  using fw_flows.tab.get_flow_None [OF fw_wfD [OF assms(1)], of flow] assms(2) by simp

lemma fw_allocate_new:
  assumes "fw_wf crc n st L (f # F)" "\<forall>i \<in> set (ids L). fw_flow_at st i \<noteq> flow"
  shows "\<exists>st'. fw_allocate_or_refresh_flow crc st flow now = Inr st' \<and>
    fw_wf crc n st' (L @ [(f, now)]) F \<and> fw_flow_at st' f = flow \<and> fw_same_devices st st'"
proof -
  note t = fw_wfD [OF assms(1)]
  let ?fv = "(fw_fv st)\<lparr>vec_data := (vec_data (fw_fv st))[nat f := flow]\<rparr>"
  from fw_flows.tab.insert_flow [OF t assms(2), of now] obtain d' m' where
    d': "dchain_allocate_new_index (fw_heap st) now = Inr (d', Some f)"
    "vector_write (fw_fv st) f flow = Inr ?fv"
    "map_put crc (vector_mem fw_flow_bytes ?fv) (fw_fm st) f f = Inr m'"
    "table_flows chain_rep (map_rep crc n 16) (unat n) fw_flow_bytes
      d' ?fv m' (L @ [(f, now)]) F" by blast
  have "0 \<le> f" "f < int (length (vec_data (fw_fv st)))"
    using fw_flows.tab.flows_range [OF t, of f] by simp_all
  then have "nat f < length (vec_data (fw_fv st))" by (simp add: nat_less_iff)
  with d' assms(1) fw_get_unknown [OF assms] show ?thesis
    by (intro exI [of _ "st\<lparr>fw_fm := m', fw_fv := ?fv, fw_heap := d'\<rparr>"])
      (simp add: fw_allocate_or_refresh_flow_def fw_wf_def fw_same_devices_def)
qed

lemma fw_allocate_full:
  assumes "fw_wf crc n st L []" "\<forall>i \<in> set (ids L). fw_flow_at st i \<noteq> flow"
  shows "\<exists>st'. fw_allocate_or_refresh_flow crc st flow now = Inr st' \<and> fw_wf crc n st' L [] \<and>
    fw_same_devices st st'"
proof -
  from fw_flows.tab.insert_full [OF fw_wfD [OF assms(1)], of now] obtain d' where
    "dchain_allocate_new_index (fw_heap st) now = Inr (d', None)"
    "table_flows chain_rep (map_rep crc n 16) (unat n) fw_flow_bytes
      d' (fw_fv st) (fw_fm st) L []" by blast
  with assms(1) fw_get_unknown [OF assms] show ?thesis
    by (intro exI [of _ "st\<lparr>fw_heap := d'\<rparr>"])
      (simp add: fw_allocate_or_refresh_flow_def fw_wf_def fw_same_devices_def)
qed

lemma fw_outgoing_cases:
  assumes "fw_wf crc n st L F"
  obtains
    (tracked) i A F' st' where "fw_allocate_or_refresh_flow crc st flow now = Inr st'"
      "fw_wf crc n st' (A @ [(i, now)]) F'" "fw_flow_at st' i = flow" "fw_same_devices st st'"
  | (full) st' where "F = []" "\<forall>i \<in> set (ids L). fw_flow_at st i \<noteq> flow"
      "fw_allocate_or_refresh_flow crc st flow now = Inr st'" "fw_wf crc n st' L []"
      "fw_same_devices st st'"
proof (cases "\<exists>i \<in> set (ids L). fw_flow_at st i = flow")
  case True
  then obtain i where i: "i \<in> set (ids L)" "fw_flow_at st i = flow" by blast
  from fw_refresh_known [OF assms i, of now] obtain st' where
    "fw_allocate_or_refresh_flow crc st flow now = Inr st'"
    "fw_wf crc n st' (forget i L @ [(i, now)]) F" "fw_fv st' = fw_fv st" "fw_same_devices st st'"
    by blast
  with i show thesis by (intro tracked [of st' "forget i L" i F]) simp_all
next
  case False
  then have a: "\<forall>i \<in> set (ids L). fw_flow_at st i \<noteq> flow" by blast
  show thesis
  proof (cases F)
    case Nil
    from fw_allocate_full [OF assms [unfolded Nil] a, of now] show thesis
      using full [OF Nil a] by blast
  next
    case (Cons f F')
    from fw_allocate_new [OF assms [unfolded Cons] a, of now] show thesis using tracked by blast
  qed
qed

end
