(* ===== verification/FirewallCorrect.thy ===== *)
theory FirewallCorrect
  imports Firewall NatCorrect
begin

text \<open>
  What the firewall lets through: packets from inside always, packets from outside exactly when
  they reply to an open flow whose key, padding included, is in the table.
\<close>

section \<open>Whole packets\<close>

definition fw_has_devices :: "fw_state \<Rightarrow> u16 \<Rightarrow> bool" where
  "fw_has_devices st device \<longleftrightarrow>
     uint device < int (length (vec_data (fw_int_devices st))) \<and>
     uint device < int (length (vec_data (fw_fwd_rules st)))"

definition fw_internal :: "fw_state \<Rightarrow> u16 \<Rightarrow> bool" where
  "fw_internal st device \<longleftrightarrow> vec_data (fw_int_devices st) ! unat device \<noteq> 0"

definition fw_output :: "fw_state \<Rightarrow> u16 \<Rightarrow> u16" where
  "fw_output st device =
     (let dst = vec_data (fw_fwd_rules st) ! unat device in if device = dst then DROP else dst)"

lemma fw_devices_run:
  assumes "fw_has_devices st device"
  shows "is_internal (fw_int_devices st) device = Inr (fw_internal st device)"
    and "get_dst_dev (fw_fwd_rules st) device = Inr (fw_output st device)"
  using assms
  by (simp_all add: fw_has_devices_def is_internal_def get_dst_dev_def vector_borrow_def
      fw_internal_def fw_output_def Let_def)

lemma fw_same_devices_devices:
  assumes "fw_same_devices st st'"
  shows "fw_has_devices st' d = fw_has_devices st d" "fw_internal st' d = fw_internal st d"
    "fw_output st' d = fw_output st d" "fw_expiration_time st' = fw_expiration_time st"
  using assms
  by (simp_all add: fw_same_devices_def fw_has_devices_def fw_internal_def fw_output_def)

lemma fw_flows_read [simp]:
  "fw_outgoing_flow padding (headers_read p) = fw_outgoing_flow padding p"
  "fw_reply_flow padding (headers_read p) = fw_reply_flow padding p"
  by (simp_all add: fw_outgoing_flow_def fw_reply_flow_def)

lemma fw_filter_outgoing:
  assumes "fw_has_devices st device" "tcpudp_packet p" "fw_internal st device"
    and "fw_allocate_or_refresh_flow crc st (fw_outgoing_flow padding p) now = Inr st'"
    and "fw_same_devices st st'"
  shows "fw_filter crc st device now padding p = Inr (st', headers_read p, fw_output st device)"
proof -
  from tcpudp_packet_headers [OF assms(2)] obtain p1 p2 where
    h: "nf_then_get_ether_header p = Inr p1" "nf_then_get_ipv4_header p1 = Inr (Some p2)"
      "nf_then_get_tcpudp_header p2 = Inr (Some (headers_read p))" by blast
  have "fw_has_devices st' device" using assms(1,5) by (simp add: fw_same_devices_devices)
  from fw_devices_run [OF assms(1)] fw_devices_run(2) [OF this] h assms(3-5) show ?thesis
    by (simp add: fw_filter_def fw_same_devices_devices)
qed

lemma fw_filter_incoming:
  assumes "fw_has_devices st device" "tcpudp_packet p" "\<not> fw_internal st device"
    and "fw_get_refresh_flow crc st (fw_reply_flow padding p) now = Inr (st', found)"
    and "fw_same_devices st st'"
  shows "fw_filter crc st device now padding p =
    Inr (st', headers_read p, if found then fw_output st device else DROP)"
proof -
  from tcpudp_packet_headers [OF assms(2)] obtain p1 p2 where
    h: "nf_then_get_ether_header p = Inr p1" "nf_then_get_ipv4_header p1 = Inr (Some p2)"
      "nf_then_get_tcpudp_header p2 = Inr (Some (headers_read p))" by blast
  have "fw_has_devices st' device" using assms(1,5) by (simp add: fw_same_devices_devices)
  from fw_devices_run [OF assms(1)] fw_devices_run(2) [OF this] h assms(3-5) show ?thesis
    by (simp add: fw_filter_def fw_same_devices_devices)
qed

lemma fw_process_expired:
  assumes "fw_wf crc n st L F" "0 \<le> now"
  obtains st0 where
    "fw_process crc st device now padding p =
       Some (fw_filter crc st0 device now padding p)"
    "fw_wf crc n st0 (drop (expired_count (fw_last_time (fw_expiration_time st) now) L) L)
       (rev (ids (take (expired_count (fw_last_time (fw_expiration_time st) now) L) L)) @ F)"
    "fw_fv st0 = fw_fv st" "fw_same_devices st st0"
  using fw_expire_correct [OF assms] that by (auto simp: fw_process_def)

lemma fw_get_absent:
  assumes "fw_wf crc n st L F" "\<forall>i \<in> set (ids L). fw_flow_at st i \<noteq> flow"
  shows "fw_get_refresh_flow crc st flow now = Inr (st, False)"
  using fw_get_unknown [OF assms] by (simp add: fw_get_refresh_flow_def)

section \<open>A firewall at the start\<close>

definition zero_fw_flow :: fw_flow where
  "zero_fw_flow = \<lparr>fw_src_port = 0, fw_dst_port = 0, fw_src_ip = 0, fw_dst_ip = 0,
     fw_protocol = 0, fw_padding = (0, 0, 0)\<rparr>"

text \<open>Room for four flows, device 0 inside and device 1 outside, an expiration time of 1 ms.\<close>

definition fresh_fw :: "fw_state option" where
  "fresh_fw =
     (case dchain_allocate True (Some (replicate 6 \<lparr>dc_prev = 0, dc_next = 0\<rparr>))
         (Some (replicate 4 0)) 4 of
        Inl e \<Rightarrow> None
      | Inr heap \<Rightarrow>
          fw_alloc_state
            (map_allocate True (Some (replicate 4 0)) (Some (replicate 4 0)) (Some (replicate 4 0))
              (Some (replicate 4 0)) (Some (replicate 4 0)) 4 16)
            (vector_allocate True (Some (replicate 4 zero_fw_flow)) zero_fw_flow 4)
            heap
            (vector_allocate True (Some [0, 0]) 0 2) (vector_allocate True (Some [0, 0]) 0 2)
            2 [0] [(0, 1), (1, 0)] 1000)"

lemma fresh_fw_wf:
  obtains st where "fresh_fw = Some st" "fw_wf crc 4 st [] [0, 1, 2, 3]"
    "fw_has_devices st 0" "fw_has_devices st 1" "fw_internal st 0" "\<not> fw_internal st 1"
    "fw_output st 0 = 1" "fw_output st 1 = 0" "fw_expiration_time st = fw_expiration 1000"
proof -
  let ?cells = "replicate 6 \<lparr>dc_prev = 0, dc_next = 0\<rparr>" and ?ts = "replicate 4 (0 :: int)"
  let ?z = "replicate 4 (0 :: int)" and ?h = "replicate 4 (0 :: u32)"
  have u: "[0..4 - 1] = [0, 1, 2, 3 :: int]" by (simp add: upto.simps)
  have "int (length ?cells) = 4 + 2" "int (length ?ts) = 4" "(1 :: int) \<le> 4" by simp_all
  from dchain_allocate_correct_blocks [OF this(3,1,2)] obtain heap where
    h: "dchain_allocate True (Some ?cells) (Some ?ts) 4 = Inr (Some heap)"
      "chain_rep heap [] [0, 1, 2, 3]" unfolding u by blast
  obtain fm where fm: "map_allocate True (Some ?z) (Some ?z) (Some ?h) (Some ?z) (Some ?z) 4 16 =
      Some (fm :: int nf_map)"
    by (simp add: map_allocate_def compute_is_power_of_two_def)
  let ?fv = "\<lparr>vec_data = replicate 4 zero_fw_flow, vec_capacity = 4\<rparr>"
  have fv: "vector_allocate True (Some (replicate 4 zero_fw_flow)) zero_fw_flow 4 = Some ?fv"
    using vector_allocate_zeroed [of "replicate 4 zero_fw_flow" 4 zero_fw_flow] by simp
  obtain st where st: "fresh_fw = Some st"
    unfolding fresh_fw_def h(1) fm fv by (simp add: fw_alloc_state_def vector_allocate_def)
  then have a: "fw_alloc_state (Some fm) (Some ?fv) (Some heap)
      (vector_allocate True (Some [0, 0]) 0 2) (vector_allocate True (Some [0, 0]) 0 2)
      2 [0] [(0, 1), (1, 0)] 1000 = Some st"
    unfolding fresh_fw_def h(1) fm fv by simp
  have m: "map_wf crc (vector_mem fw_flow_bytes ?fv) fm" "stored fm = {}"
    "map_capacity fm = 4" "key_size fm = 16"
    using map_allocate_correct [OF _ _ _ _ _ fm] by simp_all
  have p: "fw_fm st = fm" "fw_fv st = ?fv" "fw_heap st = heap"
    "fw_expiration_time st = fw_expiration 1000"
    "vec_data (fw_int_devices st) = [1, 0]" "vec_data (fw_fwd_rules st) = [1, 0]"
    using a by (auto simp: fw_alloc_state_def vector_allocate_def int_device_entry_def
        upt_rec numeral_2_eq_2)
  have "fw_wf crc 4 st [] [0, 1, 2, 3]"
    using m h(2) by (auto simp: fw_wf_def table_flows_def map_rep_def p)
  with st p(4-6) show thesis
    by (intro that [of st]) (simp_all add: fw_has_devices_def fw_internal_def fw_output_def)
qed

text \<open>A request of host 10, and the reply of host 20.\<close>

abbreviation request :: packet where "request \<equiv> udp_packet 10 1000 20 53"
abbreviation reply :: packet where "reply \<equiv> udp_packet 20 53 10 1000"

lemma request_reply: "fw_reply_flow padding reply = fw_outgoing_flow padding request"
  by (simp add: fw_reply_flow_def fw_outgoing_flow_def udp_packet_def)

lemma first_request:
  obtains st st1 p1 out where "fresh_fw = Some st" "fw_wf crc 4 st [] [0, 1, 2, 3]"
    "fw_has_devices st 0" "fw_has_devices st 1" "fw_internal st 0" "\<not> fw_internal st 1"
    "fw_output st 0 = 1" "fw_output st 1 = 0" "fw_expiration_time st = fw_expiration 1000"
    "fw_process crc st 0 5 padding request = Some (Inr (st1, headers_read request, 1))"
proof -
  obtain st where st: "fresh_fw = Some st" "fw_wf crc 4 st [] [0, 1, 2, 3]"
    "fw_has_devices st 0" "fw_has_devices st 1" "fw_internal st 0" "\<not> fw_internal st 1"
    "fw_output st 0 = 1" "fw_output st 1 = 0" "fw_expiration_time st = fw_expiration 1000"
    by (rule fresh_fw_wf)
  obtain st0 where st0: "fw_process crc st 0 5 padding request =
      Some (fw_filter crc st0 0 5 padding request)" "fw_wf crc 4 st0 [] [0, 1, 2, 3]"
    "fw_same_devices st st0"
    by (rule fw_process_expired [OF st(2), of 5]) (auto simp: expired_count_def)
  have dev: "fw_has_devices st0 0" "fw_internal st0 0" "fw_output st0 0 = 1"
    using st(3,5,7) st0(3) by (simp_all add: fw_same_devices_devices)
  from fw_allocate_new [OF st0(2), of "fw_outgoing_flow padding request" 5] obtain st' where
    "fw_allocate_or_refresh_flow crc st0 (fw_outgoing_flow padding request) 5 = Inr st'"
    "fw_same_devices st0 st'" by auto
  from fw_filter_outgoing [OF dev(1) udp_packet_tcpudp dev(2) this] st0(1) dev(3) st show thesis
    by (intro that) simp_all
qed

section \<open>Properties\<close>

text \<open>Packets from internal devices are never stopped: each leaves unchanged through the device
  its own is configured for, also when the table of flows is full.\<close>
lemma fw_lets_out:
  assumes "fw_wf crc n st L F" "0 \<le> t" "tcpudp_packet p" "fw_has_devices st d" "fw_internal st d"
  shows "\<exists>st' L' F'. fw_process crc st d t padding p =
      Some (Inr (st', headers_read p, fw_output st d)) \<and>
    fw_wf crc n st' L' F' \<and> fw_same_devices st st'"
proof -
  obtain st0 L0 F0 where st0: "fw_process crc st d t padding p =
      Some (fw_filter crc st0 d t padding p)" "fw_wf crc n st0 L0 F0" "fw_same_devices st st0"
    by (rule fw_process_expired [OF assms(1,2)])
  have dev: "fw_has_devices st0 d" "fw_internal st0 d" "fw_output st0 d = fw_output st d"
    using assms(4,5) st0(3) by (simp_all add: fw_same_devices_devices)
  note out = fw_filter_outgoing [OF dev(1) assms(3) dev(2), of crc padding t]
  show ?thesis
  proof (rule fw_outgoing_cases [OF st0(2), of "fw_outgoing_flow padding p" t])
    fix i A F' st' assume "fw_allocate_or_refresh_flow crc st0 (fw_outgoing_flow padding p) t = Inr st'"
      "fw_wf crc n st' (A @ [(i, t)]) F'" "fw_same_devices st0 st'"
    with out [of st'] st0(1,3) dev(3) fw_same_devices_trans [of st st0 st'] show ?thesis by auto
  next
    fix st' assume "fw_allocate_or_refresh_flow crc st0 (fw_outgoing_flow padding p) t = Inr st'"
      "fw_wf crc n st' L0 []" "fw_same_devices st0 st'"
    with out [of st'] st0(1,3) dev(3) fw_same_devices_trans [of st st0 st'] show ?thesis by auto
  qed
qed

lemma fw_lets_out_witness:
  "\<exists>st st'. fresh_fw = Some st \<and>
     fw_process (\<lambda>h x. h XOR x) st 0 5 (1, 2, 3) request =
       Some (Inr (st', headers_read request, 1))"
proof -
  obtain st where st: "fresh_fw = Some st" "fw_wf (\<lambda>h x. h XOR x) 4 st [] [0, 1, 2, 3]"
    "fw_has_devices st 0" "fw_internal st 0" "fw_output st 0 = 1" by (rule fresh_fw_wf)
  from fw_lets_out [OF st(2) _ udp_packet_tcpudp st(3,4), of 5 "(1, 2, 3)" 10 1000 20 53] st(1,5)
  show ?thesis by auto
qed

text \<open>The flow of an outgoing packet is in the table afterwards, used last.\<close>

lemma fw_tracks_outgoing:
  assumes "fw_wf crc n st L F" "F \<noteq> []" "0 \<le> t" "tcpudp_packet p" "fw_has_devices st d"
    "fw_internal st d" "fw_process crc st d t padding p = Some (Inr (st1, p1, out))"
  obtains i A F1 where "fw_wf crc n st1 (A @ [(i, t)]) F1"
    "fw_flow_at st1 i = fw_outgoing_flow padding p" "fw_same_devices st st1"
proof -
  let ?k = "expired_count (fw_last_time (fw_expiration_time st) t) L"
  obtain st0 where st0: "fw_process crc st d t padding p =
      Some (fw_filter crc st0 d t padding p)"
    "fw_wf crc n st0 (drop ?k L) (rev (ids (take ?k L)) @ F)" "fw_same_devices st st0"
    by (rule fw_process_expired [OF assms(1,3)])
  have dev: "fw_has_devices st0 d" "fw_internal st0 d"
    using assms(5,6) st0(3) by (simp_all add: fw_same_devices_devices)
  note out = fw_filter_outgoing [OF dev(1) assms(4) dev(2), of crc padding t]
  show thesis
  proof (rule fw_outgoing_cases [OF st0(2), of "fw_outgoing_flow padding p" t])
    fix i A F' st' assume a: "fw_allocate_or_refresh_flow crc st0 (fw_outgoing_flow padding p) t = Inr st'"
      "fw_wf crc n st' (A @ [(i, t)]) F'" "fw_flow_at st' i = fw_outgoing_flow padding p"
      "fw_same_devices st0 st'"
    have "st1 = st'" using out [OF a(1,4)] st0(1) assms(7) by simp
    with a fw_same_devices_trans [OF st0(3) a(4)] show thesis using that by blast
  next
    assume "rev (ids (take ?k L)) @ F = []"
    with assms(2) show thesis by simp
  qed
qed



lemma fw_unknown_dropped:
  assumes "fw_wf crc n st L F" "0 \<le> t" "tcpudp_packet q" "fw_has_devices st e"
    "\<not> fw_internal st e" "\<forall>i \<in> set (ids L). fw_flow_at st i \<noteq> fw_reply_flow padding q"
  shows "\<exists>st'. fw_process crc st e t padding q = Some (Inr (st', headers_read q, DROP))"
proof -
  let ?k = "expired_count (fw_last_time (fw_expiration_time st) t) L"
  obtain st0 where st0: "fw_process crc st e t padding q =
      Some (fw_filter crc st0 e t padding q)"
    "fw_wf crc n st0 (drop ?k L) (rev (ids (take ?k L)) @ F)" "fw_fv st0 = fw_fv st"
    "fw_same_devices st st0" by (rule fw_process_expired [OF assms(1,2)])
  have dev: "fw_has_devices st0 e" "\<not> fw_internal st0 e"
    using assms(4,5) st0(4) by (simp_all add: fw_same_devices_devices)
  have "set (ids (drop ?k L)) \<subseteq> set (ids L)" by (auto dest: in_set_dropD)
  then have "\<forall>i \<in> set (ids (drop ?k L)). fw_flow_at st0 i \<noteq> fw_reply_flow padding q"
    unfolding st0(3) using assms(6) by blast
  from fw_filter_incoming [OF dev(1) assms(3) dev(2) fw_get_absent [OF st0(2) this, of t]] st0(1)
  show ?thesis by simp
qed

text \<open>C23. Nothing else enters: a packet from outside whose reversed flow, padding included, is not in
  the table is dropped.\<close>
theorem fw_drops_unsolicited:
  assumes "fw_wf crc n st L F" "0 \<le> t" "tcpudp_packet q" "fw_has_devices st e"
    "\<not> fw_internal st e" "\<forall>i \<in> set (ids L). fw_flow_at st i \<noteq> fw_reply_flow padding q"
  shows "\<exists>st'. fw_process crc st e t padding q = Some (Inr (st', headers_read q, DROP))"
  by (rule fw_unknown_dropped [OF assms])

theorem fw_drops_unsolicited_witness:
  "\<exists>st st'. fresh_fw = Some st \<and>
     fw_process (\<lambda>h x. h XOR x) st 1 5 (1, 2, 3) reply = Some (Inr (st', headers_read reply, DROP))"
proof -
  obtain st where st: "fresh_fw = Some st" "fw_wf (\<lambda>h x. h XOR x) 4 st [] [0, 1, 2, 3]"
    "fw_has_devices st 1" "\<not> fw_internal st 1" by (rule fresh_fw_wf)
  from fw_drops_unsolicited [OF st(2) _ udp_packet_tcpudp st(3,4), of 5 "(1, 2, 3)" 20 53 10 1000] st(1)
  show ?thesis by auto
qed

text \<open>C39. The padding of the key matters: from an empty table, a packet from inside followed by its
  reply is dropped when the stack held other bytes in the padding of the second key.\<close>
theorem fw_padding_hides_flow:
  assumes "fw_wf crc n st [] F" "F \<noteq> []" "0 \<le> t" "0 \<le> t'"
    and "tcpudp_packet p" "fw_has_devices st d" "fw_internal st d"
    and "fw_process crc st d t padding p = Some (Inr (st1, p1, out))"
    and "tcpudp_packet q" "fw_has_devices st e" "\<not> fw_internal st e"
    and "padding' \<noteq> padding"
  shows "\<exists>st2. fw_process crc st1 e t' padding' q = Some (Inr (st2, headers_read q, DROP))"
proof -
  obtain f F' where F: "F = f # F'" using assms(2) by (cases F) auto
  obtain st0 where st0: "fw_process crc st d t padding p =
      Some (fw_filter crc st0 d t padding p)" "fw_wf crc n st0 [] (f # F')" "fw_same_devices st st0"
    by (rule fw_process_expired [OF assms(1,3), unfolded F]) (auto simp: expired_count_def)
  have dev: "fw_has_devices st0 d" "fw_internal st0 d"
    using assms(6,7) st0(3) by (simp_all add: fw_same_devices_devices)
  from fw_allocate_new [OF st0(2), of "fw_outgoing_flow padding p" t] obtain st' where
    a: "fw_allocate_or_refresh_flow crc st0 (fw_outgoing_flow padding p) t = Inr st'"
      "fw_wf crc n st' [(f, t)] F'" "fw_flow_at st' f = fw_outgoing_flow padding p"
      "fw_same_devices st0 st'" by auto
  have st1: "st1 = st'"
    using fw_filter_outgoing [OF dev(1) assms(5) dev(2) a(1,4)] st0(1) assms(8) by simp
  have dev': "fw_has_devices st' e" "\<not> fw_internal st' e"
    using assms(10,11) fw_same_devices_trans [OF st0(3) a(4)] by (simp_all add: fw_same_devices_devices)
  have "\<forall>i \<in> set (ids [(f, t)]). fw_flow_at st' i \<noteq> fw_reply_flow padding' q"
    using a(3) assms(12) by (simp add: fw_outgoing_flow_def fw_reply_flow_def)
  from fw_unknown_dropped [OF a(2) assms(4,9) dev' this] show ?thesis by (simp add: st1)
qed

theorem fw_padding_hides_flow_witness:
  "\<exists>st st1 st2. fresh_fw = Some st \<and>
     fw_process (\<lambda>h x. h XOR x) st 0 5 (1, 2, 3) request =
       Some (Inr (st1, headers_read request, 1)) \<and>
     fw_process (\<lambda>h x. h XOR x) st1 1 6 (0, 2, 3) reply =
       Some (Inr (st2, headers_read reply, DROP))"
proof -
  obtain st st1 where st: "fresh_fw = Some st" "fw_wf (\<lambda>h x. h XOR x) 4 st [] [0, 1, 2, 3]"
    "fw_has_devices st 0" "fw_has_devices st 1" "fw_internal st 0" "\<not> fw_internal st 1"
    "fw_process (\<lambda>h x. h XOR x) st 0 5 (1, 2, 3) request =
      Some (Inr (st1, headers_read request, 1))" by (rule first_request)
  have "(0 :: u8, 2 :: u8, 3 :: u8) \<noteq> (1, 2, 3)" by simp
  from fw_padding_hides_flow [OF st(2) _ _ _ udp_packet_tcpudp st(3,5,7) udp_packet_tcpudp st(4,6)
      this, of 6] st(1,7) show ?thesis by auto
qed

end
