(* ===== verification/TokenBucket.thy ===== *)
theory TokenBucket
  imports Aging
begin

text \<open>
  Token buckets, \<^verbatim>\<open>dpdk-nfs/lib/state/token-bucket.c\<close>: a table of flows with a bucket of
  tokens for each. Tokens are bytes; they accrue at \<open>rate\<close> bytes per second up to
  \<open>burst\<close>. All the arithmetic is on unsigned 64-bit numbers and divides by the rate.
\<close>

section \<open>State and operations\<close>

abbreviation NS_TO_S_MULTIPLIER :: "'a::len word" where "NS_TO_S_MULTIPLIER \<equiv> 1000000000"

record tb_bucket =
  bk_tokens :: u64
  bk_time :: int

record 'k token_bucket =
  tb_flows :: "int nf_map"
  tb_keys :: "'k nf_vector"
  tb_buckets :: "tb_bucket nf_vector"
  tb_allocator :: double_chain
  tb_capacity :: u32
  tb_rate :: u64
  tb_burst :: u64

text \<open>The results of the four allocation functions are parameters.\<close>

definition tb_allocate ::
  "bool \<Rightarrow> int nf_map option \<Rightarrow> 'k nf_vector option \<Rightarrow> tb_bucket nf_vector option \<Rightarrow>
     double_chain option \<Rightarrow> u32 \<Rightarrow> u64 \<Rightarrow> u64 \<Rightarrow> 'k token_bucket option"
where
  "tb_allocate tb_alloc flows keys buckets allocator capacity rate burst =
     (if \<not> tb_alloc then None
      else case (flows, keys, buckets, allocator) of
        (Some flows, Some keys, Some buckets, Some allocator) \<Rightarrow>
          Some \<lparr>tb_flows = flows, tb_keys = keys, tb_buckets = buckets, tb_allocator = allocator,
                tb_capacity = capacity, tb_rate = rate, tb_burst = burst\<rparr>
      | _ \<Rightarrow> None)"

definition tb_is_tracing ::
  "(u32 \<Rightarrow> u32 \<Rightarrow> u32) \<Rightarrow> ('k \<Rightarrow> bytes) \<Rightarrow> 'k token_bucket \<Rightarrow> 'k \<Rightarrow> int option" where
  "tb_is_tracing crc enc tb k = map_get crc (vector_mem enc (tb_keys tb)) (tb_flows tb) (enc k)"

definition tb_trace ::
  "(u32 \<Rightarrow> u32 \<Rightarrow> u32) \<Rightarrow> ('k \<Rightarrow> bytes) \<Rightarrow> 'k token_bucket \<Rightarrow> 'k \<Rightarrow> u16 \<Rightarrow> int \<Rightarrow>
     ('k token_bucket \<times> int option) result"
where
  "tb_trace crc enc tb k pkt_len time =
     rbind (dchain_allocate_new_index (tb_allocator tb) time) (\<lambda>(allocator, allocated).
     case allocated of
       None \<Rightarrow> Inr (tb\<lparr>tb_allocator := allocator\<rparr>, None)
     | Some index \<Rightarrow>
         rbind (vector_write (tb_keys tb) index k) (\<lambda>keys.
         rbind (vector_write (tb_buckets tb) index
             \<lparr>bk_tokens = tb_burst tb - ucast pkt_len, bk_time = time\<rparr>) (\<lambda>buckets.
         rbind (map_put crc (vector_mem enc keys) (tb_flows tb) index index) (\<lambda>flows.
         Inr (tb\<lparr>tb_flows := flows, tb_keys := keys, tb_buckets := buckets,
                 tb_allocator := allocator\<rparr>, Some index)))))"

definition bucket_refill :: "u64 \<Rightarrow> u64 \<Rightarrow> tb_bucket \<Rightarrow> int \<Rightarrow> u64" where
  "bucket_refill rate burst b time =
     (let time_diff = word_of_int time - word_of_int (bk_time b) in
      if time_diff < burst * NS_TO_S_MULTIPLIER div rate then
        let tokens = bk_tokens b + time_diff * rate div NS_TO_S_MULTIPLIER in
        if tokens > burst then burst else tokens
      else burst)"

text \<open>A rate of 0 divides by zero.\<close>

definition bucket_update ::
  "u64 \<Rightarrow> u64 \<Rightarrow> tb_bucket \<Rightarrow> u16 \<Rightarrow> int \<Rightarrow> (tb_bucket \<times> bool) result" where
  "bucket_update rate burst b pkt_len time =
     (if rate = 0 then Inl Undefined
      else
        let tokens = bucket_refill rate burst b time in
        if tokens > ucast pkt_len
        then Inr (\<lparr>bk_tokens = tokens - ucast pkt_len, bk_time = time\<rparr>, True)
        else Inr (\<lparr>bk_tokens = tokens, bk_time = time\<rparr>, False))"

definition tb_update_and_check ::
  "'k token_bucket \<Rightarrow> int \<Rightarrow> u16 \<Rightarrow> int \<Rightarrow> ('k token_bucket \<times> bool) result" where
  "tb_update_and_check tb index pkt_len time =
     rbind (dchain_rejuvenate_index (tb_allocator tb) index time) (\<lambda>(allocator, _).
     rbind (vector_borrow (tb_buckets tb) index) (\<lambda>bucket.
     rbind (bucket_update (tb_rate tb) (tb_burst tb) bucket pkt_len time) (\<lambda>(bucket, pass).
     rbind (vector_write (tb_buckets tb) index bucket) (\<lambda>buckets.
     Inr (tb\<lparr>tb_buckets := buckets, tb_allocator := allocator\<rparr>, pass)))))"

definition tb_min_time :: "u64 \<Rightarrow> u64 \<Rightarrow> int \<Rightarrow> int" where
  "tb_min_time rate burst time =
     sint ((word_of_int time :: u64) - NS_TO_S_MULTIPLIER * (burst div rate))"

definition tb_expire ::
  "(u32 \<Rightarrow> u32 \<Rightarrow> u32) \<Rightarrow> ('k \<Rightarrow> bytes) \<Rightarrow> 'k token_bucket \<Rightarrow> int \<Rightarrow>
     ('k token_bucket \<times> int) result option"
where
  "tb_expire crc enc tb time =
     (if time < 0 then Some (Inl Assert_Failed)
      else if tb_rate tb = 0 then Some (Inl Undefined)
      else
        map_option
          (\<lambda>r. rbind r (\<lambda>(allocator, flows, count).
             Inr (tb\<lparr>tb_allocator := allocator, tb_flows := flows\<rparr>, count)))
          (expire_items_single_map crc enc (tb_allocator tb) (tb_keys tb) (tb_flows tb)
            (tb_min_time (tb_rate tb) (tb_burst tb) time)))"

section \<open>One bucket\<close>

lemma time_difference:
  assumes "0 \<le> s" "s \<le> t" "t < 2 ^ 63"
  shows "unat (word_of_int t - word_of_int s :: u64) = nat (t - s)"
proof -
  have "(word_of_int t - word_of_int s :: u64) = word_of_int (t - s)" by simp
  moreover have "uint (word_of_int (t - s) :: u64) = take_bit 64 (t - s)"
    by (simp only: uint_word_of_int_eq) simp
  moreover have "take_bit 64 (t - s) = t - s"
    by (rule take_bit_int_eq_self) (use assms in simp_all)
  ultimately show ?thesis by (simp only: unat_eq_nat_uint)
qed

text \<open>
  In numbers without wrap-around: what accrues is at most what the elapsed time gives, counting
  one nanosecond more where the burst is not a whole number of nanoseconds at the given rate.
\<close>

definition accrual_slack :: "u64 \<Rightarrow> u64 \<Rightarrow> nat" where
  "accrual_slack rate burst =
     (if unat rate dvd unat burst * 1000000000 then 0 else 1)"

lemma bucket_refill_bound:
  fixes rate burst :: u64
  assumes "rate \<noteq> 0" "unat burst * 1000000000 < 2 ^ 64" "bk_tokens b \<le> burst"
    and "0 \<le> bk_time b" "bk_time b \<le> time" "time < 2 ^ 63"
  defines "d \<equiv> nat (time - bk_time b)"
  shows "unat (bucket_refill rate burst b time) \<le> unat burst"
    and "1000000000 * unat (bucket_refill rate burst b time) \<le>
      1000000000 * unat (bk_tokens b) + unat rate * (d + accrual_slack rate burst)"
proof -
  let ?diff = "word_of_int time - word_of_int (bk_time b) :: u64"
  let ?B = "unat burst" and ?r = "unat rate" and ?T = "unat (bk_tokens b)"
  have d: "unat ?diff = d" using time_difference [OF assms(4-6)] by (simp add: d_def)
  have r: "0 < ?r" using assms(1) by (simp add: unat_gt_0)
  have T: "?T \<le> ?B" using assms(3) by (simp add: word_le_nat_alt)
  have ns: "unat (burst * NS_TO_S_MULTIPLIER) = ?B * 1000000000"
    using assms(2) by (subst unat_mult_lem [THEN iffD1]) simp_all
  have full: "unat (burst * NS_TO_S_MULTIPLIER div rate) = ?B * 1000000000 div ?r"
    by (simp only: unat_div ns)
  show "unat (bucket_refill rate burst b time) \<le> ?B"
    by (auto simp: bucket_refill_def Let_def word_le_nat_alt [symmetric])
  show "1000000000 * unat (bucket_refill rate burst b time) \<le>
      1000000000 * ?T + ?r * (d + accrual_slack rate burst)"
  proof (cases "?diff < burst * NS_TO_S_MULTIPLIER div rate")
    case True
    then have "d < ?B * 1000000000 div ?r" by (simp only: word_less_nat_alt full d)
    then have "d * ?r \<le> ?B * 1000000000 div ?r * ?r" by simp
    also have "\<dots> \<le> ?B * 1000000000" by (rule div_times_less_eq_dividend)
    finally have p: "d * ?r \<le> ?B * 1000000000" .
    then have m: "unat (?diff * rate) = d * ?r"
      using assms(2) d by (subst unat_mult_lem [THEN iffD1]) simp_all
    then have a: "unat (?diff * rate div NS_TO_S_MULTIPLIER) = d * ?r div 1000000000"
      by (simp add: unat_div)
    have "d * ?r div 1000000000 \<le> ?B * 1000000000 div 1000000000" using p by (rule div_le_mono)
    then have "d * ?r div 1000000000 \<le> ?B" by simp
    then have s: "unat (bk_tokens b + ?diff * rate div NS_TO_S_MULTIPLIER) =
        ?T + d * ?r div 1000000000"
      using a T assms(2) by (subst unat_add_lem [THEN iffD1]) simp_all
    have "1000000000 * (d * ?r div 1000000000) \<le> d * ?r" by simp
    moreover have "unat (bucket_refill rate burst b time) \<le> ?T + d * ?r div 1000000000"
      using True s by (simp add: bucket_refill_def Let_def word_less_nat_alt)
    ultimately have "1000000000 * unat (bucket_refill rate burst b time) \<le> 1000000000 * ?T + d * ?r"
      by linarith
    then show ?thesis by (simp add: algebra_simps)
  next
    case False
    then have e: "bucket_refill rate burst b time = burst" by (simp add: bucket_refill_def Let_def)
    have "?B * 1000000000 div ?r \<le> d"
      using False by (simp only: word_less_nat_alt full d not_less)
    then have "?B * 1000000000 div ?r * ?r \<le> d * ?r" by simp
    moreover have "?B * 1000000000 \<le> ?B * 1000000000 div ?r * ?r + ?r * accrual_slack rate burst"
    proof (cases "?r dvd ?B * 1000000000")
      case True
      then show ?thesis by simp
    next
      case nd: False
      have "?B * 1000000000 = ?B * 1000000000 div ?r * ?r + ?B * 1000000000 mod ?r" by simp
      moreover have "?B * 1000000000 mod ?r < ?r" using r by simp
      ultimately have "?B * 1000000000 \<le> ?B * 1000000000 div ?r * ?r + ?r" by linarith
      then show ?thesis using nd by (simp add: accrual_slack_def)
    qed
    ultimately have "?B * 1000000000 \<le> d * ?r + ?r * accrual_slack rate burst" by linarith
    then show ?thesis unfolding e by (simp add: algebra_simps)
  qed
qed

lemma bucket_update_bound:
  fixes rate burst :: u64
  assumes "rate \<noteq> 0" "unat burst * 1000000000 < 2 ^ 64" "bk_tokens b \<le> burst"
    and "0 \<le> bk_time b" "bk_time b \<le> time" "time < 2 ^ 63"
  obtains b' pass where "bucket_update rate burst b len time = Inr (b', pass)"
    "bk_tokens b' \<le> burst" "bk_time b' = time"
    "1000000000 * (unat (bk_tokens b') + (if pass then unat len else 0)) \<le>
      1000000000 * unat (bk_tokens b) +
        unat rate * (nat (time - bk_time b) + accrual_slack rate burst)"
proof -
  let ?t = "bucket_refill rate burst b time"
  note bound = bucket_refill_bound [OF assms]
  have "unat len < 2 ^ LENGTH(16)" by (rule unsigned_less)
  then have u: "unat (ucast len :: u64) = unat len"
    by (simp add: unsigned_ucast_eq take_bit_nat_eq_self)
  show thesis
  proof (cases "?t > ucast len")
    case True
    then have le: "ucast len \<le> ?t" by simp
    have s: "unat (?t - ucast len) = unat ?t - unat len" "unat len \<le> unat ?t"
      using unat_sub_le [OF le] le by (simp_all only: u word_le_nat_alt)
    with bound True assms(1) show thesis
      by (intro that [of "\<lparr>bk_tokens = ?t - ucast len, bk_time = time\<rparr>" True])
        (simp_all add: bucket_update_def word_le_nat_alt)
  next
    case False
    with bound assms(1) show thesis
      by (intro that [of "\<lparr>bk_tokens = ?t, bk_time = time\<rparr>" False])
        (simp_all add: bucket_update_def word_le_nat_alt)
  qed
qed

section \<open>The table of buckets\<close>

definition tb_wf ::
  "(u32 \<Rightarrow> u32 \<Rightarrow> u32) \<Rightarrow> u32 \<Rightarrow> u32 \<Rightarrow> ('k \<Rightarrow> bytes) \<Rightarrow> 'k token_bucket \<Rightarrow> aged \<Rightarrow> int list \<Rightarrow> bool"
where
  "tb_wf crc n ksize enc tb L F \<longleftrightarrow>
     table_flows chain_rep (map_rep crc n ksize) (unat n) enc
       (tb_allocator tb) (tb_keys tb) (tb_flows tb) L F \<and>
     length (vec_data (tb_keys tb)) = unat n \<and> length (vec_data (tb_buckets tb)) = unat n \<and>
     (\<forall>i \<in> set (ids L). bk_tokens (vec_data (tb_buckets tb) ! nat i) \<le> tb_burst tb)"

abbreviation bucket_at :: "'k token_bucket \<Rightarrow> int \<Rightarrow> tb_bucket" where
  "bucket_at tb i \<equiv> vec_data (tb_buckets tb) ! nat i"

context nf_flows
begin

lemma tb_is_tracing_iff:
  assumes "tb_wf crc capacity ksize enc tb L F"
  shows "tb_is_tracing crc enc tb k = Some i \<longleftrightarrow>
    i \<in> set (ids L) \<and> vec_data (tb_keys tb) ! nat i = k"
  using tab.get_flow [of "tb_allocator tb" "tb_keys tb" "tb_flows tb" L F k i] assms
  by (simp add: tb_is_tracing_def tb_wf_def)

text \<open>A new flow starts with the burst less its first packet, which is let through.\<close>

lemma tb_trace_new:
  assumes "tb_wf crc capacity ksize enc tb L (f # F)"
    and "\<forall>i \<in> set (ids L). vec_data (tb_keys tb) ! nat i \<noteq> k" "ucast len \<le> tb_burst tb"
  shows "\<exists>tb'. tb_trace crc enc tb k len time = Inr (tb', Some f) \<and>
    tb_wf crc capacity ksize enc tb' (L @ [(f, time)]) F \<and>
    bucket_at tb' f = \<lparr>bk_tokens = tb_burst tb - ucast len, bk_time = time\<rparr> \<and>
    vec_data (tb_keys tb') ! nat f = k \<and> tb_rate tb' = tb_rate tb \<and> tb_burst tb' = tb_burst tb"
proof -
  have t: "tab.flows (tb_allocator tb) (tb_keys tb) (tb_flows tb) L (f # F)"
    and n: "length (vec_data (tb_keys tb)) = unat capacity" "length (vec_data (tb_buckets tb)) = unat capacity"
    using assms(1) by (simp_all add: tb_wf_def)
  let ?keys = "(tb_keys tb)\<lparr>vec_data := (vec_data (tb_keys tb))[nat f := k]\<rparr>"
    and ?b = "\<lparr>bk_tokens = tb_burst tb - ucast len, bk_time = time\<rparr>"
  let ?buckets = "(tb_buckets tb)\<lparr>vec_data := (vec_data (tb_buckets tb))[nat f := ?b]\<rparr>"
  from tab.insert_flow [OF t assms(2), of time] obtain d' m' where
    d': "dchain_allocate_new_index (tb_allocator tb) time = Inr (d', Some f)"
    "vector_write (tb_keys tb) f k = Inr ?keys"
    "map_put crc (vector_mem enc ?keys) (tb_flows tb) f f = Inr m'"
    "tab.flows d' ?keys m' (L @ [(f, time)]) F" by blast
  have f: "0 \<le> f" "nat f < unat capacity" "f < int (length (vec_data (tb_buckets tb)))"
    using tab.flows_range [OF t, of f] n by (simp_all add: nat_less_iff)
  have w: "vector_write (tb_buckets tb) f ?b = Inr ?buckets"
    using f by (simp add: vector_write_in)
  have "bk_tokens (vec_data ?buckets ! nat i) \<le> tb_burst tb" if "i \<in> set (ids (L @ [(f, time)]))" for i
  proof (cases "nat i = nat f")
    case True
    have "tb_burst tb - ucast len \<le> tb_burst tb"
      using assms(3) by (simp add: word_le_nat_alt unat_sub_le)
    with True f n show ?thesis by simp
  next
    case False
    then have "i \<in> set (ids L)" using that f(1) by auto
    then have "bk_tokens (bucket_at tb i) \<le> tb_burst tb" using assms(1) by (auto simp: tb_wf_def)
    with False show ?thesis by simp
  qed
  with d' w f n show ?thesis
    by (intro exI [of _ "tb\<lparr>tb_flows := m', tb_keys := ?keys, tb_buckets := ?buckets,
        tb_allocator := d'\<rparr>"]) (simp add: tb_trace_def tb_wf_def)
qed

lemma tb_trace_full:
  assumes "tb_wf crc capacity ksize enc tb L []"
  shows "\<exists>tb'. tb_trace crc enc tb k len time = Inr (tb', None) \<and>
    tb_wf crc capacity ksize enc tb' L []"
proof -
  have "tab.flows (tb_allocator tb) (tb_keys tb) (tb_flows tb) L []"
    using assms by (simp add: tb_wf_def)
  from tab.insert_full [OF this, of time] obtain d' where
    "dchain_allocate_new_index (tb_allocator tb) time = Inr (d', None)"
    "tab.flows d' (tb_keys tb) (tb_flows tb) L []" by blast
  with assms show ?thesis
    by (intro exI [of _ "tb\<lparr>tb_allocator := d'\<rparr>"]) (simp add: tb_trace_def tb_wf_def)
qed

lemma tb_expire_correct:
  assumes "tb_wf crc capacity ksize enc tb L F" "0 \<le> time" "tb_rate tb \<noteq> 0"
  defines "k \<equiv> expired_count (tb_min_time (tb_rate tb) (tb_burst tb) time) L"
  shows "\<exists>tb'. tb_expire crc enc tb time = Some (Inr (tb', int k)) \<and>
    tb_wf crc capacity ksize enc tb' (drop k L) (rev (ids (take k L)) @ F) \<and>
    tb_keys tb' = tb_keys tb \<and> tb_buckets tb' = tb_buckets tb \<and>
    tb_rate tb' = tb_rate tb \<and> tb_burst tb' = tb_burst tb"
proof -
  have "tab.flows (tb_allocator tb) (tb_keys tb) (tb_flows tb) L F"
    using assms(1) by (simp add: tb_wf_def)
  from expire_items_correct [OF this, of "tb_min_time (tb_rate tb) (tb_burst tb) time"]
  obtain d' m' where
    "expire_items_single_map crc enc (tb_allocator tb) (tb_keys tb) (tb_flows tb)
      (tb_min_time (tb_rate tb) (tb_burst tb) time) = Some (Inr (d', m', int k))"
    "tab.flows d' (tb_keys tb) m' (drop k L) (rev (ids (take k L)) @ F)" by (auto simp: k_def)
  moreover have "\<forall>i \<in> set (ids (drop k L)). bk_tokens (bucket_at tb i) \<le> tb_burst tb"
    using assms(1) by (auto simp: tb_wf_def dest: in_set_dropD)
  ultimately show ?thesis using assms(1-3)
    by (intro exI [of _ "tb\<lparr>tb_allocator := d', tb_flows := m'\<rparr>"])
      (simp add: tb_expire_def tb_wf_def)
qed

end

section \<open>Policing\<close>

text \<open>The packets of a traced flow, each with its length and time, one after the other.\<close>

fun tb_updates ::
  "'k token_bucket \<Rightarrow> int \<Rightarrow> (u16 \<times> int) list \<Rightarrow> ('k token_bucket \<times> bool list) result" where
  "tb_updates tb index [] = Inr (tb, [])"
| "tb_updates tb index ((len, time) # pkts) =
     rbind (tb_update_and_check tb index len time) (\<lambda>(tb, pass).
     rbind (tb_updates tb index pkts) (\<lambda>(tb, passes). Inr (tb, pass # passes)))"

fun passed_bytes :: "(u16 \<times> int) list \<Rightarrow> bool list \<Rightarrow> nat" where
  "passed_bytes ((len, time) # pkts) (pass # passes) =
     (if pass then unat len else 0) + passed_bytes pkts passes"
| "passed_bytes _ _ = 0"

lemma tb_update_run:
  assumes "chain_rep (tb_allocator tb) L F" "index \<in> set (ids L)"
    and "nat index < length (vec_data (tb_buckets tb))"
    and "bucket_update (tb_rate tb) (tb_burst tb) (bucket_at tb index) len time = Inr (b, pass)"
  obtains tb' where "tb_update_and_check tb index len time = Inr (tb', pass)"
    "chain_rep (tb_allocator tb') (forget index L @ [(index, time)]) F"
    "bucket_at tb' index = b" "length (vec_data (tb_buckets tb')) = length (vec_data (tb_buckets tb))"
    "tb_rate tb' = tb_rate tb" "tb_burst tb' = tb_burst tb"
proof -
  from chain.rejuvenate_allocated [OF assms(1,2), of time] obtain d' where
    d': "dchain_rejuvenate_index (tb_allocator tb) index time = Inr (d', True)"
      "chain_rep d' (forget index L @ [(index, time)]) F" by blast
  have i: "0 \<le> index" using chain_rep_in_range [OF assms(1), of index] assms(2) by simp
  let ?bs = "(tb_buckets tb)\<lparr>vec_data := (vec_data (tb_buckets tb))[nat index := b]\<rparr>"
  have "vector_borrow (tb_buckets tb) index = Inr (bucket_at tb index)"
    "vector_write (tb_buckets tb) index b = Inr ?bs"
    using i assms(3) by (simp_all add: vector_write_in nat_less_iff)
  with d' assms(3,4) show thesis
    by (intro that [of "tb\<lparr>tb_buckets := ?bs, tb_allocator := d'\<rparr>"])
      (simp_all add: tb_update_and_check_def)
qed

text \<open>C5. The policer conforms to its rate: whatever packets a flow sends, in order of time, the bytes
  that pass are at most the tokens its bucket held plus what the rate gives in the time that
  went by, counting one more nanosecond for each packet when the burst is not worth a whole
  number of nanoseconds.\<close>
theorem policing_conforms:
  assumes "chain_rep (tb_allocator tb) L F" "index \<in> set (ids L)"
    and "nat index < length (vec_data (tb_buckets tb))"
    and "tb_rate tb \<noteq> 0" "unat (tb_burst tb) * 1000000000 < 2 ^ 64"
    and "bk_tokens (bucket_at tb index) \<le> tb_burst tb" "0 \<le> bk_time (bucket_at tb index)"
    and "sorted (bk_time (bucket_at tb index) # map snd pkts)" "\<forall>(len, t) \<in> set pkts. t < 2 ^ 63"
  shows "\<exists>tb' passes. tb_updates tb index pkts = Inr (tb', passes) \<and>
    1000000000 * passed_bytes pkts passes \<le>
      1000000000 * unat (bk_tokens (bucket_at tb index)) +
      unat (tb_rate tb) *
        (nat (last (bk_time (bucket_at tb index) # map snd pkts) - bk_time (bucket_at tb index)) +
         length pkts * accrual_slack (tb_rate tb) (tb_burst tb))"
  using assms
proof (induction pkts arbitrary: tb L)
  case (Cons pkt pkts)
  obtain len t where pkt: "pkt = (len, t)" by (cases pkt)
  let ?b = "bucket_at tb index" and ?s = "accrual_slack (tb_rate tb) (tb_burst tb)"
    and ?r = "unat (tb_rate tb)"
  have t: "bk_time ?b \<le> t" "t < 2 ^ 63" "sorted (t # map snd pkts)"
    using Cons.prems(8,9) by (simp_all add: pkt)
  obtain b pass where b: "bucket_update (tb_rate tb) (tb_burst tb) ?b len t = Inr (b, pass)"
    "bk_tokens b \<le> tb_burst tb" "bk_time b = t"
    "1000000000 * (unat (bk_tokens b) + (if pass then unat len else 0)) \<le>
      1000000000 * unat (bk_tokens ?b) + ?r * (nat (t - bk_time ?b) + ?s)"
    by (rule bucket_update_bound [OF Cons.prems(4-7) t(1,2)])
  obtain tb1 where tb1: "tb_update_and_check tb index len t = Inr (tb1, pass)"
    "chain_rep (tb_allocator tb1) (forget index L @ [(index, t)]) F" "bucket_at tb1 index = b"
    "length (vec_data (tb_buckets tb1)) = length (vec_data (tb_buckets tb))"
    "tb_rate tb1 = tb_rate tb" "tb_burst tb1 = tb_burst tb"
    by (rule tb_update_run [OF Cons.prems(1-3) b(1)])
  have "\<exists>tb' passes. tb_updates tb1 index pkts = Inr (tb', passes) \<and>
      1000000000 * passed_bytes pkts passes \<le> 1000000000 * unat (bk_tokens b) +
        ?r * (nat (last (t # map snd pkts) - t) + length pkts * ?s)"
    using Cons.IH [OF tb1(2)] Cons.prems(3,4,5,7,9) tb1(3-6) b(2,3) t(1,3) by simp
  then obtain tb' passes where
    r: "tb_updates tb1 index pkts = Inr (tb', passes)"
      "1000000000 * passed_bytes pkts passes \<le> 1000000000 * unat (bk_tokens b) +
        ?r * (nat (last (t # map snd pkts) - t) + length pkts * ?s)" by blast
  have "t \<le> last (t # map snd pkts)"
    using t(3) by (cases "pkts = []") (simp_all add: last_map)
  then have "nat (last (t # map snd pkts) - bk_time ?b) =
      nat (last (t # map snd pkts) - t) + nat (t - bk_time ?b)" using t(1) by simp
  then have "?r * (nat (last (t # map snd pkts) - bk_time ?b) + (1 + length pkts) * ?s) =
      ?r * (nat (last (t # map snd pkts) - t) + length pkts * ?s) + ?r * (nat (t - bk_time ?b) + ?s)"
    by (simp add: algebra_simps)
  with r b(4) tb1(1) show ?case
    by (intro exI [of _ tb'] exI [of _ "pass # passes"]) (simp add: pkt)
qed simp

definition empty_nf_map :: "int nf_map" where
  "empty_nf_map = \<lparr>busybits = [0, 0], keyps = [0, 0], khs = [0, 0], chns = [0, 0], map_vals = [0, 0],
     map_capacity = 2, map_count = 0, key_size = 4\<rparr>"

theorem policing_conforms_witness:
  "\<exists>d tb tb' passes. chain_rep d [(0, 5)] [1] \<and>
     tb = \<lparr>tb_flows = empty_nf_map, tb_keys = \<lparr>vec_data = [10, 20 :: u32], vec_capacity = 2\<rparr>,
       tb_buckets = \<lparr>vec_data = [\<lparr>bk_tokens = 500, bk_time = 5\<rparr>, \<lparr>bk_tokens = 0, bk_time = 0\<rparr>],
         vec_capacity = 2\<rparr>,
       tb_allocator = d, tb_capacity = 2, tb_rate = 1000000, tb_burst = 1000\<rparr> \<and>
     tb_updates tb 0 [(400, 5), (400, 1005), (99, 1005)] = Inr (tb', passes) \<and>
     passed_bytes [(400, 5), (400, 1005), (99, 1005)] passes \<le> 501"
proof -
  have u: "[0..2 - 1] = [0, 1 :: int]" by (simp add: upto.simps)
  have l: "(1 :: int) \<le> 2" "int (length (replicate 4 \<lparr>dc_prev = 0, dc_next = 0\<rparr>)) = 2 + 2"
    "int (length [0, 0 :: int]) = 2" by simp_all
  from dchain_allocate_correct_blocks [OF l, unfolded u] obtain d0 where
    "chain_rep d0 [] [0, 1]" by blast
  from chain.alloc_fresh [OF this, of 5] obtain d where d: "chain_rep d [(0, 5)] [1]" by auto
  let ?b = "\<lparr>bk_tokens = 500, bk_time = 5\<rparr>"
  let ?tb = "\<lparr>tb_flows = empty_nf_map, tb_keys = \<lparr>vec_data = [10, 20 :: u32], vec_capacity = 2\<rparr>,
       tb_buckets = \<lparr>vec_data = [?b, \<lparr>bk_tokens = 0, bk_time = 0\<rparr>], vec_capacity = 2\<rparr>,
       tb_allocator = d, tb_capacity = 2, tb_rate = 1000000, tb_burst = 1000\<rparr>"
  define tb where "tb = ?tb"
  define pkts where "pkts = [(400 :: u16, 5 :: int), (400, 1005), (99, 1005)]"
  have b: "vec_data (tb_buckets tb) = [?b, \<lparr>bk_tokens = 0, bk_time = 0\<rparr>]" "tb_rate tb = 1000000"
    "tb_burst tb = 1000" "tb_allocator tb = d" by (simp_all add: tb_def)
  have n: "1000000000 * unat (bk_tokens (bucket_at tb 0)) + unat (tb_rate tb) *
        (nat (last (bk_time (bucket_at tb 0) # map snd pkts) - bk_time (bucket_at tb 0)) +
         length pkts * accrual_slack (tb_rate tb) (tb_burst tb)) = 501000000000"
    by (simp add: b pkts_def accrual_slack_def)
  have "\<exists>tb' passes. tb_updates tb 0 pkts = Inr (tb', passes) \<and>
    1000000000 * passed_bytes pkts passes \<le> 501000000000"
    unfolding n [symmetric]
  proof (rule policing_conforms [of tb "[(0, 5)]" "[1]" 0 pkts])
    show "chain_rep (tb_allocator tb) [(0, 5)] [1]" using d by (simp only: b)
    show "(0 :: int) \<in> set (ids [(0, 5)])" by simp
    show "nat 0 < length (vec_data (tb_buckets tb))" by (simp add: b)
    show "tb_rate tb \<noteq> 0" by (simp add: b)
    show "unat (tb_burst tb) * 1000000000 < 2 ^ 64" by (simp add: b)
    show "bk_tokens (bucket_at tb 0) \<le> tb_burst tb" by (simp add: b)
    show "0 \<le> bk_time (bucket_at tb 0)" by (simp add: b)
    show "sorted (bk_time (bucket_at tb 0) # map snd pkts)" by (simp add: b pkts_def)
    show "\<forall>(len, t) \<in> set pkts. t < 2 ^ 63" by (simp add: pkts_def)
  qed
  then obtain tb' passes where r: "tb_updates tb 0 pkts = Inr (tb', passes)"
    "1000000000 * passed_bytes pkts passes \<le> 501000000000" by blast
  from r(2) have "passed_bytes pkts passes \<le> 501" by linarith
  with d tb_def r(1) show ?thesis
    unfolding pkts_def by (intro exI [of _ d] exI [of _ tb] exI conjI)
qed

end
