(* ===== verification/Policer.thy ===== *)
theory Policer
  imports TokenBucket NFPacket NatFlows
begin

text \<open>
  The policer, \<^verbatim>\<open>dpdk-nfs/pol\<close>: packets from outside pass as far as the token bucket of their
  destination address has tokens.
\<close>

section \<open>State and processing\<close>

record pol_state =
  pol_tb :: "u32 token_bucket"
  pol_int_devices :: "int nf_vector"
  pol_fwd_rules :: "u16 nf_vector"
  pol_capacity :: u32
  pol_rate :: u64
  pol_burst :: u64
  pol_dev_count :: u32

definition pol_alloc_state ::
  "u32 token_bucket option \<Rightarrow> int nf_vector option \<Rightarrow> u16 nf_vector option \<Rightarrow> nat \<Rightarrow> u16 list \<Rightarrow>
     (u16 \<times> u16) list \<Rightarrow> u32 \<Rightarrow> u64 \<Rightarrow> u64 \<Rightarrow> u32 \<Rightarrow> pol_state option"
where
  "pol_alloc_state tb ints rules devices_avail devices rule_list capacity rate burst dev_count =
     (case (tb, ints, rules) of
        (Some tb, Some ints, Some rules) \<Rightarrow>
          Some \<lparr>pol_tb = tb,
                pol_int_devices = ints\<lparr>vec_data := map (int_device_entry devices) [0..<devices_avail]\<rparr>,
                pol_fwd_rules = rules\<lparr>vec_data := map (fwd_rule_entry rule_list) [0..<devices_avail]\<rparr>,
                pol_capacity = capacity, pol_rate = rate, pol_burst = burst, pol_dev_count = dev_count\<rparr>
      | _ \<Rightarrow> None)"

text \<open>
  A packet from outside: a traced address is checked, and a packet that passes goes on to the
  call that traces its address, as one whose address is not traced does.
\<close>

definition pol_police ::
  "(u32 \<Rightarrow> u32 \<Rightarrow> u32) \<Rightarrow> u32 token_bucket \<Rightarrow> u32 \<Rightarrow> u16 \<Rightarrow> int \<Rightarrow> (u32 token_bucket \<times> bool) result"
where
  "pol_police crc tb dst_addr packet_length now =
     rbind (case tb_is_tracing crc bytes32 tb dst_addr of
              None \<Rightarrow> Inr (tb, True)
            | Some index \<Rightarrow> tb_update_and_check tb index packet_length now) (\<lambda>(tb, pass).
     if \<not> pass then Inr (tb, False)
     else
       rbind (tb_trace crc bytes32 tb dst_addr packet_length now) (\<lambda>(tb, allocated).
       Inr (tb, allocated \<noteq> None)))"

definition pol_forward ::
  "(u32 \<Rightarrow> u32 \<Rightarrow> u32) \<Rightarrow> pol_state \<Rightarrow> u16 \<Rightarrow> u16 \<Rightarrow> int \<Rightarrow> packet \<Rightarrow>
     (pol_state \<times> packet \<times> u16) result"
where
  "pol_forward crc st device packet_length now p =
     rbind (nf_then_get_ether_header p) (\<lambda>p.
     rbind (nf_then_get_ipv4_header p) (\<lambda>ip.
     case ip of
       None \<Rightarrow> Inr (st, p, DROP)
     | Some p \<Rightarrow>
         rbind (is_internal (pol_int_devices st) device) (\<lambda>internal.
         rbind (if internal then Inr (pol_tb st, True)
                else pol_police crc (pol_tb st) (ip_dst_addr (pk_ip p)) packet_length now)
           (\<lambda>(tb, pass).
         let st = st\<lparr>pol_tb := tb\<rparr> in
         if \<not> pass then Inr (st, p, DROP)
         else rbind (get_dst_dev (pol_fwd_rules st) device) (\<lambda>dst. Inr (st, p, dst))))))"

definition pol_process ::
  "(u32 \<Rightarrow> u32 \<Rightarrow> u32) \<Rightarrow> pol_state \<Rightarrow> u16 \<Rightarrow> u16 \<Rightarrow> int \<Rightarrow> packet \<Rightarrow>
     (pol_state \<times> packet \<times> u16) result option"
where
  "pol_process crc st device packet_length now p =
     map_option
       (\<lambda>r. rbind r (\<lambda>(tb, count).
          pol_forward crc (st\<lparr>pol_tb := tb\<rparr>) device packet_length now p))
       (tb_expire crc bytes32 (pol_tb st) now)"

lemma bytes32_key_inj: "take (unat (4 :: u32)) (bytes32 k) = take (unat (4 :: u32)) (bytes32 k') \<Longrightarrow> k = k'"
  by simp

interpretation pol_flows: nf_flows crc capacity 4 bytes32 for crc capacity
  by unfold_locales (rule bytes32_key_inj)

section \<open>What is policed\<close>

lemma tb_update_wf:
  assumes "tb_wf crc n 4 bytes32 tb L F" "i \<in> set (ids L)"
    and "bucket_update (tb_rate tb) (tb_burst tb) (bucket_at tb i) len now = Inr (b, pass)"
    and "bk_tokens b \<le> tb_burst tb"
  obtains tb' where "tb_update_and_check tb i len now = Inr (tb', pass)"
    "tb_wf crc n 4 bytes32 tb' (forget i L @ [(i, now)]) F" "bucket_at tb' i = b"
    "tb_keys tb' = tb_keys tb"
proof -
  have t: "table_flows chain_rep (map_rep crc n 4) (unat n) bytes32
      (tb_allocator tb) (tb_keys tb) (tb_flows tb) L F"
    and l: "length (vec_data (tb_keys tb)) = unat n" "length (vec_data (tb_buckets tb)) = unat n"
    using assms(1) by (simp_all add: tb_wf_def)
  have i: "0 \<le> i" "i < int (length (vec_data (tb_buckets tb)))"
    using pol_flows.tab.flows_range [OF t, of i] assms(2) l by simp_all
  from pol_flows.tab.rejuvenate_flow [OF t assms(2), of now] obtain d' where
    d': "dchain_rejuvenate_index (tb_allocator tb) i now = Inr (d', True)"
      "table_flows chain_rep (map_rep crc n 4) (unat n) bytes32
        d' (tb_keys tb) (tb_flows tb) (forget i L @ [(i, now)]) F" by blast
  let ?bs = "(tb_buckets tb)\<lparr>vec_data := (vec_data (tb_buckets tb))[nat i := b]\<rparr>"
  have w: "vector_borrow (tb_buckets tb) i = Inr (bucket_at tb i)"
    "vector_write (tb_buckets tb) i b = Inr ?bs" using i by (simp_all add: vector_write_in)
  have n: "nat i < length (vec_data (tb_buckets tb))" using i by (simp add: nat_less_iff)
  have "bk_tokens (vec_data ?bs ! nat j) \<le> tb_burst tb" if "j \<in> set (ids (forget i L @ [(i, now)]))" for j
  proof (cases "nat j = nat i")
    case True
    with n assms(4) show ?thesis by simp
  next
    case False
    then have "j \<in> set (ids L)" using that by auto
    then have "bk_tokens (bucket_at tb j) \<le> tb_burst tb" using assms(1) by (auto simp: tb_wf_def)
    with False show ?thesis by simp
  qed
  with d' w n l assms(3) show thesis
    by (intro that [of "tb\<lparr>tb_buckets := ?bs, tb_allocator := d'\<rparr>"])
      (simp_all add: tb_update_and_check_def tb_wf_def)
qed

text \<open>A full table stops conforming traffic: once every index is allocated, a packet to an
  address that is traced, and whose bucket has tokens for it, is taken from the bucket and then
  dropped, because the code goes on to trace the address a second time.\<close>
lemma policer_drops_when_table_full:
  assumes "tb_wf crc n 4 bytes32 tb L []" "i \<in> set (ids L)"
    and "vec_data (tb_keys tb) ! nat i = addr"
    and "bucket_update (tb_rate tb) (tb_burst tb) (bucket_at tb i) len now = Inr (b, True)"
    and "bk_tokens b \<le> tb_burst tb"
  shows "\<exists>tb'. pol_police crc tb addr len now = Inr (tb', False) \<and> bucket_at tb' i = b"
proof -
  have "tb_is_tracing crc bytes32 tb addr = Some i"
    using pol_flows.tb_is_tracing_iff [OF assms(1), of addr i] assms(2,3) by simp
  moreover obtain tb1 where tb1: "tb_update_and_check tb i len now = Inr (tb1, True)"
    "tb_wf crc n 4 bytes32 tb1 (forget i L @ [(i, now)]) []" "bucket_at tb1 i = b"
    by (rule tb_update_wf [OF assms(1,2,4,5)])
  moreover from pol_flows.tb_trace_full [OF tb1(2), of addr len now] obtain tb2 where
    "tb_trace crc bytes32 tb1 addr len now = Inr (tb2, None)" by blast
  moreover from this tb1(3) have "bucket_at tb2 i = b"
    by (auto simp: tb_trace_def rbind_eq_Inr split: option.splits)
  ultimately show ?thesis by (simp add: pol_police_def)
qed

text \<open>A table of one flow, filled by its first packet.\<close>

definition fresh_bucket_table :: "u32 token_bucket option" where
  "fresh_bucket_table =
     (case dchain_allocate True (Some (replicate 3 \<lparr>dc_prev = 0, dc_next = 0\<rparr>)) (Some [0]) 1 of
        Inl e \<Rightarrow> None
      | Inr allocator \<Rightarrow>
          tb_allocate True
            (map_allocate True (Some [0]) (Some [0]) (Some [0]) (Some [0]) (Some [0]) 1 4)
            (vector_allocate True (Some [0]) 0 1)
            (vector_allocate True (Some [\<lparr>bk_tokens = 0, bk_time = 0\<rparr>])
               \<lparr>bk_tokens = 0, bk_time = 0\<rparr> 1)
            allocator 1 1000 1000)"

lemma fresh_bucket_table_wf:
  obtains tb where "fresh_bucket_table = Some tb" "tb_wf crc 1 4 bytes32 tb [] [0]"
    "tb_rate tb = 1000" "tb_burst tb = 1000"
proof -
  let ?cells = "replicate 3 \<lparr>dc_prev = 0, dc_next = 0\<rparr>"
  have u: "[0..1 - 1] = [0 :: int]" by (simp add: upto.simps)
  have l: "(1 :: int) \<le> 1" "int (length ?cells) = 1 + 2" "int (length [0 :: int]) = 1" by simp_all
  from dchain_allocate_correct_blocks [OF l] obtain d where
    d: "dchain_allocate True (Some ?cells) (Some [0]) 1 = Inr (Some d)" "chain_rep d [] [0]"
    unfolding u by blast
  obtain fm where fm: "map_allocate True (Some [0]) (Some [0]) (Some [0]) (Some [0]) (Some [0]) 1 4 =
      Some (fm :: int nf_map)"
    by (simp add: map_allocate_def compute_is_power_of_two_def)
  let ?z = "\<lparr>bk_tokens = 0, bk_time = 0\<rparr> :: tb_bucket"
  have v: "vector_allocate True (Some [0 :: u32]) 0 1 = Some \<lparr>vec_data = [0], vec_capacity = 1\<rparr>"
    "vector_allocate True (Some [?z]) ?z 1 = Some \<lparr>vec_data = [?z], vec_capacity = 1\<rparr>"
    by (simp_all add: vector_allocate_def)
  let ?tb = "\<lparr>tb_flows = fm, tb_keys = \<lparr>vec_data = [0], vec_capacity = 1\<rparr>,
    tb_buckets = \<lparr>vec_data = [?z], vec_capacity = 1\<rparr>, tb_allocator = d, tb_capacity = 1,
    tb_rate = 1000, tb_burst = 1000\<rparr>"
  have "fresh_bucket_table = Some ?tb"
    unfolding fresh_bucket_table_def d(1) fm v by (simp add: tb_allocate_def)
  moreover have "map_wf crc (vector_mem bytes32 (tb_keys ?tb)) fm" "stored fm = {}"
    "map_capacity fm = 1" "key_size fm = 4"
    using map_allocate_correct [OF _ _ _ _ _ fm] by simp_all
  then have "tb_wf crc 1 4 bytes32 ?tb [] [0]"
    using d(2) by (auto simp: tb_wf_def table_flows_def map_rep_def)
  ultimately show thesis by (intro that [of ?tb]) simp_all
qed

lemma policer_drops_when_table_full_witness:
  "\<exists>tb tb1 tb2. fresh_bucket_table = Some tb \<and>
     pol_police (\<lambda>h x. h XOR x) tb 10 100 5 = Inr (tb1, True) \<and>
     pol_police (\<lambda>h x. h XOR x) tb1 10 100 6 = Inr (tb2, False) \<and>
     bk_tokens (bucket_at tb2 0) = 800"
proof -
  let ?crc = "\<lambda>h x :: u32. h XOR x"
  obtain tb where tb: "fresh_bucket_table = Some tb" "tb_wf ?crc 1 4 bytes32 tb [] [0]"
    "tb_rate tb = 1000" "tb_burst tb = 1000" by (rule fresh_bucket_table_wf)
  have "ucast (100 :: u16) \<le> tb_burst tb" by (simp add: tb(4))
  from pol_flows.tb_trace_new [OF tb(2) _ this, of 10 5] obtain tb1 where
    tb1: "tb_trace ?crc bytes32 tb 10 100 5 = Inr (tb1, Some 0)"
      "tb_wf ?crc 1 4 bytes32 tb1 [(0, 5)] []" "bucket_at tb1 0 = \<lparr>bk_tokens = 900, bk_time = 5\<rparr>"
      "tb_rate tb1 = 1000" "tb_burst tb1 = 1000" and k: "vec_data (tb_keys tb1) ! nat 0 = 10"
    by (auto simp: tb(3,4))
  have n: "tb_is_tracing ?crc bytes32 tb 10 = None"
    using pol_flows.tb_is_tracing_iff [OF tb(2), of 10] by (metis not_None_eq empty_iff list.set(1) list.simps(8))
  have f: "pol_police ?crc tb 10 100 5 = Inr (tb1, True)" by (simp add: pol_police_def n tb1(1))
  have "bucket_update (tb_rate tb1) (tb_burst tb1) (bucket_at tb1 0) 100 6 =
      Inr (\<lparr>bk_tokens = 800, bk_time = 6\<rparr>, True)"
    unfolding tb1(3-5) by (simp add: bucket_update_def bucket_refill_def)
  from policer_drops_when_table_full [OF tb1(2) _ k this] tb(1) f show ?thesis
    by (auto simp: tb1(5))
qed

end
