(* ===== verification/Compute.thy ===== *)
theory Compute
  imports Prelude
begin

text \<open>
  The arithmetic helpers of \<^verbatim>\<open>dpdk-nfs/lib/util/compute.h\<close> and the hash of
  \<^verbatim>\<open>lib/util/hash.c\<close>.
\<close>

unbundle bit_operations_syntax

section \<open>Powers of two\<close>

definition ensure_power_of_two :: "u64 \<Rightarrow> u64" where
  "ensure_power_of_two n =
     (let n = n OR drop_bit 1 n;
          n = n OR drop_bit 2 n;
          n = n OR drop_bit 4 n;
          n = n OR drop_bit 8 n;
          n = n OR drop_bit 16 n;
          n = n OR drop_bit 32 n
      in n + 1)"

text \<open>Each step doubles the distance over which the set bits of \<open>n\<close> are spread downwards.\<close>

definition smeared :: "nat \<Rightarrow> u64 \<Rightarrow> u64 \<Rightarrow> bool" where
  "smeared m n x \<longleftrightarrow> (\<forall>j. bit x j \<longleftrightarrow> (\<exists>i < m. bit n (j + i)))"

lemma smeared_1: "smeared 1 n n"
  by (simp add: smeared_def)

lemma smeared_step:
  assumes "smeared m n x" "k = m + m"
  shows "smeared k n (x OR drop_bit m x)"
  unfolding smeared_def assms(2)
proof
  fix j
  have "(\<exists>i < m + m. bit n (j + i)) \<longleftrightarrow> (\<exists>i < m. bit n (j + i)) \<or> (\<exists>i < m. bit n (m + j + i))"
  proof
    assume "\<exists>i < m + m. bit n (j + i)"
    then obtain i where i: "i < m + m" "bit n (j + i)" by blast
    show "(\<exists>i < m. bit n (j + i)) \<or> (\<exists>i < m. bit n (m + j + i))"
    proof (cases "i < m")
      case False
      with i have "i - m < m" "bit n (m + j + (i - m))" by (simp_all add: add.commute)
      then show ?thesis by blast
    qed (use i in blast)
  next
    assume "(\<exists>i < m. bit n (j + i)) \<or> (\<exists>i < m. bit n (m + j + i))"
    then show "\<exists>i < m + m. bit n (j + i)"
    proof
      assume "\<exists>i < m. bit n (m + j + i)"
      then obtain i where "i < m" "bit n (m + j + i)" by blast
      then show ?thesis by (intro exI [of _ "m + i"]) (simp add: ac_simps)
    qed (use trans_less_add1 in blast)
  qed
  with assms(1) show "bit (x OR drop_bit m x) j \<longleftrightarrow> (\<exists>i < m + m. bit n (j + i))"
    by (simp add: smeared_def bit_or_iff bit_drop_bit_eq)
qed

lemma highest_bit:
  fixes n :: u64
  assumes "n \<noteq> 0"
  obtains k where "k < 64" "bit n k" "\<And>j. k < j \<Longrightarrow> \<not> bit n j"
proof -
  from assms obtain i where "bit n i" by (auto simp: bit_eq_iff)
  then have ne: "{i. bit n i} \<noteq> {}" by blast
  have sub: "{i. bit n i} \<subseteq> {..<64}" by (auto dest: bit_imp_le_length)
  then have fin: "finite {i. bit n i}" by (rule finite_subset) simp
  show thesis
  proof (rule that [of "Max {i. bit n i}"])
    show "Max {i. bit n i} < 64" using Max_in [OF fin ne] sub by blast
    show "bit n (Max {i. bit n i})" using Max_in [OF fin ne] by simp
    show "\<not> bit n j" if "Max {i. bit n i} < j" for j
    proof
      assume "bit n j"
      then have "j \<le> Max {i. bit n i}" using fin by (intro Max_ge) simp_all
      with that show False by simp
    qed
  qed
qed

lemma ensure_power_of_two_highest:
  fixes n :: u64
  assumes "bit n k" "k < 64" "\<And>j. k < j \<Longrightarrow> \<not> bit n j"
  shows "ensure_power_of_two n = 2 ^ Suc k"
proof -
  define x2 where "x2 = n OR drop_bit 1 n"
  define x4 where "x4 = x2 OR drop_bit 2 x2"
  define x8 where "x8 = x4 OR drop_bit 4 x4"
  define x16 where "x16 = x8 OR drop_bit 8 x8"
  define x32 where "x32 = x16 OR drop_bit 16 x16"
  define x where "x = x32 OR drop_bit 32 x32"
  have "smeared 2 n x2" unfolding x2_def by (rule smeared_step [OF smeared_1]) simp
  then have "smeared 4 n x4" unfolding x4_def by (rule smeared_step) simp
  then have "smeared 8 n x8" unfolding x8_def by (rule smeared_step) simp
  then have "smeared 16 n x16" unfolding x16_def by (rule smeared_step) simp
  then have "smeared 32 n x32" unfolding x32_def by (rule smeared_step) simp
  then have sm: "smeared 64 n x" unfolding x_def by (rule smeared_step) simp
  have b: "bit x j \<longleftrightarrow> j \<le> k" for j
  proof
    assume "bit x j"
    then obtain i where "bit n (j + i)" using sm by (auto simp: smeared_def)
    with assms(3) [of "j + i"] show "j \<le> k" by linarith
  next
    assume "j \<le> k"
    with assms(1,2) have "k - j < 64" "bit n (j + (k - j))" by simp_all
    with sm show "bit x j" unfolding smeared_def by blast
  qed
  have "x = mask (Suc k)"
  proof (rule bit_eqI)
    fix j
    have "j \<le> k \<longleftrightarrow> j < Suc k \<and> j < 64" using assms(2) by linarith
    then show "bit x j \<longleftrightarrow> bit (mask (Suc k) :: u64) j" unfolding b by (simp add: bit_mask_iff conj_commute)
  qed
  moreover have "ensure_power_of_two n = x + 1" 
    by (simp only: ensure_power_of_two_def Let_def x_def x32_def x16_def x8_def x4_def x2_def)
  ultimately show ?thesis by (simp only: mask_eq_exp_minus_1 diff_add_cancel)
qed

lemma highest_bit_bounds:
  fixes n :: u64
  assumes "bit n k" "k < 64" "\<And>j. k < j \<Longrightarrow> \<not> bit n j"
  shows "2 ^ k \<le> unat n" "unat n < 2 ^ Suc k"
proof -
  have "take_bit (Suc k) n = n"
  proof (rule bit_eqI)
    fix j show "bit (take_bit (Suc k) n) j \<longleftrightarrow> bit n j"
      using assms(3) [of j] by (cases "j < Suc k") (simp_all add: bit_take_bit_iff)
  qed
  then have "take_bit (Suc k) (unat n) = unat n" by (metis unsigned_take_bit_eq)
  then show "unat n < 2 ^ Suc k" by (metis take_bit_nat_less_exp)
  have b: "bit (unat n) k" using assms(1,2) by (simp add: bit_unsigned_iff)
  show "2 ^ k \<le> unat n"
  proof (rule ccontr)
    assume "\<not> 2 ^ k \<le> unat n"
    then have "drop_bit k (unat n) = 0" by (simp add: drop_bit_eq_div)
    with b show False by (simp add: bit_iff_odd_drop_bit)
  qed
qed

text \<open>The result is the least power of two strictly above the argument.\<close>

lemma ensure_power_of_two_above:
  assumes "unat n < 2 ^ 63"
  obtains k where "unat (ensure_power_of_two n) = 2 ^ k" "unat n < 2 ^ k"
    "2 ^ k \<le> 2 * max 1 (unat n)"
proof (cases "n = 0")
  case True
  then show thesis by (intro that [of 0]) (simp_all add: ensure_power_of_two_def)
next
  case False
  from highest_bit [OF False] obtain k where k: "k < 64" "bit n k" "\<And>j. k < j \<Longrightarrow> \<not> bit n j" by blast
  note b = highest_bit_bounds [OF k(2,1,3)]
  have "(2 :: nat) ^ k < 2 ^ 63" using b(1) assms by (rule le_less_trans)
  then have "k < 63" by (rule power_less_imp_less_exp [rotated]) simp
  then have "(2 :: nat) ^ Suc k < 2 ^ 64" by (intro power_strict_increasing) simp_all
  moreover have "unat (of_nat (2 ^ Suc k) :: u64) = 2 ^ Suc k mod 2 ^ 64"
    by (simp only: unat_of_nat word_size len_num1) simp
  ultimately have "unat (2 ^ Suc k :: u64) = 2 ^ Suc k" by simp
  with b ensure_power_of_two_highest [OF k(2,1,3)] show thesis
    by (intro that [of "Suc k"]) auto
qed

section \<open>Primes\<close>

lemma unat_suc_below: "i < n \<Longrightarrow> unat (i + 1) = Suc (unat i)"
  for i n :: u64
proof -
  assume "i < n"
  then have "unat i < unat n" by (simp add: word_less_nat_alt)
  moreover have "unat n < 2 ^ LENGTH(64)" by (rule unsigned_less)
  ultimately show ?thesis by (subst unat_add_lem [THEN iffD1]) simp_all
qed

function prime_loop :: "u64 \<Rightarrow> u64 \<Rightarrow> bool" where
  "prime_loop n i = (if i < n then (if n mod i = 0 then False else prime_loop n (i + 1)) else True)"
  by pat_completeness auto

termination
  by (relation "measure (\<lambda>(n, i). unat n - unat i)")
    (auto simp: unat_suc_below word_less_nat_alt)

declare prime_loop.simps [simp del]

definition is_prime :: "u64 \<Rightarrow> bool" where
  "is_prime n = (if n \<le> 1 then False else if n \<le> 3 then True else prime_loop n 2)"

lemma prime_loop_iff:
  "prime_loop n i \<longleftrightarrow> (\<forall>m. unat i \<le> m \<and> m < unat n \<longrightarrow> \<not> m dvd unat n)"
proof (induction n i rule: prime_loop.induct)
  case (1 n i)
  show ?case
  proof (cases "i < n")
    case True
    have d: "n mod i = 0 \<longleftrightarrow> unat i dvd unat n"
      by (simp add: unat_eq_0 [symmetric] unat_mod mod_eq_0_iff_dvd del: unat_eq_0)
    show ?thesis
    proof (cases "n mod i = 0")
      case m: True
      with True d show ?thesis by (subst prime_loop.simps) (auto simp: word_less_nat_alt)
    next
      case False
      have "prime_loop n i = prime_loop n (i + 1)" using True False by (subst prime_loop.simps) simp
      also have "\<dots> \<longleftrightarrow> (\<forall>m. Suc (unat i) \<le> m \<and> m < unat n \<longrightarrow> \<not> m dvd unat n)"
        using 1 [OF True False] by (simp add: unat_suc_below [OF True])
      also have "\<dots> \<longleftrightarrow> (\<forall>m. unat i \<le> m \<and> m < unat n \<longrightarrow> \<not> m dvd unat n)"
        using False d by (metis Suc_leD Suc_leI le_neq_implies_less)
      finally show ?thesis .
    qed
  next
    case False
    then show ?thesis by (subst prime_loop.simps) (auto simp: word_less_nat_alt)
  qed
qed

lemma is_prime_iff:
  "is_prime n \<longleftrightarrow> 1 < unat n \<and> (\<forall>m. m dvd unat n \<longrightarrow> m = 1 \<or> m = unat n)"
proof -
  have l: "n \<le> 1 \<longleftrightarrow> unat n \<le> 1" "n \<le> 3 \<longleftrightarrow> unat n \<le> 3" by (simp_all add: word_le_nat_alt)
  have p: "prime_loop n 2 \<longleftrightarrow> (\<forall>m. m dvd unat n \<longrightarrow> m = 1 \<or> m = unat n)" if n: "1 < unat n"
  proof -
    have u: "unat (2 :: u64) = 2" by simp
    have l: "prime_loop n 2 \<longleftrightarrow> (\<forall>m. 2 \<le> m \<and> m < unat n \<longrightarrow> \<not> m dvd unat n)"
      unfolding prime_loop_iff u ..
    show ?thesis
    proof
      assume p: "prime_loop n 2"
      show "\<forall>m. m dvd unat n \<longrightarrow> m = 1 \<or> m = unat n"
      proof (intro allI impI)
        fix m assume m: "m dvd unat n"
        then have "m \<le> unat n" "m \<noteq> 0" using n by (auto dest: dvd_imp_le intro: ccontr)
        moreover have "\<not> (2 \<le> m \<and> m < unat n)" using p m unfolding l by blast
        ultimately show "m = 1 \<or> m = unat n" by linarith
      qed
    next
      assume "\<forall>m. m dvd unat n \<longrightarrow> m = 1 \<or> m = unat n"
      then show "prime_loop n 2" unfolding l
        by (metis less_irrefl not_numeral_le_zero numeral_le_one_iff semiring_norm(69))
    qed
  qed
  have s: "m = 1 \<or> m = unat n" if "1 < unat n" "unat n \<le> 3" "m dvd unat n" for m
  proof (rule ccontr)
    assume "\<not> ?thesis"
    moreover have "m \<le> unat n" "m \<noteq> 0" using that by (auto dest: dvd_imp_le intro: ccontr)
    ultimately have "m = 2" "unat n = 3" using that(1,2) by linarith+
    then show False using that(3) by simp
  qed
  show ?thesis
  proof (cases "1 < unat n"; cases "unat n \<le> 3")
    assume "1 < unat n" "unat n \<le> 3"
    with s show ?thesis unfolding is_prime_def l by auto
  next
    assume "1 < unat n" "\<not> unat n \<le> 3"
    with p show ?thesis unfolding is_prime_def l by simp
  qed (simp_all add: is_prime_def l)
qed

section \<open>Hashing\<close>

text \<open>Four bytes at a time, then one: \<open>crc\<close> is the intrinsic.\<close>

definition word_of_bytes :: "u8 \<Rightarrow> u8 \<Rightarrow> u8 \<Rightarrow> u8 \<Rightarrow> u32" where
  "word_of_bytes a b c d =
     ucast a OR push_bit 8 (ucast b) OR push_bit 16 (ucast c) OR push_bit 24 (ucast d)"

fun hash_obj_loop :: "(u32 \<Rightarrow> u32 \<Rightarrow> u32) \<Rightarrow> u32 \<Rightarrow> u8 list \<Rightarrow> u32" where
  "hash_obj_loop crc hash (a # b # c # d # obj) =
     hash_obj_loop crc (crc hash (word_of_bytes a b c d)) obj"
| "hash_obj_loop crc hash (c # obj) = hash_obj_loop crc (crc hash (ucast c)) obj"
| "hash_obj_loop crc hash [] = hash"

definition hash_obj :: "(u32 \<Rightarrow> u32 \<Rightarrow> u32) \<Rightarrow> u8 list \<Rightarrow> u32 \<Rightarrow> u32" where
  "hash_obj crc obj size_bytes = hash_obj_loop crc 0 (take (unat size_bytes) obj)"

section \<open>Rows and columns\<close>

text \<open>Two-dimensional tables in one block.\<close>

lemma row_column_less:
  assumes "h < H" "x < W"
  shows "h * W + x < H * (W :: nat)"
proof -
  have "h * W + x < Suc h * W" using assms(2) by simp
  also have "\<dots> \<le> H * W" using assms(1) by (intro mult_le_mono1) simp
  finally show ?thesis .
qed

lemma row_column_inj:
  assumes "h * W + x = h' * W + x'" "x < W" "x' < (W :: nat)"
  shows "h = h' \<and> x = x'"
proof -
  have "(h * W + x) div W = h" "(h' * W + x') div W = h'" using assms(2,3) by simp_all
  with assms(1) show ?thesis by simp
qed

end
