(* ===== verification/CountMinSketches.thy ===== *)
theory CountMinSketches
  imports Compute NFVector
begin

text \<open>
  The count-min sketch of the network functions, \<^verbatim>\<open>dpdk-nfs/lib/state/cms.c\<close>: \<open>height\<close> rows
  of \<open>width\<close> counters in one vector, a key counting in one column of each row.
\<close>

section \<open>State and operations\<close>

definition CMS_SALTS :: "u32 list" where
  "CMS_SALTS =
    [0x9b78350f, 0x9bcf144c, 0x8ab29a3e, 0x34d48bf5, 0x78e47449, 0xd6e4af1d, 0x32ed75e2, 0xb1eb5a08,
     0x9cc7fbdf, 0x65b811ea, 0x41fd5ed9, 0x2e6a6782, 0x3549661d, 0xbb211240, 0x78daa2ae, 0x8ce2d11f,
     0x52911493, 0xc2497bd5, 0x83c232dd, 0x3e413e9f, 0x8831d191, 0x6770ac67, 0xcd1c9141, 0xad35861a,
     0xb79cd83d, 0xce3ec91f, 0x360942d1, 0x905000fa, 0x28bb469a, 0xdb239a17, 0x615cf3ae, 0xec9f7807,
     0x271dcc3c, 0x47b98e44, 0x33ff4a71, 0x02a063f8, 0xb051ebf2, 0x6f938d98, 0x2279abc3, 0xd55b01db,
     0xaa99e301, 0x95d0587c, 0xaee8684e, 0x24574971, 0x4b1e79a6, 0x4a646938, 0xa68d67f4, 0xb87839e6,
     0x8e3d388b, 0xed2af964, 0x541b83e3, 0xcb7fc8da, 0xe1140f8c, 0xe9724fd6, 0x616a78fa, 0x610cd51c,
     0x10f9173e, 0x8e180857, 0xa8f0b843, 0xd429a973, 0xceee91e5, 0x1d4c6b18, 0x2a80e6df, 0x396f4d23]"

record cms =
  cms_buckets :: "u64 nf_vector"
  cms_height :: u32
  cms_width :: u32
  cms_key_size :: u32
  cms_cleanup_interval :: int
  cms_last_cleanup :: int

text \<open>The blocks of memory are parameters; the vector has the next power of two of counters.\<close>

definition cms_allocate ::
  "bool \<Rightarrow> bool \<Rightarrow> u64 list option \<Rightarrow> u32 \<Rightarrow> u32 \<Rightarrow> u32 \<Rightarrow> int \<Rightarrow> cms option result" where
  "cms_allocate cms_alloc vector_alloc data_alloc height width ksize periodic_cleanup_interval =
     assert_that (height > 0) (assert_that (width > 0) (assert_that (height < 64)
     (if \<not> cms_alloc then Inr None
      else
        let capacity = ucast (ensure_power_of_two (ucast (height * width))) in
        Inr (map_option
          (\<lambda>buckets. \<lparr>cms_buckets = buckets, cms_height = height, cms_width = width,
             cms_key_size = ksize, cms_cleanup_interval = periodic_cleanup_interval,
             cms_last_cleanup = 0\<rparr>)
          (vector_allocate vector_alloc data_alloc 0 capacity)))))"

definition cms_offset :: "(u32 \<Rightarrow> u32 \<Rightarrow> u32) \<Rightarrow> cms \<Rightarrow> u8 list \<Rightarrow> nat \<Rightarrow> u32 result" where
  "cms_offset crc cms key h =
     (if h < length CMS_SALTS \<and> cms_width cms \<noteq> 0 then
        let hash = crc (CMS_SALTS ! h) (hash_obj crc key (cms_key_size cms)) in
        Inr (of_nat h * cms_width cms + hash mod cms_width cms)
      else Inl Undefined)"

fun cms_increment_rows :: "(u32 \<Rightarrow> u32 \<Rightarrow> u32) \<Rightarrow> cms \<Rightarrow> u8 list \<Rightarrow> nat list \<Rightarrow> cms result" where
  "cms_increment_rows crc cms key [] = Inr cms"
| "cms_increment_rows crc cms key (h # hs) =
     rbind (cms_offset crc cms key h) (\<lambda>offset.
     rbind (vector_borrow (cms_buckets cms) (uint offset)) (\<lambda>value.
     rbind (vector_write (cms_buckets cms) (uint offset) (value + 1)) (\<lambda>buckets.
     cms_increment_rows crc (cms\<lparr>cms_buckets := buckets\<rparr>) key hs)))"

definition cms_increment :: "(u32 \<Rightarrow> u32 \<Rightarrow> u32) \<Rightarrow> cms \<Rightarrow> u8 list \<Rightarrow> cms result" where
  "cms_increment crc cms key = cms_increment_rows crc cms key [0..<unat (cms_height cms)]"

text \<open>The running minimum is an \<^verbatim>\<open>int\<close>, compared with the counter as an unsigned number.\<close>

definition min_with_bucket :: "int \<Rightarrow> u64 \<Rightarrow> int" where
  "min_with_bucket min_val value =
     (let m = word_of_int min_val in sint (ucast (if m < value then m else value) :: u32))"

fun cms_min_rows :: "(u32 \<Rightarrow> u32 \<Rightarrow> u32) \<Rightarrow> cms \<Rightarrow> u8 list \<Rightarrow> int \<Rightarrow> nat list \<Rightarrow> int result" where
  "cms_min_rows crc cms key min_val [] = Inr min_val"
| "cms_min_rows crc cms key min_val (h # hs) =
     rbind (cms_offset crc cms key h) (\<lambda>offset.
     rbind (vector_borrow (cms_buckets cms) (uint offset)) (\<lambda>value.
     cms_min_rows crc cms key (min_with_bucket min_val value) hs))"

definition cms_count_min :: "(u32 \<Rightarrow> u32 \<Rightarrow> u32) \<Rightarrow> cms \<Rightarrow> u8 list \<Rightarrow> int result" where
  "cms_count_min crc cms key =
     cms_min_rows crc cms key 2147483647 [0..<unat (cms_height cms)]"

definition cms_periodic_cleanup :: "cms \<Rightarrow> int \<Rightarrow> cms \<times> bool" where
  "cms_periodic_cleanup cms now =
     (if cms_last_cleanup cms = 0 then (cms\<lparr>cms_last_cleanup := now\<rparr>, False)
      else if now - cms_last_cleanup cms < cms_cleanup_interval cms then (cms, False)
      else (cms\<lparr>cms_buckets := vector_clear 0 (cms_buckets cms), cms_last_cleanup := now\<rparr>, True))"

section \<open>What the counters hold\<close>

definition cms_column :: "(u32 \<Rightarrow> u32 \<Rightarrow> u32) \<Rightarrow> cms \<Rightarrow> u8 list \<Rightarrow> nat \<Rightarrow> nat" where
  "cms_column crc cms key h =
     unat (crc (CMS_SALTS ! h) (hash_obj crc key (cms_key_size cms)) mod cms_width cms)"

text \<open>The keys of \<open>ks\<close> that count in the column of \<open>key\<close> in row \<open>h\<close>.\<close>

definition colliding :: "(u32 \<Rightarrow> u32 \<Rightarrow> u32) \<Rightarrow> cms \<Rightarrow> u8 list list \<Rightarrow> u8 list \<Rightarrow> nat \<Rightarrow> nat" where
  "colliding crc cms ks key h =
     length (filter (\<lambda>k. cms_column crc cms k h = cms_column crc cms key h) ks)"

definition cms_shape :: "cms \<Rightarrow> bool" where
  "cms_shape cms \<longleftrightarrow>
     0 < unat (cms_width cms) \<and> unat (cms_height cms) < 64 \<and>
     unat (cms_height cms) * unat (cms_width cms) \<le> length (vec_data (cms_buckets cms)) \<and>
     unat (cms_height cms) * unat (cms_width cms) < 2 ^ 31"

definition cms_counts :: "(u32 \<Rightarrow> u32 \<Rightarrow> u32) \<Rightarrow> cms \<Rightarrow> u8 list list \<Rightarrow> bool" where
  "cms_counts crc cms ks \<longleftrightarrow>
     (\<forall>h < unat (cms_height cms). \<forall>x < unat (cms_width cms).
        vec_data (cms_buckets cms) ! (h * unat (cms_width cms) + x) =
          of_nat (length (filter (\<lambda>k. cms_column crc cms k h = x) ks)))"

lemma cms_column_less: "0 < unat (cms_width cms) \<Longrightarrow> cms_column crc cms key h < unat (cms_width cms)"
  by (simp add: cms_column_def unat_mod)

lemma length_salts [simp]: "length CMS_SALTS = 64"
  by (simp add: CMS_SALTS_def)

lemma cms_offset_eq:
  assumes "cms_shape cms" "h < unat (cms_height cms)"
  obtains offset where "cms_offset crc cms key h = Inr offset"
    "unat offset = h * unat (cms_width cms) + cms_column crc cms key h"
    "unat offset < length (vec_data (cms_buckets cms))"
proof -
  let ?W = "unat (cms_width cms)" and ?H = "unat (cms_height cms)"
  let ?hash = "crc (CMS_SALTS ! h) (hash_obj crc key (cms_key_size cms)) mod cms_width cms"
  have s: "0 < ?W" "?H < 64" "?H * ?W \<le> length (vec_data (cms_buckets cms))" "?H * ?W < 2 ^ 31"
    using assms(1) by (simp_all add: cms_shape_def)
  have c: "unat ?hash = cms_column crc cms key h" by (simp add: cms_column_def)
  have lt: "h * ?W + unat ?hash < ?H * ?W"
    using row_column_less [OF assms(2) cms_column_less [OF s(1), of crc key h]] by (simp only: c)
  have h: "unat (of_nat h :: u32) = h"
    using assms(2) s(2) by (simp add: unat_of_nat take_bit_nat_eq_self)
  have e: "(2 :: nat) ^ 31 < 2 ^ 32" by simp
  have "h * ?W < 2 ^ 32" using lt s(4) e by linarith
  then have m: "unat (of_nat h * cms_width cms) = h * ?W"
    using h by (subst unat_mult_lem [THEN iffD1]) simp_all
  have "h * ?W + unat ?hash < 2 ^ 32" using lt s(4) e by linarith
  then have u: "unat (of_nat h * cms_width cms + ?hash) = h * ?W + unat ?hash"
    using m by (subst unat_add_lem [THEN iffD1]) simp_all
  show thesis
  proof (rule that [of "of_nat h * cms_width cms + ?hash"])
    have "cms_width cms \<noteq> 0" using s(1) by (simp add: unat_gt_0)
    then show "cms_offset crc cms key h = Inr (of_nat h * cms_width cms + ?hash)"
      using assms(2) s(2) by (simp add: cms_offset_def Let_def)
    show "unat (of_nat h * cms_width cms + ?hash) < length (vec_data (cms_buckets cms))"
      unfolding u using lt s(3) by linarith
    show "unat (of_nat h * cms_width cms + ?hash) = h * ?W + cms_column crc cms key h"
      unfolding u c ..
  qed
qed

lemma vector_at_word:
  assumes "unat (i :: u32) < length (vec_data v)"
  shows "vector_borrow v (uint i) = Inr (vec_data v ! unat i)"
    and "vector_write v (uint i) x = Inr (v\<lparr>vec_data := (vec_data v)[unat i := x]\<rparr>)"
proof -
  have "uint i < int (length (vec_data v))" using assms by (metis of_nat_less_iff uint_nat)
  then show "vector_borrow v (uint i) = Inr (vec_data v ! unat i)"
    "vector_write v (uint i) x = Inr (v\<lparr>vec_data := (vec_data v)[unat i := x]\<rparr>)"
    by (simp_all add: vector_write_in)
qed

section \<open>Counting\<close>

definition same_shape :: "cms \<Rightarrow> cms \<Rightarrow> bool" where
  "same_shape a b \<longleftrightarrow>
     cms_height b = cms_height a \<and> cms_width b = cms_width a \<and> cms_key_size b = cms_key_size a \<and>
     length (vec_data (cms_buckets b)) = length (vec_data (cms_buckets a))"

lemma same_shapeD:
  assumes "same_shape a b"
  shows "cms_shape b = cms_shape a" "cms_column crc b = cms_column crc a"
    "cms_height b = cms_height a" "cms_width b = cms_width a"
  using assms by (auto simp: same_shape_def cms_shape_def cms_column_def fun_eq_iff)

lemma cms_increment_rows_correct:
  assumes "cms_shape cms" "\<forall>h \<in> set hs. h < unat (cms_height cms)" "distinct hs"
  shows "\<exists>cms'. cms_increment_rows crc cms key hs = Inr cms' \<and> same_shape cms cms' \<and>
    (\<forall>h < unat (cms_height cms). \<forall>x < unat (cms_width cms).
       vec_data (cms_buckets cms') ! (h * unat (cms_width cms) + x) =
       vec_data (cms_buckets cms) ! (h * unat (cms_width cms) + x) +
         (if h \<in> set hs \<and> x = cms_column crc cms key h then 1 else 0))"
  using assms
proof (induction hs arbitrary: cms)
  case Nil
  then show ?case by (simp add: same_shape_def)
next
  case (Cons g hs)
  let ?W = "unat (cms_width cms)" and ?d = "vec_data (cms_buckets cms)"
  have g: "g < unat (cms_height cms)" using Cons.prems(2) by simp
  obtain offset where o: "cms_offset crc cms key g = Inr offset"
    "unat offset = g * ?W + cms_column crc cms key g" "unat offset < length ?d"
    using cms_offset_eq [OF Cons.prems(1) g, of crc key] by blast
  let ?cms = "cms\<lparr>cms_buckets := (cms_buckets cms)\<lparr>vec_data := ?d[unat offset := ?d ! unat offset + 1]\<rparr>\<rparr>"
  have sh: "same_shape cms ?cms" by (simp add: same_shape_def)
  note sd = same_shapeD [OF sh]
  have "cms_shape ?cms" "\<forall>h \<in> set hs. h < unat (cms_height ?cms)" "distinct hs"
    using Cons.prems sd(1) by simp_all
  from Cons.IH [OF this] obtain cms' where
    c: "cms_increment_rows crc ?cms key hs = Inr cms'" "same_shape ?cms cms'"
    and v: "\<forall>h < unat (cms_height ?cms). \<forall>x < unat (cms_width ?cms).
       vec_data (cms_buckets cms') ! (h * unat (cms_width ?cms) + x) =
       vec_data (cms_buckets ?cms) ! (h * unat (cms_width ?cms) + x) +
         (if h \<in> set hs \<and> x = cms_column crc ?cms key h then 1 else 0)" by blast
  have run: "cms_increment_rows crc cms key (g # hs) = Inr cms'"
    using o(1) vector_at_word [OF o(3)] c(1) by simp
  have W: "cms_column crc cms key g < ?W"
    using Cons.prems(1) by (intro cms_column_less) (simp add: cms_shape_def)
  have "vec_data (cms_buckets cms') ! (h * ?W + x) = ?d ! (h * ?W + x) +
      (if h \<in> set (g # hs) \<and> x = cms_column crc cms key h then 1 else 0)"
    if "h < unat (cms_height cms)" "x < ?W" for h x
  proof -
    have e: "vec_data (cms_buckets cms') ! (h * ?W + x) =
        ?d[unat offset := ?d ! unat offset + 1] ! (h * ?W + x) +
        (if h \<in> set hs \<and> x = cms_column crc cms key h then 1 else 0)"
      using v that by (simp add: sd(2))
    show ?thesis
    proof (cases "h = g \<and> x = cms_column crc cms key g")
      case True
      with Cons.prems(3) o(2,3) show ?thesis unfolding e by simp
    next
      case False
      then have "unat offset \<noteq> h * ?W + x"
        unfolding o(2) using row_column_inj [of g ?W "cms_column crc cms key g" h x] W that(2) by auto
      with False show ?thesis unfolding e by auto
    qed
  qed
  with run c(2) show ?case by (auto simp: same_shape_def)
qed

lemma cms_increment_correct:
  assumes "cms_shape cms" "cms_counts crc cms ks"
  shows "\<exists>cms'. cms_increment crc cms key = Inr cms' \<and> same_shape cms cms' \<and>
    cms_counts crc cms' (ks @ [key])"
proof -
  from cms_increment_rows_correct [OF assms(1), of "[0..<unat (cms_height cms)]" crc key]
  obtain cms' where c: "cms_increment crc cms key = Inr cms'" "same_shape cms cms'"
    and v: "\<forall>h < unat (cms_height cms). \<forall>x < unat (cms_width cms).
       vec_data (cms_buckets cms') ! (h * unat (cms_width cms) + x) =
       vec_data (cms_buckets cms) ! (h * unat (cms_width cms) + x) +
         (if h \<in> set [0..<unat (cms_height cms)] \<and> x = cms_column crc cms key h then 1 else 0)"
    by (auto simp: cms_increment_def)
  note sd = same_shapeD [OF c(2)]
  have "cms_counts crc cms' (ks @ [key])"
    using v assms(2) unfolding cms_counts_def sd by (auto simp: add.commute)
  with c show ?thesis by blast
qed

fun cms_increments :: "(u32 \<Rightarrow> u32 \<Rightarrow> u32) \<Rightarrow> cms \<Rightarrow> u8 list list \<Rightarrow> cms result" where
  "cms_increments crc cms [] = Inr cms"
| "cms_increments crc cms (k # ks) =
     rbind (cms_increment crc cms k) (\<lambda>cms. cms_increments crc cms ks)"

lemma cms_increments_correct:
  assumes "cms_shape cms" "cms_counts crc cms ks0"
  shows "\<exists>cms'. cms_increments crc cms ks = Inr cms' \<and> same_shape cms cms' \<and>
    cms_counts crc cms' (ks0 @ ks)"
  using assms
proof (induction ks arbitrary: cms ks0)
  case Nil
  then show ?case by (simp add: same_shape_def)
next
  case (Cons k ks)
  from cms_increment_correct [OF Cons.prems] obtain cms1 where
    c: "cms_increment crc cms k = Inr cms1" "same_shape cms cms1" "cms_counts crc cms1 (ks0 @ [k])"
    by blast
  have "cms_shape cms1" using Cons.prems(1) same_shapeD(1) [OF c(2)] by simp
  from Cons.IH [OF this c(3)] obtain cms' where
    "cms_increments crc cms1 ks = Inr cms'" "same_shape cms1 cms'" "cms_counts crc cms' (ks0 @ k # ks)"
    by auto
  with c show ?case by (auto simp: same_shape_def)
qed

section \<open>Estimating\<close>

lemma sint_of_small:
  fixes w :: u64
  assumes "uint w \<le> 2147483647"
  shows "sint (ucast w :: u32) = uint w"
proof -
  have "(ucast w :: u32) = word_of_int (uint w)" by simp
  moreover have "sint (word_of_int (uint w) :: u32) = signed_take_bit 31 (uint w)"
    by (simp only: sint_sbintrunc' len_num1) simp
  moreover have "signed_take_bit 31 (uint w) = uint w"
  proof (rule signed_take_bit_int_eq_self)
    show "- (2 ^ 31) \<le> uint w" by (rule order_trans [OF _ uint_ge_0]) simp
    show "uint w < 2 ^ 31" using assms by simp
  qed
  ultimately show ?thesis by simp
qed

lemma min_with_bucket_eq:
  assumes "0 \<le> m" "m \<le> 2147483647"
  shows "min_with_bucket m v = min m (uint v)"
proof -
  have u: "uint (word_of_int m :: u64) = m"
    using assms by (simp add: uint_word_of_int_eq take_bit_int_eq_self)
  show ?thesis
  proof (cases "(word_of_int m :: u64) < v")
    case True
    then have "m < uint v" by (simp add: word_less_def u)
    with True assms show ?thesis
      using sint_of_small [of "word_of_int m :: u64"] by (simp add: min_with_bucket_def Let_def u)
  next
    case False
    then have "uint v \<le> m" by (simp add: word_less_def u)
    with False assms show ?thesis
      using sint_of_small [of v] by (simp add: min_with_bucket_def Let_def)
  qed
qed

lemma cms_min_rows_correct:
  assumes "cms_shape cms" "\<forall>h \<in> set hs. h < unat (cms_height cms)" "0 \<le> m" "m \<le> 2147483647"
  shows "\<exists>n. cms_min_rows crc cms key m hs = Inr n \<and> 0 \<le> n \<and> n \<le> m \<and>
    (\<forall>h \<in> set hs. n \<le> uint (vec_data (cms_buckets cms) !
       (h * unat (cms_width cms) + cms_column crc cms key h))) \<and>
    (n = m \<or> (\<exists>h \<in> set hs. n = uint (vec_data (cms_buckets cms) !
       (h * unat (cms_width cms) + cms_column crc cms key h))))"
  using assms
proof (induction hs arbitrary: m)
  case (Cons g hs)
  let ?v = "\<lambda>h. vec_data (cms_buckets cms) ! (h * unat (cms_width cms) + cms_column crc cms key h)"
  have g: "g < unat (cms_height cms)" using Cons.prems(2) by simp
  obtain offset where o: "cms_offset crc cms key g = Inr offset"
    "unat offset = g * unat (cms_width cms) + cms_column crc cms key g"
    "unat offset < length (vec_data (cms_buckets cms))"
    using cms_offset_eq [OF Cons.prems(1) g, of crc key] by blast
  let ?m = "min m (uint (?v g))"
  have m: "0 \<le> ?m" "?m \<le> 2147483647" using Cons.prems(3,4) by (simp_all add: min_le_iff_disj)
  have "\<forall>h \<in> set hs. h < unat (cms_height cms)" using Cons.prems(2) by simp
  from Cons.IH [OF Cons.prems(1) this m] obtain n where
    n: "cms_min_rows crc cms key ?m hs = Inr n" "0 \<le> n" "n \<le> ?m" "\<forall>h \<in> set hs. n \<le> uint (?v h)"
      "n = ?m \<or> (\<exists>h \<in> set hs. n = uint (?v h))" by blast
  have "cms_min_rows crc cms key m (g # hs) = Inr n"
    using o(1) vector_at_word(1) [OF o(3)] n(1) min_with_bucket_eq [OF Cons.prems(3,4)]
    by (simp add: o(2))
  moreover from n(5) have "n = m \<or> (\<exists>h \<in> set (g # hs). n = uint (?v h))"
    by (auto simp: min_def split: if_splits)
  ultimately show ?case using n(2-4) by auto
qed simp

lemma uint_of_length:
  assumes "n < 2 ^ 64"
  shows "uint (of_nat n :: u64) = int n"
proof -
  have "unat (of_nat n :: u64) = n" using assms by (simp add: unat_of_nat take_bit_nat_eq_self)
  then show ?thesis by (metis uint_nat)
qed

lemma cms_count_min_correct:
  assumes "cms_shape cms" "cms_counts crc cms ks" "length ks < 2 ^ 64"
  shows "\<exists>n. cms_count_min crc cms key = Inr n \<and> n \<le> 2147483647 \<and>
    (\<forall>h < unat (cms_height cms). n \<le> int (colliding crc cms ks key h)) \<and>
    (n = 2147483647 \<or> (\<exists>h < unat (cms_height cms). n = int (colliding crc cms ks key h)))"
proof -
  have v: "uint (vec_data (cms_buckets cms) ! (h * unat (cms_width cms) + cms_column crc cms key h)) =
      int (colliding crc cms ks key h)" if "h < unat (cms_height cms)" for h
  proof -
    have "0 < unat (cms_width cms)" using assms(1) by (simp add: cms_shape_def)
    from cms_column_less [OF this, of crc key h] assms(2) that
    have "vec_data (cms_buckets cms) ! (h * unat (cms_width cms) + cms_column crc cms key h) =
        of_nat (colliding crc cms ks key h)" by (simp add: cms_counts_def colliding_def)
    moreover have "colliding crc cms ks key h < 2 ^ 64"
      unfolding colliding_def using assms(3) length_filter_le le_less_trans by blast
    ultimately show ?thesis by (simp only: uint_of_length)
  qed
  have rows: "\<forall>h \<in> set [0..<unat (cms_height cms)]. h < unat (cms_height cms)"
    "(0 :: int) \<le> 2147483647" "(2147483647 :: int) \<le> 2147483647" by simp_all
  have in_rows: "h \<in> set [0..<unat (cms_height cms)] \<longleftrightarrow> h < unat (cms_height cms)" for h by simp
  from cms_min_rows_correct [OF assms(1) rows, of crc key]
  obtain n where n: "cms_count_min crc cms key = Inr n" "n \<le> 2147483647"
    "\<forall>h < unat (cms_height cms). n \<le> uint (vec_data (cms_buckets cms) !
       (h * unat (cms_width cms) + cms_column crc cms key h))"
    "n = 2147483647 \<or> (\<exists>h < unat (cms_height cms). n = uint (vec_data (cms_buckets cms) !
       (h * unat (cms_width cms) + cms_column crc cms key h)))"
    unfolding cms_count_min_def in_rows Ball_def Bex_def by blast
  from n(3,4) v have "\<forall>h < unat (cms_height cms). n \<le> int (colliding crc cms ks key h)"
    "n = 2147483647 \<or> (\<exists>h < unat (cms_height cms). n = int (colliding crc cms ks key h))" by auto
  with n(1,2) show ?thesis by blast
qed

section \<open>The sketch as allocated\<close>

lemma cms_capacity:
  fixes height width :: u32
  assumes "unat height * unat width < 2 ^ 31"
  shows "unat height * unat width \<le>
    unat (ucast (ensure_power_of_two (ucast (height * width))) :: u32)"
proof -
  have m: "unat (height * width) = unat height * unat width"
    using assms by (subst unat_mult_lem [THEN iffD1]) simp_all
  have u: "unat (ucast (height * width) :: u64) = unat height * unat width"
    using assms by (simp add: unsigned_ucast_eq take_bit_nat_eq_self m)
  then have "unat (ucast (height * width) :: u64) < 2 ^ 63" using assms by simp
  from ensure_power_of_two_above [OF this] obtain k where
    k: "unat (ensure_power_of_two (ucast (height * width))) = 2 ^ k"
      "unat height * unat width < 2 ^ k" "2 ^ k \<le> 2 * max 1 (unat height * unat width)"
    unfolding u by blast
  have "2 ^ k < (2 :: nat) ^ 32" using k(3) assms by (simp add: max_def split: if_splits)
  then have "take_bit 32 (2 ^ k) = (2 :: nat) ^ k" by (rule take_bit_nat_eq_self)
  then have "unat (ucast (ensure_power_of_two (ucast (height * width))) :: u32) = 2 ^ k"
    by (simp only: unsigned_ucast_eq k(1)) simp
  with k(2) show ?thesis by simp
qed

lemma cms_allocate_correct:
  fixes height width :: u32
  assumes "unat height * unat width < 2 ^ 31"
    and "length elems = unat (ucast (ensure_power_of_two (ucast (height * width))) :: u32)"
    and "cms_allocate True True (Some elems) height width ksize interval = Inr (Some cms)"
  shows "cms_shape cms" "cms_counts crc cms []" "cms_height cms = height"
proof -
  let ?n = "unat (ucast (ensure_power_of_two (ucast (height * width))) :: u32)"
  have p: "0 < height" "0 < width" "height < 64" and
    c: "cms = \<lparr>cms_buckets = \<lparr>vec_data = replicate ?n 0,
        vec_capacity = ucast (ensure_power_of_two (ucast (height * width)))\<rparr>,
      cms_height = height, cms_width = width, cms_key_size = ksize,
      cms_cleanup_interval = interval, cms_last_cleanup = 0\<rparr>"
    using assms(3) vector_allocate_zeroed [OF assms(2), of 0]
    by (auto simp: cms_allocate_def assert_that_eq_Inr Let_def)
  have w: "0 < unat width" "unat height < 64" using p by (simp_all add: word_less_nat_alt)
  note cap = cms_capacity [OF assms(1)]
  show "cms_shape cms" using w cap assms(1) by (simp add: cms_shape_def c)
  show "cms_height cms = height" by (simp add: c)
  show "cms_counts crc cms []"
    unfolding cms_counts_def
  proof (intro allI impI)
    fix h x assume "h < unat (cms_height cms)" "x < unat (cms_width cms)"
    then have "h * unat width + x < ?n"
      using row_column_less [of h "unat height" x "unat width"] cap by (simp add: c)
    then show "vec_data (cms_buckets cms) ! (h * unat (cms_width cms) + x) =
        of_nat (length (filter (\<lambda>k. cms_column crc cms k h = x) []))" by (simp add: c)
  qed
qed

lemma count_le_colliding: "count_list ks key \<le> colliding crc cms ks key h"
  by (induction ks) (auto simp: colliding_def)

text \<open>C21. The sketch estimates from above: on a sketch that has just been allocated, counting any keys
  stays inside the vector, and the estimate for a key is at least the number of times it was
  counted (up to the largest \<open>int\<close>), and at most the number of keys that share its column, in
  every row; it is exact where some row has no other key in that column.\<close>
theorem cms_estimates_from_above:
  fixes height width :: u32
  assumes "unat height * unat width < 2 ^ 31"
    and "length elems = unat (ucast (ensure_power_of_two (ucast (height * width))) :: u32)"
    and "cms_allocate True True (Some elems) height width ksize interval = Inr (Some cms)"
    and "length ks < 2 ^ 64"
  shows "\<exists>cms' n. cms_increments crc cms ks = Inr cms' \<and> cms_count_min crc cms' key = Inr n \<and>
    min 2147483647 (int (count_list ks key)) \<le> n \<and>
    (\<forall>h < unat height. n \<le> int (colliding crc cms ks key h))"
proof -
  note fresh = cms_allocate_correct [OF assms(1-3)]
  from cms_increments_correct [OF fresh(1,2), of crc ks] obtain cms' where
    c: "cms_increments crc cms ks = Inr cms'" "same_shape cms cms'" "cms_counts crc cms' ks"
    by (auto simp: append_Nil)
  note sd = same_shapeD [OF c(2)]
  have "cms_shape cms'" using fresh(1) sd(1) by simp
  from cms_count_min_correct [OF this c(3) assms(4), of key] obtain n where
    n: "cms_count_min crc cms' key = Inr n"
      "\<forall>h < unat height. n \<le> int (colliding crc cms' ks key h)"
      "n = 2147483647 \<or> (\<exists>h < unat height. n = int (colliding crc cms' ks key h))"
    by (auto simp: sd(3) fresh(3))
  have "colliding crc cms' ks key h = colliding crc cms ks key h" for h
    by (simp add: colliding_def sd(2))
  with n c(1) count_le_colliding [of ks key crc cms] show ?thesis
    by (intro exI [of _ cms'] exI [of _ n]) (auto simp: min_le_iff_disj)
qed

lemma cms_estimates_from_above_witness:
  "\<exists>cms cms' n. cms_allocate True True (Some (replicate 8 7)) 2 2 4 1000 = Inr (Some cms) \<and>
     cms_increments (\<lambda>h x. h XOR x) cms [[1, 0, 0, 0], [2, 0, 0, 0], [1, 0, 0, 0]] = Inr cms' \<and>
     cms_count_min (\<lambda>h x. h XOR x) cms' [1, 0, 0, 0] = Inr n \<and> 2 \<le> n \<and> n \<le> 3"
proof -
  have e: "ensure_power_of_two 4 = 8" by (simp add: ensure_power_of_two_def)
  have l: "length (replicate 8 (7 :: u64)) = unat (ucast (ensure_power_of_two (ucast ((2 :: u32) * 2))) :: u32)"
    by (simp add: e)
  obtain cms where a: "cms_allocate True True (Some (replicate 8 7)) 2 2 4 1000 = Inr (Some cms)"
    by (simp add: cms_allocate_def vector_allocate_def Let_def)
  let ?crc = "\<lambda>h x :: u32. h XOR x" and ?ks = "[[1, 0, 0, 0], [2, 0, 0, 0], [1, 0, 0, 0]] :: u8 list list"
  from cms_estimates_from_above [OF _ l a, of ?ks ?crc "[1, 0, 0, 0]"] obtain cms' n where
    r: "cms_increments ?crc cms ?ks = Inr cms'" "cms_count_min ?crc cms' [1, 0, 0, 0] = Inr n"
      "min 2147483647 (int (count_list ?ks [1, 0, 0, 0])) \<le> n"
      "\<forall>h < unat (2 :: u32). n \<le> int (colliding ?crc cms ?ks [1, 0, 0, 0] h)"
    by (auto simp del: cms_increments.simps)
  have "colliding ?crc cms ?ks [1, 0, 0, 0] 0 \<le> length ?ks"
    unfolding colliding_def by (rule length_filter_le)
  moreover have "n \<le> int (colliding ?crc cms ?ks [1, 0, 0, 0] 0)" using r(4) by simp
  ultimately have "n \<le> 3" by (simp del: of_nat_Suc)
  moreover have "2 \<le> n" using r(3) by simp
  ultimately show ?thesis using a r(1,2) by blast
qed

end
