(* ===== verification/ConsistentHashing.thy ===== *)
theory ConsistentHashing
  imports Compute DoubleChain NFVector
begin

text \<open>
  The consistent hashing table of the load balancer, \<^verbatim>\<open>dpdk-nfs/lib/state/cht.c\<close>: for each
  hash value a row with all backends in an order of preference, filled from a
  permutation of the rows for each backend.
\<close>

section \<open>Filling the table\<close>

text \<open>Blocks of memory of \<^verbatim>\<open>int\<close>s; an index outside is undefined.\<close>

definition block_read :: "int list \<Rightarrow> int \<Rightarrow> int result" where
  "block_read xs i = (if 0 \<le> i \<and> i < int (length xs) then Inr (xs ! nat i) else Inl Undefined)"

definition block_write :: "int list \<Rightarrow> int \<Rightarrow> int \<Rightarrow> int list result" where
  "block_write xs i v =
     (if 0 \<le> i \<and> i < int (length xs) then Inr (xs[nat i := v]) else Inl Undefined)"

text \<open>\<open>loop\<close> of the source is the remainder.\<close>

definition cht_loop :: "u64 \<Rightarrow> u64 \<Rightarrow> u64" where
  "cht_loop k capacity = k mod capacity"

definition cht_permut :: "u32 \<Rightarrow> u32 \<Rightarrow> u32 \<Rightarrow> u64" where
  "cht_permut cht_height i j =
     (let offset_absolut = i * 31;
          offset = cht_loop (ucast offset_absolut) (ucast cht_height);
          base_shift = cht_loop (ucast i) (ucast (cht_height - 1));
          shift = base_shift + 1
      in cht_loop (offset + shift * ucast j) (ucast cht_height))"

text \<open>The nested loops run over the pairs of the two counters.\<close>

fun cht_generate :: "u32 \<Rightarrow> (nat \<times> nat) list \<Rightarrow> int list \<Rightarrow> int list result" where
  "cht_generate cht_height [] permutations = Inr permutations"
| "cht_generate cht_height ((i, j) # loops) permutations =
     rbind (block_write permutations (uint (of_nat i * cht_height + of_nat j :: u32))
         (sint (ucast (cht_permut cht_height (of_nat i) (of_nat j)) :: u32)))
       (cht_generate cht_height loops)"

fun cht_place ::
  "u32 \<Rightarrow> u32 \<Rightarrow> int list \<Rightarrow> (nat \<times> nat) list \<Rightarrow> int list \<Rightarrow> u32 nf_vector \<Rightarrow> u32 nf_vector result"
where
  "cht_place cht_height backend_capacity permutations [] next_free cht = Inr cht"
| "cht_place cht_height backend_capacity permutations ((i, j) # loops) next_free cht =
     rbind (block_read permutations (uint (of_nat j * cht_height + of_nat i :: u32))) (\<lambda>bucket_id.
     rbind (block_read next_free bucket_id) (\<lambda>priority.
     rbind (block_write next_free bucket_id (priority + 1)) (\<lambda>next_free.
     rbind (vector_write cht
         (sint (backend_capacity * word_of_int bucket_id + word_of_int priority :: u32))
         (of_nat j)) (\<lambda>cht.
     cht_place cht_height backend_capacity permutations loops next_free cht))))"

text \<open>
  \<open>permutations\<close> is the block the first allocation returns, \<open>next_alloc\<close> whether the second
  succeeds. A height of 0 or 1 divides by zero as soon as there is a backend.
\<close>

definition cht_fill_cht ::
  "int list option \<Rightarrow> bool \<Rightarrow> u32 nf_vector \<Rightarrow> u32 \<Rightarrow> u32 \<Rightarrow> u32 nf_vector option result" where
  "cht_fill_cht permutations next_alloc cht cht_height backend_capacity =
     (case permutations of
        None \<Rightarrow> Inr None
      | Some permutations \<Rightarrow>
          if backend_capacity \<noteq> 0 \<and> cht_height \<le> 1 then Inl Undefined
          else
            rbind (cht_generate cht_height
                (List.product [0..<unat backend_capacity] [0..<unat cht_height]) permutations)
              (\<lambda>permutations.
            if \<not> next_alloc then Inr None
            else
              rbind (cht_place cht_height backend_capacity permutations
                  (List.product [0..<unat cht_height] [0..<unat backend_capacity])
                  (replicate (unat cht_height) 0) cht) (\<lambda>cht. Inr (Some cht))))"

section \<open>Choosing a backend\<close>

fun cht_find_loop ::
  "u64 \<Rightarrow> u32 nf_vector \<Rightarrow> double_chain \<Rightarrow> u32 \<Rightarrow> nat list \<Rightarrow> int option result" where
  "cht_find_loop start cht active_backends backend_capacity [] = Inr None"
| "cht_find_loop start cht active_backends backend_capacity (i # is) =
     (let candidate_idx = start * ucast backend_capacity + of_nat i in
      rbind (vector_borrow cht (sint (ucast candidate_idx :: u32))) (\<lambda>candidate.
      rbind (dchain_is_index_allocated active_backends (sint candidate)) (\<lambda>allocated.
      if allocated then Inr (Some (sint candidate))
      else cht_find_loop start cht active_backends backend_capacity is)))"

definition cht_find_preferred_available_backend ::
  "u64 \<Rightarrow> u32 nf_vector \<Rightarrow> double_chain \<Rightarrow> u32 \<Rightarrow> u32 \<Rightarrow> int option result" where
  "cht_find_preferred_available_backend hash cht active_backends cht_height backend_capacity =
     (if cht_height = 0 then Inl Undefined
      else
        let start = cht_loop hash (ucast cht_height) in
        cht_find_loop start cht active_backends backend_capacity [0..<unat backend_capacity])"

section \<open>The permutations\<close>

definition permut :: "nat \<Rightarrow> nat \<Rightarrow> nat \<Rightarrow> nat" where
  "permut h i j = (i * 31 mod 2 ^ 32 mod h + (i mod (h - 1) + 1) * j) mod h"

lemma unat_ucast_u64 [simp]: "unat (ucast (w :: u32) :: u64) = unat w"
proof -
  have "unat w < 2 ^ LENGTH(32)" by (rule unsigned_less)
  then show ?thesis by (simp add: unsigned_ucast_eq take_bit_nat_eq_self)
qed

lemma cht_permut_eq:
  assumes "1 < height"
  shows "unat (cht_permut height i j) = permut (unat height) (unat i) (unat j)"
proof -
  let ?h = "unat height"
  have h: "1 < ?h" using assms by (simp add: word_less_nat_alt)
  have b: "unat i < 2 ^ 32" "unat j < 2 ^ 32" "?h < 2 ^ 32"
    using unsigned_less [of i] unsigned_less [of j] unsigned_less [of height] by simp_all
  have h1: "unat (height - 1) = ?h - 1" using assms by (subst unat_sub_le) simp_all
  let ?o = "cht_loop (ucast (i * 31)) (ucast height)"
    and ?s = "cht_loop (ucast i) (ucast (height - 1)) + 1"
  have o: "unat ?o = unat i * 31 mod 2 ^ 32 mod ?h"
    by (simp add: cht_loop_def unat_mod unat_word_ariths)
  have m: "unat (cht_loop (ucast i) (ucast (height - 1))) = unat i mod (?h - 1)"
    by (simp add: cht_loop_def unat_mod h1)
  have sl: "unat i mod (?h - 1) < ?h - 1" using h by simp
  then have s: "unat ?s = unat i mod (?h - 1) + 1"
    using b m by (subst unat_add_lem [THEN iffD1]) simp_all
  have sb: "unat ?s \<le> 2 ^ 32 - 1" using s sl b(3) by linarith
  have "unat ?s * unat j \<le> (2 ^ 32 - 1) * (2 ^ 32 - 1)"
    using sb b(2) by (intro mult_le_mono) simp_all
  also have "(2 ^ 32 - 1) * (2 ^ 32 - 1) = (18446744065119617025 :: nat)" by simp
  finally have p: "unat ?s * unat j \<le> 18446744065119617025" .
  then have u: "unat (?s * ucast j) = unat ?s * unat j"
    by (subst unat_mult_lem [THEN iffD1]) simp_all
  have "unat ?o < ?h" using h by (simp only: o) simp
  then have "unat ?o < 4294967296" using b(3) by simp
  with p have "unat (?o + ?s * ucast j) = unat ?o + unat ?s * unat j"
    by (subst unat_add_lem [THEN iffD1]) (simp_all add: u)
  then show ?thesis
    by (simp add: cht_permut_def Let_def permut_def cht_loop_def [of "_ + _"] unat_mod o s)
qed

lemma permut_less: "1 < h \<Longrightarrow> permut h i j < h"
  by (simp add: permut_def)

text \<open>For a prime height every backend visits every row exactly once.\<close>

lemma shift_coprime:
  assumes "1 < h" "\<forall>m. m dvd h \<longrightarrow> m = 1 \<or> m = h" "0 < s" "s < h"
  shows "coprime h (s :: nat)"
proof -
  have "gcd h s \<noteq> h" using assms(3,4) by (metis dvd_imp_le gcd_dvd2 not_le)
  moreover have "gcd h s dvd h" by simp
  ultimately have "gcd h s = 1" using assms(2) by blast
  then show ?thesis by (simp add: coprime_iff_gcd_eq_1)
qed

lemma affine_inj:
  assumes "coprime h (s :: nat)" "j < h" "j' < h" "(a + s * j) mod h = (a + s * j') mod h"
  shows "j = j'"
proof -
  have *: "x = y" if "x \<le> y" "y < h" "(a + s * x) mod h = (a + s * y) mod h" for x y
  proof -
    have "a + s * x \<le> a + s * y" using that(1) by simp
    then have "h dvd (a + s * y) - (a + s * x)"
      using that(3) [symmetric] by (simp only: mod_eq_dvd_iff_nat)
    then have "h dvd s * (y - x)" by (simp add: diff_mult_distrib2)
    with assms(1) have "h dvd y - x" by (simp add: coprime_dvd_mult_right_iff)
    moreover have "y - x < h" using that(2) by simp
    ultimately have "y - x = 0" by (meson dvd_imp_le gr0I not_le)
    with that(1) show ?thesis by simp
  qed
  show ?thesis using *[of j j'] *[of j' j] assms(2-4) by (cases "j \<le> j'") simp_all
qed

lemma permut_bij:
  assumes "1 < h" "\<forall>m. m dvd h \<longrightarrow> m = 1 \<or> m = h"
  shows "bij_betw (permut h i) {..<h} {..<h}"
proof -
  have "i mod (h - 1) < h - 1" using assms(1) by simp
  then have "coprime h (i mod (h - 1) + 1)" by (intro shift_coprime [OF assms]) simp_all
  then have inj: "inj_on (permut h i) {..<h}"
    unfolding permut_def by (intro inj_onI) (simp only: affine_inj lessThan_iff)
  have "permut h i ` {..<h} \<subseteq> {..<h}" using permut_less [OF assms(1)] by auto
  with inj have "permut h i ` {..<h} = {..<h}" by (intro endo_inj_surj) simp_all
  with inj show ?thesis by (simp add: bij_betw_def)
qed

section \<open>The rows\<close>

text \<open>The backends that visit row \<open>b\<close>, in the order of the loops.\<close>

definition hits :: "nat \<Rightarrow> nat \<Rightarrow> nat \<Rightarrow> nat list" where
  "hits h c b =
     map snd (filter (\<lambda>(i, j). permut h j i = b) (List.product [0..<h] [0..<c]))"

lemma hits_permutation:
  assumes "1 < h" "\<forall>m. m dvd h \<longrightarrow> m = 1 \<or> m = h" "b < h"
  shows "distinct (hits h c b)" "set (hits h c b) = {..<c}" "length (hits h c b) = c"
proof -
  let ?F = "filter (\<lambda>(i, j). permut h j i = b) (List.product [0..<h] [0..<c])"
  have inj: "i = i'" if "i < h" "i' < h" "permut h j i = permut h j i'" for i i' j
    using permut_bij [OF assms(1,2), of j] that by (auto simp: bij_betw_def inj_on_def)
  have "inj_on snd (set ?F)"
  proof (rule inj_onI)
    fix x y assume "x \<in> set ?F" "y \<in> set ?F" "snd x = snd y"
    then have "fst x < h" "fst y < h" "permut h (snd x) (fst x) = permut h (snd x) (fst y)"
      by auto
    from inj [OF this] \<open>snd x = snd y\<close> show "x = y" by (simp add: prod_eq_iff)
  qed
  moreover have "distinct ?F" by (simp add: distinct_product)
  ultimately show d: "distinct (hits h c b)" by (simp add: hits_def distinct_map)
  have "\<exists>i < h. permut h j i = b" for j
  proof -
    have "b \<in> permut h j ` {..<h}"
      using permut_bij [OF assms(1,2), of j] assms(3) by (simp add: bij_betw_def)
    then show ?thesis by auto
  qed
  then have "\<exists>i. (i, j) \<in> set ?F" if "j < c" for j using that by auto
  then have "j \<in> set (hits h c b)" if "j < c" for j using that by (force simp: hits_def image_iff)
  then show s: "set (hits h c b) = {..<c}" by (auto simp: hits_def)
  from d s show "length (hits h c b) = c" by (metis card_lessThan distinct_card)
qed

lemma sint_small_u32:
  assumes "unat (w :: u32) < 2 ^ 31"
  shows "sint w = int (unat w)"
proof -
  have "sint w = signed_take_bit 31 (uint w)" by (simp only: sint_uint len_num1) simp
  also have "\<dots> = uint w"
  proof (rule signed_take_bit_int_eq_self)
    show "- (2 ^ 31) \<le> uint w" by (rule order_trans [OF _ uint_ge_0]) simp
    have "int (unat w) < 2 ^ 31" using assms by (metis of_nat_less_numeral_power_cancel_iff)
    then show "uint w < 2 ^ 31" by simp
  qed
  finally show ?thesis by simp
qed

text \<open>Indices into blocks of fewer than \<open>2 ^ 31\<close> elements do not wrap.\<close>

lemma table_index:
  assumes "i < c" "j < h" "c * h < 2 ^ 31" "unat height = h"
  shows "unat (of_nat i * height + of_nat j :: u32) = i * h + j"
proof -
  have lt: "i * h + j < c * h" by (rule row_column_less [OF assms(1,2)])
  have e: "(2 :: nat) ^ 31 < 2 ^ 32" by simp
  have c: "c * 1 \<le> c * h" "1 * h \<le> c * h"
    using assms(1,2) by (intro mult_le_mono; simp)+
  have "i < 2 ^ 32" "j < 2 ^ 32" using c assms(1-3) e by linarith+
  then have u: "unat (of_nat i :: u32) = i" "unat (of_nat j :: u32) = j"
    by (simp_all add: unat_of_nat take_bit_nat_eq_self)
  have "i * h < 2 ^ 32" using lt assms(3) e by linarith
  then have m: "unat (of_nat i * height) = i * h"
    using u(1) assms(4) by (subst unat_mult_lem [THEN iffD1]) simp_all
  have "i * h + j < 2 ^ 32" using lt assms(3) e by linarith
  then show ?thesis using m u(2) by (subst unat_add_lem [THEN iffD1]) simp_all
qed

lemma block_at:
  assumes "k < length xs"
  shows "block_read xs (int k) = Inr (xs ! k)" "block_write xs (int k) v = Inr (xs[k := v])"
  using assms by (simp_all add: block_read_def block_write_def)

lemma cht_generate_correct:
  assumes "1 < height" "unat height = h" "c * h < 2 ^ 31" "length perms = c * h"
    and "set loops \<subseteq> {..<c} \<times> {..<h}"
  shows "\<exists>perms'. cht_generate height loops perms = Inr perms' \<and> length perms' = c * h \<and>
    (\<forall>i < c. \<forall>j < h. perms' ! (i * h + j) =
      (if (i, j) \<in> set loops then int (permut h i j) else perms ! (i * h + j)))"
  using assms(4,5)
proof (induction loops arbitrary: perms)
  case (Cons p loops)
  obtain i j where p: "p = (i, j)" by (cases p)
  have ij: "i < c" "j < h" using Cons.prems(2) by (auto simp: p)
  have ix: "unat (of_nat i * height + of_nat j :: u32) = i * h + j"
    by (rule table_index [OF ij assms(3,2)])
  have lt: "i * h + j < c * h" by (rule row_column_less [OF ij])
  have h: "1 < h" using assms(1,2) by (simp add: word_less_nat_alt)
  have c: "c * 1 \<le> c * h" "1 * h \<le> c * h"
    using ij by (intro mult_le_mono; simp)+
  have e: "(2 :: nat) ^ 31 < 2 ^ 32" by simp
  have "i < 2 ^ 32" "j < 2 ^ 32" using c ij assms(3) e by linarith+
  then have u: "unat (of_nat i :: u32) = i" "unat (of_nat j :: u32) = j"
    by (simp_all add: unat_of_nat take_bit_nat_eq_self)
  have pv: "unat (cht_permut height (of_nat i) (of_nat j)) = permut h i j"
    using cht_permut_eq [OF assms(1), of "of_nat i" "of_nat j"] by (simp add: u assms(2))
  have pl: "permut h i j < 2 ^ 31" using permut_less [OF h, of i j] c(2) assms(3) by linarith
  then have uv: "unat (ucast (cht_permut height (of_nat i) (of_nat j)) :: u32) = permut h i j"
    using e by (simp add: unsigned_ucast_eq take_bit_nat_eq_self pv)
  then have v: "sint (ucast (cht_permut height (of_nat i) (of_nat j)) :: u32) = int (permut h i j)"
    using pl by (subst sint_small_u32) (simp_all only: uv)
  have "uint (of_nat i * height + of_nat j :: u32) = int (i * h + j)" by (metis ix uint_nat)
  then have w: "block_write perms (uint (of_nat i * height + of_nat j :: u32)) (int (permut h i j)) =
      Inr (perms[i * h + j := int (permut h i j)])"
    using lt Cons.prems(1) by (simp only: block_at)
  let ?perms = "perms[i * h + j := int (permut h i j)]"
  have "length ?perms = c * h" "set loops \<subseteq> {..<c} \<times> {..<h}" using Cons.prems by simp_all
  from Cons.IH [OF this] obtain perms' where
    g: "cht_generate height loops ?perms = Inr perms'" "length perms' = c * h"
      "\<forall>i < c. \<forall>j < h. perms' ! (i * h + j) =
        (if (i, j) \<in> set loops then int (permut h i j) else ?perms ! (i * h + j))" by blast
  have "perms' ! (i' * h + j') = (if (i', j') \<in> set (p # loops) then int (permut h i' j')
      else perms ! (i' * h + j'))" if "i' < c" "j' < h" for i' j'
  proof (cases "(i', j') = (i, j)")
    case True
    then show ?thesis using g(3) that lt Cons.prems(1) by (auto simp: p)
  next
    case False
    then have "i' * h + j' \<noteq> i * h + j" using row_column_inj [of i' h j' i j] that ij by auto
    then show ?thesis using g(3) that False by (auto simp: p)
  qed
  with g(1,2) show ?case by (simp add: p v w)
qed simp

definition row :: "nat \<Rightarrow> (nat \<times> nat) list \<Rightarrow> nat \<Rightarrow> nat list" where
  "row h loops b = map snd (filter (\<lambda>(i, j). permut h j i = b) loops)"

lemma hits_row: "hits h c b = row h (List.product [0..<h] [0..<c]) b"
  by (simp add: hits_def row_def)

lemma row_Cons: "row h ((i, j) # loops) b = (if permut h j i = b then j # row h loops b else row h loops b)"
  by (simp add: row_def)

lemma row_append: "row h (xs @ ys) b = row h xs b @ row h ys b"
  by (simp add: row_def)

lemma vector_at_nat:
  assumes "k < length (vec_data v)"
  shows "vector_borrow v (int k) = Inr (vec_data v ! k)"
    and "vector_write v (int k) x = Inr (v\<lparr>vec_data := (vec_data v)[k := x]\<rparr>)"
  using assms by (simp_all add: vector_write_in)

lemma cht_place_correct:
  assumes "1 < h" "\<forall>m. m dvd h \<longrightarrow> m = 1 \<or> m = h" "unat height = h" "unat cap = c"
    and "c * h < 2 ^ 31" "\<forall>i < c. \<forall>j < h. perms ! (i * h + j) = int (permut h i j)"
    and "length perms = c * h" "c * h \<le> length (vec_data cht)"
    and "List.product [0..<h] [0..<c] = visited @ loops"
    and "length free = h" "\<forall>b < h. free ! b = int (length (row h visited b))"
    and "\<forall>b < h. \<forall>p < length (row h visited b). vec_data cht ! (b * c + p) = of_nat (row h visited b ! p)"
  shows "\<exists>cht'. cht_place height cap perms loops free cht = Inr cht' \<and>
    length (vec_data cht') = length (vec_data cht) \<and>
    (\<forall>b < h. \<forall>p < c. vec_data cht' ! (b * c + p) = of_nat (hits h c b ! p))"
  using assms(8-)
proof (induction loops arbitrary: visited free cht)
  case Nil
  have "hits h c b = row h visited b" for b using Nil.prems(2) by (simp add: hits_row)
  with Nil.prems(5) hits_permutation(3) [OF assms(1,2), of _ c] show ?case by simp
next
  case (Cons q loops)
  obtain i j where q: "q = (i, j)" by (cases q)
  have "(i, j) \<in> set (List.product [0..<h] [0..<c])" unfolding Cons.prems(2) q by simp
  then have ij: "i < h" "j < c" by auto
  define b where "b = permut h j i"
  define n where "n = length (row h visited b)"
  have b: "b < h" using permut_less [OF assms(1)] by (simp add: b_def)
  have hits: "hits h c b = row h visited b @ j # row h loops b"
    by (simp add: hits_row Cons.prems(2) row_append q row_Cons b_def)
  have n: "n < c" using hits_permutation(3) [OF assms(1,2) b, of c] by (simp add: hits n_def)
  have ix: "unat (of_nat j * height + of_nat i :: u32) = j * h + i"
    by (rule table_index [OF ij(2,1) assms(5,3)])
  have rp: "block_read perms (uint (of_nat j * height + of_nat i :: u32)) = Inr (int b)"
  proof -
    have "uint (of_nat j * height + of_nat i :: u32) = int (j * h + i)" by (metis ix uint_nat)
    moreover have "j * h + i < length perms" using row_column_less [OF ij(2,1)] assms(7) by simp
    moreover have "perms ! (j * h + i) = int b" using assms(6) ij by (simp add: b_def)
    ultimately show ?thesis by (simp only: block_at)
  qed
  have rn: "block_read free (int b) = Inr (int n)"
    "block_write free (int b) (int n + 1) = Inr (free[b := int n + 1])"
    using b Cons.prems(3,4) by (simp_all add: block_at n_def)
  have hc: "h * c < 2 ^ 31" using assms(5) by (simp add: mult.commute)
  have k: "b * c + n < h * c" by (rule row_column_less [OF b n])
  have ik: "unat (of_nat b * cap + of_nat n :: u32) = b * c + n"
    by (rule table_index [OF b n hc assms(4)])
  have "unat (of_nat b * cap + of_nat n :: u32) < 2 ^ 31" using ik k hc by linarith
  then have sk: "sint (cap * word_of_int (int b) + word_of_int (int n) :: u32) = int (b * c + n)"
    by (simp only: of_int_of_nat_eq mult.commute [of cap] sint_small_u32 ik)
  have kl: "b * c + n < length (vec_data cht)" using k Cons.prems(1) by (simp add: mult.commute)
  let ?cht = "cht\<lparr>vec_data := (vec_data cht)[b * c + n := of_nat j]\<rparr>" and ?free = "free[b := int n + 1]"
    and ?visited = "visited @ [q]"
  have run: "cht_place height cap perms (q # loops) free cht =
      cht_place height cap perms loops ?free ?cht"
    unfolding q by (simp only: cht_place.simps rp rn rbind_Inr sk vector_at_nat(2) [OF kl])
  have row: "row h ?visited b' = row h visited b' @ (if b' = b then [j] else [])" for b'
    by (simp add: row_append q row_Cons b_def row_def)
  have "\<forall>b' < h. ?free ! b' = int (length (row h ?visited b'))"
    using Cons.prems(3,4) b by (auto simp: row n_def nth_list_update)
  moreover have "vec_data ?cht ! (b' * c + p) = of_nat (row h ?visited b' ! p)"
    if "b' < h" "p < length (row h ?visited b')" for b' p
  proof -
    have pc: "p < c"
    proof -
      have "hits h c b' = row h ?visited b' @ row h loops b'"
        by (simp add: hits_row Cons.prems(2) row_append [symmetric])
      with hits_permutation(3) [OF assms(1,2) that(1), of c] that(2) show ?thesis by simp
    qed
    show ?thesis
    proof (cases "b' = b \<and> p = n")
      case True
      with kl show ?thesis by (simp add: row n_def)
    next
      case False
      then have ne: "b' * c + p \<noteq> b * c + n" using row_column_inj [of b' c p b n] pc n by auto
      have "p < length (row h visited b')"
        using that(2) False by (auto simp: row n_def less_Suc_eq split: if_splits)
      with Cons.prems(5) that(1) ne show ?thesis by (simp add: row nth_append)
    qed
  qed
  ultimately show ?case
    using Cons.IH [of ?cht ?visited ?free] Cons.prems(1-3) by (simp add: run)
qed

lemma cht_fill_correct:
  fixes height cap :: u32
  defines "h \<equiv> unat height" and "c \<equiv> unat cap"
  assumes "is_prime (ucast height)" "c * h < 2 ^ 31" "length block = c * h"
    and "c * h \<le> length (vec_data cht)"
  shows "\<exists>cht'. cht_fill_cht (Some block) True cht height cap = Inr (Some cht') \<and>
    length (vec_data cht') = length (vec_data cht) \<and>
    (\<forall>b < h. \<forall>p < c. vec_data cht' ! (b * c + p) = of_nat (hits h c b ! p))"
proof -
  have p: "1 < h" "\<forall>m. m dvd h \<longrightarrow> m = 1 \<or> m = h"
    using assms(3) by (simp_all add: is_prime_iff h_def)
  then have h: "1 < height" by (simp add: h_def word_less_nat_alt)
  have "set (List.product [0..<c] [0..<h]) \<subseteq> {..<c} \<times> {..<h}" by auto
  from cht_generate_correct [OF h _ assms(4,5) this]
  obtain perms where g: "cht_generate height (List.product [0..<c] [0..<h]) block = Inr perms"
    "length perms = c * h" "\<forall>i < c. \<forall>j < h. perms ! (i * h + j) = int (permut h i j)"
    by (auto simp: h_def)
  have "\<exists>cht'. cht_place height cap perms (List.product [0..<h] [0..<c]) (replicate h 0) cht = Inr cht' \<and>
    length (vec_data cht') = length (vec_data cht) \<and>
    (\<forall>b < h. \<forall>p < c. vec_data cht' ! (b * c + p) = of_nat (hits h c b ! p))"
    by (rule cht_place_correct [OF p _ _ assms(4) g(3,2) assms(6), where visited = "[]"])
      (simp_all add: h_def c_def row_def)
  with g(1) h show ?thesis
    by (auto simp: cht_fill_cht_def h_def [symmetric] c_def [symmetric] not_le)
qed

section \<open>The choice\<close>

text \<open>The table filled for \<open>c\<close> backends with \<open>h\<close> rows, and an allocator of \<open>c\<close> indices.\<close>

definition cht_filled :: "nat \<Rightarrow> nat \<Rightarrow> u32 nf_vector \<Rightarrow> bool" where
  "cht_filled h c cht \<longleftrightarrow>
     1 < h \<and> (\<forall>m. m dvd h \<longrightarrow> m = 1 \<or> m = h) \<and> c * h < 2 ^ 31 \<and> c * h \<le> length (vec_data cht) \<and>
     (\<forall>b < h. \<forall>p < c. vec_data cht ! (b * c + p) = of_nat (hits h c b ! p))"

definition backends :: "nat \<Rightarrow> double_chain \<Rightarrow> aged \<Rightarrow> bool" where
  "backends c d L \<longleftrightarrow> (\<exists>F. chain_rep d L F \<and> set (ids L) \<union> set F = {0..<int c})"

lemma cht_find_loop_correct:
  assumes "cht_filled h c cht" "backends c d L" "unat cap = c" "unat start = b" "b < h"
    and "\<forall>p \<in> set ps. p < c"
  shows "cht_find_loop start cht d cap ps =
    Inr (map_option int (find (\<lambda>x. int x \<in> set (ids L)) (map (\<lambda>p. hits h c b ! p) ps)))"
  using assms(6)
proof (induction ps)
  case (Cons p ps)
  have f: "1 < h" "\<forall>m. m dvd h \<longrightarrow> m = 1 \<or> m = h" "c * h < 2 ^ 31" "c * h \<le> length (vec_data cht)"
    "vec_data cht ! (b * c + p) = of_nat (hits h c b ! p)"
    using assms(1,5) Cons.prems by (simp_all add: cht_filled_def)
  obtain F where F: "chain_rep d L F" "set (ids L) \<union> set F = {0..<int c}"
    using assms(2) by (auto simp: backends_def)
  have p: "p < c" using Cons.prems by simp
  have lt: "b * c + p < h * c" by (rule row_column_less [OF assms(5) p])
  have hc: "h * c < 2 ^ 31" using f(3) by (simp add: mult.commute)
  have e: "(2 :: nat) ^ 31 < 2 ^ 32" "(2 :: nat) ^ 31 < 2 ^ 64" by simp_all
  have "p < 2 ^ 64" "b * c < 2 ^ 64" "b * c + p < 2 ^ 64" using lt hc e by linarith+
  then have "unat (start * ucast cap + of_nat p :: u64) = b * c + p"
    using assms(3,4)
    by (subst unat_add_lem [THEN iffD1], subst unat_mult_lem [THEN iffD1])
      (simp_all add: unat_of_nat take_bit_nat_eq_self unat_mult_lem [THEN iffD1])
  moreover have "b * c + p < 2 ^ 32" using lt hc e by linarith
  ultimately have u: "unat (ucast (start * ucast cap + of_nat p :: u64) :: u32) = b * c + p"
    by (simp add: unsigned_ucast_eq take_bit_nat_eq_self)
  have "unat (ucast (start * ucast cap + of_nat p :: u64) :: u32) < 2 ^ 31"
    using lt hc u by linarith
  then have i: "sint (ucast (start * ucast cap + of_nat p :: u64) :: u32) = int (b * c + p)"
    by (simp only: sint_small_u32 u)
  have "b * c + p < length (vec_data cht)" using lt f(4) by (simp add: mult.commute)
  from vector_at_nat(1) [OF this] have v: "vector_borrow cht (int (b * c + p)) = Inr (of_nat (hits h c b ! p))"
    by (simp add: f(5))
  let ?x = "hits h c b ! p"
  have "?x \<in> set (hits h c b)" using hits_permutation(3) [OF f(1,2) assms(5), of c] p by simp
  then have x: "?x < c" using hits_permutation(2) [OF f(1,2) assms(5), of c] by auto
  have "c * 1 \<le> c * h" using f(1) by (intro mult_le_mono) simp_all
  then have xs: "?x < 2 ^ 31" "?x < 2 ^ 32" using x f(3) e by linarith+
  then have xu: "unat (of_nat ?x :: u32) = ?x" by (simp add: unat_of_nat take_bit_nat_eq_self)
  then have xi: "sint (of_nat ?x :: u32) = int ?x" using xs(1) by (simp only: sint_small_u32)
  have "int ?x \<in> set (ids L @ F)" using F(2) x by (simp del: set_map)
  from chain.allocated_iff [OF F(1) this]
  have a: "dchain_is_index_allocated d (int ?x) = Inr (int ?x \<in> set (ids L))" .
  have "cht_find_loop start cht d cap (p # ps) =
      (if int ?x \<in> set (ids L) then Inr (Some (int ?x)) else cht_find_loop start cht d cap ps)"
    by (simp only: cht_find_loop.simps Let_def i v rbind_Inr xi a)
  with Cons show ?case by (simp del: cht_find_loop.simps)
qed simp

lemma cht_find_correct:
  assumes "cht_filled h c cht" "backends c d L" "unat cap = c" "unat height = h"
  shows "cht_find_preferred_available_backend hash cht d height cap =
    Inr (map_option int (find (\<lambda>x. int x \<in> set (ids L)) (hits h c (unat hash mod h))))"
proof -
  have h: "1 < h" "\<forall>m. m dvd h \<longrightarrow> m = 1 \<or> m = h" using assms(1) by (simp_all add: cht_filled_def)
  have s: "unat (cht_loop hash (ucast height)) = unat hash mod h"
    using assms(4) by (simp add: cht_loop_def unat_mod)
  have b: "unat hash mod h < h" using h(1) by simp
  have "map (\<lambda>p. hits h c (unat hash mod h) ! p) [0..<c] = hits h c (unat hash mod h)"
    using hits_permutation(3) [OF h b, of c] by (intro nth_equalityI) simp_all
  moreover have "height \<noteq> 0" using h(1) assms(4) by auto
  ultimately show ?thesis
    using cht_find_loop_correct [OF assms(1-3) s b, of "[0..<c]"]
    by (simp add: cht_find_preferred_available_backend_def Let_def assms(3))
qed

lemma cht_find_cases:
  assumes "cht_filled h c cht" "backends c d L" "unat cap = c" "unat height = h"
  shows "(\<exists>x \<in> set (ids L). cht_find_preferred_available_backend hash cht d height cap = Inr (Some x)) \<or>
    (L = [] \<and> cht_find_preferred_available_backend hash cht d height cap = Inr None)"
proof -
  have h: "1 < h" "\<forall>m. m dvd h \<longrightarrow> m = 1 \<or> m = h" using assms(1) by (simp_all add: cht_filled_def)
  have b: "unat hash mod h < h" using h(1) by simp
  let ?hits = "hits h c (unat hash mod h)" and ?P = "\<lambda>x. int x \<in> set (ids L)"
  note r = cht_find_correct [OF assms, of hash]
  show ?thesis
  proof (cases "find ?P ?hits")
    case None
    have "L = []"
    proof (rule ccontr)
      assume "L \<noteq> []"
      then obtain i where i: "i \<in> set (ids L)" by (cases L) auto
      then have "0 \<le> i" "i < int c" using assms(2) by (auto simp: backends_def simp del: set_map)
      then have "nat i \<in> set ?hits" using hits_permutation(2) [OF h b, of c] by (simp add: nat_less_iff)
      moreover have "?P (nat i)" using i \<open>0 \<le> i\<close> by simp
      ultimately show False using None by (auto simp: find_None_iff simp del: set_map)
    qed
    with r None show ?thesis by simp
  next
    case (Some x)
    then have "?P x" by (auto simp: find_Some_iff)
    with r Some show ?thesis by auto
  qed
qed

section \<open>A small table\<close>

text \<open>Three rows of two backends, and the allocator with both backends active and with one.\<close>

abbreviation blank_table :: "u32 nf_vector" where
  "blank_table \<equiv> \<lparr>vec_data = replicate 6 9, vec_capacity = 6\<rparr>"

lemma small_table:
  obtains cht d d' where
    "cht_fill_cht (Some (replicate 6 0)) True blank_table 3 2 = Inr (Some cht)" "cht_filled 3 2 cht"
    "backends 2 d [(0, 5), (1, 6)]" "backends 2 d' [(0, 5)]"
proof -
  have p: "is_prime (ucast (3 :: u32))" by (simp add: is_prime_def word_le_nat_alt)
  then have p': "is_prime (3 :: u64)" by simp
  have "\<exists>cht'. cht_fill_cht (Some (replicate 6 0)) True blank_table 3 2 = Inr (Some cht') \<and>
    length (vec_data cht') = 6 \<and>
    (\<forall>b < 3. \<forall>p < 2. vec_data cht' ! (b * 2 + p) = of_nat (hits 3 2 b ! p))"
    using cht_fill_correct [of 3 2 "replicate 6 0" blank_table] p by simp
  then obtain cht where f: "cht_fill_cht (Some (replicate 6 0)) True blank_table 3 2 = Inr (Some cht)"
    "length (vec_data cht) = 6" "\<forall>b < 3. \<forall>p < 2. vec_data cht ! (b * 2 + p) = of_nat (hits 3 2 b ! p)"
    by blast
  have "\<forall>m. m dvd 3 \<longrightarrow> m = 1 \<or> m = (3 :: nat)" using p' unfolding is_prime_iff by simp
  with f(2,3) have c: "cht_filled 3 2 cht" by (simp add: cht_filled_def)
  have u: "[0..2 - 1] = [0, 1 :: int]" by (simp add: upto.simps)
  have l: "(1 :: int) \<le> 2" "int (length (replicate 4 \<lparr>dc_prev = 0, dc_next = 0\<rparr>)) = 2 + 2"
    "int (length [0, 0 :: int]) = 2" by simp_all
  from dchain_allocate_correct_blocks [OF l, unfolded u] obtain d0 where
    d0: "chain_rep d0 [] [0, 1]" by blast
  from chain.alloc_fresh [OF d0, of 5] obtain d1 where d1: "chain_rep d1 [(0, 5)] [1]" by auto
  from chain.alloc_fresh [OF d1, of 6] obtain d2 where d2: "chain_rep d2 [(0, 5), (1, 6)] []" by auto
  have "{0, 1} = {0..<2 :: int}" by auto
  with d1 d2 have "backends 2 d2 [(0, 5), (1, 6)]" "backends 2 d1 [(0, 5)]"
    unfolding backends_def by (auto intro: exI [of _ "[]"] exI [of _ "[1]"])
  with f(1) c show thesis by (rule that)
qed

lemma small_table_first: "hits 3 2 0 = [0, 1]"
proof -
  have "[0..<3] = [0, 1, 2 :: nat]" "[0..<2] = [0, 1 :: nat]" by (simp_all add: upt_rec)
  then show ?thesis by (simp add: hits_def permut_def)
qed

section \<open>Properties\<close>

text \<open>Every row of the table is a permutation of the backends: for a prime height and a table of
  fewer than \<open>2 ^ 31\<close> entries the filling stays inside its blocks and each row lists each
  backend exactly once.\<close>
lemma cht_rows_are_permutations:
  fixes height cap :: u32
  assumes "is_prime (ucast height)" "unat cap * unat height < 2 ^ 31"
    and "length block = unat cap * unat height" "unat cap * unat height \<le> length (vec_data cht)"
  shows "\<exists>cht'. cht_fill_cht (Some block) True cht height cap = Inr (Some cht') \<and>
    (\<forall>b < unat height.
       distinct (map (\<lambda>p. vec_data cht' ! (b * unat cap + p)) [0..<unat cap]) \<and>
       set (map (\<lambda>p. vec_data cht' ! (b * unat cap + p)) [0..<unat cap]) = of_nat ` {..<unat cap})"
proof -
  let ?h = "unat height" and ?c = "unat cap"
  from cht_fill_correct [OF assms] obtain cht' where
    f: "cht_fill_cht (Some block) True cht height cap = Inr (Some cht')"
      "\<forall>b < ?h. \<forall>p < ?c. vec_data cht' ! (b * ?c + p) = of_nat (hits ?h ?c b ! p)" by blast
  have h: "1 < ?h" "\<forall>m. m dvd ?h \<longrightarrow> m = 1 \<or> m = ?h"
    using assms(1) by (simp_all add: is_prime_iff)
  have "distinct (map (\<lambda>p. vec_data cht' ! (b * ?c + p)) [0..<?c]) \<and>
      set (map (\<lambda>p. vec_data cht' ! (b * ?c + p)) [0..<?c]) = of_nat ` {..<?c}" if b: "b < ?h" for b
  proof -
    note hp = hits_permutation [OF h b, of ?c]
    have e: "map (\<lambda>p. vec_data cht' ! (b * ?c + p)) [0..<?c] = map of_nat (hits ?h ?c b)"
      using f(2) b hp(3) by (intro nth_equalityI) simp_all
    have "inj_on (of_nat :: nat \<Rightarrow> u32) {..<?c}"
    proof (rule inj_onI)
      fix x y assume "x \<in> {..<?c}" "y \<in> {..<?c}" "(of_nat x :: u32) = of_nat y"
      moreover have "?c < 2 ^ LENGTH(32)" by (rule unsigned_less)
      ultimately show "x = y" by (metis less_trans lessThan_iff of_nat_inverse)
    qed
    with hp(1,2) show ?thesis unfolding e by (simp add: distinct_map)
  qed
  with f(1) show ?thesis by blast
qed

lemma cht_rows_are_permutations_witness:
  "\<exists>cht. cht_fill_cht (Some (replicate 6 0)) True blank_table 3 2 = Inr (Some cht) \<and>
     distinct (map (\<lambda>p. vec_data cht ! (2 * 2 + p)) [0..<2])"
proof -
  have p: "is_prime (ucast (3 :: u32))" by (simp add: is_prime_def word_le_nat_alt)
  from cht_rows_are_permutations [OF p, of 2 "replicate 6 0" blank_table] obtain cht where
    c: "cht_fill_cht (Some (replicate 6 0)) True blank_table 3 2 = Inr (Some cht)"
      "\<forall>b < 3. distinct (map (\<lambda>p. vec_data cht ! (b * 2 + p)) [0..<2])" by auto
  have "(2 :: nat) < 3" by simp
  with c show ?thesis by blast
qed

text \<open>C19. Some backend is always found: while any backend is active, every hash is sent to an active
  one, and to none when there is none.\<close>
theorem cht_finds_active:
  assumes "cht_filled h c cht" "backends c d L" "unat cap = c" "unat height = h"
  shows "(\<exists>x \<in> set (ids L). cht_find_preferred_available_backend hash cht d height cap = Inr (Some x)) \<or>
    (L = [] \<and> cht_find_preferred_available_backend hash cht d height cap = Inr None)"
  by (rule cht_find_cases [OF assms])

lemma cht_finds_active_witness:
  "\<exists>cht d x. cht_fill_cht (Some (replicate 6 0)) True blank_table 3 2 = Inr (Some cht) \<and>
     backends 2 d [(0, 5)] \<and>
     cht_find_preferred_available_backend 7 cht d 3 2 = Inr (Some 0)"
proof -
  obtain cht d d' where t:
    "cht_fill_cht (Some (replicate 6 0)) True blank_table 3 2 = Inr (Some cht)" "cht_filled 3 2 cht"
    "backends 2 d [(0, 5), (1, 6)]" "backends 2 d' [(0, 5)]" by (rule small_table)
  from cht_finds_active [OF t(2,4), of 2 3 7] have
    "cht_find_preferred_available_backend 7 cht d' 3 2 = Inr (Some 0)" by simp
  with t(1,4) show ?thesis by blast
qed

text \<open>C20. Removing backends disturbs no one else: a hash that is sent to some backend is sent to the
  same one as long as that backend stays active, whatever other backends go.\<close>
theorem cht_minimal_disruption:
  assumes "cht_filled h c cht" "backends c d L" "backends c d' L'" "unat cap = c" "unat height = h"
    and "set (ids L') \<subseteq> set (ids L)"
    and "cht_find_preferred_available_backend hash cht d height cap = Inr (Some x)" "x \<in> set (ids L')"
  shows "cht_find_preferred_available_backend hash cht d' height cap = Inr (Some x)"
proof -
  let ?hits = "hits h c (unat hash mod h)"
  from assms(7) cht_find_correct [OF assms(1,2,4,5), of hash] obtain y where
    y: "find (\<lambda>x. int x \<in> set (ids L)) ?hits = Some y" "x = int y" by auto
  then obtain i where i: "i < length ?hits" "y = ?hits ! i" "\<forall>j < i. int (?hits ! j) \<notin> set (ids L)"
    by (auto simp: find_Some_iff)
  have "find (\<lambda>x. int x \<in> set (ids L')) ?hits = Some y"
    unfolding find_Some_iff using i y(2) assms(6,8) by (intro exI [of _ i]) blast
  with cht_find_correct [OF assms(1,3,4,5), of hash] y(2) show ?thesis by simp
qed

lemma cht_minimal_disruption_witness:
  "\<exists>cht d d'. cht_fill_cht (Some (replicate 6 0)) True blank_table 3 2 = Inr (Some cht) \<and>
     backends 2 d [(0, 5), (1, 6)] \<and> backends 2 d' [(0, 5)] \<and>
     cht_find_preferred_available_backend 0 cht d 3 2 = Inr (Some 0) \<and>
     cht_find_preferred_available_backend 0 cht d' 3 2 = Inr (Some 0)"
proof -
  obtain cht d d' where t:
    "cht_fill_cht (Some (replicate 6 0)) True blank_table 3 2 = Inr (Some cht)" "cht_filled 3 2 cht"
    "backends 2 d [(0, 5), (1, 6)]" "backends 2 d' [(0, 5)]" by (rule small_table)
  have f: "cht_find_preferred_available_backend 0 cht d 3 2 = Inr (Some 0)"
    using cht_find_correct [OF t(2,3), of 2 3 0] by (simp add: small_table_first)
  from cht_minimal_disruption [OF t(2-4) _ _ _ f] have
    "cht_find_preferred_available_backend 0 cht d' 3 2 = Inr (Some 0)" by simp
  with t f show ?thesis by blast
qed

end
