(* ===== verification/ForwardingTable.thy ===== *)
theory ForwardingTable
  imports Prelude
begin

text \<open>
  The longest-prefix-match table DIR-24-8, \<^verbatim>\<open>dpdk-nfs/lib/state/lpm-dir-24-8.c\<close>: a table
  indexed by the first 24 bits of an address whose entries are routes or, with the top
  bit set, numbers of blocks of 256 routes for the last 8 bits.
\<close>

unbundle bit_operations_syntax

section \<open>State\<close>

abbreviation LPM_INVALID :: u16 where "LPM_INVALID \<equiv> 0xFFFF"
abbreviation LPM_24_FLAG_MASK :: u16 where "LPM_24_FLAG_MASK \<equiv> 0x8000"
abbreviation LPM_24_MAX_ENTRIES :: nat where "LPM_24_MAX_ENTRIES \<equiv> 16777216"
abbreviation LPM_LONG_OFFSET_MAX :: u16 where "LPM_LONG_OFFSET_MAX \<equiv> 256"
abbreviation LPM_LONG_FACTOR :: u16 where "LPM_LONG_FACTOR \<equiv> 256"
abbreviation LPM_LONG_MAX_ENTRIES :: nat where "LPM_LONG_MAX_ENTRIES \<equiv> 65536"

text \<open>An array is a function from its indices; reads and writes check the bound.\<close>

record lpm_table =
  lpm_24 :: "nat \<Rightarrow> u16"
  lpm_long :: "nat \<Rightarrow> u16"
  lpm_long_index :: u16

definition route_read :: "nat \<Rightarrow> (nat \<Rightarrow> u16) \<Rightarrow> nat \<Rightarrow> u16 result" where
  "route_read entries t i = (if i < entries then Inr (t i) else Inl Undefined)"

definition route_write :: "nat \<Rightarrow> (nat \<Rightarrow> u16) \<Rightarrow> nat \<Rightarrow> u16 \<Rightarrow> (nat \<Rightarrow> u16) result" where
  "route_write entries t i v = (if i < entries then Inr (t(i := v)) else Inl Undefined)"

text \<open>
  The loop \<^verbatim>\<open>for (uint32_t i = first;; i++) { if (i == last) break; t[i] = value; }\<close>
  of the three functions that fill a range.
\<close>

function fill_routes :: "nat \<Rightarrow> (nat \<Rightarrow> u16) \<Rightarrow> u32 \<Rightarrow> u32 \<Rightarrow> u16 \<Rightarrow> (nat \<Rightarrow> u16) result" where
  "fill_routes entries t i last_index value =
     (if i = last_index then Inr t
      else rbind (route_write entries t (unat i) value)
             (\<lambda>t. fill_routes entries t (i + 1) last_index value))"
  by pat_completeness auto

termination
proof (relation "measure (\<lambda>(_, _, i, last_index, _). unat (last_index - i))", goal_cases)
  case (2 entries t i n v t')
  then have "unat (n - i - 1) < unat (n - i)"
    by (intro measure_unat) simp
  then show ?case by (simp add: diff_diff_eq)
qed simp

declare fill_routes.simps [simp del]

definition fill_invalid :: "nat \<Rightarrow> (nat \<Rightarrow> u16) \<Rightarrow> u32 \<Rightarrow> (nat \<Rightarrow> u16) result" where
  "fill_invalid entries t count = fill_routes entries t 0 count LPM_INVALID"

section \<open>Masks and sizes\<close>

definition ip_masks :: "u32 list" where
  "ip_masks = [0x00000000, 0x80000000, 0xC0000000, 0xE0000000, 0xF0000000, 0xF8000000,
     0xFC000000, 0xFE000000, 0xFF000000, 0xFF800000, 0xFFC00000, 0xFFE00000, 0xFFF00000,
     0xFFF80000, 0xFFFC0000, 0xFFFE0000, 0xFFFF0000, 0xFFFF8000, 0xFFFFC000, 0xFFFFE000,
     0xFFFFF000, 0xFFFFF800, 0xFFFFFC00, 0xFFFFFE00, 0xFFFFFF00, 0xFFFFFF80, 0xFFFFFFC0,
     0xFFFFFFE0, 0xFFFFFFF0, 0xFFFFFFF8, 0xFFFFFFFC, 0xFFFFFFFE, 0xFFFFFFFF]"

definition build_mask_from_prefixlen :: "u8 \<Rightarrow> u32 result" where
  "build_mask_from_prefixlen prefixlen =
     (if unat prefixlen < 33 then Inr (ip_masks ! unat prefixlen) else Inl Undefined)"

definition lpm_24_extract_first_index :: "u32 \<Rightarrow> u32" where
  "lpm_24_extract_first_index data = drop_bit 8 data"

definition rule_sizes_24 :: "u32 list" where
  "rule_sizes_24 = [0x1000000, 0x800000, 0x400000, 0x200000, 0x100000, 0x80000, 0x40000,
     0x20000, 0x10000, 0x8000, 0x4000, 0x2000, 0x1000, 0x800, 0x400, 0x200, 0x100, 0x80,
     0x40, 0x20, 0x10, 0x8, 0x4, 0x2, 0x1]"

definition rule_sizes_long :: "u32 list" where
  "rule_sizes_long = [0x80, 0x40, 0x20, 0x10, 0x8, 0x4, 0x2, 0x1]"

definition compute_rule_size :: "u8 \<Rightarrow> u32 result" where
  "compute_rule_size prefixlen =
     (if unat prefixlen < 25 then Inr (rule_sizes_24 ! unat prefixlen)
      else if unat prefixlen - 25 < 8 then Inr (rule_sizes_long ! (unat prefixlen - 25))
      else Inl Undefined)"

definition lpm_24_entry_flag :: "u16 \<Rightarrow> bool" where
  "lpm_24_entry_flag entry \<longleftrightarrow> drop_bit 15 entry = 1"

definition lpm_24_entry_set_flag :: "u16 \<Rightarrow> u16" where
  "lpm_24_entry_set_flag entry = entry OR LPM_24_FLAG_MASK"

definition lpm_long_extract_first_index :: "u32 \<Rightarrow> u8 \<Rightarrow> u8 \<Rightarrow> u16 result" where
  "lpm_long_extract_first_index data prefixlen base_index =
     rbind (build_mask_from_prefixlen prefixlen) (\<lambda>mask.
       let last_byte = ucast (data AND mask AND 0xFF) :: u8
       in Inr (ucast base_index * LPM_LONG_FACTOR + ucast last_byte))"

section \<open>Operations\<close>

text \<open>
  The three flags are the outcomes of the three calls of \<^verbatim>\<open>malloc\<close>, the arrays what the
  fresh memory holds; \<open>None\<close> is the return value 0.
\<close>

definition lpm_allocate ::
    "bool \<Rightarrow> bool \<Rightarrow> bool \<Rightarrow> (nat \<Rightarrow> u16) \<Rightarrow> (nat \<Rightarrow> u16) \<Rightarrow> lpm_table option result" where
  "lpm_allocate got got_24 got_long mem_24 mem_long =
     (if \<not> got then Inr None
      else if \<not> got_24 then Inr None
      else if \<not> got_long then Inr None
      else rbind (fill_invalid LPM_24_MAX_ENTRIES mem_24 (of_nat LPM_24_MAX_ENTRIES)) (\<lambda>t24.
           rbind (fill_invalid LPM_LONG_MAX_ENTRIES mem_long (of_nat LPM_LONG_MAX_ENTRIES)) (\<lambda>tlong.
             Inr (Some \<lparr>lpm_24 = t24, lpm_long = tlong, lpm_long_index = 0\<rparr>))))"

text \<open>
  \<open>bswap\<close> stands for \<^verbatim>\<open>rte_bswap32\<close> of DPDK. A lookup that returns 0 is \<open>None\<close>,
  one that returns 1 gives the value written to \<^verbatim>\<open>value_out\<close>.
\<close>

definition lpm_lookup :: "(u32 \<Rightarrow> u32) \<Rightarrow> lpm_table \<Rightarrow> u32 \<Rightarrow> u16 option result" where
  "lpm_lookup bswap lpm addr =
     (let addr = bswap addr;
          index = lpm_24_extract_first_index addr in
      rbind (route_read LPM_24_MAX_ENTRIES (lpm_24 lpm) (unat index)) (\<lambda>value.
        if value \<noteq> LPM_INVALID \<and> lpm_24_entry_flag value then
          rbind (lpm_long_extract_first_index addr 32 (ucast (value AND 0xFF))) (\<lambda>index_long.
          rbind (route_read LPM_LONG_MAX_ENTRIES (lpm_long lpm) (unat index_long)) (\<lambda>value_long.
            Inr (if value_long = LPM_INVALID then None else Some value_long)))
        else Inr (if value = LPM_INVALID then None else Some value)))"

text \<open>The entry of a /24 that points to a block of \<^verbatim>\<open>lpm_long\<close>, made when it has none.\<close>

definition lpm_long_base :: "lpm_table \<Rightarrow> u32 \<Rightarrow> (lpm_table \<times> u8) option result" where
  "lpm_long_base lpm lpm_24_index =
     rbind (route_read LPM_24_MAX_ENTRIES (lpm_24 lpm) (unat lpm_24_index)) (\<lambda>lpm_24_value.
       let need_new_index = (if lpm_24_value = LPM_INVALID then True
                             else \<not> lpm_24_entry_flag lpm_24_value) in
       if need_new_index then
         if LPM_LONG_OFFSET_MAX \<le> lpm_long_index lpm then Inr None
         else
           let base_index = ucast (lpm_long_index lpm) :: u8;
               lpm = lpm\<lparr>lpm_long_index := lpm_long_index lpm + 1\<rparr>;
               new_entry24 = lpm_24_entry_set_flag (ucast base_index) in
           rbind (route_write LPM_24_MAX_ENTRIES (lpm_24 lpm) (unat lpm_24_index) new_entry24)
             (\<lambda>t. Inr (Some (lpm\<lparr>lpm_24 := t\<rparr>, base_index)))
       else Inr (Some (lpm, ucast (lpm_24_value AND 0x7FFF))))"

definition lpm_update :: "(u32 \<Rightarrow> u32) \<Rightarrow> lpm_table \<Rightarrow> u32 \<Rightarrow> u8 \<Rightarrow> u16 \<Rightarrow> (bool \<times> lpm_table) result" where
  "lpm_update bswap lpm prefix prefixlen value =
     (let prefix = bswap prefix in
      rbind (build_mask_from_prefixlen prefixlen) (\<lambda>mask.
        let masked_ip = prefix AND mask in
        if prefixlen < 25 then
          let first_index = lpm_24_extract_first_index masked_ip in
          rbind (compute_rule_size prefixlen) (\<lambda>rule_size.
          rbind (fill_routes LPM_24_MAX_ENTRIES (lpm_24 lpm) first_index (first_index + rule_size) value)
            (\<lambda>t. Inr (True, lpm\<lparr>lpm_24 := t\<rparr>)))
        else
          rbind (lpm_long_base lpm (lpm_24_extract_first_index prefix)) (\<lambda>found. case found of
            None \<Rightarrow> Inr (False, lpm)
          | Some (lpm, base_index) \<Rightarrow>
              rbind (lpm_long_extract_first_index prefix prefixlen base_index) (\<lambda>first.
                let first_index = ucast first :: u32 in
                rbind (compute_rule_size prefixlen) (\<lambda>rule_size.
                rbind (fill_routes LPM_LONG_MAX_ENTRIES (lpm_long lpm) first_index
                         (first_index + rule_size) value)
                  (\<lambda>t. Inr (True, lpm\<lparr>lpm_long := t\<rparr>)))))))"

section \<open>Filling a range\<close>

lemma unat_u32_less: "unat (w :: u32) < 4294967296"
  using unsigned_less [of w] by simp

lemma fill_routes_range:
  assumes "unat i \<le> unat n" "unat n \<le> entries"
  shows "fill_routes entries t i n v =
           Inr (\<lambda>j. if unat i \<le> j \<and> j < unat n then v else t j)"
  using assms
proof (induction entries t i n v rule: fill_routes.induct)
  case (1 entries t i n v)
  show ?case
  proof (cases "i = n")
    case True
    then show ?thesis by (subst fill_routes.simps) (auto simp: fun_eq_iff)
  next
    case False
    with 1(2) have lt: "unat i < unat n" by (metis le_neq_implies_less word_unat_eq_iff)
    then have suc: "unat (i + 1) = Suc (unat i)"
      using unat_u32_less [of n] by (simp add: unat_word_ariths)
    from lt 1(3) have w: "route_write entries t (unat i) v = Inr (t(unat i := v))"
      by (simp add: route_write_def)
    have "fill_routes entries (t(unat i := v)) (i + 1) n v =
            Inr (\<lambda>j. if unat (i + 1) \<le> j \<and> j < unat n then v else (t(unat i := v)) j)"
      using 1(1) [OF False] lt 1(3) suc by simp
    then show ?thesis
      using False w lt suc by (subst fill_routes.simps) (auto simp: fun_eq_iff)
  qed
qed

lemma fill_invalid_all:
  assumes "unat n \<le> entries"
  shows "fill_invalid entries t n = Inr (\<lambda>j. if j < unat n then LPM_INVALID else t j)"
  using assms by (simp add: fill_invalid_def fill_routes_range)

section \<open>Prefixes\<close>

text \<open>The abstract view: a rule covers the addresses that agree with it on its first bits.\<close>

definition covers :: "u32 \<Rightarrow> nat \<Rightarrow> u32 \<Rightarrow> bool" where
  "covers p len a \<longleftrightarrow> unat a div 2 ^ (32 - len) = unat p div 2 ^ (32 - len)"

lemma ip_masks_eq: "ip_masks = map (\<lambda>n. NOT (mask (32 - n))) [0..<33]"
  by code_simp

lemma rule_sizes_24_eq: "rule_sizes_24 = map (\<lambda>n. 2 ^ (24 - n)) [0..<25]"
  by code_simp

lemma rule_sizes_long_eq: "rule_sizes_long = map (\<lambda>n. 2 ^ (7 - n)) [0..<8]"
  by code_simp

lemma build_mask_eq:
  "unat len \<le> 32 \<Longrightarrow> build_mask_from_prefixlen len = Inr (NOT (mask (32 - unat len)))"
  by (simp add: build_mask_from_prefixlen_def ip_masks_eq del: upt_conv_Cons)

lemma compute_rule_size_eq:
  assumes "unat len \<le> 32"
  shows "compute_rule_size len = Inr (2 ^ ((if unat len < 25 then 24 else 32) - unat len))"
proof (cases "unat len < 25")
  case True
  then show ?thesis by (simp add: compute_rule_size_def rule_sizes_24_eq)
next
  case False
  with assms have "7 - (unat len - 25) = 32 - unat len" by simp
  with False assms show ?thesis by (simp add: compute_rule_size_def rule_sizes_long_eq)
qed

lemma unat_clear_low: "unat (w AND NOT (mask k)) = unat w div 2 ^ k * 2 ^ k"
  for w :: u32
proof -
  have "unat (w AND NOT (mask k)) = push_bit k (drop_bit k (unat w))"
    by (rule bit_eqI) (auto simp: bit_simps dest: bit_imp_le_length)
  then show ?thesis by (simp add: push_bit_eq_mult drop_bit_eq_div)
qed

lemma unat_24_index: "unat (lpm_24_extract_first_index w) = unat w div 2 ^ 8"
proof -
  have "unat (drop_bit 8 w) = drop_bit 8 (unat w)"
    by (rule bit_eqI) (auto simp: bit_simps dest: bit_imp_le_length)
  then show ?thesis by (simp only: lpm_24_extract_first_index_def drop_bit_eq_div)
qed

lemma unat_24_index_less: "unat (lpm_24_extract_first_index w) < LPM_24_MAX_ENTRIES"
  using unat_u32_less [of w] by (simp add: unat_24_index less_mult_imp_div_less)

text \<open>The entries that a rule of at most 24 bits fills are those of the addresses it covers.\<close>

lemma block_div:
  fixes q j A :: nat
  shows "q * 2 ^ j \<le> A \<and> A < q * 2 ^ j + 2 ^ j \<longleftrightarrow> A div 2 ^ j = q"
proof
  assume "q * 2 ^ j \<le> A \<and> A < q * 2 ^ j + 2 ^ j"
  then show "A div 2 ^ j = q"
    by (intro div_nat_eqI) (simp_all add: mult.commute)
next
  assume "A div 2 ^ j = q"
  then show "q * 2 ^ j \<le> A \<and> A < q * 2 ^ j + 2 ^ j"
    using div_times_less_eq_dividend [of A "2 ^ j"] dividend_less_div_times [of "2 ^ j" A]
    by (auto simp: add.commute)
qed

lemma covers_range:
  fixes p a :: u32
  assumes "len \<le> 24"
  defines "m \<equiv> unat (p AND NOT (mask (32 - len))) div 2 ^ 8"
  shows "m \<le> unat a div 2 ^ 8 \<and> unat a div 2 ^ 8 < m + 2 ^ (24 - len) \<longleftrightarrow> covers p len a"
    and "m + 2 ^ (24 - len) \<le> LPM_24_MAX_ENTRIES"
    and "m = unat p div 2 ^ (32 - len) * 2 ^ (24 - len)"
proof -
  define k where "k = 24 - len"
  have e: "(32::nat) - len = k + 8" using assms(1) by (simp add: k_def)
  have m: "m = unat p div 2 ^ (k + 8) * 2 ^ k"
    by (simp add: m_def unat_clear_low e power_add)
  then show "m = unat p div 2 ^ (32 - len) * 2 ^ (24 - len)" by (simp only: e k_def)
  have "m \<le> unat a div 2 ^ 8 \<and> unat a div 2 ^ 8 < m + 2 ^ k \<longleftrightarrow>
          unat a div 2 ^ 8 div 2 ^ k = unat p div 2 ^ (k + 8)"
    unfolding m by (rule block_div)
  also have "unat a div 2 ^ 8 div 2 ^ k = unat a div 2 ^ (k + 8)"
    by (simp only: div_mult2_eq [symmetric] power_add mult.commute)
  finally show "m \<le> unat a div 2 ^ 8 \<and> unat a div 2 ^ 8 < m + 2 ^ (24 - len) \<longleftrightarrow> covers p len a"
    by (simp add: covers_def e k_def)
  have "unat p < 2 ^ (24 - k) * 2 ^ (k + 8)"
    using unat_u32_less [of p] assms(1) by (simp add: k_def flip: power_add)
  then have "unat p div 2 ^ (k + 8) + 1 \<le> 2 ^ (24 - k)"
    using less_mult_imp_div_less [of "unat p" "2 ^ (24 - k)" "2 ^ (k + 8)"] by simp
  then have "(unat p div 2 ^ (k + 8) + 1) * 2 ^ k \<le> 2 ^ (24 - k) * 2 ^ k"
    by (rule mult_right_mono) simp
  also have "(2::nat) ^ (24 - k) * 2 ^ k = 2 ^ 24"
    by (simp add: k_def flip: power_add)
  finally show "m + 2 ^ (24 - len) \<le> LPM_24_MAX_ENTRIES"
    by (simp add: m k_def algebra_simps)
qed

section \<open>The table as a routing information base\<close>

text \<open>
  What the table means: a route for every address (in host byte order), the /24 networks
  that have a block of \<^verbatim>\<open>lpm_long\<close>, and how many blocks were ever handed out.
\<close>

record rib =
  routes :: "u32 \<Rightarrow> u16 option"
  expanded :: "nat \<Rightarrow> bool"
  blocks :: nat

definition as_route :: "u16 \<Rightarrow> u16 option" where
  "as_route v = (if v = LPM_INVALID then None else Some v)"

definition is_block :: "u16 \<Rightarrow> bool" where
  "is_block e \<longleftrightarrow> e \<noteq> LPM_INVALID \<and> lpm_24_entry_flag e"

definition route_of :: "lpm_table \<Rightarrow> u32 \<Rightarrow> u16 option" where
  "route_of l a =
     (let e = lpm_24 l (unat a div 256) in
      if is_block e then as_route (lpm_long l (unat e mod 256 * 256 + unat a mod 256))
      else as_route e)"

definition lpm_rib :: "lpm_table \<Rightarrow> rib" where
  "lpm_rib l = \<lparr>routes = route_of l,
                expanded = (\<lambda>i. i < LPM_24_MAX_ENTRIES \<and> is_block (lpm_24 l i)),
                blocks = unat (lpm_long_index l)\<rparr>"

definition rib_update :: "u32 \<Rightarrow> nat \<Rightarrow> u16 \<Rightarrow> rib \<Rightarrow> bool \<times> rib" where
  "rib_update p len v r =
     (let net = unat p div 256;
          cover = (\<lambda>base. r\<lparr>routes := \<lambda>a. if covers p len a then Some v else base a\<rparr>) in
      if len < 25 then
        (True, (cover (routes r))\<lparr>expanded :=
           \<lambda>i. expanded r i \<and> i div 2 ^ (24 - len) \<noteq> unat p div 2 ^ (32 - len)\<rparr>)
      else if expanded r net then (True, cover (routes r))
      else if blocks r < 256 then
        (True, (cover (\<lambda>a. if unat a div 256 = net then None else routes r a))
           \<lparr>expanded := (expanded r)(net := True), blocks := blocks r + 1\<rparr>)
      else (False, r))"

text \<open>
  Entries that point to blocks point to blocks handed out, no two of them to the same one,
  and the blocks still free hold no route.
\<close>

definition lpm_wf :: "lpm_table \<Rightarrow> bool" where
  "lpm_wf l \<longleftrightarrow>
     unat (lpm_long_index l) \<le> 256
   \<and> (\<forall>i < LPM_24_MAX_ENTRIES. is_block (lpm_24 l i) \<longrightarrow>
        unat (lpm_24 l i) < 32768 + unat (lpm_long_index l))
   \<and> (\<forall>i < LPM_24_MAX_ENTRIES. \<forall>j < LPM_24_MAX_ENTRIES.
        is_block (lpm_24 l i) \<and> lpm_24 l i = lpm_24 l j \<longrightarrow> i = j)
   \<and> (\<forall>i < LPM_LONG_MAX_ENTRIES. unat (lpm_long_index l) * 256 \<le> i \<longrightarrow>
        lpm_long l i = LPM_INVALID)"

lemma unat_u16_less: "unat (e :: u16) < 65536"
  using unsigned_less [of e] by simp

lemma is_block_iff: "is_block e \<longleftrightarrow> 32768 \<le> unat e \<and> e \<noteq> LPM_INVALID"
proof -
  have "unat (drop_bit 15 e) = drop_bit 15 (unat e)"
    by (rule bit_eqI) (auto simp: bit_simps dest: bit_imp_le_length)
  then have "drop_bit 15 e = 1 \<longleftrightarrow> unat e div 2 ^ 15 = 1"
    by (simp only: word_unat_eq_iff drop_bit_eq_div unat_1)
  also have "\<dots> \<longleftrightarrow> 32768 \<le> unat e"
    using block_div [of 1 15 "unat e"] unat_u16_less [of e] by auto
  finally show ?thesis by (auto simp: is_block_def lpm_24_entry_flag_def)
qed

lemma unat_u8_less: "unat (b :: u8) < 256"
  using unsigned_less [of b] by simp

lemma unat_u8_u16: "unat (ucast b :: u16) = unat b" for b :: u8
  using unat_u8_less [of b] by (simp add: unsigned_ucast_eq take_bit_nat_eq_self)

lemma unat_u16_u8: "unat (ucast w :: u8) = unat w mod 256" for w :: u16
proof -
  have "unat (ucast w :: u8) = take_bit 8 (unat w)"
    by (rule bit_eqI) (auto simp: bit_simps dest: bit_imp_le_length)
  then show ?thesis by (simp add: take_bit_eq_mod)
qed

lemma byte_mask: "(0xFF :: 'a::len word) = mask 8"
  by (simp add: mask_eq_decr_exp)

lemma unat_low_byte: "unat (ucast (e AND 0xFF) :: u8) = unat e mod 256"
  for e :: "'a::len word"
proof -
  have "unat (ucast (e AND mask 8) :: u8) = take_bit 8 (unat e)"
    by (rule bit_eqI) (auto simp: bit_simps dest: bit_imp_le_length)
  then show ?thesis by (simp add: byte_mask take_bit_eq_mod)
qed

lemma unat_low_15: "unat (ucast (e AND 0x7FFF) :: u8) = unat e mod 256" for e :: u16
proof -
  have m: "(0x7FFF :: u16) = mask 15" by (simp add: mask_eq_decr_exp)
  have "unat (ucast (e AND mask 15) :: u8) = take_bit 8 (unat e)"
    by (rule bit_eqI) (auto simp: bit_simps dest: bit_imp_le_length)
  then show ?thesis by (simp add: m take_bit_eq_mod)
qed

lemma long_index:
  assumes "unat len \<le> 32"
    and "lpm_long_extract_first_index data len base = Inr first"
  shows "unat first = unat base * 256 + unat (data AND NOT (mask (32 - unat len))) mod 256"
proof -
  define d where "d = data AND NOT (mask (32 - unat len))"
  have first: "first = ucast base * LPM_LONG_FACTOR + ucast (ucast (d AND 0xFF) :: u8)"
    using assms by (simp add: lpm_long_extract_first_index_def build_mask_eq and.assoc d_def)
  have b: "unat (ucast base :: u16) = unat base" for base :: u8
    by (rule unat_u8_u16)
  have lt: "unat base < 256" by (rule unat_u8_less)
  have "unat (ucast base * LPM_LONG_FACTOR :: u16) = unat base * 256"
    using lt by (simp add: unat_word_ariths b)
  then show ?thesis
    using lt mod_less_divisor [of 256 "unat d"]
    unfolding first d_def [symmetric]
    by (subst unat_word_ariths) (simp add: b unat_low_byte del: mod_less_divisor)
qed

lemma long_index_defined:
  "unat len \<le> 32 \<Longrightarrow> \<exists>first. lpm_long_extract_first_index data len base = Inr first"
  by (simp add: lpm_long_extract_first_index_def build_mask_eq)

lemma unat_32: "unat (32 :: u8) = 32"
  by simp

theorem lpm_lookup_routes: "lpm_lookup bswap l addr = Inr (routes (lpm_rib l) (bswap addr))"
proof -
  let ?a = "bswap addr"
  let ?e = "lpm_24 l (unat ?a div 256)"
  have read: "route_read LPM_24_MAX_ENTRIES (lpm_24 l) (unat (lpm_24_extract_first_index ?a)) = Inr ?e"
    using unat_24_index_less [of ?a] by (simp add: route_read_def unat_24_index)
  obtain first where first: "lpm_long_extract_first_index ?a 32 (ucast (?e AND 0xFF)) = Inr first"
    using long_index_defined [of 32 ?a] by auto
  then have "unat first = unat ?e mod 256 * 256 + unat ?a mod 256"
    using long_index [OF _ first] by (simp add: unat_low_byte)
  moreover have "unat first < LPM_LONG_MAX_ENTRIES"
    using unat_u16_less [of first] by simp
  ultimately have "route_read LPM_LONG_MAX_ENTRIES (lpm_long l) (unat first) =
      Inr (lpm_long l (unat ?e mod 256 * 256 + unat ?a mod 256))"
    by (simp add: route_read_def)
  with read first show ?thesis
    by (simp add: lpm_lookup_def lpm_rib_def route_of_def Let_def is_block_def as_route_def)
qed

definition empty_rib :: rib where
  "empty_rib = \<lparr>routes = \<lambda>_. None, expanded = \<lambda>_. False, blocks = 0\<rparr>"

lemma lpm_allocate_blank:
  "lpm_allocate True True True mem_24 mem_long =
     Inr (Some \<lparr>lpm_24 = \<lambda>j. if j < LPM_24_MAX_ENTRIES then LPM_INVALID else mem_24 j,
                lpm_long = \<lambda>j. if j < LPM_LONG_MAX_ENTRIES then LPM_INVALID else mem_long j,
                lpm_long_index = 0\<rparr>)"
  by (simp add: lpm_allocate_def fill_invalid_all)

lemma lpm_allocate_wf:
  assumes "lpm_allocate True True True mem_24 mem_long = Inr (Some l)"
  shows "lpm_wf l" "lpm_rib l = empty_rib"
proof -
  have l: "l = \<lparr>lpm_24 = \<lambda>j. if j < LPM_24_MAX_ENTRIES then LPM_INVALID else mem_24 j,
      lpm_long = \<lambda>j. if j < LPM_LONG_MAX_ENTRIES then LPM_INVALID else mem_long j,
      lpm_long_index = 0\<rparr>"
    using assms by (simp add: lpm_allocate_blank)
  have nb: "\<not> is_block LPM_INVALID" by (simp add: is_block_def)
  then show "lpm_wf l" by (simp add: l lpm_wf_def)
  have "unat a div 256 < LPM_24_MAX_ENTRIES" for a :: u32
    using unat_u32_less [of a] by (simp add: less_mult_imp_div_less)
  then show "lpm_rib l = empty_rib"
    using nb by (auto simp: l lpm_rib_def empty_rib_def route_of_def as_route_def Let_def fun_eq_iff)
qed

section \<open>Updates\<close>

text \<open>A rule of at most 24 bits fills its entries.\<close>

lemma not_block_small: "v < 0x8000 \<Longrightarrow> \<not> is_block v"
  by (simp add: is_block_iff word_less_nat_alt)

lemma as_route_small: "v < 0x8000 \<Longrightarrow> as_route v = Some v"
  by (auto simp: as_route_def word_less_nat_alt)

lemma lpm_update_short:
  fixes bswap :: "u32 \<Rightarrow> u32" and p :: u32
  assumes "unat len \<le> 24"
  defines "m \<equiv> unat (bswap p AND NOT (mask (32 - unat len))) div 2 ^ 8"
  shows "lpm_update bswap l p len v = Inr (True, l\<lparr>lpm_24 :=
           \<lambda>j. if m \<le> j \<and> j < m + 2 ^ (24 - unat len) then v else lpm_24 l j\<rparr>)"
proof -
  define first where "first = lpm_24_extract_first_index (bswap p AND NOT (mask (32 - unat len)))"
  define n :: u32 where "n = first + 2 ^ (24 - unat len)"
  have m: "unat first = m" by (simp add: first_def unat_24_index m_def)
  have le: "m + 2 ^ (24 - unat len) \<le> LPM_24_MAX_ENTRIES"
    unfolding m_def using assms(1) by (rule covers_range(2))
  have "unat ((2::u32) ^ (24 - unat len)) = 2 ^ (24 - unat len)"
    by (rule unat_power_u32) simp
  with le m have n: "unat n = m + 2 ^ (24 - unat len)"
    by (simp add: n_def unat_word_ariths)
  have "fill_routes LPM_24_MAX_ENTRIES (lpm_24 l) first n v =
      Inr (\<lambda>j. if m \<le> j \<and> j < m + 2 ^ (24 - unat len) then v else lpm_24 l j)"
    using fill_routes_range [of first n LPM_24_MAX_ENTRIES "lpm_24 l" v] le by (simp add: m n)
  moreover have "len < 25" using assms(1) by (simp add: word_less_nat_alt)
  ultimately show ?thesis
    using assms(1) by (simp add: lpm_update_def build_mask_eq compute_rule_size_eq first_def n_def Let_def)
qed

lemma lpm_wf_fewer_blocks:
  assumes wf: "lpm_wf l" and "\<And>i. is_block (lpm_24 l' i) \<Longrightarrow> lpm_24 l' i = lpm_24 l i"
    and [simp]: "lpm_long l' = lpm_long l" "lpm_long_index l' = lpm_long_index l"
  shows "lpm_wf l'"
  unfolding lpm_wf_def
proof (intro conjI allI impI)
  fix i assume i: "i < LPM_24_MAX_ENTRIES" "is_block (lpm_24 l' i)"
  then show "unat (lpm_24 l' i) < 32768 + unat (lpm_long_index l')"
    using wf assms(2) [OF i(2)] by (simp add: lpm_wf_def)
next
  fix i j assume i: "i < LPM_24_MAX_ENTRIES" and j: "j < LPM_24_MAX_ENTRIES"
    and "is_block (lpm_24 l' i) \<and> lpm_24 l' i = lpm_24 l' j"
  then have "lpm_24 l' i = lpm_24 l i" "lpm_24 l' j = lpm_24 l j" "is_block (lpm_24 l i)"
    "lpm_24 l i = lpm_24 l j"
    using assms(2) by metis+
  with i j wf show "i = j" unfolding lpm_wf_def by blast
qed (use wf in \<open>simp_all add: lpm_wf_def\<close>)

lemma lpm_update_short_refines:
  assumes "lpm_wf l" "unat len \<le> 24" "v < 0x8000"
  obtains l' where "lpm_update bswap l p len v = Inr (True, l')" "lpm_wf l'"
    "rib_update (bswap p) (unat len) v (lpm_rib l) = (True, lpm_rib l')"
proof
  let ?p = "bswap p"
  define m where "m = unat (?p AND NOT (mask (32 - unat len))) div 2 ^ 8"
  define l' where "l' = l\<lparr>lpm_24 := \<lambda>j. if m \<le> j \<and> j < m + 2 ^ (24 - unat len) then v else lpm_24 l j\<rparr>"
  show "lpm_update bswap l p len v = Inr (True, l')"
    unfolding l'_def m_def by (rule lpm_update_short) (rule assms(2))
  note nb = not_block_small [OF assms(3)]
  have l'_block: "is_block (lpm_24 l' i) \<longleftrightarrow> is_block (lpm_24 l i) \<and> \<not> (m \<le> i \<and> i < m + 2 ^ (24 - unat len))" for i
    using nb by (simp add: l'_def)
  show "lpm_wf l'"
  proof -
    have "lpm_24 l' i = lpm_24 l i" if "is_block (lpm_24 l' i)" for i
      using that nb by (auto simp: l'_def split: if_splits)
    then show ?thesis
      by (rule lpm_wf_fewer_blocks [OF assms(1)]) (simp_all add: l'_def)
  qed
  have "route_of l' a = (if covers ?p (unat len) a then Some v else route_of l a)" for a
    using covers_range(1) [OF assms(2), of ?p a] nb as_route_small [OF assms(3)]
    by (simp add: route_of_def l'_def m_def Let_def)
  moreover have "i div 2 ^ (24 - unat len) = unat ?p div 2 ^ (32 - unat len) \<longleftrightarrow>
      m \<le> i \<and> i < m + 2 ^ (24 - unat len)" for i
    unfolding m_def covers_range(3) [OF assms(2)] by (rule block_div [symmetric])
  ultimately show "rib_update ?p (unat len) v (lpm_rib l) = (True, lpm_rib l')"
    using assms(2) nb by (auto simp: rib_update_def lpm_rib_def l'_block Let_def fun_eq_iff l'_def)
qed

text \<open>A longer rule fills part of the block of its /24.\<close>

lemma covers_in_block:
  fixes p a :: u32
  assumes "25 \<le> len" "len \<le> 32" "unat a div 256 = unat p div 256"
  defines "x \<equiv> unat (p AND NOT (mask (32 - len))) mod 256"
  shows "x \<le> unat a mod 256 \<and> unat a mod 256 < x + 2 ^ (32 - len) \<longleftrightarrow> covers p len a"
    and "x + 2 ^ (32 - len) \<le> 256"
proof -
  define k where "k = 32 - len"
  have "(2::nat) ^ (8 - k) * 2 ^ k = 2 ^ 8"
    using assms(1) by (simp add: k_def flip: power_add)
  then have e: "(256::nat) = 2 ^ k * 2 ^ (8 - k)" by (simp add: mult.commute)
  have split: "w mod 256 div 2 ^ k = w div 2 ^ k mod 2 ^ (8 - k)" for w :: nat
    unfolding e mod_mult2_eq by simp
  have x: "x = unat p div 2 ^ k mod 2 ^ (8 - k) * 2 ^ k"
  proof -
    have "x = 2 ^ k * (unat p div 2 ^ k) mod (2 ^ k * 2 ^ (8 - k))"
      unfolding x_def unat_clear_low k_def [symmetric] e by (simp only: mult.commute)
    then show ?thesis by (simp only: mult_mod_right [symmetric] mult.commute)
  qed
  have "x \<le> unat a mod 256 \<and> unat a mod 256 < x + 2 ^ k \<longleftrightarrow>
      unat a div 2 ^ k mod 2 ^ (8 - k) = unat p div 2 ^ k mod 2 ^ (8 - k)"
    unfolding x block_div split by (rule refl)
  also have "\<dots> \<longleftrightarrow> unat a div 2 ^ k = unat p div 2 ^ k"
  proof
    assume *: "unat a div 2 ^ k mod 2 ^ (8 - k) = unat p div 2 ^ k mod 2 ^ (8 - k)"
    have "unat a div 2 ^ k div 2 ^ (8 - k) = unat p div 2 ^ k div 2 ^ (8 - k)"
      using assms(3) by (simp add: e div_mult2_eq mult.commute)
    with * show "unat a div 2 ^ k = unat p div 2 ^ k"
      by (metis div_mult_mod_eq)
  qed simp
  finally show "x \<le> unat a mod 256 \<and> unat a mod 256 < x + 2 ^ (32 - len) \<longleftrightarrow> covers p len a"
    by (simp add: covers_def k_def)
  have "unat p div 2 ^ k mod 2 ^ (8 - k) + 1 \<le> 2 ^ (8 - k)"
    by (simp add: Suc_le_eq)
  then have "(unat p div 2 ^ k mod 2 ^ (8 - k) + 1) * 2 ^ k \<le> 2 ^ (8 - k) * 2 ^ k"
    by (rule mult_right_mono) simp
  then show "x + 2 ^ (32 - len) \<le> 256"
    by (simp add: x e k_def [symmetric] algebra_simps)
qed

lemma covers_same_net:
  assumes "25 \<le> len" "covers p len a"
  shows "unat a div 256 = unat p div 256"
proof -
  define k where "k = 32 - len"
  have "(2::nat) ^ k * 2 ^ (8 - k) = 2 ^ 8"
    using assms(1) by (simp add: k_def flip: power_add)
  then have e: "(256::nat) = 2 ^ k * 2 ^ (8 - k)" by simp
  have "w div 256 = w div 2 ^ k div 2 ^ (8 - k)" for w :: nat
    by (simp only: e div_mult2_eq)
  then show ?thesis
    using assms(2) by (simp only: covers_def k_def [symmetric])
qed

lemma mod_block: "b < 256 \<Longrightarrow> (32768 + b) mod 256 = b" for b :: nat
proof -
  assume "b < 256"
  then have "(128 * 256 + b) mod 256 = b" by (simp only: mod_mult_self3 mod_less)
  then show ?thesis by simp
qed

lemma is_block_entry:
  assumes "lpm_wf l" "i < LPM_24_MAX_ENTRIES" "is_block (lpm_24 l i)"
  shows "unat (lpm_24 l i) = 32768 + unat (lpm_24 l i) mod 256"
    and "unat (lpm_24 l i) mod 256 < unat (lpm_long_index l)"
proof -
  have "32768 \<le> unat (lpm_24 l i)" "unat (lpm_24 l i) < 32768 + unat (lpm_long_index l)"
    "unat (lpm_long_index l) \<le> 256"
    using assms by (auto simp: lpm_wf_def is_block_iff)
  moreover have "e = 32768 + e mod 256 \<and> e mod 256 < n"
    if that: "32768 \<le> e" "e < 32768 + n" "n \<le> 256" for e n :: nat
  proof -
    have "e = 32768 + (e - 32768)" "e - 32768 < 256" using that by simp_all
    then have "e mod 256 = e - 32768" using mod_block [of "e - 32768"] by metis
    then show ?thesis using that by simp
  qed
  ultimately show "unat (lpm_24 l i) = 32768 + unat (lpm_24 l i) mod 256"
    "unat (lpm_24 l i) mod 256 < unat (lpm_long_index l)" by blast+
qed

definition lpm_fill_block :: "nat \<Rightarrow> nat \<Rightarrow> u16 \<Rightarrow> lpm_table \<Rightarrow> lpm_table" where
  "lpm_fill_block first count v l =
     l\<lparr>lpm_long := \<lambda>j. if first \<le> j \<and> j < first + count then v else lpm_long l j\<rparr>"

lemma fill_block_refines:
  fixes p :: u32
  assumes wf: "lpm_wf l" and e: "is_block (lpm_24 l (unat p div 256))"
    and len: "25 \<le> len" "len \<le> 32" and v: "v < 0x8000"
  defines "b \<equiv> unat (lpm_24 l (unat p div 256)) mod 256"
    and "x \<equiv> unat (p AND NOT (mask (32 - len))) mod 256"
  defines "l' \<equiv> lpm_fill_block (b * 256 + x) (2 ^ (32 - len)) v l"
  shows "lpm_wf l'"
    and "route_of l' a = (if covers p len a then Some v else route_of l a)"
proof -
  have net: "unat w div 256 < LPM_24_MAX_ENTRIES" for w :: u32
    using unat_u32_less [of w] by (simp add: less_mult_imp_div_less)
  have b: "b < unat (lpm_long_index l)"
    unfolding b_def using is_block_entry(2) [OF wf net e] .
  have x: "x + 2 ^ (32 - len) \<le> 256"
    unfolding x_def by (rule covers_in_block(2) [OF len refl])
  show "lpm_wf l'"
    using wf b x unfolding lpm_wf_def l'_def lpm_fill_block_def by auto
  show "route_of l' a = (if covers p len a then Some v else route_of l a)"
  proof (cases "unat a div 256 = unat p div 256")
    case True
    then show ?thesis
      using e covers_in_block(1) [OF len True] as_route_small [OF v]
      by (simp add: route_of_def l'_def lpm_fill_block_def b_def x_def Let_def)
  next
    case False
    have "lpm_long l' j = lpm_long l j"
      if "j = unat (lpm_24 l (unat a div 256)) mod 256 * 256 + unat a mod 256"
        and blk: "is_block (lpm_24 l (unat a div 256))" for j
    proof -
      have "lpm_24 l (unat a div 256) \<noteq> lpm_24 l (unat p div 256)"
        using wf blk net False unfolding lpm_wf_def by blast
      then have "unat (lpm_24 l (unat a div 256)) mod 256 \<noteq> b"
        unfolding b_def using is_block_entry(1) [OF wf net blk] is_block_entry(1) [OF wf net e]
        by (metis word_unat_eq_iff)
      then have "j div 256 \<noteq> b" using that(1) by simp
      then have "\<not> (b * 256 + x \<le> j \<and> j < b * 256 + x + 2 ^ (32 - len))"
        using x by (auto simp: div_nat_eqI)
      then show ?thesis by (auto simp: l'_def lpm_fill_block_def)
    qed
    moreover have "\<not> covers p len a" using covers_same_net [OF len(1)] False by blast
    ultimately show ?thesis
      by (simp add: route_of_def Let_def) (simp add: l'_def lpm_fill_block_def)
  qed
qed

text \<open>A /24 without a block gets the next one, which holds no route yet.\<close>

lemma new_entry:
  assumes "b < (256 :: u16)"
  shows "unat (lpm_24_entry_set_flag (ucast (ucast b :: u8))) = 32768 + unat b"
proof -
  have lt: "unat b < 256" using assms by (simp add: word_less_nat_alt)
  have e: "(ucast (ucast b :: u8) :: u16) = b"
    by (simp only: word_unat_eq_iff unat_u8_u16 unat_u16_u8 mod_less lt)
  have "\<not> bit b 15"
  proof
    assume "bit b 15"
    then have "bit (unat b) 15" by (simp add: bit_unsigned_iff)
    with lt show False by (simp add: bit_iff_odd)
  qed
  then have "b AND 2 ^ 15 = 0"
    by (intro bit_eqI) (auto simp only: bit_and_iff bit_exp_iff bit_0_eq bot_apply bot_bool_def)
  then have "b + 2 ^ 15 = b OR 2 ^ 15"
    by (rule disjunctive_add_eq_or)
  then have "b OR 0x8000 = b + 0x8000" by simp
  with lt e show ?thesis
    by (simp add: lpm_24_entry_set_flag_def unat_word_ariths)
qed

lemma lpm_long_base_old:
  assumes "is_block (lpm_24 l (unat p div 256))"
  shows "lpm_long_base l (lpm_24_extract_first_index p) =
           Inr (Some (l, ucast (lpm_24 l (unat p div 256) AND 0x7FFF)))"
  using assms unat_24_index_less [of p]
  by (simp add: lpm_long_base_def route_read_def unat_24_index is_block_def Let_def)

lemma lpm_long_base_full:
  assumes "\<not> is_block (lpm_24 l (unat p div 256))" "256 \<le> lpm_long_index l"
  shows "lpm_long_base l (lpm_24_extract_first_index p) = Inr None"
  using assms unat_24_index_less [of p]
  by (auto simp: lpm_long_base_def route_read_def unat_24_index is_block_def Let_def)

lemma lpm_long_base_new:
  assumes wf: "lpm_wf l" and e: "\<not> is_block (lpm_24 l (unat p div 256))"
    and free: "lpm_long_index l < 256"
  obtains l' where
    "lpm_long_base l (lpm_24_extract_first_index p) = Inr (Some (l', ucast (lpm_long_index l)))"
    "lpm_wf l'" "lpm_long_index l' = lpm_long_index l + 1" "lpm_long l' = lpm_long l"
    "unat (lpm_24 l' (unat p div 256)) = 32768 + unat (lpm_long_index l)"
    "\<And>i. i \<noteq> unat p div 256 \<Longrightarrow> lpm_24 l' i = lpm_24 l i"
    "\<And>a. route_of l' a = (if unat a div 256 = unat p div 256 then None else route_of l a)"
proof
  let ?net = "unat p div 256"
  define entry where "entry = lpm_24_entry_set_flag (ucast (ucast (lpm_long_index l) :: u8))"
  define l' where "l' = l\<lparr>lpm_long_index := lpm_long_index l + 1, lpm_24 := (lpm_24 l)(?net := entry)\<rparr>"
  have net: "?net < LPM_24_MAX_ENTRIES"
    using unat_24_index_less [of p] by (simp add: unat_24_index)
  have idx: "unat (lpm_long_index l) < 256" using free by (simp add: word_less_nat_alt)
  then have idx': "unat (lpm_long_index l + 1) = unat (lpm_long_index l) + 1"
    by (simp add: unat_word_ariths)
  have entry: "unat entry = 32768 + unat (lpm_long_index l)"
    unfolding entry_def by (rule new_entry [OF free])
  then have blk: "is_block entry"
    using idx by (auto simp: is_block_iff word_unat_eq_iff)
  show "lpm_long_base l (lpm_24_extract_first_index p) = Inr (Some (l', ucast (lpm_long_index l)))"
    using e free net
    by (auto simp: lpm_long_base_def route_read_def route_write_def unat_24_index is_block_def
      Let_def l'_def entry_def)
  show "unat (lpm_24 l' ?net) = 32768 + unat (lpm_long_index l)"
    by (simp add: l'_def entry)
  have old: "is_block (lpm_24 l i) \<Longrightarrow> i < LPM_24_MAX_ENTRIES \<Longrightarrow>
      unat (lpm_24 l i) < 32768 + unat (lpm_long_index l)" for i
    using wf by (simp add: lpm_wf_def)
  show "lpm_wf l'"
    unfolding lpm_wf_def
  proof (intro conjI allI impI)
    fix i assume "i < LPM_24_MAX_ENTRIES" "is_block (lpm_24 l' i)"
    then show "unat (lpm_24 l' i) < 32768 + unat (lpm_long_index l')"
      using old [of i] entry idx' by (auto simp: l'_def split: if_splits)
  next
    fix i j assume ij: "i < LPM_24_MAX_ENTRIES" "j < LPM_24_MAX_ENTRIES"
      and "is_block (lpm_24 l' i) \<and> lpm_24 l' i = lpm_24 l' j"
    then show "i = j"
      using wf old [of i] old [of j] entry unfolding lpm_wf_def
      by (auto simp: l'_def split: if_splits)
  next
    fix i assume "i < LPM_LONG_MAX_ENTRIES" "unat (lpm_long_index l') * 256 \<le> i"
    then show "lpm_long l' i = LPM_INVALID"
      using wf idx' by (auto simp: l'_def lpm_wf_def)
  qed (use idx idx' in \<open>simp add: l'_def\<close>)
  have "lpm_long l (unat entry mod 256 * 256 + unat a mod 256) = LPM_INVALID" for a :: u32
  proof -
    have "unat entry mod 256 = unat (lpm_long_index l)" unfolding entry using idx by (rule mod_block)
    moreover have "unat (lpm_long_index l) * 256 + unat a mod 256 < LPM_LONG_MAX_ENTRIES"
      using idx mod_less_divisor [of 256 "unat a"] by linarith
    ultimately show ?thesis using wf by (simp add: lpm_wf_def)
  qed
  then show "route_of l' a = (if unat a div 256 = ?net then None else route_of l a)" for a
    using blk by (simp add: route_of_def l'_def Let_def as_route_def)
qed (simp_all)

lemma lpm_update_in_block:
  fixes bswap :: "u32 \<Rightarrow> u32" and p :: u32
  assumes base: "lpm_long_base l (lpm_24_extract_first_index (bswap p)) = Inr (Some (l1, base))"
    and b: "unat base = unat (lpm_24 l1 (unat (bswap p) div 256)) mod 256"
    and e: "is_block (lpm_24 l1 (unat (bswap p) div 256))" "lpm_wf l1"
    and len: "25 \<le> unat len" "unat len \<le> 32" and v: "v < 0x8000"
  obtains l' where "lpm_update bswap l p len v = Inr (True, l')" "lpm_wf l'"
    "\<And>a. route_of l' a = (if covers (bswap p) (unat len) a then Some v else route_of l1 a)"
    "lpm_24 l' = lpm_24 l1" "lpm_long_index l' = lpm_long_index l1"
proof
  define x where "x = unat (bswap p AND NOT (mask (32 - unat len))) mod 256"
  define l' where "l' = lpm_fill_block (unat base * 256 + x) (2 ^ (32 - unat len)) v l1"
  note refines = fill_block_refines [OF e(2,1) len v]
  show "lpm_wf l'"
    unfolding l'_def x_def b by (rule refines(1))
  show "route_of l' a = (if covers (bswap p) (unat len) a then Some v else route_of l1 a)" for a
    unfolding l'_def x_def b by (rule refines(2))
  obtain first where f: "lpm_long_extract_first_index (bswap p) len base = Inr first"
    using long_index_defined [OF len(2)] by blast
  have first: "unat first = unat base * 256 + x"
    unfolding x_def by (rule long_index [OF len(2) f])
  then have first32: "unat (ucast first :: u32) = unat base * 256 + x"
    using unat_u16_less [of first]
    by (simp add: unsigned_ucast_eq take_bit_nat_eq_self del: of_nat_add)
  define n where "n = (ucast first :: u32) + 2 ^ (32 - unat len)"
  have x: "x + 2 ^ (32 - unat len) \<le> 256"
    unfolding x_def by (rule covers_in_block(2) [OF len refl])
  have pow: "unat ((2::u32) ^ (32 - unat len)) = 2 ^ (32 - unat len)"
    by (rule unat_power_u32) (use len in simp)
  have le: "unat base * 256 + x + 2 ^ (32 - unat len) \<le> LPM_LONG_MAX_ENTRIES"
    using x unat_u8_less [of base] by linarith
  then have n: "unat n = unat base * 256 + x + 2 ^ (32 - unat len)"
    unfolding n_def by (simp only: unat_word_ariths first32 pow) simp
  have "fill_routes LPM_LONG_MAX_ENTRIES (lpm_long l1) (ucast first) n v =
      Inr (\<lambda>j. if unat base * 256 + x \<le> j \<and> j < unat base * 256 + x + 2 ^ (32 - unat len)
                then v else lpm_long l1 j)"
    using fill_routes_range [of "ucast first" n LPM_LONG_MAX_ENTRIES "lpm_long l1" v] le
    by (simp only: first32 n le_add1)
  moreover have "\<not> len < 25" "\<not> unat len < 25" using len by (simp_all add: word_less_nat_alt)
  ultimately show "lpm_update bswap l p len v = Inr (True, l')"
    using len base f
    by (simp add: lpm_update_def build_mask_eq compute_rule_size_eq Let_def l'_def lpm_fill_block_def n_def)
qed (simp_all add: lpm_fill_block_def)

lemma lpm_update_correct:
  assumes "lpm_wf l" "unat len \<le> 32" "v < 0x8000"
  shows "\<exists>l'. lpm_update bswap l p len v =
                Inr (fst (rib_update (bswap p) (unat len) v (lpm_rib l)), l')
            \<and> lpm_rib l' = snd (rib_update (bswap p) (unat len) v (lpm_rib l)) \<and> lpm_wf l'"
proof (cases "unat len \<le> 24")
  case True
  then show ?thesis using lpm_update_short_refines [OF assms(1) True assms(3)] by (metis fst_conv snd_conv)
next
  case False
  then have len: "25 \<le> unat len" "\<not> unat len < 25" by simp_all
  let ?p = "bswap p"
  let ?net = "unat ?p div 256"
  have net: "?net < LPM_24_MAX_ENTRIES"
    using unat_24_index_less [of ?p] by (simp add: unat_24_index)
  show ?thesis
  proof (cases "is_block (lpm_24 l ?net)")
    case True
    have "unat (ucast (lpm_24 l ?net AND 0x7FFF) :: u8) = unat (lpm_24 l ?net) mod 256"
      by (rule unat_low_15)
    then obtain l' where "lpm_update bswap l p len v = Inr (True, l')" "lpm_wf l'"
      "\<And>a. route_of l' a = (if covers ?p (unat len) a then Some v else route_of l a)"
      "lpm_24 l' = lpm_24 l" "lpm_long_index l' = lpm_long_index l"
      using lpm_update_in_block [of l bswap p, OF lpm_long_base_old [OF True]] True assms len by metis
    with True net len show ?thesis
      by (intro exI [of _ l']) (simp add: rib_update_def lpm_rib_def Let_def fun_eq_iff)
  next
    case noblock: False
    show ?thesis
    proof (cases "lpm_long_index l < 256")
      case True
      then have idx: "unat (lpm_long_index l) < 256" by (simp add: word_less_nat_alt)
      obtain l1 where
        base: "lpm_long_base l (lpm_24_extract_first_index ?p) = Inr (Some (l1, ucast (lpm_long_index l)))"
        and wf1: "lpm_wf l1" and i1: "lpm_long_index l1 = lpm_long_index l + 1"
        and "lpm_long l1 = lpm_long l"
        and e1: "unat (lpm_24 l1 ?net) = 32768 + unat (lpm_long_index l)"
        and o1: "\<And>i. i \<noteq> ?net \<Longrightarrow> lpm_24 l1 i = lpm_24 l i"
        and r1: "\<And>a. route_of l1 a = (if unat a div 256 = ?net then None else route_of l a)"
        by (rule lpm_long_base_new [OF assms(1) noblock True]) (rule that; assumption)
      have blk: "is_block (lpm_24 l1 ?net)"
        using idx e1 by (auto simp: is_block_iff)
      have "unat (ucast (lpm_long_index l) :: u8) = unat (lpm_24 l1 ?net) mod 256"
        unfolding e1 mod_block [OF idx] unat_u16_u8 using idx by (rule mod_less)
      then obtain l' where upd: "lpm_update bswap l p len v = Inr (True, l')" "lpm_wf l'"
        "\<And>a. route_of l' a = (if covers ?p (unat len) a then Some v else route_of l1 a)"
        "lpm_24 l' = lpm_24 l1" "lpm_long_index l' = lpm_long_index l1"
        using lpm_update_in_block [of l bswap p, OF base] blk wf1 assms len by metis
      have "unat (lpm_long_index l + 1) = unat (lpm_long_index l) + 1"
        using idx by (simp add: unat_word_ariths)
      moreover have "is_block (lpm_24 l' i) \<longleftrightarrow> i = ?net \<or> is_block (lpm_24 l i)" for i
        using blk o1 upd(4) by (cases "i = ?net") simp_all
      ultimately show ?thesis
        using upd(1-3,5) i1 r1 noblock net len idx
        by (intro exI [of _ l']) (auto simp: rib_update_def lpm_rib_def Let_def fun_eq_iff)
    next
      case full: False
      then have "\<not> unat (lpm_long_index l) < 256" "256 \<le> lpm_long_index l"
        by (simp_all add: word_less_nat_alt word_le_nat_alt)
      then show ?thesis
        using noblock assms len lpm_long_base_full [OF noblock]
        by (intro exI [of _ l])
          (simp add: lpm_update_def build_mask_eq rib_update_def lpm_rib_def Let_def word_less_nat_alt)
    qed
  qed
qed

text \<open>One call of \<^verbatim>\<open>lpm_update\<close> with a valid prefix length and a next hop below the
  documented maximum does to the table exactly what the abstract update does to the routing
  information base, and keeps the table well formed: it never leaves the two arrays, it
  returns 0 only for a rule longer than 24 bits in a /24 that has no block when all 256 blocks
  were handed out, and then changes nothing. The first long rule of a /24 takes the routes of
  all its other addresses away.
\<close>
lemma lpm_update_refines:
  assumes "lpm_wf l" "unat len \<le> 32" "v < 0x8000"
  shows "\<exists>l'. lpm_update bswap l p len v =
                Inr (fst (rib_update (bswap p) (unat len) v (lpm_rib l)), l')
            \<and> lpm_rib l' = snd (rib_update (bswap p) (unat len) v (lpm_rib l)) \<and> lpm_wf l'"
  by (rule lpm_update_correct [OF assms])

lemma lpm_update_refines_witness:
  "\<exists>l l'. lpm_allocate True True True (\<lambda>_. 7) (\<lambda>_. 7) = Inr (Some l)
     \<and> lpm_update id l 0x0A010280 25 2 = Inr (True, l')
     \<and> routes (lpm_rib l') 0x0A010281 = Some 2 \<and> routes (lpm_rib l') 0x0A010203 = None"
proof -
  obtain l where l: "lpm_allocate True True True (\<lambda>_. 7) (\<lambda>_. 7) = Inr (Some l)"
    by (simp add: lpm_allocate_blank)
  note fresh = lpm_allocate_wf [OF l]
  define r where "r = rib_update 0x0A010280 25 2 empty_rib"
  have r: "fst r" "routes (snd r) 0x0A010281 = Some 2" "routes (snd r) 0x0A010203 = None"
    by (simp_all add: r_def rib_update_def empty_rib_def covers_def)
  from lpm_update_refines [OF fresh(1), of 25 2 id "0x0A010280"]
  obtain l' where "lpm_update id l 0x0A010280 25 2 = Inr (fst r, l')" "lpm_rib l' = snd r"
    by (auto simp: fresh(2) r_def)
  with l r show ?thesis by (intro exI [of _ l] exI [of _ l']) simp
qed

section \<open>Loading the rules of a file\<close>

text \<open>
  The outcome of \<^verbatim>\<open>fopen\<close> and the lines that \<^verbatim>\<open>fscanf\<close> reads are arguments: each line gives
  the outcome of \<^verbatim>\<open>sscanf\<close> on the address, the prefix length and the device.
\<close>

type_synonym lpm_line = "(u8 \<times> u8 \<times> u8 \<times> u8) option \<times> int \<times> u16"

definition parse_ipv4addr :: "(u8 \<times> u8 \<times> u8 \<times> u8) option \<Rightarrow> u32 option" where
  "parse_ipv4addr scanned = (case scanned of
     Some (a, b, c, d) \<Rightarrow>
       Some (push_bit 0 (ucast a) OR push_bit 8 (ucast b) OR push_bit 16 (ucast c) OR push_bit 24 (ucast d))
   | None \<Rightarrow> None)"

fun lpm_load_lines :: "(u32 \<Rightarrow> u32) \<Rightarrow> lpm_line list \<Rightarrow> lpm_table \<Rightarrow> lpm_table result" where
  "lpm_load_lines bswap [] lpm = Inr lpm"
| "lpm_load_lines bswap ((addr_str, subnet_size, device) # lines) lpm =
     (case parse_ipv4addr addr_str of
        None \<Rightarrow> Inl Panicked
      | Some ipv4_addr \<Rightarrow>
          rbind (lpm_update bswap lpm ipv4_addr (word_of_int subnet_size) device) (\<lambda>(_, lpm).
            lpm_load_lines bswap lines lpm))"

definition lpm_from_file :: "(u32 \<Rightarrow> u32) \<Rightarrow> lpm_line list option \<Rightarrow> lpm_table \<Rightarrow> lpm_table result" where
  "lpm_from_file bswap cfg_file lpm = (case cfg_file of
     None \<Rightarrow> Inl Panicked
   | Some lines \<Rightarrow> lpm_load_lines bswap lines lpm)"

section \<open>Longest prefix match\<close>

type_synonym rule = "u32 \<times> nat \<times> u16"

text \<open>
  The reference: among the rules that cover an address the last one of the greatest
  prefix length, in whatever order they come.
\<close>

fun better :: "u32 \<Rightarrow> rule \<Rightarrow> (nat \<times> u16) option \<Rightarrow> (nat \<times> u16) option" where
  "better a (p, len, v) best =
     (if covers p len a \<and> (case best of None \<Rightarrow> True | Some (n, _) \<Rightarrow> n \<le> len)
      then Some (len, v) else best)"

definition longest_match :: "rule list \<Rightarrow> u32 \<Rightarrow> u16 option" where
  "longest_match rs a = map_option snd (fold (better a) rs None)"

text \<open>The rules that decide an address: those longer than 24 bits of its /24, or else all.\<close>

definition long_rules :: "rule list \<Rightarrow> u32 \<Rightarrow> rule list" where
  "long_rules rs a = filter (\<lambda>(p, len, _). 25 \<le> len \<and> unat p div 256 = unat a div 256) rs"

definition deciding :: "rule list \<Rightarrow> u32 \<Rightarrow> rule list" where
  "deciding rs a = (if long_rules rs a = [] then rs else long_rules rs a)"

definition long_nets :: "rule list \<Rightarrow> nat set" where
  "long_nets rs = (\<lambda>(p, len, v). unat p div 256) ` set (filter (\<lambda>(p, len, v). 25 \<le> len) rs)"

definition rule_of :: "(u32 \<Rightarrow> u32) \<Rightarrow> lpm_line \<Rightarrow> rule" where
  "rule_of bswap line = (case line of (scanned, subnet_size, v) \<Rightarrow>
     (bswap (the (parse_ipv4addr scanned)), nat subnet_size, v))"

lemma fold_better_len:
  assumes "\<forall>r \<in> set rs. fst (snd r) \<le> len" "case best of None \<Rightarrow> True | Some (n, _) \<Rightarrow> n \<le> len"
  shows "case fold (better a) rs best of None \<Rightarrow> True | Some (n, _) \<Rightarrow> n \<le> len"
  using assms
proof (induction rs arbitrary: best)
  case (Cons r rs)
  obtain p n v where r: "r = (p, n, v)" by (cases r) auto
  with Cons.prems show ?case
    by (simp only: fold_simps comp_apply) (rule Cons.IH, auto)
qed simp

lemma longest_match_snoc:
  assumes "\<forall>r \<in> set rs. fst (snd r) \<le> len"
  shows "longest_match (rs @ [(p, len, v)]) a = (if covers p len a then Some v else longest_match rs a)"
  using fold_better_len [OF assms, of None a] by (simp add: longest_match_def)

definition rib_add :: "rule \<Rightarrow> rib \<Rightarrow> rib" where
  "rib_add r = (case r of (p, len, v) \<Rightarrow> \<lambda>rib. snd (rib_update p len v rib))"

lemma long_rules_snoc:
  "long_rules (rs @ [(p, len, v)]) a =
     long_rules rs a @ (if 25 \<le> len \<and> unat p div 256 = unat a div 256 then [(p, len, v)] else [])"
  by (simp add: long_rules_def)

lemma long_rules_Nil_iff: "long_rules rs a = [] \<longleftrightarrow> unat a div 256 \<notin> long_nets rs"
proof (induction rs)
  case (Cons r rs)
  obtain p len v where "r = (p, len, v)" by (cases r) auto
  with Cons show ?case
    by (auto simp: long_rules_def long_nets_def simp del: set_filter)
qed (simp add: long_rules_def long_nets_def)

lemma long_nets_snoc:
  "long_nets (rs @ [(p, len, v)]) = (if 25 \<le> len then insert (unat p div 256) (long_nets rs) else long_nets rs)"
  by (simp add: long_nets_def)

lemma finite_long_nets: "finite (long_nets rs)"
  by (simp add: long_nets_def)

theorem rib_of_sorted_rules:
  assumes "sorted (map (fst \<circ> snd) rs)" "card (long_nets rs) \<le> 256"
  shows "fold rib_add rs empty_rib =
           \<lparr>routes = \<lambda>a. longest_match (deciding rs a) a,
            expanded = \<lambda>i. i \<in> long_nets rs, blocks = card (long_nets rs)\<rparr>"
  using assms
proof (induction rs rule: rev_induct)
  case Nil
  then show ?case
    by (simp add: empty_rib_def longest_match_def deciding_def long_rules_def long_nets_def)
next
  case (snoc r rs)
  obtain p len v where r: "r = (p, len, v)" by (cases r) auto
  have sorted: "sorted (map (fst \<circ> snd) rs)" "\<forall>r \<in> set rs. fst (snd r) \<le> len"
    using snoc.prems(1) by (auto simp: r sorted_append comp_def)
  have card: "card (long_nets rs) \<le> 256"
    using snoc.prems(2) by (rule order_trans [rotated]) (auto intro!: card_mono simp: r long_nets_snoc finite_long_nets)
  note IH = snoc.IH [OF sorted(1) card]
  note match = longest_match_snoc [OF sorted(2)]
  have sub: "\<forall>r \<in> set (long_rules rs a). fst (snd r) \<le> len" for a
    using sorted(2) by (auto simp: long_rules_def)
  have goal: "fold rib_add (rs @ [r]) empty_rib = snd (rib_update p len v (fold rib_add rs empty_rib))"
    by (simp add: r rib_add_def)
  show ?case
  proof (cases "len < 25")
    case True
    then have none: "long_rules rs a = []" for a
      using sorted(2) by (fastforce simp: long_rules_def filter_empty_conv)
    then have "long_nets rs = {}"
      using True sorted(2) by (fastforce simp: long_nets_def)
    with True none show ?thesis
      unfolding goal unfolding IH
      by (simp add: r rib_update_def deciding_def long_rules_snoc long_nets_snoc match fun_eq_iff)
  next
    case False
    then have len: "25 \<le> len" by simp
    have routes: "longest_match (deciding (rs @ [r]) a) a =
        (if covers p len a then Some v
         else if unat a div 256 = unat p div 256 \<and> unat p div 256 \<notin> long_nets rs then None
         else longest_match (deciding rs a) a)" for a
    proof (cases "unat a div 256 = unat p div 256")
      case True
      have "longest_match (long_rules rs a @ [(p, len, v)]) a =
          (if covers p len a then Some v else longest_match (long_rules rs a) a)"
        by (rule longest_match_snoc [OF sub])
      moreover have "longest_match [] a = None" by (simp add: longest_match_def)
      ultimately show ?thesis
        using True len long_rules_Nil_iff [of rs a]
        by (cases "long_rules rs a = []") (simp_all add: r deciding_def long_rules_snoc)
    next
      case False
      moreover have "\<not> covers p len a" using covers_same_net [OF len] False by blast
      ultimately show ?thesis
        using len by (simp add: r deciding_def long_rules_snoc match)
    qed
    have "unat p div 256 \<notin> long_nets rs \<longrightarrow> card (long_nets rs) < 256"
    proof
      assume "unat p div 256 \<notin> long_nets rs"
      then have "card (insert (unat p div 256) (long_nets rs)) = Suc (card (long_nets rs))"
        by (rule card_insert_disjoint [OF finite_long_nets])
      with snoc.prems(2) len show "card (long_nets rs) < 256" by (simp add: r long_nets_snoc)
    qed
    then show ?thesis
      unfolding goal unfolding IH
      using len routes
      by (auto simp: r rib_update_def long_nets_snoc Let_def fun_eq_iff insert_absorb finite_long_nets)
  qed
qed

section \<open>The routes of a file\<close>

lemma lpm_load_lines_rib:
  assumes "lpm_wf l" "\<forall>(q, n, v) \<in> set lines. q \<noteq> None \<and> 0 \<le> n \<and> n \<le> 32 \<and> v < 0x8000"
  shows "\<exists>l'. lpm_load_lines bswap lines l = Inr l' \<and> lpm_wf l'
            \<and> lpm_rib l' = fold rib_add (map (rule_of bswap) lines) (lpm_rib l)"
  using assms
proof (induction lines arbitrary: l)
  case (Cons line lines)
  obtain q n v where line: "line = (Some q, n, v)" using Cons.prems(2) by (cases line) auto
  with Cons.prems have n: "0 \<le> n" "n \<le> 32" and v: "v < 0x8000" by auto
  obtain addr where addr: "parse_ipv4addr (Some q) = Some addr"
    by (cases q) (simp add: parse_ipv4addr_def)
  have "unat (word_of_int n :: u8) = nat n"
    using n by (simp add: unsigned_of_int take_bit_int_eq_self)
  then have n': "unat (word_of_int n :: u8) \<le> 32" "unat (word_of_int n :: u8) = nat n"
    using n by simp_all
  obtain l1 b where l1: "lpm_update bswap l addr (word_of_int n) v = Inr (b, l1)"
    "lpm_rib l1 = rib_add (rule_of bswap line) (lpm_rib l)" "lpm_wf l1"
    using lpm_update_correct [OF Cons.prems(1) n'(1) v, of bswap addr] that
    by (auto simp: rule_of_def line addr rib_add_def n'(2))
  with Cons.IH [OF l1(3)] Cons.prems(2) show ?case
    by (simp add: line addr)
qed simp

text \<open>C4. Loading a file whose rules come in ascending order of their prefix length, which is
  what the header asks for, into a fresh table gives longest-prefix match: every later lookup
  returns the next hop of the longest rule that covers the address. The rules that compete
  for an address are all of them unless its /24 has a rule longer than 24 bits; then only
  those longer rules do, and the shorter ones that cover the address are lost. The files
  are limited to 256 different /24 networks with longer rules.
\<close>

theorem lpm_from_file_longest_match:
  assumes "lpm_allocate True True True mem_24 mem_long = Inr (Some l)"
    and "\<forall>(q, n, v) \<in> set lines. q \<noteq> None \<and> 0 \<le> n \<and> n \<le> 32 \<and> v < 0x8000"
    and "sorted (map (\<lambda>(q, n, v). n) lines)"
    and "card (long_nets (map (rule_of bswap) lines)) \<le> 256"
  shows "\<exists>l'. lpm_from_file bswap (Some lines) l = Inr l'
            \<and> (\<forall>addr. lpm_lookup bswap l' addr =
                 Inr (longest_match (deciding (map (rule_of bswap) lines) (bswap addr)) (bswap addr)))"
proof -
  have "map (fst \<circ> snd) (map (rule_of bswap) lines) = map nat (map (\<lambda>(q, n, v). n) lines)"
    by (auto simp: rule_of_def)
  moreover have "sorted (map nat ns)" if "sorted ns" for ns
    using that by (induction ns) (auto simp: nat_mono)
  ultimately have "sorted (map (fst \<circ> snd) (map (rule_of bswap) lines))"
    using assms(3) by metis
  note rib = rib_of_sorted_rules [OF this assms(4)]
  obtain l' where "lpm_load_lines bswap lines l = Inr l'"
    "lpm_rib l' = fold rib_add (map (rule_of bswap) lines) empty_rib"
    using lpm_load_lines_rib [OF lpm_allocate_wf(1) [OF assms(1)] assms(2), of bswap]
      lpm_allocate_wf(2) [OF assms(1)] by metis
  then show ?thesis
    by (intro exI [of _ l']) (simp add: lpm_from_file_def lpm_lookup_routes rib)
qed

definition swap_bytes :: "u32 \<Rightarrow> u32" where
  "swap_bytes w = push_bit 24 (w AND 0xFF) OR push_bit 8 (w AND 0xFF00)
                  OR (drop_bit 8 w AND 0xFF00) OR drop_bit 24 w"

text \<open>
  10.0.0.0/8 to 1 and 10.1.2.128/25 to 2: in the second network a host of the upper half
  goes to 2, one of the lower half has no route.
\<close>

theorem lpm_from_file_longest_match_witness:
  "\<exists>l l'. lpm_allocate True True True (\<lambda>_. 7) (\<lambda>_. 7) = Inr (Some l)
     \<and> lpm_from_file swap_bytes (Some [(Some (10, 0, 0, 0), 8, 1), (Some (10, 1, 2, 128), 25, 2)]) l = Inr l'
     \<and> lpm_lookup swap_bytes l' 0x0503010A = Inr (Some 1)
     \<and> lpm_lookup swap_bytes l' 0x8102010A = Inr (Some 2)
     \<and> lpm_lookup swap_bytes l' 0x0302010A = Inr None"
proof -
  let ?lines = "[(Some (10, 0, 0, 0), 8, 1), (Some (10, 1, 2, 128), 25, 2)] :: lpm_line list"
  have rules: "map (rule_of swap_bytes) ?lines = [(0x0A000000, 8, 1), (0x0A010280, 25, 2)]"
    by (simp add: rule_of_def parse_ipv4addr_def swap_bytes_def)
  have lines: "\<forall>(q, n, v) \<in> set ?lines. q \<noteq> None \<and> 0 \<le> n \<and> n \<le> 32 \<and> v < 0x8000"
    by simp
  have sorted: "sorted (map (\<lambda>(q, n, v). n) ?lines)" by simp
  have card: "card (long_nets (map (rule_of swap_bytes) ?lines)) \<le> 256"
    unfolding rules by (simp add: long_nets_def)
  obtain l where l: "lpm_allocate True True True (\<lambda>_. 7) (\<lambda>_. 7) = Inr (Some l)"
    by (simp add: lpm_allocate_blank)
  obtain l' where loaded: "lpm_from_file swap_bytes (Some ?lines) l = Inr l'"
    and look: "\<And>addr. lpm_lookup swap_bytes l' addr =
      Inr (longest_match (deciding [(0x0A000000, 8, 1), (0x0A010280, 25, 2)] (swap_bytes addr)) (swap_bytes addr))"
    using lpm_from_file_longest_match [OF l lines sorted card] unfolding rules by blast
  have eval: "longest_match (deciding [(0x0A000000, 8, 1), (0x0A010280, 25, 2)] 0x0A010305) 0x0A010305 = Some 1"
    "longest_match (deciding [(0x0A000000, 8, 1), (0x0A010280, 25, 2)] 0x0A010281) 0x0A010281 = Some 2"
    "longest_match (deciding [(0x0A000000, 8, 1), (0x0A010280, 25, 2)] 0x0A010203) 0x0A010203 = None"
    by (simp_all add: longest_match_def deciding_def long_rules_def covers_def)
  have swap: "swap_bytes 0x0503010A = 0x0A010305" "swap_bytes 0x8102010A = 0x0A010281"
    "swap_bytes 0x0302010A = 0x0A010203"
    by (simp_all add: swap_bytes_def)
  show ?thesis
    by (intro exI [of _ l] exI [of _ l'] conjI l loaded) (simp_all only: look swap eval)
qed

end
