(* ===== verification/KeyValueStore.thy ===== *)
theory KeyValueStore
  imports NatFlows Aging
begin

text \<open>
  The key-value cache in front of a storage server, \<^verbatim>\<open>dpdk-nfs/kvs\<close>. Requests that the cache
  can answer go back to their client, the others to the server; entries age.
\<close>

section \<open>Packets\<close>

type_synonym kv_key = "u8 \<times> u8 \<times> u8 \<times> u8"
type_synonym kv_value = "u8 \<times> u8 \<times> u8 \<times> u8"

abbreviation KVS_OP_GET :: u8 where "KVS_OP_GET \<equiv> 0"
abbreviation KVS_OP_PUT :: u8 where "KVS_OP_PUT \<equiv> 1"
abbreviation KVS_STATUS_HIT :: u8 where "KVS_STATUS_HIT \<equiv> 1"

text \<open>The port 670 in the byte order of the network.\<close>

abbreviation KVSTORE_PORT_BE :: u16 where "KVSTORE_PORT_BE \<equiv> 0x9E02"

record kvs_hdr =
  kh_op :: u8
  kh_key :: kv_key
  kh_value :: kv_value
  kh_status :: u8
  kh_client_port :: u16

text \<open>A packet of the store: the bytes of its three outer headers, and its own header.\<close>

record kvs_packet =
  kp_packet :: packet
  kp_ether_src :: ether_addr
  kp_ether_dst :: ether_addr
  kp_hdr :: kvs_hdr

definition nf_then_get_kvs_header :: "packet \<Rightarrow> packet option result" where
  "nf_then_get_kvs_header p =
     (let unread_len = (ucast (packet_get_unread_length p) :: u16) in
      if (l4_src_port (pk_l4 p) \<noteq> KVSTORE_PORT_BE \<and> l4_dst_port (pk_l4 p) \<noteq> KVSTORE_PORT_BE)
         \<or> unread_len < 12 then Inr None
      else rbind (nf_borrow_next_chunk p 12) (\<lambda>p. Inr (Some p)))"

definition invert_flow :: "kvs_packet \<Rightarrow> kvs_packet" where
  "invert_flow kp =
     (let p = kp_packet kp; ip = pk_ip p; udp = pk_l4 p in
      kp\<lparr>kp_ether_src := kp_ether_dst kp, kp_ether_dst := kp_ether_src kp,
         kp_packet := p\<lparr>pk_ip := ip\<lparr>ip_src_addr := ip_dst_addr ip, ip_dst_addr := ip_src_addr ip\<rparr>,
                        pk_l4 := udp\<lparr>l4_src_port := l4_dst_port udp, l4_dst_port := l4_src_port udp\<rparr>\<rparr>\<rparr>)"

section \<open>State\<close>

record kvs_state =
  kvs_kvs :: "int nf_map"
  kvs_keys :: "kv_key nf_vector"
  kvs_values :: "kv_value nf_vector"
  kvs_heap :: double_chain
  kvs_capacity :: u32
  kvs_expiration_time :: int

definition kv_bytes :: "kv_key \<Rightarrow> bytes" where
  "kv_bytes k = (case k of (a, b, c, d) \<Rightarrow> [a, b, c, d])"

definition kvs_alloc_state ::
  "u32 \<Rightarrow> u32 \<Rightarrow> int nf_map option \<Rightarrow> kv_key nf_vector option \<Rightarrow> kv_value nf_vector option \<Rightarrow>
     double_chain option \<Rightarrow> kvs_state option"
where
  "kvs_alloc_state capacity expiration_time_us kvs keys values heap =
     (case (kvs, keys, values, heap) of
        (Some kvs, Some keys, Some values, Some heap) \<Rightarrow>
          Some \<lparr>kvs_kvs = kvs, kvs_keys = keys, kvs_values = values, kvs_heap = heap,
                kvs_capacity = capacity,
                kvs_expiration_time = uint (expiration_time_us * 1000)\<rparr>
      | _ \<Rightarrow> None)"

section \<open>Operations\<close>

definition kvs_last_time :: "int \<Rightarrow> int \<Rightarrow> int" where
  "kvs_last_time expiration_time now =
     sint ((word_of_int now :: u64) - word_of_int expiration_time)"

definition kvs_expire :: "(u32 \<Rightarrow> u32 \<Rightarrow> u32) \<Rightarrow> kvs_state \<Rightarrow> int \<Rightarrow> kvs_state result option" where
  "kvs_expire crc st now =
     (if now < 0 then Some (Inl Assert_Failed)
      else
        map_option
          (\<lambda>r. rbind r (\<lambda>(heap, m, count). Inr (st\<lparr>kvs_heap := heap, kvs_kvs := m\<rparr>)))
          (expire_items_single_map crc kv_bytes (kvs_heap st) (kvs_keys st) (kvs_kvs st)
            (kvs_last_time (kvs_expiration_time st) now)))"

text \<open>The last component is \<open>Some\<close> of the value left in the packet when the key is cached.\<close>

definition kvs_cache_lookup ::
  "(u32 \<Rightarrow> u32 \<Rightarrow> u32) \<Rightarrow> kvs_state \<Rightarrow> int \<Rightarrow> u8 \<Rightarrow> kv_key \<Rightarrow> kv_value \<Rightarrow>
     (kvs_state \<times> kv_value option) result"
where
  "kvs_cache_lookup crc st now op key val =
     (case map_get crc (vector_mem kv_bytes (kvs_keys st)) (kvs_kvs st) (kv_bytes key) of
        None \<Rightarrow> Inr (st, None)
      | Some index \<Rightarrow>
          rbind (dchain_rejuvenate_index (kvs_heap st) index now) (\<lambda>(heap, _).
          let st = st\<lparr>kvs_heap := heap\<rparr> in
          if op = KVS_OP_GET then
            rbind (vector_borrow (kvs_values st) index) (\<lambda>curr_value. Inr (st, Some curr_value))
          else
            rbind (vector_write (kvs_values st) index val) (\<lambda>values.
            Inr (st\<lparr>kvs_values := values\<rparr>, Some val))))"

definition kvs_on_cache_miss ::
  "(u32 \<Rightarrow> u32 \<Rightarrow> u32) \<Rightarrow> kvs_state \<Rightarrow> int \<Rightarrow> u8 \<Rightarrow> kv_key \<Rightarrow> kv_value \<Rightarrow> (kvs_state \<times> bool) result"
where
  "kvs_on_cache_miss crc st now op key val =
     (if op \<noteq> KVS_OP_PUT then Inr (st, False)
      else
        rbind (dchain_allocate_new_index (kvs_heap st) now) (\<lambda>(heap, allocated).
        let st = st\<lparr>kvs_heap := heap\<rparr> in
        case allocated of
          None \<Rightarrow> Inr (st, False)
        | Some index \<Rightarrow>
            rbind (vector_write (kvs_keys st) index key) (\<lambda>keys.
            rbind (map_put crc (vector_mem kv_bytes keys) (kvs_kvs st) index index) (\<lambda>m.
            rbind (vector_write (kvs_values st) index val) (\<lambda>values.
            Inr (st\<lparr>kvs_kvs := m, kvs_keys := keys, kvs_values := values\<rparr>, True))))))"

definition kvs_answer :: "kvs_packet \<Rightarrow> kv_value \<Rightarrow> kvs_packet" where
  "kvs_answer kp val =
     (let kp = invert_flow (kp\<lparr>kp_hdr := (kp_hdr kp)\<lparr>kh_value := val\<rparr>\<rparr>)
      in kp\<lparr>kp_hdr := (kp_hdr kp)\<lparr>kh_status := KVS_STATUS_HIT\<rparr>\<rparr>)"

text \<open>From the point where the header of the store is read.\<close>

definition kvs_serve ::
  "(u32 \<Rightarrow> u32 \<Rightarrow> u32) \<Rightarrow> u16 \<Rightarrow> kvs_state \<Rightarrow> u16 \<Rightarrow> int \<Rightarrow> kvs_packet \<Rightarrow>
     (kvs_state \<times> kvs_packet \<times> u16) result"
where
  "kvs_serve crc server_dev st device now kp =
     (let h = kp_hdr kp in
      if device = server_dev then Inr (st, kp, kh_client_port h)
      else
        rbind (kvs_cache_lookup crc st now (kh_op h) (kh_key h) (kh_value h)) (\<lambda>(st, hit).
        case hit of
          Some val \<Rightarrow> Inr (st, kvs_answer kp val, device)
        | None \<Rightarrow>
            rbind (kvs_on_cache_miss crc st now (kh_op h) (kh_key h) (kh_value h)) (\<lambda>(st, updated).
            if updated then Inr (st, kvs_answer kp (kh_value h), device)
            else Inr (st, kp\<lparr>kp_hdr := h\<lparr>kh_client_port := device\<rparr>\<rparr>, server_dev))))"

definition kvs_handle ::
  "(u32 \<Rightarrow> u32 \<Rightarrow> u32) \<Rightarrow> u16 \<Rightarrow> kvs_state \<Rightarrow> u16 \<Rightarrow> int \<Rightarrow> kvs_packet \<Rightarrow>
     (kvs_state \<times> kvs_packet \<times> u16) result"
where
  "kvs_handle crc server_dev st device now kp =
     rbind (nf_then_get_ether_header (kp_packet kp)) (\<lambda>p.
     rbind (nf_then_get_ipv4_header p) (\<lambda>ip. case ip of
       None \<Rightarrow> Inr (st, kp\<lparr>kp_packet := p\<rparr>, DROP)
     | Some p \<Rightarrow>
     rbind (nf_then_get_udp_header p) (\<lambda>udp. case udp of
       None \<Rightarrow> Inr (st, kp\<lparr>kp_packet := p\<rparr>, DROP)
     | Some p \<Rightarrow>
     rbind (nf_then_get_kvs_header p) (\<lambda>hdr. case hdr of
       None \<Rightarrow> Inr (st, kp\<lparr>kp_packet := p\<rparr>, DROP)
     | Some p \<Rightarrow> kvs_serve crc server_dev st device now (kp\<lparr>kp_packet := p\<rparr>)))))"

definition kvs_process ::
  "(u32 \<Rightarrow> u32 \<Rightarrow> u32) \<Rightarrow> u16 \<Rightarrow> kvs_state \<Rightarrow> u16 \<Rightarrow> int \<Rightarrow> kvs_packet \<Rightarrow>
     (kvs_state \<times> kvs_packet \<times> u16) result option"
where
  "kvs_process crc server_dev st device now kp =
     map_option (\<lambda>r. rbind r (\<lambda>st. kvs_handle crc server_dev st device now kp))
       (kvs_expire crc st now)"

section \<open>The cache as an aged list of entries\<close>

text \<open>What the state means: the entries with the time of their last use, oldest first.\<close>

type_synonym cache = "(kv_key \<times> kv_value \<times> int) list"

definition cache_expire :: "int \<Rightarrow> cache \<Rightarrow> cache" where
  "cache_expire time C = dropWhile (\<lambda>(k, v, t). t < time) C"

definition cache_find :: "kv_key \<Rightarrow> cache \<Rightarrow> kv_value option" where
  "cache_find k C = map_of (map (\<lambda>(k, v, t). (k, v)) C) k"

definition cache_touch :: "kv_key \<Rightarrow> kv_value \<Rightarrow> int \<Rightarrow> cache \<Rightarrow> cache" where
  "cache_touch k v now C = filter (\<lambda>(k', _, _). k' \<noteq> k) C @ [(k, v, now)]"

text \<open>A request and the value it is answered with, if the cache answers it.\<close>

definition cache_request ::
  "nat \<Rightarrow> u8 \<Rightarrow> kv_key \<Rightarrow> kv_value \<Rightarrow> int \<Rightarrow> cache \<Rightarrow> cache \<times> kv_value option"
where
  "cache_request room op k val now C =
     (case cache_find k C of
        Some v \<Rightarrow> (let v = (if op = KVS_OP_GET then v else val) in (cache_touch k v now C, Some v))
      | None \<Rightarrow> if op = KVS_OP_PUT \<and> length C < room then (C @ [(k, val, now)], Some val)
                else (C, None))"

lemma kv_bytes_inj: "take (unat (4 :: u32)) (kv_bytes k) = take (unat (4 :: u32)) (kv_bytes k') \<Longrightarrow> k = k'"
  by (cases k; cases k') (simp add: kv_bytes_def)

interpretation kvs_flows: nf_flows crc capacity 4 kv_bytes for crc capacity
  by unfold_locales (rule kv_bytes_inj)

definition kvs_wf :: "(u32 \<Rightarrow> u32 \<Rightarrow> u32) \<Rightarrow> u32 \<Rightarrow> kvs_state \<Rightarrow> aged \<Rightarrow> int list \<Rightarrow> bool" where
  "kvs_wf crc n st L F \<longleftrightarrow>
     table_flows chain_rep (map_rep crc n 4) (unat n) kv_bytes
       (kvs_heap st) (kvs_keys st) (kvs_kvs st) L F \<and>
     length (vec_data (kvs_keys st)) = unat n \<and> length (vec_data (kvs_values st)) = unat n"

definition kvs_cache :: "kvs_state \<Rightarrow> aged \<Rightarrow> cache" where
  "kvs_cache st L =
     map (\<lambda>(i, t). (vec_data (kvs_keys st) ! nat i, vec_data (kvs_values st) ! nat i, t)) L"

lemma kvs_wfD:
  "kvs_wf crc n st L F \<Longrightarrow>
     table_flows chain_rep (map_rep crc n 4) (unat n) kv_bytes
       (kvs_heap st) (kvs_keys st) (kvs_kvs st) L F"
  by (simp add: kvs_wf_def)

lemma kvs_wf_indices:
  assumes "kvs_wf crc n st L F"
  shows "distinct (ids L @ F)" "set (ids L @ F) = {0..<int (unat n)}" "length L + length F = unat n"
proof -
  have "chain_rep (kvs_heap st) L F" using kvs_wfD [OF assms] by (simp only: table_flows_def)
  then show d: "distinct (ids L @ F)" by (rule chain.rep_distinct)
  show s: "set (ids L @ F) = {0..<int (unat n)}"
    using assms by (simp add: kvs_wf_def table_flows_def)
  have "length (ids L @ F) = card (set (ids L @ F))" using d by (simp only: distinct_card)
  then show "length L + length F = unat n" unfolding s by simp
qed

lemma kvs_wf_range:
  assumes "kvs_wf crc n st L F" "i \<in> set (ids L @ F)"
  shows "0 \<le> i" "i < int (length (vec_data (kvs_keys st)))" "i < int (length (vec_data (kvs_values st)))"
  using kvs_wf_indices(2) [OF assms(1)] assms by (auto simp: kvs_wf_def)

text \<open>The keys of the cache are those of the allocated indices, each once.\<close>

lemma kvs_cache_distinct:
  assumes "kvs_wf crc n st L F"
  shows "distinct (map fst (map (\<lambda>(k, v, t). (k, v)) (kvs_cache st L)))"
proof -
  have "inj_on (\<lambda>i. vec_data (kvs_keys st) ! nat i) (set (ids L))"
    using kvs_flows.tab.flows_keys_distinct [OF kvs_wfD [OF assms]] by (intro inj_onI)
  moreover have "distinct (ids L)" using kvs_wf_indices(1) [OF assms] by simp
  ultimately have "distinct (map (\<lambda>i. vec_data (kvs_keys st) ! nat i) (ids L))"
    by (simp only: distinct_map)
  then show ?thesis by (simp add: kvs_cache_def comp_def split_def)
qed

lemma kvs_find_at:
  assumes "kvs_wf crc n st L F" "i \<in> set (ids L)"
  shows "cache_find (vec_data (kvs_keys st) ! nat i) (kvs_cache st L)
           = Some (vec_data (kvs_values st) ! nat i)"
  unfolding cache_find_def
  by (rule map_of_is_SomeI [OF kvs_cache_distinct [OF assms(1)]])
    (use assms(2) in \<open>force simp: kvs_cache_def\<close>)

lemma kvs_find_None:
  assumes "\<forall>i \<in> set (ids L). vec_data (kvs_keys st) ! nat i \<noteq> k"
  shows "cache_find k (kvs_cache st L) = None"
  unfolding cache_find_def map_of_eq_None_iff
  using assms by (force simp: kvs_cache_def)

lemma kvs_cache_touch:
  assumes wf: "kvs_wf crc n st L F" and i: "i \<in> set (ids L)"
    and [simp]: "kvs_keys st' = kvs_keys st"
      "vec_data (kvs_values st') = (vec_data (kvs_values st))[nat i := v]"
  shows "kvs_cache st' (forget i L @ [(i, now)])
           = cache_touch (vec_data (kvs_keys st) ! nat i) v now (kvs_cache st L)"
proof -
  let ?key = "\<lambda>j. vec_data (kvs_keys st) ! nat j"
  note range = kvs_wf_range [OF wf]
  have other: "?key j \<noteq> ?key i \<longleftrightarrow> j \<noteq> i" if "j \<in> set (ids L)" for j
    using kvs_flows.tab.flows_keys_distinct [OF kvs_wfD [OF wf] that i] by auto
  have "nat j \<noteq> nat i" if "j \<in> set (ids L)" "j \<noteq> i" for j
    using range(1) [of j] range(1) [of i] that i by (simp add: nat_eq_iff2)
  then have old: "vec_data (kvs_values st') ! nat j = vec_data (kvs_values st) ! nat j"
    if "j \<in> set (ids L)" "j \<noteq> i" for j
    using that by (metis assms(4) nth_list_update_neq)
  have "filter (\<lambda>(k', _, _). k' \<noteq> ?key i) (kvs_cache st L)
      = map (\<lambda>(j, t). (?key j, vec_data (kvs_values st) ! nat j, t)) (filter (\<lambda>(j, _). j \<noteq> i) L)"
    unfolding kvs_cache_def filter_map
    by (rule arg_cong [where f = "map _"], rule filter_cong [OF refl]) (use other in force)
  also have "\<dots> = kvs_cache st' (forget i L)"
    unfolding kvs_cache_def by (rule map_cong) (use old in \<open>force+\<close>)
  finally have "filter (\<lambda>(k', _, _). k' \<noteq> ?key i) (kvs_cache st L) = kvs_cache st' (forget i L)" .
  moreover have "kvs_cache st' [(i, now)] = [(?key i, v, now)]"
    using range(1,3) [of i] i by (simp add: kvs_cache_def nat_less_iff)
  ultimately show ?thesis
    by (simp add: cache_touch_def) (simp add: kvs_cache_def)
qed

section \<open>The operations refine the cache\<close>

lemma kvs_expire_refines:
  assumes "kvs_wf crc n st L F" "0 \<le> now"
  obtains st' L' F' where "kvs_expire crc st now = Some (Inr st')" "kvs_wf crc n st' L' F'"
    "kvs_cache st' L' = cache_expire (kvs_last_time (kvs_expiration_time st) now) (kvs_cache st L)"
    "kvs_expiration_time st' = kvs_expiration_time st"
proof -
  let ?t = "kvs_last_time (kvs_expiration_time st) now"
  let ?k = "expired_count ?t L"
  from kvs_flows.expire_items_correct [OF kvs_wfD [OF assms(1)], of ?t] obtain d' m' where
    e: "expire_items_single_map crc kv_bytes (kvs_heap st) (kvs_keys st) (kvs_kvs st) ?t =
      Some (Inr (d', m', int ?k))"
    "table_flows chain_rep (map_rep crc n 4) (unat n) kv_bytes
      d' (kvs_keys st) m' (drop ?k L) (rev (ids (take ?k L)) @ F)" by blast
  have "drop ?k L = dropWhile (\<lambda>(i, s). s < ?t) L"
    by (simp add: expired_count_def dropWhile_eq_drop)
  then have c: "kvs_cache (st\<lparr>kvs_heap := d', kvs_kvs := m'\<rparr>) (drop ?k L)
      = cache_expire ?t (kvs_cache st L)"
    by (simp add: kvs_cache_def cache_expire_def dropWhile_map comp_def split_def)
  show thesis
    by (rule that [of "st\<lparr>kvs_heap := d', kvs_kvs := m'\<rparr>"])
      (use e assms c in \<open>simp_all add: kvs_expire_def kvs_wf_def\<close>)
qed

lemma kvs_hit_refines:
  assumes wf: "kvs_wf crc n st L F" and i: "i \<in> set (ids L)" "vec_data (kvs_keys st) ! nat i = k"
  obtains st' L' where
    "kvs_cache_lookup crc st now op k val =
       Inr (st', Some (if op = KVS_OP_GET then vec_data (kvs_values st) ! nat i else val))"
    "kvs_wf crc n st' L' F"
    "kvs_cache st' L' =
       cache_touch k (if op = KVS_OP_GET then vec_data (kvs_values st) ! nat i else val) now (kvs_cache st L)"
proof -
  let ?v = "if op = KVS_OP_GET then vec_data (kvs_values st) ! nat i else val"
  note t = kvs_wfD [OF wf]
  have g: "map_get crc (vector_mem kv_bytes (kvs_keys st)) (kvs_kvs st) (kv_bytes k) = Some i"
    using kvs_flows.tab.get_flow [OF t, of k i] i by simp
  from kvs_flows.tab.rejuvenate_flow [OF t i(1), of now] obtain d' where
    d': "dchain_rejuvenate_index (kvs_heap st) i now = Inr (d', True)"
    "table_flows chain_rep (map_rep crc n 4) (unat n) kv_bytes
      d' (kvs_keys st) (kvs_kvs st) (forget i L @ [(i, now)]) F" by blast
  have r: "0 \<le> i" "i < int (length (vec_data (kvs_values st)))"
    using kvs_wf_range [OF wf, of i] i by simp_all
  define st' where "st' = st\<lparr>kvs_heap := d',
    kvs_values := (kvs_values st)\<lparr>vec_data := (vec_data (kvs_values st))[nat i := ?v]\<rparr>\<rparr>"
  have same: "(kvs_values st)\<lparr>vec_data := (vec_data (kvs_values st))[nat i := vec_data (kvs_values st) ! nat i]\<rparr>
      = kvs_values st"
    by simp
  show thesis
  proof (rule that)
    show "kvs_cache_lookup crc st now op k val = Inr (st', Some ?v)"
      using g d'(1) r
      by (simp add: kvs_cache_lookup_def vector_write_in st'_def Let_def del: list_update_id)
        (simp add: vector_borrow_def)
    show "kvs_wf crc n st' (forget i L @ [(i, now)]) F"
      using wf d'(2) by (simp add: kvs_wf_def st'_def)
    show "kvs_cache st' (forget i L @ [(i, now)]) = cache_touch k ?v now (kvs_cache st L)"
      using kvs_cache_touch [OF wf i(1), of st' ?v now] i(2) by (simp add: st'_def)
  qed
qed

lemma kvs_miss_lookup:
  assumes "kvs_wf crc n st L F" "\<forall>i \<in> set (ids L). vec_data (kvs_keys st) ! nat i \<noteq> k"
  shows "kvs_cache_lookup crc st now op k val = Inr (st, None)"
  using kvs_flows.tab.get_flow_None [OF kvs_wfD [OF assms(1)], of k] assms(2)
  by (simp add: kvs_cache_lookup_def)

lemma kvs_insert_refines:
  assumes wf: "kvs_wf crc n st L (f # F)" and new: "\<forall>i \<in> set (ids L). vec_data (kvs_keys st) ! nat i \<noteq> k"
  obtains st' where "kvs_on_cache_miss crc st now KVS_OP_PUT k val = Inr (st', True)"
    "kvs_wf crc n st' (L @ [(f, now)]) F"
    "kvs_cache st' (L @ [(f, now)]) = kvs_cache st L @ [(k, val, now)]"
proof -
  let ?keys = "(kvs_keys st)\<lparr>vec_data := (vec_data (kvs_keys st))[nat f := k]\<rparr>"
    and ?vals = "(kvs_values st)\<lparr>vec_data := (vec_data (kvs_values st))[nat f := val]\<rparr>"
  from kvs_flows.tab.insert_flow [OF kvs_wfD [OF wf] new, of now] obtain d' m' where
    d': "dchain_allocate_new_index (kvs_heap st) now = Inr (d', Some f)"
    "vector_write (kvs_keys st) f k = Inr ?keys"
    "map_put crc (vector_mem kv_bytes ?keys) (kvs_kvs st) f f = Inr m'"
    "table_flows chain_rep (map_rep crc n 4) (unat n) kv_bytes d' ?keys m' (L @ [(f, now)]) F"
    by blast
  note r = kvs_wf_range [OF wf, of f]
  define st' where "st' = st\<lparr>kvs_heap := d', kvs_kvs := m', kvs_keys := ?keys, kvs_values := ?vals\<rparr>"
  have "f \<notin> set (ids L)" using kvs_wf_indices(1) [OF wf] by simp
  then have "nat i \<noteq> nat f" if "i \<in> set (ids L)" for i
    using that r(1) kvs_wf_range(1) [OF wf, of i] by (auto simp: nat_eq_iff2)
  then have "nat i \<noteq> nat f" if "(i, t) \<in> set L" for i t
    using that by force
  then have "kvs_cache st' L = kvs_cache st L"
    by (force simp: kvs_cache_def st'_def)
  then have c: "kvs_cache st' (L @ [(f, now)]) = kvs_cache st L @ [(k, val, now)]"
    using r by (simp add: kvs_cache_def st'_def nat_less_iff)
  show thesis
    by (rule that [OF _ _ c])
      (use d' r wf in \<open>simp_all add: kvs_on_cache_miss_def kvs_wf_def st'_def vector_write_in\<close>)
qed

lemma kvs_full_refines:
  assumes "kvs_wf crc n st L []"
  obtains st' where "kvs_on_cache_miss crc st now KVS_OP_PUT k val = Inr (st', False)"
    "kvs_wf crc n st' L []" "kvs_cache st' L = kvs_cache st L"
proof -
  from kvs_flows.tab.insert_full [OF kvs_wfD [OF assms], of now] obtain d' where
    "dchain_allocate_new_index (kvs_heap st) now = Inr (d', None)"
    "table_flows chain_rep (map_rep crc n 4) (unat n) kv_bytes
      d' (kvs_keys st) (kvs_kvs st) L []" by blast
  with assms show thesis
    by (intro that [of "st\<lparr>kvs_heap := d'\<rparr>"])
      (simp_all add: kvs_on_cache_miss_def kvs_wf_def kvs_cache_def)
qed

text \<open>What a client gets back, and where the packet goes.\<close>

definition kvs_reply ::
  "u16 \<Rightarrow> u16 \<Rightarrow> kvs_packet \<Rightarrow> kv_value option \<Rightarrow> kvs_packet \<times> u16"
where
  "kvs_reply server_dev device kp answer =
     (case answer of
        Some val \<Rightarrow> (kvs_answer kp val, device)
      | None \<Rightarrow> (kp\<lparr>kp_hdr := (kp_hdr kp)\<lparr>kh_client_port := device\<rparr>\<rparr>, server_dev))"

lemma kvs_serve_refines:
  fixes now :: int and kp :: kvs_packet
  assumes wf: "kvs_wf crc n st L F" and "device \<noteq> server_dev"
  defines "R \<equiv> cache_request (unat n) (kh_op (kp_hdr kp)) (kh_key (kp_hdr kp)) (kh_value (kp_hdr kp))
      now (kvs_cache st L)"
  obtains st' L' F' where "kvs_wf crc n st' L' F'" "kvs_cache st' L' = fst R"
    "kvs_serve crc server_dev st device now kp = Inr (st', kvs_reply server_dev device kp (snd R))"
proof -
  let ?h = "kp_hdr kp"
  show thesis
  proof (cases "\<exists>i \<in> set (ids L). vec_data (kvs_keys st) ! nat i = kh_key ?h")
    case True
    then obtain i where i: "i \<in> set (ids L)" "vec_data (kvs_keys st) ! nat i = kh_key ?h" by blast
    let ?v = "if kh_op ?h = KVS_OP_GET then vec_data (kvs_values st) ! nat i else kh_value ?h"
    obtain st' L' where "kvs_cache_lookup crc st now (kh_op ?h) (kh_key ?h) (kh_value ?h) = Inr (st', Some ?v)"
      "kvs_wf crc n st' L' F" "kvs_cache st' L' = cache_touch (kh_key ?h) ?v now (kvs_cache st L)"
      by (rule kvs_hit_refines [OF wf i])
    moreover have "R = (cache_touch (kh_key ?h) ?v now (kvs_cache st L), Some ?v)"
      using kvs_find_at [OF wf i(1)] i(2) by (simp add: R_def cache_request_def Let_def)
    ultimately show thesis
      using assms(2) by (intro that [of st' L' F]) (simp_all add: kvs_serve_def kvs_reply_def Let_def)
  next
    case False
    then have new: "\<forall>i \<in> set (ids L). vec_data (kvs_keys st) ! nat i \<noteq> kh_key ?h" by blast
    note miss = kvs_miss_lookup [OF wf new] and none = kvs_find_None [OF new]
    have len: "length (kvs_cache st L) = length L" by (simp add: kvs_cache_def)
    consider "kh_op ?h \<noteq> KVS_OP_PUT" | f F' where "kh_op ?h = KVS_OP_PUT" "F = f # F'"
      | "kh_op ?h = KVS_OP_PUT" "F = []" by (cases F) auto
    then show thesis
    proof cases
      case 1
      then show thesis
        using wf assms(2) miss none
        by (intro that [of st L F])
          (simp_all add: R_def cache_request_def kvs_serve_def kvs_on_cache_miss_def kvs_reply_def Let_def)
    next
      case 2
      obtain st' where "kvs_on_cache_miss crc st now KVS_OP_PUT (kh_key ?h) (kh_value ?h) = Inr (st', True)"
        "kvs_wf crc n st' (L @ [(f, now)]) F'"
        "kvs_cache st' (L @ [(f, now)]) = kvs_cache st L @ [(kh_key ?h, kh_value ?h, now)]"
        by (rule kvs_insert_refines [OF wf [unfolded 2(2)] new])
      moreover have "length L < unat n" using kvs_wf_indices(3) [OF wf] 2(2) by simp
      ultimately show thesis
        using assms(2) miss none 2(1) len
        by (intro that [of st' "L @ [(f, now)]" F'])
          (simp_all add: R_def cache_request_def kvs_serve_def kvs_reply_def Let_def)
    next
      case 3
      obtain st' where "kvs_on_cache_miss crc st now KVS_OP_PUT (kh_key ?h) (kh_value ?h) = Inr (st', False)"
        "kvs_wf crc n st' L []" "kvs_cache st' L = kvs_cache st L"
        by (rule kvs_full_refines [OF wf [unfolded 3(2)]])
      moreover have "length L = unat n" using kvs_wf_indices(3) [OF wf] 3(2) by simp
      ultimately show thesis
        using assms(2) miss none 3(1) len
        by (intro that [of st' L "[]"])
          (simp_all add: R_def cache_request_def kvs_serve_def kvs_reply_def Let_def)
    qed
  qed
qed

section \<open>Whole packets\<close>

text \<open>A packet as it is handed over that has all four headers, and what reading them does.\<close>

definition kvs_request :: "kvs_packet \<Rightarrow> bool" where
  "kvs_request kp \<longleftrightarrow>
     (let p = kp_packet kp in
      fresh_packet p \<and> nf_has_ipv4_header p \<and> nf_has_udp_header p \<and>
      (l4_src_port (pk_l4 p) = KVSTORE_PORT_BE \<or> l4_dst_port (pk_l4 p) = KVSTORE_PORT_BE) \<and>
      54 \<le> pk_total_length p \<and> pk_total_length p < 65536)"

definition kvs_read :: "kvs_packet \<Rightarrow> kvs_packet" where
  "kvs_read kp = kp\<lparr>kp_packet := (kp_packet kp)\<lparr>pk_read_length := 54, pk_chunks_borrowed := 4\<rparr>\<rparr>"

lemma kvs_handle_request:
  assumes "kvs_request kp"
  shows "kvs_handle crc server_dev st device now kp =
           kvs_serve crc server_dev st device now (kvs_read kp)"
proof -
  let ?p = "kp_packet kp"
  define len where "len = unat (pk_total_length ?p)"
  have a: "nf_has_ipv4_header ?p" "nf_has_udp_header ?p" "pk_read_length ?p = 0"
    "pk_chunks_borrowed ?p = 0"
    "l4_src_port (pk_l4 ?p) = KVSTORE_PORT_BE \<or> l4_dst_port (pk_l4 ?p) = KVSTORE_PORT_BE"
    using assms by (simp_all add: kvs_request_def fresh_packet_def Let_def)
  have len: "54 \<le> len" "len < 65536"
    using assms by (simp_all add: kvs_request_def Let_def len_def word_le_nat_alt word_less_nat_alt)
  have sub: "unat (pk_total_length ?p - of_nat k) = len - k" if "k \<le> 54" for k
  proof -
    have "unat (word_of_nat k :: u32) = k" using that by (simp add: unat_of_nat)
    then show ?thesis using that len(1) by (simp add: unat_sub len_def word_le_nat_alt)
  qed
  have u: "unat (ucast (pk_total_length ?p - of_nat k) :: u16) = len - k" if "k \<le> 54" for k
    using sub [OF that] len(2) by (simp add: unsigned_ucast_eq take_bit_nat_eq_self)
  have "\<not> (ucast (pk_total_length ?p - 14) :: u16) < 20"
    using u [of 14] len(1) by (simp add: word_less_nat_alt)
  moreover have "\<not> pk_total_length ?p - 34 < 8"
    using sub [of 34] len(1) by (simp add: word_less_nat_alt)
  moreover have "\<not> (ucast (pk_total_length ?p - 42) :: u16) < 12"
    using u [of 42] len(1) by (simp add: word_less_nat_alt)
  ultimately show ?thesis
    using a
    by (auto simp: kvs_handle_def nf_then_get_ether_header_def nf_then_get_ipv4_header_def
      nf_then_get_udp_header_def nf_then_get_kvs_header_def nf_borrow_next_chunk_def
      nf_has_ipv4_header_def nf_has_udp_header_def packet_get_unread_length_def kvs_read_def Let_def eval_nat_numeral)
qed

definition kvs_spec ::
  "nat \<Rightarrow> int \<Rightarrow> int \<Rightarrow> kvs_hdr \<Rightarrow> cache \<Rightarrow> cache \<times> kv_value option"
where
  "kvs_spec room expiration now h C =
     cache_request room (kh_op h) (kh_key h) (kh_value h) now
       (cache_expire (kvs_last_time expiration now) C)"

lemma kvs_process_correct:
  assumes "kvs_wf crc n st L F" "0 \<le> now" "device \<noteq> server_dev" "kvs_request kp"
  obtains st' L' F' where
    "kvs_process crc server_dev st device now kp = Some (Inr (st',
       kvs_reply server_dev device (kvs_read kp)
         (snd (kvs_spec (unat n) (kvs_expiration_time st) now (kp_hdr kp) (kvs_cache st L)))))"
    "kvs_wf crc n st' L' F'"
    "kvs_cache st' L' =
       fst (kvs_spec (unat n) (kvs_expiration_time st) now (kp_hdr kp) (kvs_cache st L))"
proof -
  obtain st0 L0 F0 where e: "kvs_expire crc st now = Some (Inr st0)" "kvs_wf crc n st0 L0 F0"
    "kvs_cache st0 L0 = cache_expire (kvs_last_time (kvs_expiration_time st) now) (kvs_cache st L)"
    by (rule kvs_expire_refines [OF assms(1,2)])
  have h: "kp_hdr (kvs_read kp) = kp_hdr kp" by (simp add: kvs_read_def)
  show thesis
  proof (rule kvs_serve_refines [OF e(2) assms(3), of "kvs_read kp" now])
    fix st' L' F' assume "kvs_wf crc n st' L' F'"
      "kvs_cache st' L' = fst (cache_request (unat n) (kh_op (kp_hdr (kvs_read kp)))
        (kh_key (kp_hdr (kvs_read kp))) (kh_value (kp_hdr (kvs_read kp))) now (kvs_cache st0 L0))"
      "kvs_serve crc server_dev st0 device now (kvs_read kp) = Inr (st',
        kvs_reply server_dev device (kvs_read kp) (snd (cache_request (unat n)
          (kh_op (kp_hdr (kvs_read kp))) (kh_key (kp_hdr (kvs_read kp)))
          (kh_value (kp_hdr (kvs_read kp))) now (kvs_cache st0 L0))))"
    then show thesis
      using e(1) that [of st' L' F']
      by (simp add: kvs_process_def kvs_handle_request [OF assms(4)] kvs_spec_def e(3) h)
  qed
qed

lemma kvs_lookup_expiration:
  assumes "kvs_cache_lookup crc st now op key val = Inr (st', r)"
  shows "kvs_expiration_time st' = kvs_expiration_time st"
  using assms
  by (auto simp: kvs_cache_lookup_def rbind_eq_Inr Let_def split: option.splits if_split_asm)

lemma kvs_miss_expiration:
  assumes "kvs_on_cache_miss crc st now op key val = Inr (st', r)"
  shows "kvs_expiration_time st' = kvs_expiration_time st"
  using assms
  by (auto simp: kvs_on_cache_miss_def rbind_eq_Inr Let_def split: option.splits if_split_asm)

lemma kvs_serve_expiration:
  assumes "kvs_serve crc server_dev st d t p = Inr (st', p', out)"
  shows "kvs_expiration_time st' = kvs_expiration_time st"
  using assms
  by (auto simp: kvs_serve_def rbind_eq_Inr Let_def split: option.splits if_split_asm
    dest!: kvs_lookup_expiration kvs_miss_expiration)

lemma kvs_handle_expiration:
  assumes "kvs_handle crc server_dev st d t p = Inr (st', p', out)"
  shows "kvs_expiration_time st' = kvs_expiration_time st"
  using assms
  by (auto simp: kvs_handle_def rbind_eq_Inr split: option.splits dest: kvs_serve_expiration)

lemma kvs_process_expiration:
  assumes "kvs_process crc server_dev st d t p = Some (Inr (st1, p1, out))"
  shows "kvs_expiration_time st1 = kvs_expiration_time st"
  using assms
  by (auto simp: kvs_process_def kvs_expire_def rbind_eq_Inr split: if_split_asm
    dest!: kvs_handle_expiration)

section \<open>The cache between two requests\<close>

lemma cache_find_last:
  assumes "k \<notin> fst ` set C"
  shows "cache_find k (C @ [(k, v, t)]) = Some v"
proof -
  have "map_of (map (\<lambda>(k, v, t). (k, v)) C) k = None"
    using assms by (force simp: map_of_eq_None_iff)
  then show ?thesis by (simp add: cache_find_def map_add_Some_iff)
qed

lemma cache_expire_last:
  assumes "\<not> t < time"
  obtains B where "cache_expire time (C @ [(k, v, t)]) = B @ [(k, v, t)]" "set B \<subseteq> set C"
proof (rule that)
  show "cache_expire time (C @ [(k, v, t)]) = cache_expire time C @ [(k, v, t)]"
    using assms by (induction C) (auto simp: cache_expire_def)
  show "set (cache_expire time C) \<subseteq> set C"
    by (auto simp: cache_expire_def dest: set_dropWhileD)
qed

text \<open>A PUT that the cache answers leaves its entry last, with no other of its key.\<close>

lemma cache_put:
  assumes "snd (cache_request room KVS_OP_PUT k v now C) = Some w"
  obtains C' where "cache_request room KVS_OP_PUT k v now C = (C' @ [(k, v, now)], Some v)"
    "k \<notin> fst ` set C'"
proof (cases "cache_find k C")
  case None
  then have "k \<notin> fst ` set C" by (force simp: cache_find_def map_of_eq_None_iff)
  with None assms show thesis
    by (intro that [of C]) (auto simp: cache_request_def split: if_splits)
next
  case (Some u)
  show thesis
    by (rule that [of "filter (\<lambda>(k', _, _). k' \<noteq> k) C"])
      (auto simp: cache_request_def cache_touch_def Some Let_def)
qed

section \<open>A cache at the start\<close>

abbreviation zero_kv :: kv_key where "zero_kv \<equiv> (0, 0, 0, 0)"

text \<open>Room for two keys, an expiration time of 1 ms.\<close>

definition fresh_kvs :: "kvs_state option" where
  "fresh_kvs =
     (case dchain_allocate True (Some (replicate 4 \<lparr>dc_prev = 0, dc_next = 0\<rparr>))
         (Some (replicate 2 0)) 2 of
        Inl e \<Rightarrow> None
      | Inr heap \<Rightarrow>
          kvs_alloc_state 2 1000
            (map_allocate True (Some (replicate 2 0)) (Some (replicate 2 0)) (Some (replicate 2 0))
              (Some (replicate 2 0)) (Some (replicate 2 0)) 2 4)
            (vector_allocate True (Some (replicate 2 zero_kv)) zero_kv 2)
            (vector_allocate True (Some (replicate 2 zero_kv)) zero_kv 2)
            heap)"

lemma fresh_kvs_wf:
  obtains st where "fresh_kvs = Some st" "kvs_wf crc 2 st [] [0, 1]"
    "kvs_expiration_time st = 1000000"
proof -
  let ?cells = "replicate 4 \<lparr>dc_prev = 0, dc_next = 0\<rparr>" and ?ts = "replicate 2 (0 :: int)"
  let ?z = "replicate 2 (0 :: int)" and ?h = "replicate 2 (0 :: u32)"
  have u: "[0..2 - 1] = [0, 1 :: int]" by (simp add: upto.simps)
  have "int (length ?cells) = 2 + 2" "int (length ?ts) = 2" "(1 :: int) \<le> 2" by simp_all
  from dchain_allocate_correct_blocks [OF this(3,1,2)] obtain heap where
    h: "dchain_allocate True (Some ?cells) (Some ?ts) 2 = Inr (Some heap)"
      "chain_rep heap [] [0, 1]" unfolding u by blast
  obtain fm where fm: "map_allocate True (Some ?z) (Some ?z) (Some ?h) (Some ?z) (Some ?z) 2 4 =
      Some (fm :: int nf_map)"
    by (simp add: map_allocate_def compute_is_power_of_two_def)
  let ?v = "\<lparr>vec_data = replicate 2 zero_kv, vec_capacity = 2\<rparr>"
  have v: "vector_allocate True (Some (replicate 2 zero_kv)) zero_kv 2 = Some ?v"
    using vector_allocate_zeroed [of "replicate 2 zero_kv" 2 zero_kv] by simp
  let ?st = "\<lparr>kvs_kvs = fm, kvs_keys = ?v, kvs_values = ?v, kvs_heap = heap, kvs_capacity = 2,
    kvs_expiration_time = 1000000\<rparr>"
  have st: "fresh_kvs = Some ?st"
    unfolding fresh_kvs_def h(1) fm v by (simp add: kvs_alloc_state_def)
  have "map_wf crc (vector_mem kv_bytes ?v) fm" "stored fm = {}" "map_capacity fm = 2" "key_size fm = 4"
    using map_allocate_correct [OF _ _ _ _ _ fm] by simp_all
  then have "kvs_wf crc 2 ?st [] [0, 1]"
    using h(2) by (auto simp: kvs_wf_def table_flows_def map_rep_def)
  with st show thesis by (intro that [of ?st]) simp_all
qed

text \<open>A request of host 10 to host 20 on the port of the store.\<close>

definition kvs_sample :: "u8 \<Rightarrow> kv_value \<Rightarrow> kvs_packet" where
  "kvs_sample op val =
     \<lparr>kp_packet = \<lparr>pk_total_length = 54, pk_read_length = 0, pk_chunks_borrowed = 0,
        pk_ether_type = ETHER_TYPE_IPV4_BE,
        pk_ip = \<lparr>ip_next_proto_id = 17, ip_src_addr = 10, ip_dst_addr = 20, ip_hdr_checksum = 0\<rparr>,
        pk_l4 = \<lparr>l4_src_port = 1000, l4_dst_port = KVSTORE_PORT_BE, l4_tcp_cksum = 0, l4_udp_cksum = 0\<rparr>\<rparr>,
      kp_ether_src = 1, kp_ether_dst = 2,
      kp_hdr = \<lparr>kh_op = op, kh_key = (1, 2, 3, 4), kh_value = val, kh_status = 0, kh_client_port = 0\<rparr>\<rparr>"

lemma kvs_sample_request: "kvs_request (kvs_sample op val)"
  by (simp add: kvs_request_def kvs_sample_def fresh_packet_def nf_has_ipv4_header_def
    nf_has_udp_header_def Let_def)

section \<open>Properties\<close>

text \<open>C17. For every client packet the cache behaves as a bounded list of entries in the order of
  their last use: entries older than the expiration time leave, a known key is answered from the
  list (a GET with the stored value, anything else by storing the value of the packet) and becomes
  the most recent, an unknown key is entered by a PUT while there is room, and whatever the list
  answers goes back to the client with its addresses exchanged and the status HIT, the rest to the
  server with the client's device noted.\<close>

theorem kvs_refines_cache:
  assumes "kvs_wf crc n st L F" "0 \<le> now" "device \<noteq> server_dev" "kvs_request kp"
  shows "\<exists>st' L' F'.
    kvs_process crc server_dev st device now kp = Some (Inr (st',
      kvs_reply server_dev device (kvs_read kp)
        (snd (kvs_spec (unat n) (kvs_expiration_time st) now (kp_hdr kp) (kvs_cache st L)))))
    \<and> kvs_wf crc n st' L' F'
    \<and> kvs_cache st' L' =
        fst (kvs_spec (unat n) (kvs_expiration_time st) now (kp_hdr kp) (kvs_cache st L))"
  by (rule kvs_process_correct [OF assms]) blast

theorem kvs_refines_cache_witness:
  "\<exists>st st' kp'. fresh_kvs = Some st \<and>
     kvs_process (\<lambda>h x. h XOR x) 3 st 0 5 (kvs_sample KVS_OP_GET zero_kv) = Some (Inr (st', kp', 3)) \<and>
     kh_client_port (kp_hdr kp') = 0"
proof -
  obtain st where st: "fresh_kvs = Some st" "kvs_wf (\<lambda>h x. h XOR x) 2 st [] [0, 1]"
    by (rule fresh_kvs_wf)
  have empty: "kvs_cache st [] = []" by (simp add: kvs_cache_def)
  have "snd (kvs_spec room e t (kp_hdr (kvs_sample KVS_OP_GET zero_kv)) []) = None" for room e t
    by (simp add: kvs_spec_def cache_request_def cache_expire_def cache_find_def kvs_sample_def)
  with kvs_refines_cache [OF st(2) _ _ kvs_sample_request, of 5 0 3 KVS_OP_GET zero_kv] st(1) empty
  show ?thesis by (auto simp: kvs_reply_def)
qed

text \<open>What a client puts comes back: when a PUT was answered by the cache, a GET for the same key
  that comes next and before the entry expires is answered to its sender with the value that was
  put.\<close>

lemma kvs_get_after_put:
  assumes "kvs_wf crc n st L F" "0 \<le> t" "0 \<le> t'" "t' < 2 ^ 63"
    and "0 \<le> kvs_expiration_time st" "kvs_expiration_time st \<le> 2 ^ 63"
      "t' \<le> t + kvs_expiration_time st"
    and "d \<noteq> server_dev" "kvs_request p" "kh_op (kp_hdr p) = KVS_OP_PUT"
    and "kvs_process crc server_dev st d t p = Some (Inr (st1, p1, d))"
    and "e \<noteq> server_dev" "kvs_request q" "kh_op (kp_hdr q) = KVS_OP_GET"
      "kh_key (kp_hdr q) = kh_key (kp_hdr p)"
  shows "\<exists>st2. kvs_process crc server_dev st1 e t' q =
    Some (Inr (st2, kvs_answer (kvs_read q) (kh_value (kp_hdr p)), e))"
proof -
  let ?C = "cache_expire (kvs_last_time (kvs_expiration_time st) t) (kvs_cache st L)"
  let ?k = "kh_key (kp_hdr p)" and ?v = "kh_value (kp_hdr p)"
  obtain st' L' F' where put:
    "kvs_process crc server_dev st d t p = Some (Inr (st', kvs_reply server_dev d (kvs_read p)
       (snd (cache_request (unat n) KVS_OP_PUT ?k ?v t ?C))))"
    "kvs_wf crc n st' L' F'" "kvs_cache st' L' = fst (cache_request (unat n) KVS_OP_PUT ?k ?v t ?C)"
    by (rule kvs_process_correct [OF assms(1,2,8,9)]) (simp add: kvs_spec_def assms(10))
  have st1: "st1 = st'" using put(1) assms(11) by simp
  have "kvs_expiration_time st1 = kvs_expiration_time st"
    using kvs_process_expiration [OF assms(11)] .
  then have time: "kvs_last_time (kvs_expiration_time st1) t' = t' - kvs_expiration_time st"
    unfolding kvs_last_time_def using u64_difference [OF assms(3,4,5,6)] by simp
  have "snd (cache_request (unat n) KVS_OP_PUT ?k ?v t ?C) \<noteq> None"
  proof
    assume "snd (cache_request (unat n) KVS_OP_PUT ?k ?v t ?C) = None"
    with put(1) assms(8,11) show False by (simp add: kvs_reply_def)
  qed
  then obtain C' where C': "kvs_cache st' L' = C' @ [(?k, ?v, t)]" "?k \<notin> fst ` set C'"
    using put(3) cache_put by (metis fst_conv not_None_eq)
  have "\<not> t < t' - kvs_expiration_time st" using assms(7) by simp
  from cache_expire_last [OF this, of C' ?k ?v] obtain B where
    B: "cache_expire (t' - kvs_expiration_time st) (kvs_cache st' L') = B @ [(?k, ?v, t)]"
    "set B \<subseteq> set C'" unfolding C'(1) by blast
  have "?k \<notin> fst ` set B" using B(2) C'(2) by blast
  from cache_find_last [OF this]
  have "snd (kvs_spec (unat n) (kvs_expiration_time st1) t' (kp_hdr q) (kvs_cache st' L')) = Some ?v"
    by (simp add: kvs_spec_def time B(1) assms(14,15) cache_request_def Let_def)
  then show ?thesis
    unfolding st1 using kvs_process_correct [OF put(2) assms(3,12,13)]
    by (metis kvs_reply_def option.simps(5) st1)
qed

lemma kvs_get_after_put_witness:
  "\<exists>st st1 p1 st2 q. fresh_kvs = Some st \<and>
     kvs_process (\<lambda>h x. h XOR x) 3 st 0 5 (kvs_sample KVS_OP_PUT (9, 8, 7, 6)) = Some (Inr (st1, p1, 0)) \<and>
     kvs_process (\<lambda>h x. h XOR x) 3 st1 1 900000 (kvs_sample KVS_OP_GET zero_kv) = Some (Inr (st2, q, 1)) \<and>
     kh_value (kp_hdr q) = (9, 8, 7, 6) \<and> kh_status (kp_hdr q) = KVS_STATUS_HIT"
proof -
  let ?crc = "\<lambda>h x :: u32. h XOR x"
  obtain st where st: "fresh_kvs = Some st" "kvs_wf ?crc 2 st [] [0, 1]"
    "kvs_expiration_time st = 1000000" by (rule fresh_kvs_wf)
  have empty: "kvs_cache st [] = []" by (simp add: kvs_cache_def)
  have h: "kh_op (kp_hdr (kvs_sample op v)) = op" "kh_key (kp_hdr (kvs_sample op v)) = (1, 2, 3, 4)"
    "kh_value (kp_hdr (kvs_sample op v)) = v" for op v
    by (simp_all add: kvs_sample_def)
  have spec: "kvs_spec 2 e t (kp_hdr (kvs_sample KVS_OP_PUT (9, 8, 7, 6))) []
      = ([((1, 2, 3, 4), (9, 8, 7, 6), t)], Some (9, 8, 7, 6))" for e t
    by (simp add: kvs_spec_def cache_request_def cache_expire_def cache_find_def h)
  obtain st1 p1 where put: "kvs_process ?crc 3 st 0 5 (kvs_sample KVS_OP_PUT (9, 8, 7, 6)) =
      Some (Inr (st1, p1, 0))"
    using kvs_process_correct [OF st(2) _ _ kvs_sample_request, of 5 0 3 KVS_OP_PUT "(9, 8, 7, 6)" thesis]
      that unfolding empty by (simp add: spec kvs_reply_def)
  have "(900000 :: int) \<le> 5 + kvs_expiration_time st" by (simp add: st(3))
  then have "\<exists>st2. kvs_process ?crc 3 st1 1 900000 (kvs_sample KVS_OP_GET zero_kv) =
      Some (Inr (st2, kvs_answer (kvs_read (kvs_sample KVS_OP_GET zero_kv)) (9, 8, 7, 6), 1))"
    using kvs_get_after_put [OF st(2) _ _ _ _ _ _ _ kvs_sample_request h(1) put _ kvs_sample_request h(1)]
    by (simp add: st(3) h)
  with st(1) put show ?thesis by (auto simp: kvs_answer_def invert_flow_def Let_def)
qed

end
