(* ===== verification/LoadBalancer.thy ===== *)
theory LoadBalancer
  imports NatFlows Aging ConsistentHashing
begin

text \<open>
  The load balancer, \<^verbatim>\<open>dpdk-nfs/lb\<close>. Servers announce themselves by packets on the inner
  devices, packets from the wide area network go to one of the servers that are active: to the one
  their flow went before, or to the one that the consistent hashing table prefers.
\<close>

section \<open>State\<close>

text \<open>The key of a flow, with the three bytes of padding the compiler adds.\<close>

record lb_flow =
  lf_src_ip :: u32
  lf_dst_ip :: u32
  lf_src_port :: u16
  lf_dst_port :: u16
  lf_protocol :: u8
  lf_padding :: "u8 \<times> u8 \<times> u8"

definition lb_flow_bytes :: "lb_flow \<Rightarrow> bytes" where
  "lb_flow_bytes f =
     bytes32 (lf_src_ip f) @ bytes32 (lf_dst_ip f) @ bytes16 (lf_src_port f) @
     bytes16 (lf_dst_port f) @ [lf_protocol f] @ (case lf_padding f of (a, b, c) \<Rightarrow> [a, b, c])"

record lb_backend =
  lb_nic :: u16
  lb_mac :: ether_addr
  lb_ip :: u32

record lb_state =
  lb_flow_to_flow_id :: "int nf_map"
  lb_flow_heap :: "lb_flow nf_vector"
  lb_flow_chain :: double_chain
  lb_flow_id_to_backend_id :: "u32 nf_vector"
  lb_ip_to_backend_id :: "int nf_map"
  lb_backend_ips :: "u32 nf_vector"
  lb_backends :: "lb_backend nf_vector"
  lb_active_backends :: double_chain
  lb_cht :: "u32 nf_vector"
  lb_backend_capacity :: u32
  lb_flow_capacity :: u32
  lb_cht_height :: u32

text \<open>
  The blocks and structures that the allocators hand out are arguments; the table is filled
  as \<^verbatim>\<open>alloc_state\<close> does it.
\<close>

definition lb_alloc_state ::
  "int nf_map option \<Rightarrow> lb_flow nf_vector option \<Rightarrow> double_chain option \<Rightarrow> u32 nf_vector option \<Rightarrow>
   int nf_map option \<Rightarrow> u32 nf_vector option \<Rightarrow> lb_backend nf_vector option \<Rightarrow>
   double_chain option \<Rightarrow> u32 nf_vector option \<Rightarrow> int list option \<Rightarrow> bool \<Rightarrow>
   u32 \<Rightarrow> u32 \<Rightarrow> u32 \<Rightarrow> lb_state option result"
where
  "lb_alloc_state flow_to_flow_id flow_heap flow_chain flow_id_to_backend_id ip_to_backend_id
     backend_ips backend_list active_backends cht permutations next_alloc
     backend_capacity flow_capacity cht_height =
     (case (flow_to_flow_id, flow_heap, flow_chain, flow_id_to_backend_id, ip_to_backend_id,
            backend_ips, backend_list, active_backends, cht) of
        (Some flow_to_flow_id, Some flow_heap, Some flow_chain, Some flow_id_to_backend_id,
         Some ip_to_backend_id, Some backend_ips, Some backend_list, Some active_backends, Some cht) \<Rightarrow>
          rbind (cht_fill_cht permutations next_alloc cht cht_height backend_capacity) (\<lambda>filled.
          case filled of
            None \<Rightarrow> Inr None
          | Some cht \<Rightarrow>
              Inr (Some \<lparr>lb_flow_to_flow_id = flow_to_flow_id, lb_flow_heap = flow_heap,
                lb_flow_chain = flow_chain, lb_flow_id_to_backend_id = flow_id_to_backend_id,
                lb_ip_to_backend_id = ip_to_backend_id, lb_backend_ips = backend_ips,
                lb_backends = backend_list, lb_active_backends = active_backends, lb_cht = cht,
                lb_backend_capacity = backend_capacity, lb_flow_capacity = flow_capacity,
                lb_cht_height = cht_height\<rparr>))
      | _ \<Rightarrow> Inr None)"

section \<open>Backends\<close>

text \<open>
  The server that \<^verbatim>\<open>lb_assign_backend\<close> leaves in its argument; when none is active, the
  argument has only its device set. What it held before is \<open>backend\<close>.
\<close>

definition lb_assign_backend ::
  "(u32 \<Rightarrow> u32 \<Rightarrow> u32) \<Rightarrow> lb_state \<Rightarrow> lb_flow \<Rightarrow> int \<Rightarrow> u16 \<Rightarrow> lb_backend \<Rightarrow>
     (lb_state \<times> lb_backend) result"
where
  "lb_assign_backend crc st flow now wan_device backend =
     rbind (cht_find_preferred_available_backend (ucast (hash_obj crc (lb_flow_bytes flow) 16))
              (lb_cht st) (lb_active_backends st) (lb_cht_height st) (lb_backend_capacity st)) (\<lambda>found.
     case found of
       None \<Rightarrow> Inr (st, backend\<lparr>lb_nic := wan_device\<rparr>)
     | Some backend_index \<Rightarrow>
         rbind (rbind (dchain_allocate_new_index (lb_flow_chain st) now) (\<lambda>(chain, allocated).
           let st = st\<lparr>lb_flow_chain := chain\<rparr> in
           case allocated of
             None \<Rightarrow> Inr st
           | Some flow_index \<Rightarrow>
               rbind (vector_write (lb_flow_heap st) flow_index flow) (\<lambda>heap.
               rbind (vector_write (lb_flow_id_to_backend_id st) flow_index (word_of_int backend_index))
                 (\<lambda>assigned.
               rbind (map_put crc (vector_mem lb_flow_bytes heap) (lb_flow_to_flow_id st)
                        flow_index flow_index) (\<lambda>m.
               Inr (st\<lparr>lb_flow_to_flow_id := m, lb_flow_heap := heap,
                      lb_flow_id_to_backend_id := assigned\<rparr>)))))) (\<lambda>st.
         rbind (vector_borrow (lb_backends st) backend_index) (\<lambda>vec_backend.
         Inr (st, vec_backend))))"

definition lb_get_backend ::
  "(u32 \<Rightarrow> u32 \<Rightarrow> u32) \<Rightarrow> lb_state \<Rightarrow> lb_flow \<Rightarrow> int \<Rightarrow> u16 \<Rightarrow> lb_backend \<Rightarrow>
     (lb_state \<times> lb_backend) result"
where
  "lb_get_backend crc st flow now wan_device backend =
     (case map_get crc (vector_mem lb_flow_bytes (lb_flow_heap st)) (lb_flow_to_flow_id st)
             (lb_flow_bytes flow) of
        None \<Rightarrow> lb_assign_backend crc st flow now wan_device backend
      | Some flow_index \<Rightarrow>
          rbind (vector_borrow (lb_flow_id_to_backend_id st) flow_index) (\<lambda>backend_index.
          rbind (dchain_is_index_allocated (lb_active_backends st) (sint backend_index)) (\<lambda>active.
          if \<not> active then
            rbind (vector_borrow (lb_flow_heap st) flow_index) (\<lambda>_.
            let st = st\<lparr>lb_flow_to_flow_id :=
                          fst (map_erase crc (vector_mem lb_flow_bytes (lb_flow_heap st))
                                 (lb_flow_to_flow_id st) (lb_flow_bytes flow))\<rparr> in
            rbind (dchain_free_index (lb_flow_chain st) flow_index) (\<lambda>(chain, _).
            lb_assign_backend crc (st\<lparr>lb_flow_chain := chain\<rparr>) flow now wan_device backend))
          else
            rbind (dchain_rejuvenate_index (lb_flow_chain st) flow_index now) (\<lambda>(chain, _).
            rbind (vector_borrow (lb_backends st) (sint backend_index)) (\<lambda>vec_backend.
            Inr (st\<lparr>lb_flow_chain := chain\<rparr>, vec_backend))))))"

definition lb_process_heartbit ::
  "(u32 \<Rightarrow> u32 \<Rightarrow> u32) \<Rightarrow> lb_state \<Rightarrow> lb_flow \<Rightarrow> ether_addr \<Rightarrow> u16 \<Rightarrow> int \<Rightarrow> lb_state result"
where
  "lb_process_heartbit crc st flow mac_addr nic now =
     (case map_get crc (vector_mem bytes32 (lb_backend_ips st)) (lb_ip_to_backend_id st)
             (bytes32 (lf_src_ip flow)) of
        None \<Rightarrow>
          rbind (dchain_allocate_new_index (lb_active_backends st) now) (\<lambda>(chain, allocated).
          let st = st\<lparr>lb_active_backends := chain\<rparr> in
          case allocated of
            None \<Rightarrow> Inr st
          | Some backend_index \<Rightarrow>
              rbind (vector_write (lb_backends st) backend_index
                       \<lparr>lb_nic = nic, lb_mac = mac_addr, lb_ip = lf_src_ip flow\<rparr>) (\<lambda>backend_list.
              rbind (vector_write (lb_backend_ips st) backend_index (lf_src_ip flow)) (\<lambda>ips.
              rbind (map_put crc (vector_mem bytes32 ips) (lb_ip_to_backend_id st)
                       backend_index backend_index) (\<lambda>m.
              Inr (st\<lparr>lb_backends := backend_list, lb_backend_ips := ips, lb_ip_to_backend_id := m\<rparr>)))))
      | Some backend_index \<Rightarrow>
          rbind (dchain_rejuvenate_index (lb_active_backends st) backend_index now) (\<lambda>(chain, _).
          Inr (st\<lparr>lb_active_backends := chain\<rparr>)))"

section \<open>Expiration\<close>

text \<open>The configured times are microseconds in a 64-bit integer.\<close>

definition lb_last_time :: "int \<Rightarrow> int \<Rightarrow> int" where
  "lb_last_time expiration_time time =
     sint ((word_of_int time :: u64) - word_of_int (expiration_time * 1000))"

definition lb_expire_flows ::
  "(u32 \<Rightarrow> u32 \<Rightarrow> u32) \<Rightarrow> int \<Rightarrow> lb_state \<Rightarrow> int \<Rightarrow> lb_state result option" where
  "lb_expire_flows crc flow_expiration_time st time =
     (if time < 0 then Some (Inl Assert_Failed)
      else map_option
        (\<lambda>r. rbind r (\<lambda>(chain, m, count). Inr (st\<lparr>lb_flow_chain := chain, lb_flow_to_flow_id := m\<rparr>)))
        (expire_items_single_map crc lb_flow_bytes (lb_flow_chain st) (lb_flow_heap st)
           (lb_flow_to_flow_id st) (lb_last_time flow_expiration_time time)))"

definition lb_expire_backends ::
  "(u32 \<Rightarrow> u32 \<Rightarrow> u32) \<Rightarrow> int \<Rightarrow> lb_state \<Rightarrow> int \<Rightarrow> lb_state result option" where
  "lb_expire_backends crc backend_expiration_time st time =
     (if time < 0 then Some (Inl Assert_Failed)
      else map_option
        (\<lambda>r. rbind r (\<lambda>(chain, m, count).
           Inr (st\<lparr>lb_active_backends := chain, lb_ip_to_backend_id := m\<rparr>)))
        (expire_items_single_map crc bytes32 (lb_active_backends st) (lb_backend_ips st)
           (lb_ip_to_backend_id st) (lb_last_time backend_expiration_time time)))"

section \<open>Packets\<close>

record lb_packet =
  lp_packet :: packet
  lp_ether_src :: ether_addr
  lp_ether_dst :: ether_addr

text \<open>The configuration, the two checksum routines, and what uninitialised memory holds.\<close>

record lb_env =
  le_crc :: "u32 \<Rightarrow> u32 \<Rightarrow> u32"
  le_ip_cksum :: "ipv4_hdr \<Rightarrow> u16"
  le_l4_cksum :: "ipv4_hdr \<Rightarrow> tcpudp_hdr \<Rightarrow> u16"
  le_wan_device :: u16
  le_device_macs :: "ether_addr list"
  le_flow_expiration_time :: int
  le_backend_expiration_time :: int
  le_padding :: "u8 \<times> u8 \<times> u8"
  le_backend :: lb_backend

definition lb_packet_flow :: "u8 \<times> u8 \<times> u8 \<Rightarrow> packet \<Rightarrow> lb_flow" where
  "lb_packet_flow padding p =
     \<lparr>lf_src_ip = ip_src_addr (pk_ip p), lf_dst_ip = ip_dst_addr (pk_ip p),
      lf_src_port = l4_src_port (pk_l4 p), lf_dst_port = l4_dst_port (pk_l4 p),
      lf_protocol = ip_next_proto_id (pk_ip p), lf_padding = padding\<rparr>"

definition lb_rewrite :: "lb_env \<Rightarrow> lb_packet \<Rightarrow> lb_backend \<Rightarrow> lb_packet result" where
  "lb_rewrite env lp backend =
     (let p = lp_packet lp; p = p\<lparr>pk_ip := (pk_ip p)\<lparr>ip_dst_addr := lb_ip backend\<rparr>\<rparr> in
      if unat (lb_nic backend) < length (le_device_macs env) then
        Inr (lp\<lparr>lp_packet := nf_set_ipv4_udptcp_checksum (le_ip_cksum env) (le_l4_cksum env) p,
               lp_ether_src := le_device_macs env ! unat (lb_nic backend),
               lp_ether_dst := lb_mac backend\<rparr>)
      else Inl Undefined)"

definition lb_dispatch ::
  "lb_env \<Rightarrow> lb_state \<Rightarrow> u16 \<Rightarrow> int \<Rightarrow> lb_packet \<Rightarrow> (lb_state \<times> lb_packet \<times> u16) result"
where
  "lb_dispatch env st device now lp =
     (let flow = lb_packet_flow (le_padding env) (lp_packet lp) in
      if device \<noteq> le_wan_device env then
        rbind (lb_process_heartbit (le_crc env) st flow (lp_ether_src lp) device now) (\<lambda>st.
        Inr (st, lp, DROP))
      else
        rbind (lb_get_backend (le_crc env) st flow now (le_wan_device env) (le_backend env)) (\<lambda>(st, backend).
        if lb_nic backend \<noteq> le_wan_device env then
          rbind (lb_rewrite env lp backend) (\<lambda>lp. Inr (st, lp, lb_nic backend))
        else Inr (st, lp, lb_nic backend)))"

definition lb_handle ::
  "lb_env \<Rightarrow> lb_state \<Rightarrow> u16 \<Rightarrow> int \<Rightarrow> lb_packet \<Rightarrow> (lb_state \<times> lb_packet \<times> u16) result"
where
  "lb_handle env st device now lp =
     rbind (nf_then_get_ether_header (lp_packet lp)) (\<lambda>p.
     rbind (nf_then_get_ipv4_header p) (\<lambda>ip. case ip of
       None \<Rightarrow> Inr (st, lp\<lparr>lp_packet := p\<rparr>, DROP)
     | Some p \<Rightarrow>
     rbind (nf_then_get_tcpudp_header p) (\<lambda>l4. case l4 of
       None \<Rightarrow> Inr (st, lp\<lparr>lp_packet := p\<rparr>, DROP)
     | Some p \<Rightarrow> lb_dispatch env st device now (lp\<lparr>lp_packet := p\<rparr>))))"

definition lb_process ::
  "lb_env \<Rightarrow> lb_state \<Rightarrow> u16 \<Rightarrow> int \<Rightarrow> lb_packet \<Rightarrow> (lb_state \<times> lb_packet \<times> u16) result option"
where
  "lb_process env st device now lp =
     (case lb_expire_flows (le_crc env) (le_flow_expiration_time env) st now of
        None \<Rightarrow> None
      | Some (Inl e) \<Rightarrow> Some (Inl e)
      | Some (Inr st) \<Rightarrow>
          map_option (\<lambda>r. rbind r (\<lambda>st. lb_handle env st device now lp))
            (lb_expire_backends (le_crc env) (le_backend_expiration_time env) st now))"

section \<open>The invariant\<close>

lemma lb_flow_bytes_length [simp]: "length (lb_flow_bytes f) = 16"
  by (simp add: lb_flow_bytes_def split: prod.splits)

lemma lb_flow_bytes_inj: "lb_flow_bytes f = lb_flow_bytes g \<Longrightarrow> f = g"
  by (cases f; cases g) (simp add: lb_flow_bytes_def split: prod.splits)

interpretation lb_flows: nf_flows crc capacity 16 lb_flow_bytes for crc capacity
  by unfold_locales (simp add: lb_flow_bytes_inj)

interpretation lb_pool: nf_flows crc capacity 4 bytes32 for crc capacity
  by unfold_locales simp

abbreviation lb_flow_at :: "lb_state \<Rightarrow> int \<Rightarrow> lb_flow" where
  "lb_flow_at st i \<equiv> vec_data (lb_flow_heap st) ! nat i"

text \<open>The number of the backend that a flow was assigned to.\<close>

definition lb_assigned :: "lb_state \<Rightarrow> int \<Rightarrow> int" where
  "lb_assigned st i = sint (vec_data (lb_flow_id_to_backend_id st) ! nat i)"

abbreviation lb_backend_at :: "lb_state \<Rightarrow> int \<Rightarrow> lb_backend" where
  "lb_backend_at st b \<equiv> vec_data (lb_backends st) ! nat b"

definition lb_flows_wf :: "lb_env \<Rightarrow> u32 \<Rightarrow> lb_state \<Rightarrow> aged \<Rightarrow> int list \<Rightarrow> bool" where
  "lb_flows_wf env n st L F \<longleftrightarrow>
     table_flows chain_rep (map_rep (le_crc env) n 16) (unat n) lb_flow_bytes
       (lb_flow_chain st) (lb_flow_heap st) (lb_flow_to_flow_id st) L F \<and>
     length (vec_data (lb_flow_heap st)) = unat n \<and>
     length (vec_data (lb_flow_id_to_backend_id st)) = unat n \<and>
     (\<forall>i \<in> set (ids L). 0 \<le> lb_assigned st i \<and> lb_assigned st i < int (unat (lb_backend_capacity st)))"

definition lb_pool_wf :: "lb_env \<Rightarrow> lb_state \<Rightarrow> aged \<Rightarrow> int list \<Rightarrow> bool" where
  "lb_pool_wf env st B G \<longleftrightarrow>
     table_flows chain_rep (map_rep (le_crc env) (lb_backend_capacity st) 4)
       (unat (lb_backend_capacity st)) bytes32
       (lb_active_backends st) (lb_backend_ips st) (lb_ip_to_backend_id st) B G \<and>
     length (vec_data (lb_backend_ips st)) = unat (lb_backend_capacity st) \<and>
     length (vec_data (lb_backends st)) = unat (lb_backend_capacity st) \<and>
     cht_filled (unat (lb_cht_height st)) (unat (lb_backend_capacity st)) (lb_cht st) \<and>
     (\<forall>b \<in> set (ids B). lb_nic (lb_backend_at st b) \<noteq> le_wan_device env \<and>
        unat (lb_nic (lb_backend_at st b)) < length (le_device_macs env))"

definition lb_wf ::
  "lb_env \<Rightarrow> u32 \<Rightarrow> lb_state \<Rightarrow> aged \<Rightarrow> int list \<Rightarrow> aged \<Rightarrow> int list \<Rightarrow> bool" where
  "lb_wf env n st L F B G \<longleftrightarrow> lb_flows_wf env n st L F \<and> lb_pool_wf env st B G"

text \<open>The two halves of the state, which the operations change separately.\<close>

definition same_pool :: "lb_state \<Rightarrow> lb_state \<Rightarrow> bool" where
  "same_pool st st' \<longleftrightarrow>
     lb_ip_to_backend_id st' = lb_ip_to_backend_id st \<and> lb_backend_ips st' = lb_backend_ips st \<and>
     lb_backends st' = lb_backends st \<and> lb_active_backends st' = lb_active_backends st \<and>
     lb_cht st' = lb_cht st \<and> lb_backend_capacity st' = lb_backend_capacity st \<and>
     lb_cht_height st' = lb_cht_height st"

definition same_flows :: "lb_state \<Rightarrow> lb_state \<Rightarrow> bool" where
  "same_flows st st' \<longleftrightarrow>
     lb_flow_to_flow_id st' = lb_flow_to_flow_id st \<and> lb_flow_heap st' = lb_flow_heap st \<and>
     lb_flow_chain st' = lb_flow_chain st \<and>
     lb_flow_id_to_backend_id st' = lb_flow_id_to_backend_id st \<and>
     lb_backend_capacity st' = lb_backend_capacity st"

lemma same_pool_refl [simp]: "same_pool st st"
  and same_flows_refl [simp]: "same_flows st st"
  by (simp_all add: same_pool_def same_flows_def)

lemma same_pool_trans: "same_pool a b \<Longrightarrow> same_pool b c \<Longrightarrow> same_pool a c"
  by (simp add: same_pool_def)

lemma same_pool_wf: "same_pool st st' \<Longrightarrow> lb_pool_wf env st' B G = lb_pool_wf env st B G"
  by (simp add: same_pool_def lb_pool_wf_def)

lemma same_flows_wf: "same_flows st st' \<Longrightarrow> lb_flows_wf env n st' L F = lb_flows_wf env n st L F"
  by (simp add: same_flows_def lb_flows_wf_def lb_assigned_def)

lemma same_flows_at:
  "same_flows st st' \<Longrightarrow> lb_flow_at st' i = lb_flow_at st i \<and> lb_assigned st' i = lb_assigned st i"
  by (simp add: same_flows_def lb_assigned_def)

lemma lb_flows_wfD:
  "lb_flows_wf env n st L F \<Longrightarrow>
     table_flows chain_rep (map_rep (le_crc env) n 16) (unat n) lb_flow_bytes
       (lb_flow_chain st) (lb_flow_heap st) (lb_flow_to_flow_id st) L F"
  by (simp add: lb_flows_wf_def)

lemma lb_pool_wfD:
  "lb_pool_wf env st B G \<Longrightarrow>
     table_flows chain_rep (map_rep (le_crc env) (lb_backend_capacity st) 4)
       (unat (lb_backend_capacity st)) bytes32
       (lb_active_backends st) (lb_backend_ips st) (lb_ip_to_backend_id st) B G"
  by (simp add: lb_pool_wf_def)

lemma lb_pool_backends:
  assumes "lb_pool_wf env st B G"
  shows "backends (unat (lb_backend_capacity st)) (lb_active_backends st) B"
    "set (ids B @ G) = {0..<int (unat (lb_backend_capacity st))}"
    "chain_rep (lb_active_backends st) B G"
    "unat (lb_backend_capacity st) < 2 ^ 31"
proof -
  have t: "chain_rep (lb_active_backends st) B G"
    "set (ids B @ G) = {0..<int (unat (lb_backend_capacity st))}"
    and c: "cht_filled (unat (lb_cht_height st)) (unat (lb_backend_capacity st)) (lb_cht st)"
    using assms by (simp_all add: lb_pool_wf_def table_flows_def)
  then show "chain_rep (lb_active_backends st) B G"
    "set (ids B @ G) = {0..<int (unat (lb_backend_capacity st))}" by simp_all
  from t show "backends (unat (lb_backend_capacity st)) (lb_active_backends st) B"
    unfolding backends_def by (metis set_append)
  have "unat (lb_backend_capacity st) * 1 \<le> unat (lb_backend_capacity st) * unat (lb_cht_height st)"
    using c by (intro mult_le_mono2) (simp add: cht_filled_def)
  also have "\<dots> < 2 ^ 31" using c by (simp add: cht_filled_def)
  finally show "unat (lb_backend_capacity st) < 2 ^ 31" by simp
qed

lemma lb_backend_range:
  assumes "lb_pool_wf env st B G" "b \<in> set (ids B @ G)"
  shows "0 \<le> b" "b < int (unat (lb_backend_capacity st))"
    "vector_borrow (lb_backends st) b = Inr (lb_backend_at st b)"
    "sint (word_of_int b :: u32) = b"
proof -
  show b: "0 \<le> b" "b < int (unat (lb_backend_capacity st))"
    using lb_pool_backends(2) [OF assms(1)] assms(2) by auto
  then show "vector_borrow (lb_backends st) b = Inr (lb_backend_at st b)"
    using assms(1) by (simp add: lb_pool_wf_def vector_write_in)
  have "int (unat (lb_backend_capacity st)) < 2 ^ 31"
    using lb_pool_backends(4) [OF assms(1)] by (simp only: zless_nat_eq_int_zless of_nat_less_numeral_power_cancel_iff)
  with b(2) have "b < 2 ^ 31" by linarith
  then have "sint (word_of_int b :: u32) = signed_take_bit 31 b"
    by (simp only: sint_sbintrunc' len_num1) simp
  also have "\<dots> = b"
    by (rule signed_take_bit_int_eq_self) (use b \<open>b < 2 ^ 31\<close> in simp_all)
  finally show "sint (word_of_int b :: u32) = b" .
qed

lemma lb_flow_range:
  assumes "lb_flows_wf env n st L F" "i \<in> set (ids L @ F)"
  shows "0 \<le> i" "i < int (length (vec_data (lb_flow_heap st)))"
    "i < int (length (vec_data (lb_flow_id_to_backend_id st)))"
proof -
  show i: "0 \<le> i" "i < int (length (vec_data (lb_flow_heap st)))"
    using lb_flows.tab.flows_range [OF lb_flows_wfD [OF assms(1)] assms(2)] .
  then show "i < int (length (vec_data (lb_flow_id_to_backend_id st)))"
    using assms(1) by (simp add: lb_flows_wf_def)
qed

section \<open>Assigning a backend\<close>

lemma lb_enter_flow:
  assumes wf: "lb_flows_wf env n st L (f # F)" and new: "\<forall>i \<in> set (ids L). lb_flow_at st i \<noteq> flow"
    and b: "0 \<le> b" "b < int (unat (lb_backend_capacity st))" "sint (word_of_int b :: u32) = b"
  obtains chain heap m where
    "dchain_allocate_new_index (lb_flow_chain st) now = Inr (chain, Some f)"
    "vector_write (lb_flow_heap st) f flow = Inr heap"
    "vector_write (lb_flow_id_to_backend_id st) f (word_of_int b) =
       Inr ((lb_flow_id_to_backend_id st)\<lparr>vec_data :=
         (vec_data (lb_flow_id_to_backend_id st))[nat f := word_of_int b]\<rparr>)"
    "map_put (le_crc env) (vector_mem lb_flow_bytes heap) (lb_flow_to_flow_id st) f f = Inr m"
    "lb_flows_wf env n (st\<lparr>lb_flow_chain := chain, lb_flow_to_flow_id := m, lb_flow_heap := heap,
       lb_flow_id_to_backend_id := (lb_flow_id_to_backend_id st)\<lparr>vec_data :=
         (vec_data (lb_flow_id_to_backend_id st))[nat f := word_of_int b]\<rparr>\<rparr>) (L @ [(f, now)]) F"
    "vec_data heap ! nat f = flow"
proof -
  let ?heap = "(lb_flow_heap st)\<lparr>vec_data := (vec_data (lb_flow_heap st))[nat f := flow]\<rparr>"
    and ?as = "(lb_flow_id_to_backend_id st)\<lparr>vec_data :=
      (vec_data (lb_flow_id_to_backend_id st))[nat f := word_of_int b]\<rparr>"
  from lb_flows.tab.insert_flow [OF lb_flows_wfD [OF wf] new, of now] obtain chain m where
    ins: "dchain_allocate_new_index (lb_flow_chain st) now = Inr (chain, Some f)"
    "vector_write (lb_flow_heap st) f flow = Inr ?heap"
    "map_put (le_crc env) (vector_mem lb_flow_bytes ?heap) (lb_flow_to_flow_id st) f f = Inr m"
    "table_flows chain_rep (map_rep (le_crc env) n 16) (unat n) lb_flow_bytes chain ?heap m
       (L @ [(f, now)]) F" by blast
  note r = lb_flow_range [OF wf, of f]
  have n: "nat f < length (vec_data (lb_flow_heap st))"
    "nat f < length (vec_data (lb_flow_id_to_backend_id st))"
    using r by (simp_all add: nat_less_iff)
  have fresh: "nat i \<noteq> nat f" if "i \<in> set (ids L)" for i
  proof -
    have "distinct (ids L @ f # F)"
      by (rule chain.rep_distinct [of "lb_flow_chain st"]) (use wf in \<open>simp add: lb_flows_wf_def table_flows_def\<close>)
    then have "i \<noteq> f" using that by auto
    then show ?thesis using r(1) lb_flow_range(1) [OF wf, of i] that by (simp add: nat_eq_iff2)
  qed
  let ?st = "st\<lparr>lb_flow_chain := chain, lb_flow_to_flow_id := m, lb_flow_heap := ?heap,
    lb_flow_id_to_backend_id := ?as\<rparr>"
  have "lb_assigned ?st i = lb_assigned st i" if "i \<in> set (ids L)" for i
  proof -
    have "(vec_data (lb_flow_id_to_backend_id st))[nat f := word_of_int b] ! nat i
        = vec_data (lb_flow_id_to_backend_id st) ! nat i"
      by (rule nth_list_update_neq) (use fresh [OF that] in metis)
    then show ?thesis by (simp add: lb_assigned_def)
  qed
  moreover have "lb_assigned ?st f = b" using n b(3) by (simp add: lb_assigned_def)
  ultimately have "lb_flows_wf env n ?st (L @ [(f, now)]) F"
    using ins(4) wf b(1,2) by (auto simp: lb_flows_wf_def)
  with ins n r(3) show thesis
    by (intro that [of chain ?heap m]) (simp_all add: vector_write_in r(1))
qed

lemma lb_assign_cases:
  assumes wf: "lb_wf env n st L F B G" and new: "\<forall>i \<in> set (ids L). lb_flow_at st i \<noteq> flow"
  obtains
    (none) "B = []"
      "lb_assign_backend (le_crc env) st flow now wan backend = Inr (st, backend\<lparr>lb_nic := wan\<rparr>)"
  | (some) b st' L' F' where "b \<in> set (ids B)"
      "lb_assign_backend (le_crc env) st flow now wan backend = Inr (st', lb_backend_at st b)"
      "lb_wf env n st' L' F' B G" "same_pool st st'"
      "F \<noteq> [] \<longrightarrow> (\<exists>i. L' = L @ [(i, now)] \<and> lb_flow_at st' i = flow \<and> lb_assigned st' i = b)"
proof -
  have fw: "lb_flows_wf env n st L F" and pw: "lb_pool_wf env st B G" using wf by (simp_all add: lb_wf_def)
  let ?hash = "ucast (hash_obj (le_crc env) (lb_flow_bytes flow) 16) :: u64"
  have "cht_filled (unat (lb_cht_height st)) (unat (lb_backend_capacity st)) (lb_cht st)"
    using pw by (simp add: lb_pool_wf_def)
  from cht_find_cases [OF this lb_pool_backends(1) [OF pw] refl refl, of ?hash]
  consider "B = []" "cht_find_preferred_available_backend ?hash (lb_cht st) (lb_active_backends st)
      (lb_cht_height st) (lb_backend_capacity st) = Inr None"
    | b where "b \<in> set (ids B)" "cht_find_preferred_available_backend ?hash (lb_cht st)
      (lb_active_backends st) (lb_cht_height st) (lb_backend_capacity st) = Inr (Some b)" by blast
  then show thesis
  proof cases
    case 1
    then show thesis by (intro none) (simp_all add: lb_assign_backend_def)
  next
    case (2 b)
    then have bG: "b \<in> set (ids B @ G)" by simp
    note r = lb_backend_range [OF pw bG]
    show thesis
    proof (cases F)
      case Nil
      from lb_flows.tab.insert_full [OF lb_flows_wfD [OF fw [unfolded Nil]], of now] obtain chain where
        c: "dchain_allocate_new_index (lb_flow_chain st) now = Inr (chain, None)"
        "table_flows chain_rep (map_rep (le_crc env) n 16) (unat n) lb_flow_bytes
          chain (lb_flow_heap st) (lb_flow_to_flow_id st) L []" by blast
      let ?st = "st\<lparr>lb_flow_chain := chain\<rparr>"
      have sp: "same_pool st ?st" by (simp add: same_pool_def)
      have "lb_flows_wf env n ?st L []"
        using fw c(2) by (simp add: lb_flows_wf_def lb_assigned_def)
      then have "lb_wf env n ?st L [] B G" using pw same_pool_wf [OF sp] by (simp add: lb_wf_def)
      with 2 c(1) r(3) sp Nil show thesis
        by (intro some [of b ?st L "[]"]) (simp_all add: lb_assign_backend_def Let_def)
    next
      case (Cons f F')
      obtain chain heap m where e:
        "dchain_allocate_new_index (lb_flow_chain st) now = Inr (chain, Some f)"
        "vector_write (lb_flow_heap st) f flow = Inr heap"
        "vector_write (lb_flow_id_to_backend_id st) f (word_of_int b) =
           Inr ((lb_flow_id_to_backend_id st)\<lparr>vec_data :=
             (vec_data (lb_flow_id_to_backend_id st))[nat f := word_of_int b]\<rparr>)"
        "map_put (le_crc env) (vector_mem lb_flow_bytes heap) (lb_flow_to_flow_id st) f f = Inr m"
        "lb_flows_wf env n (st\<lparr>lb_flow_chain := chain, lb_flow_to_flow_id := m, lb_flow_heap := heap,
           lb_flow_id_to_backend_id := (lb_flow_id_to_backend_id st)\<lparr>vec_data :=
             (vec_data (lb_flow_id_to_backend_id st))[nat f := word_of_int b]\<rparr>\<rparr>) (L @ [(f, now)]) F'"
        "vec_data heap ! nat f = flow"
        by (rule lb_enter_flow [OF fw [unfolded Cons] new r(1,2,4)])
      let ?st = "st\<lparr>lb_flow_chain := chain, lb_flow_to_flow_id := m, lb_flow_heap := heap,
           lb_flow_id_to_backend_id := (lb_flow_id_to_backend_id st)\<lparr>vec_data :=
             (vec_data (lb_flow_id_to_backend_id st))[nat f := word_of_int b]\<rparr>\<rparr>"
      have sp: "same_pool st ?st" by (simp add: same_pool_def)
      then have wf': "lb_wf env n ?st (L @ [(f, now)]) F' B G"
        using pw e(5) same_pool_wf [OF sp] by (simp add: lb_wf_def)
      have "nat f < length (vec_data (lb_flow_id_to_backend_id st))"
        using lb_flow_range(1,3) [OF fw, of f] Cons by (simp add: nat_less_iff)
      then have "lb_assigned ?st f = b" using r(4) by (simp add: lb_assigned_def)
      with 2 e(1-4,6) r(3) sp wf' show thesis
        by (intro some [of b ?st "L @ [(f, now)]" F']) (simp_all add: lb_assign_backend_def Let_def)
    qed
  qed
qed

section \<open>Looking a flow up\<close>

lemma lb_drop_flow:
  assumes wf: "lb_flows_wf env n st L F" and i: "i \<in> set (ids L)" "lb_flow_at st i = flow"
  obtains chain m where "dchain_free_index (lb_flow_chain st) i = Inr (chain, True)"
    "fst (map_erase (le_crc env) (vector_mem lb_flow_bytes (lb_flow_heap st)) (lb_flow_to_flow_id st)
       (lb_flow_bytes flow)) = m"
    "lb_flows_wf env n (st\<lparr>lb_flow_to_flow_id := m, lb_flow_chain := chain\<rparr>) (forget i L) (i # F)"
proof -
  note t = lb_flows_wfD [OF wf]
  have "chain_rep (lb_flow_chain st) L F" using t by (simp add: table_flows_def)
  from chain.free_allocated [OF this i(1)] obtain chain where
    c: "dchain_free_index (lb_flow_chain st) i = Inr (chain, True)" "chain_rep chain (forget i L) (i # F)"
    by blast
  from lb_flows.tab.drop_flow [OF t i(1) c(2)] obtain m where
    m: "map_erase (le_crc env) (vector_mem lb_flow_bytes (lb_flow_heap st)) (lb_flow_to_flow_id st)
       (lb_flow_bytes flow) = (m, Some i)"
    "table_flows chain_rep (map_rep (le_crc env) n 16) (unat n) lb_flow_bytes
       chain (lb_flow_heap st) m (forget i L) (i # F)" using i(2) by blast
  then have "lb_flows_wf env n (st\<lparr>lb_flow_to_flow_id := m, lb_flow_chain := chain\<rparr>) (forget i L) (i # F)"
    using wf by (auto simp: lb_flows_wf_def lb_assigned_def)
  with c(1) m(1) show thesis by (intro that) simp_all
qed

text \<open>
  The server of a flow: the one it was assigned to while that one is active, otherwise an
  active one, and the assignment is remembered when the table has room.
\<close>

lemma lb_get_backend_cases:
  assumes wf: "lb_wf env n st L F B G"
  obtains
    (none) st' L' F' where "B = []" "lb_wf env n st' L' F' B G" "same_pool st st'"
      "lb_get_backend (le_crc env) st flow now wan backend = Inr (st', backend\<lparr>lb_nic := wan\<rparr>)"
  | (some) b st' L' F' where "b \<in> set (ids B)" "lb_wf env n st' L' F' B G" "same_pool st st'"
      "lb_get_backend (le_crc env) st flow now wan backend = Inr (st', lb_backend_at st b)"
      "F \<noteq> [] \<longrightarrow> (\<exists>A i. L' = A @ [(i, now)] \<and> lb_flow_at st' i = flow \<and> lb_assigned st' i = b)"
      "\<forall>i \<in> set (ids L). lb_flow_at st i = flow \<and> lb_assigned st i \<in> set (ids B) \<longrightarrow> b = lb_assigned st i"
proof -
  have fw: "lb_flows_wf env n st L F" and pw: "lb_pool_wf env st B G" using wf by (simp_all add: lb_wf_def)
  note t = lb_flows_wfD [OF fw]
  show thesis
  proof (cases "\<exists>i \<in> set (ids L). lb_flow_at st i = flow")
    case False
    then have new: "\<forall>i \<in> set (ids L). lb_flow_at st i \<noteq> flow" by blast
    have g: "map_get (le_crc env) (vector_mem lb_flow_bytes (lb_flow_heap st)) (lb_flow_to_flow_id st)
        (lb_flow_bytes flow) = None"
      using lb_flows.tab.get_flow_None [OF t, of flow] new by simp
    show thesis
    proof (rule lb_assign_cases [OF wf new, of now wan backend])
      assume "B = []"
        "lb_assign_backend (le_crc env) st flow now wan backend = Inr (st, backend\<lparr>lb_nic := wan\<rparr>)"
      with wf g show thesis by (intro none [of st L F]) (simp_all add: lb_get_backend_def)
    next
      fix b st' L' F' assume "b \<in> set (ids B)"
        "lb_assign_backend (le_crc env) st flow now wan backend = Inr (st', lb_backend_at st b)"
        "lb_wf env n st' L' F' B G" "same_pool st st'"
        "F \<noteq> [] \<longrightarrow> (\<exists>i. L' = L @ [(i, now)] \<and> lb_flow_at st' i = flow \<and> lb_assigned st' i = b)"
      with g new show thesis by (intro some [of b st' L' F']) (auto simp: lb_get_backend_def)
    qed
  next
    case True
    then obtain i where i: "i \<in> set (ids L)" "lb_flow_at st i = flow" by blast
    have g: "map_get (le_crc env) (vector_mem lb_flow_bytes (lb_flow_heap st)) (lb_flow_to_flow_id st)
        (lb_flow_bytes flow) = Some i"
      using lb_flows.tab.get_flow [OF t, of flow i] i by simp
    have only: "j = i" if "j \<in> set (ids L)" "lb_flow_at st j = flow" for j
      using lb_flows.tab.flows_keys_distinct [OF t that(1) i(1)] that(2) i(2) by simp
    have iLF: "i \<in> set (ids L @ F)" using i(1) by simp
    note r = lb_flow_range [OF fw iLF]
    have bor: "vector_borrow (lb_flow_id_to_backend_id st) i =
        Inr (vec_data (lb_flow_id_to_backend_id st) ! nat i)"
      "vector_borrow (lb_flow_heap st) i = Inr (lb_flow_at st i)"
      using r by (simp_all add: vector_write_in)
    have "0 \<le> lb_assigned st i" "lb_assigned st i < int (unat (lb_backend_capacity st))"
      using fw i(1) unfolding lb_flows_wf_def by blast+
    then have ind: "lb_assigned st i \<in> set (ids B @ G)" using lb_pool_backends(2) [OF pw] by simp
    from chain.allocated_iff [OF lb_pool_backends(3) [OF pw] this]
    have act: "dchain_is_index_allocated (lb_active_backends st)
        (sint (vec_data (lb_flow_id_to_backend_id st) ! nat i)) = Inr (lb_assigned st i \<in> set (ids B))"
      by (simp only: lb_assigned_def)
    show thesis
    proof (cases "lb_assigned st i \<in> set (ids B)")
      case True
      from lb_flows.tab.rejuvenate_flow [OF t i(1), of now] obtain chain where
        c: "dchain_rejuvenate_index (lb_flow_chain st) i now = Inr (chain, True)"
        "table_flows chain_rep (map_rep (le_crc env) n 16) (unat n) lb_flow_bytes
          chain (lb_flow_heap st) (lb_flow_to_flow_id st) (forget i L @ [(i, now)]) F" by blast
      let ?st = "st\<lparr>lb_flow_chain := chain\<rparr>"
      have sp: "same_pool st ?st" by (simp add: same_pool_def)
      have "lb_flows_wf env n ?st (forget i L @ [(i, now)]) F"
        using fw c(2) i(1) by (auto simp: lb_flows_wf_def lb_assigned_def)
      then have wf': "lb_wf env n ?st (forget i L @ [(i, now)]) F B G"
        using pw same_pool_wf [OF sp] by (simp add: lb_wf_def)
      have "lb_get_backend (le_crc env) st flow now wan backend =
          Inr (?st, lb_backend_at st (lb_assigned st i))"
        using g bor(1) act True c(1) lb_backend_range(3) [OF pw ind]
        by (simp add: lb_get_backend_def lb_assigned_def)
      moreover have "lb_flow_at ?st i = flow" "lb_assigned ?st i = lb_assigned st i"
        using i(2) by (simp_all add: lb_assigned_def)
      ultimately show thesis
        using True wf' sp only by (intro some [of "lb_assigned st i" ?st "forget i L @ [(i, now)]" F]) blast+
    next
      case False
      obtain chain m where d: "dchain_free_index (lb_flow_chain st) i = Inr (chain, True)"
        "fst (map_erase (le_crc env) (vector_mem lb_flow_bytes (lb_flow_heap st)) (lb_flow_to_flow_id st)
           (lb_flow_bytes flow)) = m"
        "lb_flows_wf env n (st\<lparr>lb_flow_to_flow_id := m, lb_flow_chain := chain\<rparr>) (forget i L) (i # F)"
        by (rule lb_drop_flow [OF fw i])
      let ?st = "st\<lparr>lb_flow_to_flow_id := m, lb_flow_chain := chain\<rparr>"
      have sp: "same_pool st ?st" by (simp add: same_pool_def)
      have wf1: "lb_wf env n ?st (forget i L) (i # F) B G"
        using pw d(3) same_pool_wf [OF sp] by (simp add: lb_wf_def)
      have "lb_flow_at ?st j \<noteq> flow" if "j \<in> set (ids (forget i L))" for j
      proof -
        have "j \<in> set (ids L)" "j \<noteq> i" using that by auto
        then show ?thesis using only [of j] by auto
      qed
      then have new: "\<forall>j \<in> set (ids (forget i L)). lb_flow_at ?st j \<noteq> flow" by blast
      have run: "lb_get_backend (le_crc env) st flow now wan backend =
          lb_assign_backend (le_crc env) ?st flow now wan backend"
        using g bor act False d(1,2) by (simp add: lb_get_backend_def Let_def)
      show thesis
      proof (rule lb_assign_cases [OF wf1 new, of now wan backend])
        assume "B = []"
          "lb_assign_backend (le_crc env) ?st flow now wan backend = Inr (?st, backend\<lparr>lb_nic := wan\<rparr>)"
        with wf1 run sp show thesis by (intro none [of ?st "forget i L" "i # F"]) simp_all
      next
        fix b st' L' F' assume a: "b \<in> set (ids B)"
          "lb_assign_backend (le_crc env) ?st flow now wan backend = Inr (st', lb_backend_at ?st b)"
          "lb_wf env n st' L' F' B G" "same_pool ?st st'"
          "i # F \<noteq> [] \<longrightarrow> (\<exists>j. L' = forget i L @ [(j, now)] \<and> lb_flow_at st' j = flow \<and> lb_assigned st' j = b)"
        have "\<forall>j \<in> set (ids L). lb_flow_at st j = flow \<and> lb_assigned st j \<in> set (ids B) \<longrightarrow> b = lb_assigned st j"
          using only False by blast
        with a run same_pool_trans [OF sp a(4)] show thesis
          by (intro some [of b st' L' F']) auto
      qed
    qed
  qed
qed

section \<open>Heartbeats\<close>

lemma lb_enter_backend:
  fixes mac :: ether_addr
  assumes wf: "lb_pool_wf env st B (f # G)" and new: "\<forall>b \<in> set (ids B). vec_data (lb_backend_ips st) ! nat b \<noteq> ip"
    and nic: "nic \<noteq> le_wan_device env" "unat nic < length (le_device_macs env)"
  defines "bs \<equiv> (lb_backends st)\<lparr>vec_data :=
      (vec_data (lb_backends st))[nat f := \<lparr>lb_nic = nic, lb_mac = mac, lb_ip = ip\<rparr>]\<rparr>"
    and "ips \<equiv> (lb_backend_ips st)\<lparr>vec_data := (vec_data (lb_backend_ips st))[nat f := ip]\<rparr>"
  obtains chain m where
    "dchain_allocate_new_index (lb_active_backends st) now = Inr (chain, Some f)"
    "vector_write (lb_backends st) f \<lparr>lb_nic = nic, lb_mac = mac, lb_ip = ip\<rparr> = Inr bs"
    "vector_write (lb_backend_ips st) f ip = Inr ips"
    "map_put (le_crc env) (vector_mem bytes32 ips) (lb_ip_to_backend_id st) f f = Inr m"
    "lb_pool_wf env (st\<lparr>lb_active_backends := chain, lb_backends := bs, lb_backend_ips := ips,
       lb_ip_to_backend_id := m\<rparr>) (B @ [(f, now)]) G"
    "\<forall>b \<in> set (ids B). vec_data bs ! nat b = lb_backend_at st b"
proof -
  let ?b = "\<lparr>lb_nic = nic, lb_mac = mac, lb_ip = ip\<rparr>"
  from lb_pool.tab.insert_flow [OF lb_pool_wfD [OF wf] new, of now] obtain chain m where
    ins: "dchain_allocate_new_index (lb_active_backends st) now = Inr (chain, Some f)"
    "vector_write (lb_backend_ips st) f ip = Inr ips"
    "map_put (le_crc env) (vector_mem bytes32 ips) (lb_ip_to_backend_id st) f f = Inr m"
    "table_flows chain_rep (map_rep (le_crc env) (lb_backend_capacity st) 4)
       (unat (lb_backend_capacity st)) bytes32 chain ips m (B @ [(f, now)]) G"
    unfolding ips_def by blast
  have fr: "0 \<le> f" "f < int (unat (lb_backend_capacity st))"
    using lb_backend_range(1,2) [OF wf, of f] by simp_all
  have len: "length (vec_data (lb_backends st)) = unat (lb_backend_capacity st)"
    "length (vec_data (lb_backend_ips st)) = unat (lb_backend_capacity st)"
    using wf by (simp_all add: lb_pool_wf_def)
  have n: "nat f < length (vec_data (lb_backends st))"
    using fr by (simp only: len nat_less_iff)
  have fresh: "nat b \<noteq> nat f" if "b \<in> set (ids B)" for b
  proof -
    have "distinct (ids B @ f # G)" by (rule chain.rep_distinct [OF lb_pool_backends(3) [OF wf]])
    then have "b \<noteq> f" using that by auto
    then show ?thesis using fr(1) lb_backend_range(1) [OF wf, of b] that by (simp add: nat_eq_iff2)
  qed
  have old: "vec_data bs ! nat b = lb_backend_at st b" if "b \<in> set (ids B)" for b
    unfolding bs_def by simp (rule nth_list_update_neq, use fresh [OF that] in metis)
  have "vec_data bs ! nat f = ?b" using n by (simp add: bs_def)
  then have "lb_pool_wf env (st\<lparr>lb_active_backends := chain, lb_backends := bs, lb_backend_ips := ips,
       lb_ip_to_backend_id := m\<rparr>) (B @ [(f, now)]) G"
    using ins(4) wf nic old by (auto simp: lb_pool_wf_def bs_def ips_def)
  moreover have "vector_write (lb_backends st) f ?b = Inr bs"
    using fr len(1) by (simp add: vector_write_in bs_def)
  ultimately show thesis using ins(1-3) old by (intro that) simp_all
qed

text \<open>
  A heartbeat keeps every server active, the one it is from with a later time, and adds its
  server when that one is new and there is room; the flows are not touched.
\<close>

lemma lb_heartbit_cases:
  assumes wf: "lb_pool_wf env st B G"
    and nic: "nic \<noteq> le_wan_device env" "unat nic < length (le_device_macs env)"
  obtains st' B' G' where "lb_process_heartbit (le_crc env) st flow mac nic now = Inr st'"
    "lb_pool_wf env st' B' G'" "same_flows st st'"
    "\<forall>b \<in> set (ids B). lb_backend_at st' b = lb_backend_at st b"
    "\<forall>b s. (b, s) \<in> set B \<longrightarrow> (b, s) \<in> set B' \<or> (b, now) \<in> set B'"
    "\<forall>b s. (b, s) \<in> set B' \<longrightarrow> (b, s) \<in> set B \<or> s = now"
    "G \<noteq> [] \<longrightarrow> (\<exists>b. (b, now) \<in> set B' \<and> vec_data (lb_backend_ips st') ! nat b = lf_src_ip flow)"
proof -
  let ?ip = "lf_src_ip flow"
  note t = lb_pool_wfD [OF wf]
  show thesis
  proof (cases "\<exists>b \<in> set (ids B). vec_data (lb_backend_ips st) ! nat b = ?ip")
    case True
    then obtain b where b: "b \<in> set (ids B)" "vec_data (lb_backend_ips st) ! nat b = ?ip" by blast
    have g: "map_get (le_crc env) (vector_mem bytes32 (lb_backend_ips st)) (lb_ip_to_backend_id st)
        (bytes32 ?ip) = Some b"
      using lb_pool.tab.get_flow [OF t, of ?ip b] b by simp
    from lb_pool.tab.rejuvenate_flow [OF t b(1), of now] obtain chain where
      c: "dchain_rejuvenate_index (lb_active_backends st) b now = Inr (chain, True)"
      "table_flows chain_rep (map_rep (le_crc env) (lb_backend_capacity st) 4)
         (unat (lb_backend_capacity st)) bytes32 chain (lb_backend_ips st) (lb_ip_to_backend_id st)
         (forget b B @ [(b, now)]) G" by blast
    let ?st = "st\<lparr>lb_active_backends := chain\<rparr>"
    have "lb_pool_wf env ?st (forget b B @ [(b, now)]) G"
      using wf c(2) b(1) by (auto simp: lb_pool_wf_def)
    then show thesis
      using g c(1) b(2)
      by (intro that [of ?st "forget b B @ [(b, now)]" G])
        (auto simp: lb_process_heartbit_def same_flows_def)
  next
    case False
    then have new: "\<forall>b \<in> set (ids B). vec_data (lb_backend_ips st) ! nat b \<noteq> ?ip" by blast
    have g: "map_get (le_crc env) (vector_mem bytes32 (lb_backend_ips st)) (lb_ip_to_backend_id st)
        (bytes32 ?ip) = None"
      using lb_pool.tab.get_flow_None [OF t, of ?ip] new by simp
    show thesis
    proof (cases G)
      case Nil
      from lb_pool.tab.insert_full [OF t [unfolded Nil], of now] obtain chain where
        c: "dchain_allocate_new_index (lb_active_backends st) now = Inr (chain, None)"
        "table_flows chain_rep (map_rep (le_crc env) (lb_backend_capacity st) 4)
           (unat (lb_backend_capacity st)) bytes32 chain (lb_backend_ips st) (lb_ip_to_backend_id st)
           B []" by blast
      let ?st = "st\<lparr>lb_active_backends := chain\<rparr>"
      have "lb_pool_wf env ?st B []" using wf c(2) by (simp add: lb_pool_wf_def)
      then show thesis
        using g c(1) Nil
        by (intro that [of ?st B "[]"]) (simp_all add: lb_process_heartbit_def same_flows_def Let_def)
    next
      case (Cons f G')
      let ?bs = "(lb_backends st)\<lparr>vec_data :=
          (vec_data (lb_backends st))[nat f := \<lparr>lb_nic = nic, lb_mac = mac, lb_ip = ?ip\<rparr>]\<rparr>"
        and ?ips = "(lb_backend_ips st)\<lparr>vec_data := (vec_data (lb_backend_ips st))[nat f := ?ip]\<rparr>"
      obtain chain m where e:
        "dchain_allocate_new_index (lb_active_backends st) now = Inr (chain, Some f)"
        "vector_write (lb_backends st) f \<lparr>lb_nic = nic, lb_mac = mac, lb_ip = ?ip\<rparr> = Inr ?bs"
        "vector_write (lb_backend_ips st) f ?ip = Inr ?ips"
        "map_put (le_crc env) (vector_mem bytes32 ?ips) (lb_ip_to_backend_id st) f f = Inr m"
        "lb_pool_wf env (st\<lparr>lb_active_backends := chain, lb_backends := ?bs, lb_backend_ips := ?ips,
           lb_ip_to_backend_id := m\<rparr>) (B @ [(f, now)]) G'"
        "\<forall>b \<in> set (ids B). vec_data ?bs ! nat b = lb_backend_at st b"
        by (rule lb_enter_backend [OF wf [unfolded Cons] new nic])
      let ?st = "st\<lparr>lb_active_backends := chain, lb_backends := ?bs, lb_backend_ips := ?ips,
           lb_ip_to_backend_id := m\<rparr>"
      have "nat f < length (vec_data (lb_backend_ips st))"
        using lb_backend_range(1,2) [OF wf, of f] wf Cons by (simp add: lb_pool_wf_def nat_less_iff)
      then have "\<exists>b. (b, now) \<in> set (B @ [(f, now)]) \<and> vec_data (lb_backend_ips ?st) ! nat b = ?ip"
        by (intro exI [of _ f]) simp
      then show thesis
        using g e
        by (intro that [of ?st "B @ [(f, now)]" G'])
          (simp_all add: lb_process_heartbit_def same_flows_def Let_def)
    qed
  qed
qed

end
