(* ===== verification/LoadBalancerCorrect.thy ===== *)
theory LoadBalancerCorrect
  imports LoadBalancer NatCorrect
begin

text \<open>
  Whole packets at the load balancer: what expiration leaves of its flows and servers, that every
  packet keeps the state well formed, where packets from the wide area network go, and that a flow
  stays with its server while others come.
\<close>

section \<open>Expiration\<close>

definition lb_live :: "int \<Rightarrow> int \<Rightarrow> aged \<Rightarrow> aged" where
  "lb_live expiration_time now L =
     drop (expired_count (lb_last_time expiration_time now) L) L"

lemma unexpired_stays:
  assumes "(i, s) \<in> set L" "\<not> s < time"
  shows "(i, s) \<in> set (drop (expired_count time L) L)"
proof -
  have "(i, s) \<in> set (take (expired_count time L) L @ drop (expired_count time L) L)"
    using assms(1) by (simp only: append_take_drop_id)
  moreover have "take (expired_count time L) L = takeWhile (\<lambda>(i, s). s < time) L"
    by (simp only: expired_count_def flip: takeWhile_eq_take)
  then have "(i, s) \<notin> set (take (expired_count time L) L)"
    using assms(2) by (auto dest: set_takeWhileD)
  ultimately show ?thesis unfolding set_append by blast
qed

lemma lb_live_subset: "set (lb_live e now L) \<subseteq> set L"
  by (auto simp: lb_live_def dest: in_set_dropD)

lemma lb_live_ids: "set (ids (lb_live e now L)) \<subseteq> set (ids L)"
  using lb_live_subset [of e now L] by auto

lemma lb_last_time_eq:
  assumes "0 \<le> now" "now < 2 ^ 63" "0 \<le> e" "e * 1000 \<le> 2 ^ 63"
  shows "lb_last_time e now = now - e * 1000"
  using u64_difference [OF assms(1,2) _ assms(4)] assms(3) by (simp add: lb_last_time_def)

lemma lb_live_stays:
  assumes "0 \<le> now" "now < 2 ^ 63" "0 \<le> e" "e * 1000 \<le> 2 ^ 63"
    and "(i, s) \<in> set L" "now \<le> s + e * 1000"
  shows "(i, s) \<in> set (lb_live e now L)"
  unfolding lb_live_def
  by (rule unexpired_stays [OF assms(5)]) (use assms(6) in \<open>simp add: lb_last_time_eq [OF assms(1-4)]\<close>)

lemma lb_live_all:
  assumes "0 \<le> now" "now < 2 ^ 63" "0 \<le> e" "e * 1000 \<le> 2 ^ 63"
    and "\<forall>i s. (i, s) \<in> set L \<longrightarrow> now \<le> s + e * 1000"
  shows "set (lb_live e now L) = set L"
proof
  show "set L \<subseteq> set (lb_live e now L)"
    using lb_live_stays [OF assms(1-4)] assms(5) by (metis subrelI)
qed (rule lb_live_subset)

lemma lb_expire_flows_correct:
  assumes "lb_flows_wf env n st L F" "0 \<le> now"
  obtains st' F' where "lb_expire_flows (le_crc env) e st now = Some (Inr st')"
    "lb_flows_wf env n st' (lb_live e now L) F'" "same_pool st st'" "F \<noteq> [] \<longrightarrow> F' \<noteq> []"
    "\<forall>i. lb_flow_at st' i = lb_flow_at st i \<and> lb_assigned st' i = lb_assigned st i"
proof -
  from lb_flows.expire_items_correct [OF lb_flows_wfD [OF assms(1)], of "lb_last_time e now"]
  obtain chain m F' where x:
    "expire_items_single_map (le_crc env) lb_flow_bytes (lb_flow_chain st) (lb_flow_heap st)
       (lb_flow_to_flow_id st) (lb_last_time e now) =
       Some (Inr (chain, m, int (expired_count (lb_last_time e now) L)))"
    "table_flows chain_rep (map_rep (le_crc env) n 16) (unat n) lb_flow_bytes
       chain (lb_flow_heap st) m (lb_live e now L) F'" "F \<noteq> [] \<longrightarrow> F' \<noteq> []"
    unfolding lb_live_def by (metis Nil_is_append_conv)
  have "\<forall>i \<in> set (ids (lb_live e now L)). 0 \<le> lb_assigned st i \<and>
      lb_assigned st i < int (unat (lb_backend_capacity st))"
    using assms(1) lb_live_ids [of e now L] unfolding lb_flows_wf_def by blast
  with x assms show thesis
    by (intro that [of "st\<lparr>lb_flow_chain := chain, lb_flow_to_flow_id := m\<rparr>" F'])
      (simp_all add: lb_expire_flows_def lb_flows_wf_def lb_assigned_def same_pool_def)
qed

lemma lb_expire_backends_correct:
  assumes "lb_pool_wf env st B G" "0 \<le> now"
  obtains st' G' where "lb_expire_backends (le_crc env) e st now = Some (Inr st')"
    "lb_pool_wf env st' (lb_live e now B) G'" "same_flows st st'" "lb_backends st' = lb_backends st"
    "G \<noteq> [] \<longrightarrow> G' \<noteq> []"
proof -
  from lb_pool.expire_items_correct [OF lb_pool_wfD [OF assms(1)], of "lb_last_time e now"]
  obtain chain m G' where x:
    "expire_items_single_map (le_crc env) bytes32 (lb_active_backends st) (lb_backend_ips st)
       (lb_ip_to_backend_id st) (lb_last_time e now) =
       Some (Inr (chain, m, int (expired_count (lb_last_time e now) B)))"
    "table_flows chain_rep (map_rep (le_crc env) (lb_backend_capacity st) 4)
       (unat (lb_backend_capacity st)) bytes32 chain (lb_backend_ips st) m (lb_live e now B) G'"
    "G \<noteq> [] \<longrightarrow> G' \<noteq> []"
    unfolding lb_live_def by (metis Nil_is_append_conv)
  have "\<forall>b \<in> set (ids (lb_live e now B)). lb_nic (lb_backend_at st b) \<noteq> le_wan_device env \<and>
      unat (lb_nic (lb_backend_at st b)) < length (le_device_macs env)"
    using assms(1) lb_live_ids [of e now B] unfolding lb_pool_wf_def by blast
  with x assms show thesis
    by (intro that [of "st\<lparr>lb_active_backends := chain, lb_ip_to_backend_id := m\<rparr>" G'])
      (simp_all add: lb_expire_backends_def lb_pool_wf_def same_flows_def)
qed

abbreviation live_flows :: "lb_env \<Rightarrow> int \<Rightarrow> aged \<Rightarrow> aged" where
  "live_flows env \<equiv> lb_live (le_flow_expiration_time env)"

abbreviation live_backends :: "lb_env \<Rightarrow> int \<Rightarrow> aged \<Rightarrow> aged" where
  "live_backends env \<equiv> lb_live (le_backend_expiration_time env)"

text \<open>Before the packet is looked at, the state is cleared of what has expired.\<close>

lemma lb_process_expired:
  assumes "lb_wf env n st L F B G" "0 \<le> now"
  obtains st0 F0 G0 where
    "lb_process env st device now lp = Some (lb_handle env st0 device now lp)"
    "lb_wf env n st0 (live_flows env now L) F0 (live_backends env now B) G0"
    "F \<noteq> [] \<longrightarrow> F0 \<noteq> []" "G \<noteq> [] \<longrightarrow> G0 \<noteq> []"
    "\<forall>i. lb_flow_at st0 i = lb_flow_at st i \<and> lb_assigned st0 i = lb_assigned st i"
    "lb_backends st0 = lb_backends st"
proof -
  have w: "lb_flows_wf env n st L F" "lb_pool_wf env st B G" using assms(1) by (simp_all add: lb_wf_def)
  obtain st1 F1 where s1: "lb_expire_flows (le_crc env) (le_flow_expiration_time env) st now = Some (Inr st1)"
    "lb_flows_wf env n st1 (live_flows env now L) F1" "same_pool st st1" "F \<noteq> [] \<longrightarrow> F1 \<noteq> []"
    "\<forall>i. lb_flow_at st1 i = lb_flow_at st i \<and> lb_assigned st1 i = lb_assigned st i"
    by (rule lb_expire_flows_correct [OF w(1) assms(2)])
  have "lb_pool_wf env st1 B G" using w(2) same_pool_wf [OF s1(3)] by simp
  then obtain st0 G0 where s0:
    "lb_expire_backends (le_crc env) (le_backend_expiration_time env) st1 now = Some (Inr st0)"
    "lb_pool_wf env st0 (live_backends env now B) G0" "same_flows st1 st0"
    "lb_backends st0 = lb_backends st1" "G \<noteq> [] \<longrightarrow> G0 \<noteq> []"
    by (rule lb_expire_backends_correct [OF _ assms(2)])
  have "lb_flows_wf env n st0 (live_flows env now L) F1" using s1(2) same_flows_wf [OF s0(3)] by simp
  moreover have "\<forall>i. lb_flow_at st0 i = lb_flow_at st i \<and> lb_assigned st0 i = lb_assigned st i"
    using same_flows_at [OF s0(3)] s1(5) by metis
  moreover have "lb_backends st0 = lb_backends st" using s0(4) s1(3) by (simp add: same_pool_def)
  ultimately show thesis
    using s1(1,4) s0(1,2,5) by (intro that [of st0 F1 G0]) (simp_all add: lb_process_def lb_wf_def)
qed

section \<open>Packets\<close>

definition lb_read :: "lb_packet \<Rightarrow> lb_packet" where
  "lb_read lp = lp\<lparr>lp_packet := headers_read (lp_packet lp)\<rparr>"

lemma lb_handle_tcpudp:
  assumes "tcpudp_packet (lp_packet lp)"
  shows "lb_handle env st device now lp = lb_dispatch env st device now (lb_read lp)"
proof -
  from tcpudp_packet_headers [OF assms] obtain p1 p2 where
    "nf_then_get_ether_header (lp_packet lp) = Inr p1" "nf_then_get_ipv4_header p1 = Inr (Some p2)"
    "nf_then_get_tcpudp_header p2 = Inr (Some (headers_read (lp_packet lp)))" by blast
  then show ?thesis by (simp add: lb_handle_def lb_read_def)
qed

text \<open>Any other packet is dropped without a look at the state.\<close>

lemma lb_handle_total:
  assumes "fresh_packet (lp_packet lp)"
  shows "(\<exists>lp'. lb_handle env st device now lp = Inr (st, lp', DROP)) \<or>
    lb_handle env st device now lp = lb_dispatch env st device now (lb_read lp)"
proof -
  from headers_total [OF assms] obtain p1 where
    "nf_then_get_ether_header (lp_packet lp) = Inr p1"
    "nf_then_get_ipv4_header p1 = Inr None \<or>
     (\<exists>p2. nf_then_get_ipv4_header p1 = Inr (Some p2) \<and>
       (nf_then_get_tcpudp_header p2 = Inr None \<or>
        nf_then_get_tcpudp_header p2 = Inr (Some (headers_read (lp_packet lp)))))" by blast
  then show ?thesis by (auto simp: lb_handle_def lb_read_def)
qed

lemma lb_flow_read [simp]:
  "lb_packet_flow padding (lp_packet (lb_read lp)) = lb_packet_flow padding (lp_packet lp)"
  by (simp add: lb_packet_flow_def lb_read_def)

text \<open>What a server gets: its address, and both hardware addresses set for its device.\<close>

definition lb_sent :: "lb_env \<Rightarrow> lb_backend \<Rightarrow> lb_packet \<Rightarrow> lb_packet" where
  "lb_sent env b lp =
     (let p = headers_read (lp_packet lp) in
      \<lparr>lp_packet = nf_set_ipv4_udptcp_checksum (le_ip_cksum env) (le_l4_cksum env)
          (p\<lparr>pk_ip := (pk_ip p)\<lparr>ip_dst_addr := lb_ip b\<rparr>\<rparr>),
       lp_ether_src = le_device_macs env ! unat (lb_nic b), lp_ether_dst = lb_mac b\<rparr>)"

lemma lb_rewrite_read:
  assumes "unat (lb_nic b) < length (le_device_macs env)"
  shows "lb_rewrite env (lb_read lp) b = Inr (lb_sent env b lp)"
  using assms by (simp add: lb_rewrite_def lb_sent_def lb_read_def Let_def)

abbreviation (input) flow_of :: "lb_env \<Rightarrow> lb_packet \<Rightarrow> lb_flow" where
  "flow_of env lp \<equiv> lb_packet_flow (le_padding env) (lp_packet lp)"

lemma lb_dispatch_wan:
  assumes wf: "lb_wf env n st L F B G"
  obtains
    (none) st' L' F' where "B = []" "lb_wf env n st' L' F' B G"
      "lb_dispatch env st (le_wan_device env) now (lb_read lp) = Inr (st', lb_read lp, le_wan_device env)"
  | (some) b st' L' F' where "b \<in> set (ids B)" "lb_wf env n st' L' F' B G" "same_pool st st'"
      "lb_dispatch env st (le_wan_device env) now (lb_read lp) =
         Inr (st', lb_sent env (lb_backend_at st b) lp, lb_nic (lb_backend_at st b))"
      "F \<noteq> [] \<longrightarrow> (\<exists>A i. L' = A @ [(i, now)] \<and> lb_flow_at st' i = flow_of env lp \<and> lb_assigned st' i = b)"
      "\<forall>i \<in> set (ids L). lb_flow_at st i = flow_of env lp \<and> lb_assigned st i \<in> set (ids B) \<longrightarrow>
         b = lb_assigned st i"
proof (rule lb_get_backend_cases [OF wf, of "flow_of env lp" now "le_wan_device env" "le_backend env"])
  fix st' L' F' assume a: "B = []" "lb_wf env n st' L' F' B G"
    "lb_get_backend (le_crc env) st (flow_of env lp) now (le_wan_device env) (le_backend env) =
       Inr (st', (le_backend env)\<lparr>lb_nic := le_wan_device env\<rparr>)"
  show thesis by (rule none [OF a(1,2)]) (simp add: lb_dispatch_def a(3))
next
  fix b st' L' F' assume a: "b \<in> set (ids B)" "lb_wf env n st' L' F' B G" "same_pool st st'"
    "lb_get_backend (le_crc env) st (flow_of env lp) now (le_wan_device env) (le_backend env) =
       Inr (st', lb_backend_at st b)"
    "F \<noteq> [] \<longrightarrow> (\<exists>A i. L' = A @ [(i, now)] \<and> lb_flow_at st' i = flow_of env lp \<and> lb_assigned st' i = b)"
    "\<forall>i \<in> set (ids L). lb_flow_at st i = flow_of env lp \<and> lb_assigned st i \<in> set (ids B) \<longrightarrow>
       b = lb_assigned st i"
  have "lb_nic (lb_backend_at st b) \<noteq> le_wan_device env"
    "unat (lb_nic (lb_backend_at st b)) < length (le_device_macs env)"
    using wf a(1) unfolding lb_wf_def lb_pool_wf_def by blast+
  then have "lb_dispatch env st (le_wan_device env) now (lb_read lp) =
      Inr (st', lb_sent env (lb_backend_at st b) lp, lb_nic (lb_backend_at st b))"
    by (simp add: lb_dispatch_def a(4) lb_rewrite_read)
  from some [OF a(1-3) this a(5,6)] show thesis .
qed

lemma lb_dispatch_heartbit:
  assumes wf: "lb_wf env n st L F B G"
    and nic: "device \<noteq> le_wan_device env" "unat device < length (le_device_macs env)"
  obtains st' B' G' where "lb_dispatch env st device now (lb_read lp) = Inr (st', lb_read lp, DROP)"
    "lb_wf env n st' L F B' G'" "same_flows st st'"
    "\<forall>b \<in> set (ids B). lb_backend_at st' b = lb_backend_at st b"
    "\<forall>b s. (b, s) \<in> set B \<longrightarrow> (b, s) \<in> set B' \<or> (b, now) \<in> set B'"
    "\<forall>b s. (b, s) \<in> set B' \<longrightarrow> (b, s) \<in> set B \<or> s = now"
    "G \<noteq> [] \<longrightarrow> (\<exists>b. (b, now) \<in> set B' \<and>
       vec_data (lb_backend_ips st') ! nat b = ip_src_addr (pk_ip (lp_packet lp)))"
proof -
  have w: "lb_flows_wf env n st L F" "lb_pool_wf env st B G" using wf by (simp_all add: lb_wf_def)
  have ip: "lf_src_ip (flow_of env lp) = ip_src_addr (pk_ip (lp_packet lp))"
    by (simp add: lb_packet_flow_def)
  obtain st' B' G' where h:
    "lb_process_heartbit (le_crc env) st (flow_of env lp) (lp_ether_src (lb_read lp)) device now = Inr st'"
    "lb_pool_wf env st' B' G'" "same_flows st st'"
    "\<forall>b \<in> set (ids B). lb_backend_at st' b = lb_backend_at st b"
    "\<forall>b s. (b, s) \<in> set B \<longrightarrow> (b, s) \<in> set B' \<or> (b, now) \<in> set B'"
    "\<forall>b s. (b, s) \<in> set B' \<longrightarrow> (b, s) \<in> set B \<or> s = now"
    "G \<noteq> [] \<longrightarrow> (\<exists>b. (b, now) \<in> set B' \<and>
       vec_data (lb_backend_ips st') ! nat b = lf_src_ip (flow_of env lp))"
    by (rule lb_heartbit_cases [OF w(2) nic])
  have "lb_wf env n st' L F B' G'" using w(1) h(2) same_flows_wf [OF h(3)] by (simp add: lb_wf_def)
  with h nic(1) ip show thesis
    by (intro that [of st' B' G']) (simp_all add: lb_dispatch_def)
qed

section \<open>A balancer at the start\<close>

definition zero_lb_flow :: lb_flow where
  "zero_lb_flow = \<lparr>lf_src_ip = 0, lf_dst_ip = 0, lf_src_port = 0, lf_dst_port = 0,
     lf_protocol = 0, lf_padding = (0, 0, 0)\<rparr>"

definition zero_lb_backend :: lb_backend where
  "zero_lb_backend = \<lparr>lb_nic = 0, lb_mac = 0, lb_ip = 0\<rparr>"

text \<open>Room for two flows and two servers, a table of three rows.\<close>

definition fresh_map :: "u32 \<Rightarrow> int nf_map option" where
  "fresh_map ksize = map_allocate True (Some (replicate 2 0)) (Some (replicate 2 0))
     (Some (replicate 2 0)) (Some (replicate 2 0)) (Some (replicate 2 0)) 2 ksize"

definition fresh_chain :: "double_chain option" where
  "fresh_chain =
     (case dchain_allocate True (Some (replicate 4 \<lparr>dc_prev = 0, dc_next = 0\<rparr>)) (Some (replicate 2 0)) 2 of
        Inl e \<Rightarrow> None | Inr chain \<Rightarrow> chain)"

definition fresh_lb :: "lb_state option" where
  "fresh_lb =
     (case lb_alloc_state (fresh_map 16)
         (vector_allocate True (Some (replicate 2 zero_lb_flow)) zero_lb_flow 2) fresh_chain
         (vector_allocate True (Some (replicate 2 0)) 0 2) (fresh_map 4)
         (vector_allocate True (Some (replicate 2 0)) 0 2)
         (vector_allocate True (Some (replicate 2 zero_lb_backend)) zero_lb_backend 2) fresh_chain
         (Some blank_table) (Some (replicate 6 0)) True 2 2 3 of
        Inl e \<Rightarrow> None | Inr st \<Rightarrow> st)"

lemma fresh_parts:
  obtains chain m where "fresh_chain = Some chain" "chain_rep chain [] [0, 1]" "fresh_map k = Some m"
    "map_rep crc 2 k mem m {}"
proof -
  let ?cells = "replicate 4 \<lparr>dc_prev = 0, dc_next = 0\<rparr>" and ?ts = "replicate 2 (0 :: int)"
  have u: "[0..2 - 1] = [0, 1 :: int]" by (simp add: upto.simps)
  have "int (length ?cells) = 2 + 2" "int (length ?ts) = 2" "(1 :: int) \<le> 2" by simp_all
  from dchain_allocate_correct_blocks [OF this(3,1,2)] obtain chain where
    c: "dchain_allocate True (Some ?cells) (Some ?ts) 2 = Inr (Some chain)"
      "chain_rep chain [] [0, 1]" unfolding u by blast
  obtain m where m: "fresh_map k = Some m"
    by (simp add: fresh_map_def map_allocate_def compute_is_power_of_two_def)
  have "map_rep crc 2 k mem m {}"
    using map_allocate_correct [OF _ _ _ _ _ m [unfolded fresh_map_def]] by (simp add: map_rep_def)
  with c m show thesis by (intro that [of chain m]) (simp_all add: fresh_chain_def)
qed

lemma fresh_lb_wf:
  obtains st where "fresh_lb = Some st" "lb_wf env 2 st [] [0, 1] [] [0, 1]"
proof -
  let ?fv = "\<lparr>vec_data = replicate 2 zero_lb_flow, vec_capacity = 2\<rparr>"
    and ?wv = "\<lparr>vec_data = replicate 2 (0 :: u32), vec_capacity = 2\<rparr>"
    and ?bv = "\<lparr>vec_data = replicate 2 zero_lb_backend, vec_capacity = 2\<rparr>"
  obtain chain fm where f: "fresh_chain = Some chain" "chain_rep chain [] [0, 1]"
    "fresh_map 16 = Some fm" "map_rep (le_crc env) 2 16 (vector_mem lb_flow_bytes ?fv) fm {}"
    by (rule fresh_parts)
  obtain chain' im where i: "fresh_chain = Some chain'"
    "fresh_map 4 = Some im" "map_rep (le_crc env) 2 4 (vector_mem bytes32 ?wv) im {}"
    by (rule fresh_parts)
  obtain cht where t: "cht_fill_cht (Some (replicate 6 0)) True blank_table 3 2 = Inr (Some cht)"
    "cht_filled 3 2 cht" by (rule small_table)
  have v: "vector_allocate True (Some (replicate 2 zero_lb_flow)) zero_lb_flow 2 = Some ?fv"
    "vector_allocate True (Some (replicate 2 (0 :: u32))) 0 2 = Some ?wv"
    "vector_allocate True (Some (replicate 2 zero_lb_backend)) zero_lb_backend 2 = Some ?bv"
    using vector_allocate_zeroed [of "replicate 2 zero_lb_flow" 2 zero_lb_flow]
      vector_allocate_zeroed [of "replicate 2 (0 :: u32)" 2 0]
      vector_allocate_zeroed [of "replicate 2 zero_lb_backend" 2 zero_lb_backend] by simp_all
  let ?st = "\<lparr>lb_flow_to_flow_id = fm, lb_flow_heap = ?fv, lb_flow_chain = chain,
    lb_flow_id_to_backend_id = ?wv, lb_ip_to_backend_id = im, lb_backend_ips = ?wv,
    lb_backends = ?bv, lb_active_backends = chain, lb_cht = cht, lb_backend_capacity = 2,
    lb_flow_capacity = 2, lb_cht_height = 3\<rparr>"
  have "fresh_lb = Some ?st"
    unfolding fresh_lb_def f(1,3) i(2) v by (simp add: lb_alloc_state_def t(1))
  moreover have "{0..<2 :: int} = {0, 1}" by auto
  then have "lb_wf env 2 ?st [] [0, 1] [] [0, 1]"
    using f(2,4) i(3) t(2) by (simp add: lb_wf_def lb_flows_wf_def lb_pool_wf_def table_flows_def)
  ultimately show thesis by (rule that)
qed

text \<open>Servers on device 0, the wide area network on device 1, times of 1 ms.\<close>

definition lb_sample_env :: lb_env where
  "lb_sample_env = \<lparr>le_crc = (\<lambda>h x. h XOR x), le_ip_cksum = (\<lambda>_. 0), le_l4_cksum = (\<lambda>_ _. 0),
     le_wan_device = 1, le_device_macs = [7, 8], le_flow_expiration_time = 1000,
     le_backend_expiration_time = 1000, le_padding = (0, 0, 0), le_backend = zero_lb_backend\<rparr>"

definition lb_sample :: "u32 \<Rightarrow> lb_packet" where
  "lb_sample src = \<lparr>lp_packet = udp_packet src 1000 20 53, lp_ether_src = 3, lp_ether_dst = 4\<rparr>"

lemma lb_sample_tcpudp [simp]: "tcpudp_packet (lp_packet (lb_sample src))"
  by (simp add: lb_sample_def)

lemma lb_sample_fresh [simp]: "fresh_packet (lp_packet (lb_sample src))"
  by (simp add: lb_sample_def)

text \<open>After the heartbeat of host 50.\<close>

lemma lb_first_heartbeat:
  obtains st st1 F B G b where "fresh_lb = Some st"
    "lb_process lb_sample_env st 0 5 (lb_sample 50) = Some (Inr (st1, lb_read (lb_sample 50), DROP))"
    "lb_wf lb_sample_env 2 st1 [] F B G" "F \<noteq> []" "(b, 5) \<in> set B"
    "\<forall>b s. (b, s) \<in> set B \<longrightarrow> s = 5"
proof -
  obtain st where st: "fresh_lb = Some st" "lb_wf lb_sample_env 2 st [] [0, 1] [] [0, 1]"
    by (rule fresh_lb_wf)
  let ?e = lb_sample_env
  obtain st0 F0 G0 where s0:
    "lb_process ?e st 0 5 (lb_sample 50) = Some (lb_handle ?e st0 0 5 (lb_sample 50))"
    "lb_wf ?e 2 st0 (live_flows ?e 5 []) F0 (live_backends ?e 5 []) G0" "F0 \<noteq> []" "G0 \<noteq> []"
    by (rule lb_process_expired [OF st(2), of 5 0 "lb_sample 50"]) simp_all
  have e: "lb_live k 5 [] = []" for k by (simp add: lb_live_def)
  have d: "(0 :: u16) \<noteq> le_wan_device ?e" "unat (0 :: u16) < length (le_device_macs ?e)"
    by (simp_all add: lb_sample_env_def)
  obtain st1 B G where h: "lb_dispatch ?e st0 0 5 (lb_read (lb_sample 50)) = Inr (st1, lb_read (lb_sample 50), DROP)"
    "lb_wf ?e 2 st1 [] F0 B G" "\<forall>b s. (b, s) \<in> set B \<longrightarrow> (b, s) \<in> set [] \<or> s = 5"
    "G0 \<noteq> [] \<longrightarrow> (\<exists>b. (b, 5) \<in> set B \<and>
       vec_data (lb_backend_ips st1) ! nat b = ip_src_addr (pk_ip (lp_packet (lb_sample 50))))"
    by (rule lb_dispatch_heartbit [OF s0(2) [unfolded e] d])
  then obtain b where b: "(b, 5) \<in> set B" using s0(4) by blast
  have run: "lb_process ?e st 0 5 (lb_sample 50) = Some (Inr (st1, lb_read (lb_sample 50), DROP))"
    using s0(1) h(1) by (simp add: lb_handle_tcpudp)
  have "\<forall>b s. (b, s) \<in> set B \<longrightarrow> s = 5" using h(3) by (metis empty_iff list.set(1))
  from that [OF st(1) run h(2) s0(3) b this] show thesis .
qed

section \<open>Properties\<close>

text \<open>C29. Every packet, whatever its contents, is processed without undefined behaviour and leaves
  the state well formed, with servers only on devices other than the one of the wide area network;
  what comes in on the other devices is never forwarded.\<close>
theorem lb_process_keeps_wf:
  assumes "lb_wf env n st L F B G" "0 \<le> now" "fresh_packet (lp_packet lp)"
    "d = le_wan_device env \<or> unat d < length (le_device_macs env)"
  shows "\<exists>st' lp' out L' F' B' G'. lb_process env st d now lp = Some (Inr (st', lp', out)) \<and>
    lb_wf env n st' L' F' B' G' \<and> (d \<noteq> le_wan_device env \<longrightarrow> out = DROP)"
proof -
  obtain st0 L0 F0 B0 G0 where s0: "lb_process env st d now lp = Some (lb_handle env st0 d now lp)"
    "lb_wf env n st0 L0 F0 B0 G0"
    by (rule lb_process_expired [OF assms(1,2)])
  consider lp' where "lb_handle env st0 d now lp = Inr (st0, lp', DROP)"
    | "lb_handle env st0 d now lp = lb_dispatch env st0 d now (lb_read lp)" "d = le_wan_device env"
    | "lb_handle env st0 d now lp = lb_dispatch env st0 d now (lb_read lp)" "d \<noteq> le_wan_device env"
    using lb_handle_total [OF assms(3), of env st0 d now] by blast
  then show ?thesis
  proof cases
    case 1
    with s0 show ?thesis by auto
  next
    case 2
    show ?thesis
      by (rule lb_dispatch_wan [OF s0(2), of now lp]) (use s0(1) 2 in \<open>auto\<close>)
  next
    case 3
    then have "unat d < length (le_device_macs env)" using assms(4) by simp
    obtain st' B' G' where h: "lb_dispatch env st0 d now (lb_read lp) = Inr (st', lb_read lp, DROP)"
      "lb_wf env n st' L0 F0 B' G'"
      by (rule lb_dispatch_heartbit [OF s0(2) 3(2) \<open>unat d < _\<close>])
    from s0(1) 3(1) h(1) have "lb_process env st d now lp = Some (Inr (st', lb_read lp, DROP))" by simp
    with h(2) show ?thesis by blast
  qed
qed

theorem lb_process_keeps_wf_witness:
  "\<exists>st st' lp' out. fresh_lb = Some st \<and>
     lb_process lb_sample_env st 0 5 (lb_sample 50) = Some (Inr (st', lp', out)) \<and> out = DROP"
proof -
  obtain st where st: "fresh_lb = Some st" "lb_wf lb_sample_env 2 st [] [0, 1] [] [0, 1]"
    by (rule fresh_lb_wf)
  have d: "0 = le_wan_device lb_sample_env \<or> unat (0 :: u16) < length (le_device_macs lb_sample_env)"
    "0 \<noteq> le_wan_device lb_sample_env" by (simp_all add: lb_sample_env_def)
  from lb_process_keeps_wf [OF st(2) _ lb_sample_fresh d(1), of 5] st(1) d(2) show ?thesis
    by (metis zero_le_numeral)
qed

text \<open>C18. A packet from the wide area network goes to an active server whenever there is one: its
  destination becomes the server's, its hardware addresses those of the server and of the server's
  device. With no active server it goes back, unchanged, to the device it came from.\<close>
theorem lb_serves_active:
  assumes "lb_wf env n st L F B G" "0 \<le> now" "tcpudp_packet (lp_packet lp)"
  shows "if live_backends env now B = []
    then \<exists>st'. lb_process env st (le_wan_device env) now lp =
      Some (Inr (st', lb_read lp, le_wan_device env))
    else \<exists>st'. \<exists>b \<in> set (ids (live_backends env now B)).
      lb_process env st (le_wan_device env) now lp =
        Some (Inr (st', lb_sent env (lb_backend_at st b) lp, lb_nic (lb_backend_at st b))) \<and>
      lb_nic (lb_backend_at st b) \<noteq> le_wan_device env"
proof -
  let ?wan = "le_wan_device env"
  obtain st0 F0 G0 where s0: "lb_process env st ?wan now lp = Some (lb_handle env st0 ?wan now lp)"
    "lb_wf env n st0 (live_flows env now L) F0 (live_backends env now B) G0"
    "lb_backends st0 = lb_backends st"
    by (rule lb_process_expired [OF assms(1,2)])
  note h = lb_handle_tcpudp [OF assms(3), of env st0 ?wan now]
  show ?thesis
  proof (cases rule: lb_dispatch_wan [OF s0(2), of now lp])
    case (1 st')
    with s0(1) h show ?thesis by simp
  next
    case (2 b st')
    then have "live_backends env now B \<noteq> []" by auto
    moreover have "lb_nic (lb_backend_at st b) \<noteq> ?wan"
      using s0(2,3) 2(1) unfolding lb_wf_def lb_pool_wf_def by metis
    ultimately show ?thesis using 2(1,4) s0(1,3) h by auto
  qed
qed

text \<open>A server that is there at time 5 is still active a millisecond later.\<close>

lemma lb_sample_live:
  assumes "(b, 5) \<in> set B" "0 \<le> t" "t \<le> 1000005"
  shows "(b, 5) \<in> set (live_backends lb_sample_env t B)"
  by (rule lb_live_stays) (use assms in \<open>simp_all add: lb_sample_env_def\<close>)

theorem lb_serves_active_witness:
  "\<exists>st st1 st2 lp out. fresh_lb = Some st \<and>
     lb_process lb_sample_env st 0 5 (lb_sample 50) = Some (Inr (st1, lb_read (lb_sample 50), DROP)) \<and>
     lb_process lb_sample_env st1 1 900000 (lb_sample 90) = Some (Inr (st2, lp, out)) \<and> out \<noteq> 1"
proof -
  obtain st st1 F B G b where st: "fresh_lb = Some st"
    "lb_process lb_sample_env st 0 5 (lb_sample 50) = Some (Inr (st1, lb_read (lb_sample 50), DROP))"
    "lb_wf lb_sample_env 2 st1 [] F B G" "(b, 5) \<in> set B" by (rule lb_first_heartbeat)
  have wan: "le_wan_device lb_sample_env = 1" by (simp add: lb_sample_env_def)
  have live: "live_backends lb_sample_env 900000 B \<noteq> []"
    using lb_sample_live [OF st(4), of 900000] by auto
  from lb_serves_active [OF st(3) _ lb_sample_tcpudp, of 900000 90] obtain st2 b where
    "lb_process lb_sample_env st1 1 900000 (lb_sample 90) = Some (Inr (st2,
       lb_sent lb_sample_env (lb_backend_at st1 b) (lb_sample 90), lb_nic (lb_backend_at st1 b)))"
    "lb_nic (lb_backend_at st1 b) \<noteq> 1" unfolding wan if_not_P [OF live] by auto
  with st(1,2) show ?thesis by blast
qed

text \<open>What a flow's entry needs to be used again: it is the last of the flows, its server is live.\<close>

lemma lb_dispatch_known:
  assumes wf: "lb_wf env n st L F B G"
    and i: "i \<in> set (ids L)" "lb_flow_at st i = flow_of env lp" "lb_assigned st i = b" "b \<in> set (ids B)"
  obtains st' L' F' where "lb_wf env n st' L' F' B G"
    "lb_dispatch env st (le_wan_device env) now (lb_read lp) =
       Inr (st', lb_sent env (lb_backend_at st b) lp, lb_nic (lb_backend_at st b))"
proof (rule lb_dispatch_wan [OF wf, of now lp])
  assume "B = []"
  with i(4) show thesis by simp
next
  fix c st' L' F' assume a: "lb_wf env n st' L' F' B G"
    "lb_dispatch env st (le_wan_device env) now (lb_read lp) =
       Inr (st', lb_sent env (lb_backend_at st c) lp, lb_nic (lb_backend_at st c))"
    "\<forall>i \<in> set (ids L). lb_flow_at st i = flow_of env lp \<and> lb_assigned st i \<in> set (ids B) \<longrightarrow>
       c = lb_assigned st i"
  then have "c = b" using i by blast
  with a(1,2) show thesis by (intro that) simp_all
qed

lemma lb_first_packet:
  assumes wf: "lb_wf env n st L F B G" "F \<noteq> []" "live_backends env t B \<noteq> []" "0 \<le> t"
    and p: "tcpudp_packet (lp_packet p)"
  obtains st1 b A i F1 G1 where "b \<in> set (ids (live_backends env t B))"
    "lb_process env st (le_wan_device env) t p =
       Some (Inr (st1, lb_sent env (lb_backend_at st b) p, lb_nic (lb_backend_at st b)))"
    "lb_wf env n st1 (A @ [(i, t)]) F1 (live_backends env t B) G1"
    "lb_flow_at st1 i = flow_of env p" "lb_assigned st1 i = b" "lb_backends st1 = lb_backends st"
proof -
  obtain st0 F0 G0 where s0:
    "lb_process env st (le_wan_device env) t p = Some (lb_handle env st0 (le_wan_device env) t p)"
    "lb_wf env n st0 (live_flows env t L) F0 (live_backends env t B) G0" "F \<noteq> [] \<longrightarrow> F0 \<noteq> []"
    "lb_backends st0 = lb_backends st"
    by (rule lb_process_expired [OF wf(1,4)])
  show thesis
  proof (cases rule: lb_dispatch_wan [OF s0(2), of t p])
    case (1 st')
    with wf(3) show thesis by simp
  next
    case (2 b st1 L1 F1)
    then obtain A i where l: "L1 = A @ [(i, t)]" "lb_flow_at st1 i = flow_of env p" "lb_assigned st1 i = b"
      using s0(3) wf(2) by blast
    have "lb_backends st1 = lb_backends st" using 2(3) s0(4) by (simp add: same_pool_def)
    with 2 l s0(1,4) lb_handle_tcpudp [OF p] show thesis
      by (intro that [of b st1 A i F1 G0]) simp_all
  qed
qed

text \<open>A heartbeat while the last flow and all the servers are recent.\<close>

lemma lb_heartbeat_between:
  assumes wf: "lb_wf env n st (A @ [(i, t)]) F B G" "0 \<le> t'"
    and live: "\<not> t < lb_last_time (le_flow_expiration_time env) t'"
      "\<forall>b s. (b, s) \<in> set B \<longrightarrow> (b, s) \<in> set (live_backends env t' B)"
    and h: "tcpudp_packet (lp_packet h)" "d \<noteq> le_wan_device env" "unat d < length (le_device_macs env)"
  obtains st' A' F' B' G' where
    "lb_process env st d t' h = Some (Inr (st', lb_read h, DROP))"
    "lb_wf env n st' (A' @ [(i, t)]) F' B' G'"
    "lb_flow_at st' i = lb_flow_at st i" "lb_assigned st' i = lb_assigned st i"
    "\<forall>b \<in> set (ids B). lb_backend_at st' b = lb_backend_at st b"
    "\<forall>b s. (b, s) \<in> set B \<longrightarrow> (b, s) \<in> set B' \<or> (b, t') \<in> set B'"
proof -
  from drop_expired_last [OF live(1)] obtain A' where
    A': "live_flows env t' (A @ [(i, t)]) = A' @ [(i, t)]" unfolding lb_live_def by blast
  obtain st0 F0 G0 where s0: "lb_process env st d t' h = Some (lb_handle env st0 d t' h)"
    "lb_wf env n st0 (A' @ [(i, t)]) F0 (live_backends env t' B) G0"
    "\<forall>i. lb_flow_at st0 i = lb_flow_at st i \<and> lb_assigned st0 i = lb_assigned st i"
    "lb_backends st0 = lb_backends st"
    by (rule lb_process_expired [OF wf, of d h, unfolded A'])
  obtain st' B' G' where r: "lb_dispatch env st0 d t' (lb_read h) = Inr (st', lb_read h, DROP)"
    "lb_wf env n st' (A' @ [(i, t)]) F0 B' G'" "same_flows st0 st'"
    "\<forall>b \<in> set (ids (live_backends env t' B)). lb_backend_at st' b = lb_backend_at st0 b"
    "\<forall>b s. (b, s) \<in> set (live_backends env t' B) \<longrightarrow> (b, s) \<in> set B' \<or> (b, t') \<in> set B'"
    by (rule lb_dispatch_heartbit [OF s0(2) h(2,3)])
  have run: "lb_process env st d t' h = Some (Inr (st', lb_read h, DROP))"
    using s0(1) r(1) by (simp add: lb_handle_tcpudp [OF h(1)])
  have f: "lb_flow_at st' i = lb_flow_at st i" "lb_assigned st' i = lb_assigned st i"
    using same_flows_at [OF r(3)] s0(3) by simp_all
  have b: "\<forall>b \<in> set (ids B). lb_backend_at st' b = lb_backend_at st b"
  proof
    fix b assume "b \<in> set (ids B)"
    then obtain s where "(b, s) \<in> set B" by auto
    with live(2) have "b \<in> set (ids (live_backends env t' B))" by force
    with r(4) s0(4) show "lb_backend_at st' b = lb_backend_at st b" by metis
  qed
  have "\<forall>b s. (b, s) \<in> set B \<longrightarrow> (b, s) \<in> set B' \<or> (b, t') \<in> set B'"
    using live(2) r(5) by blast
  from that [OF run r(2) f b this] show thesis .
qed

text \<open>The next packet of the last flow, while its server is live.\<close>

lemma lb_packet_again:
  assumes wf: "lb_wf env n st (A @ [(i, t)]) F B G" "0 \<le> now"
    and i: "\<not> t < lb_last_time (le_flow_expiration_time env) now" "lb_flow_at st i = flow_of env q"
      "lb_assigned st i = b" "b \<in> set (ids (live_backends env now B))"
    and q: "tcpudp_packet (lp_packet q)"
  shows "\<exists>st'. lb_process env st (le_wan_device env) now q =
    Some (Inr (st', lb_sent env (lb_backend_at st b) q, lb_nic (lb_backend_at st b)))"
proof -
  let ?wan = "le_wan_device env"
  from drop_expired_last [OF i(1)] obtain A' where
    A': "live_flows env now (A @ [(i, t)]) = A' @ [(i, t)]" unfolding lb_live_def by blast
  obtain st0 F0 G0 where s0: "lb_process env st ?wan now q = Some (lb_handle env st0 ?wan now q)"
    "lb_wf env n st0 (A' @ [(i, t)]) F0 (live_backends env now B) G0"
    "\<forall>i. lb_flow_at st0 i = lb_flow_at st i \<and> lb_assigned st0 i = lb_assigned st i"
    "lb_backends st0 = lb_backends st"
    by (rule lb_process_expired [OF wf, of ?wan q, unfolded A'])
  have m: "i \<in> set (ids (A' @ [(i, t)]))" by simp
  have f: "lb_flow_at st0 i = flow_of env q" "lb_assigned st0 i = b" using s0(3) i(2,3) by simp_all
  obtain st' L' F' where "lb_wf env n st' L' F' (live_backends env now B) G0"
    "lb_dispatch env st0 ?wan now (lb_read q) =
      Inr (st', lb_sent env (lb_backend_at st0 b) q, lb_nic (lb_backend_at st0 b))"
    by (rule lb_dispatch_known [OF s0(2) m f i(4)])
  then show ?thesis using s0(1,4) lb_handle_tcpudp [OF q] by simp
qed

text \<open>C16. A flow stays with its server: after a packet of the flow was sent to a server (with room in
  the table of flows), and although another server may have joined by a heartbeat in between, the
  next packet of the flow before the flow or a server expires is sent to the same server.\<close>
theorem lb_sticky:
  assumes "lb_wf env n st L F B G" "F \<noteq> []" "B \<noteq> []" "0 \<le> t" "t \<le> t'" "t' \<le> t''" "t'' < 2 ^ 63"
    and "0 \<le> le_flow_expiration_time env" "le_flow_expiration_time env * 1000 \<le> 2 ^ 63"
    and "0 \<le> le_backend_expiration_time env" "le_backend_expiration_time env * 1000 \<le> 2 ^ 63"
    and "t'' \<le> t + le_flow_expiration_time env * 1000"
    and "t'' \<le> t' + le_backend_expiration_time env * 1000"
    and "\<forall>b s. (b, s) \<in> set B \<longrightarrow> t'' \<le> s + le_backend_expiration_time env * 1000"
    and "tcpudp_packet (lp_packet p)" "tcpudp_packet (lp_packet h)" "tcpudp_packet (lp_packet q)"
    and "lb_packet_flow (le_padding env) (lp_packet q) = lb_packet_flow (le_padding env) (lp_packet p)"
    and "d \<noteq> le_wan_device env" "unat d < length (le_device_macs env)"
  shows "\<exists>st1 st2 st3. \<exists>b \<in> set (ids B).
    lb_process env st (le_wan_device env) t p =
      Some (Inr (st1, lb_sent env (lb_backend_at st b) p, lb_nic (lb_backend_at st b))) \<and>
    lb_process env st1 d t' h = Some (Inr (st2, lb_read h, DROP)) \<and>
    lb_process env st2 (le_wan_device env) t'' q =
      Some (Inr (st3, lb_sent env (lb_backend_at st b) q, lb_nic (lb_backend_at st b)))"
proof -
  let ?wan = "le_wan_device env" and ?B = "live_backends env t B"
  have pos: "0 \<le> t'" "0 \<le> t''" and small: "t < 2 ^ 63" "t' < 2 ^ 63" using assms(4-7) by simp_all
  have B: "set ?B = set B"
    by (rule lb_live_all [OF assms(4) small(1) assms(10,11)]) (use assms(5,6,14) in \<open>meson order_trans\<close>)
  then have "?B \<noteq> []" using assms(3) by auto
  then obtain st1 b A i F1 G1 where s1: "b \<in> set (ids ?B)"
    "lb_process env st ?wan t p =
       Some (Inr (st1, lb_sent env (lb_backend_at st b) p, lb_nic (lb_backend_at st b)))"
    "lb_wf env n st1 (A @ [(i, t)]) F1 ?B G1"
    "lb_flow_at st1 i = flow_of env p" "lb_assigned st1 i = b" "lb_backends st1 = lb_backends st"
    by (rule lb_first_packet [OF assms(1,2) _ assms(4,15)])
  have le: "t' \<le> t + le_flow_expiration_time env * 1000" using assms(6,12) by simp
  then have l1: "\<not> t < lb_last_time (le_flow_expiration_time env) t'"
    by (simp add: lb_last_time_eq [OF pos(1) small(2) assms(8,9)])
  have "set (live_backends env t' ?B) = set ?B"
    by (rule lb_live_all [OF pos(1) small(2) assms(10,11)])
      (use assms(6,14) in \<open>unfold B, meson order_trans\<close>)
  then have l2: "\<forall>b s. (b, s) \<in> set ?B \<longrightarrow> (b, s) \<in> set (live_backends env t' ?B)" by blast
  obtain st2 A2 F2 B2 G2 where s2: "lb_process env st1 d t' h = Some (Inr (st2, lb_read h, DROP))"
    "lb_wf env n st2 (A2 @ [(i, t)]) F2 B2 G2"
    "lb_flow_at st2 i = lb_flow_at st1 i" "lb_assigned st2 i = lb_assigned st1 i"
    "\<forall>b \<in> set (ids ?B). lb_backend_at st2 b = lb_backend_at st1 b"
    "\<forall>b s. (b, s) \<in> set ?B \<longrightarrow> (b, s) \<in> set B2 \<or> (b, t') \<in> set B2"
    by (rule lb_heartbeat_between [OF s1(3) pos(1) l1 l2 assms(16,19,20)])
  have l3: "\<not> t < lb_last_time (le_flow_expiration_time env) t''"
    using assms(12) by (simp add: lb_last_time_eq [OF pos(2) assms(7-9)])
  from s1(1) obtain s where s: "(b, s) \<in> set ?B" by auto
  with s2(6) obtain u where u: "(b, u) \<in> set B2" "u = s \<or> u = t'" by blast
  then have "t'' \<le> u + le_backend_expiration_time env * 1000" using assms(13,14) s unfolding B by blast
  from lb_live_stays [OF pos(2) assms(7,10,11) u(1) this]
  have act: "b \<in> set (ids (live_backends env t'' B2))" by force
  have f: "lb_flow_at st2 i = flow_of env q" "lb_assigned st2 i = b"
    using s1(4,5) s2(3,4) assms(18) by simp_all
  have "lb_backend_at st2 b = lb_backend_at st b" unfolding bspec [OF s2(5) s1(1)] s1(6) ..
  with lb_packet_again [OF s2(2) pos(2) l3 f act assms(17)] obtain st3 where
    "lb_process env st2 ?wan t'' q =
      Some (Inr (st3, lb_sent env (lb_backend_at st b) q, lb_nic (lb_backend_at st b)))" by auto
  moreover have "b \<in> set (ids B)" using s unfolding B by force
  ultimately show ?thesis using s1(2) s2(1) by blast
qed

theorem lb_sticky_witness:
  "\<exists>st0 st st1 st2 st3 b. fresh_lb = Some st0 \<and>
     lb_process lb_sample_env st0 0 5 (lb_sample 50) = Some (Inr (st, lb_read (lb_sample 50), DROP)) \<and>
     lb_process lb_sample_env st 1 6 (lb_sample 90) =
       Some (Inr (st1, lb_sent lb_sample_env (lb_backend_at st b) (lb_sample 90),
         lb_nic (lb_backend_at st b))) \<and>
     lb_process lb_sample_env st1 0 7 (lb_sample 51) = Some (Inr (st2, lb_read (lb_sample 51), DROP)) \<and>
     lb_process lb_sample_env st2 1 900000 (lb_sample 90) =
       Some (Inr (st3, lb_sent lb_sample_env (lb_backend_at st b) (lb_sample 90),
         lb_nic (lb_backend_at st b)))"
proof -
  obtain st0 st F B G b where st: "fresh_lb = Some st0"
    "lb_process lb_sample_env st0 0 5 (lb_sample 50) = Some (Inr (st, lb_read (lb_sample 50), DROP))"
    "lb_wf lb_sample_env 2 st [] F B G" "F \<noteq> []" "(b, 5) \<in> set B" "\<forall>b s. (b, s) \<in> set B \<longrightarrow> s = 5"
    by (rule lb_first_heartbeat)
  have e: "le_wan_device lb_sample_env = 1" "le_flow_expiration_time lb_sample_env = 1000"
    "le_backend_expiration_time lb_sample_env = 1000" "length (le_device_macs lb_sample_env) = 2"
    by (simp_all add: lb_sample_env_def)
  have B: "B \<noteq> []" using st(5) by auto
  have fresh: "\<forall>b s. (b, s) \<in> set B \<longrightarrow> 900000 \<le> s + le_backend_expiration_time lb_sample_env * 1000"
  proof (intro allI impI)
    fix b s assume "(b, s) \<in> set B"
    then have "s = 5" using st(6) by blast
    then show "900000 \<le> s + le_backend_expiration_time lb_sample_env * 1000" by (simp add: e)
  qed
  have n: "(0 :: u16) \<noteq> le_wan_device lb_sample_env" "unat (0 :: u16) < length (le_device_macs lb_sample_env)"
    by (simp_all add: e)
  have "\<exists>st1 st2 st3. \<exists>b \<in> set (ids B).
    lb_process lb_sample_env st (le_wan_device lb_sample_env) 6 (lb_sample 90) =
      Some (Inr (st1, lb_sent lb_sample_env (lb_backend_at st b) (lb_sample 90),
        lb_nic (lb_backend_at st b))) \<and>
    lb_process lb_sample_env st1 0 7 (lb_sample 51) = Some (Inr (st2, lb_read (lb_sample 51), DROP)) \<and>
    lb_process lb_sample_env st2 (le_wan_device lb_sample_env) 900000 (lb_sample 90) =
      Some (Inr (st3, lb_sent lb_sample_env (lb_backend_at st b) (lb_sample 90),
        lb_nic (lb_backend_at st b)))"
    by (rule lb_sticky [OF st(3,4) B _ _ _ _ _ _ _ _ _ _ fresh lb_sample_tcpudp lb_sample_tcpudp
          lb_sample_tcpudp refl n]) (simp_all add: e)
  with st(1,2) show ?thesis unfolding e(1) by blast
qed

end
