(* ===== verification/ConnectionLimiter.thy ===== *)
theory ConnectionLimiter
  imports CountMinSketches NatCorrect
begin

text \<open>
  The connection limiter, \<^verbatim>\<open>dpdk-nfs/cl\<close>. Packets from outside open flows; a sketch estimates
  how many a pair of hosts has opened since it was last cleaned, and beyond a maximum the packets
  of flows that are not in the table are dropped. The key of a flow is padded from 13 to 16 bytes:
  the padding is a parameter of the processing of a packet.
\<close>

section \<open>State\<close>

record cl_flow =
  cl_src_port :: u16
  cl_dst_port :: u16
  cl_src_ip :: u32
  cl_dst_ip :: u32
  cl_protocol :: u8
  cl_padding :: "u8 \<times> u8 \<times> u8"

definition cl_flow_bytes :: "cl_flow \<Rightarrow> bytes" where
  "cl_flow_bytes f =
     bytes16 (cl_src_port f) @ bytes16 (cl_dst_port f) @ bytes32 (cl_src_ip f) @
     bytes32 (cl_dst_ip f) @ [cl_protocol f] @ (case cl_padding f of (a, b, c) \<Rightarrow> [a, b, c])"

record cl_client =
  cc_src_ip :: u32
  cc_dst_ip :: u32

definition cl_client_bytes :: "cl_client \<Rightarrow> bytes" where
  "cl_client_bytes c = bytes32 (cc_src_ip c) @ bytes32 (cc_dst_ip c)"

record cl_state =
  cl_flows :: "int nf_map"
  cl_flows_keys :: "cl_flow nf_vector"
  cl_flow_allocator :: double_chain
  cl_cms :: cms
  cl_int_devices :: "int nf_vector"
  cl_fwd_rules :: "u16 nf_vector"

text \<open>What the functions read of the configuration, and the CRC intrinsic.\<close>

record cl_config =
  cl_crc :: "u32 \<Rightarrow> u32 \<Rightarrow> u32"
  cl_max_clients :: u16
  cl_expiration_time :: u64

definition cl_alloc_state ::
  "int nf_map option \<Rightarrow> cl_flow nf_vector option \<Rightarrow> double_chain option \<Rightarrow> cms option \<Rightarrow>
   int nf_vector option \<Rightarrow> u16 nf_vector option \<Rightarrow> nat \<Rightarrow> u16 list \<Rightarrow> (u16 \<times> u16) list \<Rightarrow>
   cl_state option"
where
  "cl_alloc_state flow_map flows_keys flow_allocator cms ints rules dev_count devices rule_list =
     (case (flow_map, flows_keys, flow_allocator, cms, ints, rules) of
        (Some flow_map, Some flows_keys, Some flow_allocator, Some cms, Some ints, Some rules) \<Rightarrow>
          Some \<lparr>cl_flows = flow_map, cl_flows_keys = flows_keys, cl_flow_allocator = flow_allocator,
                cl_cms = cms,
                cl_int_devices = ints\<lparr>vec_data := map (int_device_entry devices) [0..<dev_count]\<rparr>,
                cl_fwd_rules = rules\<lparr>vec_data := map (fwd_rule_entry rule_list) [0..<dev_count]\<rparr>\<rparr>
      | _ \<Rightarrow> None)"

section \<open>Operations\<close>

text \<open>Unlike the other functions, this one does not compare the two devices.\<close>

definition cl_get_dst_dev :: "u16 nf_vector \<Rightarrow> u16 \<Rightarrow> u16 result" where
  "cl_get_dst_dev fwd_rules src_dev = vector_borrow fwd_rules (uint src_dev)"

definition cl_last_time :: "u64 \<Rightarrow> int \<Rightarrow> int" where
  "cl_last_time expiration_time now = sint ((word_of_int now :: u64) - expiration_time * 1000)"

definition cl_expire_entries :: "cl_config \<Rightarrow> cl_state \<Rightarrow> int \<Rightarrow> cl_state result option" where
  "cl_expire_entries cfg st now =
     (if now < 0 then Some (Inl Assert_Failed)
      else map_option
        (\<lambda>r. rbind r (\<lambda>(chain, m, count).
           Inr (st\<lparr>cl_flow_allocator := chain, cl_flows := m,
                  cl_cms := fst (cms_periodic_cleanup (cl_cms st) now)\<rparr>)))
        (expire_items_single_map (cl_crc cfg) cl_flow_bytes (cl_flow_allocator st) (cl_flows_keys st)
           (cl_flows st) (cl_last_time (cl_expiration_time cfg) now)))"

definition cl_allocate_flow ::
  "cl_config \<Rightarrow> cl_state \<Rightarrow> cl_flow \<Rightarrow> int \<Rightarrow> (cl_state \<times> bool) result"
where
  "cl_allocate_flow cfg st flow time =
     rbind (dchain_allocate_new_index (cl_flow_allocator st) time) (\<lambda>(chain, allocated).
     let st = st\<lparr>cl_flow_allocator := chain\<rparr> in
     case allocated of
       None \<Rightarrow> Inr (st, False)
     | Some flow_index \<Rightarrow>
         rbind (vector_write (cl_flows_keys st) flow_index flow) (\<lambda>keys.
         rbind (map_put (cl_crc cfg) (vector_mem cl_flow_bytes keys) (cl_flows st)
                  flow_index flow_index) (\<lambda>m.
         Inr (st\<lparr>cl_flows_keys := keys, cl_flows := m\<rparr>, True))))"

text \<open>False when the packet should be dropped.\<close>

definition cl_limit_clients ::
  "cl_config \<Rightarrow> cl_state \<Rightarrow> cl_flow \<Rightarrow> int \<Rightarrow> (cl_state \<times> bool) result"
where
  "cl_limit_clients cfg st flow now =
     (let client = cl_client_bytes \<lparr>cc_src_ip = cl_src_ip flow, cc_dst_ip = cl_dst_ip flow\<rparr> in
      case map_get (cl_crc cfg) (vector_mem cl_flow_bytes (cl_flows_keys st)) (cl_flows st)
             (cl_flow_bytes flow) of
        Some flow_index \<Rightarrow>
          rbind (dchain_rejuvenate_index (cl_flow_allocator st) flow_index now) (\<lambda>(chain, _).
          Inr (st\<lparr>cl_flow_allocator := chain\<rparr>, True))
      | None \<Rightarrow>
          rbind (cms_increment (cl_crc cfg) (cl_cms st) client) (\<lambda>sketch.
          rbind (cms_count_min (cl_crc cfg) sketch client) (\<lambda>count.
          let st = st\<lparr>cl_cms := sketch\<rparr> in
          if count > uint (cl_max_clients cfg) then Inr (st, False)
          else rbind (cl_allocate_flow cfg st flow now) (\<lambda>(st, _). Inr (st, True)))))"

section \<open>Packets\<close>

definition cl_packet_flow :: "u8 \<times> u8 \<times> u8 \<Rightarrow> packet \<Rightarrow> cl_flow" where
  "cl_packet_flow padding p =
     \<lparr>cl_src_port = l4_src_port (pk_l4 p), cl_dst_port = l4_dst_port (pk_l4 p),
      cl_src_ip = ip_src_addr (pk_ip p), cl_dst_ip = ip_dst_addr (pk_ip p),
      cl_protocol = ip_next_proto_id (pk_ip p), cl_padding = padding\<rparr>"

text \<open>From the point where the headers are read.\<close>

definition cl_filter ::
  "cl_config \<Rightarrow> cl_state \<Rightarrow> u16 \<Rightarrow> int \<Rightarrow> u8 \<times> u8 \<times> u8 \<Rightarrow> packet \<Rightarrow> (cl_state \<times> packet \<times> u16) result"
where
  "cl_filter cfg st device now padding p =
     rbind (is_internal (cl_int_devices st) device) (\<lambda>internal.
     rbind (if internal then Inr (st, True)
            else cl_limit_clients cfg st (cl_packet_flow padding p) now) (\<lambda>(st, pass).
     if \<not> pass then Inr (st, p, DROP)
     else rbind (cl_get_dst_dev (cl_fwd_rules st) device) (\<lambda>dst. Inr (st, p, dst))))"

definition cl_handle ::
  "cl_config \<Rightarrow> cl_state \<Rightarrow> u16 \<Rightarrow> int \<Rightarrow> u8 \<times> u8 \<times> u8 \<Rightarrow> packet \<Rightarrow> (cl_state \<times> packet \<times> u16) result"
where
  "cl_handle cfg st device now padding p =
     rbind (nf_then_get_ether_header p) (\<lambda>p.
     rbind (nf_then_get_ipv4_header p) (\<lambda>ip. case ip of
       None \<Rightarrow> Inr (st, p, DROP)
     | Some p \<Rightarrow>
     rbind (nf_then_get_tcpudp_header p) (\<lambda>l4. case l4 of
       None \<Rightarrow> Inr (st, p, DROP)
     | Some p \<Rightarrow> cl_filter cfg st device now padding p)))"

definition cl_process ::
  "cl_config \<Rightarrow> cl_state \<Rightarrow> u16 \<Rightarrow> int \<Rightarrow> u8 \<times> u8 \<times> u8 \<Rightarrow> packet \<Rightarrow>
     (cl_state \<times> packet \<times> u16) result option"
where
  "cl_process cfg st device now padding p =
     map_option (\<lambda>r. rbind r (\<lambda>st. cl_handle cfg st device now padding p))
       (cl_expire_entries cfg st now)"

section \<open>The invariant\<close>

lemma cms_rows_times:
  "cms_increment_rows crc cms key hs = Inr cms' \<Longrightarrow>
     cms_last_cleanup cms' = cms_last_cleanup cms \<and> cms_cleanup_interval cms' = cms_cleanup_interval cms"
  by (induction crc cms key hs rule: cms_increment_rows.induct) (auto simp: rbind_eq_Inr)

lemma cms_increment_times:
  "cms_increment crc cms key = Inr cms' \<Longrightarrow>
     cms_last_cleanup cms' = cms_last_cleanup cms \<and> cms_cleanup_interval cms' = cms_cleanup_interval cms"
  unfolding cms_increment_def by (rule cms_rows_times)

lemma cl_flow_bytes_inj: "cl_flow_bytes f = cl_flow_bytes g \<Longrightarrow> f = g"
  by (cases f; cases g) (simp add: cl_flow_bytes_def split: prod.splits)

lemma cl_flow_bytes_length [simp]: "length (cl_flow_bytes f) = 16"
  by (simp add: cl_flow_bytes_def split: prod.splits)

lemma cl_client_bytes_inj: "cl_client_bytes c = cl_client_bytes d \<Longrightarrow> c = d"
  by (cases c; cases d) (simp add: cl_client_bytes_def)

interpretation cl_table: nf_flows crc capacity 16 cl_flow_bytes for crc capacity
  by unfold_locales (simp add: cl_flow_bytes_inj)

abbreviation cl_flow_at :: "cl_state \<Rightarrow> int \<Rightarrow> cl_flow" where
  "cl_flow_at st i \<equiv> vec_data (cl_flows_keys st) ! nat i"

text \<open>The last argument is what the sketch has counted since it was cleaned.\<close>

definition cl_wf ::
  "cl_config \<Rightarrow> u32 \<Rightarrow> cl_state \<Rightarrow> aged \<Rightarrow> int list \<Rightarrow> bytes list \<Rightarrow> bool"
where
  "cl_wf cfg n st L F ks \<longleftrightarrow>
     table_flows chain_rep (map_rep (cl_crc cfg) n 16) (unat n) cl_flow_bytes
       (cl_flow_allocator st) (cl_flows_keys st) (cl_flows st) L F \<and>
     cms_shape (cl_cms st) \<and> cms_counts (cl_crc cfg) (cl_cms st) ks \<and> length ks < 2 ^ 64"

definition cl_same_devices :: "cl_state \<Rightarrow> cl_state \<Rightarrow> bool" where
  "cl_same_devices st st' \<longleftrightarrow>
     cl_int_devices st' = cl_int_devices st \<and> cl_fwd_rules st' = cl_fwd_rules st"

lemma cl_same_devices_refl [simp]: "cl_same_devices st st"
  by (simp add: cl_same_devices_def)

lemma cl_same_devices_trans: "cl_same_devices a b \<Longrightarrow> cl_same_devices b c \<Longrightarrow> cl_same_devices a c"
  by (simp add: cl_same_devices_def)

abbreviation client_of :: "cl_flow \<Rightarrow> bytes" where
  "client_of f \<equiv> cl_client_bytes \<lparr>cc_src_ip = cl_src_ip f, cc_dst_ip = cl_dst_ip f\<rparr>"

text \<open>The flows in the table.\<close>

definition cl_known :: "cl_state \<Rightarrow> aged \<Rightarrow> cl_flow set" where
  "cl_known st L = cl_flow_at st ` set (ids L)"

lemma cl_wfD:
  assumes "cl_wf cfg n st L F ks"
  shows "table_flows chain_rep (map_rep (cl_crc cfg) n 16) (unat n) cl_flow_bytes
       (cl_flow_allocator st) (cl_flows_keys st) (cl_flows st) L F"
    "cms_shape (cl_cms st)" "cms_counts (cl_crc cfg) (cl_cms st) ks" "length ks < 2 ^ 64"
  using assms by (simp_all add: cl_wf_def)

section \<open>What the limiter does\<close>

lemma cl_expire_correct:
  assumes wf: "cl_wf cfg n st L F ks" and "0 \<le> now"
    and window: "cms_last_cleanup (cl_cms st) = 0 \<or>
      now - cms_last_cleanup (cl_cms st) < cms_cleanup_interval (cl_cms st)"
  obtains st' L' F' where "cl_expire_entries cfg st now = Some (Inr st')" "cl_wf cfg n st' L' F' ks"
    "cl_known st' L' \<subseteq> cl_known st L" "cl_same_devices st st'"
    "cms_last_cleanup (cl_cms st') =
       (if cms_last_cleanup (cl_cms st) = 0 then now else cms_last_cleanup (cl_cms st))"
    "cms_cleanup_interval (cl_cms st') = cms_cleanup_interval (cl_cms st)"
proof -
  let ?t = "cl_last_time (cl_expiration_time cfg) now"
  let ?k = "expired_count ?t L"
  note w = cl_wfD [OF wf]
  from cl_table.expire_items_correct [OF w(1), of ?t] obtain chain m where
    x: "expire_items_single_map (cl_crc cfg) cl_flow_bytes (cl_flow_allocator st) (cl_flows_keys st)
          (cl_flows st) ?t = Some (Inr (chain, m, int ?k))"
      "table_flows chain_rep (map_rep (cl_crc cfg) n 16) (unat n) cl_flow_bytes
        chain (cl_flows_keys st) m (drop ?k L) (rev (ids (take ?k L)) @ F)" by blast
  let ?cms = "fst (cms_periodic_cleanup (cl_cms st) now)"
  let ?st = "st\<lparr>cl_flow_allocator := chain, cl_flows := m, cl_cms := ?cms\<rparr>"
  have c: "?cms = (if cms_last_cleanup (cl_cms st) = 0 then (cl_cms st)\<lparr>cms_last_cleanup := now\<rparr>
      else cl_cms st)"
    using window by (auto simp: cms_periodic_cleanup_def)
  have sh: "same_shape (cl_cms st) ?cms" "cms_buckets ?cms = cms_buckets (cl_cms st)"
    unfolding c by (simp_all add: same_shape_def)
  have "cms_counts (cl_crc cfg) ?cms ks"
    using w(3) by (simp add: cms_counts_def sh(2) same_shapeD(2-4) [OF sh(1)])
  then have "cl_wf cfg n ?st (drop ?k L) (rev (ids (take ?k L)) @ F) ks"
    using x(2) w(2,4) same_shapeD(1) [OF sh(1)] by (simp add: cl_wf_def)
  moreover have "cl_known ?st (drop ?k L) \<subseteq> cl_known st L"
    by (auto simp: cl_known_def dest: in_set_dropD)
  moreover have "cl_expire_entries cfg st now = Some (Inr ?st)"
    using assms(2) x(1) by (simp add: cl_expire_entries_def)
  ultimately show thesis
    by (intro that [of ?st "drop ?k L" "rev (ids (take ?k L)) @ F"])
      (simp_all add: cl_same_devices_def c)
qed

lemma cl_allocate_cases:
  assumes wf: "cl_wf cfg n st L F ks" and new: "flow \<notin> cl_known st L"
  obtains st' L' F' found where "cl_allocate_flow cfg st flow now = Inr (st', found)"
    "cl_wf cfg n st' L' F' ks" "cl_known st' L' \<subseteq> insert flow (cl_known st L)"
    "cl_same_devices st st'" "cl_cms st' = cl_cms st"
proof (cases F)
  case Nil
  note w = cl_wfD [OF wf]
  from cl_table.tab.insert_full [OF w(1) [unfolded Nil], of now] obtain chain where
    c: "dchain_allocate_new_index (cl_flow_allocator st) now = Inr (chain, None)"
    "table_flows chain_rep (map_rep (cl_crc cfg) n 16) (unat n) cl_flow_bytes
       chain (cl_flows_keys st) (cl_flows st) L []" by blast
  with w(2-4) show thesis
    by (intro that [of "st\<lparr>cl_flow_allocator := chain\<rparr>" False L "[]"])
      (auto simp: cl_allocate_flow_def Let_def cl_wf_def cl_known_def cl_same_devices_def)
next
  case (Cons f F')
  note w = cl_wfD [OF wf]
  have new': "\<forall>i \<in> set (ids L). cl_flow_at st i \<noteq> flow"
    using new unfolding cl_known_def by blast
  let ?keys = "(cl_flows_keys st)\<lparr>vec_data := (vec_data (cl_flows_keys st))[nat f := flow]\<rparr>"
  from cl_table.tab.insert_flow [OF w(1) [unfolded Cons] new', of now] obtain chain m where
    i: "dchain_allocate_new_index (cl_flow_allocator st) now = Inr (chain, Some f)"
    "vector_write (cl_flows_keys st) f flow = Inr ?keys"
    "map_put (cl_crc cfg) (vector_mem cl_flow_bytes ?keys) (cl_flows st) f f = Inr m"
    "table_flows chain_rep (map_rep (cl_crc cfg) n 16) (unat n) cl_flow_bytes
       chain ?keys m (L @ [(f, now)]) F'" by blast
  let ?st = "st\<lparr>cl_flow_allocator := chain, cl_flows_keys := ?keys, cl_flows := m\<rparr>"
  have "cl_flow_at ?st j \<in> insert flow (cl_known st L)" if "j \<in> set (ids (L @ [(f, now)]))" for j
  proof (cases "nat j = nat f")
    case True
    have "0 \<le> f" "f < int (length (vec_data (cl_flows_keys st)))"
      using cl_table.tab.flows_range [OF w(1), of f] Cons by simp_all
    then have "nat f < length (vec_data (cl_flows_keys st))" by (simp add: nat_less_iff)
    with True show ?thesis by simp
  next
    case False
    then have "j \<in> set (ids L)" using that by auto
    with False show ?thesis by (simp add: cl_known_def)
  qed
  then have "cl_known ?st (L @ [(f, now)]) \<subseteq> insert flow (cl_known st L)"
    unfolding cl_known_def by blast
  moreover have "cl_wf cfg n ?st (L @ [(f, now)]) F' ks" using i(4) w(2-4) by (simp add: cl_wf_def)
  moreover have "cl_allocate_flow cfg st flow now = Inr (?st, True)"
    using i(1-3) by (simp add: cl_allocate_flow_def Let_def)
  ultimately show thesis
    by (intro that [of ?st True "L @ [(f, now)]" F']) (simp_all add: cl_same_devices_def)
qed

lemma cl_counted:
  assumes wf: "cl_wf cfg n st L F ks" and len: "length ks + 1 < 2 ^ 64"
  obtains sketch count where "cms_increment (cl_crc cfg) (cl_cms st) client = Inr sketch"
    "cms_count_min (cl_crc cfg) sketch client = Inr count"
    "cl_wf cfg n (st\<lparr>cl_cms := sketch\<rparr>) L F (ks @ [client])"
    "count \<le> uint (cl_max_clients cfg) \<longrightarrow> int (count_list ks client) + 1 \<le> count"
    "cms_last_cleanup sketch = cms_last_cleanup (cl_cms st)"
    "cms_cleanup_interval sketch = cms_cleanup_interval (cl_cms st)"
proof -
  note w = cl_wfD [OF wf]
  from cms_increment_correct [OF w(2,3), of client] obtain sketch where
    s: "cms_increment (cl_crc cfg) (cl_cms st) client = Inr sketch" "same_shape (cl_cms st) sketch"
      "cms_counts (cl_crc cfg) sketch (ks @ [client])" by blast
  have sh: "cms_shape sketch" using w(2) same_shapeD(1) [OF s(2)] by simp
  have l: "length (ks @ [client]) < 2 ^ 64" using len by simp
  from cms_count_min_correct [OF sh s(3) l, of client] obtain count where
    c: "cms_count_min (cl_crc cfg) sketch client = Inr count"
      "count = 2147483647 \<or> (\<exists>h < unat (cms_height sketch).
         count = int (colliding (cl_crc cfg) sketch (ks @ [client]) client h))" by blast
  have "uint (cl_max_clients cfg) < 2 ^ LENGTH(16)" by (rule uint_bounded)
  moreover have "int (count_list ks client) + 1 \<le> count" if small: "count < 2 ^ 16"
  proof -
    obtain h where "count = int (colliding (cl_crc cfg) sketch (ks @ [client]) client h)"
      using c(2) small by auto
    moreover have "count_list ks client + 1 \<le> colliding (cl_crc cfg) sketch (ks @ [client]) client h"
      using count_le_colliding [of "ks @ [client]" client "cl_crc cfg" sketch h] by simp
    ultimately show ?thesis by linarith
  qed
  ultimately have "count \<le> uint (cl_max_clients cfg) \<longrightarrow> int (count_list ks client) + 1 \<le> count" by simp
  moreover have "cms_last_cleanup sketch = cms_last_cleanup (cl_cms st)"
    "cms_cleanup_interval sketch = cms_cleanup_interval (cl_cms st)"
    using cms_increment_times [OF s(1)] by simp_all
  ultimately show thesis
    using s c(1) sh l w(1) by (intro that [of sketch count]) (simp_all add: cl_wf_def)
qed

text \<open>
  The flows \<open>A\<close> of one client that were let in: those in the table are among them, and there are no
  more than the client was counted, nor than the maximum.
\<close>

definition cl_inv ::
  "cl_config \<Rightarrow> u32 \<Rightarrow> bytes \<Rightarrow> cl_state \<Rightarrow> aged \<Rightarrow> int list \<Rightarrow> bytes list \<Rightarrow> cl_flow set \<Rightarrow> bool"
where
  "cl_inv cfg n c st L F ks A \<longleftrightarrow>
     cl_wf cfg n st L F ks \<and> finite A \<and> {f \<in> cl_known st L. client_of f = c} \<subseteq> A \<and>
     card A \<le> count_list ks c \<and> card A \<le> unat (cl_max_clients cfg)"

lemma cl_limit_step:
  assumes inv: "cl_inv cfg n c st L F ks A" and len: "length ks + 1 < 2 ^ 64"
  obtains st' L' F' ks' pass A' where "cl_limit_clients cfg st flow now = Inr (st', pass)"
    "cl_inv cfg n c st' L' F' ks' A'" "length ks' \<le> length ks + 1" "cl_same_devices st st'"
    "cms_last_cleanup (cl_cms st') = cms_last_cleanup (cl_cms st)"
    "cms_cleanup_interval (cl_cms st') = cms_cleanup_interval (cl_cms st)"
    "A \<subseteq> A'" "pass \<and> client_of flow = c \<longrightarrow> flow \<in> A'"
proof (cases "flow \<in> cl_known st L")
  case True
  have wf: "cl_wf cfg n st L F ks" using inv by (simp add: cl_inv_def)
  note w = cl_wfD [OF wf]
  from True obtain i where i: "i \<in> set (ids L)" "cl_flow_at st i = flow" by (auto simp: cl_known_def)
  have g: "map_get (cl_crc cfg) (vector_mem cl_flow_bytes (cl_flows_keys st)) (cl_flows st)
      (cl_flow_bytes flow) = Some i"
    using cl_table.tab.get_flow [OF w(1), of flow i] i by simp
  from cl_table.tab.rejuvenate_flow [OF w(1) i(1), of now] obtain chain where
    d: "dchain_rejuvenate_index (cl_flow_allocator st) i now = Inr (chain, True)"
    "table_flows chain_rep (map_rep (cl_crc cfg) n 16) (unat n) cl_flow_bytes
       chain (cl_flows_keys st) (cl_flows st) (forget i L @ [(i, now)]) F" by blast
  let ?st = "st\<lparr>cl_flow_allocator := chain\<rparr>"
  have "cl_known ?st (forget i L @ [(i, now)]) \<subseteq> cl_known st L" using i(1) by (auto simp: cl_known_def)
  then have "cl_inv cfg n c ?st (forget i L @ [(i, now)]) F ks A"
    using inv d(2) w(2-4) by (auto simp: cl_inv_def cl_wf_def)
  moreover have "client_of flow = c \<longrightarrow> flow \<in> A" using inv True by (auto simp: cl_inv_def)
  ultimately show thesis
    using g d(1)
    by (intro that [of ?st True "forget i L @ [(i, now)]" F ks A])
      (simp_all add: cl_limit_clients_def cl_same_devices_def)
next
  case False
  have wf: "cl_wf cfg n st L F ks" using inv by (simp add: cl_inv_def)
  note w = cl_wfD [OF wf]
  have "\<forall>i \<in> set (ids L). cl_flow_at st i \<noteq> flow" using False by (auto simp: cl_known_def)
  then have g: "map_get (cl_crc cfg) (vector_mem cl_flow_bytes (cl_flows_keys st)) (cl_flows st)
      (cl_flow_bytes flow) = None"
    using cl_table.tab.get_flow_None [OF w(1), of flow] by simp
  obtain sketch count where k: "cms_increment (cl_crc cfg) (cl_cms st) (client_of flow) = Inr sketch"
    "cms_count_min (cl_crc cfg) sketch (client_of flow) = Inr count"
    "cl_wf cfg n (st\<lparr>cl_cms := sketch\<rparr>) L F (ks @ [client_of flow])"
    "count \<le> uint (cl_max_clients cfg) \<longrightarrow> int (count_list ks (client_of flow)) + 1 \<le> count"
    "cms_last_cleanup sketch = cms_last_cleanup (cl_cms st)"
    "cms_cleanup_interval sketch = cms_cleanup_interval (cl_cms st)"
    by (rule cl_counted [OF wf len])
  let ?st = "st\<lparr>cl_cms := sketch\<rparr>"
  have kn: "cl_known ?st L = cl_known st L" by (simp add: cl_known_def)
  show thesis
  proof (cases "count > uint (cl_max_clients cfg)")
    case True
    have "cl_inv cfg n c ?st L F (ks @ [client_of flow]) A"
      using inv k(3) by (auto simp: cl_inv_def kn)
    with True g k show thesis
      by (intro that [of ?st False L F "ks @ [client_of flow]" A])
        (simp_all add: cl_limit_clients_def cl_same_devices_def Let_def)
  next
    case le: False
    let ?A = "if client_of flow = c then insert flow A else A"
    obtain st' L' F' found where a: "cl_allocate_flow cfg ?st flow now = Inr (st', found)"
      "cl_wf cfg n st' L' F' (ks @ [client_of flow])"
      "cl_known st' L' \<subseteq> insert flow (cl_known st L)" "cl_same_devices ?st st'" "cl_cms st' = sketch"
      by (rule cl_allocate_cases [OF k(3), unfolded kn, OF False]) simp
    have i: "finite A" "{f \<in> cl_known st L. client_of f = c} \<subseteq> A" "card A \<le> count_list ks c"
      "card A \<le> unat (cl_max_clients cfg)" using inv by (simp_all add: cl_inv_def)
    have A: "card ?A \<le> count_list (ks @ [client_of flow]) c \<and> card ?A \<le> unat (cl_max_clients cfg)"
    proof (cases "client_of flow = c")
      case True
      have "card (insert flow A) \<le> count_list ks c + 1" using card_insert_le_m1 i(1,3) by (simp add: card_insert_if)
      moreover have "int (count_list ks c + 1) \<le> int (unat (cl_max_clients cfg))"
        using k(4) le True by simp
      then have "count_list ks c + 1 \<le> unat (cl_max_clients cfg)" by (simp only: of_nat_le_iff)
      ultimately show ?thesis using True by simp
    qed (use i in simp)
    have "{f \<in> cl_known st' L'. client_of f = c} \<subseteq> ?A" using a(3) i(2) by auto
    then have "cl_inv cfg n c st' L' F' (ks @ [client_of flow]) ?A"
      using a(2) i(1) A by (simp add: cl_inv_def)
    moreover have "cl_same_devices st st'" using a(4) by (simp add: cl_same_devices_def)
    moreover have "cl_limit_clients cfg st flow now = Inr (st', True)"
      using g k(1,2) le a(1) by (simp add: cl_limit_clients_def Let_def)
    ultimately show thesis
      using k(5,6) a(5) by (intro that [of st' True L' F' "ks @ [client_of flow]" ?A]) auto
  qed
qed

section \<open>Packets in a row\<close>

definition cl_has_devices :: "cl_state \<Rightarrow> u16 \<Rightarrow> bool" where
  "cl_has_devices st device \<longleftrightarrow>
     uint device < int (length (vec_data (cl_int_devices st))) \<and>
     uint device < int (length (vec_data (cl_fwd_rules st)))"

definition cl_internal :: "cl_state \<Rightarrow> u16 \<Rightarrow> bool" where
  "cl_internal st device \<longleftrightarrow> vec_data (cl_int_devices st) ! unat device \<noteq> 0"

lemma cl_devices_run:
  assumes "cl_has_devices st device"
  shows "is_internal (cl_int_devices st) device = Inr (cl_internal st device)"
    "\<exists>dst. cl_get_dst_dev (cl_fwd_rules st) device = Inr dst"
  using assms
  by (simp_all add: cl_has_devices_def is_internal_def cl_get_dst_dev_def vector_borrow_def cl_internal_def)

lemma cl_same_devices_devices:
  assumes "cl_same_devices st st'"
  shows "cl_has_devices st' d = cl_has_devices st d" "cl_internal st' d = cl_internal st d"
  using assms by (simp_all add: cl_same_devices_def cl_has_devices_def cl_internal_def)

lemma cl_packet_flow_read [simp]: "cl_packet_flow padding (headers_read p) = cl_packet_flow padding p"
  by (simp add: cl_packet_flow_def headers_read_def)

lemma cl_filter_step:
  assumes inv: "cl_inv cfg n c st L F ks A" and len: "length ks + 1 < 2 ^ 64" and dev: "cl_has_devices st d"
  obtains st' L' F' ks' out A' where "cl_filter cfg st d now padding (headers_read p) = Inr (st', headers_read p, out)"
    "cl_inv cfg n c st' L' F' ks' A'" "length ks' \<le> length ks + 1" "cl_same_devices st st'"
    "cms_last_cleanup (cl_cms st') = cms_last_cleanup (cl_cms st)"
    "cms_cleanup_interval (cl_cms st') = cms_cleanup_interval (cl_cms st)"
    "A \<subseteq> A'" "\<not> cl_internal st d \<and> out \<noteq> DROP \<and> client_of (cl_packet_flow padding p) = c \<longrightarrow>
       cl_packet_flow padding p \<in> A'"
proof (cases "cl_internal st d")
  case True
  from cl_devices_run(2) [OF dev] obtain dst where "cl_get_dst_dev (cl_fwd_rules st) d = Inr dst" by blast
  with True inv cl_devices_run(1) [OF dev] show thesis
    by (intro that [of st dst L F ks A]) (simp_all add: cl_filter_def)
next
  case False
  obtain st' L' F' ks' pass A' where l:
    "cl_limit_clients cfg st (cl_packet_flow padding p) now = Inr (st', pass)"
    "cl_inv cfg n c st' L' F' ks' A'" "length ks' \<le> length ks + 1" "cl_same_devices st st'"
    "cms_last_cleanup (cl_cms st') = cms_last_cleanup (cl_cms st)"
    "cms_cleanup_interval (cl_cms st') = cms_cleanup_interval (cl_cms st)"
    "A \<subseteq> A'" "pass \<and> client_of (cl_packet_flow padding p) = c \<longrightarrow> cl_packet_flow padding p \<in> A'"
    by (rule cl_limit_step [OF inv len])
  have "cl_has_devices st' d" using dev l(4) by (simp add: cl_same_devices_devices)
  from cl_devices_run(2) [OF this] obtain dst where
    dst: "cl_get_dst_dev (cl_fwd_rules st') d = Inr dst" by blast
  have "cl_filter cfg st d now padding (headers_read p) =
      Inr (st', headers_read p, if pass then dst else DROP)"
    using False cl_devices_run(1) [OF dev] l(1) dst by (simp add: cl_filter_def)
  from that [OF this l(2-7)] l(8) show thesis by simp
qed

text \<open>No cleanup in a window that starts at \<open>t0\<close>.\<close>

definition cl_window :: "int \<Rightarrow> cl_state \<Rightarrow> bool" where
  "cl_window t0 st \<longleftrightarrow> cms_last_cleanup (cl_cms st) = 0 \<or> t0 \<le> cms_last_cleanup (cl_cms st)"

lemma cl_process_step:
  assumes inv: "cl_inv cfg n c st L F ks A" and len: "length ks + 1 < 2 ^ 64" and dev: "cl_has_devices st d"
    and t: "cl_window t0 st" "0 \<le> now" "t0 \<le> now" "now < t0 + cms_cleanup_interval (cl_cms st)"
    and p: "fresh_packet p"
  obtains st' p' out L' F' ks' A' where "cl_process cfg st d now padding p = Some (Inr (st', p', out))"
    "cl_inv cfg n c st' L' F' ks' A'" "length ks' \<le> length ks + 1" "cl_same_devices st st'"
    "cl_window t0 st'" "cms_cleanup_interval (cl_cms st') = cms_cleanup_interval (cl_cms st)"
    "A \<subseteq> A'" "\<not> cl_internal st d \<and> out \<noteq> DROP \<and> client_of (cl_packet_flow padding p) = c \<longrightarrow>
       cl_packet_flow padding p \<in> A'"
proof -
  have wf: "cl_wf cfg n st L F ks" using inv by (simp add: cl_inv_def)
  have w: "cms_last_cleanup (cl_cms st) = 0 \<or>
      now - cms_last_cleanup (cl_cms st) < cms_cleanup_interval (cl_cms st)"
    using t(1,4) by (auto simp: cl_window_def)
  obtain st0 L0 F0 where s0: "cl_expire_entries cfg st now = Some (Inr st0)" "cl_wf cfg n st0 L0 F0 ks"
    "cl_known st0 L0 \<subseteq> cl_known st L" "cl_same_devices st st0"
    "cms_last_cleanup (cl_cms st0) =
       (if cms_last_cleanup (cl_cms st) = 0 then now else cms_last_cleanup (cl_cms st))"
    "cms_cleanup_interval (cl_cms st0) = cms_cleanup_interval (cl_cms st)"
    by (rule cl_expire_correct [OF wf t(2) w])
  have inv0: "cl_inv cfg n c st0 L0 F0 ks A" using inv s0(2,3) by (auto simp: cl_inv_def)
  have win0: "cl_window t0 st0" using t(1,3) s0(5) by (auto simp: cl_window_def)
  have run: "cl_process cfg st d now padding p = Some (cl_handle cfg st0 d now padding p)"
    using s0(1) by (simp add: cl_process_def)
  have dev0: "cl_has_devices st0 d" "cl_internal st0 d = cl_internal st d"
    using dev s0(4) by (simp_all add: cl_same_devices_devices)
  from headers_total [OF p] consider p' where "cl_handle cfg st0 d now padding p = Inr (st0, p', DROP)"
    | "cl_handle cfg st0 d now padding p = cl_filter cfg st0 d now padding (headers_read p)"
    by (auto simp: cl_handle_def)
  then show thesis
  proof cases
    case 1
    then show thesis
      using run inv0 s0(4,6) win0 by (intro that [of st0 p' DROP L0 F0 ks A]) simp_all
  next
    case 2
    obtain st' L' F' ks' out A' where f:
      "cl_filter cfg st0 d now padding (headers_read p) = Inr (st', headers_read p, out)"
      "cl_inv cfg n c st' L' F' ks' A'" "length ks' \<le> length ks + 1" "cl_same_devices st0 st'"
      "cms_last_cleanup (cl_cms st') = cms_last_cleanup (cl_cms st0)"
      "cms_cleanup_interval (cl_cms st') = cms_cleanup_interval (cl_cms st0)"
      "A \<subseteq> A'" "\<not> cl_internal st0 d \<and> out \<noteq> DROP \<and> client_of (cl_packet_flow padding p) = c \<longrightarrow>
         cl_packet_flow padding p \<in> A'"
      by (rule cl_filter_step [OF inv0 len dev0(1)])
    have "cl_window t0 st'" using win0 f(5) by (simp add: cl_window_def)
    with f s0(4,6) run 2 dev0(2) cl_same_devices_trans [OF s0(4) f(4)] show thesis
      by (intro that [of st' "headers_read p" out L' F' ks' A']) simp_all
  qed
qed

text \<open>A sequence of packets, each with its device, its time and the padding of its key.\<close>

type_synonym cl_event = "u16 \<times> int \<times> (u8 \<times> u8 \<times> u8) \<times> packet"

fun cl_run :: "cl_config \<Rightarrow> cl_state \<Rightarrow> cl_event list \<Rightarrow> (cl_state \<times> u16 list) result option" where
  "cl_run cfg st [] = Some (Inr (st, []))"
| "cl_run cfg st ((d, now, padding, p) # es) =
     (case cl_process cfg st d now padding p of
        None \<Rightarrow> None
      | Some (Inl e) \<Rightarrow> Some (Inl e)
      | Some (Inr (st, p, out)) \<Rightarrow>
          map_option (\<lambda>r. rbind r (\<lambda>(st, outs). Inr (st, out # outs))) (cl_run cfg st es))"

text \<open>The flows of a client that were let in from outside.\<close>

fun cl_let_in :: "cl_state \<Rightarrow> bytes \<Rightarrow> cl_event list \<Rightarrow> u16 list \<Rightarrow> cl_flow set" where
  "cl_let_in st c ((d, now, padding, p) # es) (out # outs) =
     (if \<not> cl_internal st d \<and> out \<noteq> DROP \<and> client_of (cl_packet_flow padding p) = c
      then {cl_packet_flow padding p} else {}) \<union> cl_let_in st c es outs"
| "cl_let_in st c es outs = {}"

definition cl_admissible :: "int \<Rightarrow> cl_state \<Rightarrow> cl_event \<Rightarrow> bool" where
  "cl_admissible t0 st e \<longleftrightarrow>
     (case e of (d, now, padding, p) \<Rightarrow> cl_has_devices st d \<and> fresh_packet p \<and> 0 \<le> now \<and> t0 \<le> now \<and>
        now < t0 + cms_cleanup_interval (cl_cms st))"

lemma cl_let_in_same_devices:
  "cl_same_devices st st' \<Longrightarrow> cl_let_in st' c es outs = cl_let_in st c es outs"
  by (induction st c es outs rule: cl_let_in.induct) (simp_all add: cl_same_devices_devices)

lemma cl_run_correct:
  assumes "cl_inv cfg n c st L F ks A" "cl_window t0 st" "\<forall>e \<in> set es. cl_admissible t0 st e"
    and "length ks + length es < 2 ^ 64"
  shows "\<exists>st' outs A'. cl_run cfg st es = Some (Inr (st', outs)) \<and> length outs = length es \<and>
    A \<subseteq> A' \<and> cl_let_in st c es outs \<subseteq> A' \<and> finite A' \<and> card A' \<le> unat (cl_max_clients cfg)"
  using assms
proof (induction es arbitrary: st L F ks A)
  case Nil
  then show ?case by (auto simp: cl_inv_def)
next
  case (Cons e es)
  obtain d now padding p where e: "e = (d, now, padding, p)" by (cases e)
  have a: "cl_has_devices st d" "fresh_packet p" "0 \<le> now" "t0 \<le> now"
    "now < t0 + cms_cleanup_interval (cl_cms st)"
    using Cons.prems(3) by (simp_all add: e cl_admissible_def)
  have l: "length ks + 1 < 2 ^ 64" using Cons.prems(4) by simp
  obtain st1 p1 out L1 F1 ks1 A1 where s: "cl_process cfg st d now padding p = Some (Inr (st1, p1, out))"
    "cl_inv cfg n c st1 L1 F1 ks1 A1" "length ks1 \<le> length ks + 1" "cl_same_devices st st1"
    "cl_window t0 st1" "cms_cleanup_interval (cl_cms st1) = cms_cleanup_interval (cl_cms st)"
    "A \<subseteq> A1" "\<not> cl_internal st d \<and> out \<noteq> DROP \<and> client_of (cl_packet_flow padding p) = c \<longrightarrow>
       cl_packet_flow padding p \<in> A1"
    by (rule cl_process_step [OF Cons.prems(1) l a(1) Cons.prems(2) a(3-5,2)])
  have "\<forall>e \<in> set es. cl_admissible t0 st1 e"
    using Cons.prems(3) s(4,6) by (simp add: cl_admissible_def cl_same_devices_devices)
  moreover have "length ks1 + length es < 2 ^ 64" using Cons.prems(4) s(3) by simp
  ultimately obtain st' outs A' where r: "cl_run cfg st1 es = Some (Inr (st', outs))"
    "length outs = length es" "A1 \<subseteq> A'" "cl_let_in st1 c es outs \<subseteq> A'" "finite A'"
    "card A' \<le> unat (cl_max_clients cfg)"
    using Cons.IH [OF s(2,5)] by blast
  have "cl_let_in st c (e # es) (out # outs) \<subseteq> A'"
    using r(3,4) s(8) by (auto simp: e cl_let_in_same_devices [OF s(4)])
  moreover have "cl_run cfg st (e # es) = Some (Inr (st', out # outs))" using s(1) r(1) by (simp add: e)
  moreover have "A \<subseteq> A'" using s(7) r(3) by blast
  ultimately show ?case using r(2,5,6)
    by (intro exI [of _ st'] exI [of _ "out # outs"] exI [of _ A']) simp
qed

text \<open>C25. Between two cleanups of the sketch, a pair of hosts gets at most the configured number of flows
  in: however the packets of all hosts are mixed and whatever expires meanwhile, the flows with
  that source and destination of which a packet from outside was forwarded are at most
  \<open>max_clients\<close>, because the sketch never underestimates. (The table starts empty, the sketch
  cleared.)\<close>
theorem cl_limits_flows:
  assumes "cl_wf cfg n st [] F []" "cl_window t0 st" "\<forall>e \<in> set es. cl_admissible t0 st e"
    and "length es < 2 ^ 64"
  shows "\<exists>st' outs. cl_run cfg st es = Some (Inr (st', outs)) \<and> length outs = length es \<and>
    card (cl_let_in st (cl_client_bytes c) es outs) \<le> unat (cl_max_clients cfg)"
proof -
  have "cl_inv cfg n (cl_client_bytes c) st [] F [] {}"
    using assms(1) by (simp add: cl_inv_def cl_known_def)
  from cl_run_correct [OF this assms(2,3)] assms(4) obtain st' outs A' where
    r: "cl_run cfg st es = Some (Inr (st', outs))" "length outs = length es"
      "cl_let_in st (cl_client_bytes c) es outs \<subseteq> A'" "finite A'" "card A' \<le> unat (cl_max_clients cfg)"
    by auto
  have "card (cl_let_in st (cl_client_bytes c) es outs) \<le> card A'" by (rule card_mono [OF r(4,3)])
  with r show ?thesis by auto
qed

section \<open>A limiter at the start\<close>

definition zero_cl_flow :: cl_flow where
  "zero_cl_flow = \<lparr>cl_src_port = 0, cl_dst_port = 0, cl_src_ip = 0, cl_dst_ip = 0,
     cl_protocol = 0, cl_padding = (0, 0, 0)\<rparr>"

text \<open>Room for two flows, a sketch of two rows of two, cleaned after 1000 (nanoseconds) of its clock.\<close>

definition fresh_cl :: "cl_state option" where
  "fresh_cl =
     (case dchain_allocate True (Some (replicate 4 \<lparr>dc_prev = 0, dc_next = 0\<rparr>)) (Some (replicate 2 0)) 2 of
        Inl e \<Rightarrow> None
      | Inr chain \<Rightarrow>
          (case cms_allocate True True (Some (replicate 8 7)) 2 2 8 1000 of
             Inl e \<Rightarrow> None
           | Inr sketch \<Rightarrow>
               cl_alloc_state
                 (map_allocate True (Some (replicate 2 0)) (Some (replicate 2 0)) (Some (replicate 2 0))
                   (Some (replicate 2 0)) (Some (replicate 2 0)) 2 16)
                 (vector_allocate True (Some (replicate 2 zero_cl_flow)) zero_cl_flow 2)
                 chain sketch
                 (vector_allocate True (Some [0, 0]) 0 2) (vector_allocate True (Some [0, 0]) 0 2)
                 2 [0] [(0, 1), (1, 0)]))"

definition cl_sample_config :: cl_config where
  "cl_sample_config = \<lparr>cl_crc = (\<lambda>h x. h XOR x), cl_max_clients = 1, cl_expiration_time = 1000\<rparr>"

lemma fresh_cl_wf:
  obtains st where "fresh_cl = Some st" "cl_wf cl_sample_config 2 st [] [0, 1] []"
    "cl_has_devices st 1" "\<not> cl_internal st 1" "cms_last_cleanup (cl_cms st) = 0"
    "cms_cleanup_interval (cl_cms st) = 1000"
proof -
  let ?cells = "replicate 4 \<lparr>dc_prev = 0, dc_next = 0\<rparr>" and ?ts = "replicate 2 (0 :: int)"
  let ?z = "replicate 2 (0 :: int)" and ?h = "replicate 2 (0 :: u32)"
  have u: "[0..2 - 1] = [0, 1 :: int]" by (simp add: upto.simps)
  have "int (length ?cells) = 2 + 2" "int (length ?ts) = 2" "(1 :: int) \<le> 2" by simp_all
  from dchain_allocate_correct_blocks [OF this(3,1,2)] obtain chain where
    h: "dchain_allocate True (Some ?cells) (Some ?ts) 2 = Inr (Some chain)"
      "chain_rep chain [] [0, 1]" unfolding u by blast
  obtain fm where fm: "map_allocate True (Some ?z) (Some ?z) (Some ?h) (Some ?z) (Some ?z) 2 16 =
      Some (fm :: int nf_map)"
    by (simp add: map_allocate_def compute_is_power_of_two_def)
  let ?fv = "\<lparr>vec_data = replicate 2 zero_cl_flow, vec_capacity = 2\<rparr>"
  have fv: "vector_allocate True (Some (replicate 2 zero_cl_flow)) zero_cl_flow 2 = Some ?fv"
    using vector_allocate_zeroed [of "replicate 2 zero_cl_flow" 2 zero_cl_flow] by simp
  have e: "ensure_power_of_two 4 = 8" by (simp add: ensure_power_of_two_def)
  obtain sk where sk: "cms_allocate True True (Some (replicate 8 7)) 2 2 8 1000 = Inr (Some sk)"
    "cms_last_cleanup sk = 0" "cms_cleanup_interval sk = 1000"
    by (simp add: cms_allocate_def vector_allocate_def Let_def)
  have l: "length (replicate 8 (7 :: u64)) = unat (ucast (ensure_power_of_two (ucast ((2 :: u32) * 2))) :: u32)"
    by (simp add: e)
  have c: "cms_shape sk" "cms_counts (cl_crc cl_sample_config) sk []"
    using cms_allocate_correct [OF _ l sk(1)] by simp_all
  obtain st where st: "fresh_cl = Some st"
    unfolding fresh_cl_def h(1) fm fv sk(1) by (simp add: cl_alloc_state_def vector_allocate_def)
  then have a: "cl_alloc_state (Some fm) (Some ?fv) (Some chain) (Some sk)
      (vector_allocate True (Some [0, 0]) 0 2) (vector_allocate True (Some [0, 0]) 0 2)
      2 [0] [(0, 1), (1, 0)] = Some st"
    unfolding fresh_cl_def h(1) fm fv sk(1) by simp
  have m: "map_wf (cl_crc cl_sample_config) (vector_mem cl_flow_bytes ?fv) fm" "stored fm = {}"
    "map_capacity fm = 2" "key_size fm = 16"
    using map_allocate_correct [OF _ _ _ _ _ fm] by simp_all
  have p: "cl_flows st = fm" "cl_flows_keys st = ?fv" "cl_flow_allocator st = chain" "cl_cms st = sk"
    "vec_data (cl_int_devices st) = [1, 0]" "vec_data (cl_fwd_rules st) = [1, 0]"
    using a by (auto simp: cl_alloc_state_def vector_allocate_def int_device_entry_def
        upt_rec numeral_2_eq_2)
  have "cl_wf cl_sample_config 2 st [] [0, 1] []"
    using m h(2) c by (auto simp: cl_wf_def table_flows_def map_rep_def p)
  with st p(4-6) sk(2,3) show thesis
    by (intro that [of st]) (simp_all add: cl_has_devices_def cl_internal_def)
qed

text \<open>Two flows of host 10 to host 20, of which one enters.\<close>

theorem cl_limits_flows_witness:
  "\<exists>st st' outs. fresh_cl = Some st \<and>
     cl_run cl_sample_config st [(1, 5, (0, 0, 0), udp_packet 10 1000 20 53),
       (1, 6, (0, 0, 0), udp_packet 10 1001 20 53)] = Some (Inr (st', outs)) \<and>
     card (cl_let_in st (cl_client_bytes \<lparr>cc_src_ip = 10, cc_dst_ip = 20\<rparr>)
       [(1, 5, (0, 0, 0), udp_packet 10 1000 20 53), (1, 6, (0, 0, 0), udp_packet 10 1001 20 53)] outs) \<le> 1"
proof -
  obtain st where st: "fresh_cl = Some st" "cl_wf cl_sample_config 2 st [] [0, 1] []"
    "cl_has_devices st 1" "cms_last_cleanup (cl_cms st) = 0" "cms_cleanup_interval (cl_cms st) = 1000"
    by (rule fresh_cl_wf)
  let ?es = "[(1, 5, (0, 0, 0), udp_packet 10 1000 20 53), (1, 6, (0, 0, 0), udp_packet 10 1001 20 53)]"
  have w: "cl_window 5 st" by (simp add: cl_window_def st(4))
  have a: "\<forall>e \<in> set ?es. cl_admissible 5 st e" by (simp add: cl_admissible_def st(3,5))
  have l: "length ?es < 2 ^ 64" by simp
  have m: "unat (cl_max_clients cl_sample_config) = 1" by (simp add: cl_sample_config_def)
  from cl_limits_flows [OF st(2) w a l, of "\<lparr>cc_src_ip = 10, cc_dst_ip = 20\<rparr>"] st(1) show ?thesis
    unfolding m by blast
qed

end
