(* ===== verification/PortScan.thy ===== *)
theory PortScan
  imports NatCorrect
begin

text \<open>
  The port scan detector, \<^verbatim>\<open>dpdk-nfs/psd\<close>. Sources outside are tracked in a table; each owns
  \<open>max_ports\<close> consecutive elements of a second vector, which hold the ports it has touched and are
  the keys of a second map. A key is padded from 6 to 8 bytes: the padding of the key that is looked
  up is a parameter, that of the vector's elements is what the vector was allocated with.
\<close>

section \<open>State\<close>

record touched_port =
  tp_src :: u32
  tp_port :: u16
  tp_padding :: "u8 \<times> u8"

definition touched_port_bytes :: "touched_port \<Rightarrow> bytes" where
  "touched_port_bytes t =
     bytes32 (tp_src t) @ bytes16 (tp_port t) @ (case tp_padding t of (a, b) \<Rightarrow> [a, b])"

record psd_state =
  psd_srcs :: "int nf_map"
  psd_srcs_key :: "u32 nf_vector"
  psd_counters :: "u32 nf_vector"
  psd_allocator :: double_chain
  psd_ports :: "int nf_map"
  psd_ports_key :: "touched_port nf_vector"
  psd_int_devices :: "int nf_vector"
  psd_fwd_rules :: "u16 nf_vector"

text \<open>What the functions read of the configuration, and the CRC intrinsic.\<close>

record psd_config =
  psd_crc :: "u32 \<Rightarrow> u32 \<Rightarrow> u32"
  psd_max_ports :: u32
  psd_expiration_time :: u32

definition PSD_DEFAULT_CAPACITY :: u32 where "PSD_DEFAULT_CAPACITY = 65536"
definition PSD_DEFAULT_MAX_PORTS :: u32 where "PSD_DEFAULT_MAX_PORTS = 60"
definition PSD_DEFAULT_EXPIRATION_TIME :: u32 where "PSD_DEFAULT_EXPIRATION_TIME = 1000000"

definition psd_alloc_state ::
  "int nf_map option \<Rightarrow> u32 nf_vector option \<Rightarrow> u32 nf_vector option \<Rightarrow> double_chain option \<Rightarrow>
   int nf_map option \<Rightarrow> touched_port nf_vector option \<Rightarrow>
   int nf_vector option \<Rightarrow> u16 nf_vector option \<Rightarrow> nat \<Rightarrow> u16 list \<Rightarrow> (u16 \<times> u16) list \<Rightarrow>
   psd_state option"
where
  "psd_alloc_state srcs srcs_key counters chain ports ports_key ints rules dev_count devices rule_list =
     (case (srcs, srcs_key, counters, chain, ports, ports_key, ints, rules) of
        (Some srcs, Some srcs_key, Some counters, Some chain, Some ports, Some ports_key,
         Some ints, Some rules) \<Rightarrow>
          Some \<lparr>psd_srcs = srcs, psd_srcs_key = srcs_key, psd_counters = counters,
                psd_allocator = chain, psd_ports = ports, psd_ports_key = ports_key,
                psd_int_devices = ints\<lparr>vec_data := map (int_device_entry devices) [0..<dev_count]\<rparr>,
                psd_fwd_rules = rules\<lparr>vec_data := map (fwd_rule_entry rule_list) [0..<dev_count]\<rparr>\<rparr>
      | _ \<Rightarrow> None)"

section \<open>Operations\<close>

definition psd_get_dst_dev :: "u16 nf_vector \<Rightarrow> u16 \<Rightarrow> u16 result" where
  "psd_get_dst_dev fwd_rules src_dev = vector_borrow fwd_rules (uint src_dev)"

definition psd_last_time :: "u32 \<Rightarrow> int \<Rightarrow> int" where
  "psd_last_time expiration_time time =
     sint ((word_of_int time :: u64) - ucast expiration_time * 1000)"

definition psd_expire_entries :: "psd_config \<Rightarrow> psd_state \<Rightarrow> int \<Rightarrow> psd_state result option" where
  "psd_expire_entries cfg st time =
     (if time < 0 then Some (Inl Assert_Failed)
      else map_option
        (\<lambda>r. rbind r (\<lambda>(chain, m, count). Inr (st\<lparr>psd_allocator := chain, psd_srcs := m\<rparr>)))
        (expire_items_single_map (psd_crc cfg) bytes32 (psd_allocator st) (psd_srcs_key st)
           (psd_srcs st) (psd_last_time (psd_expiration_time cfg) time)))"

text \<open>The element of the vector of ports, as the index is computed: without sign, then read as an int.\<close>

definition psd_slot :: "psd_config \<Rightarrow> int \<Rightarrow> int \<Rightarrow> int" where
  "psd_slot cfg index port_index =
     sint (psd_max_ports cfg * word_of_int index + word_of_int port_index)"

text \<open>Writing the two fields keeps the padding of the element.\<close>

definition write_touched_port ::
  "touched_port nf_vector \<Rightarrow> int \<Rightarrow> u32 \<Rightarrow> u16 \<Rightarrow> touched_port nf_vector result"
where
  "write_touched_port keys slot src port =
     rbind (vector_borrow keys slot) (\<lambda>t.
     vector_write keys slot (t\<lparr>tp_src := src, tp_port := port\<rparr>))"

definition psd_allocate ::
  "psd_config \<Rightarrow> psd_state \<Rightarrow> u32 \<Rightarrow> u16 \<Rightarrow> int \<Rightarrow> (psd_state \<times> bool) result"
where
  "psd_allocate cfg st src target_port time =
     rbind (dchain_allocate_new_index (psd_allocator st) time) (\<lambda>(chain, allocated).
     let st = st\<lparr>psd_allocator := chain\<rparr> in
     case allocated of
       None \<Rightarrow> Inr (st, False)
     | Some index \<Rightarrow>
         rbind (vector_borrow (psd_srcs_key st) index) (\<lambda>_.
         rbind (vector_borrow (psd_counters st) index) (\<lambda>counter.
         rbind (expire_items_single_map_iteratively (psd_crc cfg) touched_port_bytes
                  (psd_ports_key st) (psd_ports st) index (sint counter)) (\<lambda>(ports, _).
         rbind (vector_borrow (psd_ports_key st) (psd_slot cfg index 0)) (\<lambda>_.
         rbind (vector_write (psd_srcs_key st) index src) (\<lambda>srcs_key.
         rbind (vector_write (psd_counters st) index 1) (\<lambda>counters.
         rbind (write_touched_port (psd_ports_key st) (psd_slot cfg index 0) src target_port) (\<lambda>ports_key.
         rbind (map_put (psd_crc cfg) (vector_mem bytes32 srcs_key) (psd_srcs st) index index) (\<lambda>srcs.
         rbind (map_put (psd_crc cfg) (vector_mem touched_port_bytes ports_key) ports
                  (psd_slot cfg index 0) 0) (\<lambda>ports.
         Inr (st\<lparr>psd_srcs_key := srcs_key, psd_counters := counters, psd_ports_key := ports_key,
                psd_srcs := srcs, psd_ports := ports\<rparr>, True)))))))))))"

text \<open>A port that a tracked source has not touched: refused, or entered in the source's next element.\<close>

definition psd_touch ::
  "psd_config \<Rightarrow> psd_state \<Rightarrow> int \<Rightarrow> u32 \<Rightarrow> u16 \<Rightarrow> u32 \<Rightarrow> (psd_state \<times> bool) result"
where
  "psd_touch cfg st index src target_port counter =
     (if counter \<ge> psd_max_ports cfg then Inr (st, True)
      else
        let port_index = sint counter - 1; slot = psd_slot cfg index (port_index + 1) in
        rbind (vector_borrow (psd_ports_key st) slot) (\<lambda>_.
        rbind (vector_write (psd_counters st) index (counter + 1)) (\<lambda>counters.
        rbind (write_touched_port (psd_ports_key st) slot src target_port) (\<lambda>ports_key.
        rbind (map_put (psd_crc cfg) (vector_mem touched_port_bytes ports_key) (psd_ports st)
                 slot (port_index + 1)) (\<lambda>ports.
        Inr (st\<lparr>psd_counters := counters, psd_ports_key := ports_key, psd_ports := ports\<rparr>, False))))))"

text \<open>True when a port scan is detected.\<close>

definition detect_port_scanning ::
  "psd_config \<Rightarrow> psd_state \<Rightarrow> u32 \<Rightarrow> u16 \<Rightarrow> u8 \<times> u8 \<Rightarrow> int \<Rightarrow> (psd_state \<times> bool) result"
where
  "detect_port_scanning cfg st src target_port padding time =
     (case map_get (psd_crc cfg) (vector_mem bytes32 (psd_srcs_key st)) (psd_srcs st) (bytes32 src) of
        None \<Rightarrow> rbind (psd_allocate cfg st src target_port time) (\<lambda>(st, _). Inr (st, False))
      | Some index \<Rightarrow>
          rbind (dchain_rejuvenate_index (psd_allocator st) index time) (\<lambda>(chain, _).
          let st = st\<lparr>psd_allocator := chain\<rparr> in
          rbind (vector_borrow (psd_counters st) index) (\<lambda>counter.
          case map_get (psd_crc cfg) (vector_mem touched_port_bytes (psd_ports_key st)) (psd_ports st)
                 (touched_port_bytes \<lparr>tp_src = src, tp_port = target_port, tp_padding = padding\<rparr>) of
            Some port_index \<Rightarrow> Inr (st, False)
          | None \<Rightarrow> psd_touch cfg st index src target_port counter)))"

section \<open>Packets\<close>

definition psd_filter ::
  "psd_config \<Rightarrow> psd_state \<Rightarrow> u16 \<Rightarrow> int \<Rightarrow> u8 \<times> u8 \<Rightarrow> packet \<Rightarrow> (psd_state \<times> packet \<times> u16) result"
where
  "psd_filter cfg st device now padding p =
     rbind (is_internal (psd_int_devices st) device) (\<lambda>internal.
     rbind (if internal then Inr (st, False)
            else detect_port_scanning cfg st (ip_src_addr (pk_ip p)) (l4_dst_port (pk_l4 p)) padding now)
       (\<lambda>(st, scan).
     if scan then Inr (st, p, DROP)
     else rbind (psd_get_dst_dev (psd_fwd_rules st) device) (\<lambda>dst. Inr (st, p, dst))))"

definition psd_handle ::
  "psd_config \<Rightarrow> psd_state \<Rightarrow> u16 \<Rightarrow> int \<Rightarrow> u8 \<times> u8 \<Rightarrow> packet \<Rightarrow> (psd_state \<times> packet \<times> u16) result"
where
  "psd_handle cfg st device now padding p =
     rbind (nf_then_get_ether_header p) (\<lambda>p.
     rbind (nf_then_get_ipv4_header p) (\<lambda>ip. case ip of
       None \<Rightarrow> Inr (st, p, DROP)
     | Some p \<Rightarrow>
     rbind (nf_then_get_tcpudp_header p) (\<lambda>l4. case l4 of
       None \<Rightarrow> Inr (st, p, DROP)
     | Some p \<Rightarrow> psd_filter cfg st device now padding p)))"

definition psd_process ::
  "psd_config \<Rightarrow> psd_state \<Rightarrow> u16 \<Rightarrow> int \<Rightarrow> u8 \<times> u8 \<Rightarrow> packet \<Rightarrow>
     (psd_state \<times> packet \<times> u16) result option"
where
  "psd_process cfg st device now padding p =
     map_option (\<lambda>r. rbind r (\<lambda>st. psd_handle cfg st device now padding p))
       (psd_expire_entries cfg st now)"

section \<open>What the detector keeps\<close>

lemma touched_port_bytes_inj: "touched_port_bytes a = touched_port_bytes b \<Longrightarrow> a = b"
  by (cases a; cases b) (simp add: touched_port_bytes_def split: prod.splits)

lemma touched_port_bytes_length [simp]: "length (touched_port_bytes t) = 8"
  by (simp add: touched_port_bytes_def split: prod.splits)

interpretation psd_table: nf_flows crc capacity 4 bytes32 for crc capacity
  by unfold_locales simp

abbreviation psd_counter :: "psd_state \<Rightarrow> int \<Rightarrow> nat" where
  "psd_counter st i \<equiv> unat (vec_data (psd_counters st) ! nat i)"

abbreviation psd_source :: "psd_state \<Rightarrow> int \<Rightarrow> u32" where
  "psd_source st i \<equiv> vec_data (psd_srcs_key st) ! nat i"

abbreviation psd_key :: "psd_config \<Rightarrow> psd_state \<Rightarrow> int \<Rightarrow> nat \<Rightarrow> touched_port" where
  "psd_key cfg st i j \<equiv> vec_data (psd_ports_key st) ! (unat (psd_max_ports cfg) * nat i + j)"

text \<open>The elements that the tracked sources use, and what the map of ports holds for them.\<close>

definition psd_entries :: "psd_config \<Rightarrow> psd_state \<Rightarrow> aged \<Rightarrow> (int \<times> int) set" where
  "psd_entries cfg st L =
     {(int (unat (psd_max_ports cfg) * nat i + j), int j) |i j. i \<in> set (ids L) \<and> j < psd_counter st i}"

definition psd_ports_of :: "psd_config \<Rightarrow> psd_state \<Rightarrow> int \<Rightarrow> u16 set" where
  "psd_ports_of cfg st i = (\<lambda>j. tp_port (psd_key cfg st i j)) ` {..<psd_counter st i}"

text \<open>
  The invariant while nothing has expired: an index that is free has never been used. \<open>ports\<close> is
  the capacity of the second map.
\<close>

definition psd_wf :: "psd_config \<Rightarrow> u32 \<Rightarrow> u32 \<Rightarrow> psd_state \<Rightarrow> aged \<Rightarrow> int list \<Rightarrow> bool" where
  "psd_wf cfg n ports st L F \<longleftrightarrow>
     table_flows chain_rep (map_rep (psd_crc cfg) n 4) (unat n) bytes32
       (psd_allocator st) (psd_srcs_key st) (psd_srcs st) L F \<and>
     length (vec_data (psd_srcs_key st)) = unat n \<and> length (vec_data (psd_counters st)) = unat n \<and>
     (\<forall>i \<in> set (ids L). 0 < psd_counter st i \<and> psd_counter st i \<le> unat (psd_max_ports cfg)) \<and>
     (\<forall>i \<in> set F. psd_counter st i = 0) \<and>
     map_rep (psd_crc cfg) ports 8 (vector_mem touched_port_bytes (psd_ports_key st)) (psd_ports st)
       (psd_entries cfg st L) \<and>
     unat ports = unat (psd_max_ports cfg) * unat n \<and> unat ports < 2 ^ 31 \<and> 0 < unat (psd_max_ports cfg) \<and>
     length (vec_data (psd_ports_key st)) = unat ports \<and>
     (\<forall>t \<in> set (vec_data (psd_ports_key st)). tp_padding t = (0, 0)) \<and>
     (\<forall>i \<in> set (ids L). \<forall>j < psd_counter st i. tp_src (psd_key cfg st i j) = psd_source st i)"

lemma psd_wfD:
  assumes "psd_wf cfg n ports st L F"
  shows "table_flows chain_rep (map_rep (psd_crc cfg) n 4) (unat n) bytes32
       (psd_allocator st) (psd_srcs_key st) (psd_srcs st) L F"
    "length (vec_data (psd_srcs_key st)) = unat n" "length (vec_data (psd_counters st)) = unat n"
    "\<forall>i \<in> set (ids L). 0 < psd_counter st i \<and> psd_counter st i \<le> unat (psd_max_ports cfg)"
    "\<forall>i \<in> set F. psd_counter st i = 0"
    "map_rep (psd_crc cfg) ports 8 (vector_mem touched_port_bytes (psd_ports_key st)) (psd_ports st)
       (psd_entries cfg st L)"
    "unat ports = unat (psd_max_ports cfg) * unat n" "unat ports < 2 ^ 31" "0 < unat (psd_max_ports cfg)"
    "length (vec_data (psd_ports_key st)) = unat ports"
    "\<forall>t \<in> set (vec_data (psd_ports_key st)). tp_padding t = (0, 0)"
    "\<forall>i \<in> set (ids L). \<forall>j < psd_counter st i. tp_src (psd_key cfg st i j) = psd_source st i"
  using assms by (simp_all add: psd_wf_def)

text \<open>Elements of different sources are different.\<close>

lemma slot_inj:
  assumes "M * a + j = M * b + k" "j < M" "k < (M :: nat)"
  shows "a = b \<and> j = k"
  using assms by (metis add.commute add_left_cancel div_less div_mult_self2 less_nat_zero_code add_0 nat_neq_iff)

lemma slot_less:
  assumes "a < n" "j < (M :: nat)"
  shows "M * a + j < M * n"
proof -
  have "M * a + j < M * Suc a" using assms(2) by simp
  also have "\<dots> \<le> M * n" using assms(1) by (intro mult_le_mono2) simp
  finally show ?thesis .
qed

lemma psd_slot_eq:
  assumes "psd_wf cfg n ports st L F" "0 \<le> i" "i < int (unat n)" "j < unat (psd_max_ports cfg)"
  shows "psd_slot cfg i (int j) = int (unat (psd_max_ports cfg) * nat i + j)"
proof -
  note w = psd_wfD [OF assms(1)]
  let ?v = "unat (psd_max_ports cfg) * nat i + j"
  have "nat i < unat n" using assms(2,3) by linarith
  from slot_less [OF this assms(4)] w(7,8) have v: "?v < 2 ^ 31" by linarith
  have "psd_max_ports cfg * word_of_int i + word_of_int (int j) = (word_of_int (int ?v) :: u32)"
  proof -
    have "(of_nat ?v :: u32) = of_nat (unat (psd_max_ports cfg)) * of_nat (nat i) + of_nat j"
      by (simp only: of_nat_add of_nat_mult)
    moreover have "(of_nat (unat (psd_max_ports cfg)) :: u32) = psd_max_ports cfg" by simp
    moreover have "(of_nat (nat i) :: u32) = word_of_int i" using assms(2) by (simp add: of_nat_nat)
    moreover have "(word_of_int (int x) :: u32) = of_nat x" for x :: nat by simp
    ultimately show ?thesis by metis
  qed
  moreover have "sint (word_of_int (int ?v) :: u32) = signed_take_bit 31 (int ?v)"
    by (simp only: sint_sbintrunc' len_num1) simp
  moreover have "signed_take_bit 31 (int ?v) = int ?v"
  proof (rule signed_take_bit_int_eq_self)
    show "- (2 ^ 31) \<le> int ?v" by (rule order_trans [of _ 0]) simp_all
    show "int ?v < 2 ^ 31" using v by (metis of_nat_less_iff of_nat_numeral of_nat_power)
  qed
  ultimately show ?thesis by (simp only: psd_slot_def)
qed

lemma psd_index_range:
  assumes "psd_wf cfg n ports st L F" "i \<in> set (ids L @ F)"
  shows "0 \<le> i" "i < int (unat n)" "nat i < unat n"
proof -
  note w = psd_wfD [OF assms(1)]
  show "0 \<le> i" "i < int (unat n)" using psd_table.tab.flows_range [OF w(1) assms(2)] by (simp_all only: w(2))
  then show "nat i < unat n" by linarith
qed

text \<open>The map of ports knows exactly the ports that the tracked sources have touched.\<close>

lemma psd_get_port:
  assumes "psd_wf cfg n ports st L F" "i \<in> set (ids L)" "psd_source st i = src"
  shows "(\<exists>v. map_get (psd_crc cfg) (vector_mem touched_port_bytes (psd_ports_key st)) (psd_ports st)
        (touched_port_bytes \<lparr>tp_src = src, tp_port = port, tp_padding = (0, 0)\<rparr>) = Some v) \<longleftrightarrow>
      port \<in> psd_ports_of cfg st i"
proof -
  note w = psd_wfD [OF assms(1)]
  let ?key = "\<lparr>tp_src = src, tp_port = port, tp_padding = (0, 0)\<rparr>"
  have g: "map_get (psd_crc cfg) (vector_mem touched_port_bytes (psd_ports_key st)) (psd_ports st)
      (touched_port_bytes ?key) = Some v \<longleftrightarrow>
    (\<exists>p. (p, v) \<in> psd_entries cfg st L \<and> vec_data (psd_ports_key st) ! nat p = ?key)" for v
    unfolding nfmap.get_spec [OF w(6)] by (auto simp: vector_mem_def dest: touched_port_bytes_inj)
  have "(p, v) \<in> psd_entries cfg st L \<longleftrightarrow> (\<exists>k j. p = int (unat (psd_max_ports cfg) * nat k + j) \<and>
      v = int j \<and> k \<in> set (ids L) \<and> j < psd_counter st k)" for p v
    unfolding psd_entries_def by blast
  then have e: "(\<exists>v p. (p, v) \<in> psd_entries cfg st L \<and> vec_data (psd_ports_key st) ! nat p = ?key) \<longleftrightarrow>
      (\<exists>k \<in> set (ids L). \<exists>j < psd_counter st k. psd_key cfg st k j = ?key)"
    by (metis nat_int)
  have "(\<exists>k \<in> set (ids L). \<exists>j < psd_counter st k. psd_key cfg st k j = ?key) \<longleftrightarrow>
      (\<exists>j < psd_counter st i. tp_port (psd_key cfg st i j) = port)" (is "?l = ?r")
  proof
    assume ?l
    then obtain k j where k: "k \<in> set (ids L)" "j < psd_counter st k" "psd_key cfg st k j = ?key" by blast
    then have "psd_source st k = src" using w(12) by (metis touched_port.select_convs(1))
    then have "k = i" using psd_table.tab.flows_keys_distinct [OF w(1) k(1) assms(2)] assms(3) by simp
    with k show ?r by (metis touched_port.select_convs(2))
  next
    assume ?r
    then obtain j where j: "j < psd_counter st i" "tp_port (psd_key cfg st i j) = port" by blast
    have "j < unat (psd_max_ports cfg)" using w(4) assms(2) j(1) by force
    then have "unat (psd_max_ports cfg) * nat i + j < length (vec_data (psd_ports_key st))"
      using slot_less psd_index_range(3) [OF assms(1), of i] assms(2) by (simp add: w(7,10))
    then have "tp_padding (psd_key cfg st i j) = (0, 0)" using w(11) by simp
    moreover have "tp_src (psd_key cfg st i j) = src" using w(12) assms(2,3) j(1) by blast
    ultimately have "psd_key cfg st i j = ?key" using j(2) by (cases "psd_key cfg st i j") simp
    with assms(2) j(1) show ?l by blast
  qed
  also have "\<dots> \<longleftrightarrow> port \<in> psd_ports_of cfg st i" by (auto simp: psd_ports_of_def)
  finally show ?thesis using g e by blast
qed

lemma psd_element:
  assumes "psd_wf cfg n ports st L F" "i \<in> set (ids L @ F)" "j < unat (psd_max_ports cfg)"
  shows "unat (psd_max_ports cfg) * nat i + j < length (vec_data (psd_ports_key st))"
    "tp_padding (psd_key cfg st i j) = (0, 0)"
proof -
  note w = psd_wfD [OF assms(1)]
  show l: "unat (psd_max_ports cfg) * nat i + j < length (vec_data (psd_ports_key st))"
    using slot_less [OF psd_index_range(3) [OF assms(1,2)] assms(3)] by (simp only: w(7,10))
  show "tp_padding (psd_key cfg st i j) = (0, 0)" using w(11) nth_mem [OF l] by blast
qed

lemma psd_card_ports:
  assumes "psd_wf cfg n ports st L F" "i \<in> set (ids L)"
  shows "card (psd_ports_of cfg st i) = psd_counter st i"
proof -
  note w = psd_wfD [OF assms(1)]
  have "inj_on (\<lambda>j. tp_port (psd_key cfg st i j)) {..<psd_counter st i}"
  proof (rule inj_onI)
    fix j k
    assume j: "j \<in> {..<psd_counter st i}" "k \<in> {..<psd_counter st i}"
      and e: "tp_port (psd_key cfg st i j) = tp_port (psd_key cfg st i k)"
    have b: "j < unat (psd_max_ports cfg)" "k < unat (psd_max_ports cfg)" using w(4) assms(2) j by force+
    have i: "i \<in> set (ids L @ F)" using assms(2) by simp
    have "tp_src (psd_key cfg st i j) = psd_source st i" "tp_src (psd_key cfg st i k) = psd_source st i"
      using w(12) assms(2) j by blast+
    with e psd_element(2) [OF assms(1) i b(1)] psd_element(2) [OF assms(1) i b(2)]
    have "psd_key cfg st i j = psd_key cfg st i k" by simp
    moreover have "(int (unat (psd_max_ports cfg) * nat i + j), int j) \<in> psd_entries cfg st L"
      "(int (unat (psd_max_ports cfg) * nat i + k), int k) \<in> psd_entries cfg st L"
      using j assms(2) unfolding psd_entries_def by blast+
    ultimately show "j = k" using nfmap.keys_distinct [OF w(6)]
      by (metis nat_int of_nat_eq_iff vector_mem_def)
  qed
  then show ?thesis by (simp add: psd_ports_of_def card_image)
qed

text \<open>Entering a port at an element that no entry uses.\<close>

lemma enter_port:
  fixes keys :: "touched_port nf_vector"
  assumes rep: "map_rep crc ports 8 (vector_mem touched_port_bytes keys) m E"
    and p: "p < length (vec_data keys)" "length (vec_data keys) = unat ports"
    and pad: "tp_padding (vec_data keys ! p) = (0, 0)"
    and E: "\<forall>(q, v) \<in> E. q \<in> {0..<int (unat ports)} - {int p}"
    and new: "\<forall>(q, v) \<in> E. vec_data keys ! nat q \<noteq> \<lparr>tp_src = src, tp_port = port, tp_padding = (0, 0)\<rparr>"
  defines "keys' \<equiv> keys\<lparr>vec_data := (vec_data keys)[p := \<lparr>tp_src = src, tp_port = port, tp_padding = (0, 0)\<rparr>]\<rparr>"
  obtains m' where "write_touched_port keys (int p) src port = Inr keys'"
    "map_put crc (vector_mem touched_port_bytes keys') m (int p) v = Inr m'"
    "map_rep crc ports 8 (vector_mem touched_port_bytes keys') m' (insert (int p, v) E)"
proof -
  have "(vec_data keys ! p)\<lparr>tp_src := src, tp_port := port\<rparr> = \<lparr>tp_src = src, tp_port = port, tp_padding = (0, 0)\<rparr>"
    using pad by (cases "vec_data keys ! p") simp
  then have wr: "write_touched_port keys (int p) src port = Inr keys'"
    using p(1) by (simp add: write_touched_port_def vector_write_in keys'_def)
  have old: "vec_data keys' ! nat q = vec_data keys ! nat q" if "(q, u) \<in> E" for q u
  proof -
    have "nat q \<noteq> p" using E that by auto
    then show ?thesis by (simp add: keys'_def)
  qed
  have rep': "map_rep crc ports 8 (vector_mem touched_port_bytes keys') m E"
    by (rule nfmap.frame [OF rep]) (simp add: vector_mem_def old)
  have "inj_on fst E"
    by (rule inj_onI) (use nfmap.keys_distinct [OF rep] in \<open>metis prod.collapse\<close>)
  then have "card E = card (fst ` E)" by (simp add: card_image)
  also have "fst ` E \<subset> {0..<int (unat ports)}"
  proof -
    have "int p < int (unat ports)" using p by (simp only: of_nat_less_iff)
    then have "int p \<in> {0..<int (unat ports)}" by simp
    with E show ?thesis by fastforce
  qed
  then have "card (fst ` E) < card {0..<int (unat ports)}" by (intro psubset_card_mono) simp_all
  finally have room: "card E < unat ports" by simp
  have "\<exists>m'. map_put crc (vector_mem touched_port_bytes keys') m (int p) v = Inr m' \<and>
    map_rep crc ports 8 (vector_mem touched_port_bytes keys') m' (insert (int p, v) E)"
  proof (rule nfmap.put_spec [OF rep' room])
    fix q u
    assume "(q, u) \<in> E"
    with new old [OF this] p(1)
    show "take (unat (8 :: u32)) (vector_mem touched_port_bytes keys' q) \<noteq>
      take (unat (8 :: u32)) (vector_mem touched_port_bytes keys' (int p))"
      by (auto simp: vector_mem_def keys'_def dest!: touched_port_bytes_inj)
  qed
  with wr that show thesis by blast
qed

text \<open>Writing the element \<open>c\<close> of index \<open>i\<close> leaves all other elements in use as they are.\<close>

lemma other_element:
  assumes "0 \<le> i" "0 \<le> k" "k \<noteq> i \<or> j \<noteq> c" "j < M" "c < M"
  shows "xs[M * nat i + c := x] ! (M * nat k + j) = xs ! (M * nat k + j)"
proof -
  have "M * nat i + c \<noteq> M * nat k + j"
  proof
    assume "M * nat i + c = M * nat k + j"
    from slot_inj [OF this assms(5,4)] have "nat i = nat k \<and> c = j" .
    with assms(1-3) show False by (simp add: eq_nat_nat_iff)
  qed
  then show ?thesis by simp
qed

lemma sint_small:
  assumes "unat (x :: u32) < 2 ^ 31"
  shows "sint x = int (unat x)"
proof -
  have "sint x = signed_take_bit 31 (int (unat x))"
    by (simp add: sint_uint)
  also have "\<dots> = int (unat x)"
  proof (rule signed_take_bit_int_eq_self)
    show "- (2 ^ 31) \<le> int (unat x)" by (rule order_trans [of _ 0]) simp_all
    show "int (unat x) < 2 ^ 31" using assms by (metis of_nat_less_iff of_nat_numeral of_nat_power)
  qed
  finally show ?thesis .
qed

lemma psd_max_small:
  assumes "psd_wf cfg n ports st L F" "i \<in> set (ids L @ F)"
  shows "unat (psd_max_ports cfg) < 2 ^ 31"
proof -
  note w = psd_wfD [OF assms(1)]
  have "1 \<le> unat n" using psd_index_range(3) [OF assms] by simp
  then have "unat (psd_max_ports cfg) * 1 \<le> unat (psd_max_ports cfg) * unat n" by (rule mult_le_mono2)
  with w(7,8) show ?thesis by linarith
qed

lemma psd_absent:
  assumes "map_rep crc ports 8 (vector_mem touched_port_bytes keys) m E"
    and "map_get crc (vector_mem touched_port_bytes keys) m (touched_port_bytes key) = None"
  shows "\<forall>(q, v) \<in> E. vec_data keys ! nat q \<noteq> key"
proof clarify
  fix q v
  assume "(q, v) \<in> E" "key = vec_data keys ! nat q"
  then have "map_get crc (vector_mem touched_port_bytes keys) m (touched_port_bytes key) = Some v"
    unfolding nfmap.get_spec [OF assms(1)] by (auto simp: vector_mem_def)
  with assms(2) show False by simp
qed

lemma psd_entries_range:
  assumes wf: "psd_wf cfg n ports st L F" and i: "i \<in> set (ids L @ F)" and c: "c < unat (psd_max_ports cfg)"
    and free: "i \<in> set (ids L) \<Longrightarrow> psd_counter st i \<le> c"
  shows "\<forall>(q, v) \<in> psd_entries cfg st L.
    q \<in> {0..<int (unat ports)} - {int (unat (psd_max_ports cfg) * nat i + c)}"
proof (clarify, unfold psd_entries_def mem_Collect_eq, elim exE conjE)
  note w = psd_wfD [OF wf]
  let ?M = "unat (psd_max_ports cfg)"
  fix q v k j
  assume a: "(q, v) = (int (?M * nat k + j), int j)" "k \<in> set (ids L)" "j < psd_counter st k"
  have kL: "k \<in> set (ids L @ F)" using a(2) by simp
  have j: "j < ?M" using w(4) a(2,3) by force
  have "?M * nat k + j \<noteq> ?M * nat i + c"
  proof
    assume "?M * nat k + j = ?M * nat i + c"
    from slot_inj [OF this j c] have e: "nat k = nat i" "j = c" by simp_all
    then have "k = i" using psd_index_range(1) [OF wf kL] psd_index_range(1) [OF wf i] by (simp add: eq_nat_nat_iff)
    with free a(2,3) e(2) show False by simp
  qed
  moreover have "?M * nat k + j < unat ports" using psd_element(1) [OF wf kL j] w(10) by simp
  ultimately have "int (?M * nat k + j) < int (unat ports)" "int (?M * nat k + j) \<noteq> int (?M * nat i + c)"
    by (simp_all only: of_nat_less_iff of_nat_eq_iff) simp
  with a(1) show "q \<in> {0..<int (unat ports)} - {int (?M * nat i + c)}" by simp
qed

text \<open>
  A state in which the next element of the index \<open>i\<close> (tracked before, or new) has been entered:
  what it must agree on with the state before.
\<close>

definition psd_entered ::
  "psd_config \<Rightarrow> u32 \<Rightarrow> u32 \<Rightarrow> psd_state \<Rightarrow> aged \<Rightarrow> int list \<Rightarrow> int \<Rightarrow> touched_port \<Rightarrow>
     psd_state \<Rightarrow> aged \<Rightarrow> int list \<Rightarrow> bool"
where
  "psd_entered cfg n ports st L F i key st' L' F' \<longleftrightarrow>
     psd_wf cfg n ports st L F \<and> psd_counter st i < unat (psd_max_ports cfg) \<and>
     set (ids L') = insert i (set (ids L)) \<and> set F' \<subseteq> set F - {i} \<and> i \<in> set (ids L @ F) \<and>
     length (vec_data (psd_srcs_key st')) = length (vec_data (psd_srcs_key st)) \<and>
     (\<forall>k \<in> set (ids L). psd_source st' k = psd_source st k) \<and> psd_source st' i = tp_src key \<and>
     tp_padding key = (0, 0) \<and>
     vec_data (psd_counters st') =
       (vec_data (psd_counters st))[nat i := vec_data (psd_counters st) ! nat i + 1] \<and>
     vec_data (psd_ports_key st') =
       (vec_data (psd_ports_key st))[unat (psd_max_ports cfg) * nat i + psd_counter st i := key]"

lemma enteredD:
  assumes "psd_entered cfg n ports st L F i key st' L' F'"
  shows "psd_wf cfg n ports st L F" "psd_counter st i < unat (psd_max_ports cfg)"
    "set (ids L') = insert i (set (ids L))" "set F' \<subseteq> set F - {i}" "i \<in> set (ids L @ F)"
    "\<forall>k \<in> set (ids L). psd_source st' k = psd_source st k" "psd_source st' i = tp_src key"
    "i \<notin> set (ids L) \<Longrightarrow> psd_counter st i = 0"
  using assms psd_wfD(5) [of cfg n ports st L F] by (auto simp: psd_entered_def)

lemma entered_counter:
  assumes en: "psd_entered cfg n ports st L F i key st' L' F'" and k: "k \<in> set (ids L @ F)"
  shows "psd_counter st' k = (if k = i then Suc (psd_counter st k) else psd_counter st k)"
proof -
  note e = enteredD [OF en]
  have cs: "vec_data (psd_counters st') =
      (vec_data (psd_counters st))[nat i := vec_data (psd_counters st) ! nat i + 1]"
    using en by (simp add: psd_entered_def)
  show ?thesis
  proof (cases "k = i")
    case True
    have "psd_counter st i + 1 < 2 ^ 32" using e(2) psd_max_small [OF e(1,5)] by simp
    then have "unat (vec_data (psd_counters st) ! nat i + 1) = Suc (psd_counter st i)"
      by (simp add: unat_word_ariths)
    with True psd_index_range(3) [OF e(1,5)] psd_wfD(3) [OF e(1)] cs show ?thesis by simp
  next
    case False
    then have "nat k \<noteq> nat i"
      using psd_index_range(1) [OF e(1,5)] psd_index_range(1) [OF e(1) k] by (simp add: eq_nat_nat_iff)
    with False cs show ?thesis by simp
  qed
qed

lemma entered_key:
  assumes en: "psd_entered cfg n ports st L F i key st' L' F'"
    and k: "k \<in> set (ids L @ F)" "j < unat (psd_max_ports cfg)"
  shows "psd_key cfg st' k j = (if k = i \<and> j = psd_counter st i then key else psd_key cfg st k j)"
proof -
  note e = enteredD [OF en]
  have ks: "vec_data (psd_ports_key st') =
       (vec_data (psd_ports_key st))[unat (psd_max_ports cfg) * nat i + psd_counter st i := key]"
    using en by (simp add: psd_entered_def)
  show ?thesis
  proof (cases "k = i \<and> j = psd_counter st i")
    case True
    with psd_element(1) [OF e(1,5,2)] ks show ?thesis by simp
  next
    case False
    then have "k \<noteq> i \<or> j \<noteq> psd_counter st i" by blast
    from other_element [OF psd_index_range(1) [OF e(1,5)] psd_index_range(1) [OF e(1) k(1)] this k(2) e(2)]
    show ?thesis using False ks by auto
  qed
qed

lemma entered_in:
  assumes en: "psd_entered cfg n ports st L F i key st' L' F'"
  shows "k \<in> set (ids L') \<and> j < psd_counter st' k \<longleftrightarrow>
     k \<in> set (ids L) \<and> j < psd_counter st k \<or> k = i \<and> j = psd_counter st i"
proof -
  note e = enteredD [OF en]
  have ci: "psd_counter st' i = Suc (psd_counter st i)" using entered_counter [OF en e(5)] by simp
  have ck: "k \<in> set (ids L) \<Longrightarrow> k \<noteq> i \<Longrightarrow> psd_counter st' k = psd_counter st k"
    using entered_counter [OF en, of k] by simp
  show ?thesis
  proof (cases "k = i")
    case True
    show ?thesis using e(3,8) ci less_Suc_eq unfolding True by (cases "i \<in> set (ids L)") auto
  next
    case False
    then have "k \<in> set (ids L') \<longleftrightarrow> k \<in> set (ids L)" using e(3) by blast
    with False ck show ?thesis by (cases "k \<in> set (ids L)") simp_all
  qed
qed

lemma entered_entries:
  assumes en: "psd_entered cfg n ports st L F i key st' L' F'"
  shows "psd_entries cfg st' L' =
     insert (int (unat (psd_max_ports cfg) * nat i + psd_counter st i), int (psd_counter st i))
       (psd_entries cfg st L)"
proof -
  have "psd_entries cfg st' L' = {(int (unat (psd_max_ports cfg) * nat k + j), int j) |k j.
      k \<in> set (ids L) \<and> j < psd_counter st k \<or> k = i \<and> j = psd_counter st i}"
    unfolding psd_entries_def entered_in [OF en] ..
  also have "\<dots> = insert (int (unat (psd_max_ports cfg) * nat i + psd_counter st i), int (psd_counter st i))
      (psd_entries cfg st L)" unfolding psd_entries_def by blast
  finally show ?thesis .
qed

lemma psd_used_bound:
  assumes "psd_wf cfg n ports st L F" "k \<in> set (ids L)" "j < psd_counter st k"
  shows "k \<in> set (ids L @ F)" "j < unat (psd_max_ports cfg)"
  using psd_wfD(4) [OF assms(1)] assms(2,3) by force+

lemma entered_ports_of:
  assumes en: "psd_entered cfg n ports st L F i key st' L' F'" and k: "k \<in> set (ids L')"
  shows "psd_ports_of cfg st' k =
    (if k = i then insert (tp_port key) (if i \<in> set (ids L) then psd_ports_of cfg st i else {})
     else psd_ports_of cfg st k)"
proof -
  note e = enteredD [OF en]
  have old: "(\<lambda>j. tp_port (psd_key cfg st' k j)) ` {..<psd_counter st k} = psd_ports_of cfg st k"
    if "k \<in> set (ids L)" for k
    unfolding psd_ports_of_def using entered_key [OF en psd_used_bound [OF e(1) that]]
    by (intro image_cong refl) auto
  show ?thesis
  proof (cases "k = i")
    case True
    have new: "psd_key cfg st' i (psd_counter st i) = key" using entered_key [OF en e(5,2)] by simp
    have u: "psd_ports_of cfg st' i =
        insert (tp_port key) ((\<lambda>j. tp_port (psd_key cfg st' i j)) ` {..<psd_counter st i})"
      using entered_counter [OF en e(5)] by (simp add: psd_ports_of_def lessThan_Suc new)
    show ?thesis
    proof (cases "i \<in> set (ids L)")
      case True
      with u old [OF True] \<open>k = i\<close> show ?thesis by simp
    next
      case False
      with e(8) u \<open>k = i\<close> show ?thesis by simp
    qed
  next
    case False
    then have k': "k \<in> set (ids L)" using k e(3) by blast
    then have "psd_counter st' k = psd_counter st k" using entered_counter [OF en, of k] False by simp
    with old [OF k'] False show ?thesis by (simp add: psd_ports_of_def)
  qed
qed

lemma entered_source:
  assumes en: "psd_entered cfg n ports st L F i key st' L' F'" and "k \<in> set (ids L')" "j < psd_counter st' k"
  shows "tp_src (psd_key cfg st' k j) = psd_source st' k"
proof -
  note e = enteredD [OF en]
  from assms(2,3) consider "k = i" "j = psd_counter st i" | "k \<in> set (ids L)" "j < psd_counter st k"
    "\<not> (k = i \<and> j = psd_counter st i)" using entered_in [OF en, of k j] by blast
  then show ?thesis
  proof cases
    case 1
    then show ?thesis using entered_key [OF en e(5,2)] e(7) by simp
  next
    case 2
    have "psd_key cfg st' k j = psd_key cfg st k j"
      using entered_key [OF en psd_used_bound [OF e(1) 2(1,2)]] 2(3) by simp
    moreover have "tp_src (psd_key cfg st k j) = psd_source st k"
      using psd_wfD(12) [OF e(1)] 2(1,2) by blast
    moreover have "psd_source st' k = psd_source st k" using e(6) 2(1) by blast
    ultimately show ?thesis by (simp only:)
  qed
qed

lemma entered_wf:
  assumes en: "psd_entered cfg n ports st L F i key st' L' F'"
    and "table_flows chain_rep (map_rep (psd_crc cfg) n 4) (unat n) bytes32
      (psd_allocator st') (psd_srcs_key st') (psd_srcs st') L' F'"
    and "map_rep (psd_crc cfg) ports 8 (vector_mem touched_port_bytes (psd_ports_key st')) (psd_ports st')
      (insert (int (unat (psd_max_ports cfg) * nat i + psd_counter st i), int (psd_counter st i))
        (psd_entries cfg st L))"
  shows "psd_wf cfg n ports st' L' F'"
  unfolding psd_wf_def
proof (intro conjI)
  note e = enteredD [OF en]
  note w = psd_wfD [OF e(1)]
  show "\<forall>k \<in> set (ids L'). 0 < psd_counter st' k \<and> psd_counter st' k \<le> unat (psd_max_ports cfg)"
  proof
    fix k assume "k \<in> set (ids L')"
    then have "k = i \<or> k \<in> set (ids L)" using e(3) by blast
    moreover from this e(5) have "k \<in> set (ids L @ F)" by auto
    ultimately show "0 < psd_counter st' k \<and> psd_counter st' k \<le> unat (psd_max_ports cfg)"
      using entered_counter [OF en, of k] w(4) e(2) by auto
  qed
  show "\<forall>k \<in> set F'. psd_counter st' k = 0"
  proof
    fix k assume "k \<in> set F'"
    then have "k \<in> set F" "k \<noteq> i" using e(4) by blast+
    with w(5) entered_counter [OF en, of k] show "psd_counter st' k = 0" by simp
  qed
  show "\<forall>t \<in> set (vec_data (psd_ports_key st')). tp_padding t = (0, 0)"
    using w(11) en by (auto simp: psd_entered_def dest!: set_update_subset_insert [THEN subsetD])
  show "\<forall>k \<in> set (ids L'). \<forall>j < psd_counter st' k. tp_src (psd_key cfg st' k j) = psd_source st' k"
    using entered_source [OF en] by blast
  show "map_rep (psd_crc cfg) ports 8 (vector_mem touched_port_bytes (psd_ports_key st')) (psd_ports st')
    (psd_entries cfg st' L')" using assms(3) by (simp only: entered_entries [OF en])
qed (use assms(2) psd_wfD [OF enteredD(1) [OF en]] en in \<open>simp_all add: psd_entered_def\<close>)

text \<open>A new port of a tracked source.\<close>

lemma psd_touch_new:
  assumes wf: "psd_wf cfg n ports st L F" and i: "i \<in> set (ids L)" "psd_source st i = src"
    and new: "port \<notin> psd_ports_of cfg st i" and c: "psd_counter st i < unat (psd_max_ports cfg)"
  obtains st' where "psd_touch cfg st i src port (vec_data (psd_counters st) ! nat i) = Inr (st', False)"
    "psd_entered cfg n ports st L F i \<lparr>tp_src = src, tp_port = port, tp_padding = (0, 0)\<rparr> st' L F"
    "psd_wf cfg n ports st' L F"
    "psd_int_devices st' = psd_int_devices st" "psd_fwd_rules st' = psd_fwd_rules st"
proof -
  note w = psd_wfD [OF wf]
  have iL: "i \<in> set (ids L @ F)" using i(1) by simp
  note r = psd_index_range [OF wf iL]
  let ?c = "psd_counter st i" and ?key = "\<lparr>tp_src = src, tp_port = port, tp_padding = (0, 0)\<rparr>"
  let ?p = "unat (psd_max_ports cfg) * nat i + ?c"
  let ?keys = "(psd_ports_key st)\<lparr>vec_data := (vec_data (psd_ports_key st))[?p := ?key]\<rparr>"
  let ?counters = "(psd_counters st)\<lparr>vec_data :=
    (vec_data (psd_counters st))[nat i := vec_data (psd_counters st) ! nat i + 1]\<rparr>"
  note el = psd_element [OF wf iL c]
  have none: "map_get (psd_crc cfg) (vector_mem touched_port_bytes (psd_ports_key st)) (psd_ports st)
      (touched_port_bytes ?key) = None"
    using psd_get_port [OF wf i, of port] new by (metis option.exhaust)
  note range = psd_entries_range [OF wf iL c order.refl]
  obtain m' where e: "write_touched_port (psd_ports_key st) (int ?p) src port = Inr ?keys"
    "map_put (psd_crc cfg) (vector_mem touched_port_bytes ?keys) (psd_ports st) (int ?p) (int ?c) = Inr m'"
    "map_rep (psd_crc cfg) ports 8 (vector_mem touched_port_bytes ?keys) m'
       (insert (int ?p, int ?c) (psd_entries cfg st L))"
    by (rule enter_port [OF w(6) el(1) w(10) el(2) range psd_absent [OF w(6) none]])
  define st' where "st' = st\<lparr>psd_counters := ?counters, psd_ports_key := ?keys, psd_ports := m'\<rparr>"
  have "i \<notin> set F"
    using chain.rep_distinct [of "psd_allocator st" L F] w(1) i(1) by (auto simp: table_flows_def)
  then have en: "psd_entered cfg n ports st L F i ?key st' L F"
    using wf c i by (auto simp: psd_entered_def st'_def)
  have "psd_wf cfg n ports st' L F" by (rule entered_wf [OF en]) (use w(1) e(3) in \<open>simp_all add: st'_def\<close>)
  moreover have "psd_touch cfg st i src port (vec_data (psd_counters st) ! nat i) = Inr (st', False)"
  proof -
    have s: "sint (vec_data (psd_counters st) ! nat i) = int ?c"
      using c psd_max_small [OF wf iL] by (intro sint_small) linarith
    have "\<not> psd_max_ports cfg \<le> vec_data (psd_counters st) ! nat i" using c by (simp add: word_le_nat_alt)
    moreover have "vector_write (psd_counters st) i (vec_data (psd_counters st) ! nat i + 1) = Inr ?counters"
      using r w(3) by (simp add: vector_write_in nat_less_iff)
    moreover have "\<exists>x. vector_borrow (psd_ports_key st) (int ?p) = Inr x"
      using e(1) by (auto simp: write_touched_port_def rbind_eq_Inr)
    ultimately show ?thesis
      using e(1,2) psd_slot_eq [OF wf r(1,2) c] by (auto simp: psd_touch_def s Let_def st'_def)
  qed
  moreover have "psd_int_devices st' = psd_int_devices st" "psd_fwd_rules st' = psd_fwd_rules st"
    by (simp_all add: st'_def)
  ultimately show thesis using en that by blast
qed

text \<open>A new source. Its counter is zero, so the loop that should clean its elements does nothing.\<close>

lemma psd_allocate_new:
  assumes wf: "psd_wf cfg n ports st L (f # F)" and new: "\<forall>i \<in> set (ids L). psd_source st i \<noteq> src"
  obtains st' where "psd_allocate cfg st src port now = Inr (st', True)"
    "psd_entered cfg n ports st L (f # F) f \<lparr>tp_src = src, tp_port = port, tp_padding = (0, 0)\<rparr>
       st' (L @ [(f, now)]) F"
    "psd_wf cfg n ports st' (L @ [(f, now)]) F"
    "psd_int_devices st' = psd_int_devices st" "psd_fwd_rules st' = psd_fwd_rules st"
proof -
  note w = psd_wfD [OF wf]
  have fL: "f \<in> set (ids L @ f # F)" by simp
  note r = psd_index_range [OF wf fL]
  let ?key = "\<lparr>tp_src = src, tp_port = port, tp_padding = (0, 0)\<rparr>"
  let ?p = "unat (psd_max_ports cfg) * nat f + 0"
  let ?keys = "(psd_ports_key st)\<lparr>vec_data := (vec_data (psd_ports_key st))[?p := ?key]\<rparr>"
  let ?counters = "(psd_counters st)\<lparr>vec_data := (vec_data (psd_counters st))[nat f := 1]\<rparr>"
  let ?srcs = "(psd_srcs_key st)\<lparr>vec_data := (vec_data (psd_srcs_key st))[nat f := src]\<rparr>"
  have d: "distinct (ids L @ f # F)"
    using chain.rep_distinct [of "psd_allocator st" L "f # F"] w(1) by (simp add: table_flows_def)
  have c0: "vec_data (psd_counters st) ! nat f = 0" using w(5) by (simp add: unsigned_eq_0_iff)
  note el = psd_element [OF wf fL w(9)]
  have range: "\<forall>(q, v) \<in> psd_entries cfg st L. q \<in> {0..<int (unat ports)} - {int ?p}"
    by (rule psd_entries_range [OF wf fL w(9)]) (use d in auto)
  have absent: "\<forall>(q, v) \<in> psd_entries cfg st L. vec_data (psd_ports_key st) ! nat q \<noteq> ?key"
  proof (clarify, unfold psd_entries_def mem_Collect_eq, elim exE conjE)
    fix q v k j
    assume a: "vec_data (psd_ports_key st) ! nat q = ?key"
      "(q, v) = (int (unat (psd_max_ports cfg) * nat k + j), int j)" "k \<in> set (ids L)" "j < psd_counter st k"
    from a(1,2) have "psd_key cfg st k j = ?key" by (metis nat_int prod.inject)
    then have "psd_source st k = src" using w(12) a(3,4) by (metis touched_port.select_convs(1))
    with new a(3) show False by blast
  qed
  from psd_table.tab.insert_flow [OF w(1) new, of now] obtain chain m where
    t: "dchain_allocate_new_index (psd_allocator st) now = Inr (chain, Some f)"
    "vector_write (psd_srcs_key st) f src = Inr ?srcs"
    "map_put (psd_crc cfg) (vector_mem bytes32 ?srcs) (psd_srcs st) f f = Inr m"
    "table_flows chain_rep (map_rep (psd_crc cfg) n 4) (unat n) bytes32 chain ?srcs m (L @ [(f, now)]) F"
    by blast
  obtain m' where e: "write_touched_port (psd_ports_key st) (int ?p) src port = Inr ?keys"
    "map_put (psd_crc cfg) (vector_mem touched_port_bytes ?keys) (psd_ports st) (int ?p) 0 = Inr m'"
    "map_rep (psd_crc cfg) ports 8 (vector_mem touched_port_bytes ?keys) m'
       (insert (int ?p, 0) (psd_entries cfg st L))"
    by (rule enter_port [OF w(6) el(1) w(10) el(2) range absent])
  define st' where "st' = st\<lparr>psd_allocator := chain, psd_srcs_key := ?srcs, psd_counters := ?counters,
    psd_ports_key := ?keys, psd_srcs := m, psd_ports := m'\<rparr>"
  have src: "psd_source st' k = psd_source st k" if "k \<in> set (ids L)" for k
  proof -
    have "k \<in> set (ids L @ f # F)" "k \<noteq> f" using that d by auto
    then have "nat k \<noteq> nat f" using psd_index_range(1) [OF wf] r(1) by (metis eq_nat_nat_iff)
    then show ?thesis by (simp add: st'_def)
  qed
  have en: "psd_entered cfg n ports st L (f # F) f ?key st' (L @ [(f, now)]) F"
    using wf d w(2,9) src r(3) by (auto simp: psd_entered_def st'_def c0)
  have "psd_wf cfg n ports st' (L @ [(f, now)]) F"
    by (rule entered_wf [OF en]) (use t(4) e(3) in \<open>simp_all add: st'_def c0\<close>)
  moreover have "psd_allocate cfg st src port now = Inr (st', True)"
  proof -
    have "vector_borrow (psd_srcs_key st) f = Inr (psd_source st f)"
      "vector_borrow (psd_counters st) f = Inr (0 :: u32)"
      "vector_write (psd_counters st) f 1 = Inr ?counters"
      using r w(2,3) by (simp_all add: vector_write_in nat_less_iff c0)
    moreover have "expire_items_single_map_iteratively (psd_crc cfg) touched_port_bytes
        (psd_ports_key st) (psd_ports st) f (sint (0 :: u32)) = Inr (psd_ports st, 0)"
      using r(1) by (simp add: expire_items_single_map_iteratively_def expire_iteratively_loop.simps)
    moreover have "\<exists>x. vector_borrow (psd_ports_key st) (int ?p) = Inr x"
      using e(1) by (auto simp: write_touched_port_def rbind_eq_Inr)
    moreover have "psd_slot cfg f 0 = int ?p" using psd_slot_eq [OF wf r(1,2) w(9)] by simp
    ultimately show ?thesis
      using t(1-3) e(1,2) by (auto simp: psd_allocate_def Let_def st'_def)
  qed
  moreover have "psd_int_devices st' = psd_int_devices st" "psd_fwd_rules st' = psd_fwd_rules st"
    by (simp_all add: st'_def)
  ultimately show thesis using en that by blast
qed

end
