(* ===== verification/PortScanCorrect.thy ===== *)
theory PortScanCorrect
  imports PortScan
begin

text \<open>
  What the port scan detector computes while no source expires: a table of sources with the ports
  they have touched; and what goes wrong once an index is used again.
\<close>

section \<open>The table of sources and ports\<close>

text \<open>
  The specification: a table of at most \<open>n\<close> sources with the set of ports each has touched. The
  boolean says whether a scan is detected.
\<close>

type_synonym psd_table = "u32 \<rightharpoonup> u16 set"

definition psd_spec :: "nat \<Rightarrow> nat \<Rightarrow> psd_table \<Rightarrow> u32 \<Rightarrow> u16 \<Rightarrow> psd_table \<times> bool" where
  "psd_spec n max_ports T src port =
     (case T src of
        None \<Rightarrow> (if card (dom T) < n then T(src \<mapsto> {port}) else T, False)
      | Some P \<Rightarrow>
          if port \<in> P then (T, False)
          else if card P < max_ports then (T(src \<mapsto> insert port P), False)
          else (T, True))"

definition psd_tracks :: "psd_config \<Rightarrow> psd_state \<Rightarrow> aged \<Rightarrow> psd_table \<Rightarrow> bool" where
  "psd_tracks cfg st L T \<longleftrightarrow>
     (\<forall>s P. T s = Some P \<longleftrightarrow> (\<exists>i \<in> set (ids L). psd_source st i = s \<and> psd_ports_of cfg st i = P))"

lemma psd_tracks_None:
  "psd_tracks cfg st L T \<Longrightarrow> T s = None \<longleftrightarrow> (\<forall>i \<in> set (ids L). psd_source st i \<noteq> s)"
  unfolding psd_tracks_def by (metis not_None_eq)

lemma psd_free_iff:
  assumes wf: "psd_wf cfg n ports st L F" and T: "psd_tracks cfg st L T"
  shows "card (dom T) < unat n \<longleftrightarrow> F \<noteq> []"
proof -
  note w = psd_wfD [OF wf]
  have "dom T = psd_source st ` set (ids L)"
    using psd_tracks_None [OF T] by (auto simp: dom_def)
  moreover have "inj_on (psd_source st) (set (ids L))"
    using psd_table.tab.flows_keys_distinct [OF w(1)] by (intro inj_onI) blast
  ultimately have c: "card (dom T) = card (set (ids L))" by (simp only: card_image)
  have d: "distinct (ids L @ F)"
    using chain.rep_distinct [of "psd_allocator st" L F] w(1) by (simp add: table_flows_def)
  have "set (ids L @ F) = {0..<int (unat n)}" using w(1,2) by (auto simp: table_flows_def simp del: set_append)
  then have "card (set (ids L @ F)) = unat n" by simp
  moreover have "card (set (ids L @ F)) = card (set (ids L)) + length F"
    using d by (simp add: distinct_card card_Un_disjoint)
  ultimately show ?thesis using c by (cases F) auto
qed

lemma psd_ids_cong:
  assumes "set (ids L') = set (ids L)"
  shows "psd_entries cfg st L' = psd_entries cfg st L" "psd_tracks cfg st L' T = psd_tracks cfg st L T"
  by (simp_all only: psd_entries_def psd_tracks_def assms)

lemma psd_rejuvenated:
  assumes wf: "psd_wf cfg n ports st L F" and i: "i \<in> set (ids L)"
  obtains chain where "dchain_rejuvenate_index (psd_allocator st) i now = Inr (chain, True)"
    "psd_wf cfg n ports (st\<lparr>psd_allocator := chain\<rparr>) (forget i L @ [(i, now)]) F"
    "set (ids (forget i L @ [(i, now)])) = set (ids L)"
proof -
  note w = psd_wfD [OF wf]
  have s: "set (ids (forget i L @ [(i, now)])) = set (ids L)" using i by force
  from psd_table.tab.rejuvenate_flow [OF w(1) i, of now] obtain chain where
    c: "dchain_rejuvenate_index (psd_allocator st) i now = Inr (chain, True)"
    "table_flows chain_rep (map_rep (psd_crc cfg) n 4) (unat n) bytes32 chain (psd_srcs_key st)
       (psd_srcs st) (forget i L @ [(i, now)]) F" by blast
  have "psd_entries cfg (st\<lparr>psd_allocator := chain\<rparr>) (forget i L @ [(i, now)]) = psd_entries cfg st L"
    unfolding psd_ids_cong(1) [OF s] by (simp add: psd_entries_def)
  then have "psd_wf cfg n ports (st\<lparr>psd_allocator := chain\<rparr>) (forget i L @ [(i, now)]) F"
    unfolding psd_wf_def s using w c(2) by simp
  with c(1) s that show thesis by blast
qed

lemma entered_tracks:
  assumes en: "psd_entered cfg n ports st L F i key st' L' F'" and T: "psd_tracks cfg st L T"
    and T': "T' = T(tp_src key \<mapsto> insert (tp_port key) (if i \<in> set (ids L) then psd_ports_of cfg st i else {}))"
    and only: "\<forall>k \<in> set (ids L). psd_source st k = tp_src key \<longrightarrow> k = i"
  shows "psd_tracks cfg st' L' T'"
  unfolding psd_tracks_def
proof (intro allI)
  note e = enteredD [OF en]
  fix s P
  have i: "i \<in> set (ids L')" using e(3) by blast
  have po: "psd_ports_of cfg st' i = insert (tp_port key) (if i \<in> set (ids L) then psd_ports_of cfg st i else {})"
    using entered_ports_of [OF en i] by simp
  have other: "psd_source st' k = psd_source st k \<and> psd_ports_of cfg st' k = psd_ports_of cfg st k \<and>
      psd_source st k \<noteq> tp_src key" if "k \<in> set (ids L)" "k \<noteq> i" for k
    using entered_ports_of [OF en, of k] e(3,6) only that by auto
  show "T' s = Some P \<longleftrightarrow> (\<exists>k \<in> set (ids L'). psd_source st' k = s \<and> psd_ports_of cfg st' k = P)"
  proof (cases "s = tp_src key")
    case True
    have "(\<exists>k \<in> set (ids L'). psd_source st' k = s \<and> psd_ports_of cfg st' k = P) \<longleftrightarrow> psd_ports_of cfg st' i = P"
      using i e(3,7) other True by (metis insert_iff)
    then show ?thesis using True by (auto simp: T' po)
  next
    case False
    have "(\<exists>k \<in> set (ids L'). psd_source st' k = s \<and> psd_ports_of cfg st' k = P) \<longleftrightarrow>
        (\<exists>k \<in> set (ids L). psd_source st k = s \<and> psd_ports_of cfg st k = P)"
      using e(3,7) other False only by (metis insert_iff e(6))
    with False T show ?thesis by (simp add: T' psd_tracks_def)
  qed
qed

text \<open>Ages are times of packets.\<close>

definition ages_from :: "int \<Rightarrow> aged \<Rightarrow> bool" where
  "ages_from t L \<longleftrightarrow> (\<forall>(i, s) \<in> set L. t \<le> s)"

lemma ages_from_forget: "ages_from t L \<Longrightarrow> t \<le> now \<Longrightarrow> ages_from t (forget i L @ [(j, now)])"
  by (auto simp: ages_from_def)

text \<open>The result of a detection that agrees with the specification.\<close>

definition detect_agrees ::
  "psd_config \<Rightarrow> u32 \<Rightarrow> u32 \<Rightarrow> int \<Rightarrow> psd_state \<Rightarrow> psd_table \<Rightarrow> u32 \<Rightarrow> u16 \<Rightarrow>
     (psd_state \<times> bool) result \<Rightarrow> bool"
where
  "detect_agrees cfg n ports t0 st T src port r \<longleftrightarrow>
     (\<exists>st' L' F'. r = Inr (st', snd (psd_spec (unat n) (unat (psd_max_ports cfg)) T src port)) \<and>
        psd_wf cfg n ports st' L' F' \<and>
        psd_tracks cfg st' L' (fst (psd_spec (unat n) (unat (psd_max_ports cfg)) T src port)) \<and>
        ages_from t0 L' \<and> psd_int_devices st' = psd_int_devices st \<and>
        psd_fwd_rules st' = psd_fwd_rules st)"

lemma detect_unknown:
  assumes wf: "psd_wf cfg n ports st L F" and T: "psd_tracks cfg st L T" and None: "T src = None"
    and t: "ages_from t0 L" "t0 \<le> now"
  shows "detect_agrees cfg n ports t0 st T src port (detect_port_scanning cfg st src port (0, 0) now)"
proof -
  note w = psd_wfD [OF wf]
  have new: "\<forall>i \<in> set (ids L). psd_source st i \<noteq> src" using None psd_tracks_None [OF T] by blast
  have g: "map_get (psd_crc cfg) (vector_mem bytes32 (psd_srcs_key st)) (psd_srcs st) (bytes32 src) = None"
    using psd_table.tab.get_flow_None [OF w(1)] new by simp
  show ?thesis
  proof (cases F)
    case Nil
    from psd_table.tab.insert_full [OF w(1) [unfolded Nil], of now] obtain chain where
      c: "dchain_allocate_new_index (psd_allocator st) now = Inr (chain, None)"
      "table_flows chain_rep (map_rep (psd_crc cfg) n 4) (unat n) bytes32 chain (psd_srcs_key st)
         (psd_srcs st) L []" by blast
    let ?st = "st\<lparr>psd_allocator := chain\<rparr>"
    have "psd_wf cfg n ports ?st L F" using w c(2) by (simp add: psd_wf_def psd_entries_def Nil)
    moreover have "psd_tracks cfg ?st L T" using T by (simp add: psd_tracks_def psd_ports_of_def)
    moreover have "psd_spec (unat n) (unat (psd_max_ports cfg)) T src port = (T, False)"
      using psd_free_iff [OF wf T] None Nil by (simp add: psd_spec_def)
    moreover have "detect_port_scanning cfg st src port (0, 0) now = Inr (?st, False)"
      using g c(1) by (simp add: detect_port_scanning_def psd_allocate_def Let_def)
    ultimately show ?thesis using t(1) unfolding detect_agrees_def
      by (intro exI [of _ ?st] exI [of _ L] exI [of _ F]) simp
  next
    case (Cons f F')
    let ?key = "\<lparr>tp_src = src, tp_port = port, tp_padding = (0 :: u8, 0 :: u8)\<rparr>"
    obtain st' where a: "psd_allocate cfg st src port now = Inr (st', True)"
      "psd_entered cfg n ports st L (f # F') f ?key st' (L @ [(f, now)]) F'"
      "psd_wf cfg n ports st' (L @ [(f, now)]) F'"
      "psd_int_devices st' = psd_int_devices st" "psd_fwd_rules st' = psd_fwd_rules st"
      by (rule psd_allocate_new [OF wf [unfolded Cons] new])
    have "f \<notin> set (ids L)"
      using chain.rep_distinct [of "psd_allocator st" L F] w(1) Cons by (auto simp: table_flows_def)
    then have "psd_tracks cfg st' (L @ [(f, now)]) (T(src \<mapsto> {port}))"
      by (intro entered_tracks [OF a(2) T]) (use new in auto)
    moreover have "psd_spec (unat n) (unat (psd_max_ports cfg)) T src port = (T(src \<mapsto> {port}), False)"
      using psd_free_iff [OF wf T] None Cons by (simp add: psd_spec_def)
    moreover have "detect_port_scanning cfg st src port (0, 0) now = Inr (st', False)"
      using g a(1) by (simp add: detect_port_scanning_def)
    moreover have "ages_from t0 (L @ [(f, now)])" using t by (auto simp: ages_from_def)
    ultimately show ?thesis using a(3-5) unfolding detect_agrees_def
      by (intro exI [of _ st'] exI [of _ "L @ [(f, now)]"] exI [of _ F']) simp
  qed
qed

text \<open>A tracked source, once its index is rejuvenated.\<close>

lemma touch_refines:
  assumes wf: "psd_wf cfg n ports st L F" and T: "psd_tracks cfg st L T" and Some: "T src = Some P"
    and i: "i \<in> set (ids L)" "psd_source st i = src" "psd_ports_of cfg st i = P" and t: "ages_from t0 L"
  shows "detect_agrees cfg n ports t0 st T src port
    (case map_get (psd_crc cfg) (vector_mem touched_port_bytes (psd_ports_key st)) (psd_ports st)
            (touched_port_bytes \<lparr>tp_src = src, tp_port = port, tp_padding = (0, 0)\<rparr>) of
       Some port_index \<Rightarrow> Inr (st, False)
     | None \<Rightarrow> psd_touch cfg st i src port (vec_data (psd_counters st) ! nat i))"
    (is "detect_agrees _ _ _ _ _ _ _ _ (case ?get of Some v \<Rightarrow> _ v | None \<Rightarrow> ?touch)")
proof -
  have card: "psd_counter st i = card P" using psd_card_ports [OF wf i(1)] i(3) by simp
  consider "port \<in> P" | "port \<notin> P" "\<not> card P < unat (psd_max_ports cfg)"
    | "port \<notin> P" "card P < unat (psd_max_ports cfg)" by blast
  then show ?thesis
  proof cases
    case 1
    then obtain v where "?get = Some v" using psd_get_port [OF wf i(1,2)] i(3) by blast
    with Some 1 wf T t show ?thesis unfolding detect_agrees_def
      by (intro exI [of _ st] exI [of _ L] exI [of _ F]) (simp add: psd_spec_def)
  next
    case 2
    then have "?get = None" using psd_get_port [OF wf i(1,2), of port] i(3) by (metis option.exhaust)
    moreover have "?touch = Inr (st, True)" using 2(2) card by (simp add: psd_touch_def word_le_nat_alt)
    ultimately show ?thesis using Some 2 wf T t unfolding detect_agrees_def
      by (intro exI [of _ st] exI [of _ L] exI [of _ F]) (simp add: psd_spec_def)
  next
    case 3
    then have none: "?get = None" using psd_get_port [OF wf i(1,2), of port] i(3) by (metis option.exhaust)
    let ?key = "\<lparr>tp_src = src, tp_port = port, tp_padding = (0 :: u8, 0 :: u8)\<rparr>"
    have "port \<notin> psd_ports_of cfg st i" "psd_counter st i < unat (psd_max_ports cfg)"
      using 3 card i(3) by simp_all
    from psd_touch_new [OF wf i(1,2) this] obtain st' where
      a: "?touch = Inr (st', False)" "psd_entered cfg n ports st L F i ?key st' L F"
      "psd_wf cfg n ports st' L F"
      "psd_int_devices st' = psd_int_devices st" "psd_fwd_rules st' = psd_fwd_rules st" by blast
    have "\<forall>k \<in> set (ids L). psd_source st k = tp_src ?key \<longrightarrow> k = i"
      using psd_table.tab.flows_keys_distinct [OF psd_wfD(1) [OF wf]] i(1,2) by simp
    then have "psd_tracks cfg st' L (T(src \<mapsto> insert port P))"
      using i(1,3) by (intro entered_tracks [OF a(2) T]) simp_all
    with none a Some 3 t show ?thesis unfolding detect_agrees_def
      by (intro exI [of _ st'] exI [of _ L] exI [of _ F]) (simp add: psd_spec_def)
  qed
qed

lemma detect_known:
  assumes wf: "psd_wf cfg n ports st L F" and T: "psd_tracks cfg st L T" and Some: "T src = Some P"
    and t: "ages_from t0 L" "t0 \<le> now"
  shows "detect_agrees cfg n ports t0 st T src port (detect_port_scanning cfg st src port (0, 0) now)"
proof -
  note w = psd_wfD [OF wf]
  from Some T obtain i where i: "i \<in> set (ids L)" "psd_source st i = src" "psd_ports_of cfg st i = P"
    unfolding psd_tracks_def by blast
  have g: "map_get (psd_crc cfg) (vector_mem bytes32 (psd_srcs_key st)) (psd_srcs st) (bytes32 src) = Some i"
    using psd_table.tab.get_flow [OF w(1), of src i] i(1,2) by simp
  obtain chain where c: "dchain_rejuvenate_index (psd_allocator st) i now = Inr (chain, True)"
    "psd_wf cfg n ports (st\<lparr>psd_allocator := chain\<rparr>) (forget i L @ [(i, now)]) F"
    "set (ids (forget i L @ [(i, now)])) = set (ids L)"
    by (rule psd_rejuvenated [OF wf i(1)])
  let ?st = "st\<lparr>psd_allocator := chain\<rparr>" and ?L = "forget i L @ [(i, now)]"
  have po: "psd_ports_of cfg ?st = psd_ports_of cfg st" by (simp add: psd_ports_of_def fun_eq_iff)
  have T1: "psd_tracks cfg ?st ?L T"
    unfolding psd_ids_cong(2) [OF c(3)] using T by (simp add: psd_tracks_def po)
  have "i \<in> set (ids ?L)" "psd_source ?st i = src" "psd_ports_of cfg ?st i = P"
    using i(1) unfolding c(3) by (simp_all add: i(2,3) po)
  note r = touch_refines [OF c(2) T1 Some this ages_from_forget [OF t], of port]
  have "i \<in> set (ids L @ F)" using i(1) by simp
  then have "vector_borrow (psd_counters st) i = Inr (vec_data (psd_counters st) ! nat i)"
    using psd_index_range [OF wf] w(3) by (simp add: vector_borrow_def nat_less_iff)
  then have "detect_port_scanning cfg st src port (0, 0) now =
     (case map_get (psd_crc cfg) (vector_mem touched_port_bytes (psd_ports_key ?st)) (psd_ports ?st)
             (touched_port_bytes \<lparr>tp_src = src, tp_port = port, tp_padding = (0, 0)\<rparr>) of
        Some port_index \<Rightarrow> Inr (?st, False)
      | None \<Rightarrow> psd_touch cfg ?st i src port (vec_data (psd_counters ?st) ! nat i))"
    using g c(1) by (simp add: detect_port_scanning_def Let_def split: option.split)
  with r show ?thesis unfolding detect_agrees_def by simp
qed

lemma detect_refines:
  assumes "psd_wf cfg n ports st L F" "psd_tracks cfg st L T" "ages_from t0 L" "t0 \<le> now"
  shows "detect_agrees cfg n ports t0 st T src port (detect_port_scanning cfg st src port (0, 0) now)"
  using detect_unknown [OF assms(1,2) _ assms(3,4)] detect_known [OF assms(1,2) _ assms(3,4)]
  by (cases "T src") blast+

section \<open>Packets in a row\<close>

definition psd_has_devices :: "psd_state \<Rightarrow> u16 \<Rightarrow> bool" where
  "psd_has_devices st device \<longleftrightarrow>
     uint device < int (length (vec_data (psd_int_devices st))) \<and>
     uint device < int (length (vec_data (psd_fwd_rules st)))"

definition psd_internal :: "psd_state \<Rightarrow> u16 \<Rightarrow> bool" where
  "psd_internal st device \<longleftrightarrow> vec_data (psd_int_devices st) ! unat device \<noteq> 0"

definition psd_output :: "psd_state \<Rightarrow> u16 \<Rightarrow> u16" where
  "psd_output st device = vec_data (psd_fwd_rules st) ! unat device"

lemma psd_devices_run:
  assumes "psd_has_devices st device"
  shows "is_internal (psd_int_devices st) device = Inr (psd_internal st device)"
    "psd_get_dst_dev (psd_fwd_rules st) device = Inr (psd_output st device)"
  using assms
  by (simp_all add: psd_has_devices_def is_internal_def psd_get_dst_dev_def vector_borrow_def
      psd_internal_def psd_output_def)

lemma psd_same_devices:
  assumes "psd_int_devices st' = psd_int_devices st" "psd_fwd_rules st' = psd_fwd_rules st"
  shows "psd_has_devices st' = psd_has_devices st" "psd_internal st' = psd_internal st"
    "psd_output st' = psd_output st"
  by (simp_all add: fun_eq_iff psd_has_devices_def psd_internal_def psd_output_def assms)

text \<open>A sequence of packets, each with its device, its time and the padding of the key.\<close>

type_synonym psd_event = "u16 \<times> int \<times> (u8 \<times> u8) \<times> packet"

fun psd_run :: "psd_config \<Rightarrow> psd_state \<Rightarrow> psd_event list \<Rightarrow> (psd_state \<times> u16 list) result option" where
  "psd_run cfg st [] = Some (Inr (st, []))"
| "psd_run cfg st ((d, now, padding, p) # es) =
     (case psd_process cfg st d now padding p of
        None \<Rightarrow> None
      | Some (Inl e) \<Rightarrow> Some (Inl e)
      | Some (Inr (st, p, out)) \<Rightarrow>
          map_option (\<lambda>r. rbind r (\<lambda>(st, outs). Inr (st, out # outs))) (psd_run cfg st es))"

fun psd_spec_run ::
  "nat \<Rightarrow> nat \<Rightarrow> (u16 \<Rightarrow> bool) \<Rightarrow> (u16 \<Rightarrow> u16) \<Rightarrow> psd_table \<Rightarrow> psd_event list \<Rightarrow> u16 list"
where
  "psd_spec_run n max_ports internal output T [] = []"
| "psd_spec_run n max_ports internal output T ((d, now, padding, p) # es) =
     (if internal d then output d # psd_spec_run n max_ports internal output T es
      else
        case psd_spec n max_ports T (ip_src_addr (pk_ip p)) (l4_dst_port (pk_l4 p)) of
          (T, scan) \<Rightarrow> (if scan then DROP else output d) # psd_spec_run n max_ports internal output T es)"

text \<open>
  A TCP or UDP packet of a known device, at a time at which nothing seen since \<open>t0\<close> has expired;
  the padding of the key that is looked up is clear.
\<close>

definition psd_admissible :: "psd_config \<Rightarrow> int \<Rightarrow> psd_state \<Rightarrow> psd_event \<Rightarrow> bool" where
  "psd_admissible cfg t0 st e \<longleftrightarrow>
     (case e of (d, now, padding, p) \<Rightarrow> psd_has_devices st d \<and> tcpudp_packet p \<and> padding = (0, 0) \<and>
        0 \<le> now \<and> t0 \<le> now \<and> now < 2 ^ 63 \<and> now - uint (psd_expiration_time cfg) * 1000 \<le> t0)"

lemma psd_last_time_eq:
  assumes "0 \<le> now" "now < 2 ^ 63"
  shows "psd_last_time e now = now - uint e * 1000"
proof -
  have "uint e < 2 ^ LENGTH(32)" by (rule uint_bounded)
  then have b: "0 \<le> uint e * 1000" "uint e * 1000 \<le> 2 ^ 63" by simp_all
  have "(ucast e * 1000 :: u64) = word_of_int (uint e * 1000)"
    by (simp only: of_int_mult of_int_numeral ucast_eq)
  then show ?thesis using u64_difference [OF assms b] by (simp only: psd_last_time_def)
qed

lemma nothing_expired:
  assumes "ages_from t L"
  shows "expired_count t L = 0"
  using assms by (cases L) (auto simp: expired_count_def ages_from_def)

lemma psd_expire_nothing:
  assumes wf: "psd_wf cfg n ports st L F" and ages: "ages_from t0 L"
    and t: "0 \<le> now" "now < 2 ^ 63" "now - uint (psd_expiration_time cfg) * 1000 \<le> t0"
  obtains st' where "psd_expire_entries cfg st now = Some (Inr st')" "psd_wf cfg n ports st' L F"
    "psd_tracks cfg st' L = psd_tracks cfg st L" "psd_int_devices st' = psd_int_devices st"
    "psd_fwd_rules st' = psd_fwd_rules st"
proof -
  note w = psd_wfD [OF wf]
  let ?t = "psd_last_time (psd_expiration_time cfg) now"
  have "?t \<le> t0" using psd_last_time_eq [OF t(1,2)] t(3) by simp
  then have "ages_from ?t L" using ages by (auto simp: ages_from_def)
  then have none: "expired_count ?t L = 0" by (rule nothing_expired)
  from psd_table.expire_items_correct [OF w(1), of ?t] obtain chain m where
    x: "expire_items_single_map (psd_crc cfg) bytes32 (psd_allocator st) (psd_srcs_key st) (psd_srcs st) ?t =
       Some (Inr (chain, m, 0))"
    "table_flows chain_rep (map_rep (psd_crc cfg) n 4) (unat n) bytes32 chain (psd_srcs_key st) m L F"
    unfolding none by auto
  let ?st = "st\<lparr>psd_allocator := chain, psd_srcs := m\<rparr>"
  have "psd_wf cfg n ports ?st L F" using w x(2) by (simp add: psd_wf_def psd_entries_def)
  moreover have "psd_tracks cfg ?st L = psd_tracks cfg st L"
    by (simp add: fun_eq_iff psd_tracks_def psd_ports_of_def)
  moreover have "psd_expire_entries cfg st now = Some (Inr ?st)"
    using t(1) x(1) by (simp add: psd_expire_entries_def)
  ultimately show thesis by (intro that [of ?st]) simp_all
qed

lemma psd_process_refines:
  assumes wf: "psd_wf cfg n ports st L F" and T: "psd_tracks cfg st L T" and ages: "ages_from t0 L"
    and e: "psd_admissible cfg t0 st (d, now, padding, p)"
    and spec: "psd_spec (unat n) (unat (psd_max_ports cfg)) T (ip_src_addr (pk_ip p)) (l4_dst_port (pk_l4 p)) =
      (T1, scan)"
  obtains st' p' L' F' where "psd_process cfg st d now padding p = Some (Inr (st', p',
      if psd_internal st d then psd_output st d else if scan then DROP else psd_output st d))"
    "psd_wf cfg n ports st' L' F'" "psd_tracks cfg st' L' (if psd_internal st d then T else T1)"
    "ages_from t0 L'" "psd_int_devices st' = psd_int_devices st" "psd_fwd_rules st' = psd_fwd_rules st"
proof -
  have a: "psd_has_devices st d" "tcpudp_packet p" "padding = (0, 0)" "0 \<le> now" "t0 \<le> now" "now < 2 ^ 63"
    "now - uint (psd_expiration_time cfg) * 1000 \<le> t0" using e by (simp_all add: psd_admissible_def)
  obtain st0 where s0: "psd_expire_entries cfg st now = Some (Inr st0)" "psd_wf cfg n ports st0 L F"
    "psd_tracks cfg st0 L = psd_tracks cfg st L" "psd_int_devices st0 = psd_int_devices st"
    "psd_fwd_rules st0 = psd_fwd_rules st"
    by (rule psd_expire_nothing [OF wf ages a(4,6,7)])
  note same = psd_same_devices [OF s0(4,5)]
  from tcpudp_packet_headers [OF a(2)] obtain p1 p2 where
    h: "nf_then_get_ether_header p = Inr p1" "nf_then_get_ipv4_header p1 = Inr (Some p2)"
      "nf_then_get_tcpudp_header p2 = Inr (Some (headers_read p))" by blast
  have run: "psd_process cfg st d now padding p = Some (psd_filter cfg st0 d now (0, 0) (headers_read p))"
    using s0(1) h a(3) by (simp add: psd_process_def psd_handle_def)
  have dev: "psd_has_devices st0 d" using a(1) same by simp
  show thesis
  proof (cases "psd_internal st d")
    case True
    then have "psd_filter cfg st0 d now (0, 0) (headers_read p) = Inr (st0, headers_read p, psd_output st d)"
      using psd_devices_run [OF dev] same by (simp add: psd_filter_def)
    with run True s0 T ages show thesis by (intro that [of st0 "headers_read p" L F]) simp_all
  next
    case False
    have "psd_tracks cfg st0 L T" using T s0(3) by simp
    from detect_refines [OF s0(2) this ages a(5)] spec obtain st' L' F' where
      r: "detect_port_scanning cfg st0 (ip_src_addr (pk_ip p)) (l4_dst_port (pk_l4 p)) (0, 0) now = Inr (st', scan)"
        "psd_wf cfg n ports st' L' F'" "psd_tracks cfg st' L' T1" "ages_from t0 L'"
        "psd_int_devices st' = psd_int_devices st0" "psd_fwd_rules st' = psd_fwd_rules st0"
      unfolding detect_agrees_def by (metis fst_conv snd_conv)
    note same' = psd_same_devices [OF r(5,6)]
    have "psd_filter cfg st0 d now (0, 0) (headers_read p) =
        Inr (st', headers_read p, if scan then DROP else psd_output st d)"
      using psd_devices_run(1) [OF dev] psd_devices_run(2) [of st' d] dev r(1) False same same'
      by (simp add: psd_filter_def)
    with run False r s0(4,5) show thesis by (intro that [of st' "headers_read p" L' F']) simp_all
  qed
qed

lemma psd_run_refines:
  assumes "psd_wf cfg n ports st L F" "psd_tracks cfg st L T" "ages_from t0 L"
    and "\<forall>e \<in> set es. psd_admissible cfg t0 st e"
  shows "\<exists>st'. psd_run cfg st es = Some (Inr (st',
    psd_spec_run (unat n) (unat (psd_max_ports cfg)) (psd_internal st) (psd_output st) T es))"
  using assms
proof (induction es arbitrary: st L F T)
  case (Cons e es)
  obtain d now padding p where e: "e = (d, now, padding, p)" by (cases e)
  obtain T1 scan where sp: "psd_spec (unat n) (unat (psd_max_ports cfg)) T (ip_src_addr (pk_ip p))
      (l4_dst_port (pk_l4 p)) = (T1, scan)" by fastforce
  have ad: "psd_admissible cfg t0 st (d, now, padding, p)" using Cons.prems(4) e by simp
  obtain st' p' L' F' where s: "psd_process cfg st d now padding p = Some (Inr (st', p',
      if psd_internal st d then psd_output st d else if scan then DROP else psd_output st d))"
    "psd_wf cfg n ports st' L' F'" "psd_tracks cfg st' L' (if psd_internal st d then T else T1)"
    "ages_from t0 L'" "psd_int_devices st' = psd_int_devices st" "psd_fwd_rules st' = psd_fwd_rules st"
    by (rule psd_process_refines [OF Cons.prems(1-3) ad sp])
  note same = psd_same_devices [OF s(5,6)]
  have "\<forall>e \<in> set es. psd_admissible cfg t0 st' e" using Cons.prems(4) by (simp add: psd_admissible_def same)
  from Cons.IH [OF s(2-4) this] s(1) sp show ?case by (auto simp: e same)
qed simp


section \<open>A detector at the start\<close>

definition zero_touched_port :: touched_port where
  "zero_touched_port = \<lparr>tp_src = 0, tp_port = 0, tp_padding = (0, 0)\<rparr>"

text \<open>Room for two sources of two ports; device 0 is inside, device 1 outside.\<close>

definition fresh_psd :: "psd_state option" where
  "fresh_psd =
     (case dchain_allocate True (Some (replicate 4 \<lparr>dc_prev = 0, dc_next = 0\<rparr>)) (Some (replicate 2 0)) 2 of
        Inl e \<Rightarrow> None
      | Inr chain \<Rightarrow>
          psd_alloc_state
            (map_allocate True (Some (replicate 2 0)) (Some (replicate 2 0)) (Some (replicate 2 0))
              (Some (replicate 2 0)) (Some (replicate 2 0)) 2 4)
            (vector_allocate True (Some (replicate 2 0)) 0 2)
            (vector_allocate True (Some (replicate 2 7)) 0 2)
            chain
            (map_allocate True (Some (replicate 4 0)) (Some (replicate 4 0)) (Some (replicate 4 0))
              (Some (replicate 4 0)) (Some (replicate 4 0)) 4 8)
            (vector_allocate True (Some (replicate 4 zero_touched_port)) zero_touched_port 4)
            (vector_allocate True (Some [0, 0]) 0 2) (vector_allocate True (Some [0, 0]) 0 2)
            2 [0] [(0, 1), (1, 0)])"

definition psd_sample_config :: psd_config where
  "psd_sample_config = \<lparr>psd_crc = (\<lambda>h x. h XOR x), psd_max_ports = 2, psd_expiration_time = 1\<rparr>"

lemma fresh_psd_wf:
  obtains st where "fresh_psd = Some st" "psd_wf psd_sample_config 2 4 st [] [0, 1]"
    "psd_has_devices st 1" "\<not> psd_internal st 1" "psd_output st 1 = 0"
proof -
  let ?cells = "replicate 4 \<lparr>dc_prev = 0, dc_next = 0\<rparr>" and ?ts = "replicate 2 (0 :: int)"
  have u: "[0..2 - 1] = [0, 1 :: int]" by (simp add: upto.simps)
  have "int (length ?cells) = 2 + 2" "int (length ?ts) = 2" "(1 :: int) \<le> 2" by simp_all
  from dchain_allocate_correct_blocks [OF this(3,1,2)] obtain chain where
    h: "dchain_allocate True (Some ?cells) (Some ?ts) 2 = Inr (Some chain)"
      "chain_rep chain [] [0, 1]" unfolding u by blast
  let ?map = "\<lambda>n c k. map_allocate True (Some (replicate n 0)) (Some (replicate n 0)) (Some (replicate n 0))
      (Some (replicate n 0)) (Some (replicate n 0)) c k"
  obtain ms mp :: "int nf_map" where ms: "?map 2 2 4 = Some ms" and mp: "?map 4 4 8 = Some mp"
    by (simp add: map_allocate_def compute_is_power_of_two_def)
  let ?srcs = "\<lparr>vec_data = replicate 2 0, vec_capacity = 2\<rparr> :: u32 nf_vector"
  let ?keys = "\<lparr>vec_data = replicate 4 zero_touched_port, vec_capacity = 4\<rparr>"
  have v: "vector_allocate True (Some (replicate 2 0)) 0 2 = Some ?srcs"
    "vector_allocate True (Some (replicate 2 7)) 0 2 = Some ?srcs"
    "vector_allocate True (Some (replicate 4 zero_touched_port)) zero_touched_port 4 = Some ?keys"
    by (simp_all add: vector_allocate_zeroed)
  obtain st where st: "fresh_psd = Some st"
    unfolding fresh_psd_def h(1) ms mp v by (simp add: psd_alloc_state_def vector_allocate_def)
  then have a: "psd_alloc_state (Some ms) (Some ?srcs) (Some ?srcs) (Some chain) (Some mp) (Some ?keys)
      (vector_allocate True (Some [0, 0]) 0 2) (vector_allocate True (Some [0, 0]) 0 2)
      2 [0] [(0, 1), (1, 0)] = Some st"
    unfolding fresh_psd_def h(1) ms mp v by simp
  have m: "map_wf (psd_crc psd_sample_config) (vector_mem bytes32 ?srcs) ms" "stored ms = {}"
    "map_capacity ms = 2" "key_size ms = 4"
    "map_wf (psd_crc psd_sample_config) (vector_mem touched_port_bytes ?keys) mp" "stored mp = {}"
    "map_capacity mp = 4" "key_size mp = 8"
    using map_allocate_correct [OF _ _ _ _ _ ms] map_allocate_correct [OF _ _ _ _ _ mp] by simp_all
  have p: "psd_srcs st = ms" "psd_srcs_key st = ?srcs" "psd_counters st = ?srcs" "psd_allocator st = chain"
    "psd_ports st = mp" "psd_ports_key st = ?keys"
    "vec_data (psd_int_devices st) = [1, 0]" "vec_data (psd_fwd_rules st) = [1, 0]"
    using a by (auto simp: psd_alloc_state_def vector_allocate_def int_device_entry_def
        upt_rec numeral_2_eq_2)
  have "psd_wf psd_sample_config 2 4 st [] [0, 1]"
    using m h(2) by (auto simp: psd_wf_def table_flows_def map_rep_def psd_entries_def p
        psd_sample_config_def zero_touched_port_def)
  with st p(7,8) show thesis
    by (intro that [of st]) (simp_all add: psd_has_devices_def psd_internal_def psd_output_def)
qed


section \<open>Indices that are used again\<close>

text \<open>
  When an index is used again, the loop that should remove the ports of its former source runs
  from the index itself, not from the first of its elements: it removes the ports of others.
\<close>

declare expire_items_loop.simps [code]

definition psd_reuse_events :: "psd_event list" where
  "psd_reuse_events =
     [(1, 5, (0, 0), udp_packet 10 1 20 1), (1, 6, (0, 0), udp_packet 10 1 20 2),
      (1, 7, (0, 0), udp_packet 11 1 20 1), (1, 8, (0, 0), udp_packet 11 1 20 2),
      (1, 800, (0, 0), udp_packet 10 1 20 2), (1, 1500, (0, 0), udp_packet 12 1 20 5),
      (1, 1501, (0, 0), udp_packet 10 1 20 2)]"

definition psd_outputs :: "psd_config \<Rightarrow> psd_state option \<Rightarrow> psd_event list \<Rightarrow> u16 list result option" where
  "psd_outputs cfg st es =
     (case st of None \<Rightarrow> None | Some st \<Rightarrow> map_option (\<lambda>r. rbind r (\<lambda>(st, outs). Inr outs)) (psd_run cfg st es))"

lemma psd_reuse_evaluated:
  "psd_outputs psd_sample_config fresh_psd psd_reuse_events = Some (Inr [0, 0, 0, 0, 0, 0, DROP])"
  by code_simp

text \<open>A source is dropped for a port it has touched before and within the limit. Hosts 10 and 11
  have touched ports 1 and 2, the two they may; 11 expires and host 12 takes its index; by that the
  port 2 of host 10, which never expired, is removed from the map, and its next packet to port 2 is
  taken for a scan.\<close>
lemma psd_drops_touched_port:
  "\<exists>st st'. fresh_psd = Some st \<and>
     psd_run psd_sample_config st
       [(1, 5, (0, 0), udp_packet 10 1 20 1), (1, 6, (0, 0), udp_packet 10 1 20 2),
        (1, 7, (0, 0), udp_packet 11 1 20 1), (1, 8, (0, 0), udp_packet 11 1 20 2),
        (1, 800, (0, 0), udp_packet 10 1 20 2), (1, 1500, (0, 0), udp_packet 12 1 20 5),
        (1, 1501, (0, 0), udp_packet 10 1 20 2)] =
     Some (Inr (st', [0, 0, 0, 0, 0, 0, DROP]))"
  using psd_reuse_evaluated
  by (auto simp: psd_outputs_def psd_reuse_events_def rbind_eq_Inr simp del: psd_run.simps split: option.splits)

text \<open>With the defaults of the configuration the second map is never allocated: its capacity is no
  power of two.\<close>

lemma psd_defaults_not_allocated:
  "psd_alloc_state srcs srcs_key counters chain
     (map_allocate a b c d e f (PSD_DEFAULT_CAPACITY * PSD_DEFAULT_MAX_PORTS) 8)
     ports_key ints rules dev_count devices rule_list = None"
proof -
  have "map_allocate a b c d e f (PSD_DEFAULT_CAPACITY * PSD_DEFAULT_MAX_PORTS) 8 = (None :: int nf_map option)"
    by (rule map_allocate_None)
      (simp add: PSD_DEFAULT_CAPACITY_def PSD_DEFAULT_MAX_PORTS_def compute_is_power_of_two_def)
  then show ?thesis by (simp add: psd_alloc_state_def split: option.split)
qed

end
