(* ===== verification/HeavyHitters.thy ===== *)
theory HeavyHitters
  imports Policer NatCorrect
begin

text \<open>
  The hierarchical heavy hitters, \<^verbatim>\<open>dpdk-nfs/hhh\<close>: for each of the configured prefix lengths a
  table of the prefixes of sources, with a token bucket for each; a packet that finds its bucket
  empty is reported, never dropped. The four arrays with an element per prefix length are one list
  of rows. The rate is computed in floating point from the configuration: that is a parameter.
\<close>

section \<open>State\<close>

record dynamic_value =
  dv_bucket_size :: u64
  dv_bucket_time :: int

record hhh_subnet =
  hs_indexer :: "int nf_map"
  hs_allocator :: double_chain
  hs_buckets :: "dynamic_value nf_vector"
  hs_subnets :: "u32 nf_vector"

record hhh_state =
  hh_rows :: "hhh_subnet list"
  hh_threshold_rate :: u64
  hh_n_subnets :: int
  hh_capacity :: u32
  hh_dev_count :: u32

record hhh_config =
  hc_crc :: "u32 \<Rightarrow> u32 \<Rightarrow> u32"
  hc_lan_device :: u16
  hc_wan_device :: u16
  hc_link_capacity :: u64
  hc_threshold :: u8
  hc_subnets_mask :: u32
  hc_burst :: u64
  hc_dyn_capacity :: u32

text \<open>The loop over the 32 bits, from the \<open>b\<close>-th on.\<close>

function count_subnets :: "nat \<Rightarrow> u32 \<Rightarrow> u32 \<Rightarrow> u32" where
  "count_subnets b subnets_mask n =
     (if b < 32 then
        count_subnets (b + 1) (drop_bit 1 subnets_mask) (if subnets_mask AND 1 \<noteq> 0 then n + 1 else n)
      else n)"
  by pat_completeness auto
termination by (relation "measure (\<lambda>(b, subnets_mask, n). 32 - b)") auto

declare count_subnets.simps [simp del]

definition calculate_n_subnets :: "u32 \<Rightarrow> u32" where
  "calculate_n_subnets subnets_mask = count_subnets 0 subnets_mask 0"

text \<open>What the allocation functions return for each row is a parameter.\<close>

type_synonym hhh_row_allocs =
  "int nf_map option \<times> double_chain option \<times> dynamic_value nf_vector option \<times> u32 nf_vector option"

definition hhh_alloc_row :: "hhh_row_allocs \<Rightarrow> hhh_subnet option" where
  "hhh_alloc_row a =
     (case a of
        (Some m, Some chain, Some buckets, Some subnets) \<Rightarrow>
          Some \<lparr>hs_indexer = m, hs_allocator = chain, hs_buckets = buckets, hs_subnets = subnets\<rparr>
      | _ \<Rightarrow> None)"

definition hhh_alloc_state ::
  "(u64 \<Rightarrow> u8 \<Rightarrow> u64) \<Rightarrow> (nat \<Rightarrow> hhh_row_allocs) \<Rightarrow> u64 \<Rightarrow> u8 \<Rightarrow> u32 \<Rightarrow> u32 \<Rightarrow> u32 \<Rightarrow> hhh_state option"
where
  "hhh_alloc_state rate_of allocs link_capacity threshold subnets_mask capacity dev_count =
     (let n_subnets = (ucast (calculate_n_subnets subnets_mask) :: u8) in
      map_option
        (\<lambda>rows. \<lparr>hh_rows = rows, hh_threshold_rate = rate_of link_capacity threshold,
           hh_n_subnets = uint n_subnets, hh_capacity = capacity, hh_dev_count = dev_count\<rparr>)
        (those (map (\<lambda>i. hhh_alloc_row (allocs i)) [0..<unat n_subnets])))"

definition hhh_row :: "hhh_state \<Rightarrow> int \<Rightarrow> hhh_subnet result" where
  "hhh_row st i =
     (if 0 \<le> i \<and> i < int (length (hh_rows st)) then Inr (hh_rows st ! nat i) else Inl Undefined)"

definition hhh_set_row :: "hhh_state \<Rightarrow> int \<Rightarrow> hhh_subnet \<Rightarrow> hhh_state" where
  "hhh_set_row st i row = st\<lparr>hh_rows := (hh_rows st)[nat i := row]\<rparr>"

section \<open>Operations\<close>

definition hhh_min_time :: "u64 \<Rightarrow> u64 \<Rightarrow> int \<Rightarrow> int" where
  "hhh_min_time rate burst time = sint ((word_of_int time :: u64) - NS_TO_S_MULTIPLIER * burst div rate)"

function hhh_expire_loop ::
  "hhh_config \<Rightarrow> int \<Rightarrow> int \<Rightarrow> int \<Rightarrow> hhh_state \<Rightarrow> int \<Rightarrow> (hhh_state \<times> int) result option"
where
  "hhh_expire_loop cfg min_time n_subnets i st freed =
     (if i < n_subnets then
        case hhh_row st i of
          Inl e \<Rightarrow> Some (Inl e)
        | Inr row \<Rightarrow>
            (case expire_items_single_map (hc_crc cfg) bytes32 (hs_allocator row) (hs_subnets row)
                    (hs_indexer row) min_time of
               None \<Rightarrow> None
             | Some (Inl e) \<Rightarrow> Some (Inl e)
             | Some (Inr (chain, m, count)) \<Rightarrow>
                 hhh_expire_loop cfg min_time n_subnets (i + 1)
                   (hhh_set_row st i (row\<lparr>hs_allocator := chain, hs_indexer := m\<rparr>)) (freed + count))
      else Some (Inr (st, freed)))"
  by pat_completeness auto
termination by (relation "measure (\<lambda>(cfg, min_time, n, i, st, freed). nat (n - i))") auto

declare hhh_expire_loop.simps [simp del]

definition hhh_expire_entries ::
  "hhh_config \<Rightarrow> hhh_state \<Rightarrow> int \<Rightarrow> (hhh_state \<times> int) result option"
where
  "hhh_expire_entries cfg st time =
     (if time < 0 then Some (Inl Assert_Failed)
      else if hh_threshold_rate st = 0 then Some (Inl Undefined)
      else hhh_expire_loop cfg (hhh_min_time (hh_threshold_rate st) (hc_burst cfg) time)
             (hh_n_subnets st) 0 st 0)"

definition hhh_allocate ::
  "hhh_config \<Rightarrow> hhh_subnet \<Rightarrow> u32 \<Rightarrow> u16 \<Rightarrow> int \<Rightarrow> (hhh_subnet \<times> bool) result"
where
  "hhh_allocate cfg row masked_src pkt_size time =
     rbind (dchain_allocate_new_index (hs_allocator row) time) (\<lambda>(chain, allocated).
     let row = row\<lparr>hs_allocator := chain\<rparr> in
     case allocated of
       None \<Rightarrow> Inr (row, False)
     | Some index \<Rightarrow>
         rbind (vector_write (hs_subnets row) index masked_src) (\<lambda>subnets.
         assert_that (hc_burst cfg \<ge> ucast pkt_size)
           (rbind (vector_write (hs_buckets row) index
               \<lparr>dv_bucket_size = hc_burst cfg - ucast pkt_size, dv_bucket_time = time\<rparr>) (\<lambda>buckets.
           rbind (map_put (hc_crc cfg) (vector_mem bytes32 subnets) (hs_indexer row) index index) (\<lambda>m.
           Inr (row\<lparr>hs_subnets := subnets, hs_buckets := buckets, hs_indexer := m\<rparr>, True))))))"

definition hhh_refill :: "u64 \<Rightarrow> u64 \<Rightarrow> dynamic_value \<Rightarrow> int \<Rightarrow> u64 result" where
  "hhh_refill rate burst v time =
     (if rate = 0 then Inl Undefined
      else
        let time_diff = word_of_int time - word_of_int (dv_bucket_time v) in
        if time_diff < burst * NS_TO_S_MULTIPLIER div rate then
          let added_tokens = time_diff * rate div NS_TO_S_MULTIPLIER in
          assert_that (dv_bucket_size v \<le> burst)
            (let bucket_size = dv_bucket_size v + added_tokens in
             Inr (if bucket_size > burst then burst else bucket_size))
        else Inr burst)"

text \<open>True when the source is a heavy hitter.\<close>

definition hhh_spend :: "u64 \<Rightarrow> u64 \<Rightarrow> dynamic_value \<Rightarrow> u16 \<Rightarrow> int \<Rightarrow> (dynamic_value \<times> bool) result" where
  "hhh_spend rate burst v pkt_size time =
     assert_that (0 \<le> time) (assert_that (dv_bucket_time v \<ge> 0) (assert_that (dv_bucket_time v \<le> time)
       (rbind (hhh_refill rate burst v time) (\<lambda>bucket_size.
        if bucket_size > ucast pkt_size
        then Inr (\<lparr>dv_bucket_size = bucket_size - ucast pkt_size, dv_bucket_time = time\<rparr>, False)
        else Inr (\<lparr>dv_bucket_size = bucket_size, dv_bucket_time = time\<rparr>, True)))))"

definition hhh_account ::
  "hhh_config \<Rightarrow> u64 \<Rightarrow> hhh_subnet \<Rightarrow> int \<Rightarrow> u16 \<Rightarrow> int \<Rightarrow> (hhh_subnet \<times> bool) result"
where
  "hhh_account cfg rate row index pkt_size time =
     rbind (dchain_rejuvenate_index (hs_allocator row) index time) (\<lambda>(chain, _).
     rbind (vector_borrow (hs_buckets row) index) (\<lambda>v.
     rbind (hhh_spend rate (hc_burst cfg) v pkt_size time) (\<lambda>(v, hit).
     rbind (vector_write (hs_buckets row) index v) (\<lambda>buckets.
     Inr (row\<lparr>hs_allocator := chain, hs_buckets := buckets\<rparr>, hit)))))"

definition swap_endianness_32_bit :: "u32 \<Rightarrow> u32" where
  "swap_endianness_32_bit n =
     (drop_bit 24 n AND 0x000000ff) OR (drop_bit 8 n AND 0x0000ff00) OR
     (push_bit 8 n AND 0x00ff0000) OR (push_bit 24 n AND 0xff000000)"

text \<open>
  The loop over the prefix lengths. What it returns is the prefix that is reported, the last one
  whose bucket was empty; it returns early, without a report, when a table is full.
\<close>

function hhh_update_loop ::
  "hhh_config \<Rightarrow> u32 \<Rightarrow> u16 \<Rightarrow> int \<Rightarrow> nat \<Rightarrow> int \<Rightarrow> u32 \<Rightarrow> u32 \<Rightarrow> (u32 \<times> u8) option \<Rightarrow> hhh_state \<Rightarrow>
     (hhh_state \<times> (u32 \<times> u8) option) result"
where
  "hhh_update_loop cfg src pkt_size time subnet subnet_i msk subnets_mask captured st =
     (if subnet < 32 then
        let msk = drop_bit 1 msk OR push_bit 31 1 in
        if subnets_mask AND 1 = 0 then
          hhh_update_loop cfg src pkt_size time (subnet + 1) subnet_i msk (drop_bit 1 subnets_mask) captured st
        else
          let subnet_i = subnet_i + 1; masked_src = src AND swap_endianness_32_bit msk in
          rbind (hhh_row st subnet_i) (\<lambda>row.
          case map_get (hc_crc cfg) (vector_mem bytes32 (hs_subnets row)) (hs_indexer row) (bytes32 masked_src) of
            None \<Rightarrow>
              rbind (hhh_allocate cfg row masked_src pkt_size time) (\<lambda>(row, allocated).
              let st = hhh_set_row st subnet_i row in
              if \<not> allocated then Inr (st, None)
              else hhh_update_loop cfg src pkt_size time (subnet + 1) subnet_i msk (drop_bit 1 subnets_mask)
                     captured st)
          | Some index \<Rightarrow>
              rbind (hhh_account cfg (hh_threshold_rate st) row index pkt_size time) (\<lambda>(row, hit).
              hhh_update_loop cfg src pkt_size time (subnet + 1) subnet_i msk (drop_bit 1 subnets_mask)
                (if hit then Some (masked_src, of_nat subnet + 1) else captured)
                (hhh_set_row st subnet_i row)))
      else Inr (st, captured))"
  by pat_completeness auto
termination
  by (relation "measure (\<lambda>(cfg, src, pkt_size, time, subnet, i, msk, subnets_mask, captured, st). 32 - subnet)")
    auto

declare hhh_update_loop.simps [simp del]

definition hhh_update_buckets ::
  "hhh_config \<Rightarrow> hhh_state \<Rightarrow> u32 \<Rightarrow> u16 \<Rightarrow> int \<Rightarrow> (hhh_state \<times> (u32 \<times> u8) option) result"
where
  "hhh_update_buckets cfg st src pkt_size time =
     hhh_update_loop cfg src pkt_size time 0 (- 1) 0 (hc_subnets_mask cfg) None st"

text \<open>The last component is the prefix that is reported.\<close>

definition hhh_forward ::
  "hhh_config \<Rightarrow> hhh_state \<Rightarrow> u16 \<Rightarrow> u16 \<Rightarrow> int \<Rightarrow> packet \<Rightarrow>
     (hhh_state \<times> packet \<times> u16 \<times> (u32 \<times> u8) option) result option"
where
  "hhh_forward cfg st device packet_length now p =
     map_option
       (\<lambda>r. rbind r (\<lambda>(st, freed).
          if device = hc_lan_device cfg then Inr (st, p, hc_wan_device cfg, None)
          else if device = hc_wan_device cfg then
            rbind (hhh_update_buckets cfg st (ip_src_addr (pk_ip p)) packet_length now) (\<lambda>(st, hh).
            Inr (st, p, hc_lan_device cfg, hh))
          else Inr (st, p, DROP, None)))
       (hhh_expire_entries cfg st now)"

definition hhh_process ::
  "hhh_config \<Rightarrow> hhh_state \<Rightarrow> u16 \<Rightarrow> u16 \<Rightarrow> int \<Rightarrow> packet \<Rightarrow>
     (hhh_state \<times> packet \<times> u16 \<times> (u32 \<times> u8) option) result option"
where
  "hhh_process cfg st device packet_length now p =
     (case nf_then_get_ether_header p of
        Inl e \<Rightarrow> Some (Inl e)
      | Inr p \<Rightarrow>
          (case nf_then_get_ipv4_header p of
             Inl e \<Rightarrow> Some (Inl e)
           | Inr None \<Rightarrow> Some (Inr (st, p, DROP, None))
           | Inr (Some p) \<Rightarrow> hhh_forward cfg st device packet_length now p))"

section \<open>One row\<close>

abbreviation hhh_bucket :: "hhh_subnet \<Rightarrow> int \<Rightarrow> dynamic_value" where
  "hhh_bucket row i \<equiv> vec_data (hs_buckets row) ! nat i"

abbreviation hhh_flows :: "(u32 \<Rightarrow> u32 \<Rightarrow> u32) \<Rightarrow> u32 \<Rightarrow> hhh_subnet \<Rightarrow> aged \<Rightarrow> int list \<Rightarrow> bool" where
  "hhh_flows crc n row \<equiv> table_flows chain_rep (map_rep crc n 4) (unat n) bytes32
     (hs_allocator row) (hs_subnets row) (hs_indexer row)"

definition hhh_row_wf ::
  "(u32 \<Rightarrow> u32 \<Rightarrow> u32) \<Rightarrow> u32 \<Rightarrow> u64 \<Rightarrow> int \<Rightarrow> hhh_subnet \<Rightarrow> aged \<Rightarrow> int list \<Rightarrow> bool"
where
  "hhh_row_wf crc n burst now row L F \<longleftrightarrow>
     hhh_flows crc n row L F \<and>
     length (vec_data (hs_subnets row)) = unat n \<and> length (vec_data (hs_buckets row)) = unat n \<and>
     (\<forall>i \<in> set (ids L). dv_bucket_size (hhh_bucket row i) \<le> burst \<and>
        0 \<le> dv_bucket_time (hhh_bucket row i) \<and> dv_bucket_time (hhh_bucket row i) \<le> now)"

lemma hhh_row_wfD:
  assumes "hhh_row_wf crc n burst now row L F"
  shows "hhh_flows crc n row L F" "length (vec_data (hs_subnets row)) = unat n"
    "length (vec_data (hs_buckets row)) = unat n"
    "i \<in> set (ids L) \<Longrightarrow> dv_bucket_size (hhh_bucket row i) \<le> burst"
    "i \<in> set (ids L) \<Longrightarrow> 0 \<le> dv_bucket_time (hhh_bucket row i)"
    "i \<in> set (ids L) \<Longrightarrow> dv_bucket_time (hhh_bucket row i) \<le> now"
  using assms by (auto simp: hhh_row_wf_def)

lemma hhh_row_wf_later:
  assumes "hhh_row_wf crc n burst t row L F" "t \<le> now"
  shows "hhh_row_wf crc n burst now row L F"
  using assms unfolding hhh_row_wf_def by (meson order_trans)

lemma hhh_row_index:
  assumes "hhh_row_wf crc n burst now row L F" "i \<in> set (ids L @ F)"
  shows "0 \<le> i" "nat i < length (vec_data (hs_buckets row))"
  using pol_flows.tab.flows_range [OF hhh_row_wfD(1) [OF assms(1)] assms(2)] hhh_row_wfD(2,3) [OF assms(1)]
  by (simp_all add: nat_less_iff)

lemma hhh_row_expire:
  assumes "hhh_row_wf crc n burst now row L F"
  obtains chain m count L' F' where
    "expire_items_single_map crc bytes32 (hs_allocator row) (hs_subnets row) (hs_indexer row) time =
       Some (Inr (chain, m, count))"
    "hhh_row_wf crc n burst now (row\<lparr>hs_allocator := chain, hs_indexer := m\<rparr>) L' F'"
proof -
  note w = hhh_row_wfD [OF assms]
  let ?k = "expired_count time L"
  from pol_flows.expire_items_correct [OF w(1), of time] obtain chain m where
    x: "expire_items_single_map crc bytes32 (hs_allocator row) (hs_subnets row) (hs_indexer row) time =
       Some (Inr (chain, m, int ?k))"
    "table_flows chain_rep (map_rep crc n 4) (unat n) bytes32 chain (hs_subnets row) m
       (drop ?k L) (rev (ids (take ?k L)) @ F)" by blast
  have "i \<in> set (ids L)" if "i \<in> set (ids (drop ?k L))" for i using that by (auto dest: in_set_dropD)
  with w x(2) have "hhh_row_wf crc n burst now (row\<lparr>hs_allocator := chain, hs_indexer := m\<rparr>)
      (drop ?k L) (rev (ids (take ?k L)) @ F)" by (simp add: hhh_row_wf_def)
  with x(1) show thesis by (rule that)
qed

text \<open>A write to the bucket of index \<open>f\<close> keeps the conditions on the buckets.\<close>

lemma hhh_buckets_write:
  assumes "hhh_row_wf crc n burst now row L F" "f \<in> set (ids L @ F)" "set (ids L') \<subseteq> insert f (set (ids L))"
    and "dv_bucket_size v \<le> burst" "0 \<le> dv_bucket_time v" "dv_bucket_time v \<le> now"
    and "vec_data bs = (vec_data (hs_buckets row))[nat f := v]" "i \<in> set (ids L')"
  shows "dv_bucket_size (vec_data bs ! nat i) \<le> burst \<and> 0 \<le> dv_bucket_time (vec_data bs ! nat i) \<and>
    dv_bucket_time (vec_data bs ! nat i) \<le> now"
proof (cases "nat i = nat f")
  case True
  with hhh_row_index [OF assms(1,2)] assms(4-7) show ?thesis by simp
next
  case False
  with assms(3,8) have "i \<in> set (ids L)" by auto
  with False hhh_row_wfD(4-6) [OF assms(1), of i] assms(7) show ?thesis by simp
qed

lemma hhh_allocate_new:
  assumes wf: "hhh_row_wf (hc_crc cfg) n (hc_burst cfg) time row L (f # F)" and t: "0 \<le> time"
    and len: "ucast len \<le> hc_burst cfg" and new: "\<forall>i \<in> set (ids L). vec_data (hs_subnets row) ! nat i \<noteq> src"
  obtains row' where "hhh_allocate cfg row src len time = Inr (row', True)"
    "hhh_row_wf (hc_crc cfg) n (hc_burst cfg) time row' (L @ [(f, time)]) F"
    "hhh_bucket row' f = \<lparr>dv_bucket_size = hc_burst cfg - ucast len, dv_bucket_time = time\<rparr>"
proof -
  note w = hhh_row_wfD [OF wf]
  let ?keys = "(hs_subnets row)\<lparr>vec_data := (vec_data (hs_subnets row))[nat f := src]\<rparr>"
    and ?v = "\<lparr>dv_bucket_size = hc_burst cfg - ucast len, dv_bucket_time = time\<rparr>"
  let ?bs = "(hs_buckets row)\<lparr>vec_data := (vec_data (hs_buckets row))[nat f := ?v]\<rparr>"
  have f: "f \<in> set (ids L @ f # F)" by simp
  note i = hhh_row_index [OF wf f]
  from pol_flows.tab.insert_flow [OF w(1) new, of time] obtain d' m' where
    d': "dchain_allocate_new_index (hs_allocator row) time = Inr (d', Some f)"
    "vector_write (hs_subnets row) f src = Inr ?keys"
    "map_put (hc_crc cfg) (vector_mem bytes32 ?keys) (hs_indexer row) f f = Inr m'"
    "table_flows chain_rep (map_rep (hc_crc cfg) n 4) (unat n) bytes32 d' ?keys m' (L @ [(f, time)]) F"
    by blast
  have b: "vector_write (hs_buckets row) f ?v = Inr ?bs" using i by (simp add: vector_write_in nat_less_iff)
  let ?row = "row\<lparr>hs_allocator := d', hs_subnets := ?keys, hs_buckets := ?bs, hs_indexer := m'\<rparr>"
  have size: "hc_burst cfg - ucast len \<le> hc_burst cfg"
    using len by (simp add: word_le_nat_alt unat_sub_le)
  have "\<forall>j \<in> set (ids (L @ [(f, time)])). dv_bucket_size (hhh_bucket ?row j) \<le> hc_burst cfg \<and>
      0 \<le> dv_bucket_time (hhh_bucket ?row j) \<and> dv_bucket_time (hhh_bucket ?row j) \<le> time"
  proof
    fix j assume "j \<in> set (ids (L @ [(f, time)]))"
    from hhh_buckets_write [OF wf f _ _ _ _ _ this, of ?v ?bs] size t
    show "dv_bucket_size (hhh_bucket ?row j) \<le> hc_burst cfg \<and> 0 \<le> dv_bucket_time (hhh_bucket ?row j) \<and>
      dv_bucket_time (hhh_bucket ?row j) \<le> time" by simp
  qed
  with d'(4) w(2,3) have "hhh_row_wf (hc_crc cfg) n (hc_burst cfg) time ?row (L @ [(f, time)]) F"
    by (simp add: hhh_row_wf_def)
  moreover have "hhh_allocate cfg row src len time = Inr (?row, True)"
    using d'(1-3) b len by (simp add: hhh_allocate_def)
  moreover have "hhh_bucket ?row f = ?v" using i by simp
  ultimately show thesis by (intro that [of ?row])
qed

lemma hhh_allocate_full:
  assumes wf: "hhh_row_wf (hc_crc cfg) n (hc_burst cfg) time row L []"
  obtains row' where "hhh_allocate cfg row src len time = Inr (row', False)"
    "hhh_row_wf (hc_crc cfg) n (hc_burst cfg) time row' L []"
proof -
  note w = hhh_row_wfD [OF wf]
  from pol_flows.tab.insert_full [OF w(1), of time] obtain d' where
    d': "dchain_allocate_new_index (hs_allocator row) time = Inr (d', None)"
    "table_flows chain_rep (map_rep (hc_crc cfg) n 4) (unat n) bytes32 d' (hs_subnets row) (hs_indexer row) L []"
    by blast
  then have "hhh_row_wf (hc_crc cfg) n (hc_burst cfg) time (row\<lparr>hs_allocator := d'\<rparr>) L []"
    using w by (simp add: hhh_row_wf_def)
  moreover have "hhh_allocate cfg row src len time = Inr (row\<lparr>hs_allocator := d'\<rparr>, False)"
    using d'(1) by (simp add: hhh_allocate_def)
  ultimately show thesis by (rule that [rotated])
qed

section \<open>One bucket\<close>

text \<open>The bucket of a prefix as one of the library's token buckets.\<close>

definition hhh_token_bucket :: "dynamic_value \<Rightarrow> tb_bucket" where
  "hhh_token_bucket v = \<lparr>bk_tokens = dv_bucket_size v, bk_time = dv_bucket_time v\<rparr>"

lemma hhh_spend_bucket_update:
  assumes "rate \<noteq> 0" "dv_bucket_size v \<le> burst" "0 \<le> dv_bucket_time v" "dv_bucket_time v \<le> time"
  obtains v' hit where "hhh_spend rate burst v len time = Inr (v', hit)"
    "bucket_update rate burst (hhh_token_bucket v) len time = Inr (hhh_token_bucket v', \<not> hit)"
    "dv_bucket_time v' = time"
proof -
  let ?t = "bucket_refill rate burst (hhh_token_bucket v) time"
  have "hhh_refill rate burst v time = Inr ?t"
    using assms by (simp add: hhh_refill_def bucket_refill_def hhh_token_bucket_def Let_def)
  with assms show thesis
    by (intro that [of "if ?t > ucast len then \<lparr>dv_bucket_size = ?t - ucast len, dv_bucket_time = time\<rparr>
          else \<lparr>dv_bucket_size = ?t, dv_bucket_time = time\<rparr>" "\<not> ?t > ucast len"])
      (simp_all add: hhh_spend_def bucket_update_def hhh_token_bucket_def Let_def)
qed

lemma hhh_spend_size:
  assumes "hhh_spend rate burst v len time = Inr (v', hit)"
  shows "dv_bucket_size v' \<le> burst"
proof -
  from assms obtain b where b: "hhh_refill rate burst v time = Inr b"
    "dv_bucket_size v' = (if b > ucast len then b - ucast len else b)"
    by (auto simp: hhh_spend_def rbind_eq_Inr assert_that_def split: if_splits)
  have "b \<le> burst" using b(1)
    by (auto simp: hhh_refill_def Let_def assert_that_def split: if_splits)
  moreover have "b - ucast len \<le> b" if "b > ucast len"
    using unat_sub_le [OF less_imp_le [OF that]] by (simp add: word_le_nat_alt)
  ultimately show ?thesis using b(2) by (auto intro: order_trans)
qed

lemma hhh_account_present:
  assumes wf: "hhh_row_wf (hc_crc cfg) n (hc_burst cfg) t0 row L F" and i: "i \<in> set (ids L)"
    and t: "t0 \<le> time" "rate \<noteq> 0"
  obtains row' v hit where "hhh_account cfg rate row i len time = Inr (row', hit)"
    "hhh_spend rate (hc_burst cfg) (hhh_bucket row i) len time = Inr (v, hit)"
    "hhh_row_wf (hc_crc cfg) n (hc_burst cfg) time row' (forget i L @ [(i, time)]) F"
    "hhh_bucket row' i = v"
proof -
  note wf' = hhh_row_wf_later [OF wf t(1)]
  note w = hhh_row_wfD [OF wf']
  have f: "i \<in> set (ids L @ F)" using i by simp
  note r = hhh_row_index [OF wf f]
  obtain v hit where v: "hhh_spend rate (hc_burst cfg) (hhh_bucket row i) len time = Inr (v, hit)"
    "dv_bucket_time v = time"
    by (rule hhh_spend_bucket_update [OF t(2) w(4-6) [OF i]])
  have tm: "0 \<le> time" using w(5,6) [OF i] by linarith
  from pol_flows.tab.rejuvenate_flow [OF w(1) i, of time] obtain d' where
    d': "dchain_rejuvenate_index (hs_allocator row) i time = Inr (d', True)"
      "table_flows chain_rep (map_rep (hc_crc cfg) n 4) (unat n) bytes32
        d' (hs_subnets row) (hs_indexer row) (forget i L @ [(i, time)]) F" by blast
  let ?bs = "(hs_buckets row)\<lparr>vec_data := (vec_data (hs_buckets row))[nat i := v]\<rparr>"
  let ?row = "row\<lparr>hs_allocator := d', hs_buckets := ?bs\<rparr>"
  have b: "vector_borrow (hs_buckets row) i = Inr (hhh_bucket row i)"
    "vector_write (hs_buckets row) i v = Inr ?bs" using r by (simp_all add: vector_write_in nat_less_iff)
  have sub: "set (ids (forget i L @ [(i, time)])) \<subseteq> insert i (set (ids L))" by auto
  have "\<forall>j \<in> set (ids (forget i L @ [(i, time)])). dv_bucket_size (hhh_bucket ?row j) \<le> hc_burst cfg \<and>
      0 \<le> dv_bucket_time (hhh_bucket ?row j) \<and> dv_bucket_time (hhh_bucket ?row j) \<le> time"
  proof
    fix j assume "j \<in> set (ids (forget i L @ [(i, time)]))"
    from hhh_buckets_write [OF wf' f sub _ _ _ _ this, of v ?bs] hhh_spend_size [OF v(1)] v(2) tm
    show "dv_bucket_size (hhh_bucket ?row j) \<le> hc_burst cfg \<and> 0 \<le> dv_bucket_time (hhh_bucket ?row j) \<and>
      dv_bucket_time (hhh_bucket ?row j) \<le> time" by simp
  qed
  with d'(2) w(2,3) have "hhh_row_wf (hc_crc cfg) n (hc_burst cfg) time ?row (forget i L @ [(i, time)]) F"
    by (simp add: hhh_row_wf_def)
  moreover have "hhh_account cfg rate row i len time = Inr (?row, hit)"
    using d'(1) b v(1) by (simp add: hhh_account_def)
  moreover have "hhh_bucket ?row i = v" using r by simp
  ultimately show thesis using v(1) by (intro that [of ?row hit v])
qed

lemma hhh_row_get:
  assumes "hhh_row_wf crc n burst now row L F"
  shows "map_get crc (vector_mem bytes32 (hs_subnets row)) (hs_indexer row) (bytes32 src) = Some i \<longleftrightarrow>
      i \<in> set (ids L) \<and> vec_data (hs_subnets row) ! nat i = src"
    "map_get crc (vector_mem bytes32 (hs_subnets row)) (hs_indexer row) (bytes32 src) = None \<longleftrightarrow>
      (\<forall>i \<in> set (ids L). vec_data (hs_subnets row) ! nat i \<noteq> src)"
  using pol_flows.tab.get_flow [OF hhh_row_wfD(1) [OF assms]]
    pol_flows.tab.get_flow_None [OF hhh_row_wfD(1) [OF assms]] by simp_all

end
