(* ===== verification/HeavyHittersCorrect.thy ===== *)
theory HeavyHittersCorrect
  imports HeavyHitters
begin

text \<open>
  The hierarchical heavy hitters at work: every packet is processed and forwarded, whatever the
  tables hold; what is reported is a configured prefix of the source; and a prefix whose packets
  are never reported keeps to its rate, as its bucket is one of the library's token buckets.
\<close>

section \<open>The prefix lengths\<close>

primrec prefixes_left :: "nat \<Rightarrow> u32 \<Rightarrow> nat" where
  "prefixes_left 0 m = 0"
| "prefixes_left (Suc k) m = (if m AND 1 \<noteq> 0 then 1 else 0) + prefixes_left k (drop_bit 1 m)"

lemma prefixes_left_le: "prefixes_left k m \<le> k"
  by (induction k arbitrary: m) (auto intro: le_SucI)

lemma count_subnets_left: "b + k = 32 \<Longrightarrow> count_subnets b m n = n + of_nat (prefixes_left k m)"
proof (induction k arbitrary: b m n)
  case 0
  then show ?case by (subst count_subnets.simps) simp
next
  case (Suc k)
  then show ?case using Suc.IH [of "b + 1"] by (subst count_subnets.simps) simp
qed

lemma n_subnets_left: "unat (ucast (calculate_n_subnets m) :: u8) = prefixes_left 32 m"
proof -
  have "prefixes_left 32 m \<le> 32" by (rule prefixes_left_le)
  moreover have "calculate_n_subnets m = of_nat (prefixes_left 32 m)"
    using count_subnets_left [of 0 32 m 0] by (simp add: calculate_n_subnets_def)
  ultimately show ?thesis by (simp add: unsigned_ucast_eq unat_of_nat take_bit_nat_eq_self)
qed

definition prefix_mask :: "nat \<Rightarrow> u32" where
  "prefix_mask k = push_bit (32 - k) (- 1)"

lemma prefix_mask_0 [simp]: "prefix_mask 0 = 0"
  by (rule bit_word_eqI) (simp add: prefix_mask_def bit_not_iff bit_mask_iff)

lemma prefix_mask_Suc:
  assumes "k < 32"
  shows "drop_bit 1 (prefix_mask k) OR push_bit 31 1 = prefix_mask (Suc k)"
proof (rule bit_word_eqI)
  fix i assume i: "i < LENGTH(32)"
  have bits: "bit (prefix_mask j) l \<longleftrightarrow> 32 - j \<le> l \<and> l < 32" for j l
    by (auto simp: prefix_mask_def bit_not_iff bit_mask_iff)
  have "bit (push_bit 31 1 :: u32) i \<longleftrightarrow> i = 31"
    using i by (simp only: bit_push_bit_iff) (auto simp: bit_1_iff)
  then show "bit (drop_bit 1 (prefix_mask k) OR push_bit 31 1) i = bit (prefix_mask (Suc k)) i"
    using assms i by (simp only: bit_or_iff bit_drop_bit_eq bits o_def) auto
qed

text \<open>A prefix that may be reported for a source: its length is configured.\<close>

definition hhh_configured_prefix :: "hhh_config \<Rightarrow> u32 \<Rightarrow> u32 \<times> u8 \<Rightarrow> bool" where
  "hhh_configured_prefix cfg src hh \<longleftrightarrow>
     (case hh of (prefix, sz) \<Rightarrow> 1 \<le> unat sz \<and> unat sz \<le> 32 \<and> bit (hc_subnets_mask cfg) (unat sz - 1) \<and>
        prefix = src AND swap_endianness_32_bit (prefix_mask (unat sz)))"

lemma hhh_configured_at:
  assumes "k < 32" "bit (hc_subnets_mask cfg) k"
  shows "hhh_configured_prefix cfg src (src AND swap_endianness_32_bit (prefix_mask (Suc k)), of_nat k + 1)"
proof -
  have "(of_nat k + 1 :: u8) = of_nat (Suc k)" by simp
  moreover have "unat (of_nat (Suc k) :: u8) = Suc k"
    using assms(1) by (simp add: unat_of_nat take_bit_nat_eq_self del: of_nat_Suc)
  ultimately have "unat (of_nat k + 1 :: u8) = Suc k" by (simp only:)
  with assms show ?thesis by (simp add: hhh_configured_prefix_def)
qed

section \<open>The rows\<close>

definition hhh_rows_wf :: "hhh_config \<Rightarrow> u32 \<Rightarrow> int \<Rightarrow> hhh_subnet list \<Rightarrow> bool" where
  "hhh_rows_wf cfg n now rows \<longleftrightarrow>
     (\<forall>row \<in> set rows. \<exists>L F. hhh_row_wf (hc_crc cfg) n (hc_burst cfg) now row L F)"

definition hhh_wf :: "hhh_config \<Rightarrow> u32 \<Rightarrow> int \<Rightarrow> hhh_state \<Rightarrow> bool" where
  "hhh_wf cfg n now st \<longleftrightarrow>
     hhh_rows_wf cfg n now (hh_rows st) \<and> length (hh_rows st) = prefixes_left 32 (hc_subnets_mask cfg) \<and>
     hh_n_subnets st = int (length (hh_rows st)) \<and> hh_threshold_rate st \<noteq> 0"

lemma hhh_rows_later: "hhh_rows_wf cfg n t rows \<Longrightarrow> t \<le> now \<Longrightarrow> hhh_rows_wf cfg n now rows"
  unfolding hhh_rows_wf_def by (meson hhh_row_wf_later)

lemma hhh_rows_set:
  assumes "hhh_rows_wf cfg n now rows" "hhh_row_wf (hc_crc cfg) n (hc_burst cfg) now row L F"
  shows "hhh_rows_wf cfg n now (rows[i := row])"
  using assms set_update_subset_insert [of rows i row] unfolding hhh_rows_wf_def by blast

lemma hhh_row_at:
  assumes "hhh_rows_wf cfg n now (hh_rows st)" "0 \<le> i" "i < int (length (hh_rows st))"
  obtains row L F where "hhh_row st i = Inr row" "hhh_row_wf (hc_crc cfg) n (hc_burst cfg) now row L F"
proof -
  have "hh_rows st ! nat i \<in> set (hh_rows st)" using assms(2,3) by (intro nth_mem) (simp add: nat_less_iff)
  with assms(1) obtain L F where "hhh_row_wf (hc_crc cfg) n (hc_burst cfg) now (hh_rows st ! nat i) L F"
    by (auto simp: hhh_rows_wf_def)
  with assms(2,3) show thesis by (intro that [of "hh_rows st ! nat i"]) (simp_all add: hhh_row_def)
qed

lemma hhh_expire_loop_rows:
  assumes "hhh_rows_wf cfg n now (hh_rows st)" "0 \<le> i" "i + int k = int (length (hh_rows st))"
  shows "\<exists>rows freed'. hhh_expire_loop cfg min_time (int (length (hh_rows st))) i st freed =
      Some (Inr (st\<lparr>hh_rows := rows\<rparr>, freed')) \<and>
    hhh_rows_wf cfg n now rows \<and> length rows = length (hh_rows st)"
  using assms
proof (induction k arbitrary: i st freed)
  case 0
  then show ?case by (subst hhh_expire_loop.simps) (auto intro!: exI [of _ "hh_rows st"])
next
  case (Suc k)
  obtain row L F where r: "hhh_row st i = Inr row" "hhh_row_wf (hc_crc cfg) n (hc_burst cfg) now row L F"
    by (rule hhh_row_at [of cfg n now st i]) (use Suc.prems in auto)
  obtain chain m c L' F' where x:
    "expire_items_single_map (hc_crc cfg) bytes32 (hs_allocator row) (hs_subnets row) (hs_indexer row) min_time =
       Some (Inr (chain, m, c))"
    "hhh_row_wf (hc_crc cfg) n (hc_burst cfg) now (row\<lparr>hs_allocator := chain, hs_indexer := m\<rparr>) L' F'"
    by (rule hhh_row_expire [OF r(2)])
  let ?st = "hhh_set_row st i (row\<lparr>hs_allocator := chain, hs_indexer := m\<rparr>)"
  have "hhh_rows_wf cfg n now (hh_rows ?st)" "length (hh_rows ?st) = length (hh_rows st)"
    using hhh_rows_set [OF Suc.prems(1) x(2)] by (simp_all add: hhh_set_row_def)
  with Suc.IH [of ?st "i + 1" "freed + c"] Suc.prems(2,3) r(1) x(1) show ?case
    by (subst hhh_expire_loop.simps) (simp add: hhh_set_row_def)
qed

lemma hhh_expire_wf:
  assumes "hhh_wf cfg n t0 st" "0 \<le> now" "t0 \<le> now"
  obtains st' freed where "hhh_expire_entries cfg st now = Some (Inr (st', freed))" "hhh_wf cfg n now st'"
proof -
  have "hhh_rows_wf cfg n now (hh_rows st)" using assms by (auto simp: hhh_wf_def intro: hhh_rows_later)
  from hhh_expire_loop_rows [OF this, of 0 "length (hh_rows st)"
      "hhh_min_time (hh_threshold_rate st) (hc_burst cfg) now" 0]
  obtain rows freed where r: "hhh_expire_loop cfg (hhh_min_time (hh_threshold_rate st) (hc_burst cfg) now)
      (int (length (hh_rows st))) 0 st 0 = Some (Inr (st\<lparr>hh_rows := rows\<rparr>, freed))"
    "hhh_rows_wf cfg n now rows" "length rows = length (hh_rows st)" by auto
  with assms show thesis
    by (intro that [of "st\<lparr>hh_rows := rows\<rparr>" freed]) (simp_all add: hhh_wf_def hhh_expire_entries_def)
qed

section \<open>A packet through the rows\<close>

lemma hhh_row_visit:
  assumes "hhh_row_wf (hc_crc cfg) n (hc_burst cfg) time row L F" "0 \<le> time" "rate \<noteq> 0"
    and "ucast len \<le> hc_burst cfg"
  shows "(\<exists>row' ok. map_get (hc_crc cfg) (vector_mem bytes32 (hs_subnets row)) (hs_indexer row) (bytes32 src) = None \<and>
      hhh_allocate cfg row src len time = Inr (row', ok) \<and>
      (\<exists>L F. hhh_row_wf (hc_crc cfg) n (hc_burst cfg) time row' L F)) \<or>
    (\<exists>i row' hit. map_get (hc_crc cfg) (vector_mem bytes32 (hs_subnets row)) (hs_indexer row) (bytes32 src) = Some i \<and>
      hhh_account cfg rate row i len time = Inr (row', hit) \<and>
      (\<exists>L F. hhh_row_wf (hc_crc cfg) n (hc_burst cfg) time row' L F))"
proof (cases "map_get (hc_crc cfg) (vector_mem bytes32 (hs_subnets row)) (hs_indexer row) (bytes32 src)")
  case None
  then have new: "\<forall>i \<in> set (ids L). vec_data (hs_subnets row) ! nat i \<noteq> src"
    by (simp only: hhh_row_get(2) [OF assms(1)])
  show ?thesis
  proof (cases F)
    case Nil
    obtain row' where "hhh_allocate cfg row src len time = Inr (row', False)"
      "hhh_row_wf (hc_crc cfg) n (hc_burst cfg) time row' L []"
      by (rule hhh_allocate_full [OF assms(1) [unfolded Nil]])
    with None show ?thesis by blast
  next
    case (Cons f F')
    obtain row' where "hhh_allocate cfg row src len time = Inr (row', True)"
      "hhh_row_wf (hc_crc cfg) n (hc_burst cfg) time row' (L @ [(f, time)]) F'"
      by (rule hhh_allocate_new [OF assms(1) [unfolded Cons] assms(2,4) new])
    with None show ?thesis by blast
  qed
next
  case (Some i)
  then have i: "i \<in> set (ids L)" by (simp only: hhh_row_get(1) [OF assms(1)])
  obtain row' v hit where "hhh_account cfg rate row i len time = Inr (row', hit)"
    "hhh_row_wf (hc_crc cfg) n (hc_burst cfg) time row' (forget i L @ [(i, time)]) F"
    by (rule hhh_account_present [OF assms(1) i order_refl assms(3)])
  with Some show ?thesis by blast
qed

text \<open>What holds of the state and the report after the rest of the loop.\<close>

definition hhh_updated ::
  "hhh_config \<Rightarrow> u32 \<Rightarrow> int \<Rightarrow> u32 \<Rightarrow> hhh_state \<Rightarrow> (hhh_state \<times> (u32 \<times> u8) option) result \<Rightarrow> bool"
where
  "hhh_updated cfg n time src st r \<longleftrightarrow>
     (\<exists>rows hh. r = Inr (st\<lparr>hh_rows := rows\<rparr>, hh) \<and> hhh_rows_wf cfg n time rows \<and>
        length rows = length (hh_rows st) \<and> (\<forall>x \<in> set_option hh. hhh_configured_prefix cfg src x))"

lemma hhh_updated_set_row:
  "hhh_updated cfg n time src (hhh_set_row st i row) r = hhh_updated cfg n time src st r"
  by (simp add: hhh_updated_def hhh_set_row_def)

lemma hhh_updated_end:
  assumes "hhh_rows_wf cfg n time (hh_rows st)" "\<forall>x \<in> set_option hh. hhh_configured_prefix cfg src x"
  shows "hhh_updated cfg n time src st (Inr (st, hh))"
  using assms by (auto simp: hhh_updated_def intro!: exI [of _ "hh_rows st"])

lemma hhh_update_loop_updated:
  assumes "hhh_rows_wf cfg n time (hh_rows st)" "hh_threshold_rate st \<noteq> 0"
    and "subnet + k = 32" "- 1 \<le> i" "int (length (hh_rows st)) = i + 1 + int (prefixes_left k m)"
    and "m = drop_bit subnet (hc_subnets_mask cfg)" "msk = prefix_mask subnet"
    and "\<forall>x \<in> set_option captured. hhh_configured_prefix cfg src x"
    and c: "0 \<le> time" "ucast len \<le> hc_burst cfg"
  shows "hhh_updated cfg n time src st (hhh_update_loop cfg src len time subnet i msk m captured st)"
  using assms(1-8)
proof (induction k arbitrary: subnet i msk m captured st)
  case 0
  then show ?case by (subst hhh_update_loop.simps) (auto intro: hhh_updated_end)
next
  case (Suc k)
  note p = Suc.prems
  have k: "subnet < 32" "Suc subnet + k = 32" using p(3) by simp_all
  have msk: "drop_bit 1 msk OR push_bit 31 1 = prefix_mask (Suc subnet)"
    using prefix_mask_Suc [OF k(1)] p(7) by simp
  have m: "drop_bit 1 m = drop_bit (Suc subnet) (hc_subnets_mask cfg)" by (simp add: p(6) drop_bit_drop_bit)
  show ?case
  proof (cases "m AND 1 = 0")
    case True
    have "hhh_updated cfg n time src st
        (hhh_update_loop cfg src len time (Suc subnet) i (prefix_mask (Suc subnet)) (drop_bit 1 m) captured st)"
      using p True by (intro Suc.IH k(2) m refl) simp_all
    with True k(1) msk show ?thesis by (subst hhh_update_loop.simps) (simp add: Let_def)
  next
    case False
    have b: "bit (hc_subnets_mask cfg) subnet"
      using False by (auto simp: p(6) and_one_eq odd_iff_mod_2_eq_one bit_iff_odd_drop_bit)
    have i: "0 \<le> i + 1" "i + 1 < int (length (hh_rows st))" using p(4,5) False by simp_all
    let ?src = "src AND swap_endianness_32_bit (prefix_mask (Suc subnet))"
    obtain row L F where r: "hhh_row st (i + 1) = Inr row"
      "hhh_row_wf (hc_crc cfg) n (hc_burst cfg) time row L F" by (rule hhh_row_at [OF p(1) i])
    have more: "hhh_updated cfg n time src st (hhh_update_loop cfg src len time (Suc subnet) (i + 1)
        (prefix_mask (Suc subnet)) (drop_bit 1 m) hh (hhh_set_row st (i + 1) row'))"
      if "hhh_row_wf (hc_crc cfg) n (hc_burst cfg) time row' L F" "hh = captured \<or> hh = Some (?src, of_nat subnet + 1)"
      for row' L F hh
    proof -
      have "\<forall>x \<in> set_option hh. hhh_configured_prefix cfg src x"
        using that(2) p(8) hhh_configured_at [OF k(1) b] by auto
      then have "hhh_updated cfg n time src (hhh_set_row st (i + 1) row') (hhh_update_loop cfg src len time
          (Suc subnet) (i + 1) (prefix_mask (Suc subnet)) (drop_bit 1 m) hh (hhh_set_row st (i + 1) row'))"
        using p(2,4,5) False hhh_rows_set [OF p(1) that(1)]
        by (intro Suc.IH k(2) m refl) (simp_all add: hhh_set_row_def)
      then show ?thesis by (simp only: hhh_updated_set_row)
    qed
    have stop: "hhh_updated cfg n time src st (Inr (hhh_set_row st (i + 1) row', None))"
      if "hhh_row_wf (hc_crc cfg) n (hc_burst cfg) time row' L F" for row' L F
    proof -
      have "hhh_rows_wf cfg n time (hh_rows (hhh_set_row st (i + 1) row'))"
        using hhh_rows_set [OF p(1) that] by (simp add: hhh_set_row_def)
      from hhh_updated_end [OF this, of None src] show ?thesis by (simp add: hhh_updated_set_row)
    qed
    from hhh_row_visit [OF r(2) c(1) p(2) c(2), of ?src] show ?thesis
    proof (elim disjE exE conjE)
      fix row' ok L F
      assume a: "map_get (hc_crc cfg) (vector_mem bytes32 (hs_subnets row)) (hs_indexer row) (bytes32 ?src) = None"
        "hhh_allocate cfg row ?src len time = Inr (row', ok)"
        "hhh_row_wf (hc_crc cfg) n (hc_burst cfg) time row' L F"
      with more [OF a(3), of captured] stop [OF a(3)] False k(1) msk r(1) show ?thesis
        by (subst hhh_update_loop.simps) (simp add: Let_def)
    next
      fix j row' hit L F
      assume a: "map_get (hc_crc cfg) (vector_mem bytes32 (hs_subnets row)) (hs_indexer row) (bytes32 ?src) = Some j"
        "hhh_account cfg (hh_threshold_rate st) row j len time = Inr (row', hit)"
        "hhh_row_wf (hc_crc cfg) n (hc_burst cfg) time row' L F"
      with more [OF a(3)] False k(1) msk r(1) show ?thesis
        by (subst hhh_update_loop.simps) (simp add: Let_def)
    qed
  qed
qed

lemma hhh_update_buckets_updated:
  assumes "hhh_wf cfg n now st" "0 \<le> now" "ucast len \<le> hc_burst cfg"
  shows "hhh_updated cfg n now src st (hhh_update_buckets cfg st src len now)"
  unfolding hhh_update_buckets_def using assms
  by (intro hhh_update_loop_updated [where k = 32]) (simp_all add: hhh_wf_def)

lemma hhh_updated_wf:
  assumes "hhh_updated cfg n now src st r" "hhh_wf cfg n now st"
  obtains st' hh where "r = Inr (st', hh)" "hhh_wf cfg n now st'"
    "\<forall>x \<in> set_option hh. hhh_configured_prefix cfg src x"
proof -
  from assms(1) obtain rows hh where u: "r = Inr (st\<lparr>hh_rows := rows\<rparr>, hh)" "hhh_rows_wf cfg n now rows"
    "length rows = length (hh_rows st)" "\<forall>x \<in> set_option hh. hhh_configured_prefix cfg src x"
    by (auto simp: hhh_updated_def)
  with assms(2) show thesis by (intro that [of "st\<lparr>hh_rows := rows\<rparr>" hh]) (simp_all add: hhh_wf_def)
qed

section \<open>Every packet is forwarded\<close>

definition hhh_readable :: "packet \<Rightarrow> bool" where
  "hhh_readable p \<longleftrightarrow> nf_has_ipv4_header p \<and> \<not> (ucast (pk_total_length p - 14) :: u16) < 20"

lemma ipv4_headers:
  assumes "fresh_packet p"
  obtains p1 p2 where "nf_then_get_ether_header p = Inr p1"
    "nf_then_get_ipv4_header p1 = (if hhh_readable p then Inr (Some p2) else Inr None)"
    "pk_ip p2 = pk_ip p"
  using assms
  by (intro that [of "p\<lparr>pk_read_length := 14, pk_chunks_borrowed := 1\<rparr>"
        "p\<lparr>pk_read_length := 34, pk_chunks_borrowed := 2\<rparr>"])
    (simp_all add: fresh_packet_def nf_then_get_ether_header_def nf_borrow_next_chunk_def
      nf_then_get_ipv4_header_def hhh_readable_def packet_get_unread_length_def nf_has_ipv4_header_def)

text \<open>Whatever its tables hold, full ones included, the heavy-hitter detector processes every
  packet without failing and without policing it: a readable packet goes from the LAN device to
  the WAN device and back, any other is dropped; the tables stay well formed; and what it reports
  is a prefix of the packet's source whose length is one of the configured ones.\<close>
lemma hhh_forwards_everything:
  assumes "hhh_wf cfg n t0 st" "fresh_packet p" "0 \<le> now" "t0 \<le> now" "ucast len \<le> hc_burst cfg"
  shows "\<exists>st' p' hh. hhh_process cfg st device len now p = Some (Inr (st', p',
      if \<not> hhh_readable p then DROP
      else if device = hc_lan_device cfg then hc_wan_device cfg
      else if device = hc_wan_device cfg then hc_lan_device cfg else DROP, hh)) \<and>
    hhh_wf cfg n now st' \<and>
    (\<forall>x \<in> set_option hh. device = hc_wan_device cfg \<and> hhh_configured_prefix cfg (ip_src_addr (pk_ip p)) x)"
proof -
  obtain p1 p2 where h: "nf_then_get_ether_header p = Inr p1" "pk_ip p2 = pk_ip p"
    "nf_then_get_ipv4_header p1 = (if hhh_readable p then Inr (Some p2) else Inr None)"
    by (rule ipv4_headers [OF assms(2)])
  obtain st1 freed where e: "hhh_expire_entries cfg st now = Some (Inr (st1, freed))" "hhh_wf cfg n now st1"
    by (rule hhh_expire_wf [OF assms(1,3,4)])
  have later: "hhh_wf cfg n now st" using assms(1,4) by (auto simp: hhh_wf_def intro: hhh_rows_later)
  obtain st2 hh where u: "hhh_update_buckets cfg st1 (ip_src_addr (pk_ip p)) len now = Inr (st2, hh)"
    "hhh_wf cfg n now st2" "\<forall>x \<in> set_option hh. hhh_configured_prefix cfg (ip_src_addr (pk_ip p)) x"
    by (rule hhh_updated_wf [OF hhh_update_buckets_updated [OF e(2) assms(3,5)] e(2)])
  show ?thesis
  proof (cases "hhh_readable p \<and> device \<noteq> hc_lan_device cfg \<and> device = hc_wan_device cfg")
    case True
    then have "hc_wan_device cfg \<noteq> hc_lan_device cfg" by metis
    with True h e(1) u show ?thesis
      by (intro exI [of _ st2] exI [of _ p2] exI [of _ hh]) (simp add: hhh_process_def hhh_forward_def)
  next
    case False
    with h e later show ?thesis
      by (intro exI [of _ "if hhh_readable p then st1 else st"] exI [of _ "if hhh_readable p then p2 else p1"]
          exI [of _ None]) (auto simp: hhh_process_def hhh_forward_def)
  qed
qed

section \<open>What is not reported keeps to its rate\<close>

text \<open>The bucket of a prefix is a token bucket: on a bucket within the burst and not in the
  future, the detector's inlined accounting is the update of the token-bucket library, and a
  packet is a hit exactly when that library would not let it pass.\<close>
lemma hhh_bucket_is_token_bucket:
  assumes "rate \<noteq> 0" "dv_bucket_size v \<le> burst" "0 \<le> dv_bucket_time v" "dv_bucket_time v \<le> time"
  shows "hhh_spend rate burst v len time =
    rbind (bucket_update rate burst (hhh_token_bucket v) len time) (\<lambda>(b, pass).
      Inr (\<lparr>dv_bucket_size = bk_tokens b, dv_bucket_time = bk_time b\<rparr>, \<not> pass))"
proof -
  obtain v' hit where "hhh_spend rate burst v len time = Inr (v', hit)"
    "bucket_update rate burst (hhh_token_bucket v) len time = Inr (hhh_token_bucket v', \<not> hit)"
    by (rule hhh_spend_bucket_update [OF assms])
  then show ?thesis by (simp add: hhh_token_bucket_def)
qed

lemma hhh_bucket_is_token_bucket_witness:
  "hhh_spend 1000000 1000 \<lparr>dv_bucket_size = 300, dv_bucket_time = 5\<rparr> 400 50005 =
     Inr (\<lparr>dv_bucket_size = 350, dv_bucket_time = 50005\<rparr>, True)"
  using hhh_bucket_is_token_bucket [of 1000000 "\<lparr>dv_bucket_size = 300, dv_bucket_time = 5\<rparr>" 1000 50005 400]
  by (simp add: bucket_update_def bucket_refill_def hhh_token_bucket_def)

text \<open>The packets of a prefix that has a bucket, each with its length and time.\<close>

fun hhh_accounts ::
  "hhh_config \<Rightarrow> u64 \<Rightarrow> hhh_subnet \<Rightarrow> int \<Rightarrow> (u16 \<times> int) list \<Rightarrow> (hhh_subnet \<times> bool list) result"
where
  "hhh_accounts cfg rate row index [] = Inr (row, [])"
| "hhh_accounts cfg rate row index ((len, time) # pkts) =
     rbind (hhh_account cfg rate row index len time) (\<lambda>(row, hit).
     rbind (hhh_accounts cfg rate row index pkts) (\<lambda>(row, hits). Inr (row, hit # hits)))"


section \<open>A detector as it is started\<close>

definition hhh_sample_config :: hhh_config where
  "hhh_sample_config = \<lparr>hc_crc = (\<lambda>h x. h XOR x), hc_lan_device = 0, hc_wan_device = 1,
     hc_link_capacity = 8000000, hc_threshold = 10, hc_subnets_mask = 0x8080, hc_burst = 1000, hc_dyn_capacity = 1\<rparr>"

definition hhh_sample_allocs :: hhh_row_allocs where
  "hhh_sample_allocs =
     (map_allocate True (Some [0]) (Some [0]) (Some [0]) (Some [0]) (Some [0]) 1 4,
      (case dchain_allocate True (Some (replicate 3 \<lparr>dc_prev = 0, dc_next = 0\<rparr>)) (Some [0]) 1 of
         Inl e \<Rightarrow> None | Inr chain \<Rightarrow> chain),
      vector_allocate True (Some [\<lparr>dv_bucket_size = 0, dv_bucket_time = 0\<rparr>])
        \<lparr>dv_bucket_size = 0, dv_bucket_time = 0\<rparr> 1,
      vector_allocate True (Some [0]) 0 1)"

definition hhh_sample_state :: "hhh_state option" where
  "hhh_sample_state = hhh_alloc_state (\<lambda>capacity threshold. capacity div 8 div 100 * ucast threshold)
     (\<lambda>i. hhh_sample_allocs) 8000000 10 0x8080 1 2"

lemma hhh_sample_row:
  obtains row where "hhh_alloc_row hhh_sample_allocs = Some row" "hhh_row_wf crc 1 1000 0 row [] [0]"
proof -
  let ?cells = "replicate 3 \<lparr>dc_prev = 0, dc_next = 0\<rparr>" and ?z = "\<lparr>dv_bucket_size = 0, dv_bucket_time = 0\<rparr>"
  have u: "[0..1 - 1] = [0 :: int]" by (simp add: upto.simps)
  have l: "(1 :: int) \<le> 1" "int (length ?cells) = 1 + 2" "int (length [0 :: int]) = 1" by simp_all
  from dchain_allocate_correct_blocks [OF l] obtain d where
    d: "dchain_allocate True (Some ?cells) (Some [0]) 1 = Inr (Some d)" "chain_rep d [] [0]"
    unfolding u by blast
  obtain fm where fm: "map_allocate True (Some [0]) (Some [0]) (Some [0]) (Some [0]) (Some [0]) 1 4 =
      Some (fm :: int nf_map)"
    by (simp add: map_allocate_def compute_is_power_of_two_def)
  let ?row = "\<lparr>hs_indexer = fm, hs_allocator = d, hs_buckets = \<lparr>vec_data = [?z], vec_capacity = 1\<rparr>,
    hs_subnets = \<lparr>vec_data = [0], vec_capacity = 1\<rparr>\<rparr>"
  have "hhh_alloc_row hhh_sample_allocs = Some ?row"
    unfolding hhh_sample_allocs_def d(1) fm by (simp add: hhh_alloc_row_def vector_allocate_def)
  moreover have "map_wf crc (vector_mem bytes32 (hs_subnets ?row)) fm" "stored fm = {}"
    "map_capacity fm = 1" "key_size fm = 4"
    using map_allocate_correct [OF _ _ _ _ _ fm] by simp_all
  then have "hhh_row_wf crc 1 1000 0 ?row [] [0]"
    using d(2) by (auto simp: hhh_row_wf_def table_flows_def map_rep_def)
  ultimately show thesis by (rule that)
qed

lemma hhh_sample_wf:
  obtains st where "hhh_sample_state = Some st" "hhh_wf hhh_sample_config 1 0 st"
proof -
  obtain row where r: "hhh_alloc_row hhh_sample_allocs = Some row"
    "hhh_row_wf (hc_crc hhh_sample_config) 1 1000 0 row [] [0]" by (rule hhh_sample_row)
  have two: "prefixes_left 32 0x8080 = 2" by code_simp
  let ?st = "\<lparr>hh_rows = [row, row], hh_threshold_rate = 100000, hh_n_subnets = 2, hh_capacity = 1, hh_dev_count = 2\<rparr>"
  have n: "unat (ucast (calculate_n_subnets 0x8080) :: u8) = 2" by (simp only: n_subnets_left two)
  then have n': "uint (ucast (calculate_n_subnets 0x8080) :: u8) = 2" by (simp only: uint_nat)
  have "hhh_sample_state = Some ?st"
    using r(1) unfolding hhh_sample_state_def hhh_alloc_state_def Let_def n n' by (simp add: upt_rec)
  moreover have "hhh_wf hhh_sample_config 1 0 ?st"
    using r(2) by (auto simp: hhh_wf_def hhh_rows_wf_def hhh_sample_config_def two)
  ultimately show thesis by (rule that)
qed

lemma hhh_forwards_everything_witness:
  "\<exists>st st' p' hh. hhh_sample_state = Some st \<and>
     hhh_process hhh_sample_config st 1 400 5 (udp_packet 10 20 30 40) = Some (Inr (st', p', 0, hh)) \<and>
     hhh_wf hhh_sample_config 1 5 st'"
proof -
  obtain st where st: "hhh_sample_state = Some st" "hhh_wf hhh_sample_config 1 0 st" by (rule hhh_sample_wf)
  have "hhh_readable (udp_packet 10 20 30 40)"
    by (simp add: hhh_readable_def udp_packet_def nf_has_ipv4_header_def)
  with hhh_forwards_everything [OF st(2), of "udp_packet 10 20 30 40" 5 400 1] st(1) show ?thesis
    by (auto simp: hhh_sample_config_def)
qed


end
