(* ===== verification/SearchHeuristic.thy ===== *)
theory SearchHeuristic
  imports Prelude "HOL-Library.List_Lexorder" "HOL-Library.Multiset"
begin

text \<open>
  The heuristics of the search, \<^verbatim>\<open>LibSynapse/Heuristics\<close>: scores and their comparison, the
  metrics a heuristic consists of, and the two ordered collections of execution plans from which
  the search takes its next plan and its winner. Plans are an opaque type.
\<close>

section \<open>Scores\<close>

text \<open>\<^verbatim>\<open>Score.h\<close>: signed 64-bit values, the first ones most significant.\<close>

datatype score = Score (score_values: "u64 list")

fun less_loop :: "u64 list \<Rightarrow> u64 list \<Rightarrow> bool" where
  "less_loop (this_score # vs) (other_score # ws) =
     (if sint this_score > sint other_score then False
      else if sint this_score < sint other_score then True
      else less_loop vs ws)"
| "less_loop vs ws = False"

definition score_less :: "score \<Rightarrow> score \<Rightarrow> bool result" where
  "score_less a b =
     assert_that (length (score_values a) = length (score_values b))
       (Inr (less_loop (score_values a) (score_values b)))"

fun equal_loop :: "u64 list \<Rightarrow> u64 list \<Rightarrow> bool" where
  "equal_loop (this_score # vs) (other_score # ws) =
     (if this_score \<noteq> other_score then False else equal_loop vs ws)"
| "equal_loop vs ws = True"

definition score_equal :: "score \<Rightarrow> score \<Rightarrow> bool result" where
  "score_equal a b =
     assert_that (length (score_values a) = length (score_values b))
       (Inr (equal_loop (score_values a) (score_values b)))"

definition score_greater :: "score \<Rightarrow> score \<Rightarrow> bool result" where
  "score_greater a b =
     rbind (score_less a b) (\<lambda>l. if l then Inr False else rbind (score_equal a b) (\<lambda>e. Inr (\<not> e)))"

definition score_less_equal :: "score \<Rightarrow> score \<Rightarrow> bool result" where
  "score_less_equal a b = rbind (score_greater a b) (\<lambda>g. Inr (\<not> g))"

definition score_greater_equal :: "score \<Rightarrow> score \<Rightarrow> bool result" where
  "score_greater_equal a b = rbind (score_less a b) (\<lambda>l. Inr (\<not> l))"

definition score_not_equal :: "score \<Rightarrow> score \<Rightarrow> bool result" where
  "score_not_equal a b = rbind (score_equal a b) (\<lambda>e. Inr (\<not> e))"

text \<open>
  Scores as a linear order: lexicographic in the signed values. On scores of one length it is the
  order of the code's operators.
\<close>

instantiation score :: linorder
begin

definition less_eq_score :: "score \<Rightarrow> score \<Rightarrow> bool" where
  "less_eq_score a b \<longleftrightarrow> map sint (score_values a) \<le> map sint (score_values b)"

definition less_score :: "score \<Rightarrow> score \<Rightarrow> bool" where
  "less_score a b \<longleftrightarrow> map sint (score_values a) < map sint (score_values b)"

instance
proof
  fix a b c :: score
  show "(a < b) = (a \<le> b \<and> \<not> b \<le> a)" by (simp only: less_score_def less_eq_score_def less_le_not_le)
  show "a \<le> a" by (simp add: less_eq_score_def)
  show "a \<le> b \<Longrightarrow> b \<le> c \<Longrightarrow> a \<le> c" by (simp add: less_eq_score_def)
  show "a \<le> b \<or> b \<le> a" unfolding less_eq_score_def by (rule linear)
  show "a = b" if "a \<le> b" "b \<le> a"
  proof -
    have "map sint (score_values a) = map sint (score_values b)"
      using that by (simp add: less_eq_score_def)
    moreover have "inj (sint :: u64 \<Rightarrow> int)" by (auto intro: injI)
    ultimately have "score_values a = score_values b" by (simp add: inj_map_eq_map)
    then show ?thesis by (cases a; cases b) simp
  qed
qed

end

lemma less_loop_lex:
  "length vs = length ws \<Longrightarrow> less_loop vs ws \<longleftrightarrow> map sint vs < map sint ws"
  by (induction vs ws rule: less_loop.induct) auto

lemma equal_loop_eq: "length vs = length ws \<Longrightarrow> equal_loop vs ws \<longleftrightarrow> vs = ws"
  by (induction vs ws rule: equal_loop.induct) auto

lemma score_operators:
  assumes "length (score_values a) = length (score_values b)"
  shows "score_less a b = Inr (a < b)" "score_equal a b = Inr (a = b)"
    "score_greater a b = Inr (b < a)" "score_less_equal a b = Inr (a \<le> b)"
    "score_greater_equal a b = Inr (b \<le> a)" "score_not_equal a b = Inr (a \<noteq> b)"
proof -
  show l: "score_less a b = Inr (a < b)"
    using assms by (simp add: score_less_def less_loop_lex less_score_def)
  show e: "score_equal a b = Inr (a = b)"
    using assms by (cases a; cases b) (simp add: score_equal_def equal_loop_eq)
  show g: "score_greater a b = Inr (b < a)"
    unfolding score_greater_def l e by (auto simp: not_less_iff_gr_or_eq)
  show "score_less_equal a b = Inr (a \<le> b)"
    unfolding score_less_equal_def g by (simp add: not_less)
  show "score_greater_equal a b = Inr (b \<le> a)"
    unfolding score_greater_equal_def l by (simp add: not_less)
  show "score_not_equal a b = Inr (a \<noteq> b)"
    unfolding score_not_equal_def e by simp
qed

section \<open>Metrics\<close>

text \<open>
  \<^verbatim>\<open>HeuristicConfig.h\<close>. A value to be minimised is negated (C++ leaves the negation of the
  least value undefined; here it wraps, and no metric takes that value).
\<close>

datatype metric_objective = Objective_Min | Objective_Max

record 'e metric =
  computer :: "'e \<Rightarrow> u64"
  metric_goal :: metric_objective

record 'e heuristic_cfg =
  cfg_name :: string
  cfg_metrics :: "'e metric list"

definition metric_value :: "'e \<Rightarrow> 'e metric \<Rightarrow> u64" where
  "metric_value e m =
     (case metric_goal m of Objective_Min \<Rightarrow> - computer m e | Objective_Max \<Rightarrow> computer m e)"

definition cfg_score :: "'e heuristic_cfg \<Rightarrow> 'e \<Rightarrow> score" where
  "cfg_score cfg e = Score (map (metric_value e) (cfg_metrics cfg))"

definition cfg_compare :: "'e heuristic_cfg \<Rightarrow> 'e \<Rightarrow> 'e \<Rightarrow> bool result" where
  "cfg_compare cfg e1 e2 = score_greater (cfg_score cfg e1) (cfg_score cfg e2)"

text \<open>The scores of one heuristic have one length, so its comparison never asserts.\<close>

lemma cfg_compare_eq: "cfg_compare cfg e1 e2 = Inr (cfg_score cfg e2 < cfg_score cfg e1)"
  unfolding cfg_compare_def by (rule score_operators(3)) (simp add: cfg_score_def)

subsection \<open>The heuristics of the tool\<close>

datatype ds_impl =
    Tofino_MapTable | Tofino_GuardedMapTable | Tofino_VectorTable | Tofino_DchainTable
  | Tofino_VectorRegister | Tofino_FCFSCachedTable | Tofino_Meter | Tofino_HeavyHitterTable
  | Tofino_IntegerAllocator | Tofino_CountMinSketch | Tofino_CuckooHashTable | Tofino_LPM
  | Controller_Map | Controller_Vector | Controller_DoubleChain | Controller_ConsistentHashTable
  | Controller_CountMinSketch | Controller_TokenBucket
  | X86_Map | X86_Vector | X86_DoubleChain | X86_ConsistentHashTable | X86_CountMinSketch
  | X86_TokenBucket

text \<open>What the metrics read of a plan.\<close>

record 'e plan_view =
  view_depth :: "'e \<Rightarrow> u64"
  view_bdd_progress :: "'e \<Rightarrow> u64"
  view_tput_estimate :: "'e \<Rightarrow> u64"
  view_tput_speculation :: "'e \<Rightarrow> u64"
  view_recirculations :: "'e \<Rightarrow> u64"
  view_used_stages :: "'e \<Rightarrow> u64"
  view_random :: "'e \<Rightarrow> u64"
  view_ds_impls :: "'e \<Rightarrow> (u64 \<times> ds_impl) list"

definition ds_scores :: "ds_impl list \<Rightarrow> (ds_impl \<times> u64) list" where
  "ds_scores preferred =
     map (\<lambda>d. (d, if d \<in> set preferred then 1 else 0))
       [Tofino_MapTable, Tofino_GuardedMapTable, Tofino_VectorTable, Tofino_DchainTable,
        Tofino_VectorRegister, Tofino_FCFSCachedTable, Tofino_Meter, Tofino_HeavyHitterTable,
        Tofino_IntegerAllocator, Tofino_CountMinSketch, Tofino_CuckooHashTable, Tofino_LPM]"

definition ds_score :: "ds_impl list \<Rightarrow> (u64 \<times> ds_impl) list \<Rightarrow> u64" where
  "ds_score preferred impls =
     fold (\<lambda>(addr, ds) score.
       case map_of (ds_scores preferred) ds of None \<Rightarrow> score | Some v \<Rightarrow> score + v) impls 0"

abbreviation minimise :: "('e \<Rightarrow> u64) \<Rightarrow> 'e metric" where
  "minimise f \<equiv> \<lparr>computer = f, metric_goal = Objective_Min\<rparr>"

abbreviation maximise :: "('e \<Rightarrow> u64) \<Rightarrow> 'e metric" where
  "maximise f \<equiv> \<lparr>computer = f, metric_goal = Objective_Max\<rparr>"

definition bfs_cfg :: "'e plan_view \<Rightarrow> 'e heuristic_cfg" where
  "bfs_cfg v = \<lparr>cfg_name = ''BFS'', cfg_metrics = [minimise (view_depth v)]\<rparr>"

definition dfs_cfg :: "'e plan_view \<Rightarrow> 'e heuristic_cfg" where
  "dfs_cfg v = \<lparr>cfg_name = ''DFS'', cfg_metrics = [maximise (view_depth v)]\<rparr>"

definition random_cfg :: "'e plan_view \<Rightarrow> 'e heuristic_cfg" where
  "random_cfg v = \<lparr>cfg_name = ''Random'', cfg_metrics = [maximise (view_random v)]\<rparr>"

definition gallium_cfg :: "'e plan_view \<Rightarrow> 'e heuristic_cfg" where
  "gallium_cfg v = \<lparr>cfg_name = ''Gallium'', cfg_metrics = [maximise (view_bdd_progress v)]\<rparr>"

definition greedy_cfg :: "'e plan_view \<Rightarrow> 'e heuristic_cfg" where
  "greedy_cfg v = \<lparr>cfg_name = ''Greedy'',
     cfg_metrics = [maximise (view_bdd_progress v), maximise (view_tput_estimate v)]\<rparr>"

definition max_tput_cfg :: "'e plan_view \<Rightarrow> 'e heuristic_cfg" where
  "max_tput_cfg v = \<lparr>cfg_name = ''MaxTput'',
     cfg_metrics = [maximise (view_tput_speculation v), minimise (view_recirculations v),
                    maximise (view_bdd_progress v), minimise (view_used_stages v)]\<rparr>"

definition ds_pref_simple_cfg :: "'e plan_view \<Rightarrow> 'e heuristic_cfg" where
  "ds_pref_simple_cfg v = \<lparr>cfg_name = ''DSPrefSimple'',
     cfg_metrics = [maximise (view_bdd_progress v),
       maximise (\<lambda>e. ds_score [Tofino_MapTable, Tofino_VectorTable, Tofino_DchainTable]
         (view_ds_impls v e))]\<rparr>"

definition ds_pref_cuckoo_cfg :: "'e plan_view \<Rightarrow> 'e heuristic_cfg" where
  "ds_pref_cuckoo_cfg v = \<lparr>cfg_name = ''DSPrefCuckoo'',
     cfg_metrics = [maximise (\<lambda>e. ds_score [Tofino_CuckooHashTable] (view_ds_impls v e)),
       maximise (view_bdd_progress v)]\<rparr>"

definition ds_pref_hh_table_cfg :: "'e plan_view \<Rightarrow> 'e heuristic_cfg" where
  "ds_pref_hh_table_cfg v = \<lparr>cfg_name = ''DSPrefHHTable'',
     cfg_metrics = [maximise (\<lambda>e. ds_score [Tofino_HeavyHitterTable] (view_ds_impls v e)),
       maximise (view_bdd_progress v)]\<rparr>"

definition ds_pref_guarded_map_table_cfg :: "'e plan_view \<Rightarrow> 'e heuristic_cfg" where
  "ds_pref_guarded_map_table_cfg v = \<lparr>cfg_name = ''DSPrefGuardedMapTable'',
     cfg_metrics = [maximise (\<lambda>e. ds_score [Tofino_GuardedMapTable] (view_ds_impls v e)),
       maximise (view_bdd_progress v)]\<rparr>"

definition ds_pref_fcfs_cached_table_cfg :: "'e plan_view \<Rightarrow> 'e heuristic_cfg" where
  "ds_pref_fcfs_cached_table_cfg v = \<lparr>cfg_name = ''DSPrefFCFSCachedTable'',
     cfg_metrics = [maximise (\<lambda>e. ds_score [Tofino_FCFSCachedTable] (view_ds_impls v e)),
       maximise (view_bdd_progress v), maximise (view_tput_speculation v)]\<rparr>"

section \<open>The collections of plans\<close>

text \<open>
  \<^verbatim>\<open>Heuristic.cpp\<close>. A \<^verbatim>\<open>std::multiset\<close> is the list of its elements in order; a new
  one goes behind those that it is not before.
\<close>

fun multiset_insert :: "('e \<Rightarrow> 'e \<Rightarrow> bool result) \<Rightarrow> 'e \<Rightarrow> 'e list \<Rightarrow> 'e list result" where
  "multiset_insert before x [] = Inr [x]"
| "multiset_insert before x (y # ys) =
     rbind (before x y) (\<lambda>b. if b then Inr (x # y # ys)
       else rbind (multiset_insert before x ys) (\<lambda>zs. Inr (y # zs)))"

fun multiset_insert_all :: "('e \<Rightarrow> 'e \<Rightarrow> bool result) \<Rightarrow> 'e list \<Rightarrow> 'e list \<Rightarrow> 'e list result" where
  "multiset_insert_all before [] ys = Inr ys"
| "multiset_insert_all before (x # xs) ys =
     rbind (multiset_insert before x ys) (\<lambda>ys. multiset_insert_all before xs ys)"

record 'e heuristic =
  unfinished_eps :: "'e list"
  finished_eps :: "'e list"
  stop_on_first_solution :: bool

definition rebuild_execution_plans_sets :: "'e heuristic_cfg \<Rightarrow> 'e heuristic \<Rightarrow> 'e heuristic result" where
  "rebuild_execution_plans_sets cfg h =
     rbind (multiset_insert_all (cfg_compare cfg) (unfinished_eps h) []) (\<lambda>unfinished.
     rbind (multiset_insert_all (cfg_compare cfg) (finished_eps h) []) (\<lambda>finished.
     Inr (h\<lparr>unfinished_eps := unfinished, finished_eps := finished\<rparr>)))"

definition new_heuristic :: "'e heuristic_cfg \<Rightarrow> 'e \<Rightarrow> bool \<Rightarrow> 'e heuristic result" where
  "new_heuristic cfg starting_ep stop_on_first =
     rebuild_execution_plans_sets cfg
       \<lparr>unfinished_eps = [starting_ep], finished_eps = [], stop_on_first_solution = stop_on_first\<rparr>"

definition heuristic_is_finished :: "'e heuristic \<Rightarrow> bool" where
  "heuristic_is_finished h \<longleftrightarrow> stop_on_first_solution h \<and> finished_eps h \<noteq> []"

definition pop_best_finished :: "'e heuristic \<Rightarrow> ('e \<times> 'e heuristic) result" where
  "pop_best_finished h =
     (case finished_eps h of [] \<Rightarrow> Inl Undefined | e # es \<Rightarrow> Inr (e, h\<lparr>finished_eps := es\<rparr>))"

text \<open>
  The walk over the plans with the best score, ended by an even random number. The numbers are a
  parameter, \<open>pos\<close> counts those drawn; that the walk ends is proved for numbers that are even
  again and again.
\<close>

partial_function (option) pick_loop ::
  "(nat \<Rightarrow> int) \<Rightarrow> ('e \<Rightarrow> score) \<Rightarrow> 'e list \<Rightarrow> score \<Rightarrow> nat \<Rightarrow> nat \<Rightarrow> (nat \<times> nat) result option"
where
  "pick_loop rand score eps best_score it pos =
     (case (if it = length eps then Inr True else score_not_equal (score (eps ! it)) best_score) of
        Inl e \<Rightarrow> Some (Inl e)
      | Inr restart \<Rightarrow>
          let it = (if restart then 0 else it) in
          if rand pos mod 2 = 0 then Some (Inr (it, pos + 1))
          else pick_loop rand score eps best_score (it + 1) (pos + 1))"

definition get_next_unfinished_it ::
  "(nat \<Rightarrow> int) \<Rightarrow> 'e heuristic_cfg \<Rightarrow> 'e heuristic \<Rightarrow> nat \<Rightarrow> (nat \<times> nat) result option"
where
  "get_next_unfinished_it rand cfg h pos =
     (case unfinished_eps h of
        [] \<Rightarrow> Some (Inl Assert_Failed)
      | e # es \<Rightarrow> pick_loop rand (cfg_score cfg) (unfinished_eps h) (cfg_score cfg e) 0 pos)"

definition extract_unfinished :: "'e heuristic \<Rightarrow> nat \<Rightarrow> 'e \<times> 'e heuristic" where
  "extract_unfinished h it =
     (unfinished_eps h ! it,
      h\<lparr>unfinished_eps := take it (unfinished_eps h) @ drop (Suc it) (unfinished_eps h)\<rparr>)"

definition pop_next_unfinished ::
  "(nat \<Rightarrow> int) \<Rightarrow> 'e heuristic_cfg \<Rightarrow> ('e \<Rightarrow> bool) \<Rightarrow> 'e heuristic \<Rightarrow> nat \<Rightarrow>
     ('e \<times> 'e heuristic \<times> nat) result option"
where
  "pop_next_unfinished rand cfg mutates h pos =
     (case get_next_unfinished_it rand cfg h pos of
        None \<Rightarrow> None
      | Some (Inl e) \<Rightarrow> Some (Inl e)
      | Some (Inr (it, pos)) \<Rightarrow>
          if mutates (unfinished_eps h ! it) then
            (case rebuild_execution_plans_sets cfg h of
               Inl e \<Rightarrow> Some (Inl e)
             | Inr h \<Rightarrow>
                 map_option (\<lambda>r. rbind r (\<lambda>(it, pos).
                   Inr (case extract_unfinished h it of (ep, h) \<Rightarrow> (ep, h, pos))))
                   (get_next_unfinished_it rand cfg h pos))
          else Some (Inr (case extract_unfinished h it of (ep, h) \<Rightarrow> (ep, h, pos))))"

text \<open>A finished plan has no next node; its performance model must be in a final state.\<close>

fun heuristic_add ::
  "'e heuristic_cfg \<Rightarrow> ('e \<Rightarrow> bool) \<Rightarrow> ('e \<Rightarrow> bool) \<Rightarrow> 'e list \<Rightarrow> 'e heuristic \<Rightarrow> 'e heuristic result"
where
  "heuristic_add cfg has_next final_ok [] h = Inr h"
| "heuristic_add cfg has_next final_ok (ep # eps) h =
     (if has_next ep then
        rbind (multiset_insert (cfg_compare cfg) ep (unfinished_eps h)) (\<lambda>unfinished.
        heuristic_add cfg has_next final_ok eps (h\<lparr>unfinished_eps := unfinished\<rparr>))
      else if \<not> final_ok ep then Inl Panicked
      else
        rbind (multiset_insert (cfg_compare cfg) ep (finished_eps h)) (\<lambda>finished.
        heuristic_add cfg has_next final_ok eps (h\<lparr>finished_eps := finished\<rparr>)))"

section \<open>The collections are ordered by score\<close>

abbreviation best_first :: "'e heuristic_cfg \<Rightarrow> 'e list \<Rightarrow> bool" where
  "best_first cfg \<equiv> sorted_wrt (\<lambda>a b. cfg_score cfg b \<le> cfg_score cfg a)"

definition heuristic_wf :: "'e heuristic_cfg \<Rightarrow> 'e heuristic \<Rightarrow> bool" where
  "heuristic_wf cfg h \<longleftrightarrow> best_first cfg (unfinished_eps h) \<and> best_first cfg (finished_eps h)"

lemma multiset_insert_correct:
  assumes "best_first cfg ys"
  obtains zs where "multiset_insert (cfg_compare cfg) x ys = Inr zs" "best_first cfg zs"
    "mset zs = add_mset x (mset ys)"
proof -
  have "\<exists>zs. multiset_insert (cfg_compare cfg) x ys = Inr zs \<and> best_first cfg zs \<and>
      mset zs = add_mset x (mset ys)"
    using assms
  proof (induction ys)
    case Nil
    then show ?case by simp
  next
    case (Cons y ys)
    show ?case
    proof (cases "cfg_score cfg y < cfg_score cfg x")
      case True
      with cfg_compare_eq [of cfg x y]
      have "multiset_insert (cfg_compare cfg) x (y # ys) = Inr (x # y # ys)" by simp
      moreover have "best_first cfg (x # y # ys)" using True Cons.prems by force
      ultimately show ?thesis by auto
    next
      case False
      from Cons obtain zs where z: "multiset_insert (cfg_compare cfg) x ys = Inr zs"
        "best_first cfg zs" "mset zs = add_mset x (mset ys)" by auto
      have "set zs = insert x (set ys)" using z(3) by (metis set_mset_add_mset_insert set_mset_mset)
      with False Cons.prems z(2) have "best_first cfg (y # zs)" by auto
      moreover have "multiset_insert (cfg_compare cfg) x (y # ys) = Inr (y # zs)"
        using False z(1) cfg_compare_eq [of cfg x y] by simp
      ultimately show ?thesis using z(3) by auto
    qed
  qed
  with that show thesis by blast
qed

lemma multiset_insert_all_correct:
  assumes "best_first cfg ys"
  obtains zs where "multiset_insert_all (cfg_compare cfg) xs ys = Inr zs" "best_first cfg zs"
    "mset zs = mset xs + mset ys"
proof -
  have "\<exists>zs. multiset_insert_all (cfg_compare cfg) xs ys = Inr zs \<and> best_first cfg zs \<and>
      mset zs = mset xs + mset ys"
    using assms
  proof (induction xs arbitrary: ys)
    case (Cons x xs)
    from multiset_insert_correct [OF Cons.prems, of x] obtain zs where
      z: "multiset_insert (cfg_compare cfg) x ys = Inr zs" "best_first cfg zs"
        "mset zs = add_mset x (mset ys)" by blast
    from Cons.IH [OF z(2)] z(1,3) show ?case by auto
  qed simp
  with that show thesis by blast
qed

lemma rebuild_correct:
  obtains h' where "rebuild_execution_plans_sets cfg h = Inr h'" "heuristic_wf cfg h'"
    "mset (unfinished_eps h') = mset (unfinished_eps h)"
    "mset (finished_eps h') = mset (finished_eps h)"
    "stop_on_first_solution h' = stop_on_first_solution h"
proof -
  have e: "best_first cfg []" by simp
  from multiset_insert_all_correct [OF e, of "unfinished_eps h"] obtain us where
    u: "multiset_insert_all (cfg_compare cfg) (unfinished_eps h) [] = Inr us"
    "best_first cfg us" "mset us = mset (unfinished_eps h)" by auto
  from multiset_insert_all_correct [OF e, of "finished_eps h"] obtain fs where
    f: "multiset_insert_all (cfg_compare cfg) (finished_eps h) [] = Inr fs"
    "best_first cfg fs" "mset fs = mset (finished_eps h)" by auto
  from u f show thesis
    by (intro that [of "h\<lparr>unfinished_eps := us, finished_eps := fs\<rparr>"])
      (simp_all add: rebuild_execution_plans_sets_def heuristic_wf_def)
qed

lemma heuristic_add_correct:
  assumes "heuristic_wf cfg h" "\<forall>e \<in> set eps. has_next e \<or> final_ok e"
  obtains h' where "heuristic_add cfg has_next final_ok eps h = Inr h'" "heuristic_wf cfg h'"
    "mset (unfinished_eps h') = mset (unfinished_eps h) + mset (filter has_next eps)"
    "mset (finished_eps h') = mset (finished_eps h) + mset (filter (\<lambda>e. \<not> has_next e) eps)"
    "stop_on_first_solution h' = stop_on_first_solution h"
proof -
  have "\<exists>h'. heuristic_add cfg has_next final_ok eps h = Inr h' \<and> heuristic_wf cfg h' \<and>
    mset (unfinished_eps h') = mset (unfinished_eps h) + mset (filter has_next eps) \<and>
    mset (finished_eps h') = mset (finished_eps h) + mset (filter (\<lambda>e. \<not> has_next e) eps) \<and>
    stop_on_first_solution h' = stop_on_first_solution h"
    using assms
  proof (induction eps arbitrary: h)
    case (Cons e eps)
    have w: "best_first cfg (unfinished_eps h)" "best_first cfg (finished_eps h)"
      using Cons.prems(1) by (simp_all add: heuristic_wf_def)
    have ok: "\<forall>e \<in> set eps. has_next e \<or> final_ok e" using Cons.prems(2) by simp
    show ?case
    proof (cases "has_next e")
      case True
      from multiset_insert_correct [OF w(1), of e] obtain zs where
        z: "multiset_insert (cfg_compare cfg) e (unfinished_eps h) = Inr zs" "best_first cfg zs"
          "mset zs = add_mset e (mset (unfinished_eps h))" by blast
      have "heuristic_wf cfg (h\<lparr>unfinished_eps := zs\<rparr>)" using z(2) w(2) by (simp add: heuristic_wf_def)
      from Cons.IH [OF this ok] True z(1,3) show ?thesis by auto
    next
      case False
      from multiset_insert_correct [OF w(2), of e] obtain zs where
        z: "multiset_insert (cfg_compare cfg) e (finished_eps h) = Inr zs" "best_first cfg zs"
          "mset zs = add_mset e (mset (finished_eps h))" by blast
      have "heuristic_wf cfg (h\<lparr>finished_eps := zs\<rparr>)" using z(2) w(1) by (simp add: heuristic_wf_def)
      from Cons.IH [OF this ok] False Cons.prems(2) z(1,3) show ?thesis by auto
    qed
  qed simp
  with that show thesis by blast
qed

section \<open>The next plan\<close>

text \<open>Random numbers that are even again and again.\<close>

definition fair :: "(nat \<Rightarrow> int) \<Rightarrow> bool" where
  "fair rand \<longleftrightarrow> (\<forall>p. \<exists>q \<ge> p. rand q mod 2 = 0)"

lemma score_not_equal_cfg: "score_not_equal (cfg_score cfg a) (cfg_score cfg b) = Inr (cfg_score cfg a \<noteq> cfg_score cfg b)"
  by (rule score_operators(6)) (simp add: cfg_score_def)

text \<open>The walk ends, and what it returns has the best score.\<close>

lemma pick_loop_result:
  assumes "eps \<noteq> []" "it \<le> length eps" "rand (pos + k) mod 2 = 0"
  shows "\<exists>it' pos'. pick_loop rand (cfg_score cfg) eps (cfg_score cfg (eps ! 0)) it pos = Some (Inr (it', pos')) \<and>
    it' < length eps \<and> cfg_score cfg (eps ! it') = cfg_score cfg (eps ! 0)"
  using assms(2,3)
proof (induction k arbitrary: it pos)
  case 0
  then show ?case
    using assms(1) score_not_equal_cfg [of cfg "eps ! it" "eps ! 0"]
    by (subst pick_loop.simps) (auto simp: Let_def)
next
  case (Suc k)
  let ?restart = "it = length eps \<or> cfg_score cfg (eps ! it) \<noteq> cfg_score cfg (eps ! 0)"
  let ?it = "if ?restart then 0 else it"
  have it: "?it < length eps" "cfg_score cfg (eps ! ?it) = cfg_score cfg (eps ! 0)"
    using Suc.prems(1) assms(1) by auto
  have c: "(if it = length eps then Inr True
      else score_not_equal (cfg_score cfg (eps ! it)) (cfg_score cfg (eps ! 0))) = Inr ?restart"
    using score_not_equal_cfg [of cfg "eps ! it" "eps ! 0"] by auto
  show ?case
  proof (cases "rand pos mod 2 = 0")
    case True
    then have "pick_loop rand (cfg_score cfg) eps (cfg_score cfg (eps ! 0)) it pos = Some (Inr (?it, pos + 1))"
      by (subst pick_loop.simps) (simp add: c)
    with it show ?thesis by blast
  next
    case False
    then have "pick_loop rand (cfg_score cfg) eps (cfg_score cfg (eps ! 0)) it pos =
        pick_loop rand (cfg_score cfg) eps (cfg_score cfg (eps ! 0)) (?it + 1) (pos + 1)"
      by (subst pick_loop.simps) (simp add: c)
    moreover have "rand (pos + 1 + k) mod 2 = 0" using Suc.prems(2) by simp
    moreover have "?it + 1 \<le> length eps" using it(1) by simp
    ultimately show ?thesis using Suc.IH [of "?it + 1" "pos + 1"] by simp
  qed
qed

lemma get_next_correct:
  assumes "fair rand" "best_first cfg (unfinished_eps h)" "unfinished_eps h \<noteq> []"
  obtains it pos' where "get_next_unfinished_it rand cfg h pos = Some (Inr (it, pos'))"
    "it < length (unfinished_eps h)"
    "\<forall>e \<in> set (unfinished_eps h). cfg_score cfg e \<le> cfg_score cfg (unfinished_eps h ! it)"
proof -
  obtain e es where u: "unfinished_eps h = e # es" using assms(3) by (cases "unfinished_eps h") auto
  have "\<exists>q \<ge> pos. rand q mod 2 = 0" using assms(1) by (simp only: fair_def)
  then obtain q where q: "q \<ge> pos" "rand q mod 2 = 0" by (elim exE conjE)
  from q(1) have "pos + (q - pos) = q" by simp
  with q(2) have "rand (pos + (q - pos)) mod 2 = 0" by (simp only:)
  from pick_loop_result [where rand = rand and pos = pos and k = "q - pos" and cfg = cfg, OF assms(3) le0 this] obtain it pos' where
    r: "pick_loop rand (cfg_score cfg) (unfinished_eps h) (cfg_score cfg (unfinished_eps h ! 0)) 0 pos =
       Some (Inr (it, pos'))" "it < length (unfinished_eps h)"
      "cfg_score cfg (unfinished_eps h ! it) = cfg_score cfg (unfinished_eps h ! 0)" by blast
  have "\<forall>x \<in> set (unfinished_eps h). cfg_score cfg x \<le> cfg_score cfg (unfinished_eps h ! 0)"
    using assms(2) by (auto simp: u)
  with r show thesis by (intro that [of it pos']) (simp_all add: get_next_unfinished_it_def u)
qed

lemma extract_correct:
  assumes "it < length (unfinished_eps h)" "heuristic_wf cfg h"
  obtains h' where "extract_unfinished h it = (unfinished_eps h ! it, h')" "heuristic_wf cfg h'"
    "mset (unfinished_eps h) = add_mset (unfinished_eps h ! it) (mset (unfinished_eps h'))"
    "finished_eps h' = finished_eps h" "stop_on_first_solution h' = stop_on_first_solution h"
proof -
  let ?us = "unfinished_eps h"
  let ?vs = "take it ?us @ drop (Suc it) ?us"
  have s: "?us = take it ?us @ ?us ! it # drop (Suc it) ?us" using assms(1) by (rule id_take_nth_drop)
  then have m: "mset ?us = add_mset (?us ! it) (mset ?vs)"
    by (metis mset.simps(2) mset_append union_mset_add_mset_right)
  have "best_first cfg (take it ?us @ ?us ! it # drop (Suc it) ?us)"
    using assms(2) unfolding heuristic_wf_def by (metis s)
  then have "best_first cfg ?vs" by (simp add: sorted_wrt_append)
  with assms(2) m show thesis
    by (intro that [of "h\<lparr>unfinished_eps := ?vs\<rparr>"])
      (simp_all add: extract_unfinished_def heuristic_wf_def)
qed

text \<open>The plan that is taken has the best score of all unfinished ones, and only it leaves.\<close>

lemma pop_next_correct:
  assumes "fair rand" "heuristic_wf cfg h" "unfinished_eps h \<noteq> []"
  obtains ep h' pos' where "pop_next_unfinished rand cfg mutates h pos = Some (Inr (ep, h', pos'))"
    "heuristic_wf cfg h'" "mset (unfinished_eps h) = add_mset ep (mset (unfinished_eps h'))"
    "mset (finished_eps h') = mset (finished_eps h)"
    "stop_on_first_solution h' = stop_on_first_solution h"
    "\<forall>e \<in> set (unfinished_eps h). cfg_score cfg e \<le> cfg_score cfg ep"
proof -
  obtain it pos1 where g: "get_next_unfinished_it rand cfg h pos = Some (Inr (it, pos1))"
    "it < length (unfinished_eps h)"
    "\<forall>e \<in> set (unfinished_eps h). cfg_score cfg e \<le> cfg_score cfg (unfinished_eps h ! it)"
    using get_next_correct [OF assms(1) _ assms(3)] assms(2) by (metis heuristic_wf_def)
  show thesis
  proof (cases "mutates (unfinished_eps h ! it)")
    case False
    obtain h' where "extract_unfinished h it = (unfinished_eps h ! it, h')" "heuristic_wf cfg h'"
      "mset (unfinished_eps h) = add_mset (unfinished_eps h ! it) (mset (unfinished_eps h'))"
      "finished_eps h' = finished_eps h" "stop_on_first_solution h' = stop_on_first_solution h"
      by (rule extract_correct [OF g(2) assms(2)])
    with g False show thesis
      by (intro that [of "unfinished_eps h ! it" h' pos1]) (simp_all add: pop_next_unfinished_def)
  next
    case True
    obtain h1 where h1: "rebuild_execution_plans_sets cfg h = Inr h1" "heuristic_wf cfg h1"
      "mset (unfinished_eps h1) = mset (unfinished_eps h)"
      "mset (finished_eps h1) = mset (finished_eps h)"
      "stop_on_first_solution h1 = stop_on_first_solution h" by (rule rebuild_correct)
    have n: "unfinished_eps h1 \<noteq> []" "set (unfinished_eps h1) = set (unfinished_eps h)"
      using h1(3) assms(3) by (metis mset_zero_iff) (metis h1(3) set_mset_mset)
    obtain it2 pos2 where g2: "get_next_unfinished_it rand cfg h1 pos1 = Some (Inr (it2, pos2))"
      "it2 < length (unfinished_eps h1)"
      "\<forall>e \<in> set (unfinished_eps h1). cfg_score cfg e \<le> cfg_score cfg (unfinished_eps h1 ! it2)"
      using get_next_correct [OF assms(1) _ n(1)] h1(2) by (metis heuristic_wf_def)
    obtain h' where "extract_unfinished h1 it2 = (unfinished_eps h1 ! it2, h')" "heuristic_wf cfg h'"
      "mset (unfinished_eps h1) = add_mset (unfinished_eps h1 ! it2) (mset (unfinished_eps h'))"
      "finished_eps h' = finished_eps h1" "stop_on_first_solution h' = stop_on_first_solution h1"
      by (rule extract_correct [OF g2(2) h1(2)])
    with g(1) True h1 n(2) g2 show thesis
      by (intro that [of "unfinished_eps h1 ! it2" h' pos2]) (simp_all add: pop_next_unfinished_def)
  qed
qed

end
