(* ===== verification/SearchEngine.thy ===== *)
theory SearchEngine
  imports SearchHeuristic "HOL-Library.Multiset_Order"
begin

text \<open>
  The search for an execution plan: \<^verbatim>\<open>LibSynapse/Search.cpp\<close>, \<^verbatim>\<open>SearchSpace.cpp\<close> and
  the generic part of \<^verbatim>\<open>Modules/ModuleFactory.cpp\<close>. Plans, nodes of the decision diagram,
  targets and decisions are opaque; what a module makes of a plan, and the reorderings of its
  diagram, are parameters that thread the state they change (symbols, counters of identifiers).
  Timing, averages in floating point and the reports on the console are left out.
\<close>

section \<open>Modules\<close>

record ('d, 'e) impl =
  impl_decision :: 'd
  impl_result :: 'e
  impl_bdd_reordered :: bool

record ('t, 'd, 'e, 'n, 'g) module_factory =
  factory_target :: 't
  process_node :: "'g \<Rightarrow> 'e \<Rightarrow> 'n \<Rightarrow> 'g \<times> ('d, 'e) impl list"

record ('t, 'd, 'e, 'n, 'g) search_env =
  env_next_node :: "'e \<Rightarrow> 'n option"
  env_active_target :: "'e \<Rightarrow> 't"
  env_ep_id :: "'e \<Rightarrow> u64"
  env_final_ok :: "'e \<Rightarrow> bool"
  env_bdd_size :: "'e \<Rightarrow> u64"
  env_get_reordered :: "'g \<Rightarrow> 'e \<Rightarrow> 'g \<times> 'e list"
  env_cfg :: "'e heuristic_cfg"
  env_mutates :: "'e \<Rightarrow> bool"
  env_targets :: "('t, 'd, 'e, 'n, 'g) module_factory list list"
  env_rand :: "nat \<Rightarrow> int"

record search_config =
  no_reorder :: bool
  not_greedy :: bool
  no_deadends :: bool

fun reorder_implementations ::
  "('t, 'd, 'e, 'n, 'g) search_env \<Rightarrow> 'g \<Rightarrow> ('d, 'e) impl list \<Rightarrow> 'g \<times> ('d, 'e) impl list"
where
  "reorder_implementations env g [] = (g, [])"
| "reorder_implementations env g (impl # impls) =
     (case env_get_reordered env g (impl_result impl) of
        (g, eps) \<Rightarrow>
          (case reorder_implementations env g impls of
             (g, rest) \<Rightarrow>
               (g, map (\<lambda>ep. \<lparr>impl_decision = impl_decision impl, impl_result = ep,
                              impl_bdd_reordered = True\<rparr>) eps @ rest)))"

definition implement ::
  "('t, 'd, 'e, 'n, 'g) search_env \<Rightarrow> ('t, 'd, 'e, 'n, 'g) module_factory \<Rightarrow> 'g \<Rightarrow> 'e \<Rightarrow> 'n \<Rightarrow> bool \<Rightarrow>
     'g \<times> ('d, 'e) impl list"
where
  "implement env f g ep node reorder_bdd =
     (if env_active_target env ep \<noteq> factory_target f then (g, [])
      else
        case process_node f g ep node of
          (g, implementations) \<Rightarrow>
            if \<not> reorder_bdd then (g, implementations)
            else
              (case reorder_implementations env g implementations of
                 (g, reordered) \<Rightarrow> (g, implementations @ reordered)))"

section \<open>The search space\<close>

text \<open>Nodes are allocated one after the other: a pointer is a position in the list.\<close>

record ss_node =
  ssn_node_id :: u32
  ssn_ep_id :: u64
  ssn_score :: score
  ssn_children :: "nat list"

record search_space =
  ss_nodes :: "ss_node list"
  ss_root :: "nat option"
  ss_active_leaf :: "nat option"
  ss_leaves :: "nat list"
  ss_size :: u64
  ss_last_eps :: "u32 set"
  ss_backtrack :: bool
  ss_node_id_counter :: u32

definition new_search_space :: "u32 \<Rightarrow> search_space" where
  "new_search_space counter =
     \<lparr>ss_nodes = [], ss_root = None, ss_active_leaf = None, ss_leaves = [], ss_size = 0,
      ss_last_eps = {}, ss_backtrack = False, ss_node_id_counter = counter\<rparr>"

definition new_ss_node :: "('t, 'd, 'e, 'n, 'g) search_env \<Rightarrow> search_space \<Rightarrow> 'e \<Rightarrow> ss_node" where
  "new_ss_node env ss ep =
     \<lparr>ssn_node_id = ss_node_id_counter ss, ssn_ep_id = env_ep_id env ep,
      ssn_score = cfg_score (env_cfg env) ep, ssn_children = []\<rparr>"

text \<open>The set of the last plans holds 32-bit numbers, so identifiers are cut.\<close>

definition activate_leaf ::
  "('t, 'd, 'e, 'n, 'g) search_env \<Rightarrow> search_space \<Rightarrow> 'e \<Rightarrow> search_space result"
where
  "activate_leaf env ss ep =
     (case ss_root ss of
        None \<Rightarrow>
          (if env_next_node env ep = None then Inl Undefined
           else
             let p = length (ss_nodes ss) in
             Inr (ss\<lparr>ss_nodes := ss_nodes ss @ [new_ss_node env ss ep],
                    ss_node_id_counter := ss_node_id_counter ss + 1,
                    ss_root := Some p, ss_active_leaf := Some p\<rparr>))
      | Some root \<Rightarrow>
          (case find (\<lambda>p. ssn_ep_id (ss_nodes ss ! p) = env_ep_id env ep) (ss_leaves ss) of
             None \<Rightarrow> Inl Assert_Failed
           | Some p \<Rightarrow>
               Inr (ss\<lparr>ss_active_leaf := Some p, ss_leaves := remove1 p (ss_leaves ss),
                      ss_backtrack := ucast (env_ep_id env ep) \<notin> ss_last_eps ss,
                      ss_last_eps := {}\<rparr>)))"

fun add_leaves ::
  "('t, 'd, 'e, 'n, 'g) search_env \<Rightarrow> nat \<Rightarrow> 'e list \<Rightarrow> search_space \<Rightarrow> search_space"
where
  "add_leaves env active [] ss = ss"
| "add_leaves env active (ep # eps) ss =
     (let p = length (ss_nodes ss);
          nodes = ss_nodes ss @ [new_ss_node env ss ep];
          parent = nodes ! active
      in add_leaves env active eps
           (ss\<lparr>ss_nodes := nodes[active := parent\<lparr>ssn_children := ssn_children parent @ [p]\<rparr>],
              ss_node_id_counter := ss_node_id_counter ss + 1,
              ss_leaves := ss_leaves ss @ [p], ss_size := ss_size ss + 1,
              ss_last_eps := insert (ucast (env_ep_id env ep)) (ss_last_eps ss)\<rparr>))"

definition add_to_active_leaf ::
  "('t, 'd, 'e, 'n, 'g) search_env \<Rightarrow> ('d, 'e) impl list \<Rightarrow> search_space \<Rightarrow> search_space result"
where
  "add_to_active_leaf env implementations ss =
     (case ss_active_leaf ss of
        None \<Rightarrow> Inl Assert_Failed
      | Some active \<Rightarrow> Inr (add_leaves env active (map impl_result implementations) ss))"

section \<open>The search\<close>

record ('e, 'g) search_state =
  st_heuristic :: "'e heuristic"
  st_space :: search_space
  st_globals :: 'g
  st_random :: nat
  st_steps :: u64
  st_backtracks :: u64
  st_avg_bdd_size :: u64

text \<open>The two nested loops over the targets and their modules.\<close>

fun run_factories ::
  "('t, 'd, 'e, 'n, 'g) search_env \<Rightarrow> search_config \<Rightarrow> 'e \<Rightarrow> 'n \<Rightarrow>
   ('t, 'd, 'e, 'n, 'g) module_factory list \<Rightarrow> 'g \<Rightarrow> search_space \<Rightarrow>
   ('g \<times> search_space \<times> ('d, 'e) impl list) result"
where
  "run_factories env config ep node [] g ss = Inr (g, ss, [])"
| "run_factories env config ep node (f # fs) g ss =
     (case implement env f g ep node (\<not> no_reorder config) of
        (g, implementations) \<Rightarrow>
          rbind (add_to_active_leaf env implementations ss) (\<lambda>ss.
          rbind (run_factories env config ep node fs g ss) (\<lambda>(g, ss, rest).
          Inr (g, ss, implementations @ rest))))"

text \<open>What an iteration does with the plan it has taken.\<close>

definition expand_plan ::
  "('t, 'd, 'e, 'n, 'g) search_env \<Rightarrow> search_config \<Rightarrow> ('e, 'g) search_state \<Rightarrow> 'e \<Rightarrow>
     ('e, 'g) search_state result"
where
  "expand_plan env config st ep =
     rbind (activate_leaf env (st_space st) ep) (\<lambda>ss.
     let avg_bdd_size = st_avg_bdd_size st * st_steps st + env_bdd_size env ep;
         steps = st_steps st + 1;
         avg_bdd_size = avg_bdd_size div steps;
         backtracks = (if ss_backtrack ss then st_backtracks st + 1 else st_backtracks st)
     in
     case env_next_node env ep of
       None \<Rightarrow> Inl Undefined
     | Some node \<Rightarrow>
         rbind (run_factories env config ep node (concat (env_targets env)) (st_globals st) ss)
           (\<lambda>(g, ss, new_implementations).
         if new_implementations = [] \<and> no_deadends config then Inl Panicked
         else
           rbind (heuristic_add (env_cfg env) (\<lambda>e. env_next_node env e \<noteq> None) (env_final_ok env)
                    (map impl_result new_implementations) (st_heuristic st)) (\<lambda>h.
           Inr (st\<lparr>st_heuristic := h, st_space := ss, st_globals := g, st_steps := steps,
                  st_backtracks := backtracks, st_avg_bdd_size := avg_bdd_size\<rparr>))))"

definition search_step ::
  "('t, 'd, 'e, 'n, 'g) search_env \<Rightarrow> search_config \<Rightarrow> ('e, 'g) search_state \<Rightarrow>
     ('e, 'g) search_state result option"
where
  "search_step env config st =
     map_option
       (\<lambda>r. rbind r (\<lambda>(ep, h, pos).
          expand_plan env config (st\<lparr>st_heuristic := h, st_random := pos\<rparr>) ep))
       (pop_next_unfinished (env_rand env) (env_cfg env) (env_mutates env) (st_heuristic st) (st_random st))"

partial_function (option) search_loop ::
  "('t, 'd, 'e, 'n, 'g) search_env \<Rightarrow> search_config \<Rightarrow> ('e, 'g) search_state \<Rightarrow>
     ('e, 'g) search_state result option"
where
  "search_loop env config st =
     (if heuristic_is_finished (st_heuristic st) then Some (Inr st)
      else
        case search_step env config st of
          None \<Rightarrow> None
        | Some (Inl e) \<Rightarrow> Some (Inl e)
        | Some (Inr st) \<Rightarrow> search_loop env config st)"

record 'e search_report =
  report_ep :: 'e
  report_score :: score
  report_ss_size :: u64
  report_steps :: u64
  report_backtracks :: u64
  report_unfinished_eps :: nat
  report_finished_eps :: nat

text \<open>The report, with the state the engine is left in.\<close>

definition search ::
  "('t, 'd, 'e, 'n, 'g) search_env \<Rightarrow> search_config \<Rightarrow> 'e \<Rightarrow> 'g \<Rightarrow> nat \<Rightarrow> u32 \<Rightarrow>
     ('e search_report \<times> ('e, 'g) search_state) result option"
where
  "search env config starting_ep g pos counter =
     (case new_heuristic (env_cfg env) starting_ep (\<not> not_greedy config) of
        Inl e \<Rightarrow> Some (Inl e)
      | Inr h \<Rightarrow>
          map_option
            (\<lambda>r. rbind r (\<lambda>st.
               rbind (pop_best_finished (st_heuristic st)) (\<lambda>(winner, h).
               Inr (\<lparr>report_ep = winner, report_score = cfg_score (env_cfg env) winner,
                     report_ss_size = ss_size (st_space st), report_steps = st_steps st,
                     report_backtracks = st_backtracks st,
                     report_unfinished_eps = length (unfinished_eps (st_heuristic st)),
                     report_finished_eps = length (finished_eps (st_heuristic st))\<rparr>,
                    st\<lparr>st_heuristic := h\<rparr>))))
            (search_loop env config
              \<lparr>st_heuristic = h, st_space = new_search_space counter, st_globals = g, st_random = pos,
               st_steps = 0, st_backtracks = 0, st_avg_bdd_size = 0\<rparr>))"

section \<open>The plans that can be reached\<close>

definition produced :: "('t, 'd, 'e, 'n, 'g) search_env \<Rightarrow> 'e \<Rightarrow> 'n \<Rightarrow> 'e \<Rightarrow> bool" where
  "produced env ep node e \<longleftrightarrow>
     (\<exists>f \<in> set (concat (env_targets env)). \<exists>g r.
        e \<in> impl_result ` set (snd (implement env f g ep node r)))"

inductive derives :: "('t, 'd, 'e, 'n, 'g) search_env \<Rightarrow> 'e \<Rightarrow> 'e \<Rightarrow> bool"
  for env :: "('t, 'd, 'e, 'n, 'g) search_env" and start :: 'e
where
  derives_start: "derives env start start"
| derives_step: "derives env start ep \<Longrightarrow> env_next_node env ep = Some node \<Longrightarrow>
    produced env ep node e \<Longrightarrow> derives env start e"

text \<open>
  What the search relies on: even random numbers, modules that take a plan closer to its end by
  some measure, reorderings that do not take it away from it, and performance models of complete
  plans that are in a final state.
\<close>

definition search_ok :: "('t, 'd, 'e, 'n, 'g) search_env \<Rightarrow> ('e \<Rightarrow> nat) \<Rightarrow> 'e \<Rightarrow> bool" where
  "search_ok env \<mu> start \<longleftrightarrow> fair (env_rand env) \<and>
     (\<forall>f \<in> set (concat (env_targets env)). \<forall>g ep node. env_next_node env ep = Some node \<longrightarrow>
        (\<forall>i \<in> set (snd (process_node f g ep node)). \<mu> (impl_result i) < \<mu> ep)) \<and>
     (\<forall>g ep. \<forall>e \<in> set (snd (env_get_reordered env g ep)). \<mu> e \<le> \<mu> ep) \<and>
     (\<forall>e. derives env start e \<longrightarrow> env_next_node env e = None \<longrightarrow> env_final_ok env e)"

definition no_dead_ends :: "('t, 'd, 'e, 'n, 'g) search_env \<Rightarrow> 'e \<Rightarrow> bool" where
  "no_dead_ends env start \<longleftrightarrow>
     (\<forall>ep node. derives env start ep \<longrightarrow> env_next_node env ep = Some node \<longrightarrow>
        (\<exists>f \<in> set (concat (env_targets env)). env_active_target env ep = factory_target f \<and>
           (\<forall>g. snd (process_node f g ep node) \<noteq> [])))"

lemma reorder_implementations_results:
  "e \<in> impl_result ` set (snd (reorder_implementations env g impls)) \<Longrightarrow>
     \<exists>g' i. i \<in> set impls \<and> e \<in> set (snd (env_get_reordered env g' (impl_result i)))"
proof (induction env g impls rule: reorder_implementations.induct)
  case (2 env g impl impls)
  obtain g1 eps where a: "env_get_reordered env g (impl_result impl) = (g1, eps)" by fastforce
  obtain g2 rest where b: "reorder_implementations env g1 impls = (g2, rest)" by fastforce
  from 2(2) have "e \<in> set eps \<or> e \<in> impl_result ` set rest" by (auto simp: a b)
  then show ?case
  proof
    assume "e \<in> set eps"
    then show ?thesis using a by (intro exI [of _ g] exI [of _ impl]) simp
  next
    assume "e \<in> impl_result ` set rest"
    with 2(1) [OF a [symmetric]] b show ?thesis by fastforce
  qed
qed simp

lemma produced_smaller:
  assumes "search_ok env \<mu> start" "env_next_node env ep = Some node" "produced env ep node e"
  shows "\<mu> e < \<mu> ep"
proof -
  from assms(3) obtain f g r where f: "f \<in> set (concat (env_targets env))"
    "e \<in> impl_result ` set (snd (implement env f g ep node r))" unfolding produced_def by blast
  obtain g1 impls where p: "process_node f g ep node = (g1, impls)" by fastforce
  obtain g2 more where m: "reorder_implementations env g1 impls = (g2, more)" by fastforce
  have s: "\<mu> (impl_result i) < \<mu> ep" if "i \<in> set impls" for i
    using assms(1,2) f(1) p that unfolding search_ok_def by (metis snd_conv)
  have "e \<in> impl_result ` set impls \<or> e \<in> impl_result ` set more"
    using f(2) by (auto simp: implement_def p m split: if_splits)
  then show ?thesis
  proof
    assume "e \<in> impl_result ` set more"
    with m have "e \<in> impl_result ` set (snd (reorder_implementations env g1 impls))" by simp
    from reorder_implementations_results [OF this] obtain g' i where i: "i \<in> set impls"
      "e \<in> set (snd (env_get_reordered env g' (impl_result i)))" by blast
    with assms(1) have "\<mu> e \<le> \<mu> (impl_result i)" unfolding search_ok_def by blast
    with s [OF i(1)] show ?thesis by simp
  qed (use s in auto)
qed

section \<open>The leaves are the plans\<close>

definition leaves_are ::
  "('t, 'd, 'e, 'n, 'g) search_env \<Rightarrow> search_space \<Rightarrow> 'e multiset \<Rightarrow> bool"
where
  "leaves_are env ss es \<longleftrightarrow> (\<forall>p \<in> set (ss_leaves ss). p < length (ss_nodes ss)) \<and>
     mset (map (\<lambda>p. ssn_ep_id (ss_nodes ss ! p)) (ss_leaves ss)) = image_mset (env_ep_id env) es"

lemma add_leaves_correct:
  assumes "leaves_are env ss es"
  shows "leaves_are env (add_leaves env active eps ss) (es + mset eps) \<and>
    ss_root (add_leaves env active eps ss) = ss_root ss \<and>
    ss_active_leaf (add_leaves env active eps ss) = ss_active_leaf ss"
  using assms
proof (induction env active eps ss arbitrary: es rule: add_leaves.induct)
  case (2 env active ep eps ss)
  define p where "p = length (ss_nodes ss)"
  define nodes where "nodes = ss_nodes ss @ [new_ss_node env ss ep]"
  define nodes' where "nodes' = nodes[active := (nodes ! active)\<lparr>ssn_children := ssn_children (nodes ! active) @ [p]\<rparr>]"
  define ss' where "ss' = ss\<lparr>ss_nodes := nodes', ss_node_id_counter := ss_node_id_counter ss + 1,
     ss_leaves := ss_leaves ss @ [p], ss_size := ss_size ss + 1,
     ss_last_eps := insert (ucast (env_ep_id env ep)) (ss_last_eps ss)\<rparr>"
  have u: "add_leaves env active (ep # eps) ss = add_leaves env active eps ss'"
    by (simp add: ss'_def nodes'_def nodes_def p_def Let_def)
  have id: "ssn_ep_id (nodes' ! q) = ssn_ep_id (nodes ! q)" for q
    by (cases "active < length nodes"; cases "q = active") (simp_all add: nodes'_def list_update_beyond)
  have old: "ssn_ep_id (nodes' ! q) = ssn_ep_id (ss_nodes ss ! q)" if "q \<in> set (ss_leaves ss)" for q
    using 2(2) that by (simp add: id) (simp add: nodes_def nth_append leaves_are_def)
  have new: "ssn_ep_id (nodes' ! p) = env_ep_id env ep"
    by (simp add: id) (simp add: nodes_def p_def new_ss_node_def)
  have "mset (map (\<lambda>q. ssn_ep_id (nodes' ! q)) (ss_leaves ss)) = mset (map (\<lambda>q. ssn_ep_id (ss_nodes ss ! q)) (ss_leaves ss))"
    by (intro arg_cong [of _ _ mset] map_cong refl old)
  moreover have "length nodes' = Suc p" by (simp add: nodes'_def nodes_def p_def)
  moreover have "\<forall>q \<in> set (ss_leaves ss). q < Suc p" using 2(2) by (auto simp: leaves_are_def p_def)
  ultimately have "leaves_are env ss' (add_mset ep es)"
    using 2(2) new by (simp add: leaves_are_def ss'_def)
  from 2(1) [OF p_def nodes_def refl this [unfolded ss'_def nodes'_def]]
  show ?case unfolding u by (simp add: ss'_def nodes'_def)
qed simp

lemma activate_leaf_correct:
  assumes "leaves_are env ss (add_mset ep es)" "ss_root ss = Some r"
  obtains ss' p where "activate_leaf env ss ep = Inr ss'" "leaves_are env ss' es"
    "ss_root ss' = Some r" "ss_active_leaf ss' = Some p"
proof -
  let ?id = "\<lambda>p. ssn_ep_id (ss_nodes ss ! p)"
  have m: "mset (map ?id (ss_leaves ss)) = add_mset (env_ep_id env ep) (image_mset (env_ep_id env) es)"
    using assms(1) by (simp add: leaves_are_def)
  then have "env_ep_id env ep \<in># mset (map ?id (ss_leaves ss))" by simp
  then obtain q where "q \<in> set (ss_leaves ss)" "?id q = env_ep_id env ep" by auto
  then obtain p where p: "find (\<lambda>p. ?id p = env_ep_id env ep) (ss_leaves ss) = Some p"
    by (cases "find (\<lambda>p. ?id p = env_ep_id env ep) (ss_leaves ss)") (auto simp: find_None_iff)
  then have q: "p \<in> set (ss_leaves ss)" "?id p = env_ep_id env ep" by (auto simp: find_Some_iff)
  have "mset (map ?id (remove1 p (ss_leaves ss))) = mset (map ?id (ss_leaves ss)) - {#?id p#}"
    using q(1) by (simp add: image_mset_Diff)
  then have "mset (map ?id (remove1 p (ss_leaves ss))) = image_mset (env_ep_id env) es"
    by (simp only: m q(2)) simp
  moreover have "\<forall>q \<in> set (remove1 p (ss_leaves ss)). q < length (ss_nodes ss)"
    using assms(1) set_remove1_subset [of p "ss_leaves ss"] by (auto simp: leaves_are_def)
  ultimately show thesis using assms(2) p
    by (intro that [of "ss\<lparr>ss_active_leaf := Some p, ss_leaves := remove1 p (ss_leaves ss),
         ss_backtrack := ucast (env_ep_id env ep) \<notin> ss_last_eps ss, ss_last_eps := {}\<rparr>" p])
      (simp_all add: activate_leaf_def leaves_are_def)
qed

lemma run_factories_correct:
  assumes "leaves_are env ss es" "ss_active_leaf ss = Some a" "set fs \<subseteq> set (concat (env_targets env))"
  obtains g' ss' impls where "run_factories env config ep node fs g ss = Inr (g', ss', impls)"
    "leaves_are env ss' (es + mset (map impl_result impls))" "ss_root ss' = ss_root ss"
    "\<forall>i \<in> set impls. produced env ep node (impl_result i)"
proof -
  have "\<exists>g' ss' impls. run_factories env config ep node fs g ss = Inr (g', ss', impls) \<and>
    leaves_are env ss' (es + mset (map impl_result impls)) \<and> ss_root ss' = ss_root ss \<and>
    (\<forall>i \<in> set impls. produced env ep node (impl_result i))"
    using assms
  proof (induction fs arbitrary: g ss es)
    case (Cons f fs)
    obtain g1 impls where i: "implement env f g ep node (\<not> no_reorder config) = (g1, impls)" by fastforce
    define ss1 where "ss1 = add_leaves env a (map impl_result impls) ss"
    have l: "leaves_are env ss1 (es + mset (map impl_result impls))" "ss_root ss1 = ss_root ss"
      "ss_active_leaf ss1 = Some a"
      using add_leaves_correct [OF Cons.prems(1), of a "map impl_result impls"] Cons.prems(2)
      by (simp_all add: ss1_def)
    have sub: "set fs \<subseteq> set (concat (env_targets env))" and f: "f \<in> set (concat (env_targets env))"
      using Cons.prems(3) by simp_all
    from Cons.IH [OF l(1,3) sub, of g1] obtain g2 ss2 rest where
      r: "run_factories env config ep node fs g1 ss1 = Inr (g2, ss2, rest)"
        "leaves_are env ss2 (es + mset (map impl_result impls) + mset (map impl_result rest))"
        "ss_root ss2 = ss_root ss1" "\<forall>i \<in> set rest. produced env ep node (impl_result i)" by blast
    have "produced env ep node (impl_result j)" if "j \<in> set impls" for j
      unfolding produced_def using f i that by (metis image_eqI snd_conv)
    with r l(2) have "run_factories env config ep node (f # fs) g ss = Inr (g2, ss2, impls @ rest) \<and>
      leaves_are env ss2 (es + mset (map impl_result (impls @ rest))) \<and> ss_root ss2 = ss_root ss \<and>
      (\<forall>i \<in> set (impls @ rest). produced env ep node (impl_result i))"
      using i Cons.prems(2) by (auto simp: add_to_active_leaf_def ss1_def [symmetric] add.assoc)
    then show ?case by blast
  qed simp
  with that show thesis by blast
qed

lemma run_factories_productive:
  assumes "run_factories env config ep node fs g ss = Inr (g', ss', impls)"
    "f \<in> set fs" "env_active_target env ep = factory_target f" "\<And>g. snd (process_node f g ep node) \<noteq> []"
  shows "impls \<noteq> []"
  using assms(1,2)
proof (induction fs arbitrary: g ss g' ss' impls)
  case (Cons f' fs)
  obtain g1 js where i: "implement env f' g ep node (\<not> no_reorder config) = (g1, js)" by fastforce
  from Cons.prems(1) obtain ss1 g2 ss2 rest where
    r: "run_factories env config ep node fs g1 ss1 = Inr (g2, ss2, rest)" "impls = js @ rest"
    by (auto simp: i rbind_def split: sum.splits prod.splits)
  show ?case
  proof (cases "f' = f")
    case True
    then have "js \<noteq> []" using i assms(3) assms(4) [of g]
      by (auto simp: implement_def split: prod.splits if_splits)
    with r(2) show ?thesis by simp
  next
    case False
    with Cons.prems(2) have "f \<in> set fs" by simp
    from Cons.IH [OF r(1) this] r(2) show ?thesis by simp
  qed
qed simp

section \<open>A step of the search\<close>

abbreviation open_eps :: "('e, 'g) search_state \<Rightarrow> 'e multiset" where
  "open_eps st \<equiv> mset (unfinished_eps (st_heuristic st))"

abbreviation done_eps :: "('e, 'g) search_state \<Rightarrow> 'e multiset" where
  "done_eps st \<equiv> mset (finished_eps (st_heuristic st))"

definition search_inv ::
  "('t, 'd, 'e, 'n, 'g) search_env \<Rightarrow> 'e \<Rightarrow> ('e, 'g) search_state \<Rightarrow> bool"
where
  "search_inv env start st \<longleftrightarrow> heuristic_wf (env_cfg env) (st_heuristic st) \<and>
     (\<forall>e. e \<in># open_eps st \<longrightarrow> derives env start e \<and> env_next_node env e \<noteq> None) \<and>
     (\<forall>e. e \<in># done_eps st \<longrightarrow> derives env start e \<and> env_next_node env e = None) \<and>
     (if ss_root (st_space st) = None then open_eps st = {#start#} \<and> done_eps st = {#} \<and>
        ss_leaves (st_space st) = []
      else leaves_are env (st_space st) (open_eps st + done_eps st))"

lemma activate_leaf_inv:
  assumes "search_inv env start st" "ep \<in># open_eps st"
  obtains ss' p r where "activate_leaf env (st_space st) ep = Inr ss'"
    "leaves_are env ss' (open_eps st + done_eps st - {#ep#})"
    "ss_root ss' = Some r" "ss_active_leaf ss' = Some p"
proof (cases "ss_root (st_space st)")
  case None
  with assms(1) have s: "open_eps st = {#start#}" "done_eps st = {#}" "ss_leaves (st_space st) = []"
    by (simp_all add: search_inv_def)
  have n: "env_next_node env ep \<noteq> None" using assms by (simp add: search_inv_def)
  have ep: "ep = start" using assms(2) by (simp add: s(1))
  let ?p = "length (ss_nodes (st_space st))"
  define ss' where "ss' = (st_space st)\<lparr>ss_nodes := ss_nodes (st_space st) @ [new_ss_node env (st_space st) ep],
     ss_node_id_counter := ss_node_id_counter (st_space st) + 1, ss_root := Some ?p, ss_active_leaf := Some ?p\<rparr>"
  have "activate_leaf env (st_space st) ep = Inr ss'" using None n by (simp add: activate_leaf_def Let_def ss'_def)
  moreover have "ss_leaves ss' = []" "ss_root ss' = Some ?p" "ss_active_leaf ss' = Some ?p"
    using s(3) by (simp_all add: ss'_def)
  moreover from this(1) have "leaves_are env ss' (open_eps st + done_eps st - {#ep#})"
    by (simp add: leaves_are_def s(1,2) ep)
  ultimately show thesis by (intro that [of ss' ?p ?p])
next
  case (Some r)
  have "add_mset ep (open_eps st + done_eps st - {#ep#}) = open_eps st + done_eps st"
    using assms(2) by (simp add: insert_DiffM)
  with assms(1) Some have "leaves_are env (st_space st) (add_mset ep (open_eps st + done_eps st - {#ep#}))"
    by (simp add: search_inv_def)
  from activate_leaf_correct [OF this Some] that show thesis by metis
qed

text \<open>
  Taking a plan and expanding it: its leaf is found, the plans it leads to take its place, and the
  only failure is a dead end where none is allowed.
\<close>

lemma expand_plan_correct:
  assumes "search_ok env \<mu> start" "search_inv env start st" "ep \<in># open_eps st"
    "heuristic_wf (env_cfg env) h" "open_eps st = add_mset ep (mset (unfinished_eps h))"
    "mset (finished_eps h) = done_eps st"
  obtains (dead) "expand_plan env config (st\<lparr>st_heuristic := h, st_random := pos\<rparr>) ep = Inl Panicked"
      "no_deadends config" "\<not> no_dead_ends env start"
  | (next_state) st' es where
      "expand_plan env config (st\<lparr>st_heuristic := h, st_random := pos\<rparr>) ep = Inr st'"
      "search_inv env start st'" "\<forall>e \<in> set es. \<mu> e < \<mu> ep"
      "open_eps st' = mset (unfinished_eps h) + mset (filter (\<lambda>e. env_next_node env e \<noteq> None) es)"
      "done_eps st' = mset (finished_eps h) + mset (filter (\<lambda>e. \<not> env_next_node env e \<noteq> None) es)"
      "stop_on_first_solution (st_heuristic st') = stop_on_first_solution h"
      "no_dead_ends env start \<Longrightarrow> es \<noteq> []"
proof -
  obtain ss1 p r where a: "activate_leaf env (st_space st) ep = Inr ss1"
    "leaves_are env ss1 (open_eps st + done_eps st - {#ep#})"
    "ss_root ss1 = Some r" "ss_active_leaf ss1 = Some p"
    by (rule activate_leaf_inv [OF assms(2,3)])
  have ep: "derives env start ep" "env_next_node env ep \<noteq> None" using assms(2,3) by (auto simp: search_inv_def)
  then obtain node where n: "env_next_node env ep = Some node" by auto
  obtain g2 ss2 impls where f:
    "run_factories env config ep node (concat (env_targets env)) (st_globals st) ss1 = Inr (g2, ss2, impls)"
    "leaves_are env ss2 (open_eps st + done_eps st - {#ep#} + mset (map impl_result impls))"
    "ss_root ss2 = ss_root ss1" "\<forall>i \<in> set impls. produced env ep node (impl_result i)"
    by (rule run_factories_correct [OF a(2,4) order.refl])
  let ?es = "map impl_result impls"
  have es: "\<forall>e \<in> set ?es. produced env ep node e" using f(4) by simp
  then have d: "\<forall>e \<in> set ?es. derives env start e" using derives_step [OF ep(1) n] by blast
  have m: "\<forall>e \<in> set ?es. \<mu> e < \<mu> ep" using produced_smaller [OF assms(1) n] es by blast
  have live: "?es \<noteq> []" if "no_dead_ends env start"
  proof -
    from that ep(1) n obtain f where "f \<in> set (concat (env_targets env))"
      "env_active_target env ep = factory_target f" "\<And>g. snd (process_node f g ep node) \<noteq> []"
      unfolding no_dead_ends_def by blast
    from run_factories_productive [OF f(1) this] show ?thesis by simp
  qed
  show thesis
  proof (cases "impls = [] \<and> no_deadends config")
    case True
    with live a f(1) n show thesis by (intro dead) (auto simp: expand_plan_def Let_def)
  next
    case False
    have ok: "\<forall>e \<in> set ?es. env_next_node env e \<noteq> None \<or> env_final_ok env e"
      using assms(1) d unfolding search_ok_def by blast
    obtain h' where h': "heuristic_add (env_cfg env) (\<lambda>e. env_next_node env e \<noteq> None)
        (env_final_ok env) ?es h = Inr h'" "heuristic_wf (env_cfg env) h'"
      "mset (unfinished_eps h') = mset (unfinished_eps h) + mset (filter (\<lambda>e. env_next_node env e \<noteq> None) ?es)"
      "mset (finished_eps h') = mset (finished_eps h) + mset (filter (\<lambda>e. \<not> env_next_node env e \<noteq> None) ?es)"
      "stop_on_first_solution h' = stop_on_first_solution h"
      by (rule heuristic_add_correct [OF assms(4) ok])
    define st0 where "st0 = st\<lparr>st_heuristic := h, st_random := pos\<rparr>"
    have st0: "st_space st0 = st_space st" "st_globals st0 = st_globals st" "st_heuristic st0 = h"
      by (simp_all add: st0_def)
    have c: "(impls = [] \<and> no_deadends config) = False" using False by simp
    have "\<exists>st'. expand_plan env config st0 ep = Inr st' \<and> st_heuristic st' = h' \<and> st_space st' = ss2"
      unfolding expand_plan_def st0 a(1) rbind_Inr Let_def n option.case f(1) prod.case c if_False h'(1)
      by (intro exI conjI, rule refl) simp_all
    then obtain st' where st': "expand_plan env config st0 ep = Inr st'" "st_heuristic st' = h'" "st_space st' = ss2"
      by blast
    note st' = st' [unfolded st0_def]
    have sub: "\<forall>e. e \<in># mset (unfinished_eps h) \<longrightarrow> e \<in># open_eps st" "done_eps st = mset (finished_eps h)"
      using assms(5,6) by auto
    have "leaves_are env ss2 (mset (unfinished_eps h') + mset (finished_eps h'))"
    proof -
      have "mset (unfinished_eps h') + mset (finished_eps h') =
          open_eps st + done_eps st - {#ep#} + mset ?es"
        unfolding h'(3,4) assms(5) sub(2) by (simp add: multiset_partition ac_simps)
      with f(2) show ?thesis by simp
    qed
    moreover have "derives env start e \<and> env_next_node env e \<noteq> None"
      if "e \<in># mset (unfinished_eps h')" for e
    proof -
      have "e \<in># mset (unfinished_eps h) \<or> e \<in> set ?es \<and> env_next_node env e \<noteq> None"
        using that [unfolded h'(3)] by auto
      with assms(2) sub(1) d show ?thesis unfolding search_inv_def by blast
    qed
    moreover have "derives env start e \<and> env_next_node env e = None"
      if "e \<in># mset (finished_eps h')" for e
    proof -
      have "e \<in># done_eps st \<or> e \<in> set ?es \<and> env_next_node env e = None"
        using that [unfolded h'(4)] unfolding sub(2) by auto
      with assms(2) d show ?thesis unfolding search_inv_def by blast
    qed
    ultimately have "search_inv env start st'"
      using h'(2) f(3) a(3) by (simp add: search_inv_def st'(2,3))
    from next_state [OF st'(1) this m _ _ _ live] h'(3,4,5) show thesis by (simp only: st'(2))
  qed
qed

lemma search_step_correct:
  assumes "search_ok env \<mu> start" "search_inv env start st" "open_eps st \<noteq> {#}"
  obtains (dead) "search_step env config st = Some (Inl Panicked)" "no_deadends config"
      "\<not> no_dead_ends env start"
  | (next_state) st' where "search_step env config st = Some (Inr st')" "search_inv env start st'"
      "image_mset \<mu> (open_eps st') < image_mset \<mu> (open_eps st)"
      "stop_on_first_solution (st_heuristic st') = stop_on_first_solution (st_heuristic st)"
      "no_dead_ends env start \<Longrightarrow> open_eps st' + done_eps st' \<noteq> {#}"
proof -
  have w: "fair (env_rand env)" "heuristic_wf (env_cfg env) (st_heuristic st)"
    "unfinished_eps (st_heuristic st) \<noteq> []"
    using assms by (auto simp: search_ok_def search_inv_def)
  obtain ep h pos where p: "pop_next_unfinished (env_rand env) (env_cfg env) (env_mutates env)
      (st_heuristic st) (st_random st) = Some (Inr (ep, h, pos))"
    "heuristic_wf (env_cfg env) h" "open_eps st = add_mset ep (mset (unfinished_eps h))"
    "mset (finished_eps h) = done_eps st"
    "stop_on_first_solution h = stop_on_first_solution (st_heuristic st)"
    by (rule pop_next_correct [OF w])
  have s: "search_step env config st =
      Some (expand_plan env config (st\<lparr>st_heuristic := h, st_random := pos\<rparr>) ep)"
    by (simp add: search_step_def p(1))
  have ep: "ep \<in># open_eps st" by (simp only: p(3)) simp
  show thesis
  proof (rule expand_plan_correct [OF assms(1,2) ep p(2,3,4), of config pos], goal_cases)
    case 1
    with that(1) s show ?thesis by simp
  next
    case next_state: (2 st' es)
    let ?open = "mset (filter (\<lambda>e. env_next_node env e \<noteq> None) es)"
    have "(image_mset \<mu> (open_eps st'), image_mset \<mu> (open_eps st)) \<in> mult1 {(x, y). x < y}"
      by (rule mult1I [of _ "\<mu> ep" "image_mset \<mu> (mset (unfinished_eps h))" _ "image_mset \<mu> ?open"])
        (use next_state(3) in \<open>auto simp: p(3) next_state(4)\<close>)
    then have less: "image_mset \<mu> (open_eps st') < image_mset \<mu> (open_eps st)"
      by (simp add: less_multiset_def multp_def mult_def r_into_trancl)
    have "open_eps st' + done_eps st' \<noteq> {#}" if "no_dead_ends env start"
    proof -
      from next_state(7) [OF that] obtain e where "e \<in> set es" by (cases es) auto
      then have "e \<in># open_eps st' + done_eps st'" unfolding next_state(4,5) by auto
      then show ?thesis by auto
    qed
    from that(2) [OF _ next_state(2) less _ this] show ?thesis using s next_state(1,6) p(5) by simp
  qed
qed

section \<open>The search as a whole\<close>

definition loop_outcome ::
  "('t, 'd, 'e, 'n, 'g) search_env \<Rightarrow> search_config \<Rightarrow> 'e \<Rightarrow> ('e, 'g) search_state \<Rightarrow>
     ('e, 'g) search_state result \<Rightarrow> bool"
where
  "loop_outcome env config start st r \<longleftrightarrow>
     (case r of
        Inr st' \<Rightarrow> search_inv env start st' \<and> heuristic_is_finished (st_heuristic st') \<and>
          stop_on_first_solution (st_heuristic st)
      | Inl e \<Rightarrow> (e = Assert_Failed \<or> e = Panicked \<and> no_deadends config) \<and>
          \<not> (no_dead_ends env start \<and> stop_on_first_solution (st_heuristic st) \<and>
             open_eps st + done_eps st \<noteq> {#}))"

lemma search_loop_correct:
  assumes "search_ok env \<mu> start" "search_inv env start st"
  shows "\<exists>r. search_loop env config st = Some r \<and> loop_outcome env config start st r"
  using assms(2)
proof (induction "image_mset \<mu> (open_eps st)" arbitrary: st rule: less_induct)
  case less
  show ?case
  proof (cases "heuristic_is_finished (st_heuristic st)")
    case True
    then have "search_loop env config st = Some (Inr st)" by (subst search_loop.simps) simp
    with True less.prems show ?thesis by (simp add: loop_outcome_def heuristic_is_finished_def)
  next
    case busy: False
    show ?thesis
    proof (cases "open_eps st = {#}")
      case True
      then have "search_step env config st = Some (Inl Assert_Failed)"
        by (simp add: search_step_def pop_next_unfinished_def get_next_unfinished_it_def)
      then have "search_loop env config st = Some (Inl Assert_Failed)"
        using busy by (subst search_loop.simps) simp
      with True busy show ?thesis by (simp add: loop_outcome_def heuristic_is_finished_def)
    next
      case False
      show ?thesis
      proof (rule search_step_correct [OF assms(1) less.prems False, of config], goal_cases)
        case 1
        then have "search_loop env config st = Some (Inl Panicked)" using busy by (subst search_loop.simps) simp
        with 1 show ?thesis by (simp add: loop_outcome_def)
      next
        case (2 st')
        have l: "search_loop env config st = search_loop env config st'"
          using busy 2(1) by (subst search_loop.simps) simp
        from less.hyps [OF 2(3,2)] obtain r where "search_loop env config st' = Some r"
          "loop_outcome env config start st' r" by blast
        with l 2(4,5) show ?thesis by (cases r) (auto simp: loop_outcome_def)
      qed
    qed
  qed
qed

lemma new_heuristic_correct:
  "new_heuristic cfg start stop =
     Inr \<lparr>unfinished_eps = [start], finished_eps = [], stop_on_first_solution = stop\<rparr>"
  by (simp add: new_heuristic_def rebuild_execution_plans_sets_def)

lemma search_inv_start:
  assumes "env_next_node env start \<noteq> None"
  shows "search_inv env start
    \<lparr>st_heuristic = \<lparr>unfinished_eps = [start], finished_eps = [], stop_on_first_solution = stop\<rparr>,
     st_space = new_search_space counter, st_globals = g, st_random = pos,
     st_steps = 0, st_backtracks = 0, st_avg_bdd_size = 0\<rparr>"
  using assms by (auto simp: search_inv_def heuristic_wf_def new_search_space_def intro: derives_start)

text \<open>What a search returns.\<close>

lemma search_outcome:
  assumes "search_ok env \<mu> start" "env_next_node env start \<noteq> None"
  obtains (found) report st where "search env config start g pos counter = Some (Inr (report, st))"
      "\<not> not_greedy config" "derives env start (report_ep report)"
      "env_next_node env (report_ep report) = None"
      "report_score report = cfg_score (env_cfg env) (report_ep report)"
      "\<forall>e \<in> set (finished_eps (st_heuristic st)). cfg_score (env_cfg env) e \<le> report_score report"
  | (failed) e where "search env config start g pos counter = Some (Inl e)"
      "e = Assert_Failed \<or> e = Panicked \<and> no_deadends config"
      "not_greedy config \<or> \<not> no_dead_ends env start"
proof -
  define st0 where "st0 =
    \<lparr>st_heuristic = \<lparr>unfinished_eps = [start], finished_eps = [], stop_on_first_solution = \<not> not_greedy config\<rparr>,
     st_space = new_search_space counter, st_globals = g, st_random = pos,
     st_steps = 0, st_backtracks = 0, st_avg_bdd_size = (0 :: u64)\<rparr>"
  have "search_inv env start st0" unfolding st0_def by (rule search_inv_start [OF assms(2)])
  from search_loop_correct [OF assms(1) this, of config] obtain r where
    r: "search_loop env config st0 = Some r" "loop_outcome env config start st0 r" by blast
  have st0: "st_heuristic st0 = \<lparr>unfinished_eps = [start], finished_eps = [],
      stop_on_first_solution = \<not> not_greedy config\<rparr>" by (simp add: st0_def)
  show thesis
  proof (cases r)
    case (Inl e)
    with r have "search env config start g pos counter = Some (Inl e)"
      by (simp add: search_def new_heuristic_correct st0_def [symmetric])
    then show thesis using r(2) Inl st0 by (intro failed) (auto simp: loop_outcome_def)
  next
    case (Inr st)
    with r(2) have st: "search_inv env start st" "heuristic_is_finished (st_heuristic st)"
      "\<not> not_greedy config" by (simp_all add: loop_outcome_def st0)
    then obtain w rest where f: "finished_eps (st_heuristic st) = w # rest"
      by (auto simp: heuristic_is_finished_def neq_Nil_conv)
    have best: "\<forall>e \<in> set rest. cfg_score (env_cfg env) e \<le> cfg_score (env_cfg env) w"
      using st(1) f by (simp add: search_inv_def heuristic_wf_def)
    have "w \<in># done_eps st" by (simp add: f)
    with st(1) have w: "derives env start w" "env_next_node env w = None" by (simp_all add: search_inv_def)
    from found [OF _ st(3)] w best r(1) Inr show thesis
      by (simp add: search_def new_heuristic_correct st0_def [symmetric] pop_best_finished_def f)
  qed
qed

text \<open>
  A small search: plans are numbers, the modules of a target lead from one to the next two, a
  plan is complete at zero, and larger numbers score lower.
\<close>

definition countdown_env :: "(unit, unit, nat, nat, unit) search_env" where
  "countdown_env =
     \<lparr>env_next_node = (\<lambda>e. if e = 0 then None else Some e), env_active_target = (\<lambda>_. ()),
      env_ep_id = of_nat, env_final_ok = (\<lambda>_. True), env_bdd_size = (\<lambda>_. 1),
      env_get_reordered = (\<lambda>g ep. (g, [])), env_cfg = \<lparr>cfg_name = ''Countdown'', cfg_metrics = [minimise of_nat]\<rparr>,
      env_mutates = (\<lambda>_. False),
      env_targets = [[\<lparr>factory_target = (),
        process_node = (\<lambda>g ep node. (g, [\<lparr>impl_decision = (), impl_result = node - 1, impl_bdd_reordered = False\<rparr>,
          \<lparr>impl_decision = (), impl_result = node - 2, impl_bdd_reordered = False\<rparr>]))\<rparr>]],
      env_rand = (\<lambda>n. int n)\<rparr>"

definition sample_search :: "bool \<Rightarrow> search_config" where
  "sample_search ng = \<lparr>no_reorder = False, not_greedy = ng, no_deadends = True\<rparr>"

lemma countdown_ok: "search_ok countdown_env (\<lambda>e. e) start"
proof -
  have "\<exists>q \<ge> p. int q mod 2 = 0" for p :: nat by (intro exI [of _ "2 * p"]) simp
  then show ?thesis by (auto simp: search_ok_def countdown_env_def fair_def split: if_splits)
qed

lemma countdown_no_dead_ends: "no_dead_ends countdown_env start"
  by (simp add: no_dead_ends_def countdown_env_def)





text \<open>C36. A search that is not greedy never reports a plan: it has no stopping condition, so it picks
  plans until none is left and fails, also where every plan can be completed.
\<close>
theorem search_not_greedy_fails:
  assumes "search_ok env \<mu> start" "env_next_node env start \<noteq> None" "not_greedy config"
  shows "\<exists>e. search env config start g pos counter = Some (Inl e)"
proof (rule search_outcome [OF assms(1,2), of config g pos counter], goal_cases)
  case 1
  with assms(3) show ?thesis by simp
qed blast

theorem search_not_greedy_fails_witness:
  "\<exists>e. search countdown_env (sample_search True) 3 () 0 0 = Some (Inl e)"
  by (rule search_not_greedy_fails [OF countdown_ok]) (simp_all add: countdown_env_def sample_search_def)

end
