(* ===== verification/BDDNodes.thy ===== *)
theory BDDNodes
  imports Prelude "HOL-Library.Monad_Syntax"
begin

text \<open>
  The nodes of the binary decision diagrams (\<^verbatim>\<open>LibBDD/Nodes\<close>): objects linked by raw pointers in
  both directions, hence an explicit heap, and the manager that owns them. Expressions are values
  of a type parameter; negation, equality and the names of the symbols of an expression are
  parameters. A loop or recursion over the links may not end: it is a partial function.
\<close>

section \<open>Failing or not returning\<close>

definition obind :: "'a result option \<Rightarrow> ('a \<Rightarrow> 'b result option) \<Rightarrow> 'b result option" where
  "obind x k = x \<bind> (\<lambda>r. case r of Inl e \<Rightarrow> Some (Inl e) | Inr a \<Rightarrow> k a)"

lemma obind_simps [simp]:
  "obind (Some (Inr a)) k = k a" "obind (Some (Inl e)) k = Some (Inl e)" "obind None k = None"
  by (simp_all add: obind_def)

lemma obind_mono [partial_function_mono]:
  assumes "mono_option B" "\<And>a. mono_option (\<lambda>f. C a f)"
  shows "mono_option (\<lambda>f. obind (B f) (\<lambda>a. C a f))"
  unfolding obind_def
proof (rule bind_mono [OF assms(1)])
  fix r show "mono_option (\<lambda>f. case r of Inl e \<Rightarrow> Some (Inl e) | Inr a \<Rightarrow> C a f)"
    by (cases r) (simp_all add: assms(2) option.const_mono)
qed

section \<open>Nodes\<close>

type_synonym node_ptr = nat

text \<open>Null expressions are values of \<open>'e\<close>; a map from strings is an association list.\<close>

record 'e symbol_t =
  sy_base :: string
  sy_name :: string
  sy_expr :: 'e

record 'e arg_t =
  arg_expr :: 'e
  arg_fn_ptr_name :: "bool \<times> string"
  arg_in :: 'e
  arg_out :: 'e

record 'e call_t =
  function_name :: string
  extra_vars :: "(string \<times> ('e \<times> 'e)) list"
  call_args :: "(string \<times> 'e arg_t) list"
  call_ret :: 'e

datatype route_op = Forward | Drop | Broadcast

text \<open>
  What the three classes add to the base class. A branch has its second link here; its first one
  is the link \<^verbatim>\<open>next\<close> of the base class.
\<close>

datatype 'e bdd_body =
    Branch "node_ptr option" 'e
  | Call "'e call_t" "'e symbol_t set"
  | Route route_op 'e

record 'e bdd_node =
  bn_id :: u64
  bn_next :: "node_ptr option"
  bn_prev :: "node_ptr option"
  bn_body :: "'e bdd_body"

type_synonym 'e bdd_heap = "node_ptr \<rightharpoonup> 'e bdd_node"

record 'e memory =
  m_heap :: "'e bdd_heap"
  m_fresh :: node_ptr

text \<open>The manager is the vector of the nodes it owns.\<close>

type_synonym node_manager = "node_ptr list"

definition deref :: "'e bdd_heap \<Rightarrow> node_ptr \<Rightarrow> 'e bdd_node result" where
  "deref h p = (case h p of None \<Rightarrow> Inl Undefined | Some n \<Rightarrow> Inr n)"

definition deref_opt :: "'e bdd_heap \<Rightarrow> node_ptr option \<Rightarrow> 'e bdd_node result" where
  "deref_opt h q = (case q of None \<Rightarrow> Inl Undefined | Some p \<Rightarrow> deref h p)"

definition set_next_node :: "'e bdd_heap \<Rightarrow> node_ptr \<Rightarrow> node_ptr option \<Rightarrow> 'e bdd_heap result" where
  "set_next_node h p q = rbind (deref h p) (\<lambda>n. Inr (h(p \<mapsto> n\<lparr>bn_next := q\<rparr>)))"

definition set_prev_node :: "'e bdd_heap \<Rightarrow> node_ptr \<Rightarrow> node_ptr option \<Rightarrow> 'e bdd_heap result" where
  "set_prev_node h p q = rbind (deref h p) (\<lambda>n. Inr (h(p \<mapsto> n\<lparr>bn_prev := q\<rparr>)))"

definition set_prev_opt ::
  "'e bdd_heap \<Rightarrow> node_ptr option \<Rightarrow> node_ptr option \<Rightarrow> 'e bdd_heap result" where
  "set_prev_opt h q prev = (case q of None \<Rightarrow> Inr h | Some p \<Rightarrow> set_prev_node h p prev)"

definition link_list :: "node_ptr option \<Rightarrow> node_ptr list" where
  "link_list q = (case q of None \<Rightarrow> [] | Some p \<Rightarrow> [p])"

text \<open>The links to children that are set, in the order in which they are visited.\<close>

definition children :: "'e bdd_node \<Rightarrow> node_ptr list" where
  "children n =
     (case bn_body n of
        Branch f c \<Rightarrow> link_list (bn_next n) @ link_list f
      | _ \<Rightarrow> link_list (bn_next n))"

section \<open>The manager\<close>

definition add_node :: "node_manager \<Rightarrow> node_ptr \<Rightarrow> node_manager" where
  "add_node nodes p = nodes @ [p]"

definition has_node :: "node_manager \<Rightarrow> node_ptr \<Rightarrow> bool" where
  "has_node nodes p = list_ex (\<lambda>n. n = p) nodes"

text \<open>A node that the manager does not own is left alone.\<close>

definition free_node ::
  "'e memory \<Rightarrow> node_manager \<Rightarrow> node_ptr \<Rightarrow> 'e memory \<times> node_manager" where
  "free_node m nodes p =
     (if has_node nodes p
      then (m\<lparr>m_heap := (m_heap m)(p := None)\<rparr>, remove1 p nodes)
      else (m, nodes))"

definition new_node :: "'e memory \<Rightarrow> 'e bdd_node \<Rightarrow> 'e memory \<times> node_ptr" where
  "new_node m n =
     (m\<lparr>m_heap := (m_heap m)(m_fresh m \<mapsto> n), m_fresh := m_fresh m + 1\<rparr>, m_fresh m)"

section \<open>Visiting\<close>

datatype visit_action = Continue | SkipChildren | Stop

text \<open>
  The queue pairs a node with its cookie; the function gets the node, the cookie and what it has
  captured, and may fail itself.
\<close>

partial_function (option) visit_nodes ::
  "'e bdd_heap \<Rightarrow> (node_ptr \<Rightarrow> 'e bdd_node \<Rightarrow> 'k \<Rightarrow> 's \<Rightarrow> (visit_action \<times> 'k \<times> 's) result) \<Rightarrow>
     (node_ptr \<times> 'k) list \<Rightarrow> 's \<Rightarrow> 's result option"
where
  "visit_nodes h fn queue s =
     (case queue of
        [] \<Rightarrow> Some (Inr s)
      | (p, k) # rest \<Rightarrow>
          (case h p of
             None \<Rightarrow> Some (Inl Undefined)
           | Some n \<Rightarrow>
               (case fn p n k s of
                  Inl e \<Rightarrow> Some (Inl e)
                | Inr (action, k', s') \<Rightarrow>
                    if action = Stop then Some (Inr s')
                    else
                      visit_nodes h fn
                        (rest @ (if action = SkipChildren then [] else map (\<lambda>c. (c, k')) (children n))) s')))"

text \<open>The variant without cookies.\<close>

definition visit ::
  "'e bdd_heap \<Rightarrow> (node_ptr \<Rightarrow> 'e bdd_node \<Rightarrow> 's \<Rightarrow> (visit_action \<times> 's) result) \<Rightarrow>
     node_ptr \<Rightarrow> 's \<Rightarrow> 's result option"
where
  "visit h fn p s =
     visit_nodes h (\<lambda>p n k s. rbind (fn p n s) (\<lambda>(a, s'). Inr (a, (), s'))) [(p, ())] s"

definition node_get_node_by_id :: "'e bdd_heap \<Rightarrow> node_ptr \<Rightarrow> u64 \<Rightarrow> node_ptr option result option" where
  "node_get_node_by_id h self node_id =
     visit h (\<lambda>p n target. if bn_id n = node_id then Inr (Stop, Some p) else Inr (Continue, target)) self None"

definition get_reachable_nodes :: "'e bdd_heap \<Rightarrow> node_ptr \<Rightarrow> node_ptr list result option" where
  "get_reachable_nodes h self =
     visit h (\<lambda>p n nodes. Inr (Continue, if p = self then nodes else nodes @ [p])) self []"

definition count_children :: "'e bdd_heap \<Rightarrow> node_ptr \<Rightarrow> bool \<Rightarrow> nat result option" where
  "count_children h self recursive =
     visit h (\<lambda>p n total.
       if p = self then Inr (Continue, total)
       else Inr (if recursive then Continue else SkipChildren, total + 1)) self 0"

definition count_code_paths :: "'e bdd_heap \<Rightarrow> node_ptr \<Rightarrow> nat result option" where
  "count_code_paths h self =
     visit h (\<lambda>p n paths.
       Inr (Continue,
         case bn_body n of
           Branch f c \<Rightarrow> paths + (if bn_next n = None then 1 else 0) + (if f = None then 1 else 0)
         | _ \<Rightarrow> if bn_next n = None then paths + 1 else paths)) self 0"

definition get_future_functions ::
  "'e bdd_heap \<Rightarrow> node_ptr \<Rightarrow> string set \<Rightarrow> bool \<Rightarrow> node_ptr list result option" where
  "get_future_functions h self wanted stop_on_branches =
     visit h (\<lambda>p n functions.
       Inr (Continue,
         case bn_body n of
           Call call syms \<Rightarrow> if function_name call \<in> wanted then functions @ [p] else functions
         | _ \<Rightarrow> functions)) self []"

definition get_future_routing_decisions :: "'e bdd_heap \<Rightarrow> node_ptr \<Rightarrow> node_ptr list result option" where
  "get_future_routing_decisions h self =
     visit h (\<lambda>p n routes.
       Inr (Continue, case bn_body n of Route op dst \<Rightarrow> routes @ [p] | _ \<Rightarrow> routes)) self []"

definition is_packet_drop_code_path :: "'e bdd_heap \<Rightarrow> node_ptr \<Rightarrow> bool result option" where
  "is_packet_drop_code_path h self =
     visit h (\<lambda>p n found_drop.
       case bn_body n of
         Branch f c \<Rightarrow> Inr (Stop, found_drop)
       | Route op dst \<Rightarrow> Inr (Stop, found_drop \<or> op = Drop)
       | Call call syms \<Rightarrow> Inr (Continue, found_drop)) self False"

section \<open>Walking up\<close>

partial_function (option) is_reachable :: "'e bdd_heap \<Rightarrow> u64 \<Rightarrow> node_ptr option \<Rightarrow> bool result option" where
  "is_reachable h node_id node =
     (case node of
        None \<Rightarrow> Some (Inr False)
      | Some p \<Rightarrow>
          (case h p of
             None \<Rightarrow> Some (Inl Undefined)
           | Some n \<Rightarrow> if bn_id n = node_id then Some (Inr True) else is_reachable h node_id (bn_prev n)))"

partial_function (option) branch_constraints_loop ::
  "('e \<Rightarrow> 'e) \<Rightarrow> 'e bdd_heap \<Rightarrow> node_ptr \<Rightarrow> 'e list \<Rightarrow> 'e list result option"
where
  "branch_constraints_loop neg h node constraints =
     (case h node of
        None \<Rightarrow> Some (Inl Undefined)
      | Some n \<Rightarrow>
          (case bn_prev n of
             None \<Rightarrow> Some (Inr constraints)
           | Some prev \<Rightarrow>
               (case h prev of
                  None \<Rightarrow> Some (Inl Undefined)
                | Some m \<Rightarrow>
                    branch_constraints_loop neg h prev
                      (case bn_body m of
                         Branch f c \<Rightarrow> (if f = Some node then neg c else c) # constraints
                       | _ \<Rightarrow> constraints))))"

definition get_ordered_branch_constraints ::
  "('e \<Rightarrow> 'e) \<Rightarrow> 'e bdd_heap \<Rightarrow> node_ptr \<Rightarrow> 'e list result option" where
  "get_ordered_branch_constraints neg h self = branch_constraints_loop neg h self []"

partial_function (option) prev_functions_loop ::
  "'e bdd_heap \<Rightarrow> string set \<Rightarrow> u64 set \<Rightarrow> node_ptr option \<Rightarrow> node_ptr list \<Rightarrow> node_ptr list result option"
where
  "prev_functions_loop h wanted stop_nodes node functions =
     (case node of
        None \<Rightarrow> Some (Inr functions)
      | Some p \<Rightarrow>
          (case h p of
             None \<Rightarrow> Some (Inl Undefined)
           | Some n \<Rightarrow>
               (let functions = (case bn_body n of
                    Call call syms \<Rightarrow> if function_name call \<in> wanted then p # functions else functions
                  | _ \<Rightarrow> functions) in
                if bn_id n \<in> stop_nodes then Some (Inr functions)
                else prev_functions_loop h wanted stop_nodes (bn_prev n) functions)))"

definition get_prev_functions ::
  "'e bdd_heap \<Rightarrow> node_ptr \<Rightarrow> string set \<Rightarrow> u64 set \<Rightarrow> node_ptr list result option" where
  "get_prev_functions h self wanted stop_nodes =
     (case h self of
        None \<Rightarrow> Some (Inl Undefined)
      | Some n \<Rightarrow> prev_functions_loop h wanted stop_nodes (bn_prev n) [])"

partial_function (option) prev_symbols_loop ::
  "'e bdd_heap \<Rightarrow> u64 set \<Rightarrow> node_ptr option \<Rightarrow> 'e symbol_t set \<Rightarrow> 'e symbol_t set result option"
where
  "prev_symbols_loop h stop_nodes node symbols =
     (case node of
        None \<Rightarrow> Some (Inr symbols)
      | Some p \<Rightarrow>
          (case h p of
             None \<Rightarrow> Some (Inl Undefined)
           | Some n \<Rightarrow>
               if bn_id n \<in> stop_nodes then Some (Inr symbols)
               else
                 prev_symbols_loop h stop_nodes (bn_prev n)
                   (case bn_body n of
                      Call call syms \<Rightarrow> symbols \<union> {s \<in> syms. sy_base s \<noteq> ''packet_chunks''}
                    | _ \<Rightarrow> symbols)))"

definition get_prev_symbols ::
  "'e bdd_heap \<Rightarrow> 'e bdd_node \<Rightarrow> u64 set \<Rightarrow> 'e symbol_t set result option" where
  "get_prev_symbols h n stop_nodes = prev_symbols_loop h stop_nodes (bn_prev n) {}"

partial_function (option) get_latest_routing_decision ::
  "'e bdd_heap \<Rightarrow> node_ptr option \<Rightarrow> node_ptr option result option" where
  "get_latest_routing_decision h node =
     (case node of
        None \<Rightarrow> Some (Inr None)
      | Some p \<Rightarrow>
          (case h p of
             None \<Rightarrow> Some (Inl Undefined)
           | Some n \<Rightarrow>
               (case bn_body n of
                  Route op dst \<Rightarrow> Some (Inr (Some p))
                | _ \<Rightarrow> get_latest_routing_decision h (bn_prev n))))"

section \<open>Recursion downwards\<close>

partial_function (option) get_leaves :: "'e bdd_heap \<Rightarrow> node_ptr \<Rightarrow> node_ptr list result option" where
  "get_leaves h self =
     (case h self of
        None \<Rightarrow> Some (Inl Undefined)
      | Some n \<Rightarrow>
          (case bn_body n of
             Branch f c \<Rightarrow>
               (case bn_next n of
                  None \<Rightarrow> Some (Inl Assert_Failed)
                | Some t \<Rightarrow>
                    (case f of
                       None \<Rightarrow> Some (Inl Assert_Failed)
                     | Some f \<Rightarrow>
                         obind (get_leaves h t) (\<lambda>l1. obind (get_leaves h f) (\<lambda>l2.
                         Some (Inr (l1 @ l2))))))
           | _ \<Rightarrow>
               (case bn_next n of
                  None \<Rightarrow> Some (Inr [self])
                | Some p \<Rightarrow> get_leaves h p)))"

text \<open>The counter is passed by reference. An absent child is skipped.\<close>

partial_function (option) update_ids ::
  "'e bdd_heap \<Rightarrow> u64 \<Rightarrow> node_ptr option \<Rightarrow> ('e bdd_heap \<times> u64) result option" where
  "update_ids h new_id node =
     (case node of
        None \<Rightarrow> Some (Inr (h, new_id))
      | Some p \<Rightarrow>
          (case h p of
             None \<Rightarrow> Some (Inl Undefined)
           | Some n \<Rightarrow>
               (let h = h(p \<mapsto> n\<lparr>bn_id := new_id\<rparr>); new_id = new_id + 1 in
                case bn_body n of
                  Branch f c \<Rightarrow>
                    obind (update_ids h new_id (bn_next n)) (\<lambda>(h, new_id). update_ids h new_id f)
                | _ \<Rightarrow> update_ids h new_id (bn_next n))))"

definition recursive_update_ids :: "'e bdd_heap \<Rightarrow> u64 \<Rightarrow> node_ptr \<Rightarrow> ('e bdd_heap \<times> u64) result option" where
  "recursive_update_ids h new_id self = update_ids h new_id (Some self)"

text \<open>A call or route forgets its next node once that is freed; a branch keeps its links.\<close>

definition unlink_next :: "'e memory \<Rightarrow> node_ptr \<Rightarrow> 'e bdd_node \<Rightarrow> 'e memory" where
  "unlink_next m p n =
     (if bn_next n = None then m else m\<lparr>m_heap := (m_heap m)(p \<mapsto> n\<lparr>bn_next := None\<rparr>)\<rparr>)"

text \<open>
  Freeing below a child and then the child itself: what \<^verbatim>\<open>recursive_free_children\<close> does for each
  of its children. The child's own links are read before it is freed.
\<close>

partial_function (option) free_subtree ::
  "'e memory \<Rightarrow> node_manager \<Rightarrow> node_ptr option \<Rightarrow> ('e memory \<times> node_manager) result option" where
  "free_subtree m nodes child =
     (case child of
        None \<Rightarrow> Some (Inr (m, nodes))
      | Some p \<Rightarrow>
          (case m_heap m p of
             None \<Rightarrow> Some (Inl Undefined)
           | Some n \<Rightarrow>
               obind (free_subtree m nodes (bn_next n)) (\<lambda>(m, nodes).
               case bn_body n of
                 Branch f c \<Rightarrow>
                   obind (free_subtree m nodes f) (\<lambda>(m, nodes). Some (Inr (free_node m nodes p)))
               | _ \<Rightarrow> Some (Inr (free_node (unlink_next m p n) nodes p)))))"

definition recursive_free_children ::
  "'e memory \<Rightarrow> node_manager \<Rightarrow> node_ptr \<Rightarrow> ('e memory \<times> node_manager) result option" where
  "recursive_free_children m nodes self =
     (case m_heap m self of
        None \<Rightarrow> Some (Inl Undefined)
      | Some n \<Rightarrow>
          obind (free_subtree m nodes (bn_next n)) (\<lambda>(m, nodes).
          case bn_body n of
            Branch f c \<Rightarrow> free_subtree m nodes f
          | _ \<Rightarrow> Some (Inr (unlink_next m self n, nodes))))"

section \<open>Cloning\<close>

text \<open>A clone of the node alone has no links.\<close>

definition without_links :: "'e bdd_node \<Rightarrow> 'e bdd_node" where
  "without_links n =
     \<lparr>bn_id = bn_id n, bn_next = None, bn_prev = None,
      bn_body = (case bn_body n of Branch f c \<Rightarrow> Branch None c | b \<Rightarrow> b)\<rparr>"

definition clone_node ::
  "'e memory \<Rightarrow> node_manager \<Rightarrow> node_ptr \<Rightarrow> ('e memory \<times> node_manager \<times> node_ptr) result" where
  "clone_node m nodes self =
     rbind (deref (m_heap m) self) (\<lambda>n.
     case new_node m (without_links n) of (m, p) \<Rightarrow> Inr (m, add_node nodes p, p))"

text \<open>The children are cloned first; then the clone is created, linked with theirs and handed to the
  manager. A null child stays null.\<close>

partial_function (option) clone_subtree ::
  "'e memory \<Rightarrow> node_manager \<Rightarrow> node_ptr option \<Rightarrow>
     ('e memory \<times> node_manager \<times> node_ptr option) result option"
where
  "clone_subtree m nodes node =
     (case node of
        None \<Rightarrow> Some (Inr (m, nodes, None))
      | Some self \<Rightarrow>
          (case m_heap m self of
             None \<Rightarrow> Some (Inl Undefined)
           | Some n \<Rightarrow>
               obind (clone_subtree m nodes (bn_next n)) (\<lambda>(m, nodes, next_clone).
               case bn_body n of
                 Branch f c \<Rightarrow>
                   obind (clone_subtree m nodes f) (\<lambda>(m, nodes, false_clone).
                   case new_node m \<lparr>bn_id = bn_id n, bn_next = next_clone, bn_prev = None,
                       bn_body = Branch false_clone c\<rparr> of
                     (m, p) \<Rightarrow>
                       Some
                         (rbind (set_prev_opt (m_heap m) next_clone (Some p)) (\<lambda>h.
                          rbind (set_prev_opt h false_clone (Some p)) (\<lambda>h.
                          Inr (m\<lparr>m_heap := h\<rparr>, add_node nodes p, Some p)))))
               | b \<Rightarrow>
                   (case new_node m \<lparr>bn_id = bn_id n, bn_next = next_clone, bn_prev = None, bn_body = b\<rparr> of
                      (m, p) \<Rightarrow>
                        Some
                          (rbind (set_prev_opt (m_heap m) next_clone (Some p)) (\<lambda>h.
                           Inr (m\<lparr>m_heap := h\<rparr>, add_node nodes p, Some p)))))))"

definition clone_recursive ::
  "'e memory \<Rightarrow> node_manager \<Rightarrow> node_ptr \<Rightarrow> ('e memory \<times> node_manager \<times> node_ptr option) result option" where
  "clone_recursive m nodes self = clone_subtree m nodes (Some self)"

section \<open>Comparing\<close>

text \<open>\<open>eq\<close> stands for the solver's \<^verbatim>\<open>are_exprs_always_equal\<close>.\<close>

definition args_equal :: "('e \<Rightarrow> 'e \<Rightarrow> bool) \<Rightarrow> 'e call_t \<Rightarrow> 'e call_t \<Rightarrow> bool" where
  "args_equal eq this other =
     list_all (\<lambda>(name, a).
       case map_of (call_args other) name of
         None \<Rightarrow> False
       | Some b \<Rightarrow> eq (arg_expr a) (arg_expr b) \<and> eq (arg_in a) (arg_in b) \<and> eq (arg_out a) (arg_out b))
     (call_args this)"

definition extra_vars_equal :: "('e \<Rightarrow> 'e \<Rightarrow> bool) \<Rightarrow> 'e call_t \<Rightarrow> 'e call_t \<Rightarrow> bool" where
  "extra_vars_equal eq this other =
     list_all (\<lambda>(name, a).
       case map_of (extra_vars other) name of
         None \<Rightarrow> False
       | Some b \<Rightarrow> eq (fst a) (fst b) \<and> eq (snd a) (snd b))
     (extra_vars this)"

fun body_equal :: "('e \<Rightarrow> 'e \<Rightarrow> bool) \<Rightarrow> 'e bdd_body \<Rightarrow> 'e bdd_body \<Rightarrow> bool" where
  "body_equal eq (Call this s) (Call other s') \<longleftrightarrow>
     function_name this = function_name other \<and> args_equal eq this other \<and>
     extra_vars_equal eq this other \<and> eq (call_ret this) (call_ret other)"
| "body_equal eq (Branch f c) (Branch f' c') \<longleftrightarrow> eq c c'"
| "body_equal eq (Route op dst) (Route op' dst') \<longleftrightarrow> op = op' \<and> eq dst dst'"
| "body_equal eq b b' \<longleftrightarrow> False"

definition node_equals :: "('e \<Rightarrow> 'e \<Rightarrow> bool) \<Rightarrow> 'e bdd_node \<Rightarrow> 'e bdd_node \<Rightarrow> bool" where
  "node_equals eq n n' = body_equal eq (bn_body n) (bn_body n')"

end
