(* ===== verification/BDDGraph.thy ===== *)
theory BDDGraph
  imports BDDNodes
begin

text \<open>
  The diagram itself (\<^verbatim>\<open>LibBDD/BDD.cpp\<close>): its nodes are found by identifier, and edited in place:
  nodes are spliced out and in, branches are resolved or introduced, whole diagrams are copied and
  inspected. Two diagrams share the heap; each has its manager.
\<close>

section \<open>State\<close>

record 'e bdd =
  bdd_id :: u64
  bdd_device :: "'e symbol_t"
  bdd_packet_len :: "'e symbol_t"
  bdd_time :: "'e symbol_t"
  base_constraints :: "'e list"
  bdd_init :: "node_ptr list"
  bdd_root :: "node_ptr option"
  bdd_manager :: node_manager

definition new_bdd :: "'e symbol_t \<Rightarrow> 'e bdd" where
  "new_bdd null_symbol =
     \<lparr>bdd_id = 0, bdd_device = null_symbol, bdd_packet_len = null_symbol, bdd_time = null_symbol,
      base_constraints = [], bdd_init = [], bdd_root = None, bdd_manager = []\<rparr>"

definition set_root :: "'e bdd \<Rightarrow> node_ptr \<Rightarrow> 'e bdd result" where
  "set_root B p = (if has_node (bdd_manager B) p then Inr (B\<lparr>bdd_root := Some p\<rparr>) else Inl Panicked)"

definition get_node_by_id :: "'e bdd_heap \<Rightarrow> 'e bdd \<Rightarrow> u64 \<Rightarrow> node_ptr option result option" where
  "get_node_by_id h B node_id =
     (case bdd_root B of None \<Rightarrow> Some (Inr None) | Some r \<Rightarrow> node_get_node_by_id h r node_id)"

text \<open>The cookie is the depth of the node.\<close>

definition get_node_depth :: "'e bdd_heap \<Rightarrow> 'e bdd \<Rightarrow> u64 \<Rightarrow> int result option" where
  "get_node_depth h B node_id =
     (case bdd_root B of
        None \<Rightarrow> Some (Inr (- 1))
      | Some r \<Rightarrow>
          visit_nodes h
            (\<lambda>p n (k :: int) depth.
              if bn_id n = node_id then Inr (Stop, k, k) else Inr (Continue, k + 1, depth))
            [(r, 0)] (- 1))"

definition bdd_size :: "'e bdd_heap \<Rightarrow> 'e bdd \<Rightarrow> nat result option" where
  "bdd_size h B =
     (case bdd_root B of
        None \<Rightarrow> Some (Inl Undefined)
      | Some r \<Rightarrow> obind (count_children h r True) (\<lambda>n. Some (Inr (n + 1))))"

text \<open>The constraints a node's constraint manager is given, in order.\<close>

definition get_constraints :: "('e \<Rightarrow> 'e) \<Rightarrow> 'e bdd_heap \<Rightarrow> 'e bdd \<Rightarrow> node_ptr \<Rightarrow> 'e list result option" where
  "get_constraints neg h B node =
     obind (get_ordered_branch_constraints neg h node) (\<lambda>cs. Some (Inr (base_constraints B @ cs)))"

section \<open>Copies\<close>

text \<open>\<open>last\<close> is \<^verbatim>\<open>init.back()\<close>: nodes already in the list are linked with the first clone.\<close>

fun clone_init ::
  "'e memory \<Rightarrow> node_manager \<Rightarrow> node_ptr list \<Rightarrow> node_ptr list \<Rightarrow>
     ('e memory \<times> node_manager \<times> node_ptr list) result"
where
  "clone_init m nodes init [] = Inr (m, nodes, init)"
| "clone_init m nodes init (p # ps) =
     rbind (clone_node m nodes p) (\<lambda>(m, nodes, cloned).
     rbind
       (if init = [] then Inr (m_heap m)
        else
          rbind (set_next_node (m_heap m) (last init) (Some cloned)) (\<lambda>h.
          set_prev_node h cloned (Some (last init))))
       (\<lambda>h. clone_init (m\<lparr>m_heap := h\<rparr>) nodes (init @ [cloned]) ps))"

text \<open>
  What the copy constructor and the assignment share: the assignment starts from the nodes that
  the diagram has already.
\<close>

definition clone_into ::
  "'e memory \<Rightarrow> node_manager \<Rightarrow> node_ptr list \<Rightarrow> 'e bdd \<Rightarrow> ('e memory \<times> 'e bdd) result option"
where
  "clone_into m nodes init other =
     obind (Some (clone_init m nodes init (bdd_init other))) (\<lambda>(m, nodes, init).
     case bdd_root other of
       None \<Rightarrow> Some (Inl Undefined)
     | Some r \<Rightarrow>
         obind (clone_recursive m nodes r) (\<lambda>(m, nodes, root).
         Some (Inr (m, other\<lparr>bdd_init := init, bdd_root := root, bdd_manager := nodes\<rparr>))))"

definition copy_bdd :: "'e memory \<Rightarrow> 'e bdd \<Rightarrow> ('e memory \<times> 'e bdd) result option" where
  "copy_bdd m other = clone_into m [] [] other"

text \<open>Assignment from another diagram.\<close>

definition assign_bdd :: "'e memory \<Rightarrow> 'e bdd \<Rightarrow> 'e bdd \<Rightarrow> ('e memory \<times> 'e bdd) result option" where
  "assign_bdd m this other = clone_into m (bdd_manager this) (bdd_init this) other"

section \<open>Deleting\<close>

definition require :: "node_ptr option \<Rightarrow> node_ptr result" where
  "require q = (case q of None \<Rightarrow> Inl Assert_Failed | Some p \<Rightarrow> Inr p)"

text \<open>The switch that every edit ends with: the anchor's link to \<open>anchor_next\<close> is moved.\<close>

definition connect ::
  "'e bdd_heap \<Rightarrow> node_ptr \<Rightarrow> node_ptr \<Rightarrow> node_ptr option \<Rightarrow> 'e bdd_heap result"
where
  "connect h anchor anchor_next new_current =
     rbind (deref h anchor) (\<lambda>n.
     case bn_body n of
       Branch f c \<Rightarrow>
         if bn_next n = Some anchor_next then Inr (h(anchor \<mapsto> n\<lparr>bn_next := new_current\<rparr>))
         else if f = Some anchor_next then Inr (h(anchor \<mapsto> n\<lparr>bn_body := Branch new_current c\<rparr>))
         else Inl Panicked
     | _ \<Rightarrow> Inr (h(anchor \<mapsto> n\<lparr>bn_next := new_current\<rparr>)))"

fun delete_init_loop ::
  "'e memory \<Rightarrow> node_manager \<Rightarrow> node_ptr list \<Rightarrow> u64 \<Rightarrow> ('e memory \<times> node_manager \<times> node_ptr list) result"
where
  "delete_init_loop m nodes [] target_id = Inr (m, nodes, [])"
| "delete_init_loop m nodes (p # ps) target_id =
     rbind (deref (m_heap m) p) (\<lambda>n.
     if bn_id n = target_id then
       rbind (case bn_prev n of None \<Rightarrow> Inr (m_heap m) | Some prev \<Rightarrow> set_next_node (m_heap m) prev (bn_next n)) (\<lambda>h.
       rbind (set_prev_opt h (bn_next n) (bn_prev n)) (\<lambda>h.
       case free_node (m\<lparr>m_heap := h\<rparr>) nodes p of (m, nodes) \<Rightarrow> Inr (m, nodes, ps)))
     else
       rbind (delete_init_loop m nodes ps target_id) (\<lambda>(m, nodes, ps). Inr (m, nodes, p # ps)))"

definition delete_init_node :: "'e memory \<Rightarrow> 'e bdd \<Rightarrow> u64 \<Rightarrow> ('e memory \<times> 'e bdd) result" where
  "delete_init_node m B target_id =
     rbind (delete_init_loop m (bdd_manager B) (bdd_init B) target_id) (\<lambda>(m, nodes, init).
     Inr (m, B\<lparr>bdd_init := init, bdd_manager := nodes\<rparr>))"

text \<open>The static functions, on a node and a manager.\<close>

definition unlink_non_branch ::
  "'e memory \<Rightarrow> node_manager \<Rightarrow> node_ptr option \<Rightarrow> ('e memory \<times> node_manager \<times> node_ptr option) result"
where
  "unlink_non_branch m nodes target =
     rbind (require target) (\<lambda>anchor_next.
     rbind (deref (m_heap m) anchor_next) (\<lambda>n.
     assert_that (case bn_body n of Branch f c \<Rightarrow> False | _ \<Rightarrow> True)
       (rbind (require (bn_prev n)) (\<lambda>anchor.
        rbind (connect (m_heap m) anchor anchor_next (bn_next n)) (\<lambda>h.
        rbind (set_prev_opt h (bn_next n) (Some anchor)) (\<lambda>h.
        case free_node (m\<lparr>m_heap := h\<rparr>) nodes anchor_next of (m, nodes) \<Rightarrow>
          Inr (m, nodes, bn_next n)))))))"

datatype branch_deletion_action = KeepOnTrue | KeepOnFalse | DeleteBoth

definition free_side ::
  "'e memory \<Rightarrow> node_manager \<Rightarrow> node_ptr option \<Rightarrow> ('e memory \<times> node_manager) result option" where
  "free_side m nodes side =
     (case side of
        None \<Rightarrow> Some (Inl Undefined)
      | Some p \<Rightarrow>
          obind (recursive_free_children m nodes p) (\<lambda>(m, nodes). Some (Inr (free_node m nodes p))))"

definition free_sides ::
  "'e memory \<Rightarrow> node_manager \<Rightarrow> node_ptr option \<Rightarrow> node_ptr option \<Rightarrow> branch_deletion_action \<Rightarrow>
     ('e memory \<times> node_manager \<times> node_ptr option) result option"
where
  "free_sides m nodes on_true on_false action =
     (case action of
        KeepOnTrue \<Rightarrow>
          obind (free_side m nodes on_false) (\<lambda>(m, nodes). Some (Inr (m, nodes, on_true)))
      | KeepOnFalse \<Rightarrow>
          obind (free_side m nodes on_true) (\<lambda>(m, nodes). Some (Inr (m, nodes, on_false)))
      | DeleteBoth \<Rightarrow>
          (case (on_true, on_false) of
             (Some t, Some f) \<Rightarrow>
               obind (recursive_free_children m nodes f) (\<lambda>(m, nodes).
               obind (recursive_free_children m nodes t) (\<lambda>(m, nodes).
               case free_node m nodes t of (m, nodes) \<Rightarrow>
               case free_node m nodes f of (m, nodes) \<Rightarrow> Some (Inr (m, nodes, None))))
           | _ \<Rightarrow> Some (Inl Undefined)))"

definition unlink_branch ::
  "'e memory \<Rightarrow> node_manager \<Rightarrow> node_ptr option \<Rightarrow> branch_deletion_action \<Rightarrow>
     ('e memory \<times> node_manager \<times> node_ptr option) result option"
where
  "unlink_branch m nodes target action =
     obind (Some (require target)) (\<lambda>p.
     obind (Some (deref (m_heap m) p)) (\<lambda>n.
     case bn_body n of
       Branch f c \<Rightarrow>
         obind (Some (require (bn_prev n))) (\<lambda>anchor.
         obind (free_sides m nodes (bn_next n) f action) (\<lambda>(m, nodes, new_current).
         obind (Some (connect (m_heap m) anchor p new_current)) (\<lambda>h.
         obind (Some (set_prev_opt h new_current (Some anchor))) (\<lambda>h.
         case free_node (m\<lparr>m_heap := h\<rparr>) nodes p of (m, nodes) \<Rightarrow>
           Some (Inr (m, nodes, new_current))))))
     | _ \<Rightarrow> Some (Inl Assert_Failed)))"

definition delete_non_branch ::
  "'e memory \<Rightarrow> 'e bdd \<Rightarrow> u64 \<Rightarrow> ('e memory \<times> 'e bdd \<times> node_ptr option) result option" where
  "delete_non_branch m B target_id =
     obind (get_node_by_id (m_heap m) B target_id) (\<lambda>target.
     obind (Some (unlink_non_branch m (bdd_manager B) target)) (\<lambda>(m, nodes, new_current).
     Some (Inr (m, B\<lparr>bdd_manager := nodes\<rparr>, new_current))))"

definition delete_branch ::
  "'e memory \<Rightarrow> 'e bdd \<Rightarrow> u64 \<Rightarrow> branch_deletion_action \<Rightarrow> ('e memory \<times> 'e bdd \<times> node_ptr option) result option"
where
  "delete_branch m B target_id action =
     obind (get_node_by_id (m_heap m) B target_id) (\<lambda>target.
     obind (unlink_branch m (bdd_manager B) target action) (\<lambda>(m, nodes, new_current).
     Some (Inr (m, B\<lparr>bdd_manager := nodes\<rparr>, new_current))))"

text \<open>
  The walk from the root, past nodes that are no branches and branches that the constraints
  decide. \<open>decide\<close> is the solver: whether a condition is always true, always false or neither.
\<close>

partial_function (option) decided_loop ::
  "('e \<Rightarrow> bool option) \<Rightarrow> 'e bdd_heap \<Rightarrow> node_ptr option \<Rightarrow> node_ptr option \<Rightarrow> node_ptr option result option"
where
  "decided_loop decide h node target =
     (case node of
        None \<Rightarrow> Some (Inr target)
      | Some p \<Rightarrow>
          (case h p of
             None \<Rightarrow> Some (Inl Undefined)
           | Some n \<Rightarrow>
               (case bn_body n of
                  Branch f c \<Rightarrow>
                    (case decide c of
                       None \<Rightarrow> Some (Inr target)
                     | Some taken \<Rightarrow>
                         decided_loop decide h (if taken then bn_next n else f) (if taken then bn_next n else f))
                | _ \<Rightarrow> decided_loop decide h (bn_next n) target)))"

definition delete_constraints ::
  "('e \<Rightarrow> bool option) \<Rightarrow> 'e memory \<Rightarrow> 'e bdd \<Rightarrow> ('e memory \<times> 'e bdd \<times> node_ptr option) result option"
where
  "delete_constraints decide m B =
     obind (decided_loop decide (m_heap m) (bdd_root B) None) (\<lambda>target.
     if target = None then Some (Inr (m, B, None))
     else
       obind (Some (unlink_non_branch m (bdd_manager B) target)) (\<lambda>(m, nodes, new_current).
       Some (Inr (m, B\<lparr>bdd_manager := nodes\<rparr>, new_current))))"

section \<open>Adding\<close>

definition create_new_branch :: "'e memory \<Rightarrow> 'e bdd \<Rightarrow> 'e \<Rightarrow> 'e memory \<times> 'e bdd \<times> node_ptr" where
  "create_new_branch m B condition =
     (case new_node m \<lparr>bn_id = bdd_id B, bn_next = None, bn_prev = None, bn_body = Branch None condition\<rparr> of
        (m, p) \<Rightarrow> (m, B\<lparr>bdd_id := bdd_id B + 1, bdd_manager := add_node (bdd_manager B) p\<rparr>, p))"

definition create_new_call ::
  "'e memory \<Rightarrow> 'e bdd \<Rightarrow> 'e call_t \<Rightarrow> 'e symbol_t set \<Rightarrow> 'e memory \<times> 'e bdd \<times> node_ptr" where
  "create_new_call m B call generated_symbols =
     (case new_node m \<lparr>bn_id = bdd_id B, bn_next = None, bn_prev = None, bn_body = Call call generated_symbols\<rparr> of
        (m, p) \<Rightarrow> (m, B\<lparr>bdd_id := bdd_id B + 1, bdd_manager := add_node (bdd_manager B) p\<rparr>, p))"

text \<open>The node and the one before it, both looked up again by their identifiers.\<close>

definition find_anchor ::
  "'e bdd_heap \<Rightarrow> 'e bdd \<Rightarrow> u64 \<Rightarrow> (node_ptr option \<times> node_ptr option) result option"
where
  "find_anchor h B target_id =
     obind (get_node_by_id h B target_id) (\<lambda>current.
     obind (Some (rbind (require current) (deref h))) (\<lambda>n.
     obind (Some (rbind (require (bn_prev n)) (deref h))) (\<lambda>prev.
     obind (get_node_by_id h B (bn_id prev)) (\<lambda>anchor.
     obind (get_node_by_id h B (bn_id n)) (\<lambda>anchor_next.
     Some (Inr (anchor, anchor_next)))))))"

text \<open>\<open>new_current\<close> between the anchor and \<open>anchor_next\<close>.\<close>

definition splice ::
  "'e bdd_heap \<Rightarrow> node_ptr \<Rightarrow> node_ptr \<Rightarrow> node_ptr \<Rightarrow> 'e bdd_heap result"
where
  "splice h anchor anchor_next new_current =
     rbind (connect h anchor anchor_next (Some new_current)) (\<lambda>h.
     rbind (set_prev_node h new_current (Some anchor)) (\<lambda>h.
     rbind (set_next_node h new_current (Some anchor_next)) (\<lambda>h.
     set_prev_node h anchor_next (Some new_current))))"

fun clone_non_branches ::
  "'e memory \<Rightarrow> 'e bdd \<Rightarrow> node_ptr \<Rightarrow> node_ptr \<Rightarrow> node_ptr list \<Rightarrow>
     ('e memory \<times> 'e bdd) result option"
where
  "clone_non_branches m B anchor anchor_next [] = Some (Inr (m, B))"
| "clone_non_branches m B anchor anchor_next (p # ps) =
     obind (Some (deref (m_heap m) p)) (\<lambda>n.
     case bn_body n of
       Branch f c \<Rightarrow> Some (Inl Assert_Failed)
     | _ \<Rightarrow>
         obind (Some (clone_node m (bdd_manager B) p)) (\<lambda>(m, nodes, clone).
         obind (recursive_update_ids (m_heap m) (bdd_id B) clone) (\<lambda>(h, i).
         obind (Some (splice h anchor anchor_next clone)) (\<lambda>h.
         clone_non_branches (m\<lparr>m_heap := h\<rparr>) (B\<lparr>bdd_id := i, bdd_manager := nodes\<rparr>)
           clone anchor_next ps))))"

text \<open>The first clone is returned, which is the node in front of the target's old place.\<close>

definition add_cloned_non_branches ::
  "'e memory \<Rightarrow> 'e bdd \<Rightarrow> u64 \<Rightarrow> node_ptr list \<Rightarrow> ('e memory \<times> 'e bdd \<times> node_ptr option) result option"
where
  "add_cloned_non_branches m B target_id new_nodes =
     obind (get_node_by_id (m_heap m) B target_id) (\<lambda>current.
     obind (Some (require current)) (\<lambda>current.
     if new_nodes = [] then Some (Inr (m, B, None))
     else
       obind (find_anchor (m_heap m) B target_id) (\<lambda>(anchor, anchor_next).
       case (anchor, anchor_next) of
         (Some a, Some p) \<Rightarrow>
           obind (clone_non_branches m B a p new_nodes) (\<lambda>(m', B').
           Some (Inr (m', B', Some (m_fresh m))))
       | _ \<Rightarrow> Some (Inl Undefined))))"

definition add_cloned_branch ::
  "'e memory \<Rightarrow> 'e bdd \<Rightarrow> u64 \<Rightarrow> 'e \<Rightarrow> ('e memory \<times> 'e bdd \<times> node_ptr) result option"
where
  "add_cloned_branch m B target_id condition =
     obind (find_anchor (m_heap m) B target_id) (\<lambda>(anchor, anchor_next).
     case (anchor, anchor_next) of
       (Some a, Some p) \<Rightarrow>
         obind (clone_recursive m (bdd_manager B) p) (\<lambda>(m, nodes, on_false).
         case on_false of
           None \<Rightarrow> Some (Inl Undefined)
         | Some f \<Rightarrow>
             obind (recursive_update_ids (m_heap m) (bdd_id B) f) (\<lambda>(h, i).
             case create_new_branch (m\<lparr>m_heap := h\<rparr>) (B\<lparr>bdd_id := i, bdd_manager := nodes\<rparr>) condition of
               (m, B, b) \<Rightarrow>
                 obind (Some
                   (rbind (deref (m_heap m) b) (\<lambda>n.
                    let h = (m_heap m)(b \<mapsto> n\<lparr>bn_next := Some p, bn_body := Branch (Some f) condition\<rparr>) in
                    rbind (set_prev_node h p (Some b)) (\<lambda>h.
                    rbind (set_prev_node h f (Some b)) (\<lambda>h.
                    rbind (connect h a p (Some b)) (\<lambda>h.
                    set_prev_node h b (Some a))))))) (\<lambda>h.
                 Some (Inr (m\<lparr>m_heap := h\<rparr>, B, b)))))
     | _ \<Rightarrow> Some (Inl Undefined))"

text \<open>The call has a name and nothing else; \<open>null\<close> is the null expression.\<close>

definition add_new_symbol_generator_function ::
  "'e \<Rightarrow> 'e memory \<Rightarrow> 'e bdd \<Rightarrow> u64 \<Rightarrow> string \<Rightarrow> 'e symbol_t set \<Rightarrow>
     ('e memory \<times> 'e bdd \<times> node_ptr) result option"
where
  "add_new_symbol_generator_function null m B target_id fn_name symbols =
     obind (get_node_by_id (m_heap m) B target_id) (\<lambda>current.
     obind (Some (rbind (require current) (deref (m_heap m)))) (\<lambda>n.
     obind (Some (rbind (require (bn_prev n)) (deref (m_heap m)))) (\<lambda>prev.
     case create_new_call m B
         \<lparr>function_name = fn_name, extra_vars = [], call_args = [], call_ret = null\<rparr> symbols of
       (m, B, c) \<Rightarrow>
         obind (get_node_by_id (m_heap m) B (bn_id prev)) (\<lambda>anchor.
         obind (get_node_by_id (m_heap m) B (bn_id n)) (\<lambda>anchor_next.
         case (anchor, anchor_next) of
           (Some a, Some p) \<Rightarrow>
             obind (Some (splice (m_heap m) a p c)) (\<lambda>h. Some (Inr (m\<lparr>m_heap := h\<rparr>, B, c)))
         | _ \<Rightarrow> Some (Inl Undefined))))))"

section \<open>Inspecting\<close>

datatype inspection_status =
    Inspected_Ok | MissingRootNode | HasNullNode | BranchWithoutChildren | BrokenLink | MissingSymbol
  | DanglingInitNode | HasCycle | UnmanagedNode

fun inspect_init :: "'e bdd_heap \<Rightarrow> node_ptr list \<Rightarrow> inspection_status result" where
  "inspect_init h (p # q # ps) =
     rbind (deref h p) (\<lambda>n.
     case bn_next n of
       None \<Rightarrow> Inr DanglingInitNode
     | Some next \<Rightarrow>
         rbind (deref h next) (\<lambda>m.
         if bn_prev m \<noteq> Some p then Inr BrokenLink else inspect_init h (q # ps)))"
| "inspect_init h ps = Inr Inspected_Ok"

definition link_broken :: "'e bdd_heap \<Rightarrow> node_ptr \<Rightarrow> node_ptr \<Rightarrow> bool result" where
  "link_broken h p child = rbind (deref h child) (\<lambda>n. Inr (bn_prev n \<noteq> Some p))"

definition inspect_links ::
  "'e bdd_heap \<Rightarrow> node_ptr \<Rightarrow> 'e bdd_node \<Rightarrow> (visit_action \<times> inspection_status) result"
where
  "inspect_links h p n =
     (case bn_body n of
        Branch f c \<Rightarrow>
          (case (bn_next n, f) of
             (Some t, Some f) \<Rightarrow>
               rbind (link_broken h p t) (\<lambda>bad.
               if bad then Inr (Stop, BrokenLink)
               else
                 rbind (link_broken h p f) (\<lambda>bad.
                 Inr (if bad then (Stop, BrokenLink) else (Continue, Inspected_Ok))))
           | _ \<Rightarrow> Inr (Stop, BranchWithoutChildren))
      | _ \<Rightarrow>
          (case bn_next n of
             None \<Rightarrow> Inr (Continue, Inspected_Ok)
           | Some t \<Rightarrow>
               rbind (link_broken h p t) (\<lambda>bad.
               Inr (if bad then (Stop, BrokenLink) else (Continue, Inspected_Ok)))))"

definition symbols_always_known :: "string set" where
  "symbols_always_known = {''DEVICE'', ''pkt_len'', ''next_time'', ''packet_chunks''}"

text \<open>
  The body of the visit. \<open>used\<close> gives the names of the symbols in the expressions of a node; the
  walk up that collects the available ones is \<^verbatim>\<open>get_prev_symbols\<close>, which may not return: then
  the visit fails with an error here.
\<close>

definition inspect_node ::
  "('e bdd_body \<Rightarrow> string set) \<Rightarrow> 'e bdd_heap \<Rightarrow> node_manager \<Rightarrow> node_ptr \<Rightarrow> 'e bdd_node \<Rightarrow>
     inspection_status \<times> node_ptr set \<Rightarrow> (visit_action \<times> inspection_status \<times> node_ptr set) result"
where
  "inspect_node used h nodes p n s =
     (case s of (report, visited) \<Rightarrow>
      if \<not> has_node nodes p then Inr (Stop, UnmanagedNode, visited)
      else if p \<in> visited then Inr (Stop, HasCycle, visited)
      else
        (case get_prev_symbols h n {} of
           None \<Rightarrow> Inl Undefined
         | Some (Inl e) \<Rightarrow> Inl e
         | Some (Inr available) \<Rightarrow>
             if used (bn_body n) - symbols_always_known \<subseteq> sy_name ` available
             then rbind (inspect_links h p n) (\<lambda>(a, status). Inr (a, status, insert p visited))
             else Inr (Stop, MissingSymbol, insert p visited)))"

definition inspect ::
  "('e bdd_body \<Rightarrow> string set) \<Rightarrow> 'e bdd_heap \<Rightarrow> 'e bdd \<Rightarrow> inspection_status result option"
where
  "inspect used h B =
     (case bdd_root B of
        None \<Rightarrow> Some (Inr MissingRootNode)
      | Some r \<Rightarrow>
          obind (Some (inspect_init h (bdd_init B))) (\<lambda>status.
          if status \<noteq> Inspected_Ok then Some (Inr status)
          else
            obind (visit h (inspect_node used h (bdd_manager B)) r (Inspected_Ok, {})) (\<lambda>(report, visited).
            Some (Inr report))))"

section \<open>Comparing\<close>

text \<open>One round: \<open>None\<close> when the two nodes differ, or the links that are compared next.\<close>

definition compare_nodes ::
  "('e \<Rightarrow> 'e \<Rightarrow> bool) \<Rightarrow> 'e bdd_heap \<Rightarrow> node_ptr option \<Rightarrow> node_ptr option \<Rightarrow>
     (node_ptr option list \<times> node_ptr option list) option result"
where
  "compare_nodes eq h q0 q1 =
     rbind (deref_opt h q0) (\<lambda>n0.
     if q1 = None then Inr None
     else
       rbind (deref_opt h q1) (\<lambda>n1.
       if \<not> node_equals eq n0 n1 then Inr None
       else if (bn_next n0 = None) \<noteq> (bn_next n1 = None) then Inr None
       else
         Inr (case (bn_body n0, bn_body n1) of
                (Branch f0 c0, Branch f1 c1) \<Rightarrow>
                  if (f0 = None) \<noteq> (f1 = None) then None
                  else Some ([bn_next n0, f0], [bn_next n1, f1])
              | _ \<Rightarrow> if bn_next n0 = None then Some ([], []) else Some ([bn_next n0], [bn_next n1]))))"

partial_function (option) subtrees_equal_loop ::
  "('e \<Rightarrow> 'e \<Rightarrow> bool) \<Rightarrow> 'e bdd_heap \<Rightarrow> node_ptr option list \<Rightarrow> node_ptr option list \<Rightarrow> bool result option"
where
  "subtrees_equal_loop eq h n0_nodes n1_nodes =
     (case n0_nodes of
        [] \<Rightarrow> Some (Inr True)
      | q0 # rest0 \<Rightarrow>
          (case n1_nodes of
             [] \<Rightarrow> Some (Inl Undefined)
           | q1 # rest1 \<Rightarrow>
               (case compare_nodes eq h q0 q1 of
                  Inl e \<Rightarrow> Some (Inl e)
                | Inr None \<Rightarrow> Some (Inr False)
                | Inr (Some (links0, links1)) \<Rightarrow>
                    subtrees_equal_loop eq h (rest0 @ links0) (rest1 @ links1))))"

definition are_subtrees_equal ::
  "('e \<Rightarrow> 'e \<Rightarrow> bool) \<Rightarrow> 'e bdd_heap \<Rightarrow> node_ptr option \<Rightarrow> node_ptr option \<Rightarrow> bool result option" where
  "are_subtrees_equal eq h n0 n1 = subtrees_equal_loop eq h [n0] [n1]"

end
