(* ===== verification/BDDTrees.thy ===== *)
theory BDDTrees
  imports BDDGraph
begin

text \<open>
  Diagrams as trees: which tree a heap holds below a node, how replacing a subtree in the heap
  replaces it in the tree, and what visiting, cloning, renumbering and freeing do to trees. From
  this the partial functions of the model are shown to return.
\<close>

section \<open>Trees\<close>

datatype 'e bdd_stmt = SCall "'e call_t" "'e symbol_t set" | SRoute route_op 'e

datatype ('a, 'e) bdd_tree =
    Empty
  | Stmt 'a u64 "'e bdd_stmt" "('a, 'e) bdd_tree"
  | Cond 'a u64 'e "('a, 'e) bdd_tree" "('a, 'e) bdd_tree"

fun stmt_body :: "'e bdd_stmt \<Rightarrow> 'e bdd_body" where
  "stmt_body (SCall c s) = Call c s"
| "stmt_body (SRoute op dst) = Route op dst"

fun root_of :: "('a, 'e) bdd_tree \<Rightarrow> 'a option" where
  "root_of Empty = None"
| "root_of (Stmt p i s u) = Some p"
| "root_of (Cond p i c u v) = Some p"

fun addrs :: "('a, 'e) bdd_tree \<Rightarrow> 'a list" where
  "addrs Empty = []"
| "addrs (Stmt p i s u) = p # addrs u"
| "addrs (Cond p i c u v) = p # addrs u @ addrs v"

fun node_ids :: "('a, 'e) bdd_tree \<Rightarrow> u64 list" where
  "node_ids Empty = []"
| "node_ids (Stmt p i s u) = i # node_ids u"
| "node_ids (Cond p i c u v) = i # node_ids u @ node_ids v"

fun node_of :: "node_ptr option \<Rightarrow> (node_ptr, 'e) bdd_tree \<Rightarrow> 'e bdd_node" where
  "node_of prev (Stmt p i s u) = \<lparr>bn_id = i, bn_next = root_of u, bn_prev = prev, bn_body = stmt_body s\<rparr>"
| "node_of prev (Cond p i c u v) =
     \<lparr>bn_id = i, bn_next = root_of u, bn_prev = prev, bn_body = Branch (root_of v) c\<rparr>"

fun in_heap :: "'e bdd_heap \<Rightarrow> node_ptr option \<Rightarrow> (node_ptr, 'e) bdd_tree \<Rightarrow> bool" where
  "in_heap h prev Empty \<longleftrightarrow> True"
| "in_heap h prev (Stmt p i s u) \<longleftrightarrow> h p = Some (node_of prev (Stmt p i s u)) \<and> in_heap h (Some p) u"
| "in_heap h prev (Cond p i c u v) \<longleftrightarrow>
     h p = Some (node_of prev (Cond p i c u v)) \<and> in_heap h (Some p) u \<and> in_heap h (Some p) v"

text \<open>What a diagram does: the calls and routes on the path that a valuation of the conditions takes.\<close>

fun exec :: "('e \<Rightarrow> bool) \<Rightarrow> ('a, 'e) bdd_tree \<Rightarrow> 'e bdd_stmt list" where
  "exec val Empty = []"
| "exec val (Stmt p i s u) = s # exec val u"
| "exec val (Cond p i c u v) = (if val c then exec val u else exec val v)"

abbreviation erase :: "('a, 'e) bdd_tree \<Rightarrow> (unit, 'e) bdd_tree" where
  "erase \<equiv> map_bdd_tree (\<lambda>_. ())"

text \<open>Numbering the nodes from \<open>k\<close> on, a node before the ones below it.\<close>

fun relabel :: "u64 \<Rightarrow> ('a, 'e) bdd_tree \<Rightarrow> ('a, 'e) bdd_tree" where
  "relabel k Empty = Empty"
| "relabel k (Stmt p i s u) = Stmt p k s (relabel (k + 1) u)"
| "relabel k (Cond p i c u v) =
     Cond p k c (relabel (k + 1) u) (relabel (k + 1 + of_nat (length (addrs u))) v)"

text \<open>The subtree at an identifier, what is above it, and another tree in its place.\<close>

fun sub :: "u64 \<Rightarrow> ('a, 'e) bdd_tree \<Rightarrow> ('a, 'e) bdd_tree" where
  "sub i Empty = Empty"
| "sub i (Stmt p j s u) = (if j = i then Stmt p j s u else sub i u)"
| "sub i (Cond p j c u v) =
     (if j = i then Cond p j c u v else if i \<in> set (node_ids u) then sub i u else sub i v)"

fun parent :: "'a option \<Rightarrow> u64 \<Rightarrow> ('a, 'e) bdd_tree \<Rightarrow> 'a option" where
  "parent prev i Empty = None"
| "parent prev i (Stmt p j s u) = (if j = i then prev else parent (Some p) i u)"
| "parent prev i (Cond p j c u v) =
     (if j = i then prev
      else if i \<in> set (node_ids u) then parent (Some p) i u else parent (Some p) i v)"

fun put :: "u64 \<Rightarrow> ('a, 'e) bdd_tree \<Rightarrow> ('a, 'e) bdd_tree \<Rightarrow> ('a, 'e) bdd_tree" where
  "put i r Empty = Empty"
| "put i r (Stmt p j s u) = (if j = i then r else Stmt p j s (put i r u))"
| "put i r (Cond p j c u v) =
     (if j = i then r
      else if i \<in> set (node_ids u) then Cond p j c (put i r u) v else Cond p j c u (put i r v))"

lemma root_of_None [simp]: "root_of t = None \<longleftrightarrow> t = Empty"
  by (cases t) simp_all

lemma root_of_addrs: "root_of t = Some p \<Longrightarrow> p \<in> set (addrs t)"
  by (cases t) simp_all

lemma erase_ids [simp]: "node_ids (erase t) = node_ids t" "length (addrs (erase t)) = length (addrs t)"
  by (induction t) simp_all

lemma erase_simps [simp]:
  "exec val (erase t) = exec val t" "erase (relabel k t) = relabel k (erase t)"
  "erase (sub i t) = sub i (erase t)" "erase (put i r t) = put i (erase r) (erase t)"
  by (induction t arbitrary: k) simp_all

lemma relabel_simps [simp]:
  "addrs (relabel k t) = addrs t" "root_of (relabel k t) = root_of t" "exec val (relabel k t) = exec val t"
  "relabel k t = Empty \<longleftrightarrow> t = Empty"
  by (induction t arbitrary: k) auto

lemma node_ids_relabel: "node_ids (relabel k t) = map (\<lambda>j. k + of_nat j) [0..<length (addrs t)]"
proof (induction t arbitrary: k)
  case (Stmt p i s u)
  have "[0..<Suc (length (addrs u))] = 0 # map Suc [0..<length (addrs u)]" by (simp only: map_Suc_upt) (simp add: upt_rec)
  with Stmt show ?case by (simp add: comp_def ac_simps del: upt_Suc)
next
  case (Cond p i c u v)
  let ?a = "length (addrs u)" and ?b = "length (addrs v)"
  have "[0..<Suc (?a + ?b)] = 0 # map Suc [0..<?a + ?b]" by (simp only: map_Suc_upt) (simp add: upt_rec)
  also have "[0..<?a + ?b] = [0..<?a] @ map (\<lambda>j. ?a + j) [0..<?b]"
    using map_add_upt [of ?a ?b] by (simp add: upt_add_eq_append [of 0 ?a ?b, simplified] add.commute)
  finally show ?case using Cond by (simp add: comp_def ac_simps del: upt_Suc)
qed simp

lemma length_node_ids [simp]: "length (node_ids t) = length (addrs t)"
  by (induction t) simp_all

section \<open>Replacing a subtree\<close>

lemma sub_ids:
  assumes "i \<in> set (node_ids t)"
  shows "sub i t \<noteq> Empty" "i \<in> set (node_ids (sub i t))"
  using assms by (induction t) auto

text \<open>Addresses and identifiers of the tree around the subtree stay what they are.\<close>

lemma put_split:
  assumes "i \<in> set (node_ids t)"
  obtains A B A' B' where "addrs t = A @ addrs (sub i t) @ B" "node_ids t = A' @ node_ids (sub i t) @ B'"
    "\<And>r. addrs (put i r t) = A @ addrs r @ B" "\<And>r. node_ids (put i r t) = A' @ node_ids r @ B'"
proof -
  have "\<exists>A B A' B'. addrs t = A @ addrs (sub i t) @ B \<and> node_ids t = A' @ node_ids (sub i t) @ B' \<and>
    (\<forall>r. addrs (put i r t) = A @ addrs r @ B) \<and> (\<forall>r. node_ids (put i r t) = A' @ node_ids r @ B')"
    using assms
  proof (induction t)
    case (Stmt p j s u)
    show ?case
    proof (cases "j = i")
      case True
      then show ?thesis by (intro exI [of _ "[]"]) simp
    next
      case False
      with Stmt obtain A B A' B' where "addrs u = A @ addrs (sub i u) @ B"
        "node_ids u = A' @ node_ids (sub i u) @ B'" "\<forall>r. addrs (put i r u) = A @ addrs r @ B"
        "\<forall>r. node_ids (put i r u) = A' @ node_ids r @ B'" by auto
      with False show ?thesis
        by (intro exI [of _ "p # A"] exI [of _ B] exI [of _ "j # A'"] exI [of _ B']) simp
    qed
  next
    case (Cond p j c u v)
    consider "j = i" | "j \<noteq> i" "i \<in> set (node_ids u)" | "j \<noteq> i" "i \<notin> set (node_ids u)" "i \<in> set (node_ids v)"
      using Cond.prems by auto
    then show ?case
    proof cases
      case 1
      then show ?thesis by (intro exI [of _ "[]"]) simp
    next
      case 2
      with Cond.IH(1) obtain A B A' B' where "addrs u = A @ addrs (sub i u) @ B"
        "node_ids u = A' @ node_ids (sub i u) @ B'" "\<forall>r. addrs (put i r u) = A @ addrs r @ B"
        "\<forall>r. node_ids (put i r u) = A' @ node_ids r @ B'" by blast
      with 2 show ?thesis
        by (intro exI [of _ "p # A"] exI [of _ "B @ addrs v"] exI [of _ "j # A'"] exI [of _ "B' @ node_ids v"]) simp
    next
      case 3
      with Cond.IH(2) obtain A B A' B' where "addrs v = A @ addrs (sub i v) @ B"
        "node_ids v = A' @ node_ids (sub i v) @ B'" "\<forall>r. addrs (put i r v) = A @ addrs r @ B"
        "\<forall>r. node_ids (put i r v) = A' @ node_ids r @ B'" by blast
      with 3 show ?thesis
        by (intro exI [of _ "p # addrs u @ A"] exI [of _ B] exI [of _ "j # node_ids u @ A'"] exI [of _ B']) simp
    qed
  qed simp
  then show thesis using that by blast
qed

lemma sub_addrs: "i \<in> set (node_ids t) \<Longrightarrow> set (addrs (sub i t)) \<subseteq> set (addrs t)"
  by (rule put_split [of i t]) auto

lemma in_heap_cong:
  assumes "\<And>a. a \<in> set (addrs t) \<Longrightarrow> h' a = h a"
  shows "in_heap h' prev t \<longleftrightarrow> in_heap h prev t"
  using assms by (induction t arbitrary: prev) auto

lemma in_heap_reprev:
  assumes "in_heap h prev t" "distinct (addrs t)" "root_of t = Some p" "h p = Some n"
    and "h' p = Some (n\<lparr>bn_prev := q\<rparr>)" "\<And>a. a \<in> set (addrs t) - {p} \<Longrightarrow> h' a = h a"
  shows "in_heap h' q t"
proof (cases t)
  case (Stmt p' i s u)
  with assms have "in_heap h' (Some p) u = in_heap h (Some p) u" by (intro in_heap_cong) auto
  with assms Stmt show ?thesis by auto
next
  case (Cond p' i c u v)
  with assms have "in_heap h' (Some p) u = in_heap h (Some p) u" "in_heap h' (Some p) v = in_heap h (Some p) v"
    by (intro in_heap_cong; auto)+
  with assms Cond show ?thesis by auto
qed simp

lemma in_heap_sub:
  assumes "in_heap h prev t" "i \<in> set (node_ids t)"
  shows "in_heap h (parent prev i t) (sub i t)"
  using assms by (induction t arbitrary: prev) auto

lemma parent_addrs: "i \<in> set (node_ids t) \<Longrightarrow> parent prev i t \<in> insert prev (Some ` set (addrs t))"
  by (induction t arbitrary: prev) auto

text \<open>The parent is above the subtree, and no part of it.\<close>

lemma parent_not_sub:
  assumes "i \<in> set (node_ids t)" "distinct (addrs t)" "prev \<notin> Some ` set (addrs t)"
  shows "parent prev i t \<notin> Some ` set (addrs (sub i t))"
  using assms
proof (induction t arbitrary: prev)
  case (Cond p j c u v)
  have p: "Some p \<notin> Some ` set (addrs u)" "Some p \<notin> Some ` set (addrs v)" using Cond.prems(2) by auto
  consider "j = i" | "j \<noteq> i" "i \<in> set (node_ids u)" | "j \<noteq> i" "i \<notin> set (node_ids u)" "i \<in> set (node_ids v)"
    using Cond.prems(1) by auto
  then show ?case
  proof cases
    case 1
    with Cond.prems(3) show ?thesis by simp
  next
    case 2
    with Cond.IH(1) [OF 2(2) _ p(1)] Cond.prems(2) show ?thesis by simp
  next
    case 3
    with Cond.IH(2) [OF 3(3) _ p(2)] Cond.prems(2) show ?thesis by simp
  qed
qed auto

text \<open>What \<open>connect\<close> makes of the anchor.\<close>

definition redirect :: "node_ptr option \<Rightarrow> node_ptr option \<Rightarrow> 'e bdd_node \<Rightarrow> 'e bdd_node" where
  "redirect q r n =
     (case bn_body n of
        Branch f c \<Rightarrow> if bn_next n = q then n\<lparr>bn_next := r\<rparr> else n\<lparr>bn_body := Branch r c\<rparr>
      | _ \<Rightarrow> n\<lparr>bn_next := r\<rparr>)"

lemma redirect_stmt [simp]:
  "bn_body n = stmt_body s \<Longrightarrow> redirect q r n = n\<lparr>bn_next := r\<rparr>"
  by (cases s) (simp_all add: redirect_def)

lemma put_root:
  assumes "i \<in> set (node_ids t)" "parent prev i t = prev" "prev \<notin> Some ` set (addrs t)"
  shows "sub i t = t" "put i r t = r"
proof -
  have "sub i t = t \<and> put i r t = r"
  proof (cases t)
    case (Stmt p j s u)
    with assms parent_addrs [of i u "Some p"] show ?thesis by (auto split: if_splits)
  next
    case (Cond p j c u v)
    with assms parent_addrs [of i u "Some p"] parent_addrs [of i v "Some p"] show ?thesis
      by (auto split: if_splits)
  qed (use assms in simp)
  then show "sub i t = t" "put i r t = r" by simp_all
qed

lemma put_below:
  assumes "parent prev i t \<noteq> prev"
  shows "root_of (put i r t) = root_of t"
  using assms by (cases t) auto

lemma root_links_differ:
  assumes "set (addrs u) \<inter> set (addrs v) = {}" "i \<in> set (node_ids v)"
  shows "root_of u \<noteq> root_of v"
  using assms root_of_addrs [of u] by (cases v) auto

lemma in_heap_put:
  assumes "in_heap h prev t" "distinct (addrs t)" "i \<in> set (node_ids t)" "prev \<notin> Some ` set (addrs t)"
    and "in_heap h' (parent prev i t) r"
    and "\<And>x. x \<in> set (addrs t) - set (addrs (sub i t)) \<Longrightarrow> parent prev i t \<noteq> Some x \<Longrightarrow> h' x = h x"
    and "\<And>a. parent prev i t = Some a \<Longrightarrow> a \<in> set (addrs t) \<Longrightarrow>
      h' a = map_option (redirect (root_of (sub i t)) (root_of r)) (h a)"
  shows "in_heap h' prev (put i r t)"
  using assms
proof (induction t arbitrary: prev)
  case (Stmt p j s u)
  show ?case
  proof (cases "j = i")
    case False
    have i: "i \<in> set (node_ids u)" and p: "Some p \<notin> Some ` set (addrs u)" "distinct (addrs u)"
      using Stmt.prems(2,3) False by auto
    have psub: "p \<notin> set (addrs (sub i u))" using sub_addrs [OF i] p by auto
    have "in_heap h' (Some p) (put i r u)"
    proof (rule Stmt.IH [OF _ p(2) i p(1)])
      show "in_heap h (Some p) u" "in_heap h' (parent (Some p) i u) r" using Stmt.prems(1,5) False by simp_all
      show "h' x = h x" if "x \<in> set (addrs u) - set (addrs (sub i u))" "parent (Some p) i u \<noteq> Some x" for x
        using that Stmt.prems(6) [of x] False by simp
      show "h' a = map_option (redirect (root_of (sub i u)) (root_of r)) (h a)"
        if "parent (Some p) i u = Some a" "a \<in> set (addrs u)" for a
        using that Stmt.prems(7) [of a] False by simp
    qed
    moreover have "h' p = Some (node_of prev (Stmt p j s (put i r u)))"
    proof (cases "parent (Some p) i u = Some p")
      case True
      from put_root [OF i True p(1)] True Stmt.prems(1,7) False show ?thesis by simp
    next
      case below: False
      from put_below [OF below] below Stmt.prems(1,6) psub False show ?thesis by simp
    qed
    ultimately show ?thesis using False by simp
  qed (use Stmt.prems in simp)
next
  case (Cond p j c u v)
  have pu: "Some p \<notin> Some ` set (addrs u)" "distinct (addrs u)" and pv: "Some p \<notin> Some ` set (addrs v)" "distinct (addrs v)"
    and uv: "set (addrs u) \<inter> set (addrs v) = {}" using Cond.prems(2) by auto
  consider "j = i" | "j \<noteq> i" "i \<in> set (node_ids u)" | "j \<noteq> i" "i \<notin> set (node_ids u)" "i \<in> set (node_ids v)"
    using Cond.prems(3) by auto
  then show ?case
  proof cases
    case 1
    then show ?thesis using Cond.prems by simp
  next
    case 2
    have psub: "p \<notin> set (addrs (sub i u))" using sub_addrs [OF 2(2)] pu by auto
    have "in_heap h' (Some p) (put i r u)"
    proof (rule Cond.IH(1) [OF _ pu(2) 2(2) pu(1)])
      show "in_heap h (Some p) u" "in_heap h' (parent (Some p) i u) r" using Cond.prems(1,5) 2 by simp_all
      show "h' x = h x" if "x \<in> set (addrs u) - set (addrs (sub i u))" "parent (Some p) i u \<noteq> Some x" for x
        using that Cond.prems(6) [of x] 2 by simp
      show "h' a = map_option (redirect (root_of (sub i u)) (root_of r)) (h a)"
        if "parent (Some p) i u = Some a" "a \<in> set (addrs u)" for a
        using that Cond.prems(7) [of a] 2 by simp
    qed
    moreover have "in_heap h' (Some p) v = in_heap h (Some p) v"
    proof (rule in_heap_cong)
      fix x assume x: "x \<in> set (addrs v)"
      then have "x \<notin> set (addrs (sub i u))" "parent (Some p) i u \<noteq> Some x"
        using uv pv(1) sub_addrs [OF 2(2)] parent_addrs [OF 2(2), of "Some p"] by auto
      with x Cond.prems(6) [of x] 2 show "h' x = h x" by simp
    qed
    moreover have "h' p = Some (node_of prev (Cond p j c (put i r u) v))"
    proof (cases "parent (Some p) i u = Some p")
      case True
      from put_root [OF 2(2) True pu(1)] True Cond.prems(1,7) 2 show ?thesis by (simp add: redirect_def)
    next
      case below: False
      from put_below [OF below] below Cond.prems(1,6) psub 2 show ?thesis by simp
    qed
    ultimately show ?thesis using Cond.prems(1) 2 by simp
  next
    case 3
    have psub: "p \<notin> set (addrs (sub i v))" using sub_addrs [OF 3(3)] pv by auto
    have "in_heap h' (Some p) (put i r v)"
    proof (rule Cond.IH(2) [OF _ pv(2) 3(3) pv(1)])
      show "in_heap h (Some p) v" "in_heap h' (parent (Some p) i v) r" using Cond.prems(1,5) 3 by simp_all
      show "h' x = h x" if "x \<in> set (addrs v) - set (addrs (sub i v))" "parent (Some p) i v \<noteq> Some x" for x
        using that Cond.prems(6) [of x] 3 by simp
      show "h' a = map_option (redirect (root_of (sub i v)) (root_of r)) (h a)"
        if "parent (Some p) i v = Some a" "a \<in> set (addrs v)" for a
        using that Cond.prems(7) [of a] 3 by simp
    qed
    moreover have "in_heap h' (Some p) u = in_heap h (Some p) u"
    proof (rule in_heap_cong)
      fix x assume x: "x \<in> set (addrs u)"
      then have "x \<notin> set (addrs (sub i v))" "parent (Some p) i v \<noteq> Some x"
        using uv pu(1) sub_addrs [OF 3(3)] parent_addrs [OF 3(3), of "Some p"] by auto
      with x Cond.prems(6) [of x] 3 show "h' x = h x" by simp
    qed
    moreover have "h' p = Some (node_of prev (Cond p j c u (put i r v)))"
    proof (cases "parent (Some p) i v = Some p")
      case True
      have "root_of u \<noteq> root_of v" by (rule root_links_differ [OF uv 3(3)])
      with put_root [OF 3(3) True pv(1)] True Cond.prems(1,7) 3 show ?thesis by (simp add: redirect_def)
    next
      case below: False
      from put_below [OF below] below Cond.prems(1,6) psub 3 show ?thesis by simp
    qed
    ultimately show ?thesis using Cond.prems(1) 3 by simp
  qed
qed simp

text \<open>The anchor links to the subtree, so \<open>connect\<close> does not fail.\<close>

lemma connect_anchor:
  assumes "in_heap h prev t" "distinct (addrs t)" "i \<in> set (node_ids t)" "prev \<notin> Some ` set (addrs t)"
    and "parent prev i t = Some a" "a \<in> set (addrs t)" "root_of (sub i t) = Some p"
  shows "\<exists>n. h a = Some n \<and> connect h a p q = Inr (h(a \<mapsto> redirect (Some p) q n))"
  using assms
proof (induction t arbitrary: prev)
  case (Stmt b j s u)
  show ?case
  proof (cases "parent (Some b) i u = Some b")
    case True
    then have "a = b" using Stmt.prems by (auto split: if_splits)
    with Stmt.prems show ?thesis by (cases s) (auto simp: connect_def deref_def redirect_def)
  next
    case False
    then have "j \<noteq> i" "a \<noteq> b" using Stmt.prems by (auto split: if_splits)
    with Stmt show ?thesis by (auto simp: image_iff)
  qed
next
  case (Cond b j c u v)
  have i: "j \<noteq> i" using Cond.prems(4-6) by auto
  have uv: "set (addrs u) \<inter> set (addrs v) = {}" and b: "Some b \<notin> Some ` set (addrs u)" "Some b \<notin> Some ` set (addrs v)"
    using Cond.prems(2) by auto
  show ?case
  proof (cases "i \<in> set (node_ids u)")
    case True
    show ?thesis
    proof (cases "a = b")
      case here: True
      from put_root(1) [OF True _ b(1)] here Cond.prems True i show ?thesis
        by (auto simp: connect_def deref_def redirect_def)
    next
      case False
      then have "a \<in> set (addrs u)" using parent_addrs [OF True, of "Some b"] Cond.prems(5) True i by auto
      with Cond.IH(1) [of "Some b"] Cond.prems True i b(1) show ?thesis by auto
    qed
  next
    case False
    then have iv: "i \<in> set (node_ids v)" using Cond.prems(3) i by auto
    show ?thesis
    proof (cases "a = b")
      case here: True
      have "root_of u \<noteq> root_of v" by (rule root_links_differ [OF uv iv])
      with put_root(1) [OF iv _ b(2)] here Cond.prems False i show ?thesis
        by (auto simp: connect_def deref_def redirect_def)
    next
      case no: False
      then have "a \<in> set (addrs v)" using parent_addrs [OF iv, of "Some b"] Cond.prems(5) False i by auto
      with Cond.IH(2) [of "Some b"] Cond.prems False i iv b(2) show ?thesis by auto
    qed
  qed
qed simp

end
