(* ===== verification/BDDTraversal.thy ===== *)
theory BDDTraversal
  imports BDDTrees
begin

text \<open>
  What the traversals do to a tree in the heap: visits return, and find a node by its identifier;
  cloning builds a disjoint copy; renumbering and freeing reach exactly the nodes of the tree.
\<close>

section \<open>Visits\<close>

fun subtrees :: "('a, 'e) bdd_tree \<Rightarrow> ('a, 'e) bdd_tree list" where
  "subtrees Empty = []"
| "subtrees (Stmt p i s u) = filter (\<lambda>t. t \<noteq> Empty) [u]"
| "subtrees (Cond p i c u v) = filter (\<lambda>t. t \<noteq> Empty) [u, v]"

lemma children_node_of:
  "t \<noteq> Empty \<Longrightarrow> children (node_of prev t) = map (\<lambda>u. the (root_of u)) (subtrees t)"
proof (cases t)
  case (Stmt p i s u)
  then show ?thesis by (cases s; cases u) (simp_all add: children_def link_list_def)
next
  case (Cond p i c u v)
  then show ?thesis by (cases u; cases v) (simp_all add: children_def link_list_def)
qed simp

lemma subtrees_in_heap:
  assumes "in_heap h prev t" "u \<in> set (subtrees t)"
  shows "in_heap h (root_of t) u \<and> u \<noteq> Empty"
proof (cases t)
  case (Stmt p i s v)
  then have "u = v" "u \<noteq> Empty" using assms(2) by (simp_all split: if_splits)
  with assms(1) Stmt show ?thesis by simp
next
  case (Cond p i c v w)
  then have "u = v \<or> u = w" "u \<noteq> Empty" using assms(2) by (auto split: if_splits)
  with assms(1) Cond show ?thesis by auto
qed (use assms in simp)

lemma in_heap_root: "in_heap h prev t \<Longrightarrow> t \<noteq> Empty \<Longrightarrow> h (the (root_of t)) = Some (node_of prev t)"
  by (cases t) simp_all

text \<open>The same visit over a queue of trees, each with the link above it and its cookie.\<close>

function visit_trees ::
  "(node_ptr \<Rightarrow> 'e bdd_node \<Rightarrow> 'k \<Rightarrow> 's \<Rightarrow> (visit_action \<times> 'k \<times> 's) result) \<Rightarrow>
     (node_ptr option \<times> (node_ptr, 'e) bdd_tree \<times> 'k) list \<Rightarrow> 's \<Rightarrow> 's result"
where
  "visit_trees fn [] s = Inr s"
| "visit_trees fn ((prev, t, k) # q) s =
     (case fn (the (root_of t)) (node_of prev t) k s of
        Inl e \<Rightarrow> Inl e
      | Inr (action, k', s') \<Rightarrow>
          if action = Stop then Inr s'
          else
            visit_trees fn
              (q @ (if action = SkipChildren then [] else map (\<lambda>u. (root_of t, u, k')) (subtrees t))) s')"
  by pat_completeness auto
termination
proof (relation "measure (\<lambda>(fn, q, s). sum_list (map (\<lambda>(prev, t, k). 2 * length (addrs t) + 1) q))")
  fix fn :: "node_ptr \<Rightarrow> 'e bdd_node \<Rightarrow> 'k \<Rightarrow> 's \<Rightarrow> (visit_action \<times> 'k \<times> 's) result"
    and prev and t :: "(node_ptr, 'e) bdd_tree" and k k' :: 'k and q s s' x y and action :: visit_action
  have "sum_list (map (\<lambda>(prev, t, k). 2 * length (addrs t) + 1) (map (\<lambda>u. (root_of t, u, k')) (subtrees t)))
      \<le> 2 * length (addrs t)" by (cases t) (auto split: if_splits)
  then show "((fn, q @ (if action = SkipChildren then [] else map (\<lambda>u. (root_of t, u, k')) (subtrees t)), s'),
      fn, (prev, t, k) # q, s) \<in> measure (\<lambda>(fn, q, s). sum_list (map (\<lambda>(prev, t, k). 2 * length (addrs t) + 1) q))"
    by auto
qed simp

declare visit_trees.simps [simp del]

lemma visit_trees_Nil [simp]: "visit_trees fn [] s = Inr s"
  by (simp add: visit_trees.simps)

lemma visit_nodes_trees:
  assumes "\<And>prev t k. (prev, t, k) \<in> set q \<Longrightarrow> in_heap h prev t \<and> t \<noteq> Empty"
  shows "visit_nodes h fn (map (\<lambda>(prev, t, k). (the (root_of t), k)) q) s = Some (visit_trees fn q s)"
  using assms
proof (induction fn q s rule: visit_trees.induct)
  case (1 fn s)
  show ?case by (subst visit_nodes.simps) simp
next
  case (2 fn prev t k q s)
  have t: "in_heap h prev t" "t \<noteq> Empty" using 2(2) by auto
  note root = in_heap_root [OF t]
  show ?case
  proof (cases "fn (the (root_of t)) (node_of prev t) k s")
    case (Inl e)
    with root show ?thesis by (subst visit_nodes.simps) (simp add: visit_trees.simps(2))
  next
    case (Inr r)
    obtain action k' s' where r: "r = (action, k', s')" by (cases r)
    show ?thesis
    proof (cases "action = Stop")
      case True
      with root Inr r show ?thesis by (subst visit_nodes.simps) (simp add: visit_trees.simps(2))
    next
      case False
      let ?q = "q @ (if action = SkipChildren then [] else map (\<lambda>u. (root_of t, u, k')) (subtrees t))"
      have "visit_nodes h fn (map (\<lambda>(prev, t, k). (the (root_of t), k)) ?q) s' = Some (visit_trees fn ?q s')"
      proof (rule 2(1) [OF Inr [unfolded r] refl refl False])
        fix prev' t' k'' assume "(prev', t', k'') \<in> set ?q"
        then show "in_heap h prev' t' \<and> t' \<noteq> Empty"
          using 2(2) [of prev' t' k''] subtrees_in_heap [OF t(1), of t'] by (auto split: if_splits)
      qed
      moreover have "map (\<lambda>(prev, t, k). (the (root_of t), k)) ?q =
          map (\<lambda>(prev, t, k). (the (root_of t), k)) q @
          (if action = SkipChildren then [] else map (\<lambda>c. (c, k')) (children (node_of prev t)))"
        by (simp add: children_node_of [OF t(2)] comp_def)
      ultimately show ?thesis using root Inr r False
        by (subst visit_nodes.simps) (simp add: visit_trees.simps(2))
    qed
  qed
qed

lemma visit_tree:
  assumes "in_heap h prev t" "root_of t = Some p"
  shows "visit h fn p s =
    Some (visit_trees (\<lambda>p n k s. rbind (fn p n s) (\<lambda>(a, s'). Inr (a, (), s'))) [(prev, t, ())] s)"
proof -
  have "t \<noteq> Empty" using assms(2) by auto
  with visit_nodes_trees [of "[(prev, t, ())]" h] assms show ?thesis by (simp add: visit_def)
qed

text \<open>The identifiers of a tree with their addresses.\<close>

definition entries :: "('a, 'e) bdd_tree \<Rightarrow> (u64 \<times> 'a) list" where
  "entries t = zip (node_ids t) (addrs t)"

lemma entries_simps [simp]:
  "entries Empty = []" "entries (Stmt p i s u) = (i, p) # entries u"
  "entries (Cond p i c u v) = (i, p) # entries u @ entries v"
  by (simp_all add: entries_def)

lemma entries_subtrees:
  "t \<noteq> Empty \<Longrightarrow> set (entries t) = insert (bn_id (node_of prev t), the (root_of t)) (\<Union>u \<in> set (subtrees t). set (entries u))"
  by (cases t) (auto split: if_splits)

definition all_entries :: "('p \<times> ('a, 'e) bdd_tree \<times> 'k) list \<Rightarrow> (u64 \<times> 'a) set" where
  "all_entries q = (\<Union>(prev, t, k) \<in> set q. set (entries t))"

lemma find_in_trees:
  fixes q :: "(node_ptr option \<times> (node_ptr, 'e) bdd_tree \<times> unit) list"
  assumes "\<forall>(prev, t, k) \<in> set q. t \<noteq> Empty"
    and "\<forall>p p'. (i, p) \<in> all_entries q \<longrightarrow> (i, p') \<in> all_entries q \<longrightarrow> p = p'"
    and "fn = (\<lambda>p n k s. rbind (if bn_id n = i then Inr (Stop, Some p) else Inr (Continue, s)) (\<lambda>(a, s'). Inr (a, (), s')))"
  shows "\<exists>r. visit_trees fn q s = Inr r \<and> (\<forall>p. (i, p) \<in> all_entries q \<longrightarrow> r = Some p) \<and>
    ((\<forall>p. (i, p) \<notin> all_entries q) \<longrightarrow> r = s)"
  using assms
proof (induction fn q s rule: visit_trees.induct)
  case (1 fn s)
  then show ?case by (simp add: all_entries_def)
next
  case (2 fn prev t k q s)
  have t: "t \<noteq> Empty" using 2(2) by auto
  let ?p = "the (root_of t)" and ?n = "node_of prev t"
  let ?q = "q @ map (\<lambda>u. (root_of t, u, ())) (subtrees t)"
  have E: "all_entries ((prev, t, k) # q) = insert (bn_id ?n, ?p) (all_entries ?q)"
    using entries_subtrees [OF t, of prev] by (auto simp: all_entries_def)
  show ?case
  proof (cases "bn_id ?n = i")
    case True
    then have "visit_trees fn ((prev, t, k) # q) s = Inr (Some ?p)"
      by (simp add: visit_trees.simps 2(4))
    moreover have "(i, ?p) \<in> all_entries ((prev, t, k) # q)" using E True by simp
    ultimately show ?thesis using 2(3) by blast
  next
    case False
    then have f: "fn ?p ?n k s = Inr (Continue, (), s)" by (simp add: 2(4))
    have "\<exists>r. visit_trees fn ?q s = Inr r \<and> (\<forall>p. (i, p) \<in> all_entries ?q \<longrightarrow> r = Some p) \<and>
        ((\<forall>p. (i, p) \<notin> all_entries ?q) \<longrightarrow> r = s)"
    proof -
      have "\<forall>(prev, t, k) \<in> set ?q. t \<noteq> Empty" using 2(2) by (cases t) auto
      moreover have "\<forall>p p'. (i, p) \<in> all_entries ?q \<longrightarrow> (i, p') \<in> all_entries ?q \<longrightarrow> p = p'"
        using 2(3) E by blast
      ultimately show ?thesis using 2(1) [OF f refl refl] 2(4) by simp
    qed
    moreover have "(i, p) \<in> all_entries ((prev, t, k) # q) \<longleftrightarrow> (i, p) \<in> all_entries ?q" for p
      using E False by auto
    moreover have "visit_trees fn ((prev, t, k) # q) s = visit_trees fn ?q s"
      using f by (simp add: visit_trees.simps(2))
    ultimately show ?thesis by simp
  qed
qed

lemma find_node:
  assumes "in_heap h prev t" "root_of t = Some r" "distinct (node_ids t)"
  shows "(i, p) \<in> set (entries t) \<Longrightarrow> node_get_node_by_id h r i = Some (Inr (Some p))"
    and "i \<notin> set (node_ids t) \<Longrightarrow> node_get_node_by_id h r i = Some (Inr None)"
proof -
  let ?fn = "\<lambda>p n k s. rbind (if bn_id n = i then Inr (Stop, Some p) else Inr (Continue, s)) (\<lambda>(a, s'). Inr (a, (), s'))"
  have "distinct (map fst (entries t))" using assms(3) by (simp add: entries_def)
  then have u: "\<forall>p p'. (i, p) \<in> all_entries [(prev, t, ())] \<longrightarrow> (i, p') \<in> all_entries [(prev, t, ())] \<longrightarrow> p = p'"
    by (auto simp: all_entries_def dest: eq_key_imp_eq_value)
  have "\<forall>(prev, t, k) \<in> set [(prev, t, ())]. t \<noteq> Empty" using assms(2) by auto
  from find_in_trees [OF this u refl, of None] obtain r' where
    r: "visit_trees ?fn [(prev, t, ())] None = Inr r'"
      "\<forall>p. (i, p) \<in> set (entries t) \<longrightarrow> r' = Some p" "(\<forall>p. (i, p) \<notin> set (entries t)) \<longrightarrow> r' = None"
    by (auto simp: all_entries_def)
  have v: "node_get_node_by_id h r i = Some (Inr r')"
    by (simp only: node_get_node_by_id_def visit_tree [OF assms(1,2)] r(1))
  show "(i, p) \<in> set (entries t) \<Longrightarrow> node_get_node_by_id h r i = Some (Inr (Some p))"
    using v r(2) by simp
  assume "i \<notin> set (node_ids t)"
  then have "\<forall>p. (i, p) \<notin> set (entries t)" by (auto simp: entries_def dest: set_zip_leftD)
  with v r(3) show "node_get_node_by_id h r i = Some (Inr None)" by simp
qed

section \<open>Cloning\<close>

lemma in_heap_dom: "in_heap h prev t \<Longrightarrow> a \<in> set (addrs t) \<Longrightarrow> h a \<noteq> None"
  by (induction t arbitrary: prev) auto

lemma set_prev_opt_tree:
  assumes "in_heap h prev t" "distinct (addrs t)"
  obtains h' where "set_prev_opt h (root_of t) q = Inr h'" "in_heap h' q t"
    "\<And>a. Some a \<noteq> root_of t \<Longrightarrow> h' a = h a" "\<And>a. h' a = None \<longleftrightarrow> h a = None"
proof (cases "t = Empty")
  case True
  then show thesis by (intro that [of h]) (simp_all add: set_prev_opt_def)
next
  case False
  then obtain r where r: "root_of t = Some r" by (cases "root_of t") simp_all
  with in_heap_root [OF assms(1) False] have n: "h r = Some (node_of prev t)" by simp
  let ?h = "h(r \<mapsto> (node_of prev t)\<lparr>bn_prev := q\<rparr>)"
  have "in_heap ?h q t" by (rule in_heap_reprev [OF assms r n]) simp_all
  with r n show thesis
    by (intro that [of ?h]) (auto simp: set_prev_opt_def set_prev_node_def deref_def)
qed

definition allocated_below :: "'e memory \<Rightarrow> bool" where
  "allocated_below m \<longleftrightarrow> (\<forall>a. m_heap m a \<noteq> None \<longrightarrow> a < m_fresh m)"

text \<open>A clone of \<open>t\<close> in new nodes, \<open>new\<close> in the manager; the heap below the new nodes is kept.\<close>

definition cloned_as ::
  "'e memory \<Rightarrow> (node_ptr, 'e) bdd_tree \<Rightarrow> 'e memory \<Rightarrow> (node_ptr, 'e) bdd_tree \<Rightarrow> node_ptr list \<Rightarrow> bool"
where
  "cloned_as m t m' t' new \<longleftrightarrow>
     in_heap (m_heap m') None t' \<and> erase t' = erase t \<and> distinct (addrs t') \<and>
     distinct new \<and> set new = set (addrs t') \<and> m_fresh m \<le> m_fresh m' \<and>
     (\<forall>a \<in> set (addrs t'). m_fresh m \<le> a \<and> a < m_fresh m') \<and>
     (\<forall>a. a < m_fresh m \<longrightarrow> m_heap m' a = m_heap m a) \<and> allocated_below m'"

lemma cloned_asD:
  assumes "cloned_as m t m' t' new"
  shows "in_heap (m_heap m') None t'" "erase t' = erase t" "distinct (addrs t')" "distinct new"
    "set new = set (addrs t')" "m_fresh m \<le> m_fresh m'" "a \<in> set (addrs t') \<Longrightarrow> m_fresh m \<le> a"
    "a \<in> set (addrs t') \<Longrightarrow> a < m_fresh m'" "a < m_fresh m \<Longrightarrow> m_heap m' a = m_heap m a" "allocated_below m'"
  using assms by (simp_all add: cloned_as_def)

lemma erase_root: "erase t' = erase t \<Longrightarrow> t' = Empty \<longleftrightarrow> t = Empty"
  by (cases t; cases t') simp_all

lemma clone_subtree_correct:
  assumes "in_heap (m_heap m) prev t" "allocated_below m"
  shows "\<exists>m' t' new. clone_subtree m nodes (root_of t) = Some (Inr (m', nodes @ new, root_of t')) \<and>
    cloned_as m t m' t' new"
  using assms
proof (induction t arbitrary: m nodes prev)
  case Empty
  then show ?case
    by (subst clone_subtree.simps) (auto simp: cloned_as_def intro!: exI [of _ m] exI [of _ Empty])
next
  case (Stmt p i s u)
  have n: "m_heap m p = Some (node_of prev (Stmt p i s u))" and u: "in_heap (m_heap m) (Some p) u"
    using Stmt.prems(1) by simp_all
  from Stmt.IH [OF u Stmt.prems(2), of nodes] obtain m1 u' new1 where
    r1: "clone_subtree m nodes (root_of u) = Some (Inr (m1, nodes @ new1, root_of u'))" and c1: "cloned_as m u m1 u' new1"
    by blast
  note D = cloned_asD [OF c1]
  let ?p = "m_fresh m1" and ?n = "\<lparr>bn_id = i, bn_next = root_of u', bn_prev = None, bn_body = stmt_body s\<rparr>"
  let ?h2 = "(m_heap m1)(?p \<mapsto> ?n)"
  have away: "?p \<notin> set (addrs u')" using D(8) by blast
  have "in_heap ?h2 None u'" using D(1) away by (subst in_heap_cong [of _ _ "m_heap m1"]) auto
  then obtain h' where h': "set_prev_opt ?h2 (root_of u') (Some ?p) = Inr h'" "in_heap h' (Some ?p) u'"
    "\<And>a. Some a \<noteq> root_of u' \<Longrightarrow> h' a = ?h2 a" "\<And>a. h' a = None \<longleftrightarrow> ?h2 a = None"
    by (rule set_prev_opt_tree [OF _ D(3), where q = "Some ?p"]) blast
  have root: "root_of u' \<noteq> Some a" if "a = ?p \<or> a < m_fresh m" for a
    using that root_of_addrs [of u' a] away D(7) [of a] by auto
  let ?m' = "\<lparr>m_heap = h', m_fresh = ?p + 1\<rparr>"
  have "cloned_as m (Stmt p i s u) ?m' (Stmt ?p i s u') (new1 @ [?p])"
    unfolding cloned_as_def
  proof (intro conjI)
    show "in_heap (m_heap ?m') None (Stmt ?p i s u')" using h'(2,3) root [of ?p] by fastforce
    show "\<forall>a. a < m_fresh m \<longrightarrow> m_heap ?m' a = m_heap m a"
      using h'(3) root D(6,9) by (metis fun_upd_other memory.select_convs(1) not_less)
    show "allocated_below ?m'"
      using h'(4) D(10) by (auto simp: allocated_below_def less_Suc_eq split: if_splits)
  qed (use D away in \<open>auto simp: less_Suc_eq\<close>)
  moreover have "clone_subtree m nodes (root_of (Stmt p i s u)) =
      Some (Inr (?m', nodes @ new1 @ [?p], root_of (Stmt ?p i s u')))"
    using n r1 h'(1)
    by (subst clone_subtree.simps, cases s) (simp_all add: new_node_def add_node_def)
  ultimately show ?case by blast
next
  case (Cond p i c u v)
  have n: "m_heap m p = Some (node_of prev (Cond p i c u v))" and u: "in_heap (m_heap m) (Some p) u"
    and v: "in_heap (m_heap m) (Some p) v" using Cond.prems(1) by simp_all
  from Cond.IH(1) [OF u Cond.prems(2), of nodes] obtain m1 u' new1 where
    r1: "clone_subtree m nodes (root_of u) = Some (Inr (m1, nodes @ new1, root_of u'))" and c1: "cloned_as m u m1 u' new1"
    by blast
  note D1 = cloned_asD [OF c1]
  have "in_heap (m_heap m1) (Some p) v"
  proof (subst in_heap_cong [of _ _ "m_heap m"])
    fix a assume "a \<in> set (addrs v)"
    with in_heap_dom [OF v] Cond.prems(2) have "a < m_fresh m" by (auto simp: allocated_below_def)
    then show "m_heap m1 a = m_heap m a" by (rule D1(9))
  qed (rule v)
  from Cond.IH(2) [OF this D1(10), of "nodes @ new1"] obtain m2 v' new2 where
    r2: "clone_subtree m1 (nodes @ new1) (root_of v) = Some (Inr (m2, (nodes @ new1) @ new2, root_of v'))"
    and c2: "cloned_as m1 v m2 v' new2" by blast
  note D2 = cloned_asD [OF c2]
  let ?p = "m_fresh m2" and ?n = "\<lparr>bn_id = i, bn_next = root_of u', bn_prev = None, bn_body = Branch (root_of v') c\<rparr>"
  let ?h2 = "(m_heap m2)(?p \<mapsto> ?n)"
  have away: "?p \<notin> set (addrs u')" "?p \<notin> set (addrs v')" "set (addrs u') \<inter> set (addrs v') = {}"
    using D1(7,8) D2(6,7,8) by (fastforce, blast, fastforce)
  have u2: "in_heap ?h2 None u'"
  proof (subst in_heap_cong [of _ _ "m_heap m1"])
    fix a assume a: "a \<in> set (addrs u')"
    with D1(8) D2(9) away(1) show "?h2 a = m_heap m1 a" by auto
  qed (rule D1(1))
  obtain h3 where h3: "set_prev_opt ?h2 (root_of u') (Some ?p) = Inr h3" "in_heap h3 (Some ?p) u'"
    "\<And>a. Some a \<noteq> root_of u' \<Longrightarrow> h3 a = ?h2 a" "\<And>a. h3 a = None \<longleftrightarrow> ?h2 a = None"
    by (rule set_prev_opt_tree [OF u2 D1(3), where q = "Some ?p"]) blast
  have "in_heap h3 None v'"
  proof (subst in_heap_cong [of _ _ "m_heap m2"])
    fix a assume a: "a \<in> set (addrs v')"
    then have "Some a \<noteq> root_of u'" "a \<noteq> ?p" using away root_of_addrs [of u' a] by auto
    then show "h3 a = m_heap m2 a" using h3(3) [of a] by simp
  qed (rule D2(1))
  then obtain h4 where h4: "set_prev_opt h3 (root_of v') (Some ?p) = Inr h4" "in_heap h4 (Some ?p) v'"
    "\<And>a. Some a \<noteq> root_of v' \<Longrightarrow> h4 a = h3 a" "\<And>a. h4 a = None \<longleftrightarrow> h3 a = None"
    by (rule set_prev_opt_tree [OF _ D2(3), where q = "Some ?p"]) blast
  have u4: "in_heap h4 (Some ?p) u'"
  proof (subst in_heap_cong [of _ _ h3])
    fix a assume a: "a \<in> set (addrs u')"
    then have "Some a \<noteq> root_of v'" using away root_of_addrs [of v' a] by auto
    then show "h4 a = h3 a" by (rule h4(3))
  qed (rule h3(2))
  have root: "Some a \<noteq> root_of u'" "Some a \<noteq> root_of v'" if "a = ?p \<or> a < m_fresh m" for a
    using that root_of_addrs [of u' a] root_of_addrs [of v' a] away D1(6) D1(7) [of a] D2(7) [of a] by auto
  let ?m' = "\<lparr>m_heap = h4, m_fresh = ?p + 1\<rparr>"
  have "cloned_as m (Cond p i c u v) ?m' (Cond ?p i c u' v') (new1 @ new2 @ [?p])"
    unfolding cloned_as_def
  proof (intro conjI)
    show "in_heap (m_heap ?m') None (Cond ?p i c u' v')"
      using u4 h4(2) h4(3) [of ?p] h3(3) [of ?p] root [of ?p] by simp
    show "\<forall>a. a < m_fresh m \<longrightarrow> m_heap ?m' a = m_heap m a"
    proof (intro allI impI)
      fix a assume a: "a < m_fresh m"
      then have "a < m_fresh m1" "a \<noteq> ?p" using D1(6) D2(6) by auto
      with a root [of a] h4(3) [of a] h3(3) [of a] D2(9) [of a] D1(9) [of a]
      show "m_heap ?m' a = m_heap m a" by simp
    qed
    show "allocated_below ?m'"
      using h4(4) h3(4) D2(10) by (auto simp: allocated_below_def less_Suc_eq split: if_splits)
    show "\<forall>a \<in> set (addrs (Cond ?p i c u' v')). m_fresh m \<le> a \<and> a < m_fresh ?m'"
      using D1(6,7,8) D2(6,7,8) by (auto simp: less_Suc_eq intro: order_trans less_le_trans)
    show "distinct (new1 @ new2 @ [?p])" using D1(4,5) D2(4,5) away by auto
    show "m_fresh m \<le> m_fresh ?m'" using D1(6) D2(6) by simp
  qed (use D1 D2 away in auto)
  moreover have "clone_subtree m nodes (root_of (Cond p i c u v)) =
      Some (Inr (?m', nodes @ new1 @ new2 @ [?p], root_of (Cond ?p i c u' v')))"
    using n r1 r2 h3(1) h4(1) by (subst clone_subtree.simps) (simp add: new_node_def add_node_def)
  ultimately show ?case by blast
qed

section \<open>Renumbering and freeing\<close>

lemma update_ids_correct:
  assumes "in_heap h prev t" "distinct (addrs t)"
  shows "\<exists>h'. update_ids h k (root_of t) = Some (Inr (h', k + of_nat (length (addrs t)))) \<and>
    in_heap h' prev (relabel k t) \<and> (\<forall>a. a \<notin> set (addrs t) \<longrightarrow> h' a = h a)"
  using assms
proof (induction t arbitrary: h k prev)
  case Empty
  then show ?case by (subst update_ids.simps) simp
next
  case (Stmt p i s u)
  let ?h = "h(p \<mapsto> (node_of prev (Stmt p i s u))\<lparr>bn_id := k\<rparr>)"
  have p: "p \<notin> set (addrs u)" "distinct (addrs u)" using Stmt.prems(2) by simp_all
  have "in_heap ?h (Some p) u" using Stmt.prems(1) p by (subst in_heap_cong [of _ _ h]) auto
  from Stmt.IH [OF this p(2), of "k + 1"] obtain h' where
    h': "update_ids ?h (k + 1) (root_of u) = Some (Inr (h', k + 1 + of_nat (length (addrs u))))"
    "in_heap h' (Some p) (relabel (k + 1) u)" "\<forall>a. a \<notin> set (addrs u) \<longrightarrow> h' a = ?h a" by blast
  with Stmt.prems(1) p show ?case
    by (subst update_ids.simps, cases s) (auto simp: ac_simps)
next
  case (Cond p i c u v)
  let ?h = "h(p \<mapsto> (node_of prev (Cond p i c u v))\<lparr>bn_id := k\<rparr>)"
  have p: "p \<notin> set (addrs u)" "p \<notin> set (addrs v)" "distinct (addrs u)" "distinct (addrs v)"
    "set (addrs u) \<inter> set (addrs v) = {}" using Cond.prems(2) by simp_all
  have "in_heap ?h (Some p) u" using Cond.prems(1) p by (subst in_heap_cong [of _ _ h]) auto
  from Cond.IH(1) [OF this p(3), of "k + 1"] obtain h1 where
    h1: "update_ids ?h (k + 1) (root_of u) = Some (Inr (h1, k + 1 + of_nat (length (addrs u))))"
    "in_heap h1 (Some p) (relabel (k + 1) u)" "\<forall>a. a \<notin> set (addrs u) \<longrightarrow> h1 a = ?h a" by blast
  have "in_heap h1 (Some p) v"
    using Cond.prems(1) p h1(3) by (subst in_heap_cong [of _ _ h]) auto
  from Cond.IH(2) [OF this p(4), of "k + 1 + of_nat (length (addrs u))"] obtain h2 where
    h2: "update_ids h1 (k + 1 + of_nat (length (addrs u))) (root_of v) =
      Some (Inr (h2, k + 1 + of_nat (length (addrs u)) + of_nat (length (addrs v))))"
    "in_heap h2 (Some p) (relabel (k + 1 + of_nat (length (addrs u))) v)"
    "\<forall>a. a \<notin> set (addrs v) \<longrightarrow> h2 a = h1 a" by blast
  have "in_heap h2 (Some p) (relabel (k + 1) u)"
    using h1(2) h2(3) p(5) by (subst in_heap_cong [of _ _ h1]) auto
  with h1 h2 Cond.prems(1) p show ?case
    by (subst update_ids.simps) (auto simp: ac_simps)
qed

definition free_all :: "'e memory \<Rightarrow> node_ptr set \<Rightarrow> 'e memory" where
  "free_all m A = m\<lparr>m_heap := (\<lambda>a. if a \<in> A then None else m_heap m a)\<rparr>"

lemma has_node_iff [simp]: "has_node nodes p \<longleftrightarrow> p \<in> set nodes"
  by (auto simp: has_node_def list_ex_iff)

lemma free_node_owned:
  assumes "p \<in> set nodes" "distinct nodes"
  shows "free_node m nodes p = (free_all m {p}, filter (\<lambda>a. a \<noteq> p) nodes)"
  using assms by (simp add: free_node_def free_all_def distinct_remove1_removeAll fun_upd_def
      removeAll_filter_not_eq eq_commute)

lemma free_subtree_correct:
  assumes "in_heap (m_heap m) prev t" "distinct (addrs t)" "set (addrs t) \<subseteq> set nodes" "distinct nodes"
  shows "free_subtree m nodes (root_of t) =
    Some (Inr (free_all m (set (addrs t)), filter (\<lambda>a. a \<notin> set (addrs t)) nodes))"
  using assms
proof (induction t arbitrary: m nodes prev)
  case Empty
  then show ?case by (subst free_subtree.simps) (simp add: free_all_def)
next
  case (Stmt p i s u)
  let ?m = "free_all m (set (addrs u))" and ?nodes = "filter (\<lambda>a. a \<notin> set (addrs u)) nodes"
  have p: "p \<notin> set (addrs u)" "distinct (addrs u)" "p \<in> set ?nodes" using Stmt.prems by auto
  have r: "free_subtree m nodes (root_of u) = Some (Inr (?m, ?nodes))"
    using Stmt.prems by (intro Stmt.IH [of m "Some p" nodes]) auto
  have "free_all (unlink_next ?m p (node_of prev (Stmt p i s u))) {p} = free_all m (insert p (set (addrs u)))"
    by (auto simp: free_all_def unlink_next_def fun_eq_iff)
  then have "free_node (unlink_next ?m p (node_of prev (Stmt p i s u))) ?nodes p =
      (free_all m (insert p (set (addrs u))), filter (\<lambda>a. a \<noteq> p) ?nodes)"
    using free_node_owned [OF p(3), of "unlink_next ?m p (node_of prev (Stmt p i s u))"] Stmt.prems(4) by simp
  with r Stmt.prems(1) show ?case
    by (subst free_subtree.simps, cases s) (auto simp: conj_commute)
next
  case (Cond p i c u v)
  let ?m1 = "free_all m (set (addrs u))" and ?nodes1 = "filter (\<lambda>a. a \<notin> set (addrs u)) nodes"
  let ?m2 = "free_all ?m1 (set (addrs v))" and ?nodes2 = "filter (\<lambda>a. a \<notin> set (addrs v)) ?nodes1"
  have r1: "free_subtree m nodes (root_of u) = Some (Inr (?m1, ?nodes1))"
    using Cond.prems by (intro Cond.IH(1) [of m "Some p" nodes]) auto
  have "in_heap (m_heap ?m1) (Some p) v = in_heap (m_heap m) (Some p) v"
    using Cond.prems(2) by (intro in_heap_cong) (auto simp: free_all_def)
  then have r2: "free_subtree ?m1 ?nodes1 (root_of v) = Some (Inr (?m2, ?nodes2))"
    using Cond.prems by (intro Cond.IH(2) [of ?m1 "Some p" ?nodes1]) auto
  have p: "p \<in> set ?nodes2" using Cond.prems by auto
  have "free_all ?m2 {p} = free_all m (insert p (set (addrs u) \<union> set (addrs v)))"
    by (auto simp: free_all_def fun_eq_iff)
  then have "free_node ?m2 ?nodes2 p =
      (free_all m (insert p (set (addrs u) \<union> set (addrs v))), filter (\<lambda>a. a \<noteq> p) ?nodes2)"
    using free_node_owned [OF p, of ?m2] Cond.prems(4) by simp
  with r1 r2 Cond.prems(1) show ?case
    by (subst free_subtree.simps) (auto simp: conj_ac)
qed

end
