(* ===== verification/BDDEdits.thy ===== *)
theory BDDEdits
  imports BDDTraversal
begin

text \<open>
  The edits of a diagram refine edits of trees: whatever sequence of edits a tree admits, the heap
  follows without failing, every node stays linked both ways and owned exactly once, identifiers
  stay distinct, and nothing outside the diagram is touched.
\<close>

section \<open>The tree a diagram holds\<close>

fun calls_only :: "('a, 'e) bdd_tree \<Rightarrow> bool" where
  "calls_only (Stmt p i (SCall c s) u) = calls_only u"
| "calls_only Empty = True"
| "calls_only t = False"

definition bdd_rep ::
  "'e memory \<Rightarrow> 'e bdd \<Rightarrow> (node_ptr, 'e) bdd_tree \<Rightarrow> (node_ptr, 'e) bdd_tree \<Rightarrow> bool"
where
  "bdd_rep m B t it \<longleftrightarrow>
     bdd_root B = root_of t \<and> t \<noteq> Empty \<and> in_heap (m_heap m) None t \<and> distinct (addrs t) \<and>
     distinct (node_ids t) \<and> (\<forall>i \<in> set (node_ids t). i < bdd_id B) \<and>
     in_heap (m_heap m) None it \<and> calls_only it \<and> bdd_init B = addrs it \<and> distinct (addrs it) \<and>
     set (addrs it) \<inter> set (addrs t) = {} \<and> distinct (bdd_manager B) \<and>
     set (bdd_manager B) = set (addrs t) \<union> set (addrs it) \<and> allocated_below m"

lemma bdd_repD:
  assumes "bdd_rep m B t it"
  shows "bdd_root B = root_of t" "t \<noteq> Empty" "in_heap (m_heap m) None t" "distinct (addrs t)"
    "distinct (node_ids t)" "i \<in> set (node_ids t) \<Longrightarrow> i < bdd_id B" "in_heap (m_heap m) None it" "calls_only it"
    "bdd_init B = addrs it" "distinct (addrs it)" "set (addrs it) \<inter> set (addrs t) = {}"
    "distinct (bdd_manager B)" "set (bdd_manager B) = set (addrs t) \<union> set (addrs it)" "allocated_below m"
    "x \<in> set (bdd_manager B) \<Longrightarrow> x < m_fresh m"
proof -
  show "x < m_fresh m" if "x \<in> set (bdd_manager B)"
    using assms that in_heap_dom [of "m_heap m" None t x] in_heap_dom [of "m_heap m" None it x]
    by (auto simp: bdd_rep_def allocated_below_def)
qed (use assms in \<open>simp_all add: bdd_rep_def\<close>)

text \<open>What an edit leaves alone: the heap outside of the diagram.\<close>

definition edited :: "'e memory \<Rightarrow> 'e bdd \<Rightarrow> 'e memory \<Rightarrow> 'e bdd \<Rightarrow> bool" where
  "edited m B m' B' \<longleftrightarrow>
     m_fresh m \<le> m_fresh m' \<and> set (bdd_manager B') \<subseteq> set (bdd_manager B) \<union> {x. m_fresh m \<le> x} \<and>
     (\<forall>x < m_fresh m. x \<notin> set (bdd_manager B) \<longrightarrow> m_heap m' x = m_heap m x)"

lemma edited_refl [simp]: "edited m B m B"
  by (auto simp: edited_def)

lemma edited_trans:
  assumes "edited m B m' B'" "edited m' B' m'' B''"
  shows "edited m B m'' B''"
  unfolding edited_def
proof (intro conjI allI impI)
  show "m_fresh m \<le> m_fresh m''" using assms by (auto simp: edited_def)
  show "set (bdd_manager B'') \<subseteq> set (bdd_manager B) \<union> {x. m_fresh m \<le> x}"
  proof
    fix x assume "x \<in> set (bdd_manager B'')"
    then have "x \<in> set (bdd_manager B') \<or> m_fresh m' \<le> x" using assms(2) by (auto simp: edited_def)
    then show "x \<in> set (bdd_manager B) \<union> {x. m_fresh m \<le> x}" using assms(1) by (auto simp: edited_def)
  qed
  fix x assume x: "x < m_fresh m" "x \<notin> set (bdd_manager B)"
  then have "x < m_fresh m'" "x \<notin> set (bdd_manager B')" using assms(1) by (auto simp: edited_def)
  with x assms show "m_heap m'' x = m_heap m x" by (simp add: edited_def)
qed

section \<open>Finding the nodes of an edit\<close>

lemma sub_entry: "i \<in> set (node_ids t) \<Longrightarrow> (i, the (root_of (sub i t))) \<in> set (entries t)"
  by (induction t) auto

lemma addr_entry:
  assumes "in_heap h prev t" "a \<in> set (addrs t)"
  obtains n where "h a = Some n" "(bn_id n, a) \<in> set (entries t)"
proof -
  have "\<exists>n. h a = Some n \<and> (bn_id n, a) \<in> set (entries t)"
    using assms by (induction t arbitrary: prev) auto
  then show thesis using that by blast
qed

lemma get_node_found:
  assumes "bdd_rep m B t it" "i \<in> set (node_ids t)"
  obtains p where "get_node_by_id (m_heap m) B i = Some (Inr (Some p))" "root_of (sub i t) = Some p"
    "m_heap m p = Some (node_of (parent None i t) (sub i t))" "bn_id (node_of (parent None i t) (sub i t)) = i"
proof -
  note D = bdd_repD [OF assms(1)]
  obtain r where r: "root_of t = Some r" using D(2) by (cases "root_of t") simp_all
  obtain p where p: "root_of (sub i t) = Some p" using sub_ids(1) [OF assms(2)] by (cases "root_of (sub i t)") simp_all
  from sub_entry [OF assms(2)] p have e: "(i, p) \<in> set (entries t)" by simp
  then have "get_node_by_id (m_heap m) B i = Some (Inr (Some p))"
    using find_node(1) [OF D(3) r D(5)] D(1) r by (simp add: get_node_by_id_def)
  moreover have n: "m_heap m p = Some (node_of (parent None i t) (sub i t))"
    using in_heap_root [OF in_heap_sub [OF D(3) assms(2)] sub_ids(1) [OF assms(2)]] p by simp
  moreover have "bn_id (node_of (parent None i t) (sub i t)) = i"
  proof -
    have "bn_id (node_of prev (sub i t)) = i" if "i \<in> set (node_ids t)" for prev and t :: "(node_ptr, 'a) bdd_tree"
      using that by (induction t) auto
    then show ?thesis using assms(2) .
  qed
  ultimately show thesis using p by (intro that)
qed

lemma parent_in_tree:
  assumes "bdd_rep m B t it" "i \<in> set (node_ids t)" "parent None i t = Some a"
  shows "a \<in> set (addrs t)" "a \<notin> set (addrs (sub i t))"
  using parent_addrs [OF assms(2), of None] parent_not_sub [OF assms(2) bdd_repD(4) [OF assms(1)], of None] assms(3)
  by auto

lemma prev_of_node [simp]: "t \<noteq> Empty \<Longrightarrow> bn_prev (node_of prev t) = prev"
  by (cases t) simp_all

lemma find_anchor_found:
  assumes "bdd_rep m B t it" "i \<in> set (node_ids t)" "parent None i t = Some a"
  obtains p n where "root_of (sub i t) = Some p" "find_anchor (m_heap m) B i = Some (Inr (Some a, Some p))"
    "get_node_by_id (m_heap m) B i = Some (Inr (Some p))" "m_heap m p = Some (node_of (Some a) (sub i t))"
    "m_heap m a = Some n" "get_node_by_id (m_heap m) B (bn_id n) = Some (Inr (Some a))"
    "bn_id (node_of (Some a) (sub i t)) = i"
proof -
  note D = bdd_repD [OF assms(1)]
  obtain r where r: "root_of t = Some r" using D(2) by (cases "root_of t") simp_all
  obtain p where p: "get_node_by_id (m_heap m) B i = Some (Inr (Some p))" "root_of (sub i t) = Some p"
    "m_heap m p = Some (node_of (Some a) (sub i t))" "bn_id (node_of (Some a) (sub i t)) = i"
    using get_node_found [OF assms(1,2)] assms(3) by metis
  obtain n where n: "m_heap m a = Some n" "(bn_id n, a) \<in> set (entries t)"
    by (rule addr_entry [OF D(3) parent_in_tree(1) [OF assms]])
  then have g: "get_node_by_id (m_heap m) B (bn_id n) = Some (Inr (Some a))"
    using find_node(1) [OF D(3) r D(5)] D(1) r by (simp add: get_node_by_id_def)
  have "find_anchor (m_heap m) B i = Some (Inr (Some a, Some p))"
    using p n g sub_ids(1) [OF assms(2)] by (simp add: find_anchor_def require_def deref_def)
  with p n g show thesis by (intro that)
qed

section \<open>Replacing a subtree of a diagram\<close>

lemma bdd_rep_put:
  assumes rep: "bdd_rep m B t it" and i: "i \<in> set (node_ids t)" "parent None i t = Some a"
    and r: "in_heap (m_heap m') (Some a) r"
    and anchor: "m_heap m' a = map_option (redirect (root_of (sub i t)) (root_of r)) (m_heap m a)"
    and same: "\<And>x. x \<in> set (bdd_manager B) - set (addrs (sub i t)) - {a} \<Longrightarrow> m_heap m' x = m_heap m x"
    and raddrs: "distinct (addrs r)" "set (addrs r) \<subseteq> set (addrs (sub i t)) \<union> {x. m_fresh m \<le> x}"
    and rids: "distinct (node_ids r)" "set (node_ids r) \<subseteq> set (node_ids (sub i t)) \<union> {j. bdd_id B \<le> j}"
      "\<And>j. j \<in> set (node_ids r) \<Longrightarrow> j < k" "bdd_id B \<le> k"
    and nodes: "distinct nodes" "set nodes = set (bdd_manager B) - set (addrs (sub i t)) \<union> set (addrs r)"
    and m': "allocated_below m'"
  shows "bdd_rep m' (B\<lparr>bdd_id := k, bdd_manager := nodes\<rparr>) (put i r t) it"
proof -
  note D = bdd_repD [OF rep] and a = parent_in_tree [OF rep i]
  obtain A C A' C' where split: "addrs t = A @ addrs (sub i t) @ C" "node_ids t = A' @ node_ids (sub i t) @ C'"
    "addrs (put i r t) = A @ addrs r @ C" "node_ids (put i r t) = A' @ node_ids r @ C'"
    by (rule put_split [OF i(1)]) blast
  have itsub: "set (addrs it) \<inter> set (addrs (sub i t)) = {}" using D(11) sub_addrs [OF i(1)] by blast
  have old: "x < m_fresh m" if "x \<in> set A \<union> set C \<union> set (addrs it)" for x using that D(13,15) split(1) by auto
  have oldid: "j < bdd_id B" if "j \<in> set A' \<union> set C'" for j using that D(6) split(2) by auto
  have sep: "set (addrs r) \<inter> (set A \<union> set C) = {}" "set (addrs r) \<inter> set (addrs it) = {}"
    using raddrs(2) D(4) old itsub split(1) by (fastforce, fastforce)
  have sepid: "set (node_ids r) \<inter> (set A' \<union> set C') = {}"
    using rids(2) D(5) oldid split(2) by (fastforce simp: not_less [symmetric])
  have "in_heap (m_heap m') None (put i r t)"
  proof (rule in_heap_put [OF D(3,4) i(1)])
    show "in_heap (m_heap m') (parent None i t) r" using r i(2) by simp
    show "m_heap m' x = m_heap m x" if "x \<in> set (addrs t) - set (addrs (sub i t))" "parent None i t \<noteq> Some x" for x
      using that same [of x] D(13) i(2) by auto
    show "m_heap m' b = map_option (redirect (root_of (sub i t)) (root_of r)) (m_heap m b)"
      if "parent None i t = Some b" for b using that anchor i(2) by simp
  qed simp
  moreover have "in_heap (m_heap m') None it"
  proof (subst in_heap_cong [of _ _ "m_heap m"])
    fix x assume "x \<in> set (addrs it)"
    then show "m_heap m' x = m_heap m x" using same [of x] D(11,13) a(1) itsub by auto
  qed (rule D(7))
  moreover have "root_of (put i r t) = root_of t" using put_below [of None i t] i(2) by simp
  moreover have "distinct (addrs (put i r t))" "distinct (node_ids (put i r t))"
    using split D(4,5) sep sepid raddrs(1) rids(1) by auto
  moreover have "\<forall>j \<in> set (node_ids (put i r t)). j < k"
    using split(4) rids(3,4) oldid by (auto intro: less_le_trans)
  moreover have "set nodes = set (addrs (put i r t)) \<union> set (addrs it)"
    using nodes(2) D(4,13) split itsub by auto
  moreover have "set (addrs it) \<inter> set (addrs (put i r t)) = {}" using D(11) split sep by auto
  moreover have "put i r t \<noteq> Empty" using \<open>root_of (put i r t) = root_of t\<close> D(2) by (metis root_of_None)
  ultimately show ?thesis using D nodes(1) m' by (simp add: bdd_rep_def)
qed

section \<open>Deleting\<close>

definition linked :: "'e bdd_node \<Rightarrow> node_ptr \<Rightarrow> bool" where
  "linked n p \<longleftrightarrow> (case bn_body n of Branch f c \<Rightarrow> bn_next n = Some p \<or> f = Some p | _ \<Rightarrow> True)"

lemma connect_linked:
  "h a = Some n \<Longrightarrow> linked n p \<Longrightarrow> connect h a p q = Inr (h(a \<mapsto> redirect (Some p) q n))"
  by (auto simp: connect_def deref_def linked_def redirect_def split: bdd_body.splits)

lemma anchor_linked:
  assumes "bdd_rep m B t it" "i \<in> set (node_ids t)" "parent None i t = Some a" "root_of (sub i t) = Some p"
  obtains n where "m_heap m a = Some n" "linked n p"
proof -
  note D = bdd_repD [OF assms(1)]
  obtain n where "m_heap m a = Some n" "connect (m_heap m) a p None = Inr ((m_heap m)(a \<mapsto> redirect (Some p) None n))"
    using connect_anchor [OF D(3,4) assms(2) _ assms(3) parent_in_tree(1) [OF assms(1-3)] assms(4)] by auto
  then show thesis
    by (intro that [of n]) (auto simp: connect_def deref_def linked_def split: bdd_body.splits if_splits)
qed

text \<open>
  How both deletions end: the anchor takes over a part \<open>r\<close> of what is below \<open>p\<close>, the rest of which,
  \<open>X\<close>, is freed already.
\<close>

lemma unlink_rep:
  assumes rep: "bdd_rep m B t it" and i: "i \<in> set (node_ids t)" "parent None i t = Some a"
    and p: "root_of (sub i t) = Some p"
    and r: "in_heap (m_heap m) (Some p) r" "distinct (addrs r)" "distinct (node_ids r)"
      "set (node_ids r) \<subseteq> set (node_ids (sub i t))"
    and X: "set (addrs (sub i t)) = insert p (X \<union> set (addrs r))" "p \<notin> X" "p \<notin> set (addrs r)" "X \<inter> set (addrs r) = {}"
  obtains h h' m' nodes' where "connect (m_heap (free_all m X)) a p (root_of r) = Inr h"
    "set_prev_opt h (root_of r) (Some a) = Inr h'"
    "free_node ((free_all m X)\<lparr>m_heap := h'\<rparr>) (filter (\<lambda>x. x \<notin> X) (bdd_manager B)) p = (m', nodes')"
    "bdd_rep m' (B\<lparr>bdd_manager := nodes'\<rparr>) (put i r t) it" "edited m B m' (B\<lparr>bdd_manager := nodes'\<rparr>)"
proof -
  note D = bdd_repD [OF rep] and a = parent_in_tree [OF rep i]
  let ?h1 = "m_heap (free_all m X)"
  obtain n where n: "m_heap m a = Some n" "linked n p" by (rule anchor_linked [OF rep i p])
  have aX: "a \<notin> X" "a \<noteq> p" "a \<notin> set (addrs r)" using a(2) X(1) by auto
  let ?h = "?h1(a \<mapsto> redirect (Some p) (root_of r) n)"
  have c: "connect ?h1 a p (root_of r) = Inr ?h"
    using n aX(1) by (intro connect_linked) (simp_all add: free_all_def)
  have "in_heap ?h (Some p) r"
  proof (subst in_heap_cong [of _ _ "m_heap m"])
    fix x assume "x \<in> set (addrs r)"
    then show "?h x = m_heap m x" using X(4) aX by (auto simp: free_all_def)
  qed (rule r(1))
  then obtain h' where h': "set_prev_opt ?h (root_of r) (Some a) = Inr h'" "in_heap h' (Some a) r"
    "\<And>x. Some x \<noteq> root_of r \<Longrightarrow> h' x = ?h x" "\<And>x. h' x = None \<longleftrightarrow> ?h x = None"
    by (rule set_prev_opt_tree [OF _ r(2), where q = "Some a"]) blast
  have root: "root_of r \<noteq> Some x" if "x \<notin> set (addrs r)" for x using that root_of_addrs [of r x] by auto
  let ?nodes1 = "filter (\<lambda>x. x \<notin> X) (bdd_manager B)"
  have "p \<in> set (addrs t)" using sub_addrs [OF i(1)] X(1) by auto
  then have pn: "p \<in> set ?nodes1" using D(13) X(2) by simp
  let ?m' = "free_all ((free_all m X)\<lparr>m_heap := h'\<rparr>) {p}" and ?nodes' = "filter (\<lambda>x. x \<noteq> p) ?nodes1"
  have f: "free_node ((free_all m X)\<lparr>m_heap := h'\<rparr>) ?nodes1 p = (?m', ?nodes')"
    using D(12) by (intro free_node_owned [OF pn]) simp
  have keep: "m_heap ?m' x = m_heap m x" if "x \<notin> set (addrs (sub i t))" "x \<noteq> a" for x
    using that X(1) h'(3) [of x] root [of x] by (auto simp: free_all_def)
  have fresh: "m_fresh ?m' = m_fresh m" by (simp add: free_all_def)
  have "bdd_rep ?m' (B\<lparr>bdd_id := bdd_id B, bdd_manager := ?nodes'\<rparr>) (put i r t) it"
  proof (rule bdd_rep_put [OF rep i])
    show "in_heap (m_heap ?m') (Some a) r"
      using h'(2) X(3) by (subst in_heap_cong [of _ _ h']) (auto simp: free_all_def)
    show "m_heap ?m' a = map_option (redirect (root_of (sub i t)) (root_of r)) (m_heap m a)"
      using h'(3) [of a] root [of a] aX n p by (simp add: free_all_def)
    show "m_heap ?m' x = m_heap m x" if "x \<in> set (bdd_manager B) - set (addrs (sub i t)) - {a}" for x
      using that by (intro keep) auto
    have "set (addrs (sub i t)) \<subseteq> set (bdd_manager B)" using sub_addrs [OF i(1)] D(13) by auto
    then show "set ?nodes' = set (bdd_manager B) - set (addrs (sub i t)) \<union> set (addrs r)" using X by auto
    show "allocated_below ?m'"
      unfolding allocated_below_def
    proof (intro allI impI)
      fix x assume x: "m_heap ?m' x \<noteq> None"
      then have "h' x \<noteq> None" by (auto simp: free_all_def split: if_splits)
      then have "?h x \<noteq> None" using h'(4) [of x] by simp
      then have "m_heap m x \<noteq> None" using n(1) by (auto simp: free_all_def split: if_splits)
      then show "x < m_fresh ?m'" using D(14) by (simp add: allocated_below_def fresh)
    qed
    show "distinct ?nodes'" using D(12) by simp
    show "j < bdd_id B" if "j \<in> set (node_ids r)" for j
    proof -
      have "set (node_ids (sub i t)) \<subseteq> set (node_ids t)" by (rule put_split [OF i(1)]) auto
      then show ?thesis using that r(4) D(6) by blast
    qed
  qed (use r X in auto)
  moreover have "B\<lparr>bdd_id := bdd_id B, bdd_manager := ?nodes'\<rparr> = B\<lparr>bdd_manager := ?nodes'\<rparr>" by (cases B) simp
  moreover have "edited m B ?m' (B\<lparr>bdd_manager := ?nodes'\<rparr>)"
    unfolding edited_def
  proof (intro conjI allI impI)
    fix x assume "x < m_fresh m" "x \<notin> set (bdd_manager B)"
    then have "x \<notin> set (addrs t)" using D(13) by auto
    then show "m_heap ?m' x = m_heap m x" using sub_addrs [OF i(1)] a(1) by (intro keep) auto
  qed (auto simp: fresh)
  ultimately show thesis using that [OF c h'(1) f] by simp
qed

lemma sub_cases:
  assumes "i \<in> set (node_ids t)" "in_heap h None t" "distinct (addrs t)" "distinct (node_ids t)"
  shows "sub i t = Stmt p j s u \<Longrightarrow> in_heap h (Some p) u" "sub i t = Cond p j c v w \<Longrightarrow> in_heap h (Some p) v"
    "sub i t = Cond p j c v w \<Longrightarrow> in_heap h (Some p) w" "distinct (addrs (sub i t))" "distinct (node_ids (sub i t))"
proof -
  show "sub i t = Stmt p j s u \<Longrightarrow> in_heap h (Some p) u" "sub i t = Cond p j c v w \<Longrightarrow> in_heap h (Some p) v"
    "sub i t = Cond p j c v w \<Longrightarrow> in_heap h (Some p) w"
    using in_heap_sub [OF assms(2,1)] by simp_all
  show "distinct (addrs (sub i t))" "distinct (node_ids (sub i t))"
    by (rule put_split [OF assms(1)]; use assms(3,4) in simp)+
qed

lemma free_all_empty [simp]: "free_all m {} = m"
  by (simp add: free_all_def)

lemma delete_non_branch_rep:
  assumes rep: "bdd_rep m B t it" and i: "i \<in> set (node_ids t)" "parent None i t = Some a"
    and s: "sub i t = Stmt p j s u"
  obtains m' B' where "delete_non_branch m B i = Some (Inr (m', B', root_of u))"
    "bdd_rep m' B' (put i u t) it" "edited m B m' B'" "bdd_id B' = bdd_id B"
proof -
  note D = bdd_repD [OF rep]
  note S = sub_cases [OF i(1) D(3-5)]
  have p: "root_of (sub i t) = Some p" by (simp add: s)
  obtain h h' m' nodes' where c: "connect (m_heap (free_all m {})) a p (root_of u) = Inr h"
    "set_prev_opt h (root_of u) (Some a) = Inr h'"
    "free_node ((free_all m {})\<lparr>m_heap := h'\<rparr>) (filter (\<lambda>x. x \<notin> {}) (bdd_manager B)) p = (m', nodes')"
    "bdd_rep m' (B\<lparr>bdd_manager := nodes'\<rparr>) (put i u t) it" "edited m B m' (B\<lparr>bdd_manager := nodes'\<rparr>)"
    by (rule unlink_rep [OF rep i p S(1) [OF s], of "{}"]) (use S(4,5) s in auto)
  obtain q where g: "get_node_by_id (m_heap m) B i = Some (Inr (Some q))" "root_of (sub i t) = Some q"
    "m_heap m q = Some (node_of (parent None i t) (sub i t))"
    by (rule get_node_found [OF rep i(1)])
  have "unlink_non_branch m (bdd_manager B) (Some p) = Inr (m', nodes', root_of u)"
    using g s i(2) c(1-3) by (cases s) (simp_all add: unlink_non_branch_def require_def deref_def)
  with g p c(4,5) show thesis
    by (intro that [of m' "B\<lparr>bdd_manager := nodes'\<rparr>"]) (simp_all add: delete_non_branch_def)
qed

lemma obind_assoc: "obind (obind x f) g = obind x (\<lambda>a. obind (f a) g)"
proof (cases x)
  case (Some r)
  then show ?thesis by (cases r) simp_all
qed simp

lemma free_side_subtree: "free_side m nodes (Some p) = free_subtree m nodes (Some p)"
proof -
  have "obind (recursive_free_children m nodes p) (\<lambda>(m, nodes). Some (Inr (free_node m nodes p))) =
      free_subtree m nodes (Some p)"
  proof (cases "m_heap m p")
    case None
    then show ?thesis by (subst free_subtree.simps) (simp add: recursive_free_children_def)
  next
    case (Some n)
    show ?thesis
      unfolding recursive_free_children_def
      by (subst (3) free_subtree.simps, simp add: Some obind_assoc,
          rule arg_cong2 [where f = obind, OF refl], auto simp: fun_eq_iff split: bdd_body.split)
  qed
  then show ?thesis by (simp add: free_side_def)
qed

lemma free_all_eqI:
  assumes "m_fresh m = m_fresh m'"
    and "\<And>x. (if x \<in> A then None else m_heap m x) = (if x \<in> A' then None else m_heap m' x)"
  shows "free_all m A = free_all m' A'"
proof -
  have "m\<lparr>m_heap := f\<rparr> = m'\<lparr>m_heap := f\<rparr>" for f
    using assms(1) by (cases m; cases m') simp
  then show ?thesis by (simp only: free_all_def assms(2))
qed

lemma free_children_correct:
  assumes "in_heap (m_heap m) prev t" "distinct (addrs t)" "set (addrs t) \<subseteq> set nodes" "distinct nodes"
    and "root_of t = Some p"
  obtains m' where "recursive_free_children m nodes p =
      Some (Inr (m', filter (\<lambda>x. x \<notin> set (addrs t) - {p}) nodes))" "m_fresh m' = m_fresh m"
    "\<And>x. x \<noteq> p \<Longrightarrow> m_heap m' x = (if x \<in> set (addrs t) then None else m_heap m x)"
proof (cases t)
  case (Stmt q i s u)
  then have u: "in_heap (m_heap m) (Some p) u" "distinct (addrs u)" "set (addrs u) \<subseteq> set nodes" "p \<notin> set (addrs u)"
    and n: "m_heap m p = Some (node_of prev t)" using assms by auto
  let ?m = "unlink_next (free_all m (set (addrs u))) p (node_of prev t)"
  have "recursive_free_children m nodes p = Some (Inr (?m, filter (\<lambda>x. x \<notin> set (addrs u)) nodes))"
    using free_subtree_correct [OF u(1-3) assms(4)] n Stmt by (cases s) (simp_all add: recursive_free_children_def)
  moreover have "filter (\<lambda>x. x \<notin> set (addrs u)) nodes = filter (\<lambda>x. x \<notin> set (addrs t) - {p}) nodes"
    using u(4) Stmt assms(5) by (intro filter_cong) auto
  ultimately have "recursive_free_children m nodes p = Some (Inr (?m, filter (\<lambda>x. x \<notin> set (addrs t) - {p}) nodes))"
    by (simp only:)
  then show thesis
  proof (rule that)
    show "m_fresh ?m = m_fresh m" by (simp add: unlink_next_def free_all_def)
    show "m_heap ?m x = (if x \<in> set (addrs t) then None else m_heap m x)" if "x \<noteq> p" for x
      using that Stmt assms(5) by (auto simp: unlink_next_def free_all_def)
  qed
next
  case (Cond q i c u v)
  then have u: "in_heap (m_heap m) (Some p) u" "distinct (addrs u)" "set (addrs u) \<subseteq> set nodes"
    and v: "in_heap (m_heap m) (Some p) v" "distinct (addrs v)" "set (addrs v) \<subseteq> set nodes"
    and d: "p \<notin> set (addrs u)" "p \<notin> set (addrs v)" "set (addrs u) \<inter> set (addrs v) = {}"
    and n: "m_heap m p = Some (node_of prev t)" using assms by auto
  let ?m1 = "free_all m (set (addrs u))" and ?nodes1 = "filter (\<lambda>x. x \<notin> set (addrs u)) nodes"
  let ?m2 = "free_all ?m1 (set (addrs v))" and ?nodes2 = "filter (\<lambda>x. x \<notin> set (addrs v)) ?nodes1"
  have v1: "in_heap (m_heap ?m1) (Some p) v"
    using v(1) d(3) by (subst in_heap_cong [of _ _ "m_heap m"]) (auto simp: free_all_def)
  have "recursive_free_children m nodes p = Some (Inr (?m2, ?nodes2))"
    using free_subtree_correct [OF u assms(4)] free_subtree_correct [OF v1 v(2), of ?nodes1] v(3) d(3) assms(4) n Cond
    by (simp add: recursive_free_children_def) blast
  moreover have "?nodes2 = filter (\<lambda>x. x \<notin> set (addrs t) - {p}) nodes"
    using d Cond assms(5) by (auto intro!: filter_cong)
  ultimately have "recursive_free_children m nodes p = Some (Inr (?m2, filter (\<lambda>x. x \<notin> set (addrs t) - {p}) nodes))"
    by (simp only:)
  then show thesis
  proof (rule that)
    show "m_fresh ?m2 = m_fresh m" by (simp add: free_all_def)
    show "m_heap ?m2 x = (if x \<in> set (addrs t) then None else m_heap m x)" if "x \<noteq> p" for x
      using that Cond assms(5) by (auto simp: free_all_def)
  qed
qed (use assms in simp)

text \<open>The side that stays, and whether what is asked for can be done: a side that is freed must be there.\<close>

fun kept_side :: "branch_deletion_action \<Rightarrow> ('a, 'e) bdd_tree \<Rightarrow> ('a, 'e) bdd_tree \<Rightarrow> ('a, 'e) bdd_tree" where
  "kept_side KeepOnTrue u v = u"
| "kept_side KeepOnFalse u v = v"
| "kept_side DeleteBoth u v = Empty"

fun sides_there :: "branch_deletion_action \<Rightarrow> ('a, 'e) bdd_tree \<Rightarrow> ('a, 'e) bdd_tree \<Rightarrow> bool" where
  "sides_there KeepOnTrue u v \<longleftrightarrow> v \<noteq> Empty"
| "sides_there KeepOnFalse u v \<longleftrightarrow> u \<noteq> Empty"
| "sides_there DeleteBoth u v \<longleftrightarrow> u \<noteq> Empty \<and> v \<noteq> Empty"

fun freed_side :: "branch_deletion_action \<Rightarrow> ('a, 'e) bdd_tree \<Rightarrow> ('a, 'e) bdd_tree \<Rightarrow> 'a set" where
  "freed_side KeepOnTrue u v = set (addrs v)"
| "freed_side KeepOnFalse u v = set (addrs u)"
| "freed_side DeleteBoth u v = set (addrs u) \<union> set (addrs v)"

lemma free_both:
  assumes u: "in_heap (m_heap m) prev u" "distinct (addrs u)" "set (addrs u) \<subseteq> set nodes" "root_of u = Some pu"
    and v: "in_heap (m_heap m) prev v" "distinct (addrs v)" "set (addrs v) \<subseteq> set nodes" "root_of v = Some pv"
    and d: "set (addrs u) \<inter> set (addrs v) = {}" "distinct nodes"
  shows "free_sides m nodes (Some pu) (Some pv) DeleteBoth =
    Some (Inr (free_all m (set (addrs u) \<union> set (addrs v)),
      filter (\<lambda>x. x \<notin> set (addrs u) \<union> set (addrs v)) nodes, None))"
proof -
  have pu: "pu \<in> set (addrs u)" "pu \<notin> set (addrs v)" and pv: "pv \<in> set (addrs v)" "pv \<notin> set (addrs u)"
    using root_of_addrs [OF u(4)] root_of_addrs [OF v(4)] d(1) by auto
  let ?nodes1 = "filter (\<lambda>x. x \<notin> set (addrs v) - {pv}) nodes"
  obtain m1 where m1: "recursive_free_children m nodes pv = Some (Inr (m1, ?nodes1))" "m_fresh m1 = m_fresh m"
    "\<And>x. x \<noteq> pv \<Longrightarrow> m_heap m1 x = (if x \<in> set (addrs v) then None else m_heap m x)"
    by (rule free_children_correct [OF v(1-3) d(2) v(4)]) blast
  have u1: "in_heap (m_heap m1) prev u"
  proof (subst in_heap_cong [of _ _ "m_heap m"])
    fix x assume "x \<in> set (addrs u)"
    then have "x \<noteq> pv" "x \<notin> set (addrs v)" using d(1) pv by auto
    then show "m_heap m1 x = m_heap m x" by (simp add: m1(3))
  qed (rule u(1))
  let ?nodes2 = "filter (\<lambda>x. x \<notin> set (addrs u) - {pu}) ?nodes1"
  have "set (addrs u) \<subseteq> set ?nodes1" "distinct ?nodes1" using u(3) d by auto
  then obtain m2 where m2: "recursive_free_children m1 ?nodes1 pu = Some (Inr (m2, ?nodes2))" "m_fresh m2 = m_fresh m1"
    "\<And>x. x \<noteq> pu \<Longrightarrow> m_heap m2 x = (if x \<in> set (addrs u) then None else m_heap m1 x)"
    by (rule free_children_correct [OF u1 u(2) _ _ u(4)]) blast
  let ?nodes3 = "filter (\<lambda>x. x \<noteq> pu) ?nodes2"
  have f1: "free_node m2 ?nodes2 pu = (free_all m2 {pu}, ?nodes3)"
    using pu u(3) d(2) by (intro free_node_owned) auto
  have f2: "free_node (free_all m2 {pu}) ?nodes3 pv = (free_all (free_all m2 {pu}) {pv}, filter (\<lambda>x. x \<noteq> pv) ?nodes3)"
    using pu pv v(3) d(2) by (intro free_node_owned) auto
  have "free_all (free_all m2 {pu}) {pv} = free_all m (set (addrs u) \<union> set (addrs v))"
  proof (rule free_all_eqI)
    show "m_fresh (free_all m2 {pu}) = m_fresh m" by (simp add: free_all_def m1(2) m2(2))
    fix x
    show "(if x \<in> {pv} then None else m_heap (free_all m2 {pu}) x) =
        (if x \<in> set (addrs u) \<union> set (addrs v) then None else m_heap m x)"
      using pu pv m1(3) [of x] m2(3) [of x] by (auto simp: free_all_def)
  qed
  moreover have "filter (\<lambda>x. x \<noteq> pv) ?nodes3 = filter (\<lambda>x. x \<notin> set (addrs u) \<union> set (addrs v)) nodes"
    using pu pv by (auto intro!: filter_cong)
  ultimately show ?thesis using m1(1) m2(1) f1 f2 by (simp add: free_sides_def)
qed

lemma delete_branch_rep:
  assumes rep: "bdd_rep m B t it" and i: "i \<in> set (node_ids t)" "parent None i t = Some a"
    and s: "sub i t = Cond p j c u v" and sides: "sides_there action u v"
  obtains m' B' where "delete_branch m B i action = Some (Inr (m', B', root_of (kept_side action u v)))"
    "bdd_rep m' B' (put i (kept_side action u v) t) it" "edited m B m' B'" "bdd_id B' = bdd_id B"
proof -
  note D = bdd_repD [OF rep]
  note S = sub_cases [OF i(1) D(3-5)]
  have p: "root_of (sub i t) = Some p" by (simp add: s)
  have d: "distinct (addrs u)" "distinct (addrs v)" "set (addrs u) \<inter> set (addrs v) = {}" "p \<notin> set (addrs u)" "p \<notin> set (addrs v)"
    and di: "distinct (node_ids u)" "distinct (node_ids v)" using S(4,5) s by auto
  have owned: "set (addrs u) \<subseteq> set (bdd_manager B)" "set (addrs v) \<subseteq> set (bdd_manager B)"
    using sub_addrs [OF i(1)] s D(13) by auto
  let ?X = "freed_side action u v" and ?r = "kept_side action u v"
  have f: "free_sides m (bdd_manager B) (root_of u) (root_of v) action =
      Some (Inr (free_all m ?X, filter (\<lambda>x. x \<notin> ?X) (bdd_manager B), root_of ?r))"
  proof (cases action)
    case KeepOnTrue
    then obtain pv where "root_of v = Some pv" using sides by (cases "root_of v") simp_all
    then show ?thesis using KeepOnTrue free_subtree_correct [OF S(3) [OF s] d(2) owned(2) D(12)]
      by (simp add: free_sides_def free_side_subtree)
  next
    case KeepOnFalse
    then obtain pu where "root_of u = Some pu" using sides by (cases "root_of u") simp_all
    then show ?thesis using KeepOnFalse free_subtree_correct [OF S(2) [OF s] d(1) owned(1) D(12)]
      by (simp add: free_sides_def free_side_subtree)
  next
    case DeleteBoth
    then obtain pu pv where "root_of u = Some pu" "root_of v = Some pv"
      using sides by (cases "root_of u"; cases "root_of v") simp_all
    then show ?thesis using DeleteBoth
        free_both [OF S(2) [OF s] d(1) owned(1) _ S(3) [OF s] d(2) owned(2) _ d(3) D(12)] by simp
  qed
  have r: "in_heap (m_heap m) (Some p) ?r" "distinct (addrs ?r)" "distinct (node_ids ?r)"
    "set (node_ids ?r) \<subseteq> set (node_ids (sub i t))"
    using S(2,3) [OF s] d di s by (cases action; auto)+
  have X: "set (addrs (sub i t)) = insert p (?X \<union> set (addrs ?r))" "p \<notin> ?X" "p \<notin> set (addrs ?r)"
    "?X \<inter> set (addrs ?r) = {}" using d s by (cases action; auto)+
  obtain h h' m' nodes' where c: "connect (m_heap (free_all m ?X)) a p (root_of ?r) = Inr h"
    "set_prev_opt h (root_of ?r) (Some a) = Inr h'"
    "free_node ((free_all m ?X)\<lparr>m_heap := h'\<rparr>) (filter (\<lambda>x. x \<notin> ?X) (bdd_manager B)) p = (m', nodes')"
    "bdd_rep m' (B\<lparr>bdd_manager := nodes'\<rparr>) (put i ?r t) it" "edited m B m' (B\<lparr>bdd_manager := nodes'\<rparr>)"
    by (rule unlink_rep [OF rep i p r X])
  obtain q where g: "get_node_by_id (m_heap m) B i = Some (Inr (Some q))" "root_of (sub i t) = Some q"
    "m_heap m q = Some (node_of (parent None i t) (sub i t))"
    by (rule get_node_found [OF rep i(1)])
  have "unlink_branch m (bdd_manager B) (Some p) action = Some (Inr (m', nodes', root_of ?r))"
    using g s i(2) f c(1-3) by (simp add: unlink_branch_def require_def deref_def)
  with g p c(4,5) show thesis
    by (intro that [of m' "B\<lparr>bdd_manager := nodes'\<rparr>"]) (simp_all add: delete_branch_def)
qed

end
