(* ===== verification/BDDInserts.thy ===== *)
theory BDDInserts
  imports BDDEdits
begin

text \<open>
  Adding to a diagram: a statement or a clone of one in front of a node, and a branch whose sides
  are the subtree at a node and a clone of it.
\<close>

section \<open>Splicing a statement in\<close>

lemma room_unat:
  fixes k :: u64
  assumes "unat k + n < 2 ^ 64"
  shows "unat (k + of_nat n) = unat k + n"
  using assms by (simp add: unat_word_ariths unat_of_nat)

lemma room_le:
  fixes k :: u64
  assumes "unat k + n < 2 ^ 64"
  shows "k \<le> k + of_nat n" "j < n \<Longrightarrow> k + of_nat j < k + of_nat n" "j \<le> n \<Longrightarrow> k \<le> k + of_nat j"
proof -
  show "k \<le> k + of_nat n" using room_unat [OF assms] by (simp add: word_le_nat_alt)
  show "k + of_nat j < k + of_nat n" if "j < n"
    using room_unat [OF assms] room_unat [of k j] that assms by (simp add: word_less_nat_alt)
  show "k \<le> k + of_nat j" if "j \<le> n"
    using room_unat [of k j] that assms by (simp add: word_le_nat_alt)
qed

lemma relabel_ids:
  fixes k :: u64
  assumes "unat k + length (addrs t) < 2 ^ 64"
  shows "distinct (node_ids (relabel k t))"
    "j \<in> set (node_ids (relabel k t)) \<Longrightarrow> k \<le> j \<and> j < k + of_nat (length (addrs t))"
proof -
  let ?f = "\<lambda>j. k + of_nat j :: u64"
  have "inj_on ?f {0..<length (addrs t)}"
  proof (rule inj_onI)
    fix x y assume xy: "x \<in> {0..<length (addrs t)}" "y \<in> {0..<length (addrs t)}" "?f x = ?f y"
    from xy(1,2) have "x < length (addrs t)" "y < length (addrs t)" by simp_all
    with assms have "unat k + x < 2 ^ 64" "unat k + y < 2 ^ 64" by linarith+
    from room_unat [OF this(1)] room_unat [OF this(2)] have "unat k + x = unat k + y" by (simp only: xy(3))
    then show "x = y" by simp
  qed
  then show "distinct (node_ids (relabel k t))" by (simp add: node_ids_relabel distinct_map)
  assume "j \<in> set (node_ids (relabel k t))"
  then obtain x where x: "j = k + of_nat x" "x < length (addrs t)"
    by (simp only: node_ids_relabel set_map set_upt) auto
  from room_le(2) [OF assms x(2)] room_le(3) [OF assms less_imp_le [OF x(2)]]
  show "k \<le> j \<and> j < k + of_nat (length (addrs t))" unfolding x(1) by (rule conjI [rotated])
qed

lemma splice_rep:
  assumes rep: "bdd_rep m B t it" and i: "i \<in> set (node_ids t)" "parent None i t = Some a"
    and p: "root_of (sub i t) = Some p"
    and b: "m_heap m1 b = Some n" "bn_id n = bdd_id B" "bn_body n = stmt_body s" "m_fresh m \<le> b" "b < m_fresh m1"
    and same: "\<And>x. x \<noteq> b \<Longrightarrow> m_heap m1 x = m_heap m x"
    and room: "unat (bdd_id B) + 1 < 2 ^ 64"
  obtains h where "splice (m_heap m1) a p b = Inr h"
    "bdd_rep (m1\<lparr>m_heap := h\<rparr>) (B\<lparr>bdd_id := bdd_id B + 1, bdd_manager := bdd_manager B @ [b]\<rparr>)
       (put i (Stmt b (bdd_id B) s (sub i t)) t) it"
    "edited m B (m1\<lparr>m_heap := h\<rparr>) (B\<lparr>bdd_id := bdd_id B + 1, bdd_manager := bdd_manager B @ [b]\<rparr>)"
proof -
  note D = bdd_repD [OF rep] and a = parent_in_tree [OF rep i]
  note S = sub_cases [OF i(1) D(3-5)]
  obtain na where na: "m_heap m a = Some na" "linked na p" by (rule anchor_linked [OF rep i p])
  have owned: "set (addrs (sub i t)) \<subseteq> set (bdd_manager B)" "a \<in> set (bdd_manager B)"
    using sub_addrs [OF i(1)] D(13) a(1) by auto
  have psub: "p \<in> set (addrs (sub i t))" using root_of_addrs [OF p] .
  have bnew: "b \<notin> set (bdd_manager B)" using D(15) b(4) by (meson not_le)
  have ne: "b \<noteq> a" "b \<noteq> p" "a \<noteq> p" "b \<notin> set (addrs (sub i t))" using bnew owned psub a(2) by auto
  have sub: "in_heap (m_heap m) (Some a) (sub i t)" using in_heap_sub [OF D(3) i(1)] i(2) by simp
  let ?s = "node_of (Some a) (sub i t)"
  have np: "m_heap m p = Some ?s" using in_heap_root [OF sub sub_ids(1) [OF i(1)]] p by simp
  let ?h1 = "(m_heap m1)(a \<mapsto> redirect (Some p) (Some b) na)"
  let ?h = "?h1(b \<mapsto> n\<lparr>bn_prev := Some a, bn_next := Some p\<rparr>, p \<mapsto> ?s\<lparr>bn_prev := Some b\<rparr>)"
  have "connect (m_heap m1) a p (Some b) = Inr ?h1"
    using na ne same by (intro connect_linked) simp_all
  then have sp: "splice (m_heap m1) a p b = Inr ?h"
    using b(1) np ne same by (simp add: splice_def set_prev_node_def set_next_node_def deref_def)
  let ?r = "Stmt b (bdd_id B) s (sub i t)" and ?m' = "m1\<lparr>m_heap := ?h\<rparr>"
  have "in_heap ?h (Some b) (sub i t)"
    by (rule in_heap_reprev [OF sub S(4) p np]) (use ne same a(2) in auto)
  moreover have "n\<lparr>bn_prev := Some a, bn_next := Some p\<rparr> =
      \<lparr>bn_id = bdd_id B, bn_next = Some p, bn_prev = Some a, bn_body = stmt_body s\<rparr>"
    using b(2,3) by (cases n) simp
  ultimately have r: "in_heap (m_heap ?m') (Some a) ?r" using p ne by simp
  have keep: "m_heap ?m' x = m_heap m x" if "x \<noteq> a" "x \<noteq> b" "x \<noteq> p" for x using that same by simp
  have "bdd_rep ?m' (B\<lparr>bdd_id := bdd_id B + 1, bdd_manager := bdd_manager B @ [b]\<rparr>) (put i ?r t) it"
  proof (rule bdd_rep_put [OF rep i r])
    show "m_heap ?m' a = map_option (redirect (root_of (sub i t)) (root_of ?r)) (m_heap m a)"
      using ne na p by simp
    show "m_heap ?m' x = m_heap m x" if "x \<in> set (bdd_manager B) - set (addrs (sub i t)) - {a}" for x
      using that bnew psub by (intro keep) auto
    show "distinct (node_ids ?r)" using S(5) D(6) put_split [OF i(1)] by (metis (no_types, lifting) Un_iff distinct.simps(2) node_ids.simps(2) order_less_irrefl set_append)
    show "set (node_ids ?r) \<subseteq> set (node_ids (sub i t)) \<union> {j. bdd_id B \<le> j}" by auto
    show "bdd_id B \<le> bdd_id B + 1" using room_le(1) [OF room] by simp
    show "j < bdd_id B + 1" if "j \<in> set (node_ids ?r)" for j
    proof -
      have "set (node_ids (sub i t)) \<subseteq> set (node_ids t)" by (rule put_split [OF i(1)]) auto
      then have "j \<le> bdd_id B" using that D(6) by (auto intro: less_imp_le)
      moreover have "bdd_id B < bdd_id B + 1" using room_le(2) [OF room, of 0] by simp
      ultimately show ?thesis by simp
    qed
    show "set (bdd_manager B @ [b]) = set (bdd_manager B) - set (addrs (sub i t)) \<union> set (addrs ?r)"
      using owned by auto
    show "allocated_below ?m'"
      unfolding allocated_below_def
    proof (intro allI impI)
      fix x assume "m_heap ?m' x \<noteq> None"
      then have "x = b \<or> m_heap m x \<noteq> None" using same na np by (auto split: if_splits)
      then have "x = b \<or> x < m_fresh m" using D(14) by (auto simp: allocated_below_def)
      with b(4,5) show "x < m_fresh ?m'" by auto
    qed
  qed (use S(4) ne(4) b(4) bnew D(12) in auto)
  moreover have "edited m B ?m' (B\<lparr>bdd_id := bdd_id B + 1, bdd_manager := bdd_manager B @ [b]\<rparr>)"
    unfolding edited_def
  proof (intro conjI allI impI)
    fix x assume "x < m_fresh m" "x \<notin> set (bdd_manager B)"
    then show "m_heap ?m' x = m_heap m x" using b(4) owned psub by (intro keep) auto
  qed (use b(4,5) in auto)
  ultimately show thesis by (rule that [OF sp])
qed

section \<open>Calls and clones of statements\<close>

lemma new_call_rep:
  assumes rep: "bdd_rep m B t it" and i: "i \<in> set (node_ids t)" "parent None i t = Some a"
    and room: "unat (bdd_id B) + 1 < 2 ^ 64"
  obtains m' B' c where "add_new_symbol_generator_function null m B i fn_name symbols = Some (Inr (m', B', c))"
    "bdd_rep m' B' (put i (Stmt c (bdd_id B)
       (SCall \<lparr>function_name = fn_name, extra_vars = [], call_args = [], call_ret = null\<rparr> symbols) (sub i t)) t) it"
    "edited m B m' B'" "bdd_id B' = bdd_id B + 1"
proof -
  let ?call = "\<lparr>function_name = fn_name, extra_vars = [], call_args = [], call_ret = null\<rparr>"
  let ?n = "\<lparr>bn_id = bdd_id B, bn_next = None, bn_prev = None, bn_body = Call ?call symbols\<rparr>"
  let ?b = "m_fresh m" and ?m1 = "m\<lparr>m_heap := (m_heap m)(m_fresh m \<mapsto> ?n), m_fresh := m_fresh m + 1\<rparr>"
  note D = bdd_repD [OF rep]
  obtain p n where f: "root_of (sub i t) = Some p" "get_node_by_id (m_heap m) B i = Some (Inr (Some p))"
    "m_heap m p = Some (node_of (Some a) (sub i t))" "m_heap m a = Some n"
    "bn_id (node_of (Some a) (sub i t)) = i"
    using find_anchor_found [OF rep i] by metis
  obtain r where r: "root_of t = Some r" using D(2) by (cases "root_of t") simp_all
  have t1: "in_heap (m_heap ?m1) None t"
    using D(3,13,15) by (subst in_heap_cong [of _ _ "m_heap m"]) auto
  have get: "get_node_by_id (m_heap ?m1) B' j = Some (Inr (Some q))"
    if "(j, q) \<in> set (entries t)" "bdd_root B' = bdd_root B" for j q and B' :: "'a bdd"
    using find_node(1) [OF t1 r D(5) that(1)] that(2) D(1) r by (simp add: get_node_by_id_def)
  have ea: "(bn_id n, a) \<in> set (entries t)"
    using addr_entry [OF D(3) parent_in_tree(1) [OF rep i]] f(4) by (metis option.inject)
  have ep: "(i, p) \<in> set (entries t)" using sub_entry [OF i(1)] f(1) by simp
  obtain h where h: "splice (m_heap ?m1) a p ?b = Inr h"
    "bdd_rep (?m1\<lparr>m_heap := h\<rparr>) (B\<lparr>bdd_id := bdd_id B + 1, bdd_manager := bdd_manager B @ [?b]\<rparr>)
       (put i (Stmt ?b (bdd_id B) (SCall ?call symbols) (sub i t)) t) it"
    "edited m B (?m1\<lparr>m_heap := h\<rparr>) (B\<lparr>bdd_id := bdd_id B + 1, bdd_manager := bdd_manager B @ [?b]\<rparr>)"
    by (rule splice_rep [OF rep i f(1) _ _ _ _ _ _ room, of ?m1 ?b ?n "SCall ?call symbols"]) simp_all
  have "add_new_symbol_generator_function null m B i fn_name symbols =
      Some (Inr (?m1\<lparr>m_heap := h\<rparr>, B\<lparr>bdd_id := bdd_id B + 1, bdd_manager := bdd_manager B @ [?b]\<rparr>, ?b))"
    unfolding add_new_symbol_generator_function_def create_new_call_def new_node_def
    using f get [OF ea] get [OF ep] h(1) sub_ids(1) [OF i(1)]
    by (simp add: require_def deref_def add_node_def)
  then show thesis by (rule that [OF _ h(2,3)]) simp
qed

lemma sub_put:
  assumes "i \<in> set (node_ids t)" "i \<in> set (node_ids r)"
  shows "sub i (put i r t) = sub i r" "parent prev i (put i r t) = parent (parent prev i t) i r"
    "i \<in> set (node_ids (put i r t))"
  using assms by (induction t arbitrary: prev) auto

text \<open>The clone of a statement, numbered.\<close>

lemma clone_stmt:
  assumes "m_heap m q = Some n" "bn_body n = stmt_body s"
  shows "clone_node m nodes q = Inr (m\<lparr>m_heap := (m_heap m)(m_fresh m \<mapsto> without_links n), m_fresh := m_fresh m + 1\<rparr>,
      nodes @ [m_fresh m], m_fresh m)"
    "recursive_update_ids ((m_heap m)(m_fresh m \<mapsto> without_links n)) k (m_fresh m) =
      Some (Inr ((m_heap m)(m_fresh m \<mapsto> (without_links n)\<lparr>bn_id := k\<rparr>), k + 1))"
    "bn_body (without_links n) = stmt_body s"
proof -
  show b: "bn_body (without_links n) = stmt_body s" using assms(2) by (cases s) (simp_all add: without_links_def)
  show "clone_node m nodes q = Inr (m\<lparr>m_heap := (m_heap m)(m_fresh m \<mapsto> without_links n), m_fresh := m_fresh m + 1\<rparr>,
      nodes @ [m_fresh m], m_fresh m)"
    using assms(1) by (simp add: clone_node_def deref_def new_node_def add_node_def)
  have "bn_next (without_links n) = None" by (simp add: without_links_def)
  with b show "recursive_update_ids ((m_heap m)(m_fresh m \<mapsto> without_links n)) k (m_fresh m) =
      Some (Inr ((m_heap m)(m_fresh m \<mapsto> (without_links n)\<lparr>bn_id := k\<rparr>), k + 1))"
    unfolding recursive_update_ids_def
    by (subst update_ids.simps, cases s) (simp_all add: update_ids.simps [of _ _ None])
qed

text \<open>Statements in front of the node \<open>i\<close>, each behind the ones before it.\<close>

fun insert_stmts :: "u64 \<Rightarrow> 'e bdd_stmt list \<Rightarrow> u64 \<Rightarrow> (unit, 'e) bdd_tree \<Rightarrow> (unit, 'e) bdd_tree" where
  "insert_stmts i [] k t = t"
| "insert_stmts i (s # ss) k t = insert_stmts i ss (k + 1) (put i (Stmt () k s (sub i t)) t)"

text \<open>Nodes of another diagram, with the statement each holds.\<close>

definition foreign_stmts :: "'e memory \<Rightarrow> 'e bdd \<Rightarrow> (node_ptr \<times> 'e bdd_stmt) list \<Rightarrow> bool" where
  "foreign_stmts m B qs \<longleftrightarrow>
     (\<forall>(q, s) \<in> set qs. q \<notin> set (bdd_manager B) \<and> (\<exists>n. m_heap m q = Some n \<and> bn_body n = stmt_body s))"

lemma foreign_kept:
  assumes "foreign_stmts m B qs" "edited m B m' B'" "allocated_below m"
  shows "foreign_stmts m' B' qs"
  unfolding foreign_stmts_def
proof (intro ballI, clarify)
  fix q s assume "(q, s) \<in> set qs"
  with assms(1) obtain n where q: "q \<notin> set (bdd_manager B)" "m_heap m q = Some n" "bn_body n = stmt_body s"
    by (auto simp: foreign_stmts_def)
  then have "q < m_fresh m" using assms(3) by (auto simp: allocated_below_def)
  with q assms(2) show "q \<notin> set (bdd_manager B') \<and> (\<exists>n. m_heap m' q = Some n \<and> bn_body n = stmt_body s)"
    by (auto simp: edited_def)
qed

lemma clone_non_branches_rep:
  assumes "bdd_rep m B t it" "i \<in> set (node_ids t)" "parent None i t = Some a" "root_of (sub i t) = Some p"
    and "foreign_stmts m B qs" "unat (bdd_id B) + length qs < 2 ^ 64"
  shows "\<exists>m' B' t'. clone_non_branches m B a p (map fst qs) = Some (Inr (m', B')) \<and> bdd_rep m' B' t' it \<and>
    edited m B m' B' \<and> bdd_id B' = bdd_id B + of_nat (length qs) \<and>
    erase t' = insert_stmts i (map snd qs) (bdd_id B) (erase t)"
  using assms
proof (induction qs arbitrary: m B t a)
  case Nil
  then show ?case by auto
next
  case (Cons qs0 qs)
  obtain q s where q: "qs0 = (q, s)" by (cases qs0)
  obtain n where n: "m_heap m q = Some n" "bn_body n = stmt_body s"
    using Cons.prems(5) by (auto simp: foreign_stmts_def q)
  note D = bdd_repD [OF Cons.prems(1)]
  let ?b = "m_fresh m" and ?k = "bdd_id B" and ?n = "(without_links n)\<lparr>bn_id := bdd_id B\<rparr>"
  let ?m1 = "m\<lparr>m_heap := (m_heap m)(m_fresh m \<mapsto> ?n), m_fresh := m_fresh m + 1\<rparr>"
  note c = clone_stmt [OF n]
  have room: "unat ?k + 1 < 2 ^ 64" using Cons.prems(6) by simp
  obtain h where h: "splice (m_heap ?m1) a p ?b = Inr h"
    "bdd_rep (?m1\<lparr>m_heap := h\<rparr>) (B\<lparr>bdd_id := ?k + 1, bdd_manager := bdd_manager B @ [?b]\<rparr>)
       (put i (Stmt ?b ?k s (sub i t)) t) it"
    "edited m B (?m1\<lparr>m_heap := h\<rparr>) (B\<lparr>bdd_id := ?k + 1, bdd_manager := bdd_manager B @ [?b]\<rparr>)"
    by (rule splice_rep [OF Cons.prems(1-4) _ _ _ _ _ _ room, of ?m1 ?b ?n s]) (use c(3) in simp_all)
  let ?m2 = "?m1\<lparr>m_heap := h\<rparr>" and ?B2 = "B\<lparr>bdd_id := ?k + 1, bdd_manager := bdd_manager B @ [?b]\<rparr>"
  let ?r = "Stmt ?b ?k s (sub i t)"
  have k: "?k \<noteq> i" using D(6) [OF Cons.prems(2)] by auto
  have ri: "i \<in> set (node_ids ?r)" using sub_ids(2) [OF Cons.prems(2)] by simp
  have si: "sub i ?r = sub i t" "parent (Some a) i ?r = Some ?b"
  proof -
    have "sub i (sub i t) = sub i t" "parent (Some ?b) i (sub i t) = Some ?b" if "i \<in> set (node_ids t)"
      for t :: "(node_ptr, 'a) bdd_tree" using that by (induction t) auto
    with Cons.prems(2) k show "sub i ?r = sub i t" "parent (Some a) i ?r = Some ?b" by auto
  qed
  note P = sub_put [OF Cons.prems(2) ri]
  have "foreign_stmts m B qs" using Cons.prems(5) by (auto simp: foreign_stmts_def)
  then have "foreign_stmts ?m2 ?B2 qs" by (rule foreign_kept [OF _ h(3) D(14)])
  moreover have "unat (bdd_id ?B2) + length qs < 2 ^ 64"
    using Cons.prems(6) room_unat [OF room] by simp
  moreover have "parent None i (put i ?r t) = Some ?b"
    by (simp only: P(2) [of None] Cons.prems(3) si(2))
  moreover have "root_of (sub i (put i ?r t)) = Some p" by (simp only: P(1) si(1) Cons.prems(4))
  ultimately obtain m' B' t' where r: "clone_non_branches ?m2 ?B2 ?b p (map fst qs) = Some (Inr (m', B'))"
    "bdd_rep m' B' t' it" "edited ?m2 ?B2 m' B'" "bdd_id B' = bdd_id ?B2 + of_nat (length qs)"
    "erase t' = insert_stmts i (map snd qs) (bdd_id ?B2) (erase (put i ?r t))"
    using Cons.IH [OF h(2) P(3)] by blast
  have "clone_non_branches m B a p (map fst (qs0 # qs)) = Some (Inr (m', B'))"
    using n c(1,2) h(1) r(1) by (cases s) (simp_all add: q deref_def)
  moreover have "edited m B m' B'" by (rule edited_trans [OF h(3) r(3)])
  ultimately show ?case using r(2,4,5) by (auto simp: q ac_simps)
qed

lemma add_cloned_non_branches_rep:
  assumes rep: "bdd_rep m B t it" and i: "i \<in> set (node_ids t)" "parent None i t = Some a"
    and qs: "foreign_stmts m B qs" "unat (bdd_id B) + length qs < 2 ^ 64"
  obtains m' B' t' q where "add_cloned_non_branches m B i (map fst qs) = Some (Inr (m', B', q))"
    "bdd_rep m' B' t' it" "edited m B m' B'" "bdd_id B' = bdd_id B + of_nat (length qs)"
    "erase t' = insert_stmts i (map snd qs) (bdd_id B) (erase t)"
proof -
  obtain p where f: "root_of (sub i t) = Some p" "find_anchor (m_heap m) B i = Some (Inr (Some a, Some p))"
    "get_node_by_id (m_heap m) B i = Some (Inr (Some p))"
    using find_anchor_found [OF rep i] by metis
  show thesis
  proof (cases "qs = []")
    case True
    with f rep show thesis by (intro that [of m B None t]) (simp_all add: add_cloned_non_branches_def require_def)
  next
    case False
    from clone_non_branches_rep [OF rep i f(1) qs] obtain m' B' t' where
      "clone_non_branches m B a p (map fst qs) = Some (Inr (m', B'))" "bdd_rep m' B' t' it" "edited m B m' B'"
      "bdd_id B' = bdd_id B + of_nat (length qs)" "erase t' = insert_stmts i (map snd qs) (bdd_id B) (erase t)"
      by blast
    with f False show thesis
      by (intro that [of m' B' "Some (m_fresh m)" t']) (simp_all add: add_cloned_non_branches_def require_def)
  qed
qed

section \<open>Branches\<close>

lemma add_cloned_branch_rep:
  fixes m :: "'e memory"
  assumes rep: "bdd_rep m B t it" and i: "i \<in> set (node_ids t)" "parent None i t = Some a"
    and room: "unat (bdd_id B) + (length (addrs (sub i t)) + 1) < 2 ^ 64"
  obtains m' B' b s' where "add_cloned_branch m B i c = Some (Inr (m', B', b))"
    "bdd_rep m' B' (put i (Cond b (bdd_id B + of_nat (length (addrs (sub i t)))) c (sub i t) (relabel (bdd_id B) s')) t) it"
    "erase s' = erase (sub i t)" "edited m B m' B'"
    "bdd_id B' = bdd_id B + of_nat (length (addrs (sub i t)) + 1)"
proof -
  note D = bdd_repD [OF rep] and a = parent_in_tree [OF rep i]
  note S = sub_cases [OF i(1) D(3-5)]
  let ?s = "sub i t" and ?k = "bdd_id B" and ?len = "length (addrs (sub i t))"
  obtain p where p: "root_of ?s = Some p" "find_anchor (m_heap m) B i = Some (Inr (Some a, Some p))"
    "m_heap m p = Some (node_of (Some a) ?s)"
    using find_anchor_found [OF rep i] by metis
  obtain na where na: "m_heap m a = Some na" "linked na p" by (rule anchor_linked [OF rep i p(1)])
  have sub: "in_heap (m_heap m) (Some a) ?s" using in_heap_sub [OF D(3) i(1)] i(2) by simp
  from clone_subtree_correct [OF sub D(14), of "bdd_manager B"] obtain m1 s' new where
    r1: "clone_subtree m (bdd_manager B) (root_of ?s) = Some (Inr (m1, bdd_manager B @ new, root_of s'))"
    and cl: "cloned_as m ?s m1 s' new" by blast
  note C = cloned_asD [OF cl]
  have ne: "s' \<noteq> Empty" using erase_root [OF C(2)] sub_ids(1) [OF i(1)] by simp
  then obtain f where f: "root_of s' = Some f" by (cases "root_of s'") simp_all
  have fin: "f \<in> set (addrs s')" by (rule root_of_addrs [OF f])
  have len: "length (addrs s') = ?len" using erase_ids(2) [of s'] erase_ids(2) [of ?s] by (simp only: C(2))
  from update_ids_correct [OF C(1,3), of ?k] obtain h2 where
    h2: "update_ids (m_heap m1) ?k (root_of s') = Some (Inr (h2, ?k + of_nat ?len))"
    "in_heap h2 None (relabel ?k s')" "\<And>x. x \<notin> set (addrs s') \<Longrightarrow> h2 x = m_heap m1 x"
    by (auto simp: len)
  let ?b = "m_fresh m1" and ?kb = "?k + of_nat ?len"
  let ?n0 = "\<lparr>bn_id = ?kb, bn_next = None, bn_prev = None, bn_body = Branch None c\<rparr> :: 'e bdd_node"
  let ?nb = "\<lparr>bn_id = ?kb, bn_next = Some p, bn_prev = Some a, bn_body = Branch (Some f) c\<rparr> :: 'e bdd_node"
  have owned: "set (addrs ?s) \<subseteq> set (bdd_manager B)" "a \<in> set (bdd_manager B)"
    using sub_addrs [OF i(1)] D(13) a(1) by auto
  have psub: "p \<in> set (addrs ?s)" by (rule root_of_addrs [OF p(1)])
  have old: "x < m_fresh m" "x \<notin> set (addrs s')" "x \<noteq> ?b" if "x \<in> set (bdd_manager B)" for x
    using D(15) [OF that] C(6) C(7) [of x] by auto
  have b: "?b \<notin> set (addrs s')" using C(8) by blast
  have ds: "?b \<noteq> a" "?b \<noteq> p" "a \<noteq> p" "f \<noteq> a" "f \<noteq> p" "?b \<noteq> f" "?b \<notin> set (addrs ?s)"
    using old owned psub a(2) fin b by auto
  have h2old: "h2 x = m_heap m x" if "x < m_fresh m" "x \<notin> set (addrs s')" for x
    using h2(3) [OF that(2)] C(9) [OF that(1)] by simp
  have np: "h2 p = Some (node_of (Some a) ?s)" and ha: "h2 a = Some na"
    using h2old p(3) na(1) old owned psub by auto
  let ?nf = "node_of None (relabel ?k s')"
  have nf: "h2 f = Some ?nf" using in_heap_root [OF h2(2)] ne f by simp
  let ?h5 = "h2(?b \<mapsto> ?nb\<lparr>bn_prev := None\<rparr>, p \<mapsto> (node_of (Some a) ?s)\<lparr>bn_prev := Some ?b\<rparr>, f \<mapsto> ?nf\<lparr>bn_prev := Some ?b\<rparr>)"
  let ?h7 = "?h5(a \<mapsto> redirect (Some p) (Some ?b) na)" and ?nb7 = "?nb\<lparr>bn_prev := None\<rparr>"
  let ?h8 = "?h7(?b \<mapsto> ?nb)"
  have conn: "connect ?h5 a p (Some ?b) = Inr ?h7" using na(2) ha ds by (intro connect_linked) simp_all
  let ?m' = "\<lparr>m_heap = ?h8, m_fresh = ?b + 1\<rparr>" and ?nodes = "(bdd_manager B @ new) @ [?b]"
  let ?B' = "B\<lparr>bdd_id := ?kb + 1, bdd_manager := ?nodes\<rparr>"
  have run: "add_cloned_branch m B i c = Some (Inr (?m', ?B', ?b))"
    using p(1,2) r1 f h2(1) np nf conn ds
    by (simp add: add_cloned_branch_def clone_recursive_def recursive_update_ids_def create_new_branch_def
        new_node_def add_node_def deref_def set_prev_node_def Let_def fun_upd_twist)
  let ?r = "Cond ?b ?kb c ?s (relabel ?k s')"
  have "in_heap ?h8 (Some ?b) ?s"
    by (rule in_heap_reprev [OF sub S(4) p(1,3)]) (use ds a(2) h2old old owned fin in auto)
  moreover have "in_heap ?h8 (Some ?b) (relabel ?k s')"
    by (rule in_heap_reprev [OF h2(2) _ _ nf]) (use C(3) f ds b old owned psub in auto)
  ultimately have r: "in_heap (m_heap ?m') (Some a) ?r" using p(1) f by simp
  have keep: "?h8 x = m_heap m x" if "x < m_fresh m" "x \<noteq> a" "x \<noteq> p" for x
  proof -
    have "x \<notin> set (addrs s')" "x \<noteq> ?b" using that(1) C(6) C(7) [of x] by auto
    then show ?thesis using that h2old [of x] fin by auto
  qed
  have roomk: "unat ?k + ?len < 2 ^ 64" "unat ?kb + 1 < 2 ^ 64" and kb: "unat ?kb = unat ?k + ?len"
  proof -
    show l: "unat ?k + ?len < 2 ^ 64" using room by linarith
    show "unat ?kb = unat ?k + ?len" by (rule room_unat [OF l])
    then show "unat ?kb + 1 < 2 ^ 64" using room by linarith
  qed
  have kbs: "?k \<le> ?kb" "?kb < ?kb + 1" "?k \<le> ?kb + 1"
    using room_le(1) [OF roomk(1)] room_le(2) [OF roomk(2), of 0] by simp_all
  have idsub: "set (node_ids ?s) \<subseteq> set (node_ids t)" by (rule put_split [OF i(1)]) auto
  have idk: "j < ?k" if "j \<in> set (node_ids ?s)" for j using that idsub D(6) by blast
  have roomr: "unat ?k + length (addrs s') < 2 ^ 64" using roomk(1) len by simp
  note R = relabel_ids [OF roomr, unfolded len]
  have "bdd_rep ?m' ?B' (put i ?r t) it"
  proof (rule bdd_rep_put [OF rep i r])
    show "m_heap ?m' a = map_option (redirect (root_of ?s) (root_of ?r)) (m_heap m a)"
      using ds na p(1) by simp
    show "m_heap ?m' x = m_heap m x" if "x \<in> set (bdd_manager B) - set (addrs ?s) - {a}" for x
      using that psub old(1) [of x] keep [of x] by auto
    show "distinct (addrs ?r)" using S(4) C(3) ds(7) b old owned by auto
    show "set (addrs ?r) \<subseteq> set (addrs ?s) \<union> {x. m_fresh m \<le> x}" using C(6,7) by auto
    show "distinct (node_ids ?r)" using S(5) R idk kbs by (fastforce simp: not_le [symmetric])
    show "set (node_ids ?r) \<subseteq> set (node_ids ?s) \<union> {j. ?k \<le> j}" using R(2) kbs(1) by auto
    show "j < ?kb + 1" if "j \<in> set (node_ids ?r)" for j
      using that R(2) [of j] idk [of j] kbs by (auto intro: less_trans less_le_trans)
    show "?k \<le> ?kb + 1" by (rule kbs(3))
    show "distinct ?nodes" using D(12) C(4,5) old b by auto
    show "set ?nodes = set (bdd_manager B) - set (addrs ?s) \<union> set (addrs ?r)" using owned C(5) by auto
    show "allocated_below ?m'"
      unfolding allocated_below_def
    proof (intro allI impI)
      fix x assume x: "m_heap ?m' x \<noteq> None"
      show "x < m_fresh ?m'"
      proof (cases "x \<in> set (addrs s') \<or> x = ?b \<or> x = a \<or> x = p")
        case True
        then show ?thesis using C(6) C(8) [of x] old(1) owned psub by fastforce
      next
        case False
        then have "m_heap m1 x \<noteq> None" using x h2(3) [of x] fin by (auto split: if_splits)
        then show ?thesis using C(10) by (auto simp: allocated_below_def less_Suc_eq)
      qed
    qed
  qed
  moreover have "edited m B ?m' ?B'"
    unfolding edited_def
  proof (intro conjI allI impI)
    fix x assume "x < m_fresh m" "x \<notin> set (bdd_manager B)"
    then show "m_heap ?m' x = m_heap m x" using owned psub keep [of x] by auto
  qed (use C(5,6,7) in auto)
  moreover have "bdd_id ?B' = ?k + of_nat (?len + 1)" by simp
  ultimately show thesis using that [OF run _ C(2)] by blast
qed

end
