(* ===== verification/BDDSample.thy ===== *)
theory BDDSample
  imports BDDInserts
begin

text \<open>
  A small diagram in a heap that also holds a node of another one: a lookup, then a branch on its
  result, which forwards on one side and counts and drops on the other.
\<close>

definition sample_call :: "string \<Rightarrow> nat bdd_stmt" where
  "sample_call f = SCall \<lparr>function_name = f, extra_vars = [], call_args = [], call_ret = 0\<rparr> {}"

definition sample_symbol :: "nat symbol_t" where
  "sample_symbol = \<lparr>sy_base = ''s'', sy_name = ''s'', sy_expr = 1\<rparr>"

definition sample_tree :: "(node_ptr, nat) bdd_tree" where
  "sample_tree =
     Stmt 1 0 (sample_call ''map_get'')
       (Cond 2 1 7 (Stmt 3 2 (SRoute Forward 5) Empty)
          (Stmt 4 3 (sample_call ''map_put'') (Stmt 5 4 (SRoute Drop 0) Empty)))"

definition sample_memory :: "nat memory" where
  "sample_memory =
     \<lparr>m_heap =
        [1 \<mapsto> \<lparr>bn_id = 0, bn_next = Some 2, bn_prev = None, bn_body = stmt_body (sample_call ''map_get'')\<rparr>,
         2 \<mapsto> \<lparr>bn_id = 1, bn_next = Some 3, bn_prev = Some 1, bn_body = Branch (Some 4) 7\<rparr>,
         3 \<mapsto> \<lparr>bn_id = 2, bn_next = None, bn_prev = Some 2, bn_body = Route Forward 5\<rparr>,
         4 \<mapsto> \<lparr>bn_id = 3, bn_next = Some 5, bn_prev = Some 2, bn_body = stmt_body (sample_call ''map_put'')\<rparr>,
         5 \<mapsto> \<lparr>bn_id = 4, bn_next = None, bn_prev = Some 4, bn_body = Route Drop 0\<rparr>,
         6 \<mapsto> \<lparr>bn_id = 9, bn_next = None, bn_prev = None, bn_body = stmt_body (sample_call ''hash'')\<rparr>],
      m_fresh = 7\<rparr>"

definition sample_bdd :: "nat bdd" where
  "sample_bdd =
     \<lparr>bdd_id = 5, bdd_device = sample_symbol, bdd_packet_len = sample_symbol, bdd_time = sample_symbol,
      base_constraints = [], bdd_init = [], bdd_root = Some 1, bdd_manager = [1, 2, 3, 4, 5]\<rparr>"

lemmas sample_defs = sample_tree_def sample_memory_def sample_bdd_def sample_call_def

lemma sample_rep: "bdd_rep sample_memory sample_bdd sample_tree Empty"
  by (auto simp: bdd_rep_def sample_defs allocated_below_def)

end
