(* ===== verification/BDDQueries.thy ===== *)
theory BDDQueries
  imports BDDSample
begin

text \<open>
  The walks up from a node, on trees: the constraints that a node is given are those under which
  it is reached; and what the inspection of a diagram accepts.
\<close>

section \<open>Constraints\<close>

text \<open>The conditions above a node, each with the side on which the node is.\<close>

fun conditions :: "u64 \<Rightarrow> ('a, 'e) bdd_tree \<Rightarrow> ('e \<times> bool) list" where
  "conditions i Empty = []"
| "conditions i (Stmt p j s u) = (if j = i then [] else conditions i u)"
| "conditions i (Cond p j c u v) =
     (if j = i then []
      else if i \<in> set (node_ids u) then (c, True) # conditions i u else (c, False) # conditions i v)"

text \<open>The nodes that are executed under a valuation of the conditions.\<close>

fun reached :: "('e \<Rightarrow> bool) \<Rightarrow> ('a, 'e) bdd_tree \<Rightarrow> u64 list" where
  "reached val Empty = []"
| "reached val (Stmt p i s u) = i # reached val u"
| "reached val (Cond p i c u v) = i # (if val c then reached val u else reached val v)"

lemma reached_subset: "set (reached val t) \<subseteq> set (node_ids t)"
  by (induction t) auto

lemma reached_iff:
  assumes "distinct (node_ids t)" "i \<in> set (node_ids t)"
  shows "i \<in> set (reached val t) \<longleftrightarrow> (\<forall>(c, side) \<in> set (conditions i t). val c = side)"
  using assms
proof (induction t)
  case (Cond p j c u v)
  have "i \<notin> set (reached val u)" if "i \<notin> set (node_ids u)" using that reached_subset [of val u] by blast
  moreover have "i \<notin> set (reached val v)" if "i \<notin> set (node_ids v)" using that reached_subset [of val v] by blast
  ultimately show ?case using Cond by auto
qed auto

abbreviation constraint_of :: "('e \<Rightarrow> 'e) \<Rightarrow> 'e \<times> bool \<Rightarrow> 'e" where
  "constraint_of neg \<equiv> \<lambda>(c, side). if side then c else neg c"

lemma branch_constraints_step:
  assumes "in_heap h (Some p) t" "t \<noteq> Empty" "h p = Some n"
  shows "branch_constraints_loop neg h (the (root_of t)) cs =
    branch_constraints_loop neg h p
      (case bn_body n of Branch f c \<Rightarrow> (if f = root_of t then neg c else c) # cs | _ \<Rightarrow> cs)"
proof -
  have "root_of t = Some (the (root_of t))" using assms(2) by (cases t) simp_all
  then show ?thesis using in_heap_root [OF assms(1,2)] assms(2,3)
    by (subst branch_constraints_loop.simps) (simp split: bdd_body.splits)
qed

lemma branch_constraints_up:
  assumes "in_heap h prev t" "distinct (addrs t)" "i \<in> set (node_ids t)"
  shows "branch_constraints_loop neg h (the (root_of (sub i t))) cs =
    branch_constraints_loop neg h (the (root_of t)) (map (constraint_of neg) (conditions i t) @ cs)"
  using assms
proof (induction t arbitrary: prev)
  case (Stmt p j s u)
  show ?case
  proof (cases "j = i")
    case False
    then have i: "i \<in> set (node_ids u)" and u: "in_heap h (Some p) u" using Stmt.prems by auto
    have "u \<noteq> Empty" using i by auto
    from branch_constraints_step [OF u this] Stmt.prems(1) Stmt.IH [OF u _ i] Stmt.prems(2) False
    show ?thesis by (cases s) simp_all
  qed simp
next
  case (Cond p j c u v)
  have uv: "set (addrs u) \<inter> set (addrs v) = {}" using Cond.prems(2) by auto
  consider "j = i" | "j \<noteq> i" "i \<in> set (node_ids u)" | "j \<noteq> i" "i \<notin> set (node_ids u)" "i \<in> set (node_ids v)"
    using Cond.prems(3) by auto
  then show ?case
  proof cases
    case 2
    then have u: "in_heap h (Some p) u" "u \<noteq> Empty" using Cond.prems(1) by auto
    have "root_of v \<noteq> root_of u" using root_of_addrs [of u] root_of_addrs [of v] uv u(2) by (cases u) auto
    with branch_constraints_step [OF u] Cond.prems Cond.IH(1) [OF u(1) _ 2(2)] 2 show ?thesis by simp
  next
    case 3
    then have v: "in_heap h (Some p) v" "v \<noteq> Empty" using Cond.prems(1) by auto
    with branch_constraints_step [OF v] Cond.prems Cond.IH(2) [OF v(1) _ 3(3)] 3 show ?thesis by simp
  qed simp
qed simp

lemma ordered_branch_constraints:
  assumes "bdd_rep m B t it" "i \<in> set (node_ids t)"
  shows "get_ordered_branch_constraints neg (m_heap m) (the (root_of (sub i t))) =
    Some (Inr (map (constraint_of neg) (conditions i t)))"
proof -
  note D = bdd_repD [OF assms(1)]
  have "branch_constraints_loop neg (m_heap m) (the (root_of t)) cs = Some (Inr cs)" for cs
    using in_heap_root [OF D(3,2)] D(2) by (subst branch_constraints_loop.simps) simp
  with branch_constraints_up [OF D(3,4) assms(2)] show ?thesis
    by (simp add: get_ordered_branch_constraints_def)
qed

text \<open>C9. The constraints that a node is given beyond those of the whole diagram hold under exactly
  the valuations that lead to the node.\<close>
theorem constraints_characterise_node:
  assumes "bdd_rep m B t it" "i \<in> set (node_ids t)" "\<And>c. val (neg c) \<longleftrightarrow> \<not> val c"
  shows "\<exists>p cs. get_node_by_id (m_heap m) B i = Some (Inr (Some p)) \<and>
    get_constraints neg (m_heap m) B p = Some (Inr (base_constraints B @ cs)) \<and>
    ((\<forall>c \<in> set cs. val c) \<longleftrightarrow> i \<in> set (reached val t))"
proof -
  let ?cs = "map (constraint_of neg) (conditions i t)"
  obtain p where p: "get_node_by_id (m_heap m) B i = Some (Inr (Some p))" "root_of (sub i t) = Some p"
    by (rule get_node_found [OF assms(1,2)])
  have "get_constraints neg (m_heap m) B p = Some (Inr (base_constraints B @ ?cs))"
    using ordered_branch_constraints [OF assms(1,2)] p(2) by (simp add: get_constraints_def)
  moreover have "(\<forall>c \<in> set ?cs. val c) \<longleftrightarrow> i \<in> set (reached val t)"
    using reached_iff [OF bdd_repD(5) [OF assms(1)] assms(2), of val] assms(3) by (auto split: if_splits)
  ultimately show ?thesis using p(1) by blast
qed

text \<open>Here negation is the successor, and even numbers are true.\<close>

theorem constraints_characterise_node_witness:
  "\<exists>p cs. get_node_by_id (m_heap sample_memory) sample_bdd 3 = Some (Inr (Some p)) \<and>
    get_constraints Suc (m_heap sample_memory) sample_bdd p = Some (Inr (base_constraints sample_bdd @ cs)) \<and>
    ((\<forall>c \<in> set cs. even c) \<longleftrightarrow> 3 \<in> set (reached even sample_tree))"
  by (rule constraints_characterise_node [OF sample_rep]) (simp_all add: sample_defs)

section \<open>Inspection\<close>

text \<open>The nodes above a link, the nearest first.\<close>

fun walk_up :: "'e bdd_heap \<Rightarrow> node_ptr option \<Rightarrow> 'e bdd_node list \<Rightarrow> bool" where
  "walk_up h q [] \<longleftrightarrow> q = None"
| "walk_up h q (n # ns) \<longleftrightarrow> (\<exists>p. q = Some p \<and> h p = Some n) \<and> walk_up h (bn_prev n) ns"

fun generated :: "'e bdd_body \<Rightarrow> 'e symbol_t set" where
  "generated (Call c syms) = {s \<in> syms. sy_base s \<noteq> ''packet_chunks''}"
| "generated b = {}"

lemma prev_symbols_up:
  "walk_up h q ns \<Longrightarrow>
    prev_symbols_loop h {} q symbols = Some (Inr (symbols \<union> (\<Union>n \<in> set ns. generated (bn_body n))))"
proof (induction ns arbitrary: q symbols)
  case Nil
  then show ?case by (subst prev_symbols_loop.simps) simp
next
  case (Cons n ns)
  then show ?case by (subst prev_symbols_loop.simps) (auto split: bdd_body.splits)
qed

text \<open>
  What the inspection demands: branches have both sides, and a node uses only symbols that are
  always known or that a call above it generates.
\<close>

fun has_all_sides :: "('a, 'e) bdd_tree \<Rightarrow> bool" where
  "has_all_sides (Cond p i c u v) \<longleftrightarrow> u \<noteq> Empty \<and> v \<noteq> Empty \<and> has_all_sides u \<and> has_all_sides v"
| "has_all_sides (Stmt p i s u) \<longleftrightarrow> has_all_sides u"
| "has_all_sides Empty \<longleftrightarrow> True"

fun well_scoped :: "('e bdd_body \<Rightarrow> string set) \<Rightarrow> string set \<Rightarrow> (node_ptr, 'e) bdd_tree \<Rightarrow> bool" where
  "well_scoped used known (Cond p i c u v) \<longleftrightarrow>
     used (Branch (root_of v) c) \<subseteq> known \<and> well_scoped used known u \<and> well_scoped used known v"
| "well_scoped used known (Stmt p i s u) \<longleftrightarrow>
     used (stmt_body s) \<subseteq> known \<and> well_scoped used (known \<union> sy_name ` generated (stmt_body s)) u"
| "well_scoped used known Empty \<longleftrightarrow> True"

abbreviation known_after :: "'e bdd_node list \<Rightarrow> string set" where
  "known_after ns \<equiv> symbols_always_known \<union> sy_name ` (\<Union>n \<in> set ns. generated (bn_body n))"

lemma inspect_init_calls:
  "in_heap h prev it \<Longrightarrow> calls_only it \<Longrightarrow> inspect_init h (addrs it) = Inr Inspected_Ok"
proof (induction it arbitrary: prev)
  case (Stmt p i s u)
  have u: "calls_only u" using Stmt.prems(2) by (cases s) simp_all
  show ?case
  proof (cases u)
    case (Stmt q j s' w)
    with Stmt.IH [of "Some p"] Stmt.prems(1) u show ?thesis by (simp add: deref_def)
  next
    case (Cond q j c w w')
    with u show ?thesis by simp
  qed simp
qed simp_all

text \<open>At one node of the tree the visit goes on exactly when the node is in order.\<close>

definition node_fine :: "('e bdd_body \<Rightarrow> string set) \<Rightarrow> 'e bdd_node list \<Rightarrow> (node_ptr, 'e) bdd_tree \<Rightarrow> bool" where
  "node_fine used ns t \<longleftrightarrow>
     (case t of
        Cond p i c u v \<Rightarrow> used (Branch (root_of v) c) \<subseteq> known_after ns \<and> u \<noteq> Empty \<and> v \<noteq> Empty
      | Stmt p i s u \<Rightarrow> used (stmt_body s) \<subseteq> known_after ns
      | Empty \<Rightarrow> True)"

lemma known_after_stmt:
  "known_after (node_of prev (Stmt p i s u) # ns) = known_after ns \<union> sy_name ` generated (stmt_body s)"
  by auto

lemma fine_subtrees:
  "t \<noteq> Empty \<Longrightarrow>
    has_all_sides t \<and> well_scoped used (known_after ns) t \<longleftrightarrow>
    node_fine used ns t \<and>
    (\<forall>u \<in> set (subtrees t). has_all_sides u \<and> well_scoped used (known_after (node_of prev t # ns)) u)"
proof (cases t)
  case (Stmt p i s u)
  then show ?thesis
    unfolding Stmt known_after_stmt by (cases "u = Empty") (auto simp: node_fine_def)
next
  case (Cond p i c u v)
  then show ?thesis by (auto simp: node_fine_def)
qed simp

lemma inspect_links_tree:
  assumes "in_heap h prev t" "t \<noteq> Empty"
  shows "inspect_links h (the (root_of t)) (node_of prev t) =
    Inr (case t of Cond p i c u v \<Rightarrow>
           if u = Empty \<or> v = Empty then (Stop, BranchWithoutChildren) else (Continue, Inspected_Ok)
         | _ \<Rightarrow> (Continue, Inspected_Ok))"
proof (cases t)
  case (Stmt p i s u)
  with assms in_heap_root [of h "Some p" u] show ?thesis
    by (cases s; cases u) (simp_all add: inspect_links_def link_broken_def deref_def)
next
  case (Cond p i c u v)
  with assms in_heap_root [of h "Some p" u] in_heap_root [of h "Some p" v] show ?thesis
    by (cases u; cases v) (simp_all add: inspect_links_def link_broken_def deref_def)
qed (use assms in simp)

lemma inspect_node_tree:
  assumes "in_heap h prev t" "t \<noteq> Empty" "walk_up h prev ns"
    and "the (root_of t) \<in> set nodes" "the (root_of t) \<notin> visited"
  shows "\<exists>action report visited'.
    inspect_node used h nodes (the (root_of t)) (node_of prev t) (s, visited) = Inr (action, report, visited') \<and>
    (if node_fine used ns t
     then action = Continue \<and> report = Inspected_Ok \<and> visited' = insert (the (root_of t)) visited
     else action = Stop \<and> report \<noteq> Inspected_Ok)"
proof -
  have "get_prev_symbols h (node_of prev t) {} = Some (Inr (\<Union>n \<in> set ns. generated (bn_body n)))"
    using prev_symbols_up [OF assms(3), of "{}"] assms(2) by (simp add: get_prev_symbols_def)
  with assms inspect_links_tree [OF assms(1,2)] show ?thesis
    by (cases t) (auto simp: inspect_node_def node_fine_def Diff_subset_conv)
qed

lemma walk_up_unique: "walk_up h q ns \<Longrightarrow> walk_up h q ns' \<Longrightarrow> ns = ns'"
proof (induction ns arbitrary: q ns')
  case Nil
  then show ?case by (cases ns') auto
next
  case (Cons n ns)
  then show ?case by (cases ns') auto
qed

lemma subtrees_addrs:
  "t \<noteq> Empty \<Longrightarrow> addrs t = the (root_of t) # concat (map addrs (subtrees t))"
  by (cases t) auto

lemma ball_queue:
  "(Q prev t \<longleftrightarrow> (\<forall>u \<in> set us. Q p u)) \<Longrightarrow>
    (\<forall>(prev, t, k) \<in> set (q @ map (\<lambda>u. (p, u, ())) us). Q prev t) \<longleftrightarrow>
    (\<forall>(prev, t, k) \<in> set ((prev, t, k) # q). Q prev t)"
  by (simp add: ball_Un conj_commute)

lemma distinct_rotate: "distinct (p # Y @ X) \<Longrightarrow> distinct (X @ Y) \<and> p \<notin> set (X @ Y)"
  by auto

lemma inspect_trees:
  assumes "fn = (\<lambda>p n k s. rbind (inspect_node used h nodes p n s) (\<lambda>(a, s'). Inr (a, (), s')))"
    and "\<forall>(prev, t, k) \<in> set q. in_heap h prev t \<and> t \<noteq> Empty \<and> (\<exists>ns. walk_up h prev ns) \<and> set (addrs t) \<subseteq> set nodes"
    and "distinct (concat (map (\<lambda>(prev, t, k). addrs t) q))"
    and "\<forall>(prev, t, k) \<in> set q. set (addrs t) \<inter> snd s = {}" "fst s = Inspected_Ok"
  shows "\<exists>report visited. visit_trees fn q s = Inr (report, visited) \<and>
    (report = Inspected_Ok \<longleftrightarrow>
     (\<forall>(prev, t, k) \<in> set q. \<forall>ns. walk_up h prev ns \<longrightarrow> has_all_sides t \<and> well_scoped used (known_after ns) t))"
  using assms
proof (induction fn q s rule: visit_trees.induct)
  case (1 fn s)
  then show ?case by (cases s) simp
next
  case (2 fn prev t k q s)
  obtain ns where t: "in_heap h prev t" "t \<noteq> Empty" "walk_up h prev ns" "set (addrs t) \<subseteq> set nodes"
    using 2(3) by auto
  obtain visited where s: "s = (Inspected_Ok, visited)" using 2(6) by (cases s) simp
  let ?p = "the (root_of t)" and ?n = "node_of prev t"
  let ?q = "q @ map (\<lambda>u. (root_of t, u, ())) (subtrees t)"
  have root: "?p \<in> set (addrs t)" using subtrees_addrs [OF t(2)] by simp
  with t(4) 2(5) s have p: "?p \<in> set nodes" "?p \<notin> visited" by auto
  from inspect_node_tree [OF t(1-3) p, of used Inspected_Ok] obtain action report visited' where
    step: "inspect_node used h nodes ?p ?n (Inspected_Ok, visited) = Inr (action, report, visited')"
    and fine: "if node_fine used ns t
       then action = Continue \<and> report = Inspected_Ok \<and> visited' = insert ?p visited
       else action = Stop \<and> report \<noteq> Inspected_Ok" by blast
  have f: "fn ?p ?n k s = Inr (action, (), report, visited')" using step s by (simp add: 2(2))
  have only: "walk_up h prev ns' \<longleftrightarrow> ns' = ns" for ns' using walk_up_unique [OF t(3)] t(3) by blast
  note F = fine_subtrees [OF t(2), of used ns prev]
  show ?case
  proof (cases "node_fine used ns t")
    case False
    with fine f have "visit_trees fn ((prev, t, k) # q) s = Inr (report, visited')"
      by (simp add: visit_trees.simps(2))
    with False fine F only show ?thesis by auto
  next
    case True
    with fine have a: "action = Continue" "report = Inspected_Ok" "visited' = insert ?p visited" by simp_all
    have up: "walk_up h (root_of t) ns' \<longleftrightarrow> ns' = ?n # ns" for ns'
    proof -
      have "walk_up h (root_of t) (?n # ns)"
        using in_heap_root [OF t(1,2)] t(2,3) by (cases t) simp_all
      then show ?thesis using walk_up_unique by blast
    qed
    let ?A = "\<lambda>q. concat (map (\<lambda>(prev, t, k). addrs t) q)"
    have A: "?A ((prev, t, k) # q) = ?p # concat (map addrs (subtrees t)) @ ?A q"
      "?A ?q = ?A q @ concat (map addrs (subtrees t))"
      using subtrees_addrs [OF t(2)] by (simp_all add: comp_def)
    have q1: "\<forall>(prev, t, k) \<in> set ?q. in_heap h prev t \<and> t \<noteq> Empty \<and> (\<exists>ns. walk_up h prev ns) \<and> set (addrs t) \<subseteq> set nodes"
    proof -
      have "\<forall>u \<in> set (subtrees t). in_heap h (root_of t) u \<and> u \<noteq> Empty"
        using subtrees_in_heap [OF t(1)] by blast
      moreover have "\<forall>u \<in> set (subtrees t). set (addrs u) \<subseteq> set nodes"
        using t(4) subtrees_addrs [OF t(2)] by auto
      moreover have "\<exists>ns. walk_up h (root_of t) ns" using up by blast
      moreover have "\<forall>(prev, t, k) \<in> set q. in_heap h prev t \<and> t \<noteq> Empty \<and> (\<exists>ns. walk_up h prev ns) \<and> set (addrs t) \<subseteq> set nodes"
        using 2(3) by simp
      ultimately show ?thesis by (auto simp del: up)
    qed
    have q2: "distinct (?A ?q)" "?p \<notin> set (?A ?q)"
      using distinct_rotate [OF 2(4) [unfolded A(1)]] unfolding A(2) by (rule conjunct1, rule conjunct2)
    have "set (?A ((prev, t, k) # q)) \<inter> visited = {}" using 2(5) s by auto
    then have "set (?A ?q) \<inter> visited' = {}" using q2(2) unfolding A a(3) set_append list.set by blast
    then have q3: "\<forall>(prev, t, k) \<in> set ?q. set (addrs t) \<inter> snd (report, visited') = {}" by fastforce
    have "visit_trees fn ((prev, t, k) # q) s = visit_trees fn ?q (report, visited')"
      using f a by (simp add: visit_trees.simps(2))
    moreover have "\<exists>report'' visited. visit_trees fn ?q (report, visited') = Inr (report'', visited) \<and>
      (report'' = Inspected_Ok \<longleftrightarrow>
       (\<forall>(prev, t, k) \<in> set ?q. \<forall>ns. walk_up h prev ns \<longrightarrow> has_all_sides t \<and> well_scoped used (known_after ns) t))"
      using 2(1) [OF f refl refl] 2(2) q1 q2 q3 a by simp
    moreover have "(\<forall>ns. walk_up h prev ns \<longrightarrow> has_all_sides t \<and> well_scoped used (known_after ns) t) \<longleftrightarrow>
      (\<forall>u \<in> set (subtrees t). \<forall>ns. walk_up h (root_of t) ns \<longrightarrow> has_all_sides u \<and> well_scoped used (known_after ns) u)"
      unfolding only up using F True by (simp only: simp_thms)
    note ball_queue [OF this]
    ultimately show ?thesis by simp
  qed
qed

text \<open>C8. The inspection is exact: of the diagrams that a heap can hold it accepts those, and only
  those, whose branches have both sides and whose nodes use no symbol before it is generated.\<close>
theorem inspect_exact:
  assumes "bdd_rep m B t it"
  shows "\<exists>status. inspect used (m_heap m) B = Some (Inr status) \<and>
    (status = Inspected_Ok \<longleftrightarrow> has_all_sides t \<and> well_scoped used symbols_always_known t)"
proof -
  note D = bdd_repD [OF assms]
  obtain r where r: "root_of t = Some r" using D(2) by (cases "root_of t") simp_all
  have up: "walk_up (m_heap m) None ns \<longleftrightarrow> ns = []" for ns by (cases ns) simp_all
  let ?fn = "\<lambda>p n k s. rbind (inspect_node used (m_heap m) (bdd_manager B) p n s) (\<lambda>(a, s'). Inr (a, (), s'))"
  have "\<exists>report visited. visit_trees ?fn [(None, t, ())] (Inspected_Ok, {}) = Inr (report, visited) \<and>
    (report = Inspected_Ok \<longleftrightarrow>
     (\<forall>(prev, t, k) \<in> set [(None, t, ())]. \<forall>ns. walk_up (m_heap m) prev ns \<longrightarrow>
        has_all_sides t \<and> well_scoped used (known_after ns) t))"
    by (rule inspect_trees [OF refl]) (use D(2,3,4,13) up in auto)
  then obtain report visited where v: "visit_trees ?fn [(None, t, ())] (Inspected_Ok, {}) = Inr (report, visited)"
    and ok: "report = Inspected_Ok \<longleftrightarrow> has_all_sides t \<and> well_scoped used symbols_always_known t"
    by (auto simp: up)
  have "inspect used (m_heap m) B = Some (Inr report)"
    using inspect_init_calls [OF D(7,8)] visit_tree [OF D(3) r, of "inspect_node used (m_heap m) (bdd_manager B)"] v D(1,9) r
    by (simp add: inspect_def)
  with ok show ?thesis by blast
qed

theorem inspect_exact_witness:
  "inspect (\<lambda>_. {''pkt_len''}) (m_heap sample_memory) sample_bdd = Some (Inr Inspected_Ok)"
  using inspect_exact [OF sample_rep, of "\<lambda>_. {''pkt_len''}"]
  by (auto simp: sample_defs symbols_always_known_def)

end
