(* ===== verification/BDDComparison.thy ===== *)
theory BDDComparison
  imports BDDQueries
begin

text \<open>
  The comparison of subtrees, and the deletion of a branch that constraints decide.
\<close>

section \<open>Equal subtrees\<close>

fun alike :: "('e \<Rightarrow> 'e \<Rightarrow> bool) \<Rightarrow> ('a, 'e) bdd_tree \<Rightarrow> ('b, 'e) bdd_tree \<Rightarrow> bool" where
  "alike eq Empty Empty \<longleftrightarrow> True"
| "alike eq (Stmt p i s u) (Stmt p' i' s' u') \<longleftrightarrow> body_equal eq (stmt_body s) (stmt_body s') \<and> alike eq u u'"
| "alike eq (Cond p i c u v) (Cond p' i' c' u' v') \<longleftrightarrow> eq c c' \<and> alike eq u u' \<and> alike eq v v'"
| "alike eq t t' \<longleftrightarrow> False"

lemma alike_Empty [simp]: "alike eq Empty t \<longleftrightarrow> t = Empty" "alike eq t Empty \<longleftrightarrow> t = Empty"
  by (cases t; simp)+

lemma alike_exec:
  assumes "alike eq t t'" "\<And>c c'. eq c c' \<Longrightarrow> val c \<longleftrightarrow> val c'"
  shows "list_all2 (\<lambda>s s'. body_equal eq (stmt_body s) (stmt_body s')) (exec val t) (exec val t')"
  using assms by (induction eq t t' rule: alike.induct) auto

lemma body_equal_kinds [simp]:
  "\<not> body_equal eq (stmt_body s) (Branch f c)" "\<not> body_equal eq (Branch f c) (stmt_body s)"
  by (cases s; simp)+

text \<open>The pairs of subtrees that the next round puts at the end of the queues.\<close>

fun next_pairs ::
  "(node_ptr, 'e) bdd_tree \<Rightarrow> (node_ptr, 'e) bdd_tree \<Rightarrow> ((node_ptr, 'e) bdd_tree \<times> (node_ptr, 'e) bdd_tree) list"
where
  "next_pairs (Stmt p i s u) (Stmt p' i' s' u') = (if u = Empty then [] else [(u, u')])"
| "next_pairs (Cond p i c u v) (Cond p' i' c' u' v') = [(u, u'), (v, v')]"
| "next_pairs t t' = []"

definition comparable :: "'e bdd_heap \<Rightarrow> (node_ptr, 'e) bdd_tree \<times> (node_ptr, 'e) bdd_tree \<Rightarrow> bool" where
  "comparable h = (\<lambda>(t, t'). t \<noteq> Empty \<and> t' \<noteq> Empty \<and> has_all_sides t \<and>
     (\<exists>prev. in_heap h prev t) \<and> (\<exists>prev. in_heap h prev t'))"

text \<open>One round decides against the pair, or leaves it to the pairs below.\<close>

lemma compare_round:
  assumes "comparable h (t, t')"
  shows "(compare_nodes eq h (root_of t) (root_of t') = Inr None \<and> \<not> alike eq t t') \<or>
    (compare_nodes eq h (root_of t) (root_of t') =
       Inr (Some (map (root_of \<circ> fst) (next_pairs t t'), map (root_of \<circ> snd) (next_pairs t t'))) \<and>
     (alike eq t t' \<longleftrightarrow> (\<forall>(u, u') \<in> set (next_pairs t t'). alike eq u u')) \<and>
     (\<forall>x \<in> set (next_pairs t t'). comparable h x))"
proof -
  obtain prev prev' where h: "in_heap h prev t" "in_heap h prev' t'" "t \<noteq> Empty" "t' \<noteq> Empty" "has_all_sides t"
    using assms by (auto simp: comparable_def)
  show ?thesis
  proof (cases t)
    case (Stmt p i s u)
    show ?thesis
    proof (cases t')
      case s': (Stmt p' i' s' u')
      with Stmt h show ?thesis
        by (cases "body_equal eq (stmt_body s) (stmt_body s')"; cases s; cases s'; cases "u = Empty"; cases "u' = Empty")
           (auto simp: compare_nodes_def deref_opt_def deref_def node_equals_def comparable_def)
    next
      case (Cond p' i' c' u' v')
      with Stmt h show ?thesis
        by (simp add: compare_nodes_def deref_opt_def deref_def node_equals_def)
    qed (use h in simp)
  next
    case (Cond p i c u v)
    show ?thesis
    proof (cases t')
      case (Stmt p' i' s' u')
      with Cond h show ?thesis
        by (simp add: compare_nodes_def deref_opt_def deref_def node_equals_def)
    next
      case c': (Cond p' i' c' u' v')
      with Cond h show ?thesis
        by (cases "eq c c'"; cases "u' = Empty"; cases "v' = Empty")
           (auto simp: compare_nodes_def deref_opt_def deref_def node_equals_def comparable_def)
    qed (use h in simp)
  qed (use h in simp)
qed

lemma subtrees_equal_queue:
  assumes "\<forall>x \<in> set q. comparable h x"
  shows "subtrees_equal_loop eq h (map (root_of \<circ> fst) q) (map (root_of \<circ> snd) q) =
    Some (Inr (\<forall>(t, t') \<in> set q. alike eq t t'))"
  using assms
proof (induction "sum_list (map (\<lambda>(u, u'). 2 * length (addrs u)) q)" arbitrary: q rule: less_induct)
  case less
  show ?case
  proof (cases q)
    case Nil
    then show ?thesis by (subst subtrees_equal_loop.simps) simp
  next
    case (Cons x rest)
    obtain t t' where x: "x = (t, t')" by (cases x)
    have c: "comparable h (t, t')" using less.prems Cons x by simp
    from compare_round [OF c, of eq] show ?thesis
    proof (elim disjE conjE)
      assume r: "compare_nodes eq h (root_of t) (root_of t') = Inr None" "\<not> alike eq t t'"
      with Cons x show ?thesis by (subst subtrees_equal_loop.simps) auto
    next
      assume r: "compare_nodes eq h (root_of t) (root_of t') =
          Inr (Some (map (root_of \<circ> fst) (next_pairs t t'), map (root_of \<circ> snd) (next_pairs t t')))"
        and a: "alike eq t t' \<longleftrightarrow> (\<forall>(u, u') \<in> set (next_pairs t t'). alike eq u u')"
        and n: "\<forall>x \<in> set (next_pairs t t'). comparable h x"
      let ?q = "rest @ next_pairs t t'"
      have "sum_list (map (\<lambda>(u, u'). 2 * length (addrs u)) (next_pairs t t')) < 2 * length (addrs t)"
        using c by (cases t; cases t') (auto simp: comparable_def)
      then have "subtrees_equal_loop eq h (map (root_of \<circ> fst) ?q) (map (root_of \<circ> snd) ?q) =
          Some (Inr (\<forall>(t, t') \<in> set ?q. alike eq t t'))"
        using n less.prems Cons x by (intro less.hyps) auto
      moreover have "(\<forall>(t, t') \<in> set ?q. alike eq t t') \<longleftrightarrow> (\<forall>(t, t') \<in> set q. alike eq t t')"
        using a Cons x by (auto simp: ball_Un)
      ultimately show ?thesis using r Cons x by (subst subtrees_equal_loop.simps) simp
    qed
  qed
qed



section \<open>Decided branches\<close>

text \<open>The side of the last branch that the walk passes.\<close>

fun decided_side :: "('e \<Rightarrow> bool option) \<Rightarrow> ('a, 'e) bdd_tree \<Rightarrow> ('a, 'e) bdd_tree option" where
  "decided_side decide Empty = None"
| "decided_side decide (Stmt p i s u) = decided_side decide u"
| "decided_side decide (Cond p i c u v) =
     (case decide c of
        None \<Rightarrow> None
      | Some True \<Rightarrow> (case decided_side decide u of None \<Rightarrow> Some u | Some t \<Rightarrow> Some t)
      | Some False \<Rightarrow> (case decided_side decide v of None \<Rightarrow> Some v | Some t \<Rightarrow> Some t))"

lemma decided_loop_tree:
  assumes "in_heap h prev t"
  shows "decided_loop decide h (root_of t) target =
    Some (Inr (case decided_side decide t of None \<Rightarrow> target | Some s \<Rightarrow> root_of s))"
  using assms
proof (induction t arbitrary: prev target)
  case Empty
  then show ?case by (subst decided_loop.simps) simp
next
  case (Stmt p i s u)
  then show ?case by (subst decided_loop.simps, cases s) auto
next
  case (Cond p i c u v)
  then show ?case by (subst decided_loop.simps) (auto split: option.splits bool.splits)
qed

text \<open>It lies below the root, and every packet that the constraints admit goes through it.\<close>

lemma decided_side_sub:
  assumes "distinct (node_ids t)" "decided_side decide t = Some (Stmt p j s u)"
  shows "j \<in> set (node_ids t) \<and> sub j t = Stmt p j s u \<and> (\<exists>a. parent prev j t = Some a) \<and>
    (\<forall>val. (\<forall>c b. decide c = Some b \<longrightarrow> val c = b) \<longrightarrow> j \<in> set (reached val t))"
  using assms
proof (induction t arbitrary: prev)
  case (Stmt q i s' w)
  with Stmt.IH [of "Some q"] show ?case by auto
next
  case (Cond q i c v w)
  obtain b where b: "decide c = Some b" using Cond.prems(2) by (cases "decide c") simp_all
  show ?case
  proof (cases b)
    case True
    show ?thesis
    proof (cases "decided_side decide v")
      case None
      with True b Cond.prems show ?thesis by auto
    next
      case (Some t')
      with True b Cond.prems Cond.IH(1) [of "Some q"] show ?thesis by auto
    qed
  next
    case False
    show ?thesis
    proof (cases "decided_side decide w")
      case None
      with False b Cond.prems show ?thesis by auto
    next
      case (Some t')
      with False b Cond.prems Cond.IH(2) [of "Some q"] show ?thesis by auto
    qed
  qed
qed simp

text \<open>C37. Deleting what constraints decide deletes too much and too little: the first node of the
  side that is always taken goes, which every packet under the constraints executes, and all the
  decided branches stay.\<close>
theorem delete_constraints_drops_statement:
  assumes "bdd_rep m B t it" "decided_side decide t = Some (Stmt p j s u)"
  shows "\<exists>m' B'. delete_constraints decide m B = Some (Inr (m', B', root_of u)) \<and>
    bdd_rep m' B' (put j u t) it \<and> set (node_ids (put j u t)) = set (node_ids t) - {j} \<and>
    (\<forall>val. (\<forall>c b. decide c = Some b \<longrightarrow> val c = b) \<longrightarrow> j \<in> set (reached val t))"
proof -
  note D = bdd_repD [OF assms(1)]
  from decided_side_sub [OF D(5) assms(2), of None] obtain a where
    j: "j \<in> set (node_ids t)" "sub j t = Stmt p j s u" "parent None j t = Some a"
    "\<forall>val. (\<forall>c b. decide c = Some b \<longrightarrow> val c = b) \<longrightarrow> j \<in> set (reached val t)" by blast
  obtain m' B' where d: "delete_non_branch m B j = Some (Inr (m', B', root_of u))" "bdd_rep m' B' (put j u t) it"
    by (rule delete_non_branch_rep [OF assms(1) j(1,3,2)])
  obtain q where "get_node_by_id (m_heap m) B j = Some (Inr (Some q))" "root_of (sub j t) = Some q"
    by (rule get_node_found [OF assms(1) j(1)])
  then have "delete_constraints decide m B = delete_non_branch m B j"
    using decided_loop_tree [OF D(3), of decide None] assms(2) D(1) j(2)
    by (simp add: delete_constraints_def delete_non_branch_def)
  moreover have "set (node_ids (put j u t)) = set (node_ids t) - {j}"
  proof -
    obtain A B where "node_ids t = A @ node_ids (sub j t) @ B" "node_ids (put j u t) = A @ node_ids u @ B"
      by (rule put_split [OF j(1)]) blast
    with j(2) D(5) show ?thesis by auto
  qed
  ultimately show ?thesis using d j(4) by auto
qed

theorem delete_constraints_drops_statement_witness:
  "\<exists>m' B'. delete_constraints (\<lambda>c. Some False) sample_memory sample_bdd =
      Some (Inr (m', B', root_of (Stmt 5 4 (SRoute Drop 0) Empty :: (node_ptr, nat) bdd_tree))) \<and>
    bdd_rep m' B' (put 3 (Stmt 5 4 (SRoute Drop 0) Empty) sample_tree) Empty \<and>
    set (node_ids (put 3 (Stmt 5 4 (SRoute Drop 0) Empty) sample_tree)) = set (node_ids sample_tree) - {3} \<and>
    (\<forall>val. (\<forall>c b. Some False = Some b \<longrightarrow> val c = b) \<longrightarrow> 3 \<in> set (reached val sample_tree))"
  by (rule delete_constraints_drops_statement [OF sample_rep, of _ 4 3 "sample_call ''map_put''"]) (simp add: sample_defs)

end
