(* ===== verification/BDDRefinement.thy ===== *)
theory BDDRefinement
  imports BDDSample
begin

text \<open>
  Sequences of edits and what they do to the behaviour of a diagram.
\<close>

section \<open>Sequences of edits\<close>

datatype 'e edit =
    DeleteNonBranch u64
  | DeleteBranch u64 branch_deletion_action
  | AddNonBranches u64 "(node_ptr \<times> 'e bdd_stmt) list"
  | AddBranch u64 'e
  | AddCall u64 string "'e symbol_t set"

fun run_edit :: "'e \<Rightarrow> 'e memory \<Rightarrow> 'e bdd \<Rightarrow> 'e edit \<Rightarrow> ('e memory \<times> 'e bdd) result option" where
  "run_edit null m B (DeleteNonBranch i) =
     obind (delete_non_branch m B i) (\<lambda>(m, B, q). Some (Inr (m, B)))"
| "run_edit null m B (DeleteBranch i action) =
     obind (delete_branch m B i action) (\<lambda>(m, B, q). Some (Inr (m, B)))"
| "run_edit null m B (AddNonBranches i qs) =
     obind (add_cloned_non_branches m B i (map fst qs)) (\<lambda>(m, B, q). Some (Inr (m, B)))"
| "run_edit null m B (AddBranch i c) =
     obind (add_cloned_branch m B i c) (\<lambda>(m, B, q). Some (Inr (m, B)))"
| "run_edit null m B (AddCall i fn_name symbols) =
     obind (add_new_symbol_generator_function null m B i fn_name symbols) (\<lambda>(m, B, q). Some (Inr (m, B)))"

fun run_edits :: "'e \<Rightarrow> 'e memory \<Rightarrow> 'e bdd \<Rightarrow> 'e edit list \<Rightarrow> ('e memory \<times> 'e bdd) result option" where
  "run_edits null m B [] = Some (Inr (m, B))"
| "run_edits null m B (e # es) = obind (run_edit null m B e) (\<lambda>(m, B). run_edits null m B es)"

text \<open>
  The same edits on trees with a counter for identifiers. \<open>None\<close> where an edit is not admitted: the
  node is missing, is the root or of the other kind, a side that is freed is absent, or the counter
  would overflow.
\<close>

definition below_root :: "u64 \<Rightarrow> ('a, 'e) bdd_tree \<Rightarrow> bool" where
  "below_root i t \<longleftrightarrow> i \<in> set (node_ids t) \<and> parent None i t \<noteq> None"

fun spec_edit ::
  "'e \<Rightarrow> 'e edit \<Rightarrow> (unit, 'e) bdd_tree \<times> u64 \<Rightarrow> ((unit, 'e) bdd_tree \<times> u64) option"
where
  "spec_edit null (DeleteNonBranch i) (t, k) =
     (if below_root i t then
        case sub i t of Stmt p j s u \<Rightarrow> Some (put i u t, k) | _ \<Rightarrow> None
      else None)"
| "spec_edit null (DeleteBranch i action) (t, k) =
     (if below_root i t then
        case sub i t of
          Cond p j c u v \<Rightarrow> if sides_there action u v then Some (put i (kept_side action u v) t, k) else None
        | _ \<Rightarrow> None
      else None)"
| "spec_edit null (AddNonBranches i qs) (t, k) =
     (if below_root i t \<and> unat k + length qs < 2 ^ 64
      then Some (insert_stmts i (map snd qs) k t, k + of_nat (length qs)) else None)"
| "spec_edit null (AddBranch i c) (t, k) =
     (let s = sub i t; n = length (addrs s) in
      if below_root i t \<and> unat k + (n + 1) < 2 ^ 64
      then Some (put i (Cond () (k + of_nat n) c s (relabel k s)) t, k + of_nat (n + 1)) else None)"
| "spec_edit null (AddCall i fn_name symbols) (t, k) =
     (if below_root i t \<and> unat k + 1 < 2 ^ 64
      then Some (put i (Stmt () k (SCall \<lparr>function_name = fn_name, extra_vars = [], call_args = [],
             call_ret = null\<rparr> symbols) (sub i t)) t, k + 1)
      else None)"

fun spec_edits ::
  "'e \<Rightarrow> 'e edit list \<Rightarrow> (unit, 'e) bdd_tree \<times> u64 \<Rightarrow> ((unit, 'e) bdd_tree \<times> u64) option"
where
  "spec_edits null [] tk = Some tk"
| "spec_edits null (e # es) tk =
     (case spec_edit null e tk of None \<Rightarrow> None | Some tk \<Rightarrow> spec_edits null es tk)"

text \<open>The nodes that an edit clones are those of another diagram.\<close>

fun foreign_edit :: "'e memory \<Rightarrow> 'e bdd \<Rightarrow> 'e edit \<Rightarrow> bool" where
  "foreign_edit m B (AddNonBranches i qs) = foreign_stmts m B qs"
| "foreign_edit m B e = True"

lemma foreign_edit_kept:
  "foreign_edit m B e \<Longrightarrow> edited m B m' B' \<Longrightarrow> allocated_below m \<Longrightarrow> foreign_edit m' B' e"
  by (cases e) (auto intro: foreign_kept)

lemma map_tree_ids [simp]: "node_ids (map_bdd_tree f t) = node_ids t"
  by (induction t) simp_all

lemma parent_map: "parent (map_option f prev) i (map_bdd_tree f t) = map_option f (parent prev i t)"
proof (induction t arbitrary: prev)
  case (Stmt p j s u)
  then show ?case using Stmt.IH [of "Some p"] by simp
next
  case (Cond p j c u v)
  show ?case using Cond.IH(1) [of "Some p"] Cond.IH(2) [of "Some p"] by simp
qed simp

lemma below_root_erase: "below_root i (erase t) \<longleftrightarrow> i \<in> set (node_ids t) \<and> (\<exists>a. parent None i t = Some a)"
  using parent_map [of "\<lambda>_. ()" None i t] by (auto simp: below_root_def)

lemma erase_eq_Stmt: "erase t = Stmt p i s u \<longleftrightarrow> (\<exists>p' u'. t = Stmt p' i s u' \<and> erase u' = u)"
  by (cases t) auto

lemma erase_eq_Cond:
  "erase t = Cond p i c u v \<longleftrightarrow> (\<exists>p' u' v'. t = Cond p' i c u' v' \<and> erase u' = u \<and> erase v' = v)"
  by (cases t) auto

lemma erase_Empty [simp]: "erase t = Empty \<longleftrightarrow> t = Empty"
  by (cases t) simp_all

lemma kept_side_erase [simp]: "erase (kept_side action u v) = kept_side action (erase u) (erase v)"
  and sides_there_erase [simp]: "sides_there action (erase u) (erase v) = sides_there action u v"
  by (cases action; simp)+

lemma run_edit_refines:
  assumes rep: "bdd_rep m B t it" and e: "foreign_edit m B e"
    and spec: "spec_edit null e (erase t, bdd_id B) = Some (T, k)"
  shows "\<exists>m' B' t'. run_edit null m B e = Some (Inr (m', B')) \<and> bdd_rep m' B' t' it \<and> edited m B m' B' \<and>
    erase t' = T \<and> bdd_id B' = k"
proof (cases e)
  case (DeleteNonBranch i)
  then obtain p j s u where u: "sub i (erase t) = Stmt p j s u" "T = put i u (erase t)" "k = bdd_id B"
    and b: "below_root i (erase t)" using spec by (auto split: if_splits bdd_tree.splits)
  from u(1) obtain p' u' where s: "sub i t = Stmt p' j s u'" "erase u' = u"
    by (auto simp: erase_eq_Stmt simp flip: erase_simps(3))
  from b obtain a where a: "i \<in> set (node_ids t)" "parent None i t = Some a" by (auto simp: below_root_erase)
  obtain m' B' where "delete_non_branch m B i = Some (Inr (m', B', root_of u'))" "bdd_rep m' B' (put i u' t) it"
    "edited m B m' B'" "bdd_id B' = bdd_id B" by (rule delete_non_branch_rep [OF rep a s(1)])
  with DeleteNonBranch s(2) u(2,3) show ?thesis by (intro exI [of _ m'] exI [of _ B'] exI [of _ "put i u' t"]) simp
next
  case (DeleteBranch i action)
  then obtain p j c u v where u: "sub i (erase t) = Cond p j c u v" "T = put i (kept_side action u v) (erase t)"
      "k = bdd_id B" "sides_there action u v"
    and b: "below_root i (erase t)" using spec by (auto split: if_splits bdd_tree.splits)
  from u(1) obtain p' u' v' where s: "sub i t = Cond p' j c u' v'" "erase u' = u" "erase v' = v"
    by (auto simp: erase_eq_Cond simp flip: erase_simps(3))
  from b obtain a where a: "i \<in> set (node_ids t)" "parent None i t = Some a" by (auto simp: below_root_erase)
  have sides: "sides_there action u' v'" using u(4) s(2,3) sides_there_erase by metis
  let ?r = "kept_side action u' v'"
  obtain m' B' where "delete_branch m B i action = Some (Inr (m', B', root_of ?r))" "bdd_rep m' B' (put i ?r t) it"
    "edited m B m' B'" "bdd_id B' = bdd_id B" by (rule delete_branch_rep [OF rep a s(1) sides])
  with DeleteBranch s(2,3) u(2,3) show ?thesis by (intro exI [of _ m'] exI [of _ B'] exI [of _ "put i ?r t"]) simp
next
  case (AddNonBranches i qs)
  then have b: "below_root i (erase t)" "unat (bdd_id B) + length qs < 2 ^ 64"
    and T: "T = insert_stmts i (map snd qs) (bdd_id B) (erase t)" "k = bdd_id B + of_nat (length qs)"
    using spec by (auto split: if_splits)
  from b(1) obtain a where a: "i \<in> set (node_ids t)" "parent None i t = Some a" by (auto simp: below_root_erase)
  have q: "foreign_stmts m B qs" using e AddNonBranches by simp
  show ?thesis
    by (rule add_cloned_non_branches_rep [OF rep a q b(2)]) (auto simp: AddNonBranches T)
next
  case (AddBranch i c)
  let ?n = "length (addrs (sub i t))"
  have n: "length (addrs (sub i (erase t))) = ?n" using erase_ids(2) [of "sub i t"] by simp
  have b: "below_root i (erase t)" "unat (bdd_id B) + (?n + 1) < 2 ^ 64"
    and T: "T = put i (Cond () (bdd_id B + of_nat ?n) c (sub i (erase t)) (relabel (bdd_id B) (sub i (erase t)))) (erase t)"
      "k = bdd_id B + of_nat (?n + 1)"
    using spec AddBranch n by (auto simp: Let_def split: if_splits)
  from b(1) obtain a where a: "i \<in> set (node_ids t)" "parent None i t = Some a" by (auto simp: below_root_erase)
  obtain m' B' b s' where "add_cloned_branch m B i c = Some (Inr (m', B', b))"
    "bdd_rep m' B' (put i (Cond b (bdd_id B + of_nat ?n) c (sub i t) (relabel (bdd_id B) s')) t) it"
    "erase s' = erase (sub i t)" "edited m B m' B'" "bdd_id B' = bdd_id B + of_nat (?n + 1)"
    by (rule add_cloned_branch_rep [OF rep a b(2)])
  with AddBranch T show ?thesis by auto
next
  case (AddCall i fn_name symbols)
  then have b: "below_root i (erase t)" "unat (bdd_id B) + 1 < 2 ^ 64"
    and T: "T = put i (Stmt () (bdd_id B) (SCall \<lparr>function_name = fn_name, extra_vars = [], call_args = [],
        call_ret = null\<rparr> symbols) (sub i (erase t))) (erase t)" "k = bdd_id B + 1"
    using spec by (auto split: if_splits)
  from b(1) obtain a where a: "i \<in> set (node_ids t)" "parent None i t = Some a" by (auto simp: below_root_erase)
  show ?thesis
    by (rule new_call_rep [OF rep a b(2), of null fn_name symbols]) (auto simp: AddCall T)
qed

lemma run_edits_refine:
  assumes "bdd_rep m B t it" "\<forall>e \<in> set es. foreign_edit m B e"
    and "spec_edits null es (erase t, bdd_id B) = Some (T, k)"
  shows "\<exists>m' B' t'. run_edits null m B es = Some (Inr (m', B')) \<and> bdd_rep m' B' t' it \<and> edited m B m' B' \<and>
    erase t' = T \<and> bdd_id B' = k"
  using assms
proof (induction es arbitrary: m B t)
  case Nil
  then show ?case by auto
next
  case (Cons e es)
  from Cons.prems(3) obtain T1 k1 where s: "spec_edit null e (erase t, bdd_id B) = Some (T1, k1)"
    "spec_edits null es (T1, k1) = Some (T, k)" by (auto split: option.splits)
  have "foreign_edit m B e" using Cons.prems(2) by simp
  from run_edit_refines [OF Cons.prems(1) this s(1)] obtain m1 B1 t1 where
    r: "run_edit null m B e = Some (Inr (m1, B1))" "bdd_rep m1 B1 t1 it" "edited m B m1 B1" "erase t1 = T1" "bdd_id B1 = k1"
    by blast
  have "\<forall>e \<in> set es. foreign_edit m1 B1 e"
    using Cons.prems(2) foreign_edit_kept [OF _ r(3) bdd_repD(14) [OF Cons.prems(1)]] by auto
  from Cons.IH [OF r(2) this] s(2) r(4,5) obtain m' B' t' where
    "run_edits null m1 B1 es = Some (Inr (m', B'))" "bdd_rep m' B' t' it" "edited m1 B1 m' B'" "erase t' = T" "bdd_id B' = k"
    by auto
  with r(1) edited_trans [OF r(3)] show ?case by auto
qed

text \<open>C6. The edits of a diagram refine edits of a tree: for every sequence of deletions and
  insertions that the tree admits, the code neither fails nor runs on; the nodes it leaves are
  exactly those of the resulting tree, linked in both directions, with the identifiers of the
  specification, each owned once by the manager and none lost or left behind; and the rest of the
  heap, with every other diagram, is untouched.\<close>
theorem bdd_edits_refine:
  assumes "bdd_rep m B t it" "\<forall>e \<in> set es. foreign_edit m B e"
    and "spec_edits null es (erase t, bdd_id B) = Some (T, k)"
  shows "\<exists>m' B' t'. run_edits null m B es = Some (Inr (m', B')) \<and> bdd_rep m' B' t' it \<and>
    erase t' = T \<and> bdd_id B' = k \<and>
    (\<forall>x < m_fresh m. x \<notin> set (bdd_manager B) \<longrightarrow> m_heap m' x = m_heap m x)"
  using run_edits_refine [OF assms] unfolding edited_def by blast

theorem bdd_edits_refine_witness:
  "\<exists>m' B' t'. run_edits 0 sample_memory sample_bdd
      [AddNonBranches 3 [(6, sample_call ''hash'')], AddBranch 2 8, DeleteBranch 1 KeepOnTrue] = Some (Inr (m', B')) \<and>
    bdd_rep m' B' t' Empty \<and>
    erase t' = Stmt () 0 (sample_call ''map_get'')
      (Cond () 7 8 (Stmt () 2 (SRoute Forward 5) Empty) (Stmt () 6 (SRoute Forward 5) Empty)) \<and>
    bdd_id B' = 8 \<and>
    (\<forall>x < m_fresh sample_memory. x \<notin> set (bdd_manager sample_bdd) \<longrightarrow> m_heap m' x = m_heap sample_memory x)"
proof (rule bdd_edits_refine [OF sample_rep])
  show "\<forall>e \<in> set [AddNonBranches 3 [(6, sample_call ''hash'')], AddBranch 2 8, DeleteBranch 1 KeepOnTrue].
      foreign_edit sample_memory sample_bdd e"
    by (simp add: foreign_stmts_def sample_defs)
  show "spec_edits 0 [AddNonBranches 3 [(6, sample_call ''hash'')], AddBranch 2 8, DeleteBranch 1 KeepOnTrue]
      (erase sample_tree, bdd_id sample_bdd) =
    Some (Stmt () 0 (sample_call ''map_get'')
      (Cond () 7 8 (Stmt () 2 (SRoute Forward 5) Empty) (Stmt () 6 (SRoute Forward 5) Empty)), 8)"
    by (simp add: sample_defs below_root_def Let_def)
qed

section \<open>Behaviour\<close>

lemma exec_put:
  assumes "i \<in> set (node_ids t)" "exec val r = exec val (sub i t)"
  shows "exec val (put i r t) = exec val t"
  using assms by (induction t) auto

text \<open>Introducing a branch changes nothing that the diagram does: whatever the condition, both
  sides do what the node did, one of them in cloned nodes with identifiers of their own.\<close>
lemma add_cloned_branch_keeps_behaviour:
  assumes "bdd_rep m B t it" "below_root i t" "unat (bdd_id B) + (length (addrs (sub i t)) + 1) < 2 ^ 64"
  shows "\<exists>m' B' b t'. add_cloned_branch m B i c = Some (Inr (m', B', b)) \<and> bdd_rep m' B' t' it \<and>
    (\<forall>val. exec val t' = exec val t)"
proof -
  from assms(2) obtain a where a: "i \<in> set (node_ids t)" "parent None i t = Some a" by (auto simp: below_root_def)
  let ?n = "length (addrs (sub i t))"
  obtain m' B' b s' where r: "add_cloned_branch m B i c = Some (Inr (m', B', b))"
    "bdd_rep m' B' (put i (Cond b (bdd_id B + of_nat ?n) c (sub i t) (relabel (bdd_id B) s')) t) it"
    "erase s' = erase (sub i t)"
    by (rule add_cloned_branch_rep [OF assms(1) a assms(3)])
  have "exec val s' = exec val (sub i t)" for val
    using r(3) by (metis erase_simps(1))
  then have "exec val (put i (Cond b (bdd_id B + of_nat ?n) c (sub i t) (relabel (bdd_id B) s')) t) = exec val t" for val
    by (intro exec_put [OF a(1)]) simp
  with r(1,2) show ?thesis by blast
qed

lemma add_cloned_branch_keeps_behaviour_witness:
  "\<exists>m' B' b t'. add_cloned_branch sample_memory sample_bdd 3 9 = Some (Inr (m', B', b)) \<and>
    bdd_rep m' B' t' Empty \<and> (\<forall>val. exec val t' = exec val sample_tree)"
  by (rule add_cloned_branch_keeps_behaviour [OF sample_rep]) (simp_all add: sample_defs below_root_def)

text \<open>Resolving a branch whose outcome is known is safe: where the condition has the value of the
  side that is kept, the diagram does what it did before.\<close>
lemma delete_branch_keeps_behaviour:
  assumes "bdd_rep m B t it" "below_root i t" "sub i t = Cond p j c u v"
    and "if taken then v \<noteq> Empty else u \<noteq> Empty"
  shows "\<exists>m' B' q t'. delete_branch m B i (if taken then KeepOnTrue else KeepOnFalse) = Some (Inr (m', B', q)) \<and>
    bdd_rep m' B' t' it \<and> (\<forall>val. val c = taken \<longrightarrow> exec val t' = exec val t)"
proof -
  let ?action = "if taken then KeepOnTrue else KeepOnFalse" and ?r = "kept_side (if taken then KeepOnTrue else KeepOnFalse) u v"
  from assms(2) obtain a where a: "i \<in> set (node_ids t)" "parent None i t = Some a" by (auto simp: below_root_def)
  have "sides_there ?action u v" using assms(4) by simp
  from delete_branch_rep [OF assms(1) a assms(3) this] obtain m' B' where
    r: "delete_branch m B i ?action = Some (Inr (m', B', root_of ?r))" "bdd_rep m' B' (put i ?r t) it" by blast
  have "exec val (put i ?r t) = exec val t" if "val c = taken" for val
    using that assms(3) by (intro exec_put [OF a(1)]) simp
  with r show ?thesis by blast
qed

lemma delete_branch_keeps_behaviour_witness:
  "\<exists>m' B' q t'. delete_branch sample_memory sample_bdd 1 (if True then KeepOnTrue else KeepOnFalse) =
      Some (Inr (m', B', q)) \<and> bdd_rep m' B' t' Empty \<and>
    (\<forall>val. val 7 = True \<longrightarrow> exec val t' = exec val sample_tree)"
proof (rule delete_branch_keeps_behaviour [OF sample_rep])
  show "sub 1 sample_tree = Cond 2 1 7 (Stmt 3 2 (SRoute Forward 5) Empty)
      (Stmt 4 3 (sample_call ''map_put'') (Stmt 5 4 (SRoute Drop 0) Empty))"
    by (simp add: sample_defs)
qed (simp_all add: sample_defs below_root_def)

end
