(* ===== verification/BDDCopies.thy ===== *)
theory BDDCopies
  imports BDDRefinement
begin

text \<open>
  Copies of diagrams: the copy constructor builds a diagram of its own with the same trees, so that
  edits of the copy leave the original alone.
\<close>

section \<open>The initial calls\<close>

lemma memory_update [simp]:
  "m\<lparr>m_heap := h, m_fresh := k\<rparr> = \<lparr>m_heap = h, m_fresh = k\<rparr>"
  "m\<lparr>m_fresh := k, m_heap := h\<rparr> = \<lparr>m_heap = h, m_fresh = k\<rparr>"
  by simp_all

lemma without_links_stmt [simp]:
  "without_links \<lparr>bn_id = i, bn_next = q, bn_prev = prev, bn_body = stmt_body s\<rparr> =
    \<lparr>bn_id = i, bn_next = None, bn_prev = None, bn_body = stmt_body s\<rparr>"
  by (cases s) (simp_all add: without_links_def)

text \<open>Cloning calls behind one that is there already.\<close>

lemma clone_init_behind:
  assumes "in_heap (m_heap m) prev u" "calls_only u" "q \<notin> set (addrs u)"
    and "m_heap m q = Some n" "allocated_below m"
  shows "\<exists>m' u'. clone_init m nodes (init @ [q]) (addrs u) = Inr (m', nodes @ addrs u', init @ q # addrs u') \<and>
    in_heap (m_heap m') (Some q) u' \<and> calls_only u' \<and> erase u' = erase u \<and> distinct (addrs u') \<and>
    (u \<noteq> Empty \<longrightarrow> m_heap m' q = Some (n\<lparr>bn_next := root_of u'\<rparr>)) \<and> (u = Empty \<longrightarrow> m' = m) \<and>
    m_fresh m \<le> m_fresh m' \<and> (\<forall>a \<in> set (addrs u'). m_fresh m \<le> a) \<and>
    (\<forall>a. a < m_fresh m \<longrightarrow> a \<noteq> q \<longrightarrow> m_heap m' a = m_heap m a) \<and> allocated_below m'"
  using assms
proof (induction u arbitrary: m prev q n nodes init)
  case Empty
  then show ?case by (intro exI [of _ m] exI [of _ Empty]) simp
next
  case (Stmt p i s u)
  let ?k = "m_fresh m" and ?n = "\<lparr>bn_id = i, bn_next = None, bn_prev = Some q, bn_body = stmt_body s\<rparr>"
  let ?m = "\<lparr>m_heap = (m_heap m)(q \<mapsto> n\<lparr>bn_next := Some ?k\<rparr>, ?k \<mapsto> ?n), m_fresh = ?k + 1\<rparr>"
  have u: "calls_only u" "in_heap (m_heap m) (Some p) u" using Stmt.prems(1,2) by (cases s; simp)+
  have q: "q < ?k" using Stmt.prems(4,5) by (auto simp: allocated_below_def)
  have old: "a < ?k" if "a \<in> set (addrs u)" for a
    using that in_heap_dom [OF u(2)] Stmt.prems(5) by (auto simp: allocated_below_def)
  have "in_heap (m_heap ?m) (Some p) u"
    using u(2) old Stmt.prems(3) by (subst in_heap_cong [of _ _ "m_heap m"]) auto
  moreover have "?k \<notin> set (addrs u)" using old by blast
  moreover have "allocated_below ?m" using Stmt.prems(5) q by (auto simp: allocated_below_def less_Suc_eq)
  ultimately obtain m' u' where
    r: "clone_init ?m (nodes @ [?k]) ((init @ [q]) @ [?k]) (addrs u) =
      Inr (m', (nodes @ [?k]) @ addrs u', (init @ [q]) @ ?k # addrs u')"
    and u': "in_heap (m_heap m') (Some ?k) u'" "calls_only u'" "erase u' = erase u" "distinct (addrs u')"
      "u \<noteq> Empty \<longrightarrow> m_heap m' ?k = Some (?n\<lparr>bn_next := root_of u'\<rparr>)" "u = Empty \<longrightarrow> m' = ?m"
      "m_fresh ?m \<le> m_fresh m'" "\<forall>a \<in> set (addrs u'). m_fresh ?m \<le> a"
      "\<forall>a. a < m_fresh ?m \<longrightarrow> a \<noteq> ?k \<longrightarrow> m_heap m' a = m_heap ?m a" "allocated_below m'"
    using Stmt.IH [OF _ u(1), of ?m "Some p" ?k ?n "nodes @ [?k]" "init @ [q]"] by fastforce
  have k: "m_heap m' ?k = Some (node_of (Some q) (Stmt ?k i s u'))"
    using u'(3,5,6) erase_root [OF u'(3)] by (cases "u = Empty") auto
  have "m_heap m p = Some (node_of prev (Stmt p i s u))" using Stmt.prems(1) by simp
  then have "clone_init m nodes (init @ [q]) (addrs (Stmt p i s u)) =
      clone_init ?m (nodes @ [?k]) ((init @ [q]) @ [?k]) (addrs u)"
    using Stmt.prems(4) q
    by (simp add: clone_node_def deref_def new_node_def add_node_def set_next_node_def set_prev_node_def fun_upd_twist)
  with r have "clone_init m nodes (init @ [q]) (addrs (Stmt p i s u)) =
      Inr (m', nodes @ addrs (Stmt ?k i s u'), init @ q # addrs (Stmt ?k i s u'))" by simp
  moreover have "calls_only (Stmt ?k i s u')" using Stmt.prems(2) u'(2) by (cases s) simp_all
  moreover have "m_heap m' q = Some (n\<lparr>bn_next := Some ?k\<rparr>)" using u'(9) q by simp
  moreover have "\<forall>a. a < ?k \<longrightarrow> a \<noteq> q \<longrightarrow> m_heap m' a = m_heap m a" using u'(9) by auto
  ultimately show ?case
    using k u'(1,3,4,7,8,10) by (intro exI [of _ m'] exI [of _ "Stmt ?k i s u'"]) auto
next
  case (Cond p i c u v)
  then show ?case by simp
qed

lemma clone_init_fresh:
  assumes "in_heap (m_heap m) None it" "calls_only it" "allocated_below m"
  shows "\<exists>m' it'. clone_init m [] [] (addrs it) = Inr (m', addrs it', addrs it') \<and>
    in_heap (m_heap m') None it' \<and> calls_only it' \<and> erase it' = erase it \<and> distinct (addrs it') \<and>
    m_fresh m \<le> m_fresh m' \<and> (\<forall>a \<in> set (addrs it'). m_fresh m \<le> a) \<and>
    (\<forall>a. a < m_fresh m \<longrightarrow> m_heap m' a = m_heap m a) \<and> allocated_below m'"
proof (cases it)
  case Empty
  with assms show ?thesis by (intro exI [of _ m] exI [of _ Empty]) simp
next
  case (Stmt p i s u)
  let ?k = "m_fresh m" and ?n = "\<lparr>bn_id = i, bn_next = None, bn_prev = None, bn_body = stmt_body s\<rparr>"
  let ?m = "\<lparr>m_heap = (m_heap m)(?k \<mapsto> ?n), m_fresh = ?k + 1\<rparr>"
  have u: "calls_only u" "in_heap (m_heap m) (Some p) u" using Stmt assms(1,2) by (cases s; simp)+
  have old: "a < ?k" if "a \<in> set (addrs u)" for a
    using that in_heap_dom [OF u(2)] assms(3) by (auto simp: allocated_below_def)
  have "in_heap (m_heap ?m) (Some p) u" using u(2) old by (subst in_heap_cong [of _ _ "m_heap m"]) auto
  moreover have "?k \<notin> set (addrs u)" using old by blast
  moreover have "allocated_below ?m" using assms(3) by (auto simp: allocated_below_def less_Suc_eq)
  ultimately obtain m' u' where
    r: "clone_init ?m [?k] ([] @ [?k]) (addrs u) = Inr (m', [?k] @ addrs u', [] @ ?k # addrs u')"
    and u': "in_heap (m_heap m') (Some ?k) u'" "calls_only u'" "erase u' = erase u" "distinct (addrs u')"
      "u \<noteq> Empty \<longrightarrow> m_heap m' ?k = Some (?n\<lparr>bn_next := root_of u'\<rparr>)" "u = Empty \<longrightarrow> m' = ?m"
      "m_fresh ?m \<le> m_fresh m'" "\<forall>a \<in> set (addrs u'). m_fresh ?m \<le> a"
      "\<forall>a. a < m_fresh ?m \<longrightarrow> a \<noteq> ?k \<longrightarrow> m_heap m' a = m_heap ?m a" "allocated_below m'"
    using clone_init_behind [OF _ u(1), of ?m "Some p" ?k ?n "[?k]" "[]"] by fastforce
  have k: "m_heap m' ?k = Some (node_of None (Stmt ?k i s u'))"
    using u'(3,5,6) erase_root [OF u'(3)] by (cases "u = Empty") auto
  have "m_heap m p = Some (node_of None (Stmt p i s u))" using Stmt assms(1) by simp
  then have "clone_init m [] [] (addrs it) = clone_init ?m [?k] ([] @ [?k]) (addrs u)"
    using Stmt by (simp add: clone_node_def deref_def new_node_def add_node_def)
  with r have "clone_init m [] [] (addrs it) = Inr (m', addrs (Stmt ?k i s u'), addrs (Stmt ?k i s u'))" by simp
  moreover have "calls_only (Stmt ?k i s u')" using Stmt assms(2) u'(2) by (cases s) simp_all
  moreover have "\<forall>a. a < ?k \<longrightarrow> m_heap m' a = m_heap m a" using u'(9) by auto
  ultimately show ?thesis
    using Stmt k u'(1,3,4,7,8,10) by (intro exI [of _ m'] exI [of _ "Stmt ?k i s u'"]) auto
next
  case (Cond p i c u v)
  with assms(2) show ?thesis by simp
qed

section \<open>Whole diagrams\<close>

lemma in_heap_bounds:
  assumes "in_heap (m_heap m) prev t" "allocated_below m"
  shows "\<forall>a \<in> set (addrs t). a < m_fresh m"
  using in_heap_dom [OF assms(1)] assms(2) by (auto simp: allocated_below_def)

lemma node_ids_erase: "erase t' = erase t \<Longrightarrow> node_ids t' = node_ids t"
  by (metis erase_ids(1))

lemma copy_bdd_rep:
  assumes "bdd_rep m B t it"
  obtains m' B' t' it' where "copy_bdd m B = Some (Inr (m', B'))" "bdd_rep m' B' t' it'"
    "erase t' = erase t" "erase it' = erase it" "bdd_id B' = bdd_id B" "m_fresh m \<le> m_fresh m'"
    "\<forall>a \<in> set (bdd_manager B'). m_fresh m \<le> a" "\<forall>a. a < m_fresh m \<longrightarrow> m_heap m' a = m_heap m a"
proof -
  note D = bdd_repD [OF assms]
  obtain r where r: "root_of t = Some r" using D(2) by (cases "root_of t") simp_all
  from clone_init_fresh [OF D(7,8,14)] obtain m1 it' where
    i: "clone_init m [] [] (addrs it) = Inr (m1, addrs it', addrs it')" "in_heap (m_heap m1) None it'"
    "calls_only it'" "erase it' = erase it" "distinct (addrs it')" "m_fresh m \<le> m_fresh m1"
    "\<forall>a \<in> set (addrs it'). m_fresh m \<le> a" "\<forall>a. a < m_fresh m \<longrightarrow> m_heap m1 a = m_heap m a" "allocated_below m1"
    by blast
  have "in_heap (m_heap m1) None t"
    using in_heap_bounds [OF D(3,14)] i(8) D(3) by (subst in_heap_cong [of _ _ "m_heap m"]) auto
  from clone_subtree_correct [OF this i(9), of "addrs it'"] obtain m2 t' new where
    c: "clone_subtree m1 (addrs it') (root_of t) = Some (Inr (m2, addrs it' @ new, root_of t'))"
    and "cloned_as m1 t m2 t' new" by blast
  note C = cloned_asD [OF this(2)]
  let ?B = "B\<lparr>bdd_init := addrs it', bdd_root := root_of t', bdd_manager := addrs it' @ new\<rparr>"
  have itb: "\<forall>a \<in> set (addrs it'). a < m_fresh m1" by (rule in_heap_bounds [OF i(2,9)])
  have apart: "set (addrs it') \<inter> set (addrs t') = {}" using itb C(7) by fastforce
  have "in_heap (m_heap m2) None it'"
    using itb C(9) i(2) by (subst in_heap_cong [of _ _ "m_heap m1"]) auto
  then have "bdd_rep m2 ?B t' it'"
    using C i(3,5) D(2,5,6) apart erase_root [OF C(2)] node_ids_erase [OF C(2)]
    by (auto simp: bdd_rep_def)
  moreover have "copy_bdd m B = Some (Inr (m2, ?B))"
    using i(1) c r D(1,9) by (simp add: copy_bdd_def clone_into_def clone_recursive_def)
  moreover have "\<forall>a \<in> set (bdd_manager ?B). m_fresh m \<le> a"
    using i(6,7) C(5,7) by (fastforce intro: order_trans)
  moreover have "\<forall>a. a < m_fresh m \<longrightarrow> m_heap m2 a = m_heap m a" using i(6,8) C(9) by fastforce
  ultimately show thesis
    using that [of m2 ?B t' it'] C(2,6) i(4,6) by simp
qed

text \<open>A diagram is what it was in every heap that agrees on its nodes.\<close>

lemma bdd_rep_kept:
  assumes "bdd_rep m B t it" "\<forall>a \<in> set (bdd_manager B). m_heap m' a = m_heap m a" "allocated_below m'"
  shows "bdd_rep m' B t it"
proof -
  note D = bdd_repD [OF assms(1)]
  have "in_heap (m_heap m') None t" "in_heap (m_heap m') None it"
    using D(3,7,13) assms(2) by (subst in_heap_cong [of _ _ "m_heap m"]; simp)+
  with D assms(3) show ?thesis by (simp add: bdd_rep_def)
qed

text \<open>C7. A copy is a diagram of its own: whatever edits are made to it, with nodes taken from
  anywhere, they do to the copy what they would do to the original's tree, and leave the original
  what it was.\<close>
theorem edits_of_copy_spare_original:
  assumes "bdd_rep m B t it" "\<forall>e \<in> set es. foreign_edit m (B\<lparr>bdd_manager := []\<rparr>) e"
    and "spec_edits null es (erase t, bdd_id B) = Some (T, k)"
  shows "\<exists>m1 B1 m2 B2 t2 it2. copy_bdd m B = Some (Inr (m1, B1)) \<and> run_edits null m1 B1 es = Some (Inr (m2, B2)) \<and>
    bdd_rep m2 B2 t2 it2 \<and> erase t2 = T \<and> erase it2 = erase it \<and> bdd_rep m2 B t it"
proof -
  obtain m1 B1 t1 it1 where c: "copy_bdd m B = Some (Inr (m1, B1))" "bdd_rep m1 B1 t1 it1"
    "erase t1 = erase t" "erase it1 = erase it" "bdd_id B1 = bdd_id B" "m_fresh m \<le> m_fresh m1"
    and new: "\<forall>a \<in> set (bdd_manager B1). m_fresh m \<le> a" and old: "\<forall>a. a < m_fresh m \<longrightarrow> m_heap m1 a = m_heap m a"
    by (rule copy_bdd_rep [OF assms(1)])
  note D = bdd_repD [OF assms(1)]
  have "foreign_edit m1 B1 e" if "foreign_edit m (B\<lparr>bdd_manager := []\<rparr>) e" for e
  proof (cases e)
    case (AddNonBranches i qs)
    have "q \<notin> set (bdd_manager B1) \<and> m_heap m1 q = m_heap m q" if "m_heap m q = Some n" for q n
      using that D(14) new old by (auto simp: allocated_below_def not_le [symmetric])
    with that AddNonBranches show ?thesis by (fastforce simp: foreign_stmts_def)
  qed simp_all
  then obtain m2 B2 t2 where r: "run_edits null m1 B1 es = Some (Inr (m2, B2))" "bdd_rep m2 B2 t2 it1"
    "edited m1 B1 m2 B2" "erase t2 = T"
    using run_edits_refine [OF c(2), of es null T k] assms(2,3) c(3,5) by auto
  have "m_heap m2 a = m_heap m a" if "a \<in> set (bdd_manager B)" for a
  proof -
    have "a < m_fresh m" by (rule D(15) [OF that])
    then have "a < m_fresh m1" "a \<notin> set (bdd_manager B1)" using c(6) new by auto
    with r(3) old \<open>a < m_fresh m\<close> show ?thesis by (simp add: edited_def)
  qed
  then have "bdd_rep m2 B t it" by (intro bdd_rep_kept [OF assms(1)]) (use bdd_repD(14) [OF r(2)] in simp_all)
  with c(1,4) r show ?thesis by blast
qed

theorem edits_of_copy_spare_original_witness:
  "\<exists>m1 B1 m2 B2 t2 it2. copy_bdd sample_memory sample_bdd = Some (Inr (m1, B1)) \<and>
    run_edits 0 m1 B1 [AddNonBranches 3 [(4, sample_call ''map_put'')], DeleteBranch 1 KeepOnFalse] = Some (Inr (m2, B2)) \<and>
    bdd_rep m2 B2 t2 it2 \<and>
    erase t2 = Stmt () 0 (sample_call ''map_get'') (Stmt () 5 (sample_call ''map_put'')
      (Stmt () 3 (sample_call ''map_put'') (Stmt () 4 (SRoute Drop 0) Empty))) \<and>
    erase it2 = erase (Empty :: (node_ptr, nat) bdd_tree) \<and> bdd_rep m2 sample_bdd sample_tree Empty"
proof (rule edits_of_copy_spare_original [OF sample_rep])
  show "\<forall>e \<in> set [AddNonBranches 3 [(4, sample_call ''map_put'')], DeleteBranch 1 KeepOnFalse].
      foreign_edit sample_memory (sample_bdd\<lparr>bdd_manager := []\<rparr>) e"
    by (simp add: foreign_stmts_def sample_defs)
  show "spec_edits 0 [AddNonBranches 3 [(4, sample_call ''map_put'')], DeleteBranch 1 KeepOnFalse]
      (erase sample_tree, bdd_id sample_bdd) =
    Some (Stmt () 0 (sample_call ''map_get'') (Stmt () 5 (sample_call ''map_put'')
      (Stmt () 3 (sample_call ''map_put'') (Stmt () 4 (SRoute Drop 0) Empty))), 6)"
    by (simp add: sample_defs below_root_def)
qed

end
