(* ===== verification/SyconBuffers.thy ===== *)
theory SyconBuffers
  imports Prelude
begin

unbundle bit_operations_syntax

text \<open>
  Byte buffers of the controllers' runtime library (\<^verbatim>\<open>libsycon/include/sycon/buffer.h\<close>) and the
  checksum they are hashed with (\<^verbatim>\<open>hash.h\<close>). Sizes and offsets are natural numbers.
\<close>

section \<open>Buffers\<close>

type_synonym buffer = "u8 list"

definition new_buffer :: "nat \<Rightarrow> buffer" where
  "new_buffer n = replicate n 0"

definition in_bounds :: "buffer \<Rightarrow> nat \<Rightarrow> nat \<Rightarrow> bool" where
  "in_bounds b offset width \<longleftrightarrow> 0 < width \<and> offset + width \<le> length b"

text \<open>The loop of \<^verbatim>\<open>get\<close>: the bytes from the most significant one on.\<close>

definition join_bytes :: "u8 list \<Rightarrow> u64" where
  "join_bytes bs = foldl (\<lambda>v b. push_bit 8 v OR ucast b) 0 bs"

definition buffer_get :: "buffer \<Rightarrow> nat \<Rightarrow> nat \<Rightarrow> u64 result" where
  "buffer_get b offset width =
     assert_that (in_bounds b offset width \<and> width \<le> 8) (Inr (join_bytes (take width (drop offset b))))"

definition buffer_get_all :: "buffer \<Rightarrow> u64 result" where
  "buffer_get_all b = buffer_get b 0 (length b)"

definition buffer_slice :: "buffer \<Rightarrow> nat \<Rightarrow> nat \<Rightarrow> buffer result" where
  "buffer_slice b offset width = assert_that (in_bounds b offset width) (Inr (take width (drop offset b)))"

text \<open>The loop of \<^verbatim>\<open>set\<close>: from the last byte of the range to the first.\<close>

fun set_loop :: "buffer \<Rightarrow> nat \<Rightarrow> nat \<Rightarrow> u64 \<Rightarrow> buffer" where
  "set_loop b offset 0 v = b"
| "set_loop b offset (Suc width) v =
     set_loop (b[offset + width := ucast (v AND 0xFF)]) offset width (drop_bit 8 v)"

definition buffer_set :: "buffer \<Rightarrow> nat \<Rightarrow> nat \<Rightarrow> u64 \<Rightarrow> buffer result" where
  "buffer_set b offset width v =
     assert_that (in_bounds b offset width \<and> width \<le> 8) (Inr (set_loop b offset width v))"

text \<open>The same loop from the first byte on.\<close>

fun set_loop_big_endian :: "buffer \<Rightarrow> nat \<Rightarrow> nat \<Rightarrow> u64 \<Rightarrow> buffer" where
  "set_loop_big_endian b index 0 v = b"
| "set_loop_big_endian b index (Suc width) v =
     set_loop_big_endian (b[index := ucast (v AND 0xFF)]) (Suc index) width (drop_bit 8 v)"

definition buffer_set_big_endian :: "buffer \<Rightarrow> nat \<Rightarrow> nat \<Rightarrow> u64 \<Rightarrow> buffer result" where
  "buffer_set_big_endian b offset width v =
     assert_that (in_bounds b offset width \<and> width \<le> 8) (Inr (set_loop_big_endian b offset width v))"

definition buffer_clear :: "buffer \<Rightarrow> buffer" where
  "buffer_clear b = replicate (length b) 0"

definition buffer_reverse :: "buffer \<Rightarrow> buffer" where
  "buffer_reverse b = rev b"

definition buffer_append :: "buffer \<Rightarrow> buffer \<Rightarrow> buffer" where
  "buffer_append b other = b @ other"

definition buffer_xor :: "buffer \<Rightarrow> buffer \<Rightarrow> buffer" where
  "buffer_xor b other =
     map (\<lambda>i. (if i < length b then b ! i else 0) XOR (if i < length other then other ! i else 0))
       [0..<max (length b) (length other)]"

definition shift_left :: "buffer \<Rightarrow> buffer" where
  "shift_left b =
     map (\<lambda>i. push_bit 1 (b ! i) OR (if i + 1 < length b then drop_bit 7 (b ! (i + 1)) AND 1 else 0))
       [0..<length b]"

definition shift_right :: "buffer \<Rightarrow> buffer" where
  "shift_right b =
     map (\<lambda>i. drop_bit 1 (b ! i) OR (if i > 0 then push_bit 7 (b ! (i - 1) AND 1) else 0)) [0..<length b]"

section \<open>Reading what was written\<close>

fun split_bytes :: "nat \<Rightarrow> u64 \<Rightarrow> u8 list" where
  "split_bytes 0 v = []"
| "split_bytes (Suc width) v = split_bytes width (drop_bit 8 v) @ [ucast (v AND 0xFF)]"

lemma length_split_bytes [simp]: "length (split_bytes width v) = width"
  by (induction width arbitrary: v) simp_all

lemma set_loop_eq:
  "offset + width \<le> length b \<Longrightarrow>
    set_loop b offset width v = take offset b @ split_bytes width v @ drop (offset + width) b"
proof (induction width arbitrary: b v)
  case (Suc width)
  let ?b = "b[offset + width := ucast (v AND 0xFF)]"
  have "drop (offset + width) ?b = ucast (v AND 0xFF) # drop (Suc (offset + width)) b"
    using Suc.prems by (simp add: Cons_nth_drop_Suc [symmetric])
  moreover have "take offset ?b = take offset b" by simp
  ultimately show ?case using Suc.IH [of ?b "drop_bit 8 v"] Suc.prems by simp
qed simp

lemma join_bytes_snoc [simp]: "join_bytes [] = 0" "join_bytes (bs @ [b]) = push_bit 8 (join_bytes bs) OR ucast b"
  by (simp_all add: join_bytes_def)

lemma low_byte: "v AND 0xFF = take_bit 8 (v :: u64)"
proof -
  have "(0xFF :: u64) = mask 8" by (simp add: mask_eq_exp_minus_1)
  then show ?thesis by (simp only: take_bit_eq_mask)
qed

lemma ucast_low_byte: "ucast ((ucast :: u64 \<Rightarrow> u8) (v AND 0xFF)) = take_bit 8 (v :: u64)"
  unfolding low_byte by (rule bit_word_eqI) (auto simp: bit_simps)

lemma join_split_bytes: "join_bytes (split_bytes width v) = take_bit (8 * width) v"
proof (induction width arbitrary: v)
  case (Suc width)
  have "push_bit 8 (take_bit (8 * width) (drop_bit 8 v)) OR take_bit 8 v = take_bit (8 * Suc width) v"
    by (rule bit_word_eqI) (auto simp: bit_simps)
  with Suc show ?case by (simp add: ucast_low_byte)
qed simp

lemma join_bytes_bound: "take_bit (8 * length bs) (join_bytes bs) = join_bytes bs"
proof (induction bs rule: rev_induct)
  case (snoc b bs)
  have "take_bit (8 * Suc (length bs)) (push_bit 8 (join_bytes bs) OR ucast b) =
      push_bit 8 (take_bit (8 * length bs) (join_bytes bs)) OR ucast b"
    by (rule bit_word_eqI) (auto simp: bit_simps dest: bit_imp_le_length)
  with snoc show ?case by simp
qed simp

lemma split_join_bytes: "length bs \<le> 8 \<Longrightarrow> split_bytes (length bs) (join_bytes bs) = bs"
proof (induction bs rule: rev_induct)
  case (snoc b bs)
  have "8 * length bs \<le> 56" using snoc.prems by simp
  then have "drop_bit 8 (push_bit 8 (take_bit (8 * length bs) (join_bytes bs)) OR ucast b) =
      take_bit (8 * length bs) (join_bytes bs)"
    by (intro bit_word_eqI) (auto simp: bit_simps dest: bit_imp_le_length)
  then have "drop_bit 8 (push_bit 8 (join_bytes bs) OR ucast b) = join_bytes bs" by (simp only: join_bytes_bound)
  moreover have "ucast ((push_bit 8 (join_bytes bs) OR ucast b) AND 0xFF) = b"
    unfolding low_byte by (rule bit_word_eqI) (auto simp: bit_simps)
  ultimately show ?case using snoc by simp
qed simp

text \<open>A value that was written is read back, reduced to the width of the range; the rest of the buffer
  is what it was.\<close>

lemma buffer_get_set:
  assumes "in_bounds b offset width" "width \<le> 8"
  shows "\<exists>b'. buffer_set b offset width v = Inr b' \<and> buffer_get b' offset width = Inr (take_bit (8 * width) v) \<and>
    length b' = length b \<and> (\<forall>i. i < offset \<or> offset + width \<le> i \<longrightarrow> i < length b \<longrightarrow> b' ! i = b ! i)"
proof -
  let ?b = "take offset b @ split_bytes width v @ drop (offset + width) b"
  have w: "offset + width \<le> length b" using assms(1) by (simp add: in_bounds_def)
  have "buffer_set b offset width v = Inr ?b" using assms set_loop_eq [OF w] by (simp add: buffer_set_def)
  moreover have "buffer_get ?b offset width = Inr (take_bit (8 * width) v)"
    using assms w by (simp add: buffer_get_def in_bounds_def join_split_bytes)
  moreover have "?b ! i = b ! i" if "i < offset \<or> offset + width \<le> i" "i < length b" for i
    using that w by (auto simp: nth_append)
  ultimately show ?thesis using w by (intro exI [of _ ?b]) auto
qed

end
