(* ===== verification/SyconTables.thy ===== *)
theory SyconTables
  imports SyconBuffers
begin

text \<open>
  The tables of the switch as the controllers' runtime library sees them
  (\<^verbatim>\<open>libsycon/src/primitives/table.cpp\<close>, \<^verbatim>\<open>register.cpp\<close>). The driver of the switch (bfrt) is a
  parameter: a record of the calls the library makes, on a hardware state of its own. Allocating and
  resetting the key and the data of a call is taken to succeed.
\<close>

section \<open>The driver\<close>

datatype field_type = UInt64 | ByteStream | Other_Type

text \<open>What the driver is given for a field: a number or the bytes.\<close>

datatype field_value = Number u64 | Bytes buffer

text \<open>A field is identified by its name; its size is in bits. \<open>tf_type\<close> and \<open>tf_exact\<close> are what the
  driver answers for the field's identifier: its data type and whether it is matched exactly.\<close>

record table_field =
  tf_name :: string
  tf_size :: nat
  tf_type :: field_type
  tf_exact :: bool

record table_info =
  ti_size :: nat
  ti_keys :: "table_field list"
  ti_actions :: "(string \<times> table_field list) list"

text \<open>An action, its parameters, and the time to live where the table has one.\<close>

type_synonym entry_data = "string \<times> field_value list \<times> u64 option"

text \<open>\<open>None\<close> is any status but success. \<open>sets_field sde tb f v\<close> tells whether the driver takes the value
  \<open>v\<close> for the field \<open>f\<close> of the table \<open>tb\<close>.\<close>

record 'h sde =
  table_from_name :: "string \<Rightarrow> table_info option"
  sets_field :: "string \<Rightarrow> string \<Rightarrow> field_value \<Rightarrow> bool"
  table_usage :: "'h \<Rightarrow> string \<Rightarrow> u32 option"
  idle_notify :: "'h \<Rightarrow> string \<Rightarrow> u32 \<Rightarrow> bool \<Rightarrow> 'h option"
  entry_add :: "'h \<Rightarrow> string \<Rightarrow> field_value list \<Rightarrow> entry_data \<Rightarrow> 'h option"
  entry_mod :: "'h \<Rightarrow> string \<Rightarrow> field_value list \<Rightarrow> entry_data \<Rightarrow> 'h option"
  entry_add_or_mod :: "'h \<Rightarrow> string \<Rightarrow> field_value list \<Rightarrow> entry_data \<Rightarrow> 'h option"
  entry_del :: "'h \<Rightarrow> string \<Rightarrow> field_value list \<Rightarrow> 'h option"
  register_info :: "string \<Rightarrow> (nat \<times> nat) option"
  register_write :: "'h \<Rightarrow> string \<Rightarrow> u32 \<Rightarrow> u32 \<Rightarrow> 'h option"
  register_read :: "'h \<Rightarrow> string \<Rightarrow> u32 \<Rightarrow> u64 list option"

definition status :: "'a option \<Rightarrow> 'a result" where
  "status r = (case r of None \<Rightarrow> Inl Assert_Failed | Some h \<Rightarrow> Inr h)"

lemma status_simps [simp]: "status (Some h) = Inr h" "status None = Inl Assert_Failed"
  by (simp_all add: status_def)

section \<open>Tables\<close>

record sw_table =
  ta_name :: string
  ta_capacity :: nat
  ta_key_fields :: "table_field list"
  ta_actions :: "(string \<times> table_field list) list"
  ta_no_action :: bool
  ta_time_aware :: bool
  ta_entry_ttl :: u64

definition round_to_bytes :: "nat \<Rightarrow> nat" where
  "round_to_bytes sz = (if sz mod 8 \<noteq> 0 then sz + (8 - sz mod 8) else sz)"

definition build_key_fields :: "table_field list \<Rightarrow> table_field list result" where
  "build_key_fields flds =
     rmap (\<lambda>f. assert_that (tf_size f > 0) (Inr (f\<lparr>tf_size := round_to_bytes (tf_size f)\<rparr>))) flds"

definition build_actions :: "(string \<times> table_field list) list \<Rightarrow> (string \<times> table_field list) list" where
  "build_actions actions =
     map (\<lambda>(name, flds).
       (name, map (\<lambda>f. f\<lparr>tf_size := round_to_bytes (tf_size f)\<rparr>)
          (filter (\<lambda>f. tf_name f \<notin> {''$ENTRY_TTL'', ''$ENTRY_HIT_STATE''}) flds)))
     (filter (\<lambda>(name, flds). name \<noteq> ''NoAction'') actions)"

definition new_sw_table :: "'h sde \<Rightarrow> string \<Rightarrow> sw_table result" where
  "new_sw_table sde name =
     rbind (status (table_from_name sde name)) (\<lambda>info.
     rbind (build_key_fields (ti_keys info)) (\<lambda>flds.
     Inr \<lparr>ta_name = name, ta_capacity = ti_size info, ta_key_fields = flds,
       ta_actions = build_actions (ti_actions info),
       ta_no_action = (''NoAction'' \<in> fst ` set (ti_actions info)), ta_time_aware = False, ta_entry_ttl = 0\<rparr>))"

definition get_full_name :: "sw_table \<Rightarrow> string" where
  "get_full_name tb = ''pipe.'' @ ta_name tb"

text \<open>Nine tenths; for the sizes of tables the product of doubles has the same integral part.\<close>

definition get_effective_capacity :: "sw_table \<Rightarrow> nat" where
  "get_effective_capacity tb = ta_capacity tb * 9 div 10"

definition TOFINO_MIN_EXPIRATION_TIME :: u64 where
  "TOFINO_MIN_EXPIRATION_TIME = 100"

text \<open>The callback is handed to the driver; its calls are events here. The driver gets 32 bits of the
  time; the table keeps all of them.\<close>

definition set_notify_mode :: "'h sde \<Rightarrow> u64 \<Rightarrow> bool \<Rightarrow> sw_table \<Rightarrow> 'h \<Rightarrow> (sw_table \<times> 'h) result" where
  "set_notify_mode sde timeout enable tb h =
     (let timeout = (if timeout < TOFINO_MIN_EXPIRATION_TIME then TOFINO_MIN_EXPIRATION_TIME else timeout) in
      rbind (status (idle_notify sde h (ta_name tb) (ucast timeout) enable)) (\<lambda>h.
      Inr (tb\<lparr>ta_time_aware := True, ta_entry_ttl := timeout\<rparr>, h)))"

definition get_usage :: "'h sde \<Rightarrow> sw_table \<Rightarrow> 'h \<Rightarrow> nat result" where
  "get_usage sde tb h = rbind (status (table_usage sde h (ta_name tb))) (\<lambda>usage. Inr (unat usage))"

definition get_key_field :: "sw_table \<Rightarrow> string \<Rightarrow> table_field result" where
  "get_key_field tb name =
     (case find (\<lambda>f. tf_name f = name) (ta_key_fields tb) of None \<Rightarrow> Inl Panicked | Some f \<Rightarrow> Inr f)"

definition get_action :: "sw_table \<Rightarrow> string \<Rightarrow> (string \<times> table_field list) result" where
  "get_action tb name =
     (case find (\<lambda>a. fst a = name) (ta_actions tb) of None \<Rightarrow> Inl Panicked | Some a \<Rightarrow> Inr a)"

section \<open>Entries\<close>

text \<open>The switch over the data type, with the \<^verbatim>\<open>setValue\<close> of each case.\<close>

definition set_field :: "'h sde \<Rightarrow> sw_table \<Rightarrow> table_field \<Rightarrow> buffer \<Rightarrow> nat \<Rightarrow> field_value result" where
  "set_field sde tb f b offset =
     rbind
       (case tf_type f of
          UInt64 \<Rightarrow> rbind (buffer_get b offset (tf_size f div 8)) (\<lambda>v. Inr (Number v))
        | ByteStream \<Rightarrow> rbind (buffer_slice b offset (tf_size f div 8)) (\<lambda>s. Inr (Bytes s))
        | Other_Type \<Rightarrow> Inl Panicked)
       (\<lambda>v. assert_that (sets_field sde (ta_name tb) (tf_name f) v) (Inr v))"

fun key_loop :: "'h sde \<Rightarrow> sw_table \<Rightarrow> table_field list \<Rightarrow> buffer \<Rightarrow> nat \<Rightarrow> field_value list result" where
  "key_loop sde tb [] k offset = Inr []"
| "key_loop sde tb (f # fs) k offset =
     (let sz = tf_size f div 8 in
      assert_that (offset + sz \<le> length k)
        (rbind (set_field sde tb f k offset) (\<lambda>v.
         rbind (key_loop sde tb fs k (offset + sz)) (\<lambda>vs. Inr (v # vs)))))"

definition set_key :: "'h sde \<Rightarrow> sw_table \<Rightarrow> buffer \<Rightarrow> field_value list result" where
  "set_key sde tb k = key_loop sde tb (ta_key_fields tb) k 0"

definition set_ttl :: "'h sde \<Rightarrow> sw_table \<Rightarrow> u64 option result" where
  "set_ttl sde tb =
     (if ta_time_aware tb
      then assert_that (sets_field sde (ta_name tb) ''$ENTRY_TTL'' (Number (ta_entry_ttl tb)))
        (Inr (Some (ta_entry_ttl tb)))
      else Inr None)"

text \<open>With an action's name and parameters, or with neither.\<close>

definition set_data :: "'h sde \<Rightarrow> sw_table \<Rightarrow> (string \<times> buffer list) option \<Rightarrow> entry_data result" where
  "set_data sde tb act =
     (case act of
        None \<Rightarrow> assert_that (ta_no_action tb) (rbind (set_ttl sde tb) (\<lambda>ttl. Inr (''NoAction'', [], ttl)))
      | Some (action_name, params) \<Rightarrow>
          (case map_of (ta_actions tb) action_name of
             None \<Rightarrow> Inl Panicked
           | Some flds \<Rightarrow>
               assert_that (length flds = length params)
                 (rbind
                   (rmap (\<lambda>(f, p). assert_that (tf_size f div 8 \<le> length p) (set_field sde tb f p 0))
                     (zip flds params)) (\<lambda>vs.
                  rbind (set_ttl sde tb) (\<lambda>ttl. Inr (action_name, vs, ttl))))))"

definition write_entry ::
  "'h sde \<Rightarrow> ('h \<Rightarrow> string \<Rightarrow> field_value list \<Rightarrow> entry_data \<Rightarrow> 'h option) \<Rightarrow> sw_table \<Rightarrow> buffer \<Rightarrow>
     (string \<times> buffer list) option \<Rightarrow> 'h \<Rightarrow> 'h option result"
where
  "write_entry sde call tb k act h =
     rbind (set_key sde tb k) (\<lambda>ks. rbind (set_data sde tb act) (\<lambda>d. Inr (call h (ta_name tb) ks d)))"

definition add_entry :: "'h sde \<Rightarrow> sw_table \<Rightarrow> buffer \<Rightarrow> (string \<times> buffer list) option \<Rightarrow> 'h \<Rightarrow> 'h result" where
  "add_entry sde tb k act h = rbind (write_entry sde (entry_add sde) tb k act h) status"

definition mod_entry :: "'h sde \<Rightarrow> sw_table \<Rightarrow> buffer \<Rightarrow> (string \<times> buffer list) option \<Rightarrow> 'h \<Rightarrow> 'h result" where
  "mod_entry sde tb k act h = rbind (write_entry sde (entry_mod sde) tb k act h) status"

definition add_or_mod_entry ::
  "'h sde \<Rightarrow> sw_table \<Rightarrow> buffer \<Rightarrow> (string \<times> buffer list) option \<Rightarrow> 'h \<Rightarrow> 'h result" where
  "add_or_mod_entry sde tb k act h = rbind (write_entry sde (entry_add_or_mod sde) tb k act h) status"

definition try_add_entry ::
  "'h sde \<Rightarrow> sw_table \<Rightarrow> buffer \<Rightarrow> (string \<times> buffer list) option \<Rightarrow> 'h \<Rightarrow> ('h \<times> bool) result" where
  "try_add_entry sde tb k act h =
     rbind (write_entry sde (entry_add sde) tb k act h) (\<lambda>r.
     Inr (case r of None \<Rightarrow> (h, False) | Some h \<Rightarrow> (h, True)))"

definition del_entry :: "'h sde \<Rightarrow> sw_table \<Rightarrow> buffer \<Rightarrow> 'h \<Rightarrow> 'h result" where
  "del_entry sde tb k h = rbind (set_key sde tb k) (\<lambda>ks. status (entry_del sde h (ta_name tb) ks))"

section \<open>Registers\<close>

text \<open>The driver knows a register's number of entries and the size of its values in bits.\<close>

record sw_register =
  rg_name :: string
  rg_capacity :: nat
  rg_value_size :: nat

definition new_sw_register :: "'h sde \<Rightarrow> string \<Rightarrow> sw_register result" where
  "new_sw_register sde name =
     rbind (status (register_info sde name)) (\<lambda>(capacity, sz).
     Inr \<lparr>rg_name = name, rg_capacity = capacity, rg_value_size = sz\<rparr>)"

definition set_register :: "'h sde \<Rightarrow> sw_register \<Rightarrow> u32 \<Rightarrow> u32 \<Rightarrow> 'h \<Rightarrow> 'h result" where
  "set_register sde rg i v h = status (register_write sde h (rg_name rg) i v)"

text \<open>A register has a value in every pipe of the switch.\<close>

definition get_per_pipe :: "'h sde \<Rightarrow> sw_register \<Rightarrow> u32 \<Rightarrow> 'h \<Rightarrow> u32 list result" where
  "get_per_pipe sde rg i h =
     rbind (status (register_read sde h (rg_name rg) i)) (\<lambda>vs. assert_that (vs \<noteq> []) (Inr (map ucast vs)))"

definition get_max :: "'h sde \<Rightarrow> sw_register \<Rightarrow> u32 \<Rightarrow> 'h \<Rightarrow> u32 result" where
  "get_max sde rg i h = rbind (get_per_pipe sde rg i h) (\<lambda>vs. Inr (fold max (tl vs) (hd vs)))"

definition get_min :: "'h sde \<Rightarrow> sw_register \<Rightarrow> u32 \<Rightarrow> 'h \<Rightarrow> u32 result" where
  "get_min sde rg i h = rbind (get_per_pipe sde rg i h) (\<lambda>vs. Inr (fold min (tl vs) (hd vs)))"

fun overwrite_loop :: "'h sde \<Rightarrow> sw_register \<Rightarrow> u32 \<Rightarrow> nat list \<Rightarrow> 'h \<Rightarrow> 'h result" where
  "overwrite_loop sde rg v [] h = Inr h"
| "overwrite_loop sde rg v (i # ns) h = rbind (set_register sde rg (word_of_nat i) v h) (overwrite_loop sde rg v ns)"

definition overwrite_all_entries :: "'h sde \<Rightarrow> sw_register \<Rightarrow> u32 \<Rightarrow> 'h \<Rightarrow> 'h result" where
  "overwrite_all_entries sde rg v h = overwrite_loop sde rg v [0..<rg_capacity rg] h"

section \<open>Keys that the switch reports\<close>

definition key_size :: "sw_table \<Rightarrow> nat" where
  "key_size tb = sum_list (map (\<lambda>f. tf_size f div 8) (ta_key_fields tb))"

text \<open>The bytes of a stream are set one by one.\<close>

fun put_bytes :: "buffer \<Rightarrow> nat \<Rightarrow> u8 list \<Rightarrow> buffer result" where
  "put_bytes b offset [] = Inr b"
| "put_bytes b offset (x # xs) =
     rbind (buffer_set_big_endian b offset 1 (ucast x)) (\<lambda>b. put_bytes b (Suc offset) xs)"

text \<open>The driver gives a number for a number and the field's bytes for a stream; it refuses otherwise.\<close>

definition put_typed :: "field_type \<Rightarrow> nat \<Rightarrow> buffer \<Rightarrow> nat \<Rightarrow> field_value \<Rightarrow> buffer result" where
  "put_typed type sz b offset v =
     (case (type, v) of
        (UInt64, Number x) \<Rightarrow> buffer_set b offset sz x
      | (ByteStream, Bytes bs) \<Rightarrow> assert_that (length bs = sz) (put_bytes b offset bs)
      | (Other_Type, _) \<Rightarrow> Inl Panicked
      | _ \<Rightarrow> Inl Assert_Failed)"

definition put_field :: "table_field \<Rightarrow> buffer \<Rightarrow> nat \<Rightarrow> field_value \<Rightarrow> buffer result" where
  "put_field f b offset v = assert_that (tf_exact f) (put_typed (tf_type f) (tf_size f div 8) b offset v)"

text \<open>A key of the table has a value for every field.\<close>

fun value_loop :: "table_field list \<Rightarrow> field_value list \<Rightarrow> nat \<Rightarrow> buffer \<Rightarrow> buffer result" where
  "value_loop (f # fs) (v # vs) offset b =
     rbind (put_field f b offset v) (value_loop fs vs (offset + tf_size f div 8))"
| "value_loop fs vs offset b = assert_that (fs = []) (Inr b)"

definition get_key_value :: "sw_table \<Rightarrow> field_value list \<Rightarrow> buffer result" where
  "get_key_value tb vs = value_loop (ta_key_fields tb) vs 0 (new_buffer (key_size tb))"

text \<open>A digest, which the switch sends to the controller, is put together in the same way; its fields are
  pointers to bytes or numbers, and their sizes are rounded to bytes like those of a key.\<close>

record digest_field =
  df_name :: string
  df_size :: nat
  df_is_ptr :: bool

definition build_digest_fields :: "digest_field list \<Rightarrow> digest_field list result" where
  "build_digest_fields flds =
     rmap (\<lambda>f. assert_that (df_size f > 0) (Inr (f\<lparr>df_size := round_to_bytes (df_size f)\<rparr>))) flds"

fun digest_loop :: "digest_field list \<Rightarrow> field_value list \<Rightarrow> nat \<Rightarrow> buffer \<Rightarrow> buffer result" where
  "digest_loop (f # fs) (v # vs) offset b =
     rbind (put_typed (if df_is_ptr f then ByteStream else UInt64) (df_size f div 8) b offset v)
       (digest_loop fs vs (offset + df_size f div 8))"
| "digest_loop fs vs offset b = assert_that (fs = []) (Inr b)"

definition get_digest_value :: "digest_field list \<Rightarrow> field_value list \<Rightarrow> buffer result" where
  "get_digest_value flds vs =
     digest_loop flds vs 0 (new_buffer (sum_list (map (\<lambda>f. df_size f div 8) flds)))"

section \<open>Round trip of a key\<close>

text \<open>Key fields that the library can handle, and the values it gives to the driver for them.\<close>

definition good_field :: "table_field \<Rightarrow> bool" where
  "good_field f \<longleftrightarrow> tf_exact f \<and> 0 < tf_size f div 8 \<and>
     (tf_type f = ByteStream \<or> tf_type f = UInt64 \<and> tf_size f div 8 \<le> 8)"

definition bytes_value :: "table_field \<Rightarrow> buffer \<Rightarrow> field_value" where
  "bytes_value f s = (if tf_type f = UInt64 then Number (join_bytes s) else Bytes s)"

fun key_values :: "table_field list \<Rightarrow> buffer \<Rightarrow> field_value list" where
  "key_values [] k = []"
| "key_values (f # fs) k =
     bytes_value f (take (tf_size f div 8) k) # key_values fs (drop (tf_size f div 8) k)"

definition takes_key :: "'h sde \<Rightarrow> sw_table \<Rightarrow> buffer \<Rightarrow> bool" where
  "takes_key sde tb k \<longleftrightarrow>
     list_all2 (\<lambda>f. sets_field sde (ta_name tb) (tf_name f)) (ta_key_fields tb) (key_values (ta_key_fields tb) k)"

lemma set_field_good:
  assumes "good_field f" "offset + tf_size f div 8 \<le> length b"
    "sets_field sde (ta_name tb) (tf_name f) (bytes_value f (take (tf_size f div 8) (drop offset b)))"
  shows "set_field sde tb f b offset = Inr (bytes_value f (take (tf_size f div 8) (drop offset b)))"
proof -
  have "in_bounds b offset (tf_size f div 8)" using assms(1,2) by (simp add: good_field_def in_bounds_def)
  with assms(1,3) show ?thesis
    by (auto simp: set_field_def bytes_value_def good_field_def buffer_get_def buffer_slice_def)
qed

lemma put_bytes_eq:
  "offset + length xs \<le> length b \<Longrightarrow> put_bytes b offset xs = Inr (take offset b @ xs @ drop (offset + length xs) b)"
proof (induction xs arbitrary: b offset)
  case (Cons x xs)
  have "ucast ((ucast x :: u64) AND 0xFF) = x"
    unfolding low_byte by (rule bit_word_eqI) (auto simp: bit_simps)
  then have "buffer_set_big_endian b offset 1 (ucast x) = Inr (b[offset := x])"
    using Cons.prems by (simp add: buffer_set_big_endian_def in_bounds_def)
  moreover have "put_bytes (b[offset := x]) (Suc offset) xs =
      Inr (take (Suc offset) (b[offset := x]) @ xs @ drop (Suc offset + length xs) (b[offset := x]))"
    using Cons.prems by (intro Cons.IH) simp
  ultimately show ?case using Cons.prems by (simp add: take_Suc_conv_app_nth)
qed simp

lemma put_field_value:
  assumes "good_field f" "length s = tf_size f div 8" "offset + tf_size f div 8 \<le> length b"
  shows "put_field f b offset (bytes_value f s) = Inr (take offset b @ s @ drop (offset + tf_size f div 8) b)"
proof (cases "tf_type f = UInt64")
  case True
  with assms have "tf_exact f" "tf_size f div 8 \<le> 8" "0 < tf_size f div 8" by (auto simp: good_field_def)
  with True assms set_loop_eq [of offset "length s" b "join_bytes s"] split_join_bytes [of s] show ?thesis
    by (simp add: put_field_def put_typed_def bytes_value_def buffer_set_def in_bounds_def)
next
  case False
  with assms(1) have "tf_exact f" "tf_type f = ByteStream" by (auto simp: good_field_def)
  with assms(2,3) put_bytes_eq [of offset s b] show ?thesis by (simp add: put_field_def put_typed_def bytes_value_def)
qed

lemma key_loop_values:
  assumes "\<forall>f \<in> set fs. good_field f" "offset + sum_list (map (\<lambda>f. tf_size f div 8) fs) \<le> length k"
    "list_all2 (\<lambda>f. sets_field sde (ta_name tb) (tf_name f)) fs (key_values fs (drop offset k))"
  shows "key_loop sde tb fs k offset = Inr (key_values fs (drop offset k))"
  using assms
proof (induction fs arbitrary: offset)
  case (Cons f fs)
  have "set_field sde tb f k offset = Inr (bytes_value f (take (tf_size f div 8) (drop offset k)))"
    using Cons.prems by (intro set_field_good) simp_all
  moreover have "key_loop sde tb fs k (offset + tf_size f div 8) = Inr (key_values fs (drop (offset + tf_size f div 8) k))"
    using Cons.prems by (intro Cons.IH) (simp_all add: add.assoc add.commute)
  ultimately show ?case using Cons.prems(2) by (simp add: Let_def add.commute)
qed simp

lemma value_loop_values:
  assumes "\<forall>f \<in> set fs. good_field f" "offset + sum_list (map (\<lambda>f. tf_size f div 8) fs) = length k"
    "length b = length k" "take offset b = take offset k"
  shows "value_loop fs (key_values fs (drop offset k)) offset b = Inr k"
  using assms
proof (induction fs arbitrary: offset b)
  case (Cons f fs)
  let ?n = "tf_size f div 8"
  let ?b = "take offset b @ take ?n (drop offset k) @ drop (offset + ?n) b"
  have n: "offset + ?n \<le> length k" "good_field f" using Cons.prems by simp_all
  have "value_loop fs (key_values fs (drop (offset + ?n) k)) (offset + ?n) ?b = Inr k"
    using Cons.prems n by (intro Cons.IH) (simp_all add: take_add add.assoc)
  moreover have "put_field f b offset (bytes_value f (take ?n (drop offset k))) = Inr ?b"
    using n Cons.prems(3) by (intro put_field_value) simp_all
  ultimately show ?case by (simp add: add.commute)
qed simp

lemma set_key_values:
  assumes "\<forall>f \<in> set (ta_key_fields tb). good_field f" "length k = key_size tb" "takes_key sde tb k"
  shows "set_key sde tb k = Inr (key_values (ta_key_fields tb) k)"
  using assms key_loop_values [of "ta_key_fields tb" 0 k sde tb] by (simp add: set_key_def takes_key_def key_size_def)

lemma get_key_value_values:
  assumes "\<forall>f \<in> set (ta_key_fields tb). good_field f" "length k = key_size tb"
  shows "get_key_value tb (key_values (ta_key_fields tb) k) = Inr k"
  using assms value_loop_values [of "ta_key_fields tb" 0 k "new_buffer (key_size tb)"]
  by (simp add: get_key_value_def key_size_def new_buffer_def)

text \<open>C33. A key that the library gives to the switch and the switch reports back, when an entry ages, is
  the same bytes again.\<close>
theorem reported_key_is_written_key:
  assumes "\<forall>f \<in> set (ta_key_fields tb). good_field f" "length k = key_size tb" "takes_key sde tb k"
  shows "\<exists>vs. set_key sde tb k = Inr vs \<and> get_key_value tb vs = Inr k"
  using set_key_values [OF assms] get_key_value_values [OF assms(1,2)] by blast

section \<open>A table of flows\<close>

definition a_table :: sw_table where
  "a_table = \<lparr>ta_name = ''Ingress.flows'', ta_capacity = 65536,
     ta_key_fields =
       [\<lparr>tf_name = ''ip'', tf_size = 32, tf_type = UInt64, tf_exact = True\<rparr>,
        \<lparr>tf_name = ''dst_mac'', tf_size = 16, tf_type = ByteStream, tf_exact = True\<rparr>],
     ta_actions = [], ta_no_action = True, ta_time_aware = False, ta_entry_ttl = 0\<rparr>"

definition a_driver :: "unit sde" where
  "a_driver = \<lparr>table_from_name = \<lambda>n. None, sets_field = \<lambda>tb f v. True, table_usage = \<lambda>h tb. Some 0,
     idle_notify = \<lambda>h tb t e. Some h, entry_add = \<lambda>h tb k d. Some h, entry_mod = \<lambda>h tb k d. Some h,
     entry_add_or_mod = \<lambda>h tb k d. Some h, entry_del = \<lambda>h tb k. Some h,
     register_info = \<lambda>r. Some (1, 32), register_write = \<lambda>h r i v. Some h, register_read = \<lambda>h r i. Some [0]\<rparr>"

theorem reported_key_is_written_key_witness:
  "\<exists>vs. set_key a_driver a_table [10, 0, 0, 1, 0xab, 0xcd] = Inr vs \<and>
     get_key_value a_table vs = Inr [10, 0, 0, 1, 0xab, 0xcd]"
  by (rule reported_key_is_written_key)
    (simp_all add: a_table_def a_driver_def good_field_def key_size_def takes_key_def)

end
