(* ===== verification/SyconMirror.thy ===== *)
theory SyconMirror
  imports SyconTables "HOL-Library.AList"
begin

text \<open>
  What the data structures of \<^verbatim>\<open>libsycon/include/sycon/data_structures\<close> share: several tables of the
  switch that are kept alike, the reports of the switch about entries that aged, and what the driver
  is relied on for.
\<close>

section \<open>Several tables\<close>

text \<open>The loops over the tables of a structure.\<close>

fun for_tables :: "(sw_table \<Rightarrow> 'h \<Rightarrow> 'h result) \<Rightarrow> sw_table list \<Rightarrow> 'h \<Rightarrow> 'h result" where
  "for_tables f [] h = Inr h"
| "for_tables f (tb # tbs) h = rbind (f tb h) (for_tables f tbs)"

fun notify_tables :: "'h sde \<Rightarrow> u64 \<Rightarrow> sw_table list \<Rightarrow> 'h \<Rightarrow> (sw_table list \<times> 'h) result" where
  "notify_tables sde timeout [] h = Inr ([], h)"
| "notify_tables sde timeout (tb # tbs) h =
     rbind (set_notify_mode sde timeout True tb h) (\<lambda>(tb, h).
     rbind (notify_tables sde timeout tbs h) (\<lambda>(tbs, h). Inr (tb # tbs, h)))"

text \<open>The loop of the callbacks that looks for the table of a report.\<close>

definition find_target :: "sw_table list \<Rightarrow> string \<Rightarrow> sw_table result" where
  "find_target tbs full_name =
     (case find (\<lambda>tb. get_full_name tb = full_name) tbs of None \<Rightarrow> Inl Panicked | Some tb \<Rightarrow> Inr tb)"

text \<open>An unordered map of sets of names: which tables have reported a key.\<close>

type_synonym 'k reports = "('k \<times> string list) list"

definition reported :: "'k reports \<Rightarrow> 'k \<Rightarrow> string list" where
  "reported rs k = (case map_of rs k of None \<Rightarrow> [] | Some names \<Rightarrow> names)"

definition add_report :: "'k \<Rightarrow> string \<Rightarrow> 'k reports \<Rightarrow> 'k reports" where
  "add_report k name rs = AList.update k (List.insert name (reported rs k)) rs"

text \<open>The 4 bytes of a value, most significant first.\<close>

definition word_buffer :: "u32 \<Rightarrow> buffer result" where
  "word_buffer v = buffer_set (new_buffer 4) 0 4 (ucast v)"

lemma reported_add [simp]:
  "reported (add_report k name rs) k' = (if k' = k then List.insert name (reported rs k) else reported rs k')"
  by (simp add: reported_def add_report_def update_conv')

lemma reported_delete [simp]: "reported (AList.delete k rs) k' = (if k' = k then [] else reported rs k')"
  by (simp add: reported_def delete_conv')

lemma word_buffer_eq [simp]: "word_buffer v = Inr (split_bytes 4 (ucast v))"
  using set_loop_eq [of 0 4 "new_buffer 4" "ucast v"]
  by (simp add: word_buffer_def buffer_set_def in_bounds_def new_buffer_def)

lemma join_split_word: "join_bytes (split_bytes 4 (ucast (v :: u32))) = ucast v"
  unfolding join_split_bytes by (rule bit_word_eqI) (auto simp: bit_simps dest: bit_imp_le_length)

section \<open>The driver's promises\<close>

text \<open>\<open>c h t\<close> are the entries of the table \<open>t\<close> in the hardware state \<open>h\<close>; \<open>room t\<close> is how many the
  table takes for sure. The driver adds an entry for a new key while there is room, changes and deletes
  the entries that are there, and neither registers nor notifications touch entries.\<close>

type_synonym 'h switch_contents = "'h \<Rightarrow> string \<Rightarrow> field_value list \<Rightarrow> entry_data option"

definition entry_stored :: "'h switch_contents \<Rightarrow> 'h \<Rightarrow> string \<Rightarrow> field_value list \<Rightarrow> entry_data option \<Rightarrow> 'h \<Rightarrow> bool" where
  "entry_stored c h t k d h' \<longleftrightarrow> c h' = (c h)(t := (c h t)(k := d))"

definition takes_entries :: "'h sde \<Rightarrow> 'h switch_contents \<Rightarrow> (string \<Rightarrow> nat) \<Rightarrow> bool" where
  "takes_entries sde c room \<longleftrightarrow>
     (\<forall>h t k d. c h t k = None \<longrightarrow> card (dom (c h t)) < room t \<longrightarrow>
       (\<exists>h'. entry_add sde h t k d = Some h' \<and> entry_stored c h t k (Some d) h') \<and>
       (\<exists>h'. entry_add_or_mod sde h t k d = Some h' \<and> entry_stored c h t k (Some d) h'))"

definition keeps_entries :: "'h sde \<Rightarrow> 'h switch_contents \<Rightarrow> bool" where
  "keeps_entries sde c \<longleftrightarrow>
     (\<forall>h t k d. c h t k \<noteq> None \<longrightarrow>
       (\<exists>h'. entry_mod sde h t k d = Some h' \<and> entry_stored c h t k (Some d) h') \<and>
       (\<exists>h'. entry_add_or_mod sde h t k d = Some h' \<and> entry_stored c h t k (Some d) h') \<and>
       (\<exists>h'. entry_del sde h t k = Some h' \<and> entry_stored c h t k None h')) \<and>
     (\<forall>h r i v h'. register_write sde h r i v = Some h' \<longrightarrow> c h' = c h) \<and>
     (\<forall>h t v e h'. idle_notify sde h t v e = Some h' \<longrightarrow> c h' = c h)"

definition driver_ok :: "'h sde \<Rightarrow> 'h switch_contents \<Rightarrow> (string \<Rightarrow> nat) \<Rightarrow> bool" where
  "driver_ok sde c room \<longleftrightarrow> takes_entries sde c room \<and> keeps_entries sde c"

section \<open>Tables that the library can fill\<close>

definition key_table :: "'h sde \<Rightarrow> nat \<Rightarrow> sw_table \<Rightarrow> bool" where
  "key_table sde n tb \<longleftrightarrow>
     (\<forall>f \<in> set (ta_key_fields tb). good_field f) \<and> key_size tb = n \<and> (\<forall>k. length k = n \<longrightarrow> takes_key sde tb k) \<and>
     (ta_time_aware tb \<longrightarrow> sets_field sde (ta_name tb) ''$ENTRY_TTL'' (Number (ta_entry_ttl tb)))"

definition entry_ttl :: "sw_table \<Rightarrow> u64 option" where
  "entry_ttl tb = (if ta_time_aware tb then Some (ta_entry_ttl tb) else None)"

text \<open>The entry of a key that carries no data.\<close>

definition bare_entry :: "sw_table \<Rightarrow> entry_data" where
  "bare_entry tb = (''NoAction'', [], entry_ttl tb)"

text \<open>One action with one parameter of 32 bits, and the entry that carries a value.\<close>

definition value_table :: "'h sde \<Rightarrow> nat \<Rightarrow> sw_table \<Rightarrow> bool" where
  "value_table sde n tb \<longleftrightarrow> key_table sde n tb \<and>
     length (ta_actions tb) = 1 \<and>
     (let flds = snd (hd (ta_actions tb)); f = hd flds in
      length flds = 1 \<and> tf_type f = UInt64 \<and> tf_size f = 32 \<and>
      (\<forall>v :: u32. sets_field sde (ta_name tb) (tf_name f) (Number (ucast v))))"

definition value_entry :: "sw_table \<Rightarrow> u32 \<Rightarrow> entry_data" where
  "value_entry tb v = (fst (hd (ta_actions tb)), [Number (ucast v)], entry_ttl tb)"

text \<open>The table holds the entries of a map from keys of \<open>n\<close> bytes, and no others.\<close>

definition table_holds :: "nat \<Rightarrow> sw_table \<Rightarrow> (buffer \<rightharpoonup> entry_data) \<Rightarrow> (field_value list \<rightharpoonup> entry_data) \<Rightarrow> bool" where
  "table_holds n tb m es \<longleftrightarrow>
     (\<forall>k. length k = n \<longrightarrow> es (key_values (ta_key_fields tb) k) = m k) \<and>
     dom es \<subseteq> key_values (ta_key_fields tb) ` {k. length k = n}"

lemma set_ttl_ok: "key_table sde n tb \<Longrightarrow> set_ttl sde tb = Inr (entry_ttl tb)"
  by (simp add: set_ttl_def entry_ttl_def key_table_def)

lemma set_key_ok: "key_table sde n tb \<Longrightarrow> length k = n \<Longrightarrow> set_key sde tb k = Inr (key_values (ta_key_fields tb) k)"
  by (intro set_key_values) (auto simp: key_table_def)

lemma reported_key_ok: "key_table sde n tb \<Longrightarrow> length k = n \<Longrightarrow> get_key_value tb (key_values (ta_key_fields tb) k) = Inr k"
  by (intro get_key_value_values) (auto simp: key_table_def)

lemma key_values_inj: "key_table sde n tb \<Longrightarrow> inj_on (key_values (ta_key_fields tb)) {k. length k = n}"
  by (intro inj_onI) (metis reported_key_ok mem_Collect_eq sum.inject(2))

lemma set_data_bare: "key_table sde n tb \<Longrightarrow> ta_no_action tb \<Longrightarrow> set_data sde tb None = Inr (bare_entry tb)"
  by (simp add: set_data_def bare_entry_def set_ttl_ok)

lemma value_tableD:
  assumes "value_table sde n tb"
  shows "key_table sde n tb" "length (ta_actions tb) = 1"
    "set_data sde tb (Some (fst (hd (ta_actions tb)), [split_bytes 4 (ucast (v :: u32))])) = Inr (value_entry tb v)"
proof -
  obtain act f where a: "ta_actions tb = [(act, [f])]" "tf_type f = UInt64" "tf_size f = 32"
    "\<And>v :: u32. sets_field sde (ta_name tb) (tf_name f) (Number (ucast v))" "key_table sde n tb"
    using assms by (auto simp: value_table_def Let_def length_Suc_conv)
  then show "key_table sde n tb" "length (ta_actions tb) = 1" by simp_all
  have "buffer_get (split_bytes 4 (ucast v)) 0 4 = Inr (ucast v)"
    by (simp add: buffer_get_def in_bounds_def join_split_word)
  then have "set_field sde tb f (split_bytes 4 (ucast v)) 0 = Inr (Number (ucast v))"
    using a by (simp add: set_field_def)
  then show "set_data sde tb (Some (fst (hd (ta_actions tb)), [split_bytes 4 (ucast v)])) = Inr (value_entry tb v)"
    using a by (simp add: set_data_def value_entry_def set_ttl_ok)
qed

text \<open>A table that holds a map has as many entries as the map.\<close>

lemma table_holds_card:
  assumes "key_table sde n tb" "table_holds n tb m es" "\<forall>k \<in> dom m. length k = n"
  shows "card (dom es) = card (dom m)"
proof -
  have "dom es = key_values (ta_key_fields tb) ` dom m"
  proof (intro set_eqI iffI)
    fix ks assume ks: "ks \<in> dom es"
    then obtain k where k: "ks = key_values (ta_key_fields tb) k" "length k = n"
      using assms(2) unfolding table_holds_def by blast
    then have "es ks = m k" using assms(2) by (simp add: table_holds_def)
    with ks k show "ks \<in> key_values (ta_key_fields tb) ` dom m" by (metis domD domI imageI)
  next
    fix ks assume "ks \<in> key_values (ta_key_fields tb) ` dom m"
    then obtain k where k: "ks = key_values (ta_key_fields tb) k" "k \<in> dom m" by blast
    with assms(3) have "es ks = m k" using assms(2) by (simp add: table_holds_def)
    with k(2) show "ks \<in> dom es" by (metis domD domI)
  qed
  moreover have "inj_on (key_values (ta_key_fields tb)) (dom m)"
    using assms(3) by (intro inj_on_subset [OF key_values_inj [OF assms(1)]]) auto
  ultimately show ?thesis by (simp add: card_image)
qed

lemma table_holds_upd:
  assumes "key_table sde n tb" "table_holds n tb m es" "length k = n"
  shows "table_holds n tb (m(k := d)) (es(key_values (ta_key_fields tb) k := d))"
proof -
  let ?kv = "key_values (ta_key_fields tb)"
  have "?kv k' = ?kv k \<longleftrightarrow> k' = k" if "length k' = n" for k'
    using inj_on_eq_iff [OF key_values_inj [OF assms(1)], of k' k] that assms(3) by simp
  moreover have "dom (es(?kv k := d)) \<subseteq> ?kv ` {k. length k = n}"
    using assms(2,3) by (auto simp: table_holds_def)
  ultimately show ?thesis using assms(2) by (simp add: table_holds_def)
qed

text \<open>A loop over tables with different names changes each of them as one of its steps does.\<close>

lemma for_tables_each:
  assumes "\<And>tb h. tb \<in> set tbs \<Longrightarrow> P tb (c h (ta_name tb)) \<Longrightarrow>
      \<exists>h'. f tb h = Inr h' \<and> c h' = (c h)(ta_name tb := g tb (c h (ta_name tb)))"
    "distinct (map ta_name tbs)" "\<And>tb. tb \<in> set tbs \<Longrightarrow> P tb (c h (ta_name tb))"
  shows "\<exists>h'. for_tables f tbs h = Inr h' \<and> (\<forall>tb \<in> set tbs. c h' (ta_name tb) = g tb (c h (ta_name tb))) \<and>
    (\<forall>t. t \<notin> ta_name ` set tbs \<longrightarrow> c h' t = c h t)"
  using assms
proof (induction tbs arbitrary: h)
  case (Cons tb tbs)
  have "\<exists>h1. f tb h = Inr h1 \<and> c h1 = (c h)(ta_name tb := g tb (c h (ta_name tb)))"
    by (intro Cons.prems(1,3)) simp_all
  then obtain h1 where h1: "f tb h = Inr h1" "c h1 = (c h)(ta_name tb := g tb (c h (ta_name tb)))" by blast
  have other: "ta_name tb' \<noteq> ta_name tb" if "tb' \<in> set tbs" for tb'
    using Cons.prems(2) that by (auto simp: image_iff)
  have "\<exists>h'. for_tables f tbs h1 = Inr h' \<and> (\<forall>tb \<in> set tbs. c h' (ta_name tb) = g tb (c h1 (ta_name tb))) \<and>
      (\<forall>t. t \<notin> ta_name ` set tbs \<longrightarrow> c h' t = c h1 t)"
    using Cons.prems other h1(2) by (intro Cons.IH) auto
  then obtain h' where h': "for_tables f tbs h1 = Inr h'"
    "\<forall>tb \<in> set tbs. c h' (ta_name tb) = g tb (c h1 (ta_name tb))" "\<forall>t. t \<notin> ta_name ` set tbs \<longrightarrow> c h' t = c h1 t"
    by blast
  have "c h' (ta_name tb) = g tb (c h (ta_name tb))" using h'(3) h1(2) Cons.prems(2) by auto
  moreover have "\<forall>tb \<in> set tbs. c h' (ta_name tb) = g tb (c h (ta_name tb))" using h'(2) h1(2) other by simp
  moreover have "\<forall>t. t \<notin> insert (ta_name tb) (ta_name ` set tbs) \<longrightarrow> c h' t = c h t" using h'(3) h1(2) by simp
  ultimately show ?case using h1(1) h'(1) by auto
qed simp

text \<open>All tables of a structure hold the same map, as entries of each.\<close>

definition tables_hold :: "'h switch_contents \<Rightarrow> 'h \<Rightarrow> nat \<Rightarrow> sw_table list \<Rightarrow> (sw_table \<Rightarrow> buffer \<rightharpoonup> entry_data) \<Rightarrow> bool" where
  "tables_hold c h n tbs m \<longleftrightarrow> (\<forall>tb \<in> set tbs. table_holds n tb (m tb) (c h (ta_name tb)))"

definition good_tables :: "'h sde \<Rightarrow> nat \<Rightarrow> sw_table list \<Rightarrow> bool" where
  "good_tables sde n tbs \<longleftrightarrow> distinct (map ta_name tbs) \<and> (\<forall>tb \<in> set tbs. key_table sde n tb)"

lemma for_tables_store:
  assumes "good_tables sde n tbs" "tables_hold c h n tbs m" "length k = n"
    "\<And>tb h. tb \<in> set tbs \<Longrightarrow> table_holds n tb (m tb) (c h (ta_name tb)) \<Longrightarrow>
      \<exists>h'. f tb h = Inr h' \<and> entry_stored c h (ta_name tb) (key_values (ta_key_fields tb) k) (d tb) h'"
  shows "\<exists>h'. for_tables f tbs h = Inr h' \<and> tables_hold c h' n tbs (\<lambda>tb. (m tb)(k := d tb)) \<and>
    (\<forall>t. t \<notin> ta_name ` set tbs \<longrightarrow> c h' t = c h t)"
proof -
  have "\<exists>h'. for_tables f tbs h = Inr h' \<and>
      (\<forall>tb \<in> set tbs. c h' (ta_name tb) = (c h (ta_name tb))(key_values (ta_key_fields tb) k := d tb)) \<and>
      (\<forall>t. t \<notin> ta_name ` set tbs \<longrightarrow> c h' t = c h t)"
  proof (rule for_tables_each [where P = "\<lambda>tb es. table_holds n tb (m tb) es"])
    show "\<exists>h'. f tb h = Inr h' \<and> c h' = (c h)(ta_name tb := (c h (ta_name tb))(key_values (ta_key_fields tb) k := d tb))"
      if "tb \<in> set tbs" "table_holds n tb (m tb) (c h (ta_name tb))" for tb h
      using assms(4) [OF that] by (simp only: entry_stored_def)
  qed (use assms(1,2) in \<open>simp_all add: good_tables_def tables_hold_def\<close>)
  moreover have "table_holds n tb ((m tb)(k := d tb)) ((c h (ta_name tb))(key_values (ta_key_fields tb) k := d tb))"
    if "tb \<in> set tbs" for tb
    using assms(1,2,3) that by (intro table_holds_upd) (auto simp: good_tables_def tables_hold_def)
  ultimately show ?thesis unfolding tables_hold_def by auto
qed

lemma find_target_ok:
  assumes "tb \<in> set tbs" "distinct (map ta_name tbs)"
  shows "find_target tbs (''pipe.'' @ ta_name tb) = Inr tb"
  using assms by (induction tbs) (auto simp: find_target_def get_full_name_def image_iff)

section \<open>A driver\<close>

text \<open>A switch that takes every entry: its state is the entries of its tables.\<close>

type_synonym switch = "string \<Rightarrow> field_value list \<Rightarrow> entry_data option"

definition sample_driver :: "(string \<Rightarrow> table_info option) \<Rightarrow> switch sde" where
  "sample_driver tables = \<lparr>table_from_name = tables, sets_field = \<lambda>t f v. True, table_usage = \<lambda>h t. Some 0,
     idle_notify = \<lambda>h t v e. Some h,
     entry_add = \<lambda>h t k d. if h t k = None then Some (h(t := (h t)(k := Some d))) else None,
     entry_mod = \<lambda>h t k d. if h t k = None then None else Some (h(t := (h t)(k := Some d))),
     entry_add_or_mod = \<lambda>h t k d. Some (h(t := (h t)(k := Some d))),
     entry_del = \<lambda>h t k. if h t k = None then None else Some (h(t := (h t)(k := None))),
     register_info = \<lambda>r. Some (16, 32), register_write = \<lambda>h r i v. Some h, register_read = \<lambda>h r i. Some [0]\<rparr>"

lemma sample_driver_ok: "driver_ok (sample_driver tables) (\<lambda>h. h) room"
  by (auto simp: driver_ok_def takes_entries_def keeps_entries_def entry_stored_def sample_driver_def)

end
