(* ===== verification/SyconMaps.thy ===== *)
theory SyconMaps
  imports SyconMirror
begin

text \<open>
  Maps that the controller writes and the switch reads
  (\<^verbatim>\<open>libsycon/include/sycon/data_structures/map_table.h\<close>, \<^verbatim>\<open>guarded_map_table.h\<close>): a cache in the
  controller and one or more tables of the switch with the same entries. An entry that was not used for
  a while is reported by every table; it is deleted when all have reported it. The driver's transactions
  around a report are left out.
\<close>

section \<open>Map tables\<close>

record sycon_map =
  mt_cache :: "(buffer \<times> u32) list"
  mt_reports :: "buffer reports"
  mt_tables :: "sw_table list"
  mt_capacity :: nat
  mt_key_size :: nat

text \<open>The capacity is kept in 32 bits and compared with the full size of every table.\<close>

definition new_sycon_map :: "'h sde \<Rightarrow> string list \<Rightarrow> u64 option \<Rightarrow> 'h \<Rightarrow> (sycon_map \<times> 'h) result" where
  "new_sycon_map sde names timeout h =
     assert_that (names \<noteq> [])
       (rbind (rmap (new_sw_table sde) names) (\<lambda>tbs.
        let capacity = get_effective_capacity (last tbs) mod 2 ^ 32 in
        assert_that (\<forall>tb \<in> set tbs. get_effective_capacity tb = capacity)
          (rbind (case timeout of None \<Rightarrow> Inr (tbs, h) | Some t \<Rightarrow> notify_tables sde t tbs h) (\<lambda>(tbs, h).
           Inr (\<lparr>mt_cache = [], mt_reports = [], mt_tables = tbs, mt_capacity = capacity,
             mt_key_size = sum_list (map (\<lambda>tb. sum_list (map tf_size (ta_key_fields tb))) tbs)\<rparr>, h)))))"

definition map_table_get :: "sycon_map \<Rightarrow> buffer \<Rightarrow> u32 option" where
  "map_table_get T k = map_of (mt_cache T) k"

lemma map_table_get_eq: "map_table_get T = map_of (mt_cache T)"
  by (rule ext) (simp add: map_table_get_def)

text \<open>The body of the loop of \<^verbatim>\<open>put\<close>, and the loop.\<close>

definition put_value :: "'h sde \<Rightarrow> buffer \<Rightarrow> buffer \<Rightarrow> sw_table \<Rightarrow> 'h \<Rightarrow> 'h result" where
  "put_value sde k v tb h =
     assert_that (length (ta_actions tb) = 1) (add_or_mod_entry sde tb k (Some (fst (hd (ta_actions tb)), [v])) h)"

definition put_values :: "'h sde \<Rightarrow> sw_table list \<Rightarrow> buffer \<Rightarrow> u32 \<Rightarrow> 'h \<Rightarrow> 'h result" where
  "put_values sde tbs k v h = rbind (word_buffer v) (\<lambda>v. for_tables (put_value sde k v) tbs h)"

definition map_table_put :: "'h sde \<Rightarrow> buffer \<Rightarrow> u32 \<Rightarrow> sycon_map \<times> 'h \<Rightarrow> (sycon_map \<times> 'h) result" where
  "map_table_put sde k v = (\<lambda>(T, h).
     if mt_capacity T \<le> length (mt_cache T) then Inr (T, h)
     else rbind (put_values sde (mt_tables T) k v h) (\<lambda>h.
       Inr (T\<lparr>mt_cache := AList.update k v (mt_cache T)\<rparr>, h)))"

definition map_table_del :: "'h sde \<Rightarrow> buffer \<Rightarrow> sycon_map \<times> 'h \<Rightarrow> (sycon_map \<times> 'h) result" where
  "map_table_del sde k = (\<lambda>(T, h).
     case map_of (mt_cache T) k of
       None \<Rightarrow> Inr (T, h)
     | Some _ \<Rightarrow> rbind (for_tables (\<lambda>tb. del_entry sde tb k) (mt_tables T) h) (\<lambda>h.
         Inr (T\<lparr>mt_cache := AList.delete k (mt_cache T)\<rparr>, h)))"

text \<open>A report: the full name of the table and the fields of the key.\<close>

definition map_table_expire ::
  "'h sde \<Rightarrow> string \<Rightarrow> field_value list \<Rightarrow> sycon_map \<times> 'h \<Rightarrow> (sycon_map \<times> 'h) result" where
  "map_table_expire sde name vs = (\<lambda>(T, h).
     rbind (find_target (mt_tables T) name) (\<lambda>tb.
     rbind (get_key_value tb vs) (\<lambda>k.
     let T = T\<lparr>mt_reports := add_report k name (mt_reports T)\<rparr> in
     if length (reported (mt_reports T) k) = length (mt_tables T)
     then rbind (map_table_del sde k (T, h)) (\<lambda>(T, h). Inr (T\<lparr>mt_reports := AList.delete k (mt_reports T)\<rparr>, h))
     else Inr (T, h))))"

section \<open>Guarded map tables\<close>

text \<open>The guard is a register that tells the switch whether there is room; there may be none.\<close>

record guarded_map = sycon_map +
  gm_guard :: "sw_register option"
  gm_guard_cache :: bool

definition guard_set :: "'h sde \<Rightarrow> bool \<Rightarrow> guarded_map \<times> 'h \<Rightarrow> (guarded_map \<times> 'h) result" where
  "guard_set sde allow = (\<lambda>(T, h).
     case gm_guard T of
       None \<Rightarrow> Inl Assert_Failed
     | Some g \<Rightarrow> rbind (set_register sde g 0 (if allow then 1 else 0) h) (\<lambda>h. Inr (T\<lparr>gm_guard_cache := allow\<rparr>, h)))"

definition guard_check :: "guarded_map \<Rightarrow> bool" where
  "guard_check T = gm_guard_cache T"

text \<open>There is a guard where the driver knows its name.\<close>

definition conditional_build_guard :: "'h sde \<Rightarrow> string \<Rightarrow> sw_register option result" where
  "conditional_build_guard sde name =
     (case table_from_name sde name of
        None \<Rightarrow> Inr None
      | Some _ \<Rightarrow> rbind (new_sw_register sde name) (\<lambda>rg. Inr (Some rg)))"

text \<open>\<open>garbage\<close> is what the cached flag is before it is first written.\<close>

definition new_guarded_map ::
  "'h sde \<Rightarrow> string list \<Rightarrow> string \<Rightarrow> bool \<Rightarrow> u64 option \<Rightarrow> 'h \<Rightarrow> (guarded_map \<times> 'h) result" where
  "new_guarded_map sde names guard_name garbage timeout h =
     assert_that (names \<noteq> [])
       (rbind (rmap (new_sw_table sde) names) (\<lambda>tbs.
        rbind (conditional_build_guard sde guard_name) (\<lambda>guard.
        let capacity = get_effective_capacity (hd tbs) mod 2 ^ 32;
            T = \<lparr>mt_cache = [], mt_reports = [], mt_tables = tbs, mt_capacity = capacity, mt_key_size = 0,
              gm_guard = guard, gm_guard_cache = garbage\<rparr> in
        assert_that (\<forall>tb \<in> set tbs. get_effective_capacity tb = capacity)
          (rbind (if guard \<noteq> None then guard_set sde True (T, h) else Inr (T, h)) (\<lambda>(T, h).
           rbind (case timeout of None \<Rightarrow> Inr (tbs, h) | Some t \<Rightarrow> notify_tables sde t tbs h) (\<lambda>(tbs, h).
           Inr (T\<lparr>mt_tables := tbs\<rparr>, h)))))))"

definition guarded_get :: "guarded_map \<Rightarrow> buffer \<Rightarrow> u32 option" where
  "guarded_get T k = map_of (mt_cache T) k"

definition guarded_put :: "'h sde \<Rightarrow> buffer \<Rightarrow> u32 \<Rightarrow> guarded_map \<times> 'h \<Rightarrow> (guarded_map \<times> 'h) result" where
  "guarded_put sde k v = (\<lambda>(T, h).
     if mt_capacity T \<le> length (mt_cache T) then Inr (T, h)
     else rbind (put_values sde (mt_tables T) k v h) (\<lambda>h.
       let T = T\<lparr>mt_cache := AList.update k v (mt_cache T)\<rparr> in
       if mt_capacity T \<le> length (mt_cache T) then guard_set sde False (T, h) else Inr (T, h)))"

definition guarded_del :: "'h sde \<Rightarrow> buffer \<Rightarrow> guarded_map \<times> 'h \<Rightarrow> (guarded_map \<times> 'h) result" where
  "guarded_del sde k = (\<lambda>(T, h).
     case map_of (mt_cache T) k of
       None \<Rightarrow> Inr (T, h)
     | Some _ \<Rightarrow> rbind (for_tables (\<lambda>tb. del_entry sde tb k) (mt_tables T) h) (\<lambda>h.
         let T = T\<lparr>mt_cache := AList.delete k (mt_cache T)\<rparr> in
         if gm_guard T \<noteq> None then guard_set sde True (T, h) else Inr (T, h)))"

definition guarded_expire ::
  "'h sde \<Rightarrow> string \<Rightarrow> field_value list \<Rightarrow> guarded_map \<times> 'h \<Rightarrow> (guarded_map \<times> 'h) result" where
  "guarded_expire sde name vs = (\<lambda>(T, h).
     rbind (find_target (mt_tables T) name) (\<lambda>tb.
     rbind (get_key_value tb vs) (\<lambda>k.
     let T = T\<lparr>mt_reports := add_report k name (mt_reports T)\<rparr> in
     if length (reported (mt_reports T) k) = length (mt_tables T)
     then rbind (guarded_del sde k (T, h)) (\<lambda>(T, h). Inr (T\<lparr>mt_reports := AList.delete k (mt_reports T)\<rparr>, h))
     else Inr (T, h))))"

section \<open>What a map table promises\<close>

text \<open>A map of bounded size, and for every key which tables have reported it. A new key is refused when
  the map is full, and so is a new value for a key that is there.\<close>

datatype map_event = Map_Put buffer u32 | Map_Del buffer | Map_Aged nat buffer

type_synonym map_spec = "(buffer \<rightharpoonup> u32) \<times> (buffer \<Rightarrow> nat set)"

fun sycon_map_spec_step :: "nat \<Rightarrow> nat \<Rightarrow> map_event \<Rightarrow> map_spec \<Rightarrow> map_spec" where
  "sycon_map_spec_step capacity tables (Map_Put k v) (m, r) = (if capacity \<le> card (dom m) then (m, r) else (m(k \<mapsto> v), r))"
| "sycon_map_spec_step capacity tables (Map_Del k) (m, r) = (m(k := None), r)"
| "sycon_map_spec_step capacity tables (Map_Aged i k) (m, r) =
     (if insert i (r k) = {..<tables} then (m(k := None), r(k := {})) else (m, r(k := insert i (r k))))"

text \<open>The events as they reach the code: the switch reports the fields of a key of its \<open>i\<close>-th table.\<close>

fun map_event_step :: "'h sde \<Rightarrow> map_event \<Rightarrow> sycon_map \<times> 'h \<Rightarrow> (sycon_map \<times> 'h) result" where
  "map_event_step sde (Map_Put k v) S = map_table_put sde k v S"
| "map_event_step sde (Map_Del k) S = map_table_del sde k S"
| "map_event_step sde (Map_Aged i k) S =
     (let tb = mt_tables (fst S) ! i in
      map_table_expire sde (get_full_name tb) (key_values (ta_key_fields tb) k) S)"

fun sycon_map_run :: "'h sde \<Rightarrow> map_event list \<Rightarrow> sycon_map \<times> 'h \<Rightarrow> (sycon_map \<times> 'h) result" where
  "sycon_map_run sde [] S = Inr S"
| "sycon_map_run sde (e # es) S = rbind (map_event_step sde e S) (sycon_map_run sde es)"

fun map_event_ok :: "nat \<Rightarrow> nat \<Rightarrow> map_event \<Rightarrow> bool" where
  "map_event_ok n tables (Map_Put k v) \<longleftrightarrow> length k = n"
| "map_event_ok n tables (Map_Del k) \<longleftrightarrow> length k = n"
| "map_event_ok n tables (Map_Aged i k) \<longleftrightarrow> length k = n \<and> i < tables"

text \<open>The tables of a map hold its entries.\<close>

definition tables_hold_map :: "'h switch_contents \<Rightarrow> 'h \<Rightarrow> nat \<Rightarrow> sw_table list \<Rightarrow> (buffer \<rightharpoonup> u32) \<Rightarrow> bool" where
  "tables_hold_map c h n tbs m \<longleftrightarrow> tables_hold c h n tbs (\<lambda>tb k. map_option (value_entry tb) (m k))"

definition value_tables :: "'h sde \<Rightarrow> nat \<Rightarrow> (string \<Rightarrow> nat) \<Rightarrow> nat \<Rightarrow> sw_table list \<Rightarrow> bool" where
  "value_tables sde n room capacity tbs \<longleftrightarrow>
     distinct (map ta_name tbs) \<and> (\<forall>tb \<in> set tbs. value_table sde n tb \<and> capacity \<le> room (ta_name tb))"

definition reports_match :: "sw_table list \<Rightarrow> 'k reports \<Rightarrow> ('k \<Rightarrow> nat set) \<Rightarrow> bool" where
  "reports_match tbs rs r \<longleftrightarrow>
     (\<forall>k. r k \<subseteq> {..<length tbs} \<and> distinct (reported rs k) \<and>
       set (reported rs k) = (\<lambda>i. get_full_name (tbs ! i)) ` r k)"

definition map_rel :: "'h switch_contents \<Rightarrow> nat \<Rightarrow> map_spec \<Rightarrow> sycon_map \<times> 'h \<Rightarrow> bool" where
  "map_rel c n = (\<lambda>(m, r) (T, h).
     map_of (mt_cache T) = m \<and> distinct (map fst (mt_cache T)) \<and> (\<forall>k \<in> dom m. length k = n) \<and>
     length (mt_cache T) \<le> mt_capacity T \<and> reports_match (mt_tables T) (mt_reports T) r \<and>
     tables_hold_map c h n (mt_tables T) m)"

lemma value_tables_good: "value_tables sde n room capacity tbs \<Longrightarrow> good_tables sde n tbs"
  by (auto simp: value_tables_def good_tables_def dest: value_tableD(1))

lemma length_map_of: "distinct (map fst xs) \<Longrightarrow> length xs = card (dom (map_of xs))"
  by (simp add: dom_map_of_conv_image_fst distinct_map distinct_card card_image)

lemma map_option_upd: "(\<lambda>k. map_option f (m k))(k := map_option f v) = (\<lambda>k'. map_option f ((m(k := v)) k'))"
  by auto

lemma put_values_ok:
  assumes "driver_ok sde c room" "value_tables sde n room capacity tbs" "tables_hold_map c h n tbs m"
    "length k = n" "\<forall>k \<in> dom m. length k = n" "card (dom m) < capacity"
  shows "\<exists>h'. put_values sde tbs k v h = Inr h' \<and> tables_hold_map c h' n tbs (m(k \<mapsto> v)) \<and>
    (\<forall>t. t \<notin> ta_name ` set tbs \<longrightarrow> c h' t = c h t)"
proof -
  have step: "\<exists>h'. put_value sde k (split_bytes 4 (ucast v)) tb h = Inr h' \<and>
      entry_stored c h (ta_name tb) (key_values (ta_key_fields tb) k) (Some (value_entry tb v)) h'"
    if tb: "tb \<in> set tbs" "table_holds n tb (\<lambda>k. map_option (value_entry tb) (m k)) (c h (ta_name tb))" for tb h
  proof -
    have V: "value_table sde n tb" "capacity \<le> room (ta_name tb)" using assms(2) tb(1) by (auto simp: value_tables_def)
    note K = value_tableD(1) [OF V(1)]
    have "card (dom (c h (ta_name tb))) = card (dom m)"
      using table_holds_card [OF K tb(2)] assms(5) by (simp add: dom_def)
    then have "card (dom (c h (ta_name tb))) < room (ta_name tb)" using assms(6) V(2) by simp
    then have "\<exists>h'. entry_add_or_mod sde h (ta_name tb) (key_values (ta_key_fields tb) k) (value_entry tb v) = Some h' \<and>
        entry_stored c h (ta_name tb) (key_values (ta_key_fields tb) k) (Some (value_entry tb v)) h'"
      using assms(1) unfolding driver_ok_def takes_entries_def keeps_entries_def by (metis (no_types))
    then show ?thesis
      using value_tableD(2) [OF V(1)] value_tableD(3) [OF V(1), of v] set_key_ok [OF K assms(4)]
      by (auto simp: put_value_def add_or_mod_entry_def write_entry_def)
  qed
  have "\<exists>h'. for_tables (put_value sde k (split_bytes 4 (ucast v))) tbs h = Inr h' \<and>
      tables_hold c h' n tbs (\<lambda>tb. (\<lambda>k. map_option (value_entry tb) (m k))(k := map_option (value_entry tb) (Some v))) \<and>
      (\<forall>t. t \<notin> ta_name ` set tbs \<longrightarrow> c h' t = c h t)"
    using step assms(3) unfolding tables_hold_map_def
    by (intro for_tables_store [OF value_tables_good [OF assms(2)] _ assms(4)]) simp_all
  then show ?thesis unfolding map_option_upd tables_hold_map_def put_values_def by simp
qed

lemma del_values_ok:
  assumes "driver_ok sde c room" "value_tables sde n room capacity tbs" "tables_hold_map c h n tbs m"
    "length k = n" "k \<in> dom m"
  shows "\<exists>h'. for_tables (\<lambda>tb. del_entry sde tb k) tbs h = Inr h' \<and> tables_hold_map c h' n tbs (m(k := None)) \<and>
    (\<forall>t. t \<notin> ta_name ` set tbs \<longrightarrow> c h' t = c h t)"
proof -
  have step: "\<exists>h'. del_entry sde tb k h = Inr h' \<and>
      entry_stored c h (ta_name tb) (key_values (ta_key_fields tb) k) None h'"
    if tb: "tb \<in> set tbs" "table_holds n tb (\<lambda>k. map_option (value_entry tb) (m k)) (c h (ta_name tb))" for tb h
  proof -
    have K: "key_table sde n tb" using assms(2) tb(1) by (auto simp: value_tables_def dest: value_tableD(1))
    have "c h (ta_name tb) (key_values (ta_key_fields tb) k) \<noteq> None"
      using tb(2) assms(4,5) by (auto simp: table_holds_def)
    then have "\<exists>h'. entry_del sde h (ta_name tb) (key_values (ta_key_fields tb) k) = Some h' \<and>
        entry_stored c h (ta_name tb) (key_values (ta_key_fields tb) k) None h'"
      using assms(1) unfolding driver_ok_def keeps_entries_def by blast
    then show ?thesis using set_key_ok [OF K assms(4)] by (auto simp: del_entry_def)
  qed
  have "\<exists>h'. for_tables (\<lambda>tb. del_entry sde tb k) tbs h = Inr h' \<and>
      tables_hold c h' n tbs (\<lambda>tb. (\<lambda>k. map_option (value_entry tb) (m k))(k := map_option (value_entry tb) None)) \<and>
      (\<forall>t. t \<notin> ta_name ` set tbs \<longrightarrow> c h' t = c h t)"
    using step assms(3) unfolding tables_hold_map_def
    by (intro for_tables_store [OF value_tables_good [OF assms(2)] _ assms(4)]) simp_all
  then show ?thesis unfolding map_option_upd tables_hold_map_def by simp
qed

lemma map_table_put_ok:
  assumes "driver_ok sde c room" "value_tables sde n room (mt_capacity T) (mt_tables T)"
    "map_rel c n (m, r) (T, h)" "length k = n"
  shows "\<exists>T' h'. map_table_put sde k v (T, h) = Inr (T', h') \<and>
    map_rel c n (sycon_map_spec_step (mt_capacity T) (length (mt_tables T)) (Map_Put k v) (m, r)) (T', h') \<and>
    mt_tables T' = mt_tables T \<and> mt_capacity T' = mt_capacity T"
proof -
  have m: "map_of (mt_cache T) = m" "distinct (map fst (mt_cache T))" "\<forall>k \<in> dom m. length k = n"
    "tables_hold_map c h n (mt_tables T) m"
    using assms(3) by (auto simp: map_rel_def)
  have len: "length (mt_cache T) = card (dom m)" using length_map_of [OF m(2)] m(1) by simp
  show ?thesis
  proof (cases "mt_capacity T \<le> card (dom m)")
    case True
    with assms(3) len show ?thesis by (simp add: map_table_put_def)
  next
    case False
    then obtain h' where h': "put_values sde (mt_tables T) k v h = Inr h'" "tables_hold_map c h' n (mt_tables T) (m(k \<mapsto> v))"
      using put_values_ok [OF assms(1,2) m(4) assms(4) m(3), of v] by auto
    let ?T = "T\<lparr>mt_cache := AList.update k v (mt_cache T)\<rparr>"
    have d: "distinct (map fst (AList.update k v (mt_cache T)))" using m(2) by (rule distinct_update)
    have fin: "finite (dom m)" using m(1) finite_dom_map_of by metis
    have "length (AList.update k v (mt_cache T)) = card (insert k (dom m))"
      using length_map_of [OF d] m(1) by (simp add: update_conv')
    also have "\<dots> \<le> mt_capacity T" using False fin by (simp add: card_insert_if)
    finally have "map_rel c n (m(k \<mapsto> v), r) (?T, h')"
      using assms(3,4) d h'(2) m(1,3) by (auto simp: map_rel_def update_conv')
    with False len h'(1) show ?thesis by (simp add: map_table_put_def)
  qed
qed

lemma map_table_del_ok:
  assumes "driver_ok sde c room" "value_tables sde n room (mt_capacity T) (mt_tables T)"
    "map_rel c n (m, r) (T, h)" "length k = n"
  shows "\<exists>T' h'. map_table_del sde k (T, h) = Inr (T', h') \<and> map_rel c n (m(k := None), r) (T', h') \<and>
    mt_tables T' = mt_tables T \<and> mt_capacity T' = mt_capacity T \<and> mt_reports T' = mt_reports T"
proof -
  have m: "map_of (mt_cache T) = m" "distinct (map fst (mt_cache T))" "\<forall>k \<in> dom m. length k = n"
    "tables_hold_map c h n (mt_tables T) m"
    using assms(3) by (auto simp: map_rel_def)
  show ?thesis
  proof (cases "m k")
    case None
    then have "m(k := None) = m" by (rule fun_upd_idem)
    with assms(3) None m(1) show ?thesis by (simp add: map_table_del_def)
  next
    case (Some x)
    then obtain h' where h': "for_tables (\<lambda>tb. del_entry sde tb k) (mt_tables T) h = Inr h'"
      "tables_hold_map c h' n (mt_tables T) (m(k := None))"
      using del_values_ok [OF assms(1,2) m(4) assms(4)] by auto
    have "length (AList.delete k (mt_cache T)) \<le> mt_capacity T"
      using assms(3) length_delete_le [of k "mt_cache T"] by (simp add: map_rel_def)
    then have "map_rel c n (m(k := None), r) (T\<lparr>mt_cache := AList.delete k (mt_cache T)\<rparr>, h')"
      using assms(3) h'(2) m(1,2,3) by (auto simp: map_rel_def delete_conv' distinct_delete)
    with Some m(1) h'(1) show ?thesis by (simp add: map_table_del_def)
  qed
qed

lemma full_name_inj: "get_full_name a = get_full_name b \<longleftrightarrow> ta_name a = ta_name b"
  by (simp add: get_full_name_def)

lemma reports_match_length:
  assumes "reports_match tbs rs r" "distinct (map ta_name tbs)"
  shows "length (reported rs k) = length tbs \<longleftrightarrow> r k = {..<length tbs}"
proof -
  have r: "r k \<subseteq> {..<length tbs}" using assms(1) by (simp add: reports_match_def)
  have "inj_on (\<lambda>i. get_full_name (tbs ! i)) (r k)"
  proof (rule inj_onI)
    fix i j assume "i \<in> r k" "j \<in> r k" "get_full_name (tbs ! i) = get_full_name (tbs ! j)"
    moreover from this r have "i < length tbs" "j < length tbs" by auto
    ultimately show "i = j" using nth_eq_iff_index_eq [OF assms(2), of i j] by (simp add: full_name_inj)
  qed
  then have "card (set (reported rs k)) = card (r k)" using assms(1) by (simp add: reports_match_def card_image)
  moreover have "length (reported rs k) = card (set (reported rs k))"
    using assms(1) unfolding reports_match_def by (intro distinct_card [symmetric]) blast
  moreover have "r k = {..<length tbs}" if "card (r k) = length tbs"
    by (rule card_subset_eq [OF finite_lessThan r]) (simp add: that)
  ultimately show ?thesis by (metis card_lessThan)
qed

lemma reports_match_add:
  assumes "reports_match tbs rs r" "i < length tbs"
  shows "reports_match tbs (add_report k (get_full_name (tbs ! i)) rs) (r(k := insert i (r k)))"
  using assms by (auto simp: reports_match_def)

lemma reports_match_delete:
  "reports_match tbs rs r \<Longrightarrow> reports_match tbs (AList.delete k rs) (r(k := {}))"
  by (simp add: reports_match_def)

lemma map_table_expire_ok:
  assumes "driver_ok sde c room" "value_tables sde n room (mt_capacity T) (mt_tables T)"
    "map_rel c n (m, r) (T, h)" "length k = n" "i < length (mt_tables T)"
  shows "\<exists>T' h'. map_event_step sde (Map_Aged i k) (T, h) = Inr (T', h') \<and>
    map_rel c n (sycon_map_spec_step (mt_capacity T) (length (mt_tables T)) (Map_Aged i k) (m, r)) (T', h') \<and>
    mt_tables T' = mt_tables T \<and> mt_capacity T' = mt_capacity T"
proof -
  let ?tb = "mt_tables T ! i" and ?r = "r(k := insert i (r k))"
  let ?T = "T\<lparr>mt_reports := add_report k (get_full_name ?tb) (mt_reports T)\<rparr>"
  have tb: "?tb \<in> set (mt_tables T)" using assms(5) by simp
  have names: "distinct (map ta_name (mt_tables T))" using assms(2) by (simp add: value_tables_def)
  have K: "key_table sde n ?tb" using value_tables_good [OF assms(2)] tb by (simp add: good_tables_def)
  have find: "find_target (mt_tables T) (get_full_name ?tb) = Inr ?tb"
    using find_target_ok [OF tb names] by (simp add: get_full_name_def)
  have R: "map_rel c n (m, ?r) (?T, h)"
    using assms(3) reports_match_add [OF _ assms(5), of "mt_reports T" r k] by (simp add: map_rel_def)
  have full: "length (reported (mt_reports ?T) k) = length (mt_tables T) \<longleftrightarrow> insert i (r k) = {..<length (mt_tables T)}"
    using reports_match_length [of "mt_tables T" "mt_reports ?T" ?r k] R names by (simp add: map_rel_def)
  have step: "map_event_step sde (Map_Aged i k) (T, h) =
      (if insert i (r k) = {..<length (mt_tables T)}
       then rbind (map_table_del sde k (?T, h)) (\<lambda>(T, h). Inr (T\<lparr>mt_reports := AList.delete k (mt_reports T)\<rparr>, h))
       else Inr (?T, h))"
    using find reported_key_ok [OF K assms(4)] full by (simp add: map_table_expire_def Let_def)
  show ?thesis
  proof (cases "insert i (r k) = {..<length (mt_tables T)}")
    case True
    have V: "value_tables sde n room (mt_capacity ?T) (mt_tables ?T)" using assms(2) by simp
    obtain T' h' where d: "map_table_del sde k (?T, h) = Inr (T', h')" "map_rel c n (m(k := None), ?r) (T', h')"
      "mt_tables T' = mt_tables ?T" "mt_capacity T' = mt_capacity ?T"
      using map_table_del_ok [OF assms(1) V R assms(4)] by blast
    have "reports_match (mt_tables T') (AList.delete k (mt_reports T')) (?r(k := {}))"
      using d(2) by (intro reports_match_delete) (simp add: map_rel_def)
    then have "map_rel c n (m(k := None), r(k := {})) (T'\<lparr>mt_reports := AList.delete k (mt_reports T')\<rparr>, h')"
      using d(2) by (simp add: map_rel_def)
    with True d show ?thesis unfolding step by simp
  next
    case False
    with R show ?thesis unfolding step by simp
  qed
qed

lemma map_event_ok_step:
  assumes "driver_ok sde c room" "value_tables sde n room (mt_capacity T) (mt_tables T)"
    "map_rel c n s (T, h)" "map_event_ok n (length (mt_tables T)) e"
  shows "\<exists>T' h'. map_event_step sde e (T, h) = Inr (T', h') \<and>
    map_rel c n (sycon_map_spec_step (mt_capacity T) (length (mt_tables T)) e s) (T', h') \<and>
    mt_tables T' = mt_tables T \<and> mt_capacity T' = mt_capacity T"
proof -
  obtain m r where s: "s = (m, r)" by (cases s)
  show ?thesis
  proof (cases e)
    case (Map_Put k v)
    with assms(4) map_table_put_ok [OF assms(1,2) assms(3) [unfolded s], of k v] show ?thesis by (simp add: s)
  next
    case (Map_Del k)
    with assms(4) map_table_del_ok [OF assms(1,2) assms(3) [unfolded s], of k] show ?thesis by (auto simp: s)
  next
    case (Map_Aged i k)
    with assms(4) map_table_expire_ok [OF assms(1,2) assms(3) [unfolded s], of k i] show ?thesis by (simp add: s)
  qed
qed

lemma sycon_map_run_ok:
  assumes "driver_ok sde c room" "value_tables sde n room (mt_capacity T) (mt_tables T)"
    "map_rel c n s (T, h)" "\<forall>e \<in> set es. map_event_ok n (length (mt_tables T)) e"
  shows "\<exists>T' h'. sycon_map_run sde es (T, h) = Inr (T', h') \<and>
    map_rel c n (fold (sycon_map_spec_step (mt_capacity T) (length (mt_tables T))) es s) (T', h') \<and>
    mt_tables T' = mt_tables T"
  using assms(2-4)
proof (induction es arbitrary: s T h)
  case (Cons e es)
  obtain T1 h1 where 1: "map_event_step sde e (T, h) = Inr (T1, h1)"
    "map_rel c n (sycon_map_spec_step (mt_capacity T) (length (mt_tables T)) e s) (T1, h1)"
    "mt_tables T1 = mt_tables T" "mt_capacity T1 = mt_capacity T"
    using map_event_ok_step [OF assms(1) Cons.prems(1,2), of e] Cons.prems(3) by auto
  then show ?case using Cons.IH [of T1 _ h1] Cons.prems by fastforce
qed auto

text \<open>The tables of a new map are those the driver knows, aware of the time when a timeout is given;
  nothing is written to them.\<close>

lemma notify_tables_contents:
  "driver_ok sde c room \<Longrightarrow> notify_tables sde t tbs h = Inr (tbs', h') \<Longrightarrow>
    c h' = c h \<and> length tbs' = length tbs"
proof (induction tbs arbitrary: h tbs')
  case (Cons tb tbs)
  obtain tb1 h1 tbs1 where 1: "set_notify_mode sde t True tb h = Inr (tb1, h1)" "notify_tables sde t tbs h1 = Inr (tbs1, h')"
    "tbs' = tb1 # tbs1"
    using Cons.prems(2) by (auto simp: rbind_eq_Inr)
  have "c h1 = c h"
    using 1(1) Cons.prems(1) by (auto simp: set_notify_mode_def Let_def rbind_eq_Inr status_def driver_ok_def keeps_entries_def
      split: option.splits)
  with Cons.IH [OF Cons.prems(1) 1(2)] 1(3) show ?case by simp
qed simp

lemma new_sycon_map_rel:
  assumes "driver_ok sde c room" "new_sycon_map sde names timeout h = Inr (T, h')"
    "\<forall>tb \<in> set (mt_tables T). c h (ta_name tb) = Map.empty"
  shows "map_rel c n (Map.empty, \<lambda>k. {}) (T, h')"
proof -
  have "c h' = c h" "mt_cache T = []" "mt_reports T = []"
    using assms(2) notify_tables_contents [OF assms(1)]
    by (auto simp: new_sycon_map_def Let_def rbind_eq_Inr assert_that_eq_Inr split: option.splits)
  then show ?thesis
    using assms(3) by (simp add: map_rel_def reports_match_def reported_def tables_hold_map_def tables_hold_def table_holds_def)
qed

text \<open>C12. A map table that is used with keys of its size answers every sequence of writes, deletions and
  reports of the switch as a bounded map does from which a key goes when every table has reported it; no
  event aborts the controller, and every table of the switch holds exactly the entries of the map.\<close>
theorem map_table_mirrors_switch:
  assumes "driver_ok sde c room" "new_sycon_map sde names timeout h = Inr (T, h0)"
    "value_tables sde n room (mt_capacity T) (mt_tables T)" "\<forall>tb \<in> set (mt_tables T). c h (ta_name tb) = Map.empty"
    "\<forall>e \<in> set es. map_event_ok n (length (mt_tables T)) e"
  shows "\<exists>T' h'. sycon_map_run sde es (T, h0) = Inr (T', h') \<and>
    map_table_get T' = fst (fold (sycon_map_spec_step (mt_capacity T) (length (mt_tables T))) es (Map.empty, \<lambda>k. {})) \<and>
    (\<forall>tb \<in> set (mt_tables T). \<forall>k. length k = n \<longrightarrow>
      c h' (ta_name tb) (key_values (ta_key_fields tb) k) = map_option (value_entry tb) (map_table_get T' k))"
proof -
  obtain T' h' where r: "sycon_map_run sde es (T, h0) = Inr (T', h')"
    "map_rel c n (fold (sycon_map_spec_step (mt_capacity T) (length (mt_tables T))) es (Map.empty, \<lambda>k. {})) (T', h')"
    "mt_tables T' = mt_tables T"
    using sycon_map_run_ok [OF assms(1,3) new_sycon_map_rel [OF assms(1,2,4)] assms(5)] by blast
  then have "map_table_get T' = fst (fold (sycon_map_spec_step (mt_capacity T) (length (mt_tables T))) es (Map.empty, \<lambda>k. {}))"
    "tables_hold_map c h' n (mt_tables T) (map_table_get T')"
    by (auto simp: map_rel_def map_table_get_eq split: prod.splits)
  with r(1) show ?thesis by (auto simp: tables_hold_map_def tables_hold_def table_holds_def)
qed

text \<open>A deletion does not clear the reports of a key: when one of two tables reported it before, a report
  of the other one deletes an entry that was written since.\<close>

lemma stale_report_deletes_entry:
  assumes "driver_ok sde c room" "new_sycon_map sde names timeout h = Inr (T, h0)"
    "value_tables sde n room (mt_capacity T) (mt_tables T)" "\<forall>tb \<in> set (mt_tables T). c h (ta_name tb) = Map.empty"
    "length (mt_tables T) = 2" "0 < mt_capacity T" "length k = n"
  shows "\<exists>T' h'. sycon_map_run sde [Map_Put k u, Map_Aged 0 k, Map_Del k, Map_Put k v, Map_Aged 1 k] (T, h0) = Inr (T', h') \<and>
    map_table_get T' k = None"
proof -
  have two: "{1, 0} = {..<2 :: nat}" "{0} \<noteq> {..<2 :: nat}" by (simp_all add: numeral_2_eq_2 lessThan_Suc doubleton_eq_iff)
  obtain T' h' where r: "sycon_map_run sde [Map_Put k u, Map_Aged 0 k, Map_Del k, Map_Put k v, Map_Aged 1 k] (T, h0) = Inr (T', h')"
    "map_rel c n (fold (sycon_map_spec_step (mt_capacity T) (length (mt_tables T)))
       [Map_Put k u, Map_Aged 0 k, Map_Del k, Map_Put k v, Map_Aged 1 k] (Map.empty, \<lambda>k. {})) (T', h')"
    using sycon_map_run_ok [OF assms(1,3) new_sycon_map_rel [OF assms(1,2,4)],
        of "[Map_Put k u, Map_Aged 0 k, Map_Del k, Map_Put k v, Map_Aged 1 k]"] assms(5,7) by auto
  then have "map_table_get T' k = None" using assms(5,6) two by (simp add: map_rel_def map_table_get_def)
  with r(1) show ?thesis by blast
qed

section \<open>Two tables of a map\<close>

definition map_info :: "string \<Rightarrow> table_info option" where
  "map_info name =
     Some \<lparr>ti_size = 20, ti_keys = [\<lparr>tf_name = ''ip'', tf_size = 32, tf_type = UInt64, tf_exact = True\<rparr>],
       ti_actions = [(''set'', [\<lparr>tf_name = ''value'', tf_size = 32, tf_type = UInt64, tf_exact = True\<rparr>])]\<rparr>"

definition map_sw_table :: "string \<Rightarrow> sw_table" where
  "map_sw_table name = \<lparr>ta_name = name, ta_capacity = 20,
     ta_key_fields = [\<lparr>tf_name = ''ip'', tf_size = 32, tf_type = UInt64, tf_exact = True\<rparr>],
     ta_actions = [(''set'', [\<lparr>tf_name = ''value'', tf_size = 32, tf_type = UInt64, tf_exact = True\<rparr>])],
     ta_no_action = False, ta_time_aware = True, ta_entry_ttl = 1000\<rparr>"

definition sample_sycon_map :: sycon_map where
  "sample_sycon_map = \<lparr>mt_cache = [], mt_reports = [], mt_tables = [map_sw_table ''a'', map_sw_table ''b''],
     mt_capacity = 18, mt_key_size = 64\<rparr>"

lemma sample_sycon_map_new:
  "new_sycon_map (sample_driver map_info) [''a'', ''b''] (Some 1000) (\<lambda>t. Map.empty) = Inr (sample_sycon_map, \<lambda>t. Map.empty)"
  by (simp add: new_sycon_map_def new_sw_table_def sample_driver_def map_info_def build_key_fields_def build_actions_def
      round_to_bytes_def get_effective_capacity_def set_notify_mode_def TOFINO_MIN_EXPIRATION_TIME_def sample_sycon_map_def
      map_sw_table_def Let_def)

lemma sample_sycon_map_tables:
  "value_tables (sample_driver tables) 4 (\<lambda>t. 18) (mt_capacity sample_sycon_map) (mt_tables sample_sycon_map)"
  by (simp add: value_tables_def value_table_def key_table_def sample_sycon_map_def map_sw_table_def good_field_def
      key_size_def takes_key_def sample_driver_def)

theorem map_table_mirrors_switch_witness:
  "\<exists>T' h'. sycon_map_run (sample_driver map_info) [Map_Put [10, 0, 0, 1] 7, Map_Aged 0 [10, 0, 0, 1]]
       (sample_sycon_map, \<lambda>t. Map.empty) = Inr (T', h') \<and>
     map_table_get T' = fst (fold (sycon_map_spec_step (mt_capacity sample_sycon_map) (length (mt_tables sample_sycon_map)))
       [Map_Put [10, 0, 0, 1] 7, Map_Aged 0 [10, 0, 0, 1]] (Map.empty, \<lambda>k. {})) \<and>
     (\<forall>tb \<in> set (mt_tables sample_sycon_map). \<forall>k. length k = 4 \<longrightarrow>
       h' (ta_name tb) (key_values (ta_key_fields tb) k) = map_option (value_entry tb) (map_table_get T' k))"
  by (rule map_table_mirrors_switch [OF sample_driver_ok sample_sycon_map_new sample_sycon_map_tables])
    (simp_all add: sample_sycon_map_def)

lemma stale_report_deletes_entry_witness:
  "\<exists>T' h'. sycon_map_run (sample_driver map_info)
       [Map_Put [10, 0, 0, 1] 7, Map_Aged 0 [10, 0, 0, 1], Map_Del [10, 0, 0, 1], Map_Put [10, 0, 0, 1] 8,
        Map_Aged 1 [10, 0, 0, 1]] (sample_sycon_map, \<lambda>t. Map.empty) = Inr (T', h') \<and>
     map_table_get T' [10, 0, 0, 1] = None"
  by (rule stale_report_deletes_entry [OF sample_driver_ok sample_sycon_map_new sample_sycon_map_tables])
    (simp_all add: sample_sycon_map_def)

section \<open>The guard\<close>

text \<open>A guarded map that has its register keeps the guard open as long as there is room, and its tables
  hold its entries.\<close>

definition guarded_rel :: "'h switch_contents \<Rightarrow> nat \<Rightarrow> (buffer \<rightharpoonup> u32) \<Rightarrow> guarded_map \<times> 'h \<Rightarrow> bool" where
  "guarded_rel c n m = (\<lambda>(T, h).
     map_of (mt_cache T) = m \<and> distinct (map fst (mt_cache T)) \<and> (\<forall>k \<in> dom m. length k = n) \<and>
     length (mt_cache T) \<le> mt_capacity T \<and> gm_guard T \<noteq> None \<and>
     (guard_check T \<longleftrightarrow> card (dom m) < mt_capacity T) \<and> tables_hold_map c h n (mt_tables T) m)"

definition writes_registers :: "'h sde \<Rightarrow> bool" where
  "writes_registers sde \<longleftrightarrow> (\<forall>h r i v. register_write sde h r i v \<noteq> None)"

lemma set_register_ok:
  assumes "driver_ok sde c room" "writes_registers sde"
  shows "\<exists>h'. set_register sde rg i v h = Inr h' \<and> c h' = c h"
proof -
  have "register_write sde h (rg_name rg) i v \<noteq> None" using assms(2) unfolding writes_registers_def by blast
  then obtain h' where h': "register_write sde h (rg_name rg) i v = Some h'" by blast
  have "c h' = c h" using assms(1) h' by (auto simp: driver_ok_def keeps_entries_def)
  with h' show ?thesis by (simp add: set_register_def)
qed

lemma guard_set_ok:
  assumes "driver_ok sde c room" "writes_registers sde" "gm_guard T \<noteq> None"
  shows "\<exists>h'. guard_set sde a (T, h) = Inr (T\<lparr>gm_guard_cache := a\<rparr>, h') \<and> c h' = c h"
proof -
  obtain g where "gm_guard T = Some g" using assms(3) by blast
  then show ?thesis
    using set_register_ok [OF assms(1,2), of g 0 "if a then 1 else 0" h] by (auto simp: guard_set_def)
qed

lemma guarded_put_keeps:
  assumes "driver_ok sde c room" "writes_registers sde" "value_tables sde n room (mt_capacity T) (mt_tables T)"
    "guarded_rel c n m (T, h)" "length k = n"
  shows "\<exists>T' h'. guarded_put sde k v (T, h) = Inr (T', h') \<and>
    guarded_rel c n (if card (dom m) < mt_capacity T then m(k \<mapsto> v) else m) (T', h')"
proof -
  have m: "map_of (mt_cache T) = m" "distinct (map fst (mt_cache T))" "\<forall>k \<in> dom m. length k = n"
    "tables_hold_map c h n (mt_tables T) m" "gm_guard T \<noteq> None" "guard_check T \<longleftrightarrow> card (dom m) < mt_capacity T"
    using assms(4) by (auto simp: guarded_rel_def)
  have len: "length (mt_cache T) = card (dom m)" using length_map_of [OF m(2)] m(1) by simp
  show ?thesis
  proof (cases "card (dom m) < mt_capacity T")
    case False
    with assms(4) len show ?thesis by (simp add: guarded_put_def)
  next
    case True
    obtain h' where h': "put_values sde (mt_tables T) k v h = Inr h'" "tables_hold_map c h' n (mt_tables T) (m(k \<mapsto> v))"
      using put_values_ok [OF assms(1,3) m(4) assms(5) m(3) True, of v] by auto
    let ?T = "T\<lparr>mt_cache := AList.update k v (mt_cache T)\<rparr>"
    have d: "distinct (map fst (mt_cache ?T))" using m(2) by (simp add: distinct_update)
    have l: "length (mt_cache ?T) = card (dom (m(k \<mapsto> v)))" using length_map_of [OF d] m(1) by (simp add: update_conv')
    have fin: "finite (dom m)" using m(1) finite_dom_map_of by metis
    have le: "card (dom (m(k \<mapsto> v))) \<le> mt_capacity T" "card (dom m) \<le> card (dom (m(k \<mapsto> v)))"
      using True fin by (simp_all add: card_insert_if)
    show ?thesis
    proof (cases "mt_capacity T \<le> length (mt_cache ?T)")
      case full: True
      obtain h2 where "guard_set sde False (?T, h') = Inr (?T\<lparr>gm_guard_cache := False\<rparr>, h2)" "c h2 = c h'"
        using guard_set_ok [OF assms(1,2), of ?T False h'] m(5) by auto
      moreover have "guarded_rel c n (m(k \<mapsto> v)) (?T\<lparr>gm_guard_cache := False\<rparr>, h2)"
        using full \<open>c h2 = c h'\<close> h'(2) d l le m(1,3,5) assms(5)
        by (simp add: guarded_rel_def guard_check_def update_conv' tables_hold_map_def tables_hold_def)
      ultimately show ?thesis using True len h'(1) full by (simp add: guarded_put_def Let_def)
    next
      case room: False
      have "guarded_rel c n (m(k \<mapsto> v)) (?T, h')"
        using room True h'(2) d l le m(1,3,5,6) assms(5) by (simp add: guarded_rel_def guard_check_def update_conv')
      then show ?thesis using True len h'(1) room by (simp add: guarded_put_def Let_def)
    qed
  qed
qed

lemma guarded_del_keeps:
  assumes "driver_ok sde c room" "writes_registers sde" "value_tables sde n room (mt_capacity T) (mt_tables T)"
    "guarded_rel c n m (T, h)" "length k = n"
  shows "\<exists>T' h'. guarded_del sde k (T, h) = Inr (T', h') \<and> guarded_rel c n (m(k := None)) (T', h')"
proof -
  have m: "map_of (mt_cache T) = m" "distinct (map fst (mt_cache T))" "\<forall>k \<in> dom m. length k = n"
    "tables_hold_map c h n (mt_tables T) m" "gm_guard T \<noteq> None" "length (mt_cache T) \<le> mt_capacity T"
    using assms(4) by (auto simp: guarded_rel_def)
  have len: "length (mt_cache T) = card (dom m)" using length_map_of [OF m(2)] m(1) by simp
  show ?thesis
  proof (cases "m k")
    case None
    then have "m(k := None) = m" by (rule fun_upd_idem)
    with assms(4) None m(1) show ?thesis by (simp add: guarded_del_def)
  next
    case (Some x)
    obtain h' where h': "for_tables (\<lambda>tb. del_entry sde tb k) (mt_tables T) h = Inr h'"
      "tables_hold_map c h' n (mt_tables T) (m(k := None))"
      using del_values_ok [OF assms(1,3) m(4) assms(5)] Some by auto
    let ?T = "T\<lparr>mt_cache := AList.delete k (mt_cache T)\<rparr>"
    obtain h2 where g: "guard_set sde True (?T, h') = Inr (?T\<lparr>gm_guard_cache := True\<rparr>, h2)" "c h2 = c h'"
      using guard_set_ok [OF assms(1,2), of ?T True h'] m(5) by auto
    have fin: "finite (dom m)" using m(1) finite_dom_map_of by metis
    then have "card (dom (m(k := None))) < card (dom m)" using Some by (intro psubset_card_mono) auto
    then have "card (dom (m(k := None))) < mt_capacity T" using len m(6) by simp
    moreover have "length (AList.delete k (mt_cache T)) \<le> mt_capacity T"
      using m(6) length_delete_le [of k "mt_cache T"] by simp
    ultimately have "guarded_rel c n (m(k := None)) (?T\<lparr>gm_guard_cache := True\<rparr>, h2)"
      using g(2) h'(2) m(1,2,3,5)
      by (auto simp: guarded_rel_def guard_check_def delete_conv' distinct_delete tables_hold_map_def tables_hold_def)
    with Some m(1,5) h'(1) g(1) show ?thesis by (simp add: guarded_del_def Let_def)
  qed
qed

text \<open>Without a register, the write that fills the map aborts the controller.\<close>

lemma unguarded_put_aborts:
  assumes "driver_ok sde c room" "value_tables sde n room (mt_capacity T) (mt_tables T)"
    "tables_hold_map c h n (mt_tables T) (map_of (mt_cache T))" "\<forall>k \<in> dom (map_of (mt_cache T)). length k = n"
    "distinct (map fst (mt_cache T))" "length k = n" "map_of (mt_cache T) k = None"
    "gm_guard T = None" "Suc (length (mt_cache T)) = mt_capacity T"
  shows "guarded_put sde k v (T, h) = Inl Assert_Failed"
proof -
  have "card (dom (map_of (mt_cache T))) < mt_capacity T" using length_map_of [OF assms(5)] assms(9) by simp
  then obtain h' where h': "put_values sde (mt_tables T) k v h = Inr h'"
    using put_values_ok [OF assms(1,2,3,6,4), of v] by auto
  have "distinct (map fst (AList.update k v (mt_cache T)))" using assms(5) by (rule distinct_update)
  then have "length (AList.update k v (mt_cache T)) = mt_capacity T"
    using length_map_of [of "AList.update k v (mt_cache T)"] length_map_of [OF assms(5)] assms(7,9)
    by (simp add: update_conv' card_insert_if domIff finite_dom_map_of)
  with h' assms(8,9) show ?thesis by (simp add: guarded_put_def guard_set_def)
qed

end
