(* ===== verification/SyconChains.thy ===== *)
theory SyconChains
  imports SyconMaps
begin

text \<open>
  Index allocators and vectors of the controllers
  (\<^verbatim>\<open>libsycon/include/sycon/data_structures/dchain_table.h\<close>, \<^verbatim>\<open>vector_table.h\<close>, \<^verbatim>\<open>vector_register.h\<close>).
  An index is allocated when the tables of the switch have an entry for it; entries age in the switch,
  and an index is free again when every table has reported it.
\<close>

section \<open>Chain tables\<close>

text \<open>The free indexes are an ordered set: a sorted list.\<close>

record sycon_dchain =
  dt_free :: "u32 list"
  dt_tables :: "sw_table list"
  dt_reports :: "u32 reports"
  dt_capacity :: nat

definition free_indexes_loop :: "nat \<Rightarrow> u32 list" where
  "free_indexes_loop capacity = fold (\<lambda>i. insort_insert (word_of_nat (capacity - i - 1))) [0..<capacity] []"

definition new_sycon_dchain :: "'h sde \<Rightarrow> string list \<Rightarrow> u64 \<Rightarrow> 'h \<Rightarrow> (sycon_dchain \<times> 'h) result" where
  "new_sycon_dchain sde names timeout h =
     assert_that (names \<noteq> [])
       (rbind (rmap (new_sw_table sde) names) (\<lambda>tbs.
        let capacity = get_effective_capacity (last tbs) mod 2 ^ 32 in
        rbind (notify_tables sde timeout tbs h) (\<lambda>(tbs, h).
        Inr (\<lparr>dt_free = free_indexes_loop capacity, dt_tables = tbs, dt_reports = [], dt_capacity = capacity\<rparr>, h))))"

definition is_index_allocated :: "sycon_dchain \<Rightarrow> u32 \<Rightarrow> bool result" where
  "is_index_allocated T i = assert_that (unat i < dt_capacity T) (Inr (i \<notin> set (dt_free T)))"

definition refresh_index :: "'h sde \<Rightarrow> u32 \<Rightarrow> sycon_dchain \<times> 'h \<Rightarrow> (sycon_dchain \<times> 'h) result" where
  "refresh_index sde i = (\<lambda>(T, h).
     assert_that (unat i < dt_capacity T)
       (if i \<in> set (dt_free T) then Inr (T, h)
        else rbind (word_buffer i) (\<lambda>key.
          rbind (for_tables (\<lambda>tb. mod_entry sde tb key None) (dt_tables T) h) (\<lambda>h. Inr (T, h)))))"

definition allocate_new_index :: "'h sde \<Rightarrow> sycon_dchain \<times> 'h \<Rightarrow> (u32 option \<times> sycon_dchain \<times> 'h) result" where
  "allocate_new_index sde = (\<lambda>(T, h).
     case dt_free T of
       [] \<Rightarrow> Inr (None, T, h)
     | i # _ \<Rightarrow> rbind (word_buffer i) (\<lambda>key.
         rbind (for_tables (\<lambda>tb. add_entry sde tb key None) (dt_tables T) h) (\<lambda>h.
         Inr (Some i, T\<lparr>dt_free := removeAll i (dt_free T)\<rparr>, h))))"

definition free_index :: "'h sde \<Rightarrow> u32 \<Rightarrow> sycon_dchain \<times> 'h \<Rightarrow> (sycon_dchain \<times> 'h) result" where
  "free_index sde i = (\<lambda>(T, h).
     assert_that (unat i < dt_capacity T)
       (if i \<in> set (dt_free T) then Inr (T, h)
        else rbind (word_buffer i) (\<lambda>key.
          rbind (for_tables (\<lambda>tb. del_entry sde tb key) (dt_tables T) h) (\<lambda>h.
          Inr (T\<lparr>dt_free := insort_insert i (dt_free T)\<rparr>, h)))))"

text \<open>The value of the only field of the key.\<close>

definition reported_index :: "sw_table \<Rightarrow> field_value list \<Rightarrow> u32 result" where
  "reported_index tb vs =
     assert_that (length (ta_key_fields tb) = 1)
       (case vs of [Number x] \<Rightarrow> Inr (ucast x) | _ \<Rightarrow> Inl Assert_Failed)"

definition dchain_table_expire ::
  "'h sde \<Rightarrow> string \<Rightarrow> field_value list \<Rightarrow> sycon_dchain \<times> 'h \<Rightarrow> (sycon_dchain \<times> 'h) result" where
  "dchain_table_expire sde name vs = (\<lambda>(T, h).
     rbind (find_target (dt_tables T) name) (\<lambda>tb.
     rbind (reported_index tb vs) (\<lambda>i.
     let T = T\<lparr>dt_reports := add_report i name (dt_reports T)\<rparr> in
     if length (reported (dt_reports T) i) = length (dt_tables T)
     then rbind (free_index sde i (T, h)) (\<lambda>(T, h). Inr (T\<lparr>dt_reports := AList.delete i (dt_reports T)\<rparr>, h))
     else Inr (T, h))))"

section \<open>Vectors in tables\<close>

text \<open>The sizes of the values of all tables are added up, so with several tables an entry of the cache
  that was never written is longer than a value.\<close>

record sycon_vector =
  vt_cache :: "buffer list"
  vt_tables :: "sw_table list"
  vt_capacity :: nat
  vt_value_size :: nat

definition new_sycon_vector :: "'h sde \<Rightarrow> string list \<Rightarrow> sycon_vector result" where
  "new_sycon_vector sde names =
     assert_that (names \<noteq> [])
       (rbind (rmap (new_sw_table sde) names) (\<lambda>tbs.
        assert_that (\<forall>tb \<in> set tbs. length (ta_actions tb) = 1)
          (let capacity = get_effective_capacity (last tbs) mod 2 ^ 32;
               value_size = sum_list (map (\<lambda>tb. sum_list (map tf_size (snd (hd (ta_actions tb))))) tbs) in
           assert_that (\<forall>tb \<in> set tbs. get_effective_capacity tb = capacity)
             (Inr \<lparr>vt_cache = replicate capacity (new_buffer (value_size div 8)), vt_tables = tbs,
                vt_capacity = capacity, vt_value_size = value_size\<rparr>))))"

definition vector_table_read :: "sycon_vector \<Rightarrow> u32 \<Rightarrow> buffer result" where
  "vector_table_read T i =
     assert_that (unat i < vt_capacity T) (assert_that (unat i < length (vt_cache T)) (Inr (vt_cache T ! unat i)))"

definition vector_table_write :: "'h sde \<Rightarrow> u32 \<Rightarrow> buffer \<Rightarrow> sycon_vector \<times> 'h \<Rightarrow> (sycon_vector \<times> 'h) result" where
  "vector_table_write sde i v = (\<lambda>(T, h).
     assert_that (unat i < vt_capacity T)
       (rbind (word_buffer i) (\<lambda>key.
        rbind (for_tables (put_value sde key v) (vt_tables T) h) (\<lambda>h.
        assert_that (unat i < length (vt_cache T)) (Inr (T\<lparr>vt_cache := (vt_cache T)[unat i := v]\<rparr>, h))))))"

section \<open>Vectors in registers\<close>

record sycon_vector_register =
  vr_cache :: "buffer list"
  vr_registers :: "sw_register list"
  vr_capacity :: nat
  vr_value_size :: nat

definition new_sycon_vector_register :: "'h sde \<Rightarrow> string list \<Rightarrow> sycon_vector_register result" where
  "new_sycon_vector_register sde names =
     assert_that (names \<noteq> [])
       (rbind (rmap (new_sw_register sde) names) (\<lambda>rgs.
        let capacity = rg_capacity (last rgs); value_size = sum_list (map rg_value_size rgs) in
        assert_that (\<forall>rg \<in> set rgs. rg_capacity rg = capacity)
          (Inr \<lparr>vr_cache = replicate capacity (new_buffer (value_size div 8)), vr_registers = rgs,
             vr_capacity = capacity, vr_value_size = value_size\<rparr>)))"

definition vector_register_get :: "sycon_vector_register \<Rightarrow> u32 \<Rightarrow> buffer result" where
  "vector_register_get T i =
     assert_that (unat i < vr_capacity T) (assert_that (unat i < length (vr_cache T)) (Inr (vr_cache T ! unat i)))"

text \<open>The value is cut into the values of the registers, each reduced to 32 bits.\<close>

fun put_registers :: "'h sde \<Rightarrow> u32 \<Rightarrow> buffer \<Rightarrow> nat \<Rightarrow> sw_register list \<Rightarrow> 'h \<Rightarrow> 'h result" where
  "put_registers sde i v offset [] h = Inr h"
| "put_registers sde i v offset (rg # rgs) h =
     rbind (buffer_get v offset (rg_value_size rg div 8)) (\<lambda>x.
     rbind (set_register sde rg i (ucast x) h) (put_registers sde i v (offset + rg_value_size rg div 8) rgs))"

definition vector_register_put ::
  "'h sde \<Rightarrow> u32 \<Rightarrow> buffer \<Rightarrow> sycon_vector_register \<times> 'h \<Rightarrow> (sycon_vector_register \<times> 'h) result" where
  "vector_register_put sde i v = (\<lambda>(T, h).
     assert_that (unat i < vr_capacity T \<and> length v = vr_value_size T div 8)
       (rbind (put_registers sde i v 0 (vr_registers T) h) (\<lambda>h.
        assert_that (unat i < length (vr_cache T)) (Inr (T\<lparr>vr_cache := (vr_cache T)[unat i := v]\<rparr>, h)))))"

section \<open>What a chain table promises\<close>

definition indexes_below :: "nat \<Rightarrow> u32 list" where
  "indexes_below capacity = map word_of_nat [0..<capacity]"

lemma unat_index: "i < capacity \<Longrightarrow> capacity \<le> 2 ^ 32 \<Longrightarrow> unat (word_of_nat i :: u32) = i"
  by (simp add: unsigned_of_nat take_bit_nat_eq_self)

lemma indexes_below_set: "capacity \<le> 2 ^ 32 \<Longrightarrow> set (indexes_below capacity) = {i. unat i < capacity}"
proof (intro set_eqI iffI)
  fix i assume c: "capacity \<le> 2 ^ 32" and "i \<in> set (indexes_below capacity)"
  then obtain j where "i = word_of_nat j" "j < capacity" by (auto simp: indexes_below_def)
  with c show "i \<in> {i. unat i < capacity}" by (simp add: unat_index)
next
  fix i :: u32 assume "i \<in> {i. unat i < capacity}"
  then show "i \<in> set (indexes_below capacity)"
    unfolding indexes_below_def set_map by (intro image_eqI [of _ _ "unat i"]) simp_all
qed

lemma indexes_below_sorted:
  assumes "capacity \<le> 2 ^ 32"
  shows "sorted (indexes_below capacity)" "distinct (indexes_below capacity)"
proof -
  have u: "unat (word_of_nat i :: u32) = i" if "i < capacity" for i using that assms by (rule unat_index)
  show "distinct (indexes_below capacity)"
    unfolding indexes_below_def distinct_map by (auto intro!: inj_onI dest: arg_cong [where f = unat] simp: u)
  show "sorted (indexes_below capacity)"
    unfolding indexes_below_def sorted_iff_nth_mono by (simp add: word_le_nat_alt u)
qed

text \<open>The free indexes are those below the capacity that are not allocated, in order.\<close>

definition free_of :: "nat \<Rightarrow> u32 set \<Rightarrow> u32 list" where
  "free_of capacity A = filter (\<lambda>i. i \<notin> A) (indexes_below capacity)"

lemma free_of_unique:
  assumes "capacity \<le> 2 ^ 32" "sorted xs" "distinct xs" "set xs = {i. unat i < capacity} - A"
  shows "xs = free_of capacity A"
  using assms indexes_below_sorted [OF assms(1)] indexes_below_set [OF assms(1)]
  by (intro sorted_distinct_set_unique) (auto simp: free_of_def sorted_wrt_filter)

lemma set_free_of: "capacity \<le> 2 ^ 32 \<Longrightarrow> set (free_of capacity A) = {i. unat i < capacity} - A"
  by (auto simp: free_of_def indexes_below_set)

lemma free_of_props: "capacity \<le> 2 ^ 32 \<Longrightarrow> sorted (free_of capacity A) \<and> distinct (free_of capacity A)"
  using indexes_below_sorted by (simp add: free_of_def sorted_wrt_filter)

lemma free_indexes_loop_eq:
  assumes "capacity \<le> 2 ^ 32"
  shows "free_indexes_loop capacity = free_of capacity {}"
proof -
  define f where "f = (\<lambda>i. word_of_nat (capacity - i - 1) :: u32)"
  have inv: "sorted (fold (\<lambda>i. insort_insert (f i)) ns []) \<and> distinct (fold (\<lambda>i. insort_insert (f i)) ns []) \<and>
      set (fold (\<lambda>i. insort_insert (f i)) ns []) = f ` set ns" for ns
    by (induction ns rule: rev_induct) (auto simp: sorted_insort_insert distinct_insort_insert set_insort_insert)
  have "f ` {0..<capacity} = word_of_nat ` {0..<capacity}"
  proof (intro equalityI subsetI)
    fix x assume "x \<in> f ` {0..<capacity}"
    then obtain i where "i < capacity" "x = word_of_nat (capacity - i - 1)" unfolding f_def by auto
    then show "x \<in> word_of_nat ` {0..<capacity}" by (intro image_eqI [of _ _ "capacity - i - 1"]) auto
  next
    fix x :: u32 assume "x \<in> word_of_nat ` {0..<capacity}"
    then obtain j where j: "x = word_of_nat j" "j < capacity" by auto
    then have "x = f (capacity - j - 1)" by (simp add: f_def)
    with j(2) show "x \<in> f ` {0..<capacity}" by (intro image_eqI [of _ _ "capacity - j - 1"]) auto
  qed
  then have "f ` {0..<capacity} = {i. unat i < capacity}" using indexes_below_set [OF assms] by (simp add: indexes_below_def)
  moreover have "free_indexes_loop capacity = fold (\<lambda>i. insort_insert (f i)) [0..<capacity] []"
    by (simp only: free_indexes_loop_def f_def)
  ultimately show ?thesis using inv [of "[0..<capacity]"] by (intro free_of_unique [OF assms]) simp_all
qed

text \<open>The key of an index, and the entries that a set of allocated indexes gives.\<close>

definition index_key :: "u32 \<Rightarrow> buffer" where
  "index_key i = split_bytes 4 (ucast i)"

definition key_index :: "buffer \<Rightarrow> u32" where
  "key_index k = ucast (join_bytes k)"

definition index_entries :: "u32 set \<Rightarrow> sw_table \<Rightarrow> buffer \<rightharpoonup> entry_data" where
  "index_entries A tb k = (if length k = 4 \<and> key_index k \<in> A then Some (bare_entry tb) else None)"

lemma ucast_ucast_index [simp]: "(ucast :: u64 \<Rightarrow> u32) (ucast i) = i"
  by (rule bit_word_eqI) (auto simp: bit_simps)

lemma key_index_key [simp]: "key_index (index_key i) = i" "length (index_key i) = 4"
  by (simp_all add: key_index_def index_key_def join_split_word)

lemma index_key_index:
  assumes "length k = 4"
  shows "index_key (key_index k) = k"
proof -
  have "take_bit 32 (join_bytes k) = join_bytes k" using join_bytes_bound [of k] assms by simp
  moreover have "ucast (ucast (join_bytes k) :: u32) = take_bit 32 (join_bytes k)"
    by (rule bit_word_eqI) (auto simp: bit_simps)
  ultimately show ?thesis using split_join_bytes [of k] assms by (simp add: index_key_def key_index_def)
qed

lemma index_entries_upd:
  "(index_entries A tb)(index_key i := Some (bare_entry tb)) = index_entries (insert i A) tb"
  "(index_entries A tb)(index_key i := None) = index_entries (A - {i}) tb"
  by (rule ext; auto simp: index_entries_def dest: index_key_index)+

lemma index_entries_key [simp]: "index_entries A tb (index_key i) = (if i \<in> A then Some (bare_entry tb) else None)"
  by (simp add: index_entries_def)

lemma dom_index_entries: "dom (index_entries A tb) = index_key ` A"
proof (intro set_eqI iffI)
  fix k assume "k \<in> dom (index_entries A tb)"
  then have "length k = 4" "key_index k \<in> A" by (auto simp: index_entries_def split: if_splits)
  then show "k \<in> index_key ` A" using index_key_index [of k] by (intro image_eqI [of _ _ "key_index k"]) simp_all
qed auto

lemma card_index_entries: "card (dom (index_entries A tb)) = card A"
  unfolding dom_index_entries by (intro card_image inj_onI) (metis key_index_key(1))

text \<open>Tables whose only key field has 32 bits, and room for every index.\<close>

definition index_table :: "'h sde \<Rightarrow> sw_table \<Rightarrow> bool" where
  "index_table sde tb \<longleftrightarrow> key_table sde 4 tb \<and> ta_no_action tb \<and>
     length (ta_key_fields tb) = 1 \<and> tf_type (hd (ta_key_fields tb)) = UInt64"

definition index_tables :: "'h sde \<Rightarrow> (string \<Rightarrow> nat) \<Rightarrow> nat \<Rightarrow> sw_table list \<Rightarrow> bool" where
  "index_tables sde room capacity tbs \<longleftrightarrow>
     distinct (map ta_name tbs) \<and> (\<forall>tb \<in> set tbs. index_table sde tb \<and> capacity \<le> room (ta_name tb))"

lemma index_tables_good: "index_tables sde room capacity tbs \<Longrightarrow> good_tables sde 4 tbs"
  by (auto simp: index_tables_def good_tables_def index_table_def)

lemma word_buffer_key [simp]: "word_buffer i = Inr (index_key i)"
  by (simp add: index_key_def)

declare word_buffer_eq [simp del]

lemma index_table_values:
  assumes "index_table sde tb"
  shows "key_values (ta_key_fields tb) (index_key i) = [Number (ucast i)]"
    "reported_index tb [Number (ucast i)] = Inr i"
proof -
  obtain f where f: "ta_key_fields tb = [f]" "tf_type f = UInt64"
    using assms by (auto simp: index_table_def length_Suc_conv)
  have "tf_size f div 8 = 4" using assms f(1) by (simp add: index_table_def key_table_def key_size_def)
  with f show "key_values (ta_key_fields tb) (index_key i) = [Number (ucast i)]"
    by (simp add: bytes_value_def index_key_def join_split_word)
  from f show "reported_index tb [Number (ucast i)] = Inr i" by (simp add: reported_index_def)
qed

lemma set_data_index: "index_table sde tb \<Longrightarrow> set_data sde tb None = Inr (bare_entry tb)"
  by (auto simp: index_table_def intro: set_data_bare)

text \<open>One pass over the tables for each operation.\<close>

lemma add_index_ok:
  assumes "driver_ok sde c room" "index_tables sde room capacity tbs" "tables_hold c h 4 tbs (index_entries A)"
    "i \<notin> A" "card A < capacity"
  shows "\<exists>h'. for_tables (\<lambda>tb. add_entry sde tb (index_key i) None) tbs h = Inr h' \<and>
    tables_hold c h' 4 tbs (index_entries (insert i A))"
proof -
  have step: "\<exists>h'. add_entry sde tb (index_key i) None h = Inr h' \<and>
      entry_stored c h (ta_name tb) (key_values (ta_key_fields tb) (index_key i)) (Some (bare_entry tb)) h'"
    if tb: "tb \<in> set tbs" "table_holds 4 tb (index_entries A tb) (c h (ta_name tb))" for tb h
  proof -
    have V: "index_table sde tb" "capacity \<le> room (ta_name tb)" using assms(2) tb(1) by (auto simp: index_tables_def)
    have K: "key_table sde 4 tb" using V(1) by (simp add: index_table_def)
    have "\<forall>k \<in> dom (index_entries A tb). length k = 4" by (simp add: dom_index_entries)
    then have "card (dom (c h (ta_name tb))) = card A"
      using table_holds_card [OF K tb(2)] by (simp only: card_index_entries)
    then have "card (dom (c h (ta_name tb))) < room (ta_name tb)" using assms(5) V(2) by simp
    moreover have "c h (ta_name tb) (key_values (ta_key_fields tb) (index_key i)) = None"
      using tb(2) assms(4) by (simp add: table_holds_def)
    ultimately obtain h' where
      "entry_add sde h (ta_name tb) (key_values (ta_key_fields tb) (index_key i)) (bare_entry tb) = Some h'"
      "entry_stored c h (ta_name tb) (key_values (ta_key_fields tb) (index_key i)) (Some (bare_entry tb)) h'"
      using assms(1) unfolding driver_ok_def takes_entries_def by blast
    then show ?thesis using set_data_index [OF V(1)] set_key_ok [OF K] by (simp add: add_entry_def write_entry_def)
  qed
  have "\<exists>h'. for_tables (\<lambda>tb. add_entry sde tb (index_key i) None) tbs h = Inr h' \<and>
      tables_hold c h' 4 tbs (\<lambda>tb. (index_entries A tb)(index_key i := Some (bare_entry tb))) \<and>
      (\<forall>t. t \<notin> ta_name ` set tbs \<longrightarrow> c h' t = c h t)"
    using step assms(3) by (intro for_tables_store [OF index_tables_good [OF assms(2)]]) simp_all
  then show ?thesis unfolding index_entries_upd by blast
qed

lemma mod_index_ok:
  assumes "driver_ok sde c room" "index_tables sde room capacity tbs" "tables_hold c h 4 tbs (index_entries A)" "i \<in> A"
  shows "\<exists>h'. for_tables (\<lambda>tb. mod_entry sde tb (index_key i) None) tbs h = Inr h' \<and>
    tables_hold c h' 4 tbs (index_entries A)"
proof -
  have step: "\<exists>h'. mod_entry sde tb (index_key i) None h = Inr h' \<and>
      entry_stored c h (ta_name tb) (key_values (ta_key_fields tb) (index_key i)) (Some (bare_entry tb)) h'"
    if tb: "tb \<in> set tbs" "table_holds 4 tb (index_entries A tb) (c h (ta_name tb))" for tb h
  proof -
    have V: "index_table sde tb" using assms(2) tb(1) by (auto simp: index_tables_def)
    have K: "key_table sde 4 tb" using V(1) by (simp add: index_table_def)
    have "c h (ta_name tb) (key_values (ta_key_fields tb) (index_key i)) \<noteq> None"
      using tb(2) assms(4) by (simp add: table_holds_def)
    then obtain h' where
      "entry_mod sde h (ta_name tb) (key_values (ta_key_fields tb) (index_key i)) (bare_entry tb) = Some h'"
      "entry_stored c h (ta_name tb) (key_values (ta_key_fields tb) (index_key i)) (Some (bare_entry tb)) h'"
      using assms(1) unfolding driver_ok_def keeps_entries_def by blast
    then show ?thesis using set_data_index [OF V(1)] set_key_ok [OF K] by (simp add: mod_entry_def write_entry_def)
  qed
  have "\<exists>h'. for_tables (\<lambda>tb. mod_entry sde tb (index_key i) None) tbs h = Inr h' \<and>
      tables_hold c h' 4 tbs (\<lambda>tb. (index_entries A tb)(index_key i := Some (bare_entry tb))) \<and>
      (\<forall>t. t \<notin> ta_name ` set tbs \<longrightarrow> c h' t = c h t)"
    using step assms(3) by (intro for_tables_store [OF index_tables_good [OF assms(2)]]) simp_all
  then show ?thesis unfolding index_entries_upd insert_absorb [OF assms(4)] by blast
qed

lemma del_index_ok:
  assumes "driver_ok sde c room" "index_tables sde room capacity tbs" "tables_hold c h 4 tbs (index_entries A)" "i \<in> A"
  shows "\<exists>h'. for_tables (\<lambda>tb. del_entry sde tb (index_key i)) tbs h = Inr h' \<and>
    tables_hold c h' 4 tbs (index_entries (A - {i}))"
proof -
  have step: "\<exists>h'. del_entry sde tb (index_key i) h = Inr h' \<and>
      entry_stored c h (ta_name tb) (key_values (ta_key_fields tb) (index_key i)) None h'"
    if tb: "tb \<in> set tbs" "table_holds 4 tb (index_entries A tb) (c h (ta_name tb))" for tb h
  proof -
    have K: "key_table sde 4 tb" using assms(2) tb(1) by (auto simp: index_tables_def index_table_def)
    have "c h (ta_name tb) (key_values (ta_key_fields tb) (index_key i)) \<noteq> None"
      using tb(2) assms(4) by (simp add: table_holds_def)
    then obtain h' where
      "entry_del sde h (ta_name tb) (key_values (ta_key_fields tb) (index_key i)) = Some h'"
      "entry_stored c h (ta_name tb) (key_values (ta_key_fields tb) (index_key i)) None h'"
      using assms(1) unfolding driver_ok_def keeps_entries_def by blast
    then show ?thesis using set_key_ok [OF K] by (simp add: del_entry_def)
  qed
  have "\<exists>h'. for_tables (\<lambda>tb. del_entry sde tb (index_key i)) tbs h = Inr h' \<and>
      tables_hold c h' 4 tbs (\<lambda>tb. (index_entries A tb)(index_key i := None)) \<and>
      (\<forall>t. t \<notin> ta_name ` set tbs \<longrightarrow> c h' t = c h t)"
    using step assms(3) by (intro for_tables_store [OF index_tables_good [OF assms(2)]]) simp_all
  then show ?thesis unfolding index_entries_upd by blast
qed

text \<open>A set of allocated indexes; the least free index is the next to be allocated.\<close>

datatype chain_event = Chain_Allocate | Chain_Refresh u32 | Chain_Free u32 | Chain_Aged nat u32

type_synonym chain_spec = "u32 set \<times> (u32 \<Rightarrow> nat set)"

fun index_spec_step :: "nat \<Rightarrow> nat \<Rightarrow> chain_event \<Rightarrow> chain_spec \<Rightarrow> u32 option \<times> chain_spec" where
  "index_spec_step capacity tables Chain_Allocate (A, r) =
     (case find (\<lambda>i. i \<notin> A) (indexes_below capacity) of
        None \<Rightarrow> (None, (A, r))
      | Some i \<Rightarrow> (Some i, (insert i A, r)))"
| "index_spec_step capacity tables (Chain_Refresh i) (A, r) = (None, (A, r))"
| "index_spec_step capacity tables (Chain_Free i) (A, r) = (None, (A - {i}, r))"
| "index_spec_step capacity tables (Chain_Aged t i) (A, r) =
     (if insert t (r i) = {..<tables} then (None, (A - {i}, r(i := {})))
      else (None, (A, r(i := insert t (r i)))))"

fun index_spec_run :: "nat \<Rightarrow> nat \<Rightarrow> chain_event list \<Rightarrow> chain_spec \<Rightarrow> u32 option list \<times> chain_spec" where
  "index_spec_run capacity tables [] s = ([], s)"
| "index_spec_run capacity tables (e # es) s =
     (case index_spec_step capacity tables e s of (a, s) \<Rightarrow>
      case index_spec_run capacity tables es s of (as, s) \<Rightarrow> (a # as, s))"

fun chain_event_step :: "'h sde \<Rightarrow> chain_event \<Rightarrow> sycon_dchain \<times> 'h \<Rightarrow> (u32 option \<times> sycon_dchain \<times> 'h) result" where
  "chain_event_step sde Chain_Allocate S = allocate_new_index sde S"
| "chain_event_step sde (Chain_Refresh i) S = rbind (refresh_index sde i S) (\<lambda>S. Inr (None, S))"
| "chain_event_step sde (Chain_Free i) S = rbind (free_index sde i S) (\<lambda>S. Inr (None, S))"
| "chain_event_step sde (Chain_Aged t i) S =
     (let tb = dt_tables (fst S) ! t in
      rbind (dchain_table_expire sde (get_full_name tb) (key_values (ta_key_fields tb) (index_key i)) S) (\<lambda>S.
      Inr (None, S)))"

fun index_run :: "'h sde \<Rightarrow> chain_event list \<Rightarrow> sycon_dchain \<times> 'h \<Rightarrow> (u32 option list \<times> sycon_dchain \<times> 'h) result" where
  "index_run sde [] S = Inr ([], S)"
| "index_run sde (e # es) S =
     rbind (chain_event_step sde e S) (\<lambda>(a, S). rbind (index_run sde es S) (\<lambda>(as, S). Inr (a # as, S)))"

fun chain_event_ok :: "nat \<Rightarrow> nat \<Rightarrow> chain_event \<Rightarrow> bool" where
  "chain_event_ok capacity tables Chain_Allocate \<longleftrightarrow> True"
| "chain_event_ok capacity tables (Chain_Refresh i) \<longleftrightarrow> unat i < capacity"
| "chain_event_ok capacity tables (Chain_Free i) \<longleftrightarrow> unat i < capacity"
| "chain_event_ok capacity tables (Chain_Aged t i) \<longleftrightarrow> t < tables \<and> unat i < capacity"

definition chain_rel :: "'h switch_contents \<Rightarrow> chain_spec \<Rightarrow> sycon_dchain \<times> 'h \<Rightarrow> bool" where
  "chain_rel c = (\<lambda>(A, r) (T, h).
     dt_capacity T \<le> 2 ^ 32 \<and> A \<subseteq> {i. unat i < dt_capacity T} \<and> dt_free T = free_of (dt_capacity T) A \<and>
     reports_match (dt_tables T) (dt_reports T) r \<and> tables_hold c h 4 (dt_tables T) (index_entries A))"

lemma find_hd_filter: "find P xs = (case filter P xs of [] \<Rightarrow> None | x # _ \<Rightarrow> Some x)"
  by (induction xs) auto

lemma free_of_insert: "removeAll i (free_of capacity A) = free_of capacity (insert i A)"
  unfolding free_of_def removeAll_filter_not_eq filter_filter by (rule filter_cong) auto

lemma free_of_remove:
  assumes "capacity \<le> 2 ^ 32" "unat i < capacity"
  shows "insort_insert i (free_of capacity A) = free_of capacity (A - {i})"
  using assms free_of_props [OF assms(1), of A] set_free_of [OF assms(1), of A]
  by (intro free_of_unique [OF assms(1)]) (auto simp: sorted_insort_insert distinct_insort_insert set_insort_insert)

lemma card_indexes:
  assumes "capacity \<le> 2 ^ 32"
  shows "card {i :: u32. unat i < capacity} = capacity"
proof -
  have "card (set (indexes_below capacity)) = length (indexes_below capacity)"
    by (rule distinct_card) (rule indexes_below_sorted(2) [OF assms])
  then show ?thesis unfolding indexes_below_set [OF assms] by (simp add: indexes_below_def)
qed

lemma allocate_ok:
  assumes "driver_ok sde c room" "index_tables sde room (dt_capacity T) (dt_tables T)" "chain_rel c (A, r) (T, h)"
  shows "\<exists>T' h'. allocate_new_index sde (T, h) =
      Inr (fst (index_spec_step (dt_capacity T) (length (dt_tables T)) Chain_Allocate (A, r)), T', h') \<and>
    chain_rel c (snd (index_spec_step (dt_capacity T) (length (dt_tables T)) Chain_Allocate (A, r))) (T', h') \<and>
    dt_tables T' = dt_tables T \<and> dt_capacity T' = dt_capacity T"
proof -
  have R: "dt_capacity T \<le> 2 ^ 32" "A \<subseteq> {i. unat i < dt_capacity T}" "dt_free T = free_of (dt_capacity T) A"
    "tables_hold c h 4 (dt_tables T) (index_entries A)"
    using assms(3) by (simp_all add: chain_rel_def)
  have spec: "find (\<lambda>i. i \<notin> A) (indexes_below (dt_capacity T)) = (case dt_free T of [] \<Rightarrow> None | i # _ \<Rightarrow> Some i)"
    by (simp only: find_hd_filter R(3) free_of_def)
  show ?thesis
  proof (cases "dt_free T")
    case Nil
    with assms(3) spec show ?thesis by (simp add: allocate_new_index_def)
  next
    case (Cons i rest)
    then have i: "i \<notin> A" "unat i < dt_capacity T" using R(1,3) set_free_of [OF R(1), of A] by auto
    then have "A \<subset> {i. unat i < dt_capacity T}" using R(2) by auto
    then have "card A < card {i :: u32. unat i < dt_capacity T}" by (intro psubset_card_mono) auto
    then have "card A < dt_capacity T" using card_indexes [OF R(1)] by linarith
    then obtain h' where h': "for_tables (\<lambda>tb. add_entry sde tb (index_key i) None) (dt_tables T) h = Inr h'"
      "tables_hold c h' 4 (dt_tables T) (index_entries (insert i A))"
      using add_index_ok [OF assms(1,2) R(4) i(1)] by blast
    have "chain_rel c (insert i A, r) (T\<lparr>dt_free := removeAll i (dt_free T)\<rparr>, h')"
      using assms(3) h'(2) i(2) R(3) by (simp add: chain_rel_def free_of_insert)
    with Cons spec h'(1) show ?thesis by (simp add: allocate_new_index_def)
  qed
qed

lemma refresh_ok:
  assumes "driver_ok sde c room" "index_tables sde room (dt_capacity T) (dt_tables T)" "chain_rel c (A, r) (T, h)"
    "unat i < dt_capacity T"
  shows "\<exists>h'. refresh_index sde i (T, h) = Inr (T, h') \<and> chain_rel c (A, r) (T, h')"
proof -
  have R: "dt_capacity T \<le> 2 ^ 32" "dt_free T = free_of (dt_capacity T) A" "tables_hold c h 4 (dt_tables T) (index_entries A)"
    using assms(3) by (simp_all add: chain_rel_def)
  show ?thesis
  proof (cases "i \<in> A")
    case True
    then obtain h' where "for_tables (\<lambda>tb. mod_entry sde tb (index_key i) None) (dt_tables T) h = Inr h'"
      "tables_hold c h' 4 (dt_tables T) (index_entries A)"
      using mod_index_ok [OF assms(1,2) R(3)] by blast
    with True assms(3,4) R(1,2) show ?thesis by (auto simp: refresh_index_def set_free_of chain_rel_def)
  next
    case False
    with assms(3,4) R(1,2) show ?thesis by (simp add: refresh_index_def set_free_of)
  qed
qed

lemma free_ok:
  assumes "driver_ok sde c room" "index_tables sde room (dt_capacity T) (dt_tables T)" "chain_rel c (A, r) (T, h)"
    "unat i < dt_capacity T"
  shows "\<exists>T' h'. free_index sde i (T, h) = Inr (T', h') \<and> chain_rel c (A - {i}, r) (T', h') \<and>
    dt_tables T' = dt_tables T \<and> dt_capacity T' = dt_capacity T"
proof -
  have R: "dt_capacity T \<le> 2 ^ 32" "dt_free T = free_of (dt_capacity T) A" "tables_hold c h 4 (dt_tables T) (index_entries A)"
    using assms(3) by (simp_all add: chain_rel_def)
  show ?thesis
  proof (cases "i \<in> A")
    case True
    then obtain h' where h': "for_tables (\<lambda>tb. del_entry sde tb (index_key i)) (dt_tables T) h = Inr h'"
      "tables_hold c h' 4 (dt_tables T) (index_entries (A - {i}))"
      using del_index_ok [OF assms(1,2) R(3)] by blast
    have "chain_rel c (A - {i}, r) (T\<lparr>dt_free := insort_insert i (dt_free T)\<rparr>, h')"
      using assms(3) h'(2) free_of_remove [OF R(1) assms(4), of A] R(2) by (auto simp: chain_rel_def)
    with True assms(4) R(1,2) h'(1) show ?thesis by (simp add: free_index_def set_free_of)
  next
    case False
    with assms(3,4) R(1,2) show ?thesis by (simp add: free_index_def set_free_of)
  qed
qed

lemma aged_ok:
  assumes "driver_ok sde c room" "index_tables sde room (dt_capacity T) (dt_tables T)" "chain_rel c (A, r) (T, h)"
    "unat i < dt_capacity T" "t < length (dt_tables T)"
  shows "\<exists>T' h'. chain_event_step sde (Chain_Aged t i) (T, h) = Inr (None, T', h') \<and>
    chain_rel c (snd (index_spec_step (dt_capacity T) (length (dt_tables T)) (Chain_Aged t i) (A, r))) (T', h') \<and>
    dt_tables T' = dt_tables T \<and> dt_capacity T' = dt_capacity T"
proof -
  let ?tb = "dt_tables T ! t" and ?r = "r(i := insert t (r i))"
  let ?T = "T\<lparr>dt_reports := add_report i (get_full_name ?tb) (dt_reports T)\<rparr>"
  have tb: "?tb \<in> set (dt_tables T)" using assms(5) by simp
  have names: "distinct (map ta_name (dt_tables T))" and V: "index_table sde ?tb"
    using assms(2) tb by (simp_all add: index_tables_def)
  have find: "find_target (dt_tables T) (get_full_name ?tb) = Inr ?tb"
    using find_target_ok [OF tb names] by (simp add: get_full_name_def)
  have R: "chain_rel c (A, ?r) (?T, h)"
    using assms(3) reports_match_add [OF _ assms(5), of "dt_reports T" r i] by (simp add: chain_rel_def)
  have full: "length (reported (dt_reports ?T) i) = length (dt_tables T) \<longleftrightarrow> insert t (r i) = {..<length (dt_tables T)}"
    using reports_match_length [of "dt_tables T" "dt_reports ?T" ?r i] R names by (simp add: chain_rel_def)
  have step: "chain_event_step sde (Chain_Aged t i) (T, h) =
      (if insert t (r i) = {..<length (dt_tables T)}
       then rbind (free_index sde i (?T, h)) (\<lambda>(T, h). Inr (None, T\<lparr>dt_reports := AList.delete i (dt_reports T)\<rparr>, h))
       else Inr (None, ?T, h))"
    using find index_table_values [OF V, of i] full
    by (simp add: dchain_table_expire_def Let_def rbind_def split: sum.splits prod.splits)
  show ?thesis
  proof (cases "insert t (r i) = {..<length (dt_tables T)}")
    case True
    have I: "index_tables sde room (dt_capacity ?T) (dt_tables ?T)" using assms(2) by simp
    obtain T' h' where d: "free_index sde i (?T, h) = Inr (T', h')" "chain_rel c (A - {i}, ?r) (T', h')"
      "dt_tables T' = dt_tables ?T" "dt_capacity T' = dt_capacity ?T"
      using free_ok [OF assms(1) I R, of i] assms(4) by auto
    have "reports_match (dt_tables T') (AList.delete i (dt_reports T')) (?r(i := {}))"
      using d(2) by (intro reports_match_delete) (simp add: chain_rel_def)
    then have "chain_rel c (A - {i}, r(i := {})) (T'\<lparr>dt_reports := AList.delete i (dt_reports T')\<rparr>, h')"
      using d(2) by (simp add: chain_rel_def)
    with True d show ?thesis unfolding step by simp
  next
    case False
    with R show ?thesis unfolding step by simp
  qed
qed

lemma chain_step_ok:
  assumes "driver_ok sde c room" "index_tables sde room (dt_capacity T) (dt_tables T)" "chain_rel c s (T, h)"
    "chain_event_ok (dt_capacity T) (length (dt_tables T)) e"
  shows "\<exists>T' h'. chain_event_step sde e (T, h) =
      Inr (fst (index_spec_step (dt_capacity T) (length (dt_tables T)) e s), T', h') \<and>
    chain_rel c (snd (index_spec_step (dt_capacity T) (length (dt_tables T)) e s)) (T', h') \<and>
    dt_tables T' = dt_tables T \<and> dt_capacity T' = dt_capacity T"
proof -
  obtain A r where s: "s = (A, r)" by (cases s)
  note R = assms(3) [unfolded s]
  show ?thesis
  proof (cases e)
    case Chain_Allocate
    with allocate_ok [OF assms(1,2) R] show ?thesis by (simp add: s del: index_spec_step.simps)
  next
    case (Chain_Refresh i)
    with assms(4) refresh_ok [OF assms(1,2) R, of i] show ?thesis by (auto simp: s)
  next
    case (Chain_Free i)
    with assms(4) free_ok [OF assms(1,2) R, of i] show ?thesis by (auto simp: s)
  next
    case (Chain_Aged t i)
    with assms(4) aged_ok [OF assms(1,2) R, of i t] show ?thesis
      by (simp add: s del: chain_event_step.simps split: if_splits)
  qed
qed

lemma index_run_ok:
  assumes "driver_ok sde c room" "index_tables sde room (dt_capacity T) (dt_tables T)" "chain_rel c s (T, h)"
    "\<forall>e \<in> set es. chain_event_ok (dt_capacity T) (length (dt_tables T)) e"
  shows "\<exists>T' h'. index_run sde es (T, h) =
      Inr (fst (index_spec_run (dt_capacity T) (length (dt_tables T)) es s), T', h') \<and>
    chain_rel c (snd (index_spec_run (dt_capacity T) (length (dt_tables T)) es s)) (T', h') \<and>
    dt_tables T' = dt_tables T \<and> dt_capacity T' = dt_capacity T"
  using assms(2-4)
proof (induction es arbitrary: s T h)
  case (Cons e es)
  let ?s = "snd (index_spec_step (dt_capacity T) (length (dt_tables T)) e s)"
  obtain T1 h1 where 1: "chain_event_step sde e (T, h) =
      Inr (fst (index_spec_step (dt_capacity T) (length (dt_tables T)) e s), T1, h1)"
    "chain_rel c ?s (T1, h1)" "dt_tables T1 = dt_tables T" "dt_capacity T1 = dt_capacity T"
    using chain_step_ok [OF assms(1) Cons.prems(1,2), of e] Cons.prems(3) by auto
  have "\<exists>T' h'. index_run sde es (T1, h1) =
      Inr (fst (index_spec_run (dt_capacity T1) (length (dt_tables T1)) es ?s), T', h') \<and>
    chain_rel c (snd (index_spec_run (dt_capacity T1) (length (dt_tables T1)) es ?s)) (T', h') \<and>
    dt_tables T' = dt_tables T1 \<and> dt_capacity T' = dt_capacity T1"
    using Cons.prems 1 by (intro Cons.IH) simp_all
  with 1 show ?case by (auto simp: split_beta)
qed auto

lemma new_sycon_dchain_rel:
  assumes "driver_ok sde c room" "new_sycon_dchain sde names timeout h = Inr (T, h')"
    "\<forall>tb \<in> set (dt_tables T). c h (ta_name tb) = Map.empty"
  shows "chain_rel c ({}, \<lambda>i. {}) (T, h')"
proof -
  obtain tbs0 tbs where n: "notify_tables sde timeout tbs0 h = Inr (tbs, h')"
    "T = \<lparr>dt_free = free_indexes_loop (get_effective_capacity (last tbs0) mod 2 ^ 32), dt_tables = tbs, dt_reports = [],
       dt_capacity = get_effective_capacity (last tbs0) mod 2 ^ 32\<rparr>"
    using assms(2) by (auto simp: new_sycon_dchain_def Let_def rbind_eq_Inr assert_that_eq_Inr)
  have "dt_capacity T \<le> 2 ^ 32" using n(2) by (simp add: less_imp_le)
  moreover have "dt_free T = free_of (dt_capacity T) {}" "dt_reports T = []"
    using free_indexes_loop_eq [of "dt_capacity T"] \<open>dt_capacity T \<le> 2 ^ 32\<close> n(2) by simp_all
  moreover have "c h' = c h" using notify_tables_contents [OF assms(1) n(1)] by simp
  ultimately show ?thesis
    using assms(3)
    by (simp add: chain_rel_def reports_match_def reported_def tables_hold_def table_holds_def index_entries_def)
qed

text \<open>C13. A chain table answers every sequence of allocations, refreshes, deletions and reports of the switch
  as a set of indexes does of which the least free one is allocated next and from which an index goes
  when every table has reported it; no event aborts the controller, and every table of the switch has an
  entry for exactly the allocated indexes.\<close>
theorem dchain_table_mirrors_switch:
  assumes "driver_ok sde c room" "new_sycon_dchain sde names timeout h = Inr (T, h0)"
    "index_tables sde room (dt_capacity T) (dt_tables T)" "\<forall>tb \<in> set (dt_tables T). c h (ta_name tb) = Map.empty"
    "\<forall>e \<in> set es. chain_event_ok (dt_capacity T) (length (dt_tables T)) e"
  shows "case index_spec_run (dt_capacity T) (length (dt_tables T)) es ({}, \<lambda>i. {}) of (answers, A, r) \<Rightarrow>
    \<exists>T' h'. index_run sde es (T, h0) = Inr (answers, T', h') \<and>
      (\<forall>i. unat i < dt_capacity T \<longrightarrow> is_index_allocated T' i = Inr (i \<in> A) \<and>
        (\<forall>tb \<in> set (dt_tables T). c h' (ta_name tb) [Number (ucast i)] = (if i \<in> A then Some (bare_entry tb) else None)))"
proof -
  obtain answers A r where s: "index_spec_run (dt_capacity T) (length (dt_tables T)) es ({}, \<lambda>i. {}) = (answers, A, r)"
    by (cases "index_spec_run (dt_capacity T) (length (dt_tables T)) es ({}, \<lambda>i. {})") auto
  obtain T' h' where r: "index_run sde es (T, h0) = Inr (answers, T', h')" "chain_rel c (A, r) (T', h')"
    "dt_tables T' = dt_tables T" "dt_capacity T' = dt_capacity T"
    using index_run_ok [OF assms(1,3) new_sycon_dchain_rel [OF assms(1,2,4)] assms(5)] s by auto
  have "is_index_allocated T' i = Inr (i \<in> A)" if "unat i < dt_capacity T" for i
    using r(2,4) that by (simp add: chain_rel_def is_index_allocated_def set_free_of)
  moreover have "c h' (ta_name tb) [Number (ucast i)] = (if i \<in> A then Some (bare_entry tb) else None)"
    if "tb \<in> set (dt_tables T)" for tb i
  proof -
    have "index_table sde tb" using assms(3) that by (simp add: index_tables_def)
    then have "[Number (ucast i)] = key_values (ta_key_fields tb) (index_key i)" by (simp only: index_table_values(1))
    moreover have "table_holds 4 tb (index_entries A tb) (c h' (ta_name tb))"
      using r(2,3) that by (simp add: chain_rel_def tables_hold_def)
    ultimately show ?thesis by (simp add: table_holds_def)
  qed
  ultimately show ?thesis using s r(1) by auto
qed

section \<open>Two tables of indexes\<close>

definition chain_info :: "string \<Rightarrow> table_info option" where
  "chain_info name =
     Some \<lparr>ti_size = 4, ti_keys = [\<lparr>tf_name = ''index'', tf_size = 32, tf_type = UInt64, tf_exact = True\<rparr>],
       ti_actions = [(''NoAction'', [])]\<rparr>"

definition chain_sw_table :: "string \<Rightarrow> sw_table" where
  "chain_sw_table name = \<lparr>ta_name = name, ta_capacity = 4,
     ta_key_fields = [\<lparr>tf_name = ''index'', tf_size = 32, tf_type = UInt64, tf_exact = True\<rparr>],
     ta_actions = [], ta_no_action = True, ta_time_aware = True, ta_entry_ttl = 1000\<rparr>"

definition sample_chain :: sycon_dchain where
  "sample_chain = \<lparr>dt_free = [0, 1, 2], dt_tables = [chain_sw_table ''a'', chain_sw_table ''b''], dt_reports = [],
     dt_capacity = 3\<rparr>"

lemma sample_chain_new:
  "new_sycon_dchain (sample_driver chain_info) [''a'', ''b''] 1000 (\<lambda>t. Map.empty) = Inr (sample_chain, \<lambda>t. Map.empty)"
proof -
  have "free_indexes_loop 3 = [0, 1, 2]"
    unfolding free_indexes_loop_eq [of 3, simplified] by (simp add: free_of_def indexes_below_def upt_rec)
  then show ?thesis
    by (simp add: new_sycon_dchain_def new_sw_table_def sample_driver_def chain_info_def build_key_fields_def
        build_actions_def round_to_bytes_def get_effective_capacity_def set_notify_mode_def
        TOFINO_MIN_EXPIRATION_TIME_def sample_chain_def chain_sw_table_def Let_def)
qed

lemma sample_chain_tables:
  "index_tables (sample_driver tables) (\<lambda>t. 3) (dt_capacity sample_chain) (dt_tables sample_chain)"
  by (simp add: index_tables_def index_table_def key_table_def sample_chain_def chain_sw_table_def good_field_def
      key_size_def takes_key_def sample_driver_def)

theorem dchain_table_mirrors_switch_witness:
  "case index_spec_run 3 2 [Chain_Allocate, Chain_Refresh 0, Chain_Aged 1 0] ({}, \<lambda>i. {}) of (answers, A, r) \<Rightarrow>
    \<exists>T' h'. index_run (sample_driver chain_info) [Chain_Allocate, Chain_Refresh 0, Chain_Aged 1 0]
        (sample_chain, \<lambda>t. Map.empty) = Inr (answers, T', h') \<and>
      (\<forall>i. unat i < 3 \<longrightarrow> is_index_allocated T' i = Inr (i \<in> A) \<and>
        (\<forall>tb \<in> set (dt_tables sample_chain). h' (ta_name tb) [Number (ucast i)] =
          (if i \<in> A then Some (bare_entry tb) else None)))"
proof -
  have c: "dt_capacity sample_chain = 3" "length (dt_tables sample_chain) = 2" by (simp_all add: sample_chain_def)
  show ?thesis
    unfolding c [symmetric]
    by (rule dchain_table_mirrors_switch [OF sample_driver_ok sample_chain_new sample_chain_tables])
      (simp_all add: sample_chain_def)
qed

section \<open>Vectors\<close>

text \<open>A value that was written to a vector is read back and is in every table.\<close>

lemma vector_table_write_ok:
  assumes "driver_ok sde c room" "good_tables sde 4 (vt_tables T)" "tables_hold c h 4 (vt_tables T) m"
    "\<And>tb. tb \<in> set (vt_tables T) \<Longrightarrow> length (ta_actions tb) = 1 \<and>
      set_data sde tb (Some (fst (hd (ta_actions tb)), [v])) = Inr (d tb) \<and>
      (\<forall>k \<in> dom (m tb). length k = 4) \<and> card (dom (m tb)) < room (ta_name tb)"
    "unat i < vt_capacity T" "length (vt_cache T) = vt_capacity T"
  shows "\<exists>T' h'. vector_table_write sde i v (T, h) = Inr (T', h') \<and>
    (\<forall>j. vector_table_read T' j = (if j = i then Inr v else vector_table_read T j)) \<and>
    tables_hold c h' 4 (vt_tables T) (\<lambda>tb. (m tb)(index_key i \<mapsto> d tb))"
proof -
  have step: "\<exists>h'. put_value sde (index_key i) v tb h = Inr h' \<and>
      entry_stored c h (ta_name tb) (key_values (ta_key_fields tb) (index_key i)) (Some (d tb)) h'"
    if tb: "tb \<in> set (vt_tables T)" "table_holds 4 tb (m tb) (c h (ta_name tb))" for tb h
  proof -
    note V = assms(4) [OF tb(1)]
    have K: "key_table sde 4 tb" using assms(2) tb(1) by (simp add: good_tables_def)
    have "card (dom (c h (ta_name tb))) < room (ta_name tb)" using table_holds_card [OF K tb(2)] V by simp
    then have "\<exists>h'. entry_add_or_mod sde h (ta_name tb) (key_values (ta_key_fields tb) (index_key i)) (d tb) = Some h' \<and>
        entry_stored c h (ta_name tb) (key_values (ta_key_fields tb) (index_key i)) (Some (d tb)) h'"
      using assms(1) unfolding driver_ok_def takes_entries_def keeps_entries_def by (metis (no_types))
    then show ?thesis using V set_key_ok [OF K] by (auto simp: put_value_def add_or_mod_entry_def write_entry_def)
  qed
  obtain h' where h': "for_tables (put_value sde (index_key i) v) (vt_tables T) h = Inr h'"
    "tables_hold c h' 4 (vt_tables T) (\<lambda>tb. (m tb)(index_key i \<mapsto> d tb))"
    using for_tables_store [OF assms(2,3), of "index_key i" "put_value sde (index_key i) v" "\<lambda>tb. Some (d tb)"] step by auto
  have "vector_table_read (T\<lparr>vt_cache := (vt_cache T)[unat i := v]\<rparr>) j = (if j = i then Inr v else vector_table_read T j)" for j
    using assms(5,6) by (simp add: vector_table_read_def nth_list_update)
  with h' assms(5,6) show ?thesis by (simp add: vector_table_write_def)
qed

text \<open>Values of registers that divide a value into pieces of at most 8 bytes.\<close>

lemma put_registers_ok:
  assumes "driver_ok sde c room" "writes_registers sde" "\<forall>rg \<in> set rgs. 0 < rg_value_size rg div 8 \<and> rg_value_size rg div 8 \<le> 8"
    "offset + sum_list (map (\<lambda>rg. rg_value_size rg div 8) rgs) \<le> length v"
  shows "\<exists>h'. put_registers sde i v offset rgs h = Inr h'"
  using assms(3,4)
proof (induction rgs arbitrary: offset h)
  case (Cons rg rgs)
  then obtain x where "buffer_get v offset (rg_value_size rg div 8) = Inr x"
    by (simp add: buffer_get_def in_bounds_def)
  moreover obtain h1 where "set_register sde rg i (ucast x) h = Inr h1"
    using set_register_ok [OF assms(1,2), of rg i "ucast x" h] by blast
  ultimately show ?case using Cons.IH [of "offset + rg_value_size rg div 8" h1] Cons.prems by (simp add: add.assoc)
qed simp

lemma vector_register_put_ok:
  assumes "driver_ok sde c room" "writes_registers sde"
    "\<forall>rg \<in> set (vr_registers T). 0 < rg_value_size rg div 8 \<and> rg_value_size rg div 8 \<le> 8 \<and> rg_value_size rg mod 8 = 0"
    "vr_value_size T = sum_list (map rg_value_size (vr_registers T))" "length v = vr_value_size T div 8"
    "unat i < vr_capacity T" "length (vr_cache T) = vr_capacity T"
  shows "\<exists>T' h'. vector_register_put sde i v (T, h) = Inr (T', h') \<and>
    (\<forall>j. vector_register_get T' j = (if j = i then Inr v else vector_register_get T j))"
proof -
  have "8 * sum_list (map (\<lambda>rg. rg_value_size rg div 8) rgs) = sum_list (map rg_value_size rgs)"
    if "\<forall>rg \<in> set rgs. rg_value_size rg mod 8 = 0" for rgs
    using that by (induction rgs) (auto simp: add_mult_distrib2 minus_mod_eq_mult_div [symmetric])
  then have "8 * sum_list (map (\<lambda>rg. rg_value_size rg div 8) (vr_registers T)) = vr_value_size T"
    using assms(3,4) by auto
  then have "sum_list (map (\<lambda>rg. rg_value_size rg div 8) (vr_registers T)) = length v" using assms(5) by linarith
  then obtain h' where h': "put_registers sde i v 0 (vr_registers T) h = Inr h'"
    using put_registers_ok [OF assms(1,2), of "vr_registers T" 0 v i h] assms(3) by auto
  have "vector_register_get (T\<lparr>vr_cache := (vr_cache T)[unat i := v]\<rparr>) j =
      (if j = i then Inr v else vector_register_get T j)" for j
    using assms(6,7) by (simp add: vector_register_get_def nth_list_update)
  with h' assms(5,6,7) show ?thesis by (simp add: vector_register_put_def)
qed

end
