(* ===== verification/SyconHash.thy ===== *)
theory SyconHash
  imports SyconBuffers
begin

unbundle bit_operations_syntax

text \<open>
  The CRC-32 of the controllers (\<^verbatim>\<open>libsycon/include/sycon/hash.h\<close>), which has to give what the
  switch computes: the loop over a table of 256 entries is the division by the polynomial, bit by bit.
\<close>

section \<open>The table-driven checksum\<close>

definition table_crc32 :: "u32 list" where
  "table_crc32 =
    [0x00000000, 0x04C11DB7, 0x09823B6E, 0x0D4326D9, 0x130476DC, 0x17C56B6B, 0x1A864DB2, 0x1E475005,
     0x2608EDB8, 0x22C9F00F, 0x2F8AD6D6, 0x2B4BCB61, 0x350C9B64, 0x31CD86D3, 0x3C8EA00A, 0x384FBDBD,
     0x4C11DB70, 0x48D0C6C7, 0x4593E01E, 0x4152FDA9, 0x5F15ADAC, 0x5BD4B01B, 0x569796C2, 0x52568B75,
     0x6A1936C8, 0x6ED82B7F, 0x639B0DA6, 0x675A1011, 0x791D4014, 0x7DDC5DA3, 0x709F7B7A, 0x745E66CD,
     0x9823B6E0, 0x9CE2AB57, 0x91A18D8E, 0x95609039, 0x8B27C03C, 0x8FE6DD8B, 0x82A5FB52, 0x8664E6E5,
     0xBE2B5B58, 0xBAEA46EF, 0xB7A96036, 0xB3687D81, 0xAD2F2D84, 0xA9EE3033, 0xA4AD16EA, 0xA06C0B5D,
     0xD4326D90, 0xD0F37027, 0xDDB056FE, 0xD9714B49, 0xC7361B4C, 0xC3F706FB, 0xCEB42022, 0xCA753D95,
     0xF23A8028, 0xF6FB9D9F, 0xFBB8BB46, 0xFF79A6F1, 0xE13EF6F4, 0xE5FFEB43, 0xE8BCCD9A, 0xEC7DD02D,
     0x34867077, 0x30476DC0, 0x3D044B19, 0x39C556AE, 0x278206AB, 0x23431B1C, 0x2E003DC5, 0x2AC12072,
     0x128E9DCF, 0x164F8078, 0x1B0CA6A1, 0x1FCDBB16, 0x018AEB13, 0x054BF6A4, 0x0808D07D, 0x0CC9CDCA,
     0x7897AB07, 0x7C56B6B0, 0x71159069, 0x75D48DDE, 0x6B93DDDB, 0x6F52C06C, 0x6211E6B5, 0x66D0FB02,
     0x5E9F46BF, 0x5A5E5B08, 0x571D7DD1, 0x53DC6066, 0x4D9B3063, 0x495A2DD4, 0x44190B0D, 0x40D816BA,
     0xACA5C697, 0xA864DB20, 0xA527FDF9, 0xA1E6E04E, 0xBFA1B04B, 0xBB60ADFC, 0xB6238B25, 0xB2E29692,
     0x8AAD2B2F, 0x8E6C3698, 0x832F1041, 0x87EE0DF6, 0x99A95DF3, 0x9D684044, 0x902B669D, 0x94EA7B2A,
     0xE0B41DE7, 0xE4750050, 0xE9362689, 0xEDF73B3E, 0xF3B06B3B, 0xF771768C, 0xFA325055, 0xFEF34DE2,
     0xC6BCF05F, 0xC27DEDE8, 0xCF3ECB31, 0xCBFFD686, 0xD5B88683, 0xD1799B34, 0xDC3ABDED, 0xD8FBA05A,
     0x690CE0EE, 0x6DCDFD59, 0x608EDB80, 0x644FC637, 0x7A089632, 0x7EC98B85, 0x738AAD5C, 0x774BB0EB,
     0x4F040D56, 0x4BC510E1, 0x46863638, 0x42472B8F, 0x5C007B8A, 0x58C1663D, 0x558240E4, 0x51435D53,
     0x251D3B9E, 0x21DC2629, 0x2C9F00F0, 0x285E1D47, 0x36194D42, 0x32D850F5, 0x3F9B762C, 0x3B5A6B9B,
     0x0315D626, 0x07D4CB91, 0x0A97ED48, 0x0E56F0FF, 0x1011A0FA, 0x14D0BD4D, 0x19939B94, 0x1D528623,
     0xF12F560E, 0xF5EE4BB9, 0xF8AD6D60, 0xFC6C70D7, 0xE22B20D2, 0xE6EA3D65, 0xEBA91BBC, 0xEF68060B,
     0xD727BBB6, 0xD3E6A601, 0xDEA580D8, 0xDA649D6F, 0xC423CD6A, 0xC0E2D0DD, 0xCDA1F604, 0xC960EBB3,
     0xBD3E8D7E, 0xB9FF90C9, 0xB4BCB610, 0xB07DABA7, 0xAE3AFBA2, 0xAAFBE615, 0xA7B8C0CC, 0xA379DD7B,
     0x9B3660C6, 0x9FF77D71, 0x92B45BA8, 0x9675461F, 0x8832161A, 0x8CF30BAD, 0x81B02D74, 0x857130C3,
     0x5D8A9099, 0x594B8D2E, 0x5408ABF7, 0x50C9B640, 0x4E8EE645, 0x4A4FFBF2, 0x470CDD2B, 0x43CDC09C,
     0x7B827D21, 0x7F436096, 0x7200464F, 0x76C15BF8, 0x68860BFD, 0x6C47164A, 0x61043093, 0x65C52D24,
     0x119B4BE9, 0x155A565E, 0x18197087, 0x1CD86D30, 0x029F3D35, 0x065E2082, 0x0B1D065B, 0x0FDC1BEC,
     0x3793A651, 0x3352BBE6, 0x3E119D3F, 0x3AD08088, 0x2497D08D, 0x2056CD3A, 0x2D15EBE3, 0x29D4F654,
     0xC5A92679, 0xC1683BCE, 0xCC2B1D17, 0xC8EA00A0, 0xD6AD50A5, 0xD26C4D12, 0xDF2F6BCB, 0xDBEE767C,
     0xE3A1CBC1, 0xE760D676, 0xEA23F0AF, 0xEEE2ED18, 0xF0A5BD1D, 0xF464A0AA, 0xF9278673, 0xFDE69BC4,
     0x89B8FD09, 0x8D79E0BE, 0x803AC667, 0x84FBDBD0, 0x9ABC8BD5, 0x9E7D9662, 0x933EB0BB, 0x97FFAD0C,
     0xAFB010B1, 0xAB710D06, 0xA6322BDF, 0xA2F33668, 0xBCB4666D, 0xB8757BDA, 0xB5365D03, 0xB1F740B4]"

definition final_xor_value :: u32 where
  "final_xor_value = 0xFFFFFFFF"

text \<open>\<open>bit\<close> counts up to \<open>n_bits\<close>; the data are shifted right in every round.\<close>

fun reflect_loop :: "nat \<Rightarrow> nat \<Rightarrow> u32 \<Rightarrow> u32 \<Rightarrow> u32" where
  "reflect_loop n_bits 0 data reflection = reflection"
| "reflect_loop n_bits (Suc left) data reflection =
     reflect_loop n_bits left (drop_bit 1 data)
       (if data AND 1 \<noteq> 0 then reflection OR push_bit left 1 else reflection)"

definition reflect :: "u32 \<Rightarrow> nat \<Rightarrow> u32" where
  "reflect data n_bits = reflect_loop n_bits n_bits data 0"

definition crc_step :: "u32 \<Rightarrow> u8 \<Rightarrow> u32" where
  "crc_step remainder b =
     (let data = reflect (ucast b) 8 XOR drop_bit 24 remainder in
      table_crc32 ! unat data XOR push_bit 8 remainder)"

definition crc32_hash :: "buffer \<Rightarrow> u32" where
  "crc32_hash input = reflect (foldl crc_step 0xFFFFFFFF input) 32 XOR final_xor_value"

section \<open>Division bit by bit\<close>

definition crc_bit :: "u32 \<Rightarrow> u32" where
  "crc_bit r = (if bit r 31 then push_bit 1 r XOR 0x04C11DB7 else push_bit 1 r)"

definition crc_byte :: "u32 \<Rightarrow> u8 \<Rightarrow> u32" where
  "crc_byte r b = (crc_bit ^^ 8) (r XOR push_bit 24 (reflect (ucast b) 8))"

definition crc32_bitwise :: "buffer \<Rightarrow> u32" where
  "crc32_bitwise input = reflect (foldl crc_byte 0xFFFFFFFF input) 32 XOR 0xFFFFFFFF"

lemma crc_bit_xor: "crc_bit (a XOR b) = crc_bit a XOR crc_bit b"
  by (rule bit_word_eqI) (auto simp: crc_bit_def bit_simps)

lemma crc_bits_xor: "(crc_bit ^^ n) (a XOR b) = (crc_bit ^^ n) a XOR (crc_bit ^^ n) b"
  by (induction n) (simp_all add: crc_bit_xor)

lemma crc_bits_shift:
  assumes "n \<le> 8" "\<And>i. 24 \<le> i \<Longrightarrow> \<not> bit r i"
  shows "(crc_bit ^^ n) r = push_bit n r"
  using assms(1)
proof (induction n)
  case (Suc n)
  have "\<not> bit (push_bit n r) 31" using assms(2) [of "31 - n"] Suc.prems by (simp add: bit_simps)
  with Suc show ?case by (simp add: crc_bit_def)
qed simp

text \<open>Entries at even places are one step beyond those at half the place; odd ones differ from them by
  the first entry.\<close>

fun halves :: "'a list \<Rightarrow> 'a list \<times> 'a list" where
  "halves (x # y # xs) = (case halves xs of (es, os) \<Rightarrow> (x # es, y # os))"
| "halves xs = (xs, [])"

lemma table_even: "map crc_bit (take 128 table_crc32) = fst (halves table_crc32)"
  unfolding table_crc32_def by (simp add: crc_bit_def)

lemma table_odd: "map (\<lambda>e. e XOR 0x04C11DB7) (fst (halves table_crc32)) = snd (halves table_crc32)"
  unfolding table_crc32_def by simp

lemma halves_nth:
  "2 * k < length xs \<Longrightarrow> fst (halves xs) ! k = xs ! (2 * k)"
  "2 * k + 1 < length xs \<Longrightarrow> snd (halves xs) ! k = xs ! (2 * k + 1)"
  by (induction xs arbitrary: k rule: halves.induct) (auto simp: nth_Cons split: prod.splits nat.splits)

lemma length_halves: "length (fst (halves xs)) = (length xs + 1) div 2"
  by (induction xs rule: halves.induct) (auto split: prod.splits)

lemma length_table [simp]: "length table_crc32 = 256"
  by (simp add: table_crc32_def)

lemma crc_bit_zero [simp]: "crc_bit 0 = 0"
  by (simp add: crc_bit_def)

lemma crc_bits_zero [simp]: "(crc_bit ^^ n) 0 = 0"
  by (induction n) simp_all

lemma crc_bits_one: "(crc_bit ^^ 8) (push_bit 24 1) = 0x04C11DB7"
  by code_simp

lemma table_entry: "i < 256 \<Longrightarrow> table_crc32 ! i = (crc_bit ^^ 8) (push_bit 24 (word_of_nat i))"
proof (induction i rule: less_induct)
  case (less i)
  define k where "k = i div 2"
  have k: "2 * k < 256" "k < 128" using less.prems by (simp_all add: k_def)
  have even: "table_crc32 ! (2 * k) = (crc_bit ^^ 8) (push_bit 24 (word_of_nat (2 * k)))"
  proof (cases "k = 0")
    case True
    then show ?thesis by (simp add: table_crc32_def)
  next
    case False
    then have IH: "table_crc32 ! k = (crc_bit ^^ 8) (push_bit 24 (word_of_nat k))"
      using less.prems by (intro less.IH) (simp_all add: k_def)
    let ?w = "word_of_nat k :: u32"
    have "take_bit 7 ?w = ?w" using k(2) by (simp add: take_bit_of_nat take_bit_nat_eq_self)
    then have "crc_bit (push_bit 24 (take_bit 7 ?w)) = crc_bit (push_bit 24 ?w)" by simp
    moreover have "crc_bit (push_bit 24 (take_bit 7 ?w)) = push_bit 24 (push_bit 1 (take_bit 7 ?w))"
    proof -
      have "\<not> bit (push_bit 24 (take_bit 7 ?w)) 31" by (simp add: bit_simps)
      then show ?thesis by (simp only: crc_bit_def if_False push_bit_push_bit add.commute)
    qed
    ultimately have step: "crc_bit (push_bit 24 ?w) = push_bit 24 (word_of_nat (2 * k))"
      using \<open>take_bit 7 ?w = ?w\<close> by (simp add: push_bit_eq_mult mult.commute)
    have "table_crc32 ! (2 * k) = map crc_bit (take 128 table_crc32) ! k"
      using k halves_nth(1) [of k table_crc32] by (simp add: table_even)
    also have "\<dots> = crc_bit ((crc_bit ^^ 8) (push_bit 24 ?w))" using k IH by simp
    also have "\<dots> = (crc_bit ^^ 8) (crc_bit (push_bit 24 ?w))" by (simp only: funpow_swap1)
    finally show ?thesis using step by simp
  qed
  show ?case
  proof (cases "even i")
    case True
    with even show ?thesis by (simp add: k_def)
  next
    case False
    then have i: "i = 2 * k + 1" by (simp add: k_def)
    have "word_of_nat i = word_of_nat (2 * k) XOR (1 :: u32)" by (simp add: i xor_one_eq)
    then have "push_bit 24 (word_of_nat i :: u32) = push_bit 24 (word_of_nat (2 * k)) XOR push_bit 24 1"
      by (simp only: push_bit_xor)
    moreover have "table_crc32 ! i = table_crc32 ! (2 * k) XOR 0x04C11DB7"
    proof -
      have "table_crc32 ! i = snd (halves table_crc32) ! k"
        using k i less.prems halves_nth(2) [of k table_crc32] by simp
      also have "\<dots> = fst (halves table_crc32) ! k XOR 0x04C11DB7"
        using k by (simp add: table_odd [symmetric] length_halves)
      also have "fst (halves table_crc32) ! k = table_crc32 ! (2 * k)"
        using k halves_nth(1) [of k table_crc32] by simp
      finally show ?thesis .
    qed
    ultimately show ?thesis using even by (simp only: crc_bits_xor crc_bits_one)
  qed
qed

lemma reflect_loop_bits: "bit (reflect_loop n left d r) i \<Longrightarrow> bit r i \<or> i < left"
proof (induction n left d r rule: reflect_loop.induct)
  case (2 n left d r)
  then show ?case by (auto simp: bit_simps less_Suc_eq split: if_splits)
qed simp

lemma crc_step_byte: "crc_step r b = crc_byte r b"
proof -
  let ?d = "reflect (ucast b) 8"
  let ?data = "?d XOR drop_bit 24 r"
  have d: "i < 8" if "bit ?d i" for i using reflect_loop_bits [of 8 8 "ucast b" 0 i] that by (simp add: reflect_def)
  have small: "i < 8" if "bit ?data i" for i
    using that d [of i] by (auto simp: bit_simps dest: bit_imp_le_length)
  then have "take_bit 8 ?data = ?data" by (intro bit_word_eqI) (auto simp: bit_simps)
  then have "unat ?data = unat (take_bit 8 ?data)" by (rule arg_cong [OF sym])
  also have "\<dots> = take_bit 8 (unat ?data)" by (rule unsigned_take_bit_eq)
  also have "\<dots> < 256" using take_bit_nat_less_exp [of 8 "unat ?data"] by simp
  finally have "unat ?data < 256" .
  then have "table_crc32 ! unat ?data = (crc_bit ^^ 8) (push_bit 24 ?data)" using table_entry [of "unat ?data"] by simp
  moreover have "push_bit 8 r = (crc_bit ^^ 8) (take_bit 24 r)"
  proof -
    have "(crc_bit ^^ 8) (take_bit 24 r) = push_bit 8 (take_bit 24 r)"
      by (intro crc_bits_shift) (auto simp: bit_simps)
    also have "\<dots> = push_bit 8 r" by (rule bit_word_eqI) (auto simp: bit_simps)
    finally show ?thesis by simp
  qed
  moreover have "r XOR push_bit 24 ?d = push_bit 24 ?data XOR take_bit 24 r"
    by (rule bit_word_eqI) (auto simp: bit_simps)
  ultimately show ?thesis by (simp add: crc_step_def crc_byte_def Let_def crc_bits_xor)
qed


end
