(* ===== verification/SyconHeavyHitters.thy ===== *)
theory SyconHeavyHitters
  imports SyconMaps SyconHash
begin

unbundle bit_operations_syntax

text \<open>
  The controllers' count-min sketch and table of heavy hitters
  (\<^verbatim>\<open>libsycon/src/data_structures/count_min_sketch.cpp\<close>, \<^verbatim>\<open>hh_table.cpp\<close>). The switch counts packets
  in registers and sends the keys that it counted often in a digest; the controller caches them in tables
  of the switch, each with an index of its own, and replaces one that was counted less often when it has
  no index left. The order of an unordered set and the random numbers are parameters; the threads that
  clear the counters are events.
\<close>

section \<open>Hashes\<close>

definition HASH_SALTS :: "u32 list" where
  "HASH_SALTS = [0xfbc31fc7, 0x2681580b, 0x486d7e2f, 0x1f3a2b4d, 0x7c5e9f8b, 0x3a2b4d1f,
     0x5e9f8b7c, 0x2b4d1f3a, 0x9f8b7c5e, 0xb4d1f3a2, 0x4d1f3a2b, 0x8b7c5e9f]"

function hash_size_loop :: "nat \<Rightarrow> nat" where
  "hash_size_loop capacity = (if capacity div 2 = 0 then 0 else Suc (hash_size_loop (capacity div 2)))"
  by pat_completeness auto
termination by (relation "measure (\<lambda>c. c)") auto

declare hash_size_loop.simps [simp del]

definition hash_size_from_capacity :: "nat \<Rightarrow> nat result" where
  "hash_size_from_capacity capacity =
     assert_that (capacity AND (capacity - 1) = 0) (Inr (hash_size_loop capacity))"

definition build_hash_mask :: "nat \<Rightarrow> u32 result" where
  "build_hash_mask width =
     rbind (hash_size_from_capacity width) (\<lambda>hash_size. Inr (ucast (push_bit hash_size (1 :: u64) - 1)))"

definition build_hash_salts :: "nat \<Rightarrow> buffer list result" where
  "build_hash_salts num_hashes = assert_that (num_hashes \<le> length HASH_SALTS) (rmap word_buffer (take num_hashes HASH_SALTS))"

definition calculate_hashes :: "buffer list \<Rightarrow> u32 \<Rightarrow> buffer \<Rightarrow> u32 list" where
  "calculate_hashes salts hash_mask key = map (\<lambda>salt. crc32_hash (buffer_append key salt) AND hash_mask) salts"

text \<open>The least of the greatest values in all pipes.\<close>

fun min_loop :: "'h sde \<Rightarrow> sw_register list \<Rightarrow> u32 list \<Rightarrow> u32 \<Rightarrow> 'h \<Rightarrow> u32 result" where
  "min_loop sde (rg # rgs) (x # xs) least h = rbind (get_max sde rg x h) (\<lambda>v. min_loop sde rgs xs (min least v) h)"
| "min_loop sde rgs xs least h = Inr least"

section \<open>Count-min sketches\<close>

record sycon_sketch =
  sk_rows :: "sw_register list"
  sk_height :: nat
  sk_width :: nat
  sk_salts :: "buffer list"
  sk_mask :: u32

definition new_sycon_sketch :: "'h sde \<Rightarrow> string list \<Rightarrow> sycon_sketch result" where
  "new_sycon_sketch sde names =
     assert_that (names \<noteq> [])
       (rbind (rmap (new_sw_register sde) names) (\<lambda>rows.
        let width = rg_capacity (last rows) mod 2 ^ 32 in
        assert_that (\<forall>row \<in> set rows. rg_capacity row = width)
          (rbind (build_hash_salts (length rows)) (\<lambda>salts.
           rbind (build_hash_mask width) (\<lambda>m.
           Inr \<lparr>sk_rows = rows, sk_height = length names, sk_width = width, sk_salts = salts, sk_mask = m\<rparr>)))))"

definition sketch_count_min :: "'h sde \<Rightarrow> sycon_sketch \<Rightarrow> buffer \<Rightarrow> 'h \<Rightarrow> u32 result" where
  "sketch_count_min sde sk key h = min_loop sde (sk_rows sk) (calculate_hashes (sk_salts sk) (sk_mask sk) key) (- 1) h"

fun clear_registers :: "'h sde \<Rightarrow> sw_register list \<Rightarrow> 'h \<Rightarrow> 'h result" where
  "clear_registers sde [] h = Inr h"
| "clear_registers sde (rg # rgs) h = rbind (overwrite_all_entries sde rg 0 h) (clear_registers sde rgs)"

definition sketch_cleanup :: "'h sde \<Rightarrow> sycon_sketch \<Rightarrow> 'h \<Rightarrow> 'h result" where
  "sketch_cleanup sde sk h = clear_registers sde (sk_rows sk) h"

section \<open>The table of heavy hitters\<close>

definition TOTAL_PROBES :: nat where
  "TOTAL_PROBES = 50"

definition THRESHOLD :: u32 where
  "THRESHOLD = 128"

record sycon_hh =
  hh_tables :: "sw_table list"
  hh_counters :: sw_register
  hh_sketch :: "sw_register list"
  hh_capacity :: nat
  hh_salts :: "buffer list"
  hh_mask :: u32
  hh_key_to_index :: "(buffer \<times> u32) list"
  hh_index_to_key :: "(u32 \<times> buffer) list"
  hh_free :: "u32 list"
  hh_used :: "u32 list"
  hh_reports :: "buffer reports"

definition table_key_bits :: "sw_table \<Rightarrow> nat" where
  "table_key_bits tb = sum_list (map tf_size (ta_key_fields tb))"

definition new_sycon_hh ::
  "'h sde \<Rightarrow> string list \<Rightarrow> string \<Rightarrow> string list \<Rightarrow> string \<Rightarrow> u64 \<Rightarrow> 'h \<Rightarrow> (sycon_hh \<times> 'h) result" where
  "new_sycon_hh sde names counters_name sketch_names threshold_name timeout h =
     assert_that (names \<noteq> []) (rbind (rmap (new_sw_table sde) names) (\<lambda>tbs.
     rbind (new_sw_register sde counters_name) (\<lambda>counters.
     assert_that (sketch_names \<noteq> []) (rbind (rmap (new_sw_register sde) sketch_names) (\<lambda>sketch.
     rbind (new_sw_register sde threshold_name) (\<lambda>threshold.
     let capacity = get_effective_capacity (last tbs) mod 2 ^ 32; width = rg_capacity (hd sketch) in
     assert_that (\<forall>tb \<in> set tbs. get_effective_capacity tb = capacity)
       (assert_that (\<forall>tb \<in> set tbs. table_key_bits tb = table_key_bits (last tbs))
         (rbind (build_hash_salts (length sketch)) (\<lambda>salts.
          rbind (build_hash_mask width) (\<lambda>m.
          assert_that (\<forall>rg \<in> set sketch. rg_capacity rg = width)
            (assert_that (length salts = length sketch)
              (rbind (set_register sde threshold 0 THRESHOLD h) (\<lambda>h.
               rbind (notify_tables sde timeout tbs h) (\<lambda>(tbs, h).
               Inr (\<lparr>hh_tables = tbs, hh_counters = counters, hh_sketch = sketch, hh_capacity = capacity,
                 hh_salts = salts, hh_mask = m, hh_key_to_index = [], hh_index_to_key = [],
                 hh_free = map word_of_nat [0..<capacity], hh_used = [], hh_reports = []\<rparr>, h)))))))))))))))"

definition hh_get :: "sycon_hh \<Rightarrow> buffer \<Rightarrow> u32 option" where
  "hh_get T k = map_of (hh_key_to_index T) k"

definition hh_is_index_allocated :: "sycon_hh \<Rightarrow> u32 \<Rightarrow> bool" where
  "hh_is_index_allocated T i \<longleftrightarrow> i \<in> set (hh_used T)"

text \<open>The member \<^verbatim>\<open>insert\<close> of an unordered map leaves a key that is there.\<close>

definition map_insert :: "'k \<Rightarrow> 'v \<Rightarrow> ('k \<times> 'v) list \<Rightarrow> ('k \<times> 'v) list" where
  "map_insert k v xs = (case map_of xs k of None \<Rightarrow> (k, v) # xs | Some _ \<Rightarrow> xs)"

text \<open>The loop of \<^verbatim>\<open>insert\<close> returns at the first table that refuses.\<close>

fun try_tables :: "'h sde \<Rightarrow> buffer \<Rightarrow> buffer \<Rightarrow> sw_table list \<Rightarrow> 'h \<Rightarrow> (bool \<times> 'h) result" where
  "try_tables sde key param [] h = Inr (True, h)"
| "try_tables sde key param (tb # tbs) h =
     assert_that (length (ta_actions tb) = 1)
       (rbind (try_add_entry sde tb key (Some (fst (hd (ta_actions tb)), [param])) h) (\<lambda>(h, ok).
        if ok then try_tables sde key param tbs h else Inr (False, h)))"

text \<open>\<open>pick\<close> gives the first element of the unordered set.\<close>

definition hh_insert ::
  "'h sde \<Rightarrow> (u32 list \<Rightarrow> u32) \<Rightarrow> buffer \<Rightarrow> sycon_hh \<times> 'h \<Rightarrow> (bool \<times> sycon_hh \<times> 'h) result" where
  "hh_insert sde pick key = (\<lambda>(T, h).
     if map_of (hh_key_to_index T) key \<noteq> None then Inr (False, T, h)
     else if hh_free T = [] then Inr (False, T, h)
     else
       let i = pick (hh_free T) in
       rbind (word_buffer i) (\<lambda>param.
       rbind (try_tables sde key param (hh_tables T) h) (\<lambda>(ok, h).
       if \<not> ok then Inr (False, T, h)
       else rbind (set_register sde (hh_counters T) i 0 h) (\<lambda>h.
         Inr (True,
           T\<lparr>hh_free := removeAll i (hh_free T), hh_used := List.insert i (hh_used T),
             hh_index_to_key := map_insert i key (hh_index_to_key T),
             hh_key_to_index := map_insert key i (hh_key_to_index T)\<rparr>, h)))))"

definition replace_entry :: "'h sde \<Rightarrow> buffer \<Rightarrow> buffer \<Rightarrow> buffer \<Rightarrow> sw_table \<Rightarrow> 'h \<Rightarrow> 'h result" where
  "replace_entry sde old_key key param tb h =
     assert_that (length (ta_actions tb) = 1)
       (rbind (del_entry sde tb old_key h) (add_entry sde tb key (Some (fst (hd (ta_actions tb)), [param]))))"

definition hh_replace :: "'h sde \<Rightarrow> u32 \<Rightarrow> buffer \<Rightarrow> sycon_hh \<times> 'h \<Rightarrow> (sycon_hh \<times> 'h) result" where
  "hh_replace sde i key = (\<lambda>(T, h).
     assert_that (map_of (hh_key_to_index T) key = None)
       (case map_of (hh_index_to_key T) i of
          None \<Rightarrow> Inl Assert_Failed
        | Some old_key \<Rightarrow>
            if old_key = key then Inr (T, h)
            else
              rbind (word_buffer i) (\<lambda>param.
              rbind (for_tables (replace_entry sde old_key key param) (hh_tables T) h) (\<lambda>h.
              rbind (set_register sde (hh_counters T) i 0 h) (\<lambda>h.
              Inr (T\<lparr>hh_index_to_key := AList.update i key (hh_index_to_key T),
                hh_key_to_index := map_insert key i (AList.delete old_key (hh_key_to_index T))\<rparr>, h))))))"

definition hh_remove :: "'h sde \<Rightarrow> buffer \<Rightarrow> sycon_hh \<times> 'h \<Rightarrow> (sycon_hh \<times> 'h) result" where
  "hh_remove sde key = (\<lambda>(T, h).
     case map_of (hh_key_to_index T) key of
       None \<Rightarrow> Inr (T, h)
     | Some i \<Rightarrow> rbind (for_tables (\<lambda>tb. del_entry sde tb key) (hh_tables T) h) (\<lambda>h.
         Inr (T\<lparr>hh_key_to_index := AList.delete key (hh_key_to_index T),
           hh_index_to_key := AList.delete i (hh_index_to_key T),
           hh_free := List.insert i (hh_free T), hh_used := removeAll i (hh_used T)\<rparr>, h)))"

definition hh_cms_get_min :: "'h sde \<Rightarrow> sycon_hh \<Rightarrow> u32 list \<Rightarrow> 'h \<Rightarrow> u32 result" where
  "hh_cms_get_min sde T hashes h =
     assert_that (length hashes = length (hh_sketch T)) (min_loop sde (hh_sketch T) hashes (- 1) h)"

text \<open>The loop of \<^verbatim>\<open>probabilistic_replace\<close>: \<open>i\<close> counts up, \<open>rand i\<close> is the random number of the round.\<close>

fun probe_loop ::
  "'h sde \<Rightarrow> buffer \<Rightarrow> u32 \<Rightarrow> (nat \<Rightarrow> nat) \<Rightarrow> nat \<Rightarrow> nat \<Rightarrow> nat \<Rightarrow> sycon_hh \<times> 'h \<Rightarrow> (sycon_hh \<times> 'h) result" where
  "probe_loop sde key counter rand n_used i 0 S = Inr S"
| "probe_loop sde key counter rand n_used i (Suc left) (T, h) =
     (if n_used = 0 then Inl Undefined
      else
        let probe = word_of_nat (rand i mod n_used) in
        case map_of (hh_index_to_key T) probe of
          None \<Rightarrow> Inl Assert_Failed
        | Some probe_key \<Rightarrow>
            rbind (get_max sde (hh_counters T) probe h) (\<lambda>probe_counter.
            if counter > probe_counter then
              (case map_of (hh_key_to_index T) probe_key of
                 None \<Rightarrow> Inl Out_Of_Range
               | Some j \<Rightarrow> hh_replace sde j key (T, h))
            else probe_loop sde key counter rand n_used (Suc i) left (T, h)))"

definition hh_probabilistic_replace ::
  "'h sde \<Rightarrow> (nat \<Rightarrow> nat) \<Rightarrow> buffer \<Rightarrow> sycon_hh \<times> 'h \<Rightarrow> (sycon_hh \<times> 'h) result" where
  "hh_probabilistic_replace sde rand key = (\<lambda>(T, h).
     rbind (hh_cms_get_min sde T (calculate_hashes (hh_salts T) (hh_mask T) key) h) (\<lambda>counter.
     probe_loop sde key counter rand (length (hh_used T)) 0 TOTAL_PROBES (T, h)))"

definition hh_clear_counters :: "'h sde \<Rightarrow> sycon_hh \<times> 'h \<Rightarrow> (sycon_hh \<times> 'h) result" where
  "hh_clear_counters sde = (\<lambda>(T, h).
     rbind (clear_registers sde (hh_sketch T) h) (\<lambda>h.
     rbind (overwrite_all_entries sde (hh_counters T) 0 h) (\<lambda>h. Inr (T, h))))"

definition hh_expire :: "'h sde \<Rightarrow> string \<Rightarrow> field_value list \<Rightarrow> sycon_hh \<times> 'h \<Rightarrow> (sycon_hh \<times> 'h) result" where
  "hh_expire sde name vs = (\<lambda>(T, h).
     rbind (find_target (hh_tables T) name) (\<lambda>tb.
     rbind (get_key_value tb vs) (\<lambda>k.
     let T = T\<lparr>hh_reports := add_report k name (hh_reports T)\<rparr> in
     if length (reported (hh_reports T) k) = length (hh_tables T)
     then rbind (hh_remove sde k (T, h)) (\<lambda>(T, h). Inr (T\<lparr>hh_reports := AList.delete k (hh_reports T)\<rparr>, h))
     else Inr (T, h))))"

text \<open>A digest has several keys; each comes with the random numbers that are drawn for it.\<close>

fun hh_digest ::
  "'h sde \<Rightarrow> (u32 list \<Rightarrow> u32) \<Rightarrow> (buffer \<times> (nat \<Rightarrow> nat)) list \<Rightarrow> sycon_hh \<times> 'h \<Rightarrow> (sycon_hh \<times> 'h) result" where
  "hh_digest sde pick [] S = Inr S"
| "hh_digest sde pick ((key, rand) # keys) (T, h) =
     (if map_of (hh_key_to_index T) key \<noteq> None then hh_digest sde pick keys (T, h)
      else
        rbind
          (if hh_free T \<noteq> [] then rbind (hh_insert sde pick key (T, h)) (\<lambda>(_, S). Inr S)
           else hh_probabilistic_replace sde rand key (T, h))
          (hh_digest sde pick keys))"

section \<open>Hashes stay below the width\<close>

lemma hash_size_power: "hash_size_loop (2 ^ k) = k"
proof (induction k)
  case 0
  show ?case by (subst hash_size_loop.simps) simp
next
  case (Suc k)
  then show ?case by (subst hash_size_loop.simps) simp
qed

lemma hash_mask_power:
  assumes "k \<le> 32"
  shows "build_hash_mask (2 ^ k) = Inr (mask k)"
proof -
  have "(2 ^ k :: nat) AND (2 ^ k - 1) = 2 ^ k AND mask k" by (simp add: mask_eq_exp_minus_1)
  also have "\<dots> = 0" by (simp add: take_bit_eq_mask [symmetric])
  finally have "hash_size_from_capacity (2 ^ k) = Inr k" by (simp add: hash_size_from_capacity_def hash_size_power)
  moreover have "ucast (push_bit k (1 :: u64) - 1) = (mask k :: u32)"
  proof -
    have "push_bit k (1 :: u64) - 1 = mask k" by (simp add: mask_eq_exp_minus_1 push_bit_eq_mult)
    then show ?thesis using assms by (simp only:) (rule bit_word_eqI, auto simp: bit_simps)
  qed
  ultimately show ?thesis by (simp add: build_hash_mask_def)
qed

lemma hashes_below_width:
  assumes "k < 32" "x \<in> set (calculate_hashes salts (mask k) key)"
  shows "unat x < 2 ^ k"
proof -
  obtain y where "x = take_bit k y" using assms(2) by (auto simp: calculate_hashes_def take_bit_eq_mask)
  then have "unat x = take_bit k (unat y)" by (simp only: unsigned_take_bit_eq)
  then show ?thesis by (simp add: take_bit_nat_less_exp)
qed

end
