(* ===== verification/SyconHeavyHittersCorrect.thy ===== *)
theory SyconHeavyHittersCorrect
  imports SyconHeavyHitters
begin

text \<open>
  The table of heavy hitters keeps its two maps inverse to each other, its indexes either free or used,
  and the tables of the switch equal to its cache, whatever digests and reports arrive.
\<close>

section \<open>The invariant\<close>

definition hh_wf :: "nat \<Rightarrow> sycon_hh \<Rightarrow> bool" where
  "hh_wf n T \<longleftrightarrow>
     (\<forall>k i. map_of (hh_key_to_index T) k = Some i \<longleftrightarrow> map_of (hh_index_to_key T) i = Some k) \<and>
     (\<forall>k \<in> dom (map_of (hh_key_to_index T)). length k = n) \<and>
     distinct (hh_used T) \<and> set (hh_used T) = dom (map_of (hh_index_to_key T)) \<and>
     set (hh_used T) \<union> set (hh_free T) = {i. unat i < hh_capacity T} \<and> set (hh_used T) \<inter> set (hh_free T) = {}"

lemma hh_wfD:
  assumes "hh_wf n T"
  shows "map_of (hh_key_to_index T) k = Some i \<longleftrightarrow> map_of (hh_index_to_key T) i = Some k"
    "\<forall>k \<in> dom (map_of (hh_key_to_index T)). length k = n" "distinct (hh_used T)"
    "set (hh_used T) = dom (map_of (hh_index_to_key T))"
    "set (hh_used T) \<union> set (hh_free T) = {i. unat i < hh_capacity T}" "set (hh_used T) \<inter> set (hh_free T) = {}"
  using assms unfolding hh_wf_def by blast+

lemma hh_wfI:
  assumes "\<And>k i. map_of (hh_key_to_index T) k = Some i \<longleftrightarrow> map_of (hh_index_to_key T) i = Some k"
    "\<And>k. k \<in> dom (map_of (hh_key_to_index T)) \<Longrightarrow> length k = n" "distinct (hh_used T)"
    "set (hh_used T) = dom (map_of (hh_index_to_key T))"
    "set (hh_used T) \<union> set (hh_free T) = {i. unat i < hh_capacity T}" "set (hh_used T) \<inter> set (hh_free T) = {}"
  shows "hh_wf n T"
  unfolding hh_wf_def using assms by blast

definition hh_rel :: "'h switch_contents \<Rightarrow> nat \<Rightarrow> sycon_hh \<times> 'h \<Rightarrow> bool" where
  "hh_rel c n = (\<lambda>(T, h). hh_wf n T \<and> tables_hold_map c h n (hh_tables T) (map_of (hh_key_to_index T)))"

text \<open>What no operation changes.\<close>

definition hh_frame :: "sycon_hh \<Rightarrow> sycon_hh \<Rightarrow> bool" where
  "hh_frame T T' \<longleftrightarrow> hh_tables T' = hh_tables T \<and> hh_capacity T' = hh_capacity T \<and> hh_sketch T' = hh_sketch T \<and>
     hh_salts T' = hh_salts T \<and> hh_mask T' = hh_mask T \<and> hh_counters T' = hh_counters T"

lemma hh_frame_refl [simp]: "hh_frame T T"
  by (simp add: hh_frame_def)

lemma hh_frame_trans: "hh_frame T T1 \<Longrightarrow> hh_frame T1 T2 \<Longrightarrow> hh_frame T T2"
  by (simp add: hh_frame_def)

definition reads_registers :: "'h sde \<Rightarrow> bool" where
  "reads_registers sde \<longleftrightarrow> (\<forall>h r i. register_read sde h r i \<noteq> None \<and> register_read sde h r i \<noteq> Some [])"

text \<open>The driver and the tables that a table of heavy hitters is built on.\<close>

definition hh_env :: "'h sde \<Rightarrow> 'h switch_contents \<Rightarrow> (string \<Rightarrow> nat) \<Rightarrow> nat \<Rightarrow> sycon_hh \<Rightarrow> bool" where
  "hh_env sde c room n T \<longleftrightarrow> driver_ok sde c room \<and> writes_registers sde \<and> reads_registers sde \<and>
     value_tables sde n room (hh_capacity T) (hh_tables T) \<and> 0 < hh_capacity T \<and> hh_capacity T < 2 ^ 32 \<and>
     length (hh_salts T) = length (hh_sketch T)"

lemma hh_env_frame: "hh_env sde c room n T \<Longrightarrow> hh_frame T T' \<Longrightarrow> hh_env sde c room n T'"
  by (simp add: hh_env_def hh_frame_def)

lemma map_of_map_insert: "map_of xs k = None \<Longrightarrow> map_of (map_insert k v xs) = (map_of xs)(k \<mapsto> v)"
  by (simp add: map_insert_def)

text \<open>Keys and indexes correspond one to one.\<close>

lemma hh_card:
  assumes "hh_wf n T"
  shows "card (dom (map_of (hh_key_to_index T))) = card (set (hh_used T))"
proof -
  let ?m = "map_of (hh_key_to_index T)" and ?im = "map_of (hh_index_to_key T)"
  have inv: "?m k = Some i \<longleftrightarrow> ?im i = Some k" for k i by (rule hh_wfD(1) [OF assms])
  have "inj_on (\<lambda>k. the (?m k)) (dom ?m)"
  proof (rule inj_onI)
    fix k k' assume "k \<in> dom ?m" "k' \<in> dom ?m" "the (?m k) = the (?m k')"
    then obtain i where "?m k = Some i" "?m k' = Some i" by auto
    then show "k = k'" using inv by (metis option.inject)
  qed
  moreover have "(\<lambda>k. the (?m k)) ` dom ?m = dom ?im"
  proof (intro set_eqI iffI)
    fix i assume "i \<in> (\<lambda>k. the (?m k)) ` dom ?m"
    then obtain k where "?m k = Some i" by auto
    with inv show "i \<in> dom ?im" by blast
  next
    fix i assume "i \<in> dom ?im"
    then obtain k where "?im i = Some k" by blast
    with inv have "?m k = Some i" by blast
    then show "i \<in> (\<lambda>k. the (?m k)) ` dom ?m" by (intro image_eqI [of _ _ k]) auto
  qed
  ultimately have "card (dom ?m) = card (dom ?im)" using card_image by fastforce
  then show ?thesis by (simp only: hh_wfD(4) [OF assms])
qed

lemma card_below: "c < 2 ^ 32 \<Longrightarrow> card {i :: u32. unat i < c} = c"
proof -
  assume c: "c < 2 ^ 32"
  have u: "unat (word_of_nat i :: u32) = i" if "i < c" for i
    using that c by (simp add: unsigned_of_nat take_bit_nat_eq_self)
  have "{i :: u32. unat i < c} = word_of_nat ` {..<c}"
  proof (intro set_eqI iffI)
    fix i :: u32 assume "i \<in> {i. unat i < c}"
    then show "i \<in> word_of_nat ` {..<c}" by (intro image_eqI [of _ _ "unat i"]) simp_all
  next
    fix i :: u32 assume "i \<in> word_of_nat ` {..<c}"
    then show "i \<in> {i. unat i < c}" using u by auto
  qed
  moreover have "inj_on (word_of_nat :: nat \<Rightarrow> u32) {..<c}"
    by (rule inj_onI) (metis u lessThan_iff)
  ultimately show ?thesis by (simp add: card_image)
qed

lemma hh_used_length: "hh_wf n T \<Longrightarrow> length (hh_used T) = card (set (hh_used T))"
  by (rule distinct_card [symmetric]) (rule hh_wfD(3))

lemma hh_room:
  assumes "hh_wf n T" "hh_capacity T < 2 ^ 32" "hh_free T \<noteq> []"
  shows "card (dom (map_of (hh_key_to_index T))) < hh_capacity T"
proof -
  have u: "set (hh_used T) \<union> set (hh_free T) = {i. unat i < hh_capacity T}" "set (hh_used T) \<inter> set (hh_free T) = {}"
    by (rule hh_wfD [OF assms(1)])+
  obtain i where "i \<in> set (hh_free T)" using assms(3) by (cases "hh_free T") auto
  then have "set (hh_used T) \<subset> {i. unat i < hh_capacity T}" using u by blast
  then have "card (set (hh_used T)) < card {i :: u32. unat i < hh_capacity T}" by (intro psubset_card_mono) auto
  then show ?thesis using hh_card [OF assms(1)] card_below [OF assms(2)] by simp
qed

lemma hh_full:
  assumes "hh_wf n T" "hh_capacity T < 2 ^ 32" "hh_free T = []"
  shows "length (hh_used T) = hh_capacity T" "set (hh_used T) = {i. unat i < hh_capacity T}"
    "card (dom (map_of (hh_key_to_index T))) = hh_capacity T"
proof -
  show u: "set (hh_used T) = {i. unat i < hh_capacity T}" using hh_wfD(5) [OF assms(1)] assms(3) by simp
  then show "length (hh_used T) = hh_capacity T"
    using hh_used_length [OF assms(1)] card_below [OF assms(2)] by simp
  show "card (dom (map_of (hh_key_to_index T))) = hh_capacity T"
    using hh_card [OF assms(1)] u card_below [OF assms(2)] by simp
qed

section \<open>Registers\<close>

lemma get_max_ok:
  assumes "reads_registers sde"
  shows "\<exists>v. get_max sde rg i h = Inr v"
proof -
  have "register_read sde h (rg_name rg) i \<noteq> None" "register_read sde h (rg_name rg) i \<noteq> Some []"
    using assms [unfolded reads_registers_def, rule_format, of h "rg_name rg" i] by simp_all
  then obtain vs where "register_read sde h (rg_name rg) i = Some vs" "vs \<noteq> []" by blast
  then show ?thesis by (simp add: get_max_def get_per_pipe_def)
qed

lemma min_loop_ok: "reads_registers sde \<Longrightarrow> \<exists>v. min_loop sde rgs xs least h = Inr v"
proof (induction sde rgs xs least h rule: min_loop.induct)
  case (1 sde rg rgs x xs least h)
  obtain v where "get_max sde rg x h = Inr v" using get_max_ok [OF 1(2), of rg x h] by blast
  with 1 show ?case by simp
qed auto

lemma overwrite_ok:
  assumes "driver_ok sde c room" "writes_registers sde"
  shows "\<exists>h'. overwrite_loop sde rg v ns h = Inr h' \<and> c h' = c h"
proof (induction ns arbitrary: h)
  case (Cons i ns)
  obtain h1 where "set_register sde rg (word_of_nat i) v h = Inr h1" "c h1 = c h"
    using set_register_ok [OF assms] by blast
  with Cons [of h1] show ?case by auto
qed simp

lemma clear_registers_ok:
  assumes "driver_ok sde c room" "writes_registers sde"
  shows "\<exists>h'. clear_registers sde rgs h = Inr h' \<and> c h' = c h"
proof (induction rgs arbitrary: h)
  case (Cons rg rgs)
  obtain h1 where "overwrite_all_entries sde rg 0 h = Inr h1" "c h1 = c h"
    using overwrite_ok [OF assms] unfolding overwrite_all_entries_def by blast
  with Cons [of h1] show ?case by auto
qed simp

lemma tables_hold_map_contents: "c h' = c h \<Longrightarrow> tables_hold_map c h' n tbs m = tables_hold_map c h n tbs m"
  by (simp add: tables_hold_map_def tables_hold_def)

section \<open>Entries\<close>

lemma add_value_step:
  assumes "driver_ok sde c room" "value_table sde n tb" "table_holds n tb (\<lambda>k. map_option (value_entry tb) (m k)) (c h (ta_name tb))"
    "length k = n" "\<forall>k \<in> dom m. length k = n" "m k = None" "card (dom m) < room (ta_name tb)"
  shows "\<exists>h'. entry_add sde h (ta_name tb) (key_values (ta_key_fields tb) k) (value_entry tb v) = Some h' \<and>
    entry_stored c h (ta_name tb) (key_values (ta_key_fields tb) k) (Some (value_entry tb v)) h'"
proof -
  have "card (dom (c h (ta_name tb))) = card (dom m)"
    using table_holds_card [OF value_tableD(1) [OF assms(2)] assms(3)] assms(5) by (simp add: dom_def)
  moreover have "c h (ta_name tb) (key_values (ta_key_fields tb) k) = None"
    using assms(3,4,6) by (simp add: table_holds_def)
  moreover have "card (dom (c h (ta_name tb))) < room (ta_name tb)" using calculation(1) assms(7) by simp
  ultimately show ?thesis using assms(1) unfolding driver_ok_def takes_entries_def by blast
qed

lemma write_value:
  "value_table sde n tb \<Longrightarrow> length k = n \<Longrightarrow>
    write_entry sde call tb k (Some (fst (hd (ta_actions tb)), [split_bytes 4 (ucast v)])) h =
      Inr (call h (ta_name tb) (key_values (ta_key_fields tb) k) (value_entry tb v))"
  using value_tableD(1) [of sde n tb] value_tableD(3) [of sde n tb v] set_key_ok [of sde n tb k] by (simp add: write_entry_def)

definition try_or_fail :: "'h sde \<Rightarrow> buffer \<Rightarrow> buffer \<Rightarrow> sw_table \<Rightarrow> 'h \<Rightarrow> 'h result" where
  "try_or_fail sde key param tb h =
     assert_that (length (ta_actions tb) = 1)
       (rbind (try_add_entry sde tb key (Some (fst (hd (ta_actions tb)), [param])) h) (\<lambda>(h, ok).
        if ok then Inr h else Inl Panicked))"

lemma try_tables_for:
  "for_tables (try_or_fail sde key param) tbs h = Inr h' \<Longrightarrow> try_tables sde key param tbs h = Inr (True, h')"
  by (induction tbs arbitrary: h) (auto simp: try_or_fail_def rbind_eq_Inr assert_that_eq_Inr split: if_splits)

lemma try_tables_ok:
  assumes "driver_ok sde c room" "value_tables sde n room capacity tbs" "tables_hold_map c h n tbs m"
    "length k = n" "\<forall>k \<in> dom m. length k = n" "m k = None" "card (dom m) < capacity"
  shows "\<exists>h'. try_tables sde k (split_bytes 4 (ucast v)) tbs h = Inr (True, h') \<and> tables_hold_map c h' n tbs (m(k \<mapsto> v))"
proof -
  have step: "\<exists>h'. try_or_fail sde k (split_bytes 4 (ucast v)) tb h = Inr h' \<and>
      entry_stored c h (ta_name tb) (key_values (ta_key_fields tb) k) (Some (value_entry tb v)) h'"
    if tb: "tb \<in> set tbs" "table_holds n tb (\<lambda>k. map_option (value_entry tb) (m k)) (c h (ta_name tb))" for tb h
  proof -
    have V: "value_table sde n tb" "capacity \<le> room (ta_name tb)" using assms(2) tb(1) by (auto simp: value_tables_def)
    obtain h' where "entry_add sde h (ta_name tb) (key_values (ta_key_fields tb) k) (value_entry tb v) = Some h'"
      "entry_stored c h (ta_name tb) (key_values (ta_key_fields tb) k) (Some (value_entry tb v)) h'"
      using add_value_step [OF assms(1) V(1) tb(2) assms(4,5,6)] assms(7) V(2) by fastforce
    then show ?thesis
      using value_tableD(2) [OF V(1)] by (simp add: try_or_fail_def try_add_entry_def write_value [OF V(1) assms(4)])
  qed
  have "\<exists>h'. for_tables (try_or_fail sde k (split_bytes 4 (ucast v))) tbs h = Inr h' \<and>
      tables_hold c h' n tbs (\<lambda>tb. (\<lambda>k. map_option (value_entry tb) (m k))(k := map_option (value_entry tb) (Some v))) \<and>
      (\<forall>t. t \<notin> ta_name ` set tbs \<longrightarrow> c h' t = c h t)"
    using step assms(3) unfolding tables_hold_map_def
    by (intro for_tables_store [OF value_tables_good [OF assms(2)] _ assms(4)]) simp_all
  then obtain h' where h': "for_tables (try_or_fail sde k (split_bytes 4 (ucast v))) tbs h = Inr h'"
    "tables_hold c h' n tbs (\<lambda>tb k'. map_option (value_entry tb) ((m(k \<mapsto> v)) k'))"
    unfolding map_option_upd by blast
  show ?thesis using try_tables_for [OF h'(1)] h'(2) by (auto simp: tables_hold_map_def)
qed

section \<open>Operations keep the invariant\<close>

lemma hh_insert_ok:
  assumes "hh_env sde c room n T" "hh_rel c n (T, h)" "length key = n" "map_of (hh_key_to_index T) key = None"
    "hh_free T \<noteq> []" "pick (hh_free T) \<in> set (hh_free T)"
  shows "\<exists>T' h'. hh_insert sde pick key (T, h) = Inr (True, T', h') \<and> hh_rel c n (T', h') \<and> hh_frame T T'"
proof -
  let ?i = "pick (hh_free T)" and ?m = "map_of (hh_key_to_index T)" and ?im = "map_of (hh_index_to_key T)"
  have D: "driver_ok sde c room" "writes_registers sde" "value_tables sde n room (hh_capacity T) (hh_tables T)"
    "hh_capacity T < 2 ^ 32" using assms(1) by (simp_all add: hh_env_def)
  have W: "hh_wf n T" "tables_hold_map c h n (hh_tables T) ?m" using assms(2) by (simp_all add: hh_rel_def)
  obtain h1 where h1: "try_tables sde key (split_bytes 4 (ucast ?i)) (hh_tables T) h = Inr (True, h1)"
    "tables_hold_map c h1 n (hh_tables T) (?m(key \<mapsto> ?i))"
    using try_tables_ok [OF D(1,3) W(2) assms(3) hh_wfD(2) [OF W(1)] assms(4) hh_room [OF W(1) D(4) assms(5)], of ?i] by blast
  obtain h2 where h2: "set_register sde (hh_counters T) ?i 0 h1 = Inr h2" "c h2 = c h1"
    using set_register_ok [OF D(1,2)] by blast
  have u: "?i \<notin> set (hh_used T)" "unat ?i < hh_capacity T" using hh_wfD(5,6) [OF W(1)] assms(6) by auto
  have none: "?im ?i = None" using u(1) hh_wfD(4) [OF W(1)] by (simp add: domIff)
  let ?T = "T\<lparr>hh_free := removeAll ?i (hh_free T), hh_used := List.insert ?i (hh_used T),
    hh_index_to_key := map_insert ?i key (hh_index_to_key T), hh_key_to_index := map_insert key ?i (hh_key_to_index T)\<rparr>"
  have maps: "map_of (hh_key_to_index ?T) = ?m(key \<mapsto> ?i)" "map_of (hh_index_to_key ?T) = ?im(?i \<mapsto> key)"
    using assms(4) none by (simp_all add: map_of_map_insert)
  have inv: "(?m(key \<mapsto> ?i)) k = Some i \<longleftrightarrow> (?im(?i \<mapsto> key)) i = Some k" for k i
    using hh_wfD(1) [OF W(1), of k i] assms(4) none by (cases "k = key"; cases "i = ?i") simp_all
  have sets: "set (hh_used ?T) \<union> set (hh_free ?T) = {i. unat i < hh_capacity ?T}" "set (hh_used ?T) \<inter> set (hh_free ?T) = {}"
    using hh_wfD(5,6) [OF W(1)] assms(6) by auto
  have "hh_wf n ?T"
  proof (rule hh_wfI)
    show "map_of (hh_key_to_index ?T) k = Some i \<longleftrightarrow> map_of (hh_index_to_key ?T) i = Some k" for k i
      unfolding maps by (rule inv)
    show "length k = n" if "k \<in> dom (map_of (hh_key_to_index ?T))" for k
      using that hh_wfD(2) [OF W(1)] assms(3) unfolding maps by (cases "k = key") auto
    show "set (hh_used ?T) = dom (map_of (hh_index_to_key ?T))"
      unfolding maps using hh_wfD(4) [OF W(1)] by simp
    show "distinct (hh_used ?T)" using hh_wfD(3) [OF W(1)] by simp
  qed (rule sets)+
  moreover have "tables_hold_map c h2 n (hh_tables ?T) (map_of (hh_key_to_index ?T))"
    unfolding maps(1) tables_hold_map_contents [OF h2(2)] using h1(2) by simp
  ultimately have "hh_rel c n (?T, h2)" by (simp add: hh_rel_def)
  moreover have "hh_insert sde pick key (T, h) = Inr (True, ?T, h2)"
    using assms(4,5) h1(1) h2(1) by (simp add: hh_insert_def Let_def)
  ultimately show ?thesis by (auto simp: hh_frame_def)
qed

lemma hh_remove_ok:
  assumes "hh_env sde c room n T" "hh_rel c n (T, h)" "length key = n"
  shows "\<exists>T' h'. hh_remove sde key (T, h) = Inr (T', h') \<and> hh_rel c n (T', h') \<and> hh_frame T T'"
proof (cases "map_of (hh_key_to_index T) key")
  case None
  with assms(2) show ?thesis by (auto simp: hh_remove_def)
next
  case (Some i)
  let ?m = "map_of (hh_key_to_index T)" and ?im = "map_of (hh_index_to_key T)"
  have D: "driver_ok sde c room" "value_tables sde n room (hh_capacity T) (hh_tables T)"
    using assms(1) by (simp_all add: hh_env_def)
  have W: "hh_wf n T" "tables_hold_map c h n (hh_tables T) ?m" using assms(2) by (simp_all add: hh_rel_def)
  obtain h1 where h1: "for_tables (\<lambda>tb. del_entry sde tb key) (hh_tables T) h = Inr h1"
    "tables_hold_map c h1 n (hh_tables T) (?m(key := None))"
    using del_values_ok [OF D W(2) assms(3)] Some by blast
  have im: "?im i = Some key" using hh_wfD(1) [OF W(1), of key i] Some by simp
  then have u: "i \<in> set (hh_used T)" using hh_wfD(4) [OF W(1)] by auto
  let ?T = "T\<lparr>hh_key_to_index := AList.delete key (hh_key_to_index T),
    hh_index_to_key := AList.delete i (hh_index_to_key T),
    hh_free := List.insert i (hh_free T), hh_used := removeAll i (hh_used T)\<rparr>"
  have maps: "map_of (hh_key_to_index ?T) = ?m(key := None)" "map_of (hh_index_to_key ?T) = ?im(i := None)"
    by (simp_all add: delete_conv')
  have inv: "(?m(key := None)) k = Some j \<longleftrightarrow> (?im(i := None)) j = Some k" for k j
    using hh_wfD(1) [OF W(1), of k j] hh_wfD(1) [OF W(1), of k i] hh_wfD(1) [OF W(1), of key j] Some im by auto
  have sets: "set (hh_used ?T) \<union> set (hh_free ?T) = {i. unat i < hh_capacity ?T}" "set (hh_used ?T) \<inter> set (hh_free ?T) = {}"
    using hh_wfD(5,6) [OF W(1)] u by auto
  have "hh_wf n ?T"
  proof (rule hh_wfI)
    show "map_of (hh_key_to_index ?T) k = Some j \<longleftrightarrow> map_of (hh_index_to_key ?T) j = Some k" for k j
      unfolding maps by (rule inv)
    show "length k = n" if "k \<in> dom (map_of (hh_key_to_index ?T))" for k
      using that hh_wfD(2) [OF W(1)] unfolding maps by (cases "k = key") auto
    show "set (hh_used ?T) = dom (map_of (hh_index_to_key ?T))"
      unfolding maps using hh_wfD(4) [OF W(1)] by simp
    show "distinct (hh_used ?T)" using hh_wfD(3) [OF W(1)] by (simp add: distinct_removeAll)
  qed (rule sets)+
  then have "hh_rel c n (?T, h1)" using h1(2) maps(1) by (simp add: hh_rel_def)
  moreover have "hh_remove sde key (T, h) = Inr (?T, h1)" using Some h1(1) by (simp add: hh_remove_def)
  ultimately show ?thesis by (auto simp: hh_frame_def)
qed

text \<open>A replacement deletes the old entry of a table before it adds the new one, so there is room.\<close>

lemma replace_entry_ok:
  assumes "driver_ok sde c room" "value_tables sde n room capacity tbs" "tb \<in> set tbs"
    "table_holds n tb (\<lambda>k. map_option (value_entry tb) (m k)) (c h (ta_name tb))"
    "\<forall>k \<in> dom m. length k = n" "length key = n" "m key = None" "m old = Some i" "card (dom m) \<le> capacity"
    "finite (dom m)"
  shows "\<exists>h'. replace_entry sde old key (split_bytes 4 (ucast j)) tb h = Inr h' \<and>
    c h' = (c h)(ta_name tb := (c h (ta_name tb))
      (key_values (ta_key_fields tb) old := None, key_values (ta_key_fields tb) key := Some (value_entry tb j)))"
proof -
  have V: "value_table sde n tb" "capacity \<le> room (ta_name tb)" using assms(2,3) by (auto simp: value_tables_def)
  note K = value_tableD(1) [OF V(1)]
  have old: "length old = n" using assms(5,8) by auto
  have "c h (ta_name tb) (key_values (ta_key_fields tb) old) \<noteq> None"
    using assms(4,8) old by (simp add: table_holds_def)
  then obtain h1 where h1: "entry_del sde h (ta_name tb) (key_values (ta_key_fields tb) old) = Some h1"
    "entry_stored c h (ta_name tb) (key_values (ta_key_fields tb) old) None h1"
    using assms(1) unfolding driver_ok_def keeps_entries_def by blast
  have c1: "c h1 (ta_name tb) = (c h (ta_name tb))(key_values (ta_key_fields tb) old := None)"
    using h1(2) by (simp add: entry_stored_def)
  have "(\<lambda>k. map_option (value_entry tb) ((m(old := None)) k)) = (\<lambda>k. map_option (value_entry tb) (m k))(old := None)"
    by (rule ext) simp
  then have holds: "table_holds n tb (\<lambda>k. map_option (value_entry tb) ((m(old := None)) k)) (c h1 (ta_name tb))"
    using table_holds_upd [OF K assms(4) old, of None] by (simp only: c1)
  have "card (dom (m(old := None))) < card (dom m)" using assms(8,10) by (intro psubset_card_mono) auto
  then have room: "card (dom (m(old := None))) < room (ta_name tb)" using assms(9) V(2) by simp
  have lens: "\<forall>k \<in> dom (m(old := None)). length k = n" and none: "(m(old := None)) key = None"
    using assms(5,7) by auto
  obtain h2 where h2: "entry_add sde h1 (ta_name tb) (key_values (ta_key_fields tb) key) (value_entry tb j) = Some h2"
    "entry_stored c h1 (ta_name tb) (key_values (ta_key_fields tb) key) (Some (value_entry tb j)) h2"
    using add_value_step [OF assms(1) V(1) holds assms(6) lens none room, of j] by blast
  have "replace_entry sde old key (split_bytes 4 (ucast j)) tb h = Inr h2"
    using h1(1) h2(1) value_tableD(2) [OF V(1)] set_key_ok [OF K old]
    by (simp add: replace_entry_def del_entry_def add_entry_def write_value [OF V(1) assms(6)])
  moreover have "c h2 = (c h)(ta_name tb := (c h (ta_name tb))
      (key_values (ta_key_fields tb) old := None, key_values (ta_key_fields tb) key := Some (value_entry tb j)))"
    using h1(2) h2(2) by (simp add: entry_stored_def)
  ultimately show ?thesis by blast
qed

lemma hh_replace_ok:
  assumes "hh_env sde c room n T" "hh_rel c n (T, h)" "length key = n" "map_of (hh_key_to_index T) key = None"
    "map_of (hh_index_to_key T) i = Some old"
  shows "\<exists>T' h'. hh_replace sde i key (T, h) = Inr (T', h') \<and> hh_rel c n (T', h') \<and> hh_frame T T'"
proof -
  let ?m = "map_of (hh_key_to_index T)" and ?im = "map_of (hh_index_to_key T)"
  have D: "driver_ok sde c room" "writes_registers sde" "value_tables sde n room (hh_capacity T) (hh_tables T)"
    "hh_capacity T < 2 ^ 32" using assms(1) by (simp_all add: hh_env_def)
  have W: "hh_wf n T" "tables_hold_map c h n (hh_tables T) ?m" using assms(2) by (simp_all add: hh_rel_def)
  have old: "?m old = Some i" using hh_wfD(1) [OF W(1), of old i] assms(5) by simp
  then have len: "length old = n" using hh_wfD(2) [OF W(1)] by auto
  have ne: "old \<noteq> key" using old assms(4) by auto
  have "set (hh_used T) \<subseteq> {i. unat i < hh_capacity T}" using hh_wfD(5) [OF W(1)] by blast
  then have "card (set (hh_used T)) \<le> card {i :: u32. unat i < hh_capacity T}" by (intro card_mono) auto
  then have le: "card (dom ?m) \<le> hh_capacity T" using hh_card [OF W(1)] card_below [OF D(4)] by simp
  let ?g = "\<lambda>tb es. es(key_values (ta_key_fields tb) old := None, key_values (ta_key_fields tb) key := Some (value_entry tb i))"
  have step: "\<exists>h'. replace_entry sde old key (split_bytes 4 (ucast i)) tb h = Inr h' \<and>
      c h' = (c h)(ta_name tb := ?g tb (c h (ta_name tb)))"
    if "tb \<in> set (hh_tables T)" "table_holds n tb (\<lambda>k. map_option (value_entry tb) (?m k)) (c h (ta_name tb))" for tb h
    by (rule replace_entry_ok [OF D(1,3) that hh_wfD(2) [OF W(1)] assms(3,4) old le finite_dom_map_of])
  have "\<exists>h'. for_tables (replace_entry sde old key (split_bytes 4 (ucast i))) (hh_tables T) h = Inr h' \<and>
      (\<forall>tb \<in> set (hh_tables T). c h' (ta_name tb) = ?g tb (c h (ta_name tb))) \<and>
      (\<forall>t. t \<notin> ta_name ` set (hh_tables T) \<longrightarrow> c h' t = c h t)"
    using D(3) W(2) step unfolding value_tables_def tables_hold_map_def tables_hold_def
    by (intro for_tables_each [where P = "\<lambda>tb es. table_holds n tb (\<lambda>k. map_option (value_entry tb) (?m k)) es"]) blast+
  then obtain h1 where h1: "for_tables (replace_entry sde old key (split_bytes 4 (ucast i))) (hh_tables T) h = Inr h1"
    "\<forall>tb \<in> set (hh_tables T). c h1 (ta_name tb) = ?g tb (c h (ta_name tb))" by blast
  have holds: "tables_hold_map c h1 n (hh_tables T) (?m(old := None, key \<mapsto> i))"
    unfolding tables_hold_map_def tables_hold_def
  proof
    fix tb assume tb: "tb \<in> set (hh_tables T)"
    have K: "key_table sde n tb" using value_tables_good [OF D(3)] tb by (simp add: good_tables_def)
    have "table_holds n tb (\<lambda>k. map_option (value_entry tb) (?m k)) (c h (ta_name tb))"
      using W(2) tb by (simp add: tables_hold_map_def tables_hold_def)
    then have "table_holds n tb ((\<lambda>k. map_option (value_entry tb) (?m k))(old := None, key := Some (value_entry tb i)))
        (?g tb (c h (ta_name tb)))"
      using K len assms(3) by (intro table_holds_upd)
    moreover have "(\<lambda>k. map_option (value_entry tb) (?m k))(old := None, key := Some (value_entry tb i)) =
        (\<lambda>k. map_option (value_entry tb) ((?m(old := None, key \<mapsto> i)) k))"
      by (rule ext) simp
    ultimately show "table_holds n tb (\<lambda>k. map_option (value_entry tb) ((?m(old := None, key \<mapsto> i)) k)) (c h1 (ta_name tb))"
      using h1(2) tb by simp
  qed
  obtain h2 where h2: "set_register sde (hh_counters T) i 0 h1 = Inr h2" "c h2 = c h1"
    using set_register_ok [OF D(1,2)] by blast
  let ?T = "T\<lparr>hh_index_to_key := AList.update i key (hh_index_to_key T),
    hh_key_to_index := map_insert key i (AList.delete old (hh_key_to_index T))\<rparr>"
  have maps: "map_of (hh_key_to_index ?T) = ?m(old := None, key \<mapsto> i)" "map_of (hh_index_to_key ?T) = ?im(i \<mapsto> key)"
    using assms(4) by (simp_all add: map_of_map_insert delete_conv' update_conv')
  have inv: "(?m(old := None, key \<mapsto> i)) k = Some j \<longleftrightarrow> (?im(i \<mapsto> key)) j = Some k" for k j
    using hh_wfD(1) [OF W(1), of k j] hh_wfD(1) [OF W(1), of k i] hh_wfD(1) [OF W(1), of key j]
      hh_wfD(1) [OF W(1), of old j] assms(4,5) old ne
    by (cases "k = key"; cases "j = i"; cases "k = old") simp_all
  have "hh_wf n ?T"
  proof (rule hh_wfI)
    show "map_of (hh_key_to_index ?T) k = Some j \<longleftrightarrow> map_of (hh_index_to_key ?T) j = Some k" for k j
      unfolding maps by (rule inv)
    show "length k = n" if "k \<in> dom (map_of (hh_key_to_index ?T))" for k
      using that hh_wfD(2) [OF W(1)] assms(3) unfolding maps by (cases "k = key"; cases "k = old") auto
    have "i \<in> dom ?im" using assms(5) by blast
    then show "set (hh_used ?T) = dom (map_of (hh_index_to_key ?T))"
      unfolding maps using hh_wfD(4) [OF W(1)] by (simp add: insert_absorb)
  qed (use hh_wfD(3,5,6) [OF W(1)] in simp_all)
  moreover have "tables_hold_map c h2 n (hh_tables ?T) (map_of (hh_key_to_index ?T))"
    unfolding maps(1) tables_hold_map_contents [OF h2(2)] using holds by simp
  ultimately have "hh_rel c n (?T, h2)" by (simp add: hh_rel_def)
  moreover have "hh_replace sde i key (T, h) = Inr (?T, h2)"
    using assms(4,5) ne h1(1) h2(1) by (simp add: hh_replace_def)
  ultimately show ?thesis by (auto simp: hh_frame_def)
qed

text \<open>When every index is used, a probe always finds one.\<close>

lemma probe_loop_ok:
  assumes "hh_env sde c room n T" "hh_rel c n (T, h)" "length key = n" "map_of (hh_key_to_index T) key = None"
    "hh_free T = []" "n_used = length (hh_used T)"
  shows "\<exists>T' h'. probe_loop sde key counter rand n_used r left (T, h) = Inr (T', h') \<and> hh_rel c n (T', h') \<and> hh_frame T T'"
proof (induction left arbitrary: r)
  case 0
  with assms(2) show ?case by auto
next
  case (Suc left)
  have W: "hh_wf n T" and cap: "hh_capacity T < 2 ^ 32" "0 < hh_capacity T" and reads: "reads_registers sde"
    using assms(1,2) by (simp_all add: hh_rel_def hh_env_def)
  have n_used: "n_used = hh_capacity T" using hh_full(1) [OF W cap(1) assms(5)] assms(6) by simp
  define probe :: u32 where "probe = word_of_nat (rand r mod n_used)"
  have "rand r mod n_used < n_used" using n_used cap(2) by simp
  then have "unat probe < hh_capacity T"
    using n_used cap(1) by (simp add: probe_def unsigned_of_nat take_bit_nat_eq_self)
  then have "probe \<in> set (hh_used T)" using hh_full(2) [OF W cap(1) assms(5)] by simp
  then obtain old where old: "map_of (hh_index_to_key T) probe = Some old" using hh_wfD(4) [OF W] by auto
  then have idx: "map_of (hh_key_to_index T) old = Some probe" using hh_wfD(1) [OF W, of old probe] by simp
  obtain v where v: "get_max sde (hh_counters T) probe h = Inr v" using get_max_ok [OF reads, of "hh_counters T" probe h] by blast
  have step: "probe_loop sde key counter rand n_used r (Suc left) (T, h) =
      (if counter > v then hh_replace sde probe key (T, h) else probe_loop sde key counter rand n_used (Suc r) left (T, h))"
    using n_used cap(2) old [unfolded probe_def] idx [unfolded probe_def] v [unfolded probe_def]
    by (simp add: Let_def probe_def)
  show ?case
  proof (cases "counter > v")
    case True
    with hh_replace_ok [OF assms(1-4) old] show ?thesis unfolding step by simp
  next
    case False
    with Suc [of "Suc r"] show ?thesis unfolding step by simp
  qed
qed

lemma hh_probabilistic_replace_ok:
  assumes "hh_env sde c room n T" "hh_rel c n (T, h)" "length key = n" "map_of (hh_key_to_index T) key = None"
    "hh_free T = []"
  shows "\<exists>T' h'. hh_probabilistic_replace sde rand key (T, h) = Inr (T', h') \<and> hh_rel c n (T', h') \<and> hh_frame T T'"
proof -
  have E: "reads_registers sde" "length (hh_salts T) = length (hh_sketch T)" using assms(1) by (simp_all add: hh_env_def)
  then have "length (calculate_hashes (hh_salts T) (hh_mask T) key) = length (hh_sketch T)"
    by (simp add: calculate_hashes_def)
  then obtain v where "hh_cms_get_min sde T (calculate_hashes (hh_salts T) (hh_mask T) key) h = Inr v"
    using min_loop_ok [OF E(1), of "hh_sketch T" "calculate_hashes (hh_salts T) (hh_mask T) key" "- 1" h]
    by (auto simp: hh_cms_get_min_def)
  with probe_loop_ok [OF assms refl, of v rand 0 TOTAL_PROBES] show ?thesis by (simp add: hh_probabilistic_replace_def)
qed

lemma hh_digest_ok:
  assumes "hh_env sde c room n T" "hh_rel c n (T, h)" "\<forall>(key, rand) \<in> set keys. length key = n"
    "\<And>xs. xs \<noteq> [] \<Longrightarrow> pick xs \<in> set xs"
  shows "\<exists>T' h'. hh_digest sde pick keys (T, h) = Inr (T', h') \<and> hh_rel c n (T', h') \<and> hh_frame T T'"
  using assms(1-3)
proof (induction keys arbitrary: T h)
  case (Cons kr keys)
  obtain key rand where kr: "kr = (key, rand)" by (cases kr)
  have len: "length key = n" using Cons.prems(3) kr by simp
  show ?case
  proof (cases "map_of (hh_key_to_index T) key")
    case (Some i)
    with Cons.IH [OF Cons.prems(1,2)] Cons.prems(3) kr show ?thesis by simp
  next
    case None
    have "\<exists>T1 h1. (if hh_free T \<noteq> [] then rbind (hh_insert sde pick key (T, h)) (\<lambda>(_, S). Inr S)
           else hh_probabilistic_replace sde rand key (T, h)) = Inr (T1, h1) \<and> hh_rel c n (T1, h1) \<and> hh_frame T T1"
    proof (cases "hh_free T = []")
      case True
      with hh_probabilistic_replace_ok [OF Cons.prems(1,2) len None True, of rand] show ?thesis by simp
    next
      case False
      with hh_insert_ok [where pick = pick, OF Cons.prems(1,2) len None False assms(4) [OF False]] show ?thesis by auto
    qed
    then obtain T1 h1 where 1: "(if hh_free T \<noteq> [] then rbind (hh_insert sde pick key (T, h)) (\<lambda>(_, S). Inr S)
           else hh_probabilistic_replace sde rand key (T, h)) = Inr (T1, h1)" "hh_rel c n (T1, h1)" "hh_frame T T1"
      by blast
    have "\<exists>T' h'. hh_digest sde pick keys (T1, h1) = Inr (T', h') \<and> hh_rel c n (T', h') \<and> hh_frame T1 T'"
      using Cons.prems(3) by (intro Cons.IH [OF hh_env_frame [OF Cons.prems(1) 1(3)] 1(2)]) simp
    then obtain T2 h2 where 2: "hh_digest sde pick keys (T1, h1) = Inr (T2, h2)" "hh_rel c n (T2, h2)" "hh_frame T1 T2"
      by blast
    have "hh_digest sde pick (kr # keys) (T, h) = Inr (T2, h2)" unfolding kr using None 1(1) 2(1) by simp
    with 2(2) hh_frame_trans [OF 1(3) 2(3)] show ?thesis by blast
  qed
qed auto

lemma hh_rel_reports [simp]: "hh_rel c n (T\<lparr>hh_reports := rs\<rparr>, h) = hh_rel c n (T, h)"
  by (simp add: hh_rel_def hh_wf_def)

lemma hh_frame_reports [simp]:
  "hh_frame (T\<lparr>hh_reports := rs\<rparr>) T' = hh_frame T T'" "hh_frame T (T'\<lparr>hh_reports := rs\<rparr>) = hh_frame T T'"
  by (simp_all add: hh_frame_def)

lemma hh_expire_ok:
  assumes "hh_env sde c room n T" "hh_rel c n (T, h)" "length key = n" "tb \<in> set (hh_tables T)"
  shows "\<exists>T' h'. hh_expire sde (get_full_name tb) (key_values (ta_key_fields tb) key) (T, h) = Inr (T', h') \<and>
    hh_rel c n (T', h') \<and> hh_frame T T'"
proof -
  have V: "value_tables sde n room (hh_capacity T) (hh_tables T)" using assms(1) by (simp add: hh_env_def)
  then have names: "distinct (map ta_name (hh_tables T))" by (simp add: value_tables_def)
  have K: "key_table sde n tb" using value_tables_good [OF V] assms(4) by (simp add: good_tables_def)
  have find: "find_target (hh_tables T) (get_full_name tb) = Inr tb"
    using find_target_ok [OF assms(4) names] by (simp add: get_full_name_def)
  let ?T = "T\<lparr>hh_reports := add_report key (get_full_name tb) (hh_reports T)\<rparr>"
  have E: "hh_env sde c room n ?T" by (rule hh_env_frame [OF assms(1)]) simp
  obtain T1 h1 where 1: "hh_remove sde key (?T, h) = Inr (T1, h1)" "hh_rel c n (T1, h1)" "hh_frame T T1"
    using hh_remove_ok [OF E _ assms(3), of h] assms(2) by auto
  show ?thesis
  proof (cases "length (reported (hh_reports ?T) key) = length (hh_tables T)")
    case True
    with find reported_key_ok [OF K assms(3)] 1 show ?thesis by (simp add: hh_expire_def Let_def)
  next
    case False
    with find reported_key_ok [OF K assms(3)] assms(2) show ?thesis by (simp add: hh_expire_def Let_def)
  qed
qed

lemma hh_clear_ok:
  assumes "hh_env sde c room n T" "hh_rel c n (T, h)"
  shows "\<exists>h'. hh_clear_counters sde (T, h) = Inr (T, h') \<and> hh_rel c n (T, h')"
proof -
  have D: "driver_ok sde c room" "writes_registers sde" using assms(1) by (simp_all add: hh_env_def)
  obtain h1 where h1: "clear_registers sde (hh_sketch T) h = Inr h1" "c h1 = c h"
    using clear_registers_ok [OF D, of "hh_sketch T" h] by blast
  obtain h2 where h2: "overwrite_all_entries sde (hh_counters T) 0 h1 = Inr h2" "c h2 = c h1"
    using overwrite_ok [OF D, of "hh_counters T" 0 _ h1] unfolding overwrite_all_entries_def by blast
  have "c h2 = c h" using h1(2) h2(2) by simp
  then have "hh_rel c n (T, h2)" using assms(2) tables_hold_map_contents [of c h2 h] by (simp add: hh_rel_def)
  with h1(1) h2(1) show ?thesis by (simp add: hh_clear_counters_def)
qed

section \<open>Sequences of events\<close>

datatype hh_event = HH_Digest "(buffer \<times> (nat \<Rightarrow> nat)) list" | HH_Aged nat buffer | HH_Reset

fun hh_event_step :: "'h sde \<Rightarrow> (u32 list \<Rightarrow> u32) \<Rightarrow> hh_event \<Rightarrow> sycon_hh \<times> 'h \<Rightarrow> (sycon_hh \<times> 'h) result" where
  "hh_event_step sde pick (HH_Digest keys) S = hh_digest sde pick keys S"
| "hh_event_step sde pick (HH_Aged t k) S =
     (let tb = hh_tables (fst S) ! t in hh_expire sde (get_full_name tb) (key_values (ta_key_fields tb) k) S)"
| "hh_event_step sde pick HH_Reset S = hh_clear_counters sde S"

fun hh_run :: "'h sde \<Rightarrow> (u32 list \<Rightarrow> u32) \<Rightarrow> hh_event list \<Rightarrow> sycon_hh \<times> 'h \<Rightarrow> (sycon_hh \<times> 'h) result" where
  "hh_run sde pick [] S = Inr S"
| "hh_run sde pick (e # es) S = rbind (hh_event_step sde pick e S) (hh_run sde pick es)"

fun hh_event_ok :: "nat \<Rightarrow> nat \<Rightarrow> hh_event \<Rightarrow> bool" where
  "hh_event_ok n tables (HH_Digest keys) \<longleftrightarrow> (\<forall>(key, rand) \<in> set keys. length key = n)"
| "hh_event_ok n tables (HH_Aged t k) \<longleftrightarrow> t < tables \<and> length k = n"
| "hh_event_ok n tables HH_Reset \<longleftrightarrow> True"

lemma hh_step_ok:
  assumes "hh_env sde c room n T" "hh_rel c n (T, h)" "hh_event_ok n (length (hh_tables T)) e"
    "\<And>xs. xs \<noteq> [] \<Longrightarrow> pick xs \<in> set xs"
  shows "\<exists>T' h'. hh_event_step sde pick e (T, h) = Inr (T', h') \<and> hh_rel c n (T', h') \<and> hh_frame T T'"
proof (cases e)
  case (HH_Digest keys)
  with hh_digest_ok [where pick = pick and keys = keys, OF assms(1,2) _ assms(4)] assms(3) show ?thesis by simp
next
  case (HH_Aged t k)
  with hh_expire_ok [OF assms(1,2), of k "hh_tables T ! t"] assms(3) show ?thesis by (simp add: Let_def)
next
  case HH_Reset
  with hh_clear_ok [OF assms(1,2)] show ?thesis by auto
qed

lemma hh_run_ok:
  assumes "hh_env sde c room n T" "hh_rel c n (T, h)" "\<forall>e \<in> set es. hh_event_ok n (length (hh_tables T)) e"
    "\<And>xs. xs \<noteq> [] \<Longrightarrow> pick xs \<in> set xs"
  shows "\<exists>T' h'. hh_run sde pick es (T, h) = Inr (T', h') \<and> hh_rel c n (T', h') \<and> hh_frame T T'"
  using assms(1-3)
proof (induction es arbitrary: T h)
  case (Cons e es)
  obtain T1 h1 where 1: "hh_event_step sde pick e (T, h) = Inr (T1, h1)" "hh_rel c n (T1, h1)" "hh_frame T T1"
    using hh_step_ok [where pick = pick and e = e, OF Cons.prems(1,2) _ assms(4)] Cons.prems(3) by auto
  have tb: "hh_tables T1 = hh_tables T" using 1(3) by (simp add: hh_frame_def)
  obtain T2 h2 where 2: "hh_run sde pick es (T1, h1) = Inr (T2, h2)" "hh_rel c n (T2, h2)" "hh_frame T1 T2"
    using Cons.IH [OF hh_env_frame [OF Cons.prems(1) 1(3)] 1(2)] Cons.prems(3) tb by auto
  have "hh_run sde pick (e # es) (T, h) = Inr (T2, h2)" using 1(1) 2(1) by simp
  with 2(2) hh_frame_trans [OF 1(3) 2(3)] show ?case by blast
qed auto

lemma new_sycon_hh_rel:
  assumes "new_sycon_hh sde names counters_name sketch_names threshold_name timeout h = Inr (T, h0)" "driver_ok sde c room"
    "\<forall>tb \<in> set (hh_tables T). c h (ta_name tb) = Map.empty"
  shows "hh_rel c n (T, h0)" "hh_capacity T < 2 ^ 32" "length (hh_salts T) = length (hh_sketch T)"
proof -
  obtain threshold h1 tbs0 capacity sketch salts where T: "set_register sde threshold 0 THRESHOLD h = Inr h1"
    "notify_tables sde timeout tbs0 h1 = Inr (hh_tables T, h0)"
    "hh_capacity T = capacity mod 2 ^ 32" "hh_key_to_index T = []" "hh_index_to_key T = []" "hh_used T = []"
    "hh_free T = map word_of_nat [0..<hh_capacity T]" "hh_salts T = salts" "hh_sketch T = sketch" "length salts = length sketch"
    using assms(1) by (auto simp: new_sycon_hh_def Let_def rbind_eq_Inr assert_that_eq_Inr)
  show cap: "hh_capacity T < 2 ^ 32" by (simp add: T(3))
  show "length (hh_salts T) = length (hh_sketch T)" by (simp add: T)
  have "register_write sde h (rg_name threshold) 0 THRESHOLD = Some h1"
    using T(1) by (simp add: set_register_def status_def split: option.splits)
  then have "c h1 = c h" using assms(2) unfolding driver_ok_def keeps_entries_def by blast
  moreover have "c h0 = c h1" using notify_tables_contents [OF assms(2) T(2)] by simp
  ultimately have c: "c h0 = c h" by simp
  have u: "unat (word_of_nat i :: u32) = i" if "i < hh_capacity T" for i
    using that cap by (simp add: unsigned_of_nat take_bit_nat_eq_self)
  have "hh_wf n T"
  proof (rule hh_wfI)
    show "set (hh_used T) \<union> set (hh_free T) = {i. unat i < hh_capacity T}"
    proof (intro set_eqI iffI)
      fix i assume "i \<in> set (hh_used T) \<union> set (hh_free T)"
      then obtain j where "i = word_of_nat j" "j < hh_capacity T" by (auto simp: T(6,7))
      with u show "i \<in> {i. unat i < hh_capacity T}" by simp
    next
      fix i :: u32 assume "i \<in> {i. unat i < hh_capacity T}"
      then show "i \<in> set (hh_used T) \<union> set (hh_free T)"
        unfolding T(6,7) set_map by (intro UnI2 image_eqI [of _ _ "unat i"]) simp_all
    qed
  qed (simp_all add: T)
  then show "hh_rel c n (T, h0)"
    using assms(3) c by (simp add: hh_rel_def T(4) tables_hold_map_def tables_hold_def table_holds_def)
qed

text \<open>C14. Whatever digests, reports of aged entries and resets of the counters arrive, in whatever order, the
  table of heavy hitters never aborts the controller: every cached key has an index of its own that is in
  use and below the capacity, and every table of the switch has an entry for exactly the cached keys,
  with their indexes.\<close>
theorem hh_table_mirrors_switch:
  assumes "new_sycon_hh sde names counters_name sketch_names threshold_name timeout h = Inr (T, h0)"
    "driver_ok sde c room" "writes_registers sde" "reads_registers sde"
    "value_tables sde n room (hh_capacity T) (hh_tables T)" "0 < hh_capacity T"
    "\<forall>tb \<in> set (hh_tables T). c h (ta_name tb) = Map.empty"
    "\<And>xs. xs \<noteq> [] \<Longrightarrow> pick xs \<in> set xs" "\<forall>e \<in> set es. hh_event_ok n (length (hh_tables T)) e"
  shows "\<exists>T' h'. hh_run sde pick es (T, h0) = Inr (T', h') \<and>
    (\<forall>k i. hh_get T' k = Some i \<longrightarrow> hh_is_index_allocated T' i \<and> unat i < hh_capacity T) \<and>
    (\<forall>k k' i. hh_get T' k = Some i \<longrightarrow> hh_get T' k' = Some i \<longrightarrow> k = k') \<and>
    (\<forall>tb \<in> set (hh_tables T). \<forall>k. length k = n \<longrightarrow>
      c h' (ta_name tb) (key_values (ta_key_fields tb) k) = map_option (value_entry tb) (hh_get T' k))"
proof -
  note N = new_sycon_hh_rel [OF assms(1,2,7)]
  have E: "hh_env sde c room n T" using assms(2-6) N(2,3) by (simp add: hh_env_def)
  obtain T' h' where r: "hh_run sde pick es (T, h0) = Inr (T', h')" "hh_rel c n (T', h')" "hh_frame T T'"
    using hh_run_ok [where pick = pick and es = es, OF E N(1) assms(9) assms(8)] by blast
  have W: "hh_wf n T'" using r(2) by (simp add: hh_rel_def)
  have inv: "hh_get T' k = Some i \<longleftrightarrow> map_of (hh_index_to_key T') i = Some k" for k i
    using hh_wfD(1) [OF W, of k i] by (simp add: hh_get_def)
  have "i \<in> set (hh_used T') \<and> unat i < hh_capacity T" if "hh_get T' k = Some i" for k i
  proof -
    have "i \<in> set (hh_used T')" using that inv hh_wfD(4) [OF W] by blast
    with hh_wfD(5) [OF W] r(3) show ?thesis by (auto simp: hh_frame_def)
  qed
  moreover have "k = k'" if "hh_get T' k = Some i" "hh_get T' k' = Some i" for k k' i
    using that by (simp add: inv)
  moreover have "c h' (ta_name tb) (key_values (ta_key_fields tb) k) = map_option (value_entry tb) (hh_get T' k)"
    if "tb \<in> set (hh_tables T)" "length k = n" for tb k
    using r(2,3) that by (simp add: hh_rel_def hh_frame_def hh_get_def tables_hold_map_def tables_hold_def table_holds_def)
  ultimately show ?thesis using r(1) unfolding hh_is_index_allocated_def by blast
qed

text \<open>When the second table refuses a key the first one keeps its entry, and the controller forgets it.\<close>

lemma refused_insert_leaves_entry:
  assumes "hh_tables T = [a, b]" "value_table sde n a" "value_table sde n b" "length key = n"
    "map_of (hh_key_to_index T) key = None" "hh_free T \<noteq> []"
    "entry_add sde h (ta_name a) (key_values (ta_key_fields a) key) (value_entry a (pick (hh_free T))) = Some h1"
    "entry_add sde h1 (ta_name b) (key_values (ta_key_fields b) key) (value_entry b (pick (hh_free T))) = None"
  shows "hh_insert sde pick key (T, h) = Inr (False, T, h1)"
  using assms value_tableD(2) [OF assms(2)] value_tableD(2) [OF assms(3)]
  by (simp add: hh_insert_def Let_def try_add_entry_def write_value [OF assms(2,4)] write_value [OF assms(3,4)])

section \<open>Two tables with one row of counters\<close>

definition sample_hh :: sycon_hh where
  "sample_hh = \<lparr>hh_tables = [map_sw_table ''a'', map_sw_table ''b''],
     hh_counters = \<lparr>rg_name = ''counters'', rg_capacity = 16, rg_value_size = 32\<rparr>,
     hh_sketch = [\<lparr>rg_name = ''row'', rg_capacity = 16, rg_value_size = 32\<rparr>],
     hh_capacity = 18, hh_salts = [split_bytes 4 (ucast (0xfbc31fc7 :: u32))], hh_mask = mask 4, hh_key_to_index = [],
     hh_index_to_key = [], hh_free = map word_of_nat [0..<18], hh_used = [], hh_reports = []\<rparr>"

lemma sample_hh_new:
  "new_sycon_hh (sample_driver map_info) [''a'', ''b''] ''counters'' [''row''] ''threshold'' 1000 (\<lambda>t. Map.empty) =
     Inr (sample_hh, \<lambda>t. Map.empty)"
proof -
  have m: "build_hash_mask 16 = Inr (mask 4)" using hash_mask_power [of 4] by simp
  have s: "build_hash_salts 1 = Inr [split_bytes 4 (ucast (0xfbc31fc7 :: u32))]"
    by (simp add: build_hash_salts_def HASH_SALTS_def del: split_bytes.simps)
  show ?thesis
    using m s
    by (simp add: new_sycon_hh_def new_sw_table_def new_sw_register_def sample_driver_def map_info_def
        build_key_fields_def build_actions_def round_to_bytes_def get_effective_capacity_def set_notify_mode_def
        TOFINO_MIN_EXPIRATION_TIME_def set_register_def sample_hh_def map_sw_table_def table_key_bits_def Let_def
        del: upt.simps upt_rec_numeral)
qed

theorem hh_table_mirrors_switch_witness:
  "\<exists>T' h'. hh_run (sample_driver map_info) hd
       [HH_Digest [([10, 0, 0, 1], \<lambda>i. 0), ([10, 0, 0, 2], \<lambda>i. 0)], HH_Aged 0 [10, 0, 0, 1], HH_Reset]
       (sample_hh, \<lambda>t. Map.empty) = Inr (T', h') \<and>
     (\<forall>k i. hh_get T' k = Some i \<longrightarrow> hh_is_index_allocated T' i \<and> unat i < hh_capacity sample_hh) \<and>
     (\<forall>k k' i. hh_get T' k = Some i \<longrightarrow> hh_get T' k' = Some i \<longrightarrow> k = k') \<and>
     (\<forall>tb \<in> set (hh_tables sample_hh). \<forall>k. length k = 4 \<longrightarrow>
       h' (ta_name tb) (key_values (ta_key_fields tb) k) = map_option (value_entry tb) (hh_get T' k))"
proof (rule hh_table_mirrors_switch [OF sample_hh_new sample_driver_ok])
  show "value_tables (sample_driver map_info) 4 (\<lambda>t. 18) (hh_capacity sample_hh) (hh_tables sample_hh)"
    by (simp add: value_tables_def value_table_def key_table_def sample_hh_def map_sw_table_def good_field_def
        key_size_def takes_key_def sample_driver_def del: upt_rec_numeral)
  show "\<And>xs :: u32 list. xs \<noteq> [] \<Longrightarrow> hd xs \<in> set xs" by simp
qed (simp_all add: writes_registers_def reads_registers_def sample_driver_def sample_hh_def del: upt_rec_numeral)

end
