(* ===== verification/Spec2Isabelle.thy ===== *)
theory Spec2Isabelle
  imports StructureProperties PlacerProperties SolverPlacerCorrect SimplePlacerDemand
    TNA_ParserCorrect NFTraces NatCorrect FirewallCorrect Policer CountMinSketches ConsistentHashing ForwardingTable
    KeyValueStore LoadBalancerCorrect ConnectionLimiter PortScanCorrect HeavyHittersCorrect SearchEngine
    BDDComparison BDDCopies SyconChains SyconHeavyHittersCorrect
begin

text \<open>
  Verification development for SyNAPSE.

  \<^bold>\<open>The program.\<close> SyNAPSE compiles network functions written in C to programmable switches. The
  functions (\<^verbatim>\<open>src/dpdk-nfs\<close>) keep their state in a small library of C data structures
  (\<^verbatim>\<open>lib/state\<close>). Symbolic execution turns a function into a binary decision diagram
  (\<^verbatim>\<open>LibBDD\<close>); the compiler (\<^verbatim>\<open>src/synapse/libraries/LibSynapse\<close>) searches for an execution
  plan of the diagram: the search takes the plan its heuristic scores best, every module of every
  target says how it implements the plan's next node, and the results go back to the search.
  Tofino modules create switch data structures and ask the switch model (\<^verbatim>\<open>Modules/Tofino/TNA\<close>)
  whether the pipeline and the parser still have room for them. A complete plan is printed as P4
  and C++ by the synthesizers.

  \<^bold>\<open>Conventions.\<close> Machine integers are words of their width and wrap. Every assertion, panic,
  failed \<^verbatim>\<open>at()\<close>, access outside an array and null dereference is a value \<open>Inl error\<close> of the
  type \<open>result\<close> of \<^verbatim>\<open>Prelude\<close>; loops that may not end are partial functions into \<open>option\<close>, where
  \<open>None\<close> means that they do not return, and their termination is proved. Objects that the code
  shares through pointers are positions in a list that is their heap. There is no fuel except where
  a theory says so.

  \<^bold>\<open>The compiler's model of the switch.\<close>
  \<^item> \<^verbatim>\<open>CoreTypes\<close>: arithmetic of \<^verbatim>\<open>LibCore/Types.cpp\<close> and \<^verbatim>\<open>Math.h\<close>.
  \<^item> \<^verbatim>\<open>Primitives\<close>, \<^verbatim>\<open>Composites\<close>, \<^verbatim>\<open>TableStores\<close>, \<^verbatim>\<open>DataStructure\<close>, \<^verbatim>\<open>DSStore\<close>: the
    classes of \<^verbatim>\<open>Modules/Tofino/DataStructures\<close>, their constructors with every assertion, what
    they consume, their parts in levels, and the container that owns them. \<^verbatim>\<open>StructureProperties\<close>
    proves when constructors succeed, what they build and what the container keeps.
  \<^item> \<^verbatim>\<open>TNA_Pipeline\<close>, \<^verbatim>\<open>Placement\<close>, \<^verbatim>\<open>SimplePlacer\<close>: the pipeline's stages, the dependency
    analysis, and the greedy placer (\<^verbatim>\<open>Pipeline.cpp\<close>, \<^verbatim>\<open>SimplePlacer.cpp\<close>).
    \<^verbatim>\<open>SimplePlacerContract\<close>, \<open>\<dots>Correct\<close>, \<open>\<dots>Demand\<close> and \<open>\<dots>Levels\<close> state the contract of a placer of
    primitives as a locale, interpret it on every placer and derive from it that no stage is
    overdrawn, what is charged, and in which order structures lie. \<^verbatim>\<open>PlacerProperties\<close> has the
    cases where the placer promises less.
  \<^item> \<^verbatim>\<open>SolverPlacer\<close>, \<^verbatim>\<open>SolverPlacerCorrect\<close>: the constraint system of \<^verbatim>\<open>SolverPlacer.cpp\<close>, and
    what any model of it means. The Z3 optimizer is a parameter that is assumed to satisfy
    the constraints and to minimise the objective, as its documentation says.
  \<^item> \<^verbatim>\<open>TNA_Parser\<close>, \<^verbatim>\<open>TNA_ParserCorrect\<close>: the packet parser of \<^verbatim>\<open>Parser.h\<close> on a heap of states.
  \<^item> \<^verbatim>\<open>Tofino2Config\<close>: the switch of \<^verbatim>\<open>configs/tofino2.toml\<close>, at which witnesses are evaluated.

  \<^bold>\<open>The search.\<close> \<^verbatim>\<open>SearchHeuristic\<close> has the scores (an instance of \<open>linorder\<close>), the metrics and
  the ordered sets of plans of \<^verbatim>\<open>Heuristics/\<close>; \<^verbatim>\<open>SearchEngine\<close> the search space, the driver of
  the modules and the loop of \<^verbatim>\<open>Search.cpp\<close>. Plans and modules are parameters. The search ends when
  every module takes a plan closer to its end by some measure (multiset order of the unfinished
  plans); random numbers are a sequence that is even again and again.

  \<^bold>\<open>The decision diagrams.\<close> Nodes are objects linked by raw pointers in both directions and owned by
  a manager: \<^verbatim>\<open>BDDNodes\<close> (\<^verbatim>\<open>LibBDD/Nodes\<close>) and \<^verbatim>\<open>BDDGraph\<close> (\<^verbatim>\<open>LibBDD/BDD.cpp\<close>) model them over an
  explicit heap; expressions, their negation, equality and symbols are parameters.
  \<^item> \<^verbatim>\<open>BDDTrees\<close>: when a heap holds a tree, and how an edit of the heap is an edit of the tree.
    \<^verbatim>\<open>BDDTraversal\<close>: visits go through the tree in breadth-first order and end; clones are equal
    and disjoint; renumbering and freeing are what they are on trees.
  \<^item> \<^verbatim>\<open>BDDEdits\<close>, \<^verbatim>\<open>BDDInserts\<close>: the invariant of a diagram (\<open>bdd_rep\<close>: its nodes are exactly those
    of a tree and of the list of initial calls, each owned once) and every edit under it.
    \<^verbatim>\<open>BDDRefinement\<close>: sequences of edits refine edits of trees, and which of them keep the
    behaviour; \<^verbatim>\<open>BDDCopies\<close>: copies are independent. \<^verbatim>\<open>BDDSample\<close> is the diagram of the witnesses.
  \<^item> \<^verbatim>\<open>BDDQueries\<close>, \<^verbatim>\<open>BDDComparison\<close>: which constraints a node is given, what the inspection accepts,
    when subtrees are equal, and what is deleted when constraints decide a branch.

  \<^bold>\<open>The network functions.\<close>
  \<^item> \<^verbatim>\<open>DChainImpl\<close>, \<^verbatim>\<open>DoubleChain\<close> with \<^verbatim>\<open>Aging\<close>: the index allocator, refined to a list of
    aged indices. \<^verbatim>\<open>NFMap\<close>, \<^verbatim>\<open>NFMapCorrect\<close>: the hash map, refined to a partial map. \<^verbatim>\<open>NFVector\<close>:
    vectors. \<^verbatim>\<open>NFTraces\<close>: whole runs of the allocator and the map.
  \<^item> \<^verbatim>\<open>FlowTable\<close>: map, vector and allocator used together, with expiration; its locales are the
    interface on which every function below relies, interpreted on the structures' models.
  \<^item> \<^verbatim>\<open>Compute\<close>, \<^verbatim>\<open>CountMinSketches\<close>, \<^verbatim>\<open>ConsistentHashing\<close>, \<^verbatim>\<open>ForwardingTable\<close>,
    \<^verbatim>\<open>TokenBucket\<close>: the other structures of \<^verbatim>\<open>lib/state\<close>.
  \<^item> \<^verbatim>\<open>NFPacket\<close>: header access of \<^verbatim>\<open>nf-util.h\<close>. \<^verbatim>\<open>NatFlows\<close>, \<^verbatim>\<open>NatCorrect\<close> (\<^verbatim>\<open>nat\<close>);
    \<^verbatim>\<open>Firewall\<close>, \<^verbatim>\<open>FirewallCorrect\<close> (\<^verbatim>\<open>fw\<close>); \<^verbatim>\<open>Policer\<close> (\<^verbatim>\<open>pol\<close>); \<^verbatim>\<open>KeyValueStore\<close> (\<^verbatim>\<open>kvs\<close>);
    \<^verbatim>\<open>LoadBalancer\<close>, \<^verbatim>\<open>LoadBalancerCorrect\<close> (\<^verbatim>\<open>lb\<close>); \<^verbatim>\<open>ConnectionLimiter\<close> (\<^verbatim>\<open>cl\<close>);
    \<^verbatim>\<open>PortScan\<close>, \<^verbatim>\<open>PortScanCorrect\<close> (\<^verbatim>\<open>psd\<close>); \<^verbatim>\<open>HeavyHitters\<close>, \<^verbatim>\<open>HeavyHittersCorrect\<close> (\<^verbatim>\<open>hhh\<close>):
    state creation, expiration and the whole of \<^verbatim>\<open>nf_process\<close>. Each proves that a packet keeps the tables
    consistent and what the function promises its users over sequences of packets.

  \<^bold>\<open>The controllers' library.\<close> The generated controllers run on \<^verbatim>\<open>src/libsycon\<close>. The driver of
  the switch is a parameter, a record of the calls that the library makes; \<open>driver_ok\<close> states what the
  library relies on: the driver stores, changes and deletes entries, and takes new ones while a table has
  room.
  \<^item> \<^verbatim>\<open>SyconBuffers\<close> (\<^verbatim>\<open>buffer.h\<close>), \<^verbatim>\<open>SyconHash\<close> (\<^verbatim>\<open>hash.h\<close>): byte buffers, and the CRC-32 over a table,
    which is the division by the polynomial. \<^verbatim>\<open>SyconTables\<close> (\<^verbatim>\<open>primitives\<close>): tables, registers and
    digests; keys come back from the switch as they were written.
  \<^item> \<^verbatim>\<open>SyconMirror\<close>, \<^verbatim>\<open>SyconMaps\<close> (\<^verbatim>\<open>map_table.h\<close>, \<^verbatim>\<open>guarded_map_table.h\<close>), \<^verbatim>\<open>SyconChains\<close>
    (\<^verbatim>\<open>dchain_table.h\<close>, \<^verbatim>\<open>vector_table.h\<close>, \<^verbatim>\<open>vector_register.h\<close>), \<^verbatim>\<open>SyconHeavyHitters\<close> with
    \<^verbatim>\<open>SyconHeavyHittersCorrect\<close> (\<^verbatim>\<open>count_min_sketch.cpp\<close>, \<^verbatim>\<open>hh_table.cpp\<close>): the structures that keep a
    cache in the controller and equal tables in the switch, under sequences of the controller's calls
    and the switch's reports. Each is shown to keep the tables equal to the cache.
\<close>

text \<open>
  \<^bold>\<open>Parameters.\<close> The CRC instruction behind the hashes, the checksums of DPDK, the byte swap, the
  contents of memory before it is written (padding included), \<^verbatim>\<open>rand\<close>, the devices present, the
  lines of a file that is read, and whether an allocation succeeds are arguments of the
  definitions that use them. Times are integers within the range of the signed 64-bit clock.

  \<^bold>\<open>Not modelled.\<close> Printing, visualizers and descriptions; parsing of command lines; DPDK's
  initialisation and packet I/O (\<^verbatim>\<open>nf.c\<close>); the models for symbolic execution
  (\<^verbatim>\<open>dpdk-nfs/lib/models\<close>); everything that looks into expressions of KLEE (in
  \<^verbatim>\<open>LibBDD\<close> the construction from call paths, \<^verbatim>\<open>Reorder.cpp\<close>, \<^verbatim>\<open>IO.cpp\<close>, \<^verbatim>\<open>Profile.cpp\<close> and the queries for
  patterns of calls; \<^verbatim>\<open>LibCore/Expr.cpp\<close>, \<^verbatim>\<open>Solver.cpp\<close>, the modules and \<^verbatim>\<open>ExecutionPlan.cpp\<close>); the throughput
  estimates, which are floating point (\<^verbatim>\<open>PerfOracle.cpp\<close>, \<^verbatim>\<open>Profiler.cpp\<close>); the generated code and
  the controllers under \<^verbatim>\<open>src/tofino\<close>, which need the vendor's runtime; of \<^verbatim>\<open>src/libsycon\<close> the
  start-up, ports, packets, transactions and meta tables, the integer allocator and the first-come
  first-served table.

  \<^bold>\<open>Plan.\<close> Next would be the bookkeeping of plans (\<^verbatim>\<open>Meta.cpp\<close>, \<^verbatim>\<open>EPNode.cpp\<close>) and \<^verbatim>\<open>Reorder.cpp\<close>,
  with what it asks the solver as parameters.
\<close>

end
